(* ===== verification/Prelude.thy ===== *)
theory Prelude
  imports Main "HOL-Library.Word"
begin

text \<open>
  Shared vocabulary of the development.

  \<^item> \<open>error\<close> and \<open>result\<close>: the exceptions of
    \<^verbatim>\<open>src/src/core/include/utils/exception.h\<close>, the calls of \<^verbatim>\<open>exit\<close> and the points
    where C++ leaves the behaviour undefined, as values of a sum type, with the sequencing
    operator \<open>bindR\<close>.
  \<^item> \<open>dword\<close>: the type of double width that \<^verbatim>\<open>DataTypes<T>::DoubleType\<close> selects.  A native
    integer is an \<open>'a word\<close>, its double an \<open>'a bit0 word\<close>; the type argument 32 gives
    \<^verbatim>\<open>uint32_t\<close>/\<^verbatim>\<open>uint64_t\<close> and 64 gives \<^verbatim>\<open>uint64_t\<close>/\<^verbatim>\<open>uint128_t\<close>.
  \<^item> the collections \<open>uint_simps\<close> (reading machine words as integers) and \<open>result_simps\<close>.
  \<^item> general facts on quotients, remainders and bit lengths that several components share.
\<close>

named_theorems uint_simps \<open>the integer value of a machine operation\<close>
named_theorems result_simps \<open>computation of result values\<close>

section \<open>Errors as values\<close>

datatype error =
    math_error
  | type_error
  | config_error
  | not_implemented_error
  | not_available_error
  | openfhe_error
  | exit_failure
  | undefined_behaviour

type_synonym 'a result = "error + 'a"

definition bindR :: "'a result \<Rightarrow> ('a \<Rightarrow> 'b result) \<Rightarrow> 'b result" where
  "bindR r f = (case r of Inl e \<Rightarrow> Inl e | Inr x \<Rightarrow> f x)"

lemma bindR_simps [simp, result_simps]:
  "bindR (Inl e) f = Inl e"
  "bindR (Inr x) f = f x"
  by (simp_all add: bindR_def)

lemma bindR_eq_Inr [result_simps]:
  "bindR r f = Inr y \<longleftrightarrow> (\<exists>x. r = Inr x \<and> f x = Inr y)"
  by (cases r) auto

lemma bindR_eq_Inl [result_simps]:
  "bindR r f = Inl e \<longleftrightarrow> r = Inl e \<or> (\<exists>x. r = Inr x \<and> f x = Inl e)"
  by (cases r) auto

lemma bindR_assoc: "bindR (bindR r f) g = bindR r (\<lambda>x. bindR (f x) g)"
  by (cases r) auto

definition throwIf :: "bool \<Rightarrow> error \<Rightarrow> 'a result \<Rightarrow> 'a result" where
  "throwIf c e r = (if c then Inl e else r)"

lemma throwIf_simps [simp, result_simps]:
  "throwIf True e r = Inl e"
  "throwIf False e r = r"
  by (simp_all add: throwIf_def)

lemma throwIf_eq_Inr [result_simps]: "throwIf c e r = Inr x \<longleftrightarrow> \<not> c \<and> r = Inr x"
  by (simp add: throwIf_def)

section \<open>Machine words as integers\<close>

type_synonym 'a dword = "'a bit0 word"

lemma uint_add_mod [uint_simps]:
  "uint (a + b :: 'a::len word) = (uint a + uint b) mod 2 ^ LENGTH('a)"
  by (simp add: uint_word_ariths)

lemma uint_sub_mod [uint_simps]:
  "uint (a - b :: 'a::len word) = (uint a - uint b) mod 2 ^ LENGTH('a)"
  by (simp add: uint_word_ariths)

lemma uint_mul_mod [uint_simps]:
  "uint (a * b :: 'a::len word) = (uint a * uint b) mod 2 ^ LENGTH('a)"
  by (simp add: uint_word_ariths)

lemma uint_lt_pow [simp]: "uint (a :: 'a::len word) < 2 ^ LENGTH('a)"
  by (rule uint_lt2p)

lemma uint_le_pow [simp]: "uint (a :: 'a::len word) \<le> 2 ^ LENGTH('a)"
  using uint_lt_pow less_imp_le by blast

lemma uint_pos_iff: "0 < uint (a :: 'a::len word) \<longleftrightarrow> a \<noteq> 0"
  using uint_ge_0 [of a] by (auto simp: order_less_le uint_0_iff)

lemma uint_add_exact:
  fixes a b :: "'a::len word"
  assumes "uint a + uint b < 2 ^ LENGTH('a)"
  shows "uint (a + b) = uint a + uint b"
  using assms by (simp add: uint_simps)

lemma uint_sub_exact:
  fixes a b :: "'a::len word"
  assumes "uint b \<le> uint a"
  shows "uint (a - b) = uint a - uint b"
  using assms uint_lt_pow [of a] uint_ge_0 [of b]
  by (auto simp: uint_simps intro!: mod_pos_pos_trivial simp del: uint_lt_pow)

lemma uint_mul_exact:
  fixes a b :: "'a::len word"
  assumes "uint a * uint b < 2 ^ LENGTH('a)"
  shows "uint (a * b) = uint a * uint b"
  using assms by (simp add: uint_simps)

lemma uint_widen [uint_simps]:
  "uint (ucast (a :: 'a::len word) :: 'a dword) = uint a"
proof -
  have "LENGTH('a) \<le> LENGTH('a bit0)" by simp
  then show ?thesis
    by (simp add: unsigned_ucast_eq take_bit_int_eq_self_iff)
       (metis take_bit_int_eq_self_iff uint_ge_0 uint_lt2p order_less_le_trans
         power_increasing one_le_numeral le_add1 mult_2)
qed

lemma uint_narrow:
  "uint (ucast (c :: 'a::len dword) :: 'a word) = uint c mod 2 ^ LENGTH('a)"
  by (simp add: unsigned_ucast_eq take_bit_eq_mod)

lemma uint_ucast_small:
  fixes x :: "'b::len word"
  assumes "uint x < 2 ^ LENGTH('a::len)"
  shows "uint (ucast x :: 'a word) = uint x"
proof -
  have "uint (ucast x :: 'a word) = uint x mod 2 ^ LENGTH('a)"
    by (simp add: unsigned_ucast_eq take_bit_eq_mod)
  then show ?thesis using assms by simp
qed

lemma uint_div_eq [uint_simps]: "uint (a div b :: 'a::len word) = uint a div uint b"
  by (rule uint_div_distrib)

lemma uint_mod_eq [uint_simps]: "uint (a mod b :: 'a::len word) = uint a mod uint b"
  by (rule uint_mod_distrib)

lemma uint_drop_bit [uint_simps]: "uint (drop_bit n a :: 'a::len word) = uint a div 2 ^ n"
proof -
  have "uint (drop_bit n a) = drop_bit n (take_bit LENGTH('a) (uint a))"
    by (rule unsigned_drop_bit_eq)
  moreover have "take_bit LENGTH('a) (uint a) = uint a"
    by (simp add: take_bit_int_eq_self_iff)
  ultimately show ?thesis by (simp only: drop_bit_eq_div)
qed

lemma uint_power_mod: "uint ((a :: 'a::len word) ^ n) = uint a ^ n mod 2 ^ LENGTH('a)"
  by (induction n) (simp_all add: uint_mul_mod mod_mult_right_eq)

lemma uint_pow2_mod: "uint ((2 :: 'a::len word) ^ n) = 2 ^ n mod 2 ^ LENGTH('a)"
proof -
  have "uint (2 :: 'a word) mod 2 ^ LENGTH('a) = 2 mod 2 ^ LENGTH('a)"
    by (simp add: uint_numeral)
  then show ?thesis unfolding uint_power_mod by (metis power_mod)
qed

lemma uint_power_two: "k < LENGTH('a) \<Longrightarrow> uint (2 ^ k :: 'a::len word) = 2 ^ k"
  unfolding uint_pow2_mod using power_strict_increasing [of k "LENGTH('a)" "2 :: int"]
  by (intro mod_pos_pos_trivial) simp_all

lemma unat_power_two: "k < LENGTH('a) \<Longrightarrow> unat (2 ^ k :: 'a::len word) = 2 ^ k"
  by (simp only: unat_eq_nat_uint uint_power_two nat_power_eq nat_numeral)

lemma uint_push_bit_mod:
  "uint (push_bit n a :: 'a::len word) = uint a * 2 ^ n mod 2 ^ LENGTH('a)"
  by (simp add: push_bit_eq_mult uint_mul_mod uint_pow2_mod mod_mult_right_eq)

lemma uint_push_bit_exact:
  fixes a :: "'a::len word"
  assumes "uint a * 2 ^ n < 2 ^ LENGTH('a)"
  shows "uint (push_bit n a) = uint a * 2 ^ n"
  using assms unfolding uint_push_bit_mod by simp

lemma dlen_pow: "(2::int) ^ LENGTH('a::len bit0) = 2 ^ LENGTH('a) * 2 ^ LENGTH('a)"
  by (simp add: power_add mult_2)

lemma uint_prod_lt_dpow:
  fixes a b :: "'a::len word"
  shows "uint a * uint b < 2 ^ LENGTH('a bit0)"
  unfolding dlen_pow by (rule mult_strict_mono') auto

lemma uint_widen_mul [uint_simps]:
  fixes a b :: "'a::len word"
  shows "uint (ucast a * ucast b :: 'a dword) = uint a * uint b"
  using uint_prod_lt_dpow [of a b] by (simp add: uint_mul_mod uint_widen)

section \<open>Bit length\<close>

fun bit_length :: "nat \<Rightarrow> nat" where
  "bit_length n = (if n = 0 then 0 else Suc (bit_length (n div 2)))"

declare bit_length.simps [simp del]

lemma bit_length_0 [simp]: "bit_length 0 = 0"
  by (simp add: bit_length.simps)

lemma bit_length_upper: "n < 2 ^ bit_length n"
proof (induction n rule: bit_length.induct)
  case (1 n)
  then show ?case
    by (cases "n = 0") (auto simp: bit_length.simps [of n])
qed

lemma bit_length_lower: "0 < n \<Longrightarrow> 2 ^ (bit_length n - 1) \<le> n"
proof (induction n rule: bit_length.induct)
  case (1 n)
  show ?case
  proof (cases "n div 2 = 0")
    case True
    with 1 have "n = 1" by auto
    then show ?thesis by (simp add: bit_length.simps)
  next
    case False
    then have "2 ^ (bit_length (n div 2) - 1) \<le> n div 2" using 1 by simp
    moreover have "bit_length (n div 2) > 0" using False by (simp add: bit_length.simps)
    ultimately have "2 ^ bit_length (n div 2) \<le> 2 * (n div 2)"
      by (cases "bit_length (n div 2)") auto
    then show ?thesis using 1 by (simp add: bit_length.simps [of n])
  qed
qed

lemma bit_length_le_iff: "bit_length n \<le> k \<longleftrightarrow> n < 2 ^ k"
proof
  assume "bit_length n \<le> k"
  then have "(2::nat) ^ bit_length n \<le> 2 ^ k" by simp
  then show "n < 2 ^ k" using bit_length_upper order_less_le_trans by blast
next
  assume *: "n < 2 ^ k"
  show "bit_length n \<le> k"
  proof (cases "n = 0")
    case False
    then have "(2::nat) ^ (bit_length n - 1) \<le> n" using bit_length_lower by simp
    then have "(2::nat) ^ (bit_length n - 1) < 2 ^ k" using * by (rule order_le_less_trans)
    then have "bit_length n - 1 < k" by simp
    then show ?thesis by simp
  qed simp
qed

text \<open>The same function on integers, which the evaluation of concrete inputs uses.\<close>

function bit_length_int :: "int \<Rightarrow> nat" where
  "bit_length_int i = (if i \<le> 0 then 0 else Suc (bit_length_int (i div 2)))"
  by pat_completeness auto
termination by (relation "measure nat") auto

declare bit_length_int.simps [simp del]

lemma bit_length_nat: "bit_length (nat i) = bit_length_int i"
proof (induction i rule: bit_length_int.induct)
  case (1 i)
  show ?case
  proof (cases "i \<le> 0")
    case False
    then have "nat i div 2 = nat (i div 2)" by (simp add: nat_div_distrib)
    then show ?thesis using 1 False by (simp add: bit_length.simps [of "nat i"] bit_length_int.simps [of i])
  qed (simp add: bit_length_int.simps [of i])
qed

section \<open>Remainders\<close>

lemma zdiv_bounds:
  fixes x d :: int
  assumes "0 < d"
  shows "x div d * d \<le> x" "x < x div d * d + d"
  using assms div_mult_mod_eq [of x d] pos_mod_bound [of d x] pos_mod_sign [of d x]
  by linarith+

lemma zdiv_lt_iff:
  fixes x c d :: int
  assumes "0 < d"
  shows "x div d < c \<longleftrightarrow> x < c * d"
proof -
  have "x div d < c \<longleftrightarrow> \<not> c \<le> x div d" by auto
  also have "\<dots> \<longleftrightarrow> \<not> c * d \<le> x"
  proof -
    have "c \<le> x div d \<Longrightarrow> c * d \<le> x"
      using mult_right_mono [of c "x div d" d] zdiv_bounds [OF assms, of x] assms by linarith
    moreover have "c * d \<le> x \<Longrightarrow> c \<le> x div d"
      using zdiv_mono1 [of "c * d" x d] assms by simp
    ultimately show ?thesis by blast
  qed
  finally show ?thesis by auto
qed

lemma mod_eq_of_sub:
  fixes x m t :: int
  assumes "x = t + m * k" "0 \<le> t" "t < m"
  shows "x mod m = t"
  using assms by simp

lemma mod_sub_mult_self [simp]: "(x - q * m) mod m = x mod (m :: int)"
  using mod_mult_self1 [of "x - q * m" q m] by (simp add: algebra_simps)

text \<open>One conditional subtraction reduces a value below twice the modulus.\<close>

lemma csub_mod:
  fixes x m :: int
  assumes "0 \<le> x" "x < 2 * m"
  shows "x mod m = (if m \<le> x then x - m else x)"
  using assms by (auto intro: mod_eq_of_sub [where k = 1])

lemma cadd_mod:
  fixes x m :: int
  assumes "- m \<le> x" "x < m"
  shows "x mod m = (if x < 0 then x + m else x)"
  using assms by (auto intro: mod_eq_of_sub [where k = "- 1"])

lemma mod_diff_of_eq:
  fixes a b m :: int
  assumes "a mod m = b mod m"
  shows "(a - b) mod m = 0"
  using assms by (metis mod_diff_eq diff_self mod_0)

end
