(* ===== verification/NativeInt.thy ===== *)
theory NativeInt
  imports Prelude "HOL-Library.Signed_Division"
begin

text \<open>
  The native integer layer, \<^verbatim>\<open>src/src/core/include/math/hal/intnat/ubintnat.h\<close>.

  A \<^verbatim>\<open>NativeIntegerT<T>\<close> is its only field \<^verbatim>\<open>m_value\<close>, a machine word; the template argument is
  the width type \<open>'a\<close>.  A member function takes the receiver as its first argument and returns
  the receiver's new value where it works in place.  \<^verbatim>\<open>typeD\<close> is the pair of words that holds a
  double-width product.  The functions with a wide type (\<^verbatim>\<open>!is_same<T, DNativeInt>\<close>) come first;
  the ones without (\<^verbatim>\<open>is_same<T, DNativeInt>\<close>) carry the suffix \<open>_D\<close>.  The functions that take
  the precomputed Barrett constant carry the suffix \<open>_mu\<close>.

  The lemmas give the integer value of every operation: exact modular arithmetic under the range
  conditions that the callers keep, for Barrett's and Shoup's multiplication, modular
  exponentiation and the modular inverse.
\<close>

unbundle bit_operations_syntax

section \<open>Conversion from decimal strings\<close>

text \<open>A character is a signed value of eight bits, as on the x86 targets.\<close>

definition schar :: "char \<Rightarrow> int" where
  "schar c = (let n = of_char c in if n < 128 then n else n - 256)"

fun SetValue_loop :: "string \<Rightarrow> 'a::len word \<Rightarrow> 'a word \<Rightarrow> 'a word result" where
  "SetValue_loop [] acc tst = Inr acc"
| "SetValue_loop (c # cs) acc tst =
     (if schar c - schar CHR ''0'' > 9 then Inl type_error
      else let acc' = 10 * acc + word_of_int (schar c - schar CHR ''0'') in
        if acc' < tst then Inl math_error
        else SetValue_loop cs acc' acc')"

definition SetValue :: "string \<Rightarrow> 'a::len word result" where
  "SetValue str = SetValue_loop str 0 0"

text \<open>\<^verbatim>\<open>std::to_string\<close> on an unsigned value.\<close>

fun toString :: "nat \<Rightarrow> string" where
  "toString n = (if n < 10 then [char_of (48 + n)]
     else toString (n div 10) @ [char_of (48 + n mod 10)])"

declare toString.simps [simp del]

section \<open>Plain arithmetic\<close>

definition AddCheck :: "'a::len word \<Rightarrow> 'a word \<Rightarrow> 'a word result" where
  "AddCheck a b = (let r = a + b in
     if r < a \<or> r < b then Inl math_error else Inr r)"

definition AddFast :: "'a::len word \<Rightarrow> 'a word \<Rightarrow> 'a word" where
  "AddFast a b = b + a"

definition AddEqCheck :: "'a::len word \<Rightarrow> 'a word \<Rightarrow> 'a word result" where
  "AddEqCheck a b = (let oldv = a; a' = a + b in
     if a' < oldv then Inl math_error else Inr a')"

definition SubCheck :: "'a::len word \<Rightarrow> 'a word \<Rightarrow> 'a word" where
  "SubCheck a b = (if a \<le> b then 0 else a - b)"

definition SubFast :: "'a::len word \<Rightarrow> 'a word \<Rightarrow> 'a word" where
  "SubFast a b = a - b"

definition SubEqCheck :: "'a::len word \<Rightarrow> 'a word \<Rightarrow> 'a word result" where
  "SubEqCheck a b = (if a < b then Inl math_error else Inr (a - b))"

definition MulCheck :: "'a::len word \<Rightarrow> 'a word \<Rightarrow> 'a word result" where
  "MulCheck a b = (let p = b * a in
     if p < a \<or> p < b then Inl math_error else Inr p)"

definition MulFast :: "'a::len word \<Rightarrow> 'a word \<Rightarrow> 'a word" where
  "MulFast a b = b * a"

definition MulEqCheck :: "'a::len word \<Rightarrow> 'a word \<Rightarrow> 'a word result" where
  "MulEqCheck a b = (let oldv = a; a' = a * b in
     if a' < oldv then Inl math_error else Inr a')"

definition DividedBy :: "'a::len word \<Rightarrow> 'a word \<Rightarrow> 'a word result" where
  "DividedBy a b = (if b = 0 then Inl math_error else Inr (a div b))"

text \<open>The exponent is an unsigned value that the loop only shifts right.\<close>

fun Exp_loop :: "nat \<Rightarrow> 'a::len word \<Rightarrow> 'a word \<Rightarrow> 'a word" where
  "Exp_loop p x r =
     (if p = 0 then r
      else Exp_loop (p div 2) (x * x) (r * (if odd p then x else 1)))"

declare Exp_loop.simps [simp del]

definition Exp :: "'a::len word \<Rightarrow> nat \<Rightarrow> 'a word" where
  "Exp a p = Exp_loop p a 1"

definition DivideAndRound :: "'a::len word \<Rightarrow> 'a word \<Rightarrow> 'a word result" where
  "DivideAndRound a q =
     (if q = 0 then Inl math_error
      else let ans = a div q; rem = a mod q; halfQ = drop_bit 1 q in
        if rem > halfQ then Inr (ans + 1) else Inr ans)"

definition LShift :: "'a::len word \<Rightarrow> nat \<Rightarrow> 'a word" where
  "LShift a s = push_bit s a"

definition RShift :: "'a::len word \<Rightarrow> nat \<Rightarrow> 'a word" where
  "RShift a s = drop_bit s a"

definition Compare :: "'a::len word \<Rightarrow> 'a word \<Rightarrow> int" where
  "Compare a b = (if a < b then - 1 else if a > b then 1 else 0)"

section \<open>Bits and digits\<close>

text \<open>The compiler builtin that counts the leading zeros of a nonzero word.\<close>

definition builtin_clz :: "'a::len word \<Rightarrow> nat" where
  "builtin_clz x = LENGTH('a) - bit_length (unat x)"

definition GetMSB :: "'a::len word \<Rightarrow> nat" where
  "GetMSB x = (if x = 0 then 0 else LENGTH('a) - builtin_clz x)"

definition GetBitAtIndex :: "'a::len word \<Rightarrow> nat \<Rightarrow> nat result" where
  "GetBitAtIndex a index =
     (if index = 0 then Inl math_error
      else if LENGTH('a) \<le> index - 1 then Inl undefined_behaviour
      else Inr (unat (drop_bit (index - 1) a AND 1)))"

text \<open>The loop of \<^verbatim>\<open>GetDigitAtIndexForBase\<close>: the weight \<open>i\<close> doubles until it reaches the base.\<close>

function GetDigit_loop :: "'a::len word \<Rightarrow> nat \<Rightarrow> nat \<Rightarrow> nat \<Rightarrow> nat \<Rightarrow> nat result" where
  "GetDigit_loop a base i newIndex digit =
     (if i = 0 \<or> base \<le> i then Inr digit
      else bindR (GetBitAtIndex a newIndex)
        (\<lambda>b. GetDigit_loop a base (2 * i) (newIndex + 1) (digit + b * i)))"
  by pat_completeness auto
termination
  by (relation "measure (\<lambda>(a, base, i, newIndex, digit). base - i)") auto

declare GetDigit_loop.simps [simp del]

definition GetDigitAtIndexForBase :: "'a::len word \<Rightarrow> nat \<Rightarrow> nat \<Rightarrow> nat result" where
  "GetDigitAtIndexForBase a index base =
     (let DigitLen = bit_length (base - 1);
          newIndex = 1 + (index - 1) * DigitLen
      in GetDigit_loop a base 1 newIndex 0)"

section \<open>Double-width helpers\<close>

record (overloaded) 'a typeD =
  hi :: "'a::len word"
  lo :: "'a word"

definition MultD :: "'a::len word \<Rightarrow> 'a word \<Rightarrow> 'a typeD" where
  "MultD a b = (let c = (ucast a * ucast b :: 'a dword) in
     \<lparr> hi = ucast (drop_bit LENGTH('a) c), lo = ucast c \<rparr>)"

definition RShiftD :: "'a::len typeD \<Rightarrow> nat \<Rightarrow> 'a word" where
  "RShiftD x shift = drop_bit shift (lo x) OR push_bit (LENGTH('a) - shift) (hi x)"

definition MultDHi :: "'a::len word \<Rightarrow> 'a word \<Rightarrow> 'a word" where
  "MultDHi a b = hi (MultD a b)"

definition GetD :: "'a::len typeD \<Rightarrow> 'a dword" where
  "GetD x = push_bit LENGTH('a) (ucast (hi x)) OR ucast (lo x)"

definition SubtractD :: "'a::len typeD \<Rightarrow> 'a typeD \<Rightarrow> 'a typeD" where
  "SubtractD res a =
     (let res' = (if lo res < lo a
                  then res \<lparr> lo := lo res + (- 1 + 1 - lo a), hi := hi res - 1 \<rparr>
                  else res \<lparr> lo := lo res - lo a \<rparr>)
      in res' \<lparr> hi := hi res' - hi a \<rparr>)"

text \<open>
  The school-book product of \<^verbatim>\<open>MultD(U128BITS, U128BITS, typeD&)\<close>, for a word of two halves.
\<close>

definition MultD_halves :: "'a::len dword \<Rightarrow> 'a dword \<Rightarrow> ('a bit0) typeD" where
  "MultD_halves a b =
     (let masklo = push_bit LENGTH('a) 1 - 1;
          onehi = push_bit LENGTH('a) 1;
          a1 = drop_bit LENGTH('a) a;
          a2 = a AND masklo;
          b1 = drop_bit LENGTH('a) b;
          b2 = b AND masklo;
          a1b2 = a1 * b2;
          a2b1 = a2 * b1;
          tmp = a1b2 + a2b1;
          l = a2 * b2;
          res = \<lparr> hi = a1 * b1, lo = l \<rparr>;
          res = res \<lparr> lo := lo res + push_bit LENGTH('a) tmp \<rparr>;
          res = (if l > lo res then res \<lparr> hi := hi res + 1 \<rparr> else res);
          res = (if tmp < a1b2 \<or> tmp < a2b1 then res \<lparr> hi := hi res + onehi \<rparr> else res)
      in res \<lparr> hi := hi res + drop_bit LENGTH('a) tmp \<rparr>)"

section \<open>Reduction\<close>

definition Mod :: "'a::len word \<Rightarrow> 'a word \<Rightarrow> 'a word" where
  "Mod a modulus = a mod modulus"

definition ModEq :: "'a::len word \<Rightarrow> 'a word \<Rightarrow> 'a word" where
  "ModEq a modulus = a mod modulus"

definition ComputeMu :: "'a::len word \<Rightarrow> 'a word result" where
  "ComputeMu m =
     (if m = 0 then Inl math_error
      else let tmp = push_bit (2 * GetMSB m + 3) (1 :: 'a dword)
           in Inr (ucast (tmp div ucast m)))"

text \<open>\<^verbatim>\<open>ModMu\<close>: Barrett reduction of one word; \<open>n\<close> is the bit length of the modulus less two.\<close>

definition ModMu :: "'a::len word \<Rightarrow> 'a word \<Rightarrow> 'a word \<Rightarrow> nat \<Rightarrow> 'a word" where
  "ModMu a mv mu n =
     (let prod = MultD (RShiftD \<lparr> hi = 0, lo = a \<rparr> n) mu;
          a' = a - ucast (drop_bit (n + 7) (GetD prod) * ucast mv :: 'a dword)
      in if a' \<ge> mv then a' - mv else a')"

definition ModMu_D :: "'a::len word \<Rightarrow> 'a word \<Rightarrow> 'a word \<Rightarrow> nat \<Rightarrow> 'a word" where
  "ModMu_D a mv mu n =
     (let prod = MultD (RShiftD \<lparr> hi = 0, lo = a \<rparr> n) mu;
          prod = MultD (RShiftD prod (n + 7)) mv;
          a' = a - lo prod
      in if a' \<ge> mv then a' - mv else a')"

definition Mod_mu :: "'a::len word \<Rightarrow> 'a word \<Rightarrow> 'a word \<Rightarrow> 'a word" where
  "Mod_mu a modulus mu = ModMu a modulus mu (GetMSB modulus - 2)"

definition ModEq_mu :: "'a::len word \<Rightarrow> 'a word \<Rightarrow> 'a word \<Rightarrow> 'a word" where
  "ModEq_mu a modulus mu = ModMu a modulus mu (GetMSB modulus - 2)"

section \<open>Modular addition and subtraction\<close>

definition ModAdd :: "'a::len word \<Rightarrow> 'a word \<Rightarrow> 'a word \<Rightarrow> 'a word" where
  "ModAdd a b modulus =
     (let av = (if a \<ge> modulus then a mod modulus else a);
          bv = (if b \<ge> modulus then b mod modulus else b);
          av = av + bv
      in if av \<ge> modulus then av - modulus else av)"

definition ModAddEq :: "'a::len word \<Rightarrow> 'a word \<Rightarrow> 'a word \<Rightarrow> 'a word" where
  "ModAddEq m_value b modulus =
     (let m_value = (if m_value \<ge> modulus then m_value mod modulus else m_value);
          bv = (if b \<ge> modulus then b mod modulus else b);
          m_value = m_value + bv
      in if m_value \<ge> modulus then m_value - modulus else m_value)"

definition ModAddFast :: "'a::len word \<Rightarrow> 'a word \<Rightarrow> 'a word \<Rightarrow> 'a word" where
  "ModAddFast a b modulus =
     (let r = a + b in if r \<ge> modulus then r - modulus else r)"

definition ModAddFastEq :: "'a::len word \<Rightarrow> 'a word \<Rightarrow> 'a word \<Rightarrow> 'a word" where
  "ModAddFastEq m_value b modulus =
     (let m_value = m_value + b
      in if m_value \<ge> modulus then m_value - modulus else m_value)"

definition ModAdd_mu :: "'a::len word \<Rightarrow> 'a word \<Rightarrow> 'a word \<Rightarrow> 'a word \<Rightarrow> 'a word" where
  "ModAdd_mu a b modulus mu =
     (let av = (if a \<ge> modulus then ModEq_mu a modulus mu else a);
          bv = (if b \<ge> modulus then ModEq_mu b modulus mu else b);
          av = av + bv
      in if av \<ge> modulus then av - modulus else av)"

definition ModAddEq_mu :: "'a::len word \<Rightarrow> 'a word \<Rightarrow> 'a word \<Rightarrow> 'a word \<Rightarrow> 'a word" where
  "ModAddEq_mu m_value b modulus mu =
     (let av = (if m_value \<ge> modulus then ModEq_mu m_value modulus mu else m_value);
          bv = (if b \<ge> modulus then ModEq_mu b modulus mu else b);
          m_value = av + bv
      in if m_value \<ge> modulus then m_value - modulus else m_value)"

definition ModSub :: "'a::len word \<Rightarrow> 'a word \<Rightarrow> 'a word \<Rightarrow> 'a word" where
  "ModSub a b modulus =
     (let av = (if a \<ge> modulus then a mod modulus else a);
          bv = (if b \<ge> modulus then b mod modulus else b)
      in if av < bv then av + modulus - bv else av - bv)"

definition ModSubEq :: "'a::len word \<Rightarrow> 'a word \<Rightarrow> 'a word \<Rightarrow> 'a word" where
  "ModSubEq m_value b modulus =
     (let av = (if m_value \<ge> modulus then m_value mod modulus else m_value);
          bv = (if b \<ge> modulus then b mod modulus else b)
      in if av < bv then av + modulus - bv else av - bv)"

definition ModSubFast :: "'a::len word \<Rightarrow> 'a word \<Rightarrow> 'a word \<Rightarrow> 'a word" where
  "ModSubFast a b modulus = (if a < b then a + modulus - b else a - b)"

definition ModSubFastEq :: "'a::len word \<Rightarrow> 'a word \<Rightarrow> 'a word \<Rightarrow> 'a word" where
  "ModSubFastEq m_value b modulus =
     (if m_value < b then m_value + modulus - b else m_value - b)"

definition ModSub_mu :: "'a::len word \<Rightarrow> 'a word \<Rightarrow> 'a word \<Rightarrow> 'a word \<Rightarrow> 'a word" where
  "ModSub_mu a b modulus mu =
     (let av = (if a \<ge> modulus then ModEq_mu a modulus mu else a);
          bv = (if b \<ge> modulus then ModEq_mu b modulus mu else b)
      in if av < bv then av + modulus - bv else av - bv)"

definition ModSubEq_mu :: "'a::len word \<Rightarrow> 'a word \<Rightarrow> 'a word \<Rightarrow> 'a word \<Rightarrow> 'a word" where
  "ModSubEq_mu m_value b modulus mu =
     (let av = (if m_value \<ge> modulus then ModEq_mu m_value modulus mu else m_value);
          bv = (if b \<ge> modulus then ModEq_mu b modulus mu else b)
      in if av < bv then av + modulus - bv else av - bv)"

section \<open>Modular multiplication\<close>

definition ModMul :: "'a::len word \<Rightarrow> 'a word \<Rightarrow> 'a word \<Rightarrow> 'a word" where
  "ModMul a b modulus =
     (let av = (if a \<ge> modulus then a mod modulus else a);
          bv = (if b \<ge> modulus then b mod modulus else b);
          rv = (ucast av * ucast bv :: 'a dword);
          dmv = ucast modulus;
          rv = (if rv \<ge> dmv then rv mod dmv else rv)
      in ucast rv)"

definition ModMulEq :: "'a::len word \<Rightarrow> 'a word \<Rightarrow> 'a word \<Rightarrow> 'a word" where
  "ModMulEq m_value b modulus =
     (let av = (if m_value \<ge> modulus then m_value mod modulus else m_value);
          bv = (if b \<ge> modulus then b mod modulus else b);
          rv = (ucast av * ucast bv :: 'a dword);
          dmv = ucast modulus;
          rv = (if rv \<ge> dmv then rv mod dmv else rv)
      in ucast rv)"

definition ModMulFast :: "'a::len word \<Rightarrow> 'a word \<Rightarrow> 'a word \<Rightarrow> 'a word" where
  "ModMulFast a b modulus =
     (let rv = (ucast a * ucast b :: 'a dword);
          dmv = ucast modulus;
          rv = (if rv \<ge> dmv then rv mod dmv else rv)
      in ucast rv)"

definition ModMulFastEq :: "'a::len word \<Rightarrow> 'a word \<Rightarrow> 'a word \<Rightarrow> 'a word" where
  "ModMulFastEq m_value b modulus =
     (let rv = (ucast m_value * ucast b :: 'a dword);
          dmv = ucast modulus;
          rv = (if rv \<ge> dmv then rv mod dmv else rv)
      in ucast rv)"

definition ModMulFast_mu :: "'a::len word \<Rightarrow> 'a word \<Rightarrow> 'a word \<Rightarrow> 'a word \<Rightarrow> 'a word" where
  "ModMulFast_mu a b modulus mu =
     (let n = GetMSB modulus - 2;
          tmp = MultD a b;
          rv = GetD tmp;
          tmp = MultD (RShiftD tmp n) mu;
          rv = rv - ucast modulus * drop_bit (n + 7) (GetD tmp);
          r = ucast rv
      in if r \<ge> modulus then r - modulus else r)"

definition ModMulFastEq_mu :: "'a::len word \<Rightarrow> 'a word \<Rightarrow> 'a word \<Rightarrow> 'a word \<Rightarrow> 'a word" where
  "ModMulFastEq_mu m_value b modulus mu =
     (let tmp = MultD m_value b;
          rv = GetD tmp;
          n = GetMSB modulus - 2;
          tmp = MultD (RShiftD tmp n) mu;
          rv = rv - ucast modulus * drop_bit (n + 7) (GetD tmp);
          m_value = ucast rv
      in if m_value \<ge> modulus then m_value - modulus else m_value)"

definition ModMul_mu :: "'a::len word \<Rightarrow> 'a word \<Rightarrow> 'a word \<Rightarrow> 'a word \<Rightarrow> 'a word" where
  "ModMul_mu a b modulus mu =
     (let n = GetMSB modulus - 2;
          av = (if a \<ge> modulus then ModMu a modulus mu n else a);
          bv = (if b \<ge> modulus then ModMu b modulus mu n else b);
          tmp = MultD av bv;
          rv = GetD tmp;
          tmp = MultD (RShiftD tmp n) mu;
          rv = rv - ucast modulus * drop_bit (n + 7) (GetD tmp);
          r = ucast rv
      in if r \<ge> modulus then r - modulus else r)"

definition ModMulEq_mu :: "'a::len word \<Rightarrow> 'a word \<Rightarrow> 'a word \<Rightarrow> 'a word \<Rightarrow> 'a word" where
  "ModMulEq_mu m_value b modulus mu =
     (let n = GetMSB modulus - 2;
          av = (if m_value \<ge> modulus then ModMu m_value modulus mu n else m_value);
          bv = (if b \<ge> modulus then ModMu b modulus mu n else b);
          tmp = MultD av bv;
          rv = GetD tmp;
          tmp = MultD (RShiftD tmp n) mu;
          rv = rv - ucast modulus * drop_bit (n + 7) (GetD tmp);
          m_value = ucast rv
      in if m_value \<ge> modulus then m_value - modulus else m_value)"

definition ModMulFast_mu_D :: "'a::len word \<Rightarrow> 'a word \<Rightarrow> 'a word \<Rightarrow> 'a word \<Rightarrow> 'a word" where
  "ModMulFast_mu_D a b modulus mu =
     (let n = GetMSB modulus - 2;
          prod = MultD a b;
          r = prod;
          prod = MultD (RShiftD prod n) mu;
          prod = MultD (RShiftD prod (n + 7)) modulus;
          r = SubtractD r prod
      in if lo r \<ge> modulus then lo r - modulus else lo r)"

definition ModMulFastEq_mu_D :: "'a::len word \<Rightarrow> 'a word \<Rightarrow> 'a word \<Rightarrow> 'a word \<Rightarrow> 'a word" where
  "ModMulFastEq_mu_D m_value b modulus mu =
     (let n = GetMSB modulus - 2;
          prod = MultD m_value b;
          r = prod;
          prod = MultD (RShiftD prod n) mu;
          prod = MultD (RShiftD prod (n + 7)) modulus;
          r = SubtractD r prod;
          m_value = lo r
      in if lo r \<ge> modulus then m_value - modulus else m_value)"

section \<open>Multiplication by a constant\<close>

definition PrepModMulConst :: "'a::len word \<Rightarrow> 'a word \<Rightarrow> 'a word result" where
  "PrepModMulConst b modulus =
     (if modulus = 0 then Inl math_error
      else let w = push_bit LENGTH('a) (ucast b :: 'a dword)
           in Inr (ucast (w div ucast modulus)))"

definition ModMulFastConst :: "'a::len word \<Rightarrow> 'a word \<Rightarrow> 'a word \<Rightarrow> 'a word \<Rightarrow> 'a word" where
  "ModMulFastConst a b modulus bInv =
     (let q = MultDHi a bInv + 1;
          yprime = a * b - q * modulus
      in if sint yprime \<ge> 0 then yprime else yprime + modulus)"

definition ModMulFastConstEq :: "'a::len word \<Rightarrow> 'a word \<Rightarrow> 'a word \<Rightarrow> 'a word \<Rightarrow> 'a word" where
  "ModMulFastConstEq m_value b modulus bInv =
     (let q = MultDHi m_value bInv + 1;
          yprime = m_value * b - q * modulus
      in if sint yprime \<ge> 0 then yprime else yprime + modulus)"

section \<open>Modular exponentiation and inverse\<close>

fun ModExp_loop :: "nat \<Rightarrow> 'a::len word \<Rightarrow> 'a word \<Rightarrow> 'a word \<Rightarrow> 'a word" where
  "ModExp_loop p t r m =
     (let p = p div 2 in
      if p = 0 then r
      else let t = t * t;
               t = (if t \<ge> m then t mod m else t);
               r = (if odd p then (let r = r * t in if r \<ge> m then r mod m else r) else r)
           in ModExp_loop p t r m)"

declare ModExp_loop.simps [simp del]

definition ModExp :: "'a::len word \<Rightarrow> 'a word \<Rightarrow> 'a word \<Rightarrow> 'a word" where
  "ModExp a b modulus =
     (let t = (ucast a :: 'a dword);
          p = unat b;
          m = ucast modulus;
          r = 1;
          r = (if odd p then (let r = r * t in if r \<ge> m then r mod m else r) else r)
      in ucast (ModExp_loop p t r m))"

text \<open>
  \<^verbatim>\<open>SignedNativeInt\<close> arithmetic: a value outside the signed range is undefined behaviour.
\<close>

definition inS :: "nat \<Rightarrow> int \<Rightarrow> int result" where
  "inS w v = (if - (2 ^ (w - 1)) \<le> v \<and> v < 2 ^ (w - 1) then Inr v else Inl undefined_behaviour)"

function ModInverse_loop :: "nat \<Rightarrow> int \<Rightarrow> int \<Rightarrow> int \<Rightarrow> int \<Rightarrow> int result" where
  "ModInverse_loop w a modulus x y =
     (if a > 1 then
        (if modulus = 0 then Inl undefined_behaviour
         else let t = modulus;
                  q = a sdiv t;
                  modulus = a smod t;
                  a = t
              in bindR (inS w (q * y)) (\<lambda>qy.
                 bindR (inS w (x - qy)) (\<lambda>y'.
                 ModInverse_loop w a modulus y y')))
      else Inr x)"
  by pat_completeness auto
termination
  by (relation "measure (\<lambda>(w, a, modulus, x, y). nat \<bar>modulus\<bar>)")
     (auto simp: signed_modulo_int_def abs_mult sgn_if)

declare ModInverse_loop.simps [simp del]

definition ModInverse :: "'a::len word \<Rightarrow> 'a word \<Rightarrow> 'a word result" where
  "ModInverse m_value md =
     (if md = 0 then Inl undefined_behaviour
      else let modulus = sint md; a = sint (m_value mod md) in
        if a = 0 then Inl math_error
        else if modulus = 1 then Inr 0
        else bindR (ModInverse_loop LENGTH('a) a modulus 1 0)
          (\<lambda>x. Inr (if x < 0 then word_of_int x + md else word_of_int x)))"

section \<open>Facts on the double-width helpers\<close>

lemma GetMSB_eq: "GetMSB (x :: 'a::len word) = bit_length (unat x)"
proof -
  have "bit_length (unat x) \<le> LENGTH('a)"
    by (simp add: bit_length_le_iff)
  then show ?thesis by (simp add: GetMSB_def builtin_clz_def)
qed

lemma GetMSB_int [code]: "GetMSB x = bit_length_int (uint x)"
  by (simp add: GetMSB_eq bit_length_nat [symmetric])

lemma GetMSB_le_length: "GetMSB (x :: 'a::len word) \<le> LENGTH('a)"
  by (simp add: GetMSB_eq bit_length_le_iff)

lemma GetMSB_le_iff: "GetMSB (x :: 'a::len word) \<le> k \<longleftrightarrow> uint x < 2 ^ k"
proof -
  have "GetMSB x \<le> k \<longleftrightarrow> unat x < 2 ^ k" by (simp add: GetMSB_eq bit_length_le_iff)
  also have "\<dots> \<longleftrightarrow> int (unat x) < 2 ^ k"
    by (metis of_nat_less_iff of_nat_numeral of_nat_power)
  finally show ?thesis by simp
qed

lemma GetMSB_bounds:
  assumes "x \<noteq> (0 :: 'a::len word)"
  shows "2 ^ (GetMSB x - 1) \<le> uint x" "uint x < 2 ^ GetMSB x" "0 < GetMSB x"
proof -
  show "uint x < 2 ^ GetMSB x" by (simp add: GetMSB_le_iff [symmetric])
  have pos: "0 < unat x" using assms by (simp add: unat_gt_0)
  have "int (2 ^ (GetMSB x - 1)) \<le> int (unat x)"
    unfolding of_nat_le_iff GetMSB_eq using pos by (rule bit_length_lower)
  then show "2 ^ (GetMSB x - 1) \<le> uint x" by simp
  show "0 < GetMSB x" using pos by (simp add: GetMSB_eq bit_length.simps)
qed

lemma GetD_MultD [simp]: "GetD (MultD a b) = (ucast a * ucast b :: 'a::len dword)"
  by (rule bit_word_eqI)
     (auto simp: GetD_def MultD_def Let_def bit_simps)

lemma RShiftD_eq:
  fixes x :: "'a::len typeD"
  assumes "s \<le> LENGTH('a)"
  shows "RShiftD x s = ucast (drop_bit s (GetD x))"
proof (rule bit_word_eqI)
  fix i assume i: "i < LENGTH('a)"
  show "bit (RShiftD x s) i \<longleftrightarrow> bit (ucast (drop_bit s (GetD x)) :: 'a word) i"
  proof (cases "s + i < LENGTH('a)")
    case True
    then show ?thesis using i by (auto simp: RShiftD_def GetD_def bit_simps)
  next
    case False
    then have "\<not> bit (lo x) (s + i)" using bit_imp_le_length by blast
    moreover have "i - (LENGTH('a) - s) = s + i - LENGTH('a)" using assms False by simp
    ultimately show ?thesis
      using assms False i by (auto simp: RShiftD_def GetD_def bit_simps)
  qed
qed

lemma lo_MultD: "lo (MultD a b) = (a * b :: 'a::len word)"
  by (simp add: MultD_def Let_def word_uint_eq_iff uint_narrow uint_widen_mul uint_mul_mod [of a b])

lemma uint_MultDHi: "uint (MultDHi a b :: 'a::len word) = (uint a * uint b) div 2 ^ LENGTH('a)"
proof -
  have "uint a * uint b div 2 ^ LENGTH('a) < 2 ^ LENGTH('a)"
    using uint_prod_lt_dpow [of a b] unfolding dlen_pow
    by (simp add: zdiv_lt_iff)
  moreover have "0 \<le> uint a * uint b div 2 ^ LENGTH('a)"
    by (simp add: pos_imp_zdiv_nonneg_iff)
  ultimately show ?thesis
    by (simp add: MultDHi_def MultD_def Let_def uint_narrow uint_drop_bit uint_widen_mul)
qed

lemma lo_SubtractD: "lo (SubtractD r a) = lo r - lo a"
  by (simp add: SubtractD_def Let_def)

section \<open>Barrett reduction\<close>

text \<open>
  The quotient estimate of Barrett's method is the quotient or one less, for every dividend below
  \<open>2 ^ (2 * k + 1)\<close> and every modulus of \<open>k\<close> bits.
\<close>

lemma barrett_estimate:
  fixes x m :: int
  assumes k: "2 \<le> k"
    and m: "2 ^ (k - 1) \<le> m"
    and x: "0 \<le> x" "x < 2 ^ (2 * k + 1)"
  defines "q \<equiv> ((x div 2 ^ (k - 2)) * (2 ^ (2 * k + 3) div m)) div 2 ^ (k + 5)"
  shows "q * m \<le> x" "x < q * m + 2 * m" "0 \<le> q"
proof -
  define P R T where "P = (2::int) ^ (k - 2)" and "R = (2::int) ^ (k + 5)"
    and "T = (2::int) ^ (2 * k + 3)"
  define X mu where "X = x div P" and "mu = T div m"
  have PR: "P * R = T" unfolding P_def R_def T_def using k
    by (simp add: power_add [symmetric])
  have k1: "k - 1 = Suc (k - 2)" using k by simp
  have m2: "2 * P \<le> m" using m unfolding P_def k1 by simp
  have pos: "0 < P" "0 < R" "0 < T" "0 < m" unfolding P_def R_def T_def using m2
    by (simp_all add: P_def) (smt (verit) zero_less_power P_def m2)
  have q: "q = X * mu div R" unfolding q_def X_def mu_def P_def R_def T_def by simp
  have X: "X * P \<le> x" "x < X * P + P" "0 \<le> X"
    unfolding X_def using pos x
    by (simp_all add: pos_imp_zdiv_nonneg_iff zdiv_bounds)
  have mu: "mu * m \<le> T" "T < mu * m + m" "0 \<le> mu"
    unfolding mu_def using pos
    by (simp_all add: pos_imp_zdiv_nonneg_iff zdiv_bounds)
  have qb: "q * R \<le> X * mu" "X * mu < q * R + R" "0 \<le> q"
    unfolding q using pos X mu
    by (simp_all add: pos_imp_zdiv_nonneg_iff zdiv_bounds)
  show "0 \<le> q" by (rule qb)
  have "q * m * T = (q * R) * (m * P)" by (simp add: PR [symmetric] mult_ac)
  also have "\<dots> \<le> (X * mu) * (m * P)" using qb pos by (intro mult_right_mono) auto
  also have "\<dots> = (X * P) * (mu * m)" by (simp add: mult_ac)
  also have "\<dots> \<le> x * T" using X mu pos x by (intro mult_mono) auto
  finally show "q * m \<le> x" using pos by simp
  have T4: "4 * x < T" using x unfolding T_def by (simp add: power_add)
  have Pmu: "2 * (P * mu) \<le> T"
  proof -
    have "2 * (P * mu) \<le> m * mu" using m2 mu mult_right_mono [of "2 * P" m mu] by simp
    then show ?thesis using mu by (simp add: mult.commute)
  qed
  have "x * mu \<le> (X * P + P) * mu" using X mu by (intro mult_right_mono) auto
  also have "\<dots> = P * (X * mu) + P * mu" by (simp add: algebra_simps)
  finally have 1: "x * mu \<le> P * (X * mu) + P * mu" .
  have "P * (X * mu) < P * (q * R + R)" using qb pos by simp
  then have 2: "P * (X * mu) < (q + 1) * T" by (simp add: PR [symmetric] algebra_simps)
  have "x * T \<le> x * (mu * m + m)" using mu x by (intro mult_left_mono) auto
  also have "\<dots> = (x * mu + x) * m" by (simp add: algebra_simps)
  also have "\<dots> < ((q + 2) * T) * m"
  proof (rule mult_strict_right_mono)
    have "(q + 2) * T = (q + 1) * T + T" by (simp add: algebra_simps)
    then show "x * mu + x < (q + 2) * T" using 1 2 Pmu T4 pos by linarith
  qed (use pos in simp)
  finally have "x * T < ((q + 2) * m) * T" by (simp add: mult_ac)
  then have "x < (q + 2) * m" using pos by simp
  then show "x < q * m + 2 * m" by (simp add: algebra_simps)
qed

text \<open>
  The moduli that Barrett's constant serves: at least two bits, and the constant fits a word.
  Every modulus of two up to \<open>LENGTH('a) - 5\<close> bits is one.
\<close>

definition barrett_modulus :: "'a::len word \<Rightarrow> bool" where
  "barrett_modulus m \<longleftrightarrow>
     2 \<le> GetMSB m \<and> 2 ^ (2 * GetMSB m + 3) div uint m < 2 ^ LENGTH('a)"

lemma barrett_modulusI:
  fixes m :: "'a::len word"
  assumes "2 \<le> GetMSB m" "GetMSB m + 5 \<le> LENGTH('a)"
  shows "barrett_modulus m"
proof -
  define k where "k = GetMSB m"
  have "m \<noteq> 0" using assms by (auto simp: GetMSB_def)
  then have m: "2 ^ (k - 1) \<le> uint m" using GetMSB_bounds k_def by blast
  have "(2::int) ^ (2 * k + 3) = 2 ^ (k + 4) * 2 ^ (k - 1)"
    using assms by (simp add: k_def power_add [symmetric])
  also have "\<dots> < 2 ^ LENGTH('a) * 2 ^ (k - 1)"
    using assms by (simp add: k_def)
  also have "\<dots> \<le> 2 ^ LENGTH('a) * uint m" using m by simp
  finally show ?thesis
    using assms m \<open>m \<noteq> 0\<close> by (simp add: barrett_modulus_def k_def zdiv_lt_iff uint_pos_iff)
qed

lemma barrett_modulus_facts:
  fixes m :: "'a::len word"
  assumes "barrett_modulus m"
  shows "m \<noteq> 0" "0 < uint m" "GetMSB m + 3 < LENGTH('a)" "2 * GetMSB m + 3 < 2 * LENGTH('a)"
    "2 * uint m < 2 ^ LENGTH('a)"
proof -
  define k where "k = GetMSB m"
  show m0: "m \<noteq> 0" using assms by (auto simp: barrett_modulus_def GetMSB_def)
  then show pos: "0 < uint m" by (simp add: uint_pos_iff)
  have mk: "uint m < 2 ^ k" using GetMSB_bounds m0 k_def by blast
  have lt: "2 ^ (2 * k + 3) < 2 ^ LENGTH('a) * uint m"
    using assms pos by (simp add: barrett_modulus_def k_def zdiv_lt_iff)
  also have "\<dots> < 2 ^ LENGTH('a) * 2 ^ k" using mk by simp
  also have "\<dots> = 2 ^ (LENGTH('a) + k)" by (simp add: power_add)
  finally have "2 * k + 3 < LENGTH('a) + k" by simp
  then show k3: "GetMSB m + 3 < LENGTH('a)" by (simp add: k_def)
  then show "2 * GetMSB m + 3 < 2 * LENGTH('a)" by simp
  have "2 * uint m < 2 ^ (k + 1)" using mk by simp
  also have "\<dots> \<le> 2 ^ LENGTH('a)" using k3 k_def by (intro power_increasing) auto
  finally show "2 * uint m < 2 ^ LENGTH('a)" .
qed

lemma ComputeMu_value:
  fixes m :: "'a::len word"
  assumes "barrett_modulus m"
  obtains mu where "ComputeMu m = Inr mu" "uint mu = 2 ^ (2 * GetMSB m + 3) div uint m"
proof -
  note f = barrett_modulus_facts [OF assms]
  have "uint (push_bit (2 * GetMSB m + 3) (1 :: 'a dword)) = 2 ^ (2 * GetMSB m + 3)"
    using f(4) by (subst uint_push_bit_exact) (simp_all add: power_strict_increasing_iff)
  moreover have "2 ^ (2 * GetMSB m + 3) div uint m < 2 ^ LENGTH('a)"
    "0 \<le> 2 ^ (2 * GetMSB m + 3) div uint m"
    using assms f(2) by (simp_all add: barrett_modulus_def pos_imp_zdiv_nonneg_iff)
  ultimately show ?thesis
    using f(1) by (intro that [of "ucast (push_bit (2 * GetMSB m + 3) (1 :: 'a dword) div ucast m)"])
      (simp_all add: ComputeMu_def Let_def uint_narrow uint_div_eq uint_widen)
qed

definition barrett_quot :: "'a::len dword \<Rightarrow> 'a word \<Rightarrow> 'a word \<Rightarrow> 'a dword" where
  "barrett_quot x m mu =
     drop_bit (GetMSB m - 2 + 7)
       (ucast (ucast (drop_bit (GetMSB m - 2) x) :: 'a word) * ucast mu)"

lemma barrett_quot_bounds:
  fixes x :: "'a::len dword"
  assumes m: "barrett_modulus m" and mu: "ComputeMu m = Inr mu"
    and x: "uint x < 2 ^ (2 * GetMSB m + 1)"
  shows "uint (barrett_quot x m mu) * uint m \<le> uint x"
    and "uint x < uint (barrett_quot x m mu) * uint m + 2 * uint m"
proof -
  define k where "k = GetMSB m"
  note f = barrett_modulus_facts [OF m]
  have k: "2 \<le> k" using m by (simp add: barrett_modulus_def k_def)
  have muv: "uint mu = 2 ^ (2 * k + 3) div uint m"
    using ComputeMu_value [OF m] mu by (metis Inr_inject k_def)
  have "uint x div 2 ^ (k - 2) < 2 ^ (k + 3)"
    using x k by (simp add: zdiv_lt_iff k_def [symmetric] power_add [symmetric])
  also have "(2::int) ^ (k + 3) \<le> 2 ^ LENGTH('a)"
    using f(3) k_def by (intro power_increasing) auto
  finally have "uint (ucast (drop_bit (k - 2) x) :: 'a word) = uint x div 2 ^ (k - 2)"
    by (simp add: uint_narrow uint_drop_bit pos_imp_zdiv_nonneg_iff)
  then have q: "uint (barrett_quot x m mu) =
      (uint x div 2 ^ (k - 2)) * (2 ^ (2 * k + 3) div uint m) div 2 ^ (k + 5)"
    using k by (simp add: barrett_quot_def k_def [symmetric] uint_drop_bit uint_widen_mul muv add.commute)
  have "2 ^ (k - 1) \<le> uint m" using GetMSB_bounds f(1) k_def by blast
  note * = barrett_estimate [OF k this uint_ge_0 x [folded k_def], folded q]
  show "uint (barrett_quot x m mu) * uint m \<le> uint x"
    and "uint x < uint (barrett_quot x m mu) * uint m + 2 * uint m" by (rule *)+
qed

text \<open>The conditional subtraction and addition that end every modular operation.\<close>

lemma uint_csub:
  fixes r m :: "'a::len word"
  assumes "uint r < 2 * uint m"
  shows "uint (if r \<ge> m then r - m else r) = uint r mod uint m"
  using assms by (auto simp: csub_mod word_le_def uint_sub_exact)

lemma uint_cadd:
  fixes a b m :: "'a::len word"
  assumes "uint a < uint m" "uint b < uint m"
  shows "uint (if a < b then a + m - b else a - b) = (uint a - uint b) mod uint m"
proof (cases "a < b")
  case True
  have "uint (a + m - b) = (uint a + uint m - uint b) mod 2 ^ LENGTH('a)"
    by (simp add: uint_simps mod_diff_left_eq)
  also have "\<dots> = uint a + uint m - uint b"
    using True assms uint_lt_pow [of m] uint_ge_0 [of a] unfolding word_less_def
    by (intro mod_pos_pos_trivial) linarith+
  finally have v: "uint (a + m - b) = uint a + uint m - uint b" .
  have "- uint m \<le> uint a - uint b" "uint a - uint b < uint m" "uint a - uint b < 0"
    using True assms uint_ge_0 [of a] uint_ge_0 [of b] unfolding word_less_def by linarith+
  then show ?thesis using True v by (simp add: cadd_mod)
next
  case False
  then have "uint (a - b) = uint a - uint b" "0 \<le> uint a - uint b"
    by (simp_all add: word_less_def uint_sub_exact)
  moreover have "uint a - uint b < uint m" using assms uint_ge_0 [of b] by linarith
  ultimately show ?thesis using False by simp
qed

lemma barrett_reduce_wide:
  fixes x :: "'a::len dword"
  assumes m: "barrett_modulus m" and mu: "ComputeMu m = Inr mu"
    and x: "uint x < 2 ^ (2 * GetMSB m + 1)"
  defines "r \<equiv> (ucast (x - ucast m * barrett_quot x m mu) :: 'a word)"
  shows "uint (if r \<ge> m then r - m else r) = uint x mod uint m"
proof -
  let ?q = "barrett_quot x m mu"
  note b = barrett_quot_bounds [OF m mu x] and f = barrett_modulus_facts [OF m]
  have "uint (ucast m * ?q) = uint m * uint ?q"
    using b(1) uint_lt_pow [of x]
    by (subst uint_mul_exact) (auto simp: uint_widen mult.commute simp del: uint_lt_pow)
  then have "uint (x - ucast m * ?q) = uint x - uint ?q * uint m"
    using b(1) by (simp add: uint_sub_exact mult.commute)
  then have r: "uint r = uint x - uint ?q * uint m"
    unfolding r_def uint_narrow using b f(5) by simp
  have "uint r mod uint m = uint x mod uint m"
    unfolding r by (rule mod_sub_mult_self)
  moreover have "uint r < 2 * uint m" using r b(2) by linarith
  ultimately show ?thesis by (simp only: uint_csub)
qed

lemma ModMulFast_mu_barrett:
  assumes "barrett_modulus m"
  shows "ModMulFast_mu a b m mu =
    (let x = ucast a * ucast b; r = ucast (x - ucast m * barrett_quot x m mu)
     in if r \<ge> m then r - m else r)"
  using barrett_modulus_facts(3) [OF assms]
  by (simp add: ModMulFast_mu_def Let_def barrett_quot_def RShiftD_eq)

lemma uint_ModMulFast_mu:
  fixes a b m mu :: "'a::len word"
  assumes "barrett_modulus m" "ComputeMu m = Inr mu" "uint a * uint b < 2 ^ (2 * GetMSB m + 1)"
  shows "uint (ModMulFast_mu a b m mu) = uint a * uint b mod uint m"
  unfolding ModMulFast_mu_barrett [OF assms(1)] Let_def
  using barrett_reduce_wide [OF assms(1,2), of "ucast a * ucast b"] assms(3)
  by (simp only: uint_widen_mul)

lemma ModMu_barrett:
  fixes a m mu :: "'a::len word"
  assumes m: "barrett_modulus m"
  shows "ModMu a m mu (GetMSB m - 2) =
    (let x = ucast a; r = ucast (x - ucast m * barrett_quot x m mu)
     in if r \<ge> m then r - m else r)"
proof -
  have g: "GetD \<lparr> hi = 0, lo = a \<rparr> = ucast a" by (simp add: GetD_def)
  have n: "GetMSB m - 2 \<le> LENGTH('a)" using barrett_modulus_facts(3) [OF m] by simp
  have sub: "(ucast (ucast a - c :: 'a dword) :: 'a word) = a - ucast c" for c
    by (simp add: word_uint_eq_iff uint_narrow uint_sub_mod uint_widen mod_diff_right_eq
          mod_mod_cancel le_imp_power_dvd)
  show ?thesis
    using n by (simp add: ModMu_def Let_def barrett_quot_def RShiftD_eq g sub mult.commute)
qed

lemma uint_ModMu:
  fixes a m mu :: "'a::len word"
  assumes "barrett_modulus m" "ComputeMu m = Inr mu" "uint a < 2 ^ (2 * GetMSB m + 1)"
  shows "uint (ModMu a m mu (GetMSB m - 2)) = uint a mod uint m"
  unfolding ModMu_barrett [OF assms(1)] Let_def
  using barrett_reduce_wide [OF assms(1,2), of "ucast a"] assms(3)
  by (simp only: uint_widen)

section \<open>The value of every modular operation\<close>

text \<open>
  \<open>modulus_ok\<close>: the moduli below half the range of the word, so that a sum of two residues does
  not wrap.  \<^verbatim>\<open>MAX_MODULUS_SIZE\<close> keeps every modulus of the library there.
\<close>

definition modulus_ok :: "'a::len word \<Rightarrow> bool" where
  "modulus_ok m \<longleftrightarrow> 0 < uint m \<and> 2 * uint m \<le> 2 ^ LENGTH('a)"

lemma barrett_modulus_ok [intro]: "barrett_modulus m \<Longrightarrow> modulus_ok m"
  using barrett_modulus_facts [of m] by (simp add: modulus_ok_def)

definition residue :: "'a::len word \<Rightarrow> 'a word \<Rightarrow> bool" where
  "residue m a \<longleftrightarrow> uint a < uint m"

lemma residue_uint_mod: "uint c = x mod uint m \<Longrightarrow> 0 < uint m \<Longrightarrow> residue m c"
  by (simp add: residue_def)

lemma pre_reduce:
  "uint (if a \<ge> m then a mod m else (a :: 'a::len word)) = uint a mod uint m"
  by (auto simp: word_le_def uint_mod_eq)

lemma pre_reduce_wide:
  "uint (ucast (if x \<ge> ucast m then x mod ucast m else (x :: 'a::len dword)) :: 'a word)
     = uint x mod uint m" if "0 < uint (m :: 'a word)"
proof -
  have "uint (if x \<ge> ucast m then x mod ucast m else x) = uint x mod uint m"
    by (simp add: pre_reduce uint_widen)
  moreover have "uint x mod uint m < 2 ^ LENGTH('a)" "0 \<le> uint x mod uint m"
    using pos_mod_bound [OF that, of "uint x"] uint_lt_pow [of m] pos_mod_sign [OF that, of "uint x"]
    by linarith+
  ultimately show ?thesis by (simp add: uint_narrow)
qed

lemma uint_ModAddFast:
  assumes "modulus_ok m" "residue m a" "residue m b"
  shows "uint (ModAddFast a b m) = (uint a + uint b) mod uint m"
proof -
  have "uint (a + b) = uint a + uint b"
    using assms by (intro uint_add_exact) (simp add: modulus_ok_def residue_def)
  then show ?thesis
    using assms uint_csub [of "a + b" m]
    by (simp add: ModAddFast_def Let_def residue_def)
qed

lemma uint_ModSubFast:
  assumes "residue m a" "residue m b"
  shows "uint (ModSubFast a b m) = (uint a - uint b) mod uint m"
  using assms uint_cadd [of a m b] by (simp add: ModSubFast_def residue_def)

lemma uint_ModMulFast:
  assumes "0 < uint m"
  shows "uint (ModMulFast a b m) = (uint a * uint b) mod uint m"
  using pre_reduce_wide [OF assms, of "ucast a * ucast b"]
  by (simp add: ModMulFast_def Let_def uint_widen_mul)

text \<open>The checked operations are the fast ones on reduced operands.\<close>

lemma ModAdd_as_fast: "ModAdd a b m = ModAddFast (if a \<ge> m then a mod m else a) (if b \<ge> m then b mod m else b) m"
  by (simp add: ModAdd_def ModAddFast_def Let_def)

lemma ModSub_as_fast: "ModSub a b m = ModSubFast (if a \<ge> m then a mod m else a) (if b \<ge> m then b mod m else b) m"
  by (simp add: ModSub_def ModSubFast_def Let_def)

lemma ModMul_as_fast: "ModMul a b m = ModMulFast (if a \<ge> m then a mod m else a) (if b \<ge> m then b mod m else b) m"
  by (simp add: ModMul_def ModMulFast_def Let_def)

lemma ModAdd_mu_as_fast: "ModAdd_mu a b m mu =
    ModAddFast (if a \<ge> m then ModEq_mu a m mu else a) (if b \<ge> m then ModEq_mu b m mu else b) m"
  by (simp add: ModAdd_mu_def ModAddFast_def Let_def)

lemma ModSub_mu_as_fast: "ModSub_mu a b m mu =
    ModSubFast (if a \<ge> m then ModEq_mu a m mu else a) (if b \<ge> m then ModEq_mu b m mu else b) m"
  by (simp add: ModSub_mu_def ModSubFast_def Let_def)

lemma ModMul_mu_as_fast: "ModMul_mu a b m mu =
    ModMulFast_mu (if a \<ge> m then ModEq_mu a m mu else a) (if b \<ge> m then ModEq_mu b m mu else b) m mu"
  by (simp add: ModMul_mu_def ModMulFast_mu_def ModEq_mu_def Let_def)

lemma residue_pre_reduce: "0 < uint m \<Longrightarrow> residue m (if a \<ge> m then a mod m else a)"
  by (rule residue_uint_mod [OF pre_reduce])

lemma uint_ModAdd:
  assumes "modulus_ok m"
  shows "uint (ModAdd a b m) = (uint a + uint b) mod uint m"
  using assms unfolding ModAdd_as_fast
  by (subst uint_ModAddFast) (auto simp: residue_pre_reduce modulus_ok_def pre_reduce mod_simps)

lemma uint_ModSub:
  assumes "0 < uint m"
  shows "uint (ModSub a b m) = (uint a - uint b) mod uint m"
  using assms unfolding ModSub_as_fast
  by (subst uint_ModSubFast) (auto simp: residue_pre_reduce pre_reduce mod_simps)

lemma uint_ModMul:
  assumes "0 < uint m"
  shows "uint (ModMul a b m) = (uint a * uint b) mod uint m"
  using assms unfolding ModMul_as_fast
  by (subst uint_ModMulFast) (auto simp: pre_reduce mod_simps)

text \<open>Barrett variants: the operands may be any values below \<open>2 ^ (2 * GetMSB m + 1)\<close>.\<close>

lemma pre_reduce_mu:
  assumes "barrett_modulus m" "ComputeMu m = Inr mu" "uint a < 2 ^ (2 * GetMSB m + 1)"
  shows "uint (if a \<ge> m then ModEq_mu a m mu else a) = uint a mod uint m"
  using uint_ModMu [OF assms] by (auto simp: ModEq_mu_def word_le_def)

lemma residue_pre_reduce_mu:
  assumes "barrett_modulus m" "ComputeMu m = Inr mu" "uint a < 2 ^ (2 * GetMSB m + 1)"
  shows "residue m (if a \<ge> m then ModEq_mu a m mu else a)"
  using residue_uint_mod [OF pre_reduce_mu [OF assms]] barrett_modulus_facts(2) [OF assms(1)] by blast

lemma residue_prod_lt:
  fixes a b m :: "'a::len word"
  assumes "residue m a" "residue m b"
  shows "uint a * uint b < 2 ^ (2 * GetMSB m + 1)"
proof -
  have m: "uint m \<le> 2 ^ GetMSB m" using GetMSB_le_iff [of m "GetMSB m"] by simp
  have "uint a * uint b \<le> uint m * uint m"
    using assms by (intro mult_mono) (simp_all add: residue_def)
  also have "\<dots> \<le> 2 ^ GetMSB m * 2 ^ GetMSB m" using m by (intro mult_mono) auto
  also have "\<dots> = 2 ^ (2 * GetMSB m)" by (simp only: mult_2 power_add)
  also have "\<dots> < 2 ^ (2 * GetMSB m + 1)" by simp
  finally show ?thesis .
qed

lemma uint_ModAdd_mu:
  assumes "barrett_modulus m" "ComputeMu m = Inr mu"
    "uint a < 2 ^ (2 * GetMSB m + 1)" "uint b < 2 ^ (2 * GetMSB m + 1)"
  shows "uint (ModAdd_mu a b m mu) = (uint a + uint b) mod uint m"
  unfolding ModAdd_mu_as_fast using assms
  by (subst uint_ModAddFast) (auto simp: residue_pre_reduce_mu pre_reduce_mu mod_simps)

lemma uint_ModSub_mu:
  assumes "barrett_modulus m" "ComputeMu m = Inr mu"
    "uint a < 2 ^ (2 * GetMSB m + 1)" "uint b < 2 ^ (2 * GetMSB m + 1)"
  shows "uint (ModSub_mu a b m mu) = (uint a - uint b) mod uint m"
  unfolding ModSub_mu_as_fast using assms
  by (subst uint_ModSubFast) (auto simp: residue_pre_reduce_mu pre_reduce_mu mod_simps)

lemma uint_ModMul_mu:
  assumes "barrett_modulus m" "ComputeMu m = Inr mu"
    "uint a < 2 ^ (2 * GetMSB m + 1)" "uint b < 2 ^ (2 * GetMSB m + 1)"
  shows "uint (ModMul_mu a b m mu) = (uint a * uint b) mod uint m"
proof -
  let ?a = "if a \<ge> m then ModEq_mu a m mu else a" and ?b = "if b \<ge> m then ModEq_mu b m mu else b"
  have "uint ?a * uint ?b < 2 ^ (2 * GetMSB m + 1)"
    using assms by (intro residue_prod_lt residue_pre_reduce_mu)
  then show ?thesis
    unfolding ModMul_mu_as_fast uint_ModMulFast_mu [OF assms(1,2)]
    using assms by (simp only: uint_ModMulFast_mu pre_reduce_mu mod_mult_eq)
qed

text \<open>The in-place members compute the same value as the members they double.\<close>

lemma in_place_variants:
  "ModEq a m = Mod a m"
  "ModEq_mu a m mu = Mod_mu a m mu"
  "ModAddEq a b m = ModAdd a b m"
  "ModAddFastEq a b m = ModAddFast a b m"
  "ModAddEq_mu a b m mu = ModAdd_mu a b m mu"
  "ModSubEq a b m = ModSub a b m"
  "ModSubFastEq a b m = ModSubFast a b m"
  "ModSubEq_mu a b m mu = ModSub_mu a b m mu"
  "ModMulEq a b m = ModMul a b m"
  "ModMulFastEq a b m = ModMulFast a b m"
  "ModMulFastEq_mu a b m mu = ModMulFast_mu a b m mu"
  "ModMulEq_mu a b m mu = ModMul_mu a b m mu"
  "ModMulFastEq_mu_D a b m mu = ModMulFast_mu_D a b m mu"
  "ModMulFastConstEq a b m mu = ModMulFastConst a b m mu"
  by (simp_all add: ModEq_def Mod_def ModEq_mu_def Mod_mu_def ModAddEq_def ModAdd_def
      ModAddFastEq_def ModAddFast_def ModAddEq_mu_def ModAdd_mu_def ModSubEq_def ModSub_def
      ModSubFastEq_def ModSubFast_def ModSubEq_mu_def ModSub_mu_def ModMulEq_def ModMul_def
      ModMulFastEq_def ModMulFast_def ModMulFastEq_mu_def ModMulFast_mu_def ModMulEq_mu_def
      ModMul_mu_def ModMulFastEq_mu_D_def ModMulFast_mu_D_def ModMulFastConstEq_def
      ModMulFastConst_def Let_def)

section \<open>Shoup multiplication\<close>

lemma PrepModMulConst_value:
  fixes b m :: "'a::len word"
  assumes "residue m b"
  obtains bInv where "PrepModMulConst b m = Inr bInv"
    "uint bInv = uint b * 2 ^ LENGTH('a) div uint m"
proof -
  have pos: "0 < uint m" using assms uint_ge_0 [of b] unfolding residue_def by linarith
  have "uint (push_bit LENGTH('a) (ucast b :: 'a dword)) = uint b * 2 ^ LENGTH('a)"
    unfolding uint_widen [of b, symmetric]
    by (rule uint_push_bit_exact) (simp add: uint_widen dlen_pow del: len_bit0)
  moreover have "uint b * 2 ^ LENGTH('a) div uint m < 2 ^ LENGTH('a)"
    using assms pos by (simp add: zdiv_lt_iff residue_def mult.commute)
  moreover have "0 \<le> uint b * 2 ^ LENGTH('a) div uint m"
    using pos by (simp add: pos_imp_zdiv_nonneg_iff)
  moreover have "m \<noteq> 0" using pos by auto
  ultimately show ?thesis
    by (intro that [of "ucast (push_bit LENGTH('a) (ucast b :: 'a dword) div ucast m)"])
      (simp_all add: PrepModMulConst_def Let_def uint_narrow uint_div_eq uint_widen)
qed

text \<open>The quotient estimate is the quotient or one less, for every multiplicand of a word.\<close>

lemma shoup_estimate:
  fixes a b m W :: int
  assumes "0 \<le> a" "a < W" "0 \<le> b" "b < m"
  defines "q \<equiv> a * (b * W div m) div W"
  shows "q * m \<le> a * b" "a * b < q * m + 2 * m"
proof -
  have W: "0 < W" and m: "0 < m" using assms by linarith+
  define c where "c = b * W div m"
  note cb = zdiv_bounds [OF m, of "b * W", folded c_def]
  note qb = zdiv_bounds [OF W, of "a * c", folded c_def q_def [folded c_def]]
  have "q * m * W = (q * W) * m" by simp
  also have "\<dots> \<le> (a * c) * m" using qb m by (intro mult_right_mono) auto
  also have "\<dots> \<le> a * (b * W)" using cb assms mult_left_mono [of "c * m" "b * W" a] by (simp add: mult_ac)
  finally have "q * m * W \<le> (a * b) * W" by (simp add: mult_ac)
  then show "q * m \<le> a * b" using W by simp
  have "a * (b * W) \<le> a * (c * m + m)" using cb assms by (intro mult_left_mono) auto
  also have "\<dots> = (a * c) * m + a * m" by (simp add: algebra_simps)
  also have "\<dots> < (q * W + W) * m + W * m"
    using qb m assms by (intro add_less_le_mono mult_strict_right_mono mult_right_mono) auto
  finally have "(a * b) * W < (q * m + 2 * m) * W" by (simp add: algebra_simps)
  then show "a * b < q * m + 2 * m" using W by simp
qed

lemma sint_of_small:
  fixes y :: int
  assumes "- (2 ^ (LENGTH('a) - 1)) \<le> y" "y < 2 ^ (LENGTH('a) - 1)"
  shows "sint (word_of_int y :: 'a::len word) = y"
proof -
  have "signed_take_bit (LENGTH('a) - 1) y = y"
    using assms by (simp add: signed_take_bit_int_eq_self)
  then show ?thesis by (simp add: signed_of_int)
qed

lemma word_of_uint_mod:
  "uint (word_of_int y :: 'a::len word) = y" if "0 \<le> y" "y < 2 ^ LENGTH('a)"
  using that by (simp add: uint_word_of_int)

lemma uint_ModMulFastConst:
  fixes a b m bInv :: "'a::len word"
  assumes m: "modulus_ok m" and b: "residue m b" and p: "PrepModMulConst b m = Inr bInv"
  shows "uint (ModMulFastConst a b m bInv) = uint a * uint b mod uint m"
proof -
  define W where "W = (2::int) ^ LENGTH('a)"
  define q where "q = uint a * uint bInv div W"
  have bi: "uint bInv = uint b * W div uint m"
    using PrepModMulConst_value [OF b] p W_def by (metis Inr_inject)
  have "q * uint m \<le> uint a * uint b" "uint a * uint b < q * uint m + 2 * uint m"
    unfolding q_def bi using b by (intro shoup_estimate; simp add: residue_def W_def)+
  moreover define y where "y = uint a * uint b - (q + 1) * uint m"
  ultimately have y: "- uint m \<le> y" "y < uint m" by (simp_all add: algebra_simps)
  have half: "uint m \<le> 2 ^ (LENGTH('a) - 1)"
  proof -
    have "(2::int) ^ LENGTH('a) = 2 * 2 ^ (LENGTH('a) - 1)" by (cases "LENGTH('a)") auto
    then show ?thesis using m by (simp add: modulus_ok_def)
  qed
  have yw: "a * b - (MultDHi a bInv + 1) * m = word_of_int y"
  proof -
    have "MultDHi a bInv = word_of_int q"
      unfolding q_def W_def uint_MultDHi [symmetric] by simp
    then show ?thesis by (simp add: y_def)
  qed
  have ymod: "y mod uint m = uint a * uint b mod uint m"
    unfolding y_def by (rule mod_sub_mult_self)
  have s: "sint (word_of_int y :: 'a word) = y"
    using y half by (intro sint_of_small) linarith+
  show ?thesis
  proof (cases "y \<ge> 0")
    case True
    moreover have "y < 2 ^ LENGTH('a)" using y uint_lt_pow [of m] by linarith
    ultimately have "uint (word_of_int y :: 'a word) = y" by (rule word_of_uint_mod)
    then show ?thesis using True y s ymod by (simp add: ModMulFastConst_def Let_def yw)
  next
    case False
    have "word_of_int y + m = word_of_int (y + uint m)" by simp
    moreover have "uint (word_of_int (y + uint m) :: 'a word) = y + uint m"
      using y False uint_lt_pow [of m] by (intro word_of_uint_mod) linarith+
    ultimately show ?thesis
      using False y s ymod cadd_mod [of "uint m" y] by (simp add: ModMulFastConst_def Let_def yw)
  qed
qed

section \<open>Exponentiation\<close>

lemma odd_even_power:
  fixes x :: "'b::comm_monoid_mult"
  shows "(if odd p then x else 1) * (x * x) ^ (p div 2) = x ^ p"
proof (cases "odd p")
  case True
  then have "p = Suc (2 * (p div 2))" by (simp add: odd_two_times_div_two_succ)
  then have "x ^ p = x * (x ^ 2) ^ (p div 2)" by (metis power_Suc power_mult)
  with True show ?thesis by (simp add: power2_eq_square)
next
  case False
  then have "p = 2 * (p div 2)" by simp
  then have "x ^ p = (x ^ 2) ^ (p div 2)" by (metis power_mult)
  with False show ?thesis by (simp add: power2_eq_square)
qed

lemma Exp_loop_power: "Exp_loop p x r = r * x ^ p"
proof (induction p x r rule: Exp_loop.induct)
  case (1 p x r)
  show ?case
    using 1 odd_even_power [of p x] by (simp add: Exp_loop.simps [of p x r] mult.assoc)
qed

lemma Exp_power: "Exp a p = a ^ p"
  by (simp add: Exp_def Exp_loop_power)

lemma mulmod_wide:
  fixes t r m :: "'a::len dword"
  assumes "uint t < 2 ^ LENGTH('a)" "uint r < 2 ^ LENGTH('a)"
  shows "uint (let r = r * t in if r \<ge> m then r mod m else r) = uint r * uint t mod uint m"
proof -
  have "uint r * uint t < 2 ^ LENGTH('a) * 2 ^ LENGTH('a)"
    using assms by (intro mult_strict_mono') auto
  then have "uint (r * t) = uint r * uint t"
    by (intro uint_mul_exact) (simp only: dlen_pow)
  then show ?thesis by (simp add: Let_def pre_reduce)
qed

lemma ModExp_loop_value:
  fixes t r m :: "'a::len dword"
  assumes "0 < uint m" "uint m \<le> 2 ^ LENGTH('a)" "uint t < 2 ^ LENGTH('a)" "uint r < uint m"
  shows "uint (ModExp_loop p t r m) = uint r * (uint t * uint t) ^ (p div 2) mod uint m"
  using assms
proof (induction p t r m rule: ModExp_loop.induct)
  case (1 p t r m)
  define p' t' r' where "p' = p div 2" and "t' = (let t = t * t in if t \<ge> m then t mod m else t)"
    and "r' = (if odd p' then (let r = r * t' in if r \<ge> m then r mod m else r) else r)"
  show ?case
  proof (cases "p' = 0")
    case True
    then show ?thesis using 1 by (simp add: ModExp_loop.simps [of p] p'_def)
  next
    case False
    have t': "uint t' = uint t * uint t mod uint m" unfolding t'_def using 1 by (intro mulmod_wide)
    then have t'lt: "uint t' < 2 ^ LENGTH('a)" using 1 by (metis order_less_le_trans pos_mod_bound)
    have r': "uint r' = uint r * (if odd p' then uint t' else 1) mod uint m"
      unfolding r'_def using mulmod_wide [OF t'lt, of r m] 1 by auto
    have "ModExp_loop p t r m = ModExp_loop p' t' r' m"
      using False by (simp add: ModExp_loop.simps [of p] p'_def t'_def r'_def Let_def)
    also have "uint \<dots> = uint r' * (uint t' * uint t') ^ (p' div 2) mod uint m"
      using 1(2-) t'lt r' by (intro 1(1) [OF p'_def False refl t'_def [unfolded Let_def] r'_def]) simp_all
    also have "\<dots> = uint r * ((if odd p' then uint t' else 1) * (uint t' * uint t') ^ (p' div 2)) mod uint m"
      unfolding r' by (simp add: mod_mult_left_eq mult.assoc)
    also have "\<dots> = uint r * uint t' ^ p' mod uint m" by (simp only: odd_even_power)
    also have "\<dots> = uint r * (uint t * uint t) ^ p' mod uint m"
      unfolding t' by (metis mod_mult_right_eq power_mod)
    finally show ?thesis by (simp add: p'_def)
  qed
qed

lemma uint_ModExp:
  fixes a b m :: "'a::len word"
  assumes "1 < uint m"
  shows "uint (ModExp a b m) = uint a ^ unat b mod uint m"
proof -
  define t M where "t = (ucast a :: 'a dword)" and "M = (ucast m :: 'a dword)"
  define r where "r = (if odd (unat b) then (let r = 1 * t in if r \<ge> M then r mod M else r) else 1)"
  have v: "uint t = uint a" "uint M = uint m" by (simp_all add: t_def M_def uint_widen)
  have r: "uint r = (if odd (unat b) then uint t else 1) mod uint M"
    using assms v by (auto simp: r_def Let_def pre_reduce)
  have "uint (ModExp_loop (unat b) t r M) = uint r * (uint t * uint t) ^ (unat b div 2) mod uint M"
    using assms r v by (intro ModExp_loop_value) simp_all
  also have "\<dots> = (if odd (unat b) then uint t else 1) * (uint t * uint t) ^ (unat b div 2) mod uint M"
    unfolding r by (simp add: mod_mult_left_eq)
  also have "\<dots> = uint a ^ unat b mod uint m" unfolding odd_even_power v ..
  finally have e: "uint (ModExp_loop (unat b) t r M) = uint a ^ unat b mod uint m" .
  have "uint a ^ unat b mod uint m < 2 ^ LENGTH('a)"
    using assms pos_mod_bound [of "uint m" "uint a ^ unat b"] uint_lt_pow [of m] by linarith
  then show ?thesis using e assms
    by (simp add: ModExp_def Let_def t_def [symmetric] M_def [symmetric] r_def [unfolded Let_def, symmetric]
        uint_narrow flip: r_def)
qed

section \<open>Modular inverse\<close>

text \<open>
  The invariant of the extended Euclidean loop: the Bezout relations, opposite signs of the two
  coefficients, and the balance that bounds both coefficients by the modulus.
\<close>

definition mi_inv :: "int \<Rightarrow> int \<Rightarrow> int \<Rightarrow> int \<Rightarrow> int \<Rightarrow> int \<Rightarrow> bool" where
  "mi_inv a0 m0 a md x y \<longleftrightarrow>
     0 < a \<and> 0 \<le> md \<and> m0 dvd x * a0 - a \<and> m0 dvd y * a0 - md \<and>
     (0 \<le> x \<and> y \<le> 0 \<or> x \<le> 0 \<and> 0 \<le> y) \<and>
     a * \<bar>y\<bar> + md * \<bar>x\<bar> = m0 \<and> \<bar>x\<bar> < m0"

lemma mi_inv_step:
  assumes inv: "mi_inv a0 m0 a md x y" and a: "1 < a" and md: "0 < md"
  shows "mi_inv a0 m0 md (a mod md) y (x - a div md * y)"
    and "\<bar>a div md * y\<bar> \<le> m0" and "\<bar>x - a div md * y\<bar> \<le> m0"
proof -
  define q where "q = a div md"
  have q: "0 \<le> q" using a md by (simp add: q_def pos_imp_zdiv_nonneg_iff)
  have am: "a mod md = a - q * md" by (simp add: q_def minus_div_mult_eq_mod)
  note I = inv [unfolded mi_inv_def]
  have sg: "0 \<le> x \<and> y \<le> 0 \<and> q * y \<le> 0 \<or> x \<le> 0 \<and> 0 \<le> y \<and> 0 \<le> q * y"
    using I q by (auto simp: mult_nonneg_nonpos)
  then have "\<bar>x - q * y\<bar> = \<bar>x\<bar> + \<bar>q * y\<bar>" by linarith
  then have opp: "\<bar>x - q * y\<bar> = \<bar>x\<bar> + q * \<bar>y\<bar>" using q by (simp add: abs_mult)
  have bal: "md * \<bar>x - q * y\<bar> + (a - q * md) * \<bar>y\<bar> = m0"
    unfolding opp using I by (simp add: algebra_simps)
  have m0: "0 < m0" using I by linarith
  have "2 * \<bar>y\<bar> \<le> a * \<bar>y\<bar>" using a by (intro mult_right_mono) auto
  moreover have "0 \<le> md * \<bar>x\<bar>" using md by simp
  ultimately have y: "\<bar>y\<bar> < m0" using I m0 by linarith
  have "1 * \<bar>x - q * y\<bar> \<le> md * \<bar>x - q * y\<bar>" using md by (intro mult_right_mono) auto
  moreover have "0 \<le> (a - q * md) * \<bar>y\<bar>" using md by (simp flip: am)
  ultimately show b: "\<bar>x - a div md * y\<bar> \<le> m0" using bal by (simp add: q_def)
  show "\<bar>a div md * y\<bar> \<le> m0"
    using b opp q by (simp add: q_def [symmetric] abs_mult)
  have d: "m0 dvd (x - q * y) * a0 - (a - q * md)"
  proof -
    have "(x - q * y) * a0 - (a - q * md) = (x * a0 - a) - q * (y * a0 - md)"
      by (simp add: algebra_simps)
    moreover have "m0 dvd (x * a0 - a) - q * (y * a0 - md)"
      using dvd_diff [OF _ dvd_mult, of m0 "x * a0 - a" "y * a0 - md" q] I by blast
    ultimately show ?thesis by (simp only:)
  qed
  have s: "0 \<le> y \<and> x - q * y \<le> 0 \<or> y \<le> 0 \<and> 0 \<le> x - q * y"
    using sg by linarith
  show "mi_inv a0 m0 md (a mod md) y (x - a div md * y)"
    unfolding mi_inv_def am q_def [symmetric]
    using md y d s bal I by (simp flip: am add: q_def [symmetric])
qed

lemma ModInverse_loop_unfold:
  assumes "1 < a" "0 < md" "\<bar>a div md * y\<bar> < 2 ^ (w - 1)" "\<bar>x - a div md * y\<bar> < 2 ^ (w - 1)"
  shows "ModInverse_loop w a md x y = ModInverse_loop w md (a mod md) y (x - a div md * y)"
proof -
  have "a sdiv md = a div md" "a smod md = a mod md"
    using assms by (simp_all add: signed_divide_int_def signed_modulo_int_def minus_div_mult_eq_mod
        minus_mult_div_eq_mod)
  moreover have "- (2 ^ (w - 1)) \<le> v \<and> v < 2 ^ (w - 1)" if "\<bar>v\<bar> < (2::int) ^ (w - 1)" for v
    using that by linarith
  ultimately show ?thesis
    using assms by (simp add: ModInverse_loop.simps [of w a] Let_def inS_def)
qed

lemma ModInverse_loop_spec:
  assumes "mi_inv a0 m0 a md x y" "m0 < 2 ^ (w - 1)"
  shows "if gcd a md = 1
         then \<exists>x'. ModInverse_loop w a md x y = Inr x' \<and> m0 dvd x' * a0 - 1 \<and> \<bar>x'\<bar> < m0
         else ModInverse_loop w a md x y = Inl undefined_behaviour"
  using assms
proof (induction "nat md" arbitrary: a md x y rule: less_induct)
  case less
  note I = less.prems(1) [unfolded mi_inv_def]
  show ?case
  proof (cases "1 < a")
    case False
    then have "a = 1" using I by linarith
    then show ?thesis using I by (simp add: ModInverse_loop.simps [of w 1])
  next
    case True
    show ?thesis
    proof (cases "md = 0")
      case True
      then show ?thesis using \<open>1 < a\<close> by (simp add: ModInverse_loop.simps [of w a])
    next
      case False
      then have md: "0 < md" using I by linarith
      note st = mi_inv_step [OF less.prems(1) \<open>1 < a\<close> md]
      have "ModInverse_loop w a md x y = ModInverse_loop w md (a mod md) y (x - a div md * y)"
        using st(2,3) less.prems(2) by (intro ModInverse_loop_unfold \<open>1 < a\<close> md) linarith+
      moreover have "nat (a mod md) < nat md" using md by simp
      note less.hyps [OF this st(1) less.prems(2)]
      moreover have "gcd md (a mod md) = gcd a md" by (metis gcd.commute gcd_red_int)
      ultimately show ?thesis by simp
    qed
  qed
qed
lemma sint_small:
  fixes a :: "'a::len word"
  assumes "uint a < 2 ^ (LENGTH('a) - 1)"
  shows "sint a = uint a"
proof -
  have "sint (word_of_int (uint a) :: 'a word) = uint a"
    by (rule sint_of_small) (use assms uint_ge_0 [of a] in linarith)+
  then show ?thesis by simp
qed

lemma ModInverse_cases:
  fixes a m :: "'a::len word"
  assumes m: "1 < uint m" "uint m < 2 ^ (LENGTH('a) - 1)"
  shows "if uint a mod uint m = 0 then ModInverse a m = Inl math_error
         else if gcd (uint a) (uint m) = 1
         then \<exists>x. ModInverse a m = Inr x \<and> residue m x \<and> uint x * uint a mod uint m = 1
         else ModInverse a m = Inl undefined_behaviour"
proof -
  define a0 m0 where "a0 = uint a mod uint m" and "m0 = uint m"
  have m0: "1 < m0" "m0 < 2 ^ (LENGTH('a) - 1)" "m \<noteq> 0" using m by (auto simp: m0_def)
  have a0: "0 \<le> a0" "a0 < m0" using m by (simp_all add: a0_def m0_def)
  have "uint (a mod m) = a0" by (simp add: uint_mod_eq a0_def)
  then have s: "sint m = m0" "sint (a mod m) = a0"
    using sint_small [of m] sint_small [of "a mod m"] a0 m0 by (simp_all add: m0_def)
  show ?thesis
  proof (cases "a0 = 0")
    case True
    then show ?thesis using s m0 by (simp add: ModInverse_def Let_def a0_def)
  next
    case False
    have "mi_inv a0 m0 a0 m0 1 0" using False a0 m0 by (simp add: mi_inv_def)
    note sp = ModInverse_loop_spec [OF this m0(2)]
    have g: "gcd a0 m0 = gcd (uint a) (uint m)"
      unfolding a0_def m0_def by (metis gcd.commute gcd_red_int)
    show ?thesis
    proof (cases "gcd a0 m0 = 1")
      case True
      then obtain x where x: "ModInverse_loop LENGTH('a) a0 m0 1 0 = Inr x"
        "m0 dvd x * a0 - 1" "\<bar>x\<bar> < m0" using sp by auto
      define r :: "'a word" where "r = (if x < 0 then word_of_int x + m else word_of_int x)"
      have W: "m0 < 2 ^ LENGTH('a)" by (simp add: m0_def)
      have "r = word_of_int (if x < 0 then x + m0 else x)"
        by (simp add: r_def m0_def)
      also have "uint \<dots> = (if x < 0 then x + m0 else x)"
        using x(3) W by (intro word_of_uint_mod) auto
      finally have r: "uint r = (if x < 0 then x + m0 else x)" .
      then have rm: "uint r = x mod m0" using x(3) by (simp add: cadd_mod)
      have "uint r * uint a mod m0 = x * a0 mod m0"
        unfolding rm a0_def m0_def by (simp add: mod_mult_left_eq mod_mult_right_eq)
      also have "\<dots> = 1 mod m0" using x(2) by (simp add: mod_eq_dvd_iff)
      also have "\<dots> = 1" using m0 by simp
      finally have "uint r * uint a mod uint m = 1" by (simp add: m0_def)
      moreover have "residue m r" using rm m0 by (simp add: residue_def m0_def)
      moreover have "ModInverse a m = Inr r"
        using x(1) False s m0 by (simp add: ModInverse_def Let_def r_def)
      ultimately show ?thesis using False True g by (auto simp: a0_def)
    next
      case 2: False
      then show ?thesis
        using False s m0 sp g by (simp add: ModInverse_def Let_def a0_def)
    qed
  qed
qed

section \<open>The variants without a wide type\<close>

lemma ModMulFast_mu_D_eq:
  fixes a b m mu :: "'a::len word"
  assumes m: "barrett_modulus m" and k: "GetMSB m + 5 \<le> LENGTH('a)"
  shows "ModMulFast_mu_D a b m mu = ModMulFast_mu a b m mu"
proof -
  let ?x = "ucast a * ucast b :: 'a dword"
  define q where "q = barrett_quot ?x m mu"
  have n: "GetMSB m - 2 \<le> LENGTH('a)" "GetMSB m - 2 + 7 \<le> LENGTH('a)"
    using k m by (simp_all add: barrett_modulus_def)
  have sub: "(ucast (?x - ucast m * q) :: 'a word) = a * b - ucast q * m"
    by (simp add: word_uint_eq_iff uint_narrow uint_sub_mod uint_mul_mod uint_widen
        mod_mod_cancel le_imp_power_dvd mod_simps mult.commute)
  show ?thesis
    unfolding ModMulFast_mu_barrett [OF m] Let_def q_def [symmetric] sub
    using n by (simp add: ModMulFast_mu_D_def Let_def lo_SubtractD lo_MultD RShiftD_eq q_def barrett_quot_def)
qed

text \<open>The school-book product with its two carries, on integers.\<close>

lemma schoolbook_carries:
  fixes A1 A2 B1 B2 H :: int
  assumes H: "1 < H" and r: "0 \<le> A1" "A1 < H" "0 \<le> A2" "A2 < H" "0 \<le> B1" "B1 < H" "0 \<le> B2" "B2 < H"
  defines "S \<equiv> A1 * B2 + A2 * B1"
  defines "T \<equiv> S mod (H * H)"
  defines "L \<equiv> A2 * B2 + T * H mod (H * H)"
  shows "(A1 * B1 + (if H * H \<le> L then 1 else 0) + (if H * H \<le> S then 1 else 0) * H + T div H) * (H * H)
           + L mod (H * H) = (A1 * H + A2) * (B1 * H + B2)"
proof -
  have p: "0 \<le> x * y \<and> x * y < H * H" if "0 \<le> x" "x < H" "0 \<le> y" "y < H" for x y
    using that mult_strict_mono' [of x H y H] by simp
  have S: "0 \<le> S" "S < 2 * (H * H)" unfolding S_def using p [of A1 B2] p [of A2 B1] r by linarith+
  have HH: "0 < H * H" using H by simp
  have T: "S = T + (if H * H \<le> S then 1 else 0) * (H * H)"
    unfolding T_def using S by (subst csub_mod) auto
  have sh: "T * H mod (H * H) = T mod H * H" by (rule mod_mult_mult2)
  have m: "0 \<le> T mod H" "T mod H \<le> H - 1" using H by (simp_all add: zle_diff1_eq)
  then have "T mod H * H \<le> (H - 1) * H" using H by (intro mult_right_mono) auto
  then have L: "0 \<le> L" "L < 2 * (H * H)"
    unfolding L_def sh using p [of A2 B2] r m H by (simp_all add: algebra_simps)
  have Lm: "L mod (H * H) = L - (if H * H \<le> L then 1 else 0) * (H * H)"
    using L by (subst csub_mod) auto
  have Td: "T = T div H * H + T mod H" by simp
  have "(A1 * H + A2) * (B1 * H + B2) = A1 * B1 * (H * H) + S * H + A2 * B2"
    unfolding S_def by (simp add: algebra_simps)
  also have "S * H = T div H * (H * H) + T mod H * H + (if H * H \<le> S then 1 else 0) * H * (H * H)"
  proof -
    have "S * H = (T + (if H * H \<le> S then 1 else 0) * (H * H)) * H" using T by simp
    also have "\<dots> = T * H + (if H * H \<le> S then 1 else 0) * H * (H * H)" by (simp add: algebra_simps)
    also have "T * H = T div H * (H * H) + T mod H * H" by (metis Td distrib_right mult.assoc)
    finally show ?thesis .
  qed
  finally show ?thesis unfolding Lm unfolding L_def sh by (simp add: algebra_simps)
qed

text \<open>A wrapped sum is below an addend exactly when the addition carried.\<close>

lemma carry_iff:
  fixes a b :: "'a::len word"
  shows "a + b < a \<longleftrightarrow> 2 ^ LENGTH('a) \<le> uint a + uint b"
    "a + b < b \<longleftrightarrow> 2 ^ LENGTH('a) \<le> uint a + uint b"
  using uint_lt_pow [of a] uint_lt_pow [of b] uint_ge_0 [of a] uint_ge_0 [of b]
  unfolding word_less_def uint_plus_if' by (auto split: if_splits simp del: uint_lt_pow uint_ge_0)

lemma uint_low_half:
  "uint (x AND (push_bit LENGTH('a) 1 - 1) :: 'a::len dword) = uint x mod 2 ^ LENGTH('a)"
proof -
  have "x AND (push_bit LENGTH('a) 1 - 1) = take_bit LENGTH('a) x"
    by (simp add: take_bit_eq_mask mask_eq_exp_minus_1 push_bit_of_1)
  also have "\<dots> = x mod 2 ^ LENGTH('a)" by (rule take_bit_eq_mod)
  finally show ?thesis by (simp add: uint_mod_eq uint_pow2_mod)
qed

lemma double_word_eqI:
  fixes x y :: "'a::len typeD"
  assumes "uint (hi x) * 2 ^ LENGTH('a) + uint (lo x) = uint (hi y) * 2 ^ LENGTH('a) + uint (lo y)"
  shows "x = y"
proof -
  have split: "(uint (hi z) * 2 ^ LENGTH('a) + uint (lo z)) div 2 ^ LENGTH('a) = uint (hi z)"
    for z :: "'a typeD" by simp
  have "uint (hi x) = uint (hi y)" using split [of x] split [of y] assms by simp
  moreover from this have "uint (lo x) = uint (lo y)" using assms by simp
  ultimately show ?thesis by (cases x, cases y) (simp add: word_uint_eq_iff)
qed

lemma value_MultD:
  "uint (hi (MultD a b)) * 2 ^ LENGTH('a) + uint (lo (MultD a b)) = uint a * uint (b :: 'a::len word)"
  unfolding lo_MultD uint_mul_mod uint_MultDHi [unfolded MultDHi_def] by (rule div_mult_mod_eq)

lemma MultD_halves_eq:
  fixes a b :: "'a::len dword"
  shows "MultD_halves a b = MultD a b"
proof -
  define H where "H = (2::int) ^ LENGTH('a)"
  have W: "(2::int) ^ LENGTH('a bit0) = H * H" unfolding H_def by (rule dlen_pow)
  have H: "1 < H" unfolding H_def by simp
  let ?h = "\<lambda>x :: 'a dword. drop_bit LENGTH('a) x"
  let ?l = "\<lambda>x :: 'a dword. x AND (push_bit LENGTH('a) 1 - 1)"
  have half: "uint (?h x) = uint x div H" "uint (?l x) = uint x mod H" for x
    unfolding H_def by (simp_all only: uint_drop_bit uint_low_half)
  have rg: "0 \<le> uint x div H" "uint x div H < H" "0 \<le> uint x mod H" "uint x mod H < H" for x :: "'a dword"
    using H uint_lt_pow [of x] unfolding W
    by (simp_all add: zdiv_lt_iff pos_imp_zdiv_nonneg_iff)
  have pr: "uint (x * y) = uint x * uint y" if "uint x < H" "uint y < H" for x y :: "'a dword"
    using that mult_strict_mono' [of "uint x" H "uint y" H] by (intro uint_mul_exact) (simp add: W del: len_bit0)
  define A1 A2 B1 B2 where "A1 = uint a div H" and "A2 = uint a mod H"
    and "B1 = uint b div H" and "B2 = uint b mod H"
  define S T L where "S = A1 * B2 + A2 * B1" and "T = S mod (H * H)"
    and "L = A2 * B2 + T * H mod (H * H)"
  define c1 c2 where "c1 = (if H * H \<le> S then 1 else 0 :: int)" and "c2 = (if H * H \<le> L then 1 else 0 :: int)"
  note A = A1_def A2_def B1_def B2_def
  have v: "uint (?h a * ?l b) = A1 * B2" "uint (?l a * ?h b) = A2 * B1"
    "uint (?h a * ?h b) = A1 * B1" "uint (?l a * ?l b) = A2 * B2"
    unfolding A by (simp_all only: pr half rg)
  define t where "t = ?h a * ?l b + ?l a * ?h b"
  define l' where "l' = ?l a * ?l b + push_bit LENGTH('a) t"
  have t: "uint t = T" unfolding t_def uint_add_mod v(1,2) S_def T_def W ..
  have sh: "uint (push_bit LENGTH('a) t) = T * H mod (H * H)"
    unfolding uint_push_bit_mod t W H_def ..
  have l': "uint l' = L mod (H * H)"
    unfolding l'_def uint_add_mod v(4) sh W L_def ..
  have k1: "t < ?h a * ?l b \<longleftrightarrow> H * H \<le> S" "t < ?l a * ?h b \<longleftrightarrow> H * H \<le> S"
    unfolding t_def carry_iff v(1,2) W S_def by simp_all
  have k2: "l' < ?l a * ?l b \<longleftrightarrow> H * H \<le> L"
    unfolding l'_def carry_iff v(4) sh W L_def ..
  have one: "push_bit LENGTH('a) (1 :: 'a dword) = word_of_int H" by (simp add: H_def push_bit_of_1)
  define h where "h = A1 * B1 + c2 + c1 * H + T div H"
  have hw: "word_of_int h = ?h a * ?h b + word_of_int c2 + word_of_int (c1 * H) + ?h t"
  proof -
    have "?h a * ?h b = word_of_int (A1 * B1)" "?h t = word_of_int (T div H)"
      unfolding v(3) [symmetric] t [symmetric] half(1) [symmetric] by simp_all
    then show ?thesis by (simp add: h_def)
  qed
  have eq: "MultD_halves a b = \<lparr> hi = word_of_int h, lo = l' \<rparr>"
    unfolding MultD_halves_def Let_def typeD.select_convs typeD.update_convs t_def [symmetric]
    unfolding l'_def [symmetric] k1 k2
    unfolding one hw c1_def c2_def
    by (cases "H * H \<le> S"; cases "H * H \<le> L") simp_all
  have val: "h * (H * H) + L mod (H * H) = uint a * uint b"
  proof -
    have "A1 * H + A2 = uint a" "B1 * H + B2 = uint b" unfolding A by simp_all
    with schoolbook_carries [OF H rg [of a, folded A] rg [of b, folded A]] show ?thesis
      unfolding h_def c1_def c2_def L_def T_def S_def by metis
  qed
  have "h * (H * H) < (H * H) * (H * H)"
  proof -
    have "uint a * uint b < (H * H) * (H * H)" unfolding W [symmetric] by (intro mult_strict_mono' uint_ge_0 uint_lt_pow)
    moreover have "0 \<le> L mod (H * H)" using H by simp
    ultimately show ?thesis using val by linarith
  qed
  then have "h < H * H" using H by simp
  moreover have "0 \<le> h" unfolding h_def c1_def c2_def T_def A using rg H by (simp add: pos_imp_zdiv_nonneg_iff)
  ultimately have "uint (word_of_int h :: 'a dword) = h" by (intro word_of_uint_mod) (simp_all only: W)
  then show ?thesis
    unfolding eq using val by (intro double_word_eqI) (simp only: typeD.simps l' value_MultD [of a b, unfolded W] W)
qed

section \<open>Decimal strings\<close>

lemma schar_digit: "d < 10 \<Longrightarrow> schar (char_of (48 + d :: nat)) - schar CHR ''0'' = int d"
proof -
  assume d: "d < 10"
  have "of_char (char_of (48 + d)) = (48 + d) mod (256 :: nat)" by (simp add: of_char_of)
  then have "(of_char (char_of (48 + d)) :: int) = int (48 + d)"
    using d by (simp flip: of_nat_of_char [where 'a = int])
  then show ?thesis using d by (simp add: schar_def Let_def)
qed

lemma SetValue_loop_digit:
  assumes "d < 10" "10 * uint acc + int d < 2 ^ LENGTH('a)"
  shows "SetValue_loop (char_of (48 + d :: nat) # cs) acc acc =
    SetValue_loop cs (word_of_int (10 * uint acc + int d)) (word_of_int (10 * uint acc + int d) :: 'a::len word)"
proof -
  have "10 * acc + word_of_int (int d) = word_of_int (10 * uint acc + int d)" by simp
  moreover have "\<not> word_of_int (10 * uint acc + int d) < acc"
    using assms uint_ge_0 [of acc]
    by (simp add: word_less_def word_of_uint_mod not_less del: uint_ge_0 of_int_add of_int_mult)
  ultimately show ?thesis
    using assms(1) by (simp add: schar_digit Let_def del: of_int_add of_int_mult)
qed

lemma SetValue_loop_toString:
  assumes "int n < 2 ^ LENGTH('a::len)"
  shows "SetValue_loop (toString n @ rest) 0 (0 :: 'a word) =
    SetValue_loop rest (word_of_int (int n)) (word_of_int (int n))"
  using assms
proof (induction n arbitrary: rest rule: toString.induct)
  case (1 n)
  show ?case
  proof (cases "n < 10")
    case True
    then show ?thesis
      using SetValue_loop_digit [OF True, of "0 :: 'a word" rest] 1(2)
      by (simp add: toString.simps [of n] del: SetValue_loop.simps)
  next
    case False
    have n: "int n = 10 * int (n div 10) + int (n mod 10)" by presburger
    have lt: "int (n div 10) < 2 ^ LENGTH('a)" using 1(2) by linarith
    then have u: "uint (word_of_int (int (n div 10)) :: 'a word) = int (n div 10)"
      by (intro word_of_uint_mod) simp_all
    show ?thesis
      using 1(1) [OF False lt, of "char_of (48 + n mod 10) # rest"] 1(2) False n
        SetValue_loop_digit [of "n mod 10" "word_of_int (int (n div 10)) :: 'a word" rest]
      unfolding u
      by (simp add: toString.simps [of n] del: SetValue_loop.simps)
  qed
qed

lemma SetValue_toString:
  fixes a :: "'a::len word"
  shows "SetValue (toString (unat a)) = Inr a"
proof -
  have "int (unat a) < 2 ^ LENGTH('a)" by simp
  from SetValue_loop_toString [OF this, of "[]"] show ?thesis
    by (simp add: SetValue_def)
qed

section \<open>Digits\<close>

lemma GetBitAtIndex_value:
  fixes a :: "'a::len word"
  assumes "s < LENGTH('a)"
  shows "GetBitAtIndex a (Suc s) = Inr (unat a div 2 ^ s mod 2)"
proof -
  have "unat (drop_bit s a AND 1) = of_bool (bit a s)"
    by (cases "bit a s") (simp_all add: and_one_eq mod_2_eq_odd bit_iff_odd_drop_bit)
  also have "\<dots> = unat a div 2 ^ s mod 2"
    unfolding mod_2_eq_odd bit_iff_odd [symmetric] by (simp add: bit_unsigned_iff bit_imp_le_length)
  finally show ?thesis using assms by (simp add: GetBitAtIndex_def)
qed

lemma GetDigit_loop_value:
  fixes a :: "'a::len word"
  assumes "j + c = d" "s + d \<le> LENGTH('a)"
  shows "GetDigit_loop a (2 ^ d) (2 ^ j) (Suc (s + j)) digit =
    Inr (digit + (unat a div 2 ^ (s + j) mod 2 ^ c) * 2 ^ j)"
  using assms
proof (induction c arbitrary: j digit)
  case 0
  then show ?case by (simp add: GetDigit_loop.simps)
next
  case (Suc c)
  let ?x = "unat a div 2 ^ (s + j)"
  have x: "unat a div 2 ^ (s + Suc j) = ?x div 2"
    by (simp add: div_mult2_eq [symmetric] mult.commute)
  have "?x mod 2 ^ Suc c = ?x mod 2 + 2 * (?x div 2 mod 2 ^ c)"
    by (simp add: mod_mult2_eq)
  moreover have "GetDigit_loop a (2 ^ d) (2 ^ j) (Suc (s + j)) digit =
     GetDigit_loop a (2 ^ d) (2 ^ Suc j) (Suc (s + Suc j)) (digit + ?x mod 2 * 2 ^ j)"
    using Suc.prems by (subst GetDigit_loop.simps) (simp add: GetBitAtIndex_value)
  ultimately show ?case
    using Suc.IH [of "Suc j" "digit + ?x mod 2 * 2 ^ j"] Suc.prems
    unfolding x by (simp add: algebra_simps)
qed

lemma bit_length_pow2_minus_1: "bit_length (2 ^ d - 1) = d"
proof (cases d)
  case (Suc e)
  have "bit_length (2 ^ d - 1) \<le> d" by (simp add: bit_length_le_iff)
  moreover have "\<not> bit_length (2 ^ d - 1) \<le> e" using Suc by (simp add: bit_length_le_iff)
  ultimately show ?thesis using Suc by simp
qed simp

lemma GetDigitAtIndexForBase_value:
  fixes a :: "'a::len word"
  assumes "0 < index" "index * d \<le> LENGTH('a)"
  shows "GetDigitAtIndexForBase a index (2 ^ d) =
    Inr (unat a div (2 ^ d) ^ (index - 1) mod 2 ^ d)"
proof -
  have "(index - 1) * d + d \<le> LENGTH('a)" using assms by (cases index) auto
  from GetDigit_loop_value [OF _ this, of 0 d a 0] show ?thesis
    unfolding GetDigitAtIndexForBase_def Let_def bit_length_pow2_minus_1
    by (simp add: power_mult [symmetric] mult.commute)
qed

section \<open>Checked arithmetic\<close>

lemma AddCheck_cases:
  fixes a b :: "'a::len word"
  shows "AddCheck a b = (if uint a + uint b < 2 ^ LENGTH('a) then Inr (a + b) else Inl math_error)"
  by (simp add: AddCheck_def Let_def carry_iff not_le)

lemma AddEqCheck_eq: "AddEqCheck a b = AddCheck a b"
  by (simp add: AddEqCheck_def AddCheck_def Let_def carry_iff)

lemma SubEqCheck_cases:
  "SubEqCheck a b = (if uint b \<le> uint a then Inr (a - b) else Inl math_error)"
  by (auto simp: SubEqCheck_def word_less_def)

lemma SubCheck_saturates: "uint (SubCheck a b) = max 0 (uint a - uint b)"
  by (auto simp: SubCheck_def word_le_def uint_sub_exact)

section \<open>The interface of modular arithmetic\<close>

text \<open>
  What the vector layer and the encryption schemes rely on: three operations on residues that
  compute sum, difference and product modulo a modulus the provider accepts.
\<close>

locale modular_ops =
  fixes val :: "'w \<Rightarrow> int"
    and good :: "'w \<Rightarrow> bool"
    and add sub mul :: "'w \<Rightarrow> 'w \<Rightarrow> 'w \<Rightarrow> 'w"
  assumes val_nonneg: "0 \<le> val a"
    and val_inj: "val a = val b \<Longrightarrow> a = b"
    and good_pos: "good m \<Longrightarrow> 0 < val m"
    and add_val: "\<lbrakk> good m; val a < val m; val b < val m \<rbrakk> \<Longrightarrow> val (add a b m) = (val a + val b) mod val m"
    and sub_val: "\<lbrakk> good m; val a < val m; val b < val m \<rbrakk> \<Longrightarrow> val (sub a b m) = (val a - val b) mod val m"
    and mul_val: "\<lbrakk> good m; val a < val m; val b < val m \<rbrakk> \<Longrightarrow> val (mul a b m) = val a * val b mod val m"
begin

lemma op_closed:
  assumes "good m" "val a < val m" "val b < val m"
  shows "val (add a b m) < val m" "val (sub a b m) < val m" "val (mul a b m) < val m"
  using assms good_pos [OF assms(1)] by (simp_all add: add_val sub_val mul_val)

lemma add_commute:
  assumes "good m" "val a < val m" "val b < val m"
  shows "add a b m = add b a m"
  using assms by (intro val_inj) (simp add: add_val add.commute)

lemma sub_add_cancel:
  assumes "good m" "val a < val m" "val b < val m"
  shows "sub (add a b m) b m = a" "add (sub a b m) b m = a"
  using assms op_closed [OF assms] val_nonneg [of a]
  by (auto intro!: val_inj simp: add_val sub_val mod_diff_left_eq mod_add_left_eq)

lemma mul_distrib:
  assumes "good m" "val a < val m" "val b < val m" "val c < val m"
  shows "mul (add a b m) c m = add (mul a c m) (mul b c m) m"
  using assms op_closed [OF assms(1)]
  by (intro val_inj) (simp add: add_val mul_val mod_mult_left_eq mod_add_eq distrib_right)

text \<open>The accumulation loops of the schemes: a sum of products into an accumulator.\<close>

definition dot :: "'w \<Rightarrow> ('w \<times> 'w) list \<Rightarrow> 'w \<Rightarrow> 'w" where
  "dot m ps acc = fold (\<lambda>(x, y) s. add s (mul x y m) m) ps acc"

lemma dot_value:
  assumes "good m" "\<forall>(x, y) \<in> set ps. val x < val m \<and> val y < val m" "val acc < val m"
  shows "val (dot m ps acc) = (val acc + (\<Sum>(x, y) \<leftarrow> ps. val x * val y)) mod val m"
  using assms(2,3)
proof (induction ps arbitrary: acc)
  case Nil
  then show ?case using val_nonneg [of acc] by (simp add: dot_def)
next
  case (Cons p ps)
  obtain x y where p: "p = (x, y)" by fastforce
  have xy: "val x < val m" "val y < val m" using Cons.prems p by auto
  let ?acc = "add acc (mul x y m) m"
  have cl: "val (mul x y m) < val m" "val ?acc < val m"
    using assms(1) xy Cons.prems op_closed by blast+
  have "val ?acc = (val acc + val x * val y) mod val m"
    using assms(1) xy Cons.prems cl by (simp add: add_val mul_val mod_add_right_eq)
  moreover have "dot m (p # ps) acc = dot m ps ?acc" by (simp add: dot_def p)
  ultimately show ?case
    using Cons.IH [of ?acc] Cons.prems cl p by (simp add: mod_add_left_eq add.assoc)
qed

end

interpretation fast: modular_ops uint modulus_ok ModAddFast ModSubFast ModMulFast
  by unfold_locales
     (auto simp: modulus_ok_def word_uint_eq_iff residue_def
       intro!: uint_ModAddFast uint_ModSubFast uint_ModMulFast)

interpretation checked: modular_ops uint modulus_ok ModAdd ModSub ModMul
  by unfold_locales
     (auto simp: modulus_ok_def word_uint_eq_iff intro!: uint_ModAdd uint_ModSub uint_ModMul)

text \<open>The Barrett operations with the constant that \<^verbatim>\<open>ComputeMu\<close> returns.\<close>

definition mu_of :: "'a::len word \<Rightarrow> 'a word" where
  "mu_of m = projr (ComputeMu m)"

lemma ComputeMu_mu_of: "barrett_modulus m \<Longrightarrow> ComputeMu m = Inr (mu_of m)"
  by (metis ComputeMu_value mu_of_def sum.sel(2))

lemma residue_lt_pow: "uint a < uint m \<Longrightarrow> uint a < 2 ^ (2 * GetMSB m + 1)"
  for a m :: "'a::len word"
proof -
  assume a: "uint a < uint m"
  have "uint m < 2 ^ GetMSB m" by (simp add: GetMSB_le_iff [symmetric])
  also have "(2::int) ^ GetMSB m \<le> 2 ^ (2 * GetMSB m + 1)" by (intro power_increasing) auto
  finally show ?thesis using a by linarith
qed

interpretation barrett: modular_ops uint barrett_modulus
  "\<lambda>a b m. ModAdd_mu a b m (mu_of m)" "\<lambda>a b m. ModSub_mu a b m (mu_of m)"
  "\<lambda>a b m. ModMul_mu a b m (mu_of m)"
  by unfold_locales
     (auto simp: word_uint_eq_iff barrett_modulus_facts
       intro!: uint_ModAdd_mu uint_ModSub_mu uint_ModMul_mu ComputeMu_mu_of residue_lt_pow)

section \<open>Properties\<close>

text \<open>C29.  Barrett multiplication: for every accepted modulus \<^verbatim>\<open>ComputeMu\<close> returns a constant with
  which \<^verbatim>\<open>ModMulFast(b, modulus, mu)\<close> is the product modulo the modulus, on all pairs of residues.\<close>

theorem ModMulFast_mu_correct:
  fixes a b m :: "'a::len word"
  assumes "barrett_modulus m" "residue m a" "residue m b"
  shows "\<exists>mu. ComputeMu m = Inr mu \<and> uint (ModMulFast_mu a b m mu) = uint a * uint b mod uint m"
  using ComputeMu_mu_of [OF assms(1)] uint_ModMulFast_mu [OF assms(1) _ residue_prod_lt [OF assms(2,3)]]
  by blast

theorem ModMulFast_mu_correct_witness:
  "\<exists>mu. ComputeMu (7681 :: 32 word) = Inr mu \<and>
     uint (ModMulFast_mu 7680 7679 (7681 :: 32 word) mu) = uint (7680 :: 32 word) * uint (7679 :: 32 word) mod uint (7681 :: 32 word)"
  by (rule ModMulFast_mu_correct) code_simp+

text \<open>C30.  Shoup multiplication: \<^verbatim>\<open>ModMulFastConst\<close> with the constant of \<^verbatim>\<open>PrepModMulConst\<close> is the
  product modulo the modulus, for every word as multiplicand, reduced or not, and every modulus
  below half the word.\<close>

theorem ModMulFastConst_correct:
  fixes a b m :: "'a::len word"
  assumes "modulus_ok m" "residue m b"
  shows "\<exists>bInv. PrepModMulConst b m = Inr bInv \<and>
    uint (ModMulFastConst a b m bInv) = uint a * uint b mod uint m"
proof -
  obtain bInv where "PrepModMulConst b m = Inr bInv" using PrepModMulConst_value [OF assms(2)] .
  with uint_ModMulFastConst [OF assms this] show ?thesis by blast
qed

theorem ModMulFastConst_correct_witness:
  "\<exists>bInv. PrepModMulConst (7680 :: 32 word) 7681 = Inr bInv \<and>
    uint (ModMulFastConst 4294967295 7680 (7681 :: 32 word) bInv)
      = uint (4294967295 :: 32 word) * uint (7680 :: 32 word) mod uint (7681 :: 32 word)"
  by (rule ModMulFastConst_correct) code_simp+

text \<open>Square-and-multiply exponentiation: \<^verbatim>\<open>ModExp\<close> is the power modulo every modulus above one,
  with no overflow of the double-width intermediate products.\<close>

lemma ModExp_correct:
  fixes a b m :: "'a::len word"
  assumes "1 < uint m"
  shows "uint (ModExp a b m) = uint a ^ unat b mod uint m"
  using assms by (rule uint_ModExp)

text \<open>C31.  The extended Euclidean loop of \<^verbatim>\<open>ModInverse\<close> ends without signed overflow for every modulus
  of the signed range.  It returns the inverse of every unit, throws for multiples of the modulus,
  and divides by zero for every other non-unit.\<close>

theorem ModInverse_behaviour:
  fixes a m :: "'a::len word"
  assumes "1 < uint m" "uint m < 2 ^ (LENGTH('a) - 1)"
  shows "if uint a mod uint m = 0 then ModInverse a m = Inl math_error
         else if gcd (uint a) (uint m) = 1
         then \<exists>x. ModInverse a m = Inr x \<and> residue m x \<and> uint x * uint a mod uint m = 1
         else ModInverse a m = Inl undefined_behaviour"
  using assms by (rule ModInverse_cases)

theorem ModInverse_behaviour_witness:
  "if uint (6 :: 32 word) mod uint (15 :: 32 word) = 0 then ModInverse 6 (15 :: 32 word) = Inl math_error
   else if gcd (uint (6 :: 32 word)) (uint (15 :: 32 word)) = 1
   then \<exists>x. ModInverse 6 (15 :: 32 word) = Inr x \<and> residue 15 x \<and> uint x * uint (6 :: 32 word) mod uint (15 :: 32 word) = 1
   else ModInverse 6 (15 :: 32 word) = Inl undefined_behaviour"
  by (rule ModInverse_behaviour) code_simp+

text \<open>The school-book product of two 128-bit words from 64-bit halves, with its two carry tests,
  is the exact double-width product, at every width.\<close>

lemma MultD_schoolbook_exact:
  fixes a b :: "'a::len dword"
  shows "uint (hi (MultD_halves a b)) * 2 ^ LENGTH('a bit0) + uint (lo (MultD_halves a b)) = uint a * uint b"
  unfolding MultD_halves_eq by (rule value_MultD)

text \<open>C39.  Round trip of the decimal representation: \<^verbatim>\<open>SetValue\<close> reads back what \<^verbatim>\<open>toString\<close> prints,
  for every word.\<close>

theorem SetValue_roundtrip:
  fixes a :: "'a::len word"
  shows "SetValue (toString (unat a)) = Inr a"
  by (rule SetValue_toString)

text \<open>The overflow test of \<^verbatim>\<open>SetValue\<close> compares the new accumulator with the old one only, so a
  decimal string above the range can be accepted with its value modulo the word size; and a
  character below \<^verbatim>\<open>'0'\<close> is taken for a digit.\<close>

lemma SetValue_accepts_overflow:
  "SetValue ''9999999999'' = Inr (1410065407 :: 32 word) \<and> SetValue ''1 '' = Inr (4294967290 :: 32 word)"
  by code_simp

text \<open>The Barrett product computed with word pairs and \<^verbatim>\<open>SubtractD\<close>, for builds without a wider
  type, agrees with the one computed with the double-width type.\<close>

lemma ModMulFast_word_pair_variant:
  fixes a b m mu :: "'a::len word"
  assumes "barrett_modulus m" "GetMSB m + 5 \<le> LENGTH('a)"
  shows "ModMulFast_mu_D a b m mu = ModMulFast_mu a b m mu"
  using assms by (rule ModMulFast_mu_D_eq)

end
