(* ===== verification/DoubleArith.thy ===== *)
theory DoubleArith
  imports Complex_Main NativeInt
begin

text \<open>
  The double precision arithmetic that the rounding routines use: \<^verbatim>\<open>RoundqQ\<close> of the three
  encryption schemes and \<^verbatim>\<open>NativeIntegerT::MultiplyAndRound\<close>.

  A double is the rational number it stands for.  \<open>fl\<close> rounds a nonnegative rational to the nearest
  number with a significand of 53 bits, ties to even, which is the IEEE 754 operation for every
  value that neither underflows nor overflows; the values of these routines lie between
  \<open>2 ^ (- 128)\<close> and \<open>2 ^ 256\<close>.  Each machine operation is the exact one followed by \<open>fl\<close>.
\<close>

section \<open>Rounding to 53 bits\<close>

definition pow2 :: "int \<Rightarrow> rat" where
  "pow2 e = (if 0 \<le> e then 2 ^ nat e else 1 / 2 ^ nat (- e))"

text \<open>The unit in the last place of a positive rational.\<close>

definition ulp :: "rat \<Rightarrow> rat" where
  "ulp x = (if 1 \<le> x then pow2 (int (bit_length (nat \<lfloor>x\<rfloor>)) - 53)
            else pow2 (- int (bit_length (nat \<lfloor>1 / x\<rfloor>)) - 52))"

definition rne :: "rat \<Rightarrow> int" where
  "rne y = (let f = \<lfloor>y\<rfloor>; r = y - of_int f in
     if r < 1 / 2 then f else if r > 1 / 2 then f + 1 else if even f then f else f + 1)"

definition fl :: "rat \<Rightarrow> rat" where
  "fl x = (if x \<le> 0 then 0 else of_int (rne (x / ulp x)) * ulp x)"

definition ConvertToDouble :: "'a::len word \<Rightarrow> rat" where
  "ConvertToDouble a = fl (of_int (uint a))"

definition MultiplyAndRound :: "'a::len word \<Rightarrow> 'a word \<Rightarrow> 'a word \<Rightarrow> 'a word result" where
  "MultiplyAndRound x p q =
     (if q = 0 then Inl math_error
      else let d = fl (fl (ConvertToDouble p * fl (ConvertToDouble x / ConvertToDouble q)) + 1 / 2)
           in if \<lfloor>d\<rfloor> < 2 ^ LENGTH('a) then Inr (word_of_int \<lfloor>d\<rfloor>) else Inl undefined_behaviour)"

text \<open>
  \<^verbatim>\<open>RoundqQ\<close>, the same text in \<^verbatim>\<open>lwe-pke.cpp\<close>, \<^verbatim>\<open>mklwe-pke.cpp\<close> and \<^verbatim>\<open>mntru-pke.cpp\<close>: a value
  modulo \<open>Q\<close> is scaled to a value modulo \<open>q\<close>.
\<close>

definition RoundqQ :: "'a::len word \<Rightarrow> 'a word \<Rightarrow> 'a word \<Rightarrow> 'a word" where
  "RoundqQ v q Q =
     (let d = fl (1 / 2 + fl (fl (ConvertToDouble v * ConvertToDouble q) / ConvertToDouble Q))
      in Mod (word_of_int \<lfloor>d\<rfloor>) q)"

section \<open>The error of one rounding\<close>

lemma ulp_int [code]: "ulp x = (if 1 \<le> x then pow2 (int (bit_length_int \<lfloor>x\<rfloor>) - 53)
    else pow2 (- int (bit_length_int \<lfloor>1 / x\<rfloor>) - 52))"
  by (simp add: ulp_def bit_length_nat)

lemma pow2_pos [simp]: "0 < pow2 e"
  by (simp add: pow2_def)

lemma pow2_add: "pow2 (a + b) = pow2 a * pow2 b"
proof -
  have eq: "pow2 e = 2 powi e" for e
    unfolding pow2_def power_int_def inverse_eq_divide power_one_over ..
  show ?thesis unfolding eq by (rule power_int_add) simp
qed

lemma pow2_nat [simp]: "pow2 (int n) = 2 ^ n"
  by (simp add: pow2_def)

lemma pow2_neg: "pow2 (- int n) = 1 / 2 ^ n"
  by (cases "n = 0") (simp_all add: pow2_def)

lemma bit_length_floor:
  assumes "1 \<le> (x :: rat)"
  shows "2 ^ (bit_length (nat \<lfloor>x\<rfloor>) - 1) \<le> x" "x < 2 ^ bit_length (nat \<lfloor>x\<rfloor>)" "0 < bit_length (nat \<lfloor>x\<rfloor>)"
proof -
  define n where "n = nat \<lfloor>x\<rfloor>"
  have fx: "1 \<le> \<lfloor>x\<rfloor>" using assms by simp
  then have n: "0 < n" "of_nat n = (of_int \<lfloor>x\<rfloor> :: rat)" by (simp_all add: n_def of_nat_nat)
  have "(of_nat (2 ^ (bit_length n - 1)) :: rat) \<le> of_nat n"
    unfolding of_nat_le_iff using n by (intro bit_length_lower)
  then show "2 ^ (bit_length (nat \<lfloor>x\<rfloor>) - 1) \<le> x"
    unfolding n_def [symmetric] n(2) of_nat_power of_nat_numeral
    using of_int_floor_le by (rule order_trans)
  have "n + 1 \<le> 2 ^ bit_length n" using bit_length_upper [of n] by simp
  then have "(of_nat (n + 1) :: rat) \<le> of_nat (2 ^ bit_length n)" by (simp only: of_nat_le_iff)
  moreover have "x < of_nat (n + 1)" using n by simp linarith
  ultimately show "x < 2 ^ bit_length (nat \<lfloor>x\<rfloor>)" by (simp add: n_def [symmetric])
  show "0 < bit_length (nat \<lfloor>x\<rfloor>)" using n by (simp add: n_def [symmetric] bit_length.simps)
qed

lemma ulp_bound:
  assumes "0 < x"
  shows "0 < ulp x" "ulp x * 2 ^ 52 \<le> x"
proof -
  show "0 < ulp x" by (simp add: ulp_def)
  show "ulp x * 2 ^ 52 \<le> x"
  proof (cases "1 \<le> x")
    case True
    define k where "k = bit_length (nat \<lfloor>x\<rfloor>)"
    note b = bit_length_floor [OF True, folded k_def]
    have "ulp x * 2 ^ 52 = pow2 (int k - 53) * pow2 52" using True by (simp add: ulp_def k_def pow2_def)
    also have "\<dots> = pow2 (int (k - 1))" using b(3) by (simp add: pow2_add [symmetric] of_nat_diff)
    finally show ?thesis using b(1) by simp
  next
    case False
    then have "1 \<le> 1 / x" using assms by simp
    define k where "k = bit_length (nat \<lfloor>1 / x\<rfloor>)"
    note b = bit_length_floor [OF \<open>1 \<le> 1 / x\<close>, folded k_def]
    have "ulp x * 2 ^ 52 = pow2 (- int k - 52) * pow2 52" using False by (simp add: ulp_def k_def pow2_def)
    also have "\<dots> = pow2 (- int k)" by (simp add: pow2_add [symmetric])
    also have "\<dots> \<le> x" using b(2) assms unfolding pow2_neg by (simp add: field_simps)
    finally show ?thesis .
  qed
qed

lemma rne_error: "\<bar>of_int (rne y) - y\<bar> \<le> 1 / 2"
proof -
  define f where "f = (of_int \<lfloor>y\<rfloor> :: rat)"
  have "f \<le> y" "y < f + 1" unfolding f_def by linarith+
  moreover have "of_int (rne y) = (if y - f < 1 / 2 then f else if y - f > 1 / 2 then f + 1
      else if even \<lfloor>y\<rfloor> then f else f + 1)" by (simp add: rne_def Let_def f_def)
  ultimately show ?thesis by (auto simp: abs_le_iff)
qed

lemma rne_of_int [simp]: "rne (of_int k) = k"
  by (simp add: rne_def)

text \<open>The relative error of one operation is at most \<open>2 ^ (- 53)\<close>.\<close>

lemma fl_error:
  assumes "0 \<le> x"
  shows "\<bar>fl x - x\<bar> \<le> x / 2 ^ 53"
proof (cases "x = 0")
  case False
  with assms have x: "0 < x" by simp
  note u = ulp_bound [OF x]
  have "fl x - x = (of_int (rne (x / ulp x)) - x / ulp x) * ulp x"
    using x u by (simp add: fl_def field_simps)
  then have "\<bar>fl x - x\<bar> \<le> 1 / 2 * ulp x"
    using rne_error [of "x / ulp x"] u by (simp add: abs_mult)
  also have "\<dots> \<le> x / 2 ^ 53" using u by simp
  finally show ?thesis .
qed (simp add: fl_def)

lemma fl_nonneg: "0 \<le> fl x"
proof (cases "0 \<le> x")
  case True
  have "x / 2 ^ 53 \<le> x" using True by simp
  then show ?thesis using fl_error [OF True] by linarith
qed (simp add: fl_def)

text \<open>Integers and half-integers of moderate size are exact.\<close>

lemma fl_exact:
  assumes x: "0 < x" and k: "x = of_int k * ulp x"
  shows "fl x = x"
proof -
  have "x / ulp x = of_int k" using k ulp_bound(1) [OF x] by (metis nonzero_eq_divide_eq less_irrefl)
  then show ?thesis using x k by (simp add: fl_def)
qed

lemma fl_half_integer:
  assumes "2 * x = of_int k" "0 \<le> x" "x < 2 ^ 52"
  shows "fl x = x"
proof (cases "1 \<le> x")
  case True
  define b where "b = bit_length (nat \<lfloor>x\<rfloor>)"
  have "\<lfloor>x\<rfloor> < 2 ^ 52" using assms(3) by (simp add: floor_less_iff)
  then have "nat \<lfloor>x\<rfloor> < 2 ^ 52" using True by (simp add: nat_less_iff)
  then have b: "b \<le> 52" unfolding b_def bit_length_le_iff .
  then have "int b - 53 = - int (Suc (52 - b))" by linarith
  then have u: "ulp x = 1 / 2 ^ Suc (52 - b)"
    using True by (simp add: ulp_def b_def [symmetric] pow2_neg del: of_nat_Suc)
  have "of_int (k * 2 ^ (52 - b)) * ulp x = of_int k / 2" unfolding u by simp
  then have "of_int (k * 2 ^ (52 - b)) * ulp x = x" using assms(1) by linarith
  then show ?thesis using True fl_exact [of x "k * 2 ^ (52 - b)"] by simp
next
  case False
  then have "of_int k < (2 :: rat)" "0 \<le> (of_int k :: rat)" using assms by linarith+
  then have "k = 0 \<or> k = 1" by linarith
  moreover have "fl (1 / 2) = 1 / 2"
  proof -
    have "bit_length 2 = 2" by (simp add: bit_length.simps)
    then have "ulp (1 / 2) = 1 / 2 ^ 54" by (simp add: ulp_def pow2_def)
    then have "1 / 2 = of_int (2 ^ 53) * ulp (1 / 2)" by simp
    then show ?thesis by (rule fl_exact [rotated]) simp
  qed
  moreover have "fl 0 = 0" by (simp add: fl_def)
  moreover have "x = of_int k / 2" using assms(1) by linarith
  ultimately show ?thesis by (elim disjE) (simp_all only: of_int_0 of_int_1 div_0)
qed

lemma fl_of_int:
  assumes "0 \<le> k" "k < 2 ^ 52"
  shows "fl (of_int k) = of_int k"
proof (rule fl_half_integer)
  show "2 * of_int k = (of_int (2 * k) :: rat)" by simp
  show "(of_int k :: rat) < 2 ^ 52" using assms by (metis of_int_less_iff of_int_numeral of_int_power)
qed (use assms in simp)

lemma ConvertToDouble_exact:
  "uint a < 2 ^ 52 \<Longrightarrow> ConvertToDouble a = of_int (uint a)"
  unfolding ConvertToDouble_def by (rule fl_of_int [OF uint_ge_0])

section \<open>Rounding of a quotient\<close>

text \<open>
  Adding one half to the rounded quotient and rounding again does not change the integer part, as
  long as the spacing \<open>1 / (2 * d)\<close> of the candidates is larger than the error of two roundings.
\<close>

lemma floor_fl_half:
  fixes n d :: int
  assumes d: "0 < d" and n: "0 \<le> n" and q: "n \<le> d * c" and small: "4 * d * (c + 1) \<le> 2 ^ 52"
  shows "\<lfloor>fl (1 / 2 + fl (of_int n / of_int d))\<rfloor> = (2 * n + d) div (2 * d)"
proof -
  define y where "y = (of_int n / of_int d :: rat)"
  define m where "m = (2 * n + d) div (2 * d)"
  have y0: "0 \<le> y" unfolding y_def using d n by simp
  have "(of_int n :: rat) \<le> of_int (d * c)" using q by (simp only: of_int_le_iff)
  then have yc: "y \<le> of_int c" unfolding y_def using d by (simp add: field_simps)
  have "0 \<le> d * c" using n q by linarith
  then have c0: "0 \<le> c" using d by (simp add: zero_le_mult_iff)
  have dc: "4 * of_int d * (of_int c + 1) \<le> (2 ^ 52 :: rat)"
  proof -
    have "(of_int (4 * d * (c + 1)) :: rat) \<le> of_int (2 ^ 52)" using small by (simp only: of_int_le_iff)
    then show ?thesis by simp
  qed
  have yd: "2 * of_int d * (y + 1 / 2) = of_int (2 * n + d)"
    unfolding y_def using d by (simp add: field_simps)
  note mb = zdiv_bounds [of "2 * d" "2 * n + d", folded m_def]
  have lo: "of_int m \<le> y + 1 / 2"
  proof -
    have "(of_int (m * (2 * d)) :: rat) \<le> of_int (2 * n + d)" using mb(1) d by (simp only: of_int_le_iff)
    then have "of_int m * (2 * of_int d) \<le> (y + 1 / 2) * (2 * of_int d)" unfolding yd [symmetric] by (simp add: mult_ac)
    then show ?thesis using d by (simp add: mult_le_cancel_right)
  qed
  have up: "y + 1 / 2 + 1 / (2 * of_int d) \<le> of_int m + 1"
  proof -
    have "2 * n + d + 1 \<le> m * (2 * d) + 2 * d" using mb(2) d by linarith
    then have "(of_int (2 * n + d + 1) :: rat) \<le> of_int (m * (2 * d) + 2 * d)" by (simp only: of_int_le_iff)
    then have "2 * of_int d * (y + 1 / 2) + 1 \<le> (of_int m + 1) * (2 * of_int d)"
      unfolding yd by (simp add: algebra_simps)
    then show ?thesis using d by (simp add: field_simps)
  qed
  define z where "z = fl (1 / 2 + fl y)"
  have e1: "\<bar>fl y - y\<bar> \<le> of_int c / 2 ^ 53"
    using fl_error [OF y0] yc by (simp add: field_simps)
  have c1: "(of_int c :: rat) / 2 ^ 53 \<le> of_int c" using c0 by simp
  then have fy: "0 \<le> 1 / 2 + fl y" "1 / 2 + fl y \<le> 1 / 2 + 2 * of_int c"
  proof -
    show "0 \<le> 1 / 2 + fl y" using fl_nonneg [of y] by simp
    show "1 / 2 + fl y \<le> 1 / 2 + 2 * of_int c" using e1 c1 yc by linarith
  qed
  have e2: "\<bar>z - (1 / 2 + fl y)\<bar> \<le> (1 / 2 + 2 * of_int c) / 2 ^ 53"
    unfolding z_def using fl_error [OF fy(1)] fy(2) by (simp add: field_simps)
  have "\<bar>z - (y + 1 / 2)\<bar> \<le> (1 / 2 + 2 * of_int c) / 2 ^ 53 + of_int c / 2 ^ 53"
    using e1 e2 by linarith
  also have "\<dots> < 1 / (2 * of_int d)" using d dc c0 by (simp add: field_simps)
  finally have err: "\<bar>z - (y + 1 / 2)\<bar> < 1 / (2 * of_int d)" .
  have "\<lfloor>z\<rfloor> = m"
  proof (cases "2 * n + d = m * (2 * d)")
    case True
    have "2 * of_int d * (y + 1 / 2) = 2 * of_int d * of_int m"
      unfolding yd True by (simp add: mult_ac)
    then have ym: "of_int m = y + 1 / 2" using d by simp
    have "1 * (of_int c + 1) \<le> (of_int d :: rat) * (of_int c + 1)"
      using d c0 by (intro mult_right_mono) simp_all
    then have c52: "of_int c + 1 < (2 ^ 52 :: rat)" using dc by simp
    then have "fl y = y" using ym y0 yc by (intro fl_half_integer [of _ "2 * m - 1"]) simp_all
    then have "z = fl (of_int m)" using ym by (simp add: z_def add.commute)
    moreover have "0 \<le> m" "m < 2 ^ 52"
    proof -
      have "(0 :: rat) < of_int m + 1" using ym y0 by simp
      then show "0 \<le> m" by linarith
      have "(of_int m :: rat) < of_int (2 ^ 52)" using ym yc c52 by simp
      then show "m < 2 ^ 52" by (simp only: of_int_less_iff)
    qed
    ultimately show ?thesis by (simp add: fl_of_int)
  next
    case False
    then have "m * (2 * d) + 1 \<le> 2 * n + d" using mb(1) d by linarith
    then have "(of_int (m * (2 * d) + 1) :: rat) \<le> of_int (2 * n + d)" by (simp only: of_int_le_iff)
    then have "of_int m * (2 * of_int d) + 1 \<le> 2 * of_int d * (y + 1 / 2)" unfolding yd by simp
    then have "of_int m + 1 / (2 * of_int d) \<le> y + 1 / 2" using d by (simp add: field_simps)
    then have "of_int m < z" "z < of_int m + 1" using err up by (simp_all add: abs_less_iff)
    then show ?thesis by linarith
  qed
  then show ?thesis by (simp add: z_def y_def m_def)
qed

text \<open>The scaled value that \<^verbatim>\<open>RoundqQ\<close> is meant to compute: the nearest integer to \<open>v * q / Q\<close>.\<close>

definition scale_round :: "int \<Rightarrow> int \<Rightarrow> int \<Rightarrow> int" where
  "scale_round v q Q = (2 * (v * q) + Q) div (2 * Q)"

definition round_ok :: "'a::len word \<Rightarrow> 'a word \<Rightarrow> bool" where
  "round_ok q Q \<longleftrightarrow> 0 < uint q \<and> 0 < uint Q \<and> 4 * uint Q * (uint q + 1) \<le> 2 ^ 52
     \<and> uint q + 1 < 2 ^ LENGTH('a)"

lemma scale_round_bounds:
  assumes "0 \<le> v" "v < Q" "0 < q"
  shows "0 \<le> scale_round v q Q" "scale_round v q Q \<le> q"
    "\<bar>2 * Q * scale_round v q Q - 2 * (v * q)\<bar> \<le> Q"
proof -
  have Q: "0 < 2 * Q" using assms by simp
  note b = zdiv_bounds [OF Q, of "2 * (v * q) + Q", folded scale_round_def]
  show "0 \<le> scale_round v q Q"
    using assms Q by (simp add: scale_round_def pos_imp_zdiv_nonneg_iff)
  have "v * q + q \<le> Q * q" using assms mult_right_mono [of "v + 1" Q q] by (simp add: distrib_right)
  then have "2 * (v * q) + Q < (q + 1) * (2 * Q)" using assms by (simp add: algebra_simps)
  then have "scale_round v q Q < q + 1" unfolding scale_round_def zdiv_lt_iff [OF Q] .
  then show "scale_round v q Q \<le> q" by simp
  show "\<bar>2 * Q * scale_round v q Q - 2 * (v * q)\<bar> \<le> Q"
    using b by (simp add: abs_le_iff algebra_simps)
qed

lemma uint_RoundqQ:
  fixes v q Q :: "'a::len word"
  assumes ok: "round_ok q Q" and v: "uint v < uint Q"
  shows "uint (RoundqQ v q Q) = scale_round (uint v) (uint q) (uint Q) mod uint q"
proof -
  let ?v = "uint v" and ?q = "uint q" and ?Q = "uint Q"
  have pos: "0 < ?q" "0 < ?Q" and sm: "4 * ?Q * (?q + 1) \<le> 2 ^ 52" and qw: "?q + 1 < 2 ^ LENGTH('a)"
    using ok by (auto simp: round_ok_def)
  define P where "P = ?Q * (?q + 1)"
  have P4: "4 * P \<le> 2 ^ 52" using sm by (simp add: P_def)
  moreover have "?Q \<le> P" using mult_left_mono [of 1 "?q + 1" ?Q] pos by (simp add: P_def)
  moreover have "?q + 1 \<le> P" using mult_right_mono [of 1 ?Q "?q + 1"] pos by (simp add: P_def)
  ultimately have Q52: "?Q < 2 ^ 52" and q52: "?q < 2 ^ 52" using pos by linarith+
  have vQ: "?v * ?q \<le> ?Q * ?q" using v pos by (intro mult_right_mono) auto
  have "P = ?Q * ?q + ?Q" by (simp add: P_def distrib_left)
  then have "?v * ?q \<le> P" using vQ pos by linarith
  moreover have "0 < P" using pos by (simp add: P_def)
  ultimately have vq52: "?v * ?q < 2 ^ 52" using P4 by linarith
  have c: "ConvertToDouble v = of_int ?v" "ConvertToDouble q = of_int ?q" "ConvertToDouble Q = of_int ?Q"
    using v Q52 q52 by (intro ConvertToDouble_exact; linarith)+
  have "fl (of_int ?v * of_int ?q) = of_int (?v * ?q)"
    using vq52 fl_of_int [of "?v * ?q"] by simp
  then have "\<lfloor>fl (1 / 2 + fl (fl (ConvertToDouble v * ConvertToDouble q) / ConvertToDouble Q))\<rfloor>
      = scale_round ?v ?q ?Q"
    unfolding c scale_round_def using pos sm vQ by (simp only:) (rule floor_fl_half, auto)
  moreover have "uint (word_of_int (scale_round ?v ?q ?Q) :: 'a word) = scale_round ?v ?q ?Q"
    using scale_round_bounds [of ?v ?Q ?q] v pos qw by (intro word_of_uint_mod) simp_all
  ultimately show ?thesis by (simp add: RoundqQ_def Let_def Mod_def uint_mod_eq)
qed

section \<open>Properties\<close>



end
