(* ===== verification/NativeVec.thy ===== *)
theory NativeVec
  imports DoubleArith
begin

text \<open>
  Vectors of residues, \<^verbatim>\<open>src/src/core/lib/math/hal/intnat/mubintvecnat.cpp\<close> and its header.

  \<open>nvec\<close> has the two fields of \<^verbatim>\<open>NativeVectorT\<close>.  A loop over the entries is a \<open>map\<close>; a loop over
  the entries of two vectors is a \<open>map2\<close>, after the guard that compares lengths and moduli.
  Every member that throws returns a \<open>result\<close>.  The invariant \<open>nvec_ok\<close> says that the modulus is
  below half the word and that every entry is a residue; each operation's lemma gives the value of
  every entry and shows that the invariant is kept.
\<close>

unbundle bit_operations_syntax

record (overloaded) 'a nvec =
  m_modulus :: "'a::len word"
  m_data :: "'a word list"

text \<open>The bound on the size of a modulus, in bits: 28, 60 and 121 for words of 32, 64 and 128 bits.\<close>

definition MAX_MODULUS_SIZE :: "nat \<Rightarrow> nat" where
  "MAX_MODULUS_SIZE w = (if w = 128 then 121 else w - 4)"

section \<open>Construction and access\<close>

definition vec_zero :: "nat \<Rightarrow> 'a::len word \<Rightarrow> 'a nvec" where
  "vec_zero n modulus = \<lparr> m_modulus = modulus, m_data = replicate n 0 \<rparr>"

definition vec_const :: "nat \<Rightarrow> 'a::len word \<Rightarrow> 'a word \<Rightarrow> 'a nvec" where
  "vec_const n modulus val = \<lparr> m_modulus = modulus, m_data = replicate n (Mod val modulus) \<rparr>"

definition vec_init :: "nat \<Rightarrow> 'a::len word \<Rightarrow> 64 word list \<Rightarrow> 'a nvec" where
  "vec_init n modulus rhs =
     (let len = (if length rhs < n then length rhs else n)
      in \<lparr> m_modulus = modulus,
           m_data = map (\<lambda>x. ucast x mod modulus) (take len rhs) @ replicate (n - len) 0 \<rparr>)"

definition vec_assign :: "'a::len nvec \<Rightarrow> 64 word list \<Rightarrow> 'a nvec" where
  "vec_assign v rhs =
     (let len = length rhs;
          size = (if length (m_data v) < len then len else length (m_data v))
      in v \<lparr> m_data :=
           map (\<lambda>i. if i < len
                 then (if m_modulus v \<noteq> 0 then ucast (rhs ! i) mod m_modulus v else ucast (rhs ! i))
                 else 0) [0..<size] \<rparr>)"

definition vec_at :: "'a::len nvec \<Rightarrow> nat \<Rightarrow> 'a word result" where
  "vec_at v i = (if \<not> i < length (m_data v) then Inl math_error else Inr (m_data v ! i))"

definition SetModulus :: "'a::len nvec \<Rightarrow> 'a word \<Rightarrow> 'a nvec result" where
  "SetModulus v value =
     (if GetMSB value > MAX_MODULUS_SIZE LENGTH('a) then Inl not_available_error
      else Inr (v \<lparr> m_modulus := value \<rparr>))"

section \<open>Change of modulus\<close>

definition ModByTwo :: "'a::len nvec \<Rightarrow> 'a nvec" where
  "ModByTwo v =
     (let halfQ = drop_bit 1 (m_modulus v)
      in v \<lparr> m_data := map (\<lambda>x. 1 AND (x XOR (if x > halfQ then 1 else 0))) (m_data v) \<rparr>)"

text \<open>The two loops that \<^verbatim>\<open>SwitchModulus\<close>, \<^verbatim>\<open>Mod\<close> and \<^verbatim>\<open>ModEq\<close> share.\<close>

definition switch_up :: "'a::len word \<Rightarrow> 'a word \<Rightarrow> 'a word \<Rightarrow> 'a word" where
  "switch_up om nm v = (if v > drop_bit 1 om then v + (nm - om) else v)"

definition switch_down :: "'a::len word \<Rightarrow> 'a word \<Rightarrow> 'a word \<Rightarrow> 'a word" where
  "switch_down om nm v =
     (let diff = nm - (om mod nm);
          v = (if v > drop_bit 1 om then v + diff else v)
      in if v \<ge> nm then v mod nm else v)"

definition SwitchModulus :: "'a::len nvec \<Rightarrow> 'a word \<Rightarrow> 'a nvec result" where
  "SwitchModulus v modulus =
     (let om = m_modulus v in
      bindR (SetModulus v modulus) (\<lambda>v.
        let nm = modulus in
        if nm > om then Inr (v \<lparr> m_data := map (switch_up om nm) (m_data v) \<rparr>)
        else if nm = 0 then Inl undefined_behaviour
        else Inr (v \<lparr> m_data := map (switch_down om nm) (m_data v) \<rparr>)))"

definition vec_Mod :: "'a::len nvec \<Rightarrow> 'a word \<Rightarrow> 'a nvec result" where
  "vec_Mod v modulus =
     (if modulus = 2 then Inr (ModByTwo v)
      else let nm = modulus; om = m_modulus v in
        if nm > om then Inr (v \<lparr> m_data := map (switch_up om nm) (m_data v) \<rparr>)
        else if nm = 0 then Inl undefined_behaviour
        else Inr (v \<lparr> m_data := map (switch_down om nm) (m_data v) \<rparr>))"

section \<open>Arithmetic with a scalar\<close>

text \<open>The operand is reduced first; the reduction by a zero modulus is a division by zero.\<close>

definition reduce_scalar :: "'a::len word \<Rightarrow> 'a word \<Rightarrow> 'a word result" where
  "reduce_scalar mv b =
     (if b \<ge> mv then (if mv = 0 then Inl undefined_behaviour else Inr (ModEq b mv)) else Inr b)"

definition vec_ModAdd_scalar :: "'a::len nvec \<Rightarrow> 'a word \<Rightarrow> 'a nvec result" where
  "vec_ModAdd_scalar v b =
     (let mv = m_modulus v in
      bindR (reduce_scalar mv b) (\<lambda>bv.
        Inr (v \<lparr> m_data := map (\<lambda>x. ModAddFast x bv mv) (m_data v) \<rparr>)))"

definition vec_ModAddAtIndex :: "'a::len nvec \<Rightarrow> nat \<Rightarrow> 'a word \<Rightarrow> 'a nvec result" where
  "vec_ModAddAtIndex v i b =
     bindR (vec_at v i) (\<lambda>x.
       if m_modulus v = 0 then Inl undefined_behaviour
       else Inr (v \<lparr> m_data := (m_data v)[i := ModAddEq x b (m_modulus v)] \<rparr>))"

definition vec_ModSub_scalar :: "'a::len nvec \<Rightarrow> 'a word \<Rightarrow> 'a nvec result" where
  "vec_ModSub_scalar v b =
     (let mv = m_modulus v in
      bindR (reduce_scalar mv b) (\<lambda>bv.
        Inr (v \<lparr> m_data := map (\<lambda>x. ModSubFastEq x bv mv) (m_data v) \<rparr>)))"

definition vec_ModMul_scalar :: "'a::len nvec \<Rightarrow> 'a word \<Rightarrow> 'a nvec result" where
  "vec_ModMul_scalar v b =
     (let mv = m_modulus v in
      bindR (reduce_scalar mv b) (\<lambda>bv.
      bindR (PrepModMulConst bv mv) (\<lambda>bconst.
        Inr (v \<lparr> m_data := map (\<lambda>x. ModMulFastConstEq x bv mv bconst) (m_data v) \<rparr>))))"

definition vec_ModExp :: "'a::len nvec \<Rightarrow> 'a word \<Rightarrow> 'a nvec result" where
  "vec_ModExp v b =
     (let mv = m_modulus v in
      bindR (reduce_scalar mv b) (\<lambda>bv.
        Inr (v \<lparr> m_data := map (\<lambda>x. ModExp x bv mv) (m_data v) \<rparr>)))"

section \<open>Arithmetic with a vector\<close>

definition same_shape :: "'a::len nvec \<Rightarrow> 'a nvec \<Rightarrow> bool" where
  "same_shape a b \<longleftrightarrow> m_modulus a = m_modulus b \<and> length (m_data a) = length (m_data b)"

definition vec_ModAdd :: "'a::len nvec \<Rightarrow> 'a nvec \<Rightarrow> 'a nvec result" where
  "vec_ModAdd a b =
     (if \<not> same_shape a b then Inl math_error
      else let mv = m_modulus a
           in Inr (a \<lparr> m_data := map2 (\<lambda>x y. ModAddFastEq x y mv) (m_data a) (m_data b) \<rparr>))"

definition vec_ModSub :: "'a::len nvec \<Rightarrow> 'a nvec \<Rightarrow> 'a nvec result" where
  "vec_ModSub a b =
     (if \<not> same_shape a b then Inl math_error
      else let mv = m_modulus a
           in Inr (a \<lparr> m_data := map2 (\<lambda>x y. ModSubFastEq x y mv) (m_data a) (m_data b) \<rparr>))"

definition vec_ModMul :: "'a::len nvec \<Rightarrow> 'a nvec \<Rightarrow> 'a nvec result" where
  "vec_ModMul a b =
     (if \<not> same_shape a b then Inl math_error
      else let mv = m_modulus a in
        bindR (ComputeMu mv) (\<lambda>mu.
          Inr (a \<lparr> m_data := map2 (\<lambda>x y. ModMulFastEq_mu x y mv mu) (m_data a) (m_data b) \<rparr>)))"

definition MultWithOutMod :: "'a::len nvec \<Rightarrow> 'a nvec \<Rightarrow> 'a nvec result" where
  "MultWithOutMod a b =
     (if \<not> same_shape a b then Inl math_error
      else Inr (a \<lparr> m_data := map2 (*) (m_data a) (m_data b) \<rparr>))"

text \<open>The variants without a comparison of the operands read past the end of a shorter one.\<close>

definition vec_ModAddNoCheck :: "'a::len nvec \<Rightarrow> 'a nvec \<Rightarrow> 'a nvec result" where
  "vec_ModAddNoCheck a b =
     (if length (m_data b) < length (m_data a) then Inl undefined_behaviour
      else let mv = m_modulus a
           in Inr (a \<lparr> m_data := map2 (\<lambda>x y. ModAddFastEq x y mv) (m_data a) (m_data b) \<rparr>))"

definition vec_ModMulNoCheck :: "'a::len nvec \<Rightarrow> 'a nvec \<Rightarrow> 'a nvec result" where
  "vec_ModMulNoCheck a b =
     (let mv = m_modulus a in
      bindR (ComputeMu mv) (\<lambda>mu.
        if length (m_data b) < length (m_data a) then Inl undefined_behaviour
        else Inr (a \<lparr> m_data := map2 (\<lambda>x y. ModMulFastEq_mu x y mv mu) (m_data a) (m_data b) \<rparr>)))"

section \<open>Scaling and digits\<close>

fun mapR :: "('b \<Rightarrow> 'c result) \<Rightarrow> 'b list \<Rightarrow> 'c list result" where
  "mapR f [] = Inr []"
| "mapR f (x # xs) = bindR (f x) (\<lambda>y. bindR (mapR f xs) (\<lambda>ys. Inr (y # ys)))"

definition vec_MultiplyAndRound :: "'a::len nvec \<Rightarrow> 'a word \<Rightarrow> 'a word \<Rightarrow> 'a nvec result" where
  "vec_MultiplyAndRound v p q =
     (let halfQ = drop_bit 1 (m_modulus v); mv = m_modulus v in
      bindR (mapR (\<lambda>x. if x > halfQ
                     then bindR (MultiplyAndRound (SubFast mv x) p q) (\<lambda>r. Inr (SubFast mv r))
                     else bindR (MultiplyAndRound x p q) (\<lambda>r.
                       if mv = 0 then Inl undefined_behaviour else Inr (Mod r mv)))
               (m_data v))
        (\<lambda>d. Inr (v \<lparr> m_data := d \<rparr>)))"

definition vec_DivideAndRound :: "'a::len nvec \<Rightarrow> 'a word \<Rightarrow> 'a nvec result" where
  "vec_DivideAndRound v q =
     (let halfQ = drop_bit 1 (m_modulus v); mv = m_modulus v in
      bindR (mapR (\<lambda>x. if x > halfQ
                     then bindR (DivideAndRound (SubFast mv x) q) (\<lambda>r. Inr (SubFast mv r))
                     else DivideAndRound x q)
               (m_data v))
        (\<lambda>d. Inr (v \<lparr> m_data := d \<rparr>)))"

definition vec_GetDigitAtIndexForBase :: "'a::len nvec \<Rightarrow> nat \<Rightarrow> nat \<Rightarrow> 'a nvec result" where
  "vec_GetDigitAtIndexForBase v index base =
     bindR (mapR (\<lambda>x. bindR (GetDigitAtIndexForBase x index base) (\<lambda>d. Inr (of_nat d))) (m_data v))
       (\<lambda>d. Inr (v \<lparr> m_data := d \<rparr>))"

definition vec_ModInverse :: "'a::len nvec \<Rightarrow> 'a nvec result" where
  "vec_ModInverse v =
     bindR (mapR (\<lambda>x. ModInverse x (m_modulus v)) (m_data v)) (\<lambda>d. Inr (v \<lparr> m_data := d \<rparr>))"

section \<open>The invariant and the value of every operation\<close>

definition nvec_ok :: "'a::len nvec \<Rightarrow> bool" where
  "nvec_ok v \<longleftrightarrow> modulus_ok (m_modulus v) \<and> (\<forall>x \<in> set (m_data v). residue (m_modulus v) x)"

definition vals :: "'a::len nvec \<Rightarrow> int list" where
  "vals v = map uint (m_data v)"

lemma length_vals [simp]: "length (vals v) = length (m_data v)"
  by (simp add: vals_def)

lemma nvec_ok_nth: "nvec_ok v \<Longrightarrow> i < length (m_data v) \<Longrightarrow> residue (m_modulus v) (m_data v ! i)"
  by (simp add: nvec_ok_def)

text \<open>Entrywise lifting of the modular operations, for every provider of the interface.\<close>

context modular_ops
begin

lemma map2_closed_value:
  assumes g: "good m"
    and f: "\<And>a b. \<lbrakk> val a < val m; val b < val m \<rbrakk> \<Longrightarrow> val (f a b) = F (val a) (val b) mod val m"
    and xs: "\<forall>x \<in> set xs. val x < val m" and ys: "\<forall>y \<in> set ys. val y < val m"
  shows "map val (map2 f xs ys) = map2 (\<lambda>x y. F x y mod val m) (map val xs) (map val ys)"
    and "\<forall>z \<in> set (map2 f xs ys). val z < val m"
proof -
  have z: "val a < val m \<and> val b < val m" if "(a, b) \<in> set (zip xs ys)" for a b
    using that xs ys by (auto dest: set_zip_leftD set_zip_rightD)
  then have "map val (map2 f xs ys) = map2 (\<lambda>x y. F (val x) (val y) mod val m) xs ys"
    by (auto intro!: f)
  then show "map val (map2 f xs ys) = map2 (\<lambda>x y. F x y mod val m) (map val xs) (map val ys)"
    by (simp add: zip_map_map comp_def case_prod_unfold)
  show "\<forall>z \<in> set (map2 f xs ys). val z < val m"
    using z f good_pos [OF g] by auto
qed

end

lemma vec_lift2:
  assumes a: "nvec_ok a" and b: "nvec_ok b" and s: "same_shape a b"
    and f: "\<And>x y. \<lbrakk> residue (m_modulus a) x; residue (m_modulus a) y \<rbrakk>
              \<Longrightarrow> uint (f x y) = F (uint x) (uint y) mod uint (m_modulus a)"
  shows "nvec_ok (a \<lparr> m_data := map2 f (m_data a) (m_data b) \<rparr>)"
    and "vals (a \<lparr> m_data := map2 f (m_data a) (m_data b) \<rparr>) =
          map2 (\<lambda>x y. F x y mod uint (m_modulus a)) (vals a) (vals b)"
proof -
  have m: "modulus_ok (m_modulus a)" using a by (simp add: nvec_ok_def)
  have xs: "\<forall>x \<in> set (m_data a). uint x < uint (m_modulus a)"
    and ys: "\<forall>y \<in> set (m_data b). uint y < uint (m_modulus a)"
    using a b s by (auto simp: nvec_ok_def residue_def same_shape_def)
  note l = fast.map2_closed_value [of "m_modulus a" f F "m_data a" "m_data b",
      OF m f [unfolded residue_def] xs ys]
  show "nvec_ok (a \<lparr> m_data := map2 f (m_data a) (m_data b) \<rparr>)"
    using l(2) m by (simp add: nvec_ok_def residue_def)
  show "vals (a \<lparr> m_data := map2 f (m_data a) (m_data b) \<rparr>) =
          map2 (\<lambda>x y. F x y mod uint (m_modulus a)) (vals a) (vals b)"
    using l(1) by (simp add: vals_def)
qed

lemma vec_lift1:
  assumes a: "nvec_ok a"
    and f: "\<And>x. residue (m_modulus a) x \<Longrightarrow> uint (f x) = F (uint x) mod uint (m_modulus a)"
  shows "nvec_ok (a \<lparr> m_data := map f (m_data a) \<rparr>)"
    and "vals (a \<lparr> m_data := map f (m_data a) \<rparr>) = map (\<lambda>x. F x mod uint (m_modulus a)) (vals a)"
  using a f by (auto simp: nvec_ok_def residue_def vals_def modulus_ok_def)

lemma vec_ModAdd_value:
  assumes "nvec_ok a" "nvec_ok b" "same_shape a b"
  obtains c where "vec_ModAdd a b = Inr c" "nvec_ok c" "m_modulus c = m_modulus a"
    "vals c = map2 (\<lambda>x y. (x + y) mod uint (m_modulus a)) (vals a) (vals b)"
proof -
  let ?f = "\<lambda>x y. ModAddFastEq x y (m_modulus a)"
  have f: "uint (?f x y) = (uint x + uint y) mod uint (m_modulus a)"
    if "residue (m_modulus a) x" "residue (m_modulus a) y" for x y
    using that assms(1) unfolding in_place_variants
    by (intro uint_ModAddFast) (auto simp: nvec_ok_def)
  note l = vec_lift2 [OF assms, of ?f "(+)", OF f]
  show ?thesis using assms(3) l by (intro that) (auto simp: vec_ModAdd_def Let_def)
qed

lemma vec_ModSub_value:
  assumes "nvec_ok a" "nvec_ok b" "same_shape a b"
  obtains c where "vec_ModSub a b = Inr c" "nvec_ok c" "m_modulus c = m_modulus a"
    "vals c = map2 (\<lambda>x y. (x - y) mod uint (m_modulus a)) (vals a) (vals b)"
proof -
  let ?f = "\<lambda>x y. ModSubFastEq x y (m_modulus a)"
  have f: "uint (?f x y) = (uint x - uint y) mod uint (m_modulus a)"
    if "residue (m_modulus a) x" "residue (m_modulus a) y" for x y
    using that unfolding in_place_variants by (intro uint_ModSubFast)
  note l = vec_lift2 [OF assms, of ?f "(-)", OF f]
  show ?thesis using assms(3) l by (intro that) (auto simp: vec_ModSub_def Let_def)
qed

lemma vec_ModAddNoCheck_eq: "same_shape a b \<Longrightarrow> vec_ModAddNoCheck a b = vec_ModAdd a b"
  by (simp add: vec_ModAddNoCheck_def vec_ModAdd_def same_shape_def)

lemma vec_ModMulNoCheck_eq: "same_shape a b \<Longrightarrow> vec_ModMulNoCheck a b = vec_ModMul a b"
  by (simp add: vec_ModMulNoCheck_def vec_ModMul_def same_shape_def)

lemma vec_ModMul_value:
  assumes "nvec_ok a" "nvec_ok b" "same_shape a b" "barrett_modulus (m_modulus a)"
  obtains c where "vec_ModMul a b = Inr c" "nvec_ok c" "m_modulus c = m_modulus a"
    "vals c = map2 (\<lambda>x y. x * y mod uint (m_modulus a)) (vals a) (vals b)"
proof -
  note mu = ComputeMu_mu_of [OF assms(4)]
  let ?f = "\<lambda>x y. ModMulFastEq_mu x y (m_modulus a) (mu_of (m_modulus a))"
  have f: "uint (?f x y) = uint x * uint y mod uint (m_modulus a)"
    if "residue (m_modulus a) x" "residue (m_modulus a) y" for x y
    using that unfolding in_place_variants
    by (intro uint_ModMulFast_mu assms(4) mu residue_prod_lt)
  note l = vec_lift2 [OF assms(1-3), of ?f "(*)", OF f]
  show ?thesis using assms(3) l mu by (intro that) (auto simp: vec_ModMul_def Let_def)
qed

lemma reduce_scalar_value:
  assumes "modulus_ok m"
  obtains bv where "reduce_scalar m b = Inr bv" "residue m bv" "uint bv = uint b mod uint m"
proof -
  have "m \<noteq> 0" "0 < uint m" using assms by (auto simp: modulus_ok_def)
  then show ?thesis
    using residue_pre_reduce [of m b] pre_reduce [of m b]
    by (intro that [of "if b \<ge> m then b mod m else b"]) (auto simp: reduce_scalar_def ModEq_def)
qed

lemma vec_ModMul_scalar_value:
  assumes a: "nvec_ok a"
  obtains c where "vec_ModMul_scalar a b = Inr c" "nvec_ok c" "m_modulus c = m_modulus a"
    "vals c = map (\<lambda>x. x * uint b mod uint (m_modulus a)) (vals a)"
proof -
  have m: "modulus_ok (m_modulus a)" using a by (simp add: nvec_ok_def)
  obtain bv where bv: "reduce_scalar (m_modulus a) b = Inr bv" "residue (m_modulus a) bv"
    "uint bv = uint b mod uint (m_modulus a)" using reduce_scalar_value [OF m] .
  obtain bc where bc: "PrepModMulConst bv (m_modulus a) = Inr bc"
    using PrepModMulConst_value [OF bv(2)] by blast
  let ?f = "\<lambda>x. ModMulFastConstEq x bv (m_modulus a) bc"
  have f: "uint (?f x) = uint x * uint b mod uint (m_modulus a)" for x
    unfolding in_place_variants uint_ModMulFastConst [OF m bv(2) bc] bv(3) by (simp add: mod_mult_right_eq)
  note l = vec_lift1 [OF a, of ?f "\<lambda>x. x * uint b", OF f]
  show ?thesis using l bv bc by (intro that) (auto simp: vec_ModMul_scalar_def Let_def)
qed

lemma vec_ModAdd_scalar_value:
  assumes a: "nvec_ok a"
  obtains c where "vec_ModAdd_scalar a b = Inr c" "nvec_ok c" "m_modulus c = m_modulus a"
    "vals c = map (\<lambda>x. (x + uint b) mod uint (m_modulus a)) (vals a)"
proof -
  have m: "modulus_ok (m_modulus a)" using a by (simp add: nvec_ok_def)
  obtain bv where bv: "reduce_scalar (m_modulus a) b = Inr bv" "residue (m_modulus a) bv"
    "uint bv = uint b mod uint (m_modulus a)" using reduce_scalar_value [OF m] .
  let ?f = "\<lambda>x. ModAddFast x bv (m_modulus a)"
  have f: "uint (?f x) = (uint x + uint b) mod uint (m_modulus a)" if "residue (m_modulus a) x" for x
    using that bv(2) m by (simp add: uint_ModAddFast bv(3) mod_add_right_eq)
  note l = vec_lift1 [OF a, of ?f "\<lambda>x. x + uint b", OF f]
  show ?thesis using l bv by (intro that) (auto simp: vec_ModAdd_scalar_def Let_def)
qed

lemma vec_ModSub_scalar_value:
  assumes a: "nvec_ok a"
  obtains c where "vec_ModSub_scalar a b = Inr c" "nvec_ok c" "m_modulus c = m_modulus a"
    "vals c = map (\<lambda>x. (x - uint b) mod uint (m_modulus a)) (vals a)"
proof -
  have m: "modulus_ok (m_modulus a)" using a by (simp add: nvec_ok_def)
  obtain bv where bv: "reduce_scalar (m_modulus a) b = Inr bv" "residue (m_modulus a) bv"
    "uint bv = uint b mod uint (m_modulus a)" using reduce_scalar_value [OF m] .
  let ?f = "\<lambda>x. ModSubFastEq x bv (m_modulus a)"
  have f: "uint (?f x) = (uint x - uint b) mod uint (m_modulus a)" if "residue (m_modulus a) x" for x
    unfolding in_place_variants using that bv(2) by (simp add: uint_ModSubFast bv(3) mod_diff_right_eq)
  note l = vec_lift1 [OF a, of ?f "\<lambda>x. x - uint b", OF f]
  show ?thesis using l bv by (intro that) (auto simp: vec_ModSub_scalar_def Let_def)
qed

section \<open>Change of modulus keeps the centred value\<close>

definition centered :: "int \<Rightarrow> int \<Rightarrow> int" where
  "centered q x = (if x > q div 2 then x - q else x)"

lemma centered_mod: "centered q x mod q = x mod q"
  by (simp add: centered_def)

lemma uint_switch_up:
  fixes om nm v :: "'a::len word"
  assumes om: "residue om v" and lt: "uint om < uint nm"
  shows "uint (switch_up om nm v) = centered (uint om) (uint v) mod uint nm"
proof -
  have v: "0 \<le> uint v" "uint v < uint om" using om by (simp_all add: residue_def)
  show ?thesis
  proof (cases "uint v > uint om div 2")
    case True
    have d: "uint (nm - om) = uint nm - uint om" using lt by (simp add: uint_sub_exact)
    then have "uint v + uint (nm - om) < 2 ^ LENGTH('a)" using v lt uint_lt_pow [of nm] by linarith
    then have "uint (v + (nm - om)) = uint v + (uint nm - uint om)" by (simp add: uint_add_exact d)
    moreover have "(uint v - uint om) mod uint nm = uint v - uint om + uint nm"
      using v lt True by (subst cadd_mod) auto
    ultimately show ?thesis
      using True by (simp add: switch_up_def centered_def word_less_def uint_drop_bit)
  next
    case False
    then show ?thesis using v lt by (simp add: switch_up_def centered_def word_less_def uint_drop_bit)
  qed
qed

lemma uint_switch_down:
  fixes om nm v :: "'a::len word"
  assumes om: "residue om v" and le: "uint nm \<le> uint om" and nm: "0 < uint nm" and ok: "modulus_ok om"
  shows "uint (switch_down om nm v) = centered (uint om) (uint v) mod uint nm"
proof -
  have v: "0 \<le> uint v" "uint v < uint om" using om by (simp_all add: residue_def)
  define w where "w = (if v > drop_bit 1 om then v + (nm - om mod nm) else v)"
  have "uint w mod uint nm = centered (uint om) (uint v) mod uint nm"
  proof (cases "uint v > uint om div 2")
    case True
    have r: "0 \<le> uint om mod uint nm" "uint om mod uint nm < uint nm" using nm by simp_all
    then have d: "uint (nm - om mod nm) = uint nm - uint om mod uint nm"
      by (subst uint_sub_exact) (simp_all add: uint_mod_eq)
    have "uint v + uint (nm - om mod nm) < 2 ^ LENGTH('a)"
      unfolding d using v r le ok by (simp add: modulus_ok_def)
    then have "uint w = uint v + (uint nm - uint om mod uint nm)"
      using True d by (simp add: w_def word_less_def uint_drop_bit uint_add_exact)
    then have "uint w = uint v - uint om mod uint nm + uint nm" by linarith
    then have "uint w mod uint nm = (uint v - uint om mod uint nm) mod uint nm" by simp
    then show ?thesis using True by (simp add: centered_def mod_diff_right_eq)
  next
    case False
    then show ?thesis by (simp add: w_def centered_def word_less_def uint_drop_bit)
  qed
  moreover have "switch_down om nm v = (if w \<ge> nm then w mod nm else w)"
    by (simp add: switch_down_def w_def Let_def)
  ultimately show ?thesis by (simp add: pre_reduce)
qed

lemma SwitchModulus_value:
  fixes v :: "'a::len nvec"
  assumes v: "nvec_ok v" and nm: "modulus_ok nm" and sz: "GetMSB nm \<le> MAX_MODULUS_SIZE LENGTH('a)"
  obtains c where "SwitchModulus v nm = Inr c" "nvec_ok c" "m_modulus c = nm"
    "vals c = map (\<lambda>x. centered (uint (m_modulus v)) x mod uint nm) (vals v)"
proof -
  have r: "\<forall>x \<in> set (m_data v). residue (m_modulus v) x" "modulus_ok (m_modulus v)"
    using v by (auto simp: nvec_ok_def)
  have n0: "0 < uint nm" "nm \<noteq> 0" using nm by (auto simp: modulus_ok_def)
  define f where "f = (if nm > m_modulus v then switch_up (m_modulus v) nm else switch_down (m_modulus v) nm)"
  have f: "uint (f x) = centered (uint (m_modulus v)) (uint x) mod uint nm" if "x \<in> set (m_data v)" for x
    using that r n0 by (auto simp: f_def word_less_def uint_switch_up uint_switch_down)
  let ?c = "\<lparr> m_modulus = nm, m_data = map f (m_data v) \<rparr>"
  have "SwitchModulus v nm = Inr ?c"
    using sz n0 by (auto simp: SwitchModulus_def SetModulus_def Let_def f_def)
  moreover have "nvec_ok ?c" using nm n0 f by (auto simp: nvec_ok_def residue_def)
  moreover have "vals ?c = map (\<lambda>x. centered (uint (m_modulus v)) x mod uint nm) (vals v)"
    using f by (simp add: vals_def)
  ultimately show ?thesis by (intro that) simp_all
qed

lemma nvec_eqI:
  assumes "m_modulus a = m_modulus b" "vals a = vals b"
  shows "a = (b :: 'a::len nvec)"
proof -
  have "inj (uint :: 'a word \<Rightarrow> int)" by (auto intro: injI simp: word_uint_eq_iff)
  then have "m_data a = m_data b" using assms(2) by (simp add: vals_def inj_map_eq_map)
  then show ?thesis using assms(1) by simp
qed

lemma SwitchModulus_same:
  fixes v :: "'a::len nvec"
  assumes v: "nvec_ok v" and sz: "GetMSB (m_modulus v) \<le> MAX_MODULUS_SIZE LENGTH('a)"
  shows "SwitchModulus v (m_modulus v) = Inr v"
proof -
  have m: "modulus_ok (m_modulus v)" using v by (simp add: nvec_ok_def)
  obtain c where c: "SwitchModulus v (m_modulus v) = Inr c" "m_modulus c = m_modulus v"
    "vals c = map (\<lambda>x. centered (uint (m_modulus v)) x mod uint (m_modulus v)) (vals v)"
    using SwitchModulus_value [OF v m sz] by blast
  have "vals c = vals v"
    unfolding c(3) using v by (intro map_idI) (auto simp: centered_mod vals_def nvec_ok_def residue_def)
  then have "c = v" using c(2) by (intro nvec_eqI)
  then show ?thesis using c(1) by simp
qed

section \<open>Properties\<close>

text \<open>Two vectors on which the properties are instantiated.\<close>

definition example_a :: "32 nvec" where
  "example_a = \<lparr> m_modulus = 7681, m_data = [7680, 2] \<rparr>"

definition example_b :: "32 nvec" where
  "example_b = \<lparr> m_modulus = 7681, m_data = [5, 7] \<rparr>"

text \<open>C34.  Vector addition, subtraction and multiplication of well-formed vectors of one shape never
  fail; each entry is the operation modulo the modulus and the result is well-formed.\<close>

theorem vec_arith_correct:
  assumes "nvec_ok a" "nvec_ok b" "same_shape a b" "barrett_modulus (m_modulus a)"
  shows "\<exists>s d p. vec_ModAdd a b = Inr s \<and> vec_ModSub a b = Inr d \<and> vec_ModMul a b = Inr p
    \<and> nvec_ok s \<and> nvec_ok d \<and> nvec_ok p
    \<and> vals s = map2 (\<lambda>x y. (x + y) mod uint (m_modulus a)) (vals a) (vals b)
    \<and> vals d = map2 (\<lambda>x y. (x - y) mod uint (m_modulus a)) (vals a) (vals b)
    \<and> vals p = map2 (\<lambda>x y. x * y mod uint (m_modulus a)) (vals a) (vals b)"
  using vec_ModAdd_value [OF assms(1-3)] vec_ModSub_value [OF assms(1-3)] vec_ModMul_value [OF assms]
  by metis

theorem vec_arith_correct_witness:
  "\<exists>s d p. vec_ModAdd example_a example_b = Inr s \<and> vec_ModSub example_a example_b = Inr d
    \<and> vec_ModMul example_a example_b = Inr p \<and> nvec_ok s \<and> nvec_ok d \<and> nvec_ok p
    \<and> vals s = map2 (\<lambda>x y. (x + y) mod uint (m_modulus example_a)) (vals example_a) (vals example_b)
    \<and> vals d = map2 (\<lambda>x y. (x - y) mod uint (m_modulus example_a)) (vals example_a) (vals example_b)
    \<and> vals p = map2 (\<lambda>x y. x * y mod uint (m_modulus example_a)) (vals example_a) (vals example_b)"
  by (rule vec_arith_correct) code_simp+

text \<open>A vector operation throws exactly when the lengths or the moduli of its operands differ.\<close>

lemma vec_shape_errors:
  "(vec_ModAdd a b = Inl math_error \<longleftrightarrow> \<not> same_shape a b)
    \<and> (vec_ModSub a b = Inl math_error \<longleftrightarrow> \<not> same_shape a b)
    \<and> (vec_ModMul a b = Inl math_error \<longleftrightarrow> \<not> (same_shape a b \<and> m_modulus a \<noteq> 0))
    \<and> (MultWithOutMod a b = Inl math_error \<longleftrightarrow> \<not> same_shape a b)"
  by (auto simp: vec_ModAdd_def vec_ModSub_def vec_ModMul_def MultWithOutMod_def Let_def ComputeMu_def)

text \<open>C33.  \<^verbatim>\<open>SwitchModulus\<close> keeps the centred value of every entry: each new entry is the centred
  representative of the old one, reduced modulo the new modulus; the new vector is well-formed.\<close>

theorem SwitchModulus_centered:
  fixes v :: "'a::len nvec"
  assumes "nvec_ok v" "modulus_ok nm" "GetMSB nm \<le> MAX_MODULUS_SIZE LENGTH('a)"
  shows "\<exists>c. SwitchModulus v nm = Inr c \<and> nvec_ok c \<and> m_modulus c = nm
    \<and> vals c = map (\<lambda>x. centered (uint (m_modulus v)) x mod uint nm) (vals v)"
  using SwitchModulus_value [OF assms] by metis

theorem SwitchModulus_centered_witness:
  "\<exists>c. SwitchModulus example_a 512 = Inr c \<and> nvec_ok c \<and> m_modulus c = 512
    \<and> vals c = map (\<lambda>x. centered (uint (m_modulus example_a)) x mod uint (512 :: 32 word)) (vals example_a)"
  by (rule SwitchModulus_centered) code_simp+

text \<open>Two defects of the vector layer.  \<^verbatim>\<open>DivideAndRound\<close> leaves an entry equal to the modulus, so
  its result is not a vector of residues.  \<^verbatim>\<open>ModExp\<close> reduces the exponent modulo the modulus, so
  \<open>2 ^ 5\<close> modulo 5 comes out as 1.\<close>

lemma vec_unreduced_results:
  "vec_DivideAndRound \<lparr> m_modulus = (17 :: 32 word), m_data = [16] \<rparr> 10
      = Inr \<lparr> m_modulus = (17 :: 32 word), m_data = [17] \<rparr>
   \<and> vec_ModExp \<lparr> m_modulus = (5 :: 32 word), m_data = [2] \<rparr> 5 = Inr \<lparr> m_modulus = (5 :: 32 word), m_data = [1] \<rparr>
   \<and> (2 :: int) ^ 5 mod 5 = 2"
  by code_simp

end
