(* ===== verification/SchemeLib.thy ===== *)
theory SchemeLib
  imports NativeVec
begin

text \<open>
  What the three encryption schemes (LWE, multi-key LWE and matrix NTRU) share: the accumulation
  loop of the inner products, the digits of the key switching, the scaling of plaintexts, and the
  interface of a linear scheme, from which the correctness of decryption and of the homomorphic
  operations follow once for all schemes.
\<close>

unbundle bit_operations_syntax

section \<open>Shared code\<close>

text \<open>\<^verbatim>\<open>b += a[i].ModMulFast(s[i], mod, mu)\<close> for \<open>i\<close> below \<open>n\<close>; the sum is not reduced.\<close>

definition dot_acc :: "'a::len word \<Rightarrow> 'a word \<Rightarrow> 'a word list \<Rightarrow> 'a word list \<Rightarrow> nat \<Rightarrow> 'a word \<Rightarrow> 'a word" where
  "dot_acc md mu a s n b = fold (\<lambda>i b. AddFast b (ModMulFast_mu (a ! i) (s ! i) md mu)) [0..<n] b"

text \<open>\<^verbatim>\<open>b.ModAddFastEq(a[i].ModMulFast(s[i], mod, mu), mod)\<close> for \<open>i\<close> below \<open>n\<close>; the sum is reduced.\<close>

definition dot_mod :: "'a::len word \<Rightarrow> 'a word \<Rightarrow> 'a word list \<Rightarrow> 'a word list \<Rightarrow> nat \<Rightarrow> 'a word \<Rightarrow> 'a word" where
  "dot_mod md mu a s n b = fold (\<lambda>i b. ModAddFastEq b (ModMulFast_mu (a ! i) (s ! i) md mu) md) [0..<n] b"

text \<open>
  The number of digits, \<^verbatim>\<open>ceil(log(Q) / log(base))\<close>, as the exact ceiling: the least exponent for
  which the power of the base reaches \<open>Q\<close>.
\<close>

function digitCount_from :: "nat \<Rightarrow> nat \<Rightarrow> nat \<Rightarrow> nat" where
  "digitCount_from Q base pow =
     (if Q \<le> pow \<or> base \<le> 1 \<or> pow = 0 then 0 else Suc (digitCount_from Q base (pow * base)))"
  by pat_completeness auto
termination
  by (relation "measure (\<lambda>(Q, base, pow). Q - pow)") (auto intro!: diff_less_mono2)

declare digitCount_from.simps [simp del]

definition digitCount :: "'a::len word \<Rightarrow> nat \<Rightarrow> nat" where
  "digitCount Q base = digitCount_from (unat Q) base 1"

function digitCount_int :: "int \<Rightarrow> int \<Rightarrow> int \<Rightarrow> nat" where
  "digitCount_int Q base pow =
     (if Q \<le> pow \<or> base \<le> 1 \<or> pow \<le> 0 then 0 else Suc (digitCount_int Q base (pow * base)))"
  by pat_completeness auto
termination
proof (relation "measure (\<lambda>(Q, base, pow). nat (Q - pow))", simp)
  fix Q base pow :: int
  assume "\<not> (Q \<le> pow \<or> base \<le> 1 \<or> pow \<le> 0)"
  then have "pow * 1 < pow * base" "pow < Q" by auto
  then show "((Q, base, pow * base), (Q, base, pow)) \<in> measure (\<lambda>(Q, base, pow). nat (Q - pow))" by simp
qed

declare digitCount_int.simps [simp del]

lemma digitCount_from_int: "digitCount_from Q base pow = digitCount_int (int Q) (int base) (int pow)"
proof (induction Q base pow rule: digitCount_from.induct)
  case (1 Q base pow)
  then show ?case
    by (auto simp: digitCount_from.simps [of Q base pow] digitCount_int.simps [of "int Q" "int base" "int pow"])
qed

lemma digitCount_code [code]: "digitCount Q base = digitCount_int (uint Q) (int base) 1"
  by (simp add: digitCount_def digitCount_from_int)

text \<open>The digits of one coefficient: \<^verbatim>\<open>a0 = atmp % baseKS; atmp /= baseKS\<close>.\<close>

primrec ks_digits :: "nat \<Rightarrow> nat \<Rightarrow> nat \<Rightarrow> nat list" where
  "ks_digits base 0 atmp = []"
| "ks_digits base (Suc d) atmp = (atmp mod base) # ks_digits base d (atmp div base)"

text \<open>
  The guard that stands before every encryption and decryption, \<^verbatim>\<open>mod % p != 0 && mod & (1 == 0)\<close>,
  as it parses: the right operand is the bitwise conjunction with the value of \<^verbatim>\<open>1 == 0\<close>.
\<close>

definition divisible_guard :: "'a::len word \<Rightarrow> 64 word \<Rightarrow> bool" where
  "divisible_guard md p \<longleftrightarrow>
     md mod ucast p \<noteq> 0 \<and> md AND (if (1 :: int) = 0 then 1 else 0) \<noteq> 0"

lemma divisible_guard_dead [simp]: "\<not> divisible_guard md p"
  by (simp add: divisible_guard_def)

text \<open>\<^verbatim>\<open>(m % p) * (mod / p)\<close>: the remainder is taken at 64 bits, the product at the native width.\<close>

definition scaled_message :: "64 word \<Rightarrow> 64 word \<Rightarrow> 'a::len word \<Rightarrow> 'a word result" where
  "scaled_message m p md =
     bindR (DividedBy md (ucast p)) (\<lambda>delta. Inr (MulFast (ucast (m mod p)) delta))"

text \<open>A loop whose body may throw.\<close>

fun foldR :: "('b \<Rightarrow> 's \<Rightarrow> 's result) \<Rightarrow> 'b list \<Rightarrow> 's \<Rightarrow> 's result" where
  "foldR f [] s = Inr s"
| "foldR f (x # xs) s = bindR (f x s) (foldR f xs)"

text \<open>The powers of the base, \<^verbatim>\<open>value *= baseKS\<close>.\<close>

primrec digitsKS :: "'a::len word \<Rightarrow> nat \<Rightarrow> 'a word \<Rightarrow> 'a word list" where
  "digitsKS base 0 value = []"
| "digitsKS base (Suc d) value = value # digitsKS base d (value * base)"

text \<open>One entry of the switching key; the sum is reduced at every step in a 32-bit build only.\<close>

definition ksk_entry ::
  "'a::len word \<Rightarrow> 'a word \<Rightarrow> nat \<Rightarrow> 'a word list \<Rightarrow> 'a word list \<Rightarrow> 'a word \<Rightarrow> 'a word" where
  "ksk_entry qKS mu n a sv b =
     (if LENGTH('a) = 32 then dot_mod qKS mu a sv n b
      else ModEq (dot_acc qKS mu a sv n b) qKS)"

text \<open>The masks and the bodies of a switching key, for one party.\<close>

definition ksk_masks :: "nat \<Rightarrow> nat \<Rightarrow> nat \<Rightarrow> (nat \<Rightarrow> nat \<Rightarrow> nat \<Rightarrow> 'a::len nvec) \<Rightarrow> 'a nvec list list list" where
  "ksk_masks N baseKS dc genA = map (\<lambda>i. map (\<lambda>j. map (\<lambda>k. genA i j k) [0..<dc]) [0..<baseKS]) [0..<N]"

definition ksk_bodies ::
  "'a::len word \<Rightarrow> 'a word \<Rightarrow> nat \<Rightarrow> nat \<Rightarrow> nat \<Rightarrow> nat \<Rightarrow> 'a word list \<Rightarrow> 'a word list \<Rightarrow> 'a word list \<Rightarrow>
     (nat \<Rightarrow> nat \<Rightarrow> nat \<Rightarrow> 'a nvec) \<Rightarrow> (nat \<Rightarrow> nat \<Rightarrow> nat \<Rightarrow> 'a word) \<Rightarrow> 'a word list list list" where
  "ksk_bodies qKS mu n N baseKS dc digits sv svN genA genE =
     map (\<lambda>i. map (\<lambda>j. map (\<lambda>k.
         let b = ModAdd (genE i j k) (ModMul (svN ! i) (MulFast (of_nat j) (digits ! k)) qKS) qKS
         in ksk_entry qKS mu n (m_data (genA i j k)) sv b)
       [0..<dc]) [0..<baseKS]) [0..<N]"

text \<open>The two loops of a key switch for one party, over the coefficients and their digits.\<close>

definition ks_loop ::
  "'a::len word \<Rightarrow> nat \<Rightarrow> nat \<Rightarrow> nat \<Rightarrow> nat \<Rightarrow> 'a nvec list list list \<Rightarrow> 'a word list list list \<Rightarrow> 'a word list \<Rightarrow>
     'a word list \<times> 'a word \<Rightarrow> 'a word list \<times> 'a word" where
  "ks_loop Q n N baseKS dc elA elB coeffs ab =
     fold (\<lambda>i ab.
        let refA = elA ! i; refB = elB ! i; digs = ks_digits baseKS dc (unat (coeffs ! i))
        in fold (\<lambda>j (a, b).
             let a0 = digs ! j; refAj = refA ! a0 ! j
             in (map (\<lambda>k. ModSubFastEq (a ! k) (m_data refAj ! k) Q) [0..<n],
                 ModSubFastEq b (refB ! a0 ! j) Q))
           [0..<dc] ab)
       [0..<N] ab"

text \<open>The rounding at the end of a decryption, with the factor and the divisor the caller gives.\<close>

definition decrypt_round :: "'a::len word \<Rightarrow> 'a word \<Rightarrow> 'a word \<Rightarrow> 'a word \<Rightarrow> 64 word result" where
  "decrypt_round md factor divisor r =
     bindR (DividedBy md divisor) (\<lambda>h.
       let r = ModAddFastEq r h md in
       bindR (DividedBy (MulFast factor r) md) (\<lambda>res. Inr (ucast res)))"

lemma foldR_append: "foldR f (xs @ ys) s = bindR (foldR f xs s) (foldR f ys)"
proof (induction xs arbitrary: s)
  case (Cons x xs)
  then show ?case by (cases "f x s") simp_all
qed simp

lemma foldR_no_error: "(\<And>x s. f x s \<noteq> Inl e) \<Longrightarrow> foldR f xs s \<noteq> Inl e"
  by (induction xs arbitrary: s) (auto simp: bindR_eq_Inl)

text \<open>No operation that encryption and decryption call reports that exception.\<close>

lemma no_not_implemented:
  "SwitchModulus v x \<noteq> Inl not_implemented_error" "ComputeMu x \<noteq> Inl not_implemented_error"
  "scaled_message m p x \<noteq> Inl not_implemented_error"
  "foldR (\<lambda>j a. bindR (vec_ModMul_scalar (A ! j) (sp ! j)) (vec_ModAdd a)) js ep \<noteq> Inl not_implemented_error"
  by (auto simp: SwitchModulus_def SetModulus_def ComputeMu_def scaled_message_def DividedBy_def Let_def
      bindR_eq_Inl vec_ModMul_scalar_def reduce_scalar_def PrepModMulConst_def vec_ModAdd_def
      split: if_splits intro!: foldR_no_error)

lemma no_not_implemented_decrypt: "decrypt_round md P H r \<noteq> Inl not_implemented_error"
  by (auto simp: decrypt_round_def DividedBy_def Let_def bindR_eq_Inl split: if_splits)

lemma SwitchModulus_length:
  "SwitchModulus v nm = Inr c \<Longrightarrow> length (m_data c) = length (m_data v) \<and> m_modulus c = nm"
  by (auto simp: SwitchModulus_def SetModulus_def Let_def split: if_splits)

lemma mapR_Inr:
  assumes "\<forall>x \<in> set xs. f x = Inr (g x)"
  shows "mapR f xs = Inr (map g xs)"
  using assms by (induction xs) auto

lemma foldR_pure:
  assumes "\<And>x s. x \<in> set xs \<Longrightarrow> f x s = Inr (g x s)"
  shows "foldR f xs s = Inr (fold g xs s)"
  using assms by (induction xs arbitrary: s) auto

lemma foldR_concat: "foldR (\<lambda>x. foldR g (h x)) xs s = foldR g (concat (map h xs)) s"
proof (induction xs arbitrary: s)
  case (Cons x xs)
  then show ?case by (simp add: foldR_append) (cases "foldR g (h x) s"; simp)
qed simp

lemma foldR_map: "foldR (\<lambda>x. g (h x)) xs s = foldR g (map h xs) s"
proof (induction xs arbitrary: s)
  case (Cons x xs)
  then show ?case by (cases "g (h x) s") simp_all
qed simp

section \<open>Integer inner products\<close>

definition inner :: "int list \<Rightarrow> int list \<Rightarrow> int" where
  "inner xs ys = sum_list (map2 (*) xs ys)"

lemma inner_simps [simp]:
  "inner [] ys = 0" "inner xs [] = 0" "inner (x # xs) (y # ys) = x * y + inner xs ys"
  by (simp_all add: inner_def)

lemma inner_mod_cong:
  assumes "length xs = length zs" "\<forall>i < length xs. xs ! i mod q = zs ! i mod q"
  shows "inner xs ys mod q = inner zs ys mod q"
  using assms
proof (induction xs zs arbitrary: ys rule: list_induct2)
  case (Cons x xs z zs)
  show ?case
  proof (cases ys)
    case (Cons y ys')
    have xz: "x mod q = z mod q" using Cons.prems by auto
    have "inner xs ys' mod q = inner zs ys' mod q" using Cons.prems by (intro Cons.IH) auto
    from mod_add_cong [OF mod_mult_cong [OF xz refl] this] show ?thesis using Cons by simp
  qed simp
qed simp

lemma inner_commute: "inner xs ys = inner ys xs"
proof (induction xs arbitrary: ys)
  case (Cons x xs)
  then show ?case by (cases ys) (simp_all add: mult.commute)
qed simp

lemma inner_map_add:
  "length a = length b \<Longrightarrow> inner (map2 (+) a b) s = inner a s + inner b s"
proof (induction a b arbitrary: s rule: list_induct2)
  case (Cons x xs y ys)
  then show ?case by (cases s) (simp_all add: algebra_simps)
qed simp

lemma inner_map_sub:
  "length a = length b \<Longrightarrow> inner (map2 (-) a b) s = inner a s - inner b s"
proof (induction a b arbitrary: s rule: list_induct2)
  case (Cons x xs y ys)
  then show ?case by (cases s) (simp_all add: algebra_simps)
qed simp

lemma inner_map_mult: "inner (map (\<lambda>x. x * c) a) s = inner a s * c"
proof (induction a arbitrary: s)
  case (Cons x xs)
  then show ?case by (cases s) (simp_all add: algebra_simps)
qed simp

lemma inner_replicate_0 [simp]: "inner (replicate n 0) s = 0"
proof (induction n arbitrary: s)
  case (Suc n)
  then show ?case by (cases s) simp_all
qed simp

lemma inner_append: "length a = length c \<Longrightarrow> inner (a @ b) (c @ d) = inner a c + inner b d"
  by (simp add: inner_def)

lemma inner_concat:
  assumes "length xs = k" "length ys = k" "\<forall>u<k. length (xs ! u) = length (ys ! u)"
  shows "inner (concat xs) (concat ys) = (\<Sum>u<k. inner (xs ! u) (ys ! u))"
  using assms
proof (induction xs arbitrary: ys k)
  case (Cons x xs)
  then obtain y ys' where ys: "ys = y # ys'" by (cases ys) auto
  have "length x = length y" using Cons.prems ys by auto
  moreover have "inner (concat xs) (concat ys') = (\<Sum>u<length xs. inner (xs ! u) (ys' ! u))"
    using Cons.prems ys by (intro Cons.IH) auto
  moreover have "k = Suc (length xs)" using Cons.prems by simp
  ultimately show ?case by (simp only: ys concat.simps inner_append sum.lessThan_Suc_shift) simp
qed simp

lemma inner_add_mod:
  assumes "length a = length b"
  shows "inner (map2 (\<lambda>x y. (x + y) mod q) a b) s mod q = (inner a s + inner b s) mod q"
  using inner_mod_cong [of "map2 (\<lambda>x y. (x + y) mod q) a b" "map2 (+) a b" q s] assms
  by (simp add: inner_map_add)

lemma inner_sub_mod:
  assumes "length a = length b"
  shows "inner (map2 (\<lambda>x y. (x - y) mod q) a b) s mod q = (inner a s - inner b s) mod q"
  using inner_mod_cong [of "map2 (\<lambda>x y. (x - y) mod q) a b" "map2 (-) a b" q s] assms
  by (simp add: inner_map_sub)

lemma inner_mult_mod:
  "inner (map (\<lambda>x. x * c mod q) a) s mod q = inner a s * c mod q"
  using inner_mod_cong [of "map (\<lambda>x. x * c mod q) a" "map (\<lambda>x. x * c) a" q s]
  by (simp add: inner_map_mult)


lemma inner_as_sum:
  assumes "length xs = n" "length ys = n"
  shows "inner xs ys = (\<Sum>i<n. xs ! i * ys ! i)"
  using assms by (simp add: inner_def sum_list_sum_nth atLeast0LessThan)

lemma sum_mod_cong:
  assumes "\<And>i. i < n \<Longrightarrow> f i mod q = g i mod (q :: int)"
  shows "(\<Sum>i<n. f i) mod q = (\<Sum>i<n. g i) mod q"
proof -
  have "(\<Sum>i<n. f i mod q) = (\<Sum>i<n. g i mod q)" using assms by (intro sum.cong) auto
  then show ?thesis by (metis mod_sum_eq)
qed

text \<open>A vector of combinations of rows, in an inner product: the inner products of the rows combine.\<close>

lemma dot_swap:
  fixes q :: int and n m :: nat
  assumes c: "\<forall>i<n. c i mod q = (\<Sum>r<m. h r * R r i) mod q" and g: "\<forall>r<m. (\<Sum>i<n. R r i * f i) mod q = g r mod q"
  shows "(\<Sum>i<n. c i * f i) mod q = (\<Sum>r<m. h r * g r) mod q"
proof -
  have "(\<Sum>i<n. c i * f i) mod q = (\<Sum>i<n. (\<Sum>r<m. h r * R r i) * f i) mod q"
    using c by (intro sum_mod_cong mod_mult_cong) auto
  also have "(\<Sum>i<n. (\<Sum>r<m. h r * R r i) * f i) = (\<Sum>i<n. \<Sum>r<m. h r * (R r i * f i))"
    by (simp add: sum_distrib_right mult.assoc)
  also have "\<dots> = (\<Sum>r<m. h r * (\<Sum>i<n. R r i * f i))"
    by (subst sum.swap) (simp add: sum_distrib_left)
  also have "\<dots> mod q = (\<Sum>r<m. h r * g r) mod q"
    using g by (intro sum_mod_cong mod_mult_cong) auto
  finally show ?thesis .
qed

text \<open>The inner product with one column of an inverse matrix selects the first entry.\<close>

lemma inverse_dot:
  fixes q :: int and n :: nat
  assumes inv: "\<forall>l<n. (\<Sum>i<n. M l i * f i) mod q = (if l = 0 then 1 else 0) mod q" and n: "0 < n"
    and c: "\<forall>i<n. c i mod q = (\<Sum>l<n. e l * M l i) mod q"
  shows "(\<Sum>i<n. c i * f i) mod q = e 0 mod q"
proof -
  have "(\<Sum>l<n. e l * (if l = 0 then 1 else 0)) = e 0" using n by (subst sum.remove [of _ 0]) auto
  with dot_swap [OF c inv] show ?thesis by simp
qed

section \<open>The accumulation loops\<close>

lemma fold_upt_Suc: "fold f [0..<Suc n] b = f n (fold f [0..<n] b)"
  by simp

lemma dot_acc_exact:
  fixes md mu b :: "'a::len word"
  assumes m: "barrett_modulus md" "ComputeMu md = Inr mu"
    and r: "\<forall>i<n. residue md (a ! i) \<and> residue md (s ! i)"
    and fit: "uint b + int n * uint md \<le> 2 ^ LENGTH('a)"
  shows "uint (dot_acc md mu a s n b) = uint b + (\<Sum>i<n. uint (a ! i) * uint (s ! i) mod uint md)"
  using r fit
proof (induction n)
  case (Suc n)
  let ?t = "\<lambda>i. uint (a ! i) * uint (s ! i) mod uint md"
  have pos: "0 < uint md" using barrett_modulus_facts [OF m(1)] by blast
  have fit': "uint b + int n * uint md + uint md \<le> 2 ^ LENGTH('a)"
    using Suc.prems(2) by (simp add: algebra_simps)
  have ih: "uint (dot_acc md mu a s n b) = uint b + (\<Sum>i<n. ?t i)"
    using Suc.prems fit' pos by (intro Suc.IH) auto
  have t: "uint (ModMulFast_mu (a ! n) (s ! n) md mu) = ?t n"
    using Suc.prems(1) by (intro uint_ModMulFast_mu m residue_prod_lt) auto
  have "(\<Sum>i<n. ?t i) \<le> (\<Sum>i<n. uint md)" using pos by (intro sum_mono) (simp add: less_imp_le)
  moreover have "?t n < uint md" using pos by simp
  ultimately have "uint (dot_acc md mu a s n b) + ?t n < 2 ^ LENGTH('a)"
    using ih fit' by simp
  then show ?case
    using ih t by (simp add: dot_acc_def AddFast_def uint_add_exact add.commute)
qed (simp add: dot_acc_def)

lemma dot_acc_mod:
  fixes md mu b :: "'a::len word"
  assumes m: "barrett_modulus md" "ComputeMu md = Inr mu"
    and r: "\<forall>x \<in> set a. residue md x" "\<forall>x \<in> set s. residue md x"
    and len: "length a = n" "length s = n"
    and fit: "uint b + int n * uint md \<le> 2 ^ LENGTH('a)"
  shows "uint (dot_acc md mu a s n b) mod uint md = (uint b + inner (map uint a) (map uint s)) mod uint md"
proof -
  have r': "\<forall>i<n. residue md (a ! i) \<and> residue md (s ! i)" using r len by auto
  have "uint (dot_acc md mu a s n b) mod uint md
      = (uint b + (\<Sum>i<n. uint (a ! i) * uint (s ! i) mod uint md) mod uint md) mod uint md"
    unfolding dot_acc_exact [OF m r' fit] by (simp add: mod_add_right_eq)
  also have "\<dots> = (uint b + (\<Sum>i<n. uint (a ! i) * uint (s ! i))) mod uint md"
    by (simp add: mod_sum_eq mod_add_right_eq)
  finally show ?thesis using len by (simp add: inner_as_sum)
qed

lemma dot_acc_le:
  fixes md mu b :: "'a::len word"
  assumes m: "barrett_modulus md" "ComputeMu md = Inr mu"
    and r: "\<forall>i<n. residue md (a ! i) \<and> residue md (s ! i)"
    and fit: "uint b + int n * uint md \<le> 2 ^ LENGTH('a)"
  shows "uint (dot_acc md mu a s n b) \<le> uint b + int n * uint md"
proof -
  have "0 < uint md" using barrett_modulus_facts [OF m(1)] by blast
  then have "(\<Sum>i<n. uint (a ! i) * uint (s ! i) mod uint md) \<le> (\<Sum>i<n. uint md)"
    by (intro sum_mono) (simp add: less_imp_le)
  then show ?thesis unfolding dot_acc_exact [OF assms] by simp
qed

lemma dot_mod_value:
  fixes md mu b :: "'a::len word"
  assumes m: "barrett_modulus md" "ComputeMu md = Inr mu"
    and r: "\<forall>i<n. residue md (a ! i) \<and> residue md (s ! i)" and b: "residue md b"
  shows "uint (dot_mod md mu a s n b) = (uint b + (\<Sum>i<n. uint (a ! i) * uint (s ! i))) mod uint md"
  using r
proof (induction n)
  case 0
  then show ?case using b by (simp add: dot_mod_def residue_def)
next
  case (Suc n)
  have pos: "0 < uint md" using barrett_modulus_facts [OF m(1)] by blast
  have ih: "uint (dot_mod md mu a s n b) = (uint b + (\<Sum>i<n. uint (a ! i) * uint (s ! i))) mod uint md"
    using Suc by auto
  have t: "uint (ModMulFast_mu (a ! n) (s ! n) md mu) = uint (a ! n) * uint (s ! n) mod uint md"
    using Suc.prems by (intro uint_ModMulFast_mu m residue_prod_lt) auto
  have "uint (dot_mod md mu a s (Suc n) b)
      = (uint (dot_mod md mu a s n b) + uint (ModMulFast_mu (a ! n) (s ! n) md mu)) mod uint md"
    unfolding dot_mod_def fold_upt_Suc in_place_variants
    using residue_uint_mod [OF ih pos] residue_uint_mod [OF t pos] barrett_modulus_ok [OF m(1)]
    by (intro uint_ModAddFast) (simp_all add: dot_mod_def in_place_variants)
  also have "\<dots> = (uint b + (\<Sum>i<Suc n. uint (a ! i) * uint (s ! i))) mod uint md"
    unfolding ih t by (simp add: mod_add_eq add.assoc)
  finally show ?case .
qed

section \<open>Digits\<close>

lemma digitCount_from_reaches:
  assumes "1 < base" "0 < pow"
  shows "Q \<le> pow * base ^ digitCount_from Q base pow"
  using assms
proof (induction Q base pow rule: digitCount_from.induct)
  case (1 Q base pow)
  show ?case
  proof (cases "Q \<le> pow")
    case False
    then have "Q \<le> pow * base * base ^ digitCount_from Q base (pow * base)" using 1 by simp
    then show ?thesis using False 1 by (simp add: digitCount_from.simps [of Q base pow] mult.assoc)
  qed (simp add: digitCount_from.simps [of Q base pow])
qed

lemma digitCount_reaches:
  assumes "1 < base"
  shows "unat Q \<le> base ^ digitCount Q base"
  using digitCount_from_reaches [OF assms, of 1 "unat Q"] by (simp add: digitCount_def)

lemma length_ks_digits [simp]: "length (ks_digits base d x) = d"
  by (induction d arbitrary: x) simp_all

lemma ks_digits_lt:
  assumes "0 < base" "i < d"
  shows "ks_digits base d x ! i < base"
  using assms
proof (induction d arbitrary: x i)
  case (Suc d)
  then show ?case by (cases i) simp_all
qed simp

lemma ks_digits_le: "i < d \<Longrightarrow> ks_digits base d x ! i \<le> x"
proof (induction d arbitrary: x i)
  case (Suc d)
  show ?case
  proof (cases i)
    case (Suc i')
    then have "ks_digits base d (x div base) ! i' \<le> x div base" using Suc.prems Suc.IH by simp
    also have "\<dots> \<le> x" by (rule div_le_dividend)
    finally show ?thesis using Suc by simp
  qed simp
qed simp

lemma ks_digits_sum:
  assumes "x < base ^ d"
  shows "(\<Sum>i<d. ks_digits base d x ! i * base ^ i) = x"
  using assms
proof (induction d arbitrary: x)
  case (Suc d)
  have "0 < base" using Suc.prems by (cases base) auto
  then have lt: "x div base < base ^ d"
    using Suc.prems by (simp add: div_less_iff_less_mult mult.commute)
  have "(\<Sum>i<Suc d. ks_digits base (Suc d) x ! i * base ^ i)
      = x mod base + (\<Sum>i<d. ks_digits base d (x div base) ! i * base ^ i) * base"
    by (subst sum.lessThan_Suc_shift) (simp add: sum_distrib_left mult_ac)
  also have "\<dots> = x" unfolding Suc.IH [OF lt] by simp
  finally show ?case .
qed simp

section \<open>Scaling of plaintexts\<close>

text \<open>Decryption of a phase: add \<open>q div (2 * p)\<close>, multiply by \<open>p\<close> and divide by \<open>q\<close>.\<close>

definition decode :: "int \<Rightarrow> int \<Rightarrow> int \<Rightarrow> int" where
  "decode q p r = p * ((r + q div (2 * p)) mod q) div q"

definition noise_ok :: "int \<Rightarrow> int \<Rightarrow> int \<Rightarrow> int \<Rightarrow> bool" where
  "noise_ok q p m e \<longleftrightarrow> m * (q mod p) \<le> p * (e + q div (2 * p)) \<and> p * (e + q div (2 * p)) < q"

text \<open>When \<open>2 * p\<close> divides the modulus, the bound is the familiar one, half the spacing.\<close>

lemma noise_ok_divisible:
  assumes "0 < p" "0 < q" "2 * p dvd q"
  shows "noise_ok q p m e \<longleftrightarrow> - q \<le> 2 * p * e \<and> 2 * p * e < q"
proof -
  obtain k where k: "q = 2 * p * k" using assms(3) by (auto elim: dvdE)
  have "q div (2 * p) = k" "q mod p = 0" using assms k by simp_all
  then show ?thesis unfolding noise_ok_def using k by (auto simp: algebra_simps)
qed

lemma decode_correct:
  assumes p: "0 < p" and q: "0 < q" and m: "0 \<le> m" "m < p" and e: "noise_ok q p m e"
    and r: "r mod q = (m * (q div p) + e) mod q"
  shows "decode q p r = m"
proof -
  define h where "h = q div (2 * p)"
  define x where "x = m * (q div p) + e + h"
  have px: "p * x = m * q - m * (q mod p) + p * (e + h)"
  proof -
    have "p * (q div p) = q - q mod p" by (metis minus_mod_eq_mult_div)
    then have "m * (p * (q div p)) = m * q - m * (q mod p)" by (simp only: right_diff_distrib)
    then show ?thesis unfolding x_def by (simp add: algebra_simps)
  qed
  have lo: "m * q \<le> p * x" using e unfolding noise_ok_def h_def [symmetric] px by linarith
  have "0 \<le> m * (q mod p)" using m p by simp
  then have hi: "p * x < (m + 1) * q"
    using e unfolding noise_ok_def h_def [symmetric] px by (simp add: algebra_simps)
  have "0 \<le> p * x" using lo m q by (meson mult_nonneg_nonneg order_trans less_imp_le)
  then have x0: "0 \<le> x" using p by (simp add: zero_le_mult_iff)
  have "p * x < p * q" using hi m q mult_right_mono [of "m + 1" p q] by linarith
  then have xq: "x < q" using p by simp
  have "(r + h) mod q = x mod q" unfolding x_def using r by (metis mod_add_cong)
  then have "(r + h) mod q = x" using x0 xq by simp
  then have "decode q p r = p * x div q" by (simp add: decode_def h_def)
  also have "\<dots> = m"
    using lo hi q by (intro int_div_pos_eq [where r = "p * x - m * q"]) (simp_all add: algebra_simps)
  finally show ?thesis .
qed

text \<open>The plaintext moduli for which no intermediate product wraps.\<close>

definition pt_ok :: "64 word \<Rightarrow> 'a::len word \<Rightarrow> bool" where
  "pt_ok p md \<longleftrightarrow> 0 < uint p \<and> 2 * uint p \<le> uint md \<and> uint p * uint md \<le> 2 ^ LENGTH('a) \<and> 2 * uint p < 2 ^ 64"

lemma pt_ok_facts:
  fixes md :: "'a::len word"
  assumes "pt_ok p md"
  shows "uint (ucast p :: 'a word) = uint p" "uint (ucast (p * 2) :: 'a word) = 2 * uint p"
    "ucast p \<noteq> (0 :: 'a word)" "ucast (p * 2) \<noteq> (0 :: 'a word)" "p \<noteq> 0"
proof -
  have lt: "2 * uint p < 2 ^ LENGTH('a)" using assms uint_lt_pow [of md] unfolding pt_ok_def by linarith
  then have "uint p < 2 ^ LENGTH('a)" using uint_ge_0 [of p] by linarith
  then show u: "uint (ucast p :: 'a word) = uint p" by (rule uint_ucast_small)
  have "uint (p * 2) = 2 * uint p" using assms by (simp add: pt_ok_def uint_mul_mod)
  then show u2: "uint (ucast (p * 2) :: 'a word) = 2 * uint p" using lt by (intro uint_ucast_small [THEN trans]) simp_all
  show "ucast p \<noteq> (0 :: 'a word)" using u assms by (auto simp: pt_ok_def)
  show "ucast (p * 2) \<noteq> (0 :: 'a word)" using u2 assms by (auto simp: pt_ok_def)
  show "p \<noteq> 0" using assms by (auto simp: pt_ok_def)
qed

lemma scaled_message_value:
  fixes md :: "'a::len word"
  assumes "pt_ok p md"
  obtains d where "scaled_message m p md = Inr d" "uint d = uint (m mod p) * (uint md div uint p)" "residue md d"
proof -
  note f = pt_ok_facts [OF assms]
  have p: "0 < uint p" "2 * uint p < 2 ^ 64" using assms by (simp_all add: pt_ok_def)
  have mp: "0 \<le> uint (m mod p)" "uint (m mod p) < uint p" using p by (simp_all add: uint_mod_eq)
  have "uint p < 2 ^ LENGTH('a)" using uint_lt_pow [of "ucast p :: 'a word"] unfolding f(1) .
  then have um: "uint (ucast (m mod p) :: 'a word) = uint (m mod p)" using mp by (intro uint_ucast_small) simp
  have D: "0 \<le> uint md div uint p" "uint p * (uint md div uint p) \<le> uint md"
    using p zdiv_bounds(1) [OF p(1), of "uint md"] by (simp_all add: pos_imp_zdiv_nonneg_iff mult.commute)
  have "0 < uint md div uint p"
    using assms p by (simp add: pt_ok_def pos_imp_zdiv_pos_iff)
  then have lt: "uint (m mod p) * (uint md div uint p) < uint md"
    using mult_strict_right_mono [OF mp(2)] D(2) by (meson order_less_le_trans)
  define d where "d = MulFast (ucast (m mod p)) (md div ucast p)"
  have ud: "uint d = uint (m mod p) * (uint md div uint p)"
  proof -
    have "uint (ucast (m mod p) :: 'a word) * uint (md div ucast p) = uint (m mod p) * (uint md div uint p)"
      by (simp add: um f(1) uint_div_eq)
    moreover from this have "uint (ucast (m mod p) :: 'a word) * uint (md div ucast p) < 2 ^ LENGTH('a)"
      using lt uint_lt_pow [of md] by linarith
    ultimately show ?thesis
      unfolding d_def MulFast_def mult.commute [of "md div ucast p"] by (simp add: uint_mul_exact)
  qed
  have "scaled_message m p md = Inr d"
    using f(3) by (simp add: scaled_message_def DividedBy_def d_def)
  moreover have "residue md d" unfolding residue_def ud by (rule lt)
  ultimately show ?thesis using ud by (intro that)
qed

lemma decrypt_round_offset:
  fixes md :: "'a::len word"
  assumes ok: "modulus_ok md" and r: "uint r = ph mod uint md"
    and P: "uint P = p" "0 < p" "p * uint md \<le> 2 ^ LENGTH('a)" "p < 2 ^ 64" and H: "1 < uint H"
  defines "res \<equiv> p * ((ph + uint md div uint H) mod uint md) div uint md"
  shows "decrypt_round md P H r = Inr (word_of_int res)" "0 \<le> res" "res < p"
proof -
  define q where "q = uint md"
  have qp: "0 < q" using ok by (simp add: modulus_ok_def q_def)
  define h where "h = md div H"
  have h: "uint h = q div uint H" by (simp add: h_def uint_div_eq q_def)
  have hq: "uint h < q" unfolding h using H qp by (intro int_div_less_self) simp_all
  define r' where "r' = ModAddFastEq r h md"
  have r': "uint r' = (ph + q div uint H) mod q"
    unfolding r'_def in_place_variants using ok hq r qp
    by (subst uint_ModAddFast) (simp_all add: residue_def q_def [symmetric] h mod_add_left_eq)
  have r'q: "0 \<le> uint r'" "uint r' < q" using r' qp by simp_all
  have "p * uint r' < p * q" using r'q P by simp
  then have "p * uint r' < 2 ^ LENGTH('a)" using P(3) unfolding q_def by linarith
  then have pr: "uint (MulFast P r') = p * uint r'"
    unfolding MulFast_def mult.commute [of r'] using P(1) by (simp add: uint_mul_exact)
  define w where "w = MulFast P r' div md"
  have w: "uint w = res" by (simp add: w_def uint_div_eq pr r' res_def q_def)
  show resp: "res < p"
    unfolding res_def q_def [symmetric] r' [symmetric] using P r'q(2) qp by (simp add: zdiv_lt_iff)
  show "0 \<le> res" using w uint_ge_0 [of w] by (simp del: uint_ge_0)
  have "uint (ucast w :: 64 word) = res" using w resp P by (subst uint_ucast_small) simp_all
  then have "(ucast w :: 64 word) = word_of_int res" by (metis word_of_int_uint)
  moreover have "decrypt_round md P H r = Inr (ucast w)"
    using H qp by (auto simp: decrypt_round_def DividedBy_def h_def [symmetric] Let_def r'_def [symmetric] w_def q_def)
  ultimately show "decrypt_round md P H r = Inr (word_of_int res)" by simp
qed

lemma decrypt_round_value:
  fixes md :: "'a::len word"
  assumes ok: "modulus_ok md" and r: "uint r = ph mod uint md"
    and P: "uint P = p" "0 < p" "2 * p \<le> uint md" "p * uint md \<le> 2 ^ LENGTH('a)" "p < 2 ^ 64"
    and H: "uint H = 2 * p"
  shows "decrypt_round md P H r = Inr (word_of_int (decode (uint md) p ph))"
    "0 \<le> decode (uint md) p ph" "decode (uint md) p ph < p"
  using decrypt_round_offset [OF ok r P(1,2,4,5), of H] H P(2) by (simp_all add: decode_def)

section \<open>Modulus switching\<close>

text \<open>The rounding error of one coefficient, in units of \<open>1 / (2 * Q)\<close>.\<close>

definition ms_err :: "int \<Rightarrow> int \<Rightarrow> int \<Rightarrow> int" where
  "ms_err q Q x = 2 * Q * scale_round x q Q - 2 * (x * q)"

lemma ms_err_bound: "0 \<le> x \<Longrightarrow> x < Q \<Longrightarrow> 0 < q \<Longrightarrow> \<bar>ms_err q Q x\<bar> \<le> Q"
  unfolding ms_err_def by (rule scale_round_bounds(3))

lemma inner_scale:
  "2 * Q * inner (map (\<lambda>x. scale_round x q Q) a) s = 2 * q * inner a s + inner (map (ms_err q Q) a) s"
proof (induction a arbitrary: s)
  case (Cons x a)
  show ?case
  proof (cases s)
    case (Cons y ys)
    have "2 * Q * (scale_round x q Q * y) = 2 * q * (x * y) + ms_err q Q x * y"
      by (simp add: ms_err_def algebra_simps)
    then show ?thesis using Cons.IH [of ys] Cons by (simp add: distrib_left distrib_right)
  qed simp
qed simp

lemma inner_bound:
  assumes "\<forall>x \<in> set a. \<bar>x\<bar> \<le> B" "0 \<le> B"
  shows "\<bar>inner a s\<bar> \<le> B * (\<Sum>y \<leftarrow> s. \<bar>y\<bar>)"
  using assms
proof (induction a arbitrary: s)
  case (Cons x a)
  show ?case
  proof (cases s)
    case (Cons y ys)
    have "\<bar>x * y\<bar> \<le> B * \<bar>y\<bar>" unfolding abs_mult using Cons.prems by (intro mult_right_mono) auto
    moreover have "\<bar>inner a ys\<bar> \<le> B * (\<Sum>y \<leftarrow> ys. \<bar>y\<bar>)" using Cons.prems by (intro Cons.IH) auto
    ultimately show ?thesis using Cons by (simp add: distrib_left)
  qed simp
qed (auto intro!: mult_nonneg_nonneg sum_list_nonneg)

lemma mod_switch_phase:
  fixes a s :: "int list"
  assumes q: "0 < q" and Q: "0 < Q" and a: "\<forall>x \<in> set a. 0 \<le> x \<and> x < Q" and b: "0 \<le> b" "b < Q"
  defines "a' \<equiv> map (\<lambda>x. scale_round x q Q mod q) a" and "b' \<equiv> scale_round b q Q mod q"
  shows "\<exists>err. \<bar>err\<bar> \<le> Q * (1 + (\<Sum>y \<leftarrow> s. \<bar>y\<bar>))
    \<and> (2 * Q * (b' - inner a' s)) mod (2 * Q * q) = (2 * q * (b - inner a s) + err) mod (2 * Q * q)"
proof -
  define err where "err = ms_err q Q b - inner (map (ms_err q Q) a) s"
  have "\<bar>ms_err q Q b\<bar> \<le> Q" using b q by (rule ms_err_bound)
  moreover have "\<bar>inner (map (ms_err q Q) a) s\<bar> \<le> Q * (\<Sum>y \<leftarrow> s. \<bar>y\<bar>)"
    using a q Q by (intro inner_bound) (auto intro: ms_err_bound)
  ultimately have bd: "\<bar>err\<bar> \<le> Q * (1 + (\<Sum>y \<leftarrow> s. \<bar>y\<bar>))" unfolding err_def by (simp add: distrib_left)
  have "inner a' s mod q = inner (map (\<lambda>x. scale_round x q Q) a) s mod q"
    unfolding a'_def by (rule inner_mod_cong) simp_all
  then have "(b' - inner a' s) mod q = (scale_round b q Q - inner (map (\<lambda>x. scale_round x q Q) a) s) mod q"
    unfolding b'_def by (intro mod_diff_cong) simp_all
  then have "(2 * Q * (b' - inner a' s)) mod (2 * Q * q)
      = (2 * Q * (scale_round b q Q - inner (map (\<lambda>x. scale_round x q Q) a) s)) mod (2 * Q * q)"
    by (simp add: mult_mod_right [symmetric])
  also have "2 * Q * (scale_round b q Q - inner (map (\<lambda>x. scale_round x q Q) a) s) = 2 * q * (b - inner a s) + err"
    unfolding right_diff_distrib inner_scale err_def by (simp add: ms_err_def algebra_simps)
  finally show ?thesis using bd by blast
qed

section \<open>Key switching\<close>

text \<open>A loop whose body lowers a quantity modulo \<open>q\<close> by a known amount.\<close>

lemma fold_lowers:
  assumes "Inv s0" "\<And>i s. i < n \<Longrightarrow> Inv s \<Longrightarrow> Inv (f i s) \<and> phi (f i s) mod q = (phi s - c i) mod (q :: int)"
  shows "Inv (fold f [0..<n] s0)" "phi (fold f [0..<n] s0) mod q = (phi s0 - (\<Sum>i<n. c i)) mod q"
proof -
  have "Inv (fold f [0..<n] s0) \<and> phi (fold f [0..<n] s0) mod q = (phi s0 - (\<Sum>i<n. c i)) mod q"
    using assms(2)
  proof (induction n)
    case 0
    then show ?case using assms(1) by simp
  next
    case (Suc n)
    let ?s = "fold f [0..<n] s0"
    have ih: "Inv ?s" "phi ?s mod q = (phi s0 - (\<Sum>i<n. c i)) mod q" using Suc by auto
    have "phi (f n ?s) mod q = (phi ?s - c n) mod q" "Inv (f n ?s)" using Suc.prems ih by auto
    moreover have "(phi ?s - c n) mod q = ((phi s0 - (\<Sum>i<n. c i)) - c n) mod q"
      using ih(2) by (rule mod_diff_cong) simp
    ultimately show ?case by (simp add: algebra_simps)
  qed
  then show "Inv (fold f [0..<n] s0)" "phi (fold f [0..<n] s0) mod q = (phi s0 - (\<Sum>i<n. c i)) mod q"
    by blast+
qed

text \<open>The state of the loop: a vector of residues of the right length, and a residue.\<close>

definition ks_inv :: "'a::len word \<Rightarrow> nat \<Rightarrow> 'a word list \<times> 'a word \<Rightarrow> bool" where
  "ks_inv Q n ab \<longleftrightarrow> length (fst ab) = n \<and> (\<forall>x \<in> set (fst ab). residue Q x) \<and> residue Q (snd ab)"

definition ks_phase :: "'a::len word list \<Rightarrow> 'a word list \<times> 'a word \<Rightarrow> int" where
  "ks_phase sv ab = uint (snd ab) - inner (map uint (fst ab)) (map uint sv)"

lemma ks_step:
  fixes Q :: "'a::len word"
  assumes st: "ks_inv Q n (a, b)" and q: "0 < uint Q"
    and ra: "length ra = n" "\<forall>x \<in> set ra. residue Q x" and rb: "residue Q rb"
  defines "st' \<equiv> (map (\<lambda>k. ModSubFastEq (a ! k) (ra ! k) Q) [0..<n], ModSubFastEq b rb Q)"
  shows "ks_inv Q n st'"
    "ks_phase sv st' mod uint Q = (ks_phase sv (a, b) - (uint rb - inner (map uint ra) (map uint sv))) mod uint Q"
proof -
  have S: "length a = n" "\<forall>x \<in> set a. residue Q x" "residue Q b" using st by (auto simp: ks_inv_def)
  have va: "uint (ModSubFastEq (a ! k) (ra ! k) Q) = (uint (a ! k) - uint (ra ! k)) mod uint Q" if "k < n" for k
    unfolding in_place_variants using that S ra by (intro uint_ModSubFast) auto
  have vb: "uint (ModSubFastEq b rb Q) = (uint b - uint rb) mod uint Q"
    unfolding in_place_variants using S rb by (intro uint_ModSubFast)
  show "ks_inv Q n st'" using va vb q by (auto simp: ks_inv_def st'_def residue_def)
  have "map uint (fst st') = map2 (\<lambda>x y. (x - y) mod uint Q) (map uint a) (map uint ra)"
    using S(1) ra(1) va by (intro nth_equalityI) (simp_all add: st'_def)
  then have "inner (map uint (fst st')) (map uint sv) mod uint Q
      = (inner (map uint a) (map uint sv) - inner (map uint ra) (map uint sv)) mod uint Q"
    using S(1) ra(1) by (simp add: inner_sub_mod)
  then have "ks_phase sv st' mod uint Q
      = ((uint b - uint rb) - (inner (map uint a) (map uint sv) - inner (map uint ra) (map uint sv))) mod uint Q"
    unfolding ks_phase_def using vb by (intro mod_diff_cong) (simp_all add: st'_def)
  then show "ks_phase sv st' mod uint Q = (ks_phase sv (a, b) - (uint rb - inner (map uint ra) (map uint sv))) mod uint Q"
    by (simp add: ks_phase_def algebra_simps)
qed

text \<open>A switching key all of whose entries encrypt multiples of the old key, up to a noise.\<close>

definition ksk_ok ::
  "'a::len word \<Rightarrow> nat \<Rightarrow> nat \<Rightarrow> nat \<Rightarrow> nat \<Rightarrow> 'a word list \<Rightarrow> 'a word list \<Rightarrow> (nat \<Rightarrow> nat \<Rightarrow> nat \<Rightarrow> int) \<Rightarrow>
     'a nvec list list list \<Rightarrow> 'a word list list list \<Rightarrow> bool" where
  "ksk_ok Q n N base dc sv svN noise elA elB \<longleftrightarrow>
     (\<forall>i<N. \<forall>j<base. \<forall>k<dc.
        length (m_data (elA ! i ! j ! k)) = n
        \<and> (\<forall>x \<in> set (m_data (elA ! i ! j ! k)). residue Q x)
        \<and> residue Q (elB ! i ! j ! k)
        \<and> (uint (elB ! i ! j ! k) - inner (map uint (m_data (elA ! i ! j ! k))) (map uint sv)) mod uint Q
            = (noise i j k + uint (svN ! i) * (int j * int base ^ k)) mod uint Q)"

lemma ks_loop_phase:
  fixes Q :: "'a::len word"
  assumes q: "0 < uint Q" and base: "1 < base" and dc: "unat Q \<le> base ^ dc"
    and ksk: "ksk_ok Q n N base dc sv svN noise elA elB"
    and st: "ks_inv Q n ab" and co: "\<forall>i<N. residue Q (coeffs ! i)"
  defines "digs \<equiv> \<lambda>i. ks_digits base dc (unat (coeffs ! i))"
  shows "ks_inv Q n (ks_loop Q n N base dc elA elB coeffs ab)"
    "ks_phase sv (ks_loop Q n N base dc elA elB coeffs ab) mod uint Q =
      (ks_phase sv ab - (\<Sum>i<N. uint (svN ! i) * uint (coeffs ! i))
        - (\<Sum>i<N. \<Sum>j<dc. noise i (digs i ! j) j)) mod uint Q"
proof -
  define c where "c = (\<lambda>i j. noise i (digs i ! j) j + uint (svN ! i) * (int (digs i ! j) * int base ^ j))"
  define step where "step = (\<lambda>i j (a, b). (map (\<lambda>k. ModSubFastEq (a ! k) (m_data (elA ! i ! (digs i ! j) ! j) ! k) Q) [0..<n],
                 ModSubFastEq b (elB ! i ! (digs i ! j) ! j) Q))"
  have lp: "ks_loop Q n N base dc elA elB coeffs ab = fold (\<lambda>i. fold (step i) [0..<dc]) [0..<N] ab"
    unfolding ks_loop_def step_def digs_def Let_def by simp
  have one: "ks_inv Q n (step i j s) \<and> ks_phase sv (step i j s) mod uint Q = (ks_phase sv s - c i j) mod uint Q"
    if "i < N" "j < dc" "ks_inv Q n s" for i j s
  proof -
    obtain a b where s: "s = (a, b)" by fastforce
    have d: "digs i ! j < base" unfolding digs_def using that base by (intro ks_digits_lt) auto
    note k = ksk [unfolded ksk_ok_def, rule_format, OF that(1) d that(2)]
    have "(ks_phase sv (a, b) - (uint (elB ! i ! (digs i ! j) ! j)
        - inner (map uint (m_data (elA ! i ! (digs i ! j) ! j))) (map uint sv))) mod uint Q
        = (ks_phase sv (a, b) - c i j) mod uint Q"
      unfolding c_def using k by (intro mod_diff_cong) auto
    then show ?thesis
      using ks_step(1) [of Q n a b "m_data (elA ! i ! (digs i ! j) ! j)" "elB ! i ! (digs i ! j) ! j"]
        ks_step(2) [of Q n a b "m_data (elA ! i ! (digs i ! j) ! j)" "elB ! i ! (digs i ! j) ! j" sv] k that(3) q
      by (simp add: s step_def)
  qed
  have row: "ks_inv Q n (fold (step i) [0..<dc] s) \<and>
      ks_phase sv (fold (step i) [0..<dc] s) mod uint Q = (ks_phase sv s - (\<Sum>j<dc. c i j)) mod uint Q"
    if "i < N" "ks_inv Q n s" for i s
    using fold_lowers [of "ks_inv Q n" s dc "step i" "ks_phase sv" "uint Q" "c i"] that one by auto
  note all = fold_lowers [of "ks_inv Q n" ab N "\<lambda>i. fold (step i) [0..<dc]" "ks_phase sv" "uint Q" "\<lambda>i. \<Sum>j<dc. c i j",
      OF st row]
  have sum: "(\<Sum>j<dc. c i j) = (\<Sum>j<dc. noise i (digs i ! j) j) + uint (svN ! i) * uint (coeffs ! i)"
    if "i < N" for i
  proof -
    have "unat (coeffs ! i) < base ^ dc"
      using co that dc unfolding residue_def by (metis order_less_le_trans unat_mono word_less_def)
    then have "(\<Sum>j<dc. digs i ! j * base ^ j) = unat (coeffs ! i)" unfolding digs_def by (rule ks_digits_sum)
    then have "(\<Sum>j<dc. int (digs i ! j) * int base ^ j) = uint (coeffs ! i)"
      by (metis (mono_tags, lifting) of_nat_mult of_nat_power of_nat_sum sum.cong uint_nat)
    then show ?thesis unfolding c_def sum.distrib by (simp add: sum_distrib_left [symmetric])
  qed
  have tot: "(\<Sum>i<N. \<Sum>j<dc. c i j)
      = (\<Sum>i<N. uint (svN ! i) * uint (coeffs ! i)) + (\<Sum>i<N. \<Sum>j<dc. noise i (digs i ! j) j)"
    unfolding sum.distrib [symmetric] using sum by (intro sum.cong) auto
  show "ks_inv Q n (ks_loop Q n N base dc elA elB coeffs ab)" unfolding lp by (rule all(1))
  show "ks_phase sv (ks_loop Q n N base dc elA elB coeffs ab) mod uint Q =
      (ks_phase sv ab - (\<Sum>i<N. uint (svN ! i) * uint (coeffs ! i))
        - (\<Sum>i<N. \<Sum>j<dc. noise i (digs i ! j) j)) mod uint Q"
    unfolding lp diff_diff_eq tot [symmetric] by (rule all(2))
qed

lemma length_digitsKS [simp]: "length (digitsKS b d v) = d"
  by (induction d arbitrary: v) simp_all

lemma digitsKS_nth: "k < d \<Longrightarrow> digitsKS b d v ! k = v * b ^ k"
proof (induction d arbitrary: v k)
  case (Suc d)
  then show ?case by (cases k) (simp_all add: mult_ac)
qed simp

lemma ksk_entry_value:
  fixes Q mu b :: "'a::len word"
  assumes m: "barrett_modulus Q" "ComputeMu Q = Inr mu"
    and r: "\<forall>x \<in> set a. residue Q x" "\<forall>x \<in> set sv. residue Q x" and len: "length a = n" "length sv = n"
    and b: "residue Q b" and fit: "LENGTH('a) = 32 \<or> (int n + 1) * uint Q \<le> 2 ^ LENGTH('a)"
  shows "uint (ksk_entry Q mu n a sv b) = (uint b + inner (map uint a) (map uint sv)) mod uint Q"
proof (cases "LENGTH('a) = 32")
  case True
  have "uint (dot_mod Q mu a sv n b) = (uint b + (\<Sum>i<n. uint (a ! i) * uint (sv ! i))) mod uint Q"
    using r len b by (intro dot_mod_value m) auto
  then show ?thesis using True len by (simp add: ksk_entry_def inner_as_sum)
next
  case False
  then have "uint b + int n * uint Q \<le> 2 ^ LENGTH('a)" using fit b by (simp add: residue_def algebra_simps)
  from dot_acc_mod [OF m r len this] show ?thesis
    using False by (simp add: ksk_entry_def ModEq_def uint_mod_eq)
qed

lemma ksk_gen_ok:
  fixes Q mu :: "'a::len word"
  assumes m: "barrett_modulus Q" "ComputeMu Q = Inr mu"
    and sv: "\<forall>x \<in> set sv. residue Q x" "length sv = n"
    and gA: "\<And>i j k. length (m_data (genA i j k)) = n \<and> (\<forall>x \<in> set (m_data (genA i j k)). residue Q x)"
    and fit: "LENGTH('a) = 32 \<or> (int n + 1) * uint Q \<le> 2 ^ LENGTH('a)"
    and pow: "int base ^ dc \<le> 2 ^ LENGTH('a)"
  shows "ksk_ok Q n N base dc sv svN (\<lambda>i j k. uint (genE i j k))
    (ksk_masks N base dc genA)
    (ksk_bodies Q mu n N base dc (digitsKS (of_nat base) dc 1) sv svN genA genE)"
  unfolding ksk_ok_def
proof (intro allI impI)
  fix i j k assume i: "i < N" and j: "j < base" and k: "k < dc"
  have ok: "modulus_ok Q" and pos: "0 < uint Q" using m(1) barrett_modulus_facts(2) by auto
  define w :: "'a word" where "w = MulFast (of_nat j) (digitsKS (of_nat base) dc 1 ! k)"
  have "int j * int base ^ k < int base * int base ^ k" using j by simp
  also have "\<dots> \<le> int base ^ dc"
    using j k power_increasing [of "Suc k" dc "int base"] by simp
  finally have lt: "int j * int base ^ k < 2 ^ LENGTH('a)" using pow by linarith
  have "w = word_of_int (int j * int base ^ k)"
    using k by (simp add: w_def MulFast_def digitsKS_nth mult.commute)
  then have w: "uint w = int j * int base ^ k" using lt by (simp only:) (rule word_of_uint_mod, simp_all)
  define b where "b = ModAdd (genE i j k) (ModMul (svN ! i) w Q) Q"
  have b: "uint b = (uint (genE i j k) + uint (svN ! i) * (int j * int base ^ k)) mod uint Q"
    unfolding b_def uint_ModAdd [OF ok] uint_ModMul [OF pos] w by (simp only: mod_add_right_eq)
  have br: "residue Q b" using b pos by (rule residue_uint_mod)
  let ?A = "ksk_masks N base dc genA ! i ! j ! k"
  let ?B = "ksk_bodies Q mu n N base dc (digitsKS (of_nat base) dc 1) sv svN genA genE ! i ! j ! k"
  have A: "?A = genA i j k" using i j k by (simp add: ksk_masks_def)
  have "?B = ksk_entry Q mu n (m_data (genA i j k)) sv b"
    using i j k by (simp add: ksk_bodies_def b_def w_def Let_def)
  then have B: "uint ?B = (uint b + inner (map uint (m_data (genA i j k))) (map uint sv)) mod uint Q"
    using gA [of i j k] by (simp only:) (intro ksk_entry_value m sv br fit; simp)
  have "(uint ?B - inner (map uint (m_data ?A)) (map uint sv)) mod uint Q = uint b mod uint Q"
    unfolding A B by (simp add: mod_diff_left_eq)
  then show "length (m_data ?A) = n \<and> (\<forall>x \<in> set (m_data ?A). residue Q x) \<and> residue Q ?B
     \<and> (uint ?B - inner (map uint (m_data ?A)) (map uint sv)) mod uint Q
         = (uint (genE i j k) + uint (svN ! i) * (int j * int base ^ k)) mod uint Q"
    using gA [of i j k] residue_uint_mod [OF B pos] A b by simp
qed

section \<open>The interface of a linear scheme\<close>

text \<open>
  A scheme whose ciphertexts have a phase under a key, modulo the modulus of the key, and whose
  addition and subtraction act on the phases.  \<open>encodes\<close> relates a ciphertext to its message and
  its noise; decryption and the noise of the homomorphic operations are consequences.
\<close>

locale linear_scheme =
  fixes modl :: "'k \<Rightarrow> int"
    and valid :: "'k \<Rightarrow> 'ct \<Rightarrow> bool"
    and phase :: "'k \<Rightarrow> 'ct \<Rightarrow> int"
    and addc subc :: "'ct \<Rightarrow> 'ct \<Rightarrow> 'ct result"
  assumes modl_pos: "valid k x \<Longrightarrow> 0 < modl k"
    and add_ok: "\<lbrakk> valid k x; valid k y \<rbrakk> \<Longrightarrow>
      \<exists>z. addc x y = Inr z \<and> valid k z \<and> phase k z mod modl k = (phase k x + phase k y) mod modl k"
    and sub_ok: "\<lbrakk> valid k x; valid k y \<rbrakk> \<Longrightarrow>
      \<exists>z. subc x y = Inr z \<and> valid k z \<and> phase k z mod modl k = (phase k x - phase k y) mod modl k"
begin

definition encodes :: "'k \<Rightarrow> int \<Rightarrow> 'ct \<Rightarrow> int \<Rightarrow> int \<Rightarrow> bool" where
  "encodes k p c m e \<longleftrightarrow> valid k c \<and> phase k c mod modl k = (m * (modl k div p) + e) mod modl k"

lemma decode_phase:
  assumes "encodes k p c m e" "0 < p" "0 \<le> m" "m < p" "noise_ok (modl k) p m e"
  shows "decode (modl k) p (phase k c) = m"
  using assms modl_pos [of k c] by (intro decode_correct) (auto simp: encodes_def)

lemma add_encodes:
  assumes "encodes k p x m1 e1" "encodes k p y m2 e2"
  shows "\<exists>z. addc x y = Inr z \<and> encodes k p z (m1 + m2) (e1 + e2)"
proof -
  obtain z where z: "addc x y = Inr z" "valid k z"
    "phase k z mod modl k = (phase k x + phase k y) mod modl k"
    using add_ok assms unfolding encodes_def by blast
  have "(phase k x + phase k y) mod modl k
      = ((m1 * (modl k div p) + e1) + (m2 * (modl k div p) + e2)) mod modl k"
    using assms unfolding encodes_def by (intro mod_add_cong) auto
  then have "encodes k p z (m1 + m2) (e1 + e2)"
    unfolding encodes_def using z by (simp add: algebra_simps)
  with z show ?thesis by blast
qed

lemma sub_encodes:
  assumes "encodes k p x m1 e1" "encodes k p y m2 e2"
  shows "\<exists>z. subc x y = Inr z \<and> encodes k p z (m1 - m2) (e1 - e2)"
proof -
  obtain z where z: "subc x y = Inr z" "valid k z"
    "phase k z mod modl k = (phase k x - phase k y) mod modl k"
    using sub_ok assms unfolding encodes_def by blast
  have "(phase k x - phase k y) mod modl k
      = ((m1 * (modl k div p) + e1) - (m2 * (modl k div p) + e2)) mod modl k"
    using assms unfolding encodes_def by (intro mod_diff_cong) auto
  then have "encodes k p z (m1 - m2) (e1 - e2)"
    unfolding encodes_def using z by (simp add: algebra_simps)
  with z show ?thesis by blast
qed

text \<open>Messages count modulo the plaintext modulus when it divides the ciphertext modulus.\<close>

lemma encodes_mod:
  assumes "encodes k p c m e" "p dvd modl k"
  shows "encodes k p c (m mod p) e"
proof -
  have "m * (modl k div p) = (m div p * p + m mod p) * (modl k div p)" by simp
  also have "\<dots> = (m div p) * (p * (modl k div p)) + (m mod p) * (modl k div p)"
    by (simp only: distrib_right mult.assoc)
  also have "p * (modl k div p) = modl k" using assms(2) by simp
  finally have "m * (modl k div p) + e = (m mod p) * (modl k div p) + e + (m div p) * modl k" by simp
  then have "(m * (modl k div p) + e) mod modl k = ((m mod p) * (modl k div p) + e) mod modl k"
    by (simp only: mod_mult_self1)
  then show ?thesis using assms(1) by (simp add: encodes_def)
qed

lemma decode_sum:
  assumes "encodes k p x m1 e1" "encodes k p y m2 e2" "p dvd modl k" "0 < p"
    "noise_ok (modl k) p ((m1 + m2) mod p) (e1 + e2)"
  shows "\<exists>z. addc x y = Inr z \<and> decode (modl k) p (phase k z) = (m1 + m2) mod p"
proof -
  obtain z where z: "addc x y = Inr z" "encodes k p z (m1 + m2) (e1 + e2)"
    using add_encodes [OF assms(1,2)] by blast
  have "decode (modl k) p (phase k z) = (m1 + m2) mod p"
    using assms by (intro decode_phase [OF encodes_mod [OF z(2)]]) auto
  with z show ?thesis by blast
qed

end

end
