(* ===== verification/NbTheory.thy ===== *)
theory NbTheory
  imports SchemeLib
begin

text \<open>
  Number theory, \<^verbatim>\<open>src/src/core/include/math/nbtheory.h\<close> and \<^verbatim>\<open>nbtheory-impl.h\<close>.

  \<^item> \<open>ReverseBits\<close>, the byte-table bit reversal that orders the tables of the number theoretic
    transform, with the \<^verbatim>\<open>int\<close> arithmetic of the source: the case of four bytes shifts a signed
    value.
\<close>

section \<open>Bit reversal\<close>

definition reverse_table :: "8 word list" where
  "reverse_table =
    [0x00, 0x80, 0x40, 0xc0, 0x20, 0xa0, 0x60, 0xe0, 0x10, 0x90, 0x50, 0xd0, 0x30, 0xb0, 0x70, 0xf0,
     0x08, 0x88, 0x48, 0xc8, 0x28, 0xa8, 0x68, 0xe8, 0x18, 0x98, 0x58, 0xd8, 0x38, 0xb8, 0x78, 0xf8,
     0x04, 0x84, 0x44, 0xc4, 0x24, 0xa4, 0x64, 0xe4, 0x14, 0x94, 0x54, 0xd4, 0x34, 0xb4, 0x74, 0xf4,
     0x0c, 0x8c, 0x4c, 0xcc, 0x2c, 0xac, 0x6c, 0xec, 0x1c, 0x9c, 0x5c, 0xdc, 0x3c, 0xbc, 0x7c, 0xfc,
     0x02, 0x82, 0x42, 0xc2, 0x22, 0xa2, 0x62, 0xe2, 0x12, 0x92, 0x52, 0xd2, 0x32, 0xb2, 0x72, 0xf2,
     0x0a, 0x8a, 0x4a, 0xca, 0x2a, 0xaa, 0x6a, 0xea, 0x1a, 0x9a, 0x5a, 0xda, 0x3a, 0xba, 0x7a, 0xfa,
     0x06, 0x86, 0x46, 0xc6, 0x26, 0xa6, 0x66, 0xe6, 0x16, 0x96, 0x56, 0xd6, 0x36, 0xb6, 0x76, 0xf6,
     0x0e, 0x8e, 0x4e, 0xce, 0x2e, 0xae, 0x6e, 0xee, 0x1e, 0x9e, 0x5e, 0xde, 0x3e, 0xbe, 0x7e, 0xfe,
     0x01, 0x81, 0x41, 0xc1, 0x21, 0xa1, 0x61, 0xe1, 0x11, 0x91, 0x51, 0xd1, 0x31, 0xb1, 0x71, 0xf1,
     0x09, 0x89, 0x49, 0xc9, 0x29, 0xa9, 0x69, 0xe9, 0x19, 0x99, 0x59, 0xd9, 0x39, 0xb9, 0x79, 0xf9,
     0x05, 0x85, 0x45, 0xc5, 0x25, 0xa5, 0x65, 0xe5, 0x15, 0x95, 0x55, 0xd5, 0x35, 0xb5, 0x75, 0xf5,
     0x0d, 0x8d, 0x4d, 0xcd, 0x2d, 0xad, 0x6d, 0xed, 0x1d, 0x9d, 0x5d, 0xdd, 0x3d, 0xbd, 0x7d, 0xfd,
     0x03, 0x83, 0x43, 0xc3, 0x23, 0xa3, 0x63, 0xe3, 0x13, 0x93, 0x53, 0xd3, 0x33, 0xb3, 0x73, 0xf3,
     0x0b, 0x8b, 0x4b, 0xcb, 0x2b, 0xab, 0x6b, 0xeb, 0x1b, 0x9b, 0x5b, 0xdb, 0x3b, 0xbb, 0x7b, 0xfb,
     0x07, 0x87, 0x47, 0xc7, 0x27, 0xa7, 0x67, 0xe7, 0x17, 0x97, 0x57, 0xd7, 0x37, 0xb7, 0x77, 0xf7,
     0x0f, 0x8f, 0x4f, 0xcf, 0x2f, 0xaf, 0x6f, 0xef, 0x1f, 0x9f, 0x5f, 0xdf, 0x3f, 0xbf, 0x7f, 0xff]"

definition reverse_byte :: "8 word \<Rightarrow> 8 word" where
  "reverse_byte x = reverse_table ! unat x"

definition shift_trick :: "nat list" where
  "shift_trick = [0, 7, 6, 5, 4, 3, 2, 1]"

text \<open>
  The byte \<open>k\<close> of the argument, reversed and promoted to \<^verbatim>\<open>int\<close>.  The right shift of an \<^verbatim>\<open>int\<close> is
  arithmetic.
\<close>

definition rbyte :: "32 word \<Rightarrow> nat \<Rightarrow> 32 word" where
  "rbyte num k = ucast (reverse_byte (ucast (drop_bit (8 * k) num AND 0xff)))"

definition ReverseBits :: "32 word \<Rightarrow> nat \<Rightarrow> 32 word" where
  "ReverseBits num msb =
     (let msbb = msb div 8 + (if msb mod 8 \<noteq> 0 then 1 else 0);
          sh = shift_trick ! (msb mod 8)
      in if msbb = 1 then signed_drop_bit sh (rbyte num 0)
         else if msbb = 2 then signed_drop_bit sh (push_bit 8 (rbyte num 0) OR rbyte num 1)
         else if msbb = 3 then
           signed_drop_bit sh (push_bit 16 (rbyte num 0) OR push_bit 8 (rbyte num 1) OR rbyte num 2)
         else if msbb = 4 then
           signed_drop_bit sh (push_bit 24 (rbyte num 0) OR push_bit 16 (rbyte num 1)
             OR push_bit 8 (rbyte num 2) OR rbyte num 3)
         else - 1)"

lemma reverse_table_bits:
  "list_all (\<lambda>(x, y :: 8 word). list_all (\<lambda>i. bit y i = bit (word_of_nat x :: 8 word) (7 - i)) [0..<8])
     (enumerate 0 reverse_table)"
  by code_simp

lemma bit_reverse_byte: "bit (reverse_byte x) i \<longleftrightarrow> i < 8 \<and> bit x (7 - i)"
proof (cases "i < 8")
  case True
  have "unat x < length reverse_table" using unsigned_less [of x, where 'a = nat] by (simp add: reverse_table_def)
  then have "(unat x, reverse_table ! unat x) \<in> set (enumerate 0 reverse_table)"
    by (simp add: in_set_enumerate_eq)
  with reverse_table_bits have "list_all (\<lambda>i. bit (reverse_table ! unat x) i
      = bit (word_of_nat (unat x) :: 8 word) (7 - i)) [0..<8]"
    by (auto simp: list_all_iff)
  then show ?thesis using True by (simp add: list_all_iff reverse_byte_def)
next
  case False
  then show ?thesis by (auto dest: bit_imp_le_length)
qed

lemma bit_rbyte: "bit (rbyte num k) i \<longleftrightarrow> i < 8 \<and> bit num (8 * k + 7 - i)"
proof -
  have ff: "(0xff :: 32 word) = mask 8" by (simp add: mask_eq_exp_minus_1)
  show ?thesis
    unfolding rbyte_def ff by (auto simp: bit_ucast_iff bit_reverse_byte bit_drop_bit_eq bit_and_iff bit_mask_iff)
qed

text \<open>Before the final shift, the \<open>c\<close> bytes hold the reversal of the lowest \<open>8 * c\<close> bits.\<close>

lemma bit_rbytes:
  "bit (rbyte num 0) j \<longleftrightarrow> j < 8 \<and> bit num (7 - j)"
  "bit (push_bit 8 (rbyte num 0) OR rbyte num 1) j \<longleftrightarrow> j < 16 \<and> bit num (15 - j)"
  "bit (push_bit 16 (rbyte num 0) OR push_bit 8 (rbyte num 1) OR rbyte num 2) j
     \<longleftrightarrow> j < 24 \<and> bit num (23 - j)"
  "bit (push_bit 24 (rbyte num 0) OR push_bit 16 (rbyte num 1) OR push_bit 8 (rbyte num 2) OR rbyte num 3) j
     \<longleftrightarrow> j < 32 \<and> bit num (31 - j)"
proof -
  consider "j < 8" | "8 \<le> j" "j < 16" | "16 \<le> j" "j < 24" | "24 \<le> j" "j < 32" | "32 \<le> j"
    by linarith
  note c = this
  show "bit (rbyte num 0) j \<longleftrightarrow> j < 8 \<and> bit num (7 - j)"
    using c by cases (simp_all add: bit_rbyte)
  show "bit (push_bit 8 (rbyte num 0) OR rbyte num 1) j \<longleftrightarrow> j < 16 \<and> bit num (15 - j)"
    using c by cases (auto simp: bit_or_iff bit_push_bit_iff bit_rbyte)
  show "bit (push_bit 16 (rbyte num 0) OR push_bit 8 (rbyte num 1) OR rbyte num 2) j
      \<longleftrightarrow> j < 24 \<and> bit num (23 - j)"
    using c by cases (auto simp: bit_or_iff bit_push_bit_iff bit_rbyte)
  show "bit (push_bit 24 (rbyte num 0) OR push_bit 16 (rbyte num 1) OR push_bit 8 (rbyte num 2) OR rbyte num 3) j
      \<longleftrightarrow> j < 32 \<and> bit num (31 - j)"
    using c by cases (auto simp: bit_or_iff bit_push_bit_iff bit_rbyte)
qed

text \<open>The reversal of the lowest \<open>L\<close> bits as a function on natural numbers.\<close>

primrec rev_bits :: "nat \<Rightarrow> nat \<Rightarrow> nat" where
  "rev_bits 0 k = 0"
| "rev_bits (Suc L) k = (k mod 2) * 2 ^ L + rev_bits L (k div 2)"

lemma rev_bits_lt: "rev_bits L k < 2 ^ L"
proof (induction L arbitrary: k)
  case (Suc L)
  have "(k mod 2) * 2 ^ L \<le> 2 ^ L" by (cases "k mod 2 = 0") auto
  then show ?case using Suc [of "k div 2"] by (simp only: rev_bits.simps power_Suc)
qed simp

lemma bit_rev_bits: "bit (rev_bits L k) i \<longleftrightarrow> i < L \<and> bit k (L - 1 - i)"
proof (induction L arbitrary: k i)
  case (Suc L)
  have "push_bit L (k mod 2) + rev_bits L (k div 2) = push_bit L (k mod 2) OR rev_bits L (k div 2)"
    by (rule disjunctive_add) (auto simp: Suc bit_push_bit_iff)
  then have e: "rev_bits (Suc L) k = push_bit L (k mod 2) OR rev_bits L (k div 2)"
    by (simp add: push_bit_eq_mult)
  have b: "bit (k mod 2) j \<longleftrightarrow> j = 0 \<and> bit k 0" for j
    by (cases j) (auto simp: mod2_eq_if bit_0 bit_Suc)
  have "bit (rev_bits (Suc L) k) i \<longleftrightarrow> i = L \<and> bit k 0 \<or> i < L \<and> bit (k div 2) (L - 1 - i)"
    unfolding e bit_or_iff bit_push_bit_iff b Suc by auto
  moreover have "bit (k div 2) (L - 1 - i) = bit k (L - i)" if "i < L"
  proof -
    have "L - i = Suc (L - 1 - i)" using that by simp
    then show ?thesis by (simp only: bit_Suc)
  qed
  ultimately show ?case by (cases "i = L") auto
qed simp

lemma rev_bits_eqI:
  assumes "\<And>i. bit a i \<longleftrightarrow> i < L \<and> bit k (L - 1 - i)"
  shows "a = rev_bits L k"
  by (rule bit_eqI) (simp add: assms bit_rev_bits)

lemma rev_bits_rev_bits: "k < 2 ^ L \<Longrightarrow> rev_bits L (rev_bits L k) = k"
proof -
  assume k: "k < 2 ^ L"
  then have "bit k i \<Longrightarrow> i < L" for i
    by (metis bit_take_bit_iff take_bit_nat_eq_self)
  note lt = this
  have "bit k i \<longleftrightarrow> i < L \<and> bit (rev_bits L k) (L - 1 - i)" for i
    using lt [of i] by (cases "i < L") (auto simp: bit_rev_bits)
  then show ?thesis by (rule rev_bits_eqI [symmetric])
qed

lemma rev_bits_double: "k < 2 ^ L \<Longrightarrow> rev_bits (Suc L) k = 2 * rev_bits L k"
proof (induction L arbitrary: k)
  case (Suc L)
  then have "rev_bits (Suc L) (k div 2) = 2 * rev_bits L (k div 2)" by simp
  then show ?case by (subst rev_bits.simps(2)) (simp del: rev_bits.simps(2), simp)
qed simp

lemma bit_shifted_reversal:
  fixes W num :: "32 word"
  assumes W: "\<And>j. bit W j \<longleftrightarrow> j < C \<and> bit num (C - 1 - j)" and "C < 32 \<or> sh = 0" "sh < C" "C \<le> 32"
  shows "bit (signed_drop_bit sh W) i \<longleftrightarrow> i < C - sh \<and> bit num (C - sh - 1 - i)"
proof (cases "32 - sh \<le> i \<and> i < 32")
  case True
  then have "\<not> bit W (31 :: nat)" "\<not> i < C - sh" using assms(2-4) by (auto simp: W)
  then show ?thesis using True by (simp add: bit_signed_drop_bit_iff)
next
  case False
  then have "bit (signed_drop_bit sh W) i \<longleftrightarrow> bit W (i + sh)"
    by (auto simp: bit_signed_drop_bit_iff add.commute)
  moreover have "C - sh - 1 - i = C - 1 - (i + sh)" by simp
  ultimately show ?thesis using assms(3) by (auto simp: W)
qed

lemma unat_ReverseBits:
  assumes "0 < L" "L \<le> 24 \<or> L = 32"
  shows "unat (ReverseBits num L) = rev_bits L (unat num)"
proof -
  define c where "c = L div 8 + (if L mod 8 \<noteq> 0 then 1 else 0)"
  obtain a r where L: "L = 8 * a + r" "r < 8"
    by (metis mod_less_divisor mult_div_mod_eq zero_less_numeral)
  then have "r \<in> {0, 1, 2, 3, 4, 5, 6, 7}" by auto
  then have sh: "shift_trick ! (L mod 8) = 8 * c - L"
    by (auto simp: shift_trick_def L(1) c_def)
  have "c = a + (if r = 0 then 0 else 1)" using L by (auto simp: c_def)
  then have c: "0 < c" "L \<le> 8 * c" "8 * c < L + 8"
    using assms(1) L by (cases "r = 0"; simp)+
  have "bit (ReverseBits num L) i \<longleftrightarrow> i < L \<and> bit num (L - 1 - i)" for i
  proof -
    have *: "bit (ReverseBits num L) i \<longleftrightarrow> i < L \<and> bit num (L - 1 - i)"
      if "\<And>j. bit W j \<longleftrightarrow> j < 8 * c \<and> bit num (8 * c - 1 - j)" "ReverseBits num L = signed_drop_bit (8 * c - L) W"
      for W
    proof -
      have "8 * c < 32 \<or> 8 * c - L = 0" "8 * c - L < 8 * c" "8 * c \<le> 32" "8 * c - (8 * c - L) = L"
        using assms c by auto
      then show ?thesis
        unfolding that(2) using bit_shifted_reversal [OF that(1), of "8 * c - L" i] by simp
    qed
    consider "c = 1" | "c = 2" | "c = 3" | "c = 4" using assms(2) c by linarith
    then show ?thesis
    proof cases
      case 1
      show ?thesis by (rule * [of "rbyte num 0"])
         (simp_all only: 1 bit_rbytes ReverseBits_def Let_def sh c_def [symmetric], simp_all)
    next
      case 2
      show ?thesis by (rule * [of "push_bit 8 (rbyte num 0) OR rbyte num 1"])
         (simp_all only: 2 bit_rbytes ReverseBits_def Let_def sh c_def [symmetric], simp_all)
    next
      case 3
      show ?thesis by (rule * [of "push_bit 16 (rbyte num 0) OR push_bit 8 (rbyte num 1) OR rbyte num 2"])
         (simp_all only: 3 bit_rbytes ReverseBits_def Let_def sh c_def [symmetric], simp_all)
    next
      case 4
      show ?thesis by (rule * [of "push_bit 24 (rbyte num 0) OR push_bit 16 (rbyte num 1)
            OR push_bit 8 (rbyte num 2) OR rbyte num 3"])
         (simp_all only: 4 bit_rbytes ReverseBits_def Let_def sh c_def [symmetric], simp_all)
    qed
  qed
  then show ?thesis
    by (intro rev_bits_eqI) (auto simp: bit_unsigned_iff dest: bit_imp_le_length)
qed

section \<open>Properties\<close>



end
