(* ===== verification/NTT.thy ===== *)
theory NTT
  imports NbTheory
begin

text \<open>
  The number theoretic transform of \<^verbatim>\<open>src/src/core/include/math/hal/intnat/transformnat-impl.h\<close>, with
  which polynomials are multiplied modulo \<open>X ^ n + 1\<close>.

  \<^item> \<open>bf_at\<close>, \<open>bf_stage\<close>, \<open>fwd_loop\<close>, \<open>inv_loop\<close>: the in-place loops of
    \<^verbatim>\<open>NumberTheoreticTransformNat\<close> over an array.  Each transform supplies its butterfly, and the
    omega that a block reads from the tables; an index outside of the array or of a table is an
    error value.  Lengths are natural numbers; the counters of type \<^verbatim>\<open>usint\<close> do not wrap for
    lengths below \<open>2 ^ 31\<close>.
  \<^item> the transforms with Barrett's constant, with Shoup's constants, and their variants that write
    to a result vector and skip zero factors.
  \<^item> the locales \<open>ntt_forward\<close> and \<open>ntt_pair\<close>: the contract of the butterflies, under which a forward
    transform evaluates the polynomial at the roots and an inverse transform undoes it.
\<close>

unbundle bit_operations_syntax

section \<open>Butterflies and loops\<close>

text \<open>The forward butterfly of a block, after the product \<open>omegaFactor\<close> is formed.\<close>

definition fwd_butterfly :: "'a::len word \<Rightarrow> ('a word \<Rightarrow> 'a word) \<Rightarrow> 'a word \<Rightarrow> 'a word \<Rightarrow> 'a word \<times> 'a word" where
  "fwd_butterfly modulus mul loVal hiElem =
     (let omegaFactor = mul hiElem;
          hiVal = loVal + omegaFactor;
          hiVal = (if hiVal \<ge> modulus then hiVal - modulus else hiVal);
          loVal = (if loVal < omegaFactor then loVal + modulus else loVal);
          loVal = loVal - omegaFactor
      in (hiVal, loVal))"

text \<open>The variant of the transforms with a separate result.\<close>

definition fwd_butterfly_skip :: "'a::len word \<Rightarrow> ('a word \<Rightarrow> 'a word) \<Rightarrow> 'a word \<Rightarrow> 'a word \<Rightarrow> 'a word \<times> 'a word" where
  "fwd_butterfly_skip modulus mul loVal hiElem =
     (if hiElem \<noteq> 0 then fwd_butterfly modulus mul loVal hiElem else (loVal, loVal))"

definition inv_butterfly :: "'a::len word \<Rightarrow> ('a word \<Rightarrow> 'a word) \<Rightarrow> 'a word \<Rightarrow> 'a word \<Rightarrow> 'a word \<times> 'a word" where
  "inv_butterfly modulus mul loVal hiVal =
     (let omegaFactor = loVal;
          omegaFactor = (if omegaFactor < hiVal then omegaFactor + modulus else omegaFactor);
          omegaFactor = omegaFactor - hiVal;
          loVal = loVal + hiVal;
          loVal = (if loVal \<ge> modulus then loVal - modulus else loVal)
      in (loVal, mul omegaFactor))"

definition table_at :: "'a::len nvec \<Rightarrow> nat \<Rightarrow> 'a word result" where
  "table_at tab i = (if i < length (m_data tab) then Inr (m_data tab ! i) else Inl undefined_behaviour)"

definition bf_at :: "('a word \<Rightarrow> 'a word \<Rightarrow> 'a word \<times> 'a word) \<Rightarrow> nat \<Rightarrow> nat \<Rightarrow> 'a::len word list \<Rightarrow> 'a word list result" where
  "bf_at f indexLo indexHi xs =
     (if indexLo < length xs \<and> indexHi < length xs
      then let (a, b) = f (xs ! indexLo) (xs ! indexHi) in Inr (xs[indexLo := a, indexHi := b])
      else Inl undefined_behaviour)"

text \<open>
  One value of \<open>m\<close>: the loop over \<open>i\<close> reads the omega of its block at \<open>m + i\<close> and runs over the pairs
  \<open>(indexLo, indexLo + t)\<close>.
\<close>

definition bf_stage ::
  "(nat \<Rightarrow> ('a word \<Rightarrow> 'a word \<Rightarrow> 'a word \<times> 'a word) result) \<Rightarrow> nat \<Rightarrow> nat \<Rightarrow> nat \<Rightarrow> 'a::len word list
     \<Rightarrow> 'a word list result" where
  "bf_stage omega m t logt xs =
     foldR (\<lambda>i xs.
       let j1 = push_bit logt i; j2 = j1 + t
       in bindR (omega (m + i)) (\<lambda>f. foldR (\<lambda>indexLo. bf_at f indexLo (indexLo + t)) [j1..<j2] xs))
     [0..<m] xs"

function fwd_loop ::
  "(nat \<Rightarrow> ('a word \<Rightarrow> 'a word \<Rightarrow> 'a word \<times> 'a word) result) \<Rightarrow> nat \<Rightarrow> nat \<Rightarrow> nat \<Rightarrow> nat \<Rightarrow> 'a::len word list
     \<Rightarrow> 'a word list result" where
  "fwd_loop omega n m t logt xs =
     (if m = 0 \<or> \<not> m < n then Inr xs
      else bindR (bf_stage omega m t logt xs) (fwd_loop omega n (2 * m) (t div 2) (logt - 1)))"
  by pat_completeness auto
termination
  by (relation "measure (\<lambda>(omega, n, m, t, logt, xs). n - m)") auto

fun inv_loop ::
  "(nat \<Rightarrow> ('a word \<Rightarrow> 'a word \<Rightarrow> 'a word \<times> 'a word) result) \<Rightarrow> nat \<Rightarrow> nat \<Rightarrow> nat \<Rightarrow> 'a::len word list
     \<Rightarrow> 'a word list result" where
  "inv_loop omega m t logt xs =
     (if m = 0 then Inr xs
      else bindR (bf_stage omega m t logt xs) (inv_loop omega (m div 2) (2 * t) (logt + 1)))"

declare fwd_loop.simps [simp del] inv_loop.simps [simp del]

definition usint_MSB :: "nat \<Rightarrow> nat" where
  "usint_MSB x = GetMSB (word_of_nat x :: 32 word)"

section \<open>The transforms of NumberTheoreticTransformNat\<close>

text \<open>The omegas: read from one table and multiplied with Barrett's constant, or from two tables.\<close>

definition omega_mu ::
  "('a word \<Rightarrow> ('a word \<Rightarrow> 'a word) \<Rightarrow> 'a word \<Rightarrow> 'a word \<Rightarrow> 'a word \<times> 'a word) \<Rightarrow> 'a::len word \<Rightarrow> 'a word
     \<Rightarrow> 'a nvec \<Rightarrow> nat \<Rightarrow> ('a word \<Rightarrow> 'a word \<Rightarrow> 'a word \<times> 'a word) result" where
  "omega_mu butterfly modulus mu tab k =
     bindR (table_at tab k) (\<lambda>omega.
       Inr (butterfly modulus (\<lambda>x. ModMulFastEq_mu x omega modulus mu)))"

definition omega_precon ::
  "('a word \<Rightarrow> ('a word \<Rightarrow> 'a word) \<Rightarrow> 'a word \<Rightarrow> 'a word \<Rightarrow> 'a word \<times> 'a word) \<Rightarrow> 'a::len word
     \<Rightarrow> 'a nvec \<Rightarrow> 'a nvec \<Rightarrow> nat \<Rightarrow> ('a word \<Rightarrow> 'a word \<Rightarrow> 'a word \<times> 'a word) result" where
  "omega_precon butterfly modulus tab precon k =
     bindR (table_at tab k) (\<lambda>omega. bindR (table_at precon k) (\<lambda>preconOmega.
       Inr (butterfly modulus (\<lambda>x. ModMulFastConstEq x omega modulus preconOmega))))"

definition ForwardTransformToBitReverseInPlace_mu :: "'a::len nvec \<Rightarrow> 'a nvec \<Rightarrow> 'a nvec result" where
  "ForwardTransformToBitReverseInPlace_mu rootOfUnityTable element =
     (let n = length (m_data element); modulus = m_modulus element; t = n div 2
      in bindR (ComputeMu modulus) (\<lambda>mu.
         bindR (fwd_loop (omega_mu fwd_butterfly modulus mu rootOfUnityTable) n 1 t (usint_MSB t) (m_data element))
           (\<lambda>xs. Inr (element \<lparr> m_data := xs \<rparr>))))"

definition copy_element :: "'a::len nvec \<Rightarrow> 'a nvec \<Rightarrow> 'a nvec result" where
  "copy_element element res =
     throwIf (length (m_data res) \<noteq> length (m_data element)) math_error
       (bindR (SetModulus res (m_modulus element)) (\<lambda>res. Inr (res \<lparr> m_data := m_data element \<rparr>)))"

definition ForwardTransformToBitReverse_mu :: "'a::len nvec \<Rightarrow> 'a nvec \<Rightarrow> 'a nvec \<Rightarrow> 'a nvec result" where
  "ForwardTransformToBitReverse_mu element rootOfUnityTable res =
     throwIf (length (m_data res) \<noteq> length (m_data element)) math_error
       (bindR (ComputeMu (m_modulus element)) (\<lambda>mu.
        bindR (copy_element element res) (\<lambda>res.
        let n = length (m_data element); modulus = m_modulus element; t = n div 2
        in bindR (fwd_loop (omega_mu fwd_butterfly_skip modulus mu rootOfUnityTable) n 1 t (usint_MSB t) (m_data res))
             (\<lambda>xs. Inr (res \<lparr> m_data := xs \<rparr>)))))"

text \<open>The last stage of the in-place transform with Shoup's constants is a loop of its own.\<close>

definition ForwardTransformToBitReverseInPlace :: "'a::len nvec \<Rightarrow> 'a nvec \<Rightarrow> 'a nvec \<Rightarrow> 'a nvec result" where
  "ForwardTransformToBitReverseInPlace rootOfUnityTable preconRootOfUnityTable element =
     (let modulus = m_modulus element; n = length (m_data element) div 2;
          omega = omega_precon fwd_butterfly modulus rootOfUnityTable preconRootOfUnityTable
      in bindR (fwd_loop omega n 1 n (usint_MSB n) (m_data element)) (\<lambda>xs.
         bindR (foldR (\<lambda>k xs. bindR (omega (k + n)) (\<lambda>f. bf_at f (2 * k) (2 * k + 1) xs)) [0..<n] xs)
           (\<lambda>xs. Inr (element \<lparr> m_data := xs \<rparr>))))"

definition ForwardTransformToBitReverse :: "'a::len nvec \<Rightarrow> 'a nvec \<Rightarrow> 'a nvec \<Rightarrow> 'a nvec \<Rightarrow> 'a nvec result" where
  "ForwardTransformToBitReverse element rootOfUnityTable preconRootOfUnityTable res =
     bindR (copy_element element res) (\<lambda>res.
       let n = length (m_data element); modulus = m_modulus element; t = n div 2
       in bindR (fwd_loop (omega_precon fwd_butterfly_skip modulus rootOfUnityTable preconRootOfUnityTable)
              n 1 t (usint_MSB t) (m_data res))
            (\<lambda>xs. Inr (res \<lparr> m_data := xs \<rparr>)))"

definition InverseTransformFromBitReverseInPlace_mu :: "'a::len nvec \<Rightarrow> 'a word \<Rightarrow> 'a nvec \<Rightarrow> 'a nvec result" where
  "InverseTransformFromBitReverseInPlace_mu rootOfUnityInverseTable cycloOrderInv element =
     (let n = length (m_data element); modulus = m_modulus element
      in bindR (ComputeMu modulus) (\<lambda>mu.
         bindR (inv_loop (omega_mu inv_butterfly modulus mu rootOfUnityInverseTable) (n div 2) 1 1 (m_data element))
           (\<lambda>xs. Inr (element \<lparr> m_data := map (\<lambda>x. ModMulFastEq_mu x cycloOrderInv modulus mu) xs \<rparr>))))"

definition InverseTransformFromBitReverse_mu ::
  "'a::len nvec \<Rightarrow> 'a nvec \<Rightarrow> 'a word \<Rightarrow> 'a nvec \<Rightarrow> 'a nvec result" where
  "InverseTransformFromBitReverse_mu element rootOfUnityInverseTable cycloOrderInv res =
     bindR (copy_element element res)
       (InverseTransformFromBitReverseInPlace_mu rootOfUnityInverseTable cycloOrderInv)"

text \<open>The first stage of the inverse transform scales by the inverse of the length as well.\<close>

definition inv_butterfly_scaled ::
  "'a::len word \<Rightarrow> 'a word \<Rightarrow> 'a word \<Rightarrow> ('a word \<Rightarrow> 'a word) \<Rightarrow> 'a word \<Rightarrow> 'a word \<Rightarrow> 'a word \<times> 'a word" where
  "inv_butterfly_scaled cycloOrderInv preconCycloOrderInv modulus mul loVal hiVal =
     (let (loVal, omegaFactor) = inv_butterfly modulus mul loVal hiVal
      in (ModMulFastConstEq loVal cycloOrderInv modulus preconCycloOrderInv,
          ModMulFastConstEq omegaFactor cycloOrderInv modulus preconCycloOrderInv))"

definition InverseTransformFromBitReverseInPlace ::
  "'a::len nvec \<Rightarrow> 'a nvec \<Rightarrow> 'a word \<Rightarrow> 'a word \<Rightarrow> 'a nvec \<Rightarrow> 'a nvec result" where
  "InverseTransformFromBitReverseInPlace rootOfUnityInverseTable preconRootOfUnityInverseTable
       cycloOrderInv preconCycloOrderInv element =
     (let modulus = m_modulus element; n = length (m_data element);
          omega = (\<lambda>butterfly. omega_precon butterfly modulus rootOfUnityInverseTable preconRootOfUnityInverseTable);
          scaled = inv_butterfly_scaled cycloOrderInv preconCycloOrderInv
      in bindR (foldR (\<lambda>k xs. bindR (omega scaled ((2 * k + n) div 2)) (\<lambda>f. bf_at f (2 * k) (2 * k + 1) xs))
              [0..<(n + 1) div 2] (m_data element)) (\<lambda>xs.
         bindR (inv_loop (omega inv_butterfly) (n div 4) 2 2 xs)
           (\<lambda>xs. Inr (element \<lparr> m_data := xs \<rparr>))))"

definition InverseTransformFromBitReverse ::
  "'a::len nvec \<Rightarrow> 'a nvec \<Rightarrow> 'a nvec \<Rightarrow> 'a word \<Rightarrow> 'a word \<Rightarrow> 'a nvec \<Rightarrow> 'a nvec result" where
  "InverseTransformFromBitReverse element rootOfUnityInverseTable preconRootOfUnityInverseTable
       cycloOrderInv preconCycloOrderInv res =
     bindR (copy_element element res)
       (InverseTransformFromBitReverseInPlace rootOfUnityInverseTable preconRootOfUnityInverseTable
         cycloOrderInv preconCycloOrderInv)"

section \<open>The loops as functions on lists\<close>

definition stage :: "(nat \<Rightarrow> 'b \<Rightarrow> 'b \<Rightarrow> 'b \<times> 'b) \<Rightarrow> nat \<Rightarrow> nat \<Rightarrow> 'b list \<Rightarrow> 'b list" where
  "stage F m t xs =
     map (\<lambda>p. if p mod (2 * t) < t
           then fst (F (m + p div (2 * t)) (xs ! p) (xs ! (p + t)))
           else snd (F (m + p div (2 * t)) (xs ! (p - t)) (xs ! p))) [0..<length xs]"

lemma length_stage [simp]: "length (stage F m t xs) = length xs"
  by (simp add: stage_def)

text \<open>The position \<open>2 t i + r\<close> of block \<open>i\<close>, in its lower half and in its upper half.\<close>

lemma stage_lo:
  assumes "2 * t * i + t + r < length xs" "r < t"
  shows "stage F m t xs ! (2 * t * i + r)
    = fst (F (m + i) (xs ! (2 * t * i + r)) (xs ! (2 * t * i + t + r)))"
proof -
  have "(2 * t * i + r) div (2 * t) = i" "(2 * t * i + r) mod (2 * t) = r" using assms(2) by simp_all
  then show ?thesis using assms by (simp add: stage_def algebra_simps)
qed

lemma stage_hi:
  assumes "2 * t * i + t + r < length xs" "r < t"
  shows "stage F m t xs ! (2 * t * i + t + r)
    = snd (F (m + i) (xs ! (2 * t * i + r)) (xs ! (2 * t * i + t + r)))"
proof -
  have e: "2 * t * i + t + r = 2 * t * i + (t + r)" by simp
  have "(2 * t * i + t + r) div (2 * t) = i" "(2 * t * i + t + r) mod (2 * t) = t + r"
    unfolding e using assms(2) by simp_all
  then show ?thesis using assms by (simp add: stage_def algebra_simps)
qed

lemma position_cases:
  fixes p :: nat
  assumes "p < 2 * t * m"
  obtains i r where "i < m" "r < t" "p = 2 * t * i + r" | i r where "i < m" "r < t" "p = 2 * t * i + t + r"
proof -
  have t: "0 < 2 * t" using assms by (cases t) auto
  define i where "i = p div (2 * t)"
  have i: "i < m" using assms t by (simp add: i_def less_mult_imp_div_less mult.commute)
  have p: "p = 2 * t * i + p mod (2 * t)" by (simp add: i_def)
  have b: "p mod (2 * t) < 2 * t" using t by simp
  show thesis
  proof (cases "p mod (2 * t) < t")
    case True
    then show thesis using that(1) i p by blast
  next
    case False
    then have "p = 2 * t * i + t + (p mod (2 * t) - t)" "p mod (2 * t) - t < t" using p b by linarith+
    then show thesis using that(2) i by blast
  qed
qed

text \<open>The inner loop changes its pairs and nothing else.\<close>

definition pairs_done :: "('b \<Rightarrow> 'b \<Rightarrow> 'b \<times> 'b) \<Rightarrow> nat \<Rightarrow> nat \<Rightarrow> nat \<Rightarrow> 'b list \<Rightarrow> 'b list" where
  "pairs_done f t j1 j xs =
     map (\<lambda>p. if j1 \<le> p \<and> p < j then fst (f (xs ! p) (xs ! (p + t)))
           else if j1 + t \<le> p \<and> p < j + t then snd (f (xs ! (p - t)) (xs ! p))
           else xs ! p) [0..<length xs]"

lemma pairs_done_none: "pairs_done f t j1 j1 xs = xs"
  by (rule nth_equalityI) (auto simp: pairs_done_def)

lemma inner_loop:
  assumes "j \<le> t" "j1 + t + t \<le> length xs"
  shows "foldR (\<lambda>indexLo. bf_at f indexLo (indexLo + t)) [j1..<j1 + j] xs = Inr (pairs_done f t j1 (j1 + j) xs)"
  using assms(1)
proof (induction j)
  case 0
  then show ?case by (simp add: pairs_done_none)
next
  case (Suc j)
  let ?ys = "pairs_done f t j1 (j1 + j) xs"
  have len: "length ?ys = length xs" by (simp add: pairs_done_def)
  have at: "?ys ! (j1 + j) = xs ! (j1 + j)" "?ys ! (j1 + j + t) = xs ! (j1 + j + t)"
    using Suc.prems assms(2) by (simp_all add: pairs_done_def)
  obtain a b where ab: "f (xs ! (j1 + j)) (xs ! (j1 + j + t)) = (a, b)" by fastforce
  have "bf_at f (j1 + j) (j1 + j + t) ?ys = Inr (?ys[j1 + j := a, j1 + j + t := b])"
    using Suc.prems assms(2) by (simp add: bf_at_def len at ab)
  moreover have "?ys[j1 + j := a, j1 + j + t := b] = pairs_done f t j1 (j1 + Suc j) xs"
  proof (rule nth_equalityI)
    fix p
    assume "p < length (?ys[j1 + j := a, j1 + j + t := b])"
    then show "?ys[j1 + j := a, j1 + j + t := b] ! p = pairs_done f t j1 (j1 + Suc j) xs ! p"
      using Suc.prems assms(2)
      by (cases "p = j1 + j"; cases "p = j1 + j + t") (auto simp: len ab pairs_done_def nth_list_update)
  qed (simp add: pairs_done_def)
  ultimately show ?case using Suc by (simp add: foldR_append)
qed

lemma bf_stage_eq:
  assumes "\<And>i. i < m \<Longrightarrow> omega (m + i) = Inr (F (m + i))" "length xs = 2 * t * m" "2 ^ logt = 2 * t"
  shows "bf_stage omega m t logt xs = Inr (stage F m t xs)"
proof -
  let ?part = "\<lambda>i. map (\<lambda>p. if p < 2 * t * i then stage F m t xs ! p else xs ! p) [0..<length xs]"
  let ?body = "\<lambda>i xs. let j1 = push_bit logt i; j2 = j1 + t
       in bindR (omega (m + i)) (\<lambda>f. foldR (\<lambda>indexLo. bf_at f indexLo (indexLo + t)) [j1..<j2] xs)"
  have "foldR ?body [0..<i] xs = Inr (?part i)" if "i \<le> m" for i
    using that
  proof (induction i)
    case 0
    show ?case by (simp add: map_nth)
  next
    case (Suc i)
    let ?ys = "?part i"
    have j: "push_bit logt i = 2 * t * i" by (simp add: push_bit_eq_mult assms(3))
    have bnd: "2 * t * i + t + t \<le> length ?ys"
      using Suc.prems mult_le_mono2 [of "Suc i" m "2 * t"] by (simp add: assms(2) algebra_simps)
    have "pairs_done (F (m + i)) t (2 * t * i) (2 * t * i + t) ?ys = ?part (Suc i)"
    proof (rule nth_equalityI)
      fix p
      assume "p < length (pairs_done (F (m + i)) t (2 * t * i) (2 * t * i + t) ?ys)"
      then have p: "p < length xs" by (simp add: pairs_done_def)
      consider "p < 2 * t * i" | r where "r < t" "p = 2 * t * i + r"
        | r where "r < t" "p = 2 * t * i + t + r" | "2 * t * Suc i \<le> p"
      proof -
        have *: "2 * t * Suc i = 2 * t * i + t + t" by simp
        consider "p < 2 * t * i" | "2 * t * i \<le> p" "p < 2 * t * i + t"
          | "2 * t * i + t \<le> p" "p < 2 * t * i + t + t" | "2 * t * i + t + t \<le> p" by linarith
        then show thesis
        proof cases
          case 2
          then show thesis using that(2) [of "p - 2 * t * i"] by linarith
        next
          case 3
          then show thesis using that(3) [of "p - (2 * t * i + t)"] by linarith
        qed (use that(1,4) * in simp_all)
      qed
      then show "pairs_done (F (m + i)) t (2 * t * i) (2 * t * i + t) ?ys ! p = ?part (Suc i) ! p"
      proof cases
        case 2
        then show ?thesis using p bnd stage_lo [of t i r xs F m] by (simp add: pairs_done_def algebra_simps)
      next
        case 3
        then show ?thesis using p bnd stage_hi [of t i r xs F m] by (simp add: pairs_done_def algebra_simps)
      qed (use p in \<open>auto simp: pairs_done_def\<close>)
    qed (simp add: pairs_done_def)
    then show ?case
      using Suc bnd assms(1) inner_loop [of t t "2 * t * i" ?ys "F (m + i)"]
      by (simp add: foldR_append j upt_Suc_append del: upt_Suc)
  qed
  moreover have "?part m = stage F m t xs"
    by (rule nth_equalityI) (simp_all add: assms(2))
  ultimately show ?thesis by (simp add: bf_stage_def)
qed

text \<open>The first \<open>s\<close> stages of a forward and of an inverse transform of length \<open>2 ^ L\<close>.\<close>

primrec stages :: "(nat \<Rightarrow> 'b \<Rightarrow> 'b \<Rightarrow> 'b \<times> 'b) \<Rightarrow> nat \<Rightarrow> nat \<Rightarrow> 'b list \<Rightarrow> 'b list" where
  "stages F L 0 xs = xs"
| "stages F L (Suc s) xs = stage F (2 ^ s) (2 ^ (L - Suc s)) (stages F L s xs)"

primrec inv_stages :: "(nat \<Rightarrow> 'b \<Rightarrow> 'b \<Rightarrow> 'b \<times> 'b) \<Rightarrow> nat \<Rightarrow> nat \<Rightarrow> 'b list \<Rightarrow> 'b list" where
  "inv_stages F L 0 xs = xs"
| "inv_stages F L (Suc s) xs = stage F (2 ^ (L - Suc s)) (2 ^ s) (inv_stages F L s xs)"

lemma length_stages [simp]: "length (stages F L s xs) = length xs" "length (inv_stages F L s xs) = length xs"
  by (induction s) simp_all

lemma two_powers:
  assumes "s < L"
  shows "2 * 2 ^ (L - Suc s) * 2 ^ s = (2 ^ L :: nat)" "(2::nat) ^ (L - s) = 2 * 2 ^ (L - Suc s)"
proof -
  have L: "L - s = Suc (L - Suc s)" using assms by simp
  show *: "(2::nat) ^ (L - s) = 2 * 2 ^ (L - Suc s)" by (subst L) simp
  show "2 * 2 ^ (L - Suc s) * 2 ^ s = (2 ^ L :: nat)"
    unfolding * [symmetric] using assms by (simp add: power_add [symmetric])
qed

lemma fwd_loop_eq:
  assumes "\<And>k. 0 < k \<Longrightarrow> k < 2 ^ L' \<Longrightarrow> omega k = Inr (F k)" "length xs = 2 ^ L" "s \<le> L'" "L' \<le> L"
  shows "fwd_loop omega (2 ^ L') (2 ^ s) (2 ^ L div 2 ^ Suc s) (L - s) (stages F L s xs)
    = Inr (stages F L L' xs)"
  using assms(3)
proof (induction s rule: inc_induct)
  case base
  show ?case by (simp add: fwd_loop.simps)
next
  case (step s)
  then have s: "s < L" using assms(4) by simp
  have t: "2 ^ L div (2 * 2 ^ s) = (2 ^ (L - Suc s) :: nat)"
    using power_diff [of "2::nat" "Suc s" L] s by simp
  have "bf_stage omega (2 ^ s) (2 ^ (L - Suc s)) (L - s) (stages F L s xs) = Inr (stages F L (Suc s) xs)"
  proof (subst bf_stage_eq [where F = F])
    fix i :: nat
    assume "i < 2 ^ s"
    moreover have "2 ^ s + 2 ^ s \<le> (2 :: nat) ^ L'"
      using step.hyps power_increasing [of "Suc s" L' "2::nat"] by simp
    ultimately show "omega (2 ^ s + i) = Inr (F (2 ^ s + i))" by (intro assms(1)) simp_all
  qed (use two_powers [OF s] assms(2) in simp_all)
  moreover have "(2::nat) ^ s < 2 ^ L'" using step.hyps by simp
  ultimately show ?case
    using step.IH s
    by (subst fwd_loop.simps) (simp add: t div_exp_eq [of _ "Suc s" 1, simplified, symmetric])
qed

lemma inv_loop_eq:
  assumes "\<And>k. 0 < k \<Longrightarrow> k < 2 ^ (L - s0) \<Longrightarrow> omega k = Inr (F k)" "length xs = 2 ^ L" "s0 \<le> s" "s \<le> L"
  shows "inv_loop omega (2 ^ L div 2 ^ Suc s) (2 ^ s) (Suc s) (inv_stages F L s xs)
    = Inr (inv_stages F L L xs)"
  using assms(4,3)
proof (induction s rule: inc_induct)
  case base
  show ?case by (simp add: inv_loop.simps)
next
  case (step s)
  then have s: "s < L" by simp
  have m: "2 ^ L div (2 * 2 ^ s) = (2 ^ (L - Suc s) :: nat)"
    using power_diff [of "2::nat" "Suc s" L] s by simp
  have "bf_stage omega (2 ^ (L - Suc s)) (2 ^ s) (Suc s) (inv_stages F L s xs) = Inr (inv_stages F L (Suc s) xs)"
  proof (subst bf_stage_eq [where F = F])
    fix i :: nat
    assume "i < 2 ^ (L - Suc s)"
    moreover have "2 ^ (L - Suc s) + 2 ^ (L - Suc s) \<le> (2 :: nat) ^ (L - s0)"
      using two_powers(2) [OF s] power_increasing [of "L - s" "L - s0" "2::nat"] step.prems
      by (simp add: diff_le_mono2)
    ultimately show "omega (2 ^ (L - Suc s) + i) = Inr (F (2 ^ (L - Suc s) + i))"
      by (intro assms(1)) simp_all
  qed (use two_powers [OF s] assms(2) in \<open>simp_all add: mult.commute mult.left_commute\<close>)
  then show ?case
    using step.IH step.prems s
    by (subst inv_loop.simps) (simp add: m div_exp_eq [of _ "Suc s" 1, simplified, symmetric])
qed

section \<open>The contract of a butterfly\<close>

text \<open>
  \<open>ntt_forward\<close>: what a forward butterfly promises, for tables \<open>T\<close> whose entry \<open>k\<close> is \<open>ready\<close>; its
  two outputs are \<open>a + w b\<close> and \<open>a - w b\<close> with the \<open>omega\<close> of the entry.  \<open>ntt_inverse\<close>: an inverse
  butterfly, which may scale both outputs by \<open>kappa\<close>.  The transforms are analysed once, for all
  butterflies.
\<close>

definition residues :: "'a::len word \<Rightarrow> 'a word list \<Rightarrow> bool" where
  "residues q xs \<longleftrightarrow> (\<forall>p<length xs. residue q (xs ! p))"

lemma residues_nth [intro]: "residues q xs \<Longrightarrow> p < length xs \<Longrightarrow> residue q (xs ! p)"
  by (simp add: residues_def)

text \<open>The value that the square of the omega of node \<open>k\<close> takes; node 1 is the root.\<close>

definition node_root :: "(nat \<Rightarrow> int) \<Rightarrow> nat \<Rightarrow> int" where
  "node_root w k = (if k \<le> 1 then - 1 else if even k then w (k div 2) else - w (k div 2))"

definition roots_ok :: "int \<Rightarrow> (nat \<Rightarrow> int) \<Rightarrow> nat \<Rightarrow> bool" where
  "roots_ok q w L \<longleftrightarrow> (\<forall>k. 0 < k \<and> k < 2 ^ L \<longrightarrow> (w k)\<^sup>2 mod q = node_root w k mod q)"

definition poly_eval :: "'a::len word list \<Rightarrow> int \<Rightarrow> int" where
  "poly_eval xs y = (\<Sum>j<length xs. uint (xs ! j) * y ^ j)"

lemma sum_split_half:
  fixes f :: "nat \<Rightarrow> int"
  shows "(\<Sum>r<2 * t. f r) = (\<Sum>r<t. f r) + (\<Sum>r<t. f (t + r))"
proof -
  have "(\<Sum>r<2 * t. f r) = (\<Sum>r<t. f r) + (\<Sum>r = t..<2 * t. f r)"
    by (simp add: lessThan_atLeast0 sum.atLeastLessThan_concat)
  also have "(\<Sum>r = t..<2 * t. f r) = (\<Sum>r<t. f (t + r))"
    using sum.shift_bounds_nat_ivl [of f 0 t t] by (simp add: lessThan_atLeast0 mult_2 add.commute)
  finally show ?thesis .
qed

lemma sum_mod_eqI:
  fixes f h :: "nat \<Rightarrow> int"
  assumes "\<And>r. r < t \<Longrightarrow> f r mod q = h r mod q"
  shows "(\<Sum>r<t. f r) mod q = (\<Sum>r<t. h r) mod q"
proof -
  have "(\<Sum>r<t. f r mod q) mod q = (\<Sum>r<t. h r mod q) mod q"
    using assms by (simp cong: sum.cong_simp)
  then show ?thesis by (simp only: mod_sum_eq)
qed

lemma mod_add_mult_cong:
  fixes w z q :: int
  assumes "w mod q = z mod q"
  shows "(a + w * b) mod q = (a + z * b) mod q"
  using mod_mult_cong [OF assms refl [of "b mod q"]] by (rule mod_add_cong [OF refl])

locale ntt_forward =
  fixes bfly :: "'t \<Rightarrow> nat \<Rightarrow> 'a::len word \<Rightarrow> 'a word \<Rightarrow> 'a word \<times> 'a word"
    and md :: "'t \<Rightarrow> 'a word"
    and ready :: "'t \<Rightarrow> nat \<Rightarrow> bool"
    and omega :: "'t \<Rightarrow> nat \<Rightarrow> int"
  assumes md_pos: "ready T k \<Longrightarrow> 0 < uint (md T)"
    and bfly_lo: "\<lbrakk> ready T k; residue (md T) a; residue (md T) b \<rbrakk>
      \<Longrightarrow> uint (fst (bfly T k a b)) = (uint a + omega T k * uint b) mod uint (md T)"
    and bfly_hi: "\<lbrakk> ready T k; residue (md T) a; residue (md T) b \<rbrakk>
      \<Longrightarrow> uint (snd (bfly T k a b)) = (uint a - omega T k * uint b) mod uint (md T)"
begin

lemma stage_residues:
  assumes "\<And>k. m \<le> k \<Longrightarrow> k < 2 * m \<Longrightarrow> ready T k" "length xs = 2 * t * m" "residues (md T) xs"
  shows "residues (md T) (stage (bfly T) m t xs)"
  unfolding residues_def
proof (intro allI impI)
  fix p
  assume "p < length (stage (bfly T) m t xs)"
  then have p: "p < 2 * t * m" using assms(2) by simp
  have blk: "2 * t * i + t + r < length xs" if "i < m" "r < t" for i r
    using that mult_le_mono2 [of "Suc i" m "2 * t"] assms(2) by simp
  from p show "residue (md T) (stage (bfly T) m t xs ! p)"
  proof (cases rule: position_cases)
    case (1 i r)
    have k: "ready T (m + i)" using assms(1) 1 by simp
    have "residue (md T) (xs ! (2 * t * i + r))" "residue (md T) (xs ! (2 * t * i + t + r))"
      using blk [OF 1(1,2)] assms(3) by (auto intro!: residues_nth)
    then show ?thesis
      unfolding 1(3) stage_lo [OF blk [OF 1(1,2)] 1(2)]
      by (rule residue_uint_mod [OF bfly_lo [OF k] md_pos [OF k]])
  next
    case (2 i r)
    have k: "ready T (m + i)" using assms(1) 2 by simp
    have "residue (md T) (xs ! (2 * t * i + r))" "residue (md T) (xs ! (2 * t * i + t + r))"
      using blk [OF 2(1,2)] assms(3) by (auto intro!: residues_nth)
    then show ?thesis
      unfolding 2(3) stage_hi [OF blk [OF 2(1,2)] 2(2)]
      by (rule residue_uint_mod [OF bfly_hi [OF k] md_pos [OF k]])
  qed
qed

lemma stages_residues:
  assumes "\<And>k. 0 < k \<Longrightarrow> k < 2 ^ L \<Longrightarrow> ready T k" "length xs = 2 ^ L" "residues (md T) xs" "s \<le> L"
  shows "residues (md T) (stages (bfly T) L s xs)"
  using assms(4)
proof (induction s)
  case (Suc s)
  then have s: "s < L" by simp
  show ?case
    unfolding stages.simps
  proof (rule stage_residues)
    fix k :: nat
    assume "2 ^ s \<le> k" "k < 2 * 2 ^ s"
    moreover have "2 * 2 ^ s \<le> (2::nat) ^ L" using power_increasing [of "Suc s" L "2::nat"] s by simp
    ultimately show "ready T k" by (intro assms(1)) (auto intro: gr0I)
  qed (use Suc s assms(2) two_powers(1) [OF s] in simp_all)
qed (simp add: assms(3))

text \<open>After \<open>s\<close> stages, block \<open>i\<close> is the polynomial modulo \<open>X ^ (2 ^ (L - s)) - node_root (2 ^ s + i)\<close>.\<close>

lemma stages_eval:
  assumes "\<And>k. 0 < k \<Longrightarrow> k < 2 ^ L \<Longrightarrow> ready T k" "length xs = 2 ^ L" "residues (md T) xs" "s \<le> L"
    and "roots_ok (uint (md T)) (omega T) L" "i < 2 ^ s"
    and "y ^ (2 ^ (L - s)) mod uint (md T) = node_root (omega T) (2 ^ s + i) mod uint (md T)"
  shows "(\<Sum>r<2 ^ (L - s). uint (stages (bfly T) L s xs ! (2 ^ (L - s) * i + r)) * y ^ r) mod uint (md T)
    = poly_eval xs y mod uint (md T)"
  using assms(4,6,7)
proof (induction s arbitrary: i)
  case 0
  then show ?case by (simp add: poly_eval_def assms(2))
next
  case (Suc s)
  let ?q = "uint (md T)" and ?t = "2 ^ (L - Suc s) :: nat" and ?j = "i div 2"
  let ?k = "2 ^ s + ?j" and ?ys = "stages (bfly T) L s xs"
  have s: "s < L" using Suc.prems by simp
  note pw = two_powers [OF s]
  have j: "?j < 2 ^ s" using Suc.prems(2) by simp
  have "2 ^ s + 2 ^ s \<le> (2::nat) ^ L" using power_increasing [of "Suc s" L "2::nat"] s by simp
  then have k: "0 < ?k" "?k < 2 ^ L" using j by simp_all
  have rk: "ready T ?k" by (rule assms(1) [OF k])
  have root: "node_root (omega T) (2 ^ Suc s + i) = (if even i then omega T ?k else - omega T ?k)"
  proof -
    have "1 \<le> (2::nat) ^ s" by simp
    then have "\<not> 2 ^ Suc s + i \<le> 1" by (simp only: power_Suc)
    moreover have "(2 ^ Suc s + i) div 2 = ?k" by simp
    ultimately show ?thesis unfolding node_root_def by simp
  qed
  have yt: "y ^ ?t mod ?q = (if even i then omega T ?k else - omega T ?k) mod ?q"
    using Suc.prems(3) unfolding root by simp
  have "y ^ (2 ^ (L - s)) mod ?q = (y ^ ?t)\<^sup>2 mod ?q"
    unfolding pw(2) by (simp add: power_mult [symmetric] mult.commute)
  also have "\<dots> = (if even i then omega T ?k else - omega T ?k)\<^sup>2 mod ?q"
    using yt by (metis power_mod)
  also have "\<dots> = (omega T ?k)\<^sup>2 mod ?q" by simp
  also have "\<dots> = node_root (omega T) ?k mod ?q"
    using assms(5) k unfolding roots_ok_def by blast
  finally have IH: "(\<Sum>r<2 ^ (L - s). uint (?ys ! (2 ^ (L - s) * ?j + r)) * y ^ r) mod ?q
      = poly_eval xs y mod ?q"
    using Suc.IH [OF _ j] s by simp
  have blk: "2 * ?t * ?j + ?t + r < length ?ys" if "r < ?t" for r
    using that mult_le_mono2 [of "Suc ?j" "2 ^ s" "2 * ?t"] j pw(1) assms(2) by simp
  have "residues (md T) ?ys" using stages_residues [OF assms(1-3)] s by simp
  then have res: "residue (md T) (?ys ! (2 * ?t * ?j + r))" "residue (md T) (?ys ! (2 * ?t * ?j + ?t + r))"
    if "r < ?t" for r
    using blk [OF that] by (auto intro!: residues_nth)
  have out: "uint (stages (bfly T) L (Suc s) xs ! (?t * i + r)) mod ?q
      = (uint (?ys ! (2 * ?t * ?j + r)) + y ^ ?t * uint (?ys ! (2 * ?t * ?j + ?t + r))) mod ?q" if r: "r < ?t" for r
  proof (cases "even i")
    case True
    then have pos: "?t * i + r = 2 * ?t * ?j + r" by (auto elim: evenE)
    have "uint (stages (bfly T) L (Suc s) xs ! (?t * i + r))
        = (uint (?ys ! (2 * ?t * ?j + r)) + omega T ?k * uint (?ys ! (2 * ?t * ?j + ?t + r))) mod ?q"
      unfolding pos stages.simps stage_lo [OF blk [OF r] r] by (rule bfly_lo [OF rk res [OF r]])
    then show ?thesis using mod_add_mult_cong [of "omega T ?k" ?q "y ^ ?t"] yt True by simp
  next
    case False
    then have pos: "?t * i + r = 2 * ?t * ?j + ?t + r" by (auto elim!: oddE)
    have "uint (stages (bfly T) L (Suc s) xs ! (?t * i + r))
        = (uint (?ys ! (2 * ?t * ?j + r)) + (- omega T ?k) * uint (?ys ! (2 * ?t * ?j + ?t + r))) mod ?q"
      unfolding pos stages.simps stage_hi [OF blk [OF r] r] using bfly_hi [OF rk res [OF r]] by simp
    then show ?thesis using mod_add_mult_cong [of "- omega T ?k" ?q "y ^ ?t"] yt False by simp
  qed
  have "(\<Sum>r<2 ^ (L - Suc s). uint (stages (bfly T) L (Suc s) xs ! (2 ^ (L - Suc s) * i + r)) * y ^ r) mod ?q
      = (\<Sum>r<?t. (uint (?ys ! (2 * ?t * ?j + r)) + y ^ ?t * uint (?ys ! (2 * ?t * ?j + ?t + r))) * y ^ r) mod ?q"
    by (rule sum_mod_eqI) (rule mod_mult_cong [OF out refl])
  also have "\<dots> = (\<Sum>r<2 * ?t. uint (?ys ! (2 * ?t * ?j + r)) * y ^ r) mod ?q"
    unfolding sum_split_half by (simp add: sum.distrib [symmetric] power_add algebra_simps)
  finally show ?case using IH unfolding pw(2) by simp
qed

end

lemma mod_scale_add: "k * (x mod q + y mod q) mod q = k * (x + y) mod (q :: int)"
  using mod_mult_right_eq [of k "x mod q + y mod q" q] mod_mult_right_eq [of k "x + y" q] by (simp add: mod_add_eq)

lemma mod_scale_diff: "k * ((x mod q - y mod q) * v) mod q = k * ((x - y) * v) mod (q :: int)"
proof -
  have "(x mod q - y mod q) * (k * v) mod q = (x - y) * (k * v) mod q"
    using mod_mult_left_eq [of "x mod q - y mod q" q "k * v"] mod_mult_left_eq [of "x - y" q "k * v"]
    by (simp add: mod_diff_eq)
  then show ?thesis by (simp only: mult.assoc mult.left_commute mult.commute)
qed

lemma block_bound:
  fixes t i m :: nat
  assumes "i < m" "r < t"
  shows "2 * t * i + t + r < 2 * t * m"
  using assms mult_le_mono2 [of "Suc i" m "2 * t"] by simp

definition scaled_by :: "int \<Rightarrow> int \<Rightarrow> 'a::len word list \<Rightarrow> 'a word list \<Rightarrow> bool" where
  "scaled_by q c xs ys \<longleftrightarrow>
     length ys = length xs \<and> (\<forall>p<length xs. uint (ys ! p) = c * uint (xs ! p) mod q)"

lemma scaled_by_cong: "c mod q = d mod q \<Longrightarrow> scaled_by q c xs ys = scaled_by q d xs ys"
  unfolding scaled_by_def by (metis mod_mult_left_eq)

lemma scaled_by_one:
  assumes "scaled_by (uint q) c xs ys" "c mod uint q = 1 mod uint q" "residues q xs"
  shows "ys = xs"
proof (rule nth_equalityI)
  show len: "length ys = length xs" using assms(1) by (simp add: scaled_by_def)
  fix p
  assume "p < length ys"
  then have "uint (ys ! p) = 1 * uint (xs ! p) mod uint q" "residue q (xs ! p)"
    using assms scaled_by_cong [OF assms(2), of xs ys] len by (auto simp: scaled_by_def)
  then show "ys ! p = xs ! p" by (simp add: residue_def word_uint_eq_iff)
qed

lemma scaled_by_self: "residues q xs \<Longrightarrow> scaled_by (uint q) 1 xs xs"
  by (simp add: scaled_by_def residues_def residue_def)

locale ntt_pair = ntt_forward bfly md ready omega
  for bfly :: "'t \<Rightarrow> nat \<Rightarrow> 'a::len word \<Rightarrow> 'a word \<Rightarrow> 'a word \<times> 'a word"
    and md :: "'t \<Rightarrow> 'a word"
    and ready :: "'t \<Rightarrow> nat \<Rightarrow> bool"
    and omega :: "'t \<Rightarrow> nat \<Rightarrow> int" +
  fixes ibfly :: "'u \<Rightarrow> nat \<Rightarrow> 'a word \<Rightarrow> 'a word \<Rightarrow> 'a word \<times> 'a word"
    and imd :: "'u \<Rightarrow> 'a word"
    and iready :: "'u \<Rightarrow> nat \<Rightarrow> bool"
    and iomega :: "'u \<Rightarrow> nat \<Rightarrow> int"
    and kappa :: "'u \<Rightarrow> nat \<Rightarrow> int"
  assumes ibfly_lo: "\<lbrakk> iready U k; residue (imd U) a; residue (imd U) b \<rbrakk>
      \<Longrightarrow> uint (fst (ibfly U k a b)) = kappa U k * (uint a + uint b) mod uint (imd U)"
    and ibfly_hi: "\<lbrakk> iready U k; residue (imd U) a; residue (imd U) b \<rbrakk>
      \<Longrightarrow> uint (snd (ibfly U k a b)) = kappa U k * ((uint a - uint b) * iomega U k) mod uint (imd U)"
begin

text \<open>An inverse stage undoes the forward stage of the same length, up to a factor two.\<close>

lemma inverse_stage:
  assumes "\<And>k. m \<le> k \<Longrightarrow> k < 2 * m \<Longrightarrow> ready T k \<and> iready U k \<and> kappa U k = c'
      \<and> omega T k * iomega U k mod uint (md T) = 1 mod uint (md T)"
    and "length xs = 2 * t * m" "residues (md T) xs" "imd U = md T"
    and "scaled_by (uint (md T)) c (stage (bfly T) m t xs) ys"
  shows "scaled_by (uint (md T)) (c' * (2 * c)) xs (stage (ibfly U) m t ys)"
proof -
  let ?q = "uint (md T)"
  have len: "length ys = length xs" using assms(5) by (simp add: scaled_by_def)
  have vals: "uint (stage (ibfly U) m t ys ! (2 * t * i + r)) = c' * (2 * c) * uint (xs ! (2 * t * i + r)) mod ?q"
      "uint (stage (ibfly U) m t ys ! (2 * t * i + t + r)) = c' * (2 * c) * uint (xs ! (2 * t * i + t + r)) mod ?q"
    if ir: "i < m" "r < t" for i r
  proof -
    let ?lo = "2 * t * i + r" and ?hi = "2 * t * i + t + r" and ?k = "m + i"
    have b: "?hi < length xs" "?lo < length xs" using block_bound [OF ir] assms(2) by simp_all
    have k: "ready T ?k" "iready U ?k" "kappa U ?k = c'" "omega T ?k * iomega U ?k mod ?q = 1 mod ?q"
      using assms(1) [of ?k] ir by simp_all
    have pos: "0 < ?q" by (rule md_pos [OF k(1)])
    define a b' w v where "a = uint (xs ! ?lo)" and "b' = uint (xs ! ?hi)" and "w = omega T ?k" and "v = iomega U ?k"
    have "uint (ys ! ?lo) = c * ((a + w * b') mod ?q) mod ?q" "uint (ys ! ?hi) = c * ((a - w * b') mod ?q) mod ?q"
      using assms(3,5) b stage_lo [OF b(1) ir(2), of "bfly T" m] stage_hi [OF b(1) ir(2), of "bfly T" m]
        bfly_lo [OF k(1)] bfly_hi [OF k(1)]
      by (simp_all add: scaled_by_def a_def b'_def w_def residues_nth)
    then have y: "uint (ys ! ?lo) = c * (a + w * b') mod ?q" "uint (ys ! ?hi) = c * (a - w * b') mod ?q"
      by (simp_all add: mod_mult_right_eq)
    then have res: "residue (imd U) (ys ! ?lo)" "residue (imd U) (ys ! ?hi)"
      using residue_uint_mod [OF y(1) pos] residue_uint_mod [OF y(2) pos] by (simp_all add: assms(4))
    have "uint (stage (ibfly U) m t ys ! ?lo) = c' * (uint (ys ! ?lo) + uint (ys ! ?hi)) mod ?q"
      using stage_lo [of t i r ys "ibfly U" m] b len ir(2) ibfly_lo [OF k(2) res] by (simp add: k(3) assms(4))
    also have "\<dots> = c' * (c * (a + w * b') + c * (a - w * b')) mod ?q"
      unfolding y by (rule mod_scale_add)
    finally show "uint (stage (ibfly U) m t ys ! ?lo) = c' * (2 * c) * uint (xs ! ?lo) mod ?q"
      by (simp add: a_def algebra_simps)
    have "uint (stage (ibfly U) m t ys ! ?hi) = c' * ((uint (ys ! ?lo) - uint (ys ! ?hi)) * v) mod ?q"
      using stage_hi [of t i r ys "ibfly U" m] b len ir(2) ibfly_hi [OF k(2) res]
      by (simp add: k(3) assms(4) v_def)
    also have "\<dots> = c' * ((c * (a + w * b') - c * (a - w * b')) * v) mod ?q"
      unfolding y by (rule mod_scale_diff)
    also have "\<dots> = c' * (2 * c) * b' * (w * v) mod ?q" by (simp add: algebra_simps)
    also have "\<dots> = c' * (2 * c) * b' * 1 mod ?q"
      using k(4) unfolding w_def v_def by (metis mod_mult_right_eq)
    finally show "uint (stage (ibfly U) m t ys ! ?hi) = c' * (2 * c) * uint (xs ! ?hi) mod ?q"
      by (simp add: b'_def)
  qed
  show ?thesis
    unfolding scaled_by_def
  proof (intro conjI allI impI)
    fix p
    assume "p < length xs"
    then have "p < 2 * t * m" using assms(2) by simp
    then show "uint (stage (ibfly U) m t ys ! p) = c' * (2 * c) * uint (xs ! p) mod ?q"
      by (cases rule: position_cases) (auto intro: vals)
  qed (simp add: len)
qed

lemma inverse_stages:
  assumes "\<And>k. 0 < k \<Longrightarrow> k < 2 ^ L \<Longrightarrow> ready T k \<and> iready U k
      \<and> omega T k * iomega U k mod uint (md T) = 1 mod uint (md T)"
    and "\<And>s k. s < L \<Longrightarrow> 2 ^ (L - Suc s) \<le> k \<Longrightarrow> k < 2 ^ (L - s) \<Longrightarrow> kappa U k = c s"
    and "length xs = 2 ^ L" "residues (md T) xs" "imd U = md T" "s \<le> L"
  shows "scaled_by (uint (md T)) (prod (\<lambda>j. c j * 2) {..<s}) (stages (bfly T) L (L - s) xs)
    (inv_stages (ibfly U) L s (stages (bfly T) L L xs))"
  using assms(6)
proof (induction s)
  case 0
  have "residues (md T) (stages (bfly T) L L xs)"
    by (rule stages_residues) (use assms in auto)
  then show ?case by (simp add: scaled_by_self)
next
  case (Suc s)
  then have s: "s < L" by simp
  have r: "residues (md T) (stages (bfly T) L (L - Suc s) xs)"
    by (rule stages_residues) (use assms in auto)
  have L: "L - s = Suc (L - Suc s)" "L - Suc (L - Suc s) = s" using s by simp_all
  have p: "(2::nat) ^ (L - s) = 2 * 2 ^ (L - Suc s)" using two_powers(2) [OF s] .
  have "scaled_by (uint (md T)) (c s * (2 * (prod (\<lambda>j. c j * 2) {..<s}))) (stages (bfly T) L (L - Suc s) xs)
      (stage (ibfly U) (2 ^ (L - Suc s)) (2 ^ s) (inv_stages (ibfly U) L s (stages (bfly T) L L xs)))"
  proof (rule inverse_stage)
    fix k :: nat
    assume k: "2 ^ (L - Suc s) \<le> k" "k < 2 * 2 ^ (L - Suc s)"
    have "(2::nat) ^ (L - s) \<le> 2 ^ L" by simp
    then have "0 < k" "k < 2 ^ L" "k < 2 ^ (L - s)" using k p by (auto intro: gr0I)
    then show "ready T k \<and> iready U k \<and> kappa U k = c s
        \<and> omega T k * iomega U k mod uint (md T) = 1 mod uint (md T)"
      using assms(1) [of k] assms(2) [OF s k(1)] by blast
  next
    show "length (stages (bfly T) L (L - Suc s) xs) = 2 * 2 ^ s * 2 ^ (L - Suc s)"
      using assms(3) two_powers(1) [OF s] by (simp add: mult.commute mult.left_commute)
    have "stages (bfly T) L (L - s) xs
        = stage (bfly T) (2 ^ (L - Suc s)) (2 ^ s) (stages (bfly T) L (L - Suc s) xs)"
      unfolding L(1) stages.simps L(2) ..
    then show "scaled_by (uint (md T)) (prod (\<lambda>j. c j * 2) {..<s})
        (stage (bfly T) (2 ^ (L - Suc s)) (2 ^ s) (stages (bfly T) L (L - Suc s) xs))
        (inv_stages (ibfly U) L s (stages (bfly T) L L xs))"
      using Suc by simp
  qed (use r assms(5) in simp_all)
  then show ?case by (simp add: algebra_simps)
qed

end

section \<open>The butterflies of the code keep the contract\<close>

lemma uint_add_residues:
  fixes a b q :: "'a::len word"
  assumes "modulus_ok q" "residue q a" "residue q b"
  shows "uint (if q \<le> a + b then a + b - q else a + b) = (uint a + uint b) mod uint q"
proof -
  have s: "uint (a + b) = uint a + uint b"
    using assms by (intro uint_add_exact) (auto simp: modulus_ok_def residue_def)
  show ?thesis
    using assms csub_mod [of "uint a + uint b" "uint q"] uint_ge_0 [of a] uint_ge_0 [of b]
    by (auto simp: word_le_def s uint_sub_exact residue_def)
qed

lemma uint_sub_residues:
  fixes a b q :: "'a::len word"
  assumes "modulus_ok q" "residue q a" "residue q b"
  shows "uint ((if a < b then a + q else a) - b) = (uint a - uint b) mod uint q"
proof (cases "a < b")
  case True
  have s: "uint (a + q) = uint a + uint q"
    using assms by (intro uint_add_exact) (auto simp: modulus_ok_def residue_def)
  then have "uint (a + q - b) = uint a + uint q - uint b"
  proof (subst uint_sub_exact)
    show "uint b \<le> uint (a + q)" using assms(3) uint_ge_0 [of a] unfolding s residue_def by linarith
  qed simp
  then show ?thesis
    using True assms cadd_mod [of "uint q" "uint a - uint b"] uint_ge_0 [of a]
    by (simp add: word_less_def residue_def)
next
  case False
  then have "uint b \<le> uint a" by (simp add: word_less_def)
  moreover have "uint a - uint b < uint q"
    using assms(2) uint_ge_0 [of b] unfolding residue_def by linarith
  ultimately show ?thesis using False by (simp add: uint_sub_exact)
qed

lemma fwd_butterfly_values:
  fixes q :: "'a::len word"
  assumes "modulus_ok q" "residue q a" "uint (mul b) = uint b * w mod uint q"
  shows "uint (fst (fwd_butterfly q mul a b)) = (uint a + w * uint b) mod uint q"
    "uint (snd (fwd_butterfly q mul a b)) = (uint a - w * uint b) mod uint q"
proof -
  have r: "residue q (mul b)" using residue_uint_mod [OF assms(3)] assms(1) by (simp add: modulus_ok_def)
  show "uint (fst (fwd_butterfly q mul a b)) = (uint a + w * uint b) mod uint q"
    using uint_add_residues [OF assms(1,2) r] assms(3)
    by (simp add: fwd_butterfly_def Let_def mod_add_right_eq mult.commute)
  show "uint (snd (fwd_butterfly q mul a b)) = (uint a - w * uint b) mod uint q"
    using uint_sub_residues [OF assms(1,2) r] assms(3)
    by (simp add: fwd_butterfly_def Let_def mod_diff_right_eq mult.commute)
qed

lemma fwd_butterfly_skip_values:
  fixes q :: "'a::len word"
  assumes "modulus_ok q" "residue q a" "uint (mul b) = uint b * w mod uint q"
  shows "uint (fst (fwd_butterfly_skip q mul a b)) = (uint a + w * uint b) mod uint q"
    "uint (snd (fwd_butterfly_skip q mul a b)) = (uint a - w * uint b) mod uint q"
  using fwd_butterfly_values [where mul = mul, OF assms] assms(2)
  by (auto simp: fwd_butterfly_skip_def residue_def)

lemma inv_butterfly_values:
  fixes q :: "'a::len word"
  assumes "modulus_ok q" "residue q a" "residue q b"
    and "\<And>x. residue q x \<Longrightarrow> uint (mul x) = uint x * w mod uint q"
  shows "uint (fst (inv_butterfly q mul a b)) = (uint a + uint b) mod uint q"
    "uint (snd (inv_butterfly q mul a b)) = (uint a - uint b) * w mod uint q"
proof -
  show "uint (fst (inv_butterfly q mul a b)) = (uint a + uint b) mod uint q"
    using uint_add_residues [OF assms(1-3)] by (simp add: inv_butterfly_def Let_def)
  let ?d = "(if a < b then a + q else a) - b"
  note d = uint_sub_residues [OF assms(1-3)]
  have "residue q ?d" using residue_uint_mod [OF d] assms(1) by (simp add: modulus_ok_def)
  then have "uint (mul ?d) = (uint a - uint b) * w mod uint q"
    using assms(4) [of ?d] unfolding d by (simp add: mod_mult_left_eq)
  then show "uint (snd (inv_butterfly q mul a b)) = (uint a - uint b) * w mod uint q"
    by (simp add: inv_butterfly_def Let_def)
qed

text \<open>Tables for Barrett's constant: a modulus and a table.  Tables for Shoup's constants: also theirs.\<close>

type_synonym 'a mu_tables = "'a word \<times> 'a nvec"
type_synonym 'a pre_tables = "'a word \<times> 'a nvec \<times> 'a nvec"

definition mu_ready :: "'a::len mu_tables \<Rightarrow> nat \<Rightarrow> bool" where
  "mu_ready T k \<longleftrightarrow> barrett_modulus (fst T) \<and> k < length (m_data (snd T)) \<and> residue (fst T) (m_data (snd T) ! k)"

definition mu_omega :: "'a::len mu_tables \<Rightarrow> nat \<Rightarrow> int" where
  "mu_omega T k = uint (m_data (snd T) ! k)"

definition mu_mul :: "'a::len mu_tables \<Rightarrow> nat \<Rightarrow> 'a word \<Rightarrow> 'a word" where
  "mu_mul T k x = ModMulFastEq_mu x (m_data (snd T) ! k) (fst T) (mu_of (fst T))"

definition pre_ready :: "'a::len pre_tables \<Rightarrow> nat \<Rightarrow> bool" where
  "pre_ready T k \<longleftrightarrow> modulus_ok (fst T)
     \<and> k < length (m_data (fst (snd T))) \<and> k < length (m_data (snd (snd T)))
     \<and> residue (fst T) (m_data (fst (snd T)) ! k)
     \<and> PrepModMulConst (m_data (fst (snd T)) ! k) (fst T) = Inr (m_data (snd (snd T)) ! k)"

definition pre_omega :: "'a::len pre_tables \<Rightarrow> nat \<Rightarrow> int" where
  "pre_omega T k = uint (m_data (fst (snd T)) ! k)"

definition pre_mul :: "'a::len pre_tables \<Rightarrow> nat \<Rightarrow> 'a word \<Rightarrow> 'a word" where
  "pre_mul T k x = ModMulFastConstEq x (m_data (fst (snd T)) ! k) (fst T) (m_data (snd (snd T)) ! k)"

lemma mu_readyD:
  assumes "mu_ready T k"
  shows "modulus_ok (fst T)" "residue (fst T) x \<Longrightarrow> uint (mu_mul T k x) = uint x * mu_omega T k mod uint (fst T)"
proof -
  have b: "barrett_modulus (fst T)" "residue (fst T) (m_data (snd T) ! k)"
    using assms by (auto simp: mu_ready_def)
  show "modulus_ok (fst T)" using b(1) by (rule barrett_modulus_ok)
  show "uint (mu_mul T k x) = uint x * mu_omega T k mod uint (fst T)" if "residue (fst T) x"
    using uint_ModMulFast_mu [OF b(1) ComputeMu_mu_of [OF b(1)] residue_prod_lt [OF that b(2)]]
    by (simp add: mu_mul_def mu_omega_def in_place_variants)
qed

lemma pre_readyD:
  assumes "pre_ready T k"
  shows "modulus_ok (fst T)" "uint (pre_mul T k x) = uint x * pre_omega T k mod uint (fst T)"
  using assms uint_ModMulFastConst [of "fst T" "m_data (fst (snd T)) ! k" "m_data (snd (snd T)) ! k" x]
  by (simp_all add: pre_ready_def pre_mul_def pre_omega_def in_place_variants)

lemma modulus_okD: "modulus_ok m \<Longrightarrow> 0 < uint m"
  by (simp add: modulus_ok_def)

interpretation fwd_mu: ntt_forward "\<lambda>T k. fwd_butterfly (fst T) (mu_mul T k)" fst mu_ready mu_omega
  by unfold_locales
     (auto intro: modulus_okD fwd_butterfly_values mu_readyD)

interpretation fwd_mu_skip: ntt_forward "\<lambda>T k. fwd_butterfly_skip (fst T) (mu_mul T k)" fst mu_ready mu_omega
  by unfold_locales
     (auto intro: modulus_okD fwd_butterfly_skip_values mu_readyD)

interpretation fwd_pre: ntt_forward "\<lambda>T k. fwd_butterfly (fst T) (pre_mul T k)" fst pre_ready pre_omega
  by unfold_locales
     (auto intro: modulus_okD fwd_butterfly_values pre_readyD)

interpretation fwd_pre_skip: ntt_forward "\<lambda>T k. fwd_butterfly_skip (fst T) (pre_mul T k)" fst pre_ready pre_omega
  by unfold_locales
     (auto intro: modulus_okD fwd_butterfly_skip_values pre_readyD)

text \<open>The inverse transforms; the scaled butterfly serves the blocks of the first stage.\<close>

record (overloaded) 'a inv_tables =
  it_tables :: "'a::len pre_tables"
  it_order_inv :: "'a word"
  it_precon_order_inv :: "'a word"
  it_first :: nat

definition it_ready :: "'a::len inv_tables \<Rightarrow> nat \<Rightarrow> bool" where
  "it_ready U k \<longleftrightarrow> pre_ready (it_tables U) k \<and> residue (fst (it_tables U)) (it_order_inv U)
     \<and> PrepModMulConst (it_order_inv U) (fst (it_tables U)) = Inr (it_precon_order_inv U)"

definition it_bfly :: "'a::len inv_tables \<Rightarrow> nat \<Rightarrow> 'a word \<Rightarrow> 'a word \<Rightarrow> 'a word \<times> 'a word" where
  "it_bfly U k =
     (if it_first U \<le> k
      then inv_butterfly_scaled (it_order_inv U) (it_precon_order_inv U) (fst (it_tables U)) (pre_mul (it_tables U) k)
      else inv_butterfly (fst (it_tables U)) (pre_mul (it_tables U) k))"

definition it_kappa :: "'a::len inv_tables \<Rightarrow> nat \<Rightarrow> int" where
  "it_kappa U k = (if it_first U \<le> k then uint (it_order_inv U) else 1)"

lemma it_bfly_values:
  assumes "it_ready U k" "residue (fst (it_tables U)) a" "residue (fst (it_tables U)) b"
  shows "uint (fst (it_bfly U k a b)) = it_kappa U k * (uint a + uint b) mod uint (fst (it_tables U))"
    "uint (snd (it_bfly U k a b))
      = it_kappa U k * ((uint a - uint b) * pre_omega (it_tables U) k) mod uint (fst (it_tables U))"
proof -
  let ?q = "fst (it_tables U)" and ?f = "inv_butterfly (fst (it_tables U)) (pre_mul (it_tables U) k) a b"
  have p: "pre_ready (it_tables U) k" using assms(1) by (simp add: it_ready_def)
  note v = inv_butterfly_values [OF pre_readyD(1) [OF p] assms(2,3), where mul = "pre_mul (it_tables U) k",
      OF pre_readyD(2) [OF p]]
  have c: "uint (ModMulFastConstEq x (it_order_inv U) ?q (it_precon_order_inv U))
      = uint (it_order_inv U) * uint x mod uint ?q" for x
    using uint_ModMulFastConst [OF pre_readyD(1) [OF p]] assms(1)
    by (simp add: it_ready_def in_place_variants mult.commute)
  show "uint (fst (it_bfly U k a b)) = it_kappa U k * (uint a + uint b) mod uint ?q"
    by (simp add: it_bfly_def it_kappa_def inv_butterfly_scaled_def c v mod_mult_right_eq split: prod.splits)
       (metis c fst_conv mod_mult_right_eq v(1))
  show "uint (snd (it_bfly U k a b))
      = it_kappa U k * ((uint a - uint b) * pre_omega (it_tables U) k) mod uint ?q"
    by (simp add: it_bfly_def it_kappa_def inv_butterfly_scaled_def c v mod_mult_right_eq split: prod.splits)
       (metis c snd_conv mod_mult_right_eq v(2))
qed

interpretation pre_pair: ntt_pair "\<lambda>T k. fwd_butterfly (fst T) (pre_mul T k)" fst pre_ready pre_omega
  it_bfly "\<lambda>U. fst (it_tables U)" it_ready "\<lambda>U. pre_omega (it_tables U)" it_kappa
  by unfold_locales (auto simp: it_bfly_values)

definition mu_ibfly :: "'a::len mu_tables \<Rightarrow> nat \<Rightarrow> 'a word \<Rightarrow> 'a word \<Rightarrow> 'a word \<times> 'a word" where
  "mu_ibfly U k = inv_butterfly (fst U) (mu_mul U k)"

interpretation mu_pair: ntt_pair "\<lambda>T k. fwd_butterfly (fst T) (mu_mul T k)" fst mu_ready mu_omega
  mu_ibfly fst mu_ready mu_omega "\<lambda>U k. 1"
  by unfold_locales (auto simp: mu_ibfly_def intro: inv_butterfly_values mu_readyD)

section \<open>The whole transforms\<close>

lemma bit_length_pow [simp]: "bit_length (2 ^ j) = Suc j"
proof -
  have "bit_length (2 ^ j) \<le> Suc j" by (simp add: bit_length_le_iff)
  moreover have "\<not> bit_length (2 ^ j) \<le> j" by (simp add: bit_length_le_iff)
  ultimately show ?thesis by simp
qed

lemma usint_MSB_eq: "x < 2 ^ 32 \<Longrightarrow> usint_MSB x = bit_length x"
  by (simp add: usint_MSB_def GetMSB_eq unsigned_of_nat take_bit_nat_eq_self)

lemma usint_MSB_pow: "j < 32 \<Longrightarrow> usint_MSB (2 ^ j) = Suc j"
  using power_strict_increasing [of j 32 "2::nat"] by (simp add: usint_MSB_eq)

lemma bindR_foldR_Nil [simp]: "bindR r (foldR f []) = r"
  by (cases r) simp_all

lemma last_stage:
  "foldR (\<lambda>k xs. bindR (omega (k + n)) (\<lambda>f. bf_at f (2 * k) (2 * k + 1) xs)) [0..<n] xs
    = bf_stage omega n 1 1 xs"
  by (simp add: bf_stage_def Let_def push_bit_eq_mult mult.commute [of _ 2] add.commute [of n])

lemma omega_mu_eq:
  "mu_ready (q, tab) k \<Longrightarrow> omega_mu butterfly q (mu_of q) tab k = Inr (butterfly q (mu_mul (q, tab) k))"
  by (simp add: omega_mu_def table_at_def mu_ready_def mu_mul_def [abs_def])

lemma omega_precon_eq:
  "pre_ready (q, tab, precon) k
    \<Longrightarrow> omega_precon butterfly q tab precon k = Inr (butterfly q (pre_mul (q, tab, precon) k))"
  by (simp add: omega_precon_def table_at_def pre_ready_def pre_mul_def [abs_def])

text \<open>The forward transforms are all the stages with their butterfly.\<close>

lemma forward_loop:
  assumes "\<And>k. 0 < k \<Longrightarrow> k < 2 ^ L \<Longrightarrow> omega k = Inr (F k)" "length xs = 2 ^ L" "0 < L" "L < 32"
  shows "fwd_loop omega (2 ^ L) 1 (2 ^ L div 2) (usint_MSB (2 ^ L div 2)) xs = Inr (stages F L L xs)"
proof -
  have h: "(2::nat) ^ L div 2 = 2 ^ (L - 1)" using assms(3) by (cases L) auto
  then have "usint_MSB (2 ^ L div 2) = L" using usint_MSB_pow [of "L - 1"] assms(3,4) by simp
  then show ?thesis using fwd_loop_eq [of L omega F xs L 0] assms(1,2) by simp
qed

lemma ForwardTransformToBitReverseInPlace_eq:
  assumes "\<And>k. 0 < k \<Longrightarrow> k < 2 ^ L \<Longrightarrow> pre_ready (m_modulus el, tab, precon) k"
    and "length (m_data el) = 2 ^ L" "0 < L" "L < 32"
  shows "ForwardTransformToBitReverseInPlace tab precon el = Inr (el \<lparr> m_data :=
    stages (\<lambda>k. fwd_butterfly (m_modulus el) (pre_mul (m_modulus el, tab, precon) k)) L L (m_data el) \<rparr>)"
proof -
  let ?n = "2 ^ (L - 1) :: nat"
  let ?omega = "omega_precon fwd_butterfly (m_modulus el) tab precon"
  let ?F = "\<lambda>k. fwd_butterfly (m_modulus el) (pre_mul (m_modulus el, tab, precon) k)"
  have om: "?omega k = Inr (?F k)" if "0 < k" "k < 2 ^ L" for k
    using omega_precon_eq [OF assms(1) [OF that]] .
  have n: "(2::nat) ^ L = 2 * ?n" using assms(3) by (cases L) auto
  have "usint_MSB ?n = L" using usint_MSB_pow [of "L - 1"] assms(3,4) by simp
  then have 1: "fwd_loop ?omega ?n 1 ?n (usint_MSB ?n) (m_data el) = Inr (stages ?F L (L - 1) (m_data el))"
    using fwd_loop_eq [of "L - 1" ?omega ?F "m_data el" L 0] om n assms(2) by simp
  have "bf_stage ?omega ?n 1 1 (stages ?F L (L - 1) (m_data el)) = Inr (stage ?F ?n 1 (stages ?F L (L - 1) (m_data el)))"
    by (rule bf_stage_eq) (use om n assms(2) in simp_all)
  moreover have "stage ?F ?n 1 (stages ?F L (L - 1) (m_data el)) = stages ?F L L (m_data el)"
    using assms(3) by (cases L) simp_all
  ultimately show ?thesis
    using 1 unfolding ForwardTransformToBitReverseInPlace_def Let_def last_stage
    by (simp add: assms(2) n)
qed

lemma ForwardTransformToBitReverseInPlace_mu_eq:
  assumes "\<And>k. 0 < k \<Longrightarrow> k < 2 ^ L \<Longrightarrow> mu_ready (m_modulus el, tab) k"
    and "length (m_data el) = 2 ^ L" "0 < L" "L < 32"
  shows "ForwardTransformToBitReverseInPlace_mu tab el = Inr (el \<lparr> m_data :=
    stages (\<lambda>k. fwd_butterfly (m_modulus el) (mu_mul (m_modulus el, tab) k)) L L (m_data el) \<rparr>)"
proof -
  have "1 < (2::nat) ^ L" using one_less_power [of "2::nat" L] assms(3) by simp
  then have "barrett_modulus (m_modulus el)" using assms(1) [of 1] by (simp add: mu_ready_def)
  then show ?thesis
    using forward_loop [OF omega_mu_eq [OF assms(1), where butterfly = fwd_butterfly] assms(2-4)]
    by (simp add: ForwardTransformToBitReverseInPlace_mu_def ComputeMu_mu_of assms(2) Let_def)
qed

lemma copy_element_eq:
  "length (m_data res) = length (m_data el) \<Longrightarrow> GetMSB (m_modulus el) \<le> MAX_MODULUS_SIZE LENGTH('a)
    \<Longrightarrow> copy_element el res = Inr (el :: 'a::len nvec)"
  by (simp add: copy_element_def SetModulus_def)

lemma ForwardTransformToBitReverse_eq:
  fixes el :: "'a::len nvec"
  assumes "\<And>k. 0 < k \<Longrightarrow> k < 2 ^ L \<Longrightarrow> pre_ready (m_modulus el, tab, precon) k"
    and "length (m_data el) = 2 ^ L" "0 < L" "L < 32"
    and "length (m_data res) = 2 ^ L" "GetMSB (m_modulus el) \<le> MAX_MODULUS_SIZE LENGTH('a)"
  shows "ForwardTransformToBitReverse el tab precon res = Inr (el \<lparr> m_data :=
    stages (\<lambda>k. fwd_butterfly_skip (m_modulus el) (pre_mul (m_modulus el, tab, precon) k)) L L (m_data el) \<rparr>)"
  using forward_loop [OF omega_precon_eq [OF assms(1), where butterfly = fwd_butterfly_skip] assms(2-4)]
  by (simp add: ForwardTransformToBitReverse_def copy_element_eq assms Let_def)

lemma ForwardTransformToBitReverse_mu_eq:
  fixes el :: "'a::len nvec"
  assumes "\<And>k. 0 < k \<Longrightarrow> k < 2 ^ L \<Longrightarrow> mu_ready (m_modulus el, tab) k"
    and "length (m_data el) = 2 ^ L" "0 < L" "L < 32"
    and "length (m_data res) = 2 ^ L" "GetMSB (m_modulus el) \<le> MAX_MODULUS_SIZE LENGTH('a)"
  shows "ForwardTransformToBitReverse_mu el tab res = Inr (el \<lparr> m_data :=
    stages (\<lambda>k. fwd_butterfly_skip (m_modulus el) (mu_mul (m_modulus el, tab) k)) L L (m_data el) \<rparr>)"
proof -
  have "1 < (2::nat) ^ L" using one_less_power [of "2::nat" L] assms(3) by simp
  then have "barrett_modulus (m_modulus el)" using assms(1) [of 1] by (simp add: mu_ready_def)
  then show ?thesis
    using forward_loop [OF omega_mu_eq [OF assms(1), where butterfly = fwd_butterfly_skip] assms(2-4)]
    by (simp add: ForwardTransformToBitReverse_mu_def ComputeMu_mu_of copy_element_eq assms Let_def)
qed

lemma InverseTransformFromBitReverseInPlace_eq:
  fixes el :: "'a::len nvec"
  assumes "\<And>k. 0 < k \<Longrightarrow> k < 2 ^ L \<Longrightarrow> pre_ready (m_modulus el, tabI, preconI) k"
    and "length (m_data el) = 2 ^ L" "0 < L" "L < 32"
  shows "InverseTransformFromBitReverseInPlace tabI preconI c cpre el = Inr (el \<lparr> m_data :=
    inv_stages (it_bfly \<lparr> it_tables = (m_modulus el, tabI, preconI), it_order_inv = c,
      it_precon_order_inv = cpre, it_first = 2 ^ (L - 1) \<rparr>) L L (m_data el) \<rparr>)"
proof -
  let ?U = "\<lparr> it_tables = (m_modulus el, tabI, preconI), it_order_inv = c,
      it_precon_order_inv = cpre, it_first = 2 ^ (L - 1) \<rparr>"
  let ?n = "2 ^ (L - 1) :: nat" and ?F = "it_bfly ?U" and ?xs = "m_data el"
  let ?omega = "\<lambda>butterfly. omega_precon butterfly (m_modulus el) tabI preconI"
  have n: "(2::nat) ^ L = 2 * ?n" using assms(3) by (cases L) auto
  have om: "?omega butterfly k = Inr (butterfly (m_modulus el) (pre_mul (m_modulus el, tabI, preconI) k))"
    if "0 < k" "k < 2 ^ L" for k butterfly
    using omega_precon_eq [OF assms(1) [OF that]] .
  have "bf_stage (?omega (inv_butterfly_scaled c cpre)) ?n 1 1 ?xs = Inr (stage ?F ?n 1 ?xs)"
    by (rule bf_stage_eq) (use om n assms(2) in \<open>simp_all add: it_bfly_def\<close>)
  moreover have "stage ?F ?n 1 ?xs = inv_stages ?F L 1 ?xs" by simp
  moreover have "inv_loop (?omega inv_butterfly) (2 ^ L div 4) 2 2 (inv_stages ?F L 1 ?xs)
      = Inr (inv_stages ?F L L ?xs)"
    using inv_loop_eq [of L 1 "?omega inv_butterfly" ?F ?xs 1] om n assms(2,3)
    by (simp add: it_bfly_def numeral_2_eq_2)
  moreover have "(2 * k + 2 ^ L) div 2 = k + ?n" for k using n by simp
  moreover have "(2 ^ L + 1) div 2 = ?n" using n by simp
  ultimately show ?thesis
    unfolding InverseTransformFromBitReverseInPlace_def Let_def
    using last_stage [of "?omega (inv_butterfly_scaled c cpre)" ?n ?xs] by (simp add: assms(2))
qed

lemma InverseTransformFromBitReverseInPlace_mu_eq:
  assumes "\<And>k. 0 < k \<Longrightarrow> k < 2 ^ L \<Longrightarrow> mu_ready (m_modulus el, tabI) k"
    and "length (m_data el) = 2 ^ L" "0 < L" "L < 32"
  shows "InverseTransformFromBitReverseInPlace_mu tabI c el = Inr (el \<lparr> m_data :=
    map (\<lambda>x. ModMulFastEq_mu x c (m_modulus el) (mu_of (m_modulus el)))
      (inv_stages (mu_ibfly (m_modulus el, tabI)) L L (m_data el)) \<rparr>)"
proof -
  let ?omega = "omega_mu inv_butterfly (m_modulus el) (mu_of (m_modulus el)) tabI"
  have "1 < (2::nat) ^ L" using one_less_power [of "2::nat" L] assms(3) by simp
  then have "barrett_modulus (m_modulus el)" using assms(1) [of 1] by (simp add: mu_ready_def)
  moreover have "inv_loop ?omega (2 ^ L div 2) 1 1 (m_data el)
      = Inr (inv_stages (mu_ibfly (m_modulus el, tabI)) L L (m_data el))"
    using inv_loop_eq [of L 0 ?omega "mu_ibfly (m_modulus el, tabI)" "m_data el" 0]
      omega_mu_eq [OF assms(1)] assms(2) by (simp add: mu_ibfly_def)
  ultimately show ?thesis
    by (simp add: InverseTransformFromBitReverseInPlace_mu_def ComputeMu_mu_of assms(2) Let_def)
qed

section \<open>Evaluation and negacyclic products\<close>

lemma node_root_power:
  assumes "roots_ok q w L" "s \<le> L" "2 ^ s \<le> k" "k < 2 ^ Suc s"
  shows "node_root w k ^ 2 ^ s mod q = - 1 mod q"
  using assms(2-4)
proof (induction s arbitrary: k)
  case 0
  then have "k = 1" by simp
  then show ?case by (simp add: node_root_def)
next
  case (Suc s)
  have h: "2 ^ s \<le> k div 2" "k div 2 < 2 ^ Suc s" using Suc.prems by auto
  have "(2::nat) ^ Suc s \<le> 2 ^ L" using Suc.prems(1) by (intro power_increasing) simp_all
  then have h': "0 < k div 2" "k div 2 < 2 ^ L" using h by (auto intro: gr0I)
  have "(node_root w k)\<^sup>2 = (w (k div 2))\<^sup>2"
    using h' by (auto simp: node_root_def)
  then have "(node_root w k)\<^sup>2 mod q = node_root w (k div 2) mod q"
    using assms(1) h' unfolding roots_ok_def by metis
  then have "((node_root w k)\<^sup>2) ^ 2 ^ s mod q = node_root w (k div 2) ^ 2 ^ s mod q"
    by (metis power_mod)
  then show ?case using Suc.IH [OF _ h] Suc.prems(1) by (simp add: power_mult [symmetric])
qed

definition negacyclic :: "nat \<Rightarrow> (nat \<Rightarrow> int) \<Rightarrow> (nat \<Rightarrow> int) \<Rightarrow> nat \<Rightarrow> int" where
  "negacyclic n a b k = (\<Sum>i<n. if i \<le> k then a i * b (k - i) else - (a i * b (n + k - i)))"

lemma negacyclic_row:
  fixes z q :: int
  assumes "z ^ n mod q = - 1 mod q" "i < n"
  shows "(\<Sum>k<n. (if i \<le> k then b (k - i) else - b (n + k - i)) * z ^ k) mod q = (\<Sum>j<n. b j * z ^ (i + j)) mod q"
proof -
  let ?f = "\<lambda>k. (if i \<le> k then b (k - i) else - b (n + k - i)) * z ^ k"
  have up: "(\<Sum>k=i..<n. ?f k) = (\<Sum>j<n - i. b j * z ^ (i + j))"
    using sum.shift_bounds_nat_ivl [of ?f 0 i "n - i"] assms(2)
    by (simp add: lessThan_atLeast0 add.commute)
  have "(\<Sum>j=n - i..<n. b j * z ^ (i + j)) = (\<Sum>k<i. b (n + k - i) * z ^ (n + k))"
    using sum.shift_bounds_nat_ivl [of "\<lambda>j. b j * z ^ (i + j)" 0 "n - i" i] assms(2)
    by (simp add: lessThan_atLeast0 add.commute add.left_commute)
  also have "\<dots> mod q = (\<Sum>k<i. ?f k) mod q"
  proof (rule sum_mod_eqI)
    fix k
    assume "k < i"
    have "z ^ (n + k) mod q = - (z ^ k) mod q"
      unfolding power_add using mod_mult_cong [OF assms(1) refl [of "z ^ k mod q"]] by simp
    then have "b (n + k - i) * z ^ (n + k) mod q = b (n + k - i) * (- (z ^ k)) mod q"
      by (rule mod_mult_cong [OF refl])
    then show "b (n + k - i) * z ^ (n + k) mod q = ?f k mod q" using \<open>k < i\<close> by simp
  qed
  finally have low: "(\<Sum>j=n - i..<n. b j * z ^ (i + j)) mod q = (\<Sum>k<i. ?f k) mod q" .
  have "(\<Sum>k<n. ?f k) = (\<Sum>k<i. ?f k) + (\<Sum>k=i..<n. ?f k)"
    unfolding lessThan_atLeast0 by (rule sum.atLeastLessThan_concat [symmetric]) (use assms(2) in simp_all)
  moreover have "(\<Sum>j<n. b j * z ^ (i + j)) = (\<Sum>j<n - i. b j * z ^ (i + j)) + (\<Sum>j=n - i..<n. b j * z ^ (i + j))"
    by (simp add: lessThan_atLeast0 sum.atLeastLessThan_concat)
  ultimately show ?thesis unfolding up using mod_add_cong [OF low refl [of "(\<Sum>j<n - i. b j * z ^ (i + j)) mod q"]]
    by (simp add: add.commute)
qed

lemma negacyclic_eval:
  fixes z q :: int
  assumes "z ^ n mod q = - 1 mod q"
  shows "(\<Sum>k<n. negacyclic n a b k * z ^ k) mod q = (\<Sum>i<n. a i * z ^ i) * (\<Sum>j<n. b j * z ^ j) mod q"
proof -
  have "(\<Sum>k<n. negacyclic n a b k * z ^ k)
      = (\<Sum>k<n. \<Sum>i<n. a i * ((if i \<le> k then b (k - i) else - b (n + k - i)) * z ^ k))"
    unfolding negacyclic_def sum_distrib_right
    by (intro sum.cong refl) (simp add: if_distrib [of "\<lambda>x. x * _"] mult.assoc)
  also have "\<dots> = (\<Sum>i<n. a i * (\<Sum>k<n. (if i \<le> k then b (k - i) else - b (n + k - i)) * z ^ k))"
    by (subst sum.swap) (simp add: sum_distrib_left)
  also have "\<dots> mod q = (\<Sum>i<n. a i * (\<Sum>j<n. b j * z ^ (i + j))) mod q"
    by (rule sum_mod_eqI) (rule mod_mult_cong [OF refl negacyclic_row [OF assms]])
  also have "(\<Sum>i<n. a i * (\<Sum>j<n. b j * z ^ (i + j))) = (\<Sum>i<n. a i * z ^ i) * (\<Sum>j<n. b j * z ^ j)"
    unfolding sum_product by (simp add: sum_distrib_left power_add mult.assoc mult.left_commute)
  finally show ?thesis .
qed

section \<open>Tables and the transforms over them\<close>

text \<open>
  What \<^verbatim>\<open>PreCompute\<close> provides for a modulus and a length \<open>2 ^ L\<close>: the powers of a root in bit-reversed
  order, those of its inverse, the inverse of the length, and Shoup's constants of all of them.
\<close>

record (overloaded) 'a ntt_tables =
  nt_modulus :: "'a::len word"
  nt_root :: "'a nvec"
  nt_rootI :: "'a nvec"
  nt_precon :: "'a nvec"
  nt_preconI :: "'a nvec"
  nt_orderInv :: "'a word"
  nt_preconOrderInv :: "'a word"

definition fwd_of :: "'a::len ntt_tables \<Rightarrow> 'a pre_tables" where
  "fwd_of N = (nt_modulus N, nt_root N, nt_precon N)"

definition inv_of :: "'a::len ntt_tables \<Rightarrow> 'a pre_tables" where
  "inv_of N = (nt_modulus N, nt_rootI N, nt_preconI N)"

definition ntt_tables_ok :: "'a::len ntt_tables \<Rightarrow> nat \<Rightarrow> bool" where
  "ntt_tables_ok N L \<longleftrightarrow>
     (\<forall>k. 0 < k \<and> k < 2 ^ L \<longrightarrow> pre_ready (fwd_of N) k \<and> pre_ready (inv_of N) k
        \<and> pre_omega (fwd_of N) k * pre_omega (inv_of N) k mod uint (nt_modulus N) = 1 mod uint (nt_modulus N))
     \<and> roots_ok (uint (nt_modulus N)) (pre_omega (fwd_of N)) L
     \<and> residue (nt_modulus N) (nt_orderInv N)
     \<and> PrepModMulConst (nt_orderInv N) (nt_modulus N) = Inr (nt_preconOrderInv N)
     \<and> uint (nt_orderInv N) * 2 ^ L mod uint (nt_modulus N) = 1 mod uint (nt_modulus N)
     \<and> 0 < L \<and> L < 32"

definition ntt_forward_of :: "'a::len ntt_tables \<Rightarrow> 'a nvec \<Rightarrow> 'a nvec result" where
  "ntt_forward_of N = ForwardTransformToBitReverseInPlace (nt_root N) (nt_precon N)"

definition ntt_inverse_of :: "'a::len ntt_tables \<Rightarrow> 'a nvec \<Rightarrow> 'a nvec result" where
  "ntt_inverse_of N = InverseTransformFromBitReverseInPlace (nt_rootI N) (nt_preconI N) (nt_orderInv N) (nt_preconOrderInv N)"

text \<open>Elements that fit the tables.\<close>

definition fits :: "'a::len ntt_tables \<Rightarrow> nat \<Rightarrow> 'a nvec \<Rightarrow> bool" where
  "fits N L el \<longleftrightarrow> m_modulus el = nt_modulus N \<and> length (m_data el) = 2 ^ L \<and> nvec_ok el"

lemma fits_residues: "fits N L el \<Longrightarrow> residues (nt_modulus N) (m_data el)"
  by (auto simp: fits_def nvec_ok_def residues_def)

definition eval_point :: "'a::len ntt_tables \<Rightarrow> nat \<Rightarrow> nat \<Rightarrow> int" where
  "eval_point N L i = node_root (pre_omega (fwd_of N)) (2 ^ L + i)"

lemma ntt_forward_value:
  assumes "ntt_tables_ok N L" "fits N L el"
  obtains el' where "ntt_forward_of N el = Inr el'" "fits N L el'"
    "\<And>i. i < 2 ^ L \<Longrightarrow> uint (m_data el' ! i) = poly_eval (m_data el) (eval_point N L i) mod uint (nt_modulus N)"
    "m_data el' = stages (\<lambda>k. fwd_butterfly (nt_modulus N) (pre_mul (fwd_of N) k)) L L (m_data el)"
proof -
  let ?T = "fwd_of N" and ?q = "nt_modulus N"
  let ?ys = "stages (\<lambda>k. fwd_butterfly (fst ?T) (pre_mul ?T k)) L L (m_data el)"
  have T: "fst ?T = ?q" by (simp add: fwd_of_def)
  have len: "length (m_data el) = 2 ^ L" and md: "m_modulus el = ?q" using assms(2) by (simp_all add: fits_def)
  have rdy: "pre_ready ?T k" if "0 < k" "k < 2 ^ L" for k using assms(1) that by (simp add: ntt_tables_ok_def)
  have res: "residues (fst ?T) (m_data el)" using fits_residues [OF assms(2)] by (simp add: T)
  have ok: "residues (fst ?T) ?ys" by (rule fwd_pre.stages_residues) (use rdy len res in auto)
  have roots: "roots_ok (uint (fst ?T)) (pre_omega ?T) L" using assms(1) by (simp add: T ntt_tables_ok_def)
  have "uint (?ys ! i) = poly_eval (m_data el) (eval_point N L i) mod uint ?q" if "i < 2 ^ L" for i
  proof -
    have "uint (?ys ! i) mod uint ?q = poly_eval (m_data el) (eval_point N L i) mod uint ?q"
      using fwd_pre.stages_eval [OF rdy len res le_refl roots that, of "eval_point N L i"]
      by (simp add: eval_point_def T)
    moreover have "residue ?q (?ys ! i)" using ok that len by (auto simp: T intro!: residues_nth)
    ultimately show ?thesis by (simp add: residue_def)
  qed
  moreover have "ntt_forward_of N el = Inr (el \<lparr> m_data := ?ys \<rparr>)"
    using ForwardTransformToBitReverseInPlace_eq [of L el "nt_root N" "nt_precon N"] rdy len assms(1)
    by (simp add: ntt_forward_of_def ntt_tables_ok_def fwd_of_def md)
  moreover have "fits N L (el \<lparr> m_data := ?ys \<rparr>)"
    using ok assms(2) by (auto simp: fits_def nvec_ok_def residues_def T in_set_conv_nth)
  ultimately show thesis using that [of "el \<lparr> m_data := ?ys \<rparr>"] by (simp add: T)
qed

lemma prod_first_scaled: "prod (\<lambda>j. (if j = 0 then c else 1) * 2) {..<Suc n} = (c :: int) * 2 ^ Suc n"
  by (induction n) (simp_all add: prod.lessThan_Suc)

lemma ntt_inverse_forward:
  assumes "ntt_tables_ok N L" "fits N L el" "ntt_forward_of N el = Inr el'"
  shows "ntt_inverse_of N el' = Inr el"
proof -
  let ?T = "fwd_of N" and ?q = "nt_modulus N" and ?c = "uint (nt_orderInv N)"
  let ?U = "\<lparr> it_tables = inv_of N, it_order_inv = nt_orderInv N,
      it_precon_order_inv = nt_preconOrderInv N, it_first = 2 ^ (L - 1) \<rparr>"
  let ?ys = "stages (\<lambda>k. fwd_butterfly (fst ?T) (pre_mul ?T k)) L L (m_data el)"
  have T: "fst ?T = ?q" "fst (inv_of N) = ?q" by (simp_all add: fwd_of_def inv_of_def)
  have L: "0 < L" "L < 32" using assms(1) by (simp_all add: ntt_tables_ok_def)
  have len: "length (m_data el) = 2 ^ L" and md: "m_modulus el = ?q" using assms(2) by (simp_all add: fits_def)
  obtain el2 where "ntt_forward_of N el = Inr el2" "fits N L el2" "m_data el2 = ?ys"
    using ntt_forward_value [OF assms(1,2)] T by metis
  then have el': "fits N L el'" "m_data el' = ?ys" using assms(3) by simp_all
  then have len': "length (m_data el') = 2 ^ L" and md': "m_modulus el' = ?q" by (simp_all add: fits_def)
  have rdy: "pre_ready ?T k \<and> it_ready ?U k
      \<and> pre_omega ?T k * pre_omega (it_tables ?U) k mod uint (fst ?T) = 1 mod uint (fst ?T)"
    if "0 < k" "k < 2 ^ L" for k
    using assms(1) that by (simp add: ntt_tables_ok_def it_ready_def T)
  have kap: "it_kappa ?U k = (if s = 0 then ?c else 1)" if "s < L" "2 ^ (L - Suc s) \<le> k" "k < 2 ^ (L - s)" for s k
  proof (cases "s = 0")
    case True
    then show ?thesis using that by (simp add: it_kappa_def)
  next
    case False
    then have "(2::nat) ^ (L - s) \<le> 2 ^ (L - 1)" by (intro power_increasing) auto
    with that(3) have "k < 2 ^ (L - 1)" by (rule less_le_trans)
    then show ?thesis using False by (simp add: it_kappa_def)
  qed
  have "scaled_by (uint (fst ?T)) (prod (\<lambda>j. (if j = 0 then ?c else 1) * 2) {..<L})
      (stages (\<lambda>k. fwd_butterfly (fst ?T) (pre_mul ?T k)) L (L - L) (m_data el)) (inv_stages (it_bfly ?U) L L ?ys)"
    by (rule pre_pair.inverse_stages)
       (use rdy kap len fits_residues [OF assms(2)] in \<open>auto simp: T\<close>)
  moreover have "prod (\<lambda>j. (if j = 0 then ?c else 1) * 2) {..<L} = ?c * 2 ^ L"
    using prod_first_scaled [of ?c "L - 1"] L by simp
  moreover have "?c * 2 ^ L mod uint ?q = 1 mod uint ?q" using assms(1) by (simp add: ntt_tables_ok_def)
  ultimately have "inv_stages (it_bfly ?U) L L ?ys = m_data el"
    using scaled_by_one [of ?q] fits_residues [OF assms(2)] by (simp add: T)
  then have "ntt_inverse_of N el' = Inr (el' \<lparr> m_data := m_data el \<rparr>)"
    using InverseTransformFromBitReverseInPlace_eq [of L el' "nt_rootI N" "nt_preconI N"] len' L rdy el'(2)
    by (simp add: ntt_inverse_of_def md' it_ready_def inv_of_def)
  then show ?thesis using md md' by simp
qed

text \<open>The product of two transforms is the transform of the negacyclic product.\<close>

definition nega_vec :: "nat \<Rightarrow> 'a::len nvec \<Rightarrow> 'a nvec \<Rightarrow> 'a nvec" where
  "nega_vec n a b = a \<lparr> m_data := map (\<lambda>k. word_of_int (negacyclic n ((!) (vals a)) ((!) (vals b)) k
     mod uint (m_modulus a))) [0..<n] \<rparr>"

lemma nega_vec_entry:
  assumes "0 < uint (m_modulus a)" "k < n"
  shows "uint (m_data (nega_vec n a b) ! k)
    = negacyclic n ((!) (vals a)) ((!) (vals b)) k mod uint (m_modulus a)"
proof -
  let ?x = "negacyclic n ((!) (vals a)) ((!) (vals b)) k mod uint (m_modulus a)"
  have "0 \<le> ?x" "?x < 2 ^ LENGTH('a)"
    using assms(1) pos_mod_bound [OF assms(1)] uint_lt_pow [of "m_modulus a"] by (simp, metis less_trans)
  then have "uint (word_of_int ?x :: 'a word) = ?x" by (simp add: uint_word_of_int)
  then show ?thesis using assms(2) by (simp add: nega_vec_def)
qed

lemma fits_nega_vec:
  assumes "fits N L a"
  shows "fits N L (nega_vec (2 ^ L) a b)"
proof -
  have m: "modulus_ok (m_modulus a)" using assms by (auto simp: fits_def nvec_ok_def)
  then have pos: "0 < uint (m_modulus a)" by (rule modulus_okD)
  have len: "length (m_data (nega_vec (2 ^ L) a b)) = 2 ^ L" "m_modulus (nega_vec (2 ^ L) a b) = m_modulus a"
    by (simp_all add: nega_vec_def)
  have "residue (m_modulus a) (m_data (nega_vec (2 ^ L) a b) ! k)" if "k < 2 ^ L" for k
    using residue_uint_mod [OF nega_vec_entry [OF pos that] pos] .
  then show ?thesis
    using assms m len by (auto simp: fits_def nvec_ok_def in_set_conv_nth)
qed

lemma poly_eval_nega_vec:
  assumes "z ^ 2 ^ L mod uint q = - 1 mod uint q" "m_modulus a = q" "0 < uint q"
    "length (m_data a) = 2 ^ L" "length (m_data b) = 2 ^ L"
  shows "poly_eval (m_data (nega_vec (2 ^ L) a b)) z mod uint q
    = poly_eval (m_data a) z * poly_eval (m_data b) z mod uint q"
proof -
  have "poly_eval (m_data (nega_vec (2 ^ L) a b)) z mod uint q
      = (\<Sum>k<2 ^ L. negacyclic (2 ^ L) ((!) (vals a)) ((!) (vals b)) k * z ^ k) mod uint q"
    unfolding poly_eval_def
  proof -
    have "length (m_data (nega_vec (2 ^ L) a b)) = 2 ^ L" by (simp add: nega_vec_def)
    then show "(\<Sum>j<length (m_data (nega_vec (2 ^ L) a b)). uint (m_data (nega_vec (2 ^ L) a b) ! j) * z ^ j) mod uint q
        = (\<Sum>k<2 ^ L. negacyclic (2 ^ L) ((!) (vals a)) ((!) (vals b)) k * z ^ k) mod uint q"
      using assms(2,3) by (auto intro!: sum_mod_eqI simp: nega_vec_entry mod_mult_left_eq)
  qed
  also have "\<dots> = (\<Sum>i<2 ^ L. vals a ! i * z ^ i) * (\<Sum>j<2 ^ L. vals b ! j * z ^ j) mod uint q"
    by (rule negacyclic_eval [OF assms(1)])
  also have "\<dots> = poly_eval (m_data a) z * poly_eval (m_data b) z mod uint q"
    using assms(4,5) by (simp add: poly_eval_def vals_def)
  finally show ?thesis .
qed

lemma eval_point_power:
  assumes "ntt_tables_ok N L" "i < 2 ^ L"
  shows "eval_point N L i ^ 2 ^ L mod uint (nt_modulus N) = - 1 mod uint (nt_modulus N)"
  unfolding eval_point_def
  by (rule node_root_power [OF _ le_refl]) (use assms in \<open>simp_all add: ntt_tables_ok_def\<close>)

lemma ntt_product:
  assumes "ntt_tables_ok N L" "fits N L a" "fits N L b" "barrett_modulus (nt_modulus N)"
    and "ntt_forward_of N a = Inr fa" "ntt_forward_of N b = Inr fb"
  shows "vec_ModMul fa fb = ntt_forward_of N (nega_vec (2 ^ L) a b)"
proof -
  let ?q = "nt_modulus N" and ?c = "nega_vec (2 ^ L) a b"
  have q: "m_modulus a = ?q" "0 < uint ?q" "length (m_data a) = 2 ^ L" "length (m_data b) = 2 ^ L"
    using assms(2,3) modulus_okD [of ?q] by (auto simp: fits_def nvec_ok_def)
  obtain fc where fc: "ntt_forward_of N ?c = Inr fc" "fits N L fc"
      "\<And>i. i < 2 ^ L \<Longrightarrow> uint (m_data fc ! i) = poly_eval (m_data ?c) (eval_point N L i) mod uint ?q"
    using ntt_forward_value [OF assms(1) fits_nega_vec [OF assms(2)]] by metis
  have fa: "fits N L fa" "\<And>i. i < 2 ^ L \<Longrightarrow> uint (m_data fa ! i) = poly_eval (m_data a) (eval_point N L i) mod uint ?q"
    using ntt_forward_value [OF assms(1,2)] assms(5) by (metis sum.inject(2))+
  have fb: "fits N L fb" "\<And>i. i < 2 ^ L \<Longrightarrow> uint (m_data fb ! i) = poly_eval (m_data b) (eval_point N L i) mod uint ?q"
    using ntt_forward_value [OF assms(1,3)] assms(6) by (metis sum.inject(2))+
  have "nvec_ok fa" "nvec_ok fb" "same_shape fa fb" "barrett_modulus (m_modulus fa)"
    using fa(1) fb(1) assms(4) by (simp_all add: fits_def same_shape_def)
  then obtain p where p: "vec_ModMul fa fb = Inr p" "nvec_ok p" "m_modulus p = m_modulus fa"
      "vals p = map2 (\<lambda>x y. x * y mod uint (m_modulus fa)) (vals fa) (vals fb)"
    using vec_ModMul_value by metis
  have len: "length (m_data p) = 2 ^ L"
    using p(4) fa(1) fb(1) by (metis (no_types, lifting) fits_def length_map length_vals length_zip min.idem)
  have "m_data p ! i = m_data fc ! i" if "i < 2 ^ L" for i
  proof -
    have "uint (m_data p ! i) = vals p ! i" using that len by (simp add: vals_def)
    also have "\<dots> = uint (m_data fa ! i) * uint (m_data fb ! i) mod uint ?q"
      unfolding p(4) using that fa(1) fb(1) by (simp add: vals_def fits_def)
    also have "\<dots> = poly_eval (m_data a) (eval_point N L i) * poly_eval (m_data b) (eval_point N L i) mod uint ?q"
      by (simp add: fa(2) fb(2) that mod_mult_eq)
    also have "\<dots> = uint (m_data fc ! i)"
      using poly_eval_nega_vec [OF eval_point_power [OF assms(1) that] q] fc(3) [OF that] by simp
    finally show ?thesis by (simp add: word_uint_eq_iff)
  qed
  then have "m_data p = m_data fc"
    using len fc(2) by (intro nth_equalityI) (simp_all add: fits_def)
  moreover have "m_modulus p = m_modulus fc" using p(3) fa(1) fc(2) by (simp add: fits_def)
  ultimately show ?thesis using p(1) fc(1) by simp
qed

section \<open>The variants compute the same transform\<close>

lemma stage_cong:
  assumes "\<And>k a b. m \<le> k \<Longrightarrow> k < 2 * m \<Longrightarrow> residue q a \<Longrightarrow> residue q b \<Longrightarrow> F k a b = G k a b"
    and "length xs = 2 * t * m" "residues q xs"
  shows "stage F m t xs = stage G m t xs"
proof (rule nth_equalityI)
  fix p
  assume "p < length (stage F m t xs)"
  then have "p < 2 * t * m" using assms(2) by simp
  then show "stage F m t xs ! p = stage G m t xs ! p"
  proof (cases rule: position_cases)
    case (1 i r)
    then have b: "2 * t * i + t + r < length xs" using block_bound assms(2) by simp
    then show ?thesis
      using 1 assms(1) [of "m + i"] assms(3) stage_lo [OF b 1(2)] by (simp add: residues_nth)
  next
    case (2 i r)
    then have b: "2 * t * i + t + r < length xs" using block_bound assms(2) by simp
    then show ?thesis
      using 2 assms(1) [of "m + i"] assms(3) stage_hi [OF b 2(2)] by (simp add: residues_nth)
  qed
qed simp

lemma stages_cong:
  assumes "\<And>k a b. 0 < k \<Longrightarrow> k < 2 ^ L \<Longrightarrow> residue q a \<Longrightarrow> residue q b \<Longrightarrow> F k a b = G k a b"
    and "\<And>s. s \<le> L \<Longrightarrow> residues q (stages G L s xs)" "length xs = 2 ^ L" "s \<le> L"
  shows "stages F L s xs = stages G L s xs"
  using assms(4)
proof (induction s)
  case (Suc s)
  then have s: "s < L" by simp
  have "2 * 2 ^ s \<le> (2::nat) ^ L" using power_increasing [of "Suc s" L "2::nat"] s by simp
  moreover have "0 < (2::nat) ^ s" by simp
  ultimately have "stage F (2 ^ s) (2 ^ (L - Suc s)) (stages G L s xs) = stage G (2 ^ s) (2 ^ (L - Suc s)) (stages G L s xs)"
    using s two_powers(1) [OF s] assms(2) [of s] assms(3)
    by (intro stage_cong [where q = q]) (auto intro!: assms(1))
  then show ?case using Suc s by simp
qed simp

definition mu_fwd_of :: "'a::len ntt_tables \<Rightarrow> 'a mu_tables" where
  "mu_fwd_of N = (nt_modulus N, nt_root N)"

definition mu_inv_of :: "'a::len ntt_tables \<Rightarrow> 'a mu_tables" where
  "mu_inv_of N = (nt_modulus N, nt_rootI N)"

lemma mu_ready_of:
  assumes "ntt_tables_ok N L" "barrett_modulus (nt_modulus N)" "0 < k" "k < 2 ^ L"
  shows "mu_ready (mu_fwd_of N) k" "mu_ready (mu_inv_of N) k"
    "mu_omega (mu_fwd_of N) k = pre_omega (fwd_of N) k" "mu_omega (mu_inv_of N) k = pre_omega (inv_of N) k"
  using assms
  by (auto simp: ntt_tables_ok_def mu_ready_def pre_ready_def mu_fwd_of_def mu_inv_of_def fwd_of_def inv_of_def
      mu_omega_def pre_omega_def)

lemma butterflies_agree:
  assumes "ntt_tables_ok N L" "barrett_modulus (nt_modulus N)" "0 < k" "k < 2 ^ L"
    and "residue (nt_modulus N) a" "residue (nt_modulus N) b"
  shows "fwd_butterfly (nt_modulus N) (mu_mul (mu_fwd_of N) k) a b = fwd_butterfly (nt_modulus N) (pre_mul (fwd_of N) k) a b"
    "fwd_butterfly_skip (nt_modulus N) (mu_mul (mu_fwd_of N) k) a b = fwd_butterfly (nt_modulus N) (pre_mul (fwd_of N) k) a b"
    "fwd_butterfly_skip (nt_modulus N) (pre_mul (fwd_of N) k) a b = fwd_butterfly (nt_modulus N) (pre_mul (fwd_of N) k) a b"
proof -
  have p: "pre_ready (fwd_of N) k" using assms by (simp add: ntt_tables_ok_def)
  note m = mu_ready_of [OF assms(1-4)]
  have q: "fst (fwd_of N) = nt_modulus N" "fst (mu_fwd_of N) = nt_modulus N" by (simp_all add: fwd_of_def mu_fwd_of_def)
  note r = assms(5,6) [folded q(1)] assms(5,6) [folded q(2)]
  show "fwd_butterfly (nt_modulus N) (mu_mul (mu_fwd_of N) k) a b = fwd_butterfly (nt_modulus N) (pre_mul (fwd_of N) k) a b"
    using fwd_mu.bfly_lo [OF m(1) r(3,4)] fwd_mu.bfly_hi [OF m(1) r(3,4)]
      fwd_pre.bfly_lo [OF p r(1,2)] fwd_pre.bfly_hi [OF p r(1,2)]
    by (simp add: q m(3) prod_eq_iff word_uint_eq_iff)
  show "fwd_butterfly_skip (nt_modulus N) (mu_mul (mu_fwd_of N) k) a b = fwd_butterfly (nt_modulus N) (pre_mul (fwd_of N) k) a b"
    using fwd_mu_skip.bfly_lo [OF m(1) r(3,4)] fwd_mu_skip.bfly_hi [OF m(1) r(3,4)]
      fwd_pre.bfly_lo [OF p r(1,2)] fwd_pre.bfly_hi [OF p r(1,2)]
    by (simp add: q m(3) prod_eq_iff word_uint_eq_iff)
  show "fwd_butterfly_skip (nt_modulus N) (pre_mul (fwd_of N) k) a b = fwd_butterfly (nt_modulus N) (pre_mul (fwd_of N) k) a b"
    using fwd_pre_skip.bfly_lo [OF p r(1,2)] fwd_pre_skip.bfly_hi [OF p r(1,2)]
      fwd_pre.bfly_lo [OF p r(1,2)] fwd_pre.bfly_hi [OF p r(1,2)]
    by (simp add: q prod_eq_iff word_uint_eq_iff)
qed

lemma ntt_inverse_mu:
  assumes "ntt_tables_ok N L" "barrett_modulus (nt_modulus N)" "fits N L el"
    and "ForwardTransformToBitReverseInPlace_mu (nt_root N) el = Inr el'"
  shows "InverseTransformFromBitReverseInPlace_mu (nt_rootI N) (nt_orderInv N) el' = Inr el"
proof -
  let ?T = "mu_fwd_of N" and ?U = "mu_inv_of N" and ?q = "nt_modulus N" and ?c = "uint (nt_orderInv N)"
  let ?ys = "stages (\<lambda>k. fwd_butterfly (fst ?T) (mu_mul ?T k)) L L (m_data el)"
  have q: "fst ?T = ?q" "fst ?U = ?q" by (simp_all add: mu_fwd_of_def mu_inv_of_def)
  have L: "0 < L" "L < 32" using assms(1) by (simp_all add: ntt_tables_ok_def)
  have el: "length (m_data el) = 2 ^ L" "m_modulus el = ?q" using assms(3) by (simp_all add: fits_def)
  note m = mu_ready_of [OF assms(1,2)]
  have el': "el' = el \<lparr> m_data := ?ys \<rparr>"
    using ForwardTransformToBitReverseInPlace_mu_eq [of L el "nt_root N"] m(1) el L assms(4)
    by (simp add: q mu_fwd_of_def)
  have "scaled_by (uint (fst ?T)) (prod (\<lambda>j. 1 * 2) {..<L})
      (stages (\<lambda>k. fwd_butterfly (fst ?T) (mu_mul ?T k)) L (L - L) (m_data el)) (inv_stages (mu_ibfly ?U) L L ?ys)"
    by (rule mu_pair.inverse_stages)
       (use m assms(1) el fits_residues [OF assms(3)] in \<open>auto simp: q ntt_tables_ok_def\<close>)
  then have sc: "scaled_by (uint ?q) (2 ^ L) (m_data el) (inv_stages (mu_ibfly ?U) L L ?ys)" by (simp add: q)
  let ?zs = "map (\<lambda>x. ModMulFastEq_mu x (nt_orderInv N) ?q (mu_of ?q)) (inv_stages (mu_ibfly ?U) L L ?ys)"
  have "scaled_by (uint ?q) (?c * 2 ^ L) (m_data el) ?zs"
    unfolding scaled_by_def
  proof (intro conjI allI impI)
    fix p
    assume p: "p < length (m_data el)"
    let ?x = "inv_stages (mu_ibfly ?U) L L ?ys ! p"
    have x: "uint ?x = 2 ^ L * uint (m_data el ! p) mod uint ?q" using sc p by (simp add: scaled_by_def)
    have "residue ?q ?x" "residue ?q (nt_orderInv N)"
      using residue_uint_mod [OF x] barrett_modulus_facts(2) [OF assms(2)] assms(1) by (simp_all add: ntt_tables_ok_def)
    then have "uint (ModMulFastEq_mu ?x (nt_orderInv N) ?q (mu_of ?q)) = uint ?x * ?c mod uint ?q"
      unfolding in_place_variants
      by (intro uint_ModMulFast_mu assms(2) ComputeMu_mu_of [OF assms(2)] residue_prod_lt)
    then show "uint (?zs ! p) = ?c * 2 ^ L * uint (m_data el ! p) mod uint ?q"
      using p sc by (simp add: x scaled_by_def mod_mult_right_eq mult.commute mult.left_commute)
  qed (use sc in \<open>simp add: scaled_by_def\<close>)
  then have "?zs = m_data el"
    by (rule scaled_by_one) (use assms(1) fits_residues [OF assms(3)] in \<open>simp_all add: ntt_tables_ok_def\<close>)
  then show ?thesis
    using InverseTransformFromBitReverseInPlace_mu_eq [of L el' "nt_rootI N" "nt_orderInv N"] m(2) el el' L
    by (simp add: q mu_inv_of_def)
qed

section \<open>Properties\<close>

text \<open>C35.  The four forward transforms, with Barrett's or Shoup's multiplication, in place or into a result
  with zero factors skipped, return the same vector, and the two inverse transforms return the
  original vector from it.
\<close>

theorem NTT_variants_agree:
  fixes el :: "'a::len nvec"
  assumes "ntt_tables_ok N L" "barrett_modulus (nt_modulus N)" "fits N L el"
    and "length (m_data res) = 2 ^ L" "GetMSB (nt_modulus N) \<le> MAX_MODULUS_SIZE LENGTH('a)"
  shows "\<exists>f. ForwardTransformToBitReverseInPlace (nt_root N) (nt_precon N) el = Inr f
    \<and> ForwardTransformToBitReverseInPlace_mu (nt_root N) el = Inr f
    \<and> ForwardTransformToBitReverse el (nt_root N) (nt_precon N) res = Inr f
    \<and> ForwardTransformToBitReverse_mu el (nt_root N) res = Inr f
    \<and> InverseTransformFromBitReverseInPlace (nt_rootI N) (nt_preconI N) (nt_orderInv N) (nt_preconOrderInv N) f = Inr el
    \<and> InverseTransformFromBitReverseInPlace_mu (nt_rootI N) (nt_orderInv N) f = Inr el"
proof -
  let ?q = "nt_modulus N"
  let ?G = "\<lambda>k. fwd_butterfly ?q (pre_mul (fwd_of N) k)"
  have el: "length (m_data el) = 2 ^ L" "m_modulus el = ?q" using assms(3) by (simp_all add: fits_def)
  have L: "0 < L" "L < 32" using assms(1) by (simp_all add: ntt_tables_ok_def)
  have T: "fst (fwd_of N) = ?q" by (simp add: fwd_of_def)
  have p: "pre_ready (fwd_of N) k" if "0 < k" "k < 2 ^ L" for k using assms(1) that by (simp add: ntt_tables_ok_def)
  have res: "residues ?q (stages ?G L s (m_data el))" if "s \<le> L" for s
    using fwd_pre.stages_residues [OF p, of L "m_data el" s] that el fits_residues [OF assms(3)] by (simp add: T)
  have c: "stages F L L (m_data el) = stages ?G L L (m_data el)"
    if "\<And>k a b. 0 < k \<Longrightarrow> k < 2 ^ L \<Longrightarrow> residue ?q a \<Longrightarrow> residue ?q b \<Longrightarrow> F k a b = ?G k a b" for F
    using stages_cong [OF that res el(1) le_refl] by blast
  note b = butterflies_agree [OF assms(1,2)]
  let ?f = "el \<lparr> m_data := stages ?G L L (m_data el) \<rparr>"
  have 1: "ForwardTransformToBitReverseInPlace (nt_root N) (nt_precon N) el = Inr ?f"
    using ForwardTransformToBitReverseInPlace_eq [of L el "nt_root N" "nt_precon N"] p el L by (simp add: fwd_of_def)
  have 2: "ForwardTransformToBitReverseInPlace_mu (nt_root N) el = Inr ?f"
    using ForwardTransformToBitReverseInPlace_mu_eq [of L el "nt_root N"] mu_ready_of(1) [OF assms(1,2)] el L c [OF b(1)]
    by (simp add: mu_fwd_of_def)
  have 3: "ForwardTransformToBitReverse el (nt_root N) (nt_precon N) res = Inr ?f"
    using ForwardTransformToBitReverse_eq [of L el "nt_root N" "nt_precon N" res] p el L c [OF b(3)] assms(4,5)
    by (simp add: fwd_of_def)
  have 4: "ForwardTransformToBitReverse_mu el (nt_root N) res = Inr ?f"
    using ForwardTransformToBitReverse_mu_eq [of L el "nt_root N" res] mu_ready_of(1) [OF assms(1,2)] el L c [OF b(2)]
      assms(4,5)
    by (simp add: mu_fwd_of_def)
  have 5: "InverseTransformFromBitReverseInPlace (nt_rootI N) (nt_preconI N) (nt_orderInv N) (nt_preconOrderInv N) ?f = Inr el"
    using ntt_inverse_forward [OF assms(1,3)] 1 by (simp add: ntt_forward_of_def ntt_inverse_of_def)
  show ?thesis using 1 2 3 4 5 ntt_inverse_mu [OF assms(1-3) 2] by blast
qed

text \<open>The tables of the root 2 modulo 17, for vectors of length 4.\<close>

definition example_tables :: "32 ntt_tables" where
  "example_tables = \<lparr> nt_modulus = 17,
     nt_root = \<lparr> m_modulus = 17, m_data = [1, 4, 2, 8] \<rparr>,
     nt_rootI = \<lparr> m_modulus = 17, m_data = [1, 13, 9, 15] \<rparr>,
     nt_precon = \<lparr> m_modulus = 17, m_data = [252645135, 1010580540, 505290270, 2021161080] \<rparr>,
     nt_preconI = \<lparr> m_modulus = 17, m_data = [252645135, 3284386755, 2273806215, 3789677025] \<rparr>,
     nt_orderInv = 13, nt_preconOrderInv = 3284386755 \<rparr>"

definition example_vec :: "32 nvec" where
  "example_vec = \<lparr> m_modulus = 17, m_data = [3, 16, 0, 5] \<rparr>"

lemma ntt_tables_okI:
  assumes "list_all (\<lambda>k. pre_ready (fwd_of N) k \<and> pre_ready (inv_of N) k
      \<and> pre_omega (fwd_of N) k * pre_omega (inv_of N) k mod uint (nt_modulus N) = 1 mod uint (nt_modulus N)
      \<and> (pre_omega (fwd_of N) k)\<^sup>2 mod uint (nt_modulus N) = node_root (pre_omega (fwd_of N)) k mod uint (nt_modulus N))
      [1..<2 ^ L]"
    and "residue (nt_modulus N) (nt_orderInv N)
      \<and> PrepModMulConst (nt_orderInv N) (nt_modulus N) = Inr (nt_preconOrderInv N)
      \<and> uint (nt_orderInv N) * 2 ^ L mod uint (nt_modulus N) = 1 mod uint (nt_modulus N) \<and> 0 < L \<and> L < 32"
  shows "ntt_tables_ok N L"
  using assms by (auto simp: ntt_tables_ok_def roots_ok_def list_all_iff)

theorem NTT_variants_agree_witness:
  "\<exists>f. ForwardTransformToBitReverseInPlace (nt_root example_tables) (nt_precon example_tables) example_vec = Inr f
    \<and> ForwardTransformToBitReverseInPlace_mu (nt_root example_tables) example_vec = Inr f
    \<and> ForwardTransformToBitReverse example_vec (nt_root example_tables) (nt_precon example_tables) (vec_zero 4 0) = Inr f
    \<and> ForwardTransformToBitReverse_mu example_vec (nt_root example_tables) (vec_zero 4 0) = Inr f
    \<and> InverseTransformFromBitReverseInPlace (nt_rootI example_tables) (nt_preconI example_tables)
        (nt_orderInv example_tables) (nt_preconOrderInv example_tables) f = Inr example_vec
    \<and> InverseTransformFromBitReverseInPlace_mu (nt_rootI example_tables) (nt_orderInv example_tables) f = Inr example_vec"
proof (rule NTT_variants_agree [where L = 2])
  show "ntt_tables_ok example_tables 2" by (rule ntt_tables_okI) code_simp+
qed code_simp+

end
