(* ===== verification/FTT.thy ===== *)
theory FTT
  imports NTT
begin

text \<open>
  The transforms with cached tables, \<^verbatim>\<open>ChineseRemainderTransformFTTNat\<close> in
  \<^verbatim>\<open>src/src/core/include/math/hal/intnat/transformnat-impl.h\<close>.

  \<open>ftt_cache\<close> has the six static maps from moduli to tables.  A transform takes the cache and
  returns it, extended by \<^verbatim>\<open>PreCompute\<close> when the modulus has no table of the right length.  The cache
  after an exception is not described.
\<close>

unbundle bit_operations_syntax

section \<open>Tables\<close>

record (overloaded) 'a ftt_cache =
  m_rootOfUnityReverseTableByModulus :: "'a::len word \<rightharpoonup> 'a nvec"
  m_rootOfUnityInverseReverseTableByModulus :: "'a word \<rightharpoonup> 'a nvec"
  m_rootOfUnityPreconReverseTableByModulus :: "'a word \<rightharpoonup> 'a nvec"
  m_rootOfUnityInversePreconReverseTableByModulus :: "'a word \<rightharpoonup> 'a nvec"
  m_cycloOrderInverseTableByModulus :: "'a word \<rightharpoonup> 'a nvec"
  m_cycloOrderInversePreconTableByModulus :: "'a word \<rightharpoonup> 'a nvec"

text \<open>\<^verbatim>\<open>operator[]\<close> of a map whose key is absent yields an empty vector.\<close>

definition lookup :: "('a::len word \<rightharpoonup> 'a nvec) \<Rightarrow> 'a word \<Rightarrow> 'a nvec" where
  "lookup m k = (case m k of None \<Rightarrow> vec_zero 0 0 | Some v \<Rightarrow> v)"

definition IsPowerOfTwo :: "'a::len word \<Rightarrow> bool" where
  "IsPowerOfTwo x \<longleftrightarrow> x \<noteq> 0 \<and> (x AND (x - 1)) = 0"

text \<open>The condition under which the transforms and \<^verbatim>\<open>PreCompute\<close> itself build tables.\<close>

definition needs_tables :: "'a::len ftt_cache \<Rightarrow> 'a word \<Rightarrow> nat \<Rightarrow> bool" where
  "needs_tables cache modulus n =
     (case m_rootOfUnityReverseTableByModulus cache modulus of
        None \<Rightarrow> True | Some t \<Rightarrow> length (m_data t) \<noteq> n)"

text \<open>The loop that fills the two tables of powers in bit-reversed order.\<close>

definition table_step ::
  "'a::len word \<Rightarrow> 'a word \<Rightarrow> 'a word \<Rightarrow> 'a word \<Rightarrow> nat \<Rightarrow> nat
     \<Rightarrow> 'a word \<times> 'a word \<times> 'a word list \<times> 'a word list
     \<Rightarrow> ('a word \<times> 'a word \<times> 'a word list \<times> 'a word list) result" where
  "table_step rt rtInv modulus mu msb i st =
     (case st of (x, xinv, T, TI) \<Rightarrow>
        let iinv = unat (ReverseBits (word_of_nat i) msb)
        in if iinv < length T \<and> iinv < length TI
           then Inr (ModMulEq_mu x rt modulus mu, ModMulEq_mu xinv rtInv modulus mu,
                     T[iinv := x], TI[iinv := xinv])
           else Inl undefined_behaviour)"

text \<open>\<^verbatim>\<open>IntType(1 << i)\<close>: the shift is one of \<^verbatim>\<open>int\<close>.\<close>

definition shifted_one :: "nat \<Rightarrow> 'a::len word result" where
  "shifted_one i = (if i < 32 then Inr (word_of_int (sint (push_bit i 1 :: 32 word))) else Inl undefined_behaviour)"

definition PreCompute :: "'a::len word \<Rightarrow> 32 word \<Rightarrow> 'a word \<Rightarrow> 'a ftt_cache \<Rightarrow> 'a ftt_cache result" where
  "PreCompute rootOfUnity CycloOrder modulus cache =
     (let n = unat (drop_bit 1 CycloOrder) in
      if \<not> needs_tables cache modulus n then Inr cache
      else
        let msb = GetMSB (drop_bit 1 CycloOrder - 1) in
        bindR (ComputeMu modulus) (\<lambda>mu.
        bindR (ModInverse rootOfUnity modulus) (\<lambda>rootInv.
        bindR (foldR (table_step rootOfUnity rootInv modulus mu msb) [0..<n] (1, 1, replicate n 0, replicate n 0))
        (\<lambda>(x, xinv, T, TI).
        bindR (mapR (\<lambda>i. bindR (shifted_one i) (\<lambda>v. ModInverse v modulus)) [0..<msb + 1]) (\<lambda>COI.
        bindR (mapR (\<lambda>v. PrepModMulConst v modulus) T) (\<lambda>P.
        bindR (mapR (\<lambda>v. PrepModMulConst v modulus) TI) (\<lambda>PI.
        bindR (mapR (\<lambda>v. PrepModMulConst v modulus) COI) (\<lambda>PCOI.
        let vec = (\<lambda>d. \<lparr> m_modulus = modulus, m_data = d \<rparr>) in
        Inr \<lparr> m_rootOfUnityReverseTableByModulus =
                (m_rootOfUnityReverseTableByModulus cache)(modulus \<mapsto> vec T),
              m_rootOfUnityInverseReverseTableByModulus =
                (m_rootOfUnityInverseReverseTableByModulus cache)(modulus \<mapsto> vec TI),
              m_rootOfUnityPreconReverseTableByModulus =
                (m_rootOfUnityPreconReverseTableByModulus cache)(modulus \<mapsto> vec P),
              m_rootOfUnityInversePreconReverseTableByModulus =
                (m_rootOfUnityInversePreconReverseTableByModulus cache)(modulus \<mapsto> vec PI),
              m_cycloOrderInverseTableByModulus =
                (m_cycloOrderInverseTableByModulus cache)(modulus \<mapsto> vec COI),
              m_cycloOrderInversePreconTableByModulus =
                (m_cycloOrderInversePreconTableByModulus cache)(modulus \<mapsto> vec PCOI) \<rparr>))))))))"

text \<open>\<^verbatim>\<open>PreCompute\<close> for chains of roots and moduli.\<close>

definition PreCompute_chain ::
  "'a::len word list \<Rightarrow> 32 word \<Rightarrow> 'a word list \<Rightarrow> 'a ftt_cache \<Rightarrow> 'a ftt_cache result" where
  "PreCompute_chain rootOfUnity CycloOrder moduliiChain cache =
     (if length rootOfUnity \<noteq> length moduliiChain then Inl math_error
      else foldR (\<lambda>i. PreCompute (rootOfUnity ! i) CycloOrder (moduliiChain ! i)) [0..<length rootOfUnity] cache)"

text \<open>The static maps at the start of the program, and after \<^verbatim>\<open>Reset\<close>.\<close>

definition empty_tables :: "'a::len ftt_cache" where
  "empty_tables = \<lparr> m_rootOfUnityReverseTableByModulus = Map.empty,
     m_rootOfUnityInverseReverseTableByModulus = Map.empty,
     m_rootOfUnityPreconReverseTableByModulus = Map.empty,
     m_rootOfUnityInversePreconReverseTableByModulus = Map.empty,
     m_cycloOrderInverseTableByModulus = Map.empty,
     m_cycloOrderInversePreconTableByModulus = Map.empty \<rparr>"

definition Reset :: "'a::len ftt_cache \<Rightarrow> 'a ftt_cache" where
  "Reset cache = cache \<lparr> m_rootOfUnityReverseTableByModulus := Map.empty,
     m_rootOfUnityInverseReverseTableByModulus := Map.empty,
     m_rootOfUnityPreconReverseTableByModulus := Map.empty,
     m_rootOfUnityInversePreconReverseTableByModulus := Map.empty,
     m_cycloOrderInverseTableByModulus := Map.empty,
     m_cycloOrderInversePreconTableByModulus := Map.empty \<rparr>"

section \<open>Transforms\<close>

definition ensure_tables ::
  "'a::len word \<Rightarrow> 32 word \<Rightarrow> 'a word \<Rightarrow> 'a ftt_cache \<Rightarrow> 'a ftt_cache result" where
  "ensure_tables rootOfUnity CycloOrder modulus cache =
     (if needs_tables cache modulus (unat (drop_bit 1 CycloOrder))
      then PreCompute rootOfUnity CycloOrder modulus cache else Inr cache)"

definition ftt_ForwardInPlace ::
  "'a::len word \<Rightarrow> 32 word \<Rightarrow> 'a nvec \<Rightarrow> 'a ftt_cache \<Rightarrow> ('a ftt_cache \<times> 'a nvec) result" where
  "ftt_ForwardInPlace rootOfUnity CycloOrder element cache =
     (if rootOfUnity = 1 \<or> rootOfUnity = 0 then Inr (cache, element)
      else if \<not> IsPowerOfTwo CycloOrder then Inl math_error
      else if length (m_data element) \<noteq> unat (drop_bit 1 CycloOrder) then Inl math_error
      else let modulus = m_modulus element in
        bindR (ensure_tables rootOfUnity CycloOrder modulus cache) (\<lambda>cache.
        bindR (ForwardTransformToBitReverseInPlace
                 (lookup (m_rootOfUnityReverseTableByModulus cache) modulus)
                 (lookup (m_rootOfUnityPreconReverseTableByModulus cache) modulus) element)
          (\<lambda>element. Inr (cache, element))))"

definition ftt_Forward ::
  "'a::len nvec \<Rightarrow> 'a word \<Rightarrow> 32 word \<Rightarrow> 'a nvec \<Rightarrow> 'a ftt_cache \<Rightarrow> ('a ftt_cache \<times> 'a nvec) result" where
  "ftt_Forward element rootOfUnity CycloOrder res cache =
     (if rootOfUnity = 1 \<or> rootOfUnity = 0 then Inr (cache, element)
      else if \<not> IsPowerOfTwo CycloOrder then Inl math_error
      else if length (m_data res) \<noteq> unat (drop_bit 1 CycloOrder) then Inl math_error
      else let modulus = m_modulus element in
        bindR (ensure_tables rootOfUnity CycloOrder modulus cache) (\<lambda>cache.
        bindR (ForwardTransformToBitReverse element
                 (lookup (m_rootOfUnityReverseTableByModulus cache) modulus)
                 (lookup (m_rootOfUnityPreconReverseTableByModulus cache) modulus) res)
          (\<lambda>res. Inr (cache, res))))"

text \<open>The inverse with the entry of the tables of inverse lengths at \<open>msb\<close>.\<close>

definition inverse_with_cache :: "32 word \<Rightarrow> 'a::len ftt_cache \<Rightarrow> 'a nvec \<Rightarrow> 'a nvec result" where
  "inverse_with_cache CycloOrder cache element =
     (let modulus = m_modulus element; msb = GetMSB (drop_bit 1 CycloOrder - 1) in
      bindR (table_at (lookup (m_cycloOrderInverseTableByModulus cache) modulus) msb) (\<lambda>c.
      bindR (table_at (lookup (m_cycloOrderInversePreconTableByModulus cache) modulus) msb) (\<lambda>cp.
      InverseTransformFromBitReverseInPlace
        (lookup (m_rootOfUnityInverseReverseTableByModulus cache) modulus)
        (lookup (m_rootOfUnityInversePreconReverseTableByModulus cache) modulus) c cp element)))"

definition ftt_InverseInPlace ::
  "'a::len word \<Rightarrow> 32 word \<Rightarrow> 'a nvec \<Rightarrow> 'a ftt_cache \<Rightarrow> ('a ftt_cache \<times> 'a nvec) result" where
  "ftt_InverseInPlace rootOfUnity CycloOrder element cache =
     (if rootOfUnity = 1 \<or> rootOfUnity = 0 then Inr (cache, element)
      else if \<not> IsPowerOfTwo CycloOrder then Inl math_error
      else if length (m_data element) \<noteq> unat (drop_bit 1 CycloOrder) then Inl math_error
      else bindR (ensure_tables rootOfUnity CycloOrder (m_modulus element) cache) (\<lambda>cache.
        bindR (inverse_with_cache CycloOrder cache element) (\<lambda>element. Inr (cache, element))))"

definition ftt_Inverse ::
  "'a::len nvec \<Rightarrow> 'a word \<Rightarrow> 32 word \<Rightarrow> 'a nvec \<Rightarrow> 'a ftt_cache \<Rightarrow> ('a ftt_cache \<times> 'a nvec) result" where
  "ftt_Inverse element rootOfUnity CycloOrder res cache =
     (if rootOfUnity = 1 \<or> rootOfUnity = 0 then Inr (cache, element)
      else if \<not> IsPowerOfTwo CycloOrder then Inl math_error
      else if length (m_data res) \<noteq> unat (drop_bit 1 CycloOrder) then Inl math_error
      else bindR (ensure_tables rootOfUnity CycloOrder (m_modulus element) cache) (\<lambda>cache.
        bindR (SetModulus res (m_modulus element)) (\<lambda>res.
        if length (m_data res) < length (m_data element) then Inl undefined_behaviour
        else bindR (inverse_with_cache CycloOrder cache
              (res \<lparr> m_data := m_data element @ drop (length (m_data element)) (m_data res) \<rparr>))
            (\<lambda>res. Inr (cache, res)))))"

section \<open>The tables of a root\<close>

text \<open>A root of order \<open>2 ^ (L + 1)\<close> modulo an odd modulus, as the ring parameters provide it.\<close>

definition valid_root :: "'a::len word \<Rightarrow> nat \<Rightarrow> 'a word \<Rightarrow> bool" where
  "valid_root q L psi \<longleftrightarrow> barrett_modulus q \<and> odd (uint q) \<and> residue q psi
     \<and> uint psi ^ 2 ^ L mod uint q = - 1 mod uint q
     \<and> 0 < L \<and> L \<le> 24 \<and> L < LENGTH('a)"

lemma valid_root_modulus:
  fixes q :: "'a::len word"
  assumes "valid_root q L psi"
  shows "2 < uint q" "uint q < 2 ^ (LENGTH('a) - 1)" "modulus_ok q"
proof -
  have b: "barrett_modulus q" "odd (uint q)" using assms by (simp_all add: valid_root_def)
  note f = barrett_modulus_facts [OF b(1)]
  have "2 ^ (GetMSB q - 1) \<le> uint q" using GetMSB_bounds f(1) by blast
  moreover have "(2::int) ^ 1 \<le> 2 ^ (GetMSB q - 1)"
    using b(1) by (intro power_increasing) (auto simp: barrett_modulus_def)
  ultimately have "2 \<le> uint q" by simp
  then show "2 < uint q" using b(2) by (cases "uint q = 2") auto
  have "(2::int) ^ LENGTH('a) = 2 * 2 ^ (LENGTH('a) - 1)" by (simp add: power_Suc [symmetric] del: power_Suc)
  then show "uint q < 2 ^ (LENGTH('a) - 1)" using f(5) by linarith
  show "modulus_ok q" using b(1) by (rule barrett_modulus_ok)
qed

definition pw :: "'a::len word \<Rightarrow> 'a word \<Rightarrow> nat \<Rightarrow> 'a word" where
  "pw q c i = ((\<lambda>x. ModMulEq_mu x c q (mu_of q)) ^^ i) 1"

lemma uint_pw:
  assumes "barrett_modulus q" "residue q c" "1 < uint q"
  shows "uint (pw q c i) = uint c ^ i mod uint q"
proof (induction i)
  case 0
  then show ?case using assms(3) by (simp add: pw_def)
next
  case (Suc i)
  have "residue q (pw q c i)" using residue_uint_mod [OF Suc] assms(3) by simp
  then have "uint (ModMulEq_mu (pw q c i) c q (mu_of q)) = uint (pw q c i) * uint c mod uint q"
    unfolding in_place_variants
    using assms(2) by (intro uint_ModMul_mu assms(1) ComputeMu_mu_of residue_lt_pow) (simp_all add: residue_def)
  also have "\<dots> = uint c ^ Suc i mod uint q" unfolding Suc by (simp add: mod_mult_right_eq mult.commute)
  finally show ?case by (simp add: pw_def)
qed

lemma residue_pw:
  assumes "barrett_modulus q" "residue q c" "1 < uint q"
  shows "residue q (pw q c i)"
  using residue_uint_mod [OF uint_pw [OF assms]] assms(3) by simp

definition pw_table :: "'a::len word \<Rightarrow> 'a word \<Rightarrow> nat \<Rightarrow> nat \<Rightarrow> 'a word list" where
  "pw_table q c L i = map (\<lambda>k. if rev_bits L k < i then pw q c (rev_bits L k) else 0) [0..<2 ^ L]"

lemma pw_table_update:
  assumes "i < 2 ^ L"
  shows "(pw_table q c L i)[rev_bits L i := pw q c i] = pw_table q c L (Suc i)"
proof (rule nth_equalityI)
  fix k
  assume "k < length ((pw_table q c L i)[rev_bits L i := pw q c i])"
  then have k: "k < 2 ^ L" by (simp add: pw_table_def)
  have "rev_bits L k = i \<longleftrightarrow> k = rev_bits L i" using rev_bits_rev_bits k assms by metis
  then show "(pw_table q c L i)[rev_bits L i := pw q c i] ! k = pw_table q c L (Suc i) ! k"
    using k by (auto simp: pw_table_def nth_list_update less_Suc_eq)
qed (simp add: pw_table_def)

lemma table_loop:
  assumes "0 < L" "L \<le> 24" "i \<le> 2 ^ L"
  shows "foldR (table_step c c' q (mu_of q) L) [0..<i] (1, 1, replicate (2 ^ L) 0, replicate (2 ^ L) 0)
    = Inr (pw q c i, pw q c' i, pw_table q c L i, pw_table q c' L i)"
  using assms(3)
proof (induction i)
  case 0
  have "pw_table q c L 0 = replicate (2 ^ L) 0" for c
    by (rule nth_equalityI) (simp_all add: pw_table_def)
  then show ?case by (simp add: pw_def)
next
  case (Suc i)
  have "i < 2 ^ 32" using Suc.prems power_increasing [of L 32 "2::nat"] assms(2) by linarith
  then have "unat (ReverseBits (word_of_nat i) L) = rev_bits L i"
    using unat_ReverseBits [of L "word_of_nat i"] assms(1,2)
    by (simp add: unsigned_of_nat take_bit_nat_eq_self)
  moreover have "rev_bits L i < 2 ^ L" by (rule rev_bits_lt)
  moreover have "ModMulEq_mu (pw q c i) c q (mu_of q) = pw q c (Suc i)" for c by (simp add: pw_def)
  ultimately show ?case
    using Suc pw_table_update [of i L q]
    by (simp add: foldR_append table_step_def Let_def) (simp add: pw_table_def)
qed

lemma power_dvd_unit_gcd:
  fixes a q :: int
  assumes "a ^ n mod q = - 1 mod q" "0 < n"
  shows "gcd a q = 1"
proof -
  have "q dvd a ^ n + 1" using mod_diff_of_eq [OF assms(1)] by (simp add: dvd_eq_mod_eq_0)
  then have "gcd a q dvd a ^ n + 1" using dvd_trans gcd_dvd2 by blast
  moreover have "gcd a q dvd a ^ n" using assms(2) by (meson dvd_power dvd_trans gcd_dvd1)
  ultimately have "gcd a q dvd 1" by (metis add_diff_cancel_left' dvd_diff)
  then show ?thesis by simp
qed

lemma ModInverse_unit:
  fixes a q :: "'a::len word"
  assumes "valid_root q L psi" "gcd (uint a) (uint q) = 1"
  obtains b where "ModInverse a q = Inr b" "residue q b" "uint b * uint a mod uint q = 1"
proof -
  note m = valid_root_modulus [OF assms(1)]
  have "uint a mod uint q \<noteq> 0"
  proof
    assume "uint a mod uint q = 0"
    then have "gcd (uint a) (uint q) = uint q" by (simp add: dvd_eq_mod_eq_0 [symmetric] gcd_proj2_if_dvd)
    then show False using assms(2) m(1) by simp
  qed
  then show thesis using ModInverse_cases [of q a] m assms(2) that by auto
qed

lemma shifted_one_eq:
  assumes "i \<le> 24"
  shows "shifted_one i = Inr (word_of_int (2 ^ i) :: 'a::len word)"
proof -
  have "(2::int) ^ i \<le> 2 ^ 24" using assms by (intro power_increasing) auto
  then have "sint (word_of_int (2 ^ i) :: 32 word) = 2 ^ i"
    unfolding sint_sbintrunc' by (intro signed_take_bit_int_eq_self) (auto intro: order_trans [of _ 0])
  moreover have "push_bit i (1 :: 32 word) = word_of_int (2 ^ i)" by (simp add: push_bit_eq_mult)
  ultimately have "sint (push_bit i (1 :: 32 word)) = 2 ^ i" by (simp only:)
  then show ?thesis using assms by (simp add: shifted_one_def)
qed

lemma order_inverses:
  fixes q :: "'a::len word"
  assumes "valid_root q L psi"
  obtains inv where "mapR (\<lambda>i. bindR (shifted_one i) (\<lambda>v. ModInverse v q)) [0..<L + 1] = Inr (map inv [0..<L + 1])"
    "\<And>i. i \<le> L \<Longrightarrow> residue q (inv i) \<and> uint (inv i) * 2 ^ i mod uint q = 1"
proof -
  define inv where "inv i = projr (ModInverse (word_of_int (2 ^ i) :: 'a word) q)" for i :: nat
  have *: "ModInverse (word_of_int (2 ^ i)) q = Inr (inv i) \<and> residue q (inv i) \<and> uint (inv i) * 2 ^ i mod uint q = 1"
    if "i \<le> L" for i
  proof -
    have "(2::int) ^ i < 2 ^ LENGTH('a)" using that assms by (simp add: valid_root_def)
    then have u: "uint (word_of_int (2 ^ i) :: 'a word) = 2 ^ i"
      unfolding uint_word_of_int by (intro mod_pos_pos_trivial) simp_all
    have "gcd (2 ^ i) (uint q) = 1" using assms by (simp add: valid_root_def coprime_iff_gcd_eq_1 [symmetric])
    then obtain b where "ModInverse (word_of_int (2 ^ i)) q = Inr b" "residue q b" "uint b * 2 ^ i mod uint q = 1"
      using ModInverse_unit [OF assms, of "word_of_int (2 ^ i)"] unfolding u by metis
    then show ?thesis by (simp add: inv_def)
  qed
  have "L \<le> 24" using assms by (simp add: valid_root_def)
  then have "mapR (\<lambda>i. bindR (shifted_one i) (\<lambda>v. ModInverse v q)) [0..<L + 1] = Inr (map inv [0..<L + 1])"
    using * by (intro mapR_Inr) (simp add: shifted_one_eq)
  then show thesis using that * by blast
qed

lemma pw_table_full: "k < 2 ^ L \<Longrightarrow> pw_table q c L (2 ^ L) ! k = pw q c (rev_bits L k)"
  by (simp add: pw_table_def rev_bits_lt)

lemma length_pw_table [simp]: "length (pw_table q c L i) = 2 ^ L"
  by (simp add: pw_table_def)

lemma rev_bits_zero [simp]: "rev_bits L 0 = 0"
  by (induction L) simp_all

text \<open>The bit-reversed powers of a root satisfy the equations between a node and its children.\<close>

lemma rev_bits_node:
  assumes "Suc 0 < k" "k < 2 ^ Suc L"
  shows "2 * rev_bits (Suc L) k = (k mod 2) * 2 ^ Suc L + rev_bits (Suc L) (k div 2)"
  using assms rev_bits_double [of "k div 2" L] by (simp add: less_mult_imp_div_less)

lemma pw_table_roots:
  assumes "valid_root q L psi"
  shows "roots_ok (uint q) (\<lambda>k. uint (pw_table q psi L (2 ^ L) ! k)) L"
  unfolding roots_ok_def
proof (intro allI impI)
  fix k :: nat
  assume k: "0 < k \<and> k < 2 ^ L"
  let ?w = "\<lambda>k. uint (pw_table q psi L (2 ^ L) ! k)"
  have b: "barrett_modulus q" "residue q psi" "1 < uint q"
    using assms valid_root_modulus(1) [OF assms] by (simp_all add: valid_root_def)
  have w: "?w j = uint psi ^ rev_bits L j mod uint q" if "j < 2 ^ L" for j
    using that uint_pw [OF b] by (simp add: pw_table_full)
  obtain L' where L: "L = Suc L'" using assms by (cases L) (auto simp: valid_root_def)
  have n: "uint psi ^ 2 ^ L mod uint q = - 1 mod uint q" using assms by (simp add: valid_root_def)
  have sq: "(?w k)\<^sup>2 mod uint q = uint psi ^ (2 * rev_bits L k) mod uint q"
    using w [of k] k by (simp add: power_mod power_mult [symmetric] mult.commute)
  show "(?w k)\<^sup>2 mod uint q = node_root ?w k mod uint q"
  proof (cases "k = 1")
    case True
    have "2 * rev_bits L k = 2 ^ L" using True by (simp add: L rev_bits_zero)
    then show ?thesis unfolding sq using n True by (simp add: node_root_def)
  next
    case False
    then have h: "Suc 0 < k" "k div 2 < 2 ^ L" using k by auto
    have rn: "2 * rev_bits L k = (k mod 2) * 2 ^ L + rev_bits L (k div 2)"
      using rev_bits_node [of k L'] h(1) k unfolding L by (simp only:)
    have "(?w k)\<^sup>2 mod uint q = (uint psi ^ 2 ^ L) ^ (k mod 2) * uint psi ^ rev_bits L (k div 2) mod uint q"
      unfolding sq rn by (simp only: power_add power_mult [symmetric] mult.commute)
    also have "\<dots> = (- 1) ^ (k mod 2) * ?w (k div 2) mod uint q"
      unfolding w [OF h(2)] using n by (metis mod_mult_eq mod_mod_trivial power_mod)
    also have "\<dots> = node_root ?w k mod uint q"
      using h(1) by (auto simp: node_root_def mod2_eq_if)
    finally show ?thesis .
  qed
qed

section \<open>The invariant of the cache\<close>

definition tables_of :: "'a::len ftt_cache \<Rightarrow> 'a word \<Rightarrow> nat \<Rightarrow> 'a ntt_tables" where
  "tables_of cache q L = \<lparr> nt_modulus = q,
     nt_root = lookup (m_rootOfUnityReverseTableByModulus cache) q,
     nt_rootI = lookup (m_rootOfUnityInverseReverseTableByModulus cache) q,
     nt_precon = lookup (m_rootOfUnityPreconReverseTableByModulus cache) q,
     nt_preconI = lookup (m_rootOfUnityInversePreconReverseTableByModulus cache) q,
     nt_orderInv = m_data (lookup (m_cycloOrderInverseTableByModulus cache) q) ! L,
     nt_preconOrderInv = m_data (lookup (m_cycloOrderInversePreconTableByModulus cache) q) ! L \<rparr>"

definition entry_ok :: "'a::len ftt_cache \<Rightarrow> 'a word \<Rightarrow> nat \<Rightarrow> bool" where
  "entry_ok cache q L \<longleftrightarrow> ntt_tables_ok (tables_of cache q L) L
     \<and> L < length (m_data (lookup (m_cycloOrderInverseTableByModulus cache) q))
     \<and> L < length (m_data (lookup (m_cycloOrderInversePreconTableByModulus cache) q))
     \<and> (\<exists>psi. valid_root q L psi
          \<and> (\<forall>k<2 ^ L. pre_omega (fwd_of (tables_of cache q L)) k = uint psi ^ rev_bits L k mod uint q))"

definition cache_ok :: "'a::len ftt_cache \<Rightarrow> bool" where
  "cache_ok cache \<longleftrightarrow> (\<forall>q t. m_rootOfUnityReverseTableByModulus cache q = Some t
     \<longrightarrow> (\<exists>L. length (m_data t) = 2 ^ L \<and> entry_ok cache q L))"

lemma cyclo_order:
  assumes "L \<le> 24"
  shows "unat (drop_bit 1 (2 ^ Suc L :: 32 word)) = 2 ^ L" "GetMSB (drop_bit 1 (2 ^ Suc L :: 32 word) - 1) = L"
    "IsPowerOfTwo (2 ^ Suc L :: 32 word)"
proof -
  have d: "drop_bit 1 (2 ^ Suc L :: 32 word) = 2 ^ L"
    using assms by (intro bit_word_eqI) (auto simp: bit_drop_bit_eq bit_exp_iff simp del: power_Suc)
  have u: "unat (2 ^ L :: 32 word) = 2 ^ L" using assms by (intro unat_power_two) simp
  then show "unat (drop_bit 1 (2 ^ Suc L :: 32 word)) = 2 ^ L" by (simp only: d)
  have "(2 ^ L :: 32 word) \<noteq> 0" using assms by simp
  then have "unat (2 ^ L - 1 :: 32 word) = unat (2 ^ L :: 32 word) - 1" by (rule unat_minus_one)
  then have "unat (2 ^ L - 1 :: 32 word) = 2 ^ L - 1" unfolding u .
  moreover have "bit_length (2 ^ L - 1) = L"
  proof (rule antisym)
    show "bit_length (2 ^ L - 1) \<le> L" by (simp add: bit_length_le_iff)
    show "L \<le> bit_length (2 ^ L - 1)"
    proof (rule ccontr)
      assume "\<not> L \<le> bit_length (2 ^ L - 1)"
      then have "bit_length (2 ^ L - 1) \<le> L - 1" "0 < L" by simp_all
      then have "2 ^ L - 1 < (2::nat) ^ (L - 1)" by (simp only: bit_length_le_iff)
      moreover have "(2::nat) ^ L = 2 * 2 ^ (L - 1)" using \<open>0 < L\<close> by (cases L) auto
      moreover have "0 < (2::nat) ^ (L - 1)" by simp
      ultimately show False by linarith
    qed
  qed
  ultimately show "GetMSB (drop_bit 1 (2 ^ Suc L :: 32 word) - 1) = L" by (simp only: d GetMSB_eq)
  have "(2 ^ Suc L :: 32 word) AND (2 ^ Suc L - 1) = 0"
    by (intro bit_word_eqI) (auto simp: bit_and_iff bit_exp_iff mask_eq_exp_minus_1 [symmetric] bit_mask_iff simp del: power_Suc)
  moreover have "(2 ^ Suc L :: 32 word) \<noteq> 0" using assms by (simp del: power_Suc)
  ultimately show "IsPowerOfTwo (2 ^ Suc L :: 32 word)" unfolding IsPowerOfTwo_def by blast
qed

lemma precon_list:
  assumes "\<forall>v \<in> set T. residue q v"
  obtains P where "mapR (\<lambda>v. PrepModMulConst v q) T = Inr P" "length P = length T"
    "\<And>k. k < length T \<Longrightarrow> PrepModMulConst (T ! k) q = Inr (P ! k)"
proof -
  have p: "PrepModMulConst v q = Inr (projr (PrepModMulConst v q))" if "residue q v" for v
    using PrepModMulConst_value [OF that] by (metis sum.sel(2))
  show thesis
  proof (rule that [of "map (\<lambda>v. projr (PrepModMulConst v q)) T"])
    show "mapR (\<lambda>v. PrepModMulConst v q) T = Inr (map (\<lambda>v. projr (PrepModMulConst v q)) T)"
      using p assms by (intro mapR_Inr) blast
    show "PrepModMulConst (T ! k) q = Inr (map (\<lambda>v. projr (PrepModMulConst v q)) T ! k)" if "k < length T" for k
      using p [of "T ! k"] assms that by (metis nth_map nth_mem)
  qed simp
qed

lemma PreCompute_entry:
  fixes q :: "'a::len word"
  assumes "valid_root q L psi" "needs_tables cache q (2 ^ L)"
  obtains cache' where "PreCompute psi (2 ^ Suc L) q cache = Inr cache'"
    "entry_ok cache' q L" "\<exists>t. m_rootOfUnityReverseTableByModulus cache' q = Some t \<and> length (m_data t) = 2 ^ L"
    "\<And>q'. q' \<noteq> q \<Longrightarrow> m_rootOfUnityReverseTableByModulus cache' q' = m_rootOfUnityReverseTableByModulus cache q'
        \<and> tables_of cache' q' = tables_of cache q' \<and> entry_ok cache' q' = entry_ok cache q'"
proof -
  have v: "barrett_modulus q" "residue q psi" "0 < L" "L \<le> 24" "1 < uint q" "modulus_ok q"
    using assms(1) valid_root_modulus [OF assms(1)] by (simp_all add: valid_root_def)
  have "gcd (uint psi) (uint q) = 1"
    using assms(1) by (intro power_dvd_unit_gcd [of _ "2 ^ L"]) (simp_all add: valid_root_def)
  then obtain psi' where psi': "ModInverse psi q = Inr psi'" "residue q psi'" "uint psi' * uint psi mod uint q = 1"
    using ModInverse_unit [OF assms(1)] by metis
  let ?T = "pw_table q psi L (2 ^ L)" and ?TI = "pw_table q psi' L (2 ^ L)"
  obtain inv where inv: "mapR (\<lambda>i. bindR (shifted_one i) (\<lambda>v. ModInverse v q)) [0..<L + 1] = Inr (map inv [0..<L + 1])"
      "\<And>i. i \<le> L \<Longrightarrow> residue q (inv i) \<and> uint (inv i) * 2 ^ i mod uint q = 1"
    using order_inverses [OF assms(1)] by metis
  have res: "\<forall>x \<in> set (pw_table q c L (2 ^ L)). residue q x" if "residue q c" for c
    using residue_pw [OF v(1) that v(5)] by (auto simp: in_set_conv_nth pw_table_full)
  have resI: "\<forall>x \<in> set (map inv [0..<L + 1]). residue q x" using inv(2) by auto
  obtain P where P: "mapR (\<lambda>v. PrepModMulConst v q) ?T = Inr P" "length P = length ?T"
      "\<And>k. k < length ?T \<Longrightarrow> PrepModMulConst (?T ! k) q = Inr (P ! k)"
    using precon_list [OF res [OF v(2)]] by metis
  obtain PI where PI: "mapR (\<lambda>v. PrepModMulConst v q) ?TI = Inr PI" "length PI = length ?TI"
      "\<And>k. k < length ?TI \<Longrightarrow> PrepModMulConst (?TI ! k) q = Inr (PI ! k)"
    using precon_list [OF res [OF psi'(2)]] by metis
  obtain PC where PC: "mapR (\<lambda>v. PrepModMulConst v q) (map inv [0..<L + 1]) = Inr PC"
      "length PC = length (map inv [0..<L + 1])"
      "\<And>k. k < length (map inv [0..<L + 1]) \<Longrightarrow> PrepModMulConst (map inv [0..<L + 1] ! k) q = Inr (PC ! k)"
    using precon_list [OF resI] by metis
  let ?vec = "\<lambda>d. \<lparr> m_modulus = q, m_data = d \<rparr>"
  let ?cache' = "\<lparr> m_rootOfUnityReverseTableByModulus = (m_rootOfUnityReverseTableByModulus cache)(q \<mapsto> ?vec ?T),
     m_rootOfUnityInverseReverseTableByModulus = (m_rootOfUnityInverseReverseTableByModulus cache)(q \<mapsto> ?vec ?TI),
     m_rootOfUnityPreconReverseTableByModulus = (m_rootOfUnityPreconReverseTableByModulus cache)(q \<mapsto> ?vec P),
     m_rootOfUnityInversePreconReverseTableByModulus =
       (m_rootOfUnityInversePreconReverseTableByModulus cache)(q \<mapsto> ?vec PI),
     m_cycloOrderInverseTableByModulus =
       (m_cycloOrderInverseTableByModulus cache)(q \<mapsto> ?vec (map inv [0..<L + 1])),
     m_cycloOrderInversePreconTableByModulus = (m_cycloOrderInversePreconTableByModulus cache)(q \<mapsto> ?vec PC) \<rparr>"
  have run: "PreCompute psi (2 ^ Suc L) q cache = Inr ?cache'"
    unfolding PreCompute_def Let_def cyclo_order [OF v(4)]
    using assms(2) psi'(1) table_loop [OF v(3,4) le_refl, of psi psi' q] inv(1) P(1) PI(1) PC(1)
    by (simp only: ComputeMu_mu_of [OF v(1)] bindR_simps if_False not_not prod.case)
       (simp del: upt_Suc)
  have prod1: "uint (?T ! k) * uint (?TI ! k) mod uint q = 1 mod uint q" if "k < 2 ^ L" for k
  proof -
    have "uint (?T ! k) * uint (?TI ! k) mod uint q = (uint psi * uint psi') ^ rev_bits L k mod uint q"
      using that uint_pw [OF v(1,2,5)] uint_pw [OF v(1) psi'(2) v(5)]
      by (simp add: pw_table_full mod_mult_eq power_mult_distrib)
    also have "\<dots> = 1 mod uint q"
      using psi'(3) by (metis mult.commute power_mod power_one)
    finally show ?thesis .
  qed
  define N where "N = tables_of ?cache' q L"
  have N: "nt_modulus N = q" "fwd_of N = (q, ?vec ?T, ?vec P)" "inv_of N = (q, ?vec ?TI, ?vec PI)"
      "nt_orderInv N = inv L" "nt_preconOrderInv N = PC ! L"
    by (simp_all add: N_def tables_of_def fwd_of_def inv_of_def lookup_def del: upt_Suc)
  have "pre_ready (fwd_of N) k \<and> pre_ready (inv_of N) k
      \<and> pre_omega (fwd_of N) k * pre_omega (inv_of N) k mod uint q = 1 mod uint q" if "k < 2 ^ L" for k
    using that v(6) P(2,3) PI(2,3) res [OF v(2)] res [OF psi'(2)] prod1 [OF that]
    by (simp add: N pre_ready_def pre_omega_def)
  moreover have "roots_ok (uint q) (pre_omega (fwd_of N)) L"
    using pw_table_roots [OF assms(1)] by (simp add: N pre_omega_def [abs_def])
  moreover have "residue q (inv L)" "uint (inv L) * 2 ^ L mod uint q = 1 mod uint q"
      "PrepModMulConst (inv L) q = Inr (PC ! L)"
    using inv(2) [of L] PC(3) [of L] v(5) by (simp_all del: upt_Suc)
  ultimately have "ntt_tables_ok N L"
    using v(3,4) unfolding ntt_tables_ok_def N(1,4,5) by simp
  moreover have "pre_omega (fwd_of N) k = uint psi ^ rev_bits L k mod uint q" if "k < 2 ^ L" for k
    using that uint_pw [OF v(1,2,5)] by (simp add: N pre_omega_def pw_table_full)
  ultimately have "entry_ok ?cache' q L"
    using PC(2) assms(1) unfolding entry_ok_def N_def [symmetric]
    by (intro conjI exI [of _ psi]) (simp_all add: lookup_def del: upt_Suc)
  then show thesis
    using run by (intro that [of ?cache']) (auto simp: tables_of_def [abs_def] entry_ok_def [abs_def] lookup_def)
qed

lemma cache_okD:
  assumes "cache_ok cache" "\<not> needs_tables cache q (2 ^ L)"
  shows "entry_ok cache q L"
proof -
  obtain t where t: "m_rootOfUnityReverseTableByModulus cache q = Some t" "length (m_data t) = 2 ^ L"
    using assms(2) by (auto simp: needs_tables_def split: option.splits)
  then obtain L' where "length (m_data t) = 2 ^ L'" "entry_ok cache q L'"
    using assms(1) unfolding cache_ok_def by metis
  then show ?thesis using t(2) by simp
qed

lemma PreCompute_keeps:
  assumes "cache_ok cache" "valid_root q L psi"
  obtains cache' where "PreCompute psi (2 ^ Suc L) q cache = Inr cache'" "cache_ok cache'" "entry_ok cache' q L"
proof (cases "needs_tables cache q (2 ^ L)")
  case True
  obtain cache' where c: "PreCompute psi (2 ^ Suc L) q cache = Inr cache'" "entry_ok cache' q L"
      "\<exists>t. m_rootOfUnityReverseTableByModulus cache' q = Some t \<and> length (m_data t) = 2 ^ L"
      "\<And>q'. q' \<noteq> q \<Longrightarrow> m_rootOfUnityReverseTableByModulus cache' q' = m_rootOfUnityReverseTableByModulus cache q'
        \<and> tables_of cache' q' = tables_of cache q' \<and> entry_ok cache' q' = entry_ok cache q'"
    using PreCompute_entry [OF assms(2) True] by metis
  have "cache_ok cache'"
    unfolding cache_ok_def
  proof (intro allI impI)
    fix q' t
    assume t: "m_rootOfUnityReverseTableByModulus cache' q' = Some t"
    show "\<exists>L. length (m_data t) = 2 ^ L \<and> entry_ok cache' q' L"
      using assms(1) t c(2,3) c(4) [of q'] unfolding cache_ok_def by (cases "q' = q") auto
  qed
  then show thesis using that c(1,2) by blast
next
  case False
  have "L \<le> 24" using assms(2) by (simp add: valid_root_def)
  then have "PreCompute psi (2 ^ Suc L) q cache = Inr cache"
    unfolding PreCompute_def Let_def cyclo_order [OF \<open>L \<le> 24\<close>] using False by simp
  then show thesis using that cache_okD [OF assms(1) False] assms(1) by blast
qed

lemma ensure_tables_keeps:
  assumes "cache_ok cache" "valid_root q L psi"
  obtains cache' where "ensure_tables psi (2 ^ Suc L) q cache = Inr cache'" "cache_ok cache'" "entry_ok cache' q L"
proof -
  have L: "L \<le> 24" using assms(2) by (simp add: valid_root_def)
  show thesis
  proof (cases "needs_tables cache q (2 ^ L)")
    case True
    then show thesis
      using PreCompute_keeps [OF assms] that unfolding ensure_tables_def cyclo_order [OF L] by metis
  next
    case False
    then show thesis
      using that cache_okD [OF assms(1) False] assms(1) unfolding ensure_tables_def cyclo_order [OF L] by simp
  qed
qed

lemma ensure_tables_present:
  assumes "entry_ok cache q L" "L \<le> 24" "\<not> needs_tables cache q (2 ^ L)"
  shows "ensure_tables psi (2 ^ Suc L) q cache = Inr cache"
  using assms(3) unfolding ensure_tables_def cyclo_order [OF assms(2)] by simp

text \<open>A root is neither 0 nor 1, so that the transforms do not return early.\<close>

lemma valid_root_proper:
  assumes "valid_root q L psi"
  shows "psi \<noteq> 0" "psi \<noteq> 1"
proof -
  note m = valid_root_modulus [OF assms]
  have r: "uint psi ^ 2 ^ L mod uint q = - 1 mod uint q" using assms by (simp add: valid_root_def)
  have "- 1 mod uint q = uint q - 1" using m(1) by (simp add: zmod_minus1)
  then have "uint psi ^ 2 ^ L mod uint q = uint q - 1" using r by simp
  moreover have "(0::int) ^ 2 ^ L mod uint q = 0" "(1::int) ^ 2 ^ L mod uint q = 1" using m(1) by (simp_all add: zero_power)
  ultimately show "psi \<noteq> 0" "psi \<noteq> 1" using m(1) by auto
qed

lemma forward_in_cache:
  assumes "entry_ok cache q L" "m_modulus el = q"
  shows "ForwardTransformToBitReverseInPlace (lookup (m_rootOfUnityReverseTableByModulus cache) (m_modulus el))
      (lookup (m_rootOfUnityPreconReverseTableByModulus cache) (m_modulus el)) el = ntt_forward_of (tables_of cache q L) el"
  by (simp add: ntt_forward_of_def tables_of_def assms(2))

lemma inverse_in_cache:
  assumes "entry_ok cache q L" "m_modulus el = q" "L \<le> 24"
  shows "inverse_with_cache (2 ^ Suc L) cache el = ntt_inverse_of (tables_of cache q L) el"
  using assms(1)
  unfolding inverse_with_cache_def Let_def cyclo_order [OF assms(3)]
  by (simp add: ntt_inverse_of_def tables_of_def assms(2) entry_ok_def table_at_def)

section \<open>Reachable caches\<close>

text \<open>
  The operations of the program on the cache, in any order: precomputations and transforms with
  valid roots, and \<^verbatim>\<open>Reset\<close>.
\<close>

inductive ftt_step :: "'a::len ftt_cache \<Rightarrow> 'a ftt_cache \<Rightarrow> bool" where
  precompute: "valid_root q L psi \<Longrightarrow> PreCompute psi (2 ^ Suc L) q c = Inr c' \<Longrightarrow> ftt_step c c'"
| forward_in_place: "valid_root (m_modulus el) L psi
    \<Longrightarrow> ftt_ForwardInPlace psi (2 ^ Suc L) el c = Inr (c', el') \<Longrightarrow> ftt_step c c'"
| forward: "valid_root (m_modulus el) L psi
    \<Longrightarrow> ftt_Forward el psi (2 ^ Suc L) res c = Inr (c', res') \<Longrightarrow> ftt_step c c'"
| inverse_in_place: "valid_root (m_modulus el) L psi
    \<Longrightarrow> ftt_InverseInPlace psi (2 ^ Suc L) el c = Inr (c', el') \<Longrightarrow> ftt_step c c'"
| inverse: "valid_root (m_modulus el) L psi
    \<Longrightarrow> ftt_Inverse el psi (2 ^ Suc L) res c = Inr (c', res') \<Longrightarrow> ftt_step c c'"
| reset: "ftt_step c (Reset c)"

inductive ftt_reachable :: "'a::len ftt_cache \<Rightarrow> bool" where
  start: "ftt_reachable empty_tables"
| step: "ftt_reachable c \<Longrightarrow> ftt_step c c' \<Longrightarrow> ftt_reachable c'"

lemma cache_ok_Reset [simp]: "cache_ok (Reset c)" "cache_ok empty_tables"
  by (simp_all add: cache_ok_def Reset_def empty_tables_def)

lemma ensure_tables_cache_ok:
  "cache_ok c \<Longrightarrow> valid_root q L psi \<Longrightarrow> ensure_tables psi (2 ^ Suc L) q c = Inr c' \<Longrightarrow> cache_ok c'"
  using ensure_tables_keeps by (metis sum.inject(2))

lemma ftt_step_cache_ok:
  assumes "ftt_step c c'" "cache_ok c"
  shows "cache_ok c'"
  using assms
proof (induction rule: ftt_step.induct)
  case (precompute q L psi c c')
  then show ?case using PreCompute_keeps by (metis sum.inject(2))
qed (auto simp: ftt_ForwardInPlace_def ftt_Forward_def ftt_InverseInPlace_def ftt_Inverse_def Let_def
      bindR_eq_Inr ensure_tables_cache_ok simp del: power_Suc split: if_splits)

lemma ftt_reachable_cache_ok: "ftt_reachable c \<Longrightarrow> cache_ok c"
  by (induction rule: ftt_reachable.induct) (auto intro: ftt_step_cache_ok)

section \<open>Properties\<close>

lemma entry_modulus [simp]: "nt_modulus (tables_of c q L) = q"
  by (simp add: tables_of_def)

lemma fits_tables_of: "nvec_ok el \<Longrightarrow> m_modulus el = q \<Longrightarrow> length (m_data el) = 2 ^ L \<Longrightarrow> fits (tables_of c q L) L el"
  by (simp add: fits_def)

text \<open>With a cache that keeps the invariant, a forward transform runs on tables that keep theirs.\<close>

lemma ftt_forward_runs:
  assumes "cache_ok c" "valid_root (m_modulus el) L psi" "nvec_ok el" "length (m_data el) = 2 ^ L"
  obtains c' el' where "ftt_ForwardInPlace psi (2 ^ Suc L) el c = Inr (c', el')"
    "cache_ok c'" "entry_ok c' (m_modulus el) L" "ntt_forward_of (tables_of c' (m_modulus el) L) el = Inr el'"
    "fits (tables_of c' (m_modulus el) L) L el'" "ensure_tables psi (2 ^ Suc L) (m_modulus el) c = Inr c'"
proof -
  let ?q = "m_modulus el"
  have L: "L \<le> 24" using assms(2) by (simp add: valid_root_def)
  obtain c' where c': "ensure_tables psi (2 ^ Suc L) ?q c = Inr c'" "cache_ok c'" "entry_ok c' ?q L"
    using ensure_tables_keeps [OF assms(1,2)] .
  have ok: "ntt_tables_ok (tables_of c' ?q L) L" using c'(3) by (simp add: entry_ok_def)
  obtain el' where el': "ntt_forward_of (tables_of c' ?q L) el = Inr el'" "fits (tables_of c' ?q L) L el'"
    using ntt_forward_value [OF ok fits_tables_of [OF assms(3) refl assms(4)]] by metis
  have "ftt_ForwardInPlace psi (2 ^ Suc L) el c = Inr (c', el')"
    unfolding ftt_ForwardInPlace_def Let_def cyclo_order(1) [OF L]
    using valid_root_proper [OF assms(2)] cyclo_order(3) [OF L] assms(4) c'(1)
      forward_in_cache [OF c'(3) refl] el'(1) by (simp del: power_Suc)
  then show thesis using that c' el' by blast
qed

lemma ftt_inverse_runs:
  assumes "entry_ok c (m_modulus el) L" "cache_ok c" "valid_root (m_modulus el) L psi" "length (m_data el) = 2 ^ L"
    and "\<not> needs_tables c (m_modulus el) (2 ^ L)"
  shows "ftt_InverseInPlace psi (2 ^ Suc L) el c
    = bindR (ntt_inverse_of (tables_of c (m_modulus el) L) el) (\<lambda>el. Inr (c, el))"
proof -
  have L: "L \<le> 24" using assms(3) by (simp add: valid_root_def)
  show ?thesis
    unfolding ftt_InverseInPlace_def Let_def cyclo_order(1) [OF L] ensure_tables_present [OF assms(1) L assms(5)]
    using valid_root_proper [OF assms(3)] cyclo_order(3) [OF L] assms(4) inverse_in_cache [OF assms(1) refl L]
    by (simp del: power_Suc)
qed

lemma ensure_tables_fills:
  assumes "cache_ok c" "valid_root q L psi" "ensure_tables psi (2 ^ Suc L) q c = Inr c'"
  shows "\<not> needs_tables c' q (2 ^ L)"
proof -
  have L: "L \<le> 24" using assms(2) by (simp add: valid_root_def)
  show ?thesis
  proof (cases "needs_tables c q (2 ^ L)")
    case True
    then have "PreCompute psi (2 ^ Suc L) q c = Inr c'"
      using assms(3) unfolding ensure_tables_def cyclo_order [OF L] by simp
    moreover obtain c2 t where "PreCompute psi (2 ^ Suc L) q c = Inr c2"
        "m_rootOfUnityReverseTableByModulus c2 q = Some t" "length (m_data t) = 2 ^ L"
      using PreCompute_entry [OF assms(2) True] by metis
    ultimately show ?thesis by (simp add: needs_tables_def)
  next
    case False
    then show ?thesis using assms(3) unfolding ensure_tables_def cyclo_order [OF L] by simp
  qed
qed

text \<open>C12.  In every reachable state of the table cache, whatever roots the earlier operations used, the
  forward transform of a vector of residues followed by the inverse transform returns the vector,
  for every valid root of its modulus; the state in between is reachable again.
\<close>

theorem FTT_roundtrip:
  fixes el :: "'a::len nvec"
  assumes "ftt_reachable c" "valid_root (m_modulus el) L psi" "nvec_ok el" "length (m_data el) = 2 ^ L"
  shows "\<exists>c' el'. ftt_ForwardInPlace psi (2 ^ Suc L) el c = Inr (c', el') \<and> nvec_ok el'
    \<and> ftt_reachable c' \<and> ftt_InverseInPlace psi (2 ^ Suc L) el' c' = Inr (c', el)"
proof -
  note ok = ftt_reachable_cache_ok [OF assms(1)]
  obtain c' el' where f: "ftt_ForwardInPlace psi (2 ^ Suc L) el c = Inr (c', el')"
      "cache_ok c'" "entry_ok c' (m_modulus el) L" "ntt_forward_of (tables_of c' (m_modulus el) L) el = Inr el'"
      "fits (tables_of c' (m_modulus el) L) L el'" "ensure_tables psi (2 ^ Suc L) (m_modulus el) c = Inr c'"
    using ftt_forward_runs [OF ok assms(2-4)] .
  have q: "m_modulus el' = m_modulus el" "length (m_data el') = 2 ^ L" "nvec_ok el'"
    using f(5) by (simp_all add: fits_def)
  have "ntt_inverse_of (tables_of c' (m_modulus el) L) el' = Inr el"
    using ntt_inverse_forward [OF _ fits_tables_of [OF assms(3) refl assms(4)] f(4)] f(3) by (simp add: entry_ok_def)
  moreover have "\<not> needs_tables c' (m_modulus el) (2 ^ L)" by (rule ensure_tables_fills [OF ok assms(2) f(6)])
  ultimately have "ftt_InverseInPlace psi (2 ^ Suc L) el' c' = Inr (c', el)"
    using ftt_inverse_runs [of c' el' L psi] f(2,3) assms(2) q by simp
  moreover have "ftt_reachable c'"
    by (rule ftt_reachable.step [OF assms(1) ftt_step.forward_in_place [OF assms(2) f(1)]])
  ultimately show ?thesis using f(1) q(3) by blast
qed

definition example_el :: "32 nvec" where
  "example_el = \<lparr> m_modulus = 17, m_data = [3, 16, 0, 5] \<rparr>"

lemma example_valid: "valid_root (m_modulus example_el) 2 2" "nvec_ok example_el"
    "length (m_data example_el) = 2 ^ 2"
  by code_simp+

theorem FTT_roundtrip_witness:
  "\<exists>c' el'. ftt_ForwardInPlace 2 (2 ^ Suc 2) example_el empty_tables = Inr (c', el') \<and> nvec_ok el'
    \<and> ftt_reachable c' \<and> ftt_InverseInPlace 2 (2 ^ Suc 2) el' c' = Inr (c', example_el)"
  by (rule FTT_roundtrip [OF ftt_reachable.start example_valid])

text \<open>C10.  Transforming two vectors of residues forward, multiplying them entry by entry and transforming
  back is multiplication modulo \<open>X ^ n + 1\<close> and the modulus, in every reachable state of the cache.
\<close>

theorem FTT_multiplies:
  fixes a b :: "'a::len nvec"
  assumes "ftt_reachable c" "valid_root (m_modulus a) L psi" "nvec_ok a" "nvec_ok b" "m_modulus b = m_modulus a"
    and "length (m_data a) = 2 ^ L" "length (m_data b) = 2 ^ L"
  shows "\<exists>c1 fa fb p r. ftt_ForwardInPlace psi (2 ^ Suc L) a c = Inr (c1, fa)
    \<and> ftt_ForwardInPlace psi (2 ^ Suc L) b c1 = Inr (c1, fb) \<and> vec_ModMul fa fb = Inr p
    \<and> ftt_InverseInPlace psi (2 ^ Suc L) p c1 = Inr (c1, r) \<and> nvec_ok r \<and> length (m_data r) = 2 ^ L
    \<and> (\<forall>k<2 ^ L. uint (m_data r ! k)
         = negacyclic (2 ^ L) ((!) (vals a)) ((!) (vals b)) k mod uint (m_modulus a))"
proof -
  note ok = ftt_reachable_cache_ok [OF assms(1)]
  let ?q = "m_modulus a"
  have vb: "valid_root (m_modulus b) L psi" using assms(2,5) by simp
  obtain c1 fa where fa: "ftt_ForwardInPlace psi (2 ^ Suc L) a c = Inr (c1, fa)"
      "cache_ok c1" "entry_ok c1 ?q L" "ntt_forward_of (tables_of c1 ?q L) a = Inr fa"
      "ensure_tables psi (2 ^ Suc L) ?q c = Inr c1"
    using ftt_forward_runs [OF ok assms(2,3,6)] .
  have L: "L \<le> 24" and br: "barrett_modulus ?q" using assms(2) by (simp_all add: valid_root_def)
  note full = ensure_tables_fills [OF ok assms(2) fa(5)]
  obtain c2 fb where "ftt_ForwardInPlace psi (2 ^ Suc L) b c1 = Inr (c2, fb)"
      "ntt_forward_of (tables_of c2 ?q L) b = Inr fb" "ensure_tables psi (2 ^ Suc L) ?q c1 = Inr c2"
    using ftt_forward_runs [OF fa(2) vb assms(4,7)] unfolding assms(5) .
  then have fb: "ftt_ForwardInPlace psi (2 ^ Suc L) b c1 = Inr (c1, fb)"
      "ntt_forward_of (tables_of c1 ?q L) b = Inr fb"
    using ensure_tables_present [OF fa(3) L full] by simp_all
  let ?N = "tables_of c1 ?q L" and ?r = "nega_vec (2 ^ L) a b"
  have N: "ntt_tables_ok ?N L" using fa(3) by (simp add: entry_ok_def)
  have fits: "fits ?N L a" "fits ?N L b" using assms by (simp_all add: fits_def)
  note r = fits_nega_vec [OF fits(1), of b]
  obtain p where p: "ntt_forward_of ?N ?r = Inr p" "fits ?N L p" using ntt_forward_value [OF N r] by metis
  have "vec_ModMul fa fb = Inr p" using ntt_product [OF N fits _ fa(4) fb(2)] br p(1) by simp
  moreover have "ftt_InverseInPlace psi (2 ^ Suc L) p c1 = Inr (c1, ?r)"
    using ftt_inverse_runs [of c1 p L psi] p(2) fa(2,3) assms(2) full ntt_inverse_forward [OF N r p(1)]
    by (simp add: fits_def)
  moreover have "uint (m_data ?r ! k) = negacyclic (2 ^ L) ((!) (vals a)) ((!) (vals b)) k mod uint ?q"
    if "k < 2 ^ L" for k
    using nega_vec_entry [OF _ that, of a b] barrett_modulus_facts(2) [OF br] by simp
  ultimately show ?thesis using fa(1) fb(1) r unfolding fits_def by blast
qed

theorem FTT_multiplies_witness:
  "\<exists>c1 fa fb p r. ftt_ForwardInPlace 2 (2 ^ Suc 2) example_el empty_tables = Inr (c1, fa)
    \<and> ftt_ForwardInPlace 2 (2 ^ Suc 2) example_el c1 = Inr (c1, fb) \<and> vec_ModMul fa fb = Inr p
    \<and> ftt_InverseInPlace 2 (2 ^ Suc 2) p c1 = Inr (c1, r) \<and> nvec_ok r \<and> length (m_data r) = 2 ^ 2
    \<and> (\<forall>k<2 ^ 2. uint (m_data r ! k)
         = negacyclic (2 ^ 2) ((!) (vals example_el)) ((!) (vals example_el)) k mod uint (m_modulus example_el))"
  using FTT_multiplies [OF ftt_reachable.start example_valid(1,2,2) refl example_valid(3,3)] .

end
