(* ===== verification/Poly.thy ===== *)
theory Poly
  imports FTT
begin

text \<open>
  Ring elements, \<^verbatim>\<open>PolyImpl<NativeVector>\<close> of \<^verbatim>\<open>src/src/core/include/lattice/hal/default/poly.h\<close>
  and \<^verbatim>\<open>poly-impl.h\<close>.

  \<open>poly\<close> has the three fields of the class; a null pointer to the values is \<open>None\<close>, and an
  operation that follows it has undefined behaviour.  The parameters are never null.
  \<^verbatim>\<open>SwitchFormat\<close> takes and returns the table cache of the transforms; its branch for ring dimensions
  other than half the cyclotomic order calls the arbitrary-order transforms, which are the argument
  \<open>arb\<close>.
\<close>

unbundle bit_operations_syntax

datatype Format = EVALUATION | COEFFICIENT

record (overloaded) 'a il_params =
  cyclotomicOrder :: "32 word"
  ringDimension :: "32 word"
  ciphertextModulus :: "'a::len word"
  rootOfUnity :: "'a word"
  bigCiphertextModulus :: "'a word"
  bigRootOfUnity :: "'a word"

record (overloaded) 'a poly =
  p_format :: Format
  p_params :: "'a::len il_params"
  p_values :: "'a nvec option"

abbreviation ring_dim :: "'a::len il_params \<Rightarrow> nat" where
  "ring_dim P \<equiv> unat (ringDimension P)"

section \<open>Construction and access\<close>

definition deref :: "'a::len poly \<Rightarrow> 'a nvec result" where
  "deref p = (case p_values p of None \<Rightarrow> Inl undefined_behaviour | Some v \<Rightarrow> Inr v)"

definition SetValuesToZero :: "'a::len poly \<Rightarrow> 'a poly" where
  "SetValuesToZero p = p \<lparr> p_values := Some (vec_zero (ring_dim (p_params p)) (ciphertextModulus (p_params p))) \<rparr>"

definition SetValuesToMax :: "'a::len poly \<Rightarrow> 'a poly" where
  "SetValuesToMax p =
     (let mx = SubFast (ciphertextModulus (p_params p)) 1
      in p \<lparr> p_values := Some (vec_const (ring_dim (p_params p)) (ciphertextModulus (p_params p)) mx) \<rparr>)"

definition poly_new :: "'a::len il_params \<Rightarrow> Format \<Rightarrow> bool \<Rightarrow> 'a poly" where
  "poly_new params format initializeElementToZero =
     (let p = \<lparr> p_format = format, p_params = params, p_values = None \<rparr>
      in if initializeElementToZero then SetValuesToZero p else p)"

definition poly_new_max :: "bool \<Rightarrow> 'a::len il_params \<Rightarrow> Format \<Rightarrow> 'a poly" where
  "poly_new_max initializeElementToMax params format =
     (let p = \<lparr> p_format = format, p_params = params, p_values = None \<rparr>
      in if initializeElementToMax then SetValuesToMax p else p)"

definition SetValues :: "'a::len nvec \<Rightarrow> Format \<Rightarrow> 'a poly \<Rightarrow> 'a poly result" where
  "SetValues vs format p =
     (if rootOfUnity (p_params p) = 0 then Inl type_error
      else if ring_dim (p_params p) \<noteq> length (m_data vs) \<or> ciphertextModulus (p_params p) \<noteq> m_modulus vs
      then Inl type_error
      else Inr (p \<lparr> p_format := format, p_values := Some vs \<rparr>))"

definition GetValues :: "'a::len poly \<Rightarrow> 'a nvec result" where
  "GetValues p = (case p_values p of None \<Rightarrow> Inl not_available_error | Some v \<Rightarrow> Inr v)"

definition poly_at :: "'a::len poly \<Rightarrow> nat \<Rightarrow> 'a word result" where
  "poly_at p i = bindR (GetValues p) (\<lambda>v. vec_at v i)"

definition poly_index :: "'a::len poly \<Rightarrow> nat \<Rightarrow> 'a word result" where
  "poly_index p i = bindR (deref p) (\<lambda>v. if i < length (m_data v) then Inr (m_data v ! i) else Inl undefined_behaviour)"

definition poly_equal :: "'a::len poly \<Rightarrow> 'a poly \<Rightarrow> bool result" where
  "poly_equal p r =
     (if \<not> (p_format p = p_format r \<and> rootOfUnity (p_params p) = rootOfUnity (p_params r)) then Inr False
      else bindR (GetValues p) (\<lambda>v. bindR (GetValues r) (\<lambda>w. Inr (v = w))))"

text \<open>
  The assignments.  Where there are no values yet, \<^verbatim>\<open>VecType temp(vlen); temp.SetModulus(..)\<close>
  followed by \<^verbatim>\<open>SetValues\<close> provides them.
\<close>

definition fresh_values :: "Format \<Rightarrow> 'a::len poly \<Rightarrow> 'a poly result" where
  "fresh_values format p =
     (case p_values p of
        Some v \<Rightarrow> Inr p
      | None \<Rightarrow> bindR (SetModulus (vec_zero (ring_dim (p_params p)) 0) (ciphertextModulus (p_params p)))
                 (\<lambda>tmp. SetValues tmp format p))"

definition overwrite :: "(nat \<Rightarrow> 'a::len word result) \<Rightarrow> 'a poly \<Rightarrow> 'a poly result" where
  "overwrite f p =
     bindR (deref p) (\<lambda>v.
       if length (m_data v) < ring_dim (p_params p) then Inl undefined_behaviour
       else bindR (mapR f [0..<ring_dim (p_params p)]) (\<lambda>d.
         Inr (p \<lparr> p_values := Some (v \<lparr> m_data := d @ drop (ring_dim (p_params p)) (m_data v) \<rparr>) \<rparr>)))"

definition assign_list :: "64 word list \<Rightarrow> 'a::len poly \<Rightarrow> 'a poly result" where
  "assign_list rhs p =
     bindR (fresh_values (p_format p) p)
       (overwrite (\<lambda>j. Inr (if j < length rhs then ucast (rhs ! j) else 0)))"

text \<open>The negation of the least signed value overflows.\<close>

definition signed_entry :: "'a::len word \<Rightarrow> 'l::len word \<Rightarrow> 'a word result" where
  "signed_entry m x =
     (if sint x < 0
      then (if - sint x = 2 ^ (LENGTH('l) - 1) then Inl undefined_behaviour
            else Inr (SubFast m (ucast (word_of_int (- sint x) :: 64 word))))
      else Inr (ucast (word_of_int (sint x) :: 64 word)))"

definition assign_signed :: "'l::len word list \<Rightarrow> 'a::len poly \<Rightarrow> 'a poly result" where
  "assign_signed rhs p =
     (let p = p \<lparr> p_format := COEFFICIENT \<rparr>; m = ciphertextModulus (p_params p) in
      bindR (fresh_values COEFFICIENT p)
        (overwrite (\<lambda>j. if j < length rhs then signed_entry m (rhs ! j) else Inr 0)))"

definition assign_int64 :: "64 word list \<Rightarrow> 'a::len poly \<Rightarrow> 'a poly result" where
  "assign_int64 = assign_signed"

definition assign_int32 :: "32 word list \<Rightarrow> 'a::len poly \<Rightarrow> 'a poly result" where
  "assign_int32 = assign_signed"

definition assign_const :: "64 word \<Rightarrow> 'a::len poly \<Rightarrow> 'a poly" where
  "assign_const val p =
     (let v = (case p_values p of Some v \<Rightarrow> v
               | None \<Rightarrow> vec_zero (ring_dim (p_params p)) (ciphertextModulus (p_params p)))
      in p \<lparr> p_format := EVALUATION,
             p_values := Some (v \<lparr> m_data := replicate (length (m_data v)) (ucast val) \<rparr>) \<rparr>)"

section \<open>Arithmetic\<close>

text \<open>\<^verbatim>\<open>PolyImpl tmp(m_params, m_format); tmp.SetValues(.., m_format)\<close> around a vector operation.\<close>

definition with_values :: "'a::len poly \<Rightarrow> ('a nvec \<Rightarrow> 'a nvec result) \<Rightarrow> 'a poly result" where
  "with_values p f =
     bindR (deref p) (\<lambda>v. bindR (f v) (\<lambda>w. SetValues w (p_format p) (poly_new (p_params p) (p_format p) False)))"

definition Plus_scalar :: "'a::len poly \<Rightarrow> 'a word \<Rightarrow> 'a poly result" where
  "Plus_scalar p element =
     with_values p (\<lambda>v. if p_format p = COEFFICIENT then vec_ModAddAtIndex v 0 element
                        else vec_ModAdd_scalar v element)"

definition Minus_scalar :: "'a::len poly \<Rightarrow> 'a word \<Rightarrow> 'a poly result" where
  "Minus_scalar p element = with_values p (\<lambda>v. vec_ModSub_scalar v element)"

definition Times_scalar :: "'a::len poly \<Rightarrow> 'a word \<Rightarrow> 'a poly result" where
  "Times_scalar p element = with_values p (\<lambda>v. vec_ModMul_scalar v element)"

definition Times_signed :: "'a::len poly \<Rightarrow> 'a word \<Rightarrow> 'a poly result" where
  "Times_signed p element =
     (let q = ciphertextModulus (p_params p);
          reduced = (\<lambda>e. if e > q then (if q = 0 then Inl undefined_behaviour else Inr (ModEq e q)) else Inr e)
      in if sint element < 0
         then (if - sint element = 2 ^ (LENGTH('a) - 1) then Inl undefined_behaviour
               else bindR (reduced (- element)) (\<lambda>e. with_values p (\<lambda>v. vec_ModMul_scalar v (SubFast q e))))
         else bindR (reduced element) (\<lambda>e. with_values p (\<lambda>v. vec_ModMul_scalar v e)))"

definition minus_scalar_eq :: "'a::len poly \<Rightarrow> 'a word \<Rightarrow> 'a poly result" where
  "minus_scalar_eq p element =
     bindR (deref p) (\<lambda>v. bindR (vec_ModSub_scalar v element) (\<lambda>w. Inr (p \<lparr> p_values := Some w \<rparr>)))"

definition times_scalar_eq :: "'a::len poly \<Rightarrow> 'a word \<Rightarrow> 'a poly result" where
  "times_scalar_eq p element =
     bindR (deref p) (\<lambda>v. bindR (vec_ModMul_scalar v element) (\<lambda>w. Inr (p \<lparr> p_values := Some w \<rparr>)))"

definition same_ring :: "'a::len poly \<Rightarrow> 'a poly \<Rightarrow> bool" where
  "same_ring p r \<longleftrightarrow> ringDimension (p_params p) = ringDimension (p_params r)
     \<and> ciphertextModulus (p_params p) = ciphertextModulus (p_params r)"

definition PlusNoCheck :: "'a::len poly \<Rightarrow> 'a poly \<Rightarrow> 'a poly result" where
  "PlusNoCheck p r =
     bindR (deref p) (\<lambda>v. bindR (deref r) (\<lambda>w. bindR (vec_ModAddNoCheck v w) (\<lambda>x.
       Inr (p \<lparr> p_values := Some x \<rparr>))))"

definition Plus :: "'a::len poly \<Rightarrow> 'a poly \<Rightarrow> 'a poly result" where
  "Plus p r =
     (if \<not> same_ring p r then Inl math_error
      else if p_format p \<noteq> p_format r then Inl not_implemented_error
      else PlusNoCheck p r)"

definition TimesNoCheck :: "'a::len poly \<Rightarrow> 'a poly \<Rightarrow> 'a poly result" where
  "TimesNoCheck p r =
     bindR (deref p) (\<lambda>v. bindR (deref r) (\<lambda>w. bindR (vec_ModMulNoCheck v w) (\<lambda>x.
       Inr (p \<lparr> p_values := Some x \<rparr>))))"

definition Times :: "'a::len poly \<Rightarrow> 'a poly \<Rightarrow> 'a poly result" where
  "Times p r =
     (if \<not> same_ring p r then Inl math_error
      else if p_format p \<noteq> EVALUATION \<or> p_format r \<noteq> EVALUATION then Inl not_implemented_error
      else TimesNoCheck p r)"

definition times_eq :: "'a::len poly \<Rightarrow> 'a poly \<Rightarrow> 'a poly result" where
  "times_eq p r =
     (if \<not> same_ring p r then Inl math_error
      else if p_format p \<noteq> EVALUATION \<or> p_format r \<noteq> EVALUATION then Inl not_implemented_error
      else case p_values p of
        Some v \<Rightarrow> bindR (deref r) (\<lambda>w. bindR (vec_ModMulNoCheck v w) (\<lambda>x. Inr (p \<lparr> p_values := Some x \<rparr>)))
      | None \<Rightarrow> Inr (SetValuesToZero p))"

definition Minus :: "'a::len poly \<Rightarrow> 'a poly \<Rightarrow> 'a poly result" where
  "Minus p r = with_values p (\<lambda>v. bindR (deref r) (\<lambda>w. vec_ModSub v w))"

definition filled :: "'a::len poly \<Rightarrow> 'a poly" where
  "filled p = (if p_values p = None then SetValuesToZero p else p)"

definition plus_eq :: "'a::len poly \<Rightarrow> 'a poly \<Rightarrow> 'a poly result" where
  "plus_eq p r =
     (let p = filled p in
      bindR (deref p) (\<lambda>v. bindR (deref r) (\<lambda>w. bindR (vec_ModAdd v w) (\<lambda>x. Inr (p \<lparr> p_values := Some x \<rparr>)))))"

definition minus_eq :: "'a::len poly \<Rightarrow> 'a poly \<Rightarrow> 'a poly result" where
  "minus_eq p r =
     (let p = filled p in
      bindR (deref p) (\<lambda>v. bindR (deref r) (\<lambda>w. bindR (vec_ModSub v w) (\<lambda>x. Inr (p \<lparr> p_values := Some x \<rparr>)))))"

definition Negate :: "'a::len poly \<Rightarrow> 'a poly result" where
  "Negate p = minus_eq (poly_new (p_params p) (p_format p) True) p"

definition poly_MultiplyAndRound :: "'a::len poly \<Rightarrow> 'a word \<Rightarrow> 'a word \<Rightarrow> 'a poly result" where
  "poly_MultiplyAndRound p t q = with_values p (\<lambda>v. vec_MultiplyAndRound v t q)"

definition poly_DivideAndRound :: "'a::len poly \<Rightarrow> 'a word \<Rightarrow> 'a poly result" where
  "poly_DivideAndRound p q = with_values p (\<lambda>v. vec_DivideAndRound v q)"

definition MultiplicativeInverse :: "'a::len poly \<Rightarrow> 'a poly result" where
  "MultiplicativeInverse p = with_values p vec_ModInverse"

definition poly_ModByTwo :: "'a::len poly \<Rightarrow> 'a poly result" where
  "poly_ModByTwo p = with_values p (\<lambda>v. Inr (ModByTwo v))"

definition poly_Mod :: "'a::len poly \<Rightarrow> 'a word \<Rightarrow> 'a poly result" where
  "poly_Mod p modulus = with_values p (\<lambda>v. vec_Mod v modulus)"

definition AddILElementOne :: "'a::len poly \<Rightarrow> 'a poly result" where
  "AddILElementOne p =
     bindR (deref p) (\<lambda>v.
       overwrite (\<lambda>i. Inr (ModAddFastEq (m_data v ! i) 1 (ciphertextModulus (p_params p)))) p)"

section \<open>Automorphisms\<close>

text \<open>
  The two loops of \<^verbatim>\<open>AutomorphismTransform\<close>: on evaluations, entries are permuted; on coefficients,
  the entry \<open>j\<close> moves to \<open>j * k\<close> and changes sign when that power wraps around.
\<close>

definition auto_eval_step ::
  "32 word \<Rightarrow> nat \<Rightarrow> 32 word \<Rightarrow> 'a::len word list \<Rightarrow> nat \<Rightarrow> 32 word \<times> 'a word list \<Rightarrow> (32 word \<times> 'a word list) result" where
  "auto_eval_step k logn mk src j st =
     (case st of (jk, res) \<Rightarrow>
        let jrev = unat (ReverseBits (word_of_nat j) logn);
            idxrev = unat (ReverseBits (drop_bit 1 jk AND mk) logn)
        in if jrev < length res \<and> idxrev < length src
           then Inr (jk + 2 * k, res[jrev := src ! idxrev]) else Inl undefined_behaviour)"

definition auto_coef_step ::
  "32 word \<Rightarrow> nat \<Rightarrow> 32 word \<Rightarrow> 'a::len word \<Rightarrow> 'a word list \<Rightarrow> nat \<Rightarrow> 32 word \<times> 'a word list \<Rightarrow> (32 word \<times> 'a word list) result" where
  "auto_coef_step k logn mk q src j st =
     (case st of (jk, res) \<Rightarrow>
        let i = unat (jk AND mk)
        in if i < length res \<and> j < length src
           then Inr (jk + k, res[i := if drop_bit logn jk AND 1 \<noteq> 0 then SubFast q (src ! j) else src ! j])
           else Inl undefined_behaviour)"

definition AutomorphismTransform :: "32 word \<Rightarrow> 'a::len poly \<Rightarrow> 'a poly result" where
  "AutomorphismTransform k p =
     (let n = ringDimension (p_params p); m = cyclotomicOrder (p_params p) in
      if n \<noteq> drop_bit 1 m then Inl not_implemented_error
      else if k mod 2 = 0 then Inl math_error
      else if GetMSB m < 2 then Inl undefined_behaviour
      else let result = poly_new (p_params p) (p_format p) True;
               logn = GetMSB m - 2;
               mk = push_bit logn 1 - 1
        in bindR (deref p) (\<lambda>v. bindR (deref result) (\<lambda>r.
           bindR (if p_format p = EVALUATION
                  then foldR (auto_eval_step k logn mk (m_data v)) [0..<unat n] (k, m_data r)
                  else foldR (auto_coef_step k logn mk (ciphertextModulus (p_params p)) (m_data v)) [0..<unat n] (0, m_data r))
             (\<lambda>(jk, d). Inr (result \<lparr> p_values := Some (r \<lparr> m_data := d \<rparr>) \<rparr>)))))"

definition AutomorphismTransform_precomp :: "32 word \<Rightarrow> 32 word list \<Rightarrow> 'a::len poly \<Rightarrow> 'a poly result" where
  "AutomorphismTransform_precomp k precomp p =
     (if p_format p \<noteq> EVALUATION \<or> ringDimension (p_params p) \<noteq> drop_bit 1 (cyclotomicOrder (p_params p))
      then Inl not_implemented_error
      else if k mod 2 = 0 then Inl math_error
      else bindR (deref p) (\<lambda>v.
        overwrite (\<lambda>j. if j < length precomp \<and> unat (precomp ! j) < length (m_data v)
                       then Inr (m_data v ! unat (precomp ! j)) else Inl undefined_behaviour)
          (poly_new (p_params p) (p_format p) True)))"

text \<open>
  \<^verbatim>\<open>PrecomputeAutoMap\<close> of \<^verbatim>\<open>src/src/core/lib/math/nbtheory2.cpp\<close>.  The double precision logarithm is
  far enough from a half for every 32-bit argument that its rounding is the rounded logarithm.
\<close>

definition round_log2 :: "nat \<Rightarrow> nat" where
  "round_log2 m = (let h = bit_length m - 1 in if m\<^sup>2 < 2 ^ (2 * h + 1) then h else h + 1)"

definition auto_map_step ::
  "nat \<Rightarrow> nat \<Rightarrow> 32 word \<Rightarrow> nat \<Rightarrow> 32 word list \<Rightarrow> 32 word list result" where
  "auto_map_step logm logn k j precomp =
     (if logm < 32
      then let jTmp = push_bit 1 (word_of_nat j) + 1;
               idx = drop_bit 1 (jTmp * k - push_bit logm (drop_bit logm (jTmp * k)));
               jrev = unat (ReverseBits (word_of_nat j) logn);
               idxrev = ReverseBits idx logn
           in if jrev < length precomp then Inr (precomp[jrev := idxrev]) else Inl undefined_behaviour
      else Inl undefined_behaviour)"

definition PrecomputeAutoMap :: "32 word \<Rightarrow> 32 word \<Rightarrow> 32 word list \<Rightarrow> 32 word list result" where
  "PrecomputeAutoMap n k precomp =
     (let m = push_bit 1 n in
      if n = 0 \<or> m = 0 then Inl undefined_behaviour
      else foldR (auto_map_step (round_log2 (unat m)) (round_log2 (unat n)) k) [0..<unat n] precomp)"

definition Transpose :: "'a::len poly \<Rightarrow> 'a poly result" where
  "Transpose p =
     (if p_format p = COEFFICIENT then Inl not_implemented_error
      else AutomorphismTransform (cyclotomicOrder (p_params p) - 1) p)"

section \<open>Change of format\<close>

type_synonym 'a arb_transform = "'a il_params \<Rightarrow> Format \<Rightarrow> 'a nvec \<Rightarrow> 'a nvec result"

definition other_format :: "Format \<Rightarrow> Format" where
  "other_format f = (if f = COEFFICIENT then EVALUATION else COEFFICIENT)"

definition ArbitrarySwitchFormat :: "'a::len arb_transform \<Rightarrow> 'a poly \<Rightarrow> 'a poly result" where
  "ArbitrarySwitchFormat arb p =
     (case p_values p of
        None \<Rightarrow> Inl not_available_error
      | Some v \<Rightarrow> bindR (arb (p_params p) (p_format p) v) (\<lambda>w.
          Inr (p \<lparr> p_format := other_format (p_format p), p_values := Some w \<rparr>)))"

definition SwitchFormat ::
  "'a::len arb_transform \<Rightarrow> 'a poly \<Rightarrow> 'a ftt_cache \<Rightarrow> ('a ftt_cache \<times> 'a poly) result" where
  "SwitchFormat arb p cache =
     (let co = cyclotomicOrder (p_params p); ru = rootOfUnity (p_params p) in
      if ringDimension (p_params p) \<noteq> drop_bit 1 co
      then bindR (ArbitrarySwitchFormat arb p) (\<lambda>p. Inr (cache, p))
      else case p_values p of
        None \<Rightarrow> Inl not_available_error
      | Some v \<Rightarrow>
          bindR (if p_format p \<noteq> COEFFICIENT then ftt_InverseInPlace ru co v cache
                 else ftt_ForwardInPlace ru co v cache)
            (\<lambda>(cache, w). Inr (cache, p \<lparr> p_format := other_format (p_format p), p_values := Some w \<rparr>)))"

definition SetFormat ::
  "'a::len arb_transform \<Rightarrow> Format \<Rightarrow> 'a poly \<Rightarrow> 'a ftt_cache \<Rightarrow> ('a ftt_cache \<times> 'a poly) result" where
  "SetFormat arb format p cache = (if p_format p \<noteq> format then SwitchFormat arb p cache else Inr (cache, p))"

text \<open>A polynomial with the vector that a random generator returned, in the format asked for.\<close>

definition poly_random ::
  "'a::len arb_transform \<Rightarrow> 'a nvec \<Rightarrow> 'a il_params \<Rightarrow> Format \<Rightarrow> 'a ftt_cache \<Rightarrow> ('a ftt_cache \<times> 'a poly) result" where
  "poly_random arb v params format cache =
     SetFormat arb format \<lparr> p_format = COEFFICIENT, p_params = params, p_values = Some v \<rparr> cache"

section \<open>Norms, digits and powers\<close>

definition MakeSparse :: "nat \<Rightarrow> 'a::len poly \<Rightarrow> 'a poly result" where
  "MakeSparse wFactor p =
     (case p_values p of
        None \<Rightarrow> Inr p
      | Some v \<Rightarrow> if wFactor = 0 \<and> 0 < ring_dim (p_params p) then Inl undefined_behaviour
          else overwrite (\<lambda>i. Inr (if i mod wFactor \<noteq> 0 then 0 else m_data v ! i)) p)"

definition InverseExists :: "'a::len poly \<Rightarrow> bool result" where
  "InverseExists p =
     bindR (deref p) (\<lambda>v.
       foldR (\<lambda>i b. if \<not> b then Inr b
                    else if i < length (m_data v) then Inr (m_data v ! i \<noteq> 0) else Inl undefined_behaviour)
         [0..<ring_dim (p_params p)] True)"

definition norm_step :: "'a::len word \<Rightarrow> 'a word list \<Rightarrow> nat \<Rightarrow> 'a word \<times> 'a word \<Rightarrow> ('a word \<times> 'a word) result" where
  "norm_step half d i st =
     (case st of (maxVal, minVal) \<Rightarrow>
        if i < length d
        then (if d ! i > half then Inr (maxVal, if d ! i < minVal then d ! i else minVal)
              else Inr (if d ! i > maxVal then d ! i else maxVal, minVal))
        else Inl undefined_behaviour)"

definition Norm :: "'a::len poly \<Rightarrow> rat result" where
  "Norm p =
     (let q = ciphertextModulus (p_params p) in
      bindR (deref p) (\<lambda>v.
      bindR (foldR (norm_step (drop_bit 1 q) (m_data v)) [0..<ring_dim (p_params p)] (0, q)) (\<lambda>(maxVal, minVal).
        let minVal = SubFast q minVal
        in Inr (ConvertToDouble (if minVal > maxVal then minVal else maxVal)))))"

definition nWindows :: "'a::len word \<Rightarrow> nat \<Rightarrow> nat" where
  "nWindows q baseBits =
     (let nBits = GetMSB q in nBits div baseBits + (if nBits mod baseBits > 0 then 1 else 0))"

text \<open>The digit base \<^verbatim>\<open>1 << baseBits\<close> is a shift of \<^verbatim>\<open>int\<close>.\<close>

definition base_digit ::
  "'a::len arb_transform \<Rightarrow> 'a poly \<Rightarrow> nat \<Rightarrow> bool \<Rightarrow> nat \<Rightarrow> 'a poly list \<times> 'a ftt_cache
     \<Rightarrow> ('a poly list \<times> 'a ftt_cache) result" where
  "base_digit arb x baseBits evalModeAnswer i st =
     (case st of (ds, cache) \<Rightarrow>
        bindR (GetValues x) (\<lambda>v.
        bindR (if baseBits < 31 then vec_GetDigitAtIndexForBase v (i + 1) (2 ^ baseBits) else Inl undefined_behaviour) (\<lambda>d.
        bindR (SetValues d (p_format x) (poly_new (p_params x) EVALUATION False)) (\<lambda>xDigit.
        bindR (if evalModeAnswer then SwitchFormat arb xDigit cache else Inr (cache, xDigit)) (\<lambda>(cache, xDigit).
          Inr (ds @ [xDigit], cache))))))"

definition BaseDecompose ::
  "'a::len arb_transform \<Rightarrow> nat \<Rightarrow> bool \<Rightarrow> 'a poly \<Rightarrow> 'a ftt_cache \<Rightarrow> ('a ftt_cache \<times> 'a poly list) result" where
  "BaseDecompose arb baseBits evalModeAnswer p cache =
     (if baseBits = 0 then Inl undefined_behaviour
      else bindR (SetFormat arb COEFFICIENT p cache) (\<lambda>(cache, x).
        bindR (foldR (base_digit arb x baseBits evalModeAnswer)
                 [0..<nWindows (ciphertextModulus (p_params p)) baseBits] ([], cache))
          (\<lambda>(ds, cache). Inr (cache, ds))))"

definition PowersOfBase :: "nat \<Rightarrow> 'a::len poly \<Rightarrow> 'a poly list result" where
  "PowersOfBase baseBits p =
     (let m = ciphertextModulus (p_params p) in
      if baseBits = 0 then Inl undefined_behaviour
      else mapR (\<lambda>i. Times_scalar p (ModExp 2 (word_of_nat (i * baseBits)) m)) [0..<nWindows m baseBits])"

section \<open>The transform of a table is a bijection\<close>

lemma finite_fits: "finite {v. fits N L v}"
proof (rule finite_imageD [of m_data])
  have "m_data ` {v. fits N L v} \<subseteq> {xs. set xs \<subseteq> UNIV \<and> length xs = 2 ^ L}" by (auto simp: fits_def)
  then show "finite (m_data ` {v. fits N L v})" by (rule finite_subset) (rule finite_lists_length_eq, simp)
  show "inj_on m_data {v. fits N L v}" by (auto simp: inj_on_def fits_def)
qed

lemma ntt_onto:
  assumes "ntt_tables_ok N L" "fits N L v"
  obtains a where "fits N L a" "ntt_forward_of N a = Inr v" "ntt_inverse_of N v = Inr a"
proof -
  let ?S = "{v. fits N L v}" and ?F = "\<lambda>a. projr (ntt_forward_of N a)"
  have f: "ntt_forward_of N a = Inr (?F a) \<and> fits N L (?F a)" if "fits N L a" for a
    using ntt_forward_value [OF assms(1) that] by (metis sum.sel(2))
  have "inj_on ?F ?S"
  proof (rule inj_onI)
    fix a b
    assume ab: "a \<in> ?S" "b \<in> ?S" "?F a = ?F b"
    then have "ntt_forward_of N a = ntt_forward_of N b" using f [of a] f [of b] by (metis mem_Collect_eq)
    then have "Inr a = (Inr b :: 'a nvec result)"
      using ntt_inverse_forward [OF assms(1)] f ab(1,2) by (metis mem_Collect_eq)
    then show "a = b" by simp
  qed
  moreover have "?F ` ?S \<subseteq> ?S" using f by auto
  ultimately have "?F ` ?S = ?S" using finite_fits endo_inj_surj by blast
  then obtain a where "fits N L a" "v = ?F a" using assms(2) by (metis (mono_tags, lifting) imageE mem_Collect_eq)
  then show thesis using that f ntt_inverse_forward [OF assms(1)] by metis
qed

lemma ntt_forward_eqI:
  assumes "ntt_tables_ok N L" "fits N L a" "fits N L v"
    and "\<And>i. i < 2 ^ L \<Longrightarrow> uint (m_data v ! i) mod uint (nt_modulus N) = poly_eval (m_data a) (eval_point N L i) mod uint (nt_modulus N)"
  shows "ntt_forward_of N a = Inr v"
proof -
  obtain w where w: "ntt_forward_of N a = Inr w" "fits N L w"
      "\<And>i. i < 2 ^ L \<Longrightarrow> uint (m_data w ! i) = poly_eval (m_data a) (eval_point N L i) mod uint (nt_modulus N)"
    using ntt_forward_value [OF assms(1,2)] by metis
  have "m_data w ! i = m_data v ! i" if "i < 2 ^ L" for i
  proof -
    have "residue (nt_modulus N) (m_data v ! i)" using fits_residues [OF assms(3)] assms(3) that by (auto simp: fits_def)
    then have "uint (m_data v ! i) mod uint (nt_modulus N) = uint (m_data v ! i)" by (simp add: residue_def)
    then have "uint (m_data w ! i) = uint (m_data v ! i)" using w(3) [OF that] assms(4) [OF that] by (simp only:)
    then show ?thesis by (simp add: word_uint_eq_iff)
  qed
  then have "m_data w = m_data v" using w(2) assms(3) by (intro nth_equalityI) (simp_all add: fits_def)
  moreover have "m_modulus w = m_modulus v" using w(2) assms(3) by (simp add: fits_def)
  ultimately show ?thesis using w(1) by simp
qed

text \<open>The transform is linear.\<close>

lemma mod_linear_eq: "(s * (x mod q) + t * (y mod q)) mod q = (s * x + t * y) mod (q :: int)"
  by (metis mod_add_eq mod_mult_right_eq)

lemma poly_eval_combine:
  assumes "length xs = n" "length ys = n" "length zs = n"
    and "\<And>j. j < n \<Longrightarrow> uint (zs ! j) mod q = (s * uint (xs ! j) + t * uint (ys ! j)) mod q"
  shows "poly_eval zs y mod q = (s * poly_eval xs y + t * poly_eval ys y) mod q"
proof -
  have "poly_eval zs y mod q = (\<Sum>j<n. (s * uint (xs ! j) + t * uint (ys ! j)) * y ^ j) mod q"
    unfolding poly_eval_def assms(3) by (intro sum_mod_eqI mod_mult_cong [OF _ refl] assms(4)) simp
  also have "(\<Sum>j<n. (s * uint (xs ! j) + t * uint (ys ! j)) * y ^ j) = s * poly_eval xs y + t * poly_eval ys y"
    by (simp add: poly_eval_def assms(1,2) sum_distrib_left sum.distrib [symmetric] algebra_simps)
  finally show ?thesis .
qed

lemma ntt_linear:
  assumes "ntt_tables_ok N L" "fits N L a" "fits N L b" "fits N L c" "fits N L w"
    and "ntt_forward_of N a = Inr fa" "ntt_forward_of N b = Inr fb"
    and "\<And>j. j < 2 ^ L \<Longrightarrow> uint (m_data c ! j) mod uint (nt_modulus N)
           = (s * uint (m_data a ! j) + t * uint (m_data b ! j)) mod uint (nt_modulus N)"
    and "\<And>j. j < 2 ^ L \<Longrightarrow> uint (m_data w ! j) mod uint (nt_modulus N)
           = (s * uint (m_data fa ! j) + t * uint (m_data fb ! j)) mod uint (nt_modulus N)"
  shows "ntt_forward_of N c = Inr w"
proof (rule ntt_forward_eqI [OF assms(1,4,5)])
  fix i :: nat
  assume i: "i < 2 ^ L"
  let ?q = "uint (nt_modulus N)" and ?z = "eval_point N L i"
  have fa: "uint (m_data fa ! i) = poly_eval (m_data a) ?z mod ?q"
    using ntt_forward_value [OF assms(1,2)] assms(6) i by (metis sum.inject(2))
  have fb: "uint (m_data fb ! i) = poly_eval (m_data b) ?z mod ?q"
    using ntt_forward_value [OF assms(1,3)] assms(7) i by (metis sum.inject(2))
  have "poly_eval (m_data c) ?z mod ?q = (s * poly_eval (m_data a) ?z + t * poly_eval (m_data b) ?z) mod ?q"
    by (rule poly_eval_combine [where n = "2 ^ L"]) (use assms(2,3,4,8) in \<open>auto simp: fits_def\<close>)
  also have "\<dots> = uint (m_data w ! i) mod ?q"
    unfolding assms(9) [OF i] fa fb by (rule mod_linear_eq [symmetric])
  finally show "uint (m_data w ! i) mod ?q = poly_eval (m_data c) ?z mod ?q" ..
qed

section \<open>The ring element of a polynomial\<close>

text \<open>
  The abstract ring: coefficients modulo \<open>q\<close> of a polynomial modulo \<open>X ^ n + 1\<close>, as a list of
  integers of length \<open>n\<close>.
\<close>

definition ring_lin :: "int \<Rightarrow> int \<Rightarrow> int \<Rightarrow> int list \<Rightarrow> int list \<Rightarrow> int list" where
  "ring_lin q s t xs ys = map2 (\<lambda>x y. (s * x + t * y) mod q) xs ys"

abbreviation ring_add :: "int \<Rightarrow> int list \<Rightarrow> int list \<Rightarrow> int list" where
  "ring_add q \<equiv> ring_lin q 1 1"

abbreviation ring_sub :: "int \<Rightarrow> int list \<Rightarrow> int list \<Rightarrow> int list" where
  "ring_sub q \<equiv> ring_lin q 1 (- 1)"

definition ring_mul :: "int \<Rightarrow> int list \<Rightarrow> int list \<Rightarrow> int list" where
  "ring_mul q xs ys = map (\<lambda>k. negacyclic (length xs) ((!) xs) ((!) ys) k mod q) [0..<length xs]"

definition ring_params :: "nat \<Rightarrow> 'a::len il_params \<Rightarrow> bool" where
  "ring_params L P \<longleftrightarrow> cyclotomicOrder P = 2 ^ Suc L \<and> ringDimension P = 2 ^ L
     \<and> valid_root (ciphertextModulus P) L (rootOfUnity P)"

definition poly_ok :: "'a::len ftt_cache \<Rightarrow> nat \<Rightarrow> 'a poly \<Rightarrow> bool" where
  "poly_ok c L p \<longleftrightarrow> ring_params L (p_params p)
     \<and> (\<exists>v. p_values p = Some v \<and> nvec_ok v \<and> m_modulus v = ciphertextModulus (p_params p)
          \<and> length (m_data v) = 2 ^ L)
     \<and> (p_format p = EVALUATION \<longrightarrow> \<not> needs_tables c (ciphertextModulus (p_params p)) (2 ^ L))"

definition coeff_vec :: "'a::len ftt_cache \<Rightarrow> nat \<Rightarrow> 'a poly \<Rightarrow> 'a nvec" where
  "coeff_vec c L p =
     (let v = the (p_values p)
      in if p_format p = COEFFICIENT then v
         else projr (ntt_inverse_of (tables_of c (ciphertextModulus (p_params p)) L) v))"

definition coeffs :: "'a::len ftt_cache \<Rightarrow> nat \<Rightarrow> 'a poly \<Rightarrow> int list" where
  "coeffs c L p = vals (coeff_vec c L p)"

lemma poly_okD:
  assumes "poly_ok c L p"
  obtains v where "p_values p = Some v" "nvec_ok v" "m_modulus v = ciphertextModulus (p_params p)"
    "length (m_data v) = 2 ^ L" "deref p = Inr v" "GetValues p = Inr v"
  using assms by (auto simp: poly_ok_def deref_def GetValues_def)

lemma ring_paramsD:
  assumes "ring_params L P"
  shows "cyclotomicOrder P = 2 ^ Suc L" "ringDimension P = 2 ^ L" "valid_root (ciphertextModulus P) L (rootOfUnity P)"
    "L \<le> 24" "0 < L" "ring_dim P = 2 ^ L" "ringDimension P = drop_bit 1 (cyclotomicOrder P)"
    "barrett_modulus (ciphertextModulus P)" "modulus_ok (ciphertextModulus P)" "rootOfUnity P \<noteq> 0"
    "0 < uint (ciphertextModulus P)"
proof -
  show *: "cyclotomicOrder P = 2 ^ Suc L" "ringDimension P = 2 ^ L" "valid_root (ciphertextModulus P) L (rootOfUnity P)"
    using assms by (simp_all add: ring_params_def)
  then show L: "L \<le> 24" "0 < L" "barrett_modulus (ciphertextModulus P)" by (simp_all add: valid_root_def)
  have "drop_bit 1 (2 ^ Suc L :: 32 word) = 2 ^ L"
    using L(1) by (intro bit_word_eqI) (auto simp: bit_drop_bit_eq bit_exp_iff simp del: power_Suc)
  then show "ring_dim P = 2 ^ L" "ringDimension P = drop_bit 1 (cyclotomicOrder P)"
    unfolding * using cyclo_order(1) [OF L(1)] by metis+
  show "modulus_ok (ciphertextModulus P)" using valid_root_modulus [OF *(3)] by simp
  then show "0 < uint (ciphertextModulus P)" by (rule modulus_okD)
  show "rootOfUnity P \<noteq> 0" using valid_root_proper [OF *(3)] by simp
qed

lemma poly_tables:
  assumes "cache_ok c" "poly_ok c L p" "p_format p = EVALUATION"
  shows "ntt_tables_ok (tables_of c (ciphertextModulus (p_params p)) L) L"
    "entry_ok c (ciphertextModulus (p_params p)) L"
  using cache_okD [OF assms(1)] assms(2,3) by (auto simp: poly_ok_def entry_ok_def)

lemma coeff_vec_eval:
  assumes "cache_ok c" "poly_ok c L p" "p_format p = EVALUATION"
  shows "fits (tables_of c (ciphertextModulus (p_params p)) L) L (coeff_vec c L p)"
    "ntt_forward_of (tables_of c (ciphertextModulus (p_params p)) L) (coeff_vec c L p) = Inr (the (p_values p))"
proof -
  let ?N = "tables_of c (ciphertextModulus (p_params p)) L"
  obtain v where v: "p_values p = Some v" "nvec_ok v" "m_modulus v = ciphertextModulus (p_params p)"
      "length (m_data v) = 2 ^ L" using poly_okD [OF assms(2)] by metis
  then have "fits ?N L v" by (simp add: fits_def)
  then obtain a where a: "fits ?N L a" "ntt_forward_of ?N a = Inr v" "ntt_inverse_of ?N v = Inr a"
    using ntt_onto [OF poly_tables(1) [OF assms]] by metis
  moreover have "coeff_vec c L p = a" using v(1) a(3) assms(3) by (simp add: coeff_vec_def)
  ultimately show "fits ?N L (coeff_vec c L p)" "ntt_forward_of ?N (coeff_vec c L p) = Inr (the (p_values p))"
    using v(1) by simp_all
qed

lemma coeff_vec_unique:
  assumes "cache_ok c" "poly_ok c L p" "p_format p = EVALUATION"
    and "fits (tables_of c (ciphertextModulus (p_params p)) L) L a"
    and "ntt_forward_of (tables_of c (ciphertextModulus (p_params p)) L) a = Inr (the (p_values p))"
  shows "coeff_vec c L p = a"
  using ntt_inverse_forward [OF poly_tables(1) [OF assms(1-3)] assms(4,5)] assms(3) by (simp add: coeff_vec_def)

lemma coeff_vec_ok:
  assumes "cache_ok c" "poly_ok c L p"
  shows "nvec_ok (coeff_vec c L p)" "m_modulus (coeff_vec c L p) = ciphertextModulus (p_params p)"
    "length (m_data (coeff_vec c L p)) = 2 ^ L"
proof -
  have "nvec_ok (coeff_vec c L p) \<and> m_modulus (coeff_vec c L p) = ciphertextModulus (p_params p)
      \<and> length (m_data (coeff_vec c L p)) = 2 ^ L"
  proof (cases "p_format p")
    case EVALUATION
    then show ?thesis using coeff_vec_eval(1) [OF assms] by (simp add: fits_def)
  next
    case COEFFICIENT
    obtain v where "p_values p = Some v" "nvec_ok v" "m_modulus v = ciphertextModulus (p_params p)"
        "length (m_data v) = 2 ^ L" using poly_okD [OF assms(2)] by blast
    then show ?thesis using COEFFICIENT by (simp add: coeff_vec_def)
  qed
  then show "nvec_ok (coeff_vec c L p)" "m_modulus (coeff_vec c L p) = ciphertextModulus (p_params p)"
    "length (m_data (coeff_vec c L p)) = 2 ^ L" by simp_all
qed

lemma length_coeffs: "cache_ok c \<Longrightarrow> poly_ok c L p \<Longrightarrow> length (coeffs c L p) = 2 ^ L"
  by (simp add: coeffs_def coeff_vec_ok)

text \<open>A vector of residues with given values.\<close>

definition vec_of :: "'a::len word \<Rightarrow> int list \<Rightarrow> 'a nvec" where
  "vec_of q xs = \<lparr> m_modulus = q, m_data = map (\<lambda>x. word_of_int (x mod uint q)) xs \<rparr>"

lemma vec_of_ok:
  assumes "modulus_ok q"
  shows "nvec_ok (vec_of q xs)" "vals (vec_of q xs) = map (\<lambda>x. x mod uint q) xs"
    "m_modulus (vec_of q xs) = q" "length (m_data (vec_of q xs)) = length xs"
proof -
  have q: "0 < uint q" using assms by (rule modulus_okD)
  have u: "uint (word_of_int (x mod uint q) :: 'a word) = x mod uint q" for x
  proof -
    have "0 \<le> x mod uint q" "x mod uint q < 2 ^ LENGTH('a)"
      using q pos_mod_bound [OF q, of x] uint_lt_pow [of q] by (simp, linarith)
    then show ?thesis by (simp add: uint_word_of_int)
  qed
  show "nvec_ok (vec_of q xs)" "vals (vec_of q xs) = map (\<lambda>x. x mod uint q) xs"
    using assms q by (auto simp: vec_of_def nvec_ok_def residue_def vals_def u)
  show "m_modulus (vec_of q xs) = q" "length (m_data (vec_of q xs)) = length xs" by (simp_all add: vec_of_def)
qed

lemma vals_nth: "j < length (m_data v) \<Longrightarrow> vals v ! j = uint (m_data v ! j)"
  by (simp add: vals_def)

lemma vals_residue: "nvec_ok v \<Longrightarrow> j < length (m_data v) \<Longrightarrow> uint (m_data v ! j) mod uint (m_modulus v) = uint (m_data v ! j)"
  using nvec_ok_nth [of v j] by (simp add: residue_def)

text \<open>An entrywise linear combination of the values of two polynomials of one format is one of ring elements.\<close>

lemma poly_combine:
  assumes "cache_ok c" "poly_ok c L p" "poly_ok c L r" "p_params r = p_params p" "p_format r = p_format p"
    and u: "nvec_ok u" "m_modulus u = ciphertextModulus (p_params p)" "length (m_data u) = 2 ^ L"
    and "\<And>j. j < 2 ^ L \<Longrightarrow> uint (m_data u ! j) mod uint (ciphertextModulus (p_params p))
      = (s * uint (m_data (the (p_values p)) ! j) + t * uint (m_data (the (p_values r)) ! j)) mod uint (ciphertextModulus (p_params p))"
  shows "poly_ok c L (p \<lparr> p_values := Some u \<rparr>)"
    "coeffs c L (p \<lparr> p_values := Some u \<rparr>) = ring_lin (uint (ciphertextModulus (p_params p))) s t (coeffs c L p) (coeffs c L r)"
proof -
  let ?q = "ciphertextModulus (p_params p)" and ?p' = "p \<lparr> p_values := Some u \<rparr>"
  show ok: "poly_ok c L ?p'" using assms(2) u by (simp add: poly_ok_def)
  note P = coeff_vec_ok [OF assms(1,2)] and R = coeff_vec_ok [OF assms(1,3), unfolded assms(4)]
  have mod: "modulus_ok ?q" using assms(2) ring_paramsD(9) unfolding poly_ok_def by blast
  define xs where "xs = ring_lin (uint ?q) s t (coeffs c L p) (coeffs c L r)"
  have xs: "length xs = 2 ^ L" "map (\<lambda>x. x mod uint ?q) xs = xs"
      "\<And>j. j < 2 ^ L \<Longrightarrow> xs ! j = (s * uint (m_data (coeff_vec c L p) ! j) + t * uint (m_data (coeff_vec c L r) ! j)) mod uint ?q"
    using P(3) R(3) by (simp_all add: xs_def ring_lin_def coeffs_def vals_nth case_prod_unfold)
  have "vals (coeff_vec c L ?p') = xs"
  proof (cases "p_format p")
    case COEFFICIENT
    have "vals u ! j = xs ! j" if "j < 2 ^ L" for j
      using assms(9) [OF that] xs(3) [OF that] vals_residue [OF u(1), of j] that u(2,3) COEFFICIENT assms(5)
      by (simp add: vals_nth coeff_vec_def)
    then show ?thesis using u(3) xs(1) COEFFICIENT by (auto simp: coeff_vec_def intro!: nth_equalityI)
  next
    case EVALUATION
    let ?N = "tables_of c ?q L"
    note T = poly_tables(1) [OF assms(1,2) EVALUATION] and E = coeff_vec_eval [OF assms(1,2) EVALUATION]
    have E': "fits ?N L (coeff_vec c L r)" "ntt_forward_of ?N (coeff_vec c L r) = Inr (the (p_values r))"
      using coeff_vec_eval [OF assms(1,3)] assms(4,5) EVALUATION by simp_all
    have V: "fits ?N L (vec_of ?q xs)" using vec_of_ok [OF mod] xs(1) by (simp add: fits_def)
    have vj: "uint (m_data (vec_of ?q xs) ! j) = xs ! j" if "j < 2 ^ L" for j
      using vec_of_ok(2,4) [OF mod, of xs] xs(1,2) that by (metis vals_nth)
    have "ntt_forward_of ?N (vec_of ?q xs) = Inr u"
      by (rule ntt_linear [OF T E(1) E'(1) V _ E(2) E'(2), of _ s t])
         (use u assms(9) xs(3) vj in \<open>auto simp: fits_def\<close>)
    then have "coeff_vec c L ?p' = vec_of ?q xs"
      using coeff_vec_unique [OF assms(1) ok, of "vec_of ?q xs"] V EVALUATION by simp
    then show ?thesis using vec_of_ok(2) [OF mod] xs(2) by simp
  qed
  then show "coeffs c L ?p' = ring_lin (uint ?q) s t (coeffs c L p) (coeffs c L r)"
    by (simp add: coeffs_def xs_def)
qed

lemma same_shape_poly:
  assumes "poly_ok c L p" "poly_ok c L r" "p_params r = p_params p" "p_values p = Some v" "p_values r = Some w"
  shows "same_shape v w" "nvec_ok v" "nvec_ok w" "m_modulus v = ciphertextModulus (p_params p)" "length (m_data v) = 2 ^ L"
    "length (m_data w) = 2 ^ L"
  using assms by (auto simp: poly_ok_def same_shape_def)

lemma with_values_run:
  assumes "poly_ok c L p" "p_values p = Some v" "f v = Inr u" "m_modulus u = ciphertextModulus (p_params p)"
    "length (m_data u) = 2 ^ L"
  shows "with_values p f = Inr (p \<lparr> p_values := Some u \<rparr>)"
proof -
  have "ring_params L (p_params p)" using assms(1) by (simp add: poly_ok_def)
  note P = ring_paramsD [OF this]
  show ?thesis
    using assms(2-5) P(6,10) by (simp add: with_values_def deref_def SetValues_def poly_new_def Let_def)
qed

lemma map2_length: "map f xs = map2 g ys zs \<Longrightarrow> length ys = n \<Longrightarrow> length zs = n \<Longrightarrow> length xs = n"
  by (metis length_map length_zip min.idem)

lemma Plus_refines:
  assumes "cache_ok c" "poly_ok c L p" "poly_ok c L r" "p_params r = p_params p" "p_format r = p_format p"
  obtains s where "Plus p r = Inr s" "plus_eq p r = Inr s" "poly_ok c L s" "p_params s = p_params p" "p_format s = p_format p"
    "coeffs c L s = ring_add (uint (ciphertextModulus (p_params p))) (coeffs c L p) (coeffs c L r)"
proof -
  obtain v w where v: "p_values p = Some v" "deref p = Inr v" and w: "p_values r = Some w" "deref r = Inr w"
    using assms(2,3) poly_okD by metis
  note S = same_shape_poly [OF assms(2-4) v(1) w(1)]
  obtain u where u: "vec_ModAdd v w = Inr u" "nvec_ok u" "m_modulus u = m_modulus v"
      "vals u = map2 (\<lambda>x y. (x + y) mod uint (m_modulus v)) (vals v) (vals w)"
    using vec_ModAdd_value [OF S(2,3,1)] by metis
  have len: "length (m_data u) = 2 ^ L" using map2_length [OF u(4) [unfolded vals_def]] S(5,6) by simp
  have uj: "uint (m_data u ! j) = (uint (m_data v ! j) + uint (m_data w ! j)) mod uint (m_modulus v)" if "j < 2 ^ L" for j
    using that len S(5,6) u(4) vals_nth [of j u] vals_nth [of j v] vals_nth [of j w] by simp
  have comb: "poly_ok c L (p \<lparr> p_values := Some u \<rparr>)"
      "coeffs c L (p \<lparr> p_values := Some u \<rparr>) = ring_add (uint (ciphertextModulus (p_params p))) (coeffs c L p) (coeffs c L r)"
    by (rule poly_combine [OF assms, where s = 1 and t = 1]; use u(2,3) len S(4) uj v w in simp)+
  show thesis
    by (rule that [of "p \<lparr> p_values := Some u \<rparr>"])
       (use comb v w u(1) S(1) assms(4,5) in
         \<open>simp_all add: Plus_def plus_eq_def PlusNoCheck_def same_ring_def filled_def vec_ModAddNoCheck_eq Let_def\<close>)
qed

lemma Minus_refines:
  assumes "cache_ok c" "poly_ok c L p" "poly_ok c L r" "p_params r = p_params p" "p_format r = p_format p"
  obtains s where "Minus p r = Inr s" "minus_eq p r = Inr s" "poly_ok c L s" "p_params s = p_params p" "p_format s = p_format p"
    "coeffs c L s = ring_sub (uint (ciphertextModulus (p_params p))) (coeffs c L p) (coeffs c L r)"
proof -
  obtain v w where v: "p_values p = Some v" "deref p = Inr v" and w: "p_values r = Some w" "deref r = Inr w"
    using assms(2,3) poly_okD by metis
  note S = same_shape_poly [OF assms(2-4) v(1) w(1)]
  obtain u where u: "vec_ModSub v w = Inr u" "nvec_ok u" "m_modulus u = m_modulus v"
      "vals u = map2 (\<lambda>x y. (x - y) mod uint (m_modulus v)) (vals v) (vals w)"
    using vec_ModSub_value [OF S(2,3,1)] by metis
  have len: "length (m_data u) = 2 ^ L" using map2_length [OF u(4) [unfolded vals_def]] S(5,6) by simp
  have uj: "uint (m_data u ! j) = (uint (m_data v ! j) - uint (m_data w ! j)) mod uint (m_modulus v)" if "j < 2 ^ L" for j
    using that len S(5,6) u(4) vals_nth [of j u] vals_nth [of j v] vals_nth [of j w] by simp
  have comb: "poly_ok c L (p \<lparr> p_values := Some u \<rparr>)"
      "coeffs c L (p \<lparr> p_values := Some u \<rparr>) = ring_sub (uint (ciphertextModulus (p_params p))) (coeffs c L p) (coeffs c L r)"
    by (rule poly_combine [OF assms, where s = 1 and t = "- 1"]; use u(2,3) len S(4) uj v w in simp)+
  have "Minus p r = Inr (p \<lparr> p_values := Some u \<rparr>)"
    unfolding Minus_def by (rule with_values_run [OF assms(2) v(1)]) (use u w len S(4) in simp_all)
  then show thesis
    using comb v w u(1) assms(4,5)
    by (intro that [of "p \<lparr> p_values := Some u \<rparr>"]) (simp_all add: minus_eq_def filled_def Let_def)
qed

lemma vals_nega_vec:
  assumes "0 < uint (m_modulus a)" "length (m_data a) = n"
  shows "vals (nega_vec n a b) = ring_mul (uint (m_modulus a)) (vals a) (vals b)"
proof (rule nth_equalityI)
  show "length (vals (nega_vec n a b)) = length (ring_mul (uint (m_modulus a)) (vals a) (vals b))"
    using assms(2) by (simp add: nega_vec_def ring_mul_def)
  fix k
  assume "k < length (vals (nega_vec n a b))"
  then have k: "k < n" "k < length (m_data (nega_vec n a b))" by (simp_all add: nega_vec_def)
  show "vals (nega_vec n a b) ! k = ring_mul (uint (m_modulus a)) (vals a) (vals b) ! k"
    unfolding vals_nth [OF k(2)] nega_vec_entry [OF assms(1) k(1)] using k(1) assms(2) by (simp add: ring_mul_def)
qed

lemma Times_refines:
  assumes "cache_ok c" "poly_ok c L p" "poly_ok c L r" "p_params r = p_params p"
    "p_format p = EVALUATION" "p_format r = EVALUATION"
  obtains s where "Times p r = Inr s" "times_eq p r = Inr s" "poly_ok c L s" "p_params s = p_params p" "p_format s = EVALUATION"
    "coeffs c L s = ring_mul (uint (ciphertextModulus (p_params p))) (coeffs c L p) (coeffs c L r)"
proof -
  let ?q = "ciphertextModulus (p_params p)" and ?a = "coeff_vec c L p" and ?b = "coeff_vec c L r"
  let ?N = "tables_of c ?q L"
  obtain v w where v: "p_values p = Some v" "deref p = Inr v" and w: "p_values r = Some w" "deref r = Inr w"
    using assms(2,3) poly_okD by metis
  note S = same_shape_poly [OF assms(2-4) v(1) w(1)]
  have "ring_params L (p_params p)" using assms(2) by (simp add: poly_ok_def)
  note P = ring_paramsD [OF this]
  note A = coeff_vec_eval [OF assms(1,2,5)] and B = coeff_vec_eval [OF assms(1,3,6), unfolded assms(4)]
  have prod: "vec_ModMul v w = ntt_forward_of ?N (nega_vec (2 ^ L) ?a ?b)"
    using ntt_product [OF poly_tables(1) [OF assms(1,2,5)] A(1) B(1) _ A(2) B(2)] P(8) v w by simp
  obtain u where u: "ntt_forward_of ?N (nega_vec (2 ^ L) ?a ?b) = Inr u" "fits ?N L u"
    using ntt_forward_value [OF poly_tables(1) [OF assms(1,2,5)] fits_nega_vec [OF A(1)]] by metis
  let ?s = "p \<lparr> p_values := Some u \<rparr>"
  have ok: "poly_ok c L ?s" using assms(2) u(2) by (simp add: poly_ok_def fits_def)
  have "coeff_vec c L ?s = nega_vec (2 ^ L) ?a ?b"
    using coeff_vec_unique [OF assms(1) ok, of "nega_vec (2 ^ L) ?a ?b"] u(1) fits_nega_vec [OF A(1)] assms(5) by simp
  then have "coeffs c L ?s = ring_mul (uint ?q) (coeffs c L p) (coeffs c L r)"
    unfolding coeffs_def using vals_nega_vec [of ?a "2 ^ L" ?b] coeff_vec_ok [OF assms(1,2)] P(11) by simp
  then show thesis
    using ok v w u(1) prod S(1) assms(4,5,6)
    by (intro that [of ?s])
       (simp_all add: Times_def times_eq_def TimesNoCheck_def same_ring_def vec_ModMulNoCheck_eq)
qed

text \<open>
  A change of format keeps the ring element, that of every other polynomial of the same ring included.
\<close>

lemma SwitchFormat_eval:
  assumes "ftt_reachable c" "poly_ok c L p" "p_format p = EVALUATION"
  obtains s where "SwitchFormat arb p c = Inr (c, s)" "poly_ok c L s" "p_params s = p_params p"
    "p_format s = COEFFICIENT" "coeffs c L s = coeffs c L p"
proof -
  let ?P = "p_params p" and ?q = "ciphertextModulus (p_params p)" and ?a = "coeff_vec c L p"
  note ok = ftt_reachable_cache_ok [OF assms(1)]
  have "ring_params L ?P" using assms(2) by (simp add: poly_ok_def)
  note P = ring_paramsD [OF this]
  obtain v where v: "p_values p = Some v" "nvec_ok v" "m_modulus v = ?q" "length (m_data v) = 2 ^ L"
    using poly_okD [OF assms(2)] by metis
  have vr: "valid_root (m_modulus v) L (rootOfUnity ?P)" using P(3) v(3) by simp
  have full: "\<not> needs_tables c ?q (2 ^ L)" using assms(2,3) by (simp add: poly_ok_def)
  note E = coeff_vec_eval [OF ok assms(2,3)] and T = poly_tables [OF ok assms(2,3)]
  have inv: "ntt_inverse_of (tables_of c ?q L) v = Inr ?a"
    using ntt_inverse_forward [OF T(1) E] v(1) by simp
  have r: "ftt_InverseInPlace (rootOfUnity ?P) (2 ^ Suc L) v c = Inr (c, ?a)"
    using ftt_inverse_runs [of c v L, OF _ ok vr v(4)] T(2) full inv v(3) by simp
  let ?s = "p \<lparr> p_format := COEFFICIENT, p_values := Some ?a \<rparr>"
  have run: "SwitchFormat arb p c = Inr (c, ?s)"
    using r assms(3) v(1) P(1,7) by (simp add: SwitchFormat_def other_format_def del: power_Suc)
  have "poly_ok c L ?s" using assms(2) coeff_vec_ok [OF ok assms(2)] by (simp add: poly_ok_def)
  then show thesis using that [OF run] by (simp add: coeffs_def coeff_vec_def)
qed

lemma SwitchFormat_refines:
  assumes "ftt_reachable c" "poly_ok c L p"
  obtains c' s where "SwitchFormat arb p c = Inr (c', s)" "ftt_reachable c'" "poly_ok c' L s"
    "p_params s = p_params p" "p_format s = other_format (p_format p)" "coeffs c' L s = coeffs c L p"
    "\<And>r. poly_ok c L r \<Longrightarrow> p_params r = p_params p \<Longrightarrow> poly_ok c' L r \<and> coeffs c' L r = coeffs c L r"
proof -
  let ?P = "p_params p" and ?q = "ciphertextModulus (p_params p)"
  note ok = ftt_reachable_cache_ok [OF assms(1)]
  have "ring_params L ?P" using assms(2) by (simp add: poly_ok_def)
  note P = ring_paramsD [OF this]
  obtain v where v: "p_values p = Some v" "nvec_ok v" "m_modulus v = ?q" "length (m_data v) = 2 ^ L"
    using poly_okD [OF assms(2)] by metis
  have vr: "valid_root (m_modulus v) L (rootOfUnity ?P)" using P(3) v(3) by simp
  show thesis
  proof (cases "p_format p")
    case COEFFICIENT
    obtain c' w where f: "ftt_ForwardInPlace (rootOfUnity ?P) (2 ^ Suc L) v c = Inr (c', w)" "cache_ok c'"
        "entry_ok c' ?q L" "ntt_forward_of (tables_of c' ?q L) v = Inr w" "fits (tables_of c' ?q L) L w"
        "ensure_tables (rootOfUnity ?P) (2 ^ Suc L) ?q c = Inr c'"
      using ftt_forward_runs [OF ok vr v(2,4)] v(3) by metis
    let ?s = "p \<lparr> p_format := EVALUATION, p_values := Some w \<rparr>"
    have run: "SwitchFormat arb p c = Inr (c', ?s)"
      using f(1) COEFFICIENT v(1) P(1,7) by (simp add: SwitchFormat_def other_format_def del: power_Suc)
    have reach: "ftt_reachable c'"
      using ftt_reachable.step [OF assms(1)] ftt_step.forward_in_place [OF vr f(1)] by blast
    have full: "\<not> needs_tables c' ?q (2 ^ L)" by (rule ensure_tables_fills [OF ok P(3) f(6)])
    have s: "poly_ok c' L ?s" using assms(2) f(5) full by (simp add: poly_ok_def fits_def)
    have "coeff_vec c' L ?s = v"
      using coeff_vec_unique [OF f(2) s, of v] f(4) v by (simp add: fits_def)
    then have cs: "coeffs c' L ?s = coeffs c L p" using COEFFICIENT v(1) by (simp add: coeffs_def coeff_vec_def)
    have "poly_ok c' L r \<and> coeffs c' L r = coeffs c L r" if r: "poly_ok c L r" "p_params r = ?P" for r
    proof (cases "needs_tables c ?q (2 ^ L)")
      case True
      then have "p_format r = COEFFICIENT" using r Format.exhaust by (auto simp: poly_ok_def)
      then show ?thesis using r by (simp add: poly_ok_def coeffs_def coeff_vec_def)
    next
      case False
      then have "c' = c" using f(6) ensure_tables_present [OF cache_okD [OF ok False] P(4) False] by simp
      then show ?thesis using r by simp
    qed
    then show thesis using that [OF run reach s] cs COEFFICIENT by (simp add: other_format_def)
  next
    case EVALUATION
    then show thesis using SwitchFormat_eval [OF assms] that assms(1) by (metis other_format_def Format.distinct(1))
  qed
qed

section \<open>Automorphisms of the ring\<close>

lemma rev_bits_leading: "i < 2 ^ L \<Longrightarrow> rev_bits (Suc L) (2 ^ L + i) = 2 * rev_bits L i + 1"
proof (induction L arbitrary: i)
  case (Suc L)
  have "(2 ^ Suc L + i) mod 2 = i mod 2" "(2 ^ Suc L + i) div 2 = 2 ^ L + i div 2" by auto
  moreover have "rev_bits (Suc L) (2 ^ L + i div 2) = 2 * rev_bits L (i div 2) + 1" using Suc by simp
  ultimately have "rev_bits (Suc (Suc L)) (2 ^ Suc L + i) = (i mod 2) * 2 ^ Suc L + (2 * rev_bits L (i div 2) + 1)"
    by (simp only: rev_bits.simps(2) [of "Suc L" "2 ^ Suc L + i"])
  then show ?case by simp
qed simp

text \<open>The points of a transform with the tables of the cache are the odd powers of a root.\<close>

lemma eval_point_powers:
  assumes "entry_ok c q L"
  obtains psi where "valid_root q L psi"
    "\<And>i. i < 2 ^ L \<Longrightarrow> eval_point (tables_of c q L) L i mod uint q = uint psi ^ (2 * rev_bits L i + 1) mod uint q"
proof -
  let ?w = "pre_omega (fwd_of (tables_of c q L))"
  obtain psi where psi: "valid_root q L psi" "\<And>k. k < 2 ^ L \<Longrightarrow> ?w k = uint psi ^ rev_bits L k mod uint q"
    using assms by (auto simp: entry_ok_def)
  have n: "uint psi ^ 2 ^ L mod uint q = - 1 mod uint q" using psi(1) by (simp add: valid_root_def)
  have L: "0 < L" using psi(1) by (simp add: valid_root_def)
  have "eval_point (tables_of c q L) L i mod uint q = uint psi ^ (2 * rev_bits L i + 1) mod uint q" if "i < 2 ^ L" for i
  proof -
    let ?k = "2 ^ L + i"
    have k: "?k div 2 < 2 ^ L" "\<not> ?k \<le> 1" using that L one_less_power [of "2::nat" L] by simp_all
    have "node_root ?w ?k mod uint q = (- 1) ^ (?k mod 2) * ?w (?k div 2) mod uint q"
      using k(2) by (auto simp: node_root_def mod2_eq_if)
    also have "\<dots> = (uint psi ^ 2 ^ L) ^ (?k mod 2) * uint psi ^ rev_bits L (?k div 2) mod uint q"
      unfolding psi(2) [OF k(1)] using n by (metis mod_mult_eq mod_mod_trivial power_mod)
    also have "\<dots> = uint psi ^ rev_bits (Suc L) ?k mod uint q"
      by (simp add: power_add power_mult [symmetric] mult.commute)
    finally show ?thesis unfolding eval_point_def rev_bits_leading [OF that] .
  qed
  then show thesis using that psi(1) by blast
qed

definition ring_auto :: "int \<Rightarrow> nat \<Rightarrow> int list \<Rightarrow> int list" where
  "ring_auto q k xs =
     (let n = length xs
      in map (\<lambda>i. (\<Sum>j<n. if j * k mod (2 * n) = i then xs ! j
                          else if j * k mod (2 * n) = n + i then - (xs ! j) else 0) mod q) [0..<n])"

lemma negacyclic_power:
  fixes z q :: int
  assumes "z ^ n mod q = - 1 mod q" "m < 2 * n"
  shows "(\<Sum>i<n. (if m = i then x else if m = n + i then - x else 0) * z ^ i) mod q = x * z ^ m mod q"
proof (cases "m < n")
  case True
  then have "(\<Sum>i<n. (if m = i then x else if m = n + i then - x else 0) * z ^ i)
      = (\<Sum>i<n. if m = i then x * z ^ i else 0)" by (intro sum.cong) auto
  then show ?thesis using True by simp
next
  case False
  then obtain d where d: "m = n + d" "d < n" using assms(2) le_Suc_ex [of n m] by auto
  have "(\<Sum>i<n. (if m = i then x else if m = n + i then - x else 0) * z ^ i)
      = (\<Sum>i<n. if d = i then - x * z ^ i else 0)" using d by (intro sum.cong) auto
  also have "\<dots> = - 1 * (x * z ^ d)" using d(2) by simp
  also have "\<dots> mod q = z ^ n * (x * z ^ d) mod q" by (rule mod_mult_cong [OF assms(1) [symmetric] refl])
  finally show ?thesis by (simp add: d(1) power_add mult.left_commute)
qed

lemma power_mod_order:
  fixes z q :: int
  assumes "z ^ n mod q = - 1 mod q"
  shows "z ^ (e mod (2 * n)) mod q = z ^ e mod q"
proof -
  have "z ^ (2 * n) mod q = 1 mod q"
    using power_mod [of "z ^ n" q 2] power_mod [of "- 1" q 2] assms by (simp add: power_mult mult.commute)
  then have "(z ^ (2 * n)) ^ (e div (2 * n)) mod q = 1 mod q" by (metis power_mod power_one)
  then have "z ^ (e mod (2 * n)) * (z ^ (2 * n)) ^ (e div (2 * n)) mod q = z ^ (e mod (2 * n)) * 1 mod q"
    by (rule mod_mult_cong [OF refl])
  moreover have "z ^ (e mod (2 * n)) * (z ^ (2 * n)) ^ (e div (2 * n)) = z ^ e"
    by (simp add: power_mult [symmetric] power_add [symmetric])
  ultimately show ?thesis by simp
qed

lemma ring_auto_eval:
  fixes z q :: int
  assumes "z ^ n mod q = - 1 mod q" "length xs = n" "0 < n"
  shows "(\<Sum>i<n. ring_auto q k xs ! i * z ^ i) mod q = (\<Sum>j<n. xs ! j * (z ^ k) ^ j) mod q"
proof -
  let ?t = "\<lambda>i j. if j * k mod (2 * n) = i then xs ! j else if j * k mod (2 * n) = n + i then - (xs ! j) else 0"
  have "(\<Sum>i<n. ring_auto q k xs ! i * z ^ i) mod q = (\<Sum>i<n. (\<Sum>j<n. ?t i j) * z ^ i) mod q"
    by (rule sum_mod_eqI) (simp add: ring_auto_def assms(2) Let_def mod_mult_left_eq cong: if_cong)
  also have "(\<Sum>i<n. (\<Sum>j<n. ?t i j) * z ^ i) = (\<Sum>j<n. \<Sum>i<n. ?t i j * z ^ i)"
    unfolding sum_distrib_right by (rule sum.swap)
  also have "\<dots> mod q = (\<Sum>j<n. xs ! j * (z ^ k) ^ j) mod q"
  proof (rule sum_mod_eqI)
    fix j
    have "(\<Sum>i<n. ?t i j * z ^ i) mod q = xs ! j * z ^ (j * k mod (2 * n)) mod q"
      by (rule negacyclic_power [OF assms(1)]) (use assms(3) in simp)
    also have "\<dots> = xs ! j * z ^ (j * k) mod q" by (rule mod_mult_cong [OF refl power_mod_order [OF assms(1)]])
    finally show "(\<Sum>i<n. ?t i j * z ^ i) mod q = xs ! j * (z ^ k) ^ j mod q"
      by (simp add: power_mult [symmetric] mult.commute)
  qed
  finally show ?thesis .
qed

text \<open>The permutation that the loop on evaluations performs.\<close>

definition auto_index :: "nat \<Rightarrow> nat \<Rightarrow> nat \<Rightarrow> nat" where
  "auto_index L k j = (2 * j + 1) * k mod 2 ^ Suc L div 2"

definition auto_perm :: "nat \<Rightarrow> nat \<Rightarrow> nat \<Rightarrow> nat" where
  "auto_perm L k i = rev_bits L (auto_index L k (rev_bits L i))"

lemma auto_index_lt: "auto_index L k j < 2 ^ L"
proof -
  have "(2 * j + 1) * k mod 2 ^ Suc L < 2 * 2 ^ L" by simp
  then show ?thesis unfolding auto_index_def by (metis less_mult_imp_div_less mult.commute)
qed

lemma auto_index_odd:
  assumes "odd k"
  shows "2 * auto_index L k j + 1 = (2 * j + 1) * k mod (2 * 2 ^ L)"
proof -
  have "odd ((2 * j + 1) * k mod 2 ^ Suc L)" using assms by (simp add: even_mod_4_div_2 mod_2_eq_odd dvd_mod_iff)
  then show ?thesis unfolding auto_index_def by (simp add: odd_two_times_div_two_succ)
qed

lemma word_auto_index:
  assumes "L \<le> 24"
  shows "unat (drop_bit 1 (k * (2 * word_of_nat j + 1) :: 32 word) AND (push_bit L 1 - 1)) = auto_index L (unat k) j"
proof -
  have m: "push_bit L 1 - 1 = (mask L :: 32 word)" by (simp add: mask_eq_exp_minus_1 push_bit_eq_mult)
  have k: "k * (2 * word_of_nat j + 1) = word_of_nat ((2 * j + 1) * unat k)"
    by (simp add: algebra_simps)
  have "unat (drop_bit 1 (word_of_nat x :: 32 word) AND mask L) = x mod 2 ^ Suc L div 2" for x
  proof -
    have "unat (drop_bit 1 (word_of_nat x :: 32 word) AND mask L) = take_bit L (drop_bit 1 (take_bit 32 x))"
      by (simp add: take_bit_eq_mask [symmetric] unsigned_take_bit_eq unsigned_drop_bit_eq unsigned_of_nat)
    also have "\<dots> = drop_bit 1 (take_bit (Suc L) x)"
      using assms by (intro bit_eqI) (auto simp: bit_take_bit_iff bit_drop_bit_eq)
    finally show ?thesis by (simp add: drop_bit_eq_div take_bit_eq_mod)
  qed
  then show ?thesis unfolding m k auto_index_def .
qed

lemma auto_eval_loop:
  assumes "0 < L" "L \<le> 24" "length src = 2 ^ L" "mk = push_bit L 1 - 1" "j \<le> 2 ^ L"
  shows "foldR (auto_eval_step k L mk src) [0..<j] (k, replicate (2 ^ L) 0)
    = Inr (k * (2 * word_of_nat j + 1),
        map (\<lambda>i. if rev_bits L i < j then src ! auto_perm L (unat k) i else 0) [0..<2 ^ L])"
  using assms(5)
proof (induction j)
  case 0
  then show ?case by (simp add: map_replicate_const)
next
  case (Suc j)
  let ?M = "\<lambda>j. map (\<lambda>i. if rev_bits L i < j then src ! auto_perm L (unat k) i else 0) [0..<2 ^ L]"
  have "j < 2 ^ 32" using Suc.prems power_increasing [of L 32 "2::nat"] assms(2) by linarith
  then have rj: "unat (ReverseBits (word_of_nat j) L) = rev_bits L j"
    using unat_ReverseBits [of L "word_of_nat j"] assms(1,2) by (simp add: unsigned_of_nat take_bit_nat_eq_self)
  have ri: "unat (ReverseBits (drop_bit 1 (k * (2 * word_of_nat j + 1)) AND mk) L)
      = rev_bits L (auto_index L (unat k) j)"
    using unat_ReverseBits [of L] assms(1,2) word_auto_index [OF assms(2)] unfolding assms(4) by simp
  have M: "(?M j)[rev_bits L j := src ! rev_bits L (auto_index L (unat k) j)] = ?M (Suc j)"
  proof (rule nth_equalityI)
    fix i
    assume "i < length ((?M j)[rev_bits L j := src ! rev_bits L (auto_index L (unat k) j)])"
    then have i: "i < 2 ^ L" by simp
    have "rev_bits L i = j \<longleftrightarrow> i = rev_bits L j" using rev_bits_rev_bits i Suc.prems by (metis Suc_le_lessD)
    then show "(?M j)[rev_bits L j := src ! rev_bits L (auto_index L (unat k) j)] ! i = ?M (Suc j) ! i"
      using i by (auto simp: nth_list_update auto_perm_def less_Suc_eq)
  qed simp
  have "auto_eval_step k L mk src j (k * (2 * word_of_nat j + 1), ?M j)
      = Inr (k * (2 * word_of_nat (Suc j) + 1), ?M (Suc j))"
    unfolding auto_eval_step_def Let_def prod.case rj ri M
    using assms(3) rev_bits_lt [of L j] rev_bits_lt [of L "auto_index L (unat k) j"] by (simp add: algebra_simps)
  then show ?case using Suc by (simp add: foldR_append)
qed

lemma poly_eval_point_cong:
  assumes "y mod q = z mod q"
  shows "poly_eval xs y mod q = poly_eval xs z mod q"
  unfolding poly_eval_def by (intro sum_mod_eqI mod_mult_cong [OF refl]) (metis assms power_mod)

lemma cyclo_order_msb:
  assumes "L \<le> 24"
  shows "GetMSB (2 ^ Suc L :: 32 word) = Suc (Suc L)"
proof -
  have u: "unat (2 ^ Suc L :: 32 word) = 2 ^ Suc L" using assms by (intro unat_power_two) simp
  have "\<not> bit_length (2 ^ Suc L) \<le> Suc L" "bit_length (2 ^ Suc L) \<le> Suc (Suc L)"
    by (simp_all only: bit_length_le_iff) simp_all
  then show ?thesis unfolding GetMSB_eq u by linarith
qed

lemma word_even_iff: "(k :: 'b::len word) mod 2 = 0 \<longleftrightarrow> even (unat k)" if "1 < LENGTH('b)"
proof -
  have "(k mod 2 = 0) = (unat (k mod 2) = 0)" by (simp add: unat_eq_0)
  also have "unat (k mod 2) = unat k mod 2"
    using that by (simp add: unat_mod)
  finally show ?thesis by (simp add: even_iff_mod_2_eq_zero)
qed

lemma AutomorphismTransform_eval_run:
  assumes "poly_ok c L p" "p_values p = Some v" "p_format p = EVALUATION" "odd (unat k)"
  shows "AutomorphismTransform k p
    = Inr (p \<lparr> p_values := Some (v \<lparr> m_data := map (\<lambda>i. m_data v ! auto_perm L (unat k) i) [0..<2 ^ L] \<rparr>) \<rparr>)"
proof -
  have "ring_params L (p_params p)" using assms(1) by (simp add: poly_ok_def)
  note P = ring_paramsD [OF this]
  have v: "length (m_data v) = 2 ^ L" "m_modulus v = ciphertextModulus (p_params p)"
    using assms(1,2) by (simp_all add: poly_ok_def)
  let ?M = "map (\<lambda>i. m_data v ! auto_perm L (unat k) i) [0..<2 ^ L]"
  define mk :: "32 word" where "mk = push_bit L 1 - 1"
  have "foldR (auto_eval_step k L mk (m_data v)) [0..<2 ^ L] (k, replicate (2 ^ L) 0)
      = Inr (k * (2 * word_of_nat (2 ^ L) + 1), ?M)"
    using auto_eval_loop [OF P(5,4) v(1) mk_def le_refl] by (simp add: rev_bits_lt cong: map_cong)
  moreover have "\<not> k mod 2 = 0" using assms(4) word_even_iff [of k] by simp
  moreover have "GetMSB (cyclotomicOrder (p_params p)) - 2 = L" "\<not> GetMSB (cyclotomicOrder (p_params p)) < 2"
    unfolding P(1) cyclo_order_msb [OF P(4)] by simp_all
  moreover have "2 ^ L - 1 = mk" by (simp add: mk_def push_bit_eq_mult)
  ultimately show ?thesis
    unfolding AutomorphismTransform_def Let_def
    using assms(2,3) v(2) P(6,7)
    by (simp add: deref_def poly_new_def SetValuesToZero_def vec_zero_def)
qed

lemma Automorphism_refines:
  assumes "cache_ok c" "poly_ok c L p" "p_format p = EVALUATION" "odd (unat k)"
  obtains s where "AutomorphismTransform k p = Inr s" "poly_ok c L s" "p_params s = p_params p" "p_format s = EVALUATION"
    "coeffs c L s = ring_auto (uint (ciphertextModulus (p_params p))) (unat k) (coeffs c L p)"
proof -
  let ?q = "ciphertextModulus (p_params p)" and ?a = "coeff_vec c L p"
  let ?N = "tables_of c ?q L" and ?k = "unat k"
  obtain v where v: "p_values p = Some v" "nvec_ok v" "m_modulus v = ?q" "length (m_data v) = 2 ^ L"
    using poly_okD [OF assms(2)] by metis
  have "ring_params L (p_params p)" using assms(2) by (simp add: poly_ok_def)
  note P = ring_paramsD [OF this]
  note T = poly_tables [OF assms(1-3)] and E = coeff_vec_eval [OF assms(1-3)] and A = coeff_vec_ok [OF assms(1,2)]
  obtain psi where psi: "valid_root ?q L psi"
      "\<And>i. i < 2 ^ L \<Longrightarrow> eval_point ?N L i mod uint ?q = uint psi ^ (2 * rev_bits L i + 1) mod uint ?q"
    using eval_point_powers [OF T(2)] by metis
  define w where "w = v \<lparr> m_data := map (\<lambda>i. m_data v ! auto_perm L ?k i) [0..<2 ^ L] \<rparr>"
  define xs where "xs = ring_auto (uint ?q) ?k (vals ?a)"
  let ?s = "p \<lparr> p_values := Some w \<rparr>"
  have run: "AutomorphismTransform k p = Inr ?s"
    using AutomorphismTransform_eval_run [OF assms(2) v(1) assms(3,4)] by (simp add: w_def)
  have perm: "auto_perm L ?k i < 2 ^ L" for i by (simp add: auto_perm_def rev_bits_lt)
  have w: "nvec_ok w" "m_modulus w = ?q" "length (m_data w) = 2 ^ L"
    using v perm nvec_ok_nth [OF v(2)] by (auto simp: w_def nvec_ok_def)
  then have ok: "poly_ok c L ?s" using assms(2) by (simp add: poly_ok_def)
  have xs: "length xs = 2 ^ L" "map (\<lambda>x. x mod uint ?q) xs = xs"
    using A(3) by (auto simp: xs_def ring_auto_def Let_def)
  note V = vec_of_ok [OF P(9), of xs]
  have fV: "fits ?N L (vec_of ?q xs)" using V xs(1) by (simp add: fits_def)
  have "ntt_forward_of ?N (vec_of ?q xs) = Inr w"
  proof (rule ntt_forward_eqI [OF T(1) fV])
    show "fits ?N L w" using w by (simp add: fits_def)
    fix i :: nat
    assume i: "i < 2 ^ L"
    let ?z = "eval_point ?N L i" and ?z' = "eval_point ?N L (auto_perm L ?k i)"
    let ?r = "rev_bits L i"
    have zn: "?z ^ 2 ^ L mod uint ?q = - 1 mod uint ?q" using eval_point_power [OF T(1) i] by simp
    have pn: "uint psi ^ 2 ^ L mod uint ?q = - 1 mod uint ?q" using psi(1) by (simp add: valid_root_def)
    have "2 * rev_bits L (auto_perm L ?k i) + 1 = (2 * ?r + 1) * ?k mod (2 * 2 ^ L)"
      using auto_index_odd [OF assms(4)] rev_bits_rev_bits [OF auto_index_lt] by (simp add: auto_perm_def)
    then have "?z' mod uint ?q = uint psi ^ ((2 * ?r + 1) * ?k) mod uint ?q"
      using psi(2) [OF perm, of i] power_mod_order [OF pn] by simp
    also have "\<dots> = ?z ^ ?k mod uint ?q"
      unfolding power_mult by (metis psi(2) [OF i] power_mod)
    finally have zz: "?z' mod uint ?q = ?z ^ ?k mod uint ?q" .
    have "uint (m_data w ! i) = uint (m_data v ! auto_perm L ?k i)" using i by (simp add: w_def)
    also have "\<dots> = poly_eval (m_data ?a) ?z' mod uint ?q"
      using ntt_forward_value [OF T(1) E(1)] E(2) v(1) perm [of i]
      by (metis entry_modulus option.sel sum.inject(2))
    also have "\<dots> = poly_eval (m_data ?a) (?z ^ ?k) mod uint ?q" by (rule poly_eval_point_cong [OF zz])
    also have "\<dots> = (\<Sum>j<2 ^ L. vals ?a ! j * (?z ^ ?k) ^ j) mod uint ?q"
      using A(3) by (simp add: poly_eval_def vals_nth)
    also have "\<dots> = (\<Sum>j<2 ^ L. xs ! j * ?z ^ j) mod uint ?q"
      unfolding xs_def by (rule ring_auto_eval [OF zn, symmetric]) (use A(3) in simp_all)
    also have "\<dots> = poly_eval (m_data (vec_of ?q xs)) ?z mod uint ?q"
      using V(2,4) xs by (simp add: poly_eval_def vals_nth [symmetric])
    finally show "uint (m_data w ! i) mod uint (nt_modulus ?N)
        = poly_eval (m_data (vec_of ?q xs)) ?z mod uint (nt_modulus ?N)" by simp
  qed
  then have "coeff_vec c L ?s = vec_of ?q xs"
    using coeff_vec_unique [OF assms(1) ok, of "vec_of ?q xs"] fV assms(3) by simp
  then have "coeffs c L ?s = xs" using V(2) xs(2) by (simp add: coeffs_def)
  then show thesis using that [OF run ok] assms(3) by (simp add: xs_def coeffs_def)
qed

text \<open>The precomputed map holds the same permutation.\<close>

lemma round_log2_power: "round_log2 (2 ^ k) = k"
proof -
  have "\<not> bit_length (2 ^ k) \<le> k" "bit_length (2 ^ k) \<le> Suc k" by (simp_all only: bit_length_le_iff) simp_all
  then have "bit_length (2 ^ k) - 1 = k" by linarith
  then show ?thesis by (simp add: round_log2_def Let_def power_mult [symmetric] mult.commute)
qed

lemma word_map_index:
  fixes x :: "32 word"
  assumes "L \<le> 24"
  shows "unat (drop_bit 1 (x - push_bit (Suc L) (drop_bit (Suc L) x))) = unat x mod 2 ^ Suc L div 2"
proof -
  have e: "x - push_bit (Suc L) (drop_bit (Suc L) x) = take_bit (Suc L) x"
    using bits_ident [of "Suc L" x] by (metis add_diff_cancel_left')
  have "unat (drop_bit 1 (take_bit (Suc L) x)) = drop_bit 1 (take_bit 32 (take_bit (Suc L) (unat x)))"
    by (simp only: unsigned_drop_bit_eq unsigned_take_bit_eq) simp
  also have "\<dots> = drop_bit 1 (take_bit (Suc L) (unat x))" using assms by (simp add: min_absorb2)
  also have "\<dots> = unat x mod 2 ^ Suc L div 2" by (simp only: drop_bit_eq_div take_bit_eq_mod power_one_right)
  finally show ?thesis unfolding e .
qed

lemma auto_map_loop:
  assumes "0 < L" "L \<le> 24" "length pre = 2 ^ L" "j \<le> 2 ^ L"
  shows "\<exists>pre'. foldR (auto_map_step (Suc L) L k) [0..<j] pre = Inr pre' \<and> length pre' = 2 ^ L
    \<and> (\<forall>i<2 ^ L. rev_bits L i < j \<longrightarrow> unat (pre' ! i) = auto_perm L (unat k) i)"
  using assms(4)
proof (induction j)
  case 0
  then show ?case using assms(3) by simp
next
  case (Suc j)
  then obtain pre' where pre': "foldR (auto_map_step (Suc L) L k) [0..<j] pre = Inr pre'" "length pre' = 2 ^ L"
      "\<forall>i<2 ^ L. rev_bits L i < j \<longrightarrow> unat (pre' ! i) = auto_perm L (unat k) i" by auto
  have "j < 2 ^ 32" using Suc.prems power_increasing [of L 32 "2::nat"] assms(2) by linarith
  then have rj: "unat (ReverseBits (word_of_nat j) L) = rev_bits L j"
    using unat_ReverseBits [of L "word_of_nat j"] assms(1,2) by (simp add: unsigned_of_nat take_bit_nat_eq_self)
  define x :: "32 word" where "x = (push_bit 1 (word_of_nat j) + 1) * k"
  have x: "x = word_of_nat ((2 * j + 1) * unat k)" by (simp add: x_def push_bit_eq_mult algebra_simps)
  have "(2::nat) ^ Suc L dvd 2 ^ 32" using assms(2) by (intro le_imp_power_dvd) simp
  then have "unat x mod 2 ^ Suc L = (2 * j + 1) * unat k mod 2 ^ Suc L"
    using mod_mod_cancel [of "2 ^ Suc L" "2 ^ 32" "(2 * j + 1) * unat k"]
    by (simp only: x unsigned_of_nat take_bit_eq_mod) simp
  then have "unat (drop_bit 1 (x - push_bit (Suc L) (drop_bit (Suc L) x))) = auto_index L (unat k) j"
    using word_map_index [OF assms(2), of x] by (simp only: auto_index_def)
  then have ri: "unat (ReverseBits (drop_bit 1 (x - push_bit (Suc L) (drop_bit (Suc L) x))) L)
      = rev_bits L (auto_index L (unat k) j)"
    using unat_ReverseBits [of L] assms(1,2) by simp
  have step: "auto_map_step (Suc L) L k j pre'
      = Inr (pre'[rev_bits L j := ReverseBits (drop_bit 1 (x - push_bit (Suc L) (drop_bit (Suc L) x))) L])"
    unfolding auto_map_step_def Let_def rj x_def [symmetric] using assms(2) pre'(2) rev_bits_lt [of L j] by simp
  define y where "y = ReverseBits (drop_bit 1 (x - push_bit (Suc L) (drop_bit (Suc L) x))) L"
  have "unat (pre'[rev_bits L j := y] ! i) = auto_perm L (unat k) i" if "i < 2 ^ L" "rev_bits L i < Suc j" for i
  proof (cases "rev_bits L i = j")
    case True
    then have "i = rev_bits L j" using rev_bits_rev_bits [OF that(1)] by simp
    then show ?thesis using True ri pre'(2) rev_bits_lt [of L j] by (simp add: y_def auto_perm_def del: push_bit_Suc)
  next
    case False
    then have "i \<noteq> rev_bits L j" using rev_bits_rev_bits Suc.prems by (metis Suc_le_lessD)
    then show ?thesis using False pre'(3) that by (simp add: less_Suc_eq)
  qed
  then show ?case
    using pre'(1,2) step unfolding y_def [symmetric] by (simp add: foldR_append)
qed

lemma PrecomputeAutoMap_value:
  assumes "0 < L" "L \<le> 24" "length pre = 2 ^ L"
  obtains pre' where "PrecomputeAutoMap (2 ^ L) k pre = Inr pre'" "length pre' = 2 ^ L"
    "\<And>i. i < 2 ^ L \<Longrightarrow> unat (pre' ! i) = auto_perm L (unat k) i"
proof -
  have pow: "unat (2 ^ m :: 32 word) = 2 ^ m" if "m \<le> 25" for m
    using that by (intro unat_power_two) simp
  have m: "push_bit 1 (2 ^ L :: 32 word) = 2 ^ Suc L" by (simp add: push_bit_eq_mult)
  have "unat (2 ^ L :: 32 word) \<noteq> 0" "unat (2 ^ Suc L :: 32 word) \<noteq> 0"
    using pow [of L] pow [of "Suc L"] assms(2) by (simp_all del: power_Suc)
  then have "(2 ^ L :: 32 word) \<noteq> 0" "(2 ^ Suc L :: 32 word) \<noteq> 0" by (metis unsigned_0)+
  moreover have "unat (2 ^ L :: 32 word) = 2 ^ L" "unat (2 ^ Suc L :: 32 word) = 2 ^ Suc L"
    using pow [of L] pow [of "Suc L"] assms(2) by (simp_all del: power_Suc)
  ultimately have "PrecomputeAutoMap (2 ^ L) k pre = foldR (auto_map_step (Suc L) L k) [0..<2 ^ L] pre"
    unfolding PrecomputeAutoMap_def Let_def m by (simp add: round_log2_power del: power_Suc)
  then show thesis using that auto_map_loop [OF assms le_refl, of k] rev_bits_lt by auto
qed

lemma mapR_total: "(\<And>x. x \<in> set xs \<Longrightarrow> f x = Inr (g x)) \<Longrightarrow> mapR f xs = Inr (map g xs)"
  by (induction xs) auto

lemma precomp_run:
  assumes "poly_ok c L p" "p_values p = Some v" "p_format p = EVALUATION" "odd (unat k)" "length pre = 2 ^ L"
    and "\<And>i. i < 2 ^ L \<Longrightarrow> unat (pre ! i) = auto_perm L (unat k) i"
  shows "AutomorphismTransform_precomp k pre p = AutomorphismTransform k p"
proof -
  have "ring_params L (p_params p)" using assms(1) by (simp add: poly_ok_def)
  note P = ring_paramsD [OF this]
  have v: "length (m_data v) = 2 ^ L" "m_modulus v = ciphertextModulus (p_params p)"
    using assms(1,2) by (simp_all add: poly_ok_def)
  have k: "\<not> k mod 2 = 0" using assms(4) word_even_iff [of k] by simp
  have "mapR (\<lambda>j. if j < length pre \<and> unat (pre ! j) < length (m_data v)
            then Inr (m_data v ! unat (pre ! j)) else Inl undefined_behaviour) [0..<2 ^ L]
      = Inr (map (\<lambda>i. m_data v ! auto_perm L (unat k) i) [0..<2 ^ L])"
    by (rule mapR_total) (use assms(5,6) v(1) rev_bits_lt in \<open>auto simp: auto_perm_def\<close>)
  then show ?thesis
    unfolding AutomorphismTransform_eval_run [OF assms(1-4)] AutomorphismTransform_precomp_def overwrite_def
    using assms(2,3) v k P(6,7)
    by (simp add: deref_def poly_new_def SetValuesToZero_def vec_zero_def)
qed

section \<open>Properties\<close>

text \<open>C11.  In every reachable state of the table cache, ring elements in evaluation format implement the ring of
  polynomials modulo \<open>X ^ n + 1\<close> and the modulus: with the coefficients that the inverse transform
  assigns to an element as abstraction, addition, subtraction, multiplication and the automorphism of
  an odd index return elements that keep the invariant and have the coefficients of the sum, the
  difference, the negacyclic product and the polynomial with \<open>X ^ k\<close> for \<open>X\<close>; a change of format
  keeps the coefficients and the reachability of the cache, for either format.
\<close>

theorem Poly_refines_ring:
  fixes p r :: "'a::len poly"
  assumes "ftt_reachable c" "poly_ok c L p" "poly_ok c L r" "p_params r = p_params p"
    and "p_format p = EVALUATION" "p_format r = EVALUATION" "odd (unat k)"
  shows "(\<exists>s. Plus p r = Inr s \<and> poly_ok c L s
        \<and> coeffs c L s = ring_add (uint (ciphertextModulus (p_params p))) (coeffs c L p) (coeffs c L r))
    \<and> (\<exists>s. Minus p r = Inr s \<and> poly_ok c L s
        \<and> coeffs c L s = ring_sub (uint (ciphertextModulus (p_params p))) (coeffs c L p) (coeffs c L r))
    \<and> (\<exists>s. Times p r = Inr s \<and> poly_ok c L s
        \<and> coeffs c L s = ring_mul (uint (ciphertextModulus (p_params p))) (coeffs c L p) (coeffs c L r))
    \<and> (\<exists>s. AutomorphismTransform k p = Inr s \<and> poly_ok c L s
        \<and> coeffs c L s = ring_auto (uint (ciphertextModulus (p_params p))) (unat k) (coeffs c L p))
    \<and> (\<exists>s c2 t. SwitchFormat arb p c = Inr (c, s) \<and> p_format s = COEFFICIENT \<and> poly_ok c L s
        \<and> coeffs c L s = coeffs c L p
        \<and> SwitchFormat arb s c = Inr (c2, t) \<and> ftt_reachable c2 \<and> poly_ok c2 L t \<and> coeffs c2 L t = coeffs c L p)"
proof (intro conjI)
  note ok = ftt_reachable_cache_ok [OF assms(1)]
  have f: "p_format r = p_format p" using assms(5,6) by simp
  show "\<exists>s. Plus p r = Inr s \<and> poly_ok c L s
      \<and> coeffs c L s = ring_add (uint (ciphertextModulus (p_params p))) (coeffs c L p) (coeffs c L r)"
    using Plus_refines [OF ok assms(2-4) f] by metis
  show "\<exists>s. Minus p r = Inr s \<and> poly_ok c L s
      \<and> coeffs c L s = ring_sub (uint (ciphertextModulus (p_params p))) (coeffs c L p) (coeffs c L r)"
    using Minus_refines [OF ok assms(2-4) f] by metis
  show "\<exists>s. Times p r = Inr s \<and> poly_ok c L s
      \<and> coeffs c L s = ring_mul (uint (ciphertextModulus (p_params p))) (coeffs c L p) (coeffs c L r)"
    using Times_refines [OF ok assms(2-6)] by metis
  show "\<exists>s. AutomorphismTransform k p = Inr s \<and> poly_ok c L s
      \<and> coeffs c L s = ring_auto (uint (ciphertextModulus (p_params p))) (unat k) (coeffs c L p)"
    using Automorphism_refines [OF ok assms(2,5,7)] by metis
  obtain s where s: "SwitchFormat arb p c = Inr (c, s)" "poly_ok c L s" "p_format s = COEFFICIENT"
      "coeffs c L s = coeffs c L p"
    using SwitchFormat_eval [OF assms(1,2,5)] by metis
  obtain c2 t where "SwitchFormat arb s c = Inr (c2, t)" "ftt_reachable c2" "poly_ok c2 L t" "coeffs c2 L t = coeffs c L s"
    using SwitchFormat_refines [OF assms(1) s(2)] by metis
  then show "\<exists>s c2 t. SwitchFormat arb p c = Inr (c, s) \<and> p_format s = COEFFICIENT \<and> poly_ok c L s
      \<and> coeffs c L s = coeffs c L p
      \<and> SwitchFormat arb s c = Inr (c2, t) \<and> ftt_reachable c2 \<and> poly_ok c2 L t \<and> coeffs c2 L t = coeffs c L p"
    using s by auto
qed

definition example_params :: "32 il_params" where
  "example_params = \<lparr> cyclotomicOrder = 8, ringDimension = 4, ciphertextModulus = m_modulus example_el, rootOfUnity = 2,
     bigCiphertextModulus = 0, bigRootOfUnity = 0 \<rparr>"

definition example_poly :: "32 poly" where
  "example_poly = \<lparr> p_format = COEFFICIENT, p_params = example_params, p_values = Some example_el \<rparr>"

definition example_state :: "32 ftt_cache \<times> 32 poly" where
  "example_state = projr (SwitchFormat (\<lambda>_ _. Inr) example_poly empty_tables)"

lemma example_poly_ok: "poly_ok empty_tables 2 example_poly"
proof -
  have "ring_params 2 example_params" using example_valid(1) by (simp add: ring_params_def example_params_def)
  then show ?thesis using example_valid(2,3) by (simp add: poly_ok_def example_poly_def example_params_def)
qed

lemma example_state_ok:
  "ftt_reachable (fst example_state)" "poly_ok (fst example_state) 2 (snd example_state)"
  "p_format (snd example_state) = EVALUATION" "p_params (snd example_state) = example_params"
proof -
  obtain c s where "SwitchFormat (\<lambda>_ _. Inr) example_poly empty_tables = Inr (c, s)" "ftt_reachable c" "poly_ok c 2 s"
      "p_params s = p_params example_poly" "p_format s = other_format (p_format example_poly)"
    using SwitchFormat_refines [OF ftt_reachable.start example_poly_ok] by metis
  then show "ftt_reachable (fst example_state)" "poly_ok (fst example_state) 2 (snd example_state)"
    "p_format (snd example_state) = EVALUATION" "p_params (snd example_state) = example_params"
    by (simp_all add: example_state_def example_poly_def other_format_def)
qed

theorem Poly_refines_ring_witness:
  "let c = fst example_state; p = snd example_state; q = uint (m_modulus example_el); xs = coeffs c 2 p in
     (\<exists>s. Plus p p = Inr s \<and> poly_ok c 2 s \<and> coeffs c 2 s = ring_add q xs xs)
     \<and> (\<exists>s. Minus p p = Inr s \<and> poly_ok c 2 s \<and> coeffs c 2 s = ring_sub q xs xs)
     \<and> (\<exists>s. Times p p = Inr s \<and> poly_ok c 2 s \<and> coeffs c 2 s = ring_mul q xs xs)
     \<and> (\<exists>s. AutomorphismTransform 3 p = Inr s \<and> poly_ok c 2 s \<and> coeffs c 2 s = ring_auto q 3 xs)"
  using Poly_refines_ring [OF example_state_ok(1,2,2) refl example_state_ok(3,3), of 3]
  unfolding example_state_ok(4) by (simp add: example_params_def Let_def)

text \<open>C37.  On evaluations, the automorphism with the index map of \<open>PrecomputeAutoMap\<close> returns the same
  element as the automorphism that computes the indices, for every odd index, every ring of dimension
  at most \<open>2 ^ 24\<close> and whatever the map held before.
\<close>

theorem Automorphism_precomputed_equal:
  fixes p :: "'a::len poly"
  assumes "poly_ok c L p" "p_format p = EVALUATION" "odd (unat k)" "length old = 2 ^ L"
  shows "\<exists>precomp. PrecomputeAutoMap (ringDimension (p_params p)) k old = Inr precomp
    \<and> AutomorphismTransform_precomp k precomp p = AutomorphismTransform k p
    \<and> (\<exists>s. AutomorphismTransform k p = Inr s)"
proof -
  have "ring_params L (p_params p)" using assms(1) by (simp add: poly_ok_def)
  note P = ring_paramsD [OF this]
  obtain v where v: "p_values p = Some v" using assms(1) by (auto simp: poly_ok_def)
  obtain pre where pre: "PrecomputeAutoMap (2 ^ L) k old = Inr pre" "length pre = 2 ^ L"
      "\<And>i. i < 2 ^ L \<Longrightarrow> unat (pre ! i) = auto_perm L (unat k) i"
    using PrecomputeAutoMap_value [OF P(5,4) assms(4)] by metis
  show ?thesis
    using pre(1) precomp_run [OF assms(1) v assms(2,3) pre(2,3)] AutomorphismTransform_eval_run [OF assms(1) v assms(2,3)]
    unfolding P(2) by blast
qed

theorem Automorphism_precomputed_equal_witness:
  "\<exists>precomp. PrecomputeAutoMap 4 3 [0, 0, 0, 0] = Inr precomp
    \<and> AutomorphismTransform_precomp 3 precomp (snd example_state) = AutomorphismTransform 3 (snd example_state)
    \<and> (\<exists>s. AutomorphismTransform 3 (snd example_state) = Inr s)"
  using Automorphism_precomputed_equal [OF example_state_ok(2,3), of 3 "[0, 0, 0, 0]"]
  unfolding example_state_ok(4) by (simp add: example_params_def)


end
