(* ===== verification/SignedDigit.thy ===== *)
theory SignedDigit
  imports SchemeLib
begin

text \<open>
  The signed digit decomposition of the blind rotation, \<^verbatim>\<open>SignedDigitDecompose\<close> in
  \<^verbatim>\<open>src/src/binfhe/lib/mk-acc.cpp\<close>, \<^verbatim>\<open>rgsw-acc.cpp\<close> and \<^verbatim>\<open>vntru-acc.cpp\<close>, which have the same two
  bodies: one for a ring element, one for a pair of ring elements.

  A signed native integer is the word of its two's complement bits: \<open>push_bit\<close> is the left shift,
  \<open>signed_drop_bit\<close> the arithmetic right shift, \<open>sint\<close> reads the value.  A ring element is the list
  of its coefficients.  The digits are added to the output, which the callers fill with zeros; an
  access outside of the output is undefined in C++ and an error here.
\<close>

section \<open>Model\<close>

definition builtin_ctz :: "'a::len word \<Rightarrow> nat result" where
  "builtin_ctz x =
     (if x = 0 then Inl undefined_behaviour
      else Inr (length (takeWhile (\<lambda>i. \<not> bit x i) [0..<LENGTH('a)])))"

text \<open>The centred value \<open>d0\<close>, the signed digit \<open>r0\<close> and the remaining value.\<close>

definition sd_centre :: "'a::len word \<Rightarrow> 'a word \<Rightarrow> 'a word" where
  "sd_centre Q t = (let QHalf = drop_bit 1 Q in if t < QHalf then t else t - Q)"

definition sd_digit :: "nat \<Rightarrow> 'a::len word \<Rightarrow> 'a word" where
  "sd_digit gBits d =
     (let gBitsMaxBits = LENGTH('a) - gBits
      in signed_drop_bit gBitsMaxBits (push_bit gBitsMaxBits d))"

definition sd_rest :: "nat \<Rightarrow> 'a::len word \<Rightarrow> 'a word" where
  "sd_rest gBits d = signed_drop_bit gBits (d - sd_digit gBits d)"

definition sd_lift :: "'a::len word \<Rightarrow> 'a word \<Rightarrow> 'a word" where
  "sd_lift Q r = (if sint r < 0 then r + Q else r)"

text \<open>The statement \<^verbatim>\<open>output[d][k] += r0\<close>.\<close>

definition add_at :: "nat \<Rightarrow> nat \<Rightarrow> 'a::len word \<Rightarrow> 'a word list list \<Rightarrow> 'a word list list result" where
  "add_at d k r out =
     (if d < length out \<and> k < length (out ! d)
      then Inr (out[d := (out ! d)[k := AddFast (out ! d ! k) r]])
      else Inl undefined_behaviour)"

primrec sd_loop ::
  "'a::len word \<Rightarrow> nat \<Rightarrow> nat \<Rightarrow> nat \<Rightarrow> nat \<Rightarrow> 'a word \<Rightarrow> 'a word list list \<Rightarrow> 'a word list list result" where
  "sd_loop Q gBits k 0 d d0 out = Inr out"
| "sd_loop Q gBits k (Suc n) d d0 out =
     bindR (add_at d k (sd_lift Q (sd_digit gBits d0)) out)
       (sd_loop Q gBits k n (Suc d) (sd_rest gBits d0))"

text \<open>The body for one ring element.\<close>

definition SignedDigitDecompose ::
  "'a::len word \<Rightarrow> 32 word \<Rightarrow> 32 word \<Rightarrow> nat \<Rightarrow> 'a word list \<Rightarrow> 'a word list list \<Rightarrow> 'a word list list result" where
  "SignedDigitDecompose Q baseG digitsG N input out =
     bindR (builtin_ctz baseG) (\<lambda>gBits.
       throwIf (gBits = 0 \<or> LENGTH('a) \<le> gBits) undefined_behaviour
         (foldR (\<lambda>k out.
            throwIf (\<not> k < length input) undefined_behaviour
              (let d0 = sd_centre Q (input ! k)
               in sd_loop Q gBits k (unat (digitsG - 1)) 0 (sd_rest gBits d0) out))
          [0..<N] out))"

text \<open>
  The body for a pair: the digits of the two elements are interleaved in the output, and the loop
  counter \<open>d\<close> runs in steps of two up to \<open>digitsG2\<close>.
\<close>

function sd_loop2 ::
  "'a::len word \<Rightarrow> nat \<Rightarrow> nat \<Rightarrow> nat \<Rightarrow> nat \<Rightarrow> 'a word \<Rightarrow> 'a word \<Rightarrow> 'a word list list \<Rightarrow> 'a word list list result" where
  "sd_loop2 Q gBits k digitsG2 d d0 d1 out =
     (if \<not> d < digitsG2 then Inr out
      else bindR (add_at (d + 0) k (sd_lift Q (sd_digit gBits d0)) out) (\<lambda>out.
           bindR (add_at (d + 1) k (sd_lift Q (sd_digit gBits d1)) out)
             (sd_loop2 Q gBits k digitsG2 (d + 2) (sd_rest gBits d0) (sd_rest gBits d1))))"
  by pat_completeness auto
termination
  by (relation "measure (\<lambda>(Q, gBits, k, digitsG2, d, d0, d1, out). digitsG2 - d)") auto

declare sd_loop2.simps [simp del]

definition SignedDigitDecompose2 ::
  "'a::len word \<Rightarrow> 32 word \<Rightarrow> 32 word \<Rightarrow> nat \<Rightarrow> 'a word list \<times> 'a word list \<Rightarrow> 'a word list list
     \<Rightarrow> 'a word list list result" where
  "SignedDigitDecompose2 Q baseG digitsG N input out =
     bindR (builtin_ctz baseG) (\<lambda>gBits.
       throwIf (gBits = 0 \<or> LENGTH('a) \<le> gBits) undefined_behaviour
         (let digitsG2 = unat (push_bit 1 (digitsG - 1))
          in foldR (\<lambda>k out.
               throwIf (\<not> (k < length (fst input) \<and> k < length (snd input))) undefined_behaviour
                 (let d0 = sd_centre Q (fst input ! k);
                      d1 = sd_centre Q (snd input ! k)
                  in sd_loop2 Q gBits k digitsG2 0 (sd_rest gBits d0) (sd_rest gBits d1) out))
             [0..<N] out))"

text \<open>\<^verbatim>\<open>RingGSWAccumulator\<close> and \<^verbatim>\<open>VectorNTRUAccumulator\<close> repeat the two bodies of \<^verbatim>\<open>UniEncAccumulator\<close>.\<close>

definition rgsw_SignedDigitDecompose ::
  "'a::len word \<Rightarrow> 32 word \<Rightarrow> 32 word \<Rightarrow> nat \<Rightarrow> 'a word list \<Rightarrow> 'a word list list \<Rightarrow> 'a word list list result" where
  "rgsw_SignedDigitDecompose = SignedDigitDecompose"

definition rgsw_SignedDigitDecompose2 ::
  "'a::len word \<Rightarrow> 32 word \<Rightarrow> 32 word \<Rightarrow> nat \<Rightarrow> 'a word list \<times> 'a word list \<Rightarrow> 'a word list list
     \<Rightarrow> 'a word list list result" where
  "rgsw_SignedDigitDecompose2 = SignedDigitDecompose2"

definition vntru_SignedDigitDecompose ::
  "'a::len word \<Rightarrow> 32 word \<Rightarrow> 32 word \<Rightarrow> nat \<Rightarrow> 'a word list \<Rightarrow> 'a word list list \<Rightarrow> 'a word list list result" where
  "vntru_SignedDigitDecompose = SignedDigitDecompose"

definition vntru_SignedDigitDecompose2 ::
  "'a::len word \<Rightarrow> 32 word \<Rightarrow> 32 word \<Rightarrow> nat \<Rightarrow> 'a word list \<times> 'a word list \<Rightarrow> 'a word list list
     \<Rightarrow> 'a word list list result" where
  "vntru_SignedDigitDecompose2 = SignedDigitDecompose2"

section \<open>One digit\<close>

lemma builtin_ctz_power:
  assumes "g < LENGTH('a)"
  shows "builtin_ctz (2 ^ g :: 'a::len word) = Inr g"
proof -
  have "[0..<LENGTH('a)] = [0..<g] @ g # [Suc g..<LENGTH('a)]"
    using upt_add_eq_append [of 0 g "LENGTH('a) - g"] assms upt_conv_Cons [of g "LENGTH('a)"] by simp
  moreover have "bit (2 ^ g :: 'a word) i \<longleftrightarrow> i = g" if "i \<le> g" for i
    using assms that by (auto simp: bit_exp_iff)
  ultimately have "takeWhile (\<lambda>i. \<not> bit (2 ^ g :: 'a word) i) [0..<LENGTH('a)] = [0..<g]"
    by (metis (no_types, lifting) append.right_neutral atLeastLessThan_iff less_imp_le_nat nat_neq_iff
        order_refl set_upt takeWhile.simps(2) takeWhile_append2)
  moreover have "(2 ^ g :: 'a word) \<noteq> 0" using assms by simp
  ultimately show ?thesis by (simp add: builtin_ctz_def)
qed

text \<open>The balanced residue in \<open>[- B / 2, B / 2)\<close> modulo \<open>B = 2 ^ g\<close>.\<close>

definition balanced :: "nat \<Rightarrow> int \<Rightarrow> int" where
  "balanced g v = (v + 2 ^ (g - 1)) mod 2 ^ g - 2 ^ (g - 1)"

definition carry :: "nat \<Rightarrow> int \<Rightarrow> int" where
  "carry g v = (v - balanced g v) div 2 ^ g"

lemma balanced_bounds: "0 < g \<Longrightarrow> - (2 ^ (g - 1)) \<le> balanced g v" "0 < g \<Longrightarrow> balanced g v < 2 ^ (g - 1)"
proof -
  assume "0 < g"
  then have "(2::int) ^ g = 2 * 2 ^ (g - 1)" by (cases g) auto
  moreover have "0 \<le> (v + 2 ^ (g - 1)) mod 2 ^ g" "(v + 2 ^ (g - 1)) mod 2 ^ g < (2::int) ^ g" by simp_all
  ultimately show "- (2 ^ (g - 1)) \<le> balanced g v" "balanced g v < 2 ^ (g - 1)"
    unfolding balanced_def by linarith+
qed

lemma sub_balanced: "v - balanced g v = (v + 2 ^ (g - 1)) div 2 ^ g * 2 ^ g"
  unfolding balanced_def using div_mult_mod_eq [of "v + 2 ^ (g - 1)" "2 ^ g"] by linarith

lemma carry_eq: "carry g v = (v + 2 ^ (g - 1)) div 2 ^ g"
  by (simp add: carry_def sub_balanced)

lemma balanced_carry: "v = balanced g v + 2 ^ g * carry g v"
  using sub_balanced [of v g] unfolding carry_eq by (simp add: mult.commute)

lemma carry_less_iff: "carry g v < c \<longleftrightarrow> v + 2 ^ (g - 1) < c * 2 ^ g"
  unfolding carry_eq by (rule zdiv_lt_iff) simp

lemma carry_ge_iff: "c \<le> carry g v \<longleftrightarrow> c * 2 ^ g \<le> v + 2 ^ (g - 1)"
  using carry_less_iff [of g v c] by linarith

lemma carry_mono: "u \<le> v \<Longrightarrow> carry g u \<le> carry g v"
  by (simp add: carry_eq zdiv_mono1)

lemma sint_sd_digit:
  fixes d :: "'a::len word"
  assumes "0 < g" "g < LENGTH('a)"
  shows "sint (sd_digit g d) = balanced g (sint d)"
proof -
  have "sint (sd_digit g d) = signed_take_bit (g - 1) (sint d)"
  proof (rule bit_eqI)
    fix n
    have "bit (sint (sd_digit g d)) n \<longleftrightarrow> bit (sd_digit g d) (min (LENGTH('a) - 1) n)"
      using le_antisym [of n "LENGTH('a) - 1"]
      by (cases "LENGTH('a) \<le> n") (auto simp: bit_sint_iff min_def not_le dest: bit_imp_le_length)
    also have "\<dots> \<longleftrightarrow> bit d (min (g - 1) n)"
      using assms
      by (cases g; cases "n = g - 1")
          (auto simp: sd_digit_def Let_def bit_signed_drop_bit_iff bit_push_bit_iff min_def not_le
          dest: bit_imp_le_length)
    also have "\<dots> \<longleftrightarrow> bit (signed_take_bit (g - 1) (sint d)) n"
      using assms by (auto simp: bit_signed_take_bit_iff bit_sint_iff min_def)
    finally show "bit (sint (sd_digit g d)) n \<longleftrightarrow> bit (signed_take_bit (g - 1) (sint d)) n" .
  qed
  then show ?thesis
    using assms by (simp add: balanced_def signed_take_bit_eq_take_bit_shift take_bit_eq_mod)
qed

lemma sint_sub_exact:
  fixes a b :: "'a::len word"
  assumes "- (2 ^ (LENGTH('a) - 1)) \<le> sint a - sint b" "sint a - sint b < 2 ^ (LENGTH('a) - 1)"
  shows "sint (a - b) = sint a - sint b"
proof -
  have "sint (a - b) = signed_take_bit (LENGTH('a) - 1) (sint a - sint b)"
    by (simp add: signed_take_bit_diff sint_word_ariths(2))
  then show ?thesis using assms by (simp add: signed_take_bit_int_eq_self)
qed

lemma sint_sd_rest:
  fixes d :: "'a::len word"
  assumes "0 < g" "g < LENGTH('a)"
    and "- (2 ^ (LENGTH('a) - 2)) \<le> sint d" "sint d < 2 ^ (LENGTH('a) - 2)"
  shows "sint (sd_rest g d) = carry g (sint d)"
proof -
  have w: "(2::int) ^ (LENGTH('a) - 1) = 2 * 2 ^ (LENGTH('a) - 2)"
  proof -
    have "LENGTH('a) - 1 = Suc (LENGTH('a) - 2)" using assms(1,2) by linarith
    then show ?thesis by (simp only: power_Suc)
  qed
  have g: "(2::int) ^ (g - 1) \<le> 2 ^ (LENGTH('a) - 2)"
    using assms(1,2) by (intro power_increasing) auto
  note b = balanced_bounds [OF assms(1), of "sint d"]
  have "sint (d - sd_digit g d) = sint d - balanced g (sint d)"
  proof (subst sint_sub_exact)
    show "- (2 ^ (LENGTH('a) - 1)) \<le> sint d - sint (sd_digit g d)"
      unfolding sint_sd_digit [OF assms(1,2)] w using assms(3) b g by linarith
    show "sint d - sint (sd_digit g d) < 2 ^ (LENGTH('a) - 1)"
      unfolding sint_sd_digit [OF assms(1,2)] w using assms(4) b g
      by linarith
  qed (simp add: sint_sd_digit [OF assms(1,2)])
  then show ?thesis
    by (simp add: sd_rest_def sint_signed_drop_bit_eq carry_def drop_bit_eq_div)
qed

text \<open>The centred representative that the loops decompose.\<close>

definition sd_value :: "int \<Rightarrow> int \<Rightarrow> int" where
  "sd_value Q t = (if t < Q div 2 then t else t - Q)"

lemma sd_value_mod [simp]: "sd_value Q t mod Q = t mod Q"
  by (simp add: sd_value_def)

lemma sd_value_bounds:
  assumes "0 \<le> t" "t < Q"
  shows "- Q \<le> 2 * sd_value Q t + 1" "2 * sd_value Q t \<le> Q"
    "even Q \<Longrightarrow> - Q \<le> 2 * sd_value Q t"
  using assms by (auto simp: sd_value_def)

lemma sint_word_of_int_exact:
  assumes "- (2 ^ (LENGTH('a) - 1)) \<le> x" "x < 2 ^ (LENGTH('a) - 1)"
  shows "sint (word_of_int x :: 'a::len word) = x"
  using assms by (simp add: sint_sbintrunc' signed_take_bit_int_eq_self)

lemma sint_sd_centre:
  fixes Q t :: "'a::len word"
  assumes "modulus_ok Q" "residue Q t" "1 < LENGTH('a)"
  shows "sint (sd_centre Q t) = sd_value (uint Q) (uint t)"
    "- (2 ^ (LENGTH('a) - 2)) \<le> sd_value (uint Q) (uint t)"
    "sd_value (uint Q) (uint t) < 2 ^ (LENGTH('a) - 2)"
proof -
  have p: "LENGTH('a) = Suc (Suc (LENGTH('a) - 2))" "LENGTH('a) - 1 = Suc (LENGTH('a) - 2)"
    using assms(3) by linarith+
  have w: "(2::int) ^ LENGTH('a) = 4 * 2 ^ (LENGTH('a) - 2)"
    by (subst p(1)) (simp only: power_Suc)
  have w1: "(2::int) ^ (LENGTH('a) - 1) = 2 * 2 ^ (LENGTH('a) - 2)"
    by (subst p(2)) (simp only: power_Suc)
  have Q: "uint Q \<le> 2 * 2 ^ (LENGTH('a) - 2)"
    using assms(1) unfolding modulus_ok_def w by linarith
  have t: "0 \<le> uint t" "uint t < uint Q" using assms(2) by (simp_all add: residue_def)
  show l: "- (2 ^ (LENGTH('a) - 2)) \<le> sd_value (uint Q) (uint t)"
    using sd_value_bounds [OF t] Q by linarith
  show u: "sd_value (uint Q) (uint t) < 2 ^ (LENGTH('a) - 2)"
    using t Q by (auto simp: sd_value_def)
  have "sd_centre Q t = word_of_int (sd_value (uint Q) (uint t))"
    by (simp add: sd_centre_def sd_value_def word_less_def uint_drop_bit wi_hom_sub [symmetric])
  moreover have "sint (word_of_int (sd_value (uint Q) (uint t)) :: 'a word) = sd_value (uint Q) (uint t)"
  proof (rule sint_word_of_int_exact)
    show "- (2 ^ (LENGTH('a) - 1)) \<le> sd_value (uint Q) (uint t)"
      unfolding w1 using l zero_less_power [of "2::int" "LENGTH('a) - 2"] by linarith
    show "sd_value (uint Q) (uint t) < 2 ^ (LENGTH('a) - 1)"
      unfolding w1 using u zero_less_power [of "2::int" "LENGTH('a) - 2"] by linarith
  qed
  ultimately show "sint (sd_centre Q t) = sd_value (uint Q) (uint t)" by simp
qed

lemma uint_sd_lift:
  fixes Q r :: "'a::len word"
  assumes "modulus_ok Q" "- uint Q \<le> sint r" "sint r < uint Q"
  shows "uint (sd_lift Q r) = sint r mod uint Q"
proof (cases "sint r < 0")
  case True
  have "r + Q = word_of_int (sint r + uint Q)" by (simp add: wi_hom_add [symmetric])
  then have "uint (r + Q) = (sint r + uint Q) mod 2 ^ LENGTH('a)"
    by (simp only: uint_word_of_int)
  also have "\<dots> = sint r + uint Q"
    using True assms(2) uint_lt_pow [of Q] by (intro mod_pos_pos_trivial) linarith+
  finally have "uint (r + Q) = sint r + uint Q" .
  moreover have "sint r mod uint Q = sint r + uint Q"
    using True assms cadd_mod [of "uint Q" "sint r"] by simp
  ultimately show ?thesis using True by (simp add: sd_lift_def)
next
  case False
  have "r = word_of_int (sint r)" by simp
  then have "uint r = sint r mod 2 ^ LENGTH('a)" by (metis uint_word_of_int)
  also have "\<dots> = sint r"
    using False assms(3) uint_lt_pow [of Q] by (intro mod_pos_pos_trivial) linarith+
  finally show ?thesis using False assms by (simp add: sd_lift_def)
qed

section \<open>The digits of one coefficient\<close>

text \<open>The list of digits that the loop adds to the rows of the output.\<close>

primrec sd_digits :: "'a::len word \<Rightarrow> nat \<Rightarrow> nat \<Rightarrow> 'a word \<Rightarrow> 'a word list" where
  "sd_digits Q g 0 d0 = []"
| "sd_digits Q g (Suc n) d0 = sd_lift Q (sd_digit g d0) # sd_digits Q g n (sd_rest g d0)"

lemma length_sd_digits [simp]: "length (sd_digits Q g n d0) = n"
  by (induction n arbitrary: d0) auto

text \<open>
  The bounds that the carries keep: after every digit the remaining value lies within half of a
  power of the base, and the largest value that \<open>n\<close> digits represent is \<open>max_rep\<close>.
\<close>

primrec max_rep :: "nat \<Rightarrow> nat \<Rightarrow> int" where
  "max_rep g 0 = 0"
| "max_rep g (Suc n) = 2 ^ g * max_rep g n + (2 ^ (g - 1) - 1)"

lemma carry_in_bounds:
  assumes "0 < g" "- (2 ^ (g * Suc n)) \<le> 2 * v" "2 * v \<le> 2 ^ (g * Suc n)"
  shows "- (2 ^ (g * n)) \<le> 2 * carry g v"
    "2 * carry g v \<le> (if n = 0 then 2 else 2 ^ (g * n))"
proof -
  obtain h where g: "g = Suc h" using assms(1) by (cases g) auto
  have v: "- (2 ^ h * 2 ^ (g * n)) \<le> v" "v \<le> 2 ^ h * 2 ^ (g * n)"
    using assms(2,3) by (simp_all add: power_add g)
  show "- (2 ^ (g * n)) \<le> 2 * carry g v"
  proof (cases "n = 0")
    case True
    then have "0 \<le> v + 2 ^ (g - 1)" using v by (simp add: g)
    then have "0 \<le> carry g v" by (simp add: carry_ge_iff)
    then show ?thesis using True by simp
  next
    case False
    then obtain m where m: "g * n = Suc m" using assms(1) by (cases "g * n") auto
    have "- (2 ^ m) * 2 ^ g = - (2 ^ h * 2 ^ (g * n) :: int)" "(2::int) ^ (g - 1) = 2 ^ h"
      unfolding m by (simp_all add: g algebra_simps)
    then have "- (2 ^ m) * 2 ^ g \<le> v + 2 ^ (g - 1)"
      using v(1) zero_less_power [of "2::int" h] by linarith
    then have "- (2 ^ m) \<le> carry g v" by (simp only: carry_ge_iff)
    then show ?thesis by (simp add: m)
  qed
  show "2 * carry g v \<le> (if n = 0 then 2 else 2 ^ (g * n))"
  proof (cases "n = 0")
    case True
    have "v \<le> 2 ^ h" "(2::int) ^ (g - 1) = 2 ^ h" "(2::int) ^ g = 2 * 2 ^ h"
      using True v by (simp_all add: g)
    then have "v + 2 ^ (g - 1) < 2 * 2 ^ g"
      using zero_less_power [of "2::int" h] by linarith
    then have "carry g v < 2" by (simp only: carry_less_iff)
    then show ?thesis using True by simp
  next
    case False
    then obtain m where m: "g * n = Suc m" using assms(1) by (cases "g * n") auto
    have "(2 ^ m + 1) * 2 ^ g = 2 ^ h * 2 ^ (g * n) + (2 * 2 ^ h :: int)" "(2::int) ^ (g - 1) = 2 ^ h"
      unfolding m by (simp_all add: g algebra_simps)
    then have "v + 2 ^ (g - 1) < (2 ^ m + 1) * 2 ^ g"
      using v(2) zero_less_power [of "2::int" h] by linarith
    then have "carry g v < 2 ^ m + 1" by (simp only: carry_less_iff)
    then show ?thesis using False by (simp add: m)
  qed
qed

lemma carry_max_rep:
  assumes "0 < g" "v \<le> max_rep g (Suc n)"
  shows "carry g v \<le> max_rep g n"
proof -
  obtain h where g: "g = Suc h" using assms(1) by (cases g) auto
  have "v + 2 ^ (g - 1) < (max_rep g n + 1) * 2 ^ g"
    using assms(2) by (simp add: g algebra_simps)
  then have "carry g v < max_rep g n + 1" by (simp only: carry_less_iff)
  then show ?thesis by simp
qed

lemma carry_final:
  assumes "0 < g" "0 < n" "- (2 ^ (g * n)) \<le> 2 * v" "2 * v \<le> 2 ^ (g * n)"
  shows "(carry g ^^ n) v = 0 \<or> (carry g ^^ n) v = 1"
  using assms(2-4)
proof (induction n arbitrary: v)
  case (Suc n)
  note c = carry_in_bounds [OF assms(1) Suc.prems(2,3)]
  show ?case
  proof (cases "n = 0")
    case True
    then show ?thesis using c by auto
  next
    case False
    then show ?thesis using Suc.IH [of "carry g v"] c by (simp add: funpow_swap1)
  qed
qed simp

lemma carry_final_zero:
  assumes "0 < g" "v \<le> max_rep g n"
  shows "(carry g ^^ n) v \<le> 0"
  using assms(2)
proof (induction n arbitrary: v)
  case (Suc n)
  then show ?case using carry_max_rep [OF assms(1) Suc.prems] by (simp add: funpow_swap1)
qed simp

lemma carry_expansion:
  "v = (\<Sum>i<n. balanced g ((carry g ^^ i) v) * (2 ^ g) ^ i) + (2 ^ g) ^ n * (carry g ^^ n) v"
proof (induction n)
  case (Suc n)
  let ?c = "(carry g ^^ n) v"
  have "(2 ^ g) ^ n * ?c = balanced g ?c * (2 ^ g) ^ n + (2 ^ g) ^ Suc n * carry g ?c"
    by (subst balanced_carry [of ?c g]) (simp add: algebra_simps)
  then show ?case using Suc by simp
qed simp

lemma carry_keeps_range:
  assumes "0 < g" "2 ^ (g - 1) \<le> M" "- M \<le> v" "v < M"
  shows "- M \<le> carry g v" "carry g v < M"
proof -
  obtain h where g: "g = Suc h" using assms(1) by (cases g) auto
  have "2 ^ h \<le> M" using assms(2) by (simp add: g)
  moreover have "0 < M" using calculation zero_less_power [of "2::int" h] by linarith
  moreover have "M \<le> M * 2 ^ h" using calculation by simp
  moreover have "M * 2 ^ g = 2 * (M * 2 ^ h)" "(2::int) ^ (g - 1) = 2 ^ h" by (simp_all add: g)
  ultimately show "- M \<le> carry g v" "carry g v < M"
    unfolding carry_ge_iff carry_less_iff using assms(3,4) zero_less_power [of "2::int" h]
    by linarith+
qed

lemma sd_digits_values:
  fixes Q d0 :: "'a::len word"
  assumes "0 < g" "g < LENGTH('a)" "modulus_ok Q" "2 ^ (g - 1) \<le> uint Q"
    and "- (2 ^ (LENGTH('a) - 2)) \<le> sint d0" "sint d0 < 2 ^ (LENGTH('a) - 2)" "i < n"
  shows "uint (sd_digits Q g n d0 ! i) = balanced g ((carry g ^^ i) (sint d0)) mod uint Q"
  using assms(5-7)
proof (induction n arbitrary: d0 i)
  case (Suc n)
  have h: "(2::int) ^ (g - 1) \<le> 2 ^ (LENGTH('a) - 2)"
    using assms(1,2) by (intro power_increasing) auto
  show ?case
  proof (cases i)
    case 0
    have "uint (sd_lift Q (sd_digit g d0)) = sint (sd_digit g d0) mod uint Q"
      using balanced_bounds [OF assms(1), of "sint d0"] assms(4)
      by (intro uint_sd_lift assms(3)) (simp_all add: sint_sd_digit [OF assms(1,2)])
    then show ?thesis using 0 by (simp add: sint_sd_digit [OF assms(1,2)])
  next
    case (Suc j)
    note r = sint_sd_rest [OF assms(1,2) Suc.prems(1,2)]
    show ?thesis
      using Suc.IH [of "sd_rest g d0" j] Suc.prems Suc carry_keeps_range [OF assms(1) h Suc.prems(1,2)]
      by (simp add: r funpow_swap1)
  qed
qed simp

section \<open>The loops fill the output\<close>

definition shape :: "nat \<Rightarrow> nat \<Rightarrow> 'b list list \<Rightarrow> bool" where
  "shape L N out \<longleftrightarrow> length out = L \<and> (\<forall>i<L. length (out ! i) = N)"

definition plus_cells :: "nat \<Rightarrow> nat \<Rightarrow> (nat \<Rightarrow> nat \<Rightarrow> 'a::len word) \<Rightarrow> 'a word list list \<Rightarrow> 'a word list list" where
  "plus_cells L N f out = map (\<lambda>i. map (\<lambda>j. out ! i ! j + f i j) [0..<N]) [0..<L]"

lemma shape_plus_cells [simp]: "shape L N (plus_cells L N f out)"
  by (simp add: shape_def plus_cells_def)

lemma plus_cells_nth [simp]:
  "i < L \<Longrightarrow> j < N \<Longrightarrow> plus_cells L N f out ! i ! j = out ! i ! j + f i j"
  by (simp add: plus_cells_def)

lemma shape_eqI:
  assumes "shape L N a" "shape L N b" "\<And>i j. i < L \<Longrightarrow> j < N \<Longrightarrow> a ! i ! j = b ! i ! j"
  shows "a = b"
  using assms by (auto simp: shape_def list_eq_iff_nth_eq)

lemma add_at_cells:
  assumes "shape L N out" "d < L" "k < N"
  shows "add_at d k r out = Inr (plus_cells L N (\<lambda>i j. if i = d \<and> j = k then r else 0) out)"
proof -
  have "out[d := (out ! d)[k := AddFast (out ! d ! k) r]]
      = plus_cells L N (\<lambda>i j. if i = d \<and> j = k then r else 0) out"
  proof (rule shape_eqI [of L N])
    fix i j
    assume "i < L" "j < N"
    then show "out[d := (out ! d)[k := AddFast (out ! d ! k) r]] ! i ! j
      = plus_cells L N (\<lambda>i j. if i = d \<and> j = k then r else 0) out ! i ! j"
      using assms by (cases "i = d"; cases "j = k") (simp_all add: shape_def AddFast_def)
  qed (use assms in \<open>auto simp: shape_def plus_cells_def nth_list_update\<close>)
  then show ?thesis using assms by (simp add: add_at_def shape_def)
qed

lemma plus_cells_plus_cells:
  "plus_cells L N f (plus_cells L N h out) = plus_cells L N (\<lambda>i j. h i j + f i j) out"
  by (rule shape_eqI [of L N]) (simp_all add: add.assoc)

lemma plus_cells_cong:
  "(\<And>i j. i < L \<Longrightarrow> j < N \<Longrightarrow> f i j = h i j) \<Longrightarrow> plus_cells L N f out = plus_cells L N h out"
  by (simp add: plus_cells_def)

lemma sd_loop_cells:
  assumes "shape L N out" "d + n \<le> L" "k < N"
  shows "sd_loop Q g k n d d0 out
    = Inr (plus_cells L N (\<lambda>i j. if j = k \<and> d \<le> i \<and> i < d + n then sd_digits Q g n d0 ! (i - d) else 0) out)"
  using assms(1,2)
proof (induction n arbitrary: d d0 out)
  case 0
  then show ?case by (auto intro!: shape_eqI [of L N])
next
  case (Suc n)
  then show ?case
    by (simp add: add_at_cells [OF Suc.prems(1) _ assms(3)] plus_cells_plus_cells)
       (rule plus_cells_cong, auto simp: nth_Cons' le_Suc_eq not_less_eq_eq)
qed

lemma sd_loop2_cells:
  assumes "shape L N out" "d + 2 * n \<le> L" "k < N"
  shows "sd_loop2 Q g k (d + 2 * n) d d0 d1 out
    = Inr (plus_cells L N (\<lambda>i j. if j = k \<and> d \<le> i \<and> i < d + 2 * n
        then sd_digits Q g n (if even (i - d) then d0 else d1) ! ((i - d) div 2) else 0) out)"
  using assms(1,2)
proof (induction n arbitrary: d d0 d1 out)
  case 0
  then show ?case by (subst sd_loop2.simps) (auto intro!: shape_eqI [of L N])
next
  case (Suc n)
  have IH: "sd_loop2 Q g k (d + 2 * Suc n) (d + 2) e0 e1 out'
    = Inr (plus_cells L N (\<lambda>i j. if j = k \<and> d + 2 \<le> i \<and> i < d + 2 * Suc n
        then sd_digits Q g n (if even (i - (d + 2)) then e0 else e1) ! ((i - (d + 2)) div 2) else 0) out')"
    if "shape L N out'" for e0 e1 out'
    using Suc.IH [of out' "d + 2" e0 e1] that Suc.prems by simp
  let ?e = "\<lambda>i. if even (i - d) then d0 else d1"
  have cells: "((if i = d \<and> j = k then sd_lift Q (sd_digit g d0) else 0)
      + (if i = d + 1 \<and> j = k then sd_lift Q (sd_digit g d1) else 0))
      + (if j = k \<and> d + 2 \<le> i \<and> i < d + 2 * Suc n
          then sd_digits Q g n (if even (i - (d + 2)) then sd_rest g d0 else sd_rest g d1)
            ! ((i - (d + 2)) div 2) else 0)
      = (if j = k \<and> d \<le> i \<and> i < d + 2 * Suc n then sd_digits Q g (Suc n) (?e i) ! ((i - d) div 2) else 0)"
    for i j
  proof -
    consider "i < d" | "i = d" | "i = d + 1" | x where "i = d + 2 + x"
      by (metis Suc_eq_plus1 add_2_eq_Suc' le_Suc_ex not_less_eq_eq not_less nat_less_le)
    then show ?thesis by cases simp_all
  qed
  have "sd_loop2 Q g k (d + 2 * Suc n) d d0 d1 out
      = bindR (add_at (d + 0) k (sd_lift Q (sd_digit g d0)) out) (\<lambda>out.
           bindR (add_at (d + 1) k (sd_lift Q (sd_digit g d1)) out)
             (sd_loop2 Q g k (d + 2 * Suc n) (d + 2) (sd_rest g d0) (sd_rest g d1)))"
    by (subst sd_loop2.simps) simp
  also have "\<dots> = Inr (plus_cells L N (\<lambda>i j. (if i = d \<and> j = k then sd_lift Q (sd_digit g d0) else 0)
      + (if i = d + 1 \<and> j = k then sd_lift Q (sd_digit g d1) else 0)
      + (if j = k \<and> d + 2 \<le> i \<and> i < d + 2 * Suc n
          then sd_digits Q g n (if even (i - (d + 2)) then sd_rest g d0 else sd_rest g d1)
            ! ((i - (d + 2)) div 2) else 0)) out)"
  proof -
    have "d + 0 < L" "d + 1 < L" using Suc.prems by simp_all
    then show ?thesis
      using Suc.prems(1)
      by (simp only: add_at_cells [where L = L and N = N, OF _ _ assms(3)] IH plus_cells_plus_cells shape_plus_cells bindR_simps
          add_0_right)
  qed
  finally show ?case unfolding cells .
qed

lemma foldR_cells:
  assumes "\<And>k out. k < N \<Longrightarrow> shape L N out
      \<Longrightarrow> F k out = Inr (plus_cells L N (\<lambda>i j. if j = k then c i j else 0) out)"
    and "shape L N out" "m \<le> N"
  shows "foldR F [0..<m] out = Inr (plus_cells L N (\<lambda>i j. if j < m then c i j else 0) out)"
  using assms(3)
proof (induction m)
  case 0
  then show ?case using assms(2) by (auto intro!: shape_eqI [of L N])
next
  case (Suc m)
  then show ?case
    by (simp add: foldR_append assms(1) plus_cells_plus_cells)
       (rule plus_cells_cong, simp add: less_Suc_eq)
qed

definition zeros :: "nat \<Rightarrow> nat \<Rightarrow> 'a::len word list list" where
  "zeros L N = replicate L (replicate N 0)"

lemma shape_zeros [simp]: "shape L N (zeros L N)"
  by (simp add: shape_def zeros_def)

lemma zeros_nth [simp]: "i < L \<Longrightarrow> j < N \<Longrightarrow> zeros L N ! i ! j = 0"
  by (simp add: zeros_def)

lemma SignedDigitDecompose_cells:
  fixes Q :: "'a::len word"
  assumes "0 < g" "g < 32" "g < LENGTH('a)" "N \<le> length input" "unat (digitsG - 1) = L"
  shows "SignedDigitDecompose Q (2 ^ g) digitsG N input (zeros L N)
    = Inr (plus_cells L N (\<lambda>i j. sd_digits Q g L (sd_rest g (sd_centre Q (input ! j))) ! i) (zeros L N))"
proof -
  let ?c = "\<lambda>i j. sd_digits Q g L (sd_rest g (sd_centre Q (input ! j))) ! i"
  have "foldR (\<lambda>k out. throwIf (\<not> k < length input) undefined_behaviour
        (sd_loop Q g k L 0 (sd_rest g (sd_centre Q (input ! k))) out)) [0..<N] (zeros L N)
      = Inr (plus_cells L N (\<lambda>i j. if j < N then ?c i j else 0) (zeros L N))"
  proof (rule foldR_cells)
    fix k :: nat and out :: "'a word list list"
    assume "k < N" "shape L N out"
    then show "throwIf (\<not> k < length input) undefined_behaviour
        (sd_loop Q g k L 0 (sd_rest g (sd_centre Q (input ! k))) out)
        = Inr (plus_cells L N (\<lambda>i j. if j = k then ?c i j else 0) out)"
      using assms(4) by (simp add: sd_loop_cells [where L = L and N = N]) (rule plus_cells_cong, simp)
  qed simp_all
  moreover have "plus_cells L N (\<lambda>i j. if j < N then ?c i j else 0) (zeros L N)
      = plus_cells L N ?c (zeros L N)"
    by (rule plus_cells_cong) simp
  ultimately show ?thesis
    using assms builtin_ctz_power [of g, where 'a = 32] by (simp add: SignedDigitDecompose_def)
qed

lemma SignedDigitDecompose2_cells:
  fixes Q :: "'a::len word"
  assumes "0 < g" "g < 32" "g < LENGTH('a)" "N \<le> length (fst input)" "N \<le> length (snd input)"
    and "unat (digitsG - 1) = L" "2 * L < 2 ^ 32"
  shows "SignedDigitDecompose2 Q (2 ^ g) digitsG N input (zeros (2 * L) N)
    = Inr (plus_cells (2 * L) N (\<lambda>i j. sd_digits Q g L (sd_rest g (sd_centre Q
        ((if even i then fst input else snd input) ! j))) ! (i div 2)) (zeros (2 * L) N))"
proof -
  let ?c = "\<lambda>i j. sd_digits Q g L (sd_rest g (sd_centre Q
        ((if even i then fst input else snd input) ! j))) ! (i div 2)"
  have two: "unat (push_bit 1 (digitsG - 1)) = 2 * L"
  proof -
    have "unat (digitsG - 1) * unat (2 :: 32 word) < 2 ^ LENGTH(32)" using assms(6,7) by simp
    then have "unat ((digitsG - 1) * 2) = unat (digitsG - 1) * unat (2 :: 32 word)"
      by (rule unat_mult_lem [THEN iffD1])
    then show ?thesis unfolding push_bit_eq_mult power_one_right assms(6) by simp
  qed
  have "foldR (\<lambda>k out. throwIf (\<not> (k < length (fst input) \<and> k < length (snd input))) undefined_behaviour
        (sd_loop2 Q g k (2 * L) 0 (sd_rest g (sd_centre Q (fst input ! k)))
          (sd_rest g (sd_centre Q (snd input ! k))) out)) [0..<N] (zeros (2 * L) N)
      = Inr (plus_cells (2 * L) N (\<lambda>i j. if j < N then ?c i j else 0) (zeros (2 * L) N))"
  proof (rule foldR_cells)
    fix k :: nat and out :: "'a word list list"
    assume "k < N" "shape (2 * L) N out"
    then show "throwIf (\<not> (k < length (fst input) \<and> k < length (snd input))) undefined_behaviour
        (sd_loop2 Q g k (2 * L) 0 (sd_rest g (sd_centre Q (fst input ! k)))
          (sd_rest g (sd_centre Q (snd input ! k))) out)
        = Inr (plus_cells (2 * L) N (\<lambda>i j. if j = k then ?c i j else 0) out)"
      using assms(4,5) sd_loop2_cells [of "2 * L" N out 0 L k Q g]
      by simp (rule plus_cells_cong, simp)
  qed simp_all
  moreover have "plus_cells (2 * L) N (\<lambda>i j. if j < N then ?c i j else 0) (zeros (2 * L) N)
      = plus_cells (2 * L) N ?c (zeros (2 * L) N)"
    by (rule plus_cells_cong) simp
  ultimately show ?thesis
    using assms builtin_ctz_power [of g, where 'a = 32] two by (simp add: SignedDigitDecompose2_def)
qed

section \<open>Properties\<close>

lemma sum_digits_shift:
  fixes B :: int
  shows "(\<Sum>i<n. f i * B ^ Suc i) = B * (\<Sum>i<n. f i * B ^ i)"
  by (simp add: sum_distrib_left algebra_simps)

lemma digit_sum_mod_cong:
  fixes f h :: "nat \<Rightarrow> int"
  assumes "\<And>i. i < n \<Longrightarrow> f i mod q = h i mod q"
  shows "(\<Sum>i<n. f i * c i) mod q = (\<Sum>i<n. h i * c i) mod q"
proof -
  have "f i * c i mod q = h i * c i mod q" if "i < n" for i
    using assms [OF that] by (metis mod_mult_left_eq)
  then have "(\<Sum>i<n. f i * c i mod q) mod q = (\<Sum>i<n. h i * c i mod q) mod q"
    by (simp cong: sum.cong_simp)
  then show ?thesis by (simp only: mod_sum_eq)
qed

text \<open>The digits of one coefficient, the dropped one included, give its value.\<close>

lemma coefficient_digits:
  fixes Q t :: "'a::len word"
  assumes "0 < g" "g < LENGTH('a)" "modulus_ok Q" "2 ^ (g - 1) \<le> uint Q" "residue Q t"
    and "uint Q \<le> (2 ^ g) ^ Suc n"
  defines "v \<equiv> sd_value (uint Q) (uint t)"
  defines "ds \<equiv> sd_digits Q g n (sd_rest g (sd_centre Q t))"
  shows "i < n \<Longrightarrow> uint (ds ! i) = balanced g ((carry g ^^ Suc i) v) mod uint Q"
    and "((\<Sum>i<n. uint (ds ! i) * (2 ^ g) ^ Suc i) + balanced g v + (2 ^ g) ^ Suc n * (carry g ^^ Suc n) v)
          mod uint Q = uint t"
    and "(carry g ^^ Suc n) v = 0 \<or> (carry g ^^ Suc n) v = 1"
proof -
  note C = sint_sd_centre [OF assms(3,5)]
  have len: "1 < LENGTH('a)" using assms(1,2) by linarith
  have t: "0 \<le> uint t" "uint t < uint Q" using assms(5) by (simp_all add: residue_def)
  have h: "(2::int) ^ (g - 1) \<le> 2 ^ (LENGTH('a) - 2)"
    using assms(1,2) by (intro power_increasing) auto
  have r: "sint (sd_rest g (sd_centre Q t)) = carry g v"
    unfolding v_def using sint_sd_rest [OF assms(1,2), of "sd_centre Q t"] C [OF len] by simp
  have rng: "- (2 ^ (LENGTH('a) - 2)) \<le> carry g v" "carry g v < 2 ^ (LENGTH('a) - 2)"
    unfolding v_def using carry_keeps_range [OF assms(1) h C(2,3) [OF len]] .
  show ds: "uint (ds ! i) = balanced g ((carry g ^^ Suc i) v) mod uint Q" if "i < n" for i
    unfolding ds_def using sd_digits_values [OF assms(1-4)] rng that by (simp add: r funpow_swap1)
  have "(\<Sum>i<n. uint (ds ! i) * (2 ^ g) ^ Suc i) mod uint Q
      = (\<Sum>i<n. balanced g ((carry g ^^ Suc i) v) * (2 ^ g) ^ Suc i) mod uint Q"
    by (rule digit_sum_mod_cong) (simp only: ds mod_mod_trivial)
  moreover have "v = (\<Sum>i<n. balanced g ((carry g ^^ Suc i) v) * (2 ^ g) ^ Suc i) + balanced g v
      + (2 ^ g) ^ Suc n * (carry g ^^ Suc n) v"
    using carry_expansion [of v g "Suc n"] unfolding sum.lessThan_Suc_shift by simp
  moreover have "v mod uint Q = uint t" unfolding v_def sd_value_mod using t by simp
  ultimately show "((\<Sum>i<n. uint (ds ! i) * (2 ^ g) ^ Suc i) + balanced g v
      + (2 ^ g) ^ Suc n * (carry g ^^ Suc n) v) mod uint Q = uint t"
    by (metis (no_types, lifting) mod_add_cong)
  have P: "(2::int) ^ (g * Suc n) = (2 ^ g) ^ Suc n" by (rule power_mult)
  have "even ((2 ^ g) ^ Suc n :: int)" using assms(1) by simp
  then have "- ((2 ^ g) ^ Suc n) \<le> 2 * v"
    unfolding v_def using sd_value_bounds [OF t] assms(6)
    by (cases "uint Q = (2 ^ g) ^ Suc n") auto
  moreover have "2 * v \<le> (2 ^ g) ^ Suc n"
    unfolding v_def using sd_value_bounds(2) [OF t] assms(6) by linarith
  ultimately show "(carry g ^^ Suc n) v = 0 \<or> (carry g ^^ Suc n) v = 1"
    by (intro carry_final) (simp_all only: P assms(1) zero_less_Suc)
qed

lemma signed_digit_rows:
  fixes Q :: "'a::len word"
  assumes "modulus_ok Q" "0 < g" "g < 32" "g < LENGTH('a)" "2 ^ (g - 1) \<le> uint Q"
    and "unat digitsG = l" "0 < l" "uint Q \<le> (2 ^ g) ^ l"
    and "length input = N" "\<forall>k<N. residue Q (input ! k)"
  shows "\<exists>out. SignedDigitDecompose Q (2 ^ g) digitsG N input (zeros (l - 1) N) = Inr out
    \<and> shape (l - 1) N out
    \<and> (\<forall>k<N. (\<forall>i<l - 1. \<exists>r. - (2 ^ (g - 1)) \<le> r \<and> r < 2 ^ (g - 1) \<and> uint (out ! i ! k) = r mod uint Q)
        \<and> (\<exists>e c. - (2 ^ (g - 1)) \<le> e \<and> e < 2 ^ (g - 1) \<and> (c = 0 \<or> c = 1)
            \<and> (sd_value (uint Q) (uint (input ! k)) \<le> max_rep g l \<longrightarrow> c = 0)
            \<and> ((\<Sum>i<l - 1. uint (out ! i ! k) * (2 ^ g) ^ Suc i) + e + (2 ^ g) ^ l * c) mod uint Q
                = uint (input ! k)))"
proof -
  obtain n where l: "l = Suc n" using assms(7) by (cases l) auto
  have "digitsG \<noteq> 0" using assms(6,7) by auto
  then have L: "unat (digitsG - 1) = n" using assms(6) by (simp add: unat_minus_one l)
  let ?ds = "\<lambda>k. sd_digits Q g n (sd_rest g (sd_centre Q (input ! k)))"
  let ?out = "plus_cells n N (\<lambda>i j. ?ds j ! i) (zeros n N)"
  have "SignedDigitDecompose Q (2 ^ g) digitsG N input (zeros n N) = Inr ?out"
    using SignedDigitDecompose_cells [OF assms(2,3,4) _ L] assms(9) by simp
  moreover have "(\<forall>i<n. \<exists>r. - (2 ^ (g - 1)) \<le> r \<and> r < 2 ^ (g - 1) \<and> uint (?out ! i ! k) = r mod uint Q)
      \<and> (\<exists>e c. - (2 ^ (g - 1)) \<le> e \<and> e < 2 ^ (g - 1) \<and> (c = 0 \<or> c = 1)
          \<and> (sd_value (uint Q) (uint (input ! k)) \<le> max_rep g (Suc n) \<longrightarrow> c = 0)
          \<and> ((\<Sum>i<n. uint (?out ! i ! k) * (2 ^ g) ^ Suc i) + e + (2 ^ g) ^ Suc n * c) mod uint Q
              = uint (input ! k))" if "k < N" for k
  proof -
    let ?v = "sd_value (uint Q) (uint (input ! k))"
    have "residue Q (input ! k)" "uint Q \<le> (2 ^ g) ^ Suc n" using assms(8,10) that l by auto
    note D = coefficient_digits [OF assms(2,4,1,5) this]
    have "?out ! i ! k = ?ds k ! i" if "i < n" for i using that \<open>k < N\<close> by simp
    then have "(\<Sum>i<n. uint (?out ! i ! k) * (2 ^ g) ^ Suc i) = (\<Sum>i<n. uint (?ds k ! i) * (2 ^ g) ^ Suc i)"
      by (intro sum.cong) auto
    moreover have "?v \<le> max_rep g (Suc n) \<Longrightarrow> (carry g ^^ Suc n) ?v = 0"
      using carry_final_zero [OF assms(2), of ?v "Suc n"] D(3) by linarith
    ultimately show ?thesis
      using D balanced_bounds [OF assms(2)] \<open>k < N\<close>
      by (intro conjI exI [of _ "balanced g ?v"] exI [of _ "(carry g ^^ Suc n) ?v"]) auto
  qed
  ultimately show ?thesis unfolding l by auto
qed

text \<open>C22.  For a modulus below half of the word, a base \<open>B = 2 ^ g\<close> and \<open>l\<close> digits with \<open>Q \<le> B ^ l\<close>,
  the decomposition of residues into a zeroed output returns, and every row holds residues of digits
  between \<open>- B / 2\<close> and \<open>B / 2\<close>.  The digits weighted with \<open>B, B ^ 2, ..., B ^ (l - 1)\<close> give every
  coefficient modulo \<open>Q\<close> up to the dropped digit \<open>e\<close>, which is at most \<open>B / 2\<close>, and a carry \<open>c\<close> out of
  the last digit, which is 0 or 1 and is 0 for centred values up to \<open>max_rep\<close>.
\<close>

theorem SignedDigit_recomposes:
  fixes Q :: "'a::len word"
  assumes "modulus_ok Q" "0 < g" "g < 32" "g < LENGTH('a)" "2 ^ (g - 1) \<le> uint Q"
    and "unat digitsG = l" "0 < l" "uint Q \<le> (2 ^ g) ^ l"
    and "length input = N" "\<forall>k<N. residue Q (input ! k)"
  shows "\<exists>out. SignedDigitDecompose Q (2 ^ g) digitsG N input (zeros (l - 1) N) = Inr out
    \<and> shape (l - 1) N out
    \<and> (\<forall>k<N. (\<forall>i<l - 1. \<exists>r. - (2 ^ (g - 1)) \<le> r \<and> r < 2 ^ (g - 1) \<and> uint (out ! i ! k) = r mod uint Q)
        \<and> (\<exists>e c. - (2 ^ (g - 1)) \<le> e \<and> e < 2 ^ (g - 1) \<and> (c = 0 \<or> c = 1)
            \<and> (sd_value (uint Q) (uint (input ! k)) \<le> max_rep g l \<longrightarrow> c = 0)
            \<and> ((\<Sum>i<l - 1. uint (out ! i ! k) * (2 ^ g) ^ Suc i) + e + (2 ^ g) ^ l * c) mod uint Q
                = uint (input ! k)))"
  by (rule signed_digit_rows [OF assms])

text \<open>A modulus of 28 bits in a 64-bit word, base 512 and three digits.\<close>

theorem SignedDigit_recomposes_witness:
  "\<exists>out. SignedDigitDecompose (134215681 :: 64 word) (2 ^ 9) 3 2 [134215680, 12345] (zeros 2 2) = Inr out
    \<and> shape 2 2 out
    \<and> (\<forall>k<2. \<exists>e c. - (2 ^ 8) \<le> e \<and> e < 2 ^ 8 \<and> (c = 0 \<or> c = 1)
        \<and> (sd_value 134215681 (uint ([134215680, 12345 :: 64 word] ! k)) \<le> max_rep 9 3 \<longrightarrow> c = 0)
        \<and> ((\<Sum>i<2. uint (out ! i ! k) * (2 ^ 9) ^ Suc i) + e + (2 ^ 9) ^ 3 * c) mod 134215681
            = uint ([134215680, 12345 :: 64 word] ! k))"
proof -
  have "\<forall>k<2. residue (134215681 :: 64 word) ([134215680, 12345] ! k)"
    by (auto simp: residue_def less_2_cases_iff)
  with SignedDigit_recomposes [of "134215681 :: 64 word" 9 3 3 "[134215680, 12345]" 2]
  show ?thesis by (auto simp: modulus_ok_def)
qed

text \<open>C36.  The decomposition of a pair fills the even rows with the digits of the first element and the
  odd rows with those of the second, exactly as the decomposition of each element alone.
\<close>

theorem SignedDigit_pair_interleaves:
  fixes Q :: "'a::len word"
  assumes "0 < g" "g < 32" "g < LENGTH('a)" "N \<le> length x" "N \<le> length y"
    and "unat (digitsG - 1) = L" "2 * L < 2 ^ 32"
  shows "\<exists>a b out. SignedDigitDecompose Q (2 ^ g) digitsG N x (zeros L N) = Inr a
    \<and> SignedDigitDecompose Q (2 ^ g) digitsG N y (zeros L N) = Inr b
    \<and> SignedDigitDecompose2 Q (2 ^ g) digitsG N (x, y) (zeros (2 * L) N) = Inr out
    \<and> length out = 2 * L \<and> (\<forall>i<L. out ! (2 * i) = a ! i \<and> out ! (2 * i + 1) = b ! i)"
  using SignedDigitDecompose_cells [OF assms(1-4,6)] SignedDigitDecompose_cells [OF assms(1-3,5,6)]
    SignedDigitDecompose2_cells [OF assms(1-3) _ _ assms(6,7), of N "(x, y)"] assms(4,5)
  by (auto simp: plus_cells_def)

theorem SignedDigit_pair_interleaves_witness:
  "\<exists>a b out. SignedDigitDecompose (97 :: 32 word) (2 ^ 2) 4 2 [5, 96] (zeros 3 2) = Inr a
    \<and> SignedDigitDecompose (97 :: 32 word) (2 ^ 2) 4 2 [60, 31] (zeros 3 2) = Inr b
    \<and> SignedDigitDecompose2 (97 :: 32 word) (2 ^ 2) 4 2 ([5, 96], [60, 31]) (zeros (2 * 3) 2) = Inr out
    \<and> length out = 2 * 3 \<and> (\<forall>i<3. out ! (2 * i) = a ! i \<and> out ! (2 * i + 1) = b ! i)"
  by (rule SignedDigit_pair_interleaves) simp_all

end
