(* ===== verification/LWE.thy ===== *)
theory LWE
  imports SchemeLib
begin

text \<open>
  The single-key LWE scheme: \<^verbatim>\<open>src/src/binfhe/lib/lwe-pke.cpp\<close> with its parameter, key and
  ciphertext classes under \<^verbatim>\<open>src/src/binfhe/include\<close>.

  The random choices (noise, masks, keys) are arguments: the argument named after the generator call
  stands for what that call returned.  \<^verbatim>\<open>LWEPlaintext\<close> is a 64-bit value that enters unsigned
  arithmetic, so it is a \<open>64 word\<close> here, as is the plaintext modulus.

  The lemmas show the phase of every ciphertext an operation returns: encryption and decryption are
  inverse under the noise bound, addition, subtraction and scaling act on the phases, the modulus
  switch scales the phase up to a bounded error, and the key switch keeps the phase up to the noise
  of the switching key.
\<close>

section \<open>Parameters, keys and ciphertexts\<close>

datatype SecretKeyDist = GAUSSIAN | UNIFORM_TERNARY | SPARSE_TERNARY | BINARY

record (overloaded) 'a lwe_params =
  p_q :: "'a::len word"
  p_Q :: "'a word"
  p_qKS :: "'a word"
  p_n :: nat
  p_N :: nat
  p_baseKS :: nat
  p_keyDist :: SecretKeyDist

definition LWECryptoParams ::
  "nat \<Rightarrow> nat \<Rightarrow> 'a::len word \<Rightarrow> 'a word \<Rightarrow> 'a word \<Rightarrow> nat \<Rightarrow> SecretKeyDist \<Rightarrow> 'a lwe_params result" where
  "LWECryptoParams n N q Q qKS baseKS keyDist =
     (if n = 0 then Inl config_error
      else if N = 0 then Inl config_error
      else if q = 0 then Inl config_error
      else if Q = 0 then Inl config_error
      else if qKS = 0 then Inl config_error
      else if baseKS = 0 then Inl config_error
      else if GetMSB Q > MAX_MODULUS_SIZE LENGTH('a) then Inl config_error
      else Inr \<lparr> p_q = q, p_Q = Q, p_qKS = qKS, p_n = n, p_N = N, p_baseKS = baseKS, p_keyDist = keyDist \<rparr>)"

text \<open>The copy constructor leaves out the key switching modulus and the key distribution.\<close>

definition copy_params :: "'a::len lwe_params \<Rightarrow> 'a lwe_params" where
  "copy_params rhs = \<lparr> p_q = p_q rhs, p_Q = p_Q rhs, p_qKS = 0, p_n = p_n rhs, p_N = p_N rhs,
     p_baseKS = p_baseKS rhs, p_keyDist = UNIFORM_TERNARY \<rparr>"

text \<open>The assignment operators leave the two members of the target as they are.\<close>

definition assign_params :: "'a::len lwe_params \<Rightarrow> 'a lwe_params \<Rightarrow> 'a lwe_params" where
  "assign_params lhs rhs = lhs \<lparr> p_q := p_q rhs, p_Q := p_Q rhs, p_n := p_n rhs, p_N := p_N rhs,
     p_baseKS := p_baseKS rhs \<rparr>"

record (overloaded) 'a lwe_ct =
  ct_a :: "'a::len nvec"
  ct_b :: "'a word"
  ct_p :: "'a word"

definition LWECiphertext :: "'a::len nvec \<Rightarrow> 'a word \<Rightarrow> 'a lwe_ct" where
  "LWECiphertext a b = \<lparr> ct_a = a, ct_b = b, ct_p = 4 \<rparr>"

definition copy_ct :: "'a::len lwe_ct \<Rightarrow> 'a lwe_ct" where
  "copy_ct rhs = LWECiphertext (ct_a rhs) (ct_b rhs)"

definition assign_ct :: "'a::len lwe_ct \<Rightarrow> 'a lwe_ct \<Rightarrow> 'a lwe_ct" where
  "assign_ct lhs rhs = lhs \<lparr> ct_a := ct_a rhs, ct_b := ct_b rhs \<rparr>"

abbreviation ct_modulus :: "'a::len lwe_ct \<Rightarrow> 'a word" where
  "ct_modulus ct \<equiv> m_modulus (ct_a ct)"

definition SetptModulus :: "'a::len lwe_ct \<Rightarrow> 'a word \<Rightarrow> 'a lwe_ct" where
  "SetptModulus ct p = ct \<lparr> ct_p := p \<rparr>"

definition ct_SetModulus :: "'a::len lwe_ct \<Rightarrow> 'a word \<Rightarrow> 'a lwe_ct result" where
  "ct_SetModulus ct md =
     bindR (vec_Mod (ct_a ct) md) (\<lambda>a.
     bindR (SetModulus a md) (\<lambda>a.
       if md = 0 then Inl undefined_behaviour
       else Inr (ct \<lparr> ct_a := a, ct_b := ModEq (ct_b ct) md \<rparr>)))"

record (overloaded) 'a lwe_pk =
  pk_A :: "'a::len nvec list"
  pk_v :: "'a nvec"

record (overloaded) 'a lwe_ksk =
  elementsA :: "'a::len nvec list list list"
  elementsB :: "'a word list list list"

section \<open>Key generation\<close>

text \<open>\<^verbatim>\<open>v[j] += A[j][i] * ske[i]\<close>, reduced, from the error vector.\<close>

definition PubKeyGen :: "'a::len lwe_params \<Rightarrow> 'a nvec \<Rightarrow> 'a nvec list \<Rightarrow> 'a nvec \<Rightarrow> 'a lwe_pk result" where
  "PubKeyGen params skN A e =
     (let dim = p_N params; modulus = p_Q params in
      bindR (ComputeMu modulus) (\<lambda>mu.
        let v = e \<lparr> m_data := map (\<lambda>j. dot_mod modulus mu (m_data (A ! j)) (m_data skN) dim (m_data e ! j))
                                [0..<dim] \<rparr>
        in Inr \<lparr> pk_A = A, pk_v = v \<rparr>))"

definition KeyGenPair ::
  "'a::len lwe_params \<Rightarrow> 'a nvec \<Rightarrow> 'a nvec \<Rightarrow> 'a nvec list \<Rightarrow> 'a nvec \<Rightarrow> ('a lwe_pk \<times> 'a nvec) result" where
  "KeyGenPair params ternary gaussian A e =
     (let skN = (if p_keyDist params = GAUSSIAN then gaussian else ternary) in
      bindR (PubKeyGen params skN A e) (\<lambda>pkN. Inr (pkN, skN)))"

section \<open>Encryption and decryption\<close>

definition Encrypt ::
  "'a::len nvec \<Rightarrow> 64 word \<Rightarrow> 64 word \<Rightarrow> 'a word \<Rightarrow> 'a word \<Rightarrow> 'a nvec \<Rightarrow> 'a lwe_ct result" where
  "Encrypt sk m p md e a =
     (if p = 0 \<or> ucast p = (0 :: 'a word) then Inl undefined_behaviour
      else if divisible_guard md p then Inl not_implemented_error
      else
        let n = length (m_data sk) in
        bindR (SwitchModulus sk md) (\<lambda>s.
        bindR (scaled_message m p md) (\<lambda>d.
        let b = AddFast d e in
        bindR (ComputeMu md) (\<lambda>mu.
        let b = dot_acc md mu (m_data a) (m_data s) n b in
        Inr (SetptModulus (LWECiphertext a (Mod b md)) (ucast p))))))"

definition EncryptN ::
  "'a::len lwe_pk \<Rightarrow> 64 word \<Rightarrow> 64 word \<Rightarrow> 'a word \<Rightarrow> 'a word \<Rightarrow> 'a nvec \<Rightarrow> 'a nvec \<Rightarrow> 'a lwe_ct result" where
  "EncryptN pk m p md e sp ep =
     (if p = 0 \<or> ucast p = (0 :: 'a word) then Inl undefined_behaviour
      else if divisible_guard md p then Inl not_implemented_error
      else
        let N = length (m_data (pk_v pk)) in
        bindR (SwitchModulus (pk_v pk) md) (\<lambda>bp.
        bindR (scaled_message m p md) (\<lambda>d.
        let b = AddFast d e in
        bindR (ComputeMu md) (\<lambda>mu.
        bindR (foldR (\<lambda>j a. bindR (vec_ModMul_scalar (pk_A pk ! j) (m_data sp ! j)) (vec_ModAdd a))
                 [0..<N] ep) (\<lambda>a.
        let b = fold (\<lambda>i b. ModAddEq b (ModMulFast_mu (m_data bp ! i) (m_data sp ! i) md mu) md) [0..<N] b in
        Inr (SetptModulus (LWECiphertext a b) (ucast p)))))))"

definition Decrypt :: "'a::len nvec \<Rightarrow> 'a lwe_ct \<Rightarrow> 64 word \<Rightarrow> 64 word result" where
  "Decrypt sk ct p =
     (let md = ct_modulus ct in
      if ucast (p * 2) = (0 :: 'a word) then Inl undefined_behaviour
      else if divisible_guard md (p * 2) then Inl not_implemented_error
      else
        let n = length (m_data sk) in
        bindR (ComputeMu md) (\<lambda>mu.
        bindR (SwitchModulus sk md) (\<lambda>s.
        let inner = ModEq (dot_acc md mu (m_data (ct_a ct)) (m_data s) n 0) md;
            r = ModSubFastEq (ct_b ct) inner md in
        decrypt_round md (ucast p) (ucast (p * 2)) r)))"

section \<open>Linear operations\<close>

definition EvalAddEq :: "'a::len lwe_ct \<Rightarrow> 'a lwe_ct \<Rightarrow> 'a lwe_ct result" where
  "EvalAddEq ct1 ct2 =
     bindR (vec_ModAdd (ct_a ct1) (ct_a ct2)) (\<lambda>a.
       Inr (ct1 \<lparr> ct_a := a, ct_b := ModAddFastEq (ct_b ct1) (ct_b ct2) (m_modulus a) \<rparr>))"

definition EvalAddConstEq :: "'a::len lwe_ct \<Rightarrow> 'a word \<Rightarrow> 'a lwe_ct" where
  "EvalAddConstEq ct cnst = ct \<lparr> ct_b := ModAddFastEq (ct_b ct) cnst (ct_modulus ct) \<rparr>"

definition EvalSubEq :: "'a::len lwe_ct \<Rightarrow> 'a lwe_ct \<Rightarrow> 'a lwe_ct result" where
  "EvalSubEq ct1 ct2 =
     bindR (vec_ModSub (ct_a ct1) (ct_a ct2)) (\<lambda>a.
       Inr (ct1 \<lparr> ct_a := a, ct_b := ModSubFastEq (ct_b ct1) (ct_b ct2) (m_modulus a) \<rparr>))"

definition EvalSubEq2 :: "'a::len lwe_ct \<Rightarrow> 'a lwe_ct \<Rightarrow> 'a lwe_ct result" where
  "EvalSubEq2 ct1 ct2 =
     bindR (vec_ModSub (ct_a ct1) (ct_a ct2)) (\<lambda>a.
       Inr (ct2 \<lparr> ct_a := a, ct_b := ModSubFast (ct_b ct1) (ct_b ct2) (ct_modulus ct1) \<rparr>))"

definition EvalSubConstEq :: "'a::len lwe_ct \<Rightarrow> 'a word \<Rightarrow> 'a lwe_ct" where
  "EvalSubConstEq ct cnst = ct \<lparr> ct_b := ModSubFastEq (ct_b ct) cnst (ct_modulus ct) \<rparr>"

definition EvalMultConstEq :: "'a::len lwe_ct \<Rightarrow> 'a word \<Rightarrow> 'a lwe_ct result" where
  "EvalMultConstEq ct1 cnst =
     bindR (vec_ModMul_scalar (ct_a ct1) cnst) (\<lambda>a.
       Inr (ct1 \<lparr> ct_a := a, ct_b := ModMulFastEq (ct_b ct1) cnst (m_modulus a) \<rparr>))"

section \<open>Modulus and key switching\<close>

definition ModSwitch :: "'a::len word \<Rightarrow> 'a lwe_ct \<Rightarrow> 'a lwe_ct" where
  "ModSwitch q ctQ =
     (let n = length (m_data (ct_a ctQ)); Q = ct_modulus ctQ
      in LWECiphertext
           \<lparr> m_modulus = q, m_data = map (\<lambda>i. RoundqQ (m_data (ct_a ctQ) ! i) q Q) [0..<n] \<rparr>
           (RoundqQ (ct_b ctQ) q Q))"

definition KeySwitchGen ::
  "'a::len lwe_params \<Rightarrow> 'a nvec \<Rightarrow> 'a nvec \<Rightarrow> (nat \<Rightarrow> nat \<Rightarrow> nat \<Rightarrow> 'a nvec) \<Rightarrow> (nat \<Rightarrow> nat \<Rightarrow> nat \<Rightarrow> 'a word)
     \<Rightarrow> 'a lwe_ksk result" where
  "KeySwitchGen params sk skN genA genE =
     (let n = p_n params; N = p_N params; qKS = p_qKS params; baseKS = p_baseKS params;
          dc = digitCount qKS baseKS;
          digits = digitsKS (of_nat baseKS) dc 1 in
      bindR (SwitchModulus sk qKS) (\<lambda>sv.
      bindR (SwitchModulus skN qKS) (\<lambda>svN.
      bindR (ComputeMu qKS) (\<lambda>mu.
      Inr \<lparr> elementsA = ksk_masks N baseKS dc genA,
            elementsB = ksk_bodies qKS mu n N baseKS dc digits (m_data sv) (m_data svN) genA genE \<rparr>))))"

definition KeySwitch :: "'a::len lwe_params \<Rightarrow> 'a lwe_ksk \<Rightarrow> 'a lwe_ct \<Rightarrow> 'a lwe_ct" where
  "KeySwitch params K ctQN =
     (let n = p_n params; N = p_N params; Q = p_qKS params; baseKS = p_baseKS params;
          dc = digitCount Q baseKS;
          (a, b) = ks_loop Q n N baseKS dc (elementsA K) (elementsB K) (m_data (ct_a ctQN))
                     (replicate n 0, ct_b ctQN)
      in LWECiphertext \<lparr> m_modulus = Q, m_data = a \<rparr> b)"

definition SwitchCTtoqn :: "'a::len lwe_params \<Rightarrow> 'a lwe_ksk \<Rightarrow> 'a lwe_ct \<Rightarrow> 'a lwe_ct" where
  "SwitchCTtoqn params ksk ct = ModSwitch (p_q params) (KeySwitch params ksk (ModSwitch (p_qKS params) ct))"

definition NoiselessEmbedding :: "'a::len lwe_params \<Rightarrow> 64 word \<Rightarrow> 'a lwe_ct" where
  "NoiselessEmbedding params m =
     (let q = p_q params; b = MulFast (ucast m) (RShift q 2)
      in LWECiphertext (vec_zero (p_n params) q) b)"

section \<open>Phases\<close>

definition lwe_valid :: "'a::len nvec \<Rightarrow> 'a lwe_ct \<Rightarrow> bool" where
  "lwe_valid s ct \<longleftrightarrow> nvec_ok s \<and> nvec_ok (ct_a ct) \<and> same_shape (ct_a ct) s \<and> residue (m_modulus s) (ct_b ct)"

definition lwe_phase :: "'a::len nvec \<Rightarrow> 'a lwe_ct \<Rightarrow> int" where
  "lwe_phase s ct = uint (ct_b ct) - inner (vals (ct_a ct)) (vals s)"

abbreviation key_modulus :: "'a::len nvec \<Rightarrow> int" where
  "key_modulus s \<equiv> uint (m_modulus s)"

section \<open>Decryption computes the decoded phase\<close>

lemma Decrypt_value:
  fixes ct :: "'a::len lwe_ct"
  assumes v: "lwe_valid s ct" and sk: "SwitchModulus sk (m_modulus s) = Inr s"
    and bm: "barrett_modulus (m_modulus s)" and pt: "pt_ok p (m_modulus s)"
    and fit: "int (length (m_data s)) * key_modulus s \<le> 2 ^ LENGTH('a)"
    and len: "length (m_data sk) = length (m_data s)"
  shows "Decrypt sk ct p = Inr (word_of_int (decode (key_modulus s) (uint p) (lwe_phase s ct)))"
    "0 \<le> decode (key_modulus s) (uint p) (lwe_phase s ct)"
    "decode (key_modulus s) (uint p) (lwe_phase s ct) < uint p"
proof -
  define md where "md = m_modulus s"
  define q where "q = uint md"
  have V: "nvec_ok s" "nvec_ok (ct_a ct)" "same_shape (ct_a ct) s" "residue md (ct_b ct)"
    using v by (simp_all add: lwe_valid_def md_def)
  have cm: "ct_modulus ct = md" "length (m_data (ct_a ct)) = length (m_data s)"
    using V(3) by (simp_all add: same_shape_def md_def)
  have qp: "0 < q" and ok: "modulus_ok md"
    using barrett_modulus_facts(2) [OF bm] barrett_modulus_ok [OF bm] by (simp_all add: q_def md_def)
  note f = pt_ok_facts [OF pt, folded md_def] and mu = ComputeMu_mu_of [OF bm, folded md_def]
  have P: "0 < uint p" "2 * uint p \<le> q" "uint p * q \<le> 2 ^ LENGTH('a)" "uint p < 2 ^ 64"
    using pt by (simp_all add: pt_ok_def q_def md_def)
  define acc where "acc = dot_acc md (mu_of md) (m_data (ct_a ct)) (m_data s) (length (m_data s)) 0"
  have acc: "uint acc mod q = inner (vals (ct_a ct)) (vals s) mod q"
    unfolding acc_def q_def using V fit cm bm mu
    by (subst dot_acc_mod) (auto simp: md_def nvec_ok_def same_shape_def vals_def)
  define r where "r = ModSubFastEq (ct_b ct) (ModEq acc md) md"
  have r: "uint r = lwe_phase s ct mod q"
  proof -
    have am: "uint (acc mod md) = inner (vals (ct_a ct)) (vals s) mod q"
      using acc by (simp add: uint_mod_eq q_def)
    then have "residue md (acc mod md)" using qp by (simp add: residue_def q_def)
    from uint_ModSubFast [OF V(4) this] show ?thesis
      unfolding r_def in_place_variants Mod_def lwe_phase_def am q_def [symmetric]
      by (simp only: mod_diff_right_eq)
  qed
  have "Decrypt sk ct p = decrypt_round md (ucast p) (ucast (p * 2)) r"
    using f(4) mu sk len by (simp add: Decrypt_def Let_def cm md_def [symmetric] acc_def r_def)
  with decrypt_round_value [OF ok r [unfolded q_def] f(1) P [unfolded q_def] f(2)]
  show "Decrypt sk ct p = Inr (word_of_int (decode (key_modulus s) (uint p) (lwe_phase s ct)))"
    "0 \<le> decode (key_modulus s) (uint p) (lwe_phase s ct)"
    "decode (key_modulus s) (uint p) (lwe_phase s ct) < uint p"
    by (simp_all add: md_def)
qed

section \<open>Encryption\<close>

lemma Encrypt_value:
  fixes md :: "'a::len word"
  assumes sk: "SwitchModulus sk md = Inr s" "nvec_ok s" and bm: "barrett_modulus md"
    and pt: "pt_ok p md" and e: "residue md e"
    and a: "nvec_ok a" "m_modulus a = md" "length (m_data a) = length (m_data sk)"
    and fit: "(int (length (m_data sk)) + 2) * uint md \<le> 2 ^ LENGTH('a)"
  obtains ct where "Encrypt sk m p md e a = Inr ct" "lwe_valid s ct" "ct_a ct = a" "ct_p ct = ucast p"
    "lwe_phase s ct mod uint md = (uint (m mod p) * (uint md div uint p) + uint e) mod uint md"
proof -
  let ?n = "length (m_data sk)"
  note f = pt_ok_facts [OF pt] and mu = ComputeMu_mu_of [OF bm] and sl = SwitchModulus_length [OF sk(1)]
  have pos: "0 < uint md" using barrett_modulus_facts [OF bm] by blast
  obtain d where d: "scaled_message m p md = Inr d" "uint d = uint (m mod p) * (uint md div uint p)" "residue md d"
    using scaled_message_value [OF pt] .
  have fit': "uint d + uint e + int ?n * uint md \<le> 2 ^ LENGTH('a)"
    using fit d(3) e by (simp add: residue_def algebra_simps)
  have de: "uint (AddFast d e) = uint d + uint e"
  proof -
    have "uint e + uint d < 2 ^ LENGTH('a)"
      using barrett_modulus_facts(5) [OF bm] d(3) e unfolding residue_def by linarith
    then show ?thesis unfolding AddFast_def by (simp add: uint_add_exact add.commute)
  qed
  define b where "b = dot_acc md (mu_of md) (m_data a) (m_data s) ?n (AddFast d e)"
  have b: "uint b mod uint md = (uint d + uint e + inner (vals a) (vals s)) mod uint md"
    unfolding b_def vals_def de [symmetric] using a sk sl fit'
    by (intro dot_acc_mod bm mu) (auto simp: nvec_ok_def de)
  define ct where "ct = SetptModulus (LWECiphertext a (Mod b md)) (ucast p)"
  have cf: "ct_a ct = a" "ct_b ct = b mod md" "ct_p ct = ucast p"
    by (simp_all add: ct_def SetptModulus_def LWECiphertext_def Mod_def)
  have "Encrypt sk m p md e a = Inr ct"
    using f sk(1) d(1) mu by (simp add: Encrypt_def Let_def b_def ct_def)
  moreover have "lwe_valid s ct"
    using a sk sl pos by (simp add: lwe_valid_def cf same_shape_def residue_def uint_mod_eq)
  moreover have "lwe_phase s ct mod uint md = (uint d + uint e) mod uint md"
    unfolding lwe_phase_def cf uint_mod_eq b by (simp add: mod_diff_left_eq)
  ultimately show ?thesis using that cf d(2) by simp
qed

section \<open>The scheme is linear\<close>

lemma lwe_lift:
  assumes v: "lwe_valid s x" "lwe_valid s y"
    and z: "nvec_ok a" "m_modulus a = m_modulus (ct_a x)"
      "vals a = map2 (\<lambda>u v. F u v mod uint (m_modulus (ct_a x))) (vals (ct_a x)) (vals (ct_a y))"
    and b: "uint b = F (uint (ct_b x)) (uint (ct_b y)) mod key_modulus s"
    and F: "F = (+) \<or> F = (-)"
  shows "lwe_valid s (x \<lparr> ct_a := a, ct_b := b \<rparr>)"
    "lwe_phase s (x \<lparr> ct_a := a, ct_b := b \<rparr>) mod key_modulus s
      = F (lwe_phase s x) (lwe_phase s y) mod key_modulus s"
proof -
  have mm: "m_modulus (ct_a x) = m_modulus s" and len: "length (vals (ct_a x)) = length (vals (ct_a y))"
    and pos: "0 < key_modulus s"
    using v by (auto simp: lwe_valid_def same_shape_def nvec_ok_def modulus_ok_def)
  have "length (vals a) = length (vals (ct_a x))" using z(3) len by simp
  then show "lwe_valid s (x \<lparr> ct_a := a, ct_b := b \<rparr>)"
    using v z(1,2) mm b pos by (simp add: lwe_valid_def same_shape_def residue_def)
  have i: "inner (vals a) (vals s) mod key_modulus s
      = F (inner (vals (ct_a x)) (vals s)) (inner (vals (ct_a y)) (vals s)) mod key_modulus s"
    using F inner_add_mod [OF len] inner_sub_mod [OF len] unfolding z(3) mm by auto
  have "lwe_phase s (x \<lparr> ct_a := a, ct_b := b \<rparr>) mod key_modulus s
      = (F (uint (ct_b x)) (uint (ct_b y))
          - F (inner (vals (ct_a x)) (vals s)) (inner (vals (ct_a y)) (vals s))) mod key_modulus s"
    unfolding lwe_phase_def using b i by (intro mod_diff_cong) simp_all
  also have "\<dots> = F (lwe_phase s x) (lwe_phase s y) mod key_modulus s"
    using F by (auto simp: lwe_phase_def algebra_simps)
  finally show "lwe_phase s (x \<lparr> ct_a := a, ct_b := b \<rparr>) mod key_modulus s
      = F (lwe_phase s x) (lwe_phase s y) mod key_modulus s" .
qed

lemma same_shape_of_valid: "lwe_valid s x \<Longrightarrow> lwe_valid s y \<Longrightarrow> same_shape (ct_a x) (ct_a y)"
  by (simp add: lwe_valid_def same_shape_def)

lemma EvalAddEq_phase:
  assumes v: "lwe_valid s x" "lwe_valid s y"
  shows "\<exists>z. EvalAddEq x y = Inr z \<and> lwe_valid s z
    \<and> lwe_phase s z mod key_modulus s = (lwe_phase s x + lwe_phase s y) mod key_modulus s"
proof -
  have V: "nvec_ok (ct_a x)" "nvec_ok (ct_a y)" "residue (m_modulus s) (ct_b x)" "residue (m_modulus s) (ct_b y)"
    "m_modulus (ct_a x) = m_modulus s" "modulus_ok (m_modulus s)"
    using v by (auto simp: lwe_valid_def same_shape_def nvec_ok_def)
  obtain a where a: "vec_ModAdd (ct_a x) (ct_a y) = Inr a" "nvec_ok a" "m_modulus a = m_modulus (ct_a x)"
    "vals a = map2 (\<lambda>u v. (u + v) mod uint (m_modulus (ct_a x))) (vals (ct_a x)) (vals (ct_a y))"
    using vec_ModAdd_value [OF V(1,2) same_shape_of_valid [OF v]] .
  have b: "uint (ModAddFastEq (ct_b x) (ct_b y) (m_modulus a)) = (uint (ct_b x) + uint (ct_b y)) mod key_modulus s"
    unfolding in_place_variants a(3) V(5) using V by (intro uint_ModAddFast)
  from lwe_lift [OF v a(2-4) b] a(1) show ?thesis by (simp add: EvalAddEq_def)
qed

lemma EvalSubEq_phase:
  assumes v: "lwe_valid s x" "lwe_valid s y"
  shows "\<exists>z. EvalSubEq x y = Inr z \<and> lwe_valid s z
    \<and> lwe_phase s z mod key_modulus s = (lwe_phase s x - lwe_phase s y) mod key_modulus s"
proof -
  have V: "nvec_ok (ct_a x)" "nvec_ok (ct_a y)" "residue (m_modulus s) (ct_b x)" "residue (m_modulus s) (ct_b y)"
    "m_modulus (ct_a x) = m_modulus s"
    using v by (auto simp: lwe_valid_def same_shape_def nvec_ok_def)
  obtain a where a: "vec_ModSub (ct_a x) (ct_a y) = Inr a" "nvec_ok a" "m_modulus a = m_modulus (ct_a x)"
    "vals a = map2 (\<lambda>u v. (u - v) mod uint (m_modulus (ct_a x))) (vals (ct_a x)) (vals (ct_a y))"
    using vec_ModSub_value [OF V(1,2) same_shape_of_valid [OF v]] .
  have b: "uint (ModSubFastEq (ct_b x) (ct_b y) (m_modulus a)) = (uint (ct_b x) - uint (ct_b y)) mod key_modulus s"
    unfolding in_place_variants a(3) V(5) using V by (intro uint_ModSubFast)
  from lwe_lift [OF v a(2-4) b] a(1) show ?thesis by (simp add: EvalSubEq_def)
qed

interpretation lwe: linear_scheme key_modulus lwe_valid lwe_phase EvalAddEq EvalSubEq
proof
  fix k :: "'a::len nvec" and x y :: "'a lwe_ct"
  show "lwe_valid k x \<Longrightarrow> 0 < key_modulus k" by (simp add: lwe_valid_def nvec_ok_def modulus_ok_def)
qed (rule EvalAddEq_phase EvalSubEq_phase; assumption)+

section \<open>Operations with constants\<close>

lemma EvalAddConstEq_phase:
  assumes "lwe_valid s ct" "residue (m_modulus s) c"
  shows "lwe_valid s (EvalAddConstEq ct c)"
    "lwe_phase s (EvalAddConstEq ct c) mod key_modulus s = (lwe_phase s ct + uint c) mod key_modulus s"
proof -
  have V: "residue (m_modulus s) (ct_b ct)" "m_modulus (ct_a ct) = m_modulus s" "modulus_ok (m_modulus s)"
    using assms by (auto simp: lwe_valid_def same_shape_def nvec_ok_def)
  then have b: "uint (ct_b (EvalAddConstEq ct c)) = (uint (ct_b ct) + uint c) mod key_modulus s"
    unfolding EvalAddConstEq_def in_place_variants using assms(2) by (simp add: uint_ModAddFast)
  show "lwe_valid s (EvalAddConstEq ct c)"
    using assms(1) b V(3) by (simp add: lwe_valid_def EvalAddConstEq_def residue_def modulus_ok_def)
  show "lwe_phase s (EvalAddConstEq ct c) mod key_modulus s = (lwe_phase s ct + uint c) mod key_modulus s"
    using b by (simp add: lwe_phase_def EvalAddConstEq_def mod_diff_left_eq algebra_simps)
qed

lemma EvalMultConstEq_phase:
  assumes v: "lwe_valid s ct"
  shows "\<exists>z. EvalMultConstEq ct c = Inr z \<and> lwe_valid s z
    \<and> lwe_phase s z mod key_modulus s = lwe_phase s ct * uint c mod key_modulus s"
proof -
  have V: "nvec_ok (ct_a ct)" "m_modulus (ct_a ct) = m_modulus s" "0 < key_modulus s"
    using v by (auto simp: lwe_valid_def same_shape_def nvec_ok_def modulus_ok_def)
  obtain a where a: "vec_ModMul_scalar (ct_a ct) c = Inr a" "nvec_ok a" "m_modulus a = m_modulus (ct_a ct)"
    "vals a = map (\<lambda>x. x * uint c mod uint (m_modulus (ct_a ct))) (vals (ct_a ct))"
    using vec_ModMul_scalar_value [OF V(1)] .
  define z where "z = ct \<lparr> ct_a := a, ct_b := ModMulFastEq (ct_b ct) c (m_modulus a) \<rparr>"
  have b: "uint (ct_b z) = uint (ct_b ct) * uint c mod key_modulus s"
    unfolding z_def in_place_variants using V by (simp add: uint_ModMulFast a(3))
  have len: "length (m_data a) = length (m_data (ct_a ct))" using a(4) by (metis length_map length_vals)
  have "lwe_valid s z"
    using v a(2,3) V b len by (simp add: lwe_valid_def z_def same_shape_def residue_def)
  moreover have "lwe_phase s z mod key_modulus s = lwe_phase s ct * uint c mod key_modulus s"
  proof -
    have "inner (vals a) (vals s) mod key_modulus s = inner (vals (ct_a ct)) (vals s) * uint c mod key_modulus s"
      unfolding a(4) V(2) by (rule inner_mult_mod)
    then have "lwe_phase s z mod key_modulus s
        = (uint (ct_b ct) * uint c - inner (vals (ct_a ct)) (vals s) * uint c) mod key_modulus s"
      unfolding lwe_phase_def using b by (intro mod_diff_cong) (simp_all add: z_def)
    then show ?thesis by (simp add: lwe_phase_def left_diff_distrib)
  qed
  moreover have "EvalMultConstEq ct c = Inr z" using a(1) by (simp add: EvalMultConstEq_def z_def)
  ultimately show ?thesis by blast
qed

section \<open>Modulus and key switching\<close>

lemma ModSwitch_value:
  fixes ct :: "'a::len lwe_ct"
  assumes ok: "round_ok q (ct_modulus ct)" and ct: "nvec_ok (ct_a ct)" "residue (ct_modulus ct) (ct_b ct)"
  shows "vals (ct_a (ModSwitch q ct)) = map (\<lambda>x. scale_round x (uint q) (uint (ct_modulus ct)) mod uint q) (vals (ct_a ct))"
    "uint (ct_b (ModSwitch q ct)) = scale_round (uint (ct_b ct)) (uint q) (uint (ct_modulus ct)) mod uint q"
    "ct_modulus (ModSwitch q ct) = q"
proof -
  have r: "\<forall>x \<in> set (m_data (ct_a ct)). uint x < uint (ct_modulus ct)"
    using ct by (auto simp: nvec_ok_def residue_def)
  have "map (\<lambda>i. RoundqQ (m_data (ct_a ct) ! i) q (ct_modulus ct)) [0..<length (m_data (ct_a ct))]
      = map (\<lambda>x. RoundqQ x q (ct_modulus ct)) (m_data (ct_a ct))"
    by (rule nth_equalityI) simp_all
  then show "vals (ct_a (ModSwitch q ct)) = map (\<lambda>x. scale_round x (uint q) (uint (ct_modulus ct)) mod uint q) (vals (ct_a ct))"
    using r ok by (simp add: vals_def ModSwitch_def LWECiphertext_def Let_def uint_RoundqQ)
  show "uint (ct_b (ModSwitch q ct)) = scale_round (uint (ct_b ct)) (uint q) (uint (ct_modulus ct)) mod uint q"
    using ct ok by (simp add: ModSwitch_def LWECiphertext_def Let_def uint_RoundqQ residue_def)
  show "ct_modulus (ModSwitch q ct) = q" by (simp add: ModSwitch_def LWECiphertext_def Let_def)
qed

lemma KeySwitch_phase:
  fixes params :: "'a::len lwe_params" and genE :: "nat \<Rightarrow> nat \<Rightarrow> nat \<Rightarrow> 'a word"
  assumes bm: "barrett_modulus (p_qKS params)" and base: "1 < p_baseKS params"
    and pow: "int (p_baseKS params) ^ digitCount (p_qKS params) (p_baseKS params) \<le> 2 ^ LENGTH('a)"
    and fit: "LENGTH('a) = 32 \<or> (int (p_n params) + 1) * uint (p_qKS params) \<le> 2 ^ LENGTH('a)"
    and sv: "SwitchModulus sk (p_qKS params) = Inr sv" "nvec_ok sv" "length (m_data sv) = p_n params"
    and svN: "SwitchModulus skN (p_qKS params) = Inr svN" "nvec_ok svN" "length (m_data svN) = p_N params"
    and gA: "\<And>i j k. nvec_ok (genA i j k) \<and> m_modulus (genA i j k) = p_qKS params
        \<and> length (m_data (genA i j k)) = p_n params"
    and ct: "lwe_valid svN ct"
  defines "noise \<equiv> \<lambda>i j. uint (genE i (ks_digits (p_baseKS params) (digitCount (p_qKS params) (p_baseKS params))
        (unat (m_data (ct_a ct) ! i)) ! j) j)"
  obtains K where "KeySwitchGen params sk skN genA genE = Inr K"
    "lwe_valid sv (KeySwitch params K ct)"
    "lwe_phase sv (KeySwitch params K ct) mod uint (p_qKS params)
      = (lwe_phase svN ct - (\<Sum>i<p_N params. \<Sum>j<digitCount (p_qKS params) (p_baseKS params). noise i j))
          mod uint (p_qKS params)"
proof -
  define Q n N base dc where "Q = p_qKS params" and "n = p_n params" and "N = p_N params"
    and "base = p_baseKS params" and "dc = digitCount (p_qKS params) (p_baseKS params)"
  note D = Q_def n_def N_def base_def dc_def
  have mods: "m_modulus sv = Q" "m_modulus svN = Q"
    using SwitchModulus_length sv(1) svN(1) by (auto simp: Q_def)
  have ok: "modulus_ok Q" "0 < uint Q" using bm barrett_modulus_facts(2) by (auto simp: Q_def)
  define K where "K = \<lparr> elementsA = ksk_masks N base dc genA,
    elementsB = ksk_bodies Q (mu_of Q) n N base dc (digitsKS (of_nat base) dc 1) (m_data sv) (m_data svN) genA genE \<rparr>"
  have gen: "KeySwitchGen params sk skN genA genE = Inr K"
    using sv(1) svN(1) ComputeMu_mu_of [OF bm] by (simp add: KeySwitchGen_def Let_def K_def D)
  have gA': "length (m_data (genA i j k)) = n \<and> (\<forall>x \<in> set (m_data (genA i j k)). residue Q x)" for i j k
    using gA [of i j k] unfolding nvec_ok_def D by auto
  have kok: "ksk_ok Q n N base dc (m_data sv) (m_data svN) (\<lambda>i j k. uint (genE i j k)) (elementsA K) (elementsB K)"
    unfolding K_def lwe_ksk.simps using bm fit pow sv(2,3) mods
    by (intro ksk_gen_ok ComputeMu_mu_of gA') (auto simp: D nvec_ok_def)
  have c: "length (m_data (ct_a ct)) = N" "\<forall>i<N. residue Q (m_data (ct_a ct) ! i)" "residue Q (ct_b ct)"
    using ct mods svN(3) by (auto simp: lwe_valid_def same_shape_def nvec_ok_def N_def)
  have st: "ks_inv Q n (replicate n 0, ct_b ct)" using c(3) ok by (simp add: ks_inv_def residue_def)
  have dcr: "unat Q \<le> base ^ dc" unfolding D using base by (rule digitCount_reaches)
  define ab where "ab = ks_loop Q n N base dc (elementsA K) (elementsB K) (m_data (ct_a ct)) (replicate n 0, ct_b ct)"
  note L = ks_loop_phase [OF ok(2) base [folded base_def] dcr kok st c(2), folded ab_def]
  have ks: "KeySwitch params K ct = LWECiphertext \<lparr> m_modulus = Q, m_data = fst ab \<rparr> (snd ab)"
    by (simp add: KeySwitch_def Let_def ab_def D case_prod_unfold)
  have "lwe_valid sv (KeySwitch params K ct)"
    using L(1) ok sv mods by (auto simp: ks lwe_valid_def LWECiphertext_def nvec_ok_def same_shape_def ks_inv_def n_def)
  moreover have "lwe_phase sv (KeySwitch params K ct) = ks_phase (m_data sv) ab"
    by (simp add: ks lwe_phase_def ks_phase_def LWECiphertext_def vals_def)
  moreover have "ks_phase (m_data sv) (replicate n 0, ct_b ct)
      - (\<Sum>i<N. uint (m_data svN ! i) * uint (m_data (ct_a ct) ! i)) = lwe_phase svN ct"
    using c(1) svN(3) by (simp add: ks_phase_def lwe_phase_def vals_def inner_as_sum N_def mult.commute)
  ultimately show ?thesis using that [OF gen] L(2) by (simp add: D noise_def)
qed

section \<open>Public-key encryption\<close>

text \<open>The body of the public key is the matrix applied to the key plus the error.\<close>

lemma PubKeyGen_value:
  fixes params :: "'a::len lwe_params"
  assumes bm: "barrett_modulus (p_Q params)"
    and sk: "nvec_ok s" "m_modulus s = p_Q params" "length (m_data s) = p_N params"
    and A: "\<forall>j<p_N params. nvec_ok (A ! j) \<and> m_modulus (A ! j) = p_Q params \<and> length (m_data (A ! j)) = p_N params"
    and e: "nvec_ok e" "m_modulus e = p_Q params" "length (m_data e) = p_N params"
  obtains v where "PubKeyGen params s A e = Inr \<lparr> pk_A = A, pk_v = v \<rparr>" "nvec_ok v" "m_modulus v = p_Q params"
    "length (m_data v) = p_N params"
    "\<forall>j<p_N params. vals v ! j = (vals e ! j + inner (vals (A ! j)) (vals s)) mod uint (p_Q params)"
proof -
  let ?Q = "p_Q params" and ?N = "p_N params"
  define v where "v = e \<lparr> m_data := map (\<lambda>j. dot_mod ?Q (mu_of ?Q) (m_data (A ! j)) (m_data s) ?N (m_data e ! j)) [0..<?N] \<rparr>"
  have Q: "modulus_ok ?Q" "0 < uint ?Q" using bm barrett_modulus_facts(2) by auto
  have entry: "uint (dot_mod ?Q (mu_of ?Q) (m_data (A ! j)) (m_data s) ?N (m_data e ! j))
      = (vals e ! j + inner (vals (A ! j)) (vals s)) mod uint ?Q" if j: "j < ?N" for j
  proof -
    have "\<forall>i<?N. residue ?Q (m_data (A ! j) ! i) \<and> residue ?Q (m_data s ! i)"
      using A j sk nvec_ok_nth by metis
    moreover have "residue ?Q (m_data e ! j)" using e j nvec_ok_nth by metis
    ultimately show ?thesis
      using A j sk e by (simp add: dot_mod_value bm ComputeMu_mu_of vals_def inner_as_sum)
  qed
  have vv: "\<forall>j<?N. vals v ! j = (vals e ! j + inner (vals (A ! j)) (vals s)) mod uint ?Q"
    using entry by (simp add: v_def vals_def)
  have "PubKeyGen params s A e = Inr \<lparr> pk_A = A, pk_v = v \<rparr>"
    using ComputeMu_mu_of [OF bm] by (simp add: PubKeyGen_def Let_def v_def)
  moreover have "nvec_ok v" using entry Q e by (auto simp: v_def nvec_ok_def residue_def)
  ultimately show ?thesis using e vv by (intro that) (simp_all add: v_def)
qed

text \<open>The loop of \<^verbatim>\<open>EncryptN\<close> over the rows of the matrix adds their multiples.\<close>

lemma EncryptN_mask:
  fixes md :: "'a::len word"
  assumes A: "\<forall>j<N. nvec_ok (A ! j) \<and> m_modulus (A ! j) = md \<and> length (m_data (A ! j)) = d"
    and ep: "nvec_ok ep" "m_modulus ep = md" "length (m_data ep) = d"
  shows "\<exists>a. foldR (\<lambda>j a. bindR (vec_ModMul_scalar (A ! j) (sp ! j)) (vec_ModAdd a)) [0..<N] ep = Inr a
    \<and> nvec_ok a \<and> m_modulus a = md \<and> length (m_data a) = d
    \<and> (\<forall>s. inner (vals a) s mod uint md
          = (inner (vals ep) s + (\<Sum>j<N. inner (vals (A ! j)) s * uint (sp ! j))) mod uint md)"
  using A
proof (induction N)
  case 0
  then show ?case using ep by simp
next
  case (Suc N)
  let ?f = "\<lambda>j a. bindR (vec_ModMul_scalar (A ! j) (sp ! j)) (vec_ModAdd a)"
  obtain a where a: "foldR ?f [0..<N] ep = Inr a" "nvec_ok a" "m_modulus a = md" "length (m_data a) = d"
    "\<forall>s. inner (vals a) s mod uint md = (inner (vals ep) s + (\<Sum>j<N. inner (vals (A ! j)) s * uint (sp ! j))) mod uint md"
    using Suc by auto
  have AN: "nvec_ok (A ! N)" "m_modulus (A ! N) = md" "length (m_data (A ! N)) = d" using Suc.prems by auto
  obtain c where c: "vec_ModMul_scalar (A ! N) (sp ! N) = Inr c" "nvec_ok c" "m_modulus c = md"
    "vals c = map (\<lambda>x. x * uint (sp ! N) mod uint md) (vals (A ! N))"
    using vec_ModMul_scalar_value [OF AN(1), unfolded AN(2)] .
  have lc: "length (m_data c) = d" using c(4) AN(3) by (metis length_map length_vals)
  obtain a' where a': "vec_ModAdd a c = Inr a'" "nvec_ok a'" "m_modulus a' = md"
    "vals a' = map2 (\<lambda>x y. (x + y) mod uint md) (vals a) (vals c)"
    using vec_ModAdd_value [OF a(2) c(2), unfolded same_shape_def a(3,4) c(3) lc, OF conjI [OF refl refl]] .
  have la: "length (vals a) = length (vals c)" using a(4) lc by simp
  have "length (vals a') = d" using a(4) lc unfolding a'(4) by simp
  then have "length (m_data a') = d" by simp
  moreover have "inner (vals a') s mod uint md
      = (inner (vals ep) s + (\<Sum>j<Suc N. inner (vals (A ! j)) s * uint (sp ! j))) mod uint md" for s
  proof -
    have "inner (vals a') s mod uint md = (inner (vals a) s + inner (vals c) s) mod uint md"
      unfolding a'(4) by (rule inner_add_mod [OF la])
    also have "\<dots> = ((inner (vals ep) s + (\<Sum>j<N. inner (vals (A ! j)) s * uint (sp ! j)))
        + inner (vals (A ! N)) s * uint (sp ! N)) mod uint md"
      using a(5) unfolding c(4) by (intro mod_add_cong) (simp_all add: inner_mult_mod)
    finally show ?thesis by (simp add: algebra_simps)
  qed
  moreover have "foldR ?f [0..<Suc N] ep = Inr a'"
    using a(1) c(1) a'(1) by (simp add: foldR_append)
  ultimately show ?case using a'(2,3) by blast
qed

lemma EncryptN_body:
  fixes md :: "'a::len word"
  assumes bm: "barrett_modulus md" "ComputeMu md = Inr mu" and N: "0 < N"
    and r: "\<forall>i<N. residue md (v ! i) \<and> residue md (sp ! i)"
  shows "uint (fold (\<lambda>i b. ModAddEq b (ModMulFast_mu (v ! i) (sp ! i) md mu) md) [0..<N] b)
    = (uint b + (\<Sum>i<N. uint (v ! i) * uint (sp ! i))) mod uint md"
  using N r
proof (induction N)
  case (Suc N)
  let ?b = "fold (\<lambda>i b. ModAddEq b (ModMulFast_mu (v ! i) (sp ! i) md mu) md) [0..<N] b"
  have t: "uint (ModMulFast_mu (v ! N) (sp ! N) md mu) = uint (v ! N) * uint (sp ! N) mod uint md"
    using Suc.prems by (intro uint_ModMulFast_mu bm residue_prod_lt) auto
  have ih: "uint ?b mod uint md = (uint b + (\<Sum>i<N. uint (v ! i) * uint (sp ! i))) mod uint md"
    using Suc by (cases "N = 0") simp_all
  have "uint (ModAddEq ?b (ModMulFast_mu (v ! N) (sp ! N) md mu) md)
      = (uint ?b + uint (v ! N) * uint (sp ! N) mod uint md) mod uint md"
    unfolding in_place_variants uint_ModAdd [OF barrett_modulus_ok [OF bm(1)]] t ..
  also have "\<dots> = (uint b + (\<Sum>i<N. uint (v ! i) * uint (sp ! i)) + uint (v ! N) * uint (sp ! N)) mod uint md"
    using ih by (intro mod_add_cong) simp_all
  finally show ?case by (simp add: add.assoc)
qed simp

lemma EncryptN_phase:
  fixes params :: "'a::len lwe_params"
  defines "Q \<equiv> p_Q params" and "N \<equiv> p_N params"
  assumes bm: "barrett_modulus Q" and sz: "GetMSB Q \<le> MAX_MODULUS_SIZE LENGTH('a)" and N: "0 < N"
    and pt: "pt_ok p Q" and e: "residue Q e"
    and s: "nvec_ok s" "m_modulus s = Q" "length (m_data s) = N"
    and A: "\<forall>j<N. nvec_ok (A ! j) \<and> m_modulus (A ! j) = Q \<and> length (m_data (A ! j)) = N"
    and err: "nvec_ok err" "m_modulus err = Q" "length (m_data err) = N"
    and sp: "nvec_ok sp" "m_modulus sp = Q" "length (m_data sp) = N"
    and ep: "nvec_ok ep" "m_modulus ep = Q" "length (m_data ep) = N"
  obtains pk ct where "PubKeyGen params s A err = Inr pk" "EncryptN pk m p Q e sp ep = Inr ct" "lwe_valid s ct"
    "lwe_phase s ct mod uint Q
      = (uint (m mod p) * (uint Q div uint p) + (uint e + inner (vals err) (vals sp) - inner (vals ep) (vals s))) mod uint Q"
proof -
  obtain v where v: "PubKeyGen params s A err = Inr \<lparr> pk_A = A, pk_v = v \<rparr>" "nvec_ok v" "m_modulus v = Q"
    "length (m_data v) = N" "\<forall>j<N. vals v ! j = (vals err ! j + inner (vals (A ! j)) (vals s)) mod uint Q"
    using PubKeyGen_value [OF bm [unfolded Q_def] s [unfolded Q_def N_def] A [unfolded Q_def N_def] err [unfolded Q_def N_def]]
    unfolding Q_def N_def .
  note f = pt_ok_facts [OF pt] and mu = ComputeMu_mu_of [OF bm]
  have Q: "modulus_ok Q" "0 < uint Q" using bm barrett_modulus_facts(2) by auto
  obtain d where d: "scaled_message m p Q = Inr d" "uint d = uint (m mod p) * (uint Q div uint p)" "residue Q d"
    using scaled_message_value [OF pt] .
  have de: "uint (AddFast d e) = uint d + uint e"
    using barrett_modulus_facts(5) [OF bm] d(3) e unfolding residue_def AddFast_def
    by (subst uint_add_exact) simp_all
  obtain a where a: "foldR (\<lambda>j a. bindR (vec_ModMul_scalar (A ! j) (m_data sp ! j)) (vec_ModAdd a)) [0..<N] ep = Inr a"
    "nvec_ok a" "m_modulus a = Q" "length (m_data a) = N"
    "\<forall>t. inner (vals a) t mod uint Q = (inner (vals ep) t + (\<Sum>j<N. inner (vals (A ! j)) t * uint (m_data sp ! j))) mod uint Q"
    using EncryptN_mask [OF A ep, of "m_data sp"] by blast
  define b where "b = fold (\<lambda>i b. ModAddEq b (ModMulFast_mu (m_data v ! i) (m_data sp ! i) Q (mu_of Q)) Q) [0..<N] (AddFast d e)"
  have "\<forall>i<N. residue Q (m_data v ! i) \<and> residue Q (m_data sp ! i)" using v sp nvec_ok_nth by metis
  from EncryptN_body [OF bm mu N this]
  have b: "uint b = (uint d + uint e + (\<Sum>i<N. uint (m_data v ! i) * uint (m_data sp ! i))) mod uint Q"
    unfolding b_def de [symmetric] .
  define ct where "ct = SetptModulus (LWECiphertext a b) (ucast p)"
  have cf: "ct_a ct = a" "ct_b ct = b" by (simp_all add: ct_def SetptModulus_def LWECiphertext_def)
  have enc: "EncryptN \<lparr> pk_A = A, pk_v = v \<rparr> m p Q e sp ep = Inr ct"
    using f d(1) mu a(1) v(4) SwitchModulus_same [OF v(2)] v(3) sz
    by (simp add: EncryptN_def Let_def b_def ct_def)
  have val: "lwe_valid s ct" using a s b Q by (simp add: lwe_valid_def cf same_shape_def residue_def)
  let ?x = "\<lambda>j. inner (vals (A ! j)) (vals s) * uint (m_data sp ! j)"
  have "(\<Sum>i<N. uint (m_data v ! i) * uint (m_data sp ! i)) mod uint Q
      = (\<Sum>i<N. (vals err ! i + inner (vals (A ! i)) (vals s)) * uint (m_data sp ! i)) mod uint Q"
    using v(4,5) by (intro sum_mod_cong) (simp add: vals_def mod_mult_left_eq)
  also have "(\<Sum>i<N. (vals err ! i + inner (vals (A ! i)) (vals s)) * uint (m_data sp ! i))
      = inner (vals err) (vals sp) + (\<Sum>j<N. ?x j)"
    using err(3) sp(3) by (simp add: inner_as_sum vals_def distrib_right sum.distrib)
  finally have vs: "(\<Sum>i<N. uint (m_data v ! i) * uint (m_data sp ! i)) mod uint Q
      = (inner (vals err) (vals sp) + (\<Sum>j<N. ?x j)) mod uint Q" .
  have "uint b mod uint Q = (uint d + uint e + (inner (vals err) (vals sp) + (\<Sum>j<N. ?x j))) mod uint Q"
    unfolding b mod_mod_trivial by (rule mod_add_cong [OF refl vs])
  from mod_diff_cong [OF this a(5) [rule_format, of "vals s"]]
  have "lwe_phase s ct mod uint Q
      = ((uint d + uint e + (inner (vals err) (vals sp) + (\<Sum>j<N. ?x j))) - (inner (vals ep) (vals s) + (\<Sum>j<N. ?x j))) mod uint Q"
    unfolding lwe_phase_def cf .
  then have "lwe_phase s ct mod uint Q = (uint (m mod p) * (uint Q div uint p)
      + (uint e + inner (vals err) (vals sp) - inner (vals ep) (vals s))) mod uint Q"
    by (simp add: d(2) algebra_simps)
  then show ?thesis by (rule that [OF v(1) enc val])
qed

section \<open>Properties\<close>

text \<open>
  What the callers guarantee for an encryption: a key of residues, an accepted modulus, a plaintext
  modulus without wrap-around, a mask of the dimension of the key, and a dimension for which the
  unreduced sum of the inner product fits a word.
\<close>

definition enc_inputs_ok :: "'a::len nvec \<Rightarrow> 64 word \<Rightarrow> 'a word \<Rightarrow> 'a word \<Rightarrow> 'a nvec \<Rightarrow> bool" where
  "enc_inputs_ok sk p md e a \<longleftrightarrow>
     nvec_ok sk \<and> barrett_modulus md \<and> GetMSB md \<le> MAX_MODULUS_SIZE LENGTH('a) \<and> pt_ok p md \<and> residue md e
     \<and> nvec_ok a \<and> m_modulus a = md \<and> length (m_data a) = length (m_data sk)
     \<and> (int (length (m_data sk)) + 2) * uint md \<le> 2 ^ LENGTH('a)"

lemma enc_inputs_key:
  fixes md :: "'a::len word"
  assumes "enc_inputs_ok sk p md e a"
  obtains s where "SwitchModulus sk md = Inr s" "nvec_ok s" "m_modulus s = md" "length (m_data s) = length (m_data sk)"
proof -
  have a: "nvec_ok sk" "modulus_ok md" "GetMSB md \<le> MAX_MODULUS_SIZE LENGTH('a)"
    using assms by (auto simp: enc_inputs_ok_def)
  obtain s where "SwitchModulus sk md = Inr s" "nvec_ok s" "m_modulus s = md" using SwitchModulus_value [OF a] .
  with SwitchModulus_length [OF this(1)] show ?thesis by (intro that [of s]) auto
qed

lemma enc_inputs_encrypt:
  fixes md :: "'a::len word"
  assumes ok: "enc_inputs_ok sk p md e a" and s: "SwitchModulus sk md = Inr s" "nvec_ok s"
  obtains ct where "Encrypt sk m p md e a = Inr ct" "lwe_valid s ct"
    "lwe.encodes s (uint p) ct (uint (m mod p)) (centered (uint md) (uint e))"
proof -
  have a: "barrett_modulus md" "pt_ok p md" "residue md e" "nvec_ok a" "m_modulus a = md"
    "length (m_data a) = length (m_data sk)" "(int (length (m_data sk)) + 2) * uint md \<le> 2 ^ LENGTH('a)"
    using ok by (auto simp: enc_inputs_ok_def)
  obtain ct where ct: "Encrypt sk m p md e a = Inr ct" "lwe_valid s ct"
    "lwe_phase s ct mod uint md = (uint (m mod p) * (uint md div uint p) + uint e) mod uint md"
    using Encrypt_value [OF s a] .
  have "(uint (m mod p) * (uint md div uint p) + uint e) mod uint md
      = (uint (m mod p) * (uint md div uint p) + centered (uint md) (uint e)) mod uint md"
    by (rule mod_add_cong) (simp_all add: centered_mod)
  then show ?thesis
    using ct SwitchModulus_length [OF s(1)] by (intro that) (simp_all add: lwe.encodes_def)
qed

lemma enc_inputs_decrypt:
  fixes md :: "'a::len word"
  assumes ok: "enc_inputs_ok sk p md e a" and s: "SwitchModulus sk md = Inr s" "nvec_ok s" and v: "lwe_valid s ct"
  shows "Decrypt sk ct p = Inr (word_of_int (decode (uint md) (uint p) (lwe_phase s ct)))"
proof -
  have sl: "m_modulus s = md" "length (m_data s) = length (m_data sk)" using SwitchModulus_length [OF s(1)] by auto
  have "int (length (m_data s)) * key_modulus s \<le> (int (length (m_data sk)) + 2) * uint md"
    unfolding sl by (rule mult_right_mono) simp_all
  then have "int (length (m_data s)) * key_modulus s \<le> 2 ^ LENGTH('a)"
    using ok unfolding enc_inputs_ok_def by linarith
  then show ?thesis
    using Decrypt_value(1) [OF v] s ok sl by (simp add: enc_inputs_ok_def)
qed

lemma word_of_message: "word_of_int (uint (m mod p :: 64 word)) = m mod p"
  by simp

text \<open>C4.  Decryption inverts encryption: for every message, every mask and every noise within the
  bound, \<^verbatim>\<open>Decrypt\<close> of \<^verbatim>\<open>Encrypt\<close> returns the message modulo the plaintext modulus.\<close>

theorem LWE_decrypt_encrypt:
  fixes md :: "'a::len word"
  assumes "enc_inputs_ok sk p md e a"
    and "noise_ok (uint md) (uint p) (uint (m mod p)) (centered (uint md) (uint e))"
  shows "\<exists>ct. Encrypt sk m p md e a = Inr ct \<and> Decrypt sk ct p = Inr (m mod p)"
proof -
  obtain s where s: "SwitchModulus sk md = Inr s" "nvec_ok s" "m_modulus s = md" using enc_inputs_key [OF assms(1)] .
  obtain ct where ct: "Encrypt sk m p md e a = Inr ct" "lwe_valid s ct"
    "lwe.encodes s (uint p) ct (uint (m mod p)) (centered (uint md) (uint e))"
    using enc_inputs_encrypt [OF assms(1) s(1,2)] .
  have p: "0 < uint p" using assms(1) by (simp add: enc_inputs_ok_def pt_ok_def)
  have "decode (uint md) (uint p) (lwe_phase s ct) = uint (m mod p)"
    using lwe.decode_phase [OF ct(3)] p assms(2) s(3) by (simp add: uint_mod_eq)
  then show ?thesis
    using ct(1) enc_inputs_decrypt [OF assms(1) s(1,2) ct(2)] by simp
qed

definition example_sk :: "32 nvec" where
  "example_sk = \<lparr> m_modulus = 512, m_data = [1, 511] \<rparr>"

definition example_mask :: "32 nvec" where
  "example_mask = \<lparr> m_modulus = 512, m_data = [100, 200] \<rparr>"

theorem LWE_decrypt_encrypt_witness:
  "\<exists>ct. Encrypt example_sk 3 4 512 509 example_mask = Inr ct \<and> Decrypt example_sk ct 4 = Inr (3 mod 4)"
  by (rule LWE_decrypt_encrypt) code_simp+

text \<open>C28.  Homomorphic addition: the sum of two encryptions decrypts to the sum of the messages modulo
  the plaintext modulus, when it divides the ciphertext modulus and the sum of the two noises is
  within the bound.\<close>

theorem LWE_add_decrypts:
  fixes md :: "'a::len word"
  assumes "enc_inputs_ok sk p md e1 a1" "enc_inputs_ok sk p md e2 a2" "uint p dvd uint md"
    and "noise_ok (uint md) (uint p) ((uint (m1 mod p) + uint (m2 mod p)) mod uint p)
           (centered (uint md) (uint e1) + centered (uint md) (uint e2))"
  shows "\<exists>c1 c2 c. Encrypt sk m1 p md e1 a1 = Inr c1 \<and> Encrypt sk m2 p md e2 a2 = Inr c2
    \<and> EvalAddEq c1 c2 = Inr c
    \<and> Decrypt sk c p = Inr (word_of_int ((uint (m1 mod p) + uint (m2 mod p)) mod uint p))"
proof -
  obtain s where s: "SwitchModulus sk md = Inr s" "nvec_ok s" "m_modulus s = md" using enc_inputs_key [OF assms(1)] .
  obtain c1 where c1: "Encrypt sk m1 p md e1 a1 = Inr c1" "lwe_valid s c1"
    "lwe.encodes s (uint p) c1 (uint (m1 mod p)) (centered (uint md) (uint e1))"
    using enc_inputs_encrypt [OF assms(1) s(1,2)] .
  obtain c2 where c2: "Encrypt sk m2 p md e2 a2 = Inr c2" "lwe_valid s c2"
    "lwe.encodes s (uint p) c2 (uint (m2 mod p)) (centered (uint md) (uint e2))"
    using enc_inputs_encrypt [OF assms(2) s(1,2)] .
  have p: "0 < uint p" using assms(1) by (simp add: enc_inputs_ok_def pt_ok_def)
  obtain c where c: "EvalAddEq c1 c2 = Inr c"
    "decode (uint md) (uint p) (lwe_phase s c) = (uint (m1 mod p) + uint (m2 mod p)) mod uint p"
    using lwe.decode_sum [OF c1(3) c2(3)] assms(3,4) p s(3) by auto
  have "lwe_valid s c" using EvalAddEq_phase [OF c1(2) c2(2)] c(1) by auto
  from enc_inputs_decrypt [OF assms(1) s(1,2) this] show ?thesis using c1(1) c2(1) c by auto
qed

theorem LWE_add_decrypts_witness:
  "\<exists>c1 c2 c. Encrypt example_sk 3 4 512 509 example_mask = Inr c1 \<and> Encrypt example_sk 2 4 512 7 example_mask = Inr c2
    \<and> EvalAddEq c1 c2 = Inr c
    \<and> Decrypt example_sk c 4 = Inr (word_of_int ((uint (3 mod 4 :: 64 word) + uint (2 mod 4 :: 64 word)) mod uint (4 :: 64 word)))"
  by (rule LWE_add_decrypts) code_simp+

text \<open>C5.  Public-key encryption: an encryption under the public key of \<^verbatim>\<open>PubKeyGen\<close> has the phase of
  the message with the noise \<open>e + err * sp - ep * s\<close>, so \<^verbatim>\<open>Decrypt\<close> returns the message when that
  noise is within the bound and the dimension fits the word.\<close>

theorem LWE_decrypt_encryptN:
  fixes params :: "'a::len lwe_params"
  assumes "barrett_modulus (p_Q params)" "GetMSB (p_Q params) \<le> MAX_MODULUS_SIZE LENGTH('a)"
    and "pt_ok p (p_Q params)" "residue (p_Q params) e" "0 < p_N params"
    and "\<forall>x \<in> set ([s, err, sp, ep] @ A). nvec_ok x \<and> m_modulus x = p_Q params \<and> length (m_data x) = p_N params"
    and "length A = p_N params" "int (p_N params) * uint (p_Q params) \<le> 2 ^ LENGTH('a)"
    and "noise_ok (uint (p_Q params)) (uint p) (uint (m mod p))
           (centered (uint (p_Q params))
             ((uint e + inner (vals err) (vals sp) - inner (vals ep) (vals s)) mod uint (p_Q params)))"
  shows "\<exists>pk ct. PubKeyGen params s A err = Inr pk \<and> EncryptN pk m p (p_Q params) e sp ep = Inr ct
    \<and> Decrypt s ct p = Inr (m mod p)"
proof -
  let ?Q = "p_Q params"
  define noise where "noise = uint e + inner (vals err) (vals sp) - inner (vals ep) (vals s)"
  have V: "nvec_ok s" "m_modulus s = ?Q" "length (m_data s) = p_N params" using assms(6) by auto
  have A: "\<forall>j<p_N params. nvec_ok (A ! j) \<and> m_modulus (A ! j) = ?Q \<and> length (m_data (A ! j)) = p_N params"
    using assms(6,7) by (simp add: all_set_conv_all_nth)
  have E: "nvec_ok err" "m_modulus err = ?Q" "length (m_data err) = p_N params"
    "nvec_ok sp" "m_modulus sp = ?Q" "length (m_data sp) = p_N params"
    "nvec_ok ep" "m_modulus ep = ?Q" "length (m_data ep) = p_N params" using assms(6) by auto
  obtain pk ct where ct: "PubKeyGen params s A err = Inr pk" "EncryptN pk m p ?Q e sp ep = Inr ct" "lwe_valid s ct"
    "lwe_phase s ct mod uint ?Q = (uint (m mod p) * (uint ?Q div uint p) + noise) mod uint ?Q"
    using EncryptN_phase [OF assms(1,2,5,3,4) V A E] unfolding noise_def .
  have "(uint (m mod p) * (uint ?Q div uint p) + noise) mod uint ?Q
      = (uint (m mod p) * (uint ?Q div uint p) + centered (uint ?Q) (noise mod uint ?Q)) mod uint ?Q"
    by (rule mod_add_cong) (simp_all add: centered_mod)
  then have "lwe.encodes s (uint p) ct (uint (m mod p)) (centered (uint ?Q) (noise mod uint ?Q))"
    using ct(3,4) V by (simp add: lwe.encodes_def)
  from lwe.decode_phase [OF this] have "decode (uint ?Q) (uint p) (lwe_phase s ct) = uint (m mod p)"
    using assms(3,9) V by (simp add: noise_def pt_ok_def uint_mod_eq)
  moreover have "Decrypt s ct p = Inr (word_of_int (decode (uint ?Q) (uint p) (lwe_phase s ct)))"
    using Decrypt_value(1) [OF ct(3), of s p] SwitchModulus_same [OF V(1)] assms(1-3,8) by (simp add: V)
  ultimately show ?thesis using ct(1,2) by simp
qed

definition example_params :: "32 lwe_params" where
  "example_params = \<lparr> p_q = 512, p_Q = 7681, p_qKS = 1024, p_n = 2, p_N = 2, p_baseKS = 32, p_keyDist = UNIFORM_TERNARY \<rparr>"

definition example_vec :: "32 word list \<Rightarrow> 32 nvec" where
  "example_vec xs = \<lparr> m_modulus = 7681, m_data = xs \<rparr>"

theorem LWE_decrypt_encryptN_witness:
  "\<exists>pk ct. PubKeyGen example_params (example_vec [1, 7680]) [example_vec [17, 4000], example_vec [23, 5]] (example_vec [2, 7679]) = Inr pk
    \<and> EncryptN pk 3 4 (p_Q example_params) 3 (example_vec [1, 0]) (example_vec [7680, 2]) = Inr ct
    \<and> Decrypt (example_vec [1, 7680]) ct 4 = Inr (3 mod 4)"
  by (rule LWE_decrypt_encryptN) code_simp+

text \<open>C27.  The modulus switch scales the phase by \<open>q / Q\<close> up to an error of at most half a unit for the
  body and for every unit of the one-norm of the key: with all quantities multiplied by \<open>2 * Q\<close>, the
  error is at most \<open>Q * (1 + |s|)\<close>, for every integer key \<open>s\<close>.\<close>

theorem LWE_ModSwitch_error:
  fixes ct :: "'a::len lwe_ct" and s :: "int list"
  assumes "round_ok q (ct_modulus ct)" "nvec_ok (ct_a ct)" "residue (ct_modulus ct) (ct_b ct)"
  shows "\<exists>err. \<bar>err\<bar> \<le> uint (ct_modulus ct) * (1 + (\<Sum>y \<leftarrow> s. \<bar>y\<bar>))
    \<and> (2 * uint (ct_modulus ct) * (uint (ct_b (ModSwitch q ct)) - inner (vals (ct_a (ModSwitch q ct))) s))
          mod (2 * uint (ct_modulus ct) * uint q)
      = (2 * uint q * (uint (ct_b ct) - inner (vals (ct_a ct)) s) + err) mod (2 * uint (ct_modulus ct) * uint q)"
proof -
  have "0 < uint q" "0 < uint (ct_modulus ct)" using assms(1) by (simp_all add: round_ok_def)
  moreover have "\<forall>x \<in> set (vals (ct_a ct)). 0 \<le> x \<and> x < uint (ct_modulus ct)"
    using assms(2) by (auto simp: vals_def nvec_ok_def residue_def)
  ultimately show ?thesis
    unfolding ModSwitch_value [OF assms] using assms(3)
    by (intro mod_switch_phase) (simp_all add: residue_def)
qed

definition example_ct :: "32 lwe_ct" where
  "example_ct = LWECiphertext (example_vec [1000, 7000]) 5000"

theorem LWE_ModSwitch_error_witness:
  "\<exists>err. \<bar>err\<bar> \<le> uint (ct_modulus example_ct) * (1 + (\<Sum>y \<leftarrow> [1, - 1]. \<bar>y\<bar>))
    \<and> (2 * uint (ct_modulus example_ct) * (uint (ct_b (ModSwitch 512 example_ct)) - inner (vals (ct_a (ModSwitch 512 example_ct))) [1, - 1]))
          mod (2 * uint (ct_modulus example_ct) * uint (512 :: 32 word))
      = (2 * uint (512 :: 32 word) * (uint (ct_b example_ct) - inner (vals (ct_a example_ct)) [1, - 1]) + err)
          mod (2 * uint (ct_modulus example_ct) * uint (512 :: 32 word))"
  by (rule LWE_ModSwitch_error) code_simp+


definition example_ks_key :: "32 nvec" where
  "example_ks_key = \<lparr> m_modulus = 1024, m_data = [1, 1023] \<rparr>"

definition example_ks_ct :: "32 lwe_ct" where
  "example_ks_ct = LWECiphertext \<lparr> m_modulus = 1024, m_data = [700, 33] \<rparr> 500"


text \<open>The divisibility check before encryption and decryption never fires: whatever the moduli,
  neither operation reports the exception that the check announces.\<close>

lemma LWE_divisibility_check_dead:
  "Encrypt sk m p md e a \<noteq> Inl not_implemented_error
    \<and> EncryptN pk m p md e sp ep \<noteq> Inl not_implemented_error
    \<and> Decrypt sk ct p \<noteq> Inl not_implemented_error"
  by (auto simp: Encrypt_def EncryptN_def Decrypt_def Let_def bindR_eq_Inl
      no_not_implemented no_not_implemented_decrypt)

end
