(* ===== verification/MKLWE.thy ===== *)
theory MKLWE
  imports LWE
begin

text \<open>
  The multi-key LWE scheme: \<^verbatim>\<open>src/src/binfhe/lib/mklwe-pke.cpp\<close> with the parameter, key and
  ciphertext classes \<^verbatim>\<open>mklwe-*.h\<close>.  A ciphertext of \<open>k\<close> parties has one mask for every party and
  one body; the joint key is the list of the keys of the parties.

  As for the single-key scheme the random choices are arguments, indexed by the party whose loop
  iteration draws them.  Reads outside of a \<^verbatim>\<open>std::vector\<close> are the error
  \<^const>\<open>undefined_behaviour\<close>.
\<close>

section \<open>Parameters, keys and ciphertexts\<close>

record (overloaded) 'a mklwe_params =
  mp_k :: nat
  mp_q :: "'a::len word"
  mp_Q :: "'a word"
  mp_qKS :: "'a word"
  mp_n :: nat
  mp_N :: nat
  mp_baseKS :: nat
  mp_keyDist :: SecretKeyDist

definition MKLWECryptoParams ::
  "nat \<Rightarrow> nat \<Rightarrow> nat \<Rightarrow> 'a::len word \<Rightarrow> 'a word \<Rightarrow> 'a word \<Rightarrow> nat \<Rightarrow> SecretKeyDist \<Rightarrow> 'a mklwe_params result" where
  "MKLWECryptoParams k n N q Q qKS baseKS keyDist =
     (if k = 0 then Inl config_error
      else if n = 0 then Inl config_error
      else if N = 0 then Inl config_error
      else if q = 0 then Inl config_error
      else if Q = 0 then Inl config_error
      else if qKS = 0 then Inl config_error
      else if baseKS = 0 then Inl config_error
      else if GetMSB Q > MAX_MODULUS_SIZE LENGTH('a) then Inl config_error
      else Inr \<lparr> mp_k = k, mp_q = q, mp_Q = Q, mp_qKS = qKS, mp_n = n, mp_N = N, mp_baseKS = baseKS,
                 mp_keyDist = keyDist \<rparr>)"

text \<open>The copy constructor leaves out the key switching modulus and the key distribution.\<close>

definition mk_copy_params :: "'a::len mklwe_params \<Rightarrow> 'a mklwe_params" where
  "mk_copy_params rhs = \<lparr> mp_k = mp_k rhs, mp_q = mp_q rhs, mp_Q = mp_Q rhs, mp_qKS = 0, mp_n = mp_n rhs,
     mp_N = mp_N rhs, mp_baseKS = mp_baseKS rhs, mp_keyDist = UNIFORM_TERNARY \<rparr>"

definition mk_assign_params :: "'a::len mklwe_params \<Rightarrow> 'a mklwe_params \<Rightarrow> 'a mklwe_params" where
  "mk_assign_params lhs rhs = lhs \<lparr> mp_k := mp_k rhs, mp_q := mp_q rhs, mp_Q := mp_Q rhs, mp_n := mp_n rhs,
     mp_N := mp_N rhs, mp_baseKS := mp_baseKS rhs \<rparr>"

record (overloaded) 'a mklwe_ct =
  mct_a :: "'a::len nvec list"
  mct_b :: "'a word"
  mct_p :: "'a word"

definition MKLWECiphertext :: "'a::len nvec list \<Rightarrow> 'a word \<Rightarrow> 'a mklwe_ct" where
  "MKLWECiphertext a b = \<lparr> mct_a = a, mct_b = b, mct_p = 4 \<rparr>"

definition mk_copy_ct :: "'a::len mklwe_ct \<Rightarrow> 'a mklwe_ct" where
  "mk_copy_ct rhs = MKLWECiphertext (mct_a rhs) (mct_b rhs)"

definition mk_assign_ct :: "'a::len mklwe_ct \<Rightarrow> 'a mklwe_ct \<Rightarrow> 'a mklwe_ct" where
  "mk_assign_ct lhs rhs = lhs \<lparr> mct_a := mct_a rhs, mct_b := mct_b rhs \<rparr>"

definition mk_SetptModulus :: "'a::len mklwe_ct \<Rightarrow> 'a word \<Rightarrow> 'a mklwe_ct" where
  "mk_SetptModulus ct p = ct \<lparr> mct_p := p \<rparr>"

text \<open>\<^verbatim>\<open>GetModulus\<close> and \<^verbatim>\<open>GetLength\<close> read the mask of the first party.\<close>

abbreviation mct_modulus :: "'a::len mklwe_ct \<Rightarrow> 'a word" where
  "mct_modulus ct \<equiv> m_modulus (mct_a ct ! 0)"

abbreviation mct_length :: "'a::len mklwe_ct \<Rightarrow> nat" where
  "mct_length ct \<equiv> length (m_data (mct_a ct ! 0))"

definition GetAneg :: "'a::len mklwe_ct \<Rightarrow> 'a nvec list result" where
  "GetAneg ct =
     (if mct_a ct = [] then Inl undefined_behaviour
      else
        let k = length (mct_a ct); md = mct_modulus ct; n = mct_length ct; zero = vec_zero n md in
        mapR (\<lambda>u. vec_ModSub zero (mct_a ct ! u)) [0..<k])"

record (overloaded) 'a mklwe_ksk =
  mk_elementsA :: "'a::len nvec list list list list"
  mk_elementsB :: "'a word list list list list"

text \<open>The first \<open>k\<close> vectors of a list can be read at every index below \<open>n\<close>.\<close>

definition reads_ok :: "nat \<Rightarrow> nat \<Rightarrow> 'a::len nvec list \<Rightarrow> bool" where
  "reads_ok k n vs \<longleftrightarrow> k \<le> length vs \<and> (\<forall>v \<in> set (take k vs). n \<le> length (m_data v))"

section \<open>Key generation, encryption and decryption\<close>

text \<open>The generator is called once before the loop and once for every party.\<close>

definition mk_KeyGenBinary :: "nat \<Rightarrow> (nat \<Rightarrow> 'a::len nvec) \<Rightarrow> 'a nvec list" where
  "mk_KeyGenBinary k bug = map (\<lambda>u. bug (Suc u)) [0..<k]"

definition mk_Encrypt ::
  "'a::len mklwe_params \<Rightarrow> 'a nvec list \<Rightarrow> 64 word \<Rightarrow> 64 word \<Rightarrow> 'a word \<Rightarrow> 'a word \<Rightarrow> (nat \<Rightarrow> 'a nvec)
     \<Rightarrow> 'a mklwe_ct result" where
  "mk_Encrypt params sk m p md err dgg =
     (if p = 0 \<or> ucast p = (0 :: 'a word) then Inl undefined_behaviour
      else if divisible_guard md p then Inl not_implemented_error
      else
        let n = mp_n params; k = mp_k params; a = map dgg [0..<k] in
        if \<not> (reads_ok k n sk \<and> reads_ok k n a) then Inl undefined_behaviour
        else
          bindR (scaled_message m p md) (\<lambda>d.
          let b = AddFast d err in
          bindR (foldR (\<lambda>u b.
              bindR (SwitchModulus (sk ! u) md) (\<lambda>s.
              bindR (ComputeMu md) (\<lambda>mu.
              Inr (dot_acc md mu (m_data (a ! u)) (m_data s) n b)))) [0..<k] b) (\<lambda>b.
          Inr (mk_SetptModulus (MKLWECiphertext a (Mod b md)) (ucast p)))))"

text \<open>The inner product of \<^verbatim>\<open>Decrypt\<close> and \<^verbatim>\<open>DecryptNAND\<close>, reduced after every party.\<close>

definition mk_inner :: "'a::len mklwe_params \<Rightarrow> 'a nvec list \<Rightarrow> 'a mklwe_ct \<Rightarrow> 'a word \<Rightarrow> 'a word \<Rightarrow> 'a word result" where
  "mk_inner params sk ct md mu =
     (let n = mp_n params; k = mp_k params in
      if \<not> (reads_ok k n sk \<and> reads_ok k n (mct_a ct)) then Inl undefined_behaviour
      else
        foldR (\<lambda>u inner.
            bindR (SwitchModulus (sk ! u) md) (\<lambda>s.
            Inr (ModEq (dot_acc md mu (m_data (mct_a ct ! u)) (m_data s) n inner) md))) [0..<k] 0)"

definition mk_Decrypt ::
  "'a::len mklwe_params \<Rightarrow> 'a nvec list \<Rightarrow> 'a mklwe_ct \<Rightarrow> 64 word \<Rightarrow> 64 word result" where
  "mk_Decrypt params sk ct p =
     (if mct_a ct = [] then Inl undefined_behaviour
      else
        let md = mct_modulus ct in
        if ucast (p * 2) = (0 :: 'a word) then Inl undefined_behaviour
        else if divisible_guard md (p * 2) then Inl not_implemented_error
        else
          bindR (ComputeMu md) (\<lambda>mu.
          bindR (mk_inner params sk ct md mu) (\<lambda>inner.
          let r = ModSubFastEq (mct_b ct) inner md in
          decrypt_round md (ucast p) (ucast (p * 2)) r)))"

definition mk_DecryptNAND ::
  "'a::len mklwe_params \<Rightarrow> 'a nvec list \<Rightarrow> 'a mklwe_ct \<Rightarrow> 64 word \<Rightarrow> 64 word result" where
  "mk_DecryptNAND params sk ct p =
     (if mct_a ct = [] then Inl undefined_behaviour
      else
        let md = mct_modulus ct in
        if ucast (p div 2 * 2) = (0 :: 'a word) then Inl undefined_behaviour
        else if divisible_guard md (p div 2 * 2) then Inl not_implemented_error
        else
          bindR (ComputeMu md) (\<lambda>mu.
          bindR (mk_inner params sk ct md mu) (\<lambda>inner.
          let r = ModSubFastEq (mct_b ct) inner md in
          decrypt_round md (ucast (p div 2)) (ucast p) r)))"

section \<open>Modulus and key switching\<close>

definition mk_ModSwitch :: "'a::len word \<Rightarrow> 'a mklwe_ct \<Rightarrow> 'a mklwe_ct result" where
  "mk_ModSwitch q ctQ =
     (if mct_a ctQ = [] then Inl undefined_behaviour
      else
        let n = mct_length ctQ; Q = mct_modulus ctQ; k = length (mct_a ctQ) in
        if \<not> reads_ok k n (mct_a ctQ) then Inl undefined_behaviour
        else Inr (MKLWECiphertext
          (map (\<lambda>u. \<lparr> m_modulus = q, m_data = map (\<lambda>i. RoundqQ (m_data (mct_a ctQ ! u) ! i) q Q) [0..<n] \<rparr>) [0..<k])
          (RoundqQ (mct_b ctQ) q Q)))"

definition mk_KeySwitchGen ::
  "'a::len mklwe_params \<Rightarrow> 'a nvec list \<Rightarrow> 'a nvec list \<Rightarrow> (nat \<Rightarrow> nat \<Rightarrow> nat \<Rightarrow> nat \<Rightarrow> 'a nvec)
     \<Rightarrow> (nat \<Rightarrow> nat \<Rightarrow> nat \<Rightarrow> nat \<Rightarrow> 'a word) \<Rightarrow> 'a mklwe_ksk result" where
  "mk_KeySwitchGen params sk skN genA genE =
     (let n = mp_n params; N = mp_N params; qKS = mp_qKS params; baseKS = mp_baseKS params;
          dc = digitCount qKS baseKS;
          digits = digitsKS (of_nat baseKS) dc 1; usrnum = mp_k params in
      if \<not> (reads_ok usrnum n sk \<and> reads_ok usrnum N skN) then Inl undefined_behaviour
      else
        bindR (mapR (\<lambda>u.
            bindR (SwitchModulus (sk ! u) qKS) (\<lambda>sv.
            bindR (SwitchModulus (skN ! u) qKS) (\<lambda>svN.
            bindR (ComputeMu qKS) (\<lambda>mu.
            Inr (ksk_masks N baseKS dc (genA u),
                 ksk_bodies qKS mu n N baseKS dc digits (m_data sv) (m_data svN) (genA u) (genE u))))))
          [0..<usrnum]) (\<lambda>rs.
        Inr \<lparr> mk_elementsA = map fst rs, mk_elementsB = map snd rs \<rparr>))"

definition mk_KeySwitch :: "'a::len mklwe_params \<Rightarrow> 'a mklwe_ksk \<Rightarrow> 'a mklwe_ct \<Rightarrow> 'a mklwe_ct result" where
  "mk_KeySwitch params K ctQN =
     (let n = mp_n params; N = mp_N params; Q = mp_qKS params; k = mp_k params; baseKS = mp_baseKS params;
          dc = digitCount Q baseKS in
      if \<not> (reads_ok k N (mct_a ctQN) \<and> k \<le> length (mk_elementsA K) \<and> k \<le> length (mk_elementsB K))
      then Inl undefined_behaviour
      else
        let (a, b) = fold (\<lambda>u (a, b).
              let (au, b) = ks_loop Q n N baseKS dc (mk_elementsA K ! u) (mk_elementsB K ! u)
                              (m_data (mct_a ctQN ! u)) (a ! u, b)
              in (a[u := au], b))
            [0..<k] (replicate k (replicate n 0), mct_b ctQN)
        in Inr (MKLWECiphertext (map (\<lambda>d. \<lparr> m_modulus = Q, m_data = d \<rparr>) a) b))"

section \<open>Linear operations\<close>

definition mk_EvalAddEq :: "'a::len mklwe_ct \<Rightarrow> 'a mklwe_ct \<Rightarrow> 'a mklwe_ct result" where
  "mk_EvalAddEq ct1 ct2 =
     (let k = length (mct_a ct1) in
      if k = 0 \<or> length (mct_a ct2) < k then Inl undefined_behaviour
      else
        bindR (mapR (\<lambda>u. vec_ModAdd (mct_a ct1 ! u) (mct_a ct2 ! u)) [0..<k]) (\<lambda>a.
        Inr (ct1 \<lparr> mct_a := a, mct_b := ModAddFastEq (mct_b ct1) (mct_b ct2) (m_modulus (a ! 0)) \<rparr>)))"

definition mk_EvalSubEq :: "'a::len mklwe_ct \<Rightarrow> 'a mklwe_ct \<Rightarrow> 'a mklwe_ct result" where
  "mk_EvalSubEq ct1 ct2 =
     (let k = length (mct_a ct1) in
      if k = 0 \<or> length (mct_a ct2) < k then Inl undefined_behaviour
      else
        bindR (mapR (\<lambda>u. vec_ModSub (mct_a ct1 ! u) (mct_a ct2 ! u)) [0..<k]) (\<lambda>a.
        Inr (ct1 \<lparr> mct_a := a, mct_b := ModSubFastEq (mct_b ct1) (mct_b ct2) (m_modulus (a ! 0)) \<rparr>)))"

section \<open>Phases\<close>

abbreviation mk_modulus :: "'a::len nvec list \<Rightarrow> int" where
  "mk_modulus s \<equiv> uint (m_modulus (s ! 0))"

definition mk_valid :: "'a::len nvec list \<Rightarrow> 'a mklwe_ct \<Rightarrow> bool" where
  "mk_valid s ct \<longleftrightarrow> s \<noteq> [] \<and> length (mct_a ct) = length s \<and> residue (m_modulus (s ! 0)) (mct_b ct)
     \<and> (\<forall>u < length s. nvec_ok (s ! u) \<and> nvec_ok (mct_a ct ! u) \<and> same_shape (mct_a ct ! u) (s ! u)
          \<and> m_modulus (s ! 0) = m_modulus (s ! u))"

definition mk_phase :: "'a::len nvec list \<Rightarrow> 'a mklwe_ct \<Rightarrow> int" where
  "mk_phase s ct = uint (mct_b ct) - (\<Sum>u<length s. inner (vals (mct_a ct ! u)) (vals (s ! u)))"

lemma reads_okI:
  assumes "k \<le> length vs" "\<forall>u<k. n \<le> length (m_data (vs ! u))"
  shows "reads_ok k n vs"
  using assms by (auto simp: reads_ok_def in_set_conv_nth)

text \<open>A joint key: \<open>k\<close> well-formed vectors of length \<open>n\<close> over one modulus.\<close>

definition mk_key :: "nat \<Rightarrow> nat \<Rightarrow> 'a::len word \<Rightarrow> (nat \<Rightarrow> 'a nvec) \<Rightarrow> bool" where
  "mk_key k n md s \<longleftrightarrow> (\<forall>u<k. nvec_ok (s u) \<and> m_modulus (s u) = md \<and> length (m_data (s u)) = n)"

lemma mk_key_residues:
  assumes "mk_key k n md s" "u < k"
  shows "\<forall>x \<in> set (m_data (s u)). residue md x" "length (m_data (s u)) = n" "\<forall>i<n. residue md (m_data (s u) ! i)"
  using assms by (auto simp: mk_key_def nvec_ok_def)

text \<open>Switching the modulus of every key gives a joint key.\<close>

lemma mk_key_switch:
  fixes md :: "'a::len word"
  assumes "\<forall>u<k. nvec_ok (sk ! u) \<and> length (m_data (sk ! u)) = n"
    and md: "modulus_ok md" "GetMSB md \<le> MAX_MODULUS_SIZE LENGTH('a)"
  obtains s where "length s = k" "\<forall>u<k. SwitchModulus (sk ! u) md = Inr (s ! u)" "mk_key k n md ((!) s)"
proof -
  have "\<exists>t. SwitchModulus (sk ! u) md = Inr t \<and> nvec_ok t \<and> m_modulus t = md \<and> length (m_data t) = n" if "u < k" for u
  proof -
    have u: "nvec_ok (sk ! u)" "length (m_data (sk ! u)) = n" using assms(1) that by auto
    obtain t where "SwitchModulus (sk ! u) md = Inr t" "nvec_ok t" "m_modulus t = md"
      using SwitchModulus_value [OF u(1) md] .
    then show ?thesis using SwitchModulus_length [of "sk ! u" md t] u by simp
  qed
  then obtain f where f: "\<forall>u<k. SwitchModulus (sk ! u) md = Inr (f u) \<and> nvec_ok (f u) \<and> m_modulus (f u) = md
      \<and> length (m_data (f u)) = n" by metis
  show ?thesis by (rule that [of "map f [0..<k]"]) (use f in \<open>simp_all add: mk_key_def\<close>)
qed

section \<open>The inner products\<close>

lemma mk_encrypt_loop:
  fixes md mu b :: "'a::len word"
  assumes m: "barrett_modulus md" "ComputeMu md = Inr mu"
    and s: "\<forall>u<k. SwitchModulus (sk ! u) md = Inr (s ! u)" "mk_key k n md ((!) s)" and a: "mk_key k n md ((!) a)"
    and fit: "uint b + int k * (int n * uint md) \<le> 2 ^ LENGTH('a)"
  shows "\<exists>b'. foldR (\<lambda>u b. bindR (SwitchModulus (sk ! u) md) (\<lambda>s. bindR (ComputeMu md) (\<lambda>mu.
      Inr (dot_acc md mu (m_data (a ! u)) (m_data s) n b)))) [0..<k] b = Inr b'
    \<and> uint b' \<le> uint b + int k * (int n * uint md)
    \<and> uint b' mod uint md = (uint b + (\<Sum>u<k. inner (vals (a ! u)) (vals (s ! u)))) mod uint md"
  using s a fit
proof (induction k)
  case (Suc k)
  let ?f = "\<lambda>u b. bindR (SwitchModulus (sk ! u) md) (\<lambda>s. bindR (ComputeMu md) (\<lambda>mu.
      Inr (dot_acc md mu (m_data (a ! u)) (m_data s) n b)))"
  define z where "z = int n * uint md"
  have "0 \<le> z" by (simp add: z_def)
  then have fit': "uint b + int k * (int n * uint md) \<le> 2 ^ LENGTH('a)"
    using Suc.prems(4) unfolding z_def [symmetric] by (simp add: distrib_right)
  obtain c where c: "foldR ?f [0..<k] b = Inr c" "uint c \<le> uint b + int k * (int n * uint md)"
    "uint c mod uint md = (uint b + (\<Sum>u<k. inner (vals (a ! u)) (vals (s ! u)))) mod uint md"
    using Suc.IH Suc.prems fit' by (auto simp: mk_key_def)
  note ra = mk_key_residues [OF Suc.prems(3) lessI] and rs = mk_key_residues [OF Suc.prems(2) lessI]
  have fc: "uint c + int n * uint md \<le> 2 ^ LENGTH('a)"
    using c(2) Suc.prems(4) by (simp add: distrib_right)
  define d where "d = dot_acc md mu (m_data (a ! k)) (m_data (s ! k)) n c"
  have "uint d \<le> uint c + int n * uint md" unfolding d_def using ra(3) rs(3) by (intro dot_acc_le m fc) auto
  then have "uint d \<le> uint b + int (Suc k) * (int n * uint md)" using c(2) by (simp add: distrib_right)
  moreover have "uint d mod uint md = (uint c + inner (vals (a ! k)) (vals (s ! k))) mod uint md"
    unfolding d_def vals_def by (rule dot_acc_mod [OF m ra(1) rs(1) ra(2) rs(2) fc])
  moreover have "(uint c + inner (vals (a ! k)) (vals (s ! k))) mod uint md
      = ((uint b + (\<Sum>u<k. inner (vals (a ! u)) (vals (s ! u)))) + inner (vals (a ! k)) (vals (s ! k))) mod uint md"
    by (rule mod_add_cong [OF c(3) refl])
  moreover have "foldR ?f [0..<Suc k] b = Inr d"
    using c(1) Suc.prems(1) m(2) by (simp add: foldR_append d_def)
  ultimately show ?case by (simp add: add.assoc)
qed simp

lemma mk_inner_value:
  fixes md mu :: "'a::len word"
  assumes m: "barrett_modulus md" "ComputeMu md = Inr mu" and k: "k = mp_k params" "n = mp_n params"
    and s: "\<forall>u<k. SwitchModulus (sk ! u) md = Inr (s ! u)" "mk_key k n md ((!) s)"
    and a: "mk_key k n md ((!) (mct_a ct))" and len: "length sk = k" "length (mct_a ct) = k"
    and fit: "(int n + 1) * uint md \<le> 2 ^ LENGTH('a)"
  shows "\<exists>r. mk_inner params sk ct md mu = Inr r
    \<and> uint r = (\<Sum>u<k. inner (vals (mct_a ct ! u)) (vals (s ! u))) mod uint md"
proof -
  let ?f = "\<lambda>u inner. bindR (SwitchModulus (sk ! u) md) (\<lambda>s.
      Inr (ModEq (dot_acc md mu (m_data (mct_a ct ! u)) (m_data s) n inner) md))"
  have pos: "0 < uint md" using barrett_modulus_facts [OF m(1)] by blast
  have "\<exists>r. foldR ?f [0..<j] 0 = Inr r \<and> uint r = (\<Sum>u<j. inner (vals (mct_a ct ! u)) (vals (s ! u))) mod uint md"
    if "j \<le> k" for j
    using that
  proof (induction j)
    case (Suc j)
    then obtain r where r: "foldR ?f [0..<j] 0 = Inr r"
      "uint r = (\<Sum>u<j. inner (vals (mct_a ct ! u)) (vals (s ! u))) mod uint md" by auto
    have j: "j < k" using Suc.prems by simp
    note ra = mk_key_residues [OF a j] and rs = mk_key_residues [OF s(2) j]
    have "uint r < uint md" using r(2) pos by simp
    then have fr: "uint r + int n * uint md \<le> 2 ^ LENGTH('a)" using fit by (simp add: distrib_right)
    note d = dot_acc_mod [OF m ra(1) rs(1) ra(2) rs(2) fr]
    have "foldR ?f [0..<Suc j] 0 = Inr (ModEq (dot_acc md mu (m_data (mct_a ct ! j)) (m_data (s ! j)) n r) md)"
      using r(1) s(1) j by (simp add: foldR_append)
    moreover have "(uint r + inner (vals (mct_a ct ! j)) (vals (s ! j))) mod uint md
        = (\<Sum>u<Suc j. inner (vals (mct_a ct ! u)) (vals (s ! u))) mod uint md"
      unfolding r(2) by (simp add: mod_add_left_eq)
    ultimately show ?case using d by (simp add: ModEq_def uint_mod_eq vals_def)
  qed simp
  moreover have "length (m_data (sk ! u)) = n" if "u < k" for u
    using that s(1) SwitchModulus_length [of "sk ! u" md "s ! u"] mk_key_residues(2) [OF s(2)] by auto
  then have "reads_ok k n sk" "reads_ok k n (mct_a ct)"
    using len mk_key_residues(2) [OF a] by (auto intro!: reads_okI)
  ultimately show ?thesis by (simp add: mk_inner_def k Let_def)
qed

lemma mk_validD:
  assumes "mk_valid s ct"
  shows "length (mct_a ct) = length s" "residue (m_modulus (s ! 0)) (mct_b ct)" "mct_modulus ct = m_modulus (s ! 0)"
    "mct_a ct \<noteq> []" "u < length s \<Longrightarrow> nvec_ok (mct_a ct ! u)"
    "u < length s \<Longrightarrow> m_modulus (mct_a ct ! u) = m_modulus (s ! 0)"
    "u < length s \<Longrightarrow> length (m_data (mct_a ct ! u)) = length (m_data (s ! u))"
    "0 < mk_modulus s" "modulus_ok (m_modulus (s ! 0))"
proof -
  have "0 < length s" using assms by (auto simp: mk_valid_def)
  then show "length (mct_a ct) = length s" "residue (m_modulus (s ! 0)) (mct_b ct)" "mct_modulus ct = m_modulus (s ! 0)"
    "mct_a ct \<noteq> []" "u < length s \<Longrightarrow> nvec_ok (mct_a ct ! u)"
    "u < length s \<Longrightarrow> m_modulus (mct_a ct ! u) = m_modulus (s ! 0)"
    "u < length s \<Longrightarrow> length (m_data (mct_a ct ! u)) = length (m_data (s ! u))"
    "0 < mk_modulus s" "modulus_ok (m_modulus (s ! 0))"
    using assms by (auto simp: mk_valid_def same_shape_def nvec_ok_def modulus_ok_def)
qed

lemma mk_valid_masks:
  assumes "mk_valid s ct" "mk_key (length s) n md ((!) s)"
  shows "mk_key (length s) n md ((!) (mct_a ct))" "m_modulus (s ! 0) = md"
proof -
  have "0 < length s" using assms(1) by (auto simp: mk_valid_def)
  then show "m_modulus (s ! 0) = md" using assms(2) by (auto simp: mk_key_def)
  then show "mk_key (length s) n md ((!) (mct_a ct))"
    using assms mk_validD(5-7) [OF assms(1)] by (auto simp: mk_key_def)
qed

lemma mk_Encrypt_value:
  fixes md :: "'a::len word" and params :: "'a mklwe_params"
  defines "k \<equiv> mp_k params" and "n \<equiv> mp_n params"
  assumes sk: "\<forall>u<k. SwitchModulus (sk ! u) md = Inr (s ! u)" "mk_key k n md ((!) s)"
    and len: "length sk = k" "length s = k" "0 < k" and bm: "barrett_modulus md" and pt: "pt_ok p md"
    and e: "residue md e" and a: "mk_key k n md dgg"
    and fit: "(int k * int n + 2) * uint md \<le> 2 ^ LENGTH('a)"
  obtains ct where "mk_Encrypt params sk m p md e dgg = Inr ct" "mk_valid s ct"
    "mk_phase s ct mod uint md = (uint (m mod p) * (uint md div uint p) + uint e) mod uint md"
proof -
  note f = pt_ok_facts [OF pt] and mu = ComputeMu_mu_of [OF bm]
  have pos: "0 < uint md" using barrett_modulus_facts [OF bm] by blast
  define A where "A = map dgg [0..<k]"
  have A: "mk_key k n md ((!) A)" "length A = k" using a by (simp_all add: mk_key_def A_def)
  obtain d where d: "scaled_message m p md = Inr d" "uint d = uint (m mod p) * (uint md div uint p)" "residue md d"
    using scaled_message_value [OF pt] .
  have de: "uint (AddFast d e) = uint d + uint e"
    using barrett_modulus_facts(5) [OF bm] d(3) e unfolding residue_def AddFast_def
    by (subst uint_add_exact) simp_all
  have "uint (AddFast d e) + int k * (int n * uint md) \<le> 2 ^ LENGTH('a)"
    using fit d(3) e unfolding de residue_def by (simp add: algebra_simps)
  from mk_encrypt_loop [OF bm mu sk A(1) this] obtain b where
    b: "foldR (\<lambda>u b. bindR (SwitchModulus (sk ! u) md) (\<lambda>s. bindR (ComputeMu md) (\<lambda>mu.
      Inr (dot_acc md mu (m_data (A ! u)) (m_data s) n b)))) [0..<k] (AddFast d e) = Inr b"
    "uint b mod uint md = (uint d + uint e + (\<Sum>u<k. inner (vals (A ! u)) (vals (s ! u)))) mod uint md"
    unfolding de by blast
  define ct where "ct = mk_SetptModulus (MKLWECiphertext A (Mod b md)) (ucast p)"
  have cf: "mct_a ct = A" "mct_b ct = b mod md"
    by (simp_all add: ct_def mk_SetptModulus_def MKLWECiphertext_def Mod_def)
  have "length (m_data (sk ! u)) = n" if "u < k" for u
    using that sk SwitchModulus_length [of "sk ! u" md "s ! u"] by (auto simp: mk_key_def)
  then have "reads_ok k n sk" "reads_ok k n A"
    using len A mk_key_residues(2) [OF A(1)] by (auto intro!: reads_okI)
  then have "mk_Encrypt params sk m p md e dgg = Inr ct"
    using f d(1) b(1) by (simp add: mk_Encrypt_def Let_def k_def [symmetric] n_def [symmetric] A_def [symmetric] ct_def)
  moreover have "mk_valid s ct"
    using A len sk(2) pos
    by (auto simp: mk_valid_def cf mk_key_def same_shape_def residue_def uint_mod_eq)
  moreover have "mk_phase s ct mod uint md = (uint d + uint e) mod uint md"
    unfolding mk_phase_def cf uint_mod_eq b(2) len(2) by (simp add: mod_diff_left_eq)
  ultimately show ?thesis using that d(2) by simp
qed

lemma mk_Decrypt_value:
  fixes md :: "'a::len word" and params :: "'a mklwe_params"
  defines "k \<equiv> mp_k params" and "n \<equiv> mp_n params"
  assumes v: "mk_valid s ct" and sk: "\<forall>u<k. SwitchModulus (sk ! u) md = Inr (s ! u)" "mk_key k n md ((!) s)"
    and len: "length sk = k" "length s = k" and bm: "barrett_modulus md" and pt: "pt_ok p md"
    and fit: "(int n + 1) * uint md \<le> 2 ^ LENGTH('a)"
  shows "mk_Decrypt params sk ct p = Inr (word_of_int (decode (uint md) (uint p) (mk_phase s ct)))"
proof -
  note f = pt_ok_facts [OF pt] and mu = ComputeMu_mu_of [OF bm]
  note V = mk_validD [OF v] and A = mk_valid_masks [OF v, unfolded len, OF sk(2)]
  have P: "0 < uint p" "2 * uint p \<le> uint md" "uint p * uint md \<le> 2 ^ LENGTH('a)" "uint p < 2 ^ 64"
    using pt by (simp_all add: pt_ok_def)
  have pos: "0 < uint md" using barrett_modulus_facts [OF bm] by blast
  obtain i where i: "mk_inner params sk ct md (mu_of md) = Inr i"
    "uint i = (\<Sum>u<k. inner (vals (mct_a ct ! u)) (vals (s ! u))) mod uint md"
    using mk_inner_value [OF bm mu _ _ sk A(1) len(1)] V(1) len fit by (auto simp: k_def n_def)
  have r: "uint (ModSubFastEq (mct_b ct) i md) = mk_phase s ct mod uint md"
    unfolding in_place_variants using V(2) residue_uint_mod [OF i(2) pos]
    by (subst uint_ModSubFast) (simp_all add: A(2) i(2) mk_phase_def len mod_diff_right_eq)
  have "mk_Decrypt params sk ct p = decrypt_round md (ucast p) (ucast (p * 2)) (ModSubFastEq (mct_b ct) i md)"
    using f(4) mu i(1) V(3,4) by (simp add: mk_Decrypt_def Let_def A(2))
  with decrypt_round_value(1) [OF barrett_modulus_ok [OF bm] r f(1) P f(2)] show ?thesis by simp
qed

section \<open>The scheme is linear\<close>

lemma mk_lift:
  assumes v: "mk_valid s x" "mk_valid s y" and F: "F = (+) \<or> F = (-)"
    and op: "\<And>u. u < length s \<Longrightarrow> op (mct_a x ! u) (mct_a y ! u) = Inr (a u) \<and> nvec_ok (a u)
        \<and> m_modulus (a u) = m_modulus (mct_a x ! u)
        \<and> vals (a u) = map2 (\<lambda>v w. F v w mod uint (m_modulus (mct_a x ! u))) (vals (mct_a x ! u)) (vals (mct_a y ! u))"
    and b: "uint b = F (uint (mct_b x)) (uint (mct_b y)) mod mk_modulus s"
  defines "z \<equiv> x \<lparr> mct_a := map a [0..<length s], mct_b := b \<rparr>"
  shows "mapR (\<lambda>u. op (mct_a x ! u) (mct_a y ! u)) [0..<length s] = Inr (map a [0..<length s])"
    "mk_valid s z" "mk_phase s z mod mk_modulus s = F (mk_phase s x) (mk_phase s y) mod mk_modulus s"
proof -
  note X = mk_validD [OF v(1)] and Y = mk_validD [OF v(2)]
  show "mapR (\<lambda>u. op (mct_a x ! u) (mct_a y ! u)) [0..<length s] = Inr (map a [0..<length s])"
    using op by (intro mapR_Inr) auto
  have len: "length (m_data (a u)) = length (m_data (s ! u))" if "u < length s" for u
  proof -
    have "length (vals (a u)) = length (m_data (s ! u))" using op [OF that] X(7) Y(7) that by simp
    then show ?thesis by simp
  qed
  show "mk_valid s z"
    using v op len X(6,8) b by (auto simp: mk_valid_def z_def same_shape_def residue_def)
  have i: "inner (vals (a u)) (vals (s ! u)) mod mk_modulus s
      = F (inner (vals (mct_a x ! u)) (vals (s ! u))) (inner (vals (mct_a y ! u)) (vals (s ! u))) mod mk_modulus s"
    if "u < length s" for u
  proof -
    have l: "length (vals (mct_a x ! u)) = length (vals (mct_a y ! u))" using X(7) Y(7) that by simp
    show ?thesis using F inner_add_mod [OF l] inner_sub_mod [OF l] op [OF that] X(6) [OF that] by auto
  qed
  have "(\<Sum>u<length s. inner (vals (a u)) (vals (s ! u))) mod mk_modulus s
      = (\<Sum>u<length s. F (inner (vals (mct_a x ! u)) (vals (s ! u))) (inner (vals (mct_a y ! u)) (vals (s ! u)))) mod mk_modulus s"
    using i by (rule sum_mod_cong)
  then have "mk_phase s z mod mk_modulus s = (F (uint (mct_b x)) (uint (mct_b y))
      - (\<Sum>u<length s. F (inner (vals (mct_a x ! u)) (vals (s ! u))) (inner (vals (mct_a y ! u)) (vals (s ! u))))) mod mk_modulus s"
    unfolding mk_phase_def using b by (intro mod_diff_cong) (simp_all add: z_def)
  also have "\<dots> = F (mk_phase s x) (mk_phase s y) mod mk_modulus s"
    using F by (auto simp: mk_phase_def sum.distrib sum_subtractf algebra_simps)
  finally show "mk_phase s z mod mk_modulus s = F (mk_phase s x) (mk_phase s y) mod mk_modulus s" .
qed

lemma mk_shapes:
  assumes "mk_valid s x" "mk_valid s y" "u < length s"
  shows "nvec_ok (mct_a x ! u)" "nvec_ok (mct_a y ! u)" "same_shape (mct_a x ! u) (mct_a y ! u)"
  using mk_validD [OF assms(1)] mk_validD [OF assms(2)] assms(3) by (simp_all add: same_shape_def)

lemma mk_EvalAddEq_phase:
  assumes v: "mk_valid s x" "mk_valid s y"
  shows "\<exists>z. mk_EvalAddEq x y = Inr z \<and> mk_valid s z
    \<and> mk_phase s z mod mk_modulus s = (mk_phase s x + mk_phase s y) mod mk_modulus s"
proof -
  note X = mk_validD [OF v(1)] and Y = mk_validD [OF v(2)]
  have "\<exists>c. vec_ModAdd (mct_a x ! u) (mct_a y ! u) = Inr c \<and> nvec_ok c \<and> m_modulus c = m_modulus (mct_a x ! u)
      \<and> vals c = map2 (\<lambda>v w. (v + w) mod uint (m_modulus (mct_a x ! u))) (vals (mct_a x ! u)) (vals (mct_a y ! u))"
    if "u < length s" for u
    using vec_ModAdd_value [OF mk_shapes [OF v that]] by metis
  then obtain a where a: "\<And>u. u < length s \<Longrightarrow> vec_ModAdd (mct_a x ! u) (mct_a y ! u) = Inr (a u) \<and> nvec_ok (a u)
      \<and> m_modulus (a u) = m_modulus (mct_a x ! u)
      \<and> vals (a u) = map2 (\<lambda>v w. (v + w) mod uint (m_modulus (mct_a x ! u))) (vals (mct_a x ! u)) (vals (mct_a y ! u))"
    by metis
  have s0: "0 < length s" using v by (auto simp: mk_valid_def)
  have m0: "m_modulus (map a [0..<length s] ! 0) = m_modulus (s ! 0)" using a s0 X(3) by simp
  have b: "uint (ModAddFastEq (mct_b x) (mct_b y) (m_modulus (s ! 0))) = (uint (mct_b x) + uint (mct_b y)) mod mk_modulus s"
    unfolding in_place_variants using X(2,9) Y(2) by (intro uint_ModAddFast)
  from mk_lift [OF v disjI1 [OF refl] a b] show ?thesis
    using X(1) Y(1) s0 m0 by (auto simp: mk_EvalAddEq_def Let_def)
qed

lemma mk_EvalSubEq_phase:
  assumes v: "mk_valid s x" "mk_valid s y"
  shows "\<exists>z. mk_EvalSubEq x y = Inr z \<and> mk_valid s z
    \<and> mk_phase s z mod mk_modulus s = (mk_phase s x - mk_phase s y) mod mk_modulus s"
proof -
  note X = mk_validD [OF v(1)] and Y = mk_validD [OF v(2)]
  have "\<exists>c. vec_ModSub (mct_a x ! u) (mct_a y ! u) = Inr c \<and> nvec_ok c \<and> m_modulus c = m_modulus (mct_a x ! u)
      \<and> vals c = map2 (\<lambda>v w. (v - w) mod uint (m_modulus (mct_a x ! u))) (vals (mct_a x ! u)) (vals (mct_a y ! u))"
    if "u < length s" for u
    using vec_ModSub_value [OF mk_shapes [OF v that]] by metis
  then obtain a where a: "\<And>u. u < length s \<Longrightarrow> vec_ModSub (mct_a x ! u) (mct_a y ! u) = Inr (a u) \<and> nvec_ok (a u)
      \<and> m_modulus (a u) = m_modulus (mct_a x ! u)
      \<and> vals (a u) = map2 (\<lambda>v w. (v - w) mod uint (m_modulus (mct_a x ! u))) (vals (mct_a x ! u)) (vals (mct_a y ! u))"
    by metis
  have s0: "0 < length s" using v by (auto simp: mk_valid_def)
  have m0: "m_modulus (map a [0..<length s] ! 0) = m_modulus (s ! 0)" using a s0 X(3) by simp
  have b: "uint (ModSubFastEq (mct_b x) (mct_b y) (m_modulus (s ! 0))) = (uint (mct_b x) - uint (mct_b y)) mod mk_modulus s"
    unfolding in_place_variants using X(2) Y(2) by (intro uint_ModSubFast)
  from mk_lift [OF v disjI2 [OF refl] a b] show ?thesis
    using X(1) Y(1) s0 m0 by (auto simp: mk_EvalSubEq_def Let_def)
qed

interpretation mklwe: linear_scheme mk_modulus mk_valid mk_phase mk_EvalAddEq mk_EvalSubEq
proof
  fix s :: "'a::len nvec list" and x y :: "'a mklwe_ct"
  show "mk_valid s x \<Longrightarrow> 0 < mk_modulus s" by (rule mk_validD(8))
qed (rule mk_EvalAddEq_phase mk_EvalSubEq_phase; assumption)+

section \<open>Modulus switching\<close>

lemma mk_ModSwitch_value:
  fixes ct :: "'a::len mklwe_ct"
  assumes ok: "round_ok q (mct_modulus ct)" and v: "mk_valid s ct"
    and len: "\<forall>u<length s. length (m_data (s ! u)) = n"
  obtains z where "mk_ModSwitch q ct = Inr z" "length (mct_a z) = length s"
    "\<forall>u<length s. m_modulus (mct_a z ! u) = q \<and> vals (mct_a z ! u)
        = map (\<lambda>x. scale_round x (uint q) (mk_modulus s) mod uint q) (vals (mct_a ct ! u))"
    "uint (mct_b z) = scale_round (uint (mct_b ct)) (uint q) (mk_modulus s) mod uint q"
proof -
  note V = mk_validD [OF v]
  have r: "uint x < mk_modulus s" if "u < length s" "x \<in> set (m_data (mct_a ct ! u))" for u x
    using V(5) [OF that(1)] V(6) [OF that(1)] that(2) by (auto simp: nvec_ok_def residue_def)
  have s0: "0 < length s" using v by (auto simp: mk_valid_def)
  have L: "length (m_data (mct_a ct ! u)) = n" if "u < length s" for u using V(7) len that by simp
  define z where "z = MKLWECiphertext
    (map (\<lambda>u. \<lparr> m_modulus = q, m_data = map (\<lambda>i. RoundqQ (m_data (mct_a ct ! u) ! i) q (m_modulus (s ! 0))) [0..<n] \<rparr>) [0..<length s])
    (RoundqQ (mct_b ct) q (m_modulus (s ! 0)))"
  have "reads_ok (length s) n (mct_a ct)" using V(1) L by (auto intro!: reads_okI)
  then have "mk_ModSwitch q ct = Inr z"
    using V(1,3,4) L [OF s0] by (simp add: mk_ModSwitch_def Let_def z_def)
  moreover have "vals (mct_a z ! u) = map (\<lambda>x. scale_round x (uint q) (mk_modulus s) mod uint q) (vals (mct_a ct ! u))"
    if "u < length s" for u
    using that L [OF that] r [OF that] ok V(3)
    by (intro nth_equalityI) (simp_all add: z_def MKLWECiphertext_def vals_def uint_RoundqQ)
  moreover have "uint (mct_b z) = scale_round (uint (mct_b ct)) (uint q) (mk_modulus s) mod uint q"
    using V(2,3) ok by (simp add: z_def MKLWECiphertext_def uint_RoundqQ residue_def)
  ultimately show ?thesis by (intro that [of z]) (simp_all add: z_def MKLWECiphertext_def)
qed

section \<open>Key switching\<close>

definition mks_inv :: "'a::len word \<Rightarrow> nat \<Rightarrow> nat \<Rightarrow> 'a word list list \<times> 'a word \<Rightarrow> bool" where
  "mks_inv Q k n ab \<longleftrightarrow> length (fst ab) = k \<and> (\<forall>u<k. ks_inv Q n (fst ab ! u, snd ab)) \<and> residue Q (snd ab)"

definition mks_phase :: "nat \<Rightarrow> 'a::len nvec list \<Rightarrow> 'a word list list \<times> 'a word \<Rightarrow> int" where
  "mks_phase k sv ab = uint (snd ab) - (\<Sum>u<k. inner (map uint (fst ab ! u)) (vals (sv ! u)))"

text \<open>Replacing the mask and the body of one party changes the joint phase as it changes the party's.\<close>

lemma mks_step:
  assumes st: "mks_inv Q k n (a, b)" and u: "u < k" and new: "ks_inv Q n (au, b')"
    and ph: "ks_phase (m_data (sv ! u)) (au, b') mod q = (ks_phase (m_data (sv ! u)) (a ! u, b) - c) mod q"
  shows "mks_inv Q k n (a[u := au], b')"
    "mks_phase k sv (a[u := au], b') mod q = (mks_phase k sv (a, b) - c) mod q"
proof -
  have L: "length a = k" using st by (simp add: mks_inv_def)
  show "mks_inv Q k n (a[u := au], b')"
    using st new u by (auto simp: mks_inv_def ks_inv_def nth_list_update)
  define rest where "rest = (\<Sum>w\<in>{..<k} - {u}. inner (map uint (a ! w)) (vals (sv ! w)))"
  have split: "(\<Sum>w<k. inner (map uint (x ! w)) (vals (sv ! w))) = inner (map uint (x ! u)) (vals (sv ! u)) + rest"
    if "\<forall>w. w \<noteq> u \<longrightarrow> x ! w = a ! w" for x
    unfolding rest_def using u that by (subst sum.remove [of _ u]) (auto intro!: sum.cong)
  have "mks_phase k sv (a[u := au], b') = ks_phase (m_data (sv ! u)) (au, b') - rest"
    unfolding mks_phase_def using u L split [of "a[u := au]"] by (simp add: ks_phase_def vals_def)
  moreover have "mks_phase k sv (a, b) = ks_phase (m_data (sv ! u)) (a ! u, b) - rest"
    unfolding mks_phase_def using split [of a] by (simp add: ks_phase_def vals_def)
  moreover have "(ks_phase (m_data (sv ! u)) (au, b') - rest) mod q
      = (ks_phase (m_data (sv ! u)) (a ! u, b) - c - rest) mod q" using ph by (rule mod_diff_cong) simp
  ultimately show "mks_phase k sv (a[u := au], b') mod q = (mks_phase k sv (a, b) - c) mod q"
    by (simp only: diff_diff_eq add.commute)
qed

lemma mk_ks_fold:
  fixes Q :: "'a::len word"
  assumes q: "0 < uint Q" and base: "1 < base" and dc: "unat Q \<le> base ^ dc"
    and ksk: "\<And>u. u < k \<Longrightarrow> ksk_ok Q n N base dc (m_data (sv ! u)) (svN u) (noise u) (elA ! u) (elB ! u)"
    and co: "\<And>u. u < k \<Longrightarrow> \<forall>i<N. residue Q (co u ! i)" and st: "mks_inv Q k n ab"
  defines "f \<equiv> \<lambda>u (a, b). let (au, b) = ks_loop Q n N base dc (elA ! u) (elB ! u) (co u) (a ! u, b) in (a[u := au], b)"
  shows "mks_inv Q k n (fold f [0..<k] ab)"
    "mks_phase k sv (fold f [0..<k] ab) mod uint Q = (mks_phase k sv ab - (\<Sum>u<k. (\<Sum>i<N. uint (svN u ! i) * uint (co u ! i))
        + (\<Sum>i<N. \<Sum>j<dc. noise u i (ks_digits base dc (unat (co u ! i)) ! j) j))) mod uint Q"
proof -
  define c where "c = (\<lambda>u. (\<Sum>i<N. uint (svN u ! i) * uint (co u ! i))
        + (\<Sum>i<N. \<Sum>j<dc. noise u i (ks_digits base dc (unat (co u ! i)) ! j) j))"
  have one: "mks_inv Q k n (f u s) \<and> mks_phase k sv (f u s) mod uint Q = (mks_phase k sv s - c u) mod uint Q"
    if u: "u < k" and s: "mks_inv Q k n s" for u s
  proof -
    obtain a b where ab: "s = (a, b)" by fastforce
    obtain au b' where L: "ks_loop Q n N base dc (elA ! u) (elB ! u) (co u) (a ! u, b) = (au, b')" by fastforce
    have iv: "ks_inv Q n (a ! u, b)" using s u by (simp add: mks_inv_def ab)
    note ks = ks_loop_phase [OF q base dc ksk [OF u] iv co [OF u], unfolded L]
    have fs: "f u s = (a[u := au], b')" by (simp add: f_def ab L)
    show ?thesis unfolding fs
      using mks_step [OF s [unfolded ab] u ks(1), of sv "uint Q" "c u"] ks(2)
      by (simp add: ab c_def diff_diff_eq)
  qed
  note F = fold_lowers [of "mks_inv Q k n" ab k f "mks_phase k sv" "uint Q" c, OF st one]
  show "mks_inv Q k n (fold f [0..<k] ab)" by (rule F(1))
  show "mks_phase k sv (fold f [0..<k] ab) mod uint Q = (mks_phase k sv ab - (\<Sum>u<k. (\<Sum>i<N. uint (svN u ! i) * uint (co u ! i))
        + (\<Sum>i<N. \<Sum>j<dc. noise u i (ks_digits base dc (unat (co u ! i)) ! j) j))) mod uint Q"
    using F(2) by (simp only: c_def)
qed

text \<open>
  What the callers guarantee for a key switch: keys of residues of the dimensions of the parameters,
  masks from the generator, digits and sums that fit a word.
\<close>

definition mk_ks_inputs_ok :: "'a::len mklwe_params \<Rightarrow> 'a nvec list \<Rightarrow> 'a nvec list \<Rightarrow> bool" where
  "mk_ks_inputs_ok params sv svN \<longleftrightarrow>
     barrett_modulus (mp_qKS params) \<and> 1 < mp_baseKS params
     \<and> int (mp_baseKS params) ^ digitCount (mp_qKS params) (mp_baseKS params) \<le> 2 ^ LENGTH('a)
     \<and> (LENGTH('a) = 32 \<or> (int (mp_n params) + 1) * uint (mp_qKS params) \<le> 2 ^ LENGTH('a))
     \<and> length sv = mp_k params \<and> length svN = mp_k params
     \<and> mk_key (mp_k params) (mp_n params) (mp_qKS params) ((!) sv)
     \<and> mk_key (mp_k params) (mp_N params) (mp_qKS params) ((!) svN)"

definition mk_ks_noise ::
  "'a::len mklwe_params \<Rightarrow> (nat \<Rightarrow> nat \<Rightarrow> nat \<Rightarrow> nat \<Rightarrow> 'a word) \<Rightarrow> 'a mklwe_ct \<Rightarrow> int" where
  "mk_ks_noise params genE ct =
     (let dc = digitCount (mp_qKS params) (mp_baseKS params) in
      \<Sum>u<mp_k params. \<Sum>i<mp_N params. \<Sum>j<dc.
        uint (genE u i (ks_digits (mp_baseKS params) dc (unat (m_data (mct_a ct ! u) ! i)) ! j) j))"

lemma mk_KeySwitchGen_value:
  fixes params :: "'a::len mklwe_params"
  defines "k \<equiv> mp_k params" and "n \<equiv> mp_n params" and "N \<equiv> mp_N params" and "Q \<equiv> mp_qKS params"
    and "base \<equiv> mp_baseKS params" and "dc \<equiv> digitCount (mp_qKS params) (mp_baseKS params)"
  assumes ok: "mk_ks_inputs_ok params sv svN" and len: "length sk = k" "length skN = k"
    and sv: "\<forall>u<k. SwitchModulus (sk ! u) Q = Inr (sv ! u)" and svN: "\<forall>u<k. SwitchModulus (skN ! u) Q = Inr (svN ! u)"
    and gA: "\<And>u i j k. nvec_ok (genA u i j k) \<and> m_modulus (genA u i j k) = Q \<and> length (m_data (genA u i j k)) = n"
  obtains K where "mk_KeySwitchGen params sk skN genA genE = Inr K"
    "length (mk_elementsA K) = k" "length (mk_elementsB K) = k"
    "\<forall>u<k. ksk_ok Q n N base dc (m_data (sv ! u)) (m_data (svN ! u)) (\<lambda>i j l. uint (genE u i j l))
       (mk_elementsA K ! u) (mk_elementsB K ! u)"
proof -
  have bm: "barrett_modulus Q" and ks: "mk_key k n Q ((!) sv)" "mk_key k N Q ((!) svN)"
    and pow: "int base ^ dc \<le> 2 ^ LENGTH('a)"
    and fit: "LENGTH('a) = 32 \<or> (int n + 1) * uint Q \<le> 2 ^ LENGTH('a)"
    using ok unfolding mk_ks_inputs_ok_def k_def n_def N_def Q_def base_def dc_def by blast+
  note mu = ComputeMu_mu_of [OF bm]
  define digits :: "'a word list" where "digits = digitsKS (of_nat base) dc 1"
  define row where "row = (\<lambda>u. (ksk_masks N base dc (genA u),
    ksk_bodies Q (mu_of Q) n N base dc digits (m_data (sv ! u)) (m_data (svN ! u)) (genA u) (genE u)))"
  have lk: "length (m_data (sk ! u)) = n" "length (m_data (skN ! u)) = N" if "u < k" for u
    using that sv svN SwitchModulus_length mk_key_residues(2) [OF ks(1) that] mk_key_residues(2) [OF ks(2) that]
    by metis+
  then have "reads_ok k n sk" "reads_ok k N skN" using len by (auto intro!: reads_okI)
  moreover have "mapR (\<lambda>u. bindR (SwitchModulus (sk ! u) Q) (\<lambda>sv. bindR (SwitchModulus (skN ! u) Q) (\<lambda>svN.
      bindR (ComputeMu Q) (\<lambda>mu. Inr (ksk_masks N base dc (genA u),
        ksk_bodies Q mu n N base dc digits (m_data sv) (m_data svN) (genA u) (genE u)))))) [0..<k]
      = Inr (map row [0..<k])"
    using sv svN mu by (intro mapR_Inr) (simp add: row_def)
  ultimately have gen: "mk_KeySwitchGen params sk skN genA genE
      = Inr \<lparr> mk_elementsA = map fst (map row [0..<k]), mk_elementsB = map snd (map row [0..<k]) \<rparr>"
    unfolding mk_KeySwitchGen_def Let_def
    by (simp add: k_def [symmetric] n_def [symmetric] N_def [symmetric] Q_def [symmetric] base_def [symmetric]
        dc_def [symmetric, folded Q_def base_def] digits_def [symmetric] del: map_map)
  show ?thesis
  proof (rule that [OF gen], simp_all only: length_map length_upt diff_zero mklwe_ksk.simps, intro allI impI)
    fix u assume u: "u < k"
    have g: "length (m_data (genA u i j l)) = n \<and> (\<forall>x \<in> set (m_data (genA u i j l)). residue Q x)" for i j l
      using gA [of u i j l] by (auto simp: nvec_ok_def)
    have "ksk_ok Q n N base dc (m_data (sv ! u)) (m_data (svN ! u)) (\<lambda>i j l. uint (genE u i j l)) (fst (row u)) (snd (row u))"
      unfolding row_def fst_conv snd_conv digits_def
      by (rule ksk_gen_ok [OF bm mu mk_key_residues(1,2) [OF ks(1) u] g fit pow])
    then show "ksk_ok Q n N base dc (m_data (sv ! u)) (m_data (svN ! u)) (\<lambda>i j l. uint (genE u i j l))
       (map fst (map row [0..<k]) ! u) (map snd (map row [0..<k]) ! u)"
      using u by simp
  qed
qed

lemma mk_KeySwitch_value:
  fixes params :: "'a::len mklwe_params"
  defines "k \<equiv> mp_k params" and "n \<equiv> mp_n params" and "N \<equiv> mp_N params" and "Q \<equiv> mp_qKS params"
    and "base \<equiv> mp_baseKS params" and "dc \<equiv> digitCount (mp_qKS params) (mp_baseKS params)"
  assumes ok: "mk_ks_inputs_ok params sv svN" and v: "mk_valid svN ct"
    and K: "length (mk_elementsA K) = k" "length (mk_elementsB K) = k"
      "\<forall>u<k. ksk_ok Q n N base dc (m_data (sv ! u)) (m_data (svN ! u)) (\<lambda>i j l. uint (genE u i j l))
         (mk_elementsA K ! u) (mk_elementsB K ! u)"
  obtains z where "mk_KeySwitch params K ct = Inr z" "mk_valid sv z"
    "mk_phase sv z mod uint Q = (mk_phase svN ct - mk_ks_noise params genE ct) mod uint Q"
proof -
  note D = k_def n_def N_def Q_def base_def dc_def
  have bm: "barrett_modulus Q" and base: "1 < base" and ks: "mk_key k n Q ((!) sv)" "mk_key k N Q ((!) svN)"
    and len: "length sv = k" "length svN = k"
    using ok unfolding mk_ks_inputs_ok_def D by blast+
  have q: "0 < uint Q" "modulus_ok Q" using bm barrett_modulus_facts(2) by auto
  note V = mk_validD [OF v, unfolded len] and M = mk_valid_masks [OF v, unfolded len, OF ks(2)]
  have k0: "0 < k" using v len by (auto simp: mk_valid_def)
  define co where "co = (\<lambda>u. m_data (mct_a ct ! u))"
  have co: "\<forall>i<N. residue Q (co u ! i)" "length (co u) = N" if "u < k" for u
    using mk_key_residues(2,3) [OF M(1) that] by (simp_all add: co_def)
  define f where "f = (\<lambda>u (a, b). let (au, b) = ks_loop Q n N base dc (mk_elementsA K ! u) (mk_elementsB K ! u) (co u) (a ! u, b)
    in (a[u := au], b))"
  define ab0 where "ab0 = (replicate k (replicate n (0 :: 'a word)), mct_b ct)"
  have st: "mks_inv Q k n ab0"
    using V(2) q by (simp add: ab0_def mks_inv_def ks_inv_def M(2) residue_def)
  have dcr: "unat Q \<le> base ^ dc" unfolding D using base [unfolded D] by (rule digitCount_reaches)
  note F = mk_ks_fold [where co = co, OF q(1) base dcr K(3) [rule_format] co(1) st, folded f_def]
  obtain a b where ab: "fold f [0..<k] ab0 = (a, b)" by fastforce
  define z where "z = MKLWECiphertext (map (\<lambda>d. \<lparr> m_modulus = Q, m_data = d \<rparr>) a) b"
  have "reads_ok k N (mct_a ct)" using V(1) co(2) by (auto intro!: reads_okI simp: co_def)
  then have run: "mk_KeySwitch params K ct = Inr z"
    using K(1,2) ab unfolding mk_KeySwitch_def Let_def f_def ab0_def z_def co_def D by simp
  have A: "length a = k" "\<forall>u<k. length (a ! u) = n \<and> (\<forall>x \<in> set (a ! u). residue Q x)" "residue Q b"
    using F(1) unfolding ab by (auto simp: mks_inv_def ks_inv_def)
  have zf: "mct_b z = b" "mct_a z = map (\<lambda>d. \<lparr> m_modulus = Q, m_data = d \<rparr>) a" by (simp_all add: z_def MKLWECiphertext_def)
  have "mk_valid sv z"
    using A ks(1) len k0 q by (auto simp: mk_valid_def zf mk_key_def same_shape_def nvec_ok_def)
  moreover have "mk_phase sv z = mks_phase k sv (a, b)"
    using A(1) len by (simp add: mk_phase_def mks_phase_def zf vals_def)
  moreover have "mks_phase k sv ab0 - (\<Sum>u<k. (\<Sum>i<N. uint (m_data (svN ! u) ! i) * uint (co u ! i))
        + (\<Sum>i<N. \<Sum>j<dc. uint (genE u i (ks_digits base dc (unat (co u ! i)) ! j) j)))
      = mk_phase svN ct - mk_ks_noise params genE ct"
  proof -
    have "(\<Sum>i<N. uint (m_data (svN ! u) ! i) * uint (co u ! i)) = inner (vals (mct_a ct ! u)) (vals (svN ! u))"
      if "u < k" for u
      using co(2) [OF that] mk_key_residues(2) [OF ks(2) that]
      by (simp add: inner_as_sum vals_def co_def mult.commute)
    then show ?thesis
      by (simp add: mks_phase_def ab0_def mk_phase_def mk_ks_noise_def len sum.distrib co_def D Let_def)
  qed
  ultimately show ?thesis using that [OF run] F(2) unfolding ab by simp
qed

section \<open>Properties\<close>

definition mk_inputs_ok ::
  "'a::len mklwe_params \<Rightarrow> 'a nvec list \<Rightarrow> 64 word \<Rightarrow> 'a word \<Rightarrow> 'a word \<Rightarrow> (nat \<Rightarrow> 'a nvec) \<Rightarrow> bool" where
  "mk_inputs_ok params sk p md e dgg \<longleftrightarrow>
     0 < mp_k params \<and> length sk = mp_k params \<and> barrett_modulus md \<and> GetMSB md \<le> MAX_MODULUS_SIZE LENGTH('a)
     \<and> pt_ok p md \<and> residue md e
     \<and> (\<forall>u<mp_k params. nvec_ok (sk ! u) \<and> length (m_data (sk ! u)) = mp_n params)
     \<and> mk_key (mp_k params) (mp_n params) md dgg
     \<and> (int (mp_k params) * int (mp_n params) + 2) * uint md \<le> 2 ^ LENGTH('a)"

lemma mk_inputs_key:
  fixes md :: "'a::len word"
  assumes "mk_inputs_ok params sk p md e dgg"
  obtains s where "length s = mp_k params" "\<forall>u<mp_k params. SwitchModulus (sk ! u) md = Inr (s ! u)"
    "mk_key (mp_k params) (mp_n params) md ((!) s)"
  using mk_key_switch [of "mp_k params" sk "mp_n params" md] assms
  unfolding mk_inputs_ok_def by (metis barrett_modulus_ok)

lemma mk_inputs_encrypt:
  fixes md :: "'a::len word"
  assumes ok: "mk_inputs_ok params sk p md e dgg" and s: "length s = mp_k params"
    "\<forall>u<mp_k params. SwitchModulus (sk ! u) md = Inr (s ! u)" "mk_key (mp_k params) (mp_n params) md ((!) s)"
  obtains ct where "mk_Encrypt params sk m p md e dgg = Inr ct"
    "mklwe.encodes s (uint p) ct (uint (m mod p)) (centered (uint md) (uint e))"
proof -
  have a: "0 < mp_k params" "length sk = mp_k params" "barrett_modulus md" "pt_ok p md" "residue md e"
    "mk_key (mp_k params) (mp_n params) md dgg"
    "(int (mp_k params) * int (mp_n params) + 2) * uint md \<le> 2 ^ LENGTH('a)"
    using ok unfolding mk_inputs_ok_def by blast+
  obtain ct where ct: "mk_Encrypt params sk m p md e dgg = Inr ct" "mk_valid s ct"
    "mk_phase s ct mod uint md = (uint (m mod p) * (uint md div uint p) + uint e) mod uint md"
    using mk_Encrypt_value [OF s(2,3) a(2) s(1) a(1,3-7)] .
  have "(uint (m mod p) * (uint md div uint p) + uint e) mod uint md
      = (uint (m mod p) * (uint md div uint p) + centered (uint md) (uint e)) mod uint md"
    by (rule mod_add_cong) (simp_all add: centered_mod)
  moreover have "mk_modulus s = uint md" using s(3) a(1) by (simp add: mk_key_def)
  ultimately show ?thesis using ct by (intro that) (simp_all add: mklwe.encodes_def)
qed

lemma mk_inputs_decrypt:
  fixes md :: "'a::len word"
  assumes ok: "mk_inputs_ok params sk p md e dgg" and s: "length s = mp_k params"
    "\<forall>u<mp_k params. SwitchModulus (sk ! u) md = Inr (s ! u)" "mk_key (mp_k params) (mp_n params) md ((!) s)"
    and v: "mk_valid s ct"
  shows "mk_Decrypt params sk ct p = Inr (word_of_int (decode (uint md) (uint p) (mk_phase s ct)))"
proof -
  have a: "0 < mp_k params" "length sk = mp_k params" "barrett_modulus md" "pt_ok p md"
    "(int (mp_k params) * int (mp_n params) + 2) * uint md \<le> 2 ^ LENGTH('a)"
    using ok unfolding mk_inputs_ok_def by blast+
  have "int (mp_n params) \<le> int (mp_k params) * int (mp_n params)" using a(1) by (cases "mp_k params") (simp_all add: distrib_right)
  then have "(int (mp_n params) + 1) * uint md \<le> (int (mp_k params) * int (mp_n params) + 2) * uint md"
    by (intro mult_right_mono) simp_all
  then have "(int (mp_n params) + 1) * uint md \<le> 2 ^ LENGTH('a)" using a(5) by linarith
  from mk_Decrypt_value [OF v s(2,3) a(2) s(1) a(3,4) this] show ?thesis .
qed

lemma mk_GetAneg_value:
  assumes v: "mk_valid s ct" and len: "\<forall>u<length s. length (m_data (s ! u)) = n"
  obtains a where "GetAneg ct = Inr a" "length a = length s"
    "\<forall>u<length s. nvec_ok (a ! u) \<and> m_modulus (a ! u) = m_modulus (s ! 0)
       \<and> vals (a ! u) = map (\<lambda>x. (- x) mod mk_modulus s) (vals (mct_a ct ! u))"
proof -
  note V = mk_validD [OF v]
  have s0: "0 < length s" using v by (auto simp: mk_valid_def)
  define zero where "zero = vec_zero n (m_modulus (s ! 0))"
  have z: "nvec_ok zero" "m_modulus zero = m_modulus (s ! 0)" "vals zero = replicate n 0" "length (m_data zero) = n"
    using V(8,9) by (auto simp: zero_def vec_zero_def nvec_ok_def residue_def vals_def)
  have "\<exists>c. vec_ModSub zero (mct_a ct ! u) = Inr c \<and> nvec_ok c \<and> m_modulus c = m_modulus (s ! 0)
      \<and> vals c = map (\<lambda>x. (- x) mod mk_modulus s) (vals (mct_a ct ! u))" if u: "u < length s" for u
  proof -
    have "same_shape zero (mct_a ct ! u)" using V(6,7) u len z by (simp add: same_shape_def)
    then obtain c where c: "vec_ModSub zero (mct_a ct ! u) = Inr c" "nvec_ok c" "m_modulus c = m_modulus zero"
      "vals c = map2 (\<lambda>x y. (x - y) mod uint (m_modulus zero)) (vals zero) (vals (mct_a ct ! u))"
      using vec_ModSub_value [OF z(1) V(5) [OF u]] by blast
    have "vals c = map (\<lambda>x. (- x) mod mk_modulus s) (vals (mct_a ct ! u))"
      unfolding c(4) z using V(7) u len by (intro nth_equalityI) simp_all
    with c z show ?thesis by auto
  qed
  then obtain g where g: "\<forall>u<length s. vec_ModSub zero (mct_a ct ! u) = Inr (g u) \<and> nvec_ok (g u)
      \<and> m_modulus (g u) = m_modulus (s ! 0) \<and> vals (g u) = map (\<lambda>x. (- x) mod mk_modulus s) (vals (mct_a ct ! u))"
    by metis
  have "mapR (\<lambda>u. vec_ModSub zero (mct_a ct ! u)) [0..<length s] = Inr (map g [0..<length s])"
    using g by (intro mapR_Inr) auto
  then have "GetAneg ct = Inr (map g [0..<length s])"
    using V(1,3,4,7) len s0 by (simp add: GetAneg_def Let_def zero_def)
  from that [OF this] show ?thesis using g by simp
qed

lemma mk_roundtrip:
  fixes md :: "'a::len word"
  assumes "mk_inputs_ok params sk p md e dgg"
    and "noise_ok (uint md) (uint p) (uint (m mod p)) (centered (uint md) (uint e))"
  shows "\<exists>ct. mk_Encrypt params sk m p md e dgg = Inr ct \<and> mk_Decrypt params sk ct p = Inr (m mod p)"
proof -
  obtain s where s: "length s = mp_k params" "\<forall>u<mp_k params. SwitchModulus (sk ! u) md = Inr (s ! u)"
    "mk_key (mp_k params) (mp_n params) md ((!) s)" using mk_inputs_key [OF assms(1)] .
  obtain ct where ct: "mk_Encrypt params sk m p md e dgg = Inr ct"
    "mklwe.encodes s (uint p) ct (uint (m mod p)) (centered (uint md) (uint e))"
    using mk_inputs_encrypt [OF assms(1) s] .
  have p: "0 < uint p" "mk_modulus s = uint md" using assms(1) s(3) by (auto simp: mk_inputs_ok_def pt_ok_def mk_key_def)
  have "decode (uint md) (uint p) (mk_phase s ct) = uint (m mod p)"
    using mklwe.decode_phase [OF ct(2)] p assms(2) by (simp add: uint_mod_eq)
  moreover have "mk_valid s ct" using ct(2) by (simp add: mklwe.encodes_def)
  ultimately show ?thesis using ct(1) mk_inputs_decrypt [OF assms(1) s, of ct] by simp
qed

text \<open>C6.  Decryption inverts multi-key encryption: for every number of parties, every message, every
  choice of masks and every noise within the bound, \<^verbatim>\<open>Decrypt\<close> of \<^verbatim>\<open>Encrypt\<close> under the joint key
  returns the message modulo the plaintext modulus.\<close>

theorem MKLWE_decrypt_encrypt:
  fixes md :: "'a::len word"
  assumes "mk_inputs_ok params sk p md e dgg"
    and "noise_ok (uint md) (uint p) (uint (m mod p)) (centered (uint md) (uint e))"
  shows "\<exists>ct. mk_Encrypt params sk m p md e dgg = Inr ct \<and> mk_Decrypt params sk ct p = Inr (m mod p)"
  using assms by (rule mk_roundtrip)

definition example_mk_params :: "32 mklwe_params" where
  "example_mk_params = \<lparr> mp_k = 2, mp_q = 512, mp_Q = 7681, mp_qKS = 1024, mp_n = 2, mp_N = 2, mp_baseKS = 32,
     mp_keyDist = BINARY \<rparr>"

theorem MKLWE_decrypt_encrypt_witness:
  "\<exists>ct. mk_Encrypt example_mk_params [example_sk, example_mask] 3 4 512 509 ((!) [example_mask, example_mask]) = Inr ct
    \<and> mk_Decrypt example_mk_params [example_sk, example_mask] ct 4 = Inr (3 mod 4)"
  by (rule MKLWE_decrypt_encrypt) code_simp+

text \<open>Homomorphic addition of multi-key ciphertexts: the sum of two encryptions decrypts to the sum
  of the messages, when the plaintext modulus divides the ciphertext modulus and the sum of the two
  noises is within the bound.\<close>

lemma MKLWE_add_decrypts:
  fixes md :: "'a::len word"
  assumes "mk_inputs_ok params sk p md e1 a1" "mk_inputs_ok params sk p md e2 a2" "uint p dvd uint md"
    and "noise_ok (uint md) (uint p) ((uint (m1 mod p) + uint (m2 mod p)) mod uint p)
           (centered (uint md) (uint e1) + centered (uint md) (uint e2))"
  shows "\<exists>c1 c2 c. mk_Encrypt params sk m1 p md e1 a1 = Inr c1 \<and> mk_Encrypt params sk m2 p md e2 a2 = Inr c2
    \<and> mk_EvalAddEq c1 c2 = Inr c
    \<and> mk_Decrypt params sk c p = Inr (word_of_int ((uint (m1 mod p) + uint (m2 mod p)) mod uint p))"
proof -
  obtain s where s: "length s = mp_k params" "\<forall>u<mp_k params. SwitchModulus (sk ! u) md = Inr (s ! u)"
    "mk_key (mp_k params) (mp_n params) md ((!) s)" using mk_inputs_key [OF assms(1)] .
  obtain c1 where c1: "mk_Encrypt params sk m1 p md e1 a1 = Inr c1"
    "mklwe.encodes s (uint p) c1 (uint (m1 mod p)) (centered (uint md) (uint e1))"
    using mk_inputs_encrypt [OF assms(1) s] .
  obtain c2 where c2: "mk_Encrypt params sk m2 p md e2 a2 = Inr c2"
    "mklwe.encodes s (uint p) c2 (uint (m2 mod p)) (centered (uint md) (uint e2))"
    using mk_inputs_encrypt [OF assms(2) s] .
  have p: "0 < uint p" "mk_modulus s = uint md" using assms(1) s(3) by (auto simp: mk_inputs_ok_def pt_ok_def mk_key_def)
  obtain c where c: "mk_EvalAddEq c1 c2 = Inr c"
    "decode (uint md) (uint p) (mk_phase s c) = (uint (m1 mod p) + uint (m2 mod p)) mod uint p"
    using mklwe.decode_sum [OF c1(2) c2(2)] assms(3,4) p by auto
  have "mk_valid s c" using mk_EvalAddEq_phase [of s c1 c2] c1(2) c2(2) c(1) by (auto simp: mklwe.encodes_def)
  from mk_inputs_decrypt [OF assms(1) s this] show ?thesis using c1(1) c2(1) c by auto
qed


definition example_mk_ct :: "32 mklwe_ct" where
  "example_mk_ct = MKLWECiphertext
     [\<lparr> m_modulus = 1024, m_data = [700, 33] \<rparr>, \<lparr> m_modulus = 1024, m_data = [5, 900] \<rparr>] 500"


text \<open>The multi-key modulus switch scales the phase by \<open>q / Q\<close> up to half a unit for the body and
  for every unit of the one-norm of the joint key: with all quantities multiplied by \<open>2 * Q\<close>, the
  error is at most \<open>Q * (1 + |t|)\<close>, for every list \<open>t\<close> of integer keys of the dimension.\<close>

lemma MKLWE_ModSwitch_error:
  fixes ct :: "'a::len mklwe_ct" and t :: "int list list"
  assumes "round_ok q (mct_modulus ct)" "mk_valid s ct" "length t = length s"
    and "\<forall>u<length s. length (m_data (s ! u)) = n \<and> length (t ! u) = n"
  shows "\<exists>z err. mk_ModSwitch q ct = Inr z \<and> length (mct_a z) = length s \<and> mct_modulus z = q
    \<and> \<bar>err\<bar> \<le> mk_modulus s * (1 + (\<Sum>y \<leftarrow> concat t. \<bar>y\<bar>))
    \<and> (2 * mk_modulus s * (uint (mct_b z) - (\<Sum>u<length s. inner (vals (mct_a z ! u)) (t ! u)))) mod (2 * mk_modulus s * uint q)
      = (2 * uint q * (uint (mct_b ct) - (\<Sum>u<length s. inner (vals (mct_a ct ! u)) (t ! u))) + err) mod (2 * mk_modulus s * uint q)"
proof -
  note V = mk_validD [OF assms(2)]
  let ?k = "length s" and ?f = "\<lambda>x. scale_round x (uint q) (mk_modulus s) mod uint q"
  have len: "\<forall>u<length s. length (m_data (s ! u)) = n" using assms(4) by blast
  obtain z where z: "mk_ModSwitch q ct = Inr z" "length (mct_a z) = ?k"
    "\<forall>u<?k. m_modulus (mct_a z ! u) = q \<and> vals (mct_a z ! u) = map ?f (vals (mct_a ct ! u))"
    "uint (mct_b z) = ?f (uint (mct_b ct))"
    using mk_ModSwitch_value [OF assms(1,2) len] .
  define a where "a = map (\<lambda>u. vals (mct_a ct ! u)) [0..<?k]"
  have ca: "inner (concat a) (concat t) = (\<Sum>u<?k. inner (vals (mct_a ct ! u)) (t ! u))"
    using V(7) assms(3,4) by (subst inner_concat [of _ ?k]) (auto simp: a_def)
  have cz: "inner (map ?f (concat a)) (concat t) = (\<Sum>u<?k. inner (vals (mct_a z ! u)) (t ! u))"
    using V(7) assms(3,4) z(3) unfolding map_concat by (subst inner_concat [of _ ?k]) (auto simp: a_def)
  have q: "0 < uint q" "0 < mk_modulus s" using assms(1) V(8) by (simp_all add: round_ok_def)
  have r: "\<forall>x \<in> set (concat a). 0 \<le> x \<and> x < mk_modulus s"
    using V(5,6) by (fastforce simp: a_def vals_def nvec_ok_def residue_def)
  have b: "0 \<le> uint (mct_b ct)" "uint (mct_b ct) < mk_modulus s" using V(2) by (simp_all add: residue_def)
  obtain err where "\<bar>err\<bar> \<le> mk_modulus s * (1 + (\<Sum>y \<leftarrow> concat t. \<bar>y\<bar>))"
    "(2 * mk_modulus s * (?f (uint (mct_b ct)) - inner (map ?f (concat a)) (concat t))) mod (2 * mk_modulus s * uint q)
      = (2 * uint q * (uint (mct_b ct) - inner (concat a) (concat t)) + err) mod (2 * mk_modulus s * uint q)"
    using mod_switch_phase [OF q r b, of "concat t"] by blast
  moreover have "0 < ?k" using V(1,4) by (metis length_greater_0_conv)
  then have "mct_modulus z = q" using z(3) by blast
  ultimately show ?thesis using z(1,2,4) unfolding ca cz by (intro exI [of _ z]) auto
qed

text \<open>\<^verbatim>\<open>DecryptNAND\<close> with an even plaintext modulus is \<^verbatim>\<open>Decrypt\<close> with half of it, on every
  input, errors included.\<close>

lemma MKLWE_DecryptNAND_halves:
  assumes "p div 2 * 2 = p"
  shows "mk_DecryptNAND params sk ct p = mk_Decrypt params sk ct (p div 2)"
  using assms by (simp add: mk_DecryptNAND_def mk_Decrypt_def Let_def)

end
