(* ===== verification/MNTRU.thy ===== *)
theory MNTRU
  imports MKLWE "HOL-Library.Signed_Division"
begin

text \<open>
  The multi-key matrix NTRU scheme: \<^verbatim>\<open>src/src/binfhe/lib/mntru-pke.cpp\<close> with the parameter, key and
  ciphertext classes \<^verbatim>\<open>mntru-*.h\<close>.  The key of a party is an invertible matrix; a ciphertext is one
  vector for every party; decryption multiplies by the first columns of the matrices.

  The inverse of a random matrix is computed by the NTL library: the matrices for which its loop of
  trials ended are arguments of the key generation, and the laws of an inverse are hypotheses of the
  theorems.  \<^verbatim>\<open>long\<close> is a 64-bit signed integer: a result outside of its range is the error
  \<^const>\<open>undefined_behaviour\<close>.
\<close>

section \<open>Parameters, keys and ciphertexts\<close>

record (overloaded) 'a mntru_params =
  np_k :: nat
  np_q :: "'a::len word"
  np_Q :: "'a word"
  np_qKS :: "'a word"
  np_n :: nat
  np_N :: nat
  np_baseKS :: nat
  np_keyDist :: SecretKeyDist

definition MNTRUCryptoParams ::
  "nat \<Rightarrow> nat \<Rightarrow> nat \<Rightarrow> 'a::len word \<Rightarrow> 'a word \<Rightarrow> 'a word \<Rightarrow> nat \<Rightarrow> SecretKeyDist \<Rightarrow> 'a mntru_params result" where
  "MNTRUCryptoParams k n N q Q qKS baseKS keyDist =
     (if k = 0 then Inl config_error
      else if n = 0 then Inl config_error
      else if N = 0 then Inl config_error
      else if q = 0 then Inl config_error
      else if Q = 0 then Inl config_error
      else if qKS = 0 then Inl config_error
      else if baseKS = 0 then Inl config_error
      else if GetMSB Q > MAX_MODULUS_SIZE LENGTH('a) then Inl config_error
      else Inr \<lparr> np_k = k, np_q = q, np_Q = Q, np_qKS = qKS, np_n = n, np_N = N, np_baseKS = baseKS,
                 np_keyDist = keyDist \<rparr>)"

text \<open>The copy constructor leaves out the key switching modulus and the key distribution.\<close>

definition nt_copy_params :: "'a::len mntru_params \<Rightarrow> 'a mntru_params" where
  "nt_copy_params rhs = \<lparr> np_k = np_k rhs, np_q = np_q rhs, np_Q = np_Q rhs, np_qKS = 0, np_n = np_n rhs,
     np_N = np_N rhs, np_baseKS = np_baseKS rhs, np_keyDist = UNIFORM_TERNARY \<rparr>"

definition nt_assign_params :: "'a::len mntru_params \<Rightarrow> 'a mntru_params \<Rightarrow> 'a mntru_params" where
  "nt_assign_params lhs rhs = lhs \<lparr> np_k := np_k rhs, np_q := np_q rhs, np_Q := np_Q rhs, np_n := np_n rhs,
     np_N := np_N rhs, np_baseKS := np_baseKS rhs \<rparr>"

record (overloaded) 'a mntru_ct =
  nct_elements :: "'a::len nvec list"
  nct_p :: "'a word"

definition MNTRUCiphertext :: "'a::len nvec list \<Rightarrow> 'a mntru_ct" where
  "MNTRUCiphertext elements = \<lparr> nct_elements = elements, nct_p = 4 \<rparr>"

definition nt_copy_ct :: "'a::len mntru_ct \<Rightarrow> 'a mntru_ct" where
  "nt_copy_ct rhs = MNTRUCiphertext (nct_elements rhs)"

definition nt_assign_ct :: "'a::len mntru_ct \<Rightarrow> 'a mntru_ct \<Rightarrow> 'a mntru_ct" where
  "nt_assign_ct lhs rhs = lhs \<lparr> nct_elements := nct_elements rhs \<rparr>"

definition nt_SetptModulus :: "'a::len mntru_ct \<Rightarrow> 'a word \<Rightarrow> 'a mntru_ct" where
  "nt_SetptModulus ct p = ct \<lparr> nct_p := p \<rparr>"

definition nt_SetModulus :: "'a::len mntru_ct \<Rightarrow> 'a word \<Rightarrow> 'a mntru_ct result" where
  "nt_SetModulus ct md =
     bindR (mapR (\<lambda>v. bindR (vec_Mod v md) (\<lambda>v. SetModulus v md)) (nct_elements ct)) (\<lambda>es.
     Inr (ct \<lparr> nct_elements := es \<rparr>))"

abbreviation nct_modulus :: "'a::len mntru_ct \<Rightarrow> 'a word" where
  "nct_modulus ct \<equiv> m_modulus (nct_elements ct ! 0)"

abbreviation nct_length :: "'a::len mntru_ct \<Rightarrow> nat" where
  "nct_length ct \<equiv> length (m_data (nct_elements ct ! 0))"

text \<open>A matrix is the list of its rows.\<close>

record (overloaded) 'a mntru_sk =
  key_F :: "'a::len nvec list list"
  key_F_inv :: "'a nvec list list"
  key_k :: nat

definition MNTRUPrivateKey :: "'a::len nvec list list \<Rightarrow> 'a nvec list list \<Rightarrow> 'a mntru_sk" where
  "MNTRUPrivateKey F F_inv = \<lparr> key_F = F, key_F_inv = F_inv, key_k = length F \<rparr>"

abbreviation key_length :: "'a::len mntru_sk \<Rightarrow> nat" where
  "key_length sk \<equiv> length (m_data (key_F sk ! 0 ! 0))"

definition mat_col :: "'a::len word \<Rightarrow> nat \<Rightarrow> 'a nvec list \<Rightarrow> nat \<Rightarrow> 'a nvec" where
  "mat_col md n M index = \<lparr> m_modulus = md, m_data = map (\<lambda>j. m_data (M ! j) ! index) [0..<n] \<rparr>"

text \<open>The first \<open>k\<close> matrices have \<open>n\<close> rows that can be read at every index below \<open>n\<close>.\<close>

definition mats_ok :: "nat \<Rightarrow> nat \<Rightarrow> 'a::len nvec list list \<Rightarrow> bool" where
  "mats_ok k n Ms \<longleftrightarrow> 0 < k \<and> 0 < n \<and> k \<le> length Ms \<and> (\<forall>M \<in> set (take k Ms). reads_ok n n M)"

definition GetF_col0 :: "'a::len mntru_sk \<Rightarrow> 'a nvec list" where
  "GetF_col0 sk =
     (let n = length (m_data (key_F sk ! 0 ! 0)); md = m_modulus (key_F sk ! 0 ! 0)
      in map (\<lambda>i. mat_col md n (key_F sk ! i) 0) [0..<key_k sk])"

definition GetF_inv_coli :: "'a::len mntru_sk \<Rightarrow> nat \<Rightarrow> 'a nvec list" where
  "GetF_inv_coli sk index =
     (let n = length (m_data (key_F_inv sk ! 0 ! 0)); md = m_modulus (key_F_inv sk ! 0 ! 0)
      in map (\<lambda>i. mat_col md n (key_F_inv sk ! i) index) [0..<key_k sk])"

definition GetF_inv_col0 :: "'a::len mntru_sk \<Rightarrow> 'a nvec list" where
  "GetF_inv_col0 sk = GetF_inv_coli sk 0"

text \<open>The elements of a switching key, and its column for every party.\<close>

definition GetElements_coli :: "'a::len nvec list list \<Rightarrow> nat \<Rightarrow> 'a nvec list" where
  "GetElements_coli key index =
     (let n = length (key ! 0); md = m_modulus (key ! 0 ! 0)
      in map (\<lambda>i. mat_col md n (key ! i) index) [0..<length key])"

section \<open>Key generation\<close>

text \<open>
  The lift of one entry of a matrix over the field of NTL: \<^verbatim>\<open>uint32_t tmp_coef\<close> is centred and stored
  as an \<^verbatim>\<open>int\<close>, which then becomes a residue again.
\<close>

definition lift_entry :: "32 word \<Rightarrow> 32 word \<Rightarrow> 'a::len word" where
  "lift_entry q_base coef =
     (let half_q_base = q_base div 2;
          tmp_coef = (if coef > half_q_base then coef - q_base else coef);
          v = sint tmp_coef
      in if v < 0 then SubFast (ucast q_base) (word_of_int (- v)) else word_of_int v)"

definition Get_invertible_Matrix :: "'a::len word \<Rightarrow> 32 word \<Rightarrow> nat \<Rightarrow> 32 word list list \<Rightarrow> 'a nvec list" where
  "Get_invertible_Matrix md q_base N tmp_mat =
     map (\<lambda>i. \<lparr> m_modulus = md, m_data = map (\<lambda>j. lift_entry q_base (tmp_mat ! i ! j)) [0..<N] \<rparr>) [0..<N]"

definition nt_KeyGen ::
  "nat \<Rightarrow> nat \<Rightarrow> 'a::len word \<Rightarrow> (nat \<Rightarrow> 32 word list list) \<Rightarrow> (nat \<Rightarrow> 32 word list list) \<Rightarrow> 'a mntru_sk" where
  "nt_KeyGen k sz md ntl_mat ntl_inv =
     (let Q = ucast md
      in MNTRUPrivateKey (map (\<lambda>i. Get_invertible_Matrix md Q sz (ntl_mat i)) [0..<k])
                         (map (\<lambda>i. Get_invertible_Matrix md Q sz (ntl_inv i)) [0..<k]))"

text \<open>The negacyclic matrix of a vector.\<close>

definition Get_MatrixA :: "'a::len nvec \<Rightarrow> 'a nvec list" where
  "Get_MatrixA s =
     (let n = length (m_data s); md = m_modulus s
      in map (\<lambda>i. \<lparr> m_modulus = md,
                m_data = map (\<lambda>j. if j < i then ModSubEq 0 (m_data s ! (n - i + j)) md else m_data s ! (j - i)) [0..<n] \<rparr>)
           [0..<n])"

definition MatrixMultiply :: "'a::len nvec list \<Rightarrow> 'a nvec list \<Rightarrow> 'a word \<Rightarrow> 'a nvec list result" where
  "MatrixMultiply A B md =
     (if A = [] \<or> B = [] then Inl undefined_behaviour
      else
        let numRowsA = length A; numColsA = length (m_data (A ! 0));
            numRowsB = length B; numColsB = length (m_data (B ! 0)) in
        if numColsA \<noteq> numRowsB then Inl exit_failure
        else if \<not> (reads_ok numRowsA numColsA A \<and> reads_ok numRowsB numColsB B) then Inl undefined_behaviour
        else Inr (map (\<lambda>i. \<lparr> m_modulus = md, m_data = map (\<lambda>j.
               fold (\<lambda>k r. ModAddEq r (ModMul (m_data (A ! i) ! k) (m_data (B ! k) ! j) md) md) [0..<numColsA] 0)
             [0..<numColsB] \<rparr>) [0..<numRowsA]))"

section \<open>Encryption and decryption\<close>

text \<open>\<^verbatim>\<open>sum.ModAddEq(temp[l], mod)\<close> over the entries of \<^verbatim>\<open>temp = a.ModMul(b)\<close>.\<close>

definition dot_vec :: "'a::len word \<Rightarrow> nat \<Rightarrow> 'a nvec \<Rightarrow> 'a nvec \<Rightarrow> 'a word result" where
  "dot_vec md n a b =
     bindR (vec_ModMul a b) (\<lambda>temp. Inr (fold (\<lambda>l sum. ModAddEq sum (m_data temp ! l) md) [0..<n] 0))"

definition nt_Encrypt ::
  "'a::len mntru_sk \<Rightarrow> 64 word \<Rightarrow> 64 word \<Rightarrow> 'a word \<Rightarrow> (nat \<Rightarrow> 'a nvec) \<Rightarrow> 'a mntru_ct result" where
  "nt_Encrypt sk m p md dgg =
     (if p = 0 \<or> ucast p = (0 :: 'a word) then Inl undefined_behaviour
      else if divisible_guard md p then Inl not_implemented_error
      else
        let n = key_length sk; k = key_k sk in
        if \<not> (mats_ok k n (key_F_inv sk) \<and> reads_ok k n (map dgg [0..<k])) then Inl undefined_behaviour
        else
          bindR (scaled_message m p md) (\<lambda>d.
          bindR (mapR (\<lambda>i.
              let e = (if i = 0 then (dgg i) \<lparr> m_data := (m_data (dgg i)) [0 := ModAddFastEq (m_data (dgg i) ! 0) d md] \<rparr>
                       else dgg i) in
              bindR (mapR (\<lambda>j. bindR (SwitchModulus (GetF_inv_coli sk j ! i) md) (dot_vec md n e)) [0..<n]) (\<lambda>c.
              Inr \<lparr> m_modulus = md, m_data = c \<rparr>)) [0..<k]) (\<lambda>c.
          Inr (nt_SetptModulus (MNTRUCiphertext c) (ucast p)))))"

text \<open>The loop that the three decryption routines share.\<close>

definition nt_inner :: "'a::len mntru_sk \<Rightarrow> 'a mntru_ct \<Rightarrow> 'a word \<Rightarrow> 'a word result" where
  "nt_inner sk ct md =
     (let n = key_length sk; k = key_k sk in
      if \<not> (mats_ok k n (key_F sk) \<and> reads_ok k n (nct_elements ct)) then Inl undefined_behaviour
      else
        foldR (\<lambda>i inner.
            bindR (SwitchModulus (GetF_col0 sk ! i) md) (\<lambda>F.
            bindR (dot_vec md n (nct_elements ct ! i) F) (\<lambda>sum.
            Inr (ModAddEq inner sum md)))) [0..<k] 0)"

definition nt_Decrypt2 :: "'a::len mntru_sk \<Rightarrow> 'a mntru_ct \<Rightarrow> 64 word \<Rightarrow> 64 word result" where
  "nt_Decrypt2 sk ct p =
     (if nct_elements ct = [] then Inl undefined_behaviour
      else
        let md = nct_modulus ct in
        if ucast (p * 2) = (0 :: 'a word) then Inl undefined_behaviour
        else if divisible_guard md (p * 2) then Inl not_implemented_error
        else bindR (nt_inner sk ct md) (decrypt_round md (ucast p) (ucast (p * 2))))"

definition nt_DecryptNAND :: "'a::len mntru_sk \<Rightarrow> 'a mntru_ct \<Rightarrow> 64 word \<Rightarrow> 64 word result" where
  "nt_DecryptNAND sk ct p =
     (if nct_elements ct = [] then Inl undefined_behaviour
      else
        let md = nct_modulus ct in
        if ucast (p div 2 * 2) = (0 :: 'a word) then Inl undefined_behaviour
        else if divisible_guard md (p div 2 * 2) then Inl not_implemented_error
        else bindR (nt_inner sk ct md) (decrypt_round md (ucast (p div 2)) (ucast (p div 2 * 2))))"

text \<open>\<^verbatim>\<open>Decrypt\<close> adds \<^verbatim>\<open>mod / p\<close>, twice the offset of \<^verbatim>\<open>Decrypt2\<close>.\<close>

definition nt_Decrypt :: "'a::len mntru_sk \<Rightarrow> 'a mntru_ct \<Rightarrow> 64 word \<Rightarrow> 64 word result" where
  "nt_Decrypt sk ct p =
     (if nct_elements ct = [] then Inl undefined_behaviour
      else
        let md = nct_modulus ct in
        if ucast (p * 2) = (0 :: 'a word) then Inl undefined_behaviour
        else if divisible_guard md (p * 2) then Inl not_implemented_error
        else bindR (nt_inner sk ct md) (decrypt_round md (ucast p) (ucast p)))"

section \<open>Modulus switching and linear operations\<close>

definition nt_ModSwitch :: "'a::len word \<Rightarrow> 'a mntru_ct \<Rightarrow> 'a mntru_ct result" where
  "nt_ModSwitch q ctQ =
     (if nct_elements ctQ = [] then Inl undefined_behaviour
      else
        let n = nct_length ctQ; Q = nct_modulus ctQ; k = length (nct_elements ctQ) in
        if \<not> reads_ok k n (nct_elements ctQ) then Inl undefined_behaviour
        else Inr (MNTRUCiphertext
          (map (\<lambda>i. \<lparr> m_modulus = q, m_data = map (\<lambda>j. RoundqQ (m_data (nct_elements ctQ ! i) ! j) q Q) [0..<n] \<rparr>) [0..<k])))"

definition nt_EvalAddEq :: "'a::len mntru_ct \<Rightarrow> 'a mntru_ct \<Rightarrow> 'a mntru_ct result" where
  "nt_EvalAddEq ct1 ct2 =
     (let k = length (nct_elements ct1) in
      if length (nct_elements ct2) < k then Inl undefined_behaviour
      else
        bindR (mapR (\<lambda>i. vec_ModAdd (nct_elements ct1 ! i) (nct_elements ct2 ! i)) [0..<k]) (\<lambda>es.
        Inr (ct1 \<lparr> nct_elements := es \<rparr>)))"

definition nt_EvalSubEq :: "'a::len mntru_ct \<Rightarrow> 'a mntru_ct \<Rightarrow> 'a mntru_ct result" where
  "nt_EvalSubEq ct1 ct2 =
     (let k = length (nct_elements ct1) in
      if length (nct_elements ct2) < k then Inl undefined_behaviour
      else
        bindR (mapR (\<lambda>i. vec_ModSub (nct_elements ct1 ! i) (nct_elements ct2 ! i)) [0..<k]) (\<lambda>es.
        Inr (ct1 \<lparr> nct_elements := es \<rparr>)))"

section \<open>Key switching\<close>

text \<open>\<^verbatim>\<open>long x = v.ConvertToInt()\<close>, and the centred representative.\<close>

definition as_long :: "'a::len word \<Rightarrow> int" where
  "as_long v = signed_take_bit 63 (uint v)"

definition center_long :: "int \<Rightarrow> int \<Rightarrow> int" where
  "center_long q x = (if x > q sdiv 2 then x - q else x)"

text \<open>\<^verbatim>\<open>k_row[j] += coef * fj\<close>.\<close>

definition mac :: "int \<Rightarrow> int \<Rightarrow> 'a::len word list \<Rightarrow> nat \<Rightarrow> int list \<Rightarrow> int list result" where
  "mac q coef f_row j k_row =
     bindR (inS 64 (coef * center_long q (as_long (f_row ! j)))) (\<lambda>t.
     bindR (inS 64 (k_row ! j + t)) (\<lambda>s.
     Inr (k_row[j := s])))"

text \<open>One row of the inverse matrix, in blocks of four and a remainder.\<close>

definition ksk_row_step :: "int \<Rightarrow> nat \<Rightarrow> int \<Rightarrow> 'a::len word list \<Rightarrow> int list \<Rightarrow> int list result" where
  "ksk_row_step q n coef f_row k_row =
     (let block = 4; blocks = (n div block) * block; rem_block = n mod block in
      bindR (foldR (\<lambda>b. foldR (\<lambda>d. mac q coef f_row (block * b + d)) [0..<4]) [0..<n div block] k_row)
        (foldR (\<lambda>j. mac q coef f_row (blocks + j)) [0..<rem_block]))"

definition ksk_long_row :: "int \<Rightarrow> nat \<Rightarrow> int list \<Rightarrow> 'a::len nvec list \<Rightarrow> int list result" where
  "ksk_long_row q n g_row sk_inv =
     foldR (\<lambda>l. ksk_row_step q n (g_row ! l) (m_data (sk_inv ! l))) [0..<n] (replicate n 0)"

text \<open>\<^verbatim>\<open>int32_t coef = input[i] % q; if (coef < 0) coef += q\<close>.\<close>

definition to_int32 :: "int \<Rightarrow> int" where
  "to_int32 x = signed_take_bit 31 x"

definition mod_q :: "int list \<Rightarrow> int \<Rightarrow> 'a::len word list" where
  "mod_q input q =
     map (\<lambda>x. let coef = to_int32 (x smod q);
                  coef = (if coef < 0 then to_int32 (coef + q) else coef)
              in word_of_int coef) input"

text \<open>
  The rows \<^verbatim>\<open>E\<close>: copies of one vector of noise, the first entry raised by the multiple of the key by a
  power of the base.
\<close>

definition gadget_rows :: "'a::len word \<Rightarrow> 'a word \<Rightarrow> nat \<Rightarrow> nat \<Rightarrow> 'a word list \<Rightarrow> 'a word list \<Rightarrow> 'a word list list" where
  "gadget_rows qKS baseKS N dc E s =
     concat (map (\<lambda>i.
       let coef_w_pwr = (if i = 0 then s ! 0 else ModAddEq 0 (s ! i) qKS);
           pwrs = digitsKS baseKS dc coef_w_pwr
       in map (\<lambda>j. E[0 := ModAddEq (E ! 0) (pwrs ! j) qKS]) [0..<dc]) [0..<N])"

definition ksk_rows :: "'a::len mntru_params \<Rightarrow> 'a nvec list \<Rightarrow> 'a word list \<Rightarrow> 'a word list \<Rightarrow> 'a word list list result" where
  "ksk_rows params sk_inv s E =
     (let n = np_n params; N = np_N params; qKS = np_qKS params; qKS_long = as_long qKS; baseKS = np_baseKS params;
          dc = digitCount qKS baseKS in
      mapR (\<lambda>row.
          let E_long = map (\<lambda>x. center_long qKS_long (as_long x)) row in
          bindR (ksk_long_row qKS_long n E_long sk_inv) (\<lambda>ksk_long.
          Inr (mod_q ksk_long qKS_long)))
        (gadget_rows qKS (of_nat baseKS) N dc E s))"

definition nt_KeySwitchGen ::
  "'a::len mntru_params \<Rightarrow> 'a mntru_sk \<Rightarrow> 'a nvec list \<Rightarrow> (nat \<Rightarrow> 'a nvec) \<Rightarrow> 'a nvec list list result" where
  "nt_KeySwitchGen params sk skN dggKS =
     (let n = np_n params; N = np_N params; k = np_k params; qKS = np_qKS params in
      if \<not> (mats_ok k n (key_F_inv sk) \<and> reads_ok k N skN \<and> reads_ok k n (map dggKS [0..<k])) then Inl undefined_behaviour
      else
        mapR (\<lambda>u.
          bindR (SwitchModulus (skN ! u) qKS) (\<lambda>s.
          bindR (ksk_rows params (key_F_inv sk ! u) (m_data s) (m_data (dggKS u))) (\<lambda>rows.
          Inr (map (\<lambda>row. \<lparr> m_modulus = qKS, m_data = row \<rparr>) rows)))) [0..<k])"

definition ct_hat :: "nat \<Rightarrow> nat \<Rightarrow> nat \<Rightarrow> 'a::len word list \<Rightarrow> 'a word list" where
  "ct_hat baseKS N dc c = concat (map (\<lambda>i. map of_nat (ks_digits baseKS dc (unat (c ! i)))) [0..<N])"

definition nt_KeySwitch :: "'a::len mntru_params \<Rightarrow> 'a nvec list list \<Rightarrow> 'a mntru_ct \<Rightarrow> 'a mntru_ct result" where
  "nt_KeySwitch params KSK ctQN =
     (let n = np_n params; N = np_N params; k = np_k params; Q = np_qKS params; baseKS = np_baseKS params;
          dc = digitCount Q baseKS in
      if \<not> (reads_ok k N (nct_elements ctQN) \<and> k \<le> length KSK \<and> (\<forall>K \<in> set (take k KSK). reads_ok (N * dc) n K)
            \<and> (k = 0 \<or> n = 0 \<or> 0 < N * dc))
      then Inl undefined_behaviour
      else
        bindR (mapR (\<lambda>u.
            let hat = \<lparr> m_modulus = Q, m_data = ct_hat baseKS N dc (m_data (nct_elements ctQN ! u)) \<rparr> in
            bindR (mapR (\<lambda>i. dot_vec Q (N * dc) hat (GetElements_coli KSK i ! u)) [0..<n]) (\<lambda>c.
            Inr \<lparr> m_modulus = Q, m_data = c \<rparr>)) [0..<k]) (\<lambda>c.
        Inr (MNTRUCiphertext c)))"

text \<open>The second version stores the multiples of every row by the digits.\<close>

definition nt_KeySwitchGen2 ::
  "'a::len mntru_params \<Rightarrow> 'a mntru_sk \<Rightarrow> 'a nvec list \<Rightarrow> (nat \<Rightarrow> 'a nvec) \<Rightarrow> 'a nvec list list list result" where
  "nt_KeySwitchGen2 params sk skN dggKS =
     (let n = np_n params; N = np_N params; k = np_k params; qKS = np_qKS params; Bks = np_baseKS params in
      if \<not> (mats_ok k n (key_F_inv sk) \<and> reads_ok k N skN \<and> reads_ok k n (map dggKS [0..<k])) then Inl undefined_behaviour
      else
        mapR (\<lambda>u.
          bindR (SwitchModulus (skN ! u) qKS) (\<lambda>s.
          bindR (ksk_rows params (key_F_inv sk ! u) (m_data s) (m_data (dggKS u))) (\<lambda>rows.
          Inr (map (\<lambda>j. map (\<lambda>row. \<lparr> m_modulus = qKS, m_data = map (\<lambda>x. ModMul x (of_nat j) qKS) row \<rparr>) rows) [0..<Bks]))))
          [0..<k])"

definition nt_KeySwitch2 :: "'a::len mntru_params \<Rightarrow> 'a nvec list list list \<Rightarrow> 'a mntru_ct \<Rightarrow> 'a mntru_ct result" where
  "nt_KeySwitch2 params KSK ctQN =
     (let n = np_n params; N = np_N params; k = np_k params; Q = np_qKS params; baseKS = np_baseKS params;
          dc = digitCount Q baseKS in
      if \<not> (reads_ok k N (nct_elements ctQN) \<and> k \<le> length KSK
          \<and> (\<forall>K \<in> set (take k KSK). baseKS \<le> length K \<and> (\<forall>R \<in> set (take baseKS K). reads_ok (N * dc) n R)))
      then Inl undefined_behaviour
      else
        Inr (MNTRUCiphertext (map (\<lambda>u.
            let hat = ct_hat baseKS N dc (m_data (nct_elements ctQN ! u)); ksku = KSK ! u in
            \<lparr> m_modulus = Q, m_data = fold (\<lambda>l c.
                let index = unat (ucast (hat ! l) :: 32 word) in
                if index \<noteq> 0
                then map (\<lambda>i. ModAddFastEq (c ! i) (m_data (ksku ! index ! l) ! i) Q) [0..<n]
                else c) [0..<N * dc] (replicate n 0) \<rparr>) [0..<k])))"

section \<open>Inner products\<close>

lemma mod_sum_fold:
  fixes md :: "'a::len word"
  assumes ok: "modulus_ok md"
  shows "uint (fold (\<lambda>l sum. ModAddEq sum (f l) md) [0..<n] 0) = (\<Sum>l<n. uint (f l)) mod uint md"
proof (induction n)
  case (Suc n)
  then show ?case by (simp add: in_place_variants uint_ModAdd [OF ok] mod_add_left_eq)
qed simp

lemma dot_vec_value:
  fixes md :: "'a::len word"
  assumes v: "nvec_ok a" "nvec_ok b" and m: "m_modulus a = md" "m_modulus b = md" "barrett_modulus md"
    and len: "length (m_data a) = n" "length (m_data b) = n"
  obtains r where "dot_vec md n a b = Inr r" "uint r = inner (vals a) (vals b) mod uint md" "residue md r"
proof -
  have pos: "0 < uint md" using barrett_modulus_facts [OF m(3)] by blast
  obtain c where c: "vec_ModMul a b = Inr c" "vals c = map2 (\<lambda>x y. x * y mod uint md) (vals a) (vals b)"
    using vec_ModMul_value [OF v] m len by (auto simp: same_shape_def)
  define r where "r = fold (\<lambda>l sum. ModAddEq sum (m_data c ! l) md) [0..<n] 0"
  have lc: "length (m_data c) = n" using arg_cong [OF c(2), of length] len by simp
  have "uint (m_data c ! l) mod uint md = vals a ! l * vals b ! l mod uint md" if "l < n" for l
    using arg_cong [OF c(2), of "\<lambda>xs. xs ! l"] that len lc by (simp add: vals_def)
  then have "uint r = (\<Sum>l<n. vals a ! l * vals b ! l) mod uint md"
    unfolding r_def mod_sum_fold [OF barrett_modulus_ok [OF m(3)]] by (intro sum_mod_cong)
  then have ur: "uint r = inner (vals a) (vals b) mod uint md" using len by (simp add: inner_as_sum)
  show ?thesis
    using c(1) by (intro that [OF _ ur residue_uint_mod [OF ur pos]]) (simp add: dot_vec_def r_def)
qed

section \<open>Phases\<close>

definition nt_valid :: "'a::len nvec list \<Rightarrow> 'a mntru_ct \<Rightarrow> bool" where
  "nt_valid f ct \<longleftrightarrow> f \<noteq> [] \<and> length (nct_elements ct) = length f
     \<and> (\<forall>u < length f. nvec_ok (f ! u) \<and> nvec_ok (nct_elements ct ! u) \<and> same_shape (nct_elements ct ! u) (f ! u)
          \<and> m_modulus (f ! 0) = m_modulus (f ! u))"

definition nt_phase :: "'a::len nvec list \<Rightarrow> 'a mntru_ct \<Rightarrow> int" where
  "nt_phase f ct = (\<Sum>u<length f. inner (vals (nct_elements ct ! u)) (vals (f ! u)))"

text \<open>The vectors of a ciphertext are the masks of a multi-key LWE ciphertext with the body zero.\<close>

definition as_mk :: "'a::len mntru_ct \<Rightarrow> 'a mklwe_ct" where
  "as_mk ct = MKLWECiphertext (nct_elements ct) 0"

lemma as_mk_simps [simp]: "mct_a (as_mk ct) = nct_elements ct" "mct_b (as_mk ct) = 0"
  by (simp_all add: as_mk_def MKLWECiphertext_def)

lemma nt_valid_mk: "nt_valid f ct \<longleftrightarrow> mk_valid f (as_mk ct)"
proof (cases "f = []")
  case False
  then have "0 < length f" by simp
  then show ?thesis unfolding nt_valid_def mk_valid_def as_mk_simps residue_def
    by (auto simp: nvec_ok_def modulus_ok_def)
qed (simp add: nt_valid_def mk_valid_def)

lemma nt_phase_mk: "nt_phase f ct = - mk_phase f (as_mk ct)"
  by (simp add: nt_phase_def mk_phase_def)

lemma nt_EvalAddEq_mk:
  assumes "nt_valid f x" "nt_valid f y" "mk_EvalAddEq (as_mk x) (as_mk y) = Inr z"
  obtains c where "nt_EvalAddEq x y = Inr c" "as_mk c = z"
proof -
  let ?M = "mapR (\<lambda>i. vec_ModAdd (nct_elements x ! i) (nct_elements y ! i)) [0..<length (nct_elements x)]"
  from assms(3) obtain es where es: "?M = Inr es" "z = MKLWECiphertext es 0"
    by (cases ?M) (auto simp: mk_EvalAddEq_def Let_def as_mk_def MKLWECiphertext_def ModAddFastEq_def split: if_splits)
  have "length (nct_elements x) = length (nct_elements y)" using assms(1,2) by (simp add: nt_valid_def)
  then have "nt_EvalAddEq x y = Inr (x \<lparr> nct_elements := es \<rparr>)" using es(1) by (simp add: nt_EvalAddEq_def)
  then show ?thesis using es(2) by (intro that [of "x \<lparr> nct_elements := es \<rparr>"]) (simp_all add: as_mk_def)
qed

lemma nt_EvalSubEq_mk:
  assumes "nt_valid f x" "nt_valid f y" "mk_EvalSubEq (as_mk x) (as_mk y) = Inr z"
  obtains c where "nt_EvalSubEq x y = Inr c" "as_mk c = z"
proof -
  let ?M = "mapR (\<lambda>i. vec_ModSub (nct_elements x ! i) (nct_elements y ! i)) [0..<length (nct_elements x)]"
  from assms(3) obtain es where es: "?M = Inr es" "z = MKLWECiphertext es 0"
    by (cases ?M) (auto simp: mk_EvalSubEq_def Let_def as_mk_def MKLWECiphertext_def ModSubFastEq_def split: if_splits)
  have "length (nct_elements x) = length (nct_elements y)" using assms(1,2) by (simp add: nt_valid_def)
  then have "nt_EvalSubEq x y = Inr (x \<lparr> nct_elements := es \<rparr>)" using es(1) by (simp add: nt_EvalSubEq_def)
  then show ?thesis using es(2) by (intro that [of "x \<lparr> nct_elements := es \<rparr>"]) (simp_all add: as_mk_def)
qed

lemma nt_EvalAddEq_phase:
  assumes "nt_valid f x" "nt_valid f y"
  shows "\<exists>z. nt_EvalAddEq x y = Inr z \<and> nt_valid f z
    \<and> nt_phase f z mod mk_modulus f = (nt_phase f x + nt_phase f y) mod mk_modulus f"
proof -
  obtain w where w: "mk_EvalAddEq (as_mk x) (as_mk y) = Inr w" "mk_valid f w"
    "mk_phase f w mod mk_modulus f = (mk_phase f (as_mk x) + mk_phase f (as_mk y)) mod mk_modulus f"
    using mk_EvalAddEq_phase [of f "as_mk x" "as_mk y"] assms unfolding nt_valid_mk by blast
  obtain c where c: "nt_EvalAddEq x y = Inr c" "as_mk c = w" using nt_EvalAddEq_mk [OF assms w(1)] .
  have "(- mk_phase f w) mod mk_modulus f = (- (mk_phase f (as_mk x) + mk_phase f (as_mk y))) mod mk_modulus f"
    using w(3) by (metis mod_minus_eq)
  then show ?thesis using c w(2) by (auto simp: nt_valid_mk nt_phase_mk)
qed

lemma nt_EvalSubEq_phase:
  assumes "nt_valid f x" "nt_valid f y"
  shows "\<exists>z. nt_EvalSubEq x y = Inr z \<and> nt_valid f z
    \<and> nt_phase f z mod mk_modulus f = (nt_phase f x - nt_phase f y) mod mk_modulus f"
proof -
  obtain w where w: "mk_EvalSubEq (as_mk x) (as_mk y) = Inr w" "mk_valid f w"
    "mk_phase f w mod mk_modulus f = (mk_phase f (as_mk x) - mk_phase f (as_mk y)) mod mk_modulus f"
    using mk_EvalSubEq_phase [of f "as_mk x" "as_mk y"] assms unfolding nt_valid_mk by blast
  obtain c where c: "nt_EvalSubEq x y = Inr c" "as_mk c = w" using nt_EvalSubEq_mk [OF assms w(1)] .
  have "(- mk_phase f w) mod mk_modulus f = (- (mk_phase f (as_mk x) - mk_phase f (as_mk y))) mod mk_modulus f"
    using w(3) by (metis mod_minus_eq)
  then show ?thesis using c w(2) by (auto simp: nt_valid_mk nt_phase_mk)
qed

interpretation mntru: linear_scheme mk_modulus nt_valid nt_phase nt_EvalAddEq nt_EvalSubEq
proof
  fix f :: "'a::len nvec list" and x y :: "'a mntru_ct"
  show "nt_valid f x \<Longrightarrow> 0 < mk_modulus f" using mk_validD(8) unfolding nt_valid_mk .
qed (rule nt_EvalAddEq_phase nt_EvalSubEq_phase; assumption)+

section \<open>Encryption and decryption\<close>

text \<open>
  What the callers guarantee: matrices that can be read, whose columns after the switch to the
  modulus are well-formed vectors \<open>f\<close> and \<open>g\<close>, the one inverting the other.
\<close>

definition nt_key_ok :: "'a::len mntru_sk \<Rightarrow> 'a word \<Rightarrow> 'a nvec list \<Rightarrow> 'a nvec list list \<Rightarrow> bool" where
  "nt_key_ok sk md f g \<longleftrightarrow>
     (let n = key_length sk; k = key_k sk in
      barrett_modulus md \<and> mats_ok k n (key_F sk) \<and> mats_ok k n (key_F_inv sk) \<and> length f = k
      \<and> mk_key k n md ((!) f)
      \<and> (\<forall>u<k. SwitchModulus (GetF_col0 sk ! u) md = Inr (f ! u))
      \<and> (\<forall>u<k. mk_key n n md ((!) (g ! u)) \<and> (\<forall>j<n. SwitchModulus (GetF_inv_coli sk j ! u) md = Inr (g ! u ! j)))
      \<and> (\<forall>u<k. \<forall>l<n. (\<Sum>j<n. vals (g ! u ! j) ! l * vals (f ! u) ! j) mod uint md = (if l = 0 then 1 else 0) mod uint md))"

lemma nt_encrypt_party:
  fixes md :: "'a::len word"
  assumes bm: "barrett_modulus md" and e: "nvec_ok e" "m_modulus e = md" "length (m_data e) = n"
    and g: "mk_key n n md ((!) g)" "\<forall>j<n. SwitchModulus (col j) md = Inr (g ! j)"
  obtains c where "mapR (\<lambda>j. bindR (SwitchModulus (col j) md) (dot_vec md n e)) [0..<n] = Inr c"
    "length c = n" "\<forall>x \<in> set c. residue md x"
    "\<forall>j<n. uint (c ! j) = (\<Sum>l<n. vals e ! l * vals (g ! j) ! l) mod uint md"
proof -
  have "\<exists>r. dot_vec md n e (g ! j) = Inr r \<and> residue md r \<and> uint r = (\<Sum>l<n. vals e ! l * vals (g ! j) ! l) mod uint md"
    if "j < n" for j
  proof -
    have G: "nvec_ok (g ! j)" "m_modulus (g ! j) = md" "length (m_data (g ! j)) = n" using g(1) that by (auto simp: mk_key_def)
    obtain r where "dot_vec md n e (g ! j) = Inr r" "uint r = inner (vals e) (vals (g ! j)) mod uint md" "residue md r"
      using dot_vec_value [OF e(1) G(1) e(2) G(2) bm e(3) G(3)] .
    then show ?thesis using e(3) G(3) by (auto simp: inner_as_sum)
  qed
  then obtain r where r: "\<forall>j<n. dot_vec md n e (g ! j) = Inr (r j) \<and> residue md (r j)
      \<and> uint (r j) = (\<Sum>l<n. vals e ! l * vals (g ! j) ! l) mod uint md" by metis
  have "mapR (\<lambda>j. bindR (SwitchModulus (col j) md) (dot_vec md n e)) [0..<n] = Inr (map r [0..<n])"
    using r g(2) by (intro mapR_Inr) auto
  then show ?thesis using r by (intro that) auto
qed

lemma nt_Encrypt_value:
  fixes md :: "'a::len word"
  assumes key: "nt_key_ok sk md f g" and pt: "pt_ok p md" and e: "mk_key (key_k sk) (key_length sk) md dgg"
  obtains ct where "nt_Encrypt sk m p md dgg = Inr ct" "nt_valid f ct"
    "nt_phase f ct mod uint md
      = (uint (m mod p) * (uint md div uint p) + (\<Sum>u<key_k sk. uint (m_data (dgg u) ! 0))) mod uint md"
proof -
  define n where "n = key_length sk"
  define k where "k = key_k sk"
  have K: "barrett_modulus md" "mats_ok k n (key_F_inv sk)" "length f = k" "mk_key k n md ((!) f)"
    "\<And>u. u < k \<Longrightarrow> mk_key n n md ((!) (g ! u)) \<and> (\<forall>j<n. SwitchModulus (GetF_inv_coli sk j ! u) md = Inr (g ! u ! j))"
    "\<And>u. u < k \<Longrightarrow> \<forall>l<n. (\<Sum>j<n. vals (g ! u ! j) ! l * vals (f ! u) ! j) mod uint md = (if l = 0 then 1 else 0) mod uint md"
    using key unfolding nt_key_ok_def Let_def n_def k_def by blast+
  have n0: "0 < n" "0 < k" using K(2) by (simp_all add: mats_ok_def)
  note ok = barrett_modulus_ok [OF K(1)] and f = pt_ok_facts [OF pt]
  have pos: "0 < uint md" using barrett_modulus_facts [OF K(1)] by blast
  obtain d where d: "scaled_message m p md = Inr d" "uint d = uint (m mod p) * (uint md div uint p)" "residue md d"
    using scaled_message_value [OF pt] .
  define E where "E = (\<lambda>i. if i = 0 then (dgg i) \<lparr> m_data := (m_data (dgg i)) [0 := ModAddFastEq (m_data (dgg i) ! 0) d md] \<rparr>
    else dgg i)"
  have D: "nvec_ok (dgg u)" "m_modulus (dgg u) = md" "length (m_data (dgg u)) = n" if "u < k" for u
    using e that by (auto simp: mk_key_def n_def k_def)
  have e0: "uint (ModAddFastEq (m_data (dgg 0) ! 0) d md) = (uint (m_data (dgg 0) ! 0) + uint d) mod uint md"
    unfolding in_place_variants using D [of 0] n0 d(3) ok by (intro uint_ModAddFast) (auto simp: nvec_ok_def)
  have Eok: "nvec_ok (E u)" "m_modulus (E u) = md" "length (m_data (E u)) = n" if "u < k" for u
    using D [OF that] residue_uint_mod [OF e0 pos]
    by (auto simp: E_def nvec_ok_def dest!: set_update_subset_insert [THEN subsetD])
  define P where "P = (\<lambda>u c. mapR (\<lambda>j. bindR (SwitchModulus (GetF_inv_coli sk j ! u) md) (dot_vec md n (E u))) [0..<n] = Inr c
      \<and> length c = n \<and> (\<forall>x \<in> set c. residue md x)
      \<and> (\<forall>j<n. uint (c ! j) = (\<Sum>l<n. vals (E u) ! l * vals (g ! u ! j) ! l) mod uint md))"
  have "\<exists>c. P u c" if "u < k" for u
    unfolding P_def
    by (rule nt_encrypt_party [OF K(1) Eok [OF that] conjunct1 [OF K(5) [OF that]] conjunct2 [OF K(5) [OF that]]]) blast
  then obtain c where "\<And>u. u < k \<Longrightarrow> P u (c u)" by metis
  note c = this [unfolded P_def]
  define ct where "ct = nt_SetptModulus (MNTRUCiphertext (map (\<lambda>u. \<lparr> m_modulus = md, m_data = c u \<rparr>) [0..<k])) (ucast p)"
  have el: "nct_elements ct = map (\<lambda>u. \<lparr> m_modulus = md, m_data = c u \<rparr>) [0..<k]"
    by (simp add: ct_def nt_SetptModulus_def MNTRUCiphertext_def)
  have R: "reads_ok k n (map dgg [0..<k])" using D by (auto intro!: reads_okI)
  have M: "mapR (\<lambda>i. bindR (mapR (\<lambda>j. bindR (SwitchModulus (GetF_inv_coli sk j ! i) md) (dot_vec md n (E i))) [0..<n]) (\<lambda>c.
      Inr \<lparr> m_modulus = md, m_data = c \<rparr>)) [0..<k] = Inr (map (\<lambda>u. \<lparr> m_modulus = md, m_data = c u \<rparr>) [0..<k])"
    using c by (intro mapR_Inr) auto
  have "nt_Encrypt sk m p md dgg = Inr ct"
    using f d(1) K(2) R M [unfolded E_def] unfolding nt_Encrypt_def Let_def n_def [symmetric] k_def [symmetric]
    by (simp add: ct_def)
  moreover have "nt_valid f ct"
    using K(3,4) n0 c ok by (auto simp: nt_valid_def el mk_key_def nvec_ok_def same_shape_def)
  moreover have "nt_phase f ct mod uint md = (\<Sum>u<k. vals (E u) ! 0) mod uint md"
  proof -
    have "inner (vals (nct_elements ct ! u)) (vals (f ! u)) mod uint md = vals (E u) ! 0 mod uint md" if "u < k" for u
    proof -
      have "length (m_data (f ! u)) = n" using K(4) that by (simp add: mk_key_def)
      then have "inner (vals (nct_elements ct ! u)) (vals (f ! u)) = (\<Sum>i<n. uint (c u ! i) * vals (f ! u) ! i)"
        using c [OF that] that by (simp add: inner_as_sum el vals_def)
      moreover have "\<forall>i<n. uint (c u ! i) mod uint md = (\<Sum>l<n. vals (E u) ! l * vals (g ! u ! i) ! l) mod uint md"
        using c [OF that] by simp
      ultimately show ?thesis using inverse_dot [OF K(6) [OF that] n0(1)] by simp
    qed
    then show ?thesis unfolding nt_phase_def K(3) by (rule sum_mod_cong)
  qed
  moreover have "(\<Sum>u<k. vals (E u) ! 0) mod uint md = (uint d + (\<Sum>u<k. uint (m_data (dgg u) ! 0))) mod uint md"
  proof -
    have "vals (E 0) ! 0 mod uint md = (uint d + uint (m_data (dgg 0) ! 0)) mod uint md"
      using D [of 0] n0 e0 by (simp add: E_def vals_def add.commute)
    moreover have "(\<Sum>u\<in>{..<k} - {0}. vals (E u) ! 0) = (\<Sum>u\<in>{..<k} - {0}. uint (m_data (dgg u) ! 0))"
      using D(3) n0 by (intro sum.cong) (auto simp: E_def vals_def)
    moreover have "(\<Sum>u<k. h u) = h 0 + (\<Sum>u\<in>{..<k} - {0}. h u)" for h :: "nat \<Rightarrow> int"
      using n0 by (intro sum.remove) auto
    ultimately have "(\<Sum>u<k. vals (E u) ! 0) = vals (E 0) ! 0 + (\<Sum>u\<in>{..<k} - {0}. uint (m_data (dgg u) ! 0))"
      "(\<Sum>u<k. uint (m_data (dgg u) ! 0)) = uint (m_data (dgg 0) ! 0) + (\<Sum>u\<in>{..<k} - {0}. uint (m_data (dgg u) ! 0))"
      "vals (E 0) ! 0 mod uint md = (uint d + uint (m_data (dgg 0) ! 0)) mod uint md"
      by metis+
    then show ?thesis by (simp only: add.assoc [symmetric]) (rule mod_add_cong; simp)
  qed
  ultimately show ?thesis using that d(2) by (simp add: k_def)
qed

lemma nt_inner_value:
  fixes md :: "'a::len word"
  assumes key: "nt_key_ok sk md f g" and v: "nt_valid f ct"
  obtains r where "nt_inner sk ct md = Inr r" "uint r = nt_phase f ct mod uint md" "nct_modulus ct = md" "nct_elements ct \<noteq> []"
proof -
  define n where "n = key_length sk"
  define k where "k = key_k sk"
  have K: "barrett_modulus md" "mats_ok k n (key_F sk)" "length f = k" "mk_key k n md ((!) f)"
    "\<forall>u<k. SwitchModulus (GetF_col0 sk ! u) md = Inr (f ! u)"
    using key unfolding nt_key_ok_def Let_def n_def k_def by blast+
  note ok = barrett_modulus_ok [OF K(1)]
  have k0: "0 < k" using K(2) by (simp add: mats_ok_def)
  note V = mk_validD [OF v [unfolded nt_valid_mk], unfolded K(3) as_mk_simps]
    and M = mk_valid_masks [OF v [unfolded nt_valid_mk], unfolded K(3) as_mk_simps, OF K(4)]
  let ?step = "\<lambda>i inner. bindR (SwitchModulus (GetF_col0 sk ! i) md) (\<lambda>F.
      bindR (dot_vec md n (nct_elements ct ! i) F) (\<lambda>sum. Inr (ModAddEq inner sum md)))"
  have "\<exists>r. foldR ?step [0..<j] 0 = Inr r
      \<and> uint r = (\<Sum>u<j. inner (vals (nct_elements ct ! u)) (vals (f ! u))) mod uint md" if "j \<le> k" for j
    using that
  proof (induction j)
    case (Suc j)
    then obtain r where r: "foldR ?step [0..<j] 0 = Inr r"
      "uint r = (\<Sum>u<j. inner (vals (nct_elements ct ! u)) (vals (f ! u))) mod uint md" by auto
    have j: "j < k" using Suc.prems by simp
    obtain t where t: "dot_vec md n (nct_elements ct ! j) (f ! j) = Inr t"
      "uint t = inner (vals (nct_elements ct ! j)) (vals (f ! j)) mod uint md"
      by (rule dot_vec_value [of "nct_elements ct ! j" "f ! j" md n]) (use K(1,4) M(1) j in \<open>auto simp: mk_key_def\<close>)
    have "foldR ?step [0..<Suc j] 0 = Inr (ModAddEq r t md)" using r(1) t(1) K(5) j by (simp add: foldR_append)
    then show ?case by (simp add: in_place_variants uint_ModAdd [OF ok] r(2) t(2) mod_add_eq)
  qed simp
  then obtain r where r: "foldR ?step [0..<k] 0 = Inr r" "uint r = nt_phase f ct mod uint md"
    by (auto simp: nt_phase_def K(3))
  have "reads_ok k n (nct_elements ct)" using V(1) M(1) by (auto intro!: reads_okI simp: mk_key_def)
  then have "nt_inner sk ct md = Inr r" using r(1) K(2) by (simp add: nt_inner_def Let_def n_def k_def)
  then show ?thesis using r(2) V(3,4) M(2) by (intro that) simp_all
qed

lemma nt_Decrypt2_value:
  fixes md :: "'a::len word"
  assumes key: "nt_key_ok sk md f g" and v: "nt_valid f ct" and pt: "pt_ok p md"
  shows "nt_Decrypt2 sk ct p = Inr (word_of_int (decode (uint md) (uint p) (nt_phase f ct)))"
proof -
  note F = pt_ok_facts [OF pt]
  obtain r where r: "nt_inner sk ct md = Inr r" "uint r = nt_phase f ct mod uint md" "nct_modulus ct = md" "nct_elements ct \<noteq> []"
    using nt_inner_value [OF key v] .
  have "modulus_ok md" using key barrett_modulus_ok by (auto simp: nt_key_ok_def Let_def)
  then have "decrypt_round md (ucast p) (ucast (p * 2)) r = Inr (word_of_int (decode (uint md) (uint p) (nt_phase f ct)))"
    using r(2) F pt by (intro decrypt_round_value) (simp_all add: pt_ok_def)
  then show ?thesis using r F(4) by (simp add: nt_Decrypt2_def Let_def)
qed

lemma nt_Decrypt_value:
  fixes md :: "'a::len word"
  assumes key: "nt_key_ok sk md f g" and v: "nt_valid f ct" and pt: "pt_ok p md" "1 < uint p"
  shows "nt_Decrypt sk ct p = Inr (word_of_int
    (decode (uint md) (uint p) (nt_phase f ct + (uint md div uint p - uint md div (2 * uint p)))))"
proof -
  note F = pt_ok_facts [OF pt(1)]
  obtain r where r: "nt_inner sk ct md = Inr r" "uint r = nt_phase f ct mod uint md" "nct_modulus ct = md" "nct_elements ct \<noteq> []"
    using nt_inner_value [OF key v] .
  have bm: "modulus_ok md" using key barrett_modulus_ok by (auto simp: nt_key_ok_def Let_def)
  have "decrypt_round md (ucast p) (ucast p) r
      = Inr (word_of_int (uint p * ((nt_phase f ct + uint md div uint (ucast p :: 'a word)) mod uint md) div uint md))"
    using r(2) F pt bm by (intro decrypt_round_offset) (simp_all add: pt_ok_def)
  then show ?thesis using r F(1,4) by (simp add: nt_Decrypt_def Let_def decode_def)
qed

section \<open>Key generation\<close>

lemma lift_entry_value:
  fixes q_base coef :: "32 word"
  assumes q: "uint q_base \<le> 2 ^ 31" "uint q_base < 2 ^ LENGTH('a)" and c: "uint coef < uint q_base"
  shows "uint (lift_entry q_base coef :: 'a::len word) = uint coef"
proof (cases "coef > q_base div 2")
  case True
  define v where "v = uint coef - uint q_base"
  have v: "- (2 ^ 31) \<le> v" "v < 0" using q c uint_ge_0 [of coef] unfolding v_def by linarith+
  have "coef - q_base = word_of_int v" by (simp add: v_def)
  then have "sint (coef - q_base) = signed_take_bit 31 v" by (simp only: sint_sbintrunc') simp
  also have "\<dots> = v" using v by (intro signed_take_bit_int_eq_self) simp_all
  finally have s: "sint (coef - q_base) = v" .
  have "(lift_entry q_base coef :: 'a word) = ucast q_base - word_of_int (- v)"
    using True v s by (simp add: lift_entry_def Let_def SubFast_def)
  also have "\<dots> = word_of_int (uint coef)" unfolding ucast_eq wi_hom_sub by (simp only: v_def) simp
  finally show ?thesis using c q by (simp add: uint_ucast_small)
next
  case False
  then have "uint coef \<le> uint q_base div 2" by (simp add: word_less_def uint_div_eq not_less)
  moreover have "uint q_base div 2 \<le> 2 ^ 31 div 2" using q(1) by (rule zdiv_mono1) simp
  ultimately have lt: "uint coef < 2 ^ 31" by simp
  then have "- (2 ^ 31) \<le> uint coef" using uint_ge_0 [of coef] by linarith
  with lt have "signed_take_bit 31 (uint coef) = uint coef" by (intro signed_take_bit_int_eq_self)
  then have "sint coef = uint coef" by (simp add: sint_uint)
  then have "(lift_entry q_base coef :: 'a word) = word_of_int (uint coef)"
    using False uint_ge_0 [of coef] by (simp add: lift_entry_def Let_def del: uint_ge_0)
  then show ?thesis using c q by (simp add: uint_ucast_small)
qed

text \<open>The matrices of NTL: square, with entries below the modulus, the second inverting the first.\<close>

definition ntl_ok :: "nat \<Rightarrow> nat \<Rightarrow> int \<Rightarrow> (nat \<Rightarrow> 32 word list list) \<Rightarrow> (nat \<Rightarrow> 32 word list list) \<Rightarrow> bool" where
  "ntl_ok k n q A B \<longleftrightarrow>
     (\<forall>u<k. \<forall>i<n. \<forall>j<n. uint (A u ! i ! j) < q \<and> uint (B u ! i ! j) < q)
     \<and> (\<forall>u<k. \<forall>l<n. (\<Sum>j<n. uint (B u ! l ! j) * uint (A u ! j ! 0)) mod q = (if l = 0 then 1 else 0) mod q)"

lemma KeyGen_fields:
  fixes Q :: "'a::len word" and A B :: "nat \<Rightarrow> 32 word list list" and k n :: nat
  defines "sk \<equiv> nt_KeyGen k n Q A B"
  assumes "0 < k" "0 < n"
  shows "key_k sk = k" "key_length sk = n" "mats_ok k n (key_F sk)" "mats_ok k n (key_F_inv sk)"
    "u < k \<Longrightarrow> GetF_col0 sk ! u = \<lparr> m_modulus = Q, m_data = map (\<lambda>j. lift_entry (ucast Q) (A u ! j ! 0)) [0..<n] \<rparr>"
    "u < k \<Longrightarrow> i < n \<Longrightarrow> GetF_inv_coli sk i ! u = \<lparr> m_modulus = Q, m_data = map (\<lambda>j. lift_entry (ucast Q) (B u ! j ! i)) [0..<n] \<rparr>"
proof -
  have r: "mats_ok k n (map (\<lambda>i. Get_invertible_Matrix Q (ucast Q) n (X i)) [0..<k])" for X
    using assms by (auto simp: mats_ok_def reads_ok_def Get_invertible_Matrix_def take_map)
  show "key_k sk = k" "key_length sk = n" "mats_ok k n (key_F sk)" "mats_ok k n (key_F_inv sk)"
    using assms r by (simp_all add: nt_KeyGen_def MNTRUPrivateKey_def Let_def Get_invertible_Matrix_def)
  show "u < k \<Longrightarrow> GetF_col0 sk ! u = \<lparr> m_modulus = Q, m_data = map (\<lambda>j. lift_entry (ucast Q) (A u ! j ! 0)) [0..<n] \<rparr>"
    "u < k \<Longrightarrow> i < n \<Longrightarrow> GetF_inv_coli sk i ! u = \<lparr> m_modulus = Q, m_data = map (\<lambda>j. lift_entry (ucast Q) (B u ! j ! i)) [0..<n] \<rparr>"
    using assms by (simp_all add: nt_KeyGen_def MNTRUPrivateKey_def Let_def Get_invertible_Matrix_def
        GetF_col0_def GetF_inv_coli_def mat_col_def cong: map_cong)
qed

text \<open>A column of a generated matrix, after the switch to a modulus that divides that of the key.\<close>

lemma lifted_column:
  fixes Q md :: "'a::len word"
  assumes Q: "modulus_ok Q" "uint Q \<le> 2 ^ 31" and md: "modulus_ok md" "GetMSB md \<le> MAX_MODULUS_SIZE LENGTH('a)"
    and dvd: "uint md dvd uint Q" and c: "\<forall>j<n. uint (c j) < uint Q"
  obtains v where "SwitchModulus \<lparr> m_modulus = Q, m_data = map (\<lambda>j. lift_entry (ucast Q) (c j)) [0..<n] \<rparr> md = Inr v"
    "nvec_ok v" "m_modulus v = md" "length (m_data v) = n" "\<forall>j<n. vals v ! j mod uint md = uint (c j) mod uint md"
proof -
  let ?w = "\<lparr> m_modulus = Q, m_data = map (\<lambda>j. lift_entry (ucast Q) (c j)) [0..<n] \<rparr>"
  have uQ: "uint (ucast Q :: 32 word) = uint Q" using Q(2) by (intro uint_ucast_small) simp
  have L: "uint (lift_entry (ucast Q) (c j) :: 'a word) = uint (c j)" if "j < n" for j
    using that c Q(2) uint_lt_pow [of Q] by (intro lift_entry_value) (simp_all add: uQ)
  have w: "nvec_ok ?w" using Q(1) L c by (auto simp: nvec_ok_def residue_def)
  obtain v where v: "SwitchModulus ?w md = Inr v" "nvec_ok v" "m_modulus v = md"
    "vals v = map (\<lambda>x. centered (uint Q) x mod uint md) (vals ?w)"
    using SwitchModulus_value [OF w md] by auto
  have "length (vals v) = n" unfolding v(4) by simp
  then have len: "length (m_data v) = n" by simp
  have "vals v ! j mod uint md = uint (c j) mod uint md" if "j < n" for j
  proof -
    have "vals v ! j mod uint md = centered (uint Q) (uint (c j)) mod uint md"
      unfolding v(4) using that L [OF that] by (simp add: vals_def)
    also have "\<dots> = centered (uint Q) (uint (c j)) mod uint Q mod uint md" by (simp add: mod_mod_cancel [OF dvd])
    also have "\<dots> = uint (c j) mod uint md" unfolding centered_mod by (rule mod_mod_cancel [OF dvd])
    finally show ?thesis .
  qed
  then show ?thesis using v(1-3) len by (intro that [of v]) simp_all
qed

lemma KeyGen_key_ok:
  fixes Q md :: "'a::len word"
  assumes kn: "0 < k" "0 < n" and Q: "modulus_ok Q" "uint Q \<le> 2 ^ 31"
    and md: "barrett_modulus md" "GetMSB md \<le> MAX_MODULUS_SIZE LENGTH('a)" "uint md dvd uint Q"
    and ntl: "ntl_ok k n (uint Q) A B"
  obtains f g where "nt_key_ok (nt_KeyGen k n Q A B) md f g"
proof -
  define sk where "sk = nt_KeyGen k n Q A B"
  note F = KeyGen_fields [where Q = Q and A = A and B = B, OF kn, folded sk_def]
  define P where "P = (\<lambda>c v. SwitchModulus \<lparr> m_modulus = Q, m_data = map (\<lambda>j. lift_entry (ucast Q) (c j)) [0..<n] \<rparr> md = Inr v
    \<and> nvec_ok v \<and> m_modulus v = md \<and> length (m_data v) = n \<and> (\<forall>j<n. vals v ! j mod uint md = uint (c j :: 32 word) mod uint md))"
  have ex: "\<exists>v. P c v" if "\<forall>j<n. uint (c j) < uint Q" for c
    unfolding P_def by (rule lifted_column [OF Q barrett_modulus_ok [OF md(1)] md(2,3) that]) blast
  have "\<exists>v. P (\<lambda>j. A u ! j ! 0) v" if "u < k" for u using that kn ntl by (intro ex) (simp add: ntl_ok_def)
  then obtain f where f: "\<And>u. u < k \<Longrightarrow> P (\<lambda>j. A u ! j ! 0) (f u)" by metis
  have "\<exists>v. P (\<lambda>j. B u ! j ! i) v" if "u < k" "i < n" for u i using that kn ntl by (intro ex) (simp add: ntl_ok_def)
  then obtain g where g: "\<And>u i. u < k \<Longrightarrow> i < n \<Longrightarrow> P (\<lambda>j. B u ! j ! i) (g u i)" by metis
  define fl where "fl = map f [0..<k]"
  define gl where "gl = map (\<lambda>u. map (g u) [0..<n]) [0..<k]"
  have inv: "(\<Sum>j<n. vals (g u j) ! l * vals (f u) ! j) mod uint md = (if l = 0 then 1 else 0) mod uint md"
    if "u < k" "l < n" for u l
  proof -
    have "(\<Sum>j<n. vals (g u j) ! l * vals (f u) ! j) mod uint md = (\<Sum>j<n. uint (B u ! l ! j) * uint (A u ! j ! 0)) mod uint md"
      using f [OF that(1)] g [OF that(1)] that(2) unfolding P_def by (intro sum_mod_cong mod_mult_cong) auto
    also have "\<dots> = (\<Sum>j<n. uint (B u ! l ! j) * uint (A u ! j ! 0)) mod uint Q mod uint md"
      by (simp add: mod_mod_cancel [OF md(3)])
    also have "\<dots> = (if l = 0 then 1 else 0) mod uint Q mod uint md" using ntl that by (simp add: ntl_ok_def)
    finally show ?thesis by (simp only: mod_mod_cancel [OF md(3)])
  qed
  have "nt_key_ok sk md fl gl"
    unfolding nt_key_ok_def Let_def F(1,2) mk_key_def
    using md(1) F(3-6) f g inv unfolding P_def by (simp add: fl_def gl_def)
  then show ?thesis using that by (simp add: sk_def)
qed

section \<open>The blocked matrix product\<close>

text \<open>Four entries at a time and a remainder visit the indices in order.\<close>

lemma blocks_concat: "concat (map (\<lambda>b. map (\<lambda>d. 4 * b + d) [0..<4]) [0..<m]) = [0..<4 * m]"
proof (induction m)
  case (Suc m)
  have "[0..<4 * Suc m] = [0..<4 * m] @ [4 * m..<4 * m + 4]" using upt_add_eq_append [of 0 "4 * m" 4] by (simp add: add.commute)
  moreover have "map (\<lambda>d. 4 * m + d) [0..<4] = [4 * m..<4 * m + 4]"
    using map_add_upt [of "4 * m" 4] by (simp add: add.commute)
  ultimately show ?case using Suc by simp
qed simp

lemma ksk_row_step_plain: "ksk_row_step q n coef f_row k_row = foldR (mac q coef f_row) [0..<n] k_row"
proof -
  let ?m = "n div 4" and ?r = "n mod 4"
  have n: "4 * ?m + ?r = n" by simp
  have "foldR (\<lambda>d. mac q coef f_row (4 * b + d)) [0..<4] = foldR (mac q coef f_row) (map (\<lambda>d. 4 * b + d) [0..<4])" for b
    by (rule ext) (rule foldR_map)
  then have "foldR (\<lambda>b. foldR (\<lambda>d. mac q coef f_row (4 * b + d)) [0..<4]) [0..<?m] k_row
      = foldR (\<lambda>b. foldR (mac q coef f_row) (map (\<lambda>d. 4 * b + d) [0..<4])) [0..<?m] k_row"
    by (simp only:)
  also have "\<dots> = foldR (mac q coef f_row) [0..<4 * ?m] k_row" by (simp only: foldR_concat blocks_concat)
  finally have a: "foldR (\<lambda>b. foldR (\<lambda>d. mac q coef f_row (4 * b + d)) [0..<4]) [0..<?m] k_row
      = foldR (mac q coef f_row) [0..<4 * ?m] k_row" .
  have "map (\<lambda>j. ?m * 4 + j) [0..<?r] = [4 * ?m..<n]"
    using map_add_upt [of "4 * ?m" ?r] n by (simp add: add.commute mult.commute)
  then have b: "foldR (\<lambda>j. mac q coef f_row (?m * 4 + j)) [0..<?r] = foldR (mac q coef f_row) [4 * ?m..<n]"
    by (simp only: foldR_map fun_eq_iff) simp
  have "[0..<n] = [0..<4 * ?m] @ [4 * ?m..<n]" using upt_add_eq_append [of 0 "4 * ?m" ?r] n by simp
  then show ?thesis unfolding ksk_row_step_def Let_def a b by (simp only: foldR_append)
qed

lemma mac_fold:
  assumes "m \<le> length k_row" and
    "\<And>j. j < length k_row \<Longrightarrow> \<bar>k_row ! j\<bar> \<le> K \<and> \<bar>coef * center_long q (as_long (f_row ! j))\<bar> \<le> B" and "K + B < 2 ^ 63"
  shows "foldR (mac q coef f_row) [0..<m] k_row
    = Inr (map (\<lambda>j. if j < m then k_row ! j + coef * center_long q (as_long (f_row ! j)) else k_row ! j) [0..<length k_row])"
  using assms(1)
proof (induction m)
  case 0
  then show ?case by (simp add: map_nth)
next
  case (Suc m)
  let ?x = "coef * center_long q (as_long (f_row ! m))"
  have m: "m < length k_row" using Suc.prems by simp
  note b = assms(2) [OF m]
  have "0 \<le> K" "0 \<le> B" using b by linarith+
  then have "inS 64 ?x = Inr ?x" "inS 64 (k_row ! m + ?x) = Inr (k_row ! m + ?x)"
    using b assms(3) by (auto simp: inS_def abs_le_iff)
  then show ?case
    using Suc m by (auto simp: foldR_append mac_def intro!: nth_equalityI simp: nth_list_update less_Suc_eq)
qed

lemma ksk_long_row_value:
  assumes H: "\<And>l. l < n \<Longrightarrow> \<bar>g_row ! l\<bar> \<le> H"
    "\<And>l j. l < n \<Longrightarrow> j < n \<Longrightarrow> \<bar>center_long q (as_long (m_data (sk_inv ! l) ! j))\<bar> \<le> H"
    and fit: "int n * (H * H) < 2 ^ 63" and "0 \<le> H"
  shows "ksk_long_row q n g_row sk_inv
    = Inr (map (\<lambda>j. \<Sum>l<n. g_row ! l * center_long q (as_long (m_data (sk_inv ! l) ! j))) [0..<n])"
proof -
  let ?f = "\<lambda>l j. g_row ! l * center_long q (as_long (m_data (sk_inv ! l) ! j))"
  have b: "\<bar>?f l j\<bar> \<le> H * H" if "l < n" "j < n" for l j
    unfolding abs_mult using H that assms(4) by (intro mult_mono) auto
  have "foldR (\<lambda>l. ksk_row_step q n (g_row ! l) (m_data (sk_inv ! l))) [0..<m] (replicate n 0)
      = Inr (map (\<lambda>j. \<Sum>l<m. ?f l j) [0..<n])" if "m \<le> n" for m
    using that
  proof (induction m)
    case 0
    then show ?case by (simp add: map_replicate_const)
  next
    case (Suc m)
    let ?k = "map (\<lambda>j. \<Sum>l<m. ?f l j) [0..<n]"
    have K: "\<bar>?k ! j\<bar> \<le> int m * (H * H)" if "j < n" for j
    proof -
      have "\<bar>\<Sum>l<m. ?f l j\<bar> \<le> (\<Sum>l<m. \<bar>?f l j\<bar>)" by (rule sum_abs)
      also have "\<dots> \<le> (\<Sum>l<m. H * H)" using b that Suc.prems by (intro sum_mono) auto
      finally show ?thesis using that by simp
    qed
    have "int (Suc m) * (H * H) \<le> int n * (H * H)" using Suc.prems by (intro mult_right_mono) auto
    then have "int m * (H * H) + H * H < 2 ^ 63" using fit by (simp add: distrib_right)
    then have "foldR (mac q (g_row ! m) (m_data (sk_inv ! m))) [0..<n] ?k
        = Inr (map (\<lambda>j. if j < n then ?k ! j + ?f m j else ?k ! j) [0..<length ?k])"
      using K b Suc.prems by (intro mac_fold [where K = "int m * (H * H)" and B = "H * H"]) auto
    then show ?case using Suc by (simp add: foldR_append ksk_row_step_plain cong: map_cong)
  qed
  then show ?thesis by (simp add: ksk_long_row_def)
qed

section \<open>Centred residues\<close>

lemma as_long_value: "uint v < 2 ^ 63 \<Longrightarrow> as_long v = uint v"
  unfolding as_long_def using uint_ge_0 [of v] by (intro signed_take_bit_int_eq_self) linarith+

lemma center_long_value:
  assumes "0 \<le> x" "x < q"
  shows "center_long q x = centered q x" "\<bar>center_long q x\<bar> \<le> q div 2" "center_long q x mod q = x mod q"
proof -
  have "q sdiv 2 = q div 2" using assms by (simp add: signed_divide_int_def)
  then show c: "center_long q x = centered q x" by (simp add: center_long_def centered_def)
  show "\<bar>center_long q x\<bar> \<le> q div 2" unfolding c centered_def using assms by auto
  show "center_long q x mod q = x mod q" unfolding c by (rule centered_mod)
qed

lemma mod_q_value:
  fixes q :: int
  assumes q: "0 < q" "q \<le> 2 ^ 31" "q \<le> 2 ^ LENGTH('a)" and i: "i < length input"
  shows "uint ((mod_q input q :: 'a::len word list) ! i) = input ! i mod q"
proof -
  define r where "r = input ! i smod q"
  have r: "r mod q = input ! i mod q" "- q < r" "r < q"
  proof -
    have rv: "r = sgn (input ! i) * (\<bar>input ! i\<bar> mod q)" unfolding r_def signed_modulo_int_def using q(1) by simp
    show "r mod q = input ! i mod q"
    proof (cases "input ! i < 0")
      case True
      then have "r = - (- (input ! i) mod q)" by (simp add: rv)
      then show ?thesis by (simp add: mod_minus_eq)
    next
      case False
      then show ?thesis by (cases "input ! i = 0") (simp_all add: rv)
    qed
    have "\<bar>r\<bar> \<le> \<bar>input ! i\<bar> mod q" unfolding rv abs_mult using q(1) by (cases "input ! i = 0") (simp_all add: sgn_if)
    then have "\<bar>r\<bar> < q" using q(1) pos_mod_bound [OF q(1), of "\<bar>input ! i\<bar>"] by linarith
    then show "- q < r" "r < q" by linarith+
  qed
  have t1: "to_int32 r = r" unfolding to_int32_def using r q by (intro signed_take_bit_int_eq_self) linarith+
  have t2: "to_int32 (r + q) = r + q" if "r < 0"
    unfolding to_int32_def using r q that by (intro signed_take_bit_int_eq_self) linarith+
  have "(if r < 0 then r + q else r) = input ! i mod q"
  proof (cases "r < 0")
    case True
    have "(r + q) mod q = r + q" using True r by (intro mod_pos_pos_trivial) linarith+
    then show ?thesis using True r(1) by simp
  next
    case False
    then show ?thesis using r by (simp add: mod_pos_pos_trivial)
  qed
  then have "(if to_int32 r < 0 then to_int32 (to_int32 r + q) else to_int32 r) = input ! i mod q"
    unfolding t1 using t2 by (simp split: if_splits)
  then have "(mod_q input q :: 'a word list) ! i = word_of_int (input ! i mod q)"
    using i by (simp only: mod_q_def Let_def r_def nth_map)
  moreover have "0 \<le> input ! i mod q" "input ! i mod q < 2 ^ LENGTH('a)"
    using q pos_mod_bound [OF q(1), of "input ! i"] by (simp_all, linarith)
  ultimately show ?thesis by (simp only:) (rule word_of_uint_mod)
qed

section \<open>Key switching\<close>

text \<open>The rows of the gadget: residues, whose first entries are the noise plus the scaled key.\<close>

lemma gadget_rows_ok:
  fixes Q :: "'a::len word"
  assumes Q: "modulus_ok Q" and E: "length E = n" "0 < n" "\<forall>x \<in> set E. residue Q x"
  shows "length (gadget_rows Q b N dc E s) = N * dc"
    "\<forall>row \<in> set (gadget_rows Q b N dc E s). length row = n \<and> (\<forall>x \<in> set row. residue Q x)"
proof -
  have pos: "0 < uint Q" using Q by (simp add: modulus_ok_def)
  show "length (gadget_rows Q b N dc E s) = N * dc"
    by (simp add: gadget_rows_def Let_def length_concat comp_def sum_list_triv)
  have "residue Q (ModAddEq x y Q)" for x y
    using residue_uint_mod [OF _ pos] unfolding in_place_variants using uint_ModAdd [OF Q] by blast
  then show "\<forall>row \<in> set (gadget_rows Q b N dc E s). length row = n \<and> (\<forall>x \<in> set row. residue Q x)"
    using E by (auto simp: gadget_rows_def Let_def dest!: set_update_subset_insert [THEN subsetD])
qed

lemma gadget_rows_col0:
  fixes Q :: "'a::len word"
  assumes Q: "modulus_ok Q" and E: "length E = n" "0 < n" and s: "length s = N" "\<forall>x \<in> set s. residue Q x"
    and fit: "uint Q * int base ^ dc \<le> 2 ^ LENGTH('a)" and base: "0 < base"
  shows "map (\<lambda>row. uint (row ! 0)) (gadget_rows Q (of_nat base) N dc E s)
    = concat (map (\<lambda>i. map (\<lambda>j. (uint (E ! 0) + uint (s ! i) * int base ^ j) mod uint Q) [0..<dc]) [0..<N])"
proof -
  have pos: "0 < uint Q" using Q by (simp add: modulus_ok_def)
  have "uint (ModAddEq (E ! 0) (digitsKS (of_nat base) dc (if i = 0 then s ! 0 else ModAddEq 0 (s ! i) Q) ! j) Q)
      = (uint (E ! 0) + uint (s ! i) * int base ^ j) mod uint Q" if "i < N" "j < dc" for i j
  proof -
    have r: "uint (s ! i) < uint Q" using s that by (simp add: residue_def)
    have "(if i = 0 then s ! 0 else ModAddEq 0 (s ! i) Q) = s ! i"
      using r by (auto simp: word_uint_eq_iff in_place_variants uint_ModAdd [OF Q])
    moreover have "uint (s ! i * of_nat base ^ j) = uint (s ! i) * int base ^ j"
    proof -
      have "int base ^ j \<le> int base ^ dc" using that base by (intro power_increasing) simp_all
      then have "uint (s ! i) * int base ^ j \<le> uint (s ! i) * int base ^ dc" by (intro mult_left_mono) simp_all
      also have "\<dots> < uint Q * int base ^ dc" using r base by simp
      finally have lt: "uint (s ! i) * int base ^ j < 2 ^ LENGTH('a)" using fit by linarith
      have "s ! i * of_nat base ^ j = word_of_int (uint (s ! i) * int base ^ j)" by simp
      then show ?thesis using lt by (simp only:) (rule word_of_uint_mod, simp_all)
    qed
    ultimately show ?thesis using that by (simp add: in_place_variants uint_ModAdd [OF Q] digitsKS_nth)
  qed
  then show ?thesis using E by (auto simp: gadget_rows_def Let_def map_concat comp_def intro!: arg_cong [of _ _ concat])
qed

lemma ksk_rows_value:
  fixes params :: "'a::len mntru_params" and E s :: "'a word list"
  defines "Q \<equiv> np_qKS params" and "n \<equiv> np_n params" and "N \<equiv> np_N params"
    and "dc \<equiv> digitCount (np_qKS params) (np_baseKS params)"
  defines "G \<equiv> gadget_rows Q (of_nat (np_baseKS params)) N dc E s"
  assumes Q: "modulus_ok Q" "uint Q \<le> 2 ^ 31" and n: "0 < n" and fit: "int n * (uint Q div 2 * (uint Q div 2)) < 2 ^ 63"
    and E: "length E = n" "\<forall>x \<in> set E. residue Q x" and M: "mk_key n n Q ((!) M)"
  obtains rows where "ksk_rows params M s E = Inr rows" "length rows = N * dc"
    "\<forall>r<N * dc. length (rows ! r) = n \<and> (\<forall>i<n. residue Q (rows ! r ! i)
       \<and> uint (rows ! r ! i) = (\<Sum>l<n. uint (G ! r ! l) * vals (M ! l) ! i) mod uint Q)"
proof -
  have pos: "0 < uint Q" using Q by (simp add: modulus_ok_def)
  note G = gadget_rows_ok [OF Q(1) E(1) n E(2), of "of_nat (np_baseKS params)" N dc s, folded G_def]
  have al: "as_long x = uint x" if "uint x < uint Q" for x :: "'a word"
    using that Q(2) by (intro as_long_value) simp
  have aq: "as_long Q = uint Q" using Q(2) by (intro as_long_value) simp
  define cl where "cl = (\<lambda>x :: 'a word. center_long (uint Q) (as_long x))"
  have cl: "\<bar>cl x\<bar> \<le> uint Q div 2" "cl x mod uint Q = uint x mod uint Q" if "residue Q x" for x
    using that center_long_value [of "uint x" "uint Q"] by (simp_all add: cl_def al residue_def)
  define long where "long = (\<lambda>row. map (\<lambda>j. \<Sum>l<n. cl (row ! l) * cl (m_data (M ! l) ! j)) [0..<n])"
  have Mr: "residue Q (m_data (M ! l) ! j)" "length (m_data (M ! l)) = n" if "l < n" "j < n" for l j
    using M that by (auto simp: mk_key_def nvec_ok_def)
  have one: "ksk_long_row (uint Q) n (map cl row) M = Inr (long row)" if "row \<in> set G" for row
  proof -
    have row: "length row = n" "\<forall>l<n. residue Q (row ! l)" using G(2) that by auto
    have "ksk_long_row (uint Q) n (map cl row) M
        = Inr (map (\<lambda>j. \<Sum>l<n. map cl row ! l * center_long (uint Q) (as_long (m_data (M ! l) ! j))) [0..<n])"
      using fit row cl(1) Mr(1) [THEN cl(1), unfolded cl_def] pos
      by (intro ksk_long_row_value [where H = "uint Q div 2"]) (auto simp: pos_imp_zdiv_nonneg_iff)
    then show ?thesis using row by (simp add: long_def cl_def cong: map_cong)
  qed
  define rows where "rows = map (\<lambda>row. mod_q (long row) (uint Q) :: 'a word list) G"
  have "ksk_rows params M s E = Inr rows"
    unfolding ksk_rows_def Let_def Q_def [symmetric] n_def [symmetric] N_def [symmetric] dc_def [symmetric, folded Q_def]
      aq G_def [symmetric] rows_def using one by (intro mapR_Inr) (simp add: cl_def)
  moreover have "length rows = N * dc" using G(1) by (simp add: rows_def)
  moreover have "length (rows ! r) = n \<and> (\<forall>i<n. residue Q (rows ! r ! i)
       \<and> uint (rows ! r ! i) = (\<Sum>l<n. uint (G ! r ! l) * vals (M ! l) ! i) mod uint Q)" if "r < N * dc" for r
  proof -
    have g: "G ! r \<in> set G" "length (G ! r) = n" "\<forall>l<n. residue Q (G ! r ! l)"
      using G that by (simp_all add: all_set_conv_all_nth)
    have "uint (mod_q (long (G ! r)) (uint Q) ! i :: 'a word) = (\<Sum>l<n. uint (G ! r ! l) * vals (M ! l) ! i) mod uint Q"
      if i: "i < n" for i
    proof -
      have "uint (mod_q (long (G ! r)) (uint Q) ! i :: 'a word) = (\<Sum>l<n. cl (G ! r ! l) * cl (m_data (M ! l) ! i)) mod uint Q"
        using i pos Q(2) uint_lt_pow [of Q] by (subst mod_q_value) (simp_all add: long_def less_imp_le)
      also have "\<dots> = (\<Sum>l<n. uint (G ! r ! l) * vals (M ! l) ! i) mod uint Q"
        using cl(2) g Mr i by (intro sum_mod_cong mod_mult_cong) (simp_all add: vals_def)
      finally show ?thesis .
    qed
    moreover have "length (mod_q (long (G ! r)) (uint Q) :: 'a word list) = n" by (simp add: mod_q_def long_def)
    ultimately show ?thesis using that G(1) residue_uint_mod pos by (auto simp: rows_def)
  qed
  ultimately show ?thesis using that by blast
qed

lemma ct_hat_lt:
  assumes "0 < base" "x \<in> set (ct_hat base N dc c)"
  shows "unat x < base"
proof -
  from assms(2) obtain i j where "j < dc" "x = of_nat (ks_digits base dc (unat (c ! i)) ! j)"
    by (auto simp: ct_hat_def in_set_conv_nth)
  then show ?thesis using ks_digits_lt [OF assms(1)] by (metis le_less_trans mod_less_eq_dividend unat_of_nat)
qed

text \<open>The digits of a ciphertext vector are residues, and recompose its entries.\<close>

lemma ct_hat_ok:
  fixes Q :: "'a::len word"
  assumes c: "\<forall>i<N. residue Q (c ! i)"
  shows "length (ct_hat base N dc c) = N * dc" "\<forall>x \<in> set (ct_hat base N dc c). residue Q x"
    "map uint (ct_hat base N dc c) = concat (map (\<lambda>i. map int (ks_digits base dc (unat (c ! i)))) [0..<N])"
proof -
  show "length (ct_hat base N dc c) = N * dc"
    by (simp add: ct_hat_def length_concat comp_def sum_list_triv)
  have u: "uint (of_nat d :: 'a word) = int d" "int d < uint Q" if "i < N" "d \<in> set (ks_digits base dc (unat (c ! i)))" for i d
  proof -
    have "d \<le> unat (c ! i)" using that ks_digits_le by (auto simp: in_set_conv_nth)
    then have "int d \<le> uint (c ! i)" by (simp only: uint_nat of_nat_le_iff)
    moreover have "uint (c ! i) < uint Q" using c that(1) by (simp add: residue_def)
    ultimately show lt: "int d < uint Q" by (rule order.strict_trans1)
    then have "int d < 2 ^ LENGTH('a)" using uint_lt_pow [of Q] by linarith
    then show "uint (of_nat d :: 'a word) = int d" using word_of_uint_mod [of "int d", where 'a = 'a] by simp
  qed
  show "\<forall>x \<in> set (ct_hat base N dc c). residue Q x" using u by (auto simp: ct_hat_def residue_def)
  show "map uint (ct_hat base N dc c) = concat (map (\<lambda>i. map int (ks_digits base dc (unat (c ! i)))) [0..<N])"
    using u(1) by (auto simp: ct_hat_def map_concat comp_def intro!: arg_cong [of _ _ concat])
qed

lemma gadget_product:
  assumes base: "1 < base" and fit: "\<forall>i<N. c i < base ^ dc"
  shows "inner (concat (map (\<lambda>i. map int (ks_digits base dc (c i))) [0..<N]))
      (concat (map (\<lambda>i. map (\<lambda>j. (e + s i * int base ^ j) mod q) [0..<dc]) [0..<N])) mod q
    = ((\<Sum>i<N. s i * int (c i)) + e * (\<Sum>i<N. \<Sum>j<dc. int (ks_digits base dc (c i) ! j))) mod (q :: int)"
proof -
  let ?d = "\<lambda>i j. int (ks_digits base dc (c i) ! j)"
  have "inner (concat (map (\<lambda>i. map int (ks_digits base dc (c i))) [0..<N]))
      (concat (map (\<lambda>i. map (\<lambda>j. (e + s i * int base ^ j) mod q) [0..<dc]) [0..<N]))
      = (\<Sum>i<N. \<Sum>j<dc. ?d i j * ((e + s i * int base ^ j) mod q))"
    by (subst inner_concat [of _ N]) (auto simp: inner_as_sum [where n = dc] intro!: sum.cong)
  also have "\<dots> mod q = (\<Sum>i<N. \<Sum>j<dc. ?d i j * (e + s i * int base ^ j)) mod q"
    by (intro sum_mod_cong) (simp add: mod_mult_right_eq)
  also have "(\<Sum>i<N. \<Sum>j<dc. ?d i j * (e + s i * int base ^ j))
      = (\<Sum>i<N. s i * (\<Sum>j<dc. ?d i j * int base ^ j)) + e * (\<Sum>i<N. \<Sum>j<dc. ?d i j)"
    by (simp add: distrib_left sum.distrib sum_distrib_left mult_ac)
  also have "(\<Sum>i<N. s i * (\<Sum>j<dc. ?d i j * int base ^ j)) = (\<Sum>i<N. s i * int (c i))"
  proof (intro sum.cong refl)
    fix i assume "i \<in> {..<N}"
    then have "int (\<Sum>j<dc. ks_digits base dc (c i) ! j * base ^ j) = int (c i)" using fit by (simp add: ks_digits_sum)
    then show "s i * (\<Sum>j<dc. ?d i j * int base ^ j) = s i * int (c i)" by simp
  qed
  finally show ?thesis .
qed

text \<open>What the callers guarantee for a key switch of the NTRU scheme.\<close>

definition nt_ks_inputs_ok ::
  "'a::len mntru_params \<Rightarrow> 'a mntru_sk \<Rightarrow> 'a nvec list \<Rightarrow> 'a nvec list \<Rightarrow> (nat \<Rightarrow> 'a nvec) \<Rightarrow> bool" where
  "nt_ks_inputs_ok params sk f sN dggKS \<longleftrightarrow>
     (let n = np_n params; N = np_N params; k = np_k params; Q = np_qKS params; base = np_baseKS params;
          dc = digitCount Q base in
      barrett_modulus Q \<and> 1 < uint Q \<and> 0 < N \<and> uint Q \<le> 2 ^ 31 \<and> int n * (uint Q div 2 * (uint Q div 2)) < 2 ^ 63
      \<and> 1 < base \<and> int base < 2 ^ 32 \<and> uint Q * int base ^ dc \<le> 2 ^ LENGTH('a)
      \<and> mats_ok k n (key_F_inv sk) \<and> (\<forall>u<k. mk_key n n Q ((!) (key_F_inv sk ! u)))
      \<and> length f = k \<and> mk_key k n Q ((!) f) \<and> length sN = k \<and> mk_key k N Q ((!) sN) \<and> mk_key k n Q dggKS
      \<and> (\<forall>u<k. \<forall>l<n. (\<Sum>i<n. vals (key_F_inv sk ! u ! l) ! i * vals (f ! u) ! i) mod uint Q = (if l = 0 then 1 else 0) mod uint Q))"

definition nt_ks_noise :: "'a::len mntru_params \<Rightarrow> (nat \<Rightarrow> 'a nvec) \<Rightarrow> 'a mntru_ct \<Rightarrow> int" where
  "nt_ks_noise params dggKS ct =
     (let dc = digitCount (np_qKS params) (np_baseKS params) in
      \<Sum>u<np_k params. uint (m_data (dggKS u) ! 0) *
        (\<Sum>i<np_N params. \<Sum>j<dc. int (ks_digits (np_baseKS params) dc (unat (m_data (nct_elements ct ! u) ! i)) ! j)))"

text \<open>The rows that both versions of the key generation compute.\<close>

definition key_rows ::
  "'a::len mntru_params \<Rightarrow> 'a mntru_sk \<Rightarrow> 'a nvec list \<Rightarrow> (nat \<Rightarrow> 'a nvec) \<Rightarrow> (nat \<Rightarrow> 'a word list list) \<Rightarrow> bool" where
  "key_rows params sk sN dggKS R \<longleftrightarrow>
     (\<forall>u<np_k params. ksk_rows params (key_F_inv sk ! u) (m_data (sN ! u)) (m_data (dggKS u)) = Inr (R u)
        \<and> length (R u) = np_N params * digitCount (np_qKS params) (np_baseKS params)
        \<and> (\<forall>r < np_N params * digitCount (np_qKS params) (np_baseKS params).
             length (R u ! r) = np_n params \<and> (\<forall>i<np_n params. residue (np_qKS params) (R u ! r ! i)
               \<and> uint (R u ! r ! i) = (\<Sum>l<np_n params.
                    uint (gadget_rows (np_qKS params) (of_nat (np_baseKS params)) (np_N params)
                      (digitCount (np_qKS params) (np_baseKS params)) (m_data (dggKS u)) (m_data (sN ! u)) ! r ! l)
                    * vals (key_F_inv sk ! u ! l) ! i) mod uint (np_qKS params))))"

lemma key_rows_exist:
  assumes "nt_ks_inputs_ok params sk f sN dggKS"
  obtains R where "key_rows params sk sN dggKS R"
proof -
  let ?Q = "np_qKS params" and ?n = "np_n params" and ?m = "np_N params * digitCount (np_qKS params) (np_baseKS params)"
  have K: "modulus_ok ?Q" "uint ?Q \<le> 2 ^ 31" "0 < ?n" "int ?n * (uint ?Q div 2 * (uint ?Q div 2)) < 2 ^ 63"
    "\<forall>u<np_k params. mk_key ?n ?n ?Q ((!) (key_F_inv sk ! u))" "mk_key (np_k params) ?n ?Q dggKS"
    using assms barrett_modulus_ok by (auto simp: nt_ks_inputs_ok_def Let_def mats_ok_def)
  define P where "P = (\<lambda>u rows. ksk_rows params (key_F_inv sk ! u) (m_data (sN ! u)) (m_data (dggKS u)) = Inr rows
        \<and> length rows = ?m \<and> (\<forall>r<?m. length (rows ! r) = ?n \<and> (\<forall>i<?n. residue ?Q (rows ! r ! i)
               \<and> uint (rows ! r ! i) = (\<Sum>l<?n.
                    uint (gadget_rows ?Q (of_nat (np_baseKS params)) (np_N params)
                      (digitCount ?Q (np_baseKS params)) (m_data (dggKS u)) (m_data (sN ! u)) ! r ! l)
                    * vals (key_F_inv sk ! u ! l) ! i) mod uint ?Q)))"
  have "\<exists>rows. P u rows" if u: "u < np_k params" for u
    unfolding P_def
    by (rule ksk_rows_value [OF K(1-4) mk_key_residues(2) [OF K(6) u] mk_key_residues(1) [OF K(6) u] K(5) [rule_format, OF u]])
      blast
  then obtain R where "\<And>u. u < np_k params \<Longrightarrow> P u (R u)" by metis
  then have "key_rows params sk sN dggKS R" unfolding key_rows_def P_def by blast
  then show ?thesis by (rule that)
qed

text \<open>The combination of the rows by the digits: what both versions of the key switch return for a party.\<close>

definition ks_comb :: "'a::len word \<Rightarrow> nat \<Rightarrow> 'a word list \<Rightarrow> 'a word list list \<Rightarrow> 'a word list" where
  "ks_comb Q n hat rows =
     map (\<lambda>i. word_of_int ((\<Sum>r<length rows. uint (hat ! r) * uint (rows ! r ! i)) mod uint Q)) [0..<n]"

lemma ks_comb_nth:
  assumes "i < n" "0 < uint Q"
  shows "uint (ks_comb Q n hat rows ! i) = (\<Sum>r<length rows. uint (hat ! r) * uint (rows ! r ! i)) mod uint (Q :: 'a::len word)"
proof -
  let ?x = "(\<Sum>r<length rows. uint (hat ! r) * uint (rows ! r ! i)) mod uint Q"
  have "?x < 2 ^ LENGTH('a)" using pos_mod_bound [OF assms(2)] uint_lt_pow [of Q] by (rule order.strict_trans)
  then have "uint (word_of_int ?x :: 'a word) = ?x" using assms(2) by (intro word_of_uint_mod) simp_all
  then show ?thesis using assms(1) by (simp add: ks_comb_def)
qed

lemma dot_vec_comb:
  fixes Q :: "'a::len word"
  assumes Q: "barrett_modulus Q" and hat: "length hat = length rows" "\<forall>x \<in> set hat. residue Q x"
    and rows: "\<forall>r < length rows. residue Q (rows ! r ! i)" and i: "i < n"
  shows "dot_vec Q (length rows) \<lparr> m_modulus = Q, m_data = hat \<rparr> \<lparr> m_modulus = Q, m_data = map (\<lambda>r. rows ! r ! i) [0..<length rows] \<rparr>
    = Inr (ks_comb Q n hat rows ! i)"
proof -
  have pos: "0 < uint Q" using barrett_modulus_facts [OF Q] by blast
  have v: "nvec_ok \<lparr> m_modulus = Q, m_data = hat \<rparr>" "nvec_ok \<lparr> m_modulus = Q, m_data = map (\<lambda>r. rows ! r ! i) [0..<length rows] \<rparr>"
    using barrett_modulus_ok [OF Q] hat rows by (auto simp: nvec_ok_def)
  obtain r where r: "dot_vec Q (length rows) \<lparr> m_modulus = Q, m_data = hat \<rparr> \<lparr> m_modulus = Q, m_data = map (\<lambda>r. rows ! r ! i) [0..<length rows] \<rparr> = Inr r"
    "uint r = inner (map uint hat) (map uint (map (\<lambda>r. rows ! r ! i) [0..<length rows])) mod uint Q"
    by (rule dot_vec_value [OF v _ _ Q]) (auto simp: vals_def hat)
  have "uint r = uint (ks_comb Q n hat rows ! i)"
    unfolding r(2) ks_comb_nth [OF i pos] using hat(1) by (simp add: inner_as_sum [where n = "length rows"])
  then show ?thesis using r(1) by (simp add: word_uint_eq_iff)
qed

lemma index_value:
  fixes x :: "'a::len word"
  assumes "unat x < base" "int base < 2 ^ 32"
  shows "unat (ucast x :: 32 word) = unat x"
proof -
  have "int (unat x) < int base" using assms(1) by (simp only: of_nat_less_iff)
  then have "uint x < 2 ^ 32" using assms(2) unfolding uint_nat by linarith
  then have "uint (ucast x :: 32 word) = uint x" by (intro uint_ucast_small) simp
  then show ?thesis by (simp only: unat_eq_nat_uint)
qed

text \<open>The second version adds the stored multiple of a row instead.\<close>

lemma fold_comb:
  fixes Q :: "'a::len word"
  assumes Q: "modulus_ok Q" and hat: "\<forall>r < length rows. unat (hat ! r) < base" "int base < 2 ^ 32"
    and rows: "\<forall>r < length rows. \<forall>i<n. residue Q (rows ! r ! i)"
  defines "row2 \<equiv> \<lambda>j r. map (\<lambda>x. ModMul x (of_nat j) Q) (rows ! r)"
  assumes len: "\<forall>r < length rows. length (rows ! r) = n"
  shows "fold (\<lambda>r c. let index = unat (ucast (hat ! r) :: 32 word) in
      if index \<noteq> 0 then map (\<lambda>i. ModAddFastEq (c ! i) (row2 index r ! i) Q) [0..<n] else c) [0..<length rows] (replicate n 0)
    = ks_comb Q n hat rows"
proof -
  have pos: "0 < uint Q" using Q by (simp add: modulus_ok_def)
  let ?step = "\<lambda>r c. let index = unat (ucast (hat ! r) :: 32 word) in
      if index \<noteq> 0 then map (\<lambda>i. ModAddFastEq (c ! i) (row2 index r ! i) Q) [0..<n] else c"
  have idx: "unat (ucast (hat ! r) :: 32 word) = unat (hat ! r)" if "r < length rows" for r
    using hat that by (intro index_value) auto
  have "length (fold ?step [0..<m] (replicate n 0)) = n
      \<and> (\<forall>i<n. uint (fold ?step [0..<m] (replicate n 0) ! i) = (\<Sum>r<m. uint (hat ! r) * uint (rows ! r ! i)) mod uint Q)"
    if "m \<le> length rows" for m
    using that
  proof (induction m)
    case (Suc m)
    let ?c = "fold ?step [0..<m] (replicate n 0)"
    have m: "m < length rows" using Suc.prems by simp
    have ih: "length ?c = n" "\<And>i. i < n \<Longrightarrow> uint (?c ! i) = (\<Sum>r<m. uint (hat ! r) * uint (rows ! r ! i)) mod uint Q"
      using Suc by auto
    show ?case
    proof (cases "unat (hat ! m) = 0")
      case True
      then have "uint (hat ! m) = 0" by (simp add: unat_eq_zero)
      then show ?thesis using ih True idx [OF m] by simp
    next
      case False
      have "uint (ModAddFastEq (?c ! i) (row2 (unat (hat ! m)) m ! i) Q)
          = (\<Sum>r<Suc m. uint (hat ! r) * uint (rows ! r ! i)) mod uint Q" if i: "i < n" for i
      proof -
        have x: "uint (row2 (unat (hat ! m)) m ! i) = uint (hat ! m) * uint (rows ! m ! i) mod uint Q"
          using len m i by (simp add: row2_def uint_ModMul [OF pos] mult.commute)
        have "uint (ModAddFastEq (?c ! i) (row2 (unat (hat ! m)) m ! i) Q)
            = (uint (?c ! i) + uint (row2 (unat (hat ! m)) m ! i)) mod uint Q"
          using residue_uint_mod [OF ih(2) [OF i] pos] residue_uint_mod [OF x pos] Q
          by (subst in_place_variants) (rule uint_ModAddFast)
        then show ?thesis unfolding ih(2) [OF i] x by (simp add: mod_add_eq)
      qed
      then show ?thesis using ih(1) False idx [OF m] by (simp add: Let_def)
    qed
  qed (simp add: mod_0)
  then have F: "length (fold ?step [0..<length rows] (replicate n 0)) = n"
    "\<forall>i<n. uint (fold ?step [0..<length rows] (replicate n 0) ! i) = (\<Sum>r<length rows. uint (hat ! r) * uint (rows ! r ! i)) mod uint Q"
    by blast+
  show ?thesis
  proof (rule nth_equalityI)
    show "length (fold ?step [0..<length rows] (replicate n 0)) = length (ks_comb Q n hat rows)"
      unfolding F(1) by (simp add: ks_comb_def)
  next
    fix i assume "i < length (fold ?step [0..<length rows] (replicate n 0))"
    then have "i < n" unfolding F(1) .
    then show "fold ?step [0..<length rows] (replicate n 0) ! i = ks_comb Q n hat rows ! i"
      using F(2) by (simp only: word_uint_eq_iff ks_comb_nth [OF _ pos])
  qed
qed

text \<open>The two key generations, and the two key switches, on the rows of \<^const>\<open>key_rows\<close>.\<close>

definition ksk1 :: "'a::len mntru_params \<Rightarrow> (nat \<Rightarrow> 'a word list list) \<Rightarrow> 'a nvec list list" where
  "ksk1 params R = map (\<lambda>u. map (\<lambda>row. \<lparr> m_modulus = np_qKS params, m_data = row \<rparr>) (R u)) [0..<np_k params]"

definition ksk2 :: "'a::len mntru_params \<Rightarrow> (nat \<Rightarrow> 'a word list list) \<Rightarrow> 'a nvec list list list" where
  "ksk2 params R = map (\<lambda>u. map (\<lambda>j. map (\<lambda>row.
     \<lparr> m_modulus = np_qKS params, m_data = map (\<lambda>x. ModMul x (of_nat j) (np_qKS params)) row \<rparr>) (R u)) [0..<np_baseKS params])
     [0..<np_k params]"

lemma KeySwitchGen_rows:
  assumes ok: "nt_ks_inputs_ok params sk f sN dggKS" and R: "key_rows params sk sN dggKS R"
    and sk: "length skN = np_k params" "\<forall>u<np_k params. SwitchModulus (skN ! u) (np_qKS params) = Inr (sN ! u)"
  shows "nt_KeySwitchGen params sk skN dggKS = Inr (ksk1 params R)"
    "nt_KeySwitchGen2 params sk skN dggKS = Inr (ksk2 params R)"
proof -
  have K: "mats_ok (np_k params) (np_n params) (key_F_inv sk)" "mk_key (np_k params) (np_N params) (np_qKS params) ((!) sN)"
    "mk_key (np_k params) (np_n params) (np_qKS params) dggKS"
    using ok by (simp_all add: nt_ks_inputs_ok_def Let_def)
  have "length (m_data (skN ! u)) = np_N params" if "u < np_k params" for u
    using that sk(2) SwitchModulus_length [of "skN ! u" "np_qKS params" "sN ! u"] mk_key_residues(2) [OF K(2) that] by auto
  then have r: "reads_ok (np_k params) (np_N params) skN" "reads_ok (np_k params) (np_n params) (map dggKS [0..<np_k params])"
    using sk(1) mk_key_residues(2) [OF K(3)] by (auto intro!: reads_okI)
  show "nt_KeySwitchGen params sk skN dggKS = Inr (ksk1 params R)"
    "nt_KeySwitchGen2 params sk skN dggKS = Inr (ksk2 params R)"
    using K(1) r sk(2) R unfolding nt_KeySwitchGen_def nt_KeySwitchGen2_def Let_def ksk1_def ksk2_def key_rows_def
    by (simp_all add: mapR_Inr)
qed

lemma KeySwitch_comb:
  fixes params :: "'a::len mntru_params"
  defines "Q \<equiv> np_qKS params" and "n \<equiv> np_n params" and "N \<equiv> np_N params" and "base \<equiv> np_baseKS params"
    and "dc \<equiv> digitCount (np_qKS params) (np_baseKS params)" and "k \<equiv> np_k params"
  assumes ok: "nt_ks_inputs_ok params sk f sN dggKS" and R: "key_rows params sk sN dggKS R" and v: "nt_valid sN ct"
  defines "z \<equiv> MNTRUCiphertext (map (\<lambda>u.
      \<lparr> m_modulus = Q, m_data = ks_comb Q n (ct_hat base N dc (m_data (nct_elements ct ! u))) (R u) \<rparr>) [0..<k])"
  shows "nt_KeySwitch params (ksk1 params R) ct = Inr z" "nt_KeySwitch2 params (ksk2 params R) ct = Inr z"
proof -
  note D = Q_def n_def N_def base_def dc_def k_def
  have K: "barrett_modulus Q" "1 < base" "int base < 2 ^ 32" "mk_key k N Q ((!) sN)" "length sN = k" "0 < k"
    using ok by (simp_all add: nt_ks_inputs_ok_def Let_def D mats_ok_def)
  have Rr: "length (R u) = N * dc" "\<forall>r < length (R u). length (R u ! r) = n" "\<forall>r < length (R u). \<forall>i<n. residue Q (R u ! r ! i)"
    if "u < k" for u
    using R that unfolding key_rows_def D by simp_all
  note V = mk_validD [OF v [unfolded nt_valid_mk], unfolded K(5) as_mk_simps]
    and M = mk_valid_masks [OF v [unfolded nt_valid_mk], unfolded K(5) as_mk_simps, OF K(4)]
  let ?hat = "\<lambda>u. ct_hat base N dc (m_data (nct_elements ct ! u))"
  note H = ct_hat_ok [OF mk_key_residues(3) [OF M(1)], where base = base and dc = dc]
  have rd: "reads_ok k N (nct_elements ct)" using V(1) mk_key_residues(2) [OF M(1)] by (auto intro!: reads_okI)
  have k1: "length (ksk1 params R) = k" "\<And>u. u < k \<Longrightarrow> reads_ok (N * dc) n (ksk1 params R ! u)"
    using Rr by (auto simp: ksk1_def D [symmetric] intro!: reads_okI)
  have col: "GetElements_coli (ksk1 params R) i ! u = \<lparr> m_modulus = Q, m_data = map (\<lambda>r. R u ! r ! i) [0..<length (R u)] \<rparr>"
    if "u < k" "i < n" "0 < N * dc" for u i
    using that Rr(1) [OF that(1)] Rr(1) [OF K(6)] K(6) Rr(2) [OF that(1)]
    by (auto simp: GetElements_coli_def Let_def mat_col_def ksk1_def D [symmetric])
  have dc: "0 < dc"
  proof (rule ccontr)
    assume "\<not> 0 < dc"
    then have "unat Q \<le> 1" using digitCount_reaches [OF K(2), of Q] by (simp add: D)
    moreover have "1 < int (unat Q)" using ok unfolding nt_ks_inputs_ok_def Let_def D by (simp only: uint_nat)
    ultimately show False by linarith
  qed
  have N: "0 < N" using ok by (simp add: nt_ks_inputs_ok_def Let_def D)
  have party: "mapR (\<lambda>i. dot_vec Q (N * dc) \<lparr> m_modulus = Q, m_data = ?hat u \<rparr> (GetElements_coli (ksk1 params R) i ! u)) [0..<n]
      = Inr (ks_comb Q n (?hat u) (R u))" if u: "u < k" for u
  proof -
    have "dot_vec Q (N * dc) \<lparr> m_modulus = Q, m_data = ?hat u \<rparr> (GetElements_coli (ksk1 params R) i ! u)
        = Inr (ks_comb Q n (?hat u) (R u) ! i)" if i: "i < n" for i
      using dot_vec_comb [OF K(1), of "?hat u" "R u" i n] H(1,2) [OF u] Rr [OF u] col [OF u i] i dc N by simp
    then have "mapR (\<lambda>i. dot_vec Q (N * dc) \<lparr> m_modulus = Q, m_data = ?hat u \<rparr> (GetElements_coli (ksk1 params R) i ! u)) [0..<n]
        = Inr (map ((!) (ks_comb Q n (?hat u) (R u))) [0..<n])" by (intro mapR_Inr) simp
    also have "map ((!) (ks_comb Q n (?hat u) (R u))) [0..<n] = ks_comb Q n (?hat u) (R u)"
      by (rule nth_equalityI) (simp_all add: ks_comb_def)
    finally show ?thesis .
  qed
  have all: "mapR (\<lambda>u. bindR (mapR (\<lambda>i. dot_vec Q (N * dc) \<lparr> m_modulus = Q, m_data = ?hat u \<rparr> (GetElements_coli (ksk1 params R) i ! u)) [0..<n])
      (\<lambda>c. Inr \<lparr> m_modulus = Q, m_data = c \<rparr>)) [0..<k] = Inr (map (\<lambda>u. \<lparr> m_modulus = Q, m_data = ks_comb Q n (?hat u) (R u) \<rparr>) [0..<k])"
    using party by (intro mapR_Inr) simp
  have "\<forall>K \<in> set (take k (ksk1 params R)). reads_ok (N * dc) n K" using k1 by (auto simp: in_set_conv_nth)
  then show "nt_KeySwitch params (ksk1 params R) ct = Inr z"
    unfolding nt_KeySwitch_def Let_def D [symmetric] dc_def [symmetric, folded Q_def base_def] z_def
    using rd k1(1) dc N all by simp
  have hb: "\<forall>r < length (R u). unat (?hat u ! r) < base" if u: "u < k" for u
    using K(2) H(1) [OF u] Rr(1) [OF u] by (auto intro!: ct_hat_lt [where N = N and dc = dc and c = "m_data (nct_elements ct ! u)"])
  have k2: "length (ksk2 params R) = k" "\<And>u j r. u < k \<Longrightarrow> j < base \<Longrightarrow> r < length (R u)
      \<Longrightarrow> ksk2 params R ! u ! j ! r = \<lparr> m_modulus = Q, m_data = map (\<lambda>x. ModMul x (of_nat j) Q) (R u ! r) \<rparr>"
    "\<And>u. u < k \<Longrightarrow> length (ksk2 params R ! u) = base" "\<And>u j. u < k \<Longrightarrow> j < base \<Longrightarrow> length (ksk2 params R ! u ! j) = length (R u)"
    by (simp_all add: ksk2_def D [symmetric])
  let ?step = "\<lambda>u l c. let index = unat (ucast (?hat u ! l) :: 32 word) in
    if index \<noteq> 0 then map (\<lambda>i. ModAddFastEq (c ! i) (m_data (ksk2 params R ! u ! index ! l) ! i) Q) [0..<n] else c"
  have run: "fold (?step u) [0..<N * dc] (replicate n 0) = ks_comb Q n (?hat u) (R u)" if u: "u < k" for u
  proof -
    let ?row2 = "\<lambda>j r. map (\<lambda>x. ModMul x (of_nat j) Q) (R u ! r)"
    have ix: "unat (ucast (?hat u ! l) :: 32 word) < base" if "l < N * dc" for l
      using hb [OF u] Rr(1) [OF u] that K(3) by (subst index_value [where base = base]) auto
    have "fold (?step u) [0..<N * dc] (replicate n 0) = fold (\<lambda>l c. let index = unat (ucast (?hat u ! l) :: 32 word) in
        if index \<noteq> 0 then map (\<lambda>i. ModAddFastEq (c ! i) (?row2 index l ! i) Q) [0..<n] else c) [0..<N * dc] (replicate n 0)"
      using k2(2) [OF u ix] Rr(1) [OF u] by (intro fold_cong) (auto simp: Let_def fun_eq_iff)
    also have "\<dots> = ks_comb Q n (?hat u) (R u)"
      using fold_comb [OF barrett_modulus_ok [OF K(1)] hb [OF u] K(3) Rr(3,2) [OF u]] Rr(1) [OF u] by simp
    finally show ?thesis .
  qed
  have ball: "\<forall>K \<in> set (take k (ksk2 params R)). base \<le> length K \<and> (\<forall>R \<in> set (take base K). reads_ok (N * dc) n R)"
    using k2 Rr(1,2) by (auto simp: in_set_conv_nth intro!: reads_okI)
  have m: "map (\<lambda>u. \<lparr> m_modulus = Q, m_data = fold (?step u) [0..<N * dc] (replicate n 0) \<rparr>) [0..<k]
      = map (\<lambda>u. \<lparr> m_modulus = Q, m_data = ks_comb Q n (?hat u) (R u) \<rparr>) [0..<k]"
    using run by (intro map_cong refl) (simp only: set_upt atLeastLessThan_iff)
  show "nt_KeySwitch2 params (ksk2 params R) ct = Inr z"
    unfolding nt_KeySwitch2_def Let_def D [symmetric] dc_def [symmetric, folded Q_def base_def] z_def
    by (simp only: m [unfolded Let_def] rd k2(1) order_refl simp_thms) (simp add: ball)
qed

lemma ks_comb_phase:
  fixes params :: "'a::len mntru_params"
  defines "Q \<equiv> np_qKS params" and "n \<equiv> np_n params" and "N \<equiv> np_N params" and "base \<equiv> np_baseKS params"
    and "dc \<equiv> digitCount (np_qKS params) (np_baseKS params)"
  assumes ok: "nt_ks_inputs_ok params sk f sN dggKS" and R: "key_rows params sk sN dggKS R" and u: "u < np_k params"
    and c: "length c = N" "\<forall>i<N. residue Q (c ! i)"
  shows "inner (map uint (ks_comb Q n (ct_hat base N dc c) (R u))) (vals (f ! u)) mod uint Q
    = (inner (map uint c) (vals (sN ! u))
        + uint (m_data (dggKS u) ! 0) * (\<Sum>i<N. \<Sum>j<dc. int (ks_digits base dc (unat (c ! i)) ! j))) mod uint Q"
proof -
  note D = Q_def n_def N_def base_def dc_def
  have K: "barrett_modulus Q" "1 < base" "uint Q * int base ^ dc \<le> 2 ^ LENGTH('a)" "0 < n"
    "mk_key (np_k params) n Q ((!) f)" "mk_key (np_k params) N Q ((!) sN)" "mk_key (np_k params) n Q dggKS"
    "\<forall>l<n. (\<Sum>i<n. vals (key_F_inv sk ! u ! l) ! i * vals (f ! u) ! i) mod uint Q = (if l = 0 then 1 else 0) mod uint Q"
    using ok u by (simp_all add: nt_ks_inputs_ok_def Let_def D mats_ok_def)
  note modok = barrett_modulus_ok [OF K(1)] and e = mk_key_residues [OF K(7) u] and s = mk_key_residues [OF K(6) u]
  have pos: "0 < uint Q" using barrett_modulus_facts [OF K(1)] by blast
  define G where "G = gadget_rows Q (of_nat base) N dc (m_data (dggKS u)) (m_data (sN ! u))"
  have rows: "length (R u) = N * dc" "\<forall>r<N * dc. \<forall>i<n. uint (R u ! r ! i) mod uint Q = (\<Sum>l<n. uint (G ! r ! l) * vals (key_F_inv sk ! u ! l) ! i) mod uint Q"
    using R u unfolding key_rows_def D [symmetric] dc_def [symmetric, folded Q_def base_def] by (simp_all add: G_def)
  let ?hat = "ct_hat base N dc c"
  have "inner (map uint (ks_comb Q n ?hat (R u))) (vals (f ! u)) = (\<Sum>i<n. uint (ks_comb Q n ?hat (R u) ! i) * vals (f ! u) ! i)"
    using mk_key_residues(2) [OF K(5) u] by (subst inner_as_sum [where n = n]) (simp_all add: ks_comb_def)
  also have "\<dots> mod uint Q = (\<Sum>r<N * dc. uint (?hat ! r) * uint (G ! r ! 0)) mod uint Q"
  proof (rule dot_swap)
    show "\<forall>i<n. uint (ks_comb Q n ?hat (R u) ! i) mod uint Q = (\<Sum>r<N * dc. uint (?hat ! r) * uint (R u ! r ! i)) mod uint Q"
      using ks_comb_nth [OF _ pos] rows(1) by simp
    show "\<forall>r<N * dc. (\<Sum>i<n. uint (R u ! r ! i) * vals (f ! u) ! i) mod uint Q = uint (G ! r ! 0) mod uint Q"
      using inverse_dot [OF K(8,4), where c = "\<lambda>i. uint (R u ! _ ! i)" and e = "\<lambda>l. uint (G ! _ ! l)"] rows(2) by blast
  qed
  also have "(\<Sum>r<N * dc. uint (?hat ! r) * uint (G ! r ! 0)) = inner (map uint ?hat) (map (\<lambda>row. uint (row ! 0)) G)"
    using ct_hat_ok(1) [OF c(2)] gadget_rows_ok(1) [OF modok e(2) K(4) e(1)]
    by (subst inner_as_sum [where n = "N * dc"]) (simp_all add: G_def)
  also have "\<dots> mod uint Q = ((\<Sum>i<N. uint (m_data (sN ! u) ! i) * int (unat (c ! i)))
      + uint (m_data (dggKS u) ! 0) * (\<Sum>i<N. \<Sum>j<dc. int (ks_digits base dc (unat (c ! i)) ! j))) mod uint Q"
  proof -
    have "unat (c ! i) < base ^ dc" if "i < N" for i
    proof -
      have "unat (c ! i) < unat Q" using c(2) that unfolding residue_def uint_nat by (simp only: of_nat_less_iff)
      also have "\<dots> \<le> base ^ dc" unfolding D using K(2) [unfolded D] by (rule digitCount_reaches)
      finally show ?thesis .
    qed
    moreover have "0 < base" using K(2) by simp
    note col = gadget_rows_col0 [OF modok e(2) K(4) s(2,1) K(3) this, folded G_def]
    ultimately show ?thesis unfolding ct_hat_ok(3) [OF c(2)] col by (intro gadget_product K(2)) blast
  qed
  also have "(\<Sum>i<N. uint (m_data (sN ! u) ! i) * int (unat (c ! i))) = inner (map uint c) (vals (sN ! u))"
    using c(1) s(2) by (subst inner_as_sum [where n = N]) (simp_all add: vals_def mult.commute)
  finally show ?thesis .
qed

lemma nt_KeySwitch_rows_phase:
  fixes params :: "'a::len mntru_params"
  assumes ok: "nt_ks_inputs_ok params sk f sN dggKS" and R: "key_rows params sk sN dggKS R" and v: "nt_valid sN ct"
  obtains z where "nt_KeySwitch params (ksk1 params R) ct = Inr z" "nt_KeySwitch2 params (ksk2 params R) ct = Inr z" "nt_valid f z"
    "nt_phase f z mod uint (np_qKS params) = (nt_phase sN ct + nt_ks_noise params dggKS ct) mod uint (np_qKS params)"
proof -
  define Q n N base dc k where "Q = np_qKS params" and "n = np_n params" and "N = np_N params" and "base = np_baseKS params"
    and "dc = digitCount (np_qKS params) (np_baseKS params)" and "k = np_k params"
  note D = Q_def n_def N_def base_def dc_def k_def
  have K: "barrett_modulus Q" "mk_key k n Q ((!) f)" "length f = k" "mk_key k N Q ((!) sN)" "length sN = k" "0 < k"
    using ok by (simp_all add: nt_ks_inputs_ok_def Let_def D mats_ok_def)
  have pos: "0 < uint Q" using barrett_modulus_facts [OF K(1)] by blast
  note M = mk_valid_masks [OF v [unfolded nt_valid_mk], unfolded K(5) as_mk_simps, OF K(4)]
  let ?c = "\<lambda>u. ks_comb Q n (ct_hat base N dc (m_data (nct_elements ct ! u))) (R u)"
  define z where "z = MNTRUCiphertext (map (\<lambda>u. \<lparr> m_modulus = Q, m_data = ?c u \<rparr>) [0..<k])"
  have run: "nt_KeySwitch params (ksk1 params R) ct = Inr z" "nt_KeySwitch2 params (ksk2 params R) ct = Inr z"
    using KeySwitch_comb [OF ok R v] by (simp_all add: z_def D)
  have el: "nct_elements z = map (\<lambda>u. \<lparr> m_modulus = Q, m_data = ?c u \<rparr>) [0..<k]" by (simp add: z_def MNTRUCiphertext_def)
  have cl: "length (?c u) = n" "\<forall>x \<in> set (?c u). residue Q x" for u
    using ks_comb_nth [OF _ pos, of _ n] pos by (auto simp: ks_comb_def in_set_conv_nth residue_def)
  have "nt_valid f z"
    using K(2,3,6) cl barrett_modulus_ok [OF K(1)] by (auto simp: nt_valid_def el mk_key_def nvec_ok_def same_shape_def)
  moreover have "nt_phase f z mod uint Q = (\<Sum>u<k. inner (vals (nct_elements ct ! u)) (vals (sN ! u))
      + uint (m_data (dggKS u) ! 0) * (\<Sum>i<N. \<Sum>j<dc. int (ks_digits base dc (unat (m_data (nct_elements ct ! u) ! i)) ! j))) mod uint Q"
    unfolding nt_phase_def K(3)
  proof (rule sum_mod_cong)
    fix u assume u: "u < k"
    show "inner (vals (nct_elements z ! u)) (vals (f ! u)) mod uint Q = (inner (vals (nct_elements ct ! u)) (vals (sN ! u))
      + uint (m_data (dggKS u) ! 0) * (\<Sum>i<N. \<Sum>j<dc. int (ks_digits base dc (unat (m_data (nct_elements ct ! u) ! i)) ! j))) mod uint Q"
      using ks_comb_phase [OF ok R, of u "m_data (nct_elements ct ! u)"] mk_key_residues(2,3) [OF M(1) u] u
      by (simp add: el vals_def D)
  qed
  ultimately show ?thesis
    using that [OF run] by (simp add: nt_phase_def nt_ks_noise_def K(5) sum.distrib D Let_def)
qed

section \<open>Properties\<close>

text \<open>C7.  Decryption inverts encryption of the matrix NTRU scheme, for keys of \<^verbatim>\<open>KeyGen\<close>: when the
  matrices of NTL are inverse modulo the modulus of the key, the ciphertext modulus divides that
  modulus, and the sum of the first noises of the parties is within the bound, \<^verbatim>\<open>Decrypt2\<close> of
  \<^verbatim>\<open>Encrypt\<close> returns the message modulo the plaintext modulus.\<close>

theorem MNTRU_decrypt_encrypt:
  fixes md Q :: "'a::len word"
  assumes "0 < k" "0 < n" "modulus_ok Q" "uint Q \<le> 2 ^ 31"
    and "barrett_modulus md" "GetMSB md \<le> MAX_MODULUS_SIZE LENGTH('a)" "uint md dvd uint Q" "ntl_ok k n (uint Q) A B"
    and "pt_ok p md" "mk_key k n md dgg"
    and "noise_ok (uint md) (uint p) (uint (m mod p))
           (centered (uint md) ((\<Sum>u<k. uint (m_data (dgg u) ! 0)) mod uint md))"
  shows "\<exists>ct. nt_Encrypt (nt_KeyGen k n Q A B) m p md dgg = Inr ct
    \<and> nt_Decrypt2 (nt_KeyGen k n Q A B) ct p = Inr (m mod p)"
proof -
  let ?sk = "nt_KeyGen k n Q A B" and ?e = "\<Sum>u<k. uint (m_data (dgg u) ! 0)"
  note F = KeyGen_fields [where Q = Q and A = A and B = B, OF assms(1,2)]
  obtain f g where key: "nt_key_ok ?sk md f g" using KeyGen_key_ok [OF assms(1-8)] .
  have dg: "mk_key (key_k ?sk) (key_length ?sk) md dgg" using assms(10) by (simp only: F(1,2))
  obtain ct where ct: "nt_Encrypt ?sk m p md dgg = Inr ct" "nt_valid f ct"
    "nt_phase f ct mod uint md = (uint (m mod p) * (uint md div uint p) + ?e) mod uint md"
    using nt_Encrypt_value [OF key assms(9) dg] unfolding F(1) .
  have "(uint (m mod p) * (uint md div uint p) + ?e) mod uint md
      = (uint (m mod p) * (uint md div uint p) + centered (uint md) (?e mod uint md)) mod uint md"
    by (rule mod_add_cong) (simp_all add: centered_mod)
  moreover have "mk_modulus f = uint md" using key by (auto simp: nt_key_ok_def Let_def mk_key_def mats_ok_def)
  ultimately have "mntru.encodes f (uint p) ct (uint (m mod p)) (centered (uint md) (?e mod uint md))"
    using ct by (simp add: mntru.encodes_def)
  from mntru.decode_phase [OF this] have "decode (uint md) (uint p) (nt_phase f ct) = uint (m mod p)"
    using assms(9,11) \<open>mk_modulus f = uint md\<close> by (simp add: pt_ok_def uint_mod_eq)
  then show ?thesis using ct(1) nt_Decrypt2_value [OF key ct(2) assms(9)] by simp
qed

text \<open>Two matrices over the integers modulo 7681, of two parties.\<close>

definition example_mats :: "32 word list list list" where
  "example_mats = [[[1, 0], [7680, 1]], [[1, 1], [7680, 0]]]"

definition example_invs :: "32 word list list list" where
  "example_invs = [[[1, 0], [1, 1]], [[0, 7680], [1, 1]]]"

definition example_noises :: "32 nvec list" where
  "example_noises = [\<lparr> m_modulus = 7681, m_data = [3, 7000] \<rparr>, \<lparr> m_modulus = 7681, m_data = [7677, 5] \<rparr>]"

theorem MNTRU_decrypt_encrypt_witness:
  "\<exists>ct. nt_Encrypt (nt_KeyGen 2 2 (7681 :: 32 word) ((!) example_mats) ((!) example_invs)) 3 4 7681 ((!) example_noises) = Inr ct
    \<and> nt_Decrypt2 (nt_KeyGen 2 2 7681 ((!) example_mats) ((!) example_invs)) ct 4 = Inr (3 mod 4)"
  by (rule MNTRU_decrypt_encrypt) code_simp+

text \<open>\<^verbatim>\<open>Decrypt\<close> adds twice the offset of \<^verbatim>\<open>Decrypt2\<close>: it returns the message of a ciphertext
  whose phase is lower by \<open>q div p - q div (2 * p)\<close>, which is how the gates leave their results.\<close>

lemma MNTRU_Decrypt_offset:
  fixes md :: "'a::len word"
  assumes "nt_key_ok sk md f g" "nt_valid f ct" "pt_ok p md" "1 < uint p" "0 \<le> m" "m < uint p"
    and "nt_phase f ct mod uint md = (m * (uint md div uint p) - (uint md div uint p - uint md div (2 * uint p)) + e) mod uint md"
    and "noise_ok (uint md) (uint p) m e"
  shows "nt_Decrypt sk ct p = Inr (word_of_int m)"
proof -
  let ?o = "uint md div uint p - uint md div (2 * uint p)"
  have "(nt_phase f ct + ?o) mod uint md = (m * (uint md div uint p) - ?o + e + ?o) mod uint md"
    using assms(7) by (rule mod_add_cong) simp
  then have "(nt_phase f ct + ?o) mod uint md = (m * (uint md div uint p) + e) mod uint md" by simp
  moreover have "0 < uint md" using assms(3) uint_ge_0 [of md] by (simp add: pt_ok_def)
  ultimately have "decode (uint md) (uint p) (nt_phase f ct + ?o) = m" using assms by (intro decode_correct) simp_all
  then show ?thesis using nt_Decrypt_value [OF assms(1-4)] by simp
qed

definition example_nt_sk :: "32 mntru_sk" where
  "example_nt_sk = nt_KeyGen 1 2 7681 ((!) example_mats) ((!) example_invs)"

definition example_nt_f :: "32 nvec list" where
  "example_nt_f = GetF_col0 example_nt_sk"

definition example_nt_g :: "32 nvec list list" where
  "example_nt_g = [[GetF_inv_coli example_nt_sk 0 ! 0, GetF_inv_coli example_nt_sk 1 ! 0]]"

definition example_nt_ct :: "32 mntru_ct" where
  "example_nt_ct = MNTRUCiphertext [\<lparr> m_modulus = 7681, m_data = [2881, 1] \<rparr>]"

text \<open>C24.  Key switching of the NTRU scheme: with a key of \<^verbatim>\<open>KeySwitchGen\<close>, the phase of
  \<^verbatim>\<open>KeySwitch(ct)\<close> under the new key is the phase of the ciphertext under the old key, plus the first
  noise of every party times the sum of the digits of the party's vector.\<close>

theorem MNTRU_KeySwitch_phase:
  fixes params :: "'a::len mntru_params"
  assumes "nt_ks_inputs_ok params sk f sN dggKS" "length skN = np_k params"
    and "\<forall>u<np_k params. SwitchModulus (skN ! u) (np_qKS params) = Inr (sN ! u)" "nt_valid sN ct"
  shows "\<exists>K z. nt_KeySwitchGen params sk skN dggKS = Inr K \<and> nt_KeySwitch params K ct = Inr z \<and> nt_valid f z
    \<and> nt_phase f z mod uint (np_qKS params) = (nt_phase sN ct + nt_ks_noise params dggKS ct) mod uint (np_qKS params)"
proof -
  obtain R where R: "key_rows params sk sN dggKS R" using key_rows_exist [OF assms(1)] .
  obtain z where "nt_KeySwitch params (ksk1 params R) ct = Inr z" "nt_valid f z"
    "nt_phase f z mod uint (np_qKS params) = (nt_phase sN ct + nt_ks_noise params dggKS ct) mod uint (np_qKS params)"
    using nt_KeySwitch_rows_phase [OF assms(1) R assms(4)] .
  then show ?thesis using KeySwitchGen_rows(1) [OF assms(1) R assms(2,3)] by blast
qed

definition example_nt_params :: "32 mntru_params" where
  "example_nt_params = \<lparr> np_k = 1, np_q = 512, np_Q = 7681, np_qKS = 7681, np_n = 2, np_N = 2, np_baseKS = 32,
     np_keyDist = UNIFORM_TERNARY \<rparr>"

definition example_nt_sN :: "32 nvec list" where
  "example_nt_sN = [\<lparr> m_modulus = 7681, m_data = [1, 7680] \<rparr>]"

theorem MNTRU_KeySwitch_phase_witness:
  "\<exists>K z. nt_KeySwitchGen example_nt_params example_nt_sk example_nt_sN ((!) example_noises) = Inr K
    \<and> nt_KeySwitch example_nt_params K example_nt_ct = Inr z \<and> nt_valid example_nt_f z
    \<and> nt_phase example_nt_f z mod uint (np_qKS example_nt_params)
      = (nt_phase example_nt_sN example_nt_ct + nt_ks_noise example_nt_params ((!) example_noises) example_nt_ct) mod uint (np_qKS example_nt_params)"
  by (rule MNTRU_KeySwitch_phase) code_simp+

text \<open>C25.  The second version of the key switch, with its table of the multiples of every row, returns
  the same ciphertext as the first on the keys that the two key generations compute from the same
  random choices.\<close>

theorem MNTRU_KeySwitch2_equal:
  fixes params :: "'a::len mntru_params"
  assumes "nt_ks_inputs_ok params sk f sN dggKS" "length skN = np_k params"
    and "\<forall>u<np_k params. SwitchModulus (skN ! u) (np_qKS params) = Inr (sN ! u)" "nt_valid sN ct"
  shows "\<exists>K K2 z. nt_KeySwitchGen params sk skN dggKS = Inr K \<and> nt_KeySwitchGen2 params sk skN dggKS = Inr K2
    \<and> nt_KeySwitch params K ct = Inr z \<and> nt_KeySwitch2 params K2 ct = Inr z"
proof -
  obtain R where R: "key_rows params sk sN dggKS R" using key_rows_exist [OF assms(1)] .
  obtain z where "nt_KeySwitch params (ksk1 params R) ct = Inr z" "nt_KeySwitch2 params (ksk2 params R) ct = Inr z"
    using nt_KeySwitch_rows_phase [OF assms(1) R assms(4)] .
  then show ?thesis using KeySwitchGen_rows [OF assms(1) R assms(2,3)] by blast
qed

theorem MNTRU_KeySwitch2_equal_witness:
  "\<exists>K K2 z. nt_KeySwitchGen example_nt_params example_nt_sk example_nt_sN ((!) example_noises) = Inr K
    \<and> nt_KeySwitchGen2 example_nt_params example_nt_sk example_nt_sN ((!) example_noises) = Inr K2
    \<and> nt_KeySwitch example_nt_params K example_nt_ct = Inr z \<and> nt_KeySwitch2 example_nt_params K2 example_nt_ct = Inr z"
  by (rule MNTRU_KeySwitch2_equal [where f = example_nt_f and sN = example_nt_sN]) code_simp+

text \<open>The row update that works on four columns at a time and a remainder equals the plain loop over
  the columns, for every dimension, signed overflow included.\<close>

lemma MNTRU_blocked_row_step:
  "ksk_row_step q n coef f_row k_row = foldR (mac q coef f_row) [0..<n] k_row"
  by (rule ksk_row_step_plain)

end
