(* ===== verification/MKAcc.thy ===== *)
theory MKAcc
  imports Poly SignedDigit MNTRU
begin

text \<open>
  The blind rotation of the multi-party schemes: the parameters \<^verbatim>\<open>UniEncCryptoParams\<close> of
  \<^verbatim>\<open>src/src/binfhe/include/mk-cryptoparameters.h\<close> and \<^verbatim>\<open>lib/mk-cryptoparameters.cpp\<close>, and the accumulators
  \<^verbatim>\<open>UniEncAccumulatorXZW\<close> (\<^verbatim>\<open>lib/mk-acc-xzw.cpp\<close>) and \<^verbatim>\<open>UniEncAccumulatorXZW_B\<close> (\<^verbatim>\<open>lib/mk-acc-xzw_B.cpp\<close>).

  Every operation that changes a format takes and returns the table cache.  The vectors that the
  Gaussian generators return are arguments, and so are the numbers of digits that the code computes
  with floating point logarithms and the ring parameters, whose root of unity a random search finds.
  A null pointer to a key is \<open>None\<close>; reading outside of a vector is undefined behaviour.  The
  parallel loops over digits are sequential here: their iterations write to different digits.  Where
  one loop of the code builds up two independent results, the model builds them one after the other,
  which can change only which of several errors is reported.
\<close>

unbundle bit_operations_syntax

section \<open>Sequencing\<close>

fun mapS :: "('x \<Rightarrow> 's \<Rightarrow> ('s \<times> 'y) result) \<Rightarrow> 'x list \<Rightarrow> 's \<Rightarrow> ('s \<times> 'y list) result" where
  "mapS f [] s = Inr (s, [])"
| "mapS f (x # xs) s = bindR (f x s) (\<lambda>(s, y). bindR (mapS f xs s) (\<lambda>(s, ys). Inr (s, y # ys)))"

definition idx :: "'x list \<Rightarrow> nat \<Rightarrow> 'x result" where
  "idx xs i = (if i < length xs then Inr (xs ! i) else Inl undefined_behaviour)"

definition idx2 :: "'x list list \<Rightarrow> nat \<Rightarrow> nat \<Rightarrow> 'x result" where
  "idx2 xss i j = bindR (idx xss i) (\<lambda>xs. idx xs j)"

definition upd :: "'x list \<Rightarrow> nat \<Rightarrow> 'x \<Rightarrow> 'x list result" where
  "upd xs i x = (if i < length xs then Inr (xs[i := x]) else Inl undefined_behaviour)"

definition opt :: "'x option \<Rightarrow> 'x result" where
  "opt m = (case m of None \<Rightarrow> Inl undefined_behaviour | Some x \<Rightarrow> Inr x)"

section \<open>Parameters\<close>

datatype BINFHE_METHOD = INVALID_METHOD | AP | GINX | LMKCDEY | MKNTRU | MKNTRU_B | MKNTRU_LWE

record (overloaded) 'a uni_params =
  up_k :: nat
  up_N :: "32 word"
  up_Q :: "'a::len word"
  up_q :: "'a word"
  up_baseG :: "32 word"
  up_baseR :: "32 word"
  up_digitsG :: "32 word"
  up_Gpower :: "'a word list"
  up_Gpower_map :: "32 word \<rightharpoonup> 'a word list"
  up_polyParams :: "'a il_params"
  up_gateConst :: "'a word list"
  up_monomials :: "'a poly list"
  up_logGen :: "32 word list"
  up_method :: BINFHE_METHOD
  up_numAutoKeys :: nat
  up_CRS :: "'a poly list"

text \<open>The loops that fill \<open>n\<close> powers of the base.\<close>

primrec gpowers :: "'a::len word \<Rightarrow> 'a word \<Rightarrow> nat \<Rightarrow> 'a word \<Rightarrow> 'a word list" where
  "gpowers Q baseG 0 vTemp = []"
| "gpowers Q baseG (Suc n) vTemp = vTemp # gpowers Q baseG n (ModMulFast vTemp baseG Q)"

text \<open>
  The tables for sign evaluation.  \<open>tempdigits\<close> are the three digit counts, quotients of
  \<^verbatim>\<open>log(Q)\<close> by constants that are written as \<^verbatim>\<open>noexcept(log(..))\<close>.
\<close>

definition gpower_step :: "'a::len word \<Rightarrow> (32 word \<times> nat) \<Rightarrow> 'a uni_params \<Rightarrow> 'a uni_params" where
  "gpower_step Q bn P =
     (case bn of (bs, n) \<Rightarrow>
        let tempvec = gpowers Q (ucast bs) n 1;
            P = (if up_baseG P = bs then P \<lparr> up_Gpower := tempvec \<rparr> else P)
        in P \<lparr> up_Gpower_map := (up_Gpower_map P)(bs \<mapsto> tempvec) \<rparr>)"

definition gateConst :: "'a::len word \<Rightarrow> 'a word list" where
  "gateConst q =
     [MulFast 5 (RShift q 3), MulFast 7 (RShift q 3), MulFast 1 (RShift q 3), MulFast 3 (RShift q 3),
      MulFast 5 (RShift q 3), MulFast 1 (RShift q 3), MulFast 7 (RShift q 3),
      MulFast 11 (q div 12), MulFast 7 (q div 12), MulFast 15 (RShift q 4), MulFast 9 (RShift q 4)]"

text \<open>The polynomials \<open>X ^ i - 1\<close> and \<open>- X ^ i - 1\<close> in evaluation format.\<close>

definition monomial_poly :: "'a::len il_params \<Rightarrow> 'a word \<Rightarrow> bool \<Rightarrow> nat \<Rightarrow> 'a poly result" where
  "monomial_poly pp Q neg i =
     (let aPoly = poly_new pp COEFFICIENT True in
      bindR (deref aPoly) (\<lambda>v.
      bindR (idx (m_data v) 0) (\<lambda>x. bindR (upd (m_data v) 0 (ModSubFastEq x 1 Q)) (\<lambda>d.
      bindR (idx d i) (\<lambda>y. bindR (upd d i (if neg then ModSubFastEq y 1 Q else ModAddFastEq y 1 Q)) (\<lambda>d.
        Inr (aPoly \<lparr> p_values := Some (v \<lparr> m_data := d \<rparr>) \<rparr>)))))))"

definition monomials ::
  "'a::len arb_transform \<Rightarrow> 'a il_params \<Rightarrow> 'a word \<Rightarrow> nat \<Rightarrow> 'a ftt_cache \<Rightarrow> ('a ftt_cache \<times> 'a poly list) result" where
  "monomials arb pp Q N cache =
     mapS (\<lambda>(neg, i) c. bindR (monomial_poly pp Q neg i) (\<lambda>p. SetFormat arb EVALUATION p c))
       (map (Pair False) [0..<N] @ map (Pair True) [0..<N]) cache"

text \<open>The mapping similar to a logarithm of base 5 modulo \<open>M\<close>; its entries are signed.\<close>

definition log_gen_step :: "32 word \<Rightarrow> nat \<Rightarrow> 32 word \<times> 32 word list \<Rightarrow> (32 word \<times> 32 word list) result" where
  "log_gen_step M i st =
     (case st of (gPow, T) \<Rightarrow>
        if M = 0 then Inl undefined_behaviour
        else let gPow = gPow * 5 mod M in
          bindR (upd T (unat gPow) (word_of_nat i)) (\<lambda>T.
          bindR (upd T (unat (M - gPow)) (- word_of_nat i)) (\<lambda>T. Inr (gPow, T))))"

definition log_gen :: "32 word \<Rightarrow> 32 word list result" where
  "log_gen N =
     (let M = 2 * N in
      bindR (upd (replicate (unat M) 0) (unat (M - 1)) M) (\<lambda>T.
      bindR (foldR (log_gen_step M) [1..<unat (N div 2)] (1, T)) (\<lambda>(gPow, T). Inr T)))"

definition uni_PreCompute ::
  "'a::len arb_transform \<Rightarrow> bool \<Rightarrow> nat list \<Rightarrow> 'a uni_params \<Rightarrow> 'a ftt_cache \<Rightarrow> ('a ftt_cache \<times> 'a uni_params) result" where
  "uni_PreCompute arb signEval tempdigits P cache =
     (let P = (if signEval
               then fold (gpower_step (up_Q P)) (zip [2 ^ 14, 2 ^ 18, 2 ^ 27] tempdigits) P
               else P \<lparr> up_Gpower := up_Gpower P @ gpowers (up_Q P) (ucast (up_baseG P)) (unat (up_digitsG P)) 1 \<rparr>);
          P = P \<lparr> up_gateConst := gateConst (up_q P) \<rparr>
      in bindR (if up_method P \<in> {GINX, MKNTRU, MKNTRU_B, MKNTRU_LWE}
                then monomials arb (up_polyParams P) (up_Q P) (unat (up_N P)) cache else Inr (cache, []))
         (\<lambda>(cache, ms).
         bindR (if up_method P = LMKCDEY then log_gen (up_N P) else Inr (up_logGen P)) (\<lambda>lg.
           Inr (cache, P \<lparr> up_monomials := up_monomials P @ ms, up_logGen := lg \<rparr>))))"

text \<open>
  The constructor.  \<open>crs\<close> is the one Gaussian vector that every entry of the common reference
  string is a copy of; \<open>digitsG\<close> and \<open>tempdigits\<close> are the digit counts.
\<close>

definition UniEncCryptoParams ::
  "'a::len arb_transform \<Rightarrow> nat \<Rightarrow> 32 word \<Rightarrow> 'a word \<Rightarrow> 'a word \<Rightarrow> 32 word \<Rightarrow> 32 word \<Rightarrow> BINFHE_METHOD \<Rightarrow> bool \<Rightarrow> nat
     \<Rightarrow> 'a il_params \<Rightarrow> 32 word \<Rightarrow> nat list \<Rightarrow> 'a nvec \<Rightarrow> 'a ftt_cache \<Rightarrow> ('a ftt_cache \<times> 'a uni_params) result" where
  "UniEncCryptoParams arb k N Q q baseG baseR method signEval numAutoKeys pp digitsG tempdigits crs cache =
     (if \<not> IsPowerOfTwo baseG then Inl config_error
      else if method = LMKCDEY \<and> numAutoKeys = 0 then Inl config_error
      else bindR (mapS (\<lambda>i. SetFormat arb EVALUATION \<lparr> p_format = COEFFICIENT, p_params = pp, p_values = Some crs \<rparr>)
                    [0..<unat (digitsG - 1)] cache) (\<lambda>(cache, CRS).
        uni_PreCompute arb signEval tempdigits
          \<lparr> up_k = k, up_N = N, up_Q = Q, up_q = q, up_baseG = baseG, up_baseR = baseR, up_digitsG = digitsG,
             up_Gpower = [], up_Gpower_map = Map.empty, up_polyParams = pp, up_gateConst = [], up_monomials = [],
             up_logGen = [], up_method = method, up_numAutoKeys = numAutoKeys, up_CRS = CRS \<rparr> cache))"

definition Change_BaseG :: "32 word \<Rightarrow> 32 word \<Rightarrow> 'a::len uni_params \<Rightarrow> 'a uni_params" where
  "Change_BaseG BaseG digitsG P =
     (if up_baseG P \<noteq> BaseG
      then P \<lparr> up_baseG := BaseG,
               up_Gpower := (case up_Gpower_map P BaseG of None \<Rightarrow> [] | Some g \<Rightarrow> g),
               up_Gpower_map := (case up_Gpower_map P BaseG of None \<Rightarrow> (up_Gpower_map P)(BaseG \<mapsto> []) | Some g \<Rightarrow> up_Gpower_map P),
               up_digitsG := digitsG \<rparr>
      else P)"

definition GetMonomial :: "'a::len uni_params \<Rightarrow> 32 word \<Rightarrow> 'a poly result" where
  "GetMonomial P i = idx (up_monomials P) (unat i)"

section \<open>Key generation\<close>

type_synonym 'a evalkey = "'a poly list list"
type_synonym 'a acckey = "'a evalkey option list list list"

text \<open>The Gaussian vectors of one key: the mask \<open>r\<close> and the two noises of every row.\<close>

record (overloaded) 'a key_noise =
  kn_r :: "'a::len nvec"
  kn_e0 :: "nat \<Rightarrow> 'a nvec"
  kn_e1 :: "nat \<Rightarrow> 'a nvec"

abbreviation coef_poly :: "'a::len uni_params \<Rightarrow> 'a nvec \<Rightarrow> 'a poly" where
  "coef_poly P v \<equiv> \<lparr> p_format = COEFFICIENT, p_params = up_polyParams P, p_values = Some v \<rparr>"

text \<open>The constant \<open>B ^ (i + 1)\<close> as a ring element.\<close>

definition gadget_poly ::
  "'a::len arb_transform \<Rightarrow> 'a uni_params \<Rightarrow> nat \<Rightarrow> 'a ftt_cache \<Rightarrow> ('a ftt_cache \<times> 'a poly) result" where
  "gadget_poly arb P i cache =
     (let gd_vec = vec_zero (unat (up_N P)) (up_Q P) in
      bindR (idx (up_Gpower P) (i + 1)) (\<lambda>g.
      bindR (upd (m_data gd_vec) 0 g) (\<lambda>d.
      bindR (SetValues (gd_vec \<lparr> m_data := d \<rparr>) COEFFICIENT (poly_new (up_polyParams P) EVALUATION False)) (\<lambda>gd.
        SetFormat arb EVALUATION gd cache))))"

text \<open>
  One row of a key.  The factor of \<open>CRS\<close> is \<^verbatim>\<open>skrPoly[i]\<close>, an entry of the mask and not the mask; \<open>msg\<close>
  is what a set plaintext adds to the first component.
\<close>

definition key_row ::
  "'a::len arb_transform \<Rightarrow> 'a uni_params \<Rightarrow> 'a poly \<Rightarrow> 'a poly list \<Rightarrow> bool \<Rightarrow> ('a poly \<Rightarrow> 'a poly result)
     \<Rightarrow> 'a key_noise \<Rightarrow> 'a poly \<Rightarrow> nat \<Rightarrow> 'a ftt_cache \<Rightarrow> ('a ftt_cache \<times> 'a poly list) result" where
  "key_row arb P invskNTT CRS m msg rnd skrPoly i cache =
     bindR (SetFormat arb EVALUATION (coef_poly P (kn_e1 rnd i)) cache) (\<lambda>(cache, r1).
     bindR (SetFormat arb EVALUATION (coef_poly P (kn_e0 rnd i)) cache) (\<lambda>(cache, r0).
     bindR (gadget_poly arb P i cache) (\<lambda>(cache, gd).
     bindR (Times gd skrPoly) (\<lambda>t. bindR (Plus r1 t) (\<lambda>r1. bindR (Times r1 invskNTT) (\<lambda>r1.
     bindR (if m then bindR (msg gd) (\<lambda>g. Plus r0 g) else Inr r0) (\<lambda>r0.
     bindR (poly_index skrPoly i) (\<lambda>si. bindR (idx CRS i) (\<lambda>a. bindR (Times_scalar a si) (\<lambda>t.
     bindR (Plus r0 t) (\<lambda>r0. Inr (cache, [r0, r1]))))))))))))"

definition key_rows ::
  "'a::len arb_transform \<Rightarrow> 'a uni_params \<Rightarrow> 'a poly \<Rightarrow> 'a poly list \<Rightarrow> bool \<Rightarrow> ('a poly \<Rightarrow> 'a poly result)
     \<Rightarrow> 'a key_noise \<Rightarrow> 'a ftt_cache \<Rightarrow> ('a ftt_cache \<times> 'a evalkey) result" where
  "key_rows arb P invskNTT CRS m msg rnd cache =
     bindR (SetFormat arb EVALUATION (coef_poly P (kn_r rnd)) cache) (\<lambda>(cache, skrPoly).
       mapS (key_row arb P invskNTT CRS m msg rnd skrPoly) [0..<unat (up_digitsG P - 1)] cache)"

definition KeyGenXZW ::
  "'a::len arb_transform \<Rightarrow> 'a uni_params \<Rightarrow> 'a poly \<Rightarrow> 'a poly list \<Rightarrow> int \<Rightarrow> 'a key_noise
     \<Rightarrow> 'a ftt_cache \<Rightarrow> ('a ftt_cache \<times> 'a evalkey) result" where
  "KeyGenXZW arb P invskNTT CRS m = key_rows arb P invskNTT CRS (m = 1) (\<lambda>gd. Inr gd)"

definition KDMKeyGenXZW ::
  "'a::len arb_transform \<Rightarrow> 'a uni_params \<Rightarrow> 'a poly \<Rightarrow> 'a poly list \<Rightarrow> int \<Rightarrow> 'a key_noise
     \<Rightarrow> 'a ftt_cache \<Rightarrow> ('a ftt_cache \<times> 'a evalkey) result" where
  "KDMKeyGenXZW arb P invskNTT CRS m = key_rows arb P invskNTT CRS (m \<noteq> 0) (\<lambda>gd. Times gd invskNTT)"

text \<open>
  The keys of party \<open>u\<close> for the secret bits \<open>sv\<close>.  \<open>rnd u b i\<close> is the randomness of the key that is
  stored at \<^verbatim>\<open>(*ek)[u][b][i]\<close>; the entries that are never assigned stay null.
\<close>

definition acc_key_bit ::
  "'a::len arb_transform \<Rightarrow> 'a uni_params \<Rightarrow> 'a poly list \<Rightarrow> 'a poly list \<Rightarrow> 'a nvec list \<Rightarrow> (nat \<Rightarrow> nat \<Rightarrow> nat \<Rightarrow> 'a key_noise)
     \<Rightarrow> nat \<Rightarrow> nat \<Rightarrow> 'a word \<Rightarrow> nat \<Rightarrow> 'a ftt_cache \<Rightarrow> ('a ftt_cache \<times> 'a evalkey option) result" where
  "acc_key_bit arb P invskNTT CRS sv rnd u b val i cache =
     bindR (idx sv u) (\<lambda>s. bindR (idx (m_data s) i) (\<lambda>x. bindR (idx invskNTT u) (\<lambda>inv.
     bindR ((if u = 0 \<and> i = 0 then KDMKeyGenXZW else KeyGenXZW) arb P inv CRS (if x = val then 1 else 0) (rnd u b i) cache)
       (\<lambda>(cache, ek). Inr (cache, Some ek)))))"

text \<open>\<open>evk*\<close>, generated with the first key of the first party and stored at \<^verbatim>\<open>(*ek)[0][0][n]\<close>.\<close>

definition acc_key_star ::
  "'a::len arb_transform \<Rightarrow> 'a uni_params \<Rightarrow> 'a poly list \<Rightarrow> 'a poly list \<Rightarrow> (nat \<Rightarrow> nat \<Rightarrow> nat \<Rightarrow> 'a key_noise) \<Rightarrow> nat
     \<Rightarrow> nat \<Rightarrow> nat \<Rightarrow> 'a ftt_cache \<Rightarrow> ('a ftt_cache \<times> 'a evalkey option) result" where
  "acc_key_star arb P invskNTT CRS rnd n u i cache =
     (if u = 0 \<and> i = 0
      then bindR (idx invskNTT u) (\<lambda>inv. bindR (KDMKeyGenXZW arb P inv CRS 1 (rnd u 0 n) cache)
             (\<lambda>(cache, ek). Inr (cache, Some ek)))
      else Inr (cache, None))"

definition star_of :: "('x \<times> 'k option) list \<Rightarrow> 'k option" where
  "star_of ks = (case ks of [] \<Rightarrow> None | k # _ \<Rightarrow> snd k)"

definition KeyGenAcc ::
  "'a::len arb_transform \<Rightarrow> 'a uni_params \<Rightarrow> 'a poly list \<Rightarrow> 'a mntru_sk \<Rightarrow> 'a poly list
     \<Rightarrow> (nat \<Rightarrow> nat \<Rightarrow> nat \<Rightarrow> 'a key_noise) \<Rightarrow> 'a ftt_cache \<Rightarrow> ('a ftt_cache \<times> 'a acckey) result" where
  "KeyGenAcc arb P invskNTT MNTRUsk CRS rnd cache =
     (let sv = GetF_col0 MNTRUsk in
      bindR (idx sv 0) (\<lambda>s0.
        let n = length (m_data s0); neg = m_modulus s0 - 1 in
        mapS (\<lambda>u cache.
            bindR (mapS (\<lambda>i cache.
                bindR (acc_key_bit arb P invskNTT CRS sv rnd u 0 1 i cache) (\<lambda>(cache, k0).
                bindR (acc_key_bit arb P invskNTT CRS sv rnd u 1 neg i cache) (\<lambda>(cache, k1).
                bindR (acc_key_star arb P invskNTT CRS rnd n u i cache) (\<lambda>(cache, star).
                  Inr (cache, ((k0, k1), star))))))
              [0..<n] cache) (\<lambda>(cache, ks).
            Inr (cache, [map (fst \<circ> fst) ks @ [star_of ks], map (snd \<circ> fst) ks @ [None]])))
          [0..<length sv] cache))"

definition KeyGenAcc_B_keys ::
  "'a::len arb_transform \<Rightarrow> 'a uni_params \<Rightarrow> 'a poly list \<Rightarrow> 'a nvec list \<Rightarrow> 'a poly list
     \<Rightarrow> (nat \<Rightarrow> nat \<Rightarrow> nat \<Rightarrow> 'a key_noise) \<Rightarrow> 'a ftt_cache \<Rightarrow> ('a ftt_cache \<times> 'a acckey) result" where
  "KeyGenAcc_B_keys arb P invskNTT sv CRS rnd cache =
     bindR (idx sv 0) (\<lambda>s0.
       let n = length (m_data s0) in
       mapS (\<lambda>u cache.
           bindR (mapS (\<lambda>i cache.
               bindR (acc_key_bit arb P invskNTT CRS sv rnd u 0 1 i cache) (\<lambda>(cache, k0).
               bindR (acc_key_star arb P invskNTT CRS rnd n u i cache) (\<lambda>(cache, star).
                 Inr (cache, (k0, star)))))
             [0..<n] cache) (\<lambda>(cache, ks).
           Inr (cache, [map fst ks @ [star_of ks]])))
         [0..<length sv] cache)"

definition KeyGenAcc_B ::
  "'a::len arb_transform \<Rightarrow> 'a uni_params \<Rightarrow> 'a poly list \<Rightarrow> 'a mntru_sk \<Rightarrow> 'a poly list
     \<Rightarrow> (nat \<Rightarrow> nat \<Rightarrow> nat \<Rightarrow> 'a key_noise) \<Rightarrow> 'a ftt_cache \<Rightarrow> ('a ftt_cache \<times> 'a acckey) result" where
  "KeyGenAcc_B arb P invskNTT MNTRUsk = KeyGenAcc_B_keys arb P invskNTT (GetF_col0 MNTRUsk)"

definition KeyGenAcc_B_LWE ::
  "'a::len arb_transform \<Rightarrow> 'a uni_params \<Rightarrow> 'a poly list \<Rightarrow> 'a nvec list \<Rightarrow> 'a poly list
     \<Rightarrow> (nat \<Rightarrow> nat \<Rightarrow> nat \<Rightarrow> 'a key_noise) \<Rightarrow> 'a ftt_cache \<Rightarrow> ('a ftt_cache \<times> 'a acckey) result" where
  "KeyGenAcc_B_LWE arb P invskNTT MKLWEsk = KeyGenAcc_B_keys arb P invskNTT MKLWEsk"

section \<open>The hybrid product\<close>

text \<open>\<^verbatim>\<open>SignedDigitDecompose\<close> on ring elements: the digits are added to the entries of the output.\<close>

definition decompose :: "'a::len uni_params \<Rightarrow> 'a poly \<Rightarrow> 'a poly list \<Rightarrow> 'a poly list result" where
  "decompose P input out =
     bindR (deref input) (\<lambda>v. bindR (mapR deref out) (\<lambda>ws.
     bindR (SignedDigitDecompose (up_Q P) (up_baseG P) (up_digitsG P) (unat (up_N P)) (m_data v) (map m_data ws)) (\<lambda>rows.
       Inr (map2 (\<lambda>(p, w) r. p \<lparr> p_values := Some (w \<lparr> m_data := r \<rparr>) \<rparr>) (zip out ws) rows))))"

text \<open>The digits of a ring element in evaluation format.\<close>

definition digit_polys ::
  "'a::len arb_transform \<Rightarrow> 'a uni_params \<Rightarrow> 'a poly \<Rightarrow> 'a ftt_cache \<Rightarrow> ('a ftt_cache \<times> 'a poly list) result" where
  "digit_polys arb P input cache =
     bindR (decompose P input (replicate (unat (up_digitsG P - 1)) (poly_new (up_polyParams P) COEFFICIENT True)))
       (\<lambda>dct. mapS (SetFormat arb EVALUATION) dct cache)"

text \<open>The sum of \<open>n\<close> products, built up from the first one.\<close>

definition sum_products :: "('p \<Rightarrow> 'p \<Rightarrow> 'p result) \<Rightarrow> ('p \<Rightarrow> 'p \<Rightarrow> 'p result) \<Rightarrow> nat \<Rightarrow> 'p list \<Rightarrow> 'p list \<Rightarrow> 'p result" where
  "sum_products add mul n xs ys =
     bindR (idx xs 0) (\<lambda>x. bindR (idx ys 0) (\<lambda>y. bindR (mul x y) (\<lambda>t.
       foldR (\<lambda>i t. bindR (idx xs i) (\<lambda>x. bindR (idx ys i) (\<lambda>y. bindR (mul x y) (add t)))) [1..<n] t)))"

definition poly_inner :: "nat \<Rightarrow> 'a::len poly list \<Rightarrow> 'a poly list \<Rightarrow> 'a poly result" where
  "poly_inner = sum_products plus_eq Times"

definition HbProd_party ::
  "'a::len arb_transform \<Rightarrow> 'a uni_params \<Rightarrow> 'a poly list \<Rightarrow> 'a poly list list \<Rightarrow> 'a poly list \<Rightarrow> nat
     \<Rightarrow> 'a ftt_cache \<times> 'a poly \<times> 'a poly list \<Rightarrow> ('a ftt_cache \<times> 'a poly \<times> 'a poly list) result" where
  "HbProd_party arb P d Pkey ct u st =
     (case st of (cache, sumV, acc) \<Rightarrow>
        let digitsG = unat (up_digitsG P - 1) in
        bindR (idx ct u) (\<lambda>c.
        bindR (digit_polys arb P c cache) (\<lambda>(cache, dct).
        bindR (poly_inner digitsG dct d) (\<lambda>uj.
        bindR (idx Pkey u) (\<lambda>pk. bindR (poly_inner digitsG dct pk) (\<lambda>v.
        bindR (plus_eq sumV v) (\<lambda>sumV.
        bindR (upd acc u uj) (\<lambda>acc. Inr (cache, sumV, acc)))))))))"

definition HbProd ::
  "'a::len arb_transform \<Rightarrow> 'a uni_params \<Rightarrow> 'a poly list \<Rightarrow> 'a poly list \<Rightarrow> nat \<Rightarrow> 'a poly list list \<Rightarrow> 'a poly list
     \<Rightarrow> 'a ftt_cache \<Rightarrow> ('a ftt_cache \<times> 'a poly list) result" where
  "HbProd arb P d f index Pkey acc cache =
     (let k = up_k P; digitsG = unat (up_digitsG P - 1) in
      if length acc < k then Inl undefined_behaviour
      else
        bindR (mapS (SetFormat arb COEFFICIENT) (take k acc) cache) (\<lambda>(cache, ct).
        bindR (foldR (HbProd_party arb P d Pkey ct) [0..<k] (cache, poly_new (up_polyParams P) EVALUATION False, acc))
          (\<lambda>(cache, sumV, acc).
        bindR (SetFormat arb COEFFICIENT sumV cache) (\<lambda>(cache, sumV).
        bindR (digit_polys arb P sumV cache) (\<lambda>(cache, dct).
        if index < k
        then bindR (poly_inner digitsG dct f) (\<lambda>w. bindR (idx acc index) (\<lambda>x. bindR (plus_eq x w) (\<lambda>x.
             bindR (upd acc index x) (\<lambda>acc. Inr (cache, acc)))))
        else Inr (cache, acc))))))"

section \<open>Accumulation\<close>

text \<open>The monomials \<open>X ^ c - 1\<close> and \<open>X ^ (- c) - 1\<close>.\<close>

definition monomial_of :: "'a::len uni_params \<Rightarrow> 'a word \<Rightarrow> 'a poly result" where
  "monomial_of P c =
     (let MInt = 2 * up_N P; indexPos = ucast c in GetMonomial P (if indexPos = MInt then 0 else indexPos))"

definition monomialNeg_of :: "'a::len uni_params \<Rightarrow> 'a word \<Rightarrow> 'a poly result" where
  "monomialNeg_of P c =
     (let MInt = 2 * up_N P; indexNeg = ucast (ModSubFast 0 c (ucast MInt))
      in GetMonomial P (if indexNeg = MInt then 0 else indexNeg))"

text \<open>The combination of key rows for one component \<open>j\<close>, for all digits.\<close>

definition xzw_rows :: "nat \<Rightarrow> 'a::len evalkey \<Rightarrow> 'a evalkey \<Rightarrow> 'a poly \<Rightarrow> nat \<Rightarrow> 'a poly list result" where
  "xzw_rows n ev1 ev2 monomialNeg j =
     mapR (\<lambda>i. bindR (idx2 ev1 i j) (\<lambda>x. bindR (idx2 ev2 i j) (\<lambda>y.
       bindR (Times y monomialNeg) (\<lambda>t. bindR (Minus x t) (\<lambda>s. Minus s y))))) [0..<n]"

definition xzw0_rows :: "nat \<Rightarrow> 'a::len evalkey \<Rightarrow> 'a evalkey \<Rightarrow> 'a evalkey \<Rightarrow> 'a poly \<Rightarrow> 'a poly \<Rightarrow> nat \<Rightarrow> 'a poly list result" where
  "xzw0_rows n evs ev1 ev2 monomial monomialNeg j =
     mapR (\<lambda>i. bindR (idx2 evs i j) (\<lambda>z. bindR (idx2 ev1 i j) (\<lambda>x. bindR (idx2 ev2 i j) (\<lambda>y.
       bindR (Times x monomial) (\<lambda>s. bindR (Times y monomialNeg) (\<lambda>t.
       bindR (Plus z s) (\<lambda>r. Plus r t))))))) [0..<n]"

text \<open>\<^verbatim>\<open>acc[u] * monomial\<close> for every party, and the sum with the hybrid product.\<close>

definition scale_acc :: "nat \<Rightarrow> 'a::len poly \<Rightarrow> 'a poly list \<Rightarrow> 'a poly list result" where
  "scale_acc k monomial acc =
     foldR (\<lambda>u acc. bindR (idx acc u) (\<lambda>x. bindR (Times x monomial) (upd acc u))) [0..<k] acc"

definition add_acc :: "nat \<Rightarrow> 'a::len poly list \<Rightarrow> 'a poly list \<Rightarrow> 'a poly list result" where
  "add_acc k acctemp acc =
     foldR (\<lambda>u acc. bindR (idx acc u) (\<lambda>x. bindR (idx acctemp u) (\<lambda>y. bindR (Plus x y) (upd acc u)))) [0..<k] acc"

definition AddToAccXZW ::
  "'a::len arb_transform \<Rightarrow> 'a uni_params \<Rightarrow> 'a evalkey option \<Rightarrow> 'a evalkey option \<Rightarrow> 'a word \<Rightarrow> 'a poly list list \<Rightarrow> nat
     \<Rightarrow> 'a poly list \<Rightarrow> 'a ftt_cache \<Rightarrow> ('a ftt_cache \<times> 'a poly list) result" where
  "AddToAccXZW arb P ek1 ek2 c Pkey index acc cache =
     (let digitsG = unat (up_digitsG P - 1); k = up_k P in
      bindR (monomial_of P c) (\<lambda>monomial. bindR (monomialNeg_of P c) (\<lambda>monomialNeg.
      bindR (opt ek1) (\<lambda>ev1. bindR (opt ek2) (\<lambda>ev2.
      bindR (xzw_rows digitsG ev1 ev2 monomialNeg 0) (\<lambda>d. bindR (xzw_rows digitsG ev1 ev2 monomialNeg 1) (\<lambda>f.
      bindR (scale_acc k monomial acc) (\<lambda>acctemp.
      bindR (HbProd arb P d f index Pkey acctemp cache) (\<lambda>(cache, acctemp).
      bindR (add_acc k acctemp acc) (\<lambda>acc. Inr (cache, acc)))))))))))"

definition AddToAccXZW0 ::
  "'a::len arb_transform \<Rightarrow> 'a uni_params \<Rightarrow> 'a evalkey option \<Rightarrow> 'a evalkey option \<Rightarrow> 'a evalkey option \<Rightarrow> 'a word
     \<Rightarrow> 'a poly list list \<Rightarrow> nat \<Rightarrow> 'a poly list \<Rightarrow> 'a ftt_cache \<Rightarrow> ('a ftt_cache \<times> 'a poly list) result" where
  "AddToAccXZW0 arb P ekstar ek1 ek2 c Pkey index acc cache =
     (let digitsG = unat (up_digitsG P - 1) in
      bindR (monomial_of P c) (\<lambda>monomial. bindR (monomialNeg_of P c) (\<lambda>monomialNeg.
      bindR (opt ekstar) (\<lambda>evs. bindR (opt ek1) (\<lambda>ev1. bindR (opt ek2) (\<lambda>ev2.
      bindR (xzw0_rows digitsG evs ev1 ev2 monomial monomialNeg 0) (\<lambda>d.
      bindR (xzw0_rows digitsG evs ev1 ev2 monomial monomialNeg 1) (\<lambda>f.
      HbProd arb P d f index Pkey acc cache))))))))"

definition key_at :: "'a::len acckey \<Rightarrow> nat \<Rightarrow> nat \<Rightarrow> nat \<Rightarrow> 'a evalkey option result" where
  "key_at ek u b i = bindR (idx ek u) (\<lambda>x. idx2 x b i)"

text \<open>\<^verbatim>\<open>ct[u][i] * 2 * N / mod\<close>.\<close>

definition scaled_exponent :: "'a::len uni_params \<Rightarrow> 'a nvec list \<Rightarrow> 'a word \<Rightarrow> nat \<Rightarrow> nat \<Rightarrow> 'a word result" where
  "scaled_exponent P ct md u i =
     bindR (idx ct u) (\<lambda>c. bindR (idx (m_data c) i) (\<lambda>x. DividedBy (MulFast (MulFast x 2) (ucast (up_N P))) md))"

definition EvalAcc ::
  "'a::len arb_transform \<Rightarrow> 'a uni_params \<Rightarrow> 'a acckey \<Rightarrow> 'a poly list list \<Rightarrow> 'a nvec list \<Rightarrow> 'a poly list
     \<Rightarrow> 'a ftt_cache \<Rightarrow> ('a ftt_cache \<times> 'a poly list) result" where
  "EvalAcc arb P ek Pkey ct acc cache =
     bindR (idx ct 0) (\<lambda>c0.
       let n = length (m_data c0); md = m_modulus c0 in
       foldR (\<lambda>(u, i) (cache, acc).
           bindR (key_at ek u 0 i) (\<lambda>k0. bindR (key_at ek u 1 i) (\<lambda>k1. bindR (scaled_exponent P ct md u i) (\<lambda>c.
           if u = 0 \<and> i = 0
           then bindR (key_at ek u 0 n) (\<lambda>star. AddToAccXZW0 arb P star k0 k1 c Pkey u acc cache)
           else AddToAccXZW arb P k0 k1 c Pkey u acc cache))))
         (List.product [0..<length ct] [0..<n]) (cache, acc))"

text \<open>The variants for binary secrets, with one key per secret and exponents modulo \<open>2 * N\<close>.\<close>

definition xzwB_rows :: "nat \<Rightarrow> 'a::len evalkey \<Rightarrow> nat \<Rightarrow> 'a poly list result" where
  "xzwB_rows n ev1 j = mapR (\<lambda>i. idx2 ev1 i j) [0..<n]"

definition xzwB0_rows :: "nat \<Rightarrow> 'a::len evalkey \<Rightarrow> 'a evalkey \<Rightarrow> 'a poly \<Rightarrow> nat \<Rightarrow> 'a poly list result" where
  "xzwB0_rows n evs ev1 monomial j =
     mapR (\<lambda>i. bindR (idx2 evs i j) (\<lambda>z. bindR (idx2 ev1 i j) (\<lambda>x.
       bindR (Times x monomial) (\<lambda>s. Plus z s)))) [0..<n]"

definition AddToAccXZW_B ::
  "'a::len arb_transform \<Rightarrow> 'a uni_params \<Rightarrow> 'a evalkey option \<Rightarrow> 'a word \<Rightarrow> 'a poly list list \<Rightarrow> nat
     \<Rightarrow> 'a poly list \<Rightarrow> 'a ftt_cache \<Rightarrow> ('a ftt_cache \<times> 'a poly list) result" where
  "AddToAccXZW_B arb P ek1 c Pkey index acc cache =
     (let digitsG = unat (up_digitsG P - 1); k = up_k P in
      bindR (monomial_of P c) (\<lambda>monomial. bindR (opt ek1) (\<lambda>ev1.
      bindR (xzwB_rows digitsG ev1 0) (\<lambda>d. bindR (xzwB_rows digitsG ev1 1) (\<lambda>f.
      bindR (scale_acc k monomial acc) (\<lambda>acctemp.
      bindR (HbProd arb P d f index Pkey acctemp cache) (\<lambda>(cache, acctemp).
      bindR (add_acc k acctemp acc) (\<lambda>acc. Inr (cache, acc)))))))))"

definition AddToAccXZW0_B ::
  "'a::len arb_transform \<Rightarrow> 'a uni_params \<Rightarrow> 'a evalkey option \<Rightarrow> 'a evalkey option \<Rightarrow> 'a word
     \<Rightarrow> 'a poly list list \<Rightarrow> nat \<Rightarrow> 'a poly list \<Rightarrow> 'a ftt_cache \<Rightarrow> ('a ftt_cache \<times> 'a poly list) result" where
  "AddToAccXZW0_B arb P ekstar ek1 c Pkey index acc cache =
     (let digitsG = unat (up_digitsG P - 1) in
      bindR (monomial_of P c) (\<lambda>monomial. bindR (opt ekstar) (\<lambda>evs. bindR (opt ek1) (\<lambda>ev1.
      bindR (xzwB0_rows digitsG evs ev1 monomial 0) (\<lambda>d. bindR (xzwB0_rows digitsG evs ev1 monomial 1) (\<lambda>f.
      HbProd arb P d f index Pkey acc cache))))))"

definition EvalAcc_B ::
  "'a::len arb_transform \<Rightarrow> 'a uni_params \<Rightarrow> 'a acckey \<Rightarrow> 'a poly list list \<Rightarrow> 'a nvec list \<Rightarrow> 'a poly list
     \<Rightarrow> 'a ftt_cache \<Rightarrow> ('a ftt_cache \<times> 'a poly list) result" where
  "EvalAcc_B arb P ek Pkey ct acc cache =
     bindR (idx ct 0) (\<lambda>c0.
       let n = length (m_data c0) in
       foldR (\<lambda>(u, i) (cache, acc).
           bindR (key_at ek u 0 i) (\<lambda>k0. bindR (bindR (idx ct u) (\<lambda>c. idx (m_data c) i)) (\<lambda>c.
           if u = 0 \<and> i = 0
           then bindR (key_at ek u 0 n) (\<lambda>star. AddToAccXZW0_B arb P star k0 c Pkey u acc cache)
           else AddToAccXZW_B arb P k0 c Pkey u acc cache)))
         (List.product [0..<length ct] [0..<n]) (cache, acc))"

section \<open>Arithmetic at the evaluation points\<close>

text \<open>
  What the hybrid product needs of ring elements: operations that act on the values at every
  evaluation point.  \<open>ok s\<close> says that an element belongs to the ring and the state \<open>s\<close>.
\<close>

locale eval_arith =
  fixes ok :: "'s \<Rightarrow> 'p \<Rightarrow> bool" and ev :: "'p \<Rightarrow> nat \<Rightarrow> int" and md :: "'s \<Rightarrow> int" and dm :: "'s \<Rightarrow> nat"
    and add :: "'p \<Rightarrow> 'p \<Rightarrow> 'p result" and mul :: "'p \<Rightarrow> 'p \<Rightarrow> 'p result"
  assumes add_value: "ok s x \<Longrightarrow> ok s y \<Longrightarrow> \<exists>t. add x y = Inr t \<and> ok s t \<and> (\<forall>j<dm s. ev t j = (ev x j + ev y j) mod md s)"
    and mul_value: "ok s x \<Longrightarrow> ok s y \<Longrightarrow> \<exists>t. mul x y = Inr t \<and> ok s t \<and> (\<forall>j<dm s. ev t j = ev x j * ev y j mod md s)"
begin

lemma sum_products_step:
  assumes "ok s t" "ok s x" "ok s y" "\<forall>j<dm s. ev t j = T j mod md s"
  shows "\<exists>u. bindR (mul x y) (add t) = Inr u \<and> ok s u \<and> (\<forall>j<dm s. ev u j = (T j + ev x j * ev y j) mod md s)"
proof -
  obtain p where p: "mul x y = Inr p" "ok s p" "\<forall>j<dm s. ev p j = ev x j * ev y j mod md s"
    using mul_value [OF assms(2,3)] by blast
  obtain u where "add t p = Inr u" "ok s u" "\<forall>j<dm s. ev u j = (ev t j + ev p j) mod md s"
    using add_value [OF assms(1) p(2)] by blast
  then show ?thesis using p assms(4) by (auto simp: mod_add_eq)
qed

lemma sum_products_value:
  assumes "0 < n" "n \<le> length xs" "n \<le> length ys" "\<And>i. i < n \<Longrightarrow> ok s (xs ! i)" "\<And>i. i < n \<Longrightarrow> ok s (ys ! i)"
  shows "\<exists>t. sum_products add mul n xs ys = Inr t \<and> ok s t
    \<and> (\<forall>j<dm s. ev t j = (\<Sum>i<n. ev (xs ! i) j * ev (ys ! i) j) mod md s)"
proof -
  let ?f = "\<lambda>i t. bindR (idx xs i) (\<lambda>x. bindR (idx ys i) (\<lambda>y. bindR (mul x y) (add t)))"
  obtain t0 where t0: "mul (xs ! 0) (ys ! 0) = Inr t0" "ok s t0" "\<forall>j<dm s. ev t0 j = ev (xs ! 0) j * ev (ys ! 0) j mod md s"
    using mul_value assms(1,4,5) by blast
  have "\<exists>t. foldR ?f [1..<m] t0 = Inr t \<and> ok s t
      \<and> (\<forall>j<dm s. ev t j = (\<Sum>i<m. ev (xs ! i) j * ev (ys ! i) j) mod md s)" if "0 < m" "m \<le> n" for m
    using that
  proof (induction m)
    case (Suc m)
    show ?case
    proof (cases "m = 0")
      case True
      then show ?thesis using t0 by simp
    next
      case False
      then obtain t where t: "foldR ?f [1..<m] t0 = Inr t" "ok s t"
          "\<forall>j<dm s. ev t j = (\<Sum>i<m. ev (xs ! i) j * ev (ys ! i) j) mod md s"
        using Suc by auto
      have "m < n" using Suc.prems by simp
      then obtain u where "bindR (mul (xs ! m) (ys ! m)) (add t) = Inr u" "ok s u"
          "\<forall>j<dm s. ev u j = ((\<Sum>i<m. ev (xs ! i) j * ev (ys ! i) j) + ev (xs ! m) j * ev (ys ! m) j) mod md s"
        using sum_products_step [OF t(2) assms(4,5) t(3)] by blast
      then show ?thesis
        using t(1) False \<open>m < n\<close> assms(2,3) by (simp add: foldR_append idx_def)
    qed
  qed simp
  from this [OF assms(1) le_refl] show ?thesis
    using t0(1) assms(1-3) by (auto simp: sum_products_def idx_def)
qed

end

text \<open>The ring elements in evaluation format, with their values at the points.\<close>

type_synonym 'a ring_state = "'a ftt_cache \<times> nat \<times> 'a il_params"

definition epoly :: "'a::len ring_state \<Rightarrow> 'a poly \<Rightarrow> bool" where
  "epoly s p \<longleftrightarrow> (case s of (c, L, P) \<Rightarrow>
     cache_ok c \<and> poly_ok c L p \<and> p_format p = EVALUATION \<and> p_params p = P)"

definition pev :: "'a::len poly \<Rightarrow> nat \<Rightarrow> int" where
  "pev p j = uint (m_data (the (p_values p)) ! j)"

definition ring_mod :: "'a::len ring_state \<Rightarrow> int" where
  "ring_mod s = uint (ciphertextModulus (snd (snd s)))"

definition ring_len :: "'a::len ring_state \<Rightarrow> nat" where
  "ring_len s = 2 ^ fst (snd s)"

lemma epolyD:
  assumes "epoly (c, L, P) p"
  obtains v where "p_values p = Some v" "nvec_ok v" "m_modulus v = ciphertextModulus P" "length (m_data v) = 2 ^ L"
    "deref p = Inr v" "ring_params L P" "\<And>j. pev p j = uint (m_data v ! j)" "barrett_modulus (m_modulus v)"
  using assms ring_paramsD(8) by (auto simp: epoly_def poly_ok_def deref_def pev_def)

lemma epoly_update:
  assumes "epoly s p" "nvec_ok u" "m_modulus u = ciphertextModulus (snd (snd s))" "length (m_data u) = 2 ^ fst (snd s)"
  shows "epoly s (p \<lparr> p_values := Some u \<rparr>)"
  using assms by (auto simp: epoly_def poly_ok_def split: prod.splits)

lemma epoly_binary:
  assumes "epoly s p" "epoly s r"
    and "\<And>v w. p_values p = Some v \<Longrightarrow> p_values r = Some w \<Longrightarrow> nvec_ok v \<Longrightarrow> nvec_ok w \<Longrightarrow> same_shape v w
      \<Longrightarrow> barrett_modulus (m_modulus v)
      \<Longrightarrow> \<exists>u. op v w = Inr u \<and> nvec_ok u \<and> m_modulus u = m_modulus v
            \<and> vals u = map2 (\<lambda>x y. F x y mod uint (m_modulus v)) (vals v) (vals w)"
  obtains u where "op (the (p_values p)) (the (p_values r)) = Inr u" "epoly s (p \<lparr> p_values := Some u \<rparr>)"
    "\<And>j. j < ring_len s \<Longrightarrow> pev (p \<lparr> p_values := Some u \<rparr>) j = F (pev p j) (pev r j) mod ring_mod s"
    "same_shape (the (p_values p)) (the (p_values r))"
proof -
  obtain c L P where s: "s = (c, L, P)" by (cases s) auto
  obtain v where v: "p_values p = Some v" "nvec_ok v" "m_modulus v = ciphertextModulus P" "length (m_data v) = 2 ^ L"
      "\<And>j. pev p j = uint (m_data v ! j)" "barrett_modulus (m_modulus v)"
    using epolyD [OF assms(1) [unfolded s]] by metis
  obtain w where w: "p_values r = Some w" "nvec_ok w" "m_modulus w = ciphertextModulus P" "length (m_data w) = 2 ^ L"
      "\<And>j. pev r j = uint (m_data w ! j)"
    using epolyD [OF assms(2) [unfolded s]] by metis
  have sh: "same_shape v w" using v w by (simp add: same_shape_def)
  obtain u where u: "op v w = Inr u" "nvec_ok u" "m_modulus u = m_modulus v"
      "vals u = map2 (\<lambda>x y. F x y mod uint (m_modulus v)) (vals v) (vals w)"
    using assms(3) [OF v(1) w(1) v(2) w(2) sh v(6)] by blast
  have len: "length (m_data u) = 2 ^ L" using map2_length [OF u(4) [unfolded vals_def]] v(4) w(4) by simp
  have "pev (p \<lparr> p_values := Some u \<rparr>) j = F (pev p j) (pev r j) mod ring_mod s" if "j < ring_len s" for j
    using that u(4) len v w vals_nth [of j u] vals_nth [of j v] vals_nth [of j w]
    by (simp add: pev_def ring_len_def ring_mod_def s)
  then show thesis
    using that u(1) v(1) w(1) sh epoly_update [OF assms(1) u(2)] u(3) v(3) len by (simp add: s)
qed

lemma plus_eq_value:
  assumes "epoly s x" "epoly s y"
  shows "\<exists>t. plus_eq x y = Inr t \<and> epoly s t \<and> (\<forall>j<ring_len s. pev t j = (pev x j + pev y j) mod ring_mod s)"
    and "\<exists>t. Plus x y = Inr t \<and> epoly s t \<and> (\<forall>j<ring_len s. pev t j = (pev x j + pev y j) mod ring_mod s)"
proof -
  obtain u where u: "vec_ModAdd (the (p_values x)) (the (p_values y)) = Inr u" "epoly s (x \<lparr> p_values := Some u \<rparr>)"
      "\<And>j. j < ring_len s \<Longrightarrow> pev (x \<lparr> p_values := Some u \<rparr>) j = (pev x j + pev y j) mod ring_mod s"
      "same_shape (the (p_values x)) (the (p_values y))"
    using epoly_binary [OF assms, of vec_ModAdd "(+)"] vec_ModAdd_value by metis
  obtain v w where v: "p_values x = Some v" "p_values y = Some w" "p_params x = p_params y" "p_format x = p_format y"
    using assms by (auto simp: epoly_def poly_ok_def split: prod.splits)
  show "\<exists>t. plus_eq x y = Inr t \<and> epoly s t \<and> (\<forall>j<ring_len s. pev t j = (pev x j + pev y j) mod ring_mod s)"
    using u v by (intro exI [of _ "x \<lparr> p_values := Some u \<rparr>"]) (simp add: plus_eq_def filled_def deref_def)
  show "\<exists>t. Plus x y = Inr t \<and> epoly s t \<and> (\<forall>j<ring_len s. pev t j = (pev x j + pev y j) mod ring_mod s)"
    using u v by (intro exI [of _ "x \<lparr> p_values := Some u \<rparr>"])
      (simp add: Plus_def PlusNoCheck_def same_ring_def deref_def vec_ModAddNoCheck_eq)
qed

lemma Times_value:
  assumes "epoly s x" "epoly s y"
  shows "\<exists>t. Times x y = Inr t \<and> epoly s t \<and> (\<forall>j<ring_len s. pev t j = pev x j * pev y j mod ring_mod s)"
proof -
  obtain u where u: "vec_ModMul (the (p_values x)) (the (p_values y)) = Inr u" "epoly s (x \<lparr> p_values := Some u \<rparr>)"
      "\<And>j. j < ring_len s \<Longrightarrow> pev (x \<lparr> p_values := Some u \<rparr>) j = pev x j * pev y j mod ring_mod s"
      "same_shape (the (p_values x)) (the (p_values y))"
    using epoly_binary [OF assms, of vec_ModMul "(*)"] vec_ModMul_value by metis
  obtain v w where v: "p_values x = Some v" "p_values y = Some w" "p_params x = p_params y"
      "p_format x = EVALUATION" "p_format y = EVALUATION"
    using assms by (auto simp: epoly_def poly_ok_def split: prod.splits)
  then show ?thesis
    using u by (intro exI [of _ "x \<lparr> p_values := Some u \<rparr>"])
      (simp add: Times_def TimesNoCheck_def same_ring_def deref_def vec_ModMulNoCheck_eq)
qed

interpretation ring: eval_arith epoly pev ring_mod ring_len plus_eq Times
  by unfold_locales (rule plus_eq_value(1) Times_value, assumption+)+

section \<open>Changes of format with present tables\<close>

definition ready :: "'a::len ring_state \<Rightarrow> bool" where
  "ready s \<longleftrightarrow> (case s of (c, L, P) \<Rightarrow> ftt_reachable c \<and> ring_params L P \<and> \<not> needs_tables c (ciphertextModulus P) (2 ^ L))"

text \<open>The value at point \<open>j\<close> of a polynomial with given coefficients.\<close>

definition point :: "'a::len ring_state \<Rightarrow> nat \<Rightarrow> int" where
  "point s j = (case s of (c, L, P) \<Rightarrow> eval_point (tables_of c (ciphertextModulus P) L) L j)"

definition at_point :: "'a::len ring_state \<Rightarrow> (nat \<Rightarrow> int) \<Rightarrow> nat \<Rightarrow> int" where
  "at_point s cs j = (\<Sum>k<ring_len s. cs k * point s j ^ k)"

lemma poly_eval_at_point:
  "length xs = ring_len s \<Longrightarrow> poly_eval xs (point s j) = at_point s (\<lambda>k. uint (xs ! k)) j"
  by (simp add: poly_eval_def at_point_def)

lemma to_eval:
  assumes "ready (c, L, P)" "p_format p = COEFFICIENT" "p_params p = P" "p_values p = Some v"
    "nvec_ok v" "m_modulus v = ciphertextModulus P" "length (m_data v) = 2 ^ L"
  obtains t where "SetFormat arb EVALUATION p c = Inr (c, t)" "epoly (c, L, P) t"
    "\<And>j. j < 2 ^ L \<Longrightarrow> pev t j = at_point (c, L, P) (\<lambda>k. uint (m_data v ! k)) j mod uint (ciphertextModulus P)"
proof -
  let ?q = "ciphertextModulus P" and ?N = "tables_of c (ciphertextModulus P) L"
  have r: "ftt_reachable c" "ring_params L P" "\<not> needs_tables c ?q (2 ^ L)" using assms(1) by (simp_all add: ready_def)
  note ok = ftt_reachable_cache_ok [OF r(1)] and P = ring_paramsD [OF r(2)]
  note entry = cache_okD [OF ok r(3)]
  then have T: "ntt_tables_ok ?N L" by (simp add: entry_ok_def)
  have vr: "valid_root (m_modulus v) L (rootOfUnity P)" using P(3) assms(6) by simp
  obtain c' w where f: "ftt_ForwardInPlace (rootOfUnity P) (2 ^ Suc L) v c = Inr (c', w)"
      "ensure_tables (rootOfUnity P) (2 ^ Suc L) ?q c = Inr c'" "ntt_forward_of (tables_of c' ?q L) v = Inr w"
    using ftt_forward_runs [OF ok vr assms(5,7)] assms(6) by metis
  have "c' = c" using f(2) ensure_tables_present [OF entry P(4) r(3)] by simp
  note f = f [unfolded this]
  have fv: "fits ?N L v" using assms(5-7) by (simp add: fits_def)
  obtain w' where w': "ntt_forward_of ?N v = Inr w'" "fits ?N L w'"
      "\<And>j. j < 2 ^ L \<Longrightarrow> uint (m_data w' ! j) = poly_eval (m_data v) (eval_point ?N L j) mod uint ?q"
    using ntt_forward_value [OF T fv] by (metis entry_modulus)
  have w: "w' = w" using w'(1) f(3) by simp
  let ?t = "p \<lparr> p_format := EVALUATION, p_values := Some w \<rparr>"
  have "SetFormat arb EVALUATION p c = Inr (c, ?t)"
    using f(1) assms(2-4) P(1,7) by (simp add: SetFormat_def SwitchFormat_def other_format_def del: power_Suc)
  moreover have "epoly (c, L, P) ?t"
    using ok r assms(3) w'(2) by (simp add: epoly_def poly_ok_def fits_def w)
  ultimately show thesis
    using that w'(3) assms(7) poly_eval_at_point [of "m_data v" "(c, L, P)"]
    by (simp add: pev_def w ring_len_def point_def)
qed

lemma to_coef:
  assumes "ready (c, L, P)" "epoly (c, L, P) p"
  obtains t v where "SetFormat arb COEFFICIENT p c = Inr (c, t)" "p_format t = COEFFICIENT" "p_params t = P"
    "p_values t = Some v" "nvec_ok v" "m_modulus v = ciphertextModulus P" "length (m_data v) = 2 ^ L"
    "\<And>j. j < 2 ^ L \<Longrightarrow> at_point (c, L, P) (\<lambda>k. uint (m_data v ! k)) j mod uint (ciphertextModulus P) = pev p j"
proof -
  let ?q = "ciphertextModulus P" and ?N = "tables_of c (ciphertextModulus P) L" and ?v = "coeff_vec c L p"
  have r: "ftt_reachable c" using assms(1) by (simp add: ready_def)
  have p: "cache_ok c" "poly_ok c L p" "p_format p = EVALUATION" "p_params p = P" using assms(2) by (simp_all add: epoly_def)
  note V = coeff_vec_ok [OF p(1,2), unfolded p(4)] and E = coeff_vec_eval [OF p(1-3), unfolded p(4)]
  note T = poly_tables(1) [OF p(1-3), unfolded p(4)]
  obtain t where t: "SwitchFormat arb p c = Inr (c, t)" "poly_ok c L t" "p_params t = p_params p" "p_format t = COEFFICIENT"
      "coeffs c L t = coeffs c L p"
    using SwitchFormat_eval [OF r p(2,3)] by metis
  obtain w where w: "p_values t = Some w" "m_modulus w = ciphertextModulus (p_params t)"
    using poly_okD [OF t(2)] by metis
  have "map uint (m_data w) = map uint (m_data ?v)"
    using t(4,5) w(1) by (simp add: coeffs_def coeff_vec_def [of c L t] vals_def)
  then have "m_data w = m_data ?v" by (rule map_injective) (simp add: inj_on_def word_uint_eq_iff)
  moreover have "m_modulus w = m_modulus ?v" using w(2) t(3) p(4) V(2) by simp
  ultimately have wv: "w = ?v" by simp
  have "at_point (c, L, P) (\<lambda>k. uint (m_data ?v ! k)) j mod uint ?q = pev p j" if "j < 2 ^ L" for j
  proof -
    have "pev p j = poly_eval (m_data ?v) (eval_point ?N L j) mod uint ?q"
      using ntt_forward_value [OF T E(1)] E(2) that unfolding pev_def by (metis entry_modulus sum.inject(2))
    then show ?thesis using poly_eval_at_point [of "m_data ?v" "(c, L, P)" j] V(3) by (simp add: ring_len_def point_def)
  qed
  then show thesis
    using that [of t w] t(1,3,4) w(1) wv V p(3,4) by (simp add: SetFormat_def)
qed

section \<open>Digits of a ring element\<close>

definition gadget_ok :: "'a::len ring_state \<Rightarrow> 'a uni_params \<Rightarrow> nat \<Rightarrow> nat \<Rightarrow> bool" where
  "gadget_ok s U g l \<longleftrightarrow> (case s of (c, L, P) \<Rightarrow>
     up_polyParams U = P \<and> up_Q U = ciphertextModulus P \<and> up_N U = 2 ^ L \<and> up_baseG U = 2 ^ g
     \<and> unat (up_digitsG U) = l \<and> 2 \<le> l \<and> 0 < g \<and> g < 32 \<and> g < LENGTH('a)
     \<and> 2 ^ (g - 1) \<le> uint (ciphertextModulus P) \<and> uint (ciphertextModulus P) \<le> (2 ^ g) ^ l)"

text \<open>Coefficients within half of the base.\<close>

definition half_base :: "nat \<Rightarrow> nat \<Rightarrow> (nat \<Rightarrow> int) \<Rightarrow> bool" where
  "half_base g n cs \<longleftrightarrow> (\<forall>k<n. - (2 ^ (g - 1)) \<le> cs k \<and> cs k < 2 ^ (g - 1))"

text \<open>The part of an element that its digits do not represent: a dropped digit and a carry.\<close>

definition dropped :: "nat \<Rightarrow> nat \<Rightarrow> nat \<Rightarrow> (nat \<Rightarrow> int) \<Rightarrow> bool" where
  "dropped g l n cs \<longleftrightarrow> (\<exists>e t. half_base g n e \<and> (\<forall>k<n. (t k = 0 \<or> t k = 1) \<and> cs k = e k + (2 ^ g) ^ l * t k))"

lemma unat_power2: "k \<le> 25 \<Longrightarrow> unat (2 ^ k :: 32 word) = 2 ^ k"
  by (intro unat_power_two) simp

lemma mapR_replicate: "f x = Inr y \<Longrightarrow> mapR f (replicate n x) = Inr (replicate n y)"
  by (induction n) auto

text \<open>The digits as coefficient polynomials.\<close>

lemma decompose_rows:
  fixes U :: "'a::len uni_params"
  assumes "ring_params L P" "gadget_ok (c, L, P) U g l" "p_values p = Some v" "nvec_ok v"
    "m_modulus v = ciphertextModulus P" "length (m_data v) = 2 ^ L"
  obtains rows where
    "decompose U p (replicate (l - 1) (poly_new P COEFFICIENT True))
       = Inr (map (\<lambda>r. \<lparr> p_format = COEFFICIENT, p_params = P,
              p_values = Some \<lparr> m_modulus = ciphertextModulus P, m_data = r \<rparr> \<rparr>) rows)"
    "length rows = l - 1" "\<And>i. i < l - 1 \<Longrightarrow> length (rows ! i) = 2 ^ L"
    "\<And>i k. i < l - 1 \<Longrightarrow> k < 2 ^ L \<Longrightarrow> \<exists>r. - (2 ^ (g - 1)) \<le> r \<and> r < 2 ^ (g - 1) \<and> uint (rows ! i ! k) = r mod uint (ciphertextModulus P)"
    "\<And>k. k < 2 ^ L \<Longrightarrow> \<exists>e t. - (2 ^ (g - 1)) \<le> e \<and> e < 2 ^ (g - 1) \<and> (t = 0 \<or> t = 1)
       \<and> ((\<Sum>i<l - 1. uint (rows ! i ! k) * (2 ^ g) ^ Suc i) + e + (2 ^ g) ^ l * t) mod uint (ciphertextModulus P) = uint (m_data v ! k)"
proof -
  let ?q = "ciphertextModulus P" and ?z = "poly_new P COEFFICIENT True"
  note P = ring_paramsD [OF assms(1)]
  have G: "up_Q U = ?q" "up_N U = 2 ^ L" "up_baseG U = 2 ^ g" "unat (up_digitsG U) = l" "0 < l" "0 < g" "g < 32"
      "g < LENGTH('a)" "2 ^ (g - 1) \<le> uint ?q" "uint ?q \<le> (2 ^ g) ^ l"
    using assms(2) by (simp_all add: gadget_ok_def)
  have "\<forall>k<2 ^ L. residue ?q (m_data v ! k)" using nvec_ok_nth [OF assms(4)] assms(5,6) by simp
  from signed_digit_rows [OF P(9) G(6-9,4,5,10) assms(6) this]
  obtain rows where R: "SignedDigitDecompose ?q (2 ^ g) (up_digitsG U) (2 ^ L) (m_data v) (zeros (l - 1) (2 ^ L)) = Inr rows"
      "shape (l - 1) (2 ^ L) rows"
      "\<forall>k<2 ^ L. (\<forall>i<l - 1. \<exists>r. - (2 ^ (g - 1)) \<le> r \<and> r < 2 ^ (g - 1) \<and> uint (rows ! i ! k) = r mod uint ?q)
        \<and> (\<exists>e t. - (2 ^ (g - 1)) \<le> e \<and> e < 2 ^ (g - 1) \<and> (t = 0 \<or> t = 1)
            \<and> (sd_value (uint ?q) (uint (m_data v ! k)) \<le> max_rep g l \<longrightarrow> t = 0)
            \<and> ((\<Sum>i<l - 1. uint (rows ! i ! k) * (2 ^ g) ^ Suc i) + e + (2 ^ g) ^ l * t) mod uint ?q = uint (m_data v ! k))"
    by blast
  have len: "length rows = l - 1" "\<And>i. i < l - 1 \<Longrightarrow> length (rows ! i) = 2 ^ L" using R(2) by (auto simp: shape_def)
  have z: "deref ?z = Inr (vec_zero (2 ^ L) ?q)" by (simp add: poly_new_def SetValuesToZero_def deref_def P(6))
  have "decompose U p (replicate (l - 1) ?z)
      = Inr (map2 (\<lambda>(p, w) r. p \<lparr> p_values := Some (w \<lparr> m_data := r \<rparr>) \<rparr>)
          (zip (replicate (l - 1) ?z) (replicate (l - 1) (vec_zero (2 ^ L) ?q))) rows)"
    unfolding decompose_def using assms(3) R(1) G(1,2,3) unat_power2 [of L] P(4)
    by (simp add: deref_def [of p] mapR_replicate [of deref ?z, OF z] zeros_def vec_zero_def)
  also have "\<dots> = Inr (map (\<lambda>r. \<lparr> p_format = COEFFICIENT, p_params = P,
        p_values = Some \<lparr> m_modulus = ?q, m_data = r \<rparr> \<rparr>) rows)"
    using len(1) by (auto intro!: nth_equalityI simp: poly_new_def SetValuesToZero_def vec_zero_def)
  finally show thesis by (rule that) (use len R(3) in \<open>blast+\<close>)
qed

lemma mapS_state:
  assumes "\<And>x. x \<in> set xs \<Longrightarrow> f x c = Inr (c, g x)"
  shows "mapS f xs c = Inr (c, map g xs)"
  using assms by (induction xs) auto

lemma at_point_cong:
  assumes "\<And>k. k < ring_len s \<Longrightarrow> f k mod q = h k mod q"
  shows "at_point s f j mod q = at_point s h j mod q"
  unfolding at_point_def by (intro sum_mod_eqI mod_mult_cong [OF assms refl])

lemma at_point_sum: "at_point s (\<lambda>k. \<Sum>i<n. f i k * b i) j = (\<Sum>i<n. at_point s (f i) j * b i)"
proof -
  have "at_point s (\<lambda>k. \<Sum>i<n. f i k * b i) j = (\<Sum>k<ring_len s. \<Sum>i<n. f i k * point s j ^ k * b i)"
    unfolding at_point_def sum_distrib_right by (intro sum.cong refl) (simp add: algebra_simps)
  also have "\<dots> = (\<Sum>i<n. \<Sum>k<ring_len s. f i k * point s j ^ k * b i)" by (rule sum.swap)
  finally show ?thesis by (simp add: at_point_def sum_distrib_right)
qed

lemma at_point_add: "at_point s (\<lambda>k. f k + h k) j = at_point s f j + at_point s h j"
  by (simp add: at_point_def algebra_simps sum.distrib)

text \<open>
  The digits of an element with coefficients \<open>v\<close>: small elements whose weighted sum is the element
  up to the dropped part.
\<close>

lemma digit_polys_value:
  fixes U :: "'a::len uni_params"
  assumes "ready (c, L, P)" "gadget_ok (c, L, P) U g l" "p_values p = Some v" "nvec_ok v"
    "m_modulus v = ciphertextModulus P" "length (m_data v) = 2 ^ L"
  obtains dct digs err where "digit_polys arb U p c = Inr (c, dct)" "length dct = l - 1"
    "\<And>i. i < l - 1 \<Longrightarrow> epoly (c, L, P) (dct ! i)"
    "\<And>i. i < l - 1 \<Longrightarrow> half_base g (2 ^ L) (digs i)"
    "\<And>i j. i < l - 1 \<Longrightarrow> j < 2 ^ L \<Longrightarrow> pev (dct ! i) j = at_point (c, L, P) (digs i) j mod uint (ciphertextModulus P)"
    "dropped g l (2 ^ L) err"
    "\<And>j. j < 2 ^ L \<Longrightarrow> ((\<Sum>i<l - 1. pev (dct ! i) j * (2 ^ g) ^ Suc i) + at_point (c, L, P) err j) mod uint (ciphertextModulus P)
       = at_point (c, L, P) (\<lambda>k. uint (m_data v ! k)) j mod uint (ciphertextModulus P)"
proof -
  let ?s = "(c, L, P)" and ?q = "ciphertextModulus P"
  have rp: "ring_params L P" using assms(1) by (simp add: ready_def)
  note P = ring_paramsD [OF rp]
  have len: "ring_len ?s = 2 ^ L" by (simp add: ring_len_def)
  have l: "unat (up_digitsG U - 1) = l - 1" "up_polyParams U = P"
  proof -
    have "unat (up_digitsG U) = l" "2 \<le> l" using assms(2) by (simp_all add: gadget_ok_def)
    moreover from this have "up_digitsG U \<noteq> 0" by auto
    ultimately show "unat (up_digitsG U - 1) = l - 1" by (simp add: unat_minus_one)
    show "up_polyParams U = P" using assms(2) by (simp add: gadget_ok_def)
  qed
  define mkp where "mkp r = \<lparr> p_format = COEFFICIENT, p_params = P, p_values = Some \<lparr> m_modulus = ?q, m_data = r \<rparr> \<rparr>" for r
  obtain rows where R: "decompose U p (replicate (l - 1) (poly_new P COEFFICIENT True)) = Inr (map mkp rows)"
      "length rows = l - 1" "\<And>i. i < l - 1 \<Longrightarrow> length (rows ! i) = 2 ^ L"
      "\<And>i k. i < l - 1 \<Longrightarrow> k < 2 ^ L \<Longrightarrow> \<exists>r. - (2 ^ (g - 1)) \<le> r \<and> r < 2 ^ (g - 1) \<and> uint (rows ! i ! k) = r mod uint ?q"
      "\<And>k. k < 2 ^ L \<Longrightarrow> \<exists>e t. - (2 ^ (g - 1)) \<le> e \<and> e < 2 ^ (g - 1) \<and> (t = 0 \<or> t = 1)
        \<and> ((\<Sum>i<l - 1. uint (rows ! i ! k) * (2 ^ g) ^ Suc i) + e + (2 ^ g) ^ l * t) mod uint ?q = uint (m_data v ! k)"
    using decompose_rows [OF rp assms(2-6)] unfolding mkp_def by blast
  obtain digs where D: "\<And>i k. i < l - 1 \<Longrightarrow> k < 2 ^ L \<Longrightarrow> - (2 ^ (g - 1)) \<le> digs i k \<and> digs i k < 2 ^ (g - 1)
      \<and> uint (rows ! i ! k) = digs i k mod uint ?q"
    using R(4) by metis
  define Q where "Q k e t \<longleftrightarrow> - (2 ^ (g - 1)) \<le> e \<and> e < 2 ^ (g - 1) \<and> (t = 0 \<or> t = 1)
      \<and> ((\<Sum>i<l - 1. uint (rows ! i ! k) * (2 ^ g) ^ Suc i) + e + (2 ^ g) ^ l * t) mod uint ?q = uint (m_data v ! k)"
    for k e t
  have "\<forall>k \<in> {..<2 ^ L}. \<exists>e t. Q k e t" using R(5) unfolding Q_def by simp
  then obtain e t where "\<forall>k \<in> {..<2 ^ L}. Q k (e k) (t k)" by metis
  then have E: "\<And>k. k < 2 ^ L \<Longrightarrow> - (2 ^ (g - 1)) \<le> e k \<and> e k < 2 ^ (g - 1) \<and> (t k = 0 \<or> t k = 1)
      \<and> ((\<Sum>i<l - 1. uint (rows ! i ! k) * (2 ^ g) ^ Suc i) + e k + (2 ^ g) ^ l * t k) mod uint ?q = uint (m_data v ! k)"
    unfolding Q_def by simp
  have res: "residue ?q (rows ! i ! k)" if "i < l - 1" "k < 2 ^ L" for i k
    using D [OF that] P(11) by (intro residue_uint_mod) auto
  have row: "\<exists>x. SetFormat arb EVALUATION (mkp (rows ! i)) c = Inr (c, x) \<and> epoly ?s x
      \<and> (\<forall>j<2 ^ L. pev x j = at_point ?s (\<lambda>k. uint (rows ! i ! k)) j mod uint ?q)" if "i < l - 1" for i
    by (rule to_eval [OF assms(1), of "mkp (rows ! i)" "\<lparr> m_modulus = ?q, m_data = rows ! i \<rparr>"])
       (use that R(3) res P(9) in \<open>auto simp: mkp_def nvec_ok_def in_set_conv_nth\<close>)
  define x where "x r = snd (projr (SetFormat arb EVALUATION (mkp r) c))" for r
  have X: "SetFormat arb EVALUATION (mkp (rows ! i)) c = Inr (c, x (rows ! i))" "epoly ?s (x (rows ! i))"
      "\<And>j. j < 2 ^ L \<Longrightarrow> pev (x (rows ! i)) j = at_point ?s (\<lambda>k. uint (rows ! i ! k)) j mod uint ?q" if "i < l - 1" for i
    using row [OF that] by (auto simp: x_def)
  have "mapS (\<lambda>r. SetFormat arb EVALUATION (mkp r)) rows c = Inr (c, map x rows)"
    by (rule mapS_state) (metis X(1) R(2) in_set_conv_nth)
  moreover have "mapS (SetFormat arb EVALUATION) (map mkp rows) c = mapS (\<lambda>r. SetFormat arb EVALUATION (mkp r)) rows c"
    for rows by (induction rows arbitrary: c) simp_all
  ultimately have run: "digit_polys arb U p c = Inr (c, map x rows)"
    using R(1) by (simp add: digit_polys_def l)
  define err where "err k = e k + (2 ^ g) ^ l * t k" for k
  show thesis
  proof (rule that [OF run, of digs err])
    show "length (map x rows) = l - 1" using R(2) by simp
    show "epoly ?s (map x rows ! i)" "half_base g (2 ^ L) (digs i)" if "i < l - 1" for i
      using X(2) [OF that] D that R(2) by (simp_all add: half_base_def)
    show "pev (map x rows ! i) j = at_point ?s (digs i) j mod uint ?q" if "i < l - 1" "j < 2 ^ L" for i j
    proof -
      have "at_point ?s (\<lambda>k. uint (rows ! i ! k)) j mod uint ?q = at_point ?s (digs i) j mod uint ?q"
        by (rule at_point_cong) (use D [OF that(1)] in \<open>simp add: len\<close>)
      then show ?thesis using X(3) [OF that] R(2) that(1) by simp
    qed
    show "dropped g l (2 ^ L) err"
      unfolding dropped_def half_base_def err_def using E by (intro exI [of _ e] exI [of _ t]) auto
    fix j :: nat
    assume j: "j < 2 ^ L"
    have "(\<Sum>i<l - 1. pev (map x rows ! i) j * (2 ^ g) ^ Suc i) mod uint ?q
        = (\<Sum>i<l - 1. at_point ?s (\<lambda>k. uint (rows ! i ! k)) j * (2 ^ g) ^ Suc i) mod uint ?q"
      by (intro sum_mod_eqI mod_mult_cong [OF _ refl]) (simp add: X(3) j R(2))
    then have "((\<Sum>i<l - 1. pev (map x rows ! i) j * (2 ^ g) ^ Suc i) + at_point ?s err j) mod uint ?q
        = (at_point ?s (\<lambda>k. \<Sum>i<l - 1. uint (rows ! i ! k) * (2 ^ g) ^ Suc i) j + at_point ?s err j) mod uint ?q"
      unfolding at_point_sum [of ?s] by (rule mod_add_cong [OF _ refl])
    also have "\<dots> = at_point ?s (\<lambda>k. uint (m_data v ! k)) j mod uint ?q"
      unfolding at_point_add [symmetric]
    proof (rule at_point_cong)
      fix k
      assume "k < ring_len ?s"
      then have "((\<Sum>i<l - 1. uint (rows ! i ! k) * (2 ^ g) ^ Suc i) + err k) mod uint ?q = uint (m_data v ! k)"
        using E [of k] by (simp only: len err_def add.assoc)
      then show "((\<Sum>i<l - 1. uint (rows ! i ! k) * (2 ^ g) ^ Suc i) + err k) mod uint ?q = uint (m_data v ! k) mod uint ?q"
        by (metis mod_mod_trivial)
    qed
    finally show "((\<Sum>i<l - 1. pev (map x rows ! i) j * (2 ^ g) ^ Suc i) + at_point ?s err j) mod uint ?q
        = at_point ?s (\<lambda>k. uint (m_data v ! k)) j mod uint ?q" .
  qed
qed

section \<open>The hybrid product runs\<close>

definition digit_spec ::
  "'a::len ring_state \<Rightarrow> nat \<Rightarrow> nat \<Rightarrow> 'a poly \<Rightarrow> 'a poly list \<Rightarrow> (nat \<Rightarrow> nat \<Rightarrow> int) \<Rightarrow> (nat \<Rightarrow> int) \<Rightarrow> bool" where
  "digit_spec s g l x dct digs err \<longleftrightarrow> length dct = l - 1
     \<and> (\<forall>i<l - 1. epoly s (dct ! i) \<and> half_base g (ring_len s) (digs i)
          \<and> (\<forall>j<ring_len s. pev (dct ! i) j = at_point s (digs i) j mod ring_mod s))
     \<and> dropped g l (ring_len s) err
     \<and> (\<forall>j<ring_len s. ((\<Sum>i<l - 1. pev (dct ! i) j * (2 ^ g) ^ Suc i) + at_point s err j) mod ring_mod s = pev x j mod ring_mod s)"

lemma digits_of_eval:
  fixes U :: "'a::len uni_params"
  assumes "ready s" "gadget_ok s U g l" "epoly s x"
  obtains t dct digs err where "SetFormat arb COEFFICIENT x (fst s) = Inr (fst s, t)"
    "digit_polys arb U t (fst s) = Inr (fst s, dct)" "digit_spec s g l x dct digs err"
proof -
  obtain c L P where s: "s = (c, L, P)" by (cases s) auto
  note A = assms [unfolded s]
  obtain t v where t: "SetFormat arb COEFFICIENT x c = Inr (c, t)" "p_values t = Some v" "nvec_ok v"
      "m_modulus v = ciphertextModulus P" "length (m_data v) = 2 ^ L"
      "\<And>j. j < 2 ^ L \<Longrightarrow> at_point (c, L, P) (\<lambda>k. uint (m_data v ! k)) j mod uint (ciphertextModulus P) = pev x j"
    using to_coef [OF A(1,3)] by metis
  show thesis
  proof (rule digit_polys_value [OF A(1,2) t(2-5), of arb])
    fix dct digs err
    assume d: "digit_polys arb U t c = Inr (c, dct)" "length dct = l - 1"
      "\<And>i. i < l - 1 \<Longrightarrow> epoly (c, L, P) (dct ! i)" "\<And>i. i < l - 1 \<Longrightarrow> half_base g (2 ^ L) (digs i)"
      "\<And>i j. i < l - 1 \<Longrightarrow> j < 2 ^ L \<Longrightarrow> pev (dct ! i) j = at_point (c, L, P) (digs i) j mod uint (ciphertextModulus P)"
      "dropped g l (2 ^ L) err"
      "\<And>j. j < 2 ^ L \<Longrightarrow> ((\<Sum>i<l - 1. pev (dct ! i) j * (2 ^ g) ^ Suc i) + at_point (c, L, P) err j) mod uint (ciphertextModulus P)
         = at_point (c, L, P) (\<lambda>k. uint (m_data v ! k)) j mod uint (ciphertextModulus P)"
    have "pev x j mod uint (ciphertextModulus P) = pev x j" if "j < 2 ^ L" for j
      using t(6) [OF that] by (metis mod_mod_trivial)
    then have "digit_spec s g l x dct digs err"
      unfolding digit_spec_def s ring_len_def ring_mod_def using d(2-6) d(7) t(6) by simp
    then show thesis using that t(1) d(1) by (simp add: s)
  qed
qed

lemma filled_new:
  assumes "ready (c, L, P)"
  shows "epoly (c, L, P) (filled (poly_new P EVALUATION False))" "j < 2 ^ L \<Longrightarrow> pev (filled (poly_new P EVALUATION False)) j = 0"
proof -
  have r: "ftt_reachable c" "ring_params L P" "\<not> needs_tables c (ciphertextModulus P) (2 ^ L)"
    using assms by (simp_all add: ready_def)
  note P = ring_paramsD [OF r(2)]
  have "nvec_ok (vec_zero (2 ^ L) (ciphertextModulus P))" using P(9,11) by (simp add: nvec_ok_def vec_zero_def residue_def)
  then show "epoly (c, L, P) (filled (poly_new P EVALUATION False))"
    using r P(6) ftt_reachable_cache_ok [OF r(1)]
    by (simp add: epoly_def poly_ok_def filled_def poly_new_def SetValuesToZero_def vec_zero_def)
  show "j < 2 ^ L \<Longrightarrow> pev (filled (poly_new P EVALUATION False)) j = 0"
    by (simp add: pev_def filled_def poly_new_def SetValuesToZero_def vec_zero_def P(6))
qed

lemma filled_idem [simp]: "filled (filled p) = filled p"
  by (simp add: filled_def SetValuesToZero_def)

lemma plus_eq_filled: "plus_eq p v = plus_eq (filled p) v"
  by (simp add: plus_eq_def)

lemma filled_epoly: "epoly s p \<Longrightarrow> filled p = p"
  by (auto simp: epoly_def poly_ok_def filled_def split: prod.splits)

lemma gadget_digits: "gadget_ok s U g l \<Longrightarrow> unat (up_digitsG U - 1) = l - 1 \<and> 0 < l - 1 \<and> up_polyParams U = snd (snd s)"
proof -
  assume "gadget_ok s U g l"
  then have l: "unat (up_digitsG U) = l" "2 \<le> l" "up_polyParams U = snd (snd s)" by (auto simp: gadget_ok_def split: prod.splits)
  then have "up_digitsG U \<noteq> 0" by auto
  then show ?thesis using l by (simp add: unat_minus_one)
qed

text \<open>The sums that the parties' elements and the joint element hold.\<close>

definition dsum :: "nat \<Rightarrow> 'a::len poly list \<Rightarrow> 'a poly list \<Rightarrow> nat \<Rightarrow> int" where
  "dsum l xs ys j = (\<Sum>i<l - 1. pev (xs ! i) j * pev (ys ! i) j)"

definition rows_ok :: "'a::len ring_state \<Rightarrow> nat \<Rightarrow> 'a poly list \<Rightarrow> bool" where
  "rows_ok s l xs \<longleftrightarrow> l - 1 \<le> length xs \<and> (\<forall>i<l - 1. epoly s (xs ! i))"

lemma poly_inner_value:
  assumes "0 < l - 1" "rows_ok s l xs" "rows_ok s l ys"
  obtains t where "poly_inner (l - 1) xs ys = Inr t" "epoly s t" "\<And>j. j < ring_len s \<Longrightarrow> pev t j = dsum l xs ys j mod ring_mod s"
  using ring.sum_products_value [of "l - 1" xs ys s] assms by (auto simp: rows_ok_def poly_inner_def dsum_def)

lemma HbProd_fold:
  fixes U :: "'a::len uni_params"
  assumes "ready s" "gadget_ok s U g l" "rows_ok s l d" "k \<le> length acc" "k \<le> length ct" "k \<le> length Pkey"
    and "\<And>u. u < k \<Longrightarrow> digit_polys arb U (ct ! u) (fst s) = Inr (fst s, dct u)" "\<And>u. u < k \<Longrightarrow> rows_ok s l (dct u)"
    and "\<And>u. u < k \<Longrightarrow> rows_ok s l (Pkey ! u)" "m \<le> k"
  shows "\<exists>sumV acc'. foldR (HbProd_party arb U d Pkey ct) [0..<m] (fst s, poly_new (up_polyParams U) EVALUATION False, acc)
        = Inr (fst s, sumV, acc')
      \<and> epoly s (filled sumV) \<and> (0 < m \<longrightarrow> epoly s sumV)
      \<and> (\<forall>j<ring_len s. pev (filled sumV) j = (\<Sum>u<m. dsum l (dct u) (Pkey ! u) j) mod ring_mod s)
      \<and> length acc' = length acc
      \<and> (\<forall>u<m. epoly s (acc' ! u) \<and> (\<forall>j<ring_len s. pev (acc' ! u) j = dsum l (dct u) d j mod ring_mod s))"
  using assms(10)
proof (induction m)
  case 0
  obtain c L P where s: "s = (c, L, P)" by (cases s) auto
  have "up_polyParams U = P" using gadget_digits [OF assms(2)] by (simp add: s)
  then show ?case using filled_new [OF assms(1) [unfolded s]] by (simp add: s ring_len_def)
next
  case (Suc m)
  then obtain sumV acc' where IH: "foldR (HbProd_party arb U d Pkey ct) [0..<m] (fst s, poly_new (up_polyParams U) EVALUATION False, acc)
        = Inr (fst s, sumV, acc')" "epoly s (filled sumV)"
      "\<forall>j<ring_len s. pev (filled sumV) j = (\<Sum>u<m. dsum l (dct u) (Pkey ! u) j) mod ring_mod s" "length acc' = length acc"
      "\<forall>u<m. epoly s (acc' ! u) \<and> (\<forall>j<ring_len s. pev (acc' ! u) j = dsum l (dct u) d j mod ring_mod s)"
    by auto
  have m: "m < k" using Suc.prems by simp
  note G = gadget_digits [OF assms(2)]
  have l: "0 < l - 1" using G by simp
  obtain uj where uj: "poly_inner (l - 1) (dct m) d = Inr uj" "epoly s uj"
      "\<And>j. j < ring_len s \<Longrightarrow> pev uj j = dsum l (dct m) d j mod ring_mod s"
    using poly_inner_value [OF l assms(8) [OF m] assms(3)] by metis
  obtain v where v: "poly_inner (l - 1) (dct m) (Pkey ! m) = Inr v" "epoly s v"
      "\<And>j. j < ring_len s \<Longrightarrow> pev v j = dsum l (dct m) (Pkey ! m) j mod ring_mod s"
    using poly_inner_value [OF l assms(8,9) [OF m]] by metis
  obtain V where V: "plus_eq sumV v = Inr V" "epoly s V"
      "\<forall>j<ring_len s. pev V j = (pev (filled sumV) j + pev v j) mod ring_mod s"
    using plus_eq_value(1) [OF IH(2) v(2)] plus_eq_filled by metis
  have step: "HbProd_party arb U d Pkey ct m (fst s, sumV, acc') = Inr (fst s, V, acc'[m := uj])"
    using m assms(4-7) uj(1) v(1) V(1) IH(4) G by (simp add: HbProd_party_def Let_def idx_def upd_def)
  have "pev V j = (\<Sum>u<Suc m. dsum l (dct u) (Pkey ! u) j) mod ring_mod s" if "j < ring_len s" for j
    using V(3) v(3) [OF that] IH(3) that by (simp add: mod_add_eq)
  moreover have "epoly s (acc'[m := uj] ! u) \<and> (\<forall>j<ring_len s. pev (acc'[m := uj] ! u) j = dsum l (dct u) d j mod ring_mod s)"
    if "u < Suc m" for u
    using that IH(4,5) uj(2,3) m assms(4) by (cases "u = m") (simp_all add: less_Suc_eq)
  ultimately show ?case
    using IH(1,4) step filled_epoly [OF V(2)] V(2) by (simp add: foldR_append)
qed

lemma digit_spec_rows: "digit_spec s g l x dct digs err \<Longrightarrow> rows_ok s l dct"
  by (simp add: digit_spec_def rows_ok_def)

text \<open>The digits of a family of elements, after their change of format.\<close>

lemma digits_of_all:
  fixes U :: "'a::len uni_params"
  assumes "ready s" "gadget_ok s U g l" "\<And>x. x \<in> set acc \<Longrightarrow> epoly s x"
  obtains ct dct digs err where "mapS (SetFormat arb COEFFICIENT) acc (fst s) = Inr (fst s, ct)" "length ct = length acc"
    "\<And>u. u < length acc \<Longrightarrow> digit_polys arb U (ct ! u) (fst s) = Inr (fst s, dct u)"
    "\<And>u. u < length acc \<Longrightarrow> digit_spec s g l (acc ! u) (dct u) (digs u) (err u)"
proof -
  define Q where "Q x t D G E \<longleftrightarrow> SetFormat arb COEFFICIENT x (fst s) = Inr (fst s, t)
    \<and> digit_polys arb U t (fst s) = Inr (fst s, D) \<and> digit_spec s g l x D G E" for x t D G E
  have "\<exists>t D G E. Q x t D G E" if "x \<in> set acc" for x
    using digits_of_eval [OF assms(1,2) assms(3) [OF that], of arb] unfolding Q_def by metis
  then obtain ct dct digs err where Q: "\<And>x. x \<in> set acc \<Longrightarrow> Q x (ct x) (dct x) (digs x) (err x)" by metis
  have "mapS (SetFormat arb COEFFICIENT) acc (fst s) = Inr (fst s, map ct acc)"
    using Q by (intro mapS_state) (simp add: Q_def)
  then show thesis
    using that [of "map ct acc" "\<lambda>u. dct (acc ! u)" "\<lambda>u. digs (acc ! u)" "\<lambda>u. err (acc ! u)"] Q by (simp add: Q_def)
qed

text \<open>
  The elements that a hybrid product returns, by the digits of the elements it is given and the
  digits of the joint element \<open>V\<close>.
\<close>

definition hb_value ::
  "'a::len ring_state \<Rightarrow> nat \<Rightarrow> nat \<Rightarrow> nat \<Rightarrow> 'a poly list \<Rightarrow> 'a poly list \<Rightarrow> nat \<Rightarrow> 'a poly list list \<Rightarrow> 'a poly list \<Rightarrow> 'a poly list
    \<Rightarrow> (nat \<Rightarrow> 'a poly list) \<Rightarrow> (nat \<Rightarrow> nat \<Rightarrow> nat \<Rightarrow> int) \<Rightarrow> (nat \<Rightarrow> nat \<Rightarrow> int)
    \<Rightarrow> 'a poly \<Rightarrow> 'a poly list \<Rightarrow> (nat \<Rightarrow> nat \<Rightarrow> int) \<Rightarrow> (nat \<Rightarrow> int) \<Rightarrow> bool" where
  "hb_value s g l k d f index Pkey acc acc' dct digs err V dv dgv ev \<longleftrightarrow>
     (\<forall>u<k. digit_spec s g l (acc ! u) (dct u) (digs u) (err u)) \<and> digit_spec s g l V dv dgv ev
     \<and> (\<forall>j<ring_len s. pev V j = (\<Sum>u<k. dsum l (dct u) (Pkey ! u) j) mod ring_mod s)
     \<and> length acc' = k \<and> (\<forall>u<k. epoly s (acc' ! u)
          \<and> (\<forall>j<ring_len s. pev (acc' ! u) j = (dsum l (dct u) d j + (if u = index then dsum l dv f j else 0)) mod ring_mod s))"

lemma HbProd_runs:
  fixes U :: "'a::len uni_params"
  assumes "ready s" "gadget_ok s U g l" "up_k U = k" "length acc = k" "index < k" "k \<le> length Pkey"
    and "\<And>x. x \<in> set acc \<Longrightarrow> epoly s x" "rows_ok s l d" "rows_ok s l f" "\<And>u. u < k \<Longrightarrow> rows_ok s l (Pkey ! u)"
  obtains acc' dct digs err V dv dgv ev where "HbProd arb U d f index Pkey acc (fst s) = Inr (fst s, acc')"
    "hb_value s g l k d f index Pkey acc acc' dct digs err V dv dgv ev"
proof -
  note G = gadget_digits [OF assms(2)]
  have l: "0 < l - 1" using G by simp
  obtain ct dct digs err where D: "mapS (SetFormat arb COEFFICIENT) acc (fst s) = Inr (fst s, ct)" "length ct = k"
      "\<And>u. u < k \<Longrightarrow> digit_polys arb U (ct ! u) (fst s) = Inr (fst s, dct u)"
      "\<And>u. u < k \<Longrightarrow> digit_spec s g l (acc ! u) (dct u) (digs u) (err u)"
    using digits_of_all [OF assms(1,2,7), where arb = arb] assms(4) by metis
  have rows: "u < k \<Longrightarrow> rows_ok s l (dct u)" for u using digit_spec_rows [OF D(4)] .
  obtain V acc1 where F: "foldR (HbProd_party arb U d Pkey ct) [0..<k] (fst s, poly_new (up_polyParams U) EVALUATION False, acc)
        = Inr (fst s, V, acc1)" "epoly s (filled V)" "epoly s V"
      "\<forall>j<ring_len s. pev (filled V) j = (\<Sum>u<k. dsum l (dct u) (Pkey ! u) j) mod ring_mod s" "length acc1 = k"
      "\<forall>u<k. epoly s (acc1 ! u) \<and> (\<forall>j<ring_len s. pev (acc1 ! u) j = dsum l (dct u) d j mod ring_mod s)"
    using HbProd_fold [OF assms(1,2,8) _ _ assms(6) D(3) rows assms(10) le_refl, of acc] assms(4,5) D(2) by auto
  have fV: "filled V = V" using filled_epoly [OF F(3)] .
  obtain t dv dgv ev where T: "SetFormat arb COEFFICIENT V (fst s) = Inr (fst s, t)"
      "digit_polys arb U t (fst s) = Inr (fst s, dv)" "digit_spec s g l V dv dgv ev"
    using digits_of_eval [OF assms(1,2) F(3), where arb = arb] by metis
  obtain w where w: "poly_inner (l - 1) dv f = Inr w" "epoly s w" "\<And>j. j < ring_len s \<Longrightarrow> pev w j = dsum l dv f j mod ring_mod s"
    using poly_inner_value [OF l digit_spec_rows [OF T(3)] assms(9)] by metis
  obtain x where x: "plus_eq (acc1 ! index) w = Inr x" "epoly s x"
      "\<forall>j<ring_len s. pev x j = (pev (acc1 ! index) j + pev w j) mod ring_mod s"
    using plus_eq_value(1) [OF _ w(2)] F(6) assms(5) by metis
  have "HbProd arb U d f index Pkey acc (fst s) = Inr (fst s, acc1[index := x])"
    using D(1) F(1,5) T(1,2) w(1) x(1) assms(3-5) G by (simp add: HbProd_def Let_def idx_def upd_def)
  moreover have "hb_value s g l k d f index Pkey acc (acc1[index := x]) dct digs err V dv dgv ev"
    unfolding hb_value_def using D(4) T(3) F(4-6) fV x(2,3) w(3) assms(5)
    by (auto simp: nth_list_update mod_add_eq)
  ultimately show thesis using that by blast
qed

end
