(* ===== verification/MKPhase.thy ===== *)
theory MKPhase
  imports MKAcc
begin

text \<open>
  Correctness of the hybrid product of \<^verbatim>\<open>mk-acc-xzw.cpp\<close> and of the keys it is used with: what the
  product does to the phase of an accumulator, and what the rows of a generated key satisfy.
\<close>

section \<open>The phase of a hybrid product\<close>

text \<open>The algebra of the hybrid product over the integers: \<open>W\<close> are the weights of the digits.\<close>

lemma sum_mod_cong2:
  assumes "\<And>u i. u < k \<Longrightarrow> i < n \<Longrightarrow> f u i mod q = g u i mod (q :: int)"
  shows "(\<Sum>u<k. \<Sum>i<n. f u i) mod q = (\<Sum>u<k. \<Sum>i<n. g u i) mod q"
  using assms by (intro sum_mod_cong) auto

lemma hybrid_exact:
  fixes M R ev :: int
  shows "(\<Sum>u<k. \<Sum>i<n. D u i * (E0 i + M * W i + R * A i) * S u) + ((\<Sum>i<n. DV i * E1 i)
      + R * ((\<Sum>u<k. \<Sum>i<n. D u i * (EB u i - A i * S u)) - ev))
    = M * (\<Sum>u<k. (\<Sum>i<n. D u i * W i) * S u)
      + (\<Sum>u<k. \<Sum>i<n. D u i * (E0 i * S u + R * EB u i)) + (\<Sum>i<n. DV i * E1 i) - R * ev"
proof -
  have "(\<Sum>u<k. \<Sum>i<n. D u i * (E0 i + M * W i + R * A i) * S u) + R * (\<Sum>u<k. \<Sum>i<n. D u i * (EB u i - A i * S u))
      = M * (\<Sum>u<k. (\<Sum>i<n. D u i * W i) * S u) + (\<Sum>u<k. \<Sum>i<n. D u i * (E0 i * S u + R * EB u i))"
    by (simp add: sum_distrib_left sum_distrib_right algebra_simps flip: sum.distrib)
  then show ?thesis by (simp add: algebra_simps)
qed

lemma hybrid_algebra:
  fixes q :: int and k n :: nat
  assumes "index < k"
    and c: "\<And>u. u < k \<Longrightarrow> ((\<Sum>i<n. D u i * W i) + e u) mod q = c u mod q"
    and v: "((\<Sum>i<n. DV i * W i) + ev) mod q = (\<Sum>u<k. \<Sum>i<n. D u i * b u i) mod q"
    and d: "\<And>i. i < n \<Longrightarrow> d i mod q = (E0 i + M * W i + R * A i) mod q"
    and f: "\<And>i. i < n \<Longrightarrow> f i * S index mod q = (E1 i + R * W i) mod q"
    and b: "\<And>u i. u < k \<Longrightarrow> i < n \<Longrightarrow> b u i mod q = (EB u i - A i * S u) mod q"
    and o: "\<And>u. u < k \<Longrightarrow> out u mod q = ((\<Sum>i<n. D u i * d i) + (if u = index then \<Sum>i<n. DV i * f i else 0)) mod q"
  shows "(\<Sum>u<k. out u * S u) mod q = (M * (\<Sum>u<k. (c u - e u) * S u)
    + (\<Sum>u<k. \<Sum>i<n. D u i * (E0 i * S u + R * EB u i)) + (\<Sum>i<n. DV i * E1 i) - R * ev) mod q"
proof -
  let ?V = "\<Sum>u<k. \<Sum>i<n. D u i * (EB u i - A i * S u)"
  have "(\<Sum>u<k. out u * S u) mod q
      = (\<Sum>u<k. ((\<Sum>i<n. D u i * d i) + (if u = index then \<Sum>i<n. DV i * f i else 0)) * S u) mod q"
    using o by (intro sum_mod_cong mod_mult_cong) auto
  also have "(\<Sum>u<k. ((\<Sum>i<n. D u i * d i) + (if u = index then \<Sum>i<n. DV i * f i else 0)) * S u)
      = (\<Sum>u<k. \<Sum>i<n. D u i * d i * S u) + (\<Sum>i<n. DV i * (f i * S index))"
    using assms(1)
    by (simp add: distrib_right sum.distrib sum_distrib_right if_distrib [of "\<lambda>x. x * _"] mult.assoc cong: if_cong)
  also have "\<dots> mod q = ((\<Sum>u<k. \<Sum>i<n. D u i * (E0 i + M * W i + R * A i) * S u) + (\<Sum>i<n. DV i * (E1 i + R * W i))) mod q"
    using d f by (intro mod_add_cong sum_mod_cong2 sum_mod_cong mod_mult_cong) auto
  also have "(\<Sum>i<n. DV i * (E1 i + R * W i)) = (\<Sum>i<n. DV i * E1 i) + R * (((\<Sum>i<n. DV i * W i) + ev) - ev)"
    by (simp add: distrib_left sum.distrib sum_distrib_left mult_ac)
  also have "((\<Sum>u<k. \<Sum>i<n. D u i * (E0 i + M * W i + R * A i) * S u) + \<dots>) mod q
      = ((\<Sum>u<k. \<Sum>i<n. D u i * (E0 i + M * W i + R * A i) * S u) + ((\<Sum>i<n. DV i * E1 i) + R * (?V - ev))) mod q"
  proof -
    have "((\<Sum>i<n. DV i * W i) + ev) mod q = ?V mod q"
      unfolding v using b by (intro sum_mod_cong2 mod_mult_cong) auto
    then show ?thesis by (intro mod_add_cong mod_mult_cong mod_diff_cong) auto
  qed
  also have "\<dots> = (M * (\<Sum>u<k. (\<Sum>i<n. D u i * W i) * S u)
      + (\<Sum>u<k. \<Sum>i<n. D u i * (E0 i * S u + R * EB u i)) + (\<Sum>i<n. DV i * E1 i) - R * ev) mod q"
    by (simp only: hybrid_exact)
  also have "\<dots> = (M * (\<Sum>u<k. (c u - e u) * S u)
      + (\<Sum>u<k. \<Sum>i<n. D u i * (E0 i * S u + R * EB u i)) + (\<Sum>i<n. DV i * E1 i) - R * ev) mod q"
  proof -
    have "(\<Sum>i<n. D u i * W i) mod q = (c u - e u) mod q" if "u < k" for u
      using mod_diff_cong [OF c [OF that] refl, of "e u"] by simp
    then show ?thesis by (intro mod_diff_cong mod_add_cong mod_mult_cong sum_mod_cong) auto
  qed
  finally show ?thesis .
qed

text \<open>
  What the key of a hybrid product has to satisfy at the evaluation points: with the mask \<open>R\<close>, the
  message \<open>M\<close>, the common reference \<open>A\<close> and the secrets \<open>S\<close>, the first rows hide the message, the
  second rows hide the mask under the secret of party \<open>index\<close>, and the public keys hide the reference
  under the secret of their party.  \<open>E0\<close>, \<open>E1\<close> and \<open>EB\<close> are the noises.
\<close>

definition hybrid_key ::
  "'a::len ring_state \<Rightarrow> nat \<Rightarrow> nat \<Rightarrow> nat \<Rightarrow> 'a poly list \<Rightarrow> 'a poly list \<Rightarrow> nat \<Rightarrow> 'a poly list list \<Rightarrow> nat
     \<Rightarrow> int \<Rightarrow> int \<Rightarrow> (nat \<Rightarrow> int) \<Rightarrow> (nat \<Rightarrow> int) \<Rightarrow> (nat \<Rightarrow> int) \<Rightarrow> (nat \<Rightarrow> int) \<Rightarrow> (nat \<Rightarrow> nat \<Rightarrow> int) \<Rightarrow> bool" where
  "hybrid_key s g l k d f index Pkey j M R A S E0 E1 EB \<longleftrightarrow>
     (\<forall>i<l - 1. pev (d ! i) j mod ring_mod s = (E0 i + M * (2 ^ g) ^ Suc i + R * A i) mod ring_mod s
        \<and> pev (f ! i) j * S index mod ring_mod s = (E1 i + R * (2 ^ g) ^ Suc i) mod ring_mod s
        \<and> (\<forall>u<k. pev (Pkey ! u ! i) j mod ring_mod s = (EB u i - A i * S u) mod ring_mod s))"

text \<open>The noise that a hybrid product adds at a point, by the digits of the parties and of the joint element.\<close>

definition hybrid_noise ::
  "nat \<Rightarrow> nat \<Rightarrow> int \<Rightarrow> int \<Rightarrow> (nat \<Rightarrow> int) \<Rightarrow> (nat \<Rightarrow> int) \<Rightarrow> (nat \<Rightarrow> int) \<Rightarrow> (nat \<Rightarrow> nat \<Rightarrow> int)
     \<Rightarrow> (nat \<Rightarrow> nat \<Rightarrow> int) \<Rightarrow> (nat \<Rightarrow> int) \<Rightarrow> (nat \<Rightarrow> int) \<Rightarrow> int \<Rightarrow> int" where
  "hybrid_noise l k M R S E0 E1 EB D e DV ev =
     (\<Sum>u<k. \<Sum>i<l - 1. D u i * (E0 i * S u + R * EB u i)) + (\<Sum>i<l - 1. DV i * E1 i)
       - M * (\<Sum>u<k. e u * S u) - R * ev"

lemma hb_value_phase:
  assumes H: "hb_value s g l k d f index Pkey acc acc' dct digs err V dv dgv ev" and "index < k"
    and K: "hybrid_key s g l k d f index Pkey j M R A S E0 E1 EB" and j: "j < ring_len s"
  shows "(\<Sum>u<k. pev (acc' ! u) j * S u) mod ring_mod s
    = (M * (\<Sum>u<k. pev (acc ! u) j * S u)
       + hybrid_noise l k M R S E0 E1 EB (\<lambda>u i. at_point s (digs u i) j) (\<lambda>u. at_point s (err u) j)
           (\<lambda>i. at_point s (dgv i) j) (at_point s ev j)) mod ring_mod s"
proof -
  let ?q = "ring_mod s" and ?W = "\<lambda>i. (2 ^ g) ^ Suc i :: int" and ?D = "\<lambda>u i. at_point s (digs u i) j"
    and ?DV = "\<lambda>i. at_point s (dgv i) j" and ?e = "\<lambda>u. at_point s (err u) j"
  have D: "pev (dct u ! i) j mod ?q = ?D u i mod ?q" if "u < k" "i < l - 1" for u i
    using H that j by (simp add: hb_value_def digit_spec_def)
  have DV: "pev (dv ! i) j mod ?q = ?DV i mod ?q" if "i < l - 1" for i
    using H that j by (simp add: hb_value_def digit_spec_def)
  have "((\<Sum>i<l - 1. ?D u i * ?W i) + ?e u) mod ?q = pev (acc ! u) j mod ?q" if "u < k" for u
  proof -
    have "((\<Sum>i<l - 1. ?D u i * ?W i) + ?e u) mod ?q = ((\<Sum>i<l - 1. pev (dct u ! i) j * ?W i) + ?e u) mod ?q"
      using D [OF that] by (intro mod_add_cong sum_mod_cong mod_mult_cong) auto
    also have "\<dots> = pev (acc ! u) j mod ?q"
      using H that j unfolding hb_value_def digit_spec_def by blast
    finally show ?thesis .
  qed
  moreover have "((\<Sum>i<l - 1. ?DV i * ?W i) + at_point s ev j) mod ?q = (\<Sum>u<k. \<Sum>i<l - 1. ?D u i * pev (Pkey ! u ! i) j) mod ?q"
  proof -
    have "((\<Sum>i<l - 1. ?DV i * ?W i) + at_point s ev j) mod ?q = ((\<Sum>i<l - 1. pev (dv ! i) j * ?W i) + at_point s ev j) mod ?q"
      using DV by (intro mod_add_cong sum_mod_cong mod_mult_cong) auto
    also have "\<dots> = pev V j mod ?q"
      using H j unfolding hb_value_def digit_spec_def by blast
    also have "\<dots> = (\<Sum>u<k. \<Sum>i<l - 1. pev (dct u ! i) j * pev (Pkey ! u ! i) j) mod ?q"
      using H j by (simp add: hb_value_def dsum_def)
    also have "\<dots> = (\<Sum>u<k. \<Sum>i<l - 1. ?D u i * pev (Pkey ! u ! i) j) mod ?q"
      using D by (intro sum_mod_cong2 mod_mult_cong) auto
    finally show ?thesis .
  qed
  moreover have "pev (acc' ! u) j mod ?q
      = ((\<Sum>i<l - 1. ?D u i * pev (d ! i) j) + (if u = index then \<Sum>i<l - 1. ?DV i * pev (f ! i) j else 0)) mod ?q" if "u < k" for u
  proof -
    have "(\<Sum>i<l - 1. pev (dct u ! i) j * pev (d ! i) j) mod ?q = (\<Sum>i<l - 1. ?D u i * pev (d ! i) j) mod ?q"
      using D [OF that] by (intro sum_mod_cong mod_mult_cong) auto
    moreover have "(\<Sum>i<l - 1. pev (dv ! i) j * pev (f ! i) j) mod ?q = (\<Sum>i<l - 1. ?DV i * pev (f ! i) j) mod ?q"
      using DV by (intro sum_mod_cong mod_mult_cong) auto
    moreover have "pev (acc' ! u) j = (dsum l (dct u) d j + (if u = index then dsum l dv f j else 0)) mod ?q"
      using H that j by (simp add: hb_value_def)
    ultimately show ?thesis unfolding dsum_def by (auto intro: mod_add_cong)
  qed
  ultimately have "(\<Sum>u<k. pev (acc' ! u) j * S u) mod ?q
      = (M * (\<Sum>u<k. (pev (acc ! u) j - ?e u) * S u) + (\<Sum>u<k. \<Sum>i<l - 1. ?D u i * (E0 i * S u + R * EB u i))
         + (\<Sum>i<l - 1. ?DV i * E1 i) - R * at_point s ev j) mod ?q"
    using K assms(2) unfolding hybrid_key_def by (intro hybrid_algebra
      [where index = index and b = "\<lambda>u i. pev (Pkey ! u ! i) j" and d = "\<lambda>i. pev (d ! i) j" and f = "\<lambda>i. pev (f ! i) j"]) auto
  then show ?thesis
    by (simp add: hybrid_noise_def left_diff_distrib right_diff_distrib sum_subtractf algebra_simps)
qed

text \<open>
  A key as functions of the evaluation point: message, mask, secrets, reference and noises.
\<close>

record hybrid =
  hy_M :: "nat \<Rightarrow> int"
  hy_R :: "nat \<Rightarrow> int"
  hy_S :: "nat \<Rightarrow> nat \<Rightarrow> int"
  hy_A :: "nat \<Rightarrow> nat \<Rightarrow> int"
  hy_E0 :: "nat \<Rightarrow> nat \<Rightarrow> int"
  hy_E1 :: "nat \<Rightarrow> nat \<Rightarrow> int"
  hy_EB :: "nat \<Rightarrow> nat \<Rightarrow> nat \<Rightarrow> int"

definition keyed ::
  "'a::len ring_state \<Rightarrow> nat \<Rightarrow> nat \<Rightarrow> nat \<Rightarrow> 'a poly list \<Rightarrow> 'a poly list \<Rightarrow> nat \<Rightarrow> 'a poly list list \<Rightarrow> hybrid \<Rightarrow> bool" where
  "keyed s g l k d f index Pkey H \<longleftrightarrow>
     rows_ok s l d \<and> rows_ok s l f \<and> k \<le> length Pkey \<and> (\<forall>u<k. rows_ok s l (Pkey ! u))
     \<and> (\<forall>j<ring_len s. hybrid_key s g l k d f index Pkey j (hy_M H j) (hy_R H j) (\<lambda>i. hy_A H i j) (\<lambda>u. hy_S H u j)
          (\<lambda>i. hy_E0 H i j) (\<lambda>i. hy_E1 H i j) (\<lambda>u i. hy_EB H u i j))"

text \<open>\<open>\<eta>\<close> is the noise of a hybrid product with key \<open>H\<close> for some digits within half of the base and some dropped parts.\<close>

definition noise_of :: "'a::len ring_state \<Rightarrow> nat \<Rightarrow> nat \<Rightarrow> nat \<Rightarrow> hybrid \<Rightarrow> (nat \<Rightarrow> int) \<Rightarrow> bool" where
  "noise_of s g l k H \<eta> \<longleftrightarrow> (\<exists>digs err dgv ev.
     (\<forall>u<k. (\<forall>i<l - 1. half_base g (ring_len s) (digs u i)) \<and> dropped g l (ring_len s) (err u))
     \<and> (\<forall>i<l - 1. half_base g (ring_len s) (dgv i)) \<and> dropped g l (ring_len s) ev
     \<and> (\<forall>j<ring_len s. \<eta> j = hybrid_noise l k (hy_M H j) (hy_R H j) (\<lambda>u. hy_S H u j)
          (\<lambda>i. hy_E0 H i j) (\<lambda>i. hy_E1 H i j) (\<lambda>u i. hy_EB H u i j)
          (\<lambda>u i. at_point s (digs u i) j) (\<lambda>u. at_point s (err u) j) (\<lambda>i. at_point s (dgv i) j) (at_point s ev j)))"

definition phase :: "nat \<Rightarrow> (nat \<Rightarrow> nat \<Rightarrow> int) \<Rightarrow> 'a::len poly list \<Rightarrow> nat \<Rightarrow> int" where
  "phase k S acc j = (\<Sum>u<k. pev (acc ! u) j * S u j)"

definition acc_ok :: "'a::len ring_state \<Rightarrow> nat \<Rightarrow> 'a poly list \<Rightarrow> bool" where
  "acc_ok s k acc \<longleftrightarrow> length acc = k \<and> (\<forall>x \<in> set acc. epoly s x)"

text \<open>What an accumulation step does: \<open>F\<close> is the factor of the phase and \<open>H\<close> the key that the noise comes from.\<close>

definition rotates :: "'a::len ring_state \<Rightarrow> nat \<Rightarrow> nat \<Rightarrow> nat \<Rightarrow> hybrid \<Rightarrow> (nat \<Rightarrow> int) \<Rightarrow> 'a poly list \<Rightarrow> 'a poly list \<Rightarrow> bool" where
  "rotates s g l k H F acc acc' \<longleftrightarrow> acc_ok s k acc'
     \<and> (\<exists>\<eta>. noise_of s g l k H \<eta>
          \<and> (\<forall>j<ring_len s. phase k (hy_S H) acc' j mod ring_mod s = (F j * phase k (hy_S H) acc j + \<eta> j) mod ring_mod s))"

lemma HbProd_rotates:
  fixes U :: "'a::len uni_params"
  assumes "ready s" "gadget_ok s U g l" "up_k U = k" "index < k" "acc_ok s k acc" "keyed s g l k d f index Pkey H"
  shows "\<exists>acc'. HbProd arb U d f index Pkey acc (fst s) = Inr (fst s, acc') \<and> rotates s g l k H (hy_M H) acc acc'"
proof -
  have A: "length acc = k" "\<And>x. x \<in> set acc \<Longrightarrow> epoly s x" using assms(5) by (simp_all add: acc_ok_def)
  have K: "k \<le> length Pkey" "rows_ok s l d" "rows_ok s l f" "\<And>u. u < k \<Longrightarrow> rows_ok s l (Pkey ! u)"
    using assms(6) by (simp_all add: keyed_def)
  obtain acc' dct digs err V dv dgv ev where H: "HbProd arb U d f index Pkey acc (fst s) = Inr (fst s, acc')"
      "hb_value s g l k d f index Pkey acc acc' dct digs err V dv dgv ev"
    by (rule HbProd_runs [OF assms(1-3) A(1) assms(4) K(1) A(2) K(2-4), where arb = arb])
  define \<eta> where "\<eta> j = hybrid_noise l k (hy_M H j) (hy_R H j) (\<lambda>u. hy_S H u j)
      (\<lambda>i. hy_E0 H i j) (\<lambda>i. hy_E1 H i j) (\<lambda>u i. hy_EB H u i j)
      (\<lambda>u i. at_point s (digs u i) j) (\<lambda>u. at_point s (err u) j) (\<lambda>i. at_point s (dgv i) j) (at_point s ev j)" for j
  have "(\<forall>u<k. (\<forall>i<l - 1. half_base g (ring_len s) (digs u i)) \<and> dropped g l (ring_len s) (err u))"
      "(\<forall>i<l - 1. half_base g (ring_len s) (dgv i))" "dropped g l (ring_len s) ev"
    using H(2) by (auto simp: hb_value_def digit_spec_def)
  then have "noise_of s g l k H \<eta>" unfolding noise_of_def \<eta>_def by blast
  moreover have "acc_ok s k acc'" using H(2) by (auto simp: acc_ok_def hb_value_def in_set_conv_nth)
  moreover have "phase k (hy_S H) acc' j mod ring_mod s = (hy_M H j * phase k (hy_S H) acc j + \<eta> j) mod ring_mod s"
    if "j < ring_len s" for j
    unfolding phase_def \<eta>_def using assms(6) that by (intro hb_value_phase [OF H(2) assms(4) _ that, where A = "\<lambda>i. hy_A H i j"]) (simp add: keyed_def)
  ultimately show ?thesis using H(1) unfolding rotates_def by blast
qed

text \<open>C9.  A hybrid product with keys of the expected form multiplies the joint phase of the accumulator by the
  encrypted message, at every evaluation point and so as ring elements, up to a noise that is built from
  digits within half of the base and from the dropped parts of the decompositions.  It returns ring
  elements in evaluation format and leaves the table cache as it is.
\<close>

theorem HbProd_phase:
  fixes U :: "'a::len uni_params"
  assumes "ready s" "gadget_ok s U g l" "up_k U = k" "index < k" "acc_ok s k acc" "keyed s g l k d f index Pkey H"
  shows "\<exists>acc' \<eta>. HbProd arb U d f index Pkey acc (fst s) = Inr (fst s, acc') \<and> acc_ok s k acc' \<and> noise_of s g l k H \<eta>
    \<and> (\<forall>j<ring_len s. phase k (hy_S H) acc' j mod ring_mod s = (hy_M H j * phase k (hy_S H) acc j + \<eta> j) mod ring_mod s)"
  using HbProd_rotates [OF assms, of arb] unfolding rotates_def by blast

section \<open>Elements with given values\<close>

text \<open>\<open>valued s p F\<close>: the element \<open>p\<close> has the values \<open>F\<close> modulo the modulus at the evaluation points.\<close>

definition valued :: "'a::len ring_state \<Rightarrow> 'a poly \<Rightarrow> (nat \<Rightarrow> int) \<Rightarrow> bool" where
  "valued s p F \<longleftrightarrow> epoly s p \<and> (\<forall>j<ring_len s. pev p j = F j mod ring_mod s)"

lemma valued_pev: "epoly s p \<Longrightarrow> valued s p (pev p)"
proof -
  assume p: "epoly s p"
  obtain c L P where s: "s = (c, L, P)" by (cases s) auto
  obtain v where v: "nvec_ok v" "m_modulus v = ciphertextModulus P" "length (m_data v) = 2 ^ L" "\<And>j. pev p j = uint (m_data v ! j)"
    using epolyD [OF p [unfolded s]] by metis
  have "uint (m_data v ! j) < uint (ciphertextModulus P)" if "j < 2 ^ L" for j
    using v(1-3) that by (simp add: nvec_ok_def residue_def)
  then show ?thesis using p v(4) by (simp add: valued_def s ring_len_def ring_mod_def)
qed

lemma Minus_value:
  assumes "epoly s x" "epoly s y"
  shows "\<exists>t. Minus x y = Inr t \<and> epoly s t \<and> (\<forall>j<ring_len s. pev t j = (pev x j - pev y j) mod ring_mod s)"
proof -
  obtain c L P where s: "s = (c, L, P)" by (cases s) auto
  obtain u where u: "vec_ModSub (the (p_values x)) (the (p_values y)) = Inr u" "epoly s (x \<lparr> p_values := Some u \<rparr>)"
      "\<And>j. j < ring_len s \<Longrightarrow> pev (x \<lparr> p_values := Some u \<rparr>) j = (pev x j - pev y j) mod ring_mod s"
    using epoly_binary [OF assms, of vec_ModSub "(-)"] vec_ModSub_value by metis
  have x: "poly_ok c L x" "p_params x = P" and y: "poly_ok c L y" using assms by (simp_all add: epoly_def s)
  then obtain v w where v: "p_values x = Some v" "p_values y = Some w" by (auto simp: poly_ok_def)
  have "m_modulus u = ciphertextModulus P" "length (m_data u) = 2 ^ L"
    using u(2) by (simp_all add: epoly_def poly_ok_def s x(2))
  then have "Minus x y = Inr (x \<lparr> p_values := Some u \<rparr>)"
    unfolding Minus_def using u(1) v x by (intro with_values_run [OF x(1)]) (simp_all add: deref_def)
  then show ?thesis using u(2,3) by blast
qed

lemma Times_scalar_value:
  assumes "epoly s x"
  shows "\<exists>t. Times_scalar x e = Inr t \<and> epoly s t \<and> (\<forall>j<ring_len s. pev t j = pev x j * uint e mod ring_mod s)"
proof -
  obtain c L P where s: "s = (c, L, P)" by (cases s) auto
  have x: "poly_ok c L x" "p_params x = P" using assms by (simp_all add: epoly_def s)
  obtain v where v: "p_values x = Some v" "nvec_ok v" "m_modulus v = ciphertextModulus P" "length (m_data v) = 2 ^ L"
      "\<And>j. pev x j = uint (m_data v ! j)"
    using epolyD [OF assms [unfolded s]] by metis
  obtain u where u: "vec_ModMul_scalar v e = Inr u" "nvec_ok u" "m_modulus u = m_modulus v"
      "vals u = map (\<lambda>y. y * uint e mod uint (m_modulus v)) (vals v)"
    using vec_ModMul_scalar_value [OF v(2)] by metis
  have len: "length (m_data u) = 2 ^ L" using arg_cong [OF u(4), of length] v(4) by (simp add: vals_def)
  have "Times_scalar x e = Inr (x \<lparr> p_values := Some u \<rparr>)"
    unfolding Times_scalar_def using u v(3) len x by (intro with_values_run [OF x(1) v(1)]) simp_all
  moreover have "pev (x \<lparr> p_values := Some u \<rparr>) j = pev x j * uint e mod ring_mod s" if "j < ring_len s" for j
    using that u(4) len v vals_nth [of j u] vals_nth [of j v] by (simp add: pev_def ring_len_def ring_mod_def s)
  moreover have "epoly s (x \<lparr> p_values := Some u \<rparr>)"
    using epoly_update [OF assms u(2)] u(3) v(3) len by (simp add: s)
  ultimately show ?thesis by blast
qed

lemma valued_ops:
  assumes "valued s x F" "valued s y G"
  shows "\<exists>t. Plus x y = Inr t \<and> valued s t (\<lambda>j. F j + G j)"
    "\<exists>t. Minus x y = Inr t \<and> valued s t (\<lambda>j. F j - G j)"
    "\<exists>t. Times x y = Inr t \<and> valued s t (\<lambda>j. F j * G j)"
    "\<exists>t. Times_scalar x e = Inr t \<and> valued s t (\<lambda>j. F j * uint e)"
  using plus_eq_value(2) [of s x y] Minus_value [of s x y] Times_value [of s x y] Times_scalar_value [of s x e] assms
  by (auto simp: valued_def mod_add_eq mod_diff_eq mod_mult_eq mod_mult_left_eq mod_mult_right_eq)

lemma valued_eval:
  assumes "ready (c, L, P)" "p_format p = COEFFICIENT" "p_params p = P" "p_values p = Some v"
    "nvec_ok v" "m_modulus v = ciphertextModulus P" "length (m_data v) = 2 ^ L"
  shows "\<exists>t. SetFormat arb EVALUATION p c = Inr (c, t) \<and> valued (c, L, P) t (at_point (c, L, P) (\<lambda>k. uint (m_data v ! k)))"
  using to_eval [OF assms, of arb] by (auto simp: valued_def ring_len_def ring_mod_def)

section \<open>The rows of a key\<close>

lemma gpowers_nth:
  assumes "uint v < uint Q" "i < n"
  shows "uint (gpowers Q b n v ! i) = uint v * uint b ^ i mod uint Q \<and> length (gpowers Q b n v) = n"
  using assms
proof (induction n arbitrary: v i)
  case (Suc n)
  have Q: "0 < uint Q" using Suc.prems(1) uint_ge_0 [of v] by linarith
  have len: "length (gpowers Q b n w) = n" for w by (induction n arbitrary: w) simp_all
  show ?case
  proof (cases i)
    case 0
    then show ?thesis using Suc.prems len by simp
  next
    case (Suc i')
    have "uint (ModMulFast v b Q) < uint Q" using uint_ModMulFast [OF Q] Q by simp
    then show ?thesis
      using Suc.IH [of "ModMulFast v b Q" i'] Suc.prems(2) Suc len uint_ModMulFast [OF Q, of v b]
      by (simp add: mod_mult_left_eq mult.assoc)
  qed
qed simp

lemma valued_cong: "valued s p F \<Longrightarrow> (\<And>j. j < ring_len s \<Longrightarrow> F j mod ring_mod s = G j mod ring_mod s) \<Longrightarrow> valued s p G"
  by (simp add: valued_def)

lemma valued_index:
  assumes "valued s p R" "i < ring_len s"
  shows "\<exists>x. poly_index p i = Inr x \<and> uint x = R i mod ring_mod s"
proof -
  obtain c L P where s: "s = (c, L, P)" by (cases s) auto
  obtain v where "deref p = Inr v" "length (m_data v) = 2 ^ L" "\<And>j. pev p j = uint (m_data v ! j)"
    using assms(1) epolyD [of c L P p] unfolding valued_def s by metis
  then show ?thesis using assms by (simp add: poly_index_def valued_def s ring_len_def)
qed

text \<open>Vectors of coefficients that belong to the ring.\<close>

definition coef_ok :: "'a::len ring_state \<Rightarrow> 'a nvec \<Rightarrow> bool" where
  "coef_ok s v \<longleftrightarrow> nvec_ok v \<and> m_modulus v = ciphertextModulus (snd (snd s)) \<and> length (m_data v) = ring_len s"

abbreviation nat_point :: "'a::len ring_state \<Rightarrow> 'a nvec \<Rightarrow> nat \<Rightarrow> int" where
  "nat_point s v \<equiv> at_point s (\<lambda>k. uint (m_data v ! k))"

lemma coef_poly_valued:
  assumes "ready s" "coef_ok s v" "up_polyParams U = snd (snd s)"
  shows "\<exists>t. SetFormat arb EVALUATION (coef_poly U v) (fst s) = Inr (fst s, t) \<and> valued s t (nat_point s v)"
proof -
  obtain c L P where s: "s = (c, L, P)" by (cases s) auto
  show ?thesis using valued_eval [of c L P "coef_poly U v" v arb] assms unfolding s by (simp add: coef_ok_def ring_len_def)
qed

lemma at_point_const: "0 < ring_len s \<Longrightarrow> at_point s (\<lambda>k. if k = 0 then x else 0) j = x"
  by (simp add: at_point_def if_distrib [of "\<lambda>x. x * _"] cong: if_cong)

lemma gadget_poly_valued:
  fixes U :: "'a::len uni_params"
  assumes "ready s" "gadget_ok s U g l" "up_Gpower U = gpowers (up_Q U) (ucast (up_baseG U)) l 1" "i < l - 1"
  shows "\<exists>t. gadget_poly arb U i (fst s) = Inr (fst s, t) \<and> valued s t (\<lambda>j. (2 ^ g) ^ Suc i)"
proof -
  obtain c L P where s: "s = (c, L, P)" by (cases s) auto
  let ?q = "ciphertextModulus P"
  have rp: "ring_params L P" using assms(1) by (simp add: ready_def s)
  note P = ring_paramsD [OF rp]
  have U: "up_polyParams U = P" "up_Q U = ?q" "up_N U = 2 ^ L" "up_baseG U = 2 ^ g" "g < 32" "g < LENGTH('a)"
    using assms(2) by (simp_all add: gadget_ok_def s)
  have N: "unat (up_N U) = 2 ^ L" using P(4) unat_power2 [of L] U(3) by simp
  have q: "1 < uint ?q" using valid_root_modulus(1) [OF P(3)] by simp
  have "uint (ucast (up_baseG U) :: 'a word) = 2 ^ g"
  proof -
    have "(2::int) ^ g < 2 ^ 32" "(2::int) ^ g < 2 ^ LENGTH('a)"
      using U(5,6) power_strict_increasing [of g 32 "2::int"] power_strict_increasing [of g "LENGTH('a)" "2::int"] by simp_all
    then show ?thesis using U(4) by (simp add: uint_pow2_mod unsigned_ucast_eq take_bit_eq_mod)
  qed
  note gp = gpowers_nth [of "1 :: 'a word" ?q "Suc i" l "ucast (up_baseG U)", unfolded this]
  define x where "x = gpowers ?q (ucast (up_baseG U)) l 1 ! Suc i"
  have x: "uint x = (2 ^ g) ^ Suc i mod uint ?q" "length (up_Gpower U) = l" "up_Gpower U ! Suc i = x"
    using gp q assms(3,4) U(2) by (simp_all add: x_def)
  let ?v = "\<lparr> m_modulus = ?q, m_data = (replicate (2 ^ L) 0)[0 := x] \<rparr>"
  have "residue ?q x" using x(1) q by (simp add: residue_def)
  then have "nvec_ok ?v"
    using P(9) q set_update_subset_insert [of "replicate (2 ^ L) (0 :: 'a word)" 0 x]
    by (auto simp: nvec_ok_def residue_def)
  then obtain t where t: "SetFormat arb EVALUATION (coef_poly U ?v) c = Inr (c, t)" "valued s t (nat_point s ?v)"
    using coef_poly_valued [OF assms(1), of ?v U arb] U(1) by (auto simp: coef_ok_def s ring_len_def)
  have "nat_point s ?v j mod ring_mod s = (2 ^ g) ^ Suc i mod ring_mod s" for j
  proof -
    have "nat_point s ?v j = at_point s (\<lambda>k. if k = 0 then uint x else 0) j"
      unfolding at_point_def by (intro sum.cong) (auto simp: ring_len_def s nth_list_update)
    then show ?thesis using x(1) by (simp add: at_point_const ring_len_def ring_mod_def s)
  qed
  moreover have "Suc i < l" using assms(4) by simp
  then have "gadget_poly arb U i c = SetFormat arb EVALUATION (coef_poly U ?v) c"
    using x(2,3) U(1,2) N P(6,10)
    by (simp add: gadget_poly_def Let_def vec_zero_def idx_def upd_def SetValues_def poly_new_def)
  ultimately show ?thesis using t valued_cong [OF t(2)] by (auto simp: s)
qed

text \<open>What a set plaintext adds to a row: the gadget times \<open>W\<close>.\<close>

definition msg_ok :: "'a::len ring_state \<Rightarrow> ('a poly \<Rightarrow> 'a poly result) \<Rightarrow> (nat \<Rightarrow> int) \<Rightarrow> bool" where
  "msg_ok s msg W \<longleftrightarrow> (\<forall>x F. valued s x F \<longrightarrow> (\<exists>t. msg x = Inr t \<and> valued s t (\<lambda>j. F j * W j)))"

definition key_row_ok ::
  "'a::len ring_state \<Rightarrow> nat \<Rightarrow> 'a poly list \<Rightarrow> bool \<Rightarrow> (nat \<Rightarrow> int) \<Rightarrow> (nat \<Rightarrow> int) \<Rightarrow> (nat \<Rightarrow> int) \<Rightarrow> 'a key_noise \<Rightarrow> nat
     \<Rightarrow> 'a poly list \<Rightarrow> bool" where
  "key_row_ok s g CRS m W R I rnd i row \<longleftrightarrow> (\<exists>r0 r1. row = [r0, r1]
     \<and> valued s r0 (\<lambda>j. nat_point s (kn_e0 rnd i) j + (if m then (2 ^ g) ^ Suc i * W j else 0) + R i * pev (CRS ! i) j)
     \<and> valued s r1 (\<lambda>j. (nat_point s (kn_e1 rnd i) j + (2 ^ g) ^ Suc i * R j) * I j))"

text \<open>One row: the value of the first component contains the value of the mask at point \<open>i\<close>, not at \<open>j\<close>.\<close>

lemma key_row_valued:
  fixes U :: "'a::len uni_params"
  assumes "ready s" "gadget_ok s U g l" "up_Gpower U = gpowers (up_Q U) (ucast (up_baseG U)) l 1" "i < l - 1"
    and "coef_ok s (kn_e0 rnd i)" "coef_ok s (kn_e1 rnd i)" "valued s invsk I" "valued s skr R" "i < ring_len s"
    and "i < length CRS" "epoly s (CRS ! i)" "msg_ok s msg W"
  shows "\<exists>row. key_row arb U invsk CRS m msg rnd skr i (fst s) = Inr (fst s, row) \<and> key_row_ok s g CRS m W R I rnd i row"
proof -
  have pp: "up_polyParams U = snd (snd s)" using gadget_digits [OF assms(2)] by simp
  obtain a0 where a0: "SetFormat arb EVALUATION (coef_poly U (kn_e0 rnd i)) (fst s) = Inr (fst s, a0)"
      "valued s a0 (nat_point s (kn_e0 rnd i))" using coef_poly_valued [OF assms(1,5) pp] by blast
  obtain a1 where a1: "SetFormat arb EVALUATION (coef_poly U (kn_e1 rnd i)) (fst s) = Inr (fst s, a1)"
      "valued s a1 (nat_point s (kn_e1 rnd i))" using coef_poly_valued [OF assms(1,6) pp] by blast
  obtain gd where gd: "gadget_poly arb U i (fst s) = Inr (fst s, gd)" "valued s gd (\<lambda>j. (2 ^ g) ^ Suc i)"
    using gadget_poly_valued [OF assms(1-4)] by blast
  obtain t where t: "Times gd skr = Inr t" "valued s t (\<lambda>j. (2 ^ g) ^ Suc i * R j)"
    using valued_ops(3) [OF gd(2) assms(8)] by blast
  obtain b1 where b1: "Plus a1 t = Inr b1" "valued s b1 (\<lambda>j. nat_point s (kn_e1 rnd i) j + (2 ^ g) ^ Suc i * R j)"
    using valued_ops(1) [OF a1(2) t(2)] by blast
  obtain r1 where r1: "Times b1 invsk = Inr r1" "valued s r1 (\<lambda>j. (nat_point s (kn_e1 rnd i) j + (2 ^ g) ^ Suc i * R j) * I j)"
    using valued_ops(3) [OF b1(2) assms(7)] by blast
  obtain w where w: "msg gd = Inr w" "valued s w (\<lambda>j. (2 ^ g) ^ Suc i * W j)" using assms(12) gd(2) unfolding msg_ok_def by blast
  obtain b0 where b0: "(if m then bindR (msg gd) (\<lambda>g. Plus a0 g) else Inr a0) = Inr b0"
      "valued s b0 (\<lambda>j. nat_point s (kn_e0 rnd i) j + (if m then (2 ^ g) ^ Suc i * W j else 0))"
    using valued_ops(1) [OF a0(2) w(2)] w(1) a0(2) by (cases m) auto
  obtain x where x: "poly_index skr i = Inr x" "uint x = R i mod ring_mod s" using valued_index [OF assms(8,9)] by blast
  obtain u where u: "Times_scalar (CRS ! i) x = Inr u" "valued s u (\<lambda>j. pev (CRS ! i) j * uint x)"
    using valued_ops(4) [OF valued_pev [OF assms(11)] valued_pev [OF assms(11)]] by blast
  have u': "valued s u (\<lambda>j. R i * pev (CRS ! i) j)"
    by (rule valued_cong [OF u(2)]) (simp add: x(2) mult.commute mod_mult_right_eq mod_mult_left_eq)
  obtain r0 where r0: "Plus b0 u = Inr r0"
      "valued s r0 (\<lambda>j. nat_point s (kn_e0 rnd i) j + (if m then (2 ^ g) ^ Suc i * W j else 0) + R i * pev (CRS ! i) j)"
    using valued_ops(1) [OF b0(2) u'] by blast
  have "key_row arb U invsk CRS m msg rnd skr i (fst s) = Inr (fst s, [r0, r1])"
    using a0(1) a1(1) gd(1) t(1) b1(1) r1(1) b0(1) x(1) u(1) r0(1) assms(10) by (simp add: key_row_def idx_def)
  then show ?thesis using r0(2) r1(2) unfolding key_row_ok_def by blast
qed

lemma mapS_ex:
  assumes "\<And>x. x \<in> set xs \<Longrightarrow> \<exists>y. f x c = Inr (c, y) \<and> Q x y"
  shows "\<exists>ys. mapS f xs c = Inr (c, ys) \<and> length ys = length xs \<and> (\<forall>i<length xs. Q (xs ! i) (ys ! i))"
proof -
  obtain G where G: "\<And>x. x \<in> set xs \<Longrightarrow> f x c = Inr (c, G x) \<and> Q x (G x)" using assms by metis
  then show ?thesis by (intro exI [of _ "map G xs"]) (simp add: mapS_state [of xs f c G])
qed

lemma mapS_upt:
  assumes "\<And>i. i < n \<Longrightarrow> \<exists>y. f i c = Inr (c, y) \<and> Q i y"
  shows "\<exists>ys. mapS f [0..<n] c = Inr (c, ys) \<and> length ys = n \<and> (\<forall>i<n. Q i (ys ! i))"
  using mapS_ex [of "[0..<n]" f c Q] assms by simp

lemma key_rows_valued:
  fixes U :: "'a::len uni_params"
  assumes "ready s" "gadget_ok s U g l" "up_Gpower U = gpowers (up_Q U) (ucast (up_baseG U)) l 1" "l - 1 \<le> ring_len s"
    and "coef_ok s (kn_r rnd)" "\<And>i. i < l - 1 \<Longrightarrow> coef_ok s (kn_e0 rnd i) \<and> coef_ok s (kn_e1 rnd i)"
    and "valued s invsk I" "rows_ok s l CRS"
    and "msg_ok s msg W"
  defines "R \<equiv> nat_point s (kn_r rnd)"
  shows "\<exists>ek. key_rows arb U invsk CRS m msg rnd (fst s) = Inr (fst s, ek) \<and> length ek = l - 1
    \<and> (\<forall>i<l - 1. key_row_ok s g CRS m W R I rnd i (ek ! i))"
proof -
  note G = gadget_digits [OF assms(2)]
  obtain skr where skr: "SetFormat arb EVALUATION (coef_poly U (kn_r rnd)) (fst s) = Inr (fst s, skr)" "valued s skr R"
    using coef_poly_valued [OF assms(1,5)] G unfolding R_def by blast
  have "\<exists>row. key_row arb U invsk CRS m msg rnd skr i (fst s) = Inr (fst s, row) \<and> key_row_ok s g CRS m W R I rnd i row"
    if "i < l - 1" for i
  proof -
    have i: "coef_ok s (kn_e0 rnd i)" "coef_ok s (kn_e1 rnd i)" "i < ring_len s" "i < length CRS" "epoly s (CRS ! i)"
      using assms(4,6,8) that by (simp_all add: rows_ok_def)
    show ?thesis
      using key_row_valued [OF assms(1-3) that i(1,2) assms(7) skr(2) i(3-5) assms(9), where arb = arb and m = m] .
  qed
  from mapS_upt [of "l - 1" "key_row arb U invsk CRS m msg rnd skr" "fst s", OF this] show ?thesis using skr(1) G by (simp add: key_rows_def)
qed

lemma msg_ok_intros: "msg_ok s Inr (\<lambda>j. 1)" "valued s invsk I \<Longrightarrow> msg_ok s (\<lambda>gd. Times gd invsk) I"
  using valued_ops(3) [where s = s] by (simp_all add: msg_ok_def)

text \<open>The rows of a generated key, in the form that the hybrid product uses.\<close>

lemma key_rows_hybrid:
  assumes ek: "length ek = l - 1" "\<And>i. i < l - 1 \<Longrightarrow> key_row_ok s g CRS m W R I rnd i (ek ! i)" and j: "j < ring_len s"
    and S: "I j * S index mod ring_mod s = 1 mod ring_mod s"
    and P: "\<And>u i. u < k \<Longrightarrow> i < l - 1 \<Longrightarrow> pev (Pkey ! u ! i) j mod ring_mod s = (EB u i - pev (CRS ! i) j * S u) mod ring_mod s"
  shows "hybrid_key s g l k (map (\<lambda>r. r ! 0) ek) (map (\<lambda>r. r ! 1) ek) index Pkey j
    (if m then W j else 0) (R j) (\<lambda>i. pev (CRS ! i) j) S
    (\<lambda>i. nat_point s (kn_e0 rnd i) j + (R i - R j) * pev (CRS ! i) j) (\<lambda>i. nat_point s (kn_e1 rnd i) j) EB"
  unfolding hybrid_key_def
proof (intro allI impI conjI)
  fix i
  assume i: "i < l - 1"
  let ?q = "ring_mod s" and ?B = "(2 ^ g) ^ Suc i :: int"
  obtain r0 r1 where r: "ek ! i = [r0, r1]"
      "pev r0 j = (nat_point s (kn_e0 rnd i) j + (if m then ?B * W j else 0) + R i * pev (CRS ! i) j) mod ?q"
      "pev r1 j = (nat_point s (kn_e1 rnd i) j + ?B * R j) * I j mod ?q"
    using ek(2) [OF i] j unfolding key_row_ok_def valued_def by blast
  have n: "map (\<lambda>r. r ! 0) ek ! i = r0" "map (\<lambda>r. r ! 1) ek ! i = r1" using ek(1) i r(1) by simp_all
  show "pev (map (\<lambda>r. r ! 0) ek ! i) j mod ?q = (nat_point s (kn_e0 rnd i) j + (R i - R j) * pev (CRS ! i) j
      + (if m then W j else 0) * ?B + R j * pev (CRS ! i) j) mod ?q"
    unfolding n r(2) by (simp add: algebra_simps)
  have "pev r1 j * S index mod ?q = (nat_point s (kn_e1 rnd i) j + ?B * R j) * (I j * S index) mod ?q"
    unfolding r(3) by (simp add: mod_mult_left_eq mult.assoc)
  also have "\<dots> = (nat_point s (kn_e1 rnd i) j + ?B * R j) * 1 mod ?q" using S by (intro mod_mult_cong) auto
  finally show "pev (map (\<lambda>r. r ! 1) ek ! i) j * S index mod ?q = (nat_point s (kn_e1 rnd i) j + R j * ?B) mod ?q"
    unfolding n by (simp add: mult.commute)
  show "pev (Pkey ! u ! i) j mod ?q = (EB u i - pev (CRS ! i) j * S u) mod ?q" if "u < k" for u
    using P [OF that i] .
qed

text \<open>The key that a generator returns, with the noise of its first rows.\<close>

definition generated_key ::
  "'a::len ring_state \<Rightarrow> bool \<Rightarrow> bool \<Rightarrow> 'a poly \<Rightarrow> 'a poly list \<Rightarrow> 'a key_noise \<Rightarrow> (nat \<Rightarrow> nat \<Rightarrow> int) \<Rightarrow> (nat \<Rightarrow> nat \<Rightarrow> nat \<Rightarrow> int) \<Rightarrow> hybrid" where
  "generated_key s kdm b invsk CRS rnd S EB =
     (let R = nat_point s (kn_r rnd) in
      \<lparr> hy_M = (\<lambda>j. if b then if kdm then pev invsk j else 1 else 0), hy_R = R, hy_S = S, hy_A = (\<lambda>i. pev (CRS ! i)),
         hy_E0 = (\<lambda>i j. nat_point s (kn_e0 rnd i) j + (R i - R j) * pev (CRS ! i) j),
         hy_E1 = (\<lambda>i. nat_point s (kn_e1 rnd i)), hy_EB = EB \<rparr>)"

text \<open>The two key generators return keys of the form that the hybrid product needs, for the message one
  or the inverse of the secret (which \<open>KDMKeyGenXZW\<close> encrypts), except that the first component of row
  \<open>i\<close> is masked with the value of the mask at point \<open>i\<close> in place of its value at each point: the product of
  the difference with the common reference string stays in the noise \<open>hy_E0\<close>.  It vanishes for constant
  masks only.
\<close>

lemma KeyGenXZW_keyed:
  fixes U :: "'a::len uni_params"
  assumes "ready s" "gadget_ok s U g l" "up_Gpower U = gpowers (up_Q U) (ucast (up_baseG U)) l 1" "l - 1 \<le> ring_len s"
    and "coef_ok s (kn_r rnd)" "\<And>i. i < l - 1 \<Longrightarrow> coef_ok s (kn_e0 rnd i) \<and> coef_ok s (kn_e1 rnd i)"
    and "epoly s invsk" "rows_ok s l CRS" "k \<le> length Pkey" "\<And>u. u < k \<Longrightarrow> rows_ok s l (Pkey ! u)"
    and "\<And>j. j < ring_len s \<Longrightarrow> pev invsk j * S index j mod ring_mod s = 1 mod ring_mod s"
    and "\<And>u i j. u < k \<Longrightarrow> i < l - 1 \<Longrightarrow> j < ring_len s \<Longrightarrow>
      pev (Pkey ! u ! i) j mod ring_mod s = (EB u i j - pev (CRS ! i) j * S u j) mod ring_mod s"
  shows "\<exists>ek. (if kdm then KDMKeyGenXZW else KeyGenXZW) arb U invsk CRS (if b then 1 else 0) rnd (fst s) = Inr (fst s, ek)
    \<and> length ek = l - 1 \<and> (\<forall>i<l - 1. length (ek ! i) = 2)
    \<and> keyed s g l k (map (\<lambda>r. r ! 0) ek) (map (\<lambda>r. r ! 1) ek) index Pkey (generated_key s kdm b invsk CRS rnd S EB)"
proof -
  let ?W = "if kdm then pev invsk else (\<lambda>j. 1)" and ?msg = "if kdm then (\<lambda>gd. Times gd invsk) else Inr"
  note I = valued_pev [OF assms(7)]
  have "msg_ok s ?msg ?W" using msg_ok_intros(1) [of s] msg_ok_intros(2) [OF I] by simp
  note K = key_rows_valued [OF assms(1-6) I assms(8) this, where arb = arb and m = b]
  obtain ek where ek: "key_rows arb U invsk CRS b ?msg rnd (fst s) = Inr (fst s, ek)" "length ek = l - 1"
      "\<And>i. i < l - 1 \<Longrightarrow> key_row_ok s g CRS b ?W (nat_point s (kn_r rnd)) (pev invsk) rnd i (ek ! i)"
    using K by blast
  have "rows_ok s l (map (\<lambda>r. r ! 0) ek)" "rows_ok s l (map (\<lambda>r. r ! 1) ek)"
    unfolding rows_ok_def using ek(2,3) by (fastforce simp: key_row_ok_def valued_def)+
  moreover have "(if kdm then KDMKeyGenXZW else KeyGenXZW) arb U invsk CRS (if b then 1 else 0) rnd (fst s) = Inr (fst s, ek)"
    using ek(1) by (cases b; cases kdm) (simp_all add: KeyGenXZW_def KDMKeyGenXZW_def)
  moreover have "hybrid_key s g l k (map (\<lambda>r. r ! 0) ek) (map (\<lambda>r. r ! 1) ek) index Pkey j
      (if b then if kdm then pev invsk j else 1 else 0) (nat_point s (kn_r rnd) j) (\<lambda>i. pev (CRS ! i) j) (\<lambda>u. S u j)
      (\<lambda>i. nat_point s (kn_e0 rnd i) j + (nat_point s (kn_r rnd) i - nat_point s (kn_r rnd) j) * pev (CRS ! i) j)
      (\<lambda>i. nat_point s (kn_e1 rnd i) j) (\<lambda>u i. EB u i j)" if "j < ring_len s" for j
    using key_rows_hybrid [where k = k and S = "\<lambda>u. S u j" and EB = "\<lambda>u i. EB u i j", OF ek(2,3) that assms(11) [OF that] assms(12)] that
    by (cases kdm; cases b) simp_all
  moreover have "length (ek ! i) = 2" if "i < l - 1" for i using ek(3) [OF that] by (auto simp: key_row_ok_def)
  ultimately show ?thesis
    using assms(9,10) ek(2) by (intro exI [of _ ek]) (simp add: keyed_def generated_key_def Let_def)
qed

section \<open>An example\<close>

text \<open>
  Two parties in the ring of dimension four modulo 17, with base four and three digits, of which two are used.  Both secrets
  are one, the common reference string is the constant two and every noise is zero.
\<close>

definition ex_ring :: "32 ring_state" where
  "ex_ring = (fst example_state, 2, Poly.example_params)"

definition ex_el :: "32 word \<Rightarrow> 32 poly" where
  "ex_el x = \<lparr> p_format = EVALUATION, p_params = Poly.example_params, p_values = Some \<lparr> m_modulus = 17, m_data = replicate 4 x \<rparr> \<rparr>"

definition ex_uni :: "32 uni_params" where
  "ex_uni = \<lparr> up_k = 2, up_N = 4, up_Q = 17, up_q = 8, up_baseG = 4, up_baseR = 2, up_digitsG = 3,
     up_Gpower = gpowers 17 4 3 1, up_Gpower_map = Map.empty, up_polyParams = Poly.example_params, up_gateConst = [],
     up_monomials = [], up_logGen = [], up_method = MKNTRU_LWE, up_numAutoKeys = 10, up_CRS = [] \<rparr>"

definition ex_noise :: "32 key_noise" where
  "ex_noise = (let z = \<lparr> m_modulus = 17, m_data = [0, 0, 0, 0] \<rparr> in
     \<lparr> kn_r = \<lparr> m_modulus = 17, m_data = [3, 0, 0, 0] \<rparr>, kn_e0 = (\<lambda>i. z), kn_e1 = (\<lambda>i. z) \<rparr>)"

lemma ex_ring_simps [simp]: "ring_len ex_ring = 4" "ring_mod ex_ring = 17" "fst ex_ring = fst example_state"
  by (simp_all add: ex_ring_def ring_len_def ring_mod_def Poly.example_params_def example_el_def)

lemma ex_ready: "ready ex_ring"
  using example_state_ok by (simp add: ready_def ex_ring_def poly_ok_def)

lemma ex_el_ok: "x < 17 \<Longrightarrow> epoly ex_ring (ex_el x)" "j < 4 \<Longrightarrow> pev (ex_el x) j = uint x"
proof -
  assume "x < 17"
  then have "residue 17 x" by (simp add: residue_def word_less_def)
  then show "epoly ex_ring (ex_el x)"
    using example_state_ok ftt_reachable_cache_ok [OF example_state_ok(1)]
    by (auto simp: epoly_def ex_ring_def ex_el_def poly_ok_def nvec_ok_def modulus_ok_def Poly.example_params_def example_el_def)
qed (simp add: pev_def ex_el_def)

lemma all_less_two: "(\<forall>i<2::nat. P i) \<longleftrightarrow> P 0 \<and> P 1"
  by (auto simp: less_2_cases_iff)

lemma ex_gadget: "gadget_ok ex_ring ex_uni 2 3"
  by (simp add: gadget_ok_def ex_ring_def ex_uni_def Poly.example_params_def example_el_def)

lemma ex_uni_k: "up_k ex_uni = 2"
  by (simp add: ex_uni_def)

definition ex_key :: hybrid where
  "ex_key = \<lparr> hy_M = (\<lambda>j. 1), hy_R = (\<lambda>j. 1), hy_S = (\<lambda>u j. 1), hy_A = (\<lambda>i j. 1), hy_E0 = (\<lambda>i j. 0),
     hy_E1 = (\<lambda>i j. 0), hy_EB = (\<lambda>u i j. 0) \<rparr>"

theorem HbProd_phase_witness:
  "\<exists>acc' \<eta>. HbProd (\<lambda>_ _. Inr) ex_uni [ex_el 5, ex_el 0] [ex_el 4, ex_el 16] 0 [[ex_el 16, ex_el 16], [ex_el 16, ex_el 16]]
      [ex_el 3, ex_el 7] (fst ex_ring) = Inr (fst ex_ring, acc') \<and> acc_ok ex_ring 2 acc' \<and> noise_of ex_ring 2 3 2 ex_key \<eta>
    \<and> (\<forall>j<4. phase 2 (hy_S ex_key) acc' j mod 17 = (1 * phase 2 (hy_S ex_key) [ex_el 3, ex_el 7] j + \<eta> j) mod 17)"
proof -
  have A: "acc_ok ex_ring 2 [ex_el 3, ex_el 7]" by (simp add: acc_ok_def ex_el_ok)
  have K: "keyed ex_ring 2 3 2 [ex_el 5, ex_el 0] [ex_el 4, ex_el 16] 0 [[ex_el 16, ex_el 16], [ex_el 16, ex_el 16]] ex_key"
    by (simp add: keyed_def rows_ok_def hybrid_key_def ex_el_ok all_less_two ex_key_def)
  have "hy_M ex_key = (\<lambda>j. 1)" by (simp add: ex_key_def)
  then show ?thesis using HbProd_phase [OF ex_ready ex_gadget ex_uni_k _ A K, of "\<lambda>_ _. Inr"] by simp
qed

end
