(* ===== verification/MKRotate.thy ===== *)
theory MKRotate
  imports MKPhase
begin

text \<open>
  Correctness of the blind rotation of \<^verbatim>\<open>mk-acc-xzw.cpp\<close> and \<^verbatim>\<open>mk-acc-xzw_B.cpp\<close>: the monomials
  of the parameters, what the accumulation steps do to the phase of the accumulator, and the
  composition of the steps over the entries of a ciphertext.
\<close>

section \<open>Monomials\<close>

lemma point_order:
  assumes "ready s" "j < ring_len s"
  shows "point s j ^ ring_len s mod ring_mod s = - 1 mod ring_mod s"
    "point s j ^ (2 * ring_len s) mod ring_mod s = 1 mod ring_mod s"
proof -
  obtain c L P where s: "s = (c, L, P)" by (cases s) auto
  let ?q = "ciphertextModulus P"
  have r: "ftt_reachable c" "ring_params L P" "\<not> needs_tables c ?q (2 ^ L)" using assms(1) by (simp_all add: ready_def s)
  obtain psi where psi: "valid_root ?q L psi"
      "\<And>i. i < 2 ^ L \<Longrightarrow> eval_point (tables_of c ?q L) L i mod uint ?q = uint psi ^ (2 * rev_bits L i + 1) mod uint ?q"
    using eval_point_powers [OF cache_okD [OF ftt_reachable_cache_ok [OF r(1)] r(3)]] by metis
  have "point s j mod uint ?q = uint psi ^ (2 * rev_bits L j + 1) mod uint ?q"
    using psi(2) [of j] assms(2) by (simp add: point_def ring_len_def s)
  then have "point s j ^ 2 ^ L mod uint ?q = (uint psi ^ (2 * rev_bits L j + 1)) ^ 2 ^ L mod uint ?q"
    by (metis power_mod)
  also have "\<dots> = (uint psi ^ 2 ^ L) ^ (2 * rev_bits L j + 1) mod uint ?q"
    by (simp only: power_mult [symmetric] mult.commute)
  also have "\<dots> = (- 1) ^ (2 * rev_bits L j + 1) mod uint ?q"
    using psi(1) by (metis power_mod valid_root_def)
  finally show 1: "point s j ^ ring_len s mod ring_mod s = - 1 mod ring_mod s" by (simp add: ring_len_def ring_mod_def s)
  have "point s j ^ (2 * ring_len s) mod ring_mod s = (point s j ^ ring_len s) ^ 2 mod ring_mod s"
    by (simp add: power_mult [symmetric] mult.commute)
  also have "\<dots> = (- 1) ^ 2 mod ring_mod s" using 1 by (metis power_mod)
  finally show "point s j ^ (2 * ring_len s) mod ring_mod s = 1 mod ring_mod s" by simp
qed

definition monomials_ok :: "'a::len ring_state \<Rightarrow> 'a poly list \<Rightarrow> bool" where
  "monomials_ok s ms \<longleftrightarrow> length ms = 2 * ring_len s \<and> (\<forall>i<2 * ring_len s. valued s (ms ! i) (\<lambda>j. point s j ^ i - 1))"

lemma nat_point_two:
  assumes "m < ring_len s" "length xs = ring_len s" "\<And>k. k < ring_len s \<Longrightarrow> k \<noteq> 0 \<Longrightarrow> k \<noteq> m \<Longrightarrow> xs ! k = 0"
    and "m = 0 \<Longrightarrow> uint (xs ! 0) mod q = (a + b) mod q" "m \<noteq> 0 \<Longrightarrow> uint (xs ! 0) mod q = a mod q \<and> uint (xs ! m) mod q = b mod q"
  shows "at_point s (\<lambda>k. uint (xs ! k)) j mod q = (a + b * point s j ^ m) mod q"
proof (cases "m = 0")
  case True
  have "at_point s (\<lambda>k. uint (xs ! k)) j = at_point s (\<lambda>k. if k = 0 then uint (xs ! 0) else 0) j"
    unfolding at_point_def using assms(3) True by (intro sum.cong) auto
  then show ?thesis using True assms(1,4) by (simp add: at_point_const)
next
  case False
  have "at_point s (\<lambda>k. uint (xs ! k)) j
      = at_point s (\<lambda>k. (if k = 0 then uint (xs ! 0) else 0) + (if k = m then uint (xs ! m) else 0)) j"
    unfolding at_point_def using assms(3) False by (intro sum.cong) auto
  also have "\<dots> = uint (xs ! 0) + uint (xs ! m) * point s j ^ m"
    unfolding at_point_add using assms(1) at_point_const [of s "uint (xs ! 0)" j]
    by (simp add: at_point_def if_distrib [of "\<lambda>x. x * _"] cong: if_cong)
  also have "\<dots> mod q = (a + b * point s j ^ m) mod q"
    using False assms(5) by (intro mod_add_cong mod_mult_cong) auto
  finally show ?thesis .
qed

lemma monomial_poly_valued:
  assumes "ready (c, L, P)" "m < 2 ^ L"
  shows "\<exists>p t. monomial_poly P (ciphertextModulus P) neg m = Inr p \<and> SetFormat arb EVALUATION p c = Inr (c, t)
    \<and> valued (c, L, P) t (\<lambda>j. point (c, L, P) j ^ (if neg then 2 ^ L + m else m) - 1)"
proof -
  let ?s = "(c, L, P)" and ?q = "ciphertextModulus P"
  have rp: "ring_params L P" using assms(1) by (simp add: ready_def)
  note P = ring_paramsD [OF rp]
  have q: "2 < uint ?q" "modulus_ok ?q" using valid_root_modulus [OF P(3)] by simp_all
  have one: "residue ?q 1" "residue ?q 0" using q by (simp_all add: residue_def)
  define x0 where "x0 = ModSubFastEq 0 1 ?q"
  define y where "y z = (if neg then ModSubFastEq z 1 ?q else ModAddFastEq z 1 ?q)" for z
  define xs where "xs = ((replicate (2 ^ L) 0)[0 := x0])[m := y (((replicate (2 ^ L) 0)[0 := x0]) ! m)]"
  have x0: "uint x0 = - 1 mod uint ?q" "residue ?q x0"
    using q one uint_ModSubFast [of ?q 0 1] by (simp_all add: x0_def in_place_variants residue_def)
  have yv: "uint (y z) = (uint z + (if neg then - 1 else 1)) mod uint ?q" "residue ?q (y z)" if z: "residue ?q z" for z
  proof -
    show *: "uint (y z) = (uint z + (if neg then - 1 else 1)) mod uint ?q"
      using uint_ModSubFast [OF z one(1)] uint_ModAddFast [OF q(2) z one(1)] by (cases neg) (simp_all add: y_def in_place_variants)
    show "residue ?q (y z)" by (rule residue_uint_mod [OF *]) (use q(1) in simp)
  qed
  let ?v = "\<lparr> m_modulus = ?q, m_data = xs \<rparr>"
  have base: "residue ?q ((replicate (2 ^ L) 0)[0 := x0] ! k)" if "k < 2 ^ L" for k
    using that x0(2) one(2) by (simp add: nth_list_update)
  have res: "residue ?q (xs ! k)" if "k < 2 ^ L" for k
    using that base [OF that] yv(2) [OF base [OF assms(2)]] by (cases "k = m") (simp_all add: xs_def)
  then have ok: "nvec_ok ?v" using q(2) by (auto simp: nvec_ok_def in_set_conv_nth xs_def)
  have run: "monomial_poly P ?q neg m = Inr \<lparr> p_format = COEFFICIENT, p_params = P, p_values = Some ?v \<rparr>"
    using assms(2) P(6) by (simp add: monomial_poly_def poly_new_def SetValuesToZero_def deref_def vec_zero_def idx_def upd_def
        Let_def xs_def x0_def y_def)
  obtain t where t: "SetFormat arb EVALUATION \<lparr> p_format = COEFFICIENT, p_params = P, p_values = Some ?v \<rparr> c = Inr (c, t)"
      "valued ?s t (at_point ?s (\<lambda>k. uint (xs ! k)))"
    using valued_eval [OF assms(1), of "\<lparr> p_format = COEFFICIENT, p_params = P, p_values = Some ?v \<rparr>" ?v arb] ok
    by (auto simp: xs_def)
  have "at_point ?s (\<lambda>k. uint (xs ! k)) j mod ring_mod ?s = (point ?s j ^ (if neg then 2 ^ L + m else m) - 1) mod ring_mod ?s"
    if j: "j < ring_len ?s" for j
  proof -
    have "at_point ?s (\<lambda>k. uint (xs ! k)) j mod ring_mod ?s = (- 1 + (if neg then - 1 else 1) * point ?s j ^ m) mod ring_mod ?s"
    proof (rule nat_point_two)
      show "m = 0 \<Longrightarrow> uint (xs ! 0) mod ring_mod ?s = (- 1 + (if neg then - 1 else 1)) mod ring_mod ?s"
        using yv(1) [OF x0(2)] x0(1) by (simp add: xs_def ring_mod_def mod_add_left_eq)
      show "m \<noteq> 0 \<Longrightarrow> uint (xs ! 0) mod ring_mod ?s = - 1 mod ring_mod ?s \<and> uint (xs ! m) mod ring_mod ?s = (if neg then - 1 else 1) mod ring_mod ?s"
        using yv(1) [OF one(2)] x0(1) assms(2) by (simp add: xs_def ring_mod_def)
    qed (use assms(2) in \<open>auto simp: xs_def ring_len_def nth_list_update\<close>)
    also have "\<dots> = (- 1 + (if neg then point ?s j ^ 2 ^ L else 1) * point ?s j ^ m) mod ring_mod ?s"
    proof -
      note po = point_order(1) [OF assms(1) j, unfolded ring_len_def fst_conv snd_conv]
      have "(if neg then - 1 else 1) mod ring_mod ?s = (if neg then point ?s j ^ 2 ^ L else 1) mod ring_mod ?s"
        by (cases neg) (simp_all only: if_True if_False po)
      then show ?thesis by (rule mod_add_cong [OF refl mod_mult_cong [OF _ refl]])
    qed
    finally show ?thesis by (simp add: power_add)
  qed
  then have "valued ?s t (\<lambda>j. point ?s j ^ (if neg then 2 ^ L + m else m) - 1)" by (rule valued_cong [OF t(2)])
  then show ?thesis using run t(1) by (intro exI conjI)
qed

lemma monomials_valued:
  assumes "ready s" "P = snd (snd s)" "N = ring_len s"
  shows "\<exists>ms. monomials arb P (ciphertextModulus P) N (fst s) = Inr (fst s, ms) \<and> monomials_ok s ms"
proof -
  obtain c L P' where s: "s = (c, L, P')" by (cases s) auto
  let ?f = "\<lambda>(neg, i) c. bindR (monomial_poly P (ciphertextModulus P) neg i) (\<lambda>p. SetFormat arb EVALUATION p c)"
    and ?xs = "map (Pair False) [0..<N] @ map (Pair True) [0..<N]"
  have "\<exists>t. ?f x c = Inr (c, t) \<and> valued s t (\<lambda>j. point s j ^ (if fst x then N + snd x else snd x) - 1)" if "x \<in> set ?xs" for x
    using monomial_poly_valued [of c L P "snd x" "fst x" arb] assms that by (fastforce simp: s ring_len_def)
  from mapS_ex [of ?xs ?f c, OF this] obtain ms where ms: "mapS ?f ?xs c = Inr (c, ms)" "length ms = 2 * N"
      "\<And>i. i < 2 * N \<Longrightarrow> valued s (ms ! i) (\<lambda>j. point s j ^ (if fst (?xs ! i) then N + snd (?xs ! i) else snd (?xs ! i)) - 1)"
    by auto
  have "(if fst (?xs ! i) then N + snd (?xs ! i) else snd (?xs ! i)) = i" if "i < 2 * N" for i
    using that by (auto simp: nth_append)
  then have "monomials_ok s ms" using ms(2,3) assms(3) by (simp add: monomials_ok_def)
  then show ?thesis using ms(1) by (auto simp: monomials_def s)
qed

lemma GetMonomial_valued:
  assumes "monomials_ok s (up_monomials U)" "unat i < 2 * ring_len s"
  shows "\<exists>p. GetMonomial U i = Inr p \<and> valued s p (\<lambda>j. point s j ^ unat i - 1)"
  using assms by (simp add: GetMonomial_def idx_def monomials_ok_def)

lemma small_ucast:
  assumes "unat (c :: 'a::len word) \<le> 2 ^ 25"
  shows "unat (ucast c :: 32 word) = unat c"
  using assms by (simp add: unsigned_ucast_eq take_bit_eq_mod)

lemma two_N:
  assumes "gadget_ok s U g l" "ready s"
  shows "unat (2 * up_N U) = 2 * ring_len s" "2 * ring_len s \<le> 2 ^ 25" "0 < ring_len s"
proof -
  obtain c L P where s: "s = (c, L, P)" by (cases s) auto
  have L: "L \<le> 24" using assms(2) ring_paramsD(4) [of L P] by (simp add: ready_def s)
  have N: "2 * up_N U = 2 ^ Suc L" using assms(1) by (simp add: gadget_ok_def s)
  have "unat (2 ^ Suc L :: 32 word) = 2 ^ Suc L" by (rule unat_power2) (use L in simp)
  then show "unat (2 * up_N U) = 2 * ring_len s" by (simp add: N ring_len_def s del: power_Suc) simp
  have "(2::nat) ^ Suc L \<le> 2 ^ 25" using L by (intro power_increasing) simp_all
  then show "2 * ring_len s \<le> 2 ^ 25" by (simp add: ring_len_def s)
  show "0 < ring_len s" by (simp add: ring_len_def)
qed

lemma monomial_of_valued:
  assumes "gadget_ok s U g l" "ready s" "monomials_ok s (up_monomials U)" "unat c \<le> 2 * ring_len s"
  shows "\<exists>p. monomial_of U c = Inr p \<and> valued s p (\<lambda>j. point s j ^ unat c - 1)"
proof -
  note N = two_N [OF assms(1,2)]
  have c: "unat (ucast c :: 32 word) = unat c" using assms(4) N(2) by (intro small_ucast) simp
  show ?thesis
  proof (cases "unat c = 2 * ring_len s")
    case True
    then have e: "(ucast c :: 32 word) = 2 * up_N U" using c N(1) by (simp add: word_unat_eq_iff)
    obtain p where p: "GetMonomial U 0 = Inr p" "valued s p (\<lambda>j. point s j ^ unat (0 :: 32 word) - 1)"
      using GetMonomial_valued [OF assms(3), of 0] N(3) by auto
    have "valued s p (\<lambda>j. point s j ^ unat c - 1)"
      unfolding True
      by (rule valued_cong [OF p(2)], rule mod_diff_cong) (simp_all add: point_order(2) [OF assms(2)])
    then show ?thesis using p(1) e by (simp add: monomial_of_def)
  next
    case False
    then have "(ucast c :: 32 word) \<noteq> 2 * up_N U" using c N(1) by auto
    then show ?thesis
      using GetMonomial_valued [OF assms(3), of "ucast c"] c False assms(4) by (simp add: monomial_of_def Let_def)
  qed
qed

lemma monomialNeg_of_valued:
  fixes U :: "'a::len uni_params"
  assumes "gadget_ok s U g l" "ready s" "monomials_ok s (up_monomials U)" "unat c \<le> 2 * ring_len s" "2 * ring_len s < 2 ^ LENGTH('a)"
  shows "\<exists>p. monomialNeg_of U c = Inr p \<and> valued s p (\<lambda>j. point s j ^ (2 * ring_len s - unat c) - 1)"
proof -
  note N = two_N [OF assms(1,2)]
  let ?M = "ucast (2 * up_N U) :: 'a word"
  have M: "unat ?M = 2 * ring_len s" using N(1) assms(5) by (simp add: unsigned_ucast_eq take_bit_eq_mod)
  let ?d = "ModSubFast 0 c ?M"
  have d: "unat ?d = (if c = 0 then 0 else 2 * ring_len s - unat c)"
  proof (cases "c = 0")
    case False
    have "c \<le> ?M" using assms(4) M by (simp add: word_le_nat_alt)
    then have "unat (?M - c) = unat ?M - unat c" by (simp add: unat_sub)
    then show ?thesis using False M by (simp add: ModSubFast_def word_gt_0 add.commute)
  qed (simp add: ModSubFast_def)
  have u: "unat (ucast ?d :: 32 word) = unat ?d" using d N(2) by (intro small_ucast) auto
  have lt: "unat (ucast ?d :: 32 word) < 2 * ring_len s" using u d N(3) by (auto simp: word_neq_0_conv unat_gt_0)
  then have ne: "(ucast ?d :: 32 word) \<noteq> 2 * up_N U" using N(1) by auto
  obtain p where p: "GetMonomial U (ucast ?d) = Inr p" "valued s p (\<lambda>j. point s j ^ unat ?d - 1)"
    using GetMonomial_valued [OF assms(3) lt] u by auto
  have "valued s p (\<lambda>j. point s j ^ (2 * ring_len s - unat c) - 1)"
    by (rule valued_cong [OF p(2)], rule mod_diff_cong) (simp_all add: d point_order(2) [OF assms(2)])
  then show ?thesis using p(1) ne by (simp add: monomialNeg_of_def Let_def)
qed

section \<open>Combinations of keys\<close>

text \<open>\<open>T\<close> keys with the same secrets, reference and public keys, combined with factors \<open>a\<close>.\<close>

definition combined :: "nat \<Rightarrow> (nat \<Rightarrow> nat \<Rightarrow> int) \<Rightarrow> (nat \<Rightarrow> hybrid) \<Rightarrow> hybrid" where
  "combined T a H = (H 0) \<lparr> hy_M := (\<lambda>j. \<Sum>t<T. a t j * hy_M (H t) j), hy_R := (\<lambda>j. \<Sum>t<T. a t j * hy_R (H t) j),
     hy_E0 := (\<lambda>i j. \<Sum>t<T. a t j * hy_E0 (H t) i j), hy_E1 := (\<lambda>i j. \<Sum>t<T. a t j * hy_E1 (H t) i j) \<rparr>"

definition same_parties :: "hybrid \<Rightarrow> hybrid \<Rightarrow> bool" where
  "same_parties H H' \<longleftrightarrow> hy_S H = hy_S H' \<and> hy_A H = hy_A H' \<and> hy_EB H = hy_EB H'"

lemma keyed_combined:
  assumes K: "\<And>t. t < T \<Longrightarrow> keyed s g l k (d t) (f t) index Pkey (H t)" and "0 < T"
    and same: "\<And>t. t < T \<Longrightarrow> same_parties (H t) (H 0)"
    and rows: "rows_ok s l d'" "rows_ok s l f'"
    and d: "\<And>i j. i < l - 1 \<Longrightarrow> j < ring_len s \<Longrightarrow> pev (d' ! i) j mod ring_mod s = (\<Sum>t<T. a t j * pev (d t ! i) j) mod ring_mod s"
    and f: "\<And>i j. i < l - 1 \<Longrightarrow> j < ring_len s \<Longrightarrow> pev (f' ! i) j mod ring_mod s = (\<Sum>t<T. a t j * pev (f t ! i) j) mod ring_mod s"
  shows "keyed s g l k d' f' index Pkey (combined T a H)"
proof -
  let ?q = "ring_mod s"
  have "hybrid_key s g l k d' f' index Pkey j (hy_M (combined T a H) j) (hy_R (combined T a H) j) (\<lambda>i. hy_A (H 0) i j)
      (\<lambda>u. hy_S (H 0) u j) (\<lambda>i. hy_E0 (combined T a H) i j) (\<lambda>i. hy_E1 (combined T a H) i j) (\<lambda>u i. hy_EB (H 0) u i j)"
    if j: "j < ring_len s" for j
    unfolding hybrid_key_def
  proof (intro allI impI conjI)
    fix i assume i: "i < l - 1"
    let ?B = "(2 ^ g) ^ Suc i :: int"
    have key: "pev (d t ! i) j mod ?q = (hy_E0 (H t) i j + hy_M (H t) j * ?B + hy_R (H t) j * hy_A (H 0) i j) mod ?q"
        "pev (f t ! i) j * hy_S (H 0) index j mod ?q = (hy_E1 (H t) i j + hy_R (H t) j * ?B) mod ?q" if "t < T" for t
      using K [OF that] same [OF that] i j unfolding keyed_def hybrid_key_def same_parties_def by auto
    have "(\<Sum>t<T. a t j * pev (d t ! i) j) mod ?q
        = (\<Sum>t<T. a t j * (hy_E0 (H t) i j + hy_M (H t) j * ?B + hy_R (H t) j * hy_A (H 0) i j)) mod ?q"
      by (intro sum_mod_cong mod_mult_cong key(1) refl)
    also have "\<dots> = (hy_E0 (combined T a H) i j + hy_M (combined T a H) j * ?B + hy_R (combined T a H) j * hy_A (H 0) i j) mod ?q"
      by (simp add: combined_def sum_distrib_right distrib_left sum.distrib mult.assoc del: power_Suc)
    finally show "pev (d' ! i) j mod ?q
        = (hy_E0 (combined T a H) i j + hy_M (combined T a H) j * ?B + hy_R (combined T a H) j * hy_A (H 0) i j) mod ?q"
      using d [OF i j] by simp
    have "pev (f' ! i) j * hy_S (H 0) index j mod ?q = (\<Sum>t<T. a t j * pev (f t ! i) j) * hy_S (H 0) index j mod ?q"
      using f [OF i j] by (rule mod_mult_cong) simp
    also have "\<dots> = (\<Sum>t<T. a t j * (pev (f t ! i) j * hy_S (H 0) index j)) mod ?q"
      by (simp add: sum_distrib_right mult.assoc)
    also have "\<dots> = (\<Sum>t<T. a t j * (hy_E1 (H t) i j + hy_R (H t) j * ?B)) mod ?q"
      by (intro sum_mod_cong mod_mult_cong key(2) refl)
    also have "\<dots> = (hy_E1 (combined T a H) i j + hy_R (combined T a H) j * ?B) mod ?q"
      by (simp add: combined_def sum_distrib_right distrib_left sum.distrib mult.assoc del: power_Suc)
    finally show "pev (f' ! i) j * hy_S (H 0) index j mod ?q = (hy_E1 (combined T a H) i j + hy_R (combined T a H) j * ?B) mod ?q" .
    show "pev (Pkey ! u ! i) j mod ?q = (hy_EB (H 0) u i j - hy_A (H 0) i j * hy_S (H 0) u j) mod ?q" if "u < k" for u
      using K [OF \<open>0 < T\<close>] i j that unfolding keyed_def hybrid_key_def by auto
  qed
  then show ?thesis using K [OF \<open>0 < T\<close>] rows by (simp add: keyed_def combined_def)
qed

text \<open>An evaluation key as the code stores it, one pair of components per row.\<close>

definition ek_keyed :: "'a::len ring_state \<Rightarrow> nat \<Rightarrow> nat \<Rightarrow> nat \<Rightarrow> 'a evalkey \<Rightarrow> nat \<Rightarrow> 'a poly list list \<Rightarrow> hybrid \<Rightarrow> bool" where
  "ek_keyed s g l k ek index Pkey H \<longleftrightarrow> l - 1 \<le> length ek \<and> (\<forall>i<l - 1. 2 \<le> length (ek ! i))
     \<and> keyed s g l k (map (\<lambda>r. r ! 0) ek) (map (\<lambda>r. r ! 1) ek) index Pkey H"

lemma ek_component:
  assumes "ek_keyed s g l k ek index Pkey H" "i < l - 1" "b < 2"
  shows "idx2 ek i b = Inr (ek ! i ! b)" "epoly s (ek ! i ! b)"
  using assms by (auto simp: ek_keyed_def keyed_def rows_ok_def idx2_def idx_def less_2_cases_iff)

lemma mapR_ex:
  assumes "\<And>i. i < n \<Longrightarrow> \<exists>y. f i = Inr y \<and> Q i y"
  shows "\<exists>ys. mapR f [0..<n] = Inr ys \<and> length ys = n \<and> (\<forall>i<n. Q i (ys ! i))"
proof -
  obtain G where G: "\<And>i. i < n \<Longrightarrow> f i = Inr (G i) \<and> Q i (G i)" using assms by metis
  then show ?thesis by (intro exI [of _ "map G [0..<n]"]) (simp add: mapR_Inr [of "[0..<n]" f G])
qed

lemma rows_combined:
  assumes K: "\<And>t. t < T \<Longrightarrow> ek_keyed s g l k (ek t) index Pkey (H t)" and T: "0 < T"
    and same: "\<And>t. t < T \<Longrightarrow> same_parties (H t) (H 0)"
    and F: "\<And>b i. b < 2 \<Longrightarrow> i < l - 1 \<Longrightarrow> \<exists>y. F b i = Inr y \<and> valued s y (\<lambda>j. \<Sum>t<T. a t j * pev (ek t ! i ! b) j)"
  shows "\<exists>d f. mapR (F 0) [0..<l - 1] = Inr d \<and> mapR (F 1) [0..<l - 1] = Inr f \<and> keyed s g l k d f index Pkey (combined T a H)"
proof -
  have "\<exists>ys. mapR (F b) [0..<l - 1] = Inr ys \<and> length ys = l - 1
      \<and> (\<forall>i<l - 1. valued s (ys ! i) (\<lambda>j. \<Sum>t<T. a t j * pev (ek t ! i ! b) j))" if "b < 2" for b
    using mapR_ex [of "l - 1" "F b" "\<lambda>i y. valued s y (\<lambda>j. \<Sum>t<T. a t j * pev (ek t ! i ! b) j)"] F [OF that] by blast
  from this [of 0] this [of 1] obtain d f where
    d: "mapR (F 0) [0..<l - 1] = Inr d" "length d = l - 1" "\<forall>i<l - 1. valued s (d ! i) (\<lambda>j. \<Sum>t<T. a t j * pev (ek t ! i ! 0) j)" and
    f: "mapR (F 1) [0..<l - 1] = Inr f" "length f = l - 1" "\<forall>i<l - 1. valued s (f ! i) (\<lambda>j. \<Sum>t<T. a t j * pev (ek t ! i ! 1) j)"
    by auto
  have len: "l - 1 \<le> length (ek t)" if "t < T" for t using K [OF that] by (simp add: ek_keyed_def)
  have "keyed s g l k d f index Pkey (combined T a H)"
  proof (rule keyed_combined)
    show "keyed s g l k (map (\<lambda>r. r ! 0) (ek t)) (map (\<lambda>r. r ! 1) (ek t)) index Pkey (H t)" if "t < T" for t
      using K [OF that] by (simp add: ek_keyed_def)
    show "rows_ok s l d" "rows_ok s l f" using d f by (simp_all add: rows_ok_def valued_def)
    fix i j assume i: "i < l - 1" and j: "j < ring_len s"
    have n: "map (\<lambda>r. r ! b) (ek t) ! i = ek t ! i ! b" if "t < T" for t b using len [OF that] i by simp
    show "pev (d ! i) j mod ring_mod s = (\<Sum>t<T. a t j * pev (map (\<lambda>r. r ! 0) (ek t) ! i) j) mod ring_mod s"
      "pev (f ! i) j mod ring_mod s = (\<Sum>t<T. a t j * pev (map (\<lambda>r. r ! 1) (ek t) ! i) j) mod ring_mod s"
      using d(3) f(3) i j n by (simp_all add: valued_def)
  qed (use T same in auto)
  then show ?thesis using d(1) f(1) by blast
qed

lemma xzwB_rows_keyed:
  assumes "ek_keyed s g l k ev1 index Pkey H"
  shows "\<exists>d f. xzwB_rows (l - 1) ev1 0 = Inr d \<and> xzwB_rows (l - 1) ev1 1 = Inr f \<and> keyed s g l k d f index Pkey H"
proof -
  have "combined 1 (\<lambda>t j. 1) (\<lambda>t. H) = H" by (simp add: combined_def)
  moreover have "\<exists>y. idx2 ev1 i b = Inr y \<and> valued s y (\<lambda>j. \<Sum>t<(1::nat). 1 * pev (ev1 ! i ! b) j)" if "b < 2" "i < l - 1" for b i
    using ek_component [OF assms that(2,1)] by (simp add: valued_pev)
  ultimately show ?thesis
    using rows_combined [of 1 s g l k "\<lambda>t. ev1" index Pkey "\<lambda>t. H" "\<lambda>b i. idx2 ev1 i b" "\<lambda>t j. 1"] assms
    by (simp add: xzwB_rows_def same_parties_def)
qed

lemma sum_two: "(\<Sum>t<(2::nat). f t) = f 0 + (f 1 :: int)"
  by (simp add: numeral_2_eq_2)

lemma sum_three: "(\<Sum>t<(3::nat). f t) = f 0 + f 1 + (f 2 :: int)"
  by (simp add: numeral_3_eq_3 numeral_2_eq_2)

lemma xzwB0_rows_keyed:
  assumes K: "ek_keyed s g l k evs index Pkey Hs" "ek_keyed s g l k ev1 index Pkey H1" and same: "same_parties H1 Hs"
    and m: "valued s monomial X"
  shows "\<exists>d f. xzwB0_rows (l - 1) evs ev1 monomial 0 = Inr d \<and> xzwB0_rows (l - 1) evs ev1 monomial 1 = Inr f
    \<and> keyed s g l k d f index Pkey (combined 2 (\<lambda>t j. [1, X j] ! t) ((!) [Hs, H1]))"
  unfolding xzwB0_rows_def
proof (rule rows_combined [where ek = "(!) [evs, ev1]"])
  fix b i :: nat assume bi: "b < 2" "i < l - 1"
  note z = ek_component [OF K(1) bi(2,1)] and x = ek_component [OF K(2) bi(2,1)]
  obtain t where t: "Times (ev1 ! i ! b) monomial = Inr t" "valued s t (\<lambda>j. pev (ev1 ! i ! b) j * X j)"
    using valued_ops(3) [OF valued_pev [OF x(2)] m] by blast
  obtain y where "Plus (evs ! i ! b) t = Inr y" "valued s y (\<lambda>j. pev (evs ! i ! b) j + pev (ev1 ! i ! b) j * X j)"
    using valued_ops(1) [OF valued_pev [OF z(2)] t(2)] by blast
  then show "\<exists>y. bindR (idx2 evs i b) (\<lambda>z. bindR (idx2 ev1 i b) (\<lambda>x. bindR (Times x monomial) (\<lambda>s. Plus z s))) = Inr y
      \<and> valued s y (\<lambda>j. \<Sum>t<2. [1, X j] ! t * pev ([evs, ev1] ! t ! i ! b) j)"
    using z(1) x(1) t(1) by (simp add: sum_two mult.commute)
qed (use K same in \<open>auto simp: less_2_cases_iff same_parties_def\<close>)

lemma xzw_rows_keyed:
  assumes K: "ek_keyed s g l k ev1 index Pkey H1" "ek_keyed s g l k ev2 index Pkey H2" and same: "same_parties H2 H1"
    and m: "valued s monomialNeg Y"
  shows "\<exists>d f. xzw_rows (l - 1) ev1 ev2 monomialNeg 0 = Inr d \<and> xzw_rows (l - 1) ev1 ev2 monomialNeg 1 = Inr f
    \<and> keyed s g l k d f index Pkey (combined 2 (\<lambda>t j. [1, - Y j - 1] ! t) ((!) [H1, H2]))"
  unfolding xzw_rows_def
proof (rule rows_combined [where ek = "(!) [ev1, ev2]"])
  fix b i :: nat assume bi: "b < 2" "i < l - 1"
  note x = ek_component [OF K(1) bi(2,1)] and y = ek_component [OF K(2) bi(2,1)]
  obtain t where t: "Times (ev2 ! i ! b) monomialNeg = Inr t" "valued s t (\<lambda>j. pev (ev2 ! i ! b) j * Y j)"
    using valued_ops(3) [OF valued_pev [OF y(2)] m] by blast
  obtain r where r: "Minus (ev1 ! i ! b) t = Inr r" "valued s r (\<lambda>j. pev (ev1 ! i ! b) j - pev (ev2 ! i ! b) j * Y j)"
    using valued_ops(2) [OF valued_pev [OF x(2)] t(2)] by blast
  obtain v where v: "Minus r (ev2 ! i ! b) = Inr v"
      "valued s v (\<lambda>j. pev (ev1 ! i ! b) j - pev (ev2 ! i ! b) j * Y j - pev (ev2 ! i ! b) j)"
    using valued_ops(2) [OF r(2) valued_pev [OF y(2)]] by blast
  have "valued s v (\<lambda>j. \<Sum>t<2. [1, - Y j - 1] ! t * pev ([ev1, ev2] ! t ! i ! b) j)"
    by (rule valued_cong [OF v(2)]) (simp add: sum_two algebra_simps)
  then show "\<exists>y. bindR (idx2 ev1 i b) (\<lambda>x. bindR (idx2 ev2 i b) (\<lambda>y. bindR (Times y monomialNeg) (\<lambda>t.
        bindR (Minus x t) (\<lambda>s. Minus s y)))) = Inr y
      \<and> valued s y (\<lambda>j. \<Sum>t<2. [1, - Y j - 1] ! t * pev ([ev1, ev2] ! t ! i ! b) j)"
    using x(1) y(1) t(1) r(1) v(1) by simp
qed (use K same in \<open>auto simp: less_2_cases_iff same_parties_def\<close>)

lemma xzw0_rows_keyed:
  assumes K: "ek_keyed s g l k evs index Pkey Hs" "ek_keyed s g l k ev1 index Pkey H1" "ek_keyed s g l k ev2 index Pkey H2"
    and same: "same_parties H1 Hs" "same_parties H2 Hs" and m: "valued s monomial X" "valued s monomialNeg Y"
  shows "\<exists>d f. xzw0_rows (l - 1) evs ev1 ev2 monomial monomialNeg 0 = Inr d
    \<and> xzw0_rows (l - 1) evs ev1 ev2 monomial monomialNeg 1 = Inr f
    \<and> keyed s g l k d f index Pkey (combined 3 (\<lambda>t j. [1, X j, Y j] ! t) ((!) [Hs, H1, H2]))"
  unfolding xzw0_rows_def
proof (rule rows_combined [where ek = "(!) [evs, ev1, ev2]"])
  fix b i :: nat assume bi: "b < 2" "i < l - 1"
  note z = ek_component [OF K(1) bi(2,1)] and x = ek_component [OF K(2) bi(2,1)] and y = ek_component [OF K(3) bi(2,1)]
  obtain t where t: "Times (ev1 ! i ! b) monomial = Inr t" "valued s t (\<lambda>j. pev (ev1 ! i ! b) j * X j)"
    using valued_ops(3) [OF valued_pev [OF x(2)] m(1)] by blast
  obtain r where r: "Times (ev2 ! i ! b) monomialNeg = Inr r" "valued s r (\<lambda>j. pev (ev2 ! i ! b) j * Y j)"
    using valued_ops(3) [OF valued_pev [OF y(2)] m(2)] by blast
  obtain v where v: "Plus (evs ! i ! b) t = Inr v" "valued s v (\<lambda>j. pev (evs ! i ! b) j + pev (ev1 ! i ! b) j * X j)"
    using valued_ops(1) [OF valued_pev [OF z(2)] t(2)] by blast
  obtain w where w: "Plus v r = Inr w"
      "valued s w (\<lambda>j. pev (evs ! i ! b) j + pev (ev1 ! i ! b) j * X j + pev (ev2 ! i ! b) j * Y j)"
    using valued_ops(1) [OF v(2) r(2)] by blast
  then show "\<exists>w. bindR (idx2 evs i b) (\<lambda>z. bindR (idx2 ev1 i b) (\<lambda>x. bindR (idx2 ev2 i b) (\<lambda>y.
        bindR (Times x monomial) (\<lambda>s. bindR (Times y monomialNeg) (\<lambda>t. bindR (Plus z s) (\<lambda>r. Plus r t)))))) = Inr w
      \<and> valued s w (\<lambda>j. \<Sum>t<3. [1, X j, Y j] ! t * pev ([evs, ev1, ev2] ! t ! i ! b) j)"
    using z(1) x(1) y(1) t(1) r(1) v(1) by (simp add: sum_three mult.commute)
qed (use K same in \<open>auto simp: less_Suc_eq numeral_3_eq_3 same_parties_def\<close>)

section \<open>Accumulation steps\<close>

lemma foldR_update:
  assumes "\<And>u. u < k \<Longrightarrow> \<exists>y. h u (acc ! u) = Inr y \<and> Q u y" "length acc = k"
  shows "\<exists>acc'. foldR (\<lambda>u acc. bindR (idx acc u) (\<lambda>x. bindR (h u x) (upd acc u))) [0..<k] acc = Inr acc'
    \<and> length acc' = k \<and> (\<forall>u<k. Q u (acc' ! u))"
proof -
  have "\<exists>acc'. foldR (\<lambda>u acc. bindR (idx acc u) (\<lambda>x. bindR (h u x) (upd acc u))) [0..<m] acc = Inr acc'
    \<and> length acc' = k \<and> (\<forall>u<m. Q u (acc' ! u)) \<and> (\<forall>u. m \<le> u \<longrightarrow> acc' ! u = acc ! u)" if "m \<le> k" for m
    using that
  proof (induction m)
    case (Suc m)
    then obtain acc' where a: "foldR (\<lambda>u acc. bindR (idx acc u) (\<lambda>x. bindR (h u x) (upd acc u))) [0..<m] acc = Inr acc'"
        "length acc' = k" "\<forall>u<m. Q u (acc' ! u)" "\<forall>u. m \<le> u \<longrightarrow> acc' ! u = acc ! u" by auto
    obtain y where y: "h m (acc ! m) = Inr y" "Q m y" using assms(1) [of m] Suc.prems by auto
    have "(\<forall>u<Suc m. Q u (acc'[m := y] ! u)) \<and> (\<forall>u. Suc m \<le> u \<longrightarrow> acc'[m := y] ! u = acc ! u)"
      using a y(2) Suc.prems by (auto simp: less_Suc_eq)
    moreover have "bindR (idx acc' m) (\<lambda>x. bindR (h m x) (upd acc' m)) = Inr (acc'[m := y])"
      using a y(1) Suc.prems by (simp add: idx_def upd_def)
    ultimately show ?case using a(1,2) by (simp add: foldR_append)
  qed (use assms(2) in simp)
  from this [OF le_refl] show ?thesis by blast
qed

lemma scale_acc_phase:
  assumes "acc_ok s k acc" "valued s monomial X"
  shows "\<exists>acc'. scale_acc k monomial acc = Inr acc' \<and> acc_ok s k acc'
    \<and> (\<forall>j<ring_len s. phase k S acc' j mod ring_mod s = X j * phase k S acc j mod ring_mod s)"
proof -
  have "\<exists>y. Times (acc ! u) monomial = Inr y \<and> valued s y (\<lambda>j. pev (acc ! u) j * X j)" if "u < k" for u
    using valued_ops(3) [OF valued_pev assms(2), of "acc ! u"] assms(1) that by (simp add: acc_ok_def)
  then obtain acc' where a: "scale_acc k monomial acc = Inr acc'" "length acc' = k"
      "\<forall>u<k. valued s (acc' ! u) (\<lambda>j. pev (acc ! u) j * X j)"
    using foldR_update [of k "\<lambda>u x. Times x monomial" acc "\<lambda>u y. valued s y (\<lambda>j. pev (acc ! u) j * X j)"] assms(1)
    by (auto simp: scale_acc_def acc_ok_def)
  have "phase k S acc' j mod ring_mod s = X j * phase k S acc j mod ring_mod s" if "j < ring_len s" for j
  proof -
    have "phase k S acc' j mod ring_mod s = (\<Sum>u<k. (pev (acc ! u) j * X j) * S u j) mod ring_mod s"
      unfolding phase_def using a(3) that by (intro sum_mod_cong mod_mult_cong) (auto simp: valued_def)
    then show ?thesis by (simp add: phase_def sum_distrib_left mult_ac)
  qed
  then show ?thesis using a by (auto simp: acc_ok_def valued_def in_set_conv_nth)
qed

lemma add_acc_phase:
  assumes "acc_ok s k acc" "acc_ok s k tmp"
  shows "\<exists>acc'. add_acc k tmp acc = Inr acc' \<and> acc_ok s k acc'
    \<and> (\<forall>j<ring_len s. phase k S acc' j mod ring_mod s = (phase k S acc j + phase k S tmp j) mod ring_mod s)"
proof -
  have "\<exists>y. bindR (idx tmp u) (Plus (acc ! u)) = Inr y \<and> valued s y (\<lambda>j. pev (acc ! u) j + pev (tmp ! u) j)" if "u < k" for u
    using valued_ops(1) [OF valued_pev valued_pev, of s "acc ! u" "tmp ! u"] assms that by (simp add: acc_ok_def idx_def)
  then have "\<exists>acc'. foldR (\<lambda>u acc. bindR (idx acc u) (\<lambda>x. bindR (bindR (idx tmp u) (Plus x)) (upd acc u))) [0..<k] acc = Inr acc'
      \<and> length acc' = k \<and> (\<forall>u<k. valued s (acc' ! u) (\<lambda>j. pev (acc ! u) j + pev (tmp ! u) j))"
    using assms(1) by (intro foldR_update) (auto simp: acc_ok_def)
  moreover have "(\<lambda>u acc. bindR (idx acc u) (\<lambda>x. bindR (idx tmp u) (\<lambda>y. bindR (Plus x y) (upd acc u))))
      = (\<lambda>u acc. bindR (idx acc u) (\<lambda>x. bindR (bindR (idx tmp u) (Plus x)) (upd acc u)))"
    by (intro ext) (auto simp: idx_def)
  ultimately obtain acc' where a: "add_acc k tmp acc = Inr acc'" "length acc' = k"
      "\<forall>u<k. valued s (acc' ! u) (\<lambda>j. pev (acc ! u) j + pev (tmp ! u) j)"
    by (auto simp: add_acc_def)
  have "phase k S acc' j mod ring_mod s = (phase k S acc j + phase k S tmp j) mod ring_mod s" if "j < ring_len s" for j
  proof -
    have "phase k S acc' j mod ring_mod s = (\<Sum>u<k. (pev (acc ! u) j + pev (tmp ! u) j) * S u j) mod ring_mod s"
      unfolding phase_def using a(3) that by (intro sum_mod_cong mod_mult_cong) (auto simp: valued_def)
    then show ?thesis by (simp add: phase_def distrib_right sum.distrib)
  qed
  then show ?thesis using a by (auto simp: acc_ok_def valued_def in_set_conv_nth)
qed

text \<open>A step that adds the hybrid product of the scaled accumulator.\<close>

lemma accumulate_rotates:
  fixes U :: "'a::len uni_params"
  assumes "ready s" "gadget_ok s U g l" "up_k U = k" "index < k" "acc_ok s k acc" "keyed s g l k d f index Pkey H" "valued s monomial X"
  shows "\<exists>acc'. bindR (scale_acc k monomial acc) (\<lambda>tmp. bindR (HbProd arb U d f index Pkey tmp (fst s)) (\<lambda>(cache, tmp).
      bindR (add_acc k tmp acc) (\<lambda>acc. Inr (cache, acc)))) = Inr (fst s, acc')
    \<and> rotates s g l k H (\<lambda>j. 1 + X j * hy_M H j) acc acc'"
proof -
  let ?p = "phase k (hy_S H)" and ?q = "ring_mod s"
  obtain a1 where a1: "scale_acc k monomial acc = Inr a1" "acc_ok s k a1"
      "\<And>j. j < ring_len s \<Longrightarrow> ?p a1 j mod ?q = X j * ?p acc j mod ?q"
    using scale_acc_phase [OF assms(5,7), of "hy_S H"] by blast
  obtain a2 where a2: "HbProd arb U d f index Pkey a1 (fst s) = Inr (fst s, a2)" "rotates s g l k H (hy_M H) a1 a2"
    using HbProd_rotates [OF assms(1-4) a1(2) assms(6), of arb] by blast
  obtain \<eta> where n: "acc_ok s k a2" "noise_of s g l k H \<eta>"
      "\<And>j. j < ring_len s \<Longrightarrow> ?p a2 j mod ?q = (hy_M H j * ?p a1 j + \<eta> j) mod ?q"
    using a2(2) unfolding rotates_def by blast
  obtain a3 where a3: "add_acc k a2 acc = Inr a3" "acc_ok s k a3"
      "\<And>j. j < ring_len s \<Longrightarrow> ?p a3 j mod ?q = (?p acc j + ?p a2 j) mod ?q"
    using add_acc_phase [OF assms(5) n(1), of "hy_S H"] by blast
  have "?p a3 j mod ?q = ((1 + X j * hy_M H j) * ?p acc j + \<eta> j) mod ?q" if j: "j < ring_len s" for j
  proof -
    have "?p a3 j mod ?q = (?p acc j + (hy_M H j * ?p a1 j + \<eta> j)) mod ?q"
      using a3(3) [OF j] mod_add_cong [OF refl n(3) [OF j], of "?p acc j"] by simp
    also have "\<dots> = (?p acc j + (hy_M H j * (X j * ?p acc j) + \<eta> j)) mod ?q"
      using a1(3) [OF j] by (intro mod_add_cong mod_mult_cong) auto
    finally show ?thesis by (simp add: algebra_simps)
  qed
  then have "rotates s g l k H (\<lambda>j. 1 + X j * hy_M H j) acc a3" unfolding rotates_def using a3(2) n(2) by blast
  then show ?thesis using a1(1) a2(1) a3(1) by simp
qed

lemma rotates_cong:
  assumes "rotates s g l k H F acc acc'" "\<And>j. j < ring_len s \<Longrightarrow> F j mod ring_mod s = F' j mod ring_mod s"
  shows "rotates s g l k H F' acc acc'"
proof -
  have "(F j * p + n) mod ring_mod s = (F' j * p + n) mod ring_mod s" if "j < ring_len s" for j p n
    using assms(2) [OF that] by (intro mod_add_cong mod_mult_cong) auto
  then show ?thesis using assms(1) unfolding rotates_def by (metis (no_types))
qed

text \<open>What a step of the blind rotation needs besides the accumulator and the keys.\<close>

definition rotation_params :: "'a::len ring_state \<Rightarrow> 'a uni_params \<Rightarrow> nat \<Rightarrow> nat \<Rightarrow> nat \<Rightarrow> bool" where
  "rotation_params s U g l k \<longleftrightarrow> ready s \<and> gadget_ok s U g l \<and> up_k U = k \<and> monomials_ok s (up_monomials U)
     \<and> 2 * ring_len s < 2 ^ LENGTH('a)"

lemma AddToAccXZW_B_rotates:
  assumes P: "rotation_params s U g l k" "index < k" "unat c \<le> 2 * ring_len s" "acc_ok s k acc"
    and K: "ek_keyed s g l k ek index Pkey H" "\<And>j. hy_M H j = (if b then 1 else 0)"
  shows "\<exists>acc'. AddToAccXZW_B arb U (Some ek) c Pkey index acc (fst s) = Inr (fst s, acc')
    \<and> rotates s g l k H (\<lambda>j. point s j ^ (if b then unat c else 0)) acc acc'"
proof -
  have R: "ready s" "gadget_ok s U g l" "up_k U = k" "monomials_ok s (up_monomials U)" using P(1) by (simp_all add: rotation_params_def)
  note G = gadget_digits [OF R(2)]
  obtain p where p: "monomial_of U c = Inr p" "valued s p (\<lambda>j. point s j ^ unat c - 1)"
    using monomial_of_valued [OF R(2,1,4) P(3)] by blast
  obtain d f where df: "xzwB_rows (l - 1) ek 0 = Inr d" "xzwB_rows (l - 1) ek 1 = Inr f" "keyed s g l k d f index Pkey H"
    using xzwB_rows_keyed [OF K(1)] by blast
  obtain acc' where a: "bindR (scale_acc k p acc) (\<lambda>tmp. bindR (HbProd arb U d f index Pkey tmp (fst s)) (\<lambda>(cache, tmp).
      bindR (add_acc k tmp acc) (\<lambda>acc. Inr (cache, acc)))) = Inr (fst s, acc')"
      "rotates s g l k H (\<lambda>j. 1 + (point s j ^ unat c - 1) * hy_M H j) acc acc'"
    using accumulate_rotates [OF R(1-3) P(2,4) df(3) p(2), of arb] by blast
  have "AddToAccXZW_B arb U (Some ek) c Pkey index acc (fst s) = Inr (fst s, acc')"
    using p(1) df(1,2) a(1) R(3) G by (simp add: AddToAccXZW_B_def opt_def Let_def)
  moreover have "rotates s g l k H (\<lambda>j. point s j ^ (if b then unat c else 0)) acc acc'"
    by (rule rotates_cong [OF a(2)]) (simp add: K(2))
  ultimately show ?thesis by blast
qed

lemma ternary_factor:
  fixes a b sg :: int
  shows "1 + (a - 1) * ((if sg = 1 then 1 else 0) - b * (if sg = - 1 then 1 else 0))
    = (if sg = 1 then a else if sg = - 1 then b + (1 - a * b) else 1)"
  by (simp add: algebra_simps)

lemma AddToAccXZW_rotates:
  fixes sg :: int
  assumes P: "rotation_params s U g l k" "index < k" "unat c \<le> 2 * ring_len s" "acc_ok s k acc"
    and K: "ek_keyed s g l k ek1 index Pkey H1" "ek_keyed s g l k ek2 index Pkey H2" "same_parties H2 H1"
    and M: "\<And>j. hy_M H1 j = (if sg = 1 then 1 else 0)" "\<And>j. hy_M H2 j = (if sg = - 1 then 1 else 0)"
  shows "\<exists>acc'. AddToAccXZW arb U (Some ek1) (Some ek2) c Pkey index acc (fst s) = Inr (fst s, acc')
    \<and> rotates s g l k (combined 2 (\<lambda>t j. [1, - (point s j ^ (2 * ring_len s - unat c))] ! t) ((!) [H1, H2]))
        (\<lambda>j. point s j ^ (if sg = 1 then unat c else if sg = - 1 then 2 * ring_len s - unat c else 0)) acc acc'"
proof -
  have R: "ready s" "gadget_ok s U g l" "up_k U = k" "monomials_ok s (up_monomials U)" using P(1) by (simp_all add: rotation_params_def)
  note G = gadget_digits [OF R(2)]
  obtain p where p: "monomial_of U c = Inr p" "valued s p (\<lambda>j. point s j ^ unat c - 1)"
    using monomial_of_valued [OF R(2,1,4) P(3)] by blast
  obtain n where n: "monomialNeg_of U c = Inr n" "valued s n (\<lambda>j. point s j ^ (2 * ring_len s - unat c) - 1)"
    using monomialNeg_of_valued [OF R(2,1,4) P(3)] P(1) unfolding rotation_params_def by blast
  let ?H = "combined 2 (\<lambda>t j. [1, - (point s j ^ (2 * ring_len s - unat c))] ! t) ((!) [H1, H2])"
  obtain d f where df: "xzw_rows (l - 1) ek1 ek2 n 0 = Inr d" "xzw_rows (l - 1) ek1 ek2 n 1 = Inr f" "keyed s g l k d f index Pkey ?H"
    using xzw_rows_keyed [OF K n(2)] by auto
  obtain acc' where a: "bindR (scale_acc k p acc) (\<lambda>tmp. bindR (HbProd arb U d f index Pkey tmp (fst s)) (\<lambda>(cache, tmp).
      bindR (add_acc k tmp acc) (\<lambda>acc. Inr (cache, acc)))) = Inr (fst s, acc')"
      "rotates s g l k ?H (\<lambda>j. 1 + (point s j ^ unat c - 1) * hy_M ?H j) acc acc'"
    using accumulate_rotates [OF R(1-3) P(2,4) df(3) p(2), of arb] by blast
  have "AddToAccXZW arb U (Some ek1) (Some ek2) c Pkey index acc (fst s) = Inr (fst s, acc')"
    using p(1) n(1) df(1,2) a(1) R(3) G by (simp add: AddToAccXZW_def opt_def Let_def)
  moreover have "rotates s g l k ?H (\<lambda>j. point s j ^ (if sg = 1 then unat c else if sg = - 1 then 2 * ring_len s - unat c else 0)) acc acc'"
  proof (rule rotates_cong [OF a(2)])
    fix j assume j: "j < ring_len s"
    let ?x = "point s j" and ?M = "2 * ring_len s"
    have x: "?x ^ unat c * ?x ^ (?M - unat c) = ?x ^ ?M" using P(3) by (simp flip: power_add)
    have "hy_M ?H j = (if sg = 1 then 1 else 0) - ?x ^ (?M - unat c) * (if sg = - 1 then 1 else 0)"
      by (simp add: combined_def sum_two M)
    then have "1 + (?x ^ unat c - 1) * hy_M ?H j
        = (if sg = 1 then ?x ^ unat c else if sg = - 1 then ?x ^ (?M - unat c) + (1 - ?x ^ ?M) else 1)"
      by (simp only: ternary_factor x)
    moreover have "(?x ^ (?M - unat c) + (1 - ?x ^ ?M)) mod ring_mod s = (?x ^ (?M - unat c) + (1 - 1)) mod ring_mod s"
      by (intro mod_add_cong mod_diff_cong point_order(2) [OF R(1) j] refl)
    ultimately show "(1 + (?x ^ unat c - 1) * hy_M ?H j) mod ring_mod s
        = ?x ^ (if sg = 1 then unat c else if sg = - 1 then ?M - unat c else 0) mod ring_mod s" by simp
  qed
  ultimately show ?thesis by blast
qed

lemma AddToAccXZW0_B_rotates:
  assumes P: "rotation_params s U g l k" "index < k" "unat c \<le> 2 * ring_len s" "acc_ok s k acc"
    and K: "ek_keyed s g l k eks index Pkey Hs" "ek_keyed s g l k ek index Pkey H" "same_parties H Hs"
    and M: "\<And>j. hy_M H j = (if b then hy_M Hs j else 0)"
  shows "\<exists>acc'. AddToAccXZW0_B arb U (Some eks) (Some ek) c Pkey index acc (fst s) = Inr (fst s, acc')
    \<and> rotates s g l k (combined 2 (\<lambda>t j. [1, point s j ^ unat c - 1] ! t) ((!) [Hs, H]))
        (\<lambda>j. hy_M Hs j * point s j ^ (if b then unat c else 0)) acc acc'"
proof -
  have R: "ready s" "gadget_ok s U g l" "up_k U = k" "monomials_ok s (up_monomials U)" using P(1) by (simp_all add: rotation_params_def)
  note G = gadget_digits [OF R(2)]
  obtain p where p: "monomial_of U c = Inr p" "valued s p (\<lambda>j. point s j ^ unat c - 1)"
    using monomial_of_valued [OF R(2,1,4) P(3)] by blast
  let ?H = "combined 2 (\<lambda>t j. [1, point s j ^ unat c - 1] ! t) ((!) [Hs, H])"
  obtain d f where df: "xzwB0_rows (l - 1) eks ek p 0 = Inr d" "xzwB0_rows (l - 1) eks ek p 1 = Inr f" "keyed s g l k d f index Pkey ?H"
    using xzwB0_rows_keyed [OF K p(2)] by blast
  obtain acc' where a: "HbProd arb U d f index Pkey acc (fst s) = Inr (fst s, acc')" "rotates s g l k ?H (hy_M ?H) acc acc'"
    using HbProd_rotates [OF R(1-3) P(2,4) df(3), of arb] by blast
  have "hy_M ?H j = hy_M Hs j * point s j ^ (if b then unat c else 0)" for j
    by (simp add: combined_def sum_two M algebra_simps)
  then have "rotates s g l k ?H (\<lambda>j. hy_M Hs j * point s j ^ (if b then unat c else 0)) acc acc'"
    by (intro rotates_cong [OF a(2)]) simp
  moreover have "AddToAccXZW0_B arb U (Some eks) (Some ek) c Pkey index acc (fst s) = Inr (fst s, acc')"
    using p(1) df(1,2) a(1) G by (simp add: AddToAccXZW0_B_def opt_def Let_def)
  ultimately show ?thesis by blast
qed

lemma AddToAccXZW0_rotates:
  fixes sg :: int
  assumes P: "rotation_params s U g l k" "index < k" "unat c \<le> 2 * ring_len s" "acc_ok s k acc"
    and K: "ek_keyed s g l k eks index Pkey Hs" "ek_keyed s g l k ek1 index Pkey H1" "ek_keyed s g l k ek2 index Pkey H2"
      "same_parties H1 Hs" "same_parties H2 Hs"
    and M: "\<And>j. hy_M H1 j = (if sg = 1 then hy_M Hs j else 0)" "\<And>j. hy_M H2 j = (if sg = - 1 then hy_M Hs j else 0)"
  shows "\<exists>acc'. AddToAccXZW0 arb U (Some eks) (Some ek1) (Some ek2) c Pkey index acc (fst s) = Inr (fst s, acc')
    \<and> rotates s g l k (combined 3 (\<lambda>t j. [1, point s j ^ unat c - 1, point s j ^ (2 * ring_len s - unat c) - 1] ! t) ((!) [Hs, H1, H2]))
        (\<lambda>j. hy_M Hs j * point s j ^ (if sg = 1 then unat c else if sg = - 1 then 2 * ring_len s - unat c else 0)) acc acc'"
proof -
  have R: "ready s" "gadget_ok s U g l" "up_k U = k" "monomials_ok s (up_monomials U)" using P(1) by (simp_all add: rotation_params_def)
  note G = gadget_digits [OF R(2)]
  obtain p where p: "monomial_of U c = Inr p" "valued s p (\<lambda>j. point s j ^ unat c - 1)"
    using monomial_of_valued [OF R(2,1,4) P(3)] by blast
  obtain n where n: "monomialNeg_of U c = Inr n" "valued s n (\<lambda>j. point s j ^ (2 * ring_len s - unat c) - 1)"
    using monomialNeg_of_valued [OF R(2,1,4) P(3)] P(1) unfolding rotation_params_def by blast
  let ?H = "combined 3 (\<lambda>t j. [1, point s j ^ unat c - 1, point s j ^ (2 * ring_len s - unat c) - 1] ! t) ((!) [Hs, H1, H2])"
  obtain d f where df: "xzw0_rows (l - 1) eks ek1 ek2 p n 0 = Inr d" "xzw0_rows (l - 1) eks ek1 ek2 p n 1 = Inr f"
      "keyed s g l k d f index Pkey ?H"
    using xzw0_rows_keyed [OF K p(2) n(2)] by blast
  obtain acc' where a: "HbProd arb U d f index Pkey acc (fst s) = Inr (fst s, acc')" "rotates s g l k ?H (hy_M ?H) acc acc'"
    using HbProd_rotates [OF R(1-3) P(2,4) df(3), of arb] by blast
  have "hy_M ?H j = hy_M Hs j * point s j ^ (if sg = 1 then unat c else if sg = - 1 then 2 * ring_len s - unat c else 0)" for j
    by (simp add: combined_def sum_three M algebra_simps)
  then have "rotates s g l k ?H
      (\<lambda>j. hy_M Hs j * point s j ^ (if sg = 1 then unat c else if sg = - 1 then 2 * ring_len s - unat c else 0)) acc acc'"
    by (intro rotates_cong [OF a(2)]) simp
  moreover have "AddToAccXZW0 arb U (Some eks) (Some ek1) (Some ek2) c Pkey index acc (fst s) = Inr (fst s, acc')"
    using p(1) n(1) df(1,2) a(1) G by (simp add: AddToAccXZW0_def opt_def Let_def)
  ultimately show ?thesis by blast
qed

section \<open>The blind rotation\<close>

lemma rotation_fold:
  assumes "\<And>x acc. x \<in> set xs \<Longrightarrow> acc_ok s k acc \<Longrightarrow> \<exists>acc'. f x (c, acc) = Inr (c, acc') \<and> rotates s g l k (H x) (F x) acc acc'"
    and "\<And>x. x \<in> set xs \<Longrightarrow> hy_S (H x) = S" and "acc_ok s k acc"
  shows "\<exists>acc' \<eta>. foldR f xs (c, acc) = Inr (c, acc') \<and> acc_ok s k acc' \<and> (\<forall>t<length xs. noise_of s g l k (H (xs ! t)) (\<eta> t))
    \<and> (\<forall>j<ring_len s. phase k S acc' j mod ring_mod s = (prod_list (map (\<lambda>x. F x j) xs) * phase k S acc j
         + (\<Sum>t<length xs. prod_list (map (\<lambda>x. F x j) (drop (Suc t) xs)) * \<eta> t j)) mod ring_mod s)"
  using assms
proof (induction xs arbitrary: acc)
  case Nil
  then show ?case by simp
next
  case (Cons x xs)
  let ?q = "ring_mod s"
  obtain a1 \<eta>1 where a1: "f x (c, acc) = Inr (c, a1)" "acc_ok s k a1" "noise_of s g l k (H x) \<eta>1"
      "\<And>j. j < ring_len s \<Longrightarrow> phase k S a1 j mod ?q = (F x j * phase k S acc j + \<eta>1 j) mod ?q"
    using Cons.prems(1) [of x acc] Cons.prems(2) [of x] Cons.prems(3) unfolding rotates_def by auto
  obtain acc' \<eta> where a: "foldR f xs (c, a1) = Inr (c, acc')" "acc_ok s k acc'" "\<forall>t<length xs. noise_of s g l k (H (xs ! t)) (\<eta> t)"
      "\<And>j. j < ring_len s \<Longrightarrow> phase k S acc' j mod ?q = (prod_list (map (\<lambda>x. F x j) xs) * phase k S a1 j
         + (\<Sum>t<length xs. prod_list (map (\<lambda>x. F x j) (drop (Suc t) xs)) * \<eta> t j)) mod ?q"
    using Cons.IH [OF Cons.prems(1,2) a1(2)] by auto
  define \<eta>' where "\<eta>' t = (case t of 0 \<Rightarrow> \<eta>1 | Suc t \<Rightarrow> \<eta> t)" for t
  have "\<forall>t<length (x # xs). noise_of s g l k (H ((x # xs) ! t)) (\<eta>' t)"
    using a1(3) a(3) by (auto simp: \<eta>'_def nth_Cons split: nat.split)
  moreover have "phase k S acc' j mod ?q = (prod_list (map (\<lambda>x. F x j) (x # xs)) * phase k S acc j
         + (\<Sum>t<length (x # xs). prod_list (map (\<lambda>x. F x j) (drop (Suc t) (x # xs))) * \<eta>' t j)) mod ?q" if j: "j < ring_len s" for j
  proof -
    let ?P = "prod_list (map (\<lambda>x. F x j) xs)" and ?N = "\<Sum>t<length xs. prod_list (map (\<lambda>x. F x j) (drop (Suc t) xs)) * \<eta> t j"
    have "phase k S acc' j mod ?q = (?P * (F x j * phase k S acc j + \<eta>1 j) + ?N) mod ?q"
      unfolding a(4) [OF j] by (intro mod_add_cong mod_mult_cong a1(4) [OF j] refl)
    moreover have "(\<Sum>t<length (x # xs). prod_list (map (\<lambda>x. F x j) (drop (Suc t) (x # xs))) * \<eta>' t j) = ?P * \<eta>1 j + ?N"
      by (simp add: sum.lessThan_Suc_shift \<eta>'_def del: sum.lessThan_Suc)
    ultimately show ?thesis by (simp add: algebra_simps)
  qed
  moreover have "foldR f (x # xs) (c, acc) = Inr (c, acc')" using a1(1) a(1) by simp
  ultimately show ?case using a(2) by blast
qed

text \<open>The phase after a rotation by the exponents \<open>e\<close>, with the noises of the steps.\<close>

definition rotated_phase ::
  "'a::len ring_state \<Rightarrow> ('x \<Rightarrow> nat) \<Rightarrow> 'x list \<Rightarrow> (nat \<Rightarrow> int) \<Rightarrow> (nat \<Rightarrow> nat \<Rightarrow> int) \<Rightarrow> nat \<Rightarrow> int" where
  "rotated_phase s e xs p \<eta> j = point s j ^ sum_list (map e xs) * p j
     + (\<Sum>t<length xs. point s j ^ sum_list (map e (drop (Suc t) xs)) * \<eta> t j)"

lemma rotation_run:
  assumes "\<And>x acc. x \<in> set (z # xs) \<Longrightarrow> acc_ok s k acc \<Longrightarrow> \<exists>acc'. f x (c, acc) = Inr (c, acc')
      \<and> rotates s g l k (H x) (\<lambda>j. (if x = z then V j else 1) * point s j ^ e x) acc acc'"
    and "\<And>x. x \<in> set (z # xs) \<Longrightarrow> hy_S (H x) = S" and "acc_ok s k acc" and z: "z \<notin> set xs"
  shows "\<exists>acc' \<eta>. foldR f (z # xs) (c, acc) = Inr (c, acc') \<and> acc_ok s k acc'
    \<and> (\<forall>t<length (z # xs). noise_of s g l k (H ((z # xs) ! t)) (\<eta> t))
    \<and> (\<forall>j<ring_len s. phase k S acc' j mod ring_mod s
         = rotated_phase s e (z # xs) (\<lambda>j. V j * phase k S acc j) \<eta> j mod ring_mod s)"
proof -
  let ?F = "\<lambda>x j. (if x = z then V j else 1) * point s j ^ e x"
  have tail: "prod_list (map (\<lambda>x. ?F x j) ys) = point s j ^ sum_list (map e ys)" if "set ys \<subseteq> set xs" for ys j
    using that z by (induction ys) (auto simp: power_add)
  have head: "prod_list (map (\<lambda>x. ?F x j) (z # xs)) = V j * point s j ^ sum_list (map e (z # xs))" for j
    using tail [of xs j] by (simp add: power_add)
  have "set (drop (Suc t) (z # xs)) \<subseteq> set xs" for t using set_drop_subset [of t xs] by simp
  note sub = this
  have R: "prod_list (map (\<lambda>x. ?F x j) (z # xs)) * phase k S acc j
      + (\<Sum>t<length (z # xs). prod_list (map (\<lambda>x. ?F x j) (drop (Suc t) (z # xs))) * \<eta> t j)
      = rotated_phase s e (z # xs) (\<lambda>j. V j * phase k S acc j) \<eta> j" for \<eta> j
    unfolding head rotated_phase_def by (simp only: tail [OF sub]) (simp only: mult_ac)
  show ?thesis using rotation_fold [where xs = "z # xs" and f = f and H = H and F = ?F, OF assms(1-3)] unfolding R .
qed

lemma product_Cons:
  assumes "0 < k" "0 < n"
  obtains xs where "List.product [0..<k] [0..<n] = (0, 0) # xs" "(0, 0) \<notin> set xs" "length ((0, 0) # xs) = k * n"
proof -
  have "List.product [0..<k] [0..<n] \<noteq> []" "hd (List.product [0..<k] [0..<n]) = (0, 0)"
    using assms by (simp_all add: upt_conv_Cons)
  then obtain xs where xs: "List.product [0..<k] [0..<n] = (0, 0) # xs" by (metis list.collapse)
  then have "distinct ((0, 0) # xs)" using distinct_product [of "[0..<k]" "[0..<n]"] by simp
  moreover have "length ((0, 0) # xs) = k * n" unfolding xs [symmetric] by simp
  ultimately show thesis using that xs by simp
qed

text \<open>
  The keys of a blind rotation with binary secrets \<open>b\<close>: the key of every secret encrypts it under its
  party, the first one and \<open>evk*\<close> with the factor that \<open>evk*\<close> encrypts.
\<close>

definition binary_keys ::
  "'a::len ring_state \<Rightarrow> nat \<Rightarrow> nat \<Rightarrow> nat \<Rightarrow> nat \<Rightarrow> 'a acckey \<Rightarrow> 'a poly list list \<Rightarrow> (nat \<Rightarrow> nat \<Rightarrow> bool) \<Rightarrow> hybrid
     \<Rightarrow> (nat \<Rightarrow> nat \<Rightarrow> hybrid) \<Rightarrow> bool" where
  "binary_keys s g l k n ek Pkey b Hs H \<longleftrightarrow>
     (\<exists>e. key_at ek 0 0 n = Inr (Some e) \<and> ek_keyed s g l k e 0 Pkey Hs)
     \<and> (\<forall>u<k. \<forall>i<n. (\<exists>e. key_at ek u 0 i = Inr (Some e) \<and> ek_keyed s g l k e u Pkey (H u i)) \<and> same_parties (H u i) Hs
          \<and> (\<forall>j. hy_M (H u i) j = (if b u i then if u = 0 \<and> i = 0 then hy_M Hs j else 1 else 0)))"

definition binary_step_key :: "'a::len ring_state \<Rightarrow> 'a nvec list \<Rightarrow> hybrid \<Rightarrow> (nat \<Rightarrow> nat \<Rightarrow> hybrid) \<Rightarrow> nat \<times> nat \<Rightarrow> hybrid" where
  "binary_step_key s ct Hs H x =
     (if x = (0, 0) then combined 2 (\<lambda>t j. [1, point s j ^ unat (m_data (ct ! 0) ! 0) - 1] ! t) ((!) [Hs, H 0 0])
      else H (fst x) (snd x))"

definition exponents_ok :: "'a::len ring_state \<Rightarrow> nat \<Rightarrow> nat \<Rightarrow> 'a nvec list \<Rightarrow> bool" where
  "exponents_ok s k n ct \<longleftrightarrow> length ct = k \<and> 0 < k \<and> 0 < n
     \<and> (\<forall>u<k. length (m_data (ct ! u)) = n \<and> (\<forall>i<n. unat (m_data (ct ! u) ! i) \<le> 2 * ring_len s))"

text \<open>The blind rotation with binary secrets runs without error, keeps the accumulator well-formed and
  multiplies its joint phase by \<open>X\<close> to the inner product of the exponents with the secrets and by the
  message of \<open>evk*\<close>, up to the noises of its steps, which the following steps rotate.
\<close>

lemma EvalAcc_B_rotates:
  fixes U :: "'a::len uni_params"
  assumes P: "rotation_params s U g l k" and K: "binary_keys s g l k n ek Pkey b Hs H" and A: "acc_ok s k acc"
    and E: "exponents_ok s k n ct"
  shows "let xs = List.product [0..<k] [0..<n]; e = \<lambda>(u, i). if b u i then unat (m_data (ct ! u) ! i) else 0 in
    \<exists>acc' \<eta>. EvalAcc_B arb U ek Pkey ct acc (fst s) = Inr (fst s, acc') \<and> acc_ok s k acc'
      \<and> (\<forall>t<k * n. noise_of s g l k (binary_step_key s ct Hs H (xs ! t)) (\<eta> t))
      \<and> (\<forall>j<ring_len s. phase k (hy_S Hs) acc' j mod ring_mod s
           = rotated_phase s e xs (\<lambda>j. hy_M Hs j * phase k (hy_S Hs) acc j) \<eta> j mod ring_mod s)"
proof -
  have ct: "length ct = k" "0 < k" "0 < n" "\<And>u. u < k \<Longrightarrow> length (m_data (ct ! u)) = n"
      "\<And>u i. u < k \<Longrightarrow> i < n \<Longrightarrow> unat (m_data (ct ! u) ! i) \<le> 2 * ring_len s"
    using E by (simp_all add: exponents_ok_def)
  obtain xs where xs: "List.product [0..<k] [0..<n] = (0, 0) # xs" "(0, 0) \<notin> set xs" "length ((0, 0) # xs) = k * n"
    using product_Cons [OF ct(2,3)] .
  let ?e = "\<lambda>(u, i). if b u i then unat (m_data (ct ! u) ! i) else 0" and ?H = "binary_step_key s ct Hs H"
  let ?f = "\<lambda>(u, i) (cache, acc). bindR (key_at ek u 0 i) (\<lambda>k0. bindR (bindR (idx ct u) (\<lambda>c. idx (m_data c) i)) (\<lambda>c.
           if u = 0 \<and> i = 0
           then bindR (key_at ek u 0 n) (\<lambda>star. AddToAccXZW0_B arb U star k0 c Pkey u acc cache)
           else AddToAccXZW_B arb U k0 c Pkey u acc cache))"
  have "\<exists>acc'. ?f x (fst s, acc) = Inr (fst s, acc')
      \<and> rotates s g l k (?H x) (\<lambda>j. (if x = (0, 0) then hy_M Hs j else 1) * point s j ^ ?e x) acc acc'"
    if x: "x \<in> set ((0, 0) # xs)" and acc: "acc_ok s k acc" for x acc
  proof -
    obtain u i where ui: "x = (u, i)" by (cases x)
    have lt: "u < k" "i < n" using x unfolding ui xs(1) [symmetric] by simp_all
    obtain eu where eu: "key_at ek u 0 i = Inr (Some eu)" "ek_keyed s g l k eu u Pkey (H u i)" "same_parties (H u i) Hs"
        "\<And>j. hy_M (H u i) j = (if b u i then if u = 0 \<and> i = 0 then hy_M Hs j else 1 else 0)"
      using K lt unfolding binary_keys_def by blast
    have c: "bindR (idx ct u) (\<lambda>c. idx (m_data c) i) = Inr (m_data (ct ! u) ! i)" using ct lt by (simp add: idx_def)
    show ?thesis
    proof (cases "u = 0 \<and> i = 0")
      case True
      obtain es where es: "key_at ek 0 0 n = Inr (Some es)" "ek_keyed s g l k es 0 Pkey Hs" using K unfolding binary_keys_def by blast
      from True have z: "u = 0" "i = 0" by simp_all
      have M: "hy_M (H 0 0) j = (if b 0 0 then hy_M Hs j else 0)" for j using eu(4) [unfolded z] by simp
      show ?thesis
        using AddToAccXZW0_B_rotates [OF P ct(2) ct(5) [OF ct(2,3)] acc es(2) eu(2,3) [unfolded z] M, where arb = arb]
          es(1) eu(1) c by (simp add: binary_step_key_def ui z)
    next
      case False
      then show ?thesis
        using AddToAccXZW_B_rotates [OF P lt(1) ct(5) [OF lt] acc eu(2), where arb = arb and b = "b u i"] eu(1,4) c ui
        by (auto simp: binary_step_key_def)
    qed
  qed
  moreover have "hy_S (?H x) = hy_S Hs" if "x \<in> set ((0, 0) # xs)" for x
  proof -
    have "fst x < k" "snd x < n" using that unfolding xs(1) [symmetric] by auto
    then show ?thesis using K by (auto simp: binary_keys_def binary_step_key_def same_parties_def combined_def)
  qed
  moreover have "EvalAcc_B arb U ek Pkey ct acc (fst s) = foldR ?f ((0, 0) # xs) (fst s, acc)"
    using ct by (simp add: EvalAcc_B_def idx_def xs(1))
  ultimately show ?thesis
    using rotation_run [of "(0, 0)" xs s k ?f "fst s" g l ?H "hy_M Hs" ?e "hy_S Hs" acc] A xs by (simp add: Let_def)
qed

text \<open>The exponent \<open>x * 2 * N / q\<close> of the ternary variant, as long as the product fits in a word.\<close>

lemma scaled_exponent_value:
  fixes U :: "'a::len uni_params"
  assumes "gadget_ok s U g l" "ready s" "u < length ct" "i < length (m_data (ct ! u))" "md \<noteq> 0"
    and "unat (m_data (ct ! u) ! i) < unat md" "unat md * (2 * ring_len s) < 2 ^ LENGTH('a)"
  shows "\<exists>c. scaled_exponent U ct md u i = Inr c \<and> unat c = unat (m_data (ct ! u) ! i) * (2 * ring_len s) div unat md
    \<and> unat c \<le> 2 * ring_len s"
proof -
  let ?x = "m_data (ct ! u) ! i" and ?N = "ring_len s"
  note N = two_N [OF assms(1,2)]
  have U: "unat (up_N U) = ?N"
  proof -
    obtain c L P where s: "s = (c, L, P)" by (cases s) auto
    have "L \<le> 24" using assms(2) ring_paramsD(4) [of L P] by (simp add: ready_def s)
    then show ?thesis using assms(1) unat_power2 [of L] by (simp add: gadget_ok_def s ring_len_def)
  qed
  have md: "0 < unat md" using assms(5) by (simp add: unat_gt_0)
  have xm: "unat ?x * (2 * ?N) < unat md * (2 * ?N)" using assms(6) N(3) by simp
  have le: "unat ?x * 2 * ?N < 2 ^ LENGTH('a)" "unat ?x * 2 < 2 ^ LENGTH('a)" "?N < 2 ^ LENGTH('a)" "2 < (2 :: nat) ^ LENGTH('a)"
  proof -
    show 1: "unat ?x * 2 * ?N < 2 ^ LENGTH('a)" using less_trans [OF xm assms(7)] by (simp add: mult.assoc)
    show "unat ?x * 2 < 2 ^ LENGTH('a)" using 1 N(3) by (metis le_less_trans mult.right_neutral mult_le_mono2 One_nat_def Suc_leI)
    have "1 * (2 * ?N) \<le> unat md * (2 * ?N)" using md by (intro mult_le_mono) simp_all
    from le_less_trans [OF this assms(7)] show "?N < 2 ^ LENGTH('a)" "2 < (2 :: nat) ^ LENGTH('a)" using N(3) by simp_all
  qed
  have "unat (ucast (up_N U) :: 'a word) = ?N" using U le(3) by (simp add: unsigned_ucast_eq take_bit_eq_mod)
  moreover define y where "y = MulFast ?x 2"
  have "unat y = unat ?x * 2"
    using le(2,4) by (simp add: y_def MulFast_def unat_word_ariths take_bit_eq_mod mult.commute)
  ultimately have "unat (MulFast (MulFast ?x 2) (ucast (up_N U))) = unat ?x * (2 * ?N)"
    unfolding y_def [symmetric] using le(1) by (simp add: MulFast_def unat_word_ariths mult_ac)
  moreover have "unat ?x * (2 * ?N) div unat md \<le> 2 * ?N"
    using xm md by (simp add: less_imp_le less_mult_imp_div_less mult.commute)
  ultimately show ?thesis
    using assms(3-5) by (simp add: scaled_exponent_def idx_def DividedBy_def unat_div)
qed

text \<open>The keys of a blind rotation with ternary secrets \<open>sg\<close>: one key for each sign.\<close>

definition ternary_keys ::
  "'a::len ring_state \<Rightarrow> nat \<Rightarrow> nat \<Rightarrow> nat \<Rightarrow> nat \<Rightarrow> 'a acckey \<Rightarrow> 'a poly list list \<Rightarrow> (nat \<Rightarrow> nat \<Rightarrow> int) \<Rightarrow> hybrid
     \<Rightarrow> (nat \<Rightarrow> nat \<Rightarrow> nat \<Rightarrow> hybrid) \<Rightarrow> bool" where
  "ternary_keys s g l k n ek Pkey sg Hs H \<longleftrightarrow>
     (\<exists>e. key_at ek 0 0 n = Inr (Some e) \<and> ek_keyed s g l k e 0 Pkey Hs)
     \<and> (\<forall>u<k. \<forall>i<n. \<forall>b<2. (\<exists>e. key_at ek u b i = Inr (Some e) \<and> ek_keyed s g l k e u Pkey (H b u i)) \<and> same_parties (H b u i) Hs
          \<and> (\<forall>j. hy_M (H b u i) j = (if sg u i = (if b = 0 then 1 else - 1) then if u = 0 \<and> i = 0 then hy_M Hs j else 1 else 0)))"

definition ternary_step_key ::
  "'a::len ring_state \<Rightarrow> (nat \<Rightarrow> nat \<Rightarrow> nat) \<Rightarrow> hybrid \<Rightarrow> (nat \<Rightarrow> nat \<Rightarrow> nat \<Rightarrow> hybrid) \<Rightarrow> nat \<times> nat \<Rightarrow> hybrid" where
  "ternary_step_key s c Hs H x =
     (case x of (u, i) \<Rightarrow>
        if u = 0 \<and> i = 0
        then combined 3 (\<lambda>t j. [1, point s j ^ c 0 0 - 1, point s j ^ (2 * ring_len s - c 0 0) - 1] ! t) ((!) [Hs, H 0 0 0, H 1 0 0])
        else combined 2 (\<lambda>t j. [1, - (point s j ^ (2 * ring_len s - c u i))] ! t) ((!) [H 0 u i, H 1 u i]))"

text \<open>Ciphertexts modulo \<open>q\<close> whose entries can be scaled to \<open>2 * N\<close> in a word.\<close>

definition scalable :: "'a::len ring_state \<Rightarrow> nat \<Rightarrow> nat \<Rightarrow> 'a nvec list \<Rightarrow> bool" where
  "scalable s k n ct \<longleftrightarrow> length ct = k \<and> 0 < k \<and> 0 < n \<and> m_modulus (ct ! 0) \<noteq> 0
     \<and> unat (m_modulus (ct ! 0)) * (2 * ring_len s) < 2 ^ LENGTH('a)
     \<and> (\<forall>u<k. length (m_data (ct ! u)) = n \<and> (\<forall>i<n. unat (m_data (ct ! u) ! i) < unat (m_modulus (ct ! 0))))"

text \<open>The blind rotation with ternary secrets runs without error, keeps the accumulator well-formed and
  multiplies its joint phase by the message of \<open>evk*\<close> and by \<open>X\<close> to the inner product of the secrets with
  the ciphertext entries, scaled from \<open>q\<close> to \<open>2 * N\<close> and rounded down, up to the noises of its steps.
\<close>

lemma EvalAcc_rotates:
  fixes U :: "'a::len uni_params"
  assumes P: "rotation_params s U g l k" and K: "ternary_keys s g l k n ek Pkey sg Hs H" and A: "acc_ok s k acc"
    and E: "scalable s k n ct"
  shows "let xs = List.product [0..<k] [0..<n];
      c = \<lambda>u i. unat (m_data (ct ! u) ! i) * (2 * ring_len s) div unat (m_modulus (ct ! 0));
      e = \<lambda>(u, i). if sg u i = 1 then c u i else if sg u i = - 1 then 2 * ring_len s - c u i else 0 in
    \<exists>acc' \<eta>. EvalAcc arb U ek Pkey ct acc (fst s) = Inr (fst s, acc') \<and> acc_ok s k acc'
      \<and> (\<forall>t<k * n. noise_of s g l k (ternary_step_key s c Hs H (xs ! t)) (\<eta> t))
      \<and> (\<forall>j<ring_len s. phase k (hy_S Hs) acc' j mod ring_mod s
           = rotated_phase s e xs (\<lambda>j. hy_M Hs j * phase k (hy_S Hs) acc j) \<eta> j mod ring_mod s)"
proof -
  have R: "ready s" "gadget_ok s U g l" using P by (simp_all add: rotation_params_def)
  let ?md = "m_modulus (ct ! 0)"
  have ct: "length ct = k" "0 < k" "0 < n" "\<And>u. u < k \<Longrightarrow> length (m_data (ct ! u)) = n" using E by (simp_all add: scalable_def)
  define c where "c u i = unat (m_data (ct ! u) ! i) * (2 * ring_len s) div unat ?md" for u i
  have ce: "\<exists>w. scaled_exponent U ct ?md u i = Inr w \<and> unat w = c u i \<and> unat w \<le> 2 * ring_len s" if "u < k" "i < n" for u i
    unfolding c_def using E that by (intro scaled_exponent_value [OF R(2,1)]) (simp_all add: scalable_def)
  obtain xs where xs: "List.product [0..<k] [0..<n] = (0, 0) # xs" "(0, 0) \<notin> set xs" "length ((0, 0) # xs) = k * n"
    using product_Cons [OF ct(2,3)] .
  let ?e = "\<lambda>(u, i). if sg u i = 1 then c u i else if sg u i = - 1 then 2 * ring_len s - c u i else 0"
    and ?H = "ternary_step_key s c Hs H"
  let ?f = "\<lambda>(u, i) (cache, acc). bindR (key_at ek u 0 i) (\<lambda>k0. bindR (key_at ek u 1 i) (\<lambda>k1.
           bindR (scaled_exponent U ct ?md u i) (\<lambda>c.
           if u = 0 \<and> i = 0
           then bindR (key_at ek u 0 n) (\<lambda>star. AddToAccXZW0 arb U star k0 k1 c Pkey u acc cache)
           else AddToAccXZW arb U k0 k1 c Pkey u acc cache)))"
  have key: "\<exists>e. key_at ek u b i = Inr (Some e) \<and> ek_keyed s g l k e u Pkey (H b u i)" "same_parties (H b u i) Hs"
      "hy_M (H b u i) j = (if sg u i = (if b = 0 then 1 else - 1) then if u = 0 \<and> i = 0 then hy_M Hs j else 1 else 0)"
    if "u < k" "i < n" "b < 2" for u i b j
    using K that unfolding ternary_keys_def by blast+
  have step: "\<exists>acc'. ?f (u, i) (fst s, acc) = Inr (fst s, acc')
      \<and> rotates s g l k (?H (u, i)) (\<lambda>j. (if (u, i) = (0, 0) then hy_M Hs j else 1) * point s j ^ ?e (u, i)) acc acc'"
    if lt: "u < k" "i < n" and acc: "acc_ok s k acc" for u i acc
  proof -
    obtain w where w: "scaled_exponent U ct ?md u i = Inr w" "unat w = c u i" "unat w \<le> 2 * ring_len s" using ce [OF lt] by blast
    obtain e0 where e0: "key_at ek u 0 i = Inr (Some e0)" "ek_keyed s g l k e0 u Pkey (H 0 u i)" using key(1) [OF lt, of 0] by auto
    obtain e1 where e1: "key_at ek u 1 i = Inr (Some e1)" "ek_keyed s g l k e1 u Pkey (H 1 u i)" using key(1) [OF lt, of 1] by auto
    have S: "same_parties (H 0 u i) Hs" "same_parties (H 1 u i) Hs" using key(2) [OF lt] by simp_all
    have M: "hy_M (H 0 u i) j = (if sg u i = 1 then if u = 0 \<and> i = 0 then hy_M Hs j else 1 else 0)"
        "hy_M (H 1 u i) j = (if sg u i = - 1 then if u = 0 \<and> i = 0 then hy_M Hs j else 1 else 0)" for j
      using key(3) [OF lt, of 0 j] key(3) [OF lt, of 1 j] by simp_all
    show ?thesis
    proof (cases "u = 0 \<and> i = 0")
      case True
      obtain es where es: "key_at ek 0 0 n = Inr (Some es)" "ek_keyed s g l k es 0 Pkey Hs" using K unfolding ternary_keys_def by blast
      have z: "u = 0" "i = 0" using True by simp_all
      have M0: "hy_M (H 0 0 0) j = (if sg 0 0 = 1 then hy_M Hs j else 0)" "hy_M (H 1 0 0) j = (if sg 0 0 = - 1 then hy_M Hs j else 0)" for j
        using M [unfolded z, of j] by simp_all
      show ?thesis
        using AddToAccXZW0_rotates [OF P ct(2) w(3) acc es(2) e0(2) [unfolded z] e1(2) [unfolded z] S [unfolded z] M0, where arb = arb]
          es(1) e0(1) e1(1) w(1,2) by (simp add: ternary_step_key_def z cong: if_cong)
    next
      case False
      have M1: "hy_M (H 0 u i) j = (if sg u i = 1 then 1 else 0)" "hy_M (H 1 u i) j = (if sg u i = - 1 then 1 else 0)" for j
        using M [of j] False by auto
      have "same_parties (H 1 u i) (H 0 u i)" using S by (simp add: same_parties_def)
      then show ?thesis
        using AddToAccXZW_rotates [OF P lt(1) w(3) acc e0(2) e1(2) _ M1, where arb = arb] e0(1) e1(1) w(1,2) False
        by (auto simp: ternary_step_key_def cong: if_cong)
    qed
  qed
  have "hy_S (?H (u, i)) = hy_S Hs" if "u < k" "i < n" for u i
    using key(2) [OF that, of 0] key(2) [OF ct(2,3), of 0] by (simp add: ternary_step_key_def same_parties_def combined_def)
  then have "hy_S (?H x) = hy_S Hs" if "x \<in> set ((0, 0) # xs)" for x
    using that unfolding xs(1) [symmetric] by (cases x) simp
  moreover have "\<exists>acc'. ?f x (fst s, acc) = Inr (fst s, acc')
      \<and> rotates s g l k (?H x) (\<lambda>j. (if x = (0, 0) then hy_M Hs j else 1) * point s j ^ ?e x) acc acc'"
    if "x \<in> set ((0, 0) # xs)" "acc_ok s k acc" for x acc
    using step [of "fst x" "snd x" acc] that unfolding xs(1) [symmetric] by (cases x) simp
  moreover have "EvalAcc arb U ek Pkey ct acc (fst s) = foldR ?f ((0, 0) # xs) (fst s, acc)"
    using ct by (simp add: EvalAcc_def idx_def xs(1))
  ultimately show ?thesis
    using rotation_run [of "(0, 0)" xs s k ?f "fst s" g l ?H "hy_M Hs" ?e "hy_S Hs" acc] A xs
    by (simp add: Let_def c_def [symmetric])
qed

end
