(* ===== verification/MKGates.thy ===== *)
theory MKGates
  imports MKRotate
begin

text \<open>
  The multi-party part of \<^verbatim>\<open>BinFHEScheme\<close> (\<^verbatim>\<open>src/src/binfhe/lib/binfhe-base-scheme.cpp\<close> and
  \<^verbatim>\<open>include/binfhe-base-scheme.h\<close>): generation of the bootstrapping keys, the test polynomials and
  the evaluation of gates by blind rotation, extraction, modulus switching and key switching.

  The polynomials that NTL draws and inverts are arguments, and so are all Gaussian vectors.  The
  test whether two ciphertexts are the same object compares pointers and is the argument \<open>aliased\<close>.
  A null pointer to a key is \<open>None\<close>.
\<close>

section \<open>Gates and keys\<close>

text \<open>The gates carry a suffix, because \<open>AND\<close>, \<open>OR\<close> and \<open>XOR\<close> are operators of the logic.\<close>

datatype BINGATE =
    OR_gate | AND_gate | NOR_gate | NAND_gate | XOR_FAST_gate | XNOR_FAST_gate | MAJORITY_gate
  | AND3_gate | OR3_gate | AND4_gate | OR4_gate | CMUX_gate | XOR_gate | XNOR_gate

record (overloaded) 'a mk_btkey =
  bt_BSkey :: "'a::len acckey option"
  bt_KSkey2 :: "'a nvec list list list option"
  bt_LKSkey :: "'a mklwe_ksk option"
  bt_Pkey :: "'a poly list list"
  bt_f :: "'a poly list"
  bt_fvec :: "'a nvec list"
  bt_F_col0 :: "'a nvec list"
  bt_lwesk :: "'a nvec list"

text \<open>The conversion of a polynomial over the field of NTL, given by its coefficients up to its degree.\<close>

definition Get_invertible_NativeVector :: "'a::len word \<Rightarrow> nat \<Rightarrow> 32 word list \<Rightarrow> 'a nvec" where
  "Get_invertible_NativeVector Q N cs =
     \<lparr> m_modulus = Q, m_data = map (\<lambda>i. if i < length cs then lift_entry (ucast Q) (cs ! i) else 0) [0..<N] \<rparr>"

text \<open>\<^verbatim>\<open>SetValues\<close> in coefficient format on a fresh element, then evaluation format.\<close>

definition eval_of :: "'a::len arb_transform \<Rightarrow> 'a uni_params \<Rightarrow> 'a nvec \<Rightarrow> 'a ftt_cache \<Rightarrow> ('a ftt_cache \<times> 'a poly) result" where
  "eval_of arb U v cache =
     bindR (SetValues v COEFFICIENT (poly_new (up_polyParams U) EVALUATION False)) (\<lambda>p. SetFormat arb EVALUATION p cache)"

definition party_keys ::
  "'a::len arb_transform \<Rightarrow> 'a uni_params \<Rightarrow> (nat \<Rightarrow> 32 word list \<times> 32 word list) \<Rightarrow> nat \<Rightarrow> 'a ftt_cache
     \<Rightarrow> ('a ftt_cache \<times> 'a nvec \<times> 'a poly \<times> 'a poly) result" where
  "party_keys arb U ntl i cache =
     (let Q = up_Q U; N = unat (up_N U);
          NatVec = Get_invertible_NativeVector Q N (fst (ntl i));
          NatVec_inv = Get_invertible_NativeVector Q N (snd (ntl i)) in
      if length (fst (ntl i)) > N \<or> length (snd (ntl i)) > N then Inl undefined_behaviour
      else
        bindR (eval_of arb U NatVec cache) (\<lambda>(cache, sk).
        bindR (eval_of arb U NatVec_inv cache) (\<lambda>(cache, invsk). Inr (cache, NatVec, sk, invsk))))"

text \<open>The public keys \<open>e - CRS * s\<close> of all parties.\<close>

definition public_keys ::
  "'a::len arb_transform \<Rightarrow> 'a uni_params \<Rightarrow> 'a poly list \<Rightarrow> (nat \<Rightarrow> nat \<Rightarrow> 'a nvec) \<Rightarrow> 'a ftt_cache
     \<Rightarrow> ('a ftt_cache \<times> 'a poly list list) result" where
  "public_keys arb U sks e cache =
     mapS (\<lambda>u. mapS (\<lambda>i cache.
         bindR (eval_of arb U (e u i) cache) (\<lambda>(cache, ei).
         bindR (idx (up_CRS U) i) (\<lambda>a. bindR (idx sks u) (\<lambda>s. bindR (Times a s) (\<lambda>t.
         bindR (Minus ei t) (\<lambda>b. Inr (cache, b)))))))
       [0..<unat (up_digitsG U - 1)]) [0..<length sks] cache"

text \<open>The accumulator that the constructor of the scheme selects; without one the calls dereference a null pointer.\<close>

definition acc_KeyGen ::
  "BINFHE_METHOD \<Rightarrow> 'a::len arb_transform \<Rightarrow> 'a uni_params \<Rightarrow> 'a poly list \<Rightarrow> 'a mntru_sk
     \<Rightarrow> (nat \<Rightarrow> nat \<Rightarrow> nat \<Rightarrow> 'a key_noise) \<Rightarrow> 'a ftt_cache \<Rightarrow> ('a ftt_cache \<times> 'a acckey) result" where
  "acc_KeyGen method arb U invs sk rnd cache =
     (case method of
        MKNTRU \<Rightarrow> KeyGenAcc arb U invs sk (up_CRS U) rnd cache
      | MKNTRU_B \<Rightarrow> KeyGenAcc_B arb U invs sk (up_CRS U) rnd cache
      | MKNTRU_LWE \<Rightarrow> KeyGenAcc_B arb U invs sk (up_CRS U) rnd cache
      | _ \<Rightarrow> Inl undefined_behaviour)"

definition acc_KeyGen_LWE ::
  "BINFHE_METHOD \<Rightarrow> 'a::len arb_transform \<Rightarrow> 'a uni_params \<Rightarrow> 'a poly list \<Rightarrow> 'a nvec list
     \<Rightarrow> (nat \<Rightarrow> nat \<Rightarrow> nat \<Rightarrow> 'a key_noise) \<Rightarrow> 'a ftt_cache \<Rightarrow> ('a ftt_cache \<times> 'a acckey) result" where
  "acc_KeyGen_LWE method arb U invs sk rnd cache =
     (case method of
        MKNTRU \<Rightarrow> Inl not_implemented_error
      | MKNTRU_B \<Rightarrow> KeyGenAcc_B_LWE arb U invs sk (up_CRS U) rnd cache
      | MKNTRU_LWE \<Rightarrow> KeyGenAcc_B_LWE arb U invs sk (up_CRS U) rnd cache
      | _ \<Rightarrow> Inl undefined_behaviour)"

definition MKKeyGen ::
  "BINFHE_METHOD \<Rightarrow> 'a::len arb_transform \<Rightarrow> 'a mntru_params \<Rightarrow> 'a uni_params \<Rightarrow> 'a mntru_sk
     \<Rightarrow> (nat \<Rightarrow> 32 word list \<times> 32 word list) \<Rightarrow> (nat \<Rightarrow> 'a nvec) \<Rightarrow> (nat \<Rightarrow> nat \<Rightarrow> 'a nvec) \<Rightarrow> (nat \<Rightarrow> nat \<Rightarrow> nat \<Rightarrow> 'a key_noise)
     \<Rightarrow> 'a ftt_cache \<Rightarrow> ('a ftt_cache \<times> 'a mk_btkey) result" where
  "MKKeyGen method arb mp U sk ntl dggKS e rnd cache =
     bindR (mapS (party_keys arb U ntl) [0..<np_k mp] cache) (\<lambda>(cache, ks).
     let UniEncsk = map fst ks; sks = map (fst \<circ> snd) ks; invs = map (snd \<circ> snd) ks in
     bindR (nt_KeySwitchGen2 mp sk UniEncsk dggKS) (\<lambda>KSkey2.
     bindR (public_keys arb U sks e cache) (\<lambda>(cache, Pkey).
     bindR (acc_KeyGen method arb U invs sk rnd cache) (\<lambda>(cache, BSkey).
       Inr (cache, \<lparr> bt_BSkey = Some BSkey, bt_KSkey2 = Some KSkey2, bt_LKSkey = None, bt_Pkey = Pkey, bt_f = sks,
         bt_fvec = UniEncsk, bt_F_col0 = GetF_col0 sk, bt_lwesk = [] \<rparr>)))))"

definition MKKeyGen_LWE ::
  "BINFHE_METHOD \<Rightarrow> 'a::len arb_transform \<Rightarrow> 'a mklwe_params \<Rightarrow> 'a uni_params \<Rightarrow> 'a nvec list
     \<Rightarrow> (nat \<Rightarrow> 32 word list \<times> 32 word list) \<Rightarrow> (nat \<Rightarrow> nat \<Rightarrow> nat \<Rightarrow> nat \<Rightarrow> 'a nvec) \<Rightarrow> (nat \<Rightarrow> nat \<Rightarrow> nat \<Rightarrow> nat \<Rightarrow> 'a word)
     \<Rightarrow> (nat \<Rightarrow> nat \<Rightarrow> 'a nvec) \<Rightarrow> (nat \<Rightarrow> nat \<Rightarrow> nat \<Rightarrow> 'a key_noise) \<Rightarrow> 'a ftt_cache \<Rightarrow> ('a ftt_cache \<times> 'a mk_btkey) result" where
  "MKKeyGen_LWE method arb mp U sk ntl genA genE e rnd cache =
     bindR (mapS (party_keys arb U ntl) [0..<up_k U] cache) (\<lambda>(cache, ks).
     let UniEncsk = map fst ks; sks = map (fst \<circ> snd) ks; invs = map (snd \<circ> snd) ks in
     bindR (mk_KeySwitchGen mp sk UniEncsk genA genE) (\<lambda>LKSkey.
     bindR (public_keys arb U sks e cache) (\<lambda>(cache, Pkey).
     bindR (acc_KeyGen_LWE method arb U invs sk rnd cache) (\<lambda>(cache, BSkey).
       Inr (cache, \<lparr> bt_BSkey = Some BSkey, bt_KSkey2 = None, bt_LKSkey = Some LKSkey, bt_Pkey = Pkey, bt_f = sks,
         bt_fvec = UniEncsk, bt_F_col0 = [], bt_lwesk = sk \<rparr>)))))"

text \<open>The encryption of \<open>5 q / 8\<close> that the NAND gate of the matrix NTRU scheme starts from.\<close>

definition ctGateGen :: "'a::len mntru_params \<Rightarrow> 'a mntru_sk \<Rightarrow> BINGATE \<Rightarrow> (nat \<Rightarrow> 'a nvec) \<Rightarrow> 'a mntru_ct result" where
  "ctGateGen mp sk gate dgg =
     (if gate \<noteq> NAND_gate then Inl config_error
      else
        let md = np_q mp; n = key_length sk; k = key_k sk in
        if \<not> (mats_ok k n (key_F_inv sk) \<and> reads_ok k n (map dgg [0..<k])) then Inl undefined_behaviour
        else
          bindR (DividedBy (MulFast 5 md) 8) (\<lambda>c.
          bindR (mapR (\<lambda>i.
              let e = (if i = 0 then (dgg i) \<lparr> m_data := (m_data (dgg i)) [0 := ModAddFastEq (m_data (dgg i) ! 0) c md] \<rparr>
                       else dgg i) in
              bindR (mapR (\<lambda>j. bindR (SwitchModulus (GetF_inv_coli sk j ! i) md) (dot_vec md n e)) [0..<n]) (\<lambda>c.
              Inr \<lparr> m_modulus = md, m_data = c \<rparr>)) [0..<k]) (\<lambda>c.
          Inr (MNTRUCiphertext c))))"

section \<open>The test polynomials\<close>

text \<open>\<open>Q / (2 p) + 1\<close> and its negation modulo \<open>Q\<close>.\<close>

definition gate_levels :: "'a::len word \<Rightarrow> 'a word \<Rightarrow> ('a word \<times> 'a word) result" where
  "gate_levels Q p = bindR (DividedBy Q (MulFast 2 p)) (\<lambda>d. let Q2p = AddFast d 1 in Inr (Q2p, SubFast Q Q2p))"

definition test_vector :: "nat \<Rightarrow> 'a::len word \<Rightarrow> 'a word \<Rightarrow> 'a word list" where
  "test_vector N lowv highv = map (\<lambda>j. if j < N div 2 then lowv else highv) [0..<N]"

text \<open>The loop that multiplies the test polynomial by \<open>X ^ b_hat\<close>.\<close>

definition rotate_step :: "'a::len word \<Rightarrow> 32 word \<Rightarrow> 'a word \<Rightarrow> 'a word list \<Rightarrow> nat \<Rightarrow> 'a word list \<Rightarrow> 'a word list result" where
  "rotate_step Q N b_hat Rx j v =
     (let index = b_hat + of_nat j in
      if ucast N = (0 :: 'a word) then Inl undefined_behaviour
      else upd v (unat (index mod ucast N))
             (if ucast N \<le> index \<and> index < ucast (2 * N) then SubFast Q (Rx ! j) else Rx ! j))"

definition rotate_test :: "'a::len word \<Rightarrow> 32 word \<Rightarrow> 'a word \<Rightarrow> 'a word list \<Rightarrow> 'a word list result" where
  "rotate_test Q N b_hat Rx = foldR (rotate_step Q N b_hat Rx) [0..<unat N] (replicate (unat N) 0)"

text \<open>The accumulator: the test polynomial for the first party, zero for the others.\<close>

definition initial_acc ::
  "'a::len arb_transform \<Rightarrow> 'a uni_params \<Rightarrow> 'a word list \<Rightarrow> 'a ftt_cache \<Rightarrow> ('a ftt_cache \<times> 'a poly list) result" where
  "initial_acc arb U Rx cache =
     (if up_k U = 0 then Inl undefined_behaviour
      else
        bindR (SetValues \<lparr> m_modulus = up_Q U, m_data = Rx \<rparr> COEFFICIENT (poly_new (up_polyParams U) COEFFICIENT False)) (\<lambda>p.
        bindR (SetFormat arb EVALUATION p cache) (\<lambda>(cache, p).
        Inr (cache, p # replicate (up_k U - 1) (poly_new (up_polyParams U) EVALUATION True)))))"

definition mk_EvalAcc ::
  "BINFHE_METHOD \<Rightarrow> 'a::len arb_transform \<Rightarrow> 'a uni_params \<Rightarrow> 'a acckey \<Rightarrow> 'a poly list list \<Rightarrow> 'a nvec list \<Rightarrow> 'a poly list
     \<Rightarrow> 'a ftt_cache \<Rightarrow> ('a ftt_cache \<times> 'a poly list) result" where
  "mk_EvalAcc method =
     (case method of MKNTRU \<Rightarrow> EvalAcc | MKNTRU_B \<Rightarrow> EvalAcc_B | MKNTRU_LWE \<Rightarrow> EvalAcc_B
      | _ \<Rightarrow> (\<lambda>arb U ek Pkey ct acc cache. Inl undefined_behaviour))"

definition BootstrapGateCore_MKLWE ::
  "BINFHE_METHOD \<Rightarrow> 'a::len arb_transform \<Rightarrow> 'a uni_params \<Rightarrow> 'a acckey option \<Rightarrow> 'a poly list list \<Rightarrow> 'a mklwe_ct
     \<Rightarrow> 'a ftt_cache \<Rightarrow> ('a ftt_cache \<times> 'a poly list) result" where
  "BootstrapGateCore_MKLWE method arb U ek Pkey ct cache =
     (case ek of
        None \<Rightarrow> Inl config_error
      | Some ek \<Rightarrow>
          if mct_a ct = [] then Inl undefined_behaviour
          else
            bindR (gate_levels (up_Q U) (mct_p ct)) (\<lambda>(Q2p, Q2pNeg).
            let Rx = test_vector (unat (up_N U)) Q2p Q2pNeg in
            bindR (DividedBy (MulFast (MulFast (mct_b ct) 2) (ucast (up_N U))) (mct_modulus ct)) (\<lambda>b_hat.
            bindR (rotate_test (up_Q U) (up_N U) b_hat Rx) (\<lambda>Rxxb.
            bindR (initial_acc arb U Rxxb cache) (\<lambda>(cache, acc).
            bindR (GetAneg ct) (\<lambda>Aneg.
            mk_EvalAcc method arb U ek Pkey Aneg acc cache))))))"

definition BootstrapGateCore_MNTRU ::
  "BINFHE_METHOD \<Rightarrow> 'a::len arb_transform \<Rightarrow> 'a uni_params \<Rightarrow> 'a acckey option \<Rightarrow> 'a poly list list \<Rightarrow> 'a mntru_ct
     \<Rightarrow> 'a ftt_cache \<Rightarrow> ('a ftt_cache \<times> 'a poly list) result" where
  "BootstrapGateCore_MNTRU method arb U ek Pkey ct cache =
     (case ek of
        None \<Rightarrow> Inl config_error
      | Some ek \<Rightarrow>
          bindR (gate_levels (up_Q U) (nct_p ct)) (\<lambda>(Q2p, Q2pNeg).
          bindR (initial_acc arb U (test_vector (unat (up_N U)) Q2pNeg Q2p) cache) (\<lambda>(cache, acc).
          mk_EvalAcc method arb U ek Pkey (nct_elements ct) acc cache)))"

section \<open>Evaluation of gates\<close>

text \<open>The coefficients of the transposed accumulator.\<close>

definition extract_acc :: "'a::len arb_transform \<Rightarrow> nat \<Rightarrow> 'a poly list \<Rightarrow> 'a ftt_cache \<Rightarrow> ('a ftt_cache \<times> 'a nvec list) result" where
  "extract_acc arb k acc cache =
     mapS (\<lambda>u cache.
         bindR (idx acc u) (\<lambda>x. bindR (Transpose x) (\<lambda>x. bindR (SetFormat arb COEFFICIENT x cache) (\<lambda>(cache, x).
         bindR (GetValues x) (\<lambda>v. Inr (cache, v)))))) [0..<k] cache"

text \<open>\<open>5 q / 8 - (ct1 + ct2)\<close>, with the constant computed in 32 bits.\<close>

definition nand_prep :: "'a::len mklwe_params \<Rightarrow> 'a mklwe_ct \<Rightarrow> 'a mklwe_ct \<Rightarrow> 'a mklwe_ct result" where
  "nand_prep mp ct1 ct2 =
     (let q = ucast (mp_q mp) :: 32 word; temp_b = ucast (5 * q div 8) in
      if ucast q = (0 :: 'a word) then Inl undefined_behaviour
      else
        bindR (mk_EvalAddEq (mk_copy_ct ct1) ct2) (\<lambda>ctprep.
        mk_EvalSubEq (MKLWECiphertext (replicate (mp_k mp) (vec_zero (mp_n mp) (ucast q))) (Mod temp_b (ucast q))) ctprep))"

definition EvalBinGate_MKLWE ::
  "BINFHE_METHOD \<Rightarrow> 'a::len arb_transform \<Rightarrow> 'a mklwe_params \<Rightarrow> 'a uni_params \<Rightarrow> BINGATE \<Rightarrow> 'a mk_btkey \<Rightarrow> bool
     \<Rightarrow> 'a mklwe_ct \<Rightarrow> 'a mklwe_ct \<Rightarrow> 'a ftt_cache \<Rightarrow> ('a ftt_cache \<times> 'a mklwe_ct) result" where
  "EvalBinGate_MKLWE method arb mp U gate EK aliased ct1 ct2 cache =
     (if aliased then Inl config_error
      else
        bindR (nand_prep mp ct1 ct2) (\<lambda>ct_temp.
        bindR (mk_ModSwitch (ucast (of_nat (mp_N mp) * 2 :: 32 word)) ct_temp) (\<lambda>ctMS1.
        bindR (BootstrapGateCore_MKLWE method arb U (bt_BSkey EK) (bt_Pkey EK) ctMS1 cache) (\<lambda>(cache, acc).
        bindR (extract_acc arb (mp_k mp) acc cache) (\<lambda>(cache, accExt).
        bindR (mk_ModSwitch (mp_qKS mp) (MKLWECiphertext accExt (AddFast (RShift (mp_Q mp) 3) 1))) (\<lambda>ctMS.
        bindR (opt (bt_LKSkey EK)) (\<lambda>K.
        bindR (mk_KeySwitch mp K ctMS) (\<lambda>ctKS. Inr (cache, ctKS)))))))))"

definition EvalBinGate_MNTRU ::
  "BINFHE_METHOD \<Rightarrow> 'a::len arb_transform \<Rightarrow> 'a mntru_params \<Rightarrow> 'a uni_params \<Rightarrow> BINGATE \<Rightarrow> 'a mk_btkey \<Rightarrow> bool
     \<Rightarrow> 'a mntru_ct \<Rightarrow> 'a mntru_ct \<Rightarrow> 'a mntru_ct \<Rightarrow> 'a ftt_cache \<Rightarrow> ('a ftt_cache \<times> 'a mntru_ct) result" where
  "EvalBinGate_MNTRU method arb mp U gate EK aliased ct1 ct2 ctNAND cache =
     (if aliased then Inl config_error
      else
        bindR (nt_EvalAddEq (nt_copy_ct ct1) ct2) (\<lambda>ctprep.
        bindR (nt_EvalSubEq (nt_copy_ct ctNAND) ctprep) (\<lambda>ct_temp.
        bindR (BootstrapGateCore_MNTRU method arb U (bt_BSkey EK) (bt_Pkey EK) ct_temp cache) (\<lambda>(cache, acc).
        bindR (extract_acc arb (np_k mp) acc cache) (\<lambda>(cache, accExt).
        bindR (nt_ModSwitch (np_qKS mp) (MNTRUCiphertext accExt)) (\<lambda>ctMS.
        bindR (opt (bt_KSkey2 EK)) (\<lambda>K.
        bindR (nt_KeySwitch2 mp K ctMS) (\<lambda>ctKS. Inr (cache, ctKS)))))))))"

end
