(* ===== verification/MKBoot.thy ===== *)
theory MKBoot
  imports MKGates
begin

text \<open>
  Correctness of gate bootstrapping: multiplication of the test polynomial by a power of \<open>X\<close>, the
  extraction of the constant coefficient of the joint phase, and the NAND gate of the multi-key scheme.
\<close>

section \<open>Multiplication by powers of X\<close>

definition nega_shift :: "nat \<Rightarrow> nat \<Rightarrow> (nat \<Rightarrow> int) \<Rightarrow> nat \<Rightarrow> int" where
  "nega_shift N r f i = (let t = (i + 2 * N - r mod (2 * N)) mod (2 * N) in if t < N then f t else - f (t - N))"

lemma nega_shift_Suc:
  fixes N r i :: nat
  assumes "0 < N" "i < N"
  shows "nega_shift N (Suc r) f i = (if i = 0 then - nega_shift N r f (N - 1) else nega_shift N r f (i - 1))"
proof -
  define m where "m = r mod (2 * N)"
  have m: "m < 2 * N" "Suc r mod (2 * N) = (if Suc m = 2 * N then 0 else Suc m)"
    using assms by (simp_all add: m_def mod_Suc)
  show ?thesis
  proof (cases "i = 0")
    case True
    consider "m < N" | "m = N" | "N < m" "Suc m < 2 * N" | "Suc m = 2 * N" using m(1) by linarith
    then show ?thesis
    proof cases
      case 1
      then have "(2 * N - Suc m) mod (2 * N) = 2 * N - Suc m" "(N - 1 + 2 * N - m) mod (2 * N) = N - 1 - m"
        using assms by (simp, simp add: mod_if)
      then show ?thesis using 1 True m by (auto simp: nega_shift_def m_def [symmetric] Let_def)
    next
      case 2
      have "(2 * N - Suc N) mod (2 * N) = N - 1" "(N - 1 + 2 * N - N) mod (2 * N) = 2 * N - 1"
        using assms by simp_all
      then show ?thesis using 2 True m assms by (auto simp: nega_shift_def m_def [symmetric] Let_def)
    next
      case 3
      then have "(2 * N - Suc m) mod (2 * N) = 2 * N - Suc m" "(N - 1 + 2 * N - m) mod (2 * N) = 3 * N - 1 - m"
        by (simp, simp)
      then show ?thesis using 3 True m by (auto simp: nega_shift_def m_def [symmetric] Let_def)
    next
      case 4
      have "(N - 1 + 2 * N - m) mod (2 * N) = N" using 4 assms by simp
      then show ?thesis using 4 True m by (auto simp: nega_shift_def m_def [symmetric] Let_def)
    qed
  next
    case False
    have "(i + 2 * N - Suc r mod (2 * N)) mod (2 * N) = (i - 1 + 2 * N - m) mod (2 * N)"
    proof (cases "Suc m = 2 * N")
      case True
      then have "i - 1 + 2 * N - m = i" using False by simp
      then show ?thesis using True m by simp
    next
      case no: False
      have "i + 2 * N - Suc m = i - 1 + 2 * N - m" using False m by simp
      then show ?thesis using no m(2) by simp
    qed
    then show ?thesis using False by (simp add: nega_shift_def m_def [symmetric] Let_def)
  qed
qed

lemma shift_sum:
  fixes z q :: int
  assumes "z ^ N mod q = - 1 mod q" "0 < N"
  shows "z * (\<Sum>j<N. f j * z ^ j) mod q = (\<Sum>i<N. (if i = 0 then - f (N - 1) else f (i - 1)) * z ^ i) mod q"
proof -
  obtain n where n: "N = Suc n" using assms(2) by (cases N) auto
  have "z * (\<Sum>j<N. f j * z ^ j) = (\<Sum>j<n. f j * z ^ Suc j) + z ^ N * f n"
    by (simp add: n sum_distrib_left algebra_simps)
  also have "\<dots> mod q = ((\<Sum>j<n. f j * z ^ Suc j) + - 1 * f n) mod q"
    by (intro mod_add_cong mod_mult_cong assms(1) refl)
  also have "(\<Sum>j<n. f j * z ^ Suc j) + - 1 * f n = (\<Sum>i<N. (if i = 0 then - f (N - 1) else f (i - 1)) * z ^ i)"
    unfolding n by (subst sum.lessThan_Suc_shift) simp
  finally show ?thesis .
qed

lemma nega_shift_sum:
  fixes z q :: int
  assumes "z ^ N mod q = - 1 mod q" "0 < N"
  shows "z ^ r * (\<Sum>j<N. f j * z ^ j) mod q = (\<Sum>i<N. nega_shift N r f i * z ^ i) mod q"
proof (induction r)
  case 0
  have "nega_shift N 0 f i = f i" if "i < N" for i using that by (simp add: nega_shift_def Let_def)
  then show ?case by simp
next
  case (Suc r)
  have "z ^ Suc r * (\<Sum>j<N. f j * z ^ j) mod q = z * (\<Sum>i<N. nega_shift N r f i * z ^ i) mod q"
    using mod_mult_cong [OF refl [of "z mod q"] Suc] by (simp add: mult.assoc)
  also have "\<dots> = (\<Sum>i<N. nega_shift N (Suc r) f i * z ^ i) mod q"
    unfolding shift_sum [OF assms] using assms(2) by (simp add: nega_shift_Suc cong: sum.cong_simp)
  finally show ?case .
qed

lemma at_point_shift:
  assumes "ready s" "j < ring_len s"
  shows "at_point s (nega_shift (ring_len s) r f) j mod ring_mod s = point s j ^ r * at_point s f j mod ring_mod s"
  unfolding at_point_def
  by (rule nega_shift_sum [OF point_order(1) [OF assms], symmetric]) (use assms(2) in simp)

section \<open>Coefficients and values\<close>

lemma coef_word:
  fixes q :: "'a::len word"
  assumes "modulus_ok q"
  shows "uint (word_of_int (x mod uint q) :: 'a word) = x mod uint q"
  using vec_of_ok(2) [OF assms, of "[x]"] by (simp add: vals_def vec_of_def)

text \<open>A ring element for every family of values, and only one.\<close>

lemma values_exist:
  assumes "ready s"
  shows "\<exists>f. \<forall>j<ring_len s. at_point s f j mod ring_mod s = F j mod ring_mod s"
proof -
  obtain c L P where s: "s = (c, L, P)" by (cases s) auto
  let ?q = "ciphertextModulus P" and ?N = "tables_of c (ciphertextModulus P) L"
  have r: "ftt_reachable c" "ring_params L P" "\<not> needs_tables c ?q (2 ^ L)" using assms by (simp_all add: ready_def s)
  note entry = cache_okD [OF ftt_reachable_cache_ok [OF r(1)] r(3)] and P = ring_paramsD [OF r(2)]
  then have T: "ntt_tables_ok ?N L" by (simp add: entry_ok_def)
  let ?v = "vec_of ?q (map F [0..<2 ^ L])"
  have v: "fits ?N L ?v" using vec_of_ok [OF P(9), of "map F [0..<2 ^ L]"] by (simp add: fits_def)
  obtain a where a: "fits ?N L a" "ntt_forward_of ?N a = Inr ?v" using ntt_onto [OF T v] by metis
  have "uint (m_data ?v ! j) = poly_eval (m_data a) (eval_point ?N L j) mod uint ?q" if "j < 2 ^ L" for j
    using ntt_forward_value [OF T a(1)] a(2) that by (metis entry_modulus sum.inject(2))
  moreover have "uint (m_data ?v ! j) = F j mod uint ?q" if "j < 2 ^ L" for j
    using that coef_word [OF P(9)] by (simp add: vec_of_def)
  moreover have "poly_eval (m_data a) (eval_point ?N L j) = at_point s (\<lambda>k. uint (m_data a ! k)) j" for j
    using poly_eval_at_point [of "m_data a" s j] a(1) by (simp add: s fits_def ring_len_def point_def)
  ultimately show ?thesis by (intro exI [of _ "\<lambda>k. uint (m_data a ! k)"]) (simp add: s ring_len_def ring_mod_def)
qed

lemma values_unique:
  assumes "ready s" "\<And>j. j < ring_len s \<Longrightarrow> at_point s f j mod ring_mod s = at_point s h j mod ring_mod s" "k < ring_len s"
  shows "f k mod ring_mod s = h k mod ring_mod s"
proof -
  obtain c L P where s: "s = (c, L, P)" by (cases s) auto
  let ?q = "ciphertextModulus P" and ?N = "tables_of c (ciphertextModulus P) L"
  have r: "ftt_reachable c" "ring_params L P" "\<not> needs_tables c ?q (2 ^ L)" using assms(1) by (simp_all add: ready_def s)
  note entry = cache_okD [OF ftt_reachable_cache_ok [OF r(1)] r(3)] and P = ring_paramsD [OF r(2)]
  then have T: "ntt_tables_ok ?N L" by (simp add: entry_ok_def)
  let ?v = "\<lambda>f. vec_of ?q (map f [0..<2 ^ L])"
  have v: "fits ?N L (?v f)" "m_modulus (?v f) = ?q" "length (m_data (?v f)) = 2 ^ L" for f
    using vec_of_ok [OF P(9), of "map f [0..<2 ^ L]"] by (simp_all add: fits_def)
  have e: "uint (m_data (?v f) ! i) = f i mod uint ?q" if "i < 2 ^ L" for f i
    using that coef_word [OF P(9)] by (simp add: vec_of_def)
  have pe: "poly_eval (m_data (?v f)) (eval_point ?N L j) mod uint ?q = at_point s f j mod uint ?q" for f j
  proof -
    have "poly_eval (m_data (?v f)) (eval_point ?N L j) = at_point s (\<lambda>k. uint (m_data (?v f) ! k)) j"
      using poly_eval_at_point [of "m_data (?v f)" s j] v(3) by (simp add: s ring_len_def point_def)
    also have "\<dots> mod uint ?q = at_point s f j mod uint ?q"
      unfolding at_point_def by (rule sum_mod_cong) (simp add: e s ring_len_def mod_mult_left_eq)
    finally show ?thesis .
  qed
  obtain w where w: "ntt_forward_of ?N (?v f) = Inr w" "fits ?N L w"
      "\<And>i. i < 2 ^ L \<Longrightarrow> uint (m_data w ! i) = poly_eval (m_data (?v f)) (eval_point ?N L i) mod uint ?q"
    using ntt_forward_value [OF T v(1)] by (metis entry_modulus)
  have "ntt_forward_of ?N (?v h) = Inr w"
  proof (rule ntt_forward_eqI [OF T v(1) w(2)])
    fix i :: nat
    assume i: "i < 2 ^ L"
    show "uint (m_data w ! i) mod uint (nt_modulus ?N) = poly_eval (m_data (?v h)) (eval_point ?N L i) mod uint (nt_modulus ?N)"
      using assms(2) [of i] i unfolding w(3) [OF i] entry_modulus pe by (simp add: s ring_len_def ring_mod_def)
  qed
  then have "?v h = ?v f" using ntt_inverse_forward [OF T v(1) w(1)] ntt_inverse_forward [OF T v(1), of h w] by simp
  then have "m_data (?v h) ! k = m_data (?v f) ! k" by simp
  then show ?thesis using e [of k f] e [of k h] assms(3) by (simp add: s ring_len_def ring_mod_def)
qed

section \<open>Extraction\<close>

lemma ring_auto_inverse:
  fixes n i :: nat
  assumes "length xs = n" "i < n"
  shows "ring_auto q (2 * n - 1) xs ! i = (if i = 0 then xs ! 0 else - (xs ! (n - i))) mod q"
proof -
  define m where "m j = j * (2 * n - 1) mod (2 * n)" for j
  have m: "m j = (if j = 0 then 0 else 2 * n - j)" if "j < n" for j
  proof (cases j)
    case (Suc j')
    have "j * (2 * n - 1) = 2 * n - j + j' * (2 * n)" using Suc that by (simp add: algebra_simps diff_mult_distrib2)
    then have "m j = (2 * n - j) mod (2 * n)" unfolding m_def by (simp only: mod_mult_self1)
    also have "\<dots> = 2 * n - j" using Suc that by (intro mod_less) simp
    finally show ?thesis using Suc by simp
  qed (simp add: m_def)
  have "(\<Sum>j<n. if m j = i then xs ! j else if m j = n + i then - (xs ! j) else 0)
      = (\<Sum>j<n. if j = (if i = 0 then 0 else n - i) then (if i = 0 then xs ! 0 else - (xs ! (n - i))) else 0)"
    by (intro sum.cong refl) (use assms(2) in \<open>auto simp: m\<close>)
  also have "\<dots> = (if i = 0 then xs ! 0 else - (xs ! (n - i)))" using assms(2) by simp
  finally have "(\<Sum>j<n. if m j = i then xs ! j else if m j = n + i then - (xs ! j) else 0) = \<dots>" .
  moreover have "ring_auto q (2 * n - 1) xs ! i = (\<Sum>j<n. if m j = i then xs ! j else if m j = n + i then - (xs ! j) else 0) mod q"
    unfolding ring_auto_def m_def assms(1) Let_def using assms(2) by (simp only: nth_map_upt length_upt minus_nat.diff_0 add_0)
  ultimately show ?thesis by simp
qed

definition transposed :: "nat \<Rightarrow> (nat \<Rightarrow> int) \<Rightarrow> nat \<Rightarrow> int" where
  "transposed n f i = (if i = 0 then f 0 else - f (n - i))"

lemma extract_entry:
  assumes "ready s" "epoly s x"
  shows "\<exists>x' y v f. Transpose x = Inr x' \<and> SetFormat arb COEFFICIENT x' (fst s) = Inr (fst s, y) \<and> GetValues y = Inr v
    \<and> coef_ok s v \<and> (\<forall>j<ring_len s. at_point s f j mod ring_mod s = pev x j)
    \<and> (\<forall>i<ring_len s. uint (m_data v ! i) = transposed (ring_len s) f i mod ring_mod s)"
proof -
  obtain c L P where s: "s = (c, L, P)" by (cases s) auto
  let ?q = "ciphertextModulus P" and ?N = "tables_of c (ciphertextModulus P) L" and ?a = "coeff_vec c L x"
  have r: "ftt_reachable c" "ring_params L P" using assms(1) by (simp_all add: ready_def s)
  note P = ring_paramsD [OF r(2)]
  have x: "cache_ok c" "poly_ok c L x" "p_format x = EVALUATION" "p_params x = P" using assms(2) by (simp_all add: epoly_def s)
  have k: "unat (cyclotomicOrder P - 1) = 2 * 2 ^ L - 1"
    using unat_power2 [of "Suc L"] P(1,4) by (simp add: unat_sub word_le_nat_alt)
  have "odd (unat (cyclotomicOrder P - 1))" unfolding k by simp
  then obtain x' where x': "AutomorphismTransform (cyclotomicOrder P - 1) x = Inr x'" "poly_ok c L x'" "p_params x' = P"
      "p_format x' = EVALUATION" "coeffs c L x' = ring_auto (uint ?q) (2 * 2 ^ L - 1) (coeffs c L x)"
    using Automorphism_refines [OF x(1-3)] x(4) k by metis
  obtain y where y: "SwitchFormat arb x' c = Inr (c, y)" "poly_ok c L y" "p_params y = P" "p_format y = COEFFICIENT"
      "coeffs c L y = coeffs c L x'"
    using SwitchFormat_eval [OF r(1) x'(2,4)] x'(3) by metis
  obtain v where v: "p_values y = Some v" "nvec_ok v" "m_modulus v = ?q" "length (m_data v) = 2 ^ L" "GetValues y = Inr v"
    using poly_okD [OF y(2)] y(3) by metis
  have vc: "vals v = ring_auto (uint ?q) (2 * 2 ^ L - 1) (coeffs c L x)"
    using y(4,5) v(1) x'(5) by (simp add: coeffs_def [of c L y] coeff_vec_def)
  let ?f = "\<lambda>i. uint (m_data ?a ! i)"
  note V = coeff_vec_ok [OF x(1,2), unfolded x(4)] and E = coeff_vec_eval [OF x(1-3), unfolded x(4)]
    and T = poly_tables(1) [OF x(1-3), unfolded x(4)]
  have "at_point s ?f j mod ring_mod s = pev x j" if "j < ring_len s" for j
  proof -
    have j: "j < 2 ^ L" using that by (simp add: s ring_len_def)
    have "pev x j = poly_eval (m_data ?a) (eval_point ?N L j) mod uint ?q"
      using ntt_forward_value [OF T E(1)] E(2) j unfolding pev_def by (metis entry_modulus sum.inject(2))
    then show ?thesis using poly_eval_at_point [of "m_data ?a" s j] V(3) by (simp add: s ring_len_def ring_mod_def point_def)
  qed
  moreover have "uint (m_data v ! i) = transposed (ring_len s) ?f i mod ring_mod s" if "i < ring_len s" for i
  proof -
    have i: "i < 2 ^ L" "i < length (m_data v)" using that v(4) by (simp_all add: s ring_len_def)
    have "uint (m_data v ! i) = (if i = 0 then coeffs c L x ! 0 else - (coeffs c L x ! (2 ^ L - i))) mod uint ?q"
      unfolding vals_nth [OF i(2), symmetric] vc using length_coeffs [OF x(1,2)] i(1) by (rule ring_auto_inverse)
    then show ?thesis using i V(3) by (simp add: transposed_def s ring_len_def ring_mod_def coeffs_def vals_nth)
  qed
  moreover have "Transpose x = Inr x'" using x'(1) x(3,4) by (simp add: Transpose_def)
  moreover have "SetFormat arb COEFFICIENT x' c = Inr (c, y)" using y(1) x'(4) by (simp add: SetFormat_def)
  moreover have "coef_ok s v" using v by (simp add: coef_ok_def s ring_len_def)
  ultimately show ?thesis using v(5) by (intro exI [of _ x'] exI [of _ y] exI [of _ v] exI [of _ ?f]) (simp add: s)
qed

lemma transposed_inner:
  fixes n :: nat
  assumes "0 < n"
  shows "(\<Sum>i<n. transposed n f i * t i) = negacyclic n t f 0"
  unfolding negacyclic_def using assms by (intro sum.cong) (auto simp: transposed_def)

lemma extract_runs:
  assumes "ready s" "acc_ok s k acc"
  shows "\<exists>vs. extract_acc arb k acc (fst s) = Inr (fst s, vs) \<and> length vs = k \<and> (\<forall>u<k. coef_ok s (vs ! u)
    \<and> (\<exists>f. (\<forall>j<ring_len s. at_point s f j mod ring_mod s = pev (acc ! u) j)
         \<and> (\<forall>i<ring_len s. uint (m_data (vs ! u) ! i) = transposed (ring_len s) f i mod ring_mod s)))"
  unfolding extract_acc_def
proof (rule mapS_upt)
  fix u
  assume u: "u < k"
  have "idx acc u = Inr (acc ! u)" "epoly s (acc ! u)" using assms(2) u by (simp_all add: acc_ok_def idx_def)
  with extract_entry [OF assms(1), of "acc ! u" arb]
  show "\<exists>y. bindR (idx acc u) (\<lambda>x. bindR (Transpose x) (\<lambda>x. bindR (SetFormat arb COEFFICIENT x (fst s)) (\<lambda>(cache, x).
         bindR (GetValues x) (\<lambda>v. Inr (cache, v))))) = Inr (fst s, y) \<and> coef_ok s y
      \<and> (\<exists>f. (\<forall>j<ring_len s. at_point s f j mod ring_mod s = pev (acc ! u) j)
         \<and> (\<forall>i<ring_len s. uint (m_data y ! i) = transposed (ring_len s) f i mod ring_mod s))"
    by fastforce
qed

text \<open>The inner product of the extracted vectors with the coefficients of the secrets is the constant
  coefficient of the joint phase.\<close>

lemma extract_constant:
  assumes R: "ready s" and A: "acc_ok s k acc" and X: "extract_acc arb k acc (fst s) = Inr (fst s, vs)"
    and S: "\<And>u j. u < k \<Longrightarrow> j < ring_len s \<Longrightarrow> S u j mod ring_mod s = at_point s (t u) j mod ring_mod s"
    and C: "\<And>j. j < ring_len s \<Longrightarrow> phase k S acc j mod ring_mod s = at_point s h j mod ring_mod s"
  shows "(\<Sum>u<k. \<Sum>i<ring_len s. uint (m_data (vs ! u) ! i) * t u i) mod ring_mod s = h 0 mod ring_mod s"
proof -
  let ?n = "ring_len s" and ?q = "ring_mod s"
  have n: "0 < ?n" by (simp add: ring_len_def)
  obtain f where f: "\<And>u j. u < k \<Longrightarrow> j < ?n \<Longrightarrow> at_point s (f u) j mod ?q = pev (acc ! u) j"
      "\<And>u i. u < k \<Longrightarrow> i < ?n \<Longrightarrow> uint (m_data (vs ! u) ! i) = transposed ?n (f u) i mod ?q"
    using extract_runs [OF R A, of arb] X by simp metis
  let ?g = "\<lambda>i. \<Sum>u<k. negacyclic ?n (t u) (f u) i"
  have "at_point s ?g j mod ?q = at_point s h j mod ?q" if j: "j < ?n" for j
  proof -
    have "at_point s ?g j = (\<Sum>u<k. at_point s (negacyclic ?n (t u) (f u)) j)"
      unfolding at_point_def sum_distrib_right by (rule sum.swap)
    also have "\<dots> mod ?q = (\<Sum>u<k. pev (acc ! u) j * S u j) mod ?q"
    proof (rule sum_mod_cong)
      fix u
      assume u: "u < k"
      have "at_point s (negacyclic ?n (t u) (f u)) j mod ?q = at_point s (t u) j * at_point s (f u) j mod ?q"
        unfolding at_point_def by (rule negacyclic_eval [OF point_order(1) [OF R j]])
      also have "\<dots> = S u j * pev (acc ! u) j mod ?q"
        using f(1) [OF u j] by (intro mod_mult_cong S [OF u j, symmetric]) (metis mod_mod_trivial)
      finally show "at_point s (negacyclic ?n (t u) (f u)) j mod ?q = pev (acc ! u) j * S u j mod ?q" by (simp add: mult.commute)
    qed
    finally show ?thesis using C [OF j] by (simp add: phase_def)
  qed
  then have "?g 0 mod ?q = h 0 mod ?q" using values_unique [OF R _ n] by blast
  moreover have "(\<Sum>u<k. \<Sum>i<?n. uint (m_data (vs ! u) ! i) * t u i) mod ?q = ?g 0 mod ?q"
  proof (rule sum_mod_cong)
    fix u
    assume u: "u < k"
    have "(\<Sum>i<?n. uint (m_data (vs ! u) ! i) * t u i) mod ?q = (\<Sum>i<?n. transposed ?n (f u) i * t u i) mod ?q"
      by (rule sum_mod_cong) (simp add: f(2) [OF u] mod_mult_left_eq)
    then show "(\<Sum>i<?n. uint (m_data (vs ! u) ! i) * t u i) mod ?q = negacyclic ?n (t u) (f u) 0 mod ?q"
      unfolding transposed_inner [OF n] .
  qed
  ultimately show ?thesis by simp
qed

section \<open>The rotated test polynomial\<close>

lemma rotation_inj:
  fixes b n :: nat
  assumes "j < n" "j' < n" "(b + j) mod n = (b + j') mod n"
  shows "j = j'"
proof -
  have "\<bar>int j - int j'\<bar> < int n" using assms(1,2) by linarith
  moreover have "(int b + int j) mod int n = (int b + int j') mod int n"
    using assms(3) by (metis of_nat_add zmod_int)
  then have "int n dvd int j - int j'" by (simp add: mod_eq_dvd_iff)
  ultimately have "int j - int j' = 0" using zdvd_imp_le by (metis abs_dvd_iff dvd_abs_iff zdvd_not_zless zero_less_abs_iff)
  then show ?thesis by simp
qed

lemma write_all:
  fixes n m :: nat
  assumes "m \<le> n" "\<And>j. j < n \<Longrightarrow> \<sigma> j < n" "\<And>j j'. j < n \<Longrightarrow> j' < n \<Longrightarrow> \<sigma> j = \<sigma> j' \<Longrightarrow> j = j'"
    and "\<And>j v. j < n \<Longrightarrow> length v = n \<Longrightarrow> f j v = Inr (v[\<sigma> j := val j])" "length v0 = n"
  shows "\<exists>v. foldR f [0..<m] v0 = Inr v \<and> length v = n \<and> (\<forall>j<m. v ! \<sigma> j = val j)"
  using assms(1)
proof (induction m)
  case (Suc m)
  then obtain v where v: "foldR f [0..<m] v0 = Inr v" "length v = n" "\<forall>j<m. v ! \<sigma> j = val j" by auto
  have m: "m < n" using Suc.prems by simp
  have "foldR f [0..<Suc m] v0 = Inr (v[\<sigma> m := val m])"
    using v(1) assms(4) [OF m v(2)] by (simp add: foldR_append)
  moreover have "v[\<sigma> m := val m] ! \<sigma> j = val j" if "j < Suc m" for j
    using that v(2,3) assms(2) [OF m] assms(3) [OF m, of j] m by (auto simp: nth_list_update less_Suc_eq)
  ultimately show ?case using v(2) by auto
qed (simp add: assms(5))

lemma shift_entry:
  fixes N b j :: nat
  assumes "b < 2 * N" "j < N"
  shows "nega_shift N b f ((b + j) mod N) = (if N \<le> b + j \<and> b + j < 2 * N then - f j else f j)"
proof -
  have b: "b mod (2 * N) = b" using assms(1) by simp
  consider "b + j < N" | "N \<le> b + j" "b + j < 2 * N" | "2 * N \<le> b + j" by linarith
  then show ?thesis
  proof cases
    case 1
    then show ?thesis using assms by (simp add: nega_shift_def b)
  next
    case 2
    then have "(b + j) mod N = b + j - N" by (simp add: mod_if)
    then show ?thesis using 2 assms by (simp add: nega_shift_def b)
  next
    case 3
    then have "(b + j) mod N = b + j - 2 * N" using assms by (simp add: mod_if mult_2)
    then have "(b + j) mod N + 2 * N - b = j" using 3 by simp
    then show ?thesis using 3 assms by (simp add: nega_shift_def b)
  qed
qed

lemma rotate_test_value:
  fixes Q :: "'a::len word" and Rx :: "'a word list"
  assumes L: "L \<le> 24" "2 * 2 ^ L < (2 :: nat) ^ LENGTH('a)" and b: "unat b < 2 * 2 ^ L"
    and R: "length Rx = 2 ^ L" "\<And>j. j < 2 ^ L \<Longrightarrow> 0 < uint (Rx ! j) \<and> uint (Rx ! j) < uint Q"
  shows "\<exists>v. rotate_test Q (2 ^ L) b Rx = Inr v \<and> length v = 2 ^ L
    \<and> (\<forall>i<2 ^ L. uint (v ! i) = nega_shift (2 ^ L) (unat b) (\<lambda>j. uint (Rx ! j)) i mod uint Q)"
proof -
  let ?N = "2 ^ L :: nat" and ?W = "ucast (2 ^ L :: 32 word) :: 'a word"
  let ?\<sigma> = "\<lambda>j. (unat b + j) mod ?N"
  let ?val = "\<lambda>j. if ?N \<le> unat b + j \<and> unat b + j < 2 * ?N then SubFast Q (Rx ! j) else Rx ! j"
  have "(2 :: nat) ^ Suc L < 2 ^ LENGTH('a)" using L(2) by simp
  then have "Suc L < LENGTH('a)" by (simp only: power_strict_increasing_iff one_less_numeral_iff semiring_norm)
  then have len: "Suc (Suc L) \<le> LENGTH('a)" by simp
  then have "(2 :: nat) ^ Suc (Suc L) \<le> 2 ^ LENGTH('a)" by (rule power_increasing) simp
  then have big: "4 * ?N \<le> 2 ^ LENGTH('a)" by simp
  have W: "unat ?W = ?N" "unat (ucast (2 * 2 ^ L :: 32 word) :: 'a word) = 2 * ?N" "unat (2 ^ L :: 32 word) = ?N"
    using unat_power2 [of L] unat_power2 [of "Suc L"] L big len
    by (simp_all add: unsigned_ucast_eq take_bit_nat_eq_self_iff)
  have idx: "unat (b + of_nat j) = unat b + j" if "j < ?N" for j
  proof -
    have "unat b + j < 2 ^ LENGTH('a)" using that b big by linarith
    then show ?thesis using that big by (simp add: unat_word_ariths unat_of_nat)
  qed
  have "?W \<noteq> 0" using W(1) by (metis power_not_zero unat_0 zero_neq_numeral)
  have step: "rotate_step Q (2 ^ L) b Rx j v = Inr (v[?\<sigma> j := ?val j])" if "j < ?N" "length v = ?N" for j v
    using that \<open>?W \<noteq> 0\<close> W(1,2) idx [OF that(1)]
    by (simp add: rotate_step_def Let_def upd_def unat_mod word_le_nat_alt word_less_nat_alt)
  have "\<exists>v. foldR (rotate_step Q (2 ^ L) b Rx) [0..<?N] (replicate ?N 0) = Inr v \<and> length v = ?N \<and> (\<forall>j<?N. v ! ?\<sigma> j = ?val j)"
    by (rule write_all [OF le_refl _ rotation_inj step]) simp_all
  then obtain v where v: "foldR (rotate_step Q (2 ^ L) b Rx) [0..<?N] (replicate ?N 0) = Inr v" "length v = ?N"
      "\<forall>j<?N. v ! ?\<sigma> j = ?val j" by blast
  have "uint (v ! i) = nega_shift ?N (unat b) (\<lambda>j. uint (Rx ! j)) i mod uint Q" if "i < ?N" for i
  proof -
    have "inj_on ?\<sigma> {..<?N}" by (rule inj_onI) (simp only: lessThan_iff rotation_inj)
    then have "?\<sigma> ` {..<?N} = {..<?N}" by (intro endo_inj_surj) auto
    moreover have "i \<in> {..<?N}" using that by simp
    ultimately have "i \<in> ?\<sigma> ` {..<?N}" by simp
    then obtain j where j: "j < ?N" "i = ?\<sigma> j" by (elim imageE) (simp only: lessThan_iff)
    have "uint (?val j) = (if ?N \<le> unat b + j \<and> unat b + j < 2 * ?N then - uint (Rx ! j) else uint (Rx ! j)) mod uint Q"
    proof -
      have "uint (Q - Rx ! j) = uint Q - uint (Rx ! j)" using R(2) [OF j(1)] by (intro uint_minus_simple_alt [THEN iffD1]) (simp add: word_le_def)
      moreover have "(- uint (Rx ! j)) mod uint Q = uint Q - uint (Rx ! j)"
        using R(2) [OF j(1)] by (simp add: zmod_zminus1_eq_if)
      ultimately show ?thesis using R(2) [OF j(1)] by (simp add: SubFast_def)
    qed
    then show ?thesis using v(3) j shift_entry [OF b j(1), of "\<lambda>j. uint (Rx ! j)"] by simp
  qed
  then show ?thesis using v(1,2) W(3) by (simp add: rotate_test_def)
qed

section \<open>The accumulator before the rotation\<close>

text \<open>The level of a gate with plaintext modulus \<open>p\<close>.\<close>

definition level :: "'a::len ring_state \<Rightarrow> 'a word \<Rightarrow> int" where
  "level s p = ring_mod s div (2 * uint p) + 1"

lemma level_bounds:
  assumes "2 < ring_mod s" "0 < uint p"
  shows "0 < level s p" "level s p < ring_mod s"
proof -
  have "ring_mod s div (2 * uint p) \<le> ring_mod s div 2" using assms by (intro zdiv_mono2) auto
  then show "level s p < ring_mod s" using assms(1) unfolding level_def by linarith
  have "0 \<le> ring_mod s div (2 * uint p)" using assms by (intro pos_imp_zdiv_nonneg_iff [THEN iffD2]) auto
  then show "0 < level s p" by (simp add: level_def)
qed

lemma gate_levels_value:
  fixes p :: "'a::len word"
  assumes "up_Q U = ciphertextModulus (snd (snd s))" "2 < ring_mod s" "0 < uint p" "2 * uint p < 2 ^ LENGTH('a)"
  obtains x where "gate_levels (up_Q U) p = Inr (x, up_Q U - x)" "uint x = level s p" "uint (up_Q U - x) = ring_mod s - level s p"
proof -
  let ?Q = "ciphertextModulus (snd (snd s))" and ?d = "ciphertextModulus (snd (snd s)) div MulFast 2 p"
  note B = level_bounds [OF assms(2,3)]
  have "LENGTH('a) \<noteq> 1" using assms(3,4) by auto
  then have "2 \<le> LENGTH('a)" using len_gt_0 [where 'a = 'a] by linarith
  then have two: "uint (MulFast 2 p) = 2 * uint p"
    using assms(3,4) uint_lt_pow [of p] by (simp add: MulFast_def uint_word_ariths mult.commute)
  have Q: "uint ?Q = ring_mod s" by (simp add: ring_mod_def)
  have d: "uint ?d = ring_mod s div (2 * uint p)" by (simp only: uint_div_eq two Q)
  have lt: "ring_mod s < 2 ^ LENGTH('a)" unfolding Q [symmetric] by (rule uint_lt_pow)
  have x: "uint (?d + 1) = level s p"
    using B lt d by (simp add: uint_word_ariths level_def)
  have "level s p \<le> uint ?Q" using B Q by simp
  then have y: "uint (?Q - (?d + 1)) = ring_mod s - level s p"
    using x Q by (simp add: uint_sub_lem [THEN iffD1])
  have "MulFast 2 p \<noteq> 0" using two assms(3) by auto
  then have "gate_levels (up_Q U) p = Inr (?d + 1, ?Q - (?d + 1))"
    using assms(1) by (simp add: gate_levels_def DividedBy_def AddFast_def SubFast_def Let_def add.commute)
  then show thesis using that x y assms(1) by simp
qed

text \<open>The test polynomial of the gate: the level on the lower half of the coefficients, its negation on the upper one.\<close>

definition test_poly :: "nat \<Rightarrow> int \<Rightarrow> nat \<Rightarrow> int" where
  "test_poly N x j = (if j < N div 2 then x else - x)"

text \<open>The constant coefficient of \<open>X ^ r\<close> times the test polynomial.\<close>

lemma test_poly_constant:
  fixes N h r :: nat
  assumes "N = 2 * h" "0 < h"
  shows "nega_shift N r (test_poly N x) 0 = (if r mod (2 * N) \<le> h \<or> 3 * h < r mod (2 * N) then x else - x)"
proof -
  define m where "m = r mod (2 * N)"
  have "m < 2 * N" using assms by (simp add: m_def)
  then consider "m = 0" | "0 < m" "m \<le> N" | "N < m" "m < 2 * N" by linarith
  then show ?thesis
  proof cases
    case 1
    then show ?thesis unfolding nega_shift_def m_def [symmetric] using assms by (simp add: test_poly_def)
  next
    case 2
    then have "(2 * N - m) mod (2 * N) = 2 * N - m" using assms by simp
    then show ?thesis unfolding nega_shift_def m_def [symmetric] using 2 assms by (auto simp: test_poly_def Let_def)
  next
    case 3
    then have "(2 * N - m) mod (2 * N) = 2 * N - m" using assms by simp
    then show ?thesis unfolding nega_shift_def m_def [symmetric] using 3 assms by (auto simp: test_poly_def Let_def)
  qed
qed

lemma initial_acc_runs:
  fixes U :: "'a::len uni_params"
  assumes "ready s" "gadget_ok s U g l" "up_k U = k" "0 < k" "length R = ring_len s"
    and "\<And>i. i < ring_len s \<Longrightarrow> uint (R ! i) = f i mod ring_mod s"
  shows "\<exists>acc. initial_acc arb U R (fst s) = Inr (fst s, acc) \<and> acc_ok s k acc
    \<and> (\<forall>j<ring_len s. phase k S acc j mod ring_mod s = at_point s f j * S 0 j mod ring_mod s)"
proof -
  obtain c L P where s: "s = (c, L, P)" by (cases s) auto
  let ?q = "ciphertextModulus P" and ?v = "\<lparr> m_modulus = ciphertextModulus P, m_data = R \<rparr>"
    and ?z = "poly_new P EVALUATION True"
  have r: "ftt_reachable c" "ring_params L P" "\<not> needs_tables c ?q (2 ^ L)" using assms(1) by (simp_all add: ready_def s)
  note P = ring_paramsD [OF r(2)]
  have G: "up_polyParams U = P" "up_Q U = ?q" using assms(2) by (simp_all add: gadget_ok_def s)
  have len: "length R = 2 ^ L" using assms(5) by (simp add: s ring_len_def)
  have "residue ?q (R ! i)" if "i < 2 ^ L" for i
    using assms(6) [of i] that P(11) by (intro residue_uint_mod [of _ "f i"]) (simp_all add: s ring_len_def ring_mod_def)
  then have v: "nvec_ok ?v" using P(9) len by (auto simp: nvec_ok_def in_set_conv_nth)
  let ?p = "\<lparr> p_format = COEFFICIENT, p_params = P, p_values = Some ?v \<rparr>"
  have p: "SetValues ?v COEFFICIENT (poly_new P COEFFICIENT False) = Inr ?p"
    using P(6,10) len by (simp add: SetValues_def poly_new_def)
  obtain t where t: "SetFormat arb EVALUATION ?p c = Inr (c, t)" "valued s t (at_point s (\<lambda>k. uint (R ! k)))"
    using valued_eval [OF assms(1) [unfolded s], of ?p ?v arb] v len by (auto simp: s)
  have z: "epoly s ?z" "\<And>j. j < 2 ^ L \<Longrightarrow> pev ?z j = 0"
    using r ftt_reachable_cache_ok [OF r(1)] P
    by (simp_all add: epoly_def s poly_ok_def poly_new_def SetValuesToZero_def vec_zero_def nvec_ok_def residue_def pev_def)
  let ?acc = "t # replicate (k - 1) ?z"
  have "initial_acc arb U R (fst s) = Inr (fst s, ?acc)"
    using assms(3,4) G p t(1) by (simp add: initial_acc_def s)
  moreover have "acc_ok s k ?acc" using assms(4) t(2) z(1) by (auto simp: acc_ok_def valued_def)
  moreover have "phase k S ?acc j mod ring_mod s = at_point s f j * S 0 j mod ring_mod s" if j: "j < ring_len s" for j
  proof -
    have "phase k S ?acc j = (\<Sum>u<k. if u = 0 then pev t j * S 0 j else 0)"
      unfolding phase_def using z(2) [of j] j by (intro sum.cong) (auto simp: nth_Cons' s ring_len_def)
    also have "\<dots> = pev t j * S 0 j" using assms(4) by simp
    also have "\<dots> mod ring_mod s = at_point s f j * S 0 j mod ring_mod s"
    proof (rule mod_mult_cong [OF _ refl])
      have "pev t j mod ring_mod s = at_point s (\<lambda>k. uint (R ! k)) j mod ring_mod s" using t(2) j by (simp add: valued_def)
      also have "\<dots> = at_point s f j mod ring_mod s"
        unfolding at_point_def by (rule sum_mod_cong) (simp add: assms(6) mod_mult_left_eq)
      finally show "pev t j mod ring_mod s = at_point s f j mod ring_mod s" .
    qed
    finally show ?thesis .
  qed
  ultimately show ?thesis by blast
qed

section \<open>Bootstrapping\<close>

lemma sum_list_product:
  "sum_list (map e (List.product [0..<k] [0..<n])) = (\<Sum>u<k. \<Sum>i<n. e (u, i))" for e :: "nat \<times> nat \<Rightarrow> nat"
proof -
  have "sum_list (map e (List.product us is)) = sum_list (map (\<lambda>u. sum_list (map (\<lambda>i. e (u, i)) is)) us)" for us "is" :: "nat list"
    by (induction us) (simp_all add: comp_def)
  from this [of "[0..<k]" "[0..<n]"] show ?thesis by (simp add: interv_sum_list_conv_sum_set_nat atLeast0LessThan)
qed

text \<open>The binary secrets as vectors of the multi-key scheme.\<close>

definition bit_key :: "nat \<Rightarrow> nat \<Rightarrow> (nat \<Rightarrow> nat \<Rightarrow> bool) \<Rightarrow> 'a::len nvec list \<Rightarrow> bool" where
  "bit_key k n b sb \<longleftrightarrow> length sb = k \<and> 0 < n
     \<and> (\<forall>u<k. length (m_data (sb ! u)) = n \<and> (\<forall>i<n. uint (m_data (sb ! u) ! i) = (if b u i then 1 else 0)))"

definition bit_exponent :: "(nat \<Rightarrow> nat \<Rightarrow> bool) \<Rightarrow> 'a::len nvec list \<Rightarrow> nat \<times> nat \<Rightarrow> nat" where
  "bit_exponent b a = (\<lambda>(u, i). if b u i then unat (m_data (a ! u) ! i) else 0)"

lemma bit_exponent_phase:
  assumes V: "mk_valid sb ct" "bit_key k n b sb"
    and a: "\<forall>u<length sb. vals (a ! u) = map (\<lambda>x. (- x) mod mk_modulus sb) (vals (mct_a ct ! u))"
  shows "int (unat (mct_b ct) + sum_list (map (bit_exponent b a) (List.product [0..<k] [0..<n]))) mod mk_modulus sb
    = mk_phase sb ct mod mk_modulus sb"
proof -
  note D = mk_validD [OF V(1)]
  have B: "length sb = k" "\<And>u. u < k \<Longrightarrow> length (m_data (sb ! u)) = n"
      "\<And>u i. u < k \<Longrightarrow> i < n \<Longrightarrow> uint (m_data (sb ! u) ! i) = (if b u i then 1 else 0)"
    using V(2) by (simp_all add: bit_key_def)
  have "int (sum_list (map (bit_exponent b a) (List.product [0..<k] [0..<n])))
      = (\<Sum>u<k. \<Sum>i<n. int (bit_exponent b a (u, i)))" by (simp add: sum_list_product)
  also have "\<dots> mod mk_modulus sb = (\<Sum>u<k. - inner (vals (mct_a ct ! u)) (vals (sb ! u))) mod mk_modulus sb"
  proof (rule sum_mod_cong)
    fix u
    assume u: "u < k"
    have len: "length (m_data (mct_a ct ! u)) = n" using D(7) u B by simp
    then have len': "length (m_data (a ! u)) = n" using a u B(1) by (metis length_map vals_def)
    have i: "inner (vals (mct_a ct ! u)) (vals (sb ! u)) = (\<Sum>i<n. uint (m_data (mct_a ct ! u) ! i) * (if b u i then 1 else 0))"
      using len B(2,3) u by (simp add: inner_as_sum [where n = n] vals_nth)
    have "(\<Sum>i<n. int (bit_exponent b a (u, i))) mod mk_modulus sb
        = (\<Sum>i<n. - (uint (m_data (mct_a ct ! u) ! i) * (if b u i then 1 else 0))) mod mk_modulus sb"
    proof (rule sum_mod_cong)
      fix i
      assume i: "i < n"
      have "vals (a ! u) ! i = (- uint (m_data (mct_a ct ! u) ! i)) mod mk_modulus sb"
        using a u B(1) i len by (simp add: vals_nth)
      then have "uint (m_data (a ! u) ! i) = (- uint (m_data (mct_a ct ! u) ! i)) mod mk_modulus sb"
        using i len' by (simp add: vals_nth)
      then show "int (bit_exponent b a (u, i)) mod mk_modulus sb
          = - (uint (m_data (mct_a ct ! u) ! i) * (if b u i then 1 else 0)) mod mk_modulus sb"
        by (simp add: bit_exponent_def)
    qed
    then show "(\<Sum>i<n. int (bit_exponent b a (u, i))) mod mk_modulus sb
        = - inner (vals (mct_a ct ! u)) (vals (sb ! u)) mod mk_modulus sb" by (simp add: i sum_negf)
  qed
  finally have "(uint (mct_b ct) + int (sum_list (map (bit_exponent b a) (List.product [0..<k] [0..<n])))) mod mk_modulus sb
      = (uint (mct_b ct) + (\<Sum>u<k. - inner (vals (mct_a ct ! u)) (vals (sb ! u)))) mod mk_modulus sb"
    by (intro mod_add_cong refl)
  then show ?thesis by (simp only: mk_phase_def B(1) of_nat_add sum_negf add_uminus_conv_diff uint_nat [symmetric])
qed

text \<open>The noise of a rotation: that of its steps, rotated by the steps that follow.\<close>

definition rotation_noise ::
  "'a::len ring_state \<Rightarrow> nat \<Rightarrow> nat \<Rightarrow> nat \<Rightarrow> nat \<Rightarrow> (nat \<Rightarrow> nat \<Rightarrow> bool) \<Rightarrow> hybrid \<Rightarrow> (nat \<Rightarrow> nat \<Rightarrow> hybrid) \<Rightarrow> 'a nvec list
     \<Rightarrow> (nat \<Rightarrow> int) \<Rightarrow> bool" where
  "rotation_noise s g l k n b Hs H a \<nu> \<longleftrightarrow> (\<exists>\<eta>.
     (\<forall>t<k * n. noise_of s g l k (binary_step_key s a Hs H (List.product [0..<k] [0..<n] ! t)) (\<eta> t))
     \<and> (\<forall>j. \<nu> j = rotated_phase s (bit_exponent b a) (List.product [0..<k] [0..<n]) (\<lambda>_. 0) \<eta> j))"

definition boot_inputs ::
  "'a::len ring_state \<Rightarrow> 'a uni_params \<Rightarrow> nat \<Rightarrow> nat \<Rightarrow> nat \<Rightarrow> nat \<Rightarrow> 'a acckey \<Rightarrow> 'a poly list list \<Rightarrow> (nat \<Rightarrow> nat \<Rightarrow> bool) \<Rightarrow> hybrid
     \<Rightarrow> (nat \<Rightarrow> nat \<Rightarrow> hybrid) \<Rightarrow> bool" where
  "boot_inputs s U g l k n ek Pkey b Hs H \<longleftrightarrow> rotation_params s U g l k \<and> binary_keys s g l k n ek Pkey b Hs H
     \<and> (2 * ring_len s) * (2 * ring_len s) \<le> 2 ^ LENGTH('a)
     \<and> (\<forall>j<ring_len s. hy_M Hs j * hy_S Hs 0 j mod ring_mod s = 1 mod ring_mod s)"

text \<open>A ciphertext over the exponents of the ring.\<close>

definition boot_ct :: "'a::len ring_state \<Rightarrow> nat \<Rightarrow> nat \<Rightarrow> (nat \<Rightarrow> nat \<Rightarrow> bool) \<Rightarrow> 'a nvec list \<Rightarrow> 'a mklwe_ct \<Rightarrow> bool" where
  "boot_ct s k n b sb ct \<longleftrightarrow> mk_valid sb ct \<and> bit_key k n b sb \<and> mk_modulus sb = 2 * int (ring_len s)
     \<and> 0 < uint (mct_p ct) \<and> 2 * uint (mct_p ct) < 2 ^ LENGTH('a)"

lemma rotation_params_ring:
  fixes U :: "'a::len uni_params"
  assumes "rotation_params s U g l k"
  obtains L where "ring_len s = 2 ^ L" "0 < L" "L \<le> 24" "2 < ring_mod s" "up_N U = 2 ^ L" "up_Q U = ciphertextModulus (snd (snd s))"
    "ready s" "gadget_ok s U g l" "up_k U = k" "2 * 2 ^ L < (2 :: nat) ^ LENGTH('a)"
proof -
  obtain c L P where s: "s = (c, L, P)" by (cases s) auto
  have r: "ready s" "gadget_ok s U g l" "up_k U = k" "2 * 2 ^ L < (2 :: nat) ^ LENGTH('a)"
    using assms by (simp_all add: rotation_params_def s ring_len_def)
  have rp: "ring_params L P" using r(1) by (simp add: ready_def s)
  note P = ring_paramsD [OF rp]
  have "2 < ring_mod s" using valid_root_modulus [OF P(3)] by (simp add: ring_mod_def s)
  then show thesis using that [of L] r P(4,5) r(2) by (simp add: s ring_len_def gadget_ok_def)
qed

lemma exponent_scaled:
  fixes b m :: "'a::len word" and N :: "32 word"
  assumes "unat m = 2 * unat N" "unat b < 2 * unat N" "(2 * unat N) * (2 * unat N) \<le> 2 ^ LENGTH('a)" "2 * unat N < 2 ^ LENGTH('a)"
  shows "DividedBy (MulFast (MulFast b 2) (ucast N)) m = Inr b"
proof -
  let ?N = "unat N"
  have w: "unat (ucast N :: 'a word) = ?N" using assms(4) by (simp add: unsigned_ucast_eq take_bit_nat_eq_self_iff)
  have n: "0 < ?N" using assms(2) by simp
  have "unat b * (2 * ?N) < (2 * ?N) * (2 * ?N)" using assms(2) n by (intro mult_strict_right_mono) simp_all
  then have "unat b * (2 * ?N) < 2 ^ LENGTH('a)" using assms(3) by (rule less_le_trans)
  then have lt: "2 * unat b * ?N < 2 ^ LENGTH('a)" by (simp only: mult.assoc mult.commute mult.left_commute)
  have "unat (ucast N * (2 * b)) = ?N * unat (2 * b) mod 2 ^ LENGTH('a)" by (simp add: unat_word_ariths w)
  also have "\<dots> = ?N * (2 * unat b) mod 2 ^ LENGTH('a)"
    using unat_word_ariths(1) [of b b] by (simp only: mult_2 mod_mult_right_eq)
  also have "\<dots> = 2 * unat b * ?N" using lt by (simp add: mult.commute mult.left_commute)
  finally have u: "unat (ucast N * (2 * b)) = 2 * unat b * ?N" .
  have "m \<noteq> 0" using assms(1) n by auto
  moreover have "unat (ucast N * (2 * b) div m) = unat b" using n by (simp add: unat_div u assms(1))
  ultimately show ?thesis by (simp add: DividedBy_def MulFast_def word_unat_eq_iff)
qed

lemma boot_start:
  fixes U :: "'a::len uni_params"
  assumes "boot_inputs s U g l k n ek Pkey b Hs H" "boot_ct s k n b sb ct" "0 < k"
  obtains x R acc where "gate_levels (up_Q U) (mct_p ct) = Inr (x, up_Q U - x)"
    "DividedBy (MulFast (MulFast (mct_b ct) 2) (ucast (up_N U))) (mct_modulus ct) = Inr (mct_b ct)"
    "rotate_test (up_Q U) (up_N U) (mct_b ct) (test_vector (unat (up_N U)) x (up_Q U - x)) = Inr R"
    "initial_acc arb U R (fst s) = Inr (fst s, acc)" "acc_ok s k acc"
    "\<And>j. j < ring_len s \<Longrightarrow> phase k (hy_S Hs) acc j mod ring_mod s
       = point s j ^ unat (mct_b ct) * at_point s (test_poly (ring_len s) (level s (mct_p ct))) j * hy_S Hs 0 j mod ring_mod s"
proof -
  have P: "rotation_params s U g l k" and sq: "(2 * ring_len s) * (2 * ring_len s) \<le> 2 ^ LENGTH('a)"
    using assms(1) by (simp_all add: boot_inputs_def)
  obtain L where L: "ring_len s = 2 ^ L" "0 < L" "L \<le> 24" "2 < ring_mod s" "up_N U = 2 ^ L" "up_Q U = ciphertextModulus (snd (snd s))"
      "ready s" "gadget_ok s U g l" "up_k U = k" "2 * 2 ^ L < (2 :: nat) ^ LENGTH('a)"
    using rotation_params_ring [OF P] .
  have C: "mk_valid sb ct" "mk_modulus sb = 2 * int (ring_len s)" "0 < uint (mct_p ct)" "2 * uint (mct_p ct) < 2 ^ LENGTH('a)"
    using assms(2) by (simp_all add: boot_ct_def)
  let ?N = "ring_len s" and ?q = "ring_mod s" and ?b = "mct_b ct" and ?lv = "level s (mct_p ct)"
  have N: "unat (up_N U) = ?N" using unat_power2 [of L] L(1,3,5) by simp
  obtain x where x: "gate_levels (up_Q U) (mct_p ct) = Inr (x, up_Q U - x)" "uint x = ?lv" "uint (up_Q U - x) = ?q - ?lv"
    using gate_levels_value [OF L(6,4) C(3,4)] .
  note B = level_bounds [OF L(4) C(3)]
  have "int (unat ?b) < int (2 * ?N)" unfolding uint_nat [symmetric] using mk_validD(2) [OF C(1)] C(2) by (simp add: residue_def)
  then have b: "unat ?b < 2 * 2 ^ L" by (simp only: of_nat_less_iff L(1))
  let ?R = "test_vector ?N x (up_Q U - x)"
  have R: "length ?R = 2 ^ L" "j < 2 ^ L \<Longrightarrow> 0 < uint (?R ! j) \<and> uint (?R ! j) < uint (up_Q U)"
      "j < 2 ^ L \<Longrightarrow> uint (?R ! j) mod ?q = test_poly ?N ?lv j mod ?q" for j
  proof -
    have e: "?R ! j = (if j < ?N div 2 then x else up_Q U - x)" if "j < 2 ^ L" using that L(1) by (simp add: test_vector_def)
    have Q: "uint (up_Q U) = ?q" using L(6) by (simp add: ring_mod_def)
    show "length ?R = 2 ^ L" using L(1) by (simp add: test_vector_def)
    show "j < 2 ^ L \<Longrightarrow> 0 < uint (?R ! j) \<and> uint (?R ! j) < uint (up_Q U)" using x(2,3) B e by (simp add: Q)
    have "(?q - ?lv) mod ?q = - ?lv mod ?q" using mod_add_self1 [of ?q "- ?lv"] by simp
    then show "j < 2 ^ L \<Longrightarrow> uint (?R ! j) mod ?q = test_poly ?N ?lv j mod ?q" using x(2,3) e by (simp add: test_poly_def)
  qed
  obtain v where v: "rotate_test (up_Q U) (2 ^ L) ?b ?R = Inr v" "length v = 2 ^ L"
      "\<forall>i<2 ^ L. uint (v ! i) = nega_shift (2 ^ L) (unat ?b) (\<lambda>j. uint (?R ! j)) i mod uint (up_Q U)"
    using rotate_test_value [OF L(3,10) b R(1,2)] by blast
  let ?f = "nega_shift ?N (unat ?b) (\<lambda>j. uint (?R ! j))"
  obtain acc where acc: "initial_acc arb U v (fst s) = Inr (fst s, acc)" "acc_ok s k acc"
      "\<forall>j<?N. phase k (hy_S Hs) acc j mod ?q = at_point s ?f j * hy_S Hs 0 j mod ?q"
    using initial_acc_runs [OF L(7,8,9) assms(3), of v ?f arb "hy_S Hs"] v(2,3) L(1,6) by (auto simp: ring_mod_def)
  have "phase k (hy_S Hs) acc j mod ?q = point s j ^ unat ?b * at_point s (test_poly ?N ?lv) j * hy_S Hs 0 j mod ?q"
    if j: "j < ?N" for j
  proof -
    have "at_point s ?f j mod ?q = point s j ^ unat ?b * at_point s (\<lambda>j. uint (?R ! j)) j mod ?q"
      by (rule at_point_shift [OF L(7) j])
    also have "\<dots> = point s j ^ unat ?b * at_point s (test_poly ?N ?lv) j mod ?q"
      unfolding at_point_def by (intro mod_mult_cong [OF refl] sum_mod_cong mod_mult_cong R(3) refl) (simp add: L(1))
    finally have "at_point s ?f j * hy_S Hs 0 j mod ?q = point s j ^ unat ?b * at_point s (test_poly ?N ?lv) j * hy_S Hs 0 j mod ?q"
      by (rule mod_mult_cong [OF _ refl])
    then show ?thesis using acc(3) j by simp
  qed
  moreover have "DividedBy (MulFast (MulFast ?b 2) (ucast (up_N U))) (mct_modulus ct) = Inr ?b"
  proof (rule exponent_scaled)
    have "int (unat (mct_modulus ct)) = int (2 * unat (up_N U))"
      unfolding uint_nat [symmetric] mk_validD(3) [OF C(1)] C(2) N by simp
    then show "unat (mct_modulus ct) = 2 * unat (up_N U)" by (simp only: of_nat_eq_iff)
    show "unat ?b < 2 * unat (up_N U)" unfolding N L(1) by (rule b)
    show "(2 * unat (up_N U)) * (2 * unat (up_N U)) \<le> 2 ^ LENGTH('a)" unfolding N by (rule sq)
    show "2 * unat (up_N U) < 2 ^ LENGTH('a)" unfolding N L(1) by (rule L(10))
  qed
  ultimately show thesis using that [OF x(1) _ _ acc(1,2)] v(1) N L(5) by simp
qed

lemma boot_masks:
  assumes "boot_ct s k n b sb ct"
  obtains a where "GetAneg ct = Inr a" "exponents_ok s k n a"
    "\<forall>u<length sb. vals (a ! u) = map (\<lambda>x. (- x) mod mk_modulus sb) (vals (mct_a ct ! u))"
proof -
  have V: "mk_valid sb ct" "bit_key k n b sb" "mk_modulus sb = 2 * int (ring_len s)" using assms by (simp_all add: boot_ct_def)
  note D = mk_validD [OF V(1)]
  have B: "length sb = k" "0 < n" "\<forall>u<length sb. length (m_data (sb ! u)) = n" using V(2) by (auto simp: bit_key_def)
  obtain a where a: "GetAneg ct = Inr a" "length a = length sb" "\<forall>u<length sb. nvec_ok (a ! u) \<and> m_modulus (a ! u) = m_modulus (sb ! 0)
       \<and> vals (a ! u) = map (\<lambda>x. (- x) mod mk_modulus sb) (vals (mct_a ct ! u))"
    using mk_GetAneg_value [OF V(1) B(3)] .
  have len: "length (m_data (a ! u)) = n" if "u < k" for u
  proof -
    have "length (vals (a ! u)) = n" using a(3) that B(1,3) D(7) [of u] by simp
    then show ?thesis by simp
  qed
  have "unat (m_data (a ! u) ! i) \<le> 2 * ring_len s" if "u < k" "i < n" for u i
  proof -
    have "residue (m_modulus (sb ! 0)) (m_data (a ! u) ! i)" using a(3) that B(1) len nvec_ok_nth [of "a ! u" i] by auto
    then have "int (unat (m_data (a ! u) ! i)) < int (2 * ring_len s)"
      unfolding uint_nat [symmetric] using V(3) by (simp add: residue_def)
    then show ?thesis by (simp only: of_nat_less_iff less_imp_le)
  qed
  moreover have "0 < k" using V(1) B(1) by (auto simp: mk_valid_def)
  ultimately have "exponents_ok s k n a" using a(2) B len by (simp add: exponents_ok_def)
  then show thesis using that [OF a(1)] a(3) by blast
qed

lemma rotated_phase_split:
  "rotated_phase s e xs p \<eta> j = point s j ^ sum_list (map e xs) * p j + rotated_phase s e xs (\<lambda>_. 0) \<eta> j"
  by (simp add: rotated_phase_def)

lemma BootstrapGateCore_phase:
  fixes U :: "'a::len uni_params"
  assumes I: "boot_inputs s U g l k n ek Pkey b Hs H" and C: "boot_ct s k n b sb ct"
    and M: "method = MKNTRU_B \<or> method = MKNTRU_LWE"
  shows "\<exists>a acc \<nu>. GetAneg ct = Inr a \<and> BootstrapGateCore_MKLWE method arb U (Some ek) Pkey ct (fst s) = Inr (fst s, acc)
    \<and> acc_ok s k acc \<and> rotation_noise s g l k n b Hs H a \<nu>
    \<and> (\<forall>j<ring_len s. phase k (hy_S Hs) acc j mod ring_mod s
         = (at_point s (nega_shift (ring_len s) (nat (mk_phase sb ct mod mk_modulus sb)) (test_poly (ring_len s) (level s (mct_p ct)))) j
            + \<nu> j) mod ring_mod s)"
proof -
  have P: "rotation_params s U g l k" "binary_keys s g l k n ek Pkey b Hs H"
      "\<And>j. j < ring_len s \<Longrightarrow> hy_M Hs j * hy_S Hs 0 j mod ring_mod s = 1 mod ring_mod s"
    using I by (simp_all add: boot_inputs_def)
  have V: "mk_valid sb ct" "bit_key k n b sb" "mk_modulus sb = 2 * int (ring_len s)" using C by (simp_all add: boot_ct_def)
  have k: "0 < k" "mct_a ct \<noteq> []" using V(1,2) mk_validD(4) [OF V(1)] by (auto simp: mk_valid_def bit_key_def)
  have R: "ready s" using P(1) by (simp add: rotation_params_def)
  obtain a where a: "GetAneg ct = Inr a" "exponents_ok s k n a"
      "\<forall>u<length sb. vals (a ! u) = map (\<lambda>x. (- x) mod mk_modulus sb) (vals (mct_a ct ! u))"
    using boot_masks [OF C] .
  let ?N = "ring_len s" and ?q = "ring_mod s" and ?R = "test_poly (ring_len s) (level s (mct_p ct))"
    and ?xs = "List.product [0..<k] [0..<n]" and ?e = "bit_exponent b a"
  obtain x v acc where S: "gate_levels (up_Q U) (mct_p ct) = Inr (x, up_Q U - x)"
      "DividedBy (MulFast (MulFast (mct_b ct) 2) (ucast (up_N U))) (mct_modulus ct) = Inr (mct_b ct)"
      "rotate_test (up_Q U) (up_N U) (mct_b ct) (test_vector (unat (up_N U)) x (up_Q U - x)) = Inr v"
      "initial_acc arb U v (fst s) = Inr (fst s, acc)" "acc_ok s k acc"
      "\<And>j. j < ?N \<Longrightarrow> phase k (hy_S Hs) acc j mod ?q = point s j ^ unat (mct_b ct) * at_point s ?R j * hy_S Hs 0 j mod ?q"
    using boot_start [OF I C k(1)] by blast
  obtain acc' \<eta> where E: "EvalAcc_B arb U ek Pkey a acc (fst s) = Inr (fst s, acc')" "acc_ok s k acc'"
      "\<forall>t<k * n. noise_of s g l k (binary_step_key s a Hs H (?xs ! t)) (\<eta> t)"
      "\<forall>j<?N. phase k (hy_S Hs) acc' j mod ?q = rotated_phase s ?e ?xs (\<lambda>j. hy_M Hs j * phase k (hy_S Hs) acc j) \<eta> j mod ?q"
    using EvalAcc_B_rotates [OF P(1,2) S(5) a(2), of arb] unfolding bit_exponent_def Let_def by blast
  let ?E = "unat (mct_b ct) + sum_list (map ?e ?xs)" and ?\<phi> = "nat (mk_phase sb ct mod mk_modulus sb)"
  have "int ?E mod int (2 * ?N) = mk_phase sb ct mod mk_modulus sb" using bit_exponent_phase [OF V(1,2) a(3)] V(3) by simp
  then have E2: "?E mod (2 * ?N) = ?\<phi>" by (metis nat_int zmod_int)
  have "phase k (hy_S Hs) acc' j mod ?q = (at_point s (nega_shift ?N ?\<phi> ?R) j + rotated_phase s ?e ?xs (\<lambda>_. 0) \<eta> j) mod ?q"
    if j: "j < ?N" for j
  proof -
    let ?z = "point s j" and ?A = "at_point s ?R j"
    have "hy_M Hs j * phase k (hy_S Hs) acc j mod ?q = hy_M Hs j * (?z ^ unat (mct_b ct) * ?A * hy_S Hs 0 j) mod ?q"
      by (rule mod_mult_cong [OF refl S(6) [OF j]])
    also have "\<dots> = (hy_M Hs j * hy_S Hs 0 j) * (?z ^ unat (mct_b ct) * ?A) mod ?q" by (simp only: ac_simps)
    also have "\<dots> = 1 * (?z ^ unat (mct_b ct) * ?A) mod ?q" by (rule mod_mult_cong [OF P(3) [OF j] refl])
    finally have "?z ^ sum_list (map ?e ?xs) * (hy_M Hs j * phase k (hy_S Hs) acc j) mod ?q
        = ?z ^ sum_list (map ?e ?xs) * (1 * (?z ^ unat (mct_b ct) * ?A)) mod ?q" by (rule mod_mult_cong [OF refl])
    also have "?z ^ sum_list (map ?e ?xs) * (1 * (?z ^ unat (mct_b ct) * ?A)) = ?z ^ ?E * ?A" by (simp add: power_add ac_simps)
    also have "\<dots> mod ?q = ?z ^ ?\<phi> * ?A mod ?q"
      unfolding E2 [symmetric] by (rule mod_mult_cong [OF power_mod_order [OF point_order(1) [OF R j], symmetric] refl])
    also have "\<dots> = at_point s (nega_shift ?N ?\<phi> ?R) j mod ?q" by (rule at_point_shift [OF R j, symmetric])
    finally show ?thesis using E(4) j unfolding rotated_phase_split [of s ?e ?xs "\<lambda>j. hy_M Hs j * phase k (hy_S Hs) acc j"]
      by (metis mod_add_left_eq)
  qed
  moreover have "rotation_noise s g l k n b Hs H a (rotated_phase s ?e ?xs (\<lambda>_. 0) \<eta>)"
    using E(3) unfolding rotation_noise_def by blast
  moreover have "BootstrapGateCore_MKLWE method arb U (Some ek) Pkey ct (fst s) = Inr (fst s, acc')"
    using S(1-4) a(1) E(1) k(2) M by (auto simp: BootstrapGateCore_MKLWE_def Let_def mk_EvalAcc_def SubFast_def)
  ultimately show ?thesis using a(1) E(2) by blast
qed

section \<open>The output of the bootstrapping\<close>

definition rotated_sign :: "nat \<Rightarrow> int \<Rightarrow> int" where
  "rotated_sign N \<phi> = (if 2 * \<phi> \<le> int N \<or> 3 * int N < 2 * \<phi> then 1 else - 1)"

lemma rotated_extracts:
  assumes R: "ready s" "ring_len s = 2 ^ L" "0 < L" and A: "acc_ok s k acc" and \<phi>: "0 \<le> \<phi>" "\<phi> < 2 * int (ring_len s)"
    and S: "\<And>u j. u < k \<Longrightarrow> j < ring_len s \<Longrightarrow> S u j mod ring_mod s = at_point s (t u) j mod ring_mod s"
    and P: "\<forall>j<ring_len s. phase k S acc j mod ring_mod s
      = (at_point s (nega_shift (ring_len s) (nat \<phi>) (test_poly (ring_len s) x)) j + \<nu> j) mod ring_mod s"
  obtains vs e where "extract_acc arb k acc (fst s) = Inr (fst s, vs)" "length vs = k" "\<forall>u<k. coef_ok s (vs ! u)"
    "\<forall>j<ring_len s. at_point s e j mod ring_mod s = \<nu> j mod ring_mod s"
    "(\<Sum>u<k. \<Sum>i<ring_len s. uint (m_data (vs ! u) ! i) * t u i) mod ring_mod s
       = (rotated_sign (ring_len s) \<phi> * x + e 0) mod ring_mod s"
proof -
  let ?N = "ring_len s" and ?q = "ring_mod s"
  obtain vs where v: "extract_acc arb k acc (fst s) = Inr (fst s, vs)" "length vs = k" "\<forall>u<k. coef_ok s (vs ! u)"
    using extract_runs [OF R(1) A, of arb] by blast
  obtain e where e: "\<forall>j<?N. at_point s e j mod ?q = \<nu> j mod ?q" using values_exist [OF R(1)] by blast
  let ?h = "\<lambda>i. nega_shift ?N (nat \<phi>) (test_poly ?N x) i + e i"
  have ph: "phase k S acc j mod ?q = at_point s ?h j mod ?q" if "j < ?N" for j
  proof -
    have "phase k S acc j mod ?q = (at_point s (nega_shift ?N (nat \<phi>) (test_poly ?N x)) j + \<nu> j) mod ?q"
      using P that by blast
    also have "\<dots> = (at_point s (nega_shift ?N (nat \<phi>) (test_poly ?N x)) j + at_point s e j) mod ?q"
      using e that by (intro mod_add_cong refl) simp
    finally show ?thesis by (simp only: at_point_add)
  qed
  have c: "(\<Sum>u<k. \<Sum>i<?N. uint (m_data (vs ! u) ! i) * t u i) mod ?q = ?h 0 mod ?q"
    by (rule extract_constant [OF R(1) A v(1) S ph])
  obtain h where h: "?N = 2 * h" "0 < h" using R(2,3) by (cases L) auto
  have "nat \<phi> mod (2 * ?N) = nat \<phi>" using \<phi> by simp
  then have "nega_shift ?N (nat \<phi>) (test_poly ?N x) 0 = (if nat \<phi> \<le> h \<or> 3 * h < nat \<phi> then x else - x)"
    using test_poly_constant [OF h, of "nat \<phi>" x] by simp
  also have "\<dots> = rotated_sign ?N \<phi> * x"
  proof -
    have "nat \<phi> \<le> h \<longleftrightarrow> 2 * \<phi> \<le> int ?N" "3 * h < nat \<phi> \<longleftrightarrow> 3 * int ?N < 2 * \<phi>" using \<phi>(1) h(1) by linarith+
    then show ?thesis by (simp add: rotated_sign_def)
  qed
  finally have "(\<Sum>u<k. \<Sum>i<?N. uint (m_data (vs ! u) ! i) * t u i) mod ?q = (rotated_sign ?N \<phi> * x + e 0) mod ?q"
    using c by simp
  then show thesis by (rule that [OF v e])
qed

lemma Bootstrap_extracts:
  fixes U :: "'a::len uni_params"
  assumes I: "boot_inputs s U g l k n ek Pkey b Hs H" and C: "boot_ct s k n b sb ct"
    and M: "method = MKNTRU_B \<or> method = MKNTRU_LWE"
    and S: "\<And>u j. u < k \<Longrightarrow> j < ring_len s \<Longrightarrow> hy_S Hs u j mod ring_mod s = at_point s (t u) j mod ring_mod s"
  obtains a acc vs \<nu> e where "GetAneg ct = Inr a"
    "BootstrapGateCore_MKLWE method arb U (Some ek) Pkey ct (fst s) = Inr (fst s, acc)"
    "extract_acc arb k acc (fst s) = Inr (fst s, vs)" "length vs = k" "\<forall>u<k. coef_ok s (vs ! u)"
    "rotation_noise s g l k n b Hs H a \<nu>" "\<forall>j<ring_len s. at_point s e j mod ring_mod s = \<nu> j mod ring_mod s"
    "(\<Sum>u<k. \<Sum>i<ring_len s. uint (m_data (vs ! u) ! i) * t u i) mod ring_mod s
       = (rotated_sign (ring_len s) (mk_phase sb ct mod mk_modulus sb) * level s (mct_p ct) + e 0) mod ring_mod s"
proof -
  let ?N = "ring_len s" and ?q = "ring_mod s" and ?\<phi> = "mk_phase sb ct mod mk_modulus sb" and ?lv = "level s (mct_p ct)"
  obtain L where L: "?N = 2 ^ L" "0 < L" "ready s"
    using rotation_params_ring I unfolding boot_inputs_def by metis
  obtain a acc \<nu> where B: "GetAneg ct = Inr a" "BootstrapGateCore_MKLWE method arb U (Some ek) Pkey ct (fst s) = Inr (fst s, acc)"
      "acc_ok s k acc" "rotation_noise s g l k n b Hs H a \<nu>"
      "\<forall>j<?N. phase k (hy_S Hs) acc j mod ?q = (at_point s (nega_shift ?N (nat ?\<phi>) (test_poly ?N ?lv)) j + \<nu> j) mod ?q"
    using BootstrapGateCore_phase [OF I C M, of arb] by blast
  have "mk_modulus sb = int (2 * ?N)" using C by (simp add: boot_ct_def)
  then have "0 \<le> ?\<phi>" "?\<phi> < 2 * int ?N" using L(1) by simp_all
  from rotated_extracts [OF L(3,1,2) B(3) this S B(5)] obtain vs e where "extract_acc arb k acc (fst s) = Inr (fst s, vs)" "length vs = k"
      "\<forall>u<k. coef_ok s (vs ! u)" "\<forall>j<?N. at_point s e j mod ?q = \<nu> j mod ?q"
      "(\<Sum>u<k. \<Sum>i<?N. uint (m_data (vs ! u) ! i) * t u i) mod ?q = (rotated_sign ?N ?\<phi> * ?lv + e 0) mod ?q" .
  then show thesis by (intro that [OF B(1,2) _ _ _ B(4)])
qed

section \<open>Modulus switching between keys\<close>

lemma mk_ModSwitch_phase:
  fixes ct :: "'a::len mklwe_ct" and t :: "nat \<Rightarrow> nat \<Rightarrow> int"
  assumes R: "round_ok q (mct_modulus ct)" and V: "mk_valid s ct" and n: "\<forall>u<length s. length (m_data (s ! u)) = n"
    and q: "modulus_ok q" and s': "length s' = length s" "mk_key (length s) n q ((!) s')"
    and t: "\<And>u i. u < length s \<Longrightarrow> i < n \<Longrightarrow> uint (m_data (s' ! u) ! i) mod uint q = t u i mod uint q"
  obtains z err where "mk_ModSwitch q ct = Inr z" "mk_valid s' z" "mct_p z = 4"
    "\<bar>err\<bar> \<le> mk_modulus s * (1 + (\<Sum>u<length s. \<Sum>i<n. \<bar>t u i\<bar>))"
    "2 * mk_modulus s * mk_phase s' z mod (2 * mk_modulus s * uint q)
       = (2 * uint q * (uint (mct_b ct) - (\<Sum>u<length s. \<Sum>i<n. uint (m_data (mct_a ct ! u) ! i) * t u i)) + err)
           mod (2 * mk_modulus s * uint q)"
proof -
  let ?k = "length s" and ?t = "map (\<lambda>u. map (t u) [0..<n]) [0..<length s]"
  note D = mk_validD [OF V]
  obtain z where z: "mk_ModSwitch q ct = Inr z" "length (mct_a z) = ?k"
      "\<forall>u<?k. m_modulus (mct_a z ! u) = q \<and> vals (mct_a z ! u) = map (\<lambda>x. scale_round x (uint q) (mk_modulus s) mod uint q) (vals (mct_a ct ! u))"
      "uint (mct_b z) = scale_round (uint (mct_b ct)) (uint q) (mk_modulus s) mod uint q"
    using mk_ModSwitch_value [OF R V n] .
  have k: "0 < ?k" using V by (auto simp: mk_valid_def)
  have pos: "0 < uint q" using q by (rule modulus_okD)
  have len: "length (m_data (mct_a z ! u)) = n" if "u < ?k" for u
  proof -
    have "length (vals (mct_a z ! u)) = n" using z(3) that n D(7) [OF that] by simp
    then show ?thesis by simp
  qed
  have ok: "nvec_ok (mct_a z ! u)" if "u < ?k" for u
  proof -
    have "uint (m_data (mct_a z ! u) ! i) < uint q" if "i < n" for i
    proof -
      have "uint (m_data (mct_a z ! u) ! i) = scale_round (vals (mct_a ct ! u) ! i) (uint q) (mk_modulus s) mod uint q"
        using vals_nth [of i "mct_a z ! u"] z(3) \<open>u < ?k\<close> that len [OF \<open>u < ?k\<close>] n D(7) [OF \<open>u < ?k\<close>] by simp
      then show ?thesis using pos_mod_bound [OF pos] by simp
    qed
    then show ?thesis using z(3) that q len [OF that] by (auto simp: nvec_ok_def in_set_conv_nth residue_def)
  qed
  have s0: "m_modulus (s' ! u) = q" "nvec_ok (s' ! u)" "length (m_data (s' ! u)) = n" if "u < ?k" for u
    using s'(2) that by (simp_all add: mk_key_def)
  have valid: "mk_valid s' z"
    using k s'(1) z(2,3,4) ok s0 len pos by (auto simp: mk_valid_def same_shape_def residue_def)
  have b: "(\<Sum>y \<leftarrow> concat ?t. \<bar>y\<bar>) = (\<Sum>u<?k. \<Sum>i<n. \<bar>t u i\<bar>)"
  proof -
    have "(\<Sum>y \<leftarrow> concat (map f us). \<bar>y\<bar>) = (\<Sum>u \<leftarrow> us. \<Sum>y \<leftarrow> f u. \<bar>y\<bar>)" for f :: "nat \<Rightarrow> int list" and us
      by (induction us) simp_all
    then show ?thesis by (simp add: comp_def interv_sum_list_conv_sum_set_nat atLeast0LessThan)
  qed
  have ic: "inner (vals (mct_a ct ! u)) (?t ! u) = (\<Sum>i<n. uint (m_data (mct_a ct ! u) ! i) * t u i)" if "u < ?k" for u
    using that n D(7) [OF that] by (simp add: inner_as_sum [where n = n] vals_nth)
  have iz: "inner (vals (mct_a z ! u)) (vals (s' ! u)) mod uint q = inner (vals (mct_a z ! u)) (?t ! u) mod uint q" if "u < ?k" for u
  proof -
    have "(\<Sum>i<n. uint (m_data (mct_a z ! u) ! i) * uint (m_data (s' ! u) ! i)) mod uint q
        = (\<Sum>i<n. uint (m_data (mct_a z ! u) ! i) * t u i) mod uint q"
      using t [OF that] by (intro sum_mod_cong mod_mult_cong refl)
    then show ?thesis using that len s0(3) by (simp add: inner_as_sum [where n = n] vals_nth)
  qed
  obtain z' err where e: "mk_ModSwitch q ct = Inr z'" "\<bar>err\<bar> \<le> mk_modulus s * (1 + (\<Sum>y \<leftarrow> concat ?t. \<bar>y\<bar>))"
      "(2 * mk_modulus s * (uint (mct_b z') - (\<Sum>u<?k. inner (vals (mct_a z' ! u)) (?t ! u)))) mod (2 * mk_modulus s * uint q)
      = (2 * uint q * (uint (mct_b ct) - (\<Sum>u<?k. inner (vals (mct_a ct ! u)) (?t ! u))) + err) mod (2 * mk_modulus s * uint q)"
    using MKLWE_ModSwitch_error [OF R V, of ?t n] n by auto
  have zz: "z' = z" using e(1) z(1) by simp
  have "mk_phase s' z mod uint q = (uint (mct_b z) - (\<Sum>u<?k. inner (vals (mct_a z ! u)) (?t ! u))) mod uint q"
    unfolding mk_phase_def s'(1) by (intro mod_diff_cong sum_mod_cong iz refl)
  then have "2 * mk_modulus s * mk_phase s' z mod (2 * mk_modulus s * uint q)
      = 2 * mk_modulus s * (uint (mct_b z) - (\<Sum>u<?k. inner (vals (mct_a z ! u)) (?t ! u))) mod (2 * mk_modulus s * uint q)"
    by (simp only: mult_mod_right [symmetric])
  also have "\<dots> = (2 * uint q * (uint (mct_b ct) - (\<Sum>u<?k. \<Sum>i<n. uint (m_data (mct_a ct ! u) ! i) * t u i)) + err)
      mod (2 * mk_modulus s * uint q)"
    using e(3) ic unfolding zz by simp
  finally have "2 * mk_modulus s * mk_phase s' z mod (2 * mk_modulus s * uint q) = \<dots>" .
  moreover have "mct_p z = 4" using z(1) by (auto simp: mk_ModSwitch_def MKLWECiphertext_def Let_def split: if_splits)
  ultimately show thesis using that [OF z(1) valid _ e(2) [unfolded b]] by blast
qed

end
