(* ===== verification/MKNand.thy ===== *)
theory MKNand
  imports MKBoot
begin

text \<open>
  The NAND gate of the multi-key scheme, \<^verbatim>\<open>BinFHEScheme::EvalBinGate\<close> on multi-key ciphertexts:
  preparation, modulus switch, bootstrapping, extraction, modulus switch and key switch.
\<close>

section \<open>The prepared ciphertext\<close>

lemma nand_prep_phase:
  fixes mp :: "'a::len mklwe_params"
  assumes q: "5 * uint (mp_q mp) < 2 ^ 32" "mk_modulus s = uint (mp_q mp)" "mk_key (mp_k mp) (mp_n mp) (mp_q mp) ((!) s)"
    and V: "mk_valid s ct1" "mk_valid s ct2" "length s = mp_k mp"
  obtains z where "nand_prep mp ct1 ct2 = Inr z" "mk_valid s z"
    "mk_phase s z mod uint (mp_q mp) = (5 * uint (mp_q mp) div 8 - mk_phase s ct1 - mk_phase s ct2) mod uint (mp_q mp)"
proof -
  let ?q = "mp_q mp" and ?w = "ucast (mp_q mp) :: 32 word"
  note D = mk_validD [OF V(1)]
  have pos: "0 < uint ?q" using D(8) q(2) by simp
  have w: "uint ?w = uint ?q" using q(1) pos by (intro uint_ucast_small) simp
  have "uint (ucast ?w :: 'a word) = uint ?w" by (rule uint_ucast_small) (simp only: w uint_lt_pow)
  then have bk: "ucast ?w = ?q" by (simp only: word_uint_eq_iff w)
  have "uint (5 * ?w) = 5 * uint ?q" using q(1) w by (simp add: uint_word_ariths)
  then have five: "uint (5 * ?w div 8) = 5 * uint ?q div 8" by (simp add: uint_div_eq)
  have lt: "5 * uint ?q div 8 < uint ?q" "0 \<le> 5 * uint ?q div 8" using pos by linarith+
  define tb where "tb = (ucast (5 * ?w div 8) :: 'a word)"
  have "5 * uint ?q div 8 < 2 ^ LENGTH('a)" using lt(1) uint_lt_pow [of ?q] by (rule less_trans)
  then have tb: "uint tb = 5 * uint ?q div 8"
    unfolding tb_def five [symmetric] by (rule uint_ucast_small)
  have md: "uint (Mod tb ?q) = 5 * uint ?q div 8" using tb lt by (simp add: Mod_def uint_mod_eq)
  let ?zero = "replicate (mp_k mp) (vec_zero (mp_n mp) ?q)" and ?c = "MKLWECiphertext (replicate (mp_k mp) (vec_zero (mp_n mp) (mp_q mp))) (Mod tb (mp_q mp))"
  have "m_modulus (s ! 0) = ?q" using q(2) by (simp only: word_uint_eq_iff)
  then have ok: "modulus_ok ?q" using D(9) by simp
  have key: "nvec_ok (s ! u) \<and> m_modulus (s ! u) = ?q \<and> length (m_data (s ! u)) = mp_n mp" if "u < mp_k mp" for u
    using q(3) that by (simp add: mk_key_def)
  have "s \<noteq> []" using V(1) by (simp add: mk_valid_def)
  then have k: "0 < mp_k mp" using V(3) by (metis length_greater_0_conv)
  have Z: "mk_valid s ?c"
    using V(1,3) key k ok pos md lt
    by (auto simp: mk_valid_def MKLWECiphertext_def vec_zero_def nvec_ok_def residue_def same_shape_def)
  have pz: "mk_phase s ?c = 5 * uint ?q div 8"
    using md V(3) by (simp add: mk_phase_def MKLWECiphertext_def vec_zero_def vals_def)
  have c1: "mk_valid s (mk_copy_ct ct1)" "mk_phase s (mk_copy_ct ct1) = mk_phase s ct1"
    using V(1) by (simp_all add: mk_valid_def mk_phase_def mk_copy_ct_def MKLWECiphertext_def)
  obtain y where y: "mk_EvalAddEq (mk_copy_ct ct1) ct2 = Inr y" "mk_valid s y"
      "mk_phase s y mod mk_modulus s = (mk_phase s ct1 + mk_phase s ct2) mod mk_modulus s"
    using mk_EvalAddEq_phase [OF c1(1) V(2)] c1(2) by auto
  obtain z where z: "mk_EvalSubEq ?c y = Inr z" "mk_valid s z"
      "mk_phase s z mod mk_modulus s = (5 * uint ?q div 8 - mk_phase s y) mod mk_modulus s"
    using mk_EvalSubEq_phase [OF Z y(2)] pz by auto
  have "?q \<noteq> 0" using pos by auto
  then have run: "nand_prep mp ct1 ct2 = Inr z"
    using y(1) z(1) by (simp add: nand_prep_def Let_def bk tb_def [symmetric])
  have "mk_phase s z mod mk_modulus s = (5 * uint ?q div 8 - (mk_phase s ct1 + mk_phase s ct2)) mod mk_modulus s"
    unfolding z(3) by (rule mod_diff_cong [OF refl y(3)])
  then show thesis using that [OF run z(2)] q(2) by (simp add: algebra_simps)
qed

section \<open>Sectors\<close>

text \<open>
  A scaled phase near \<open>(5 - 2 * m) / 8\<close> of a turn, with an error of less than one eighth, is on the
  negative half exactly when \<open>m\<close> is not 2.
\<close>

lemma sector:
  fixes q N \<phi> \<psi> W d err m :: int
  assumes q: "0 < q" "0 < N" and m: "m = 0 \<or> m = 1 \<or> m = 2"
    and \<phi>: "0 \<le> \<phi>" "\<phi> < 2 * N" and \<psi>: "\<psi> mod q = W mod q" "8 * W = (5 - 2 * m) * q - d"
    and e: "(2 * q * \<phi>) mod (2 * q * (2 * N)) = (2 * (2 * N) * \<psi> + err) mod (2 * q * (2 * N))"
    and b: "N * \<bar>d\<bar> + 2 * \<bar>err\<bar> < q * N"
  shows "(2 * \<phi> \<le> N \<or> 3 * N < 2 * \<phi>) \<longleftrightarrow> m = 2"
proof -
  have "(4 * N) * (\<psi> mod q) = (4 * N) * (W mod q)" by (simp only: \<psi>(1))
  then have "(4 * N * \<psi>) mod (4 * N * q) = (4 * N * W) mod (4 * N * q)" by (simp only: mult_mod_right)
  then have "(4 * N * \<psi> + err) mod (4 * N * q) = (4 * N * W + err) mod (4 * N * q)"
    by (rule mod_add_cong [OF _ refl])
  then have X: "(2 * q * \<phi>) mod (4 * N * q) = (4 * N * W + err) mod (4 * N * q)"
    using e by (simp add: ac_simps)
  define P E Y where "P = q * N" and "E = 2 * err - N * d" and "Y = 4 * N * W + err"
  have "\<bar>N * d\<bar> = N * \<bar>d\<bar>" using q(2) by (simp add: abs_mult)
  moreover have "\<bar>2 * err\<bar> = 2 * \<bar>err\<bar>" by simp
  moreover have "x \<le> e + f \<Longrightarrow> f = h \<Longrightarrow> e = i \<Longrightarrow> h + i < y \<Longrightarrow> x < y" for x e f h i y :: int by linarith
  ultimately have D: "\<bar>E\<bar> < P" unfolding E_def P_def using abs_triangle_ineq4 [of "2 * err" "N * d"] b by blast
  have "2 * Y = N * (8 * W) + 2 * err" by (simp add: Y_def)
  also have "\<dots> = (5 - 2 * m) * P + E" unfolding \<psi>(2) by (simp add: P_def E_def algebra_simps)
  finally have Y: "2 * Y = (5 - 2 * m) * P + E" .
  have M: "4 * N * q = 4 * P" by (simp add: P_def)
  have "0 < P" using q by (simp add: P_def)
  then have r: "0 \<le> Y" "Y < 4 * P" using m D Y by auto
  have l: "0 \<le> 2 * q * \<phi>" "2 * q * \<phi> < 4 * P"
  proof -
    show "0 \<le> 2 * q * \<phi>" using q(1) \<phi>(1) by simp
    have "2 * q * \<phi> < 2 * q * (2 * N)" using \<phi>(2) q(1) by (intro mult_strict_left_mono) simp_all
    then show "2 * q * \<phi> < 4 * P" by (simp add: P_def ac_simps)
  qed
  have "2 * q * \<phi> = Y" using X r l unfolding M Y_def [symmetric] by simp
  then have "q * (2 * \<phi>) = Y" by (simp add: ac_simps)
  moreover have "(2 * \<phi> \<le> N) \<longleftrightarrow> q * (2 * \<phi>) \<le> P" "(3 * N < 2 * \<phi>) \<longleftrightarrow> q * (3 * N) < q * (2 * \<phi>)"
    using q(1) by (simp_all add: P_def)
  moreover have "q * (3 * N) = 3 * P" by (simp add: P_def)
  ultimately show ?thesis using m D Y by auto
qed

lemma nand_sector:
  fixes q \<phi> \<psi> err e :: int and N :: nat
  assumes pos: "0 < q" "0 < N" and psi: "\<psi> mod q = (5 * q div 8 - (if m1 then q div 4 else 0) - (if m2 then q div 4 else 0) - e) mod q"
    and ran: "0 \<le> \<phi>" "\<phi> < 2 * int N" and ph: "2 * q * \<phi> mod (2 * q * (2 * int N)) = (2 * (2 * int N) * \<psi> + err) mod (2 * q * (2 * int N))"
    and bound: "int N * (8 * \<bar>e\<bar> + 12) + 2 * \<bar>err\<bar> < q * int N"
  shows "rotated_sign N \<phi> = (if m1 \<and> m2 then 1 else - 1)"
proof -
  let ?m = "(if m1 then 1 else 0) + (if m2 then 1 else 0) :: int"
  let ?W = "5 * q div 8 - (if m1 then q div 4 else 0) - (if m2 then q div 4 else 0) - e"
  let ?d = "8 * e + (5 * q mod 8 - 2 * ?m * (q mod 4))"
  have W: "8 * ?W = (5 - 2 * ?m) * q - ?d"
  proof -
    have "8 * (5 * q div 8) = 5 * q - 5 * q mod 8" "4 * (q div 4) = q - q mod 4" by (simp_all only: minus_mod_eq_mult_div)
    then show ?thesis by (cases m1; cases m2; simp)
  qed
  have r: "0 \<le> 5 * q mod 8" "5 * q mod 8 < 8" "0 \<le> q mod 4" "q mod 4 < 4" by simp_all
  have "\<bar>5 * q mod 8 - 2 * ?m * (q mod 4)\<bar> \<le> 12" using r by (cases m1; cases m2; simp)
  moreover have "\<bar>c\<bar> \<le> 12 \<Longrightarrow> \<bar>8 * f + c\<bar> \<le> 8 * \<bar>f\<bar> + 12" for c f :: int by linarith
  ultimately have "\<bar>?d\<bar> \<le> 8 * \<bar>e\<bar> + 12" by blast
  then have "int N * \<bar>?d\<bar> \<le> int N * (8 * \<bar>e\<bar> + 12)" by (intro mult_left_mono) simp_all
  then have d: "int N * \<bar>?d\<bar> + 2 * \<bar>err\<bar> < q * int N" using bound by linarith
  have n: "0 < int N" using pos(2) by simp
  have "(2 * \<phi> \<le> int N \<or> 3 * int N < 2 * \<phi>) \<longleftrightarrow> ?m = 2"
    by (rule sector [OF pos(1) n _ ran psi W ph d]) auto
  then show ?thesis by (simp add: rotated_sign_def)
qed

section \<open>The gate\<close>

text \<open>The binary secrets over the exponents of the ring.\<close>

definition bit_vectors :: "'a::len word \<Rightarrow> nat \<Rightarrow> nat \<Rightarrow> (nat \<Rightarrow> nat \<Rightarrow> bool) \<Rightarrow> 'a nvec list" where
  "bit_vectors M k n b = map (\<lambda>u. \<lparr> m_modulus = M, m_data = map (\<lambda>i. if b u i then 1 else 0) [0..<n] \<rparr>) [0..<k]"

lemma bit_vectors_ok:
  assumes "modulus_ok M" "1 < uint M" "0 < n"
  shows "bit_key k n b (bit_vectors M k n b)" "mk_key k n M ((!) (bit_vectors M k n b))"
  using assms by (auto simp: bit_key_def mk_key_def bit_vectors_def nvec_ok_def residue_def)

text \<open>
  The setting of a gate: parameters of one scheme, keys of the generators, inputs under the joint key
  and noises that keep the scaled phase within its sector.
\<close>

definition gate_params :: "'a::len ring_state \<Rightarrow> 'a mklwe_params \<Rightarrow> nat \<Rightarrow> nat \<Rightarrow> bool" where
  "gate_params s mp k n \<longleftrightarrow> mp_k mp = k \<and> mp_n mp = n \<and> mp_N mp = ring_len s \<and> mp_Q mp = ciphertextModulus (snd (snd s))
     \<and> 5 * uint (mp_q mp) < 2 ^ 32 \<and> modulus_ok (mp_q mp) \<and> modulus_ok (mp_qKS mp) \<and> 3 < LENGTH('a)
     \<and> round_ok (ucast (of_nat (mp_N mp) * 2 :: 32 word)) (mp_q mp) \<and> round_ok (mp_qKS mp) (mp_Q mp)"

text \<open>The secrets of the ring as integers: they agree with the evaluation key and with the key of the switch.\<close>

definition gate_secrets :: "'a::len ring_state \<Rightarrow> 'a mklwe_params \<Rightarrow> hybrid \<Rightarrow> (nat \<Rightarrow> nat \<Rightarrow> int) \<Rightarrow> 'a nvec list \<Rightarrow> bool" where
  "gate_secrets s mp Hs t svN \<longleftrightarrow>
     (\<forall>u<mp_k mp. \<forall>j<ring_len s. hy_S Hs u j mod ring_mod s = at_point s (t u) j mod ring_mod s)
     \<and> (\<forall>u<mp_k mp. \<forall>i<ring_len s. uint (m_data (svN ! u) ! i) mod uint (mp_qKS mp) = t u i mod uint (mp_qKS mp))"

definition switch_key ::
  "'a::len mklwe_params \<Rightarrow> 'a nvec list \<Rightarrow> 'a nvec list \<Rightarrow> (nat \<Rightarrow> nat \<Rightarrow> nat \<Rightarrow> nat \<Rightarrow> 'a word) \<Rightarrow> 'a mklwe_ksk \<Rightarrow> bool" where
  "switch_key mp sv svN genE K \<longleftrightarrow> mk_ks_inputs_ok mp sv svN \<and> length (mk_elementsA K) = mp_k mp \<and> length (mk_elementsB K) = mp_k mp
     \<and> (\<forall>u<mp_k mp. ksk_ok (mp_qKS mp) (mp_n mp) (mp_N mp) (mp_baseKS mp) (digitCount (mp_qKS mp) (mp_baseKS mp))
          (m_data (sv ! u)) (m_data (svN ! u)) (\<lambda>i j l. uint (genE u i j l)) (mk_elementsA K ! u) (mk_elementsB K ! u))"

definition weight :: "nat \<Rightarrow> nat \<Rightarrow> (nat \<Rightarrow> nat \<Rightarrow> bool) \<Rightarrow> int" where
  "weight k n b = (\<Sum>u<k. \<Sum>i<n. if b u i then 1 else 0)"

definition nand_inputs ::
  "'a::len ring_state \<Rightarrow> 'a mklwe_params \<Rightarrow> (nat \<Rightarrow> nat \<Rightarrow> bool) \<Rightarrow> 'a nvec list \<Rightarrow> 'a mklwe_ct \<Rightarrow> 'a mklwe_ct \<Rightarrow> bool \<Rightarrow> bool \<Rightarrow> int \<Rightarrow> int \<Rightarrow> bool" where
  "nand_inputs s mp b sq ct1 ct2 m1 m2 e1 e2 \<longleftrightarrow> (let q = uint (mp_q mp); N = int (ring_len s) in
     mk_valid sq ct1 \<and> mk_valid sq ct2 \<and> bit_key (mp_k mp) (mp_n mp) b sq \<and> mk_key (mp_k mp) (mp_n mp) (mp_q mp) ((!) sq)
     \<and> mk_phase sq ct1 mod q = ((if m1 then q div 4 else 0) + e1) mod q
     \<and> mk_phase sq ct2 mod q = ((if m2 then q div 4 else 0) + e2) mod q
     \<and> N * (8 * \<bar>e1 + e2\<bar> + 12) + 2 * q * (1 + weight (mp_k mp) (mp_n mp) b) < q * N)"

lemma uint_four:
  assumes "3 < LENGTH('a::len)"
  shows "uint (4 :: 'a word) = 4" "(8 :: int) < 2 ^ LENGTH('a)"
proof -
  show *: "(8 :: int) < 2 ^ LENGTH('a)" using power_strict_increasing [OF assms, of "2 :: int"] by simp
  then have "take_bit LENGTH('a) (4 :: int) = 4" by (intro take_bit_int_eq_self) simp_all
  then show "uint (4 :: 'a word) = 4" by simp
qed

lemma exponent_modulus:
  assumes "L \<le> 24" "2 * 2 ^ L < (2 :: nat) ^ LENGTH('a::len)"
  defines "M \<equiv> ucast (of_nat (2 ^ L) * 2 :: 32 word) :: 'a word"
  shows "uint M = 2 * 2 ^ L" "modulus_ok M" "1 < uint M"
proof -
  have "unat (of_nat (2 ^ L) * 2 :: 32 word) = 2 * 2 ^ L" using unat_power2 [of "Suc L"] assms(1) by (simp add: mult.commute)
  then have w: "uint (of_nat (2 ^ L) * 2 :: 32 word) = 2 * 2 ^ L" by (simp only: uint_nat) simp
  have "int (2 * 2 ^ L) < int (2 ^ LENGTH('a))" using assms(2) by (simp only: of_nat_less_iff)
  then have lt: "(2 :: int) * 2 ^ L < 2 ^ LENGTH('a)" by simp
  show *: "uint M = 2 * 2 ^ L" unfolding M_def w [symmetric] by (rule uint_ucast_small) (simp only: w lt)
  show "1 < uint M" unfolding * using one_le_power [of "2 :: int" L] by linarith
  have "(2 :: int) ^ Suc L < 2 ^ LENGTH('a)" using lt by simp
  then have "Suc L < LENGTH('a)" by (simp only: power_strict_increasing_iff one_less_numeral_iff semiring_norm)
  then have "(2 :: int) ^ Suc (Suc L) \<le> 2 ^ LENGTH('a)" by (intro power_increasing) simp_all
  then show "modulus_ok M" unfolding modulus_ok_def * by simp
qed

lemma gate_rotation:
  fixes mp :: "'a::len mklwe_params"
  assumes P: "gate_params s mp k n" and I: "nand_inputs s mp b sq ct1 ct2 m1 m2 e1 e2" and N: "ring_len s = 2 ^ L" "L \<le> 24"
    "2 * 2 ^ L < (2 :: nat) ^ LENGTH('a)"
  obtains z y sb where "nand_prep mp ct1 ct2 = Inr z" "mk_ModSwitch (ucast (of_nat (mp_N mp) * 2 :: 32 word)) z = Inr y"
    "boot_ct s k n b sb y" "mct_p y = 4"
    "rotated_sign (ring_len s) (mk_phase sb y mod mk_modulus sb) = (if m1 \<and> m2 then 1 else - 1)"
proof -
  let ?q = "mp_q mp" and ?N = "int (ring_len s)" and ?M = "ucast (of_nat (mp_N mp) * 2 :: 32 word) :: 'a word"
  have p: "mp_k mp = k" "mp_n mp = n" "mp_N mp = ring_len s" "5 * uint ?q < 2 ^ 32" "modulus_ok ?q" "3 < LENGTH('a)"
      "round_ok ?M ?q"
    using P unfolding gate_params_def by blast+
  have i: "mk_valid sq ct1" "mk_valid sq ct2" "bit_key k n b sq" "mk_key k n ?q ((!) sq)"
      "mk_phase sq ct1 mod uint ?q = ((if m1 then uint ?q div 4 else 0) + e1) mod uint ?q"
      "mk_phase sq ct2 mod uint ?q = ((if m2 then uint ?q div 4 else 0) + e2) mod uint ?q"
      "?N * (8 * \<bar>e1 + e2\<bar> + 12) + 2 * uint ?q * (1 + weight k n b) < uint ?q * ?N"
    using I by (simp_all add: nand_inputs_def Let_def p(1,2))
  have B: "length sq = k" "0 < n" "\<forall>u<length sq. length (m_data (sq ! u)) = n" using i(3) by (auto simp: bit_key_def)
  have mq: "mk_modulus sq = uint ?q" using i(1,4) B(1) by (auto simp: mk_valid_def mk_key_def)
  obtain z where z: "nand_prep mp ct1 ct2 = Inr z" "mk_valid sq z"
      "mk_phase sq z mod uint ?q = (5 * uint ?q div 8 - mk_phase sq ct1 - mk_phase sq ct2) mod uint ?q"
    using nand_prep_phase [OF p(4) mq _ i(1,2)] i(4) B(1) p(1,2) by metis
  note X = exponent_modulus [OF N(2,3)]
  have M: "uint ?M = 2 * ?N" and okM: "modulus_ok ?M" "1 < uint ?M" using X by (simp_all add: p(3) N(1))
  let ?sb = "bit_vectors ?M k n b"
  note sb = bit_vectors_ok [OF okM B(2), of k b]
  have mz: "mct_modulus z = ?q" using mk_validD(3) [OF z(2)] mq by (simp add: word_uint_eq_iff)
  have t: "uint (m_data (?sb ! u) ! i) mod uint ?M = (if b u i then 1 else 0) mod uint ?M" if "u < length sq" "i < n" for u i
    using sb(1) that B(1) by (simp add: bit_key_def)
  have lb: "length ?sb = length sq" "mk_key (length sq) n ?M ((!) ?sb)" using sb(2) B(1) by (simp_all add: bit_vectors_def)
  obtain y err where y: "mk_ModSwitch ?M z = Inr y" "mk_valid ?sb y" "mct_p y = 4"
      "\<bar>err\<bar> \<le> mk_modulus sq * (1 + (\<Sum>u<length sq. \<Sum>i<n. \<bar>if b u i then 1 else 0\<bar>))"
      "2 * mk_modulus sq * mk_phase ?sb y mod (2 * mk_modulus sq * uint ?M)
       = (2 * uint ?M * (uint (mct_b z) - (\<Sum>u<length sq. \<Sum>i<n. uint (m_data (mct_a z ! u) ! i) * (if b u i then 1 else 0))) + err)
           mod (2 * mk_modulus sq * uint ?M)"
    using mk_ModSwitch_phase [OF p(7) [folded mz] z(2) B(3) okM(1) lb t] .
  let ?\<phi> = "mk_phase ?sb y mod uint ?M"
  have k: "0 < k" "m_modulus (?sb ! 0) = ?M" using z(2) B(1) by (auto simp: mk_valid_def bit_vectors_def)
  have rows: "(\<Sum>i<n. uint (m_data (mct_a z ! u) ! i) * (if b u i then 1 else 0)) = inner (vals (mct_a z ! u)) (vals (sq ! u))"
    if u: "u < length sq" for u
  proof -
    have l: "length (vals (mct_a z ! u)) = n" "length (vals (sq ! u)) = n" using B(3) u mk_validD(7) [OF z(2) u] by simp_all
    have "uint (m_data (sq ! u) ! i) = (if b u i then 1 else 0)" if "i < n" for i using i(3) u B(1) that by (simp add: bit_key_def)
    then show ?thesis unfolding inner_as_sum [OF l] using l by (intro sum.cong) (simp_all add: vals_nth)
  qed
  have "(\<Sum>u<length sq. \<Sum>i<n. uint (m_data (mct_a z ! u) ! i) * (if b u i then 1 else 0))
      = (\<Sum>u<length sq. inner (vals (mct_a z ! u)) (vals (sq ! u)))" by (rule sum.cong [OF refl]) (simp only: lessThan_iff rows)
  then have "uint (mct_b z) - (\<Sum>u<length sq. \<Sum>i<n. uint (m_data (mct_a z ! u) ! i) * (if b u i then 1 else 0)) = mk_phase sq z"
    by (simp only: mk_phase_def)
  then have ph: "2 * uint ?q * ?\<phi> mod (2 * uint ?q * (2 * ?N)) = (2 * (2 * ?N) * mk_phase sq z + err) mod (2 * uint ?q * (2 * ?N))"
    using y(5) unfolding mq M by (simp only: mult_mod_right [symmetric] mod_mod_trivial)
  have eb: "\<bar>err\<bar> \<le> uint ?q * (1 + weight k n b)"
    using y(4) unfolding mq B(1) weight_def by (simp add: if_distrib [of abs] cong: if_cong)
  have psi: "mk_phase sq z mod uint ?q
      = (5 * uint ?q div 8 - (if m1 then uint ?q div 4 else 0) - (if m2 then uint ?q div 4 else 0) - (e1 + e2)) mod uint ?q"
  proof -
    have "mk_phase sq z mod uint ?q
        = (5 * uint ?q div 8 - ((if m1 then uint ?q div 4 else 0) + e1) - ((if m2 then uint ?q div 4 else 0) + e2)) mod uint ?q"
      unfolding z(3) by (intro mod_diff_cong refl i(5,6))
    then show ?thesis by (simp only: diff_diff_eq add.assoc add.commute add.left_commute)
  qed
  have "2 * \<bar>err\<bar> \<le> 2 * uint ?q * (1 + weight k n b)" using eb by simp
  then have bound: "?N * (8 * \<bar>e1 + e2\<bar> + 12) + 2 * \<bar>err\<bar> < uint ?q * ?N" using i(7) by linarith
  have pos: "0 < uint ?q" "0 < ring_len s" using p(5) N(1) by (simp_all add: modulus_ok_def)
  have ran: "0 \<le> ?\<phi>" "?\<phi> < 2 * ?N" using M pos(2) pos_mod_bound [of "2 * ?N"] by simp_all
  have "rotated_sign (ring_len s) (mk_phase ?sb y mod mk_modulus ?sb) = (if m1 \<and> m2 then 1 else - 1)"
    using nand_sector [OF pos psi ran ph bound] k(2) by simp
  moreover have "boot_ct s k n b ?sb y"
    using y(2,3) sb(1) M k(2) uint_four [OF p(6)] by (simp add: boot_ct_def del: uint_numeral)
  ultimately show thesis using that [OF z(1) y(1)] y(3) by blast
qed

lemma extracted_ct:
  fixes s :: "'a::len ring_state"
  assumes "2 < ring_mod s" "3 < LENGTH('a)" "length vs = k" "0 < k" "\<forall>u<k. coef_ok s (vs ! u)"
  defines "ct \<equiv> MKLWECiphertext vs (AddFast (RShift (ciphertextModulus (snd (snd s))) 3) 1)"
  shows "mk_valid vs ct" "uint (mct_b ct) = level s 4" "mct_a ct = vs" "m_modulus (vs ! 0) = ciphertextModulus (snd (snd s))"
    "mk_modulus vs = ring_mod s"
proof -
  let ?Q = "ciphertextModulus (snd (snd s))"
  note F = uint_four [OF assms(2)]
  have lv: "0 < level s 4" "level s 4 < ring_mod s" using level_bounds [OF assms(1), of 4] F(1) by simp_all
  have Q: "uint ?Q = ring_mod s" by (simp add: ring_mod_def)
  have d: "uint (RShift ?Q 3) = ring_mod s div 8"
    by (simp add: RShift_def uint_drop_bit ring_mod_def)
  have "ring_mod s div 8 + 1 < 2 ^ LENGTH('a)" using lv uint_lt_pow [of ?Q] F by (simp add: level_def Q)
  then have "uint (1 + RShift ?Q 3) = level s 4" using d lv F(1) by (simp add: uint_word_ariths level_def add.commute)
  then show b: "uint (mct_b ct) = level s 4" by (simp add: ct_def MKLWECiphertext_def AddFast_def)
  have c: "m_modulus (vs ! u) = ?Q" "nvec_ok (vs ! u)" if "u < k" for u using assms(5) that by (simp_all add: coef_ok_def)
  show "m_modulus (vs ! 0) = ?Q" "mk_modulus vs = ring_mod s" using c(1) [OF assms(4)] by (simp_all add: ring_mod_def)
  show "mct_a ct = vs" by (simp add: ct_def MKLWECiphertext_def)
  then show "mk_valid vs ct" using assms(3,4) c b lv Q by (auto simp: mk_valid_def residue_def same_shape_def)
qed

lemma EvalBinGate_phase:
  fixes mp :: "'a::len mklwe_params"
  assumes B: "boot_inputs s U g l k n ek Pkey b Hs H" "method = MKNTRU_B \<or> method = MKNTRU_LWE"
    and P: "gate_params s mp k n" and S: "gate_secrets s mp Hs t svN" and K: "switch_key mp sv svN genE ksk"
    and I: "nand_inputs s mp b sq ct1 ct2 m1 m2 e1 e2"
    and E: "bt_BSkey EK = Some ek" "bt_Pkey EK = Pkey" "bt_LKSkey EK = Some ksk"
  shows "\<exists>z y a \<nu> e err. EvalBinGate_MKLWE method arb mp U gate EK False ct1 ct2 (fst s) = Inr (fst s, z) \<and> mk_valid sv z
    \<and> rotation_noise s g l k n b Hs H a \<nu> \<and> (\<forall>j<ring_len s. at_point s e j mod ring_mod s = \<nu> j mod ring_mod s)
    \<and> \<bar>err\<bar> \<le> ring_mod s * (1 + (\<Sum>u<k. \<Sum>i<ring_len s. \<bar>t u i\<bar>))
    \<and> 2 * ring_mod s * (mk_phase sv z + mk_ks_noise mp genE y) mod (2 * ring_mod s * uint (mp_qKS mp))
      = (2 * uint (mp_qKS mp) * ((if m1 \<and> m2 then 0 else 2 * level s 4) - e 0) + err) mod (2 * ring_mod s * uint (mp_qKS mp))"
proof -
  let ?N = "ring_len s" and ?Q = "ring_mod s" and ?q = "uint (mp_qKS mp)"
  have "rotation_params s U g l k" using B(1) by (simp add: boot_inputs_def)
  then obtain L where L: "?N = 2 ^ L" "0 < L" "L \<le> 24" "2 < ?Q" "2 * 2 ^ L < (2 :: nat) ^ LENGTH('a)" by (rule rotation_params_ring)
  have p: "mp_k mp = k" "mp_N mp = ?N" "mp_Q mp = ciphertextModulus (snd (snd s))" "3 < LENGTH('a)" "modulus_ok (mp_qKS mp)"
      "round_ok (mp_qKS mp) (mp_Q mp)"
    using P unfolding gate_params_def by blast+
  have S': "\<And>u j. u < k \<Longrightarrow> j < ?N \<Longrightarrow> hy_S Hs u j mod ?Q = at_point s (t u) j mod ?Q"
      "\<And>u i. u < k \<Longrightarrow> i < ?N \<Longrightarrow> uint (m_data (svN ! u) ! i) mod ?q = t u i mod ?q"
    using S by (simp_all add: gate_secrets_def p(1))
  obtain w x sb where g: "nand_prep mp ct1 ct2 = Inr w" "mk_ModSwitch (ucast (of_nat (mp_N mp) * 2 :: 32 word)) w = Inr x"
      "boot_ct s k n b sb x" "mct_p x = 4" "rotated_sign ?N (mk_phase sb x mod mk_modulus sb) = (if m1 \<and> m2 then 1 else - 1)"
    using gate_rotation [OF P I L(1,3,5)] .
  obtain a acc vs \<nu> e where an: "GetAneg x = Inr a" and x: "BootstrapGateCore_MKLWE method arb U (Some ek) Pkey x (fst s) = Inr (fst s, acc)"
      "extract_acc arb k acc (fst s) = Inr (fst s, vs)" "length vs = k" "\<forall>u<k. coef_ok s (vs ! u)"
      "rotation_noise s g l k n b Hs H a \<nu>" "\<forall>j<?N. at_point s e j mod ?Q = \<nu> j mod ?Q"
      "(\<Sum>u<k. \<Sum>i<?N. uint (m_data (vs ! u) ! i) * t u i) mod ?Q = ((if m1 \<and> m2 then 1 else - 1) * level s 4 + e 0) mod ?Q"
    using Bootstrap_extracts [OF B(1) g(3) B(2) S'(1), where arb = arb] unfolding g(4,5) .
  have k: "0 < k" using g(3) by (auto simp: boot_ct_def mk_valid_def bit_key_def)
  let ?ct = "MKLWECiphertext vs (AddFast (RShift (mp_Q mp) 3) 1)"
  note V = extracted_ct [OF L(4) p(4) x(3) k x(4), folded p(3)]
  have len: "\<forall>u<length vs. length (m_data (vs ! u)) = ?N" using x(3,4) by (simp add: coef_ok_def)
  have ks: "mk_ks_inputs_ok mp sv svN" "length (mk_elementsA ksk) = mp_k mp" "length (mk_elementsB ksk) = mp_k mp"
      "\<forall>u<mp_k mp. ksk_ok (mp_qKS mp) (mp_n mp) (mp_N mp) (mp_baseKS mp) (digitCount (mp_qKS mp) (mp_baseKS mp))
          (m_data (sv ! u)) (m_data (svN ! u)) (\<lambda>i j l. uint (genE u i j l)) (mk_elementsA ksk ! u) (mk_elementsB ksk ! u)"
    using K unfolding switch_key_def by blast+
  have sN: "length svN = length vs" "mk_key (length vs) ?N (mp_qKS mp) ((!) svN)"
    using ks(1) x(3) p(1,2) by (simp_all add: mk_ks_inputs_ok_def)
  have r: "round_ok (mp_qKS mp) (mct_modulus ?ct)" using p(6) V(3,4) by simp
  obtain y err where y: "mk_ModSwitch (mp_qKS mp) ?ct = Inr y" "mk_valid svN y"
      "\<bar>err\<bar> \<le> ?Q * (1 + (\<Sum>u<k. \<Sum>i<?N. \<bar>t u i\<bar>))"
      "2 * ?Q * mk_phase svN y mod (2 * ?Q * ?q)
       = (2 * ?q * (level s 4 - (\<Sum>u<k. \<Sum>i<?N. uint (m_data (vs ! u) ! i) * t u i)) + err) mod (2 * ?Q * ?q)"
    using mk_ModSwitch_phase [OF r V(1) len p(5) sN S'(2)] unfolding x(3) V(2,3,5) by blast
  obtain z where z: "mk_KeySwitch mp ksk y = Inr z" "mk_valid sv z" "mk_phase sv z mod ?q = (mk_phase svN y - mk_ks_noise mp genE y) mod ?q"
    using mk_KeySwitch_value [OF ks(1) y(2) ks(2-4)] .
  let ?c = "(if m1 \<and> m2 then 0 else 2 * level s 4) - e 0"
  have "(level s 4 - (\<Sum>u<k. \<Sum>i<?N. uint (m_data (vs ! u) ! i) * t u i)) mod ?Q
      = (level s 4 - ((if m1 \<and> m2 then 1 else - 1) * level s 4 + e 0)) mod ?Q" by (rule mod_diff_cong [OF refl x(7)])
  also have "level s 4 - ((if m1 \<and> m2 then 1 else - 1) * level s 4 + e 0) = ?c" by simp
  finally have c: "2 * ?q * (level s 4 - (\<Sum>u<k. \<Sum>i<?N. uint (m_data (vs ! u) ! i) * t u i)) mod (2 * ?q * ?Q) = 2 * ?q * ?c mod (2 * ?q * ?Q)"
    by (simp only: mult_mod_right [symmetric])
  have "(mk_phase sv z + mk_ks_noise mp genE y) mod ?q = (mk_phase svN y - mk_ks_noise mp genE y + mk_ks_noise mp genE y) mod ?q"
    by (rule mod_add_cong [OF z(3) refl])
  then have "2 * ?Q * (mk_phase sv z + mk_ks_noise mp genE y) mod (2 * ?Q * ?q) = 2 * ?Q * mk_phase svN y mod (2 * ?Q * ?q)"
    by (simp only: mult_mod_right [symmetric] diff_add_cancel)
  also have "\<dots> = (2 * ?q * ?c + err) mod (2 * ?Q * ?q)"
    unfolding y(4) using mod_add_cong [OF c refl, of err] by (simp only: ac_simps)
  finally have "2 * ?Q * (mk_phase sv z + mk_ks_noise mp genE y) mod (2 * ?Q * ?q) = (2 * ?q * ?c + err) mod (2 * ?Q * ?q)" .
  moreover have "EvalBinGate_MKLWE method arb mp U gate EK False ct1 ct2 (fst s) = Inr (fst s, z)"
    using g(1,2) x(1,2) y(1) z(1) E p(1) by (simp add: EvalBinGate_MKLWE_def opt_def)
  ultimately show ?thesis using z(2) x(5,6) y(3) by blast
qed


section \<open>An example\<close>

text \<open>
  One party in the ring of dimension eight modulo 17, with the secret one, a key of zero noise and a
  switching key to the modulus 1024; the inputs encrypt true and false with the noise one.
\<close>

definition ring8_params :: "32 il_params" where
  "ring8_params = \<lparr> cyclotomicOrder = 16, ringDimension = 8, ciphertextModulus = 17, rootOfUnity = 3,
     bigCiphertextModulus = 0, bigRootOfUnity = 0 \<rparr>"

definition ring8_poly :: "32 poly" where
  "ring8_poly = \<lparr> p_format = COEFFICIENT, p_params = ring8_params, p_values = Some \<lparr> m_modulus = 17, m_data = replicate 8 0 \<rparr> \<rparr>"

definition ring8 :: "32 ring_state" where
  "ring8 = (fst (projr (SwitchFormat (\<lambda>_ _. Inr) ring8_poly empty_tables)), 3, ring8_params)"

lemma ring8_root: "ring_params 3 ring8_params"
proof -
  have "valid_root (17 :: 32 word) 3 3" by code_simp
  then show ?thesis by (simp add: ring_params_def ring8_params_def)
qed

lemma ring8_simps [simp]: "ring_len ring8 = 8" "ring_mod ring8 = 17" "snd (snd ring8) = ring8_params"
    "ciphertextModulus ring8_params = 17"
  by (simp_all add: ring8_def ring_len_def ring_mod_def ring8_params_def)

lemma ring8_ready: "ready ring8"
proof -
  have "poly_ok empty_tables 3 ring8_poly"
    using ring8_root by (simp add: poly_ok_def ring8_poly_def nvec_ok_def modulus_ok_def residue_def)
  then obtain c p where "SwitchFormat (\<lambda>_ _. Inr) ring8_poly empty_tables = Inr (c, p)" "ftt_reachable c" "poly_ok c 3 p"
      "p_params p = p_params ring8_poly" "p_format p = other_format (p_format ring8_poly)"
    using SwitchFormat_refines [OF ftt_reachable.start] by metis
  then show ?thesis using ring8_root by (simp add: ready_def ring8_def poly_ok_def ring8_poly_def other_format_def)
qed

definition el8 :: "32 word \<Rightarrow> 32 poly" where
  "el8 x = \<lparr> p_format = EVALUATION, p_params = ring8_params, p_values = Some \<lparr> m_modulus = 17, m_data = replicate 8 x \<rparr> \<rparr>"

lemma el8_ok: "x < 17 \<Longrightarrow> epoly ring8 (el8 x)" "j < 8 \<Longrightarrow> pev (el8 x) j = uint x"
proof -
  assume "x < 17"
  then have "residue 17 x" by (simp add: residue_def word_less_def)
  then show "epoly ring8 (el8 x)"
    using ring8_ready ftt_reachable_cache_ok
    by (auto simp: epoly_def ready_def ring8_def el8_def poly_ok_def nvec_ok_def modulus_ok_def)
qed (simp add: pev_def el8_def)

definition uni8 :: "32 uni_params" where
  "uni8 = ex_uni \<lparr> up_k := 1, up_N := 8, up_polyParams := ring8_params,
     up_monomials := snd (projr (monomials (\<lambda>_ _. Inr) ring8_params 17 8 (fst ring8))) \<rparr>"

lemma uni8_params: "rotation_params ring8 uni8 2 3 1"
proof -
  obtain ms where "monomials (\<lambda>_ _. Inr) ring8_params 17 8 (fst ring8) = Inr (fst ring8, ms)" "monomials_ok ring8 ms"
    using monomials_valued [OF ring8_ready, of ring8_params 8 "\<lambda>_ _. Inr"] by auto
  then have "monomials_ok ring8 (up_monomials uni8)" by (simp add: uni8_def)
  moreover have "gadget_ok ring8 uni8 2 3" by (simp add: gadget_ok_def ring8_def uni8_def ex_uni_def)
  ultimately show ?thesis using ring8_ready by (simp add: rotation_params_def uni8_def)
qed

definition ek8 :: "32 evalkey" where
  "ek8 = [[el8 5, el8 4], [el8 0, el8 16]]"

definition pkey8 :: "32 poly list list" where
  "pkey8 = [[el8 16, el8 16]]"

lemma ek8_keyed: "ek_keyed ring8 2 3 1 ek8 0 pkey8 ex_key"
  by (simp add: ek_keyed_def keyed_def rows_ok_def hybrid_key_def el8_ok all_less_two ex_key_def ek8_def pkey8_def)

lemma boot8: "boot_inputs ring8 uni8 2 3 1 1 [[[Some ek8, Some ek8]]] pkey8 (\<lambda>u i. True) ex_key (\<lambda>u i. ex_key)"
  using uni8_params ek8_keyed
  by (simp add: boot_inputs_def binary_keys_def key_at_def idx2_def idx_def same_parties_def) (simp add: ex_key_def)

definition gate8 :: "32 mklwe_params" where
  "gate8 = \<lparr> mp_k = 1, mp_q = 61, mp_Q = 17, mp_qKS = 1024, mp_n = 1, mp_N = 8, mp_baseKS = 32, mp_keyDist = BINARY \<rparr>"

lemma gate8_ok: "gate_params ring8 gate8 1 1"
  by (simp add: gate_params_def gate8_def round_ok_def modulus_ok_def)

definition sv8 :: "32 nvec list" where "sv8 = [\<lparr> m_modulus = 1024, m_data = [1] \<rparr>]"

definition svN8 :: "32 nvec list" where "svN8 = [\<lparr> m_modulus = 1024, m_data = [1, 0, 0, 0, 0, 0, 0, 0] \<rparr>]"

definition ksk8 :: "32 mklwe_ksk" where
  "ksk8 = projr (mk_KeySwitchGen gate8 sv8 svN8 (\<lambda>u i j k. sv8 ! 0) (\<lambda>u i j k. 2))"

lemma secrets8: "gate_secrets ring8 gate8 ex_key (\<lambda>u i. if i = 0 then 1 else 0) svN8"
proof -
  have "at_point ring8 (\<lambda>i. if i = 0 then 1 else 0) j = 1" for j by (rule at_point_const) simp
  moreover have "uint (m_data (svN8 ! 0) ! i) = (if i = 0 then 1 else 0)" if "i < 8" for i
  proof -
    have "i \<in> {0, 1, 2, 3, 4, 5, 6, 7}" using that by auto
    then show ?thesis by (auto simp: svN8_def)
  qed
  ultimately show ?thesis by (simp add: gate_secrets_def ex_key_def gate8_def)
qed

lemma switch8: "switch_key gate8 sv8 svN8 (\<lambda>u i j k. 2) ksk8"
proof -
  have i: "mk_ks_inputs_ok gate8 sv8 svN8" by code_simp
  have s: "\<forall>u<mp_k gate8. SwitchModulus (sv8 ! u) (mp_qKS gate8) = Inr (sv8 ! u)" by code_simp
  have n: "\<forall>u<mp_k gate8. SwitchModulus (svN8 ! u) (mp_qKS gate8) = Inr (svN8 ! u)" by code_simp
  have a: "nvec_ok (sv8 ! 0) \<and> m_modulus (sv8 ! 0) = mp_qKS gate8 \<and> length (m_data (sv8 ! 0)) = mp_n gate8" by code_simp
  have l: "length sv8 = mp_k gate8" "length svN8 = mp_k gate8" by code_simp+
  obtain K where "mk_KeySwitchGen gate8 sv8 svN8 (\<lambda>u i j k. sv8 ! 0) (\<lambda>u i j k. 2) = Inr K"
    "length (mk_elementsA K) = mp_k gate8" "length (mk_elementsB K) = mp_k gate8"
    "\<forall>u<mp_k gate8. ksk_ok (mp_qKS gate8) (mp_n gate8) (mp_N gate8) (mp_baseKS gate8) (digitCount (mp_qKS gate8) (mp_baseKS gate8))
      (m_data (sv8 ! u)) (m_data (svN8 ! u)) (\<lambda>i j l. uint ((\<lambda>u i j k. 2 :: 32 word) u i j l)) (mk_elementsA K ! u) (mk_elementsB K ! u)"
    using mk_KeySwitchGen_value [where genA = "\<lambda>u i j k. sv8 ! 0" and genE = "\<lambda>u i j k. 2", OF i l s n a] .
  then show ?thesis using i by (simp add: switch_key_def ksk8_def)
qed

definition in8 :: "32 word \<Rightarrow> 32 word \<Rightarrow> 32 mklwe_ct" where
  "in8 a b = MKLWECiphertext [\<lparr> m_modulus = 61, m_data = [a] \<rparr>] b"

lemma inputs8: "nand_inputs ring8 gate8 (\<lambda>u i. True) [\<lparr> m_modulus = 61, m_data = [1] \<rparr>] (in8 3 19) (in8 5 6) True False 1 1"
  by (simp add: nand_inputs_def in8_def gate8_def MKLWECiphertext_def mk_valid_def bit_key_def mk_key_def mk_phase_def nvec_ok_def weight_def
      modulus_ok_def residue_def same_shape_def vals_def)

definition btkey8 :: "32 mk_btkey" where
  "btkey8 = \<lparr> bt_BSkey = Some [[[Some ek8, Some ek8]]], bt_KSkey2 = None, bt_LKSkey = Some ksk8, bt_Pkey = pkey8, bt_f = [el8 1],
     bt_fvec = svN8, bt_F_col0 = [], bt_lwesk = sv8 \<rparr>"


end
