(* ===== verification/MKKeys.thy ===== *)
theory MKKeys
  imports MKNand
begin

text \<open>
  The generation of the bootstrapping keys of the multi-key scheme, \<^verbatim>\<open>BinFHEScheme::MKKeyGen\<close>: the
  keys it returns are those that the gates need.
\<close>

section \<open>Ring elements of vectors\<close>

lemma eval_of_valued:
  assumes "ready s" "coef_ok s v" "up_polyParams U = snd (snd s)"
  shows "\<exists>t. eval_of arb U v (fst s) = Inr (fst s, t) \<and> valued s t (nat_point s v)"
proof -
  obtain c L P where s: "s = (c, L, P)" by (cases s) auto
  have rp: "ring_params L P" using assms(1) by (simp add: ready_def s)
  note P = ring_paramsD [OF rp]
  have v: "nvec_ok v" "m_modulus v = ciphertextModulus P" "length (m_data v) = 2 ^ L"
    using assms(2) by (simp_all add: coef_ok_def s ring_len_def)
  let ?p = "\<lparr> p_format = COEFFICIENT, p_params = P, p_values = Some v \<rparr>"
  have "SetValues v COEFFICIENT (poly_new P EVALUATION False) = Inr ?p"
    using P(6,10) v by (simp add: SetValues_def poly_new_def)
  then show ?thesis using valued_eval [OF assms(1) [unfolded s], of ?p v arb] v assms(3) by (auto simp: eval_of_def s)
qed

lemma lifted_vector:
  fixes Q :: "'a::len word" and cs :: "32 word list" and N :: nat
  assumes "modulus_ok Q" "uint Q \<le> 2 ^ 31" "\<And>i. i < length cs \<Longrightarrow> uint (cs ! i) < uint Q"
  defines "v \<equiv> Get_invertible_NativeVector Q N cs"
  shows "nvec_ok v" "m_modulus v = Q" "length (m_data v) = N"
    "i < N \<Longrightarrow> uint (m_data v ! i) = (if i < length cs then uint (cs ! i) else 0)"
proof -
  have q: "uint (ucast Q :: 32 word) = uint Q" using assms(2) by (intro uint_ucast_small) simp
  have lt: "uint (ucast Q :: 32 word) < 2 ^ LENGTH('a)" unfolding q by (rule uint_lt_pow)
  have e: "uint (m_data v ! i) = (if i < length cs then uint (cs ! i) else 0)" if "i < N" for i
    using that lift_entry_value [of "ucast Q" "cs ! i", OF _ lt] assms(2,3) q by (simp add: v_def Get_invertible_NativeVector_def)
  then show "i < N \<Longrightarrow> uint (m_data v ! i) = (if i < length cs then uint (cs ! i) else 0)" .
  show "m_modulus v = Q" "length (m_data v) = N" by (simp_all add: v_def Get_invertible_NativeVector_def)
  have "uint (m_data v ! i) < uint Q" if "i < N" for i using e [OF that] assms(1,3) by (simp add: modulus_ok_def)
  then show "nvec_ok v" using assms(1) \<open>length (m_data v) = N\<close> \<open>m_modulus v = Q\<close>
    by (auto simp: nvec_ok_def residue_def in_set_conv_nth)
qed

section \<open>What NTL returns\<close>

text \<open>
  The coefficients of a polynomial and of its inverse modulo \<open>X ^ N + 1\<close>: at most \<open>N\<close> each, below the
  modulus, with product one.
\<close>

definition coef_at :: "32 word list \<Rightarrow> nat \<Rightarrow> int" where
  "coef_at cs i = (if i < length cs then uint (cs ! i) else 0)"

definition ntl_inverse :: "nat \<Rightarrow> int \<Rightarrow> 32 word list \<times> 32 word list \<Rightarrow> bool" where
  "ntl_inverse N q p \<longleftrightarrow> length (fst p) \<le> N \<and> length (snd p) \<le> N
     \<and> (\<forall>c \<in> set (fst p) \<union> set (snd p). uint c < q)
     \<and> (\<forall>i<N. negacyclic N (coef_at (fst p)) (coef_at (snd p)) i mod q = (if i = 0 then 1 else 0) mod q)"

lemma ntl_inverse_values:
  assumes "ready s" "ntl_inverse (ring_len s) (ring_mod s) p" "j < ring_len s"
  shows "at_point s (coef_at (fst p)) j * at_point s (coef_at (snd p)) j mod ring_mod s = 1 mod ring_mod s"
proof -
  let ?N = "ring_len s" and ?q = "ring_mod s"
  have "at_point s (coef_at (fst p)) j * at_point s (coef_at (snd p)) j mod ?q
      = (\<Sum>k<?N. negacyclic ?N (coef_at (fst p)) (coef_at (snd p)) k * point s j ^ k) mod ?q"
    unfolding at_point_def by (rule negacyclic_eval [OF point_order(1) [OF assms(1,3)], symmetric])
  also have "\<dots> = (\<Sum>k<?N. (if k = 0 then 1 else 0) * point s j ^ k) mod ?q"
    using assms(2) unfolding ntl_inverse_def by (intro sum_mod_cong mod_mult_cong refl) blast
  also have "\<dots> = at_point s (\<lambda>k. if k = 0 then 1 else 0) j mod ?q" by (simp only: at_point_def)
  also have "\<dots> = 1 mod ?q" by (simp add: at_point_const ring_len_def)
  finally show ?thesis .
qed

definition secret_vec :: "'a::len uni_params \<Rightarrow> 32 word list \<Rightarrow> 'a nvec" where
  "secret_vec U cs = Get_invertible_NativeVector (up_Q U) (unat (up_N U)) cs"

lemma secret_vec_ok:
  assumes "rotation_params s U g l k" "ring_mod s \<le> 2 ^ 31" "\<forall>c \<in> set cs. uint c < ring_mod s"
  shows "coef_ok s (secret_vec U cs)" "i < ring_len s \<Longrightarrow> uint (m_data (secret_vec U cs) ! i) = coef_at cs i"
    "nat_point s (secret_vec U cs) j = at_point s (coef_at cs) j"
proof -
  obtain L where L: "ring_len s = 2 ^ L" "L \<le> 24" "up_N U = 2 ^ L" "up_Q U = ciphertextModulus (snd (snd s))" "ready s"
    using rotation_params_ring [OF assms(1)] by metis
  obtain c P where s: "s = (c, L, P)" using L(1) by (cases s) (auto simp: ring_len_def)
  have N: "unat (up_N U) = ring_len s" using unat_power2 [of L] L by simp
  have Q: "uint (up_Q U) = ring_mod s" using L(4) by (simp add: ring_mod_def)
  have "ring_params L P" using L(5) by (simp add: ready_def s)
  from ring_paramsD(9) [OF this] have ok: "modulus_ok (up_Q U)" using L(4) by (simp add: s)
  note V = lifted_vector [OF ok, of cs, unfolded Q, OF assms(2)]
  show "coef_ok s (secret_vec U cs)" using V assms(3) L(4) by (simp add: coef_ok_def secret_vec_def N)
  show e: "i < ring_len s \<Longrightarrow> uint (m_data (secret_vec U cs) ! i) = coef_at cs i" for i
    using V(4) [where N = "ring_len s"] assms(3) by (simp add: secret_vec_def N coef_at_def)
  show "nat_point s (secret_vec U cs) j = at_point s (coef_at cs) j"
    unfolding at_point_def by (intro sum.cong) (simp_all add: e)
qed

section \<open>The keys of the parties\<close>

lemma party_keys_run:
  fixes U :: "'a::len uni_params"
  assumes "rotation_params s U g l k" "ring_mod s \<le> 2 ^ 31" "ntl_inverse (ring_len s) (ring_mod s) (ntl i)"
  shows "\<exists>sk inv. party_keys arb U ntl i (fst s) = Inr (fst s, secret_vec U (fst (ntl i)), sk, inv)
    \<and> valued s sk (at_point s (coef_at (fst (ntl i)))) \<and> valued s inv (at_point s (coef_at (snd (ntl i))))"
proof -
  obtain L where L: "ring_len s = 2 ^ L" "L \<le> 24" "up_N U = 2 ^ L" "ready s" "gadget_ok s U g l"
    using rotation_params_ring [OF assms(1)] by metis
  have N: "unat (up_N U) = ring_len s" using unat_power2 [of L] L by simp
  have p: "up_polyParams U = snd (snd s)" using gadget_digits [OF L(5)] by simp
  have c: "length (fst (ntl i)) \<le> ring_len s" "length (snd (ntl i)) \<le> ring_len s" "\<forall>c \<in> set (fst (ntl i)). uint c < ring_mod s"
      "\<forall>c \<in> set (snd (ntl i)). uint c < ring_mod s"
    using assms(3) by (auto simp: ntl_inverse_def)
  note S = secret_vec_ok [OF assms(1,2) c(3)] and I = secret_vec_ok [OF assms(1,2) c(4)]
  obtain sk where sk: "eval_of arb U (secret_vec U (fst (ntl i))) (fst s) = Inr (fst s, sk)"
      "valued s sk (nat_point s (secret_vec U (fst (ntl i))))" using eval_of_valued [OF L(4) S(1) p] by blast
  obtain inv where inv: "eval_of arb U (secret_vec U (snd (ntl i))) (fst s) = Inr (fst s, inv)"
      "valued s inv (nat_point s (secret_vec U (snd (ntl i))))" using eval_of_valued [OF L(4) I(1) p] by blast
  have "party_keys arb U ntl i (fst s) = Inr (fst s, secret_vec U (fst (ntl i)), sk, inv)"
    using sk(1) inv(1) c(1,2) by (simp add: party_keys_def secret_vec_def N Let_def)
  moreover have "nat_point s (secret_vec U (fst (ntl i))) = at_point s (coef_at (fst (ntl i)))"
      "nat_point s (secret_vec U (snd (ntl i))) = at_point s (coef_at (snd (ntl i)))" using S(3) I(3) by blast+
  ultimately show ?thesis using sk(2) inv(2) by auto
qed

lemma public_keys_run:
  fixes U :: "'a::len uni_params"
  assumes P: "rotation_params s U g l k" and C: "rows_ok s l (up_CRS U)"
    and S: "length sks = k" "\<And>u. u < k \<Longrightarrow> valued s (sks ! u) (S u)" and E: "\<And>u i. u < k \<Longrightarrow> i < l - 1 \<Longrightarrow> coef_ok s (e u i)"
  shows "\<exists>Pkey. public_keys arb U sks e (fst s) = Inr (fst s, Pkey) \<and> length Pkey = k \<and> (\<forall>u<k. length (Pkey ! u) = l - 1
    \<and> (\<forall>i<l - 1. valued s (Pkey ! u ! i) (\<lambda>j. nat_point s (e u i) j - pev (up_CRS U ! i) j * S u j)))"
proof -
  have R: "ready s" "gadget_ok s U g l" using P by (simp_all add: rotation_params_def)
  note G = gadget_digits [OF R(2)]
  have p: "up_polyParams U = snd (snd s)" using G by simp
  let ?f = "\<lambda>u i cache. bindR (eval_of arb U (e u i) cache) (\<lambda>(cache, ei).
         bindR (idx (up_CRS U) i) (\<lambda>a. bindR (idx sks u) (\<lambda>s. bindR (Times a s) (\<lambda>t.
         bindR (Minus ei t) (\<lambda>b. Inr (cache, b))))))"
  have one: "\<exists>y. ?f u i (fst s) = Inr (fst s, y) \<and> valued s y (\<lambda>j. nat_point s (e u i) j - pev (up_CRS U ! i) j * S u j)"
    if ui: "u < k" "i < l - 1" for u i
  proof -
    obtain x where x: "eval_of arb U (e u i) (fst s) = Inr (fst s, x)" "valued s x (nat_point s (e u i))"
      using eval_of_valued [OF R(1) E [OF ui] p] by blast
    have c: "idx (up_CRS U) i = Inr (up_CRS U ! i)" "valued s (up_CRS U ! i) (pev (up_CRS U ! i))"
      using C ui(2) valued_pev [of s] by (auto simp: rows_ok_def idx_def)
    obtain t where t: "Times (up_CRS U ! i) (sks ! u) = Inr t" "valued s t (\<lambda>j. pev (up_CRS U ! i) j * S u j)"
      using valued_ops(3) [OF c(2) S(2) [OF ui(1)]] by blast
    obtain y where "Minus x t = Inr y" "valued s y (\<lambda>j. nat_point s (e u i) j - pev (up_CRS U ! i) j * S u j)"
      using valued_ops(2) [OF x(2) t(2)] by blast
    then show ?thesis using x(1) c(1) t(1) S(1) ui(1) by (simp add: idx_def)
  qed
  have "\<exists>row. mapS (?f u) [0..<l - 1] (fst s) = Inr (fst s, row) \<and> length row = l - 1
      \<and> (\<forall>i<l - 1. valued s (row ! i) (\<lambda>j. nat_point s (e u i) j - pev (up_CRS U ! i) j * S u j))" if "u < k" for u
    by (rule mapS_upt) (rule one [OF that])
  then have "\<exists>rows. mapS (\<lambda>u. mapS (?f u) [0..<l - 1]) [0..<k] (fst s) = Inr (fst s, rows) \<and> length rows = k
      \<and> (\<forall>u<k. length (rows ! u) = l - 1 \<and> (\<forall>i<l - 1. valued s (rows ! u ! i) (\<lambda>j. nat_point s (e u i) j - pev (up_CRS U ! i) j * S u j)))"
    by (rule mapS_upt)
  moreover have "unat (up_digitsG U - 1) = l - 1" using G by simp
  ultimately show ?thesis by (simp add: public_keys_def S(1))
qed

section \<open>The blind rotation keys\<close>

definition noise_ok_at :: "'a::len ring_state \<Rightarrow> nat \<Rightarrow> 'a key_noise \<Rightarrow> bool" where
  "noise_ok_at s l rnd \<longleftrightarrow> coef_ok s (kn_r rnd) \<and> (\<forall>i<l - 1. coef_ok s (kn_e0 rnd i) \<and> coef_ok s (kn_e1 rnd i))"

text \<open>What the generators of the parameters and of the keys provide.\<close>

definition keygen_params :: "'a::len ring_state \<Rightarrow> 'a uni_params \<Rightarrow> nat \<Rightarrow> nat \<Rightarrow> nat \<Rightarrow> bool" where
  "keygen_params s U g l k \<longleftrightarrow> rotation_params s U g l k \<and> up_Gpower U = gpowers (up_Q U) (ucast (up_baseG U)) l 1
     \<and> l - 1 \<le> ring_len s \<and> rows_ok s l (up_CRS U)"

text \<open>The inverses of the secrets and the public keys of the parties.\<close>

definition acc_setting ::
  "'a::len ring_state \<Rightarrow> 'a uni_params \<Rightarrow> nat \<Rightarrow> nat \<Rightarrow> nat \<Rightarrow> 'a poly list \<Rightarrow> (nat \<Rightarrow> nat \<Rightarrow> int) \<Rightarrow> 'a poly list list
     \<Rightarrow> (nat \<Rightarrow> nat \<Rightarrow> nat \<Rightarrow> int) \<Rightarrow> bool" where
  "acc_setting s U g l k invs S Pkey EB \<longleftrightarrow> keygen_params s U g l k \<and> length invs = k
     \<and> (\<forall>u<k. epoly s (invs ! u) \<and> (\<forall>j<ring_len s. pev (invs ! u) j * S u j mod ring_mod s = 1 mod ring_mod s))
     \<and> length Pkey = k \<and> (\<forall>u<k. length (Pkey ! u) = l - 1
          \<and> (\<forall>i<l - 1. valued s (Pkey ! u ! i) (\<lambda>j. EB u i j - pev (up_CRS U ! i) j * S u j)))"

lemma acc_setting_inverse:
  "acc_setting s U g l k invs S Pkey EB \<Longrightarrow> u < k \<Longrightarrow> j < ring_len s \<Longrightarrow> pev (invs ! u) j * S u j mod ring_mod s = 1 mod ring_mod s"
  by (simp add: acc_setting_def)

lemma acc_key_generated:
  fixes U :: "'a::len uni_params"
  assumes A: "acc_setting s U g l k invs S Pkey EB" and u: "u < k" and rn: "noise_ok_at s l rn"
  shows "\<exists>ek. (if kdm then KDMKeyGenXZW else KeyGenXZW) arb U (invs ! u) (up_CRS U) (if x then 1 else 0) rn (fst s) = Inr (fst s, ek)
    \<and> ek_keyed s g l k ek u Pkey (generated_key s kdm x (invs ! u) (up_CRS U) rn S EB)"
proof -
  have p: "rotation_params s U g l k" "up_Gpower U = gpowers (up_Q U) (ucast (up_baseG U)) l 1" "l - 1 \<le> ring_len s" "rows_ok s l (up_CRS U)"
    using A by (simp_all add: acc_setting_def keygen_params_def)
  have r: "ready s" "gadget_ok s U g l" using p(1) by (simp_all add: rotation_params_def)
  have n: "coef_ok s (kn_r rn)" "\<And>i. i < l - 1 \<Longrightarrow> coef_ok s (kn_e0 rn i) \<and> coef_ok s (kn_e1 rn i)"
    using rn by (simp_all add: noise_ok_at_def)
  have iv: "epoly s (invs ! u)" "\<And>j. j < ring_len s \<Longrightarrow> pev (invs ! u) j * S u j mod ring_mod s = 1 mod ring_mod s"
    using A u by (simp_all add: acc_setting_def)
  have rows: "rows_ok s l (Pkey ! v)" if "v < k" for v using A that by (simp add: acc_setting_def rows_ok_def valued_def)
  have val: "pev (Pkey ! v ! i) j mod ring_mod s = (EB v i j - pev (up_CRS U ! i) j * S v j) mod ring_mod s"
    if "v < k" "i < l - 1" "j < ring_len s" for v i j using A that by (simp add: acc_setting_def valued_def)
  have kl: "k \<le> length Pkey" using A by (simp add: acc_setting_def)
  obtain ek where "(if kdm then KDMKeyGenXZW else KeyGenXZW) arb U (invs ! u) (up_CRS U) (if x then 1 else 0) rn (fst s) = Inr (fst s, ek)"
      "length ek = l - 1" "\<forall>i<l - 1. length (ek ! i) = 2"
      "keyed s g l k (map (\<lambda>r. r ! 0) ek) (map (\<lambda>r. r ! 1) ek) u Pkey (generated_key s kdm x (invs ! u) (up_CRS U) rn S EB)"
    using KeyGenXZW_keyed [where kdm = kdm and b = x and arb = arb, OF r p(2,3) n iv(1) p(4) kl rows iv(2) val] by blast
  then show ?thesis unfolding ek_keyed_def by (intro exI [of _ ek]) simp
qed

lemma acc_key_bit_keyed:
  assumes A: "acc_setting s U g l k invs S Pkey EB" and ui: "u < k" "u < length sv" "i < length (m_data (sv ! u))"
    and R: "noise_ok_at s l (rnd u b i)"
  shows "\<exists>e. acc_key_bit arb U invs (up_CRS U) sv rnd u b x i (fst s) = Inr (fst s, Some e)
    \<and> ek_keyed s g l k e u Pkey (generated_key s (u = 0 \<and> i = 0) (m_data (sv ! u) ! i = x) (invs ! u) (up_CRS U) (rnd u b i) S EB)"
proof -
  have "length invs = k" using A by (simp add: acc_setting_def)
  then show ?thesis
    using acc_key_generated [OF A ui(1) R, of "u = 0 \<and> i = 0" arb "m_data (sv ! u) ! i = x"] ui
    by (auto simp: acc_key_bit_def idx_def cong: if_cong)
qed

lemma acc_key_star_keyed:
  assumes A: "acc_setting s U g l k invs S Pkey EB" "0 < k" and R: "noise_ok_at s l (rnd 0 0 n)"
  obtains es where "\<forall>u i. acc_key_star arb U invs (up_CRS U) rnd n u i (fst s) = Inr (fst s, if u = 0 \<and> i = 0 then Some es else None)"
    "ek_keyed s g l k es 0 Pkey (generated_key s True True (invs ! 0) (up_CRS U) (rnd 0 0 n) S EB)"
proof -
  obtain es where es: "KDMKeyGenXZW arb U (invs ! 0) (up_CRS U) 1 (rnd 0 0 n) (fst s) = Inr (fst s, es)"
      "ek_keyed s g l k es 0 Pkey (generated_key s True True (invs ! 0) (up_CRS U) (rnd 0 0 n) S EB)"
    using acc_key_generated [OF A R, of True arb True] by auto
  have "length invs = k" using A(1) by (simp add: acc_setting_def)
  then have "acc_key_star arb U invs (up_CRS U) rnd n u i (fst s) = Inr (fst s, if u = 0 \<and> i = 0 then Some es else None)" for u i
    using es(1) A(2) by (simp add: acc_key_star_def idx_def)
  then show thesis using that es(2) by blast
qed

text \<open>The keys of one party: what \<open>Q\<close> says of the generated keys, and \<open>evk*\<close> for the first party.\<close>

lemma party_acc_keys:
  assumes "\<And>i. i < n \<Longrightarrow> \<exists>y. f i c = Inr (c, y) \<and> Q i y" and "\<And>i. g i c = Inr (c, if z \<and> i = 0 then Some es else None)" and "0 < n"
  shows "\<exists>ks. mapS (\<lambda>i cache. bindR (f i cache) (\<lambda>(cache, y). bindR (g i cache) (\<lambda>(cache, star). Inr (cache, (y, star))))) [0..<n] c
      = Inr (c, ks) \<and> length ks = n \<and> (\<forall>i<n. Q i (fst (ks ! i))) \<and> (z \<longrightarrow> star_of ks = Some es)"
proof -
  have "\<exists>ks. mapS (\<lambda>i cache. bindR (f i cache) (\<lambda>(cache, y). bindR (g i cache) (\<lambda>(cache, star). Inr (cache, (y, star))))) [0..<n] c
      = Inr (c, ks) \<and> length ks = n \<and> (\<forall>i<n. Q i (fst (ks ! i)) \<and> snd (ks ! i) = (if z \<and> i = 0 then Some es else None))"
  proof (rule mapS_upt)
    fix i
    assume "i < n"
    with assms(1) [OF this] show "\<exists>y. bindR (f i c) (\<lambda>(cache, y). bindR (g i cache) (\<lambda>(cache, star). Inr (cache, (y, star)))) = Inr (c, y)
        \<and> Q i (fst y) \<and> snd y = (if z \<and> i = 0 then Some es else None)" by (auto simp: assms(2))
  qed
  then obtain ks where ks: "mapS (\<lambda>i cache. bindR (f i cache) (\<lambda>(cache, y). bindR (g i cache) (\<lambda>(cache, star). Inr (cache, (y, star))))) [0..<n] c
      = Inr (c, ks)" "length ks = n" "\<forall>i<n. Q i (fst (ks ! i)) \<and> snd (ks ! i) = (if z \<and> i = 0 then Some es else None)" by blast
  then have "z \<longrightarrow> star_of ks = Some es" using assms(3) by (cases ks) (auto simp: star_of_def)
  then show ?thesis using ks by blast
qed

lemma acc_keys_run:
  fixes U :: "'a::len uni_params"
  assumes A: "acc_setting s U g l k invs S Pkey EB" and R: "\<And>u b i. noise_ok_at s l (rnd u b i)"
    and B: "length sv = k" "0 < k" "0 < n"
      "\<And>u. u < k \<Longrightarrow> length (m_data (sv ! u)) = n \<and> (\<forall>i<n. m_data (sv ! u) ! i = (if b u i then 1 else 0))"
  defines "Hs \<equiv> generated_key s True True (invs ! 0) (up_CRS U) (rnd 0 0 n) S EB"
    and "H \<equiv> \<lambda>u i. generated_key s (u = 0 \<and> i = 0) (b u i) (invs ! u) (up_CRS U) (rnd u 0 i) S EB"
  shows "\<exists>ek. KeyGenAcc_B_keys arb U invs sv (up_CRS U) rnd (fst s) = Inr (fst s, ek) \<and> binary_keys s g l k n ek Pkey b Hs H"
proof -
  let ?bit = "\<lambda>u i. acc_key_bit arb U invs (up_CRS U) sv rnd u 0 1 i" and ?star = "acc_key_star arb U invs (up_CRS U) rnd n"
  have bit: "\<exists>y. ?bit u i (fst s) = Inr (fst s, y) \<and> (\<exists>e. y = Some e \<and> ek_keyed s g l k e u Pkey (H u i))" if ui: "u < k" "i < n" for u i
  proof -
    have "m_data (sv ! u) ! i = 1 \<longleftrightarrow> b u i" using B(4) [OF ui(1)] ui(2) by simp
    then show ?thesis using acc_key_bit_keyed [where sv = sv and i = i and b = 0 and x = 1 and arb = arb and rnd = rnd, OF A ui(1) _ _ R] B(1,4) ui unfolding H_def by auto
  qed
  obtain es where star: "\<forall>u i. ?star u i (fst s) = Inr (fst s, if u = 0 \<and> i = 0 then Some es else None)" and es: "ek_keyed s g l k es 0 Pkey Hs"
    using acc_key_star_keyed [where rnd = rnd and n = n and arb = arb, OF A B(2) R] unfolding Hs_def .
  define Q where "Q u ks \<longleftrightarrow> (\<exists>y. ks = [y] \<and> length y = Suc n \<and> (\<forall>i<n. \<exists>e. y ! i = Some e \<and> ek_keyed s g l k e u Pkey (H u i))
      \<and> (u = 0 \<longrightarrow> y ! n = Some es))" for u ks
  let ?row = "\<lambda>u cache. bindR (mapS (\<lambda>i cache. bindR (?bit u i cache) (\<lambda>(cache, k0). bindR (?star u i cache) (\<lambda>(cache, star). Inr (cache, (k0, star))))) [0..<n] cache)
        (\<lambda>(cache, ks). Inr (cache, [map fst ks @ [star_of ks]]))"
  have party: "\<exists>ks. ?row u (fst s) = Inr (fst s, ks) \<and> Q u ks" if u: "u < k" for u
  proof -
    obtain y where y: "mapS (\<lambda>i cache. bindR (?bit u i cache) (\<lambda>(cache, k0). bindR (?star u i cache) (\<lambda>(cache, star). Inr (cache, (k0, star))))) [0..<n] (fst s)
        = Inr (fst s, y)" "length y = n" "\<forall>i<n. \<exists>e. fst (y ! i) = Some e \<and> ek_keyed s g l k e u Pkey (H u i)" "u = 0 \<longrightarrow> star_of y = Some es"
      using party_acc_keys [where f = "?bit u" and g = "?star u" and c = "fst s" and z = "u = 0" and es = es
          and Q = "\<lambda>i y. \<exists>e. y = Some e \<and> ek_keyed s g l k e u Pkey (H u i)", OF bit [OF u] star [rule_format] B(3)] by blast
    then have "Q u [map fst y @ [star_of y]]" by (auto simp: Q_def nth_append)
    then show ?thesis using y(1) by simp
  qed
  have "\<exists>ek. mapS ?row [0..<k] (fst s) = Inr (fst s, ek) \<and> length ek = k \<and> (\<forall>u<k. Q u (ek ! u))"
    by (rule mapS_upt) (rule party)
  then obtain ek where ek: "mapS ?row [0..<k] (fst s) = Inr (fst s, ek)" "length ek = k" "\<forall>u<k. Q u (ek ! u)" by blast
  have "KeyGenAcc_B_keys arb U invs sv (up_CRS U) rnd (fst s) = Inr (fst s, ek)"
    using ek(1) B(1,2) B(4) [OF B(2)] by (simp add: KeyGenAcc_B_keys_def idx_def)
  moreover have "binary_keys s g l k n ek Pkey b Hs H"
    unfolding binary_keys_def
  proof (intro conjI allI impI)
    show "\<exists>e. key_at ek 0 0 n = Inr (Some e) \<and> ek_keyed s g l k e 0 Pkey Hs"
      using ek(2,3) B(2) es by (fastforce simp: Q_def key_at_def idx2_def idx_def)
  next
    fix u i assume ui: "u < k" "i < n"
    show "\<exists>e. key_at ek u 0 i = Inr (Some e) \<and> ek_keyed s g l k e u Pkey (H u i)"
      using ek(2,3) ui by (fastforce simp: Q_def key_at_def idx2_def idx_def)
    show "same_parties (H u i) Hs" by (simp add: same_parties_def H_def Hs_def generated_key_def Let_def)
    show "hy_M (H u i) j = (if b u i then if u = 0 \<and> i = 0 then hy_M Hs j else 1 else 0)" for j
      by (simp add: H_def Hs_def generated_key_def Let_def)
  qed
  ultimately show ?thesis by blast
qed

section \<open>Key generation\<close>

definition keygen_secrets ::
  "'a::len ring_state \<Rightarrow> 'a uni_params \<Rightarrow> 'a mklwe_params \<Rightarrow> nat \<Rightarrow> nat \<Rightarrow> (nat \<Rightarrow> nat \<Rightarrow> bool) \<Rightarrow> 'a nvec list \<Rightarrow> 'a nvec list
     \<Rightarrow> 'a nvec list \<Rightarrow> (nat \<Rightarrow> 32 word list \<times> 32 word list) \<Rightarrow> bool" where
  "keygen_secrets s U mp k n b sk sv svN ntl \<longleftrightarrow> mp_k mp = k \<and> mp_n mp = n \<and> mp_N mp = ring_len s \<and> 0 < k \<and> 0 < n
     \<and> length sk = k \<and> (\<forall>u<k. length (m_data (sk ! u)) = n \<and> (\<forall>i<n. m_data (sk ! u) ! i = (if b u i then 1 else 0)))
     \<and> ring_mod s \<le> 2 ^ 31 \<and> (\<forall>u<k. ntl_inverse (ring_len s) (ring_mod s) (ntl u))
     \<and> mk_ks_inputs_ok mp sv svN \<and> modulus_ok (mp_qKS mp) \<and> GetMSB (mp_qKS mp) \<le> MAX_MODULUS_SIZE LENGTH('a)
     \<and> (\<forall>u<k. SwitchModulus (sk ! u) (mp_qKS mp) = Inr (sv ! u)
          \<and> SwitchModulus (secret_vec U (fst (ntl u))) (mp_qKS mp) = Inr (svN ! u))"

definition keygen_noise ::
  "'a::len ring_state \<Rightarrow> 'a mklwe_params \<Rightarrow> nat \<Rightarrow> nat \<Rightarrow> (nat \<Rightarrow> nat \<Rightarrow> 'a nvec) \<Rightarrow> (nat \<Rightarrow> nat \<Rightarrow> nat \<Rightarrow> 'a key_noise)
     \<Rightarrow> (nat \<Rightarrow> nat \<Rightarrow> nat \<Rightarrow> nat \<Rightarrow> 'a nvec) \<Rightarrow> bool" where
  "keygen_noise s mp l k e rnd genA \<longleftrightarrow> (\<forall>u<k. \<forall>i<l - 1. coef_ok s (e u i)) \<and> (\<forall>u b i. noise_ok_at s l (rnd u b i))
     \<and> (\<forall>u i j k. nvec_ok (genA u i j k) \<and> m_modulus (genA u i j k) = mp_qKS mp \<and> length (m_data (genA u i j k)) = mp_n mp)"

text \<open>The keys of the blind rotation as functions of the point, for the ring elements \<open>invs\<close> of the inverses.\<close>

definition ring_secret :: "'a::len ring_state \<Rightarrow> (nat \<Rightarrow> 32 word list \<times> 32 word list) \<Rightarrow> nat \<Rightarrow> nat \<Rightarrow> int" where
  "ring_secret s ntl u = at_point s (coef_at (fst (ntl u)))"

definition star_key ::
  "'a::len ring_state \<Rightarrow> 'a uni_params \<Rightarrow> (nat \<Rightarrow> 32 word list \<times> 32 word list) \<Rightarrow> 'a poly list \<Rightarrow> nat \<Rightarrow> (nat \<Rightarrow> nat \<Rightarrow> 'a nvec)
     \<Rightarrow> (nat \<Rightarrow> nat \<Rightarrow> nat \<Rightarrow> 'a key_noise) \<Rightarrow> hybrid" where
  "star_key s U ntl invs n e rnd = generated_key s True True (invs ! 0) (up_CRS U) (rnd 0 0 n) (ring_secret s ntl) (\<lambda>u i. nat_point s (e u i))"

definition bit_hybrid ::
  "'a::len ring_state \<Rightarrow> 'a uni_params \<Rightarrow> (nat \<Rightarrow> 32 word list \<times> 32 word list) \<Rightarrow> 'a poly list \<Rightarrow> (nat \<Rightarrow> nat \<Rightarrow> bool) \<Rightarrow> (nat \<Rightarrow> nat \<Rightarrow> 'a nvec)
     \<Rightarrow> (nat \<Rightarrow> nat \<Rightarrow> nat \<Rightarrow> 'a key_noise) \<Rightarrow> nat \<Rightarrow> nat \<Rightarrow> hybrid" where
  "bit_hybrid s U ntl invs b e rnd u i =
     generated_key s (u = 0 \<and> i = 0) (b u i) (invs ! u) (up_CRS U) (rnd u 0 i) (ring_secret s ntl) (\<lambda>u i. nat_point s (e u i))"

definition small_secret :: "'a::len ring_state \<Rightarrow> (nat \<Rightarrow> 32 word list \<times> 32 word list) \<Rightarrow> nat \<Rightarrow> nat \<Rightarrow> int" where
  "small_secret s ntl u i = centered (ring_mod s) (coef_at (fst (ntl u)) i)"

lemma ring_secret_small: "ring_secret s ntl u j mod ring_mod s = at_point s (small_secret s ntl u) j mod ring_mod s"
  unfolding ring_secret_def small_secret_def at_point_def by (intro sum_mod_cong mod_mult_cong refl centered_mod [symmetric])

lemma switched_secret:
  fixes U :: "'a::len uni_params" and q :: "'a word"
  assumes P: "rotation_params s U g l k" "ring_mod s \<le> 2 ^ 31" and q: "modulus_ok q" "GetMSB q \<le> MAX_MODULUS_SIZE LENGTH('a)"
    and c: "ntl_inverse (ring_len s) (ring_mod s) (ntl u)" "SwitchModulus (secret_vec U (fst (ntl u))) q = Inr v" and i: "i < ring_len s"
  shows "uint (m_data v ! i) mod uint q = small_secret s ntl u i mod uint q"
proof -
  let ?v = "secret_vec U (fst (ntl u))"
  have "\<forall>c \<in> set (fst (ntl u)). uint c < ring_mod s" using c(1) by (auto simp: ntl_inverse_def)
  note V = secret_vec_ok [OF P this]
  have v: "nvec_ok ?v" "uint (m_modulus ?v) = ring_mod s" "length (m_data ?v) = ring_len s"
    using V(1) by (simp_all add: coef_ok_def ring_mod_def)
  obtain w where "SwitchModulus ?v q = Inr w" "vals w = map (\<lambda>x. centered (uint (m_modulus ?v)) x mod uint q) (vals ?v)"
    using SwitchModulus_value [OF v(1) q] by metis
  then have w: "vals v = map (\<lambda>x. centered (ring_mod s) x mod uint q) (vals ?v)" using c(2) v(2) by simp
  then have "length (m_data v) = ring_len s" using v(3) by (metis length_map vals_def)
  then have "uint (m_data v ! i) = centered (ring_mod s) (uint (m_data ?v ! i)) mod uint q"
    using i vals_nth [of i v] w v(3) by (simp add: vals_nth)
  then show ?thesis using V(2) [OF i] by (simp add: small_secret_def)
qed

lemma keygen_gate_secrets:
  fixes U :: "'a::len uni_params"
  assumes P: "rotation_params s U g l k" and S: "keygen_secrets s U mp k n b sk sv svN ntl" and H: "hy_S Hs = ring_secret s ntl"
  shows "gate_secrets s mp Hs (small_secret s ntl) svN"
  using ring_secret_small [of s ntl] switched_secret [OF P] S by (simp add: gate_secrets_def H keygen_secrets_def)

text \<open>The keys of the parties and the public keys set the stage for the keys of the blind rotation.\<close>

lemma keygen_setting:
  fixes U :: "'a::len uni_params"
  assumes P: "keygen_params s U g l k" "ring_mod s \<le> 2 ^ 31" and T: "\<forall>u<k. ntl_inverse (ring_len s) (ring_mod s) (ntl u)"
    and N: "\<And>u i. u < k \<Longrightarrow> i < l - 1 \<Longrightarrow> coef_ok s (e u i)"
  obtains ks Pkey where "mapS (party_keys arb U ntl) [0..<k] (fst s) = Inr (fst s, ks)" "length ks = k"
    "\<forall>u<k. map fst ks ! u = secret_vec U (fst (ntl u))"
    "\<forall>u<k. valued s (map (snd \<circ> snd) ks ! u) (at_point s (coef_at (snd (ntl u))))"
    "public_keys arb U (map (fst \<circ> snd) ks) e (fst s) = Inr (fst s, Pkey)"
    "acc_setting s U g l k (map (snd \<circ> snd) ks) (ring_secret s ntl) Pkey (\<lambda>u i. nat_point s (e u i))"
proof -
  have p: "rotation_params s U g l k" "rows_ok s l (up_CRS U)" "ready s" using P by (simp_all add: keygen_params_def rotation_params_def)
  let ?Q = "\<lambda>i y. fst y = secret_vec U (fst (ntl i)) \<and> valued s (fst (snd y)) (ring_secret s ntl i)
      \<and> valued s (snd (snd y)) (at_point s (coef_at (snd (ntl i))))"
  have "\<exists>y. party_keys arb U ntl i (fst s) = Inr (fst s, y) \<and> ?Q i y" if "i < k" for i
    using party_keys_run [where ntl = ntl and i = i and arb = arb, OF p(1) P(2)] T that unfolding ring_secret_def by auto
  then have "\<exists>ks. mapS (party_keys arb U ntl) [0..<k] (fst s) = Inr (fst s, ks) \<and> length ks = k \<and> (\<forall>i<k. ?Q i (ks ! i))"
    by (rule mapS_upt)
  then obtain ks where ks: "mapS (party_keys arb U ntl) [0..<k] (fst s) = Inr (fst s, ks)" "length ks = k" "\<forall>i<k. ?Q i (ks ! i)"
    by blast
  let ?sks = "map (fst \<circ> snd) ks" and ?invs = "map (snd \<circ> snd) ks"
  have sks: "length ?sks = k" "\<And>u. u < k \<Longrightarrow> valued s (?sks ! u) (ring_secret s ntl u)" using ks(2,3) by simp_all
  have invs: "length ?invs = k" "\<And>u. u < k \<Longrightarrow> valued s (?invs ! u) (at_point s (coef_at (snd (ntl u))))" using ks(2,3) by simp_all
  have "\<exists>Pkey. public_keys arb U ?sks e (fst s) = Inr (fst s, Pkey) \<and> length Pkey = k \<and> (\<forall>u<k. length (Pkey ! u) = l - 1
    \<and> (\<forall>i<l - 1. valued s (Pkey ! u ! i) (\<lambda>j. nat_point s (e u i) j - pev (up_CRS U ! i) j * ring_secret s ntl u j)))"
    by (rule public_keys_run [OF p(1,2) sks(1)]; intro sks(2) N; assumption)
  then obtain Pkey where pk: "public_keys arb U ?sks e (fst s) = Inr (fst s, Pkey)" "length Pkey = k" "\<forall>u<k. length (Pkey ! u) = l - 1
      \<and> (\<forall>i<l - 1. valued s (Pkey ! u ! i) (\<lambda>j. nat_point s (e u i) j - pev (up_CRS U ! i) j * ring_secret s ntl u j))"
    by blast
  have IS: "pev (?invs ! u) j * ring_secret s ntl u j mod ring_mod s = 1 mod ring_mod s" if "u < k" "j < ring_len s" for u j
  proof -
    have "pev (?invs ! u) j * ring_secret s ntl u j mod ring_mod s
        = at_point s (coef_at (snd (ntl u))) j * ring_secret s ntl u j mod ring_mod s"
      using invs(2) [OF that(1)] that(2) by (intro mod_mult_cong refl) (simp add: valued_def)
    also have "\<dots> = 1 mod ring_mod s"
      using ntl_inverse_values [OF p(3) _ that(2), of "ntl u"] T that(1) by (simp add: ring_secret_def mult.commute)
    finally show ?thesis .
  qed
  have "acc_setting s U g l k ?invs (ring_secret s ntl) Pkey (\<lambda>u i. nat_point s (e u i))"
    using P(1) invs IS pk(2,3) unfolding acc_setting_def by (simp add: valued_def)
  moreover have "\<forall>u<k. map fst ks ! u = secret_vec U (fst (ntl u))" using ks(2,3) by simp
  ultimately show thesis using that [OF ks(1,2) _ _ pk(1)] invs(2) by blast
qed

lemma MKKeyGen_LWE_keys:
  fixes U :: "'a::len uni_params"
  assumes P: "keygen_params s U g l k" and q: "(2 * ring_len s) * (2 * ring_len s) \<le> 2 ^ LENGTH('a)"
    and S: "keygen_secrets s U mp k n b sk sv svN ntl" and N: "keygen_noise s mp l k e rnd genA"
    and M: "method = MKNTRU_B \<or> method = MKNTRU_LWE"
  shows "\<exists>EK ek ksk invs. MKKeyGen_LWE method arb mp U sk ntl genA genE e rnd (fst s) = Inr (fst s, EK)
    \<and> bt_BSkey EK = Some ek \<and> bt_LKSkey EK = Some ksk \<and> (\<forall>u<k. valued s (invs ! u) (at_point s (coef_at (snd (ntl u)))))
    \<and> boot_inputs s U g l k n ek (bt_Pkey EK) b (star_key s U ntl invs n e rnd) (bit_hybrid s U ntl invs b e rnd)
    \<and> gate_secrets s mp (star_key s U ntl invs n e rnd) (small_secret s ntl) svN \<and> switch_key mp sv svN genE ksk"
proof -
  have p: "rotation_params s U g l k" "rows_ok s l (up_CRS U)" "up_k U = k" "ready s"
    using P by (simp_all add: keygen_params_def rotation_params_def)
  have k: "mp_k mp = k" "mp_n mp = n" "0 < k" "0 < n" "length sk = k"
      "\<And>u. u < k \<Longrightarrow> length (m_data (sk ! u)) = n \<and> (\<forall>i<n. m_data (sk ! u) ! i = (if b u i then 1 else 0))"
      "ring_mod s \<le> 2 ^ 31" "\<forall>u<k. ntl_inverse (ring_len s) (ring_mod s) (ntl u)" "mk_ks_inputs_ok mp sv svN"
      "\<forall>u<k. SwitchModulus (sk ! u) (mp_qKS mp) = Inr (sv ! u)"
      "\<forall>u<k. SwitchModulus (secret_vec U (fst (ntl u))) (mp_qKS mp) = Inr (svN ! u)"
    using S by (simp_all add: keygen_secrets_def)
  have n: "\<And>u i. u < k \<Longrightarrow> i < l - 1 \<Longrightarrow> coef_ok s (e u i)" "\<And>u b i. noise_ok_at s l (rnd u b i)"
      "\<And>u i j k. nvec_ok (genA u i j k) \<and> m_modulus (genA u i j k) = mp_qKS mp \<and> length (m_data (genA u i j k)) = mp_n mp"
    using N by (simp_all add: keygen_noise_def)
  obtain ks Pkey where ks: "mapS (party_keys arb U ntl) [0..<k] (fst s) = Inr (fst s, ks)" "length ks = k"
      "\<forall>u<k. map fst ks ! u = secret_vec U (fst (ntl u))" "\<forall>u<k. valued s (map (snd \<circ> snd) ks ! u) (at_point s (coef_at (snd (ntl u))))"
      "public_keys arb U (map (fst \<circ> snd) ks) e (fst s) = Inr (fst s, Pkey)"
      "acc_setting s U g l k (map (snd \<circ> snd) ks) (ring_secret s ntl) Pkey (\<lambda>u i. nat_point s (e u i))"
    using keygen_setting [where arb = arb and ntl = ntl and e = e, OF P k(7) k(8) n(1)] by blast
  let ?vecs = "map fst ks" and ?sks = "map (fst \<circ> snd) ks" and ?invs = "map (snd \<circ> snd) ks"
  have vecs: "length ?vecs = k" "\<forall>u<k. SwitchModulus (?vecs ! u) (mp_qKS mp) = Inr (svN ! u)" using ks(2,3) k(11) by simp_all
  have gen: "mk_ks_inputs_ok mp sv svN" "length sk = mp_k mp" "length ?vecs = mp_k mp"
      "\<forall>u<mp_k mp. SwitchModulus (sk ! u) (mp_qKS mp) = Inr (sv ! u)" "\<forall>u<mp_k mp. SwitchModulus (?vecs ! u) (mp_qKS mp) = Inr (svN ! u)"
    using k vecs by simp_all
  obtain ksk where ksk: "mk_KeySwitchGen mp sk ?vecs genA genE = Inr ksk" "length (mk_elementsA ksk) = mp_k mp" "length (mk_elementsB ksk) = mp_k mp"
      "\<forall>u<mp_k mp. ksk_ok (mp_qKS mp) (mp_n mp) (mp_N mp) (mp_baseKS mp) (digitCount (mp_qKS mp) (mp_baseKS mp))
         (m_data (sv ! u)) (m_data (svN ! u)) (\<lambda>i j l. uint (genE u i j l)) (mk_elementsA ksk ! u) (mk_elementsB ksk ! u)"
    using mk_KeySwitchGen_value [where genA = genA and genE = genE, OF gen n(3)] .
  have "\<exists>ek. KeyGenAcc_B_keys arb U ?invs sk (up_CRS U) rnd (fst s) = Inr (fst s, ek)
      \<and> binary_keys s g l k n ek Pkey b (star_key s U ntl ?invs n e rnd) (bit_hybrid s U ntl ?invs b e rnd)"
    unfolding star_key_def bit_hybrid_def
    by (rule acc_keys_run [OF ks(6) _ k(5,3,4)]; rule n(2) k(6); assumption)
  then obtain ek where ek: "KeyGenAcc_B_keys arb U ?invs sk (up_CRS U) rnd (fst s) = Inr (fst s, ek)"
      "binary_keys s g l k n ek Pkey b (star_key s U ntl ?invs n e rnd) (bit_hybrid s U ntl ?invs b e rnd)" by blast
  let ?EK = "\<lparr> bt_BSkey = Some ek, bt_KSkey2 = None, bt_LKSkey = Some ksk, bt_Pkey = Pkey, bt_f = ?sks, bt_fvec = ?vecs, bt_F_col0 = [], bt_lwesk = sk \<rparr>"
  have "MKKeyGen_LWE method arb mp U sk ntl genA genE e rnd (fst s) = Inr (fst s, ?EK)"
    using ks(1,5) ksk(1) ek(1) p(3) M by (auto simp: MKKeyGen_LWE_def Let_def acc_KeyGen_LWE_def KeyGenAcc_B_LWE_def)
  moreover have "hy_M (star_key s U ntl ?invs n e rnd) j * hy_S (star_key s U ntl ?invs n e rnd) 0 j mod ring_mod s = 1 mod ring_mod s"
    if "j < ring_len s" for j
    using acc_setting_inverse [OF ks(6) k(3) that] by (simp add: star_key_def generated_key_def Let_def del: nth_map)
  then have "boot_inputs s U g l k n ek Pkey b (star_key s U ntl ?invs n e rnd) (bit_hybrid s U ntl ?invs b e rnd)"
    using p(1) ek(2) q by (simp add: boot_inputs_def)
  moreover have "hy_S (star_key s U ntl ?invs n e rnd) = ring_secret s ntl" by (simp add: star_key_def generated_key_def Let_def)
  then have "gate_secrets s mp (star_key s U ntl ?invs n e rnd) (small_secret s ntl) svN" by (rule keygen_gate_secrets [OF p(1) S])
  moreover have "switch_key mp sv svN genE ksk" using gen(1) ksk by (simp add: switch_key_def)
  ultimately show ?thesis
    using ks(4) by (intro exI [of _ ?EK] exI [of _ ek] exI [of _ ksk] exI [of _ ?invs]) simp
qed

section \<open>Decoding the output of a gate\<close>

text \<open>
  The noise budget of the output: with the constant coefficient \<open>e\<close> of the rotation noise, the key switching
  noise \<open>ks\<close> and the bound \<open>R\<close> of the rounding, a quarter of the modulus and zero decode to one and zero.
\<close>

lemma output_offset:
  fixes q Q :: int
  assumes "0 < q" "0 < Q"
  shows "\<bar>4 * q * (Q div 8 + 1) - 2 * Q * (q div 4)\<bar> \<le> 4 * q + 2 * Q"
proof -
  have "8 * (Q div 8) = Q - Q mod 8" "4 * (q div 4) = q - q mod 4" by (simp_all add: minus_mod_eq_mult_div)
  then have "q * (8 * (Q div 8)) = q * (Q - Q mod 8)" "Q * (4 * (q div 4)) = Q * (q - q mod 4)" by simp_all
  then have *: "2 * (4 * q * (Q div 8 + 1) - 2 * Q * (q div 4)) = 8 * q - q * (Q mod 8) + Q * (q mod 4)"
    by (simp add: algebra_simps)
  have "q * (Q mod 8) \<le> q * 7" "0 \<le> q * (Q mod 8)" using assms by (auto intro!: mult_left_mono)
  moreover have "Q * (q mod 4) \<le> Q * 3" "0 \<le> Q * (q mod 4)" using assms by (auto intro!: mult_left_mono)
  moreover have "\<bar>x\<bar> \<le> 4 * q + 2 * Q" if "2 * x = 8 * q - a + c" "a \<le> q * 7" "0 \<le> a" "c \<le> Q * 3" "0 \<le> c" for x a c
    using that assms by linarith
  ultimately show ?thesis using * by blast
qed

lemma output_decode:
  fixes q Q r ks e err R :: int
  assumes "0 < q" "0 < Q" and r: "2 * Q * (r + ks) mod (2 * Q * q) = (2 * q * ((if M then 0 else 2 * (Q div 8 + 1)) - e) + err) mod (2 * Q * q)"
    and b: "\<bar>err\<bar> \<le> R" "8 * (2 * q * (\<bar>e\<bar> + 2) + Q * (2 * \<bar>ks\<bar> + 2) + R) < 2 * Q * (q - 15)"
  shows "decode q 4 r = (if M then 0 else 1)"
proof -
  define m :: int where "m = (if M then 0 else 1)"
  define D where "D = (if M then 0 else 4 * q * (Q div 8 + 1) - 2 * Q * (q div 4))"
  define F where "F = D - 2 * q * e + err - 2 * Q * ks"
  have D: "\<bar>D\<bar> \<le> 4 * q + 2 * Q" using output_offset [OF assms(1,2)] assms(1,2) by (simp add: D_def)
  have "2 * Q * (r + ks) mod (2 * Q * q) - (2 * Q * (m * (q div 4)) + 2 * Q * ks) = 
      (2 * q * ((if M then 0 else 2 * (Q div 8 + 1)) - e) + err) mod (2 * Q * q) - (2 * Q * (m * (q div 4)) + 2 * Q * ks)" by (simp only: r)
  then have "(2 * Q * (r + ks) - (2 * Q * (m * (q div 4)) + 2 * Q * ks)) mod (2 * Q * q)
      = (2 * q * ((if M then 0 else 2 * (Q div 8 + 1)) - e) + err - (2 * Q * (m * (q div 4)) + 2 * Q * ks)) mod (2 * Q * q)"
    by (intro mod_diff_cong r refl)
  also have "2 * q * ((if M then 0 else 2 * (Q div 8 + 1)) - e) + err - (2 * Q * (m * (q div 4)) + 2 * Q * ks) = F"
    by (simp add: F_def D_def m_def algebra_simps)
  also have "2 * Q * (r + ks) - (2 * Q * (m * (q div 4)) + 2 * Q * ks) = 2 * Q * (r - m * (q div 4))" by (simp add: algebra_simps)
  finally have F: "2 * Q * (r - m * (q div 4)) mod (2 * Q * q) = F mod (2 * Q * q)" .
  then have "2 * Q dvd F" by (metis dvd_mod_iff dvd_triv_left)
  then obtain E where E: "F = 2 * Q * E" by (elim dvdE)
  have "2 * Q * ((r - m * (q div 4)) mod q) = 2 * Q * (E mod q)" using F unfolding E by (simp only: mult_mod_right)
  then have "(r - m * (q div 4)) mod q = E mod q" using assms(2) by simp
  then have "(m * (q div 4) + (r - m * (q div 4))) mod q = (m * (q div 4) + E) mod q" by (intro mod_add_cong refl)
  then have R: "r mod q = (m * (q div 4) + E) mod q" by simp
  have "\<bar>2 * q * e\<bar> = 2 * q * \<bar>e\<bar>" "\<bar>2 * Q * ks\<bar> = 2 * Q * \<bar>ks\<bar>" using assms(1,2) by (simp_all add: abs_mult)
  then have "\<bar>F\<bar> \<le> 4 * q + 2 * Q + 2 * q * \<bar>e\<bar> + R + 2 * Q * \<bar>ks\<bar>" unfolding F_def using D b(1) by linarith
  also have "\<dots> = 2 * q * (\<bar>e\<bar> + 2) + Q * (2 * \<bar>ks\<bar> + 2) + R" by (simp add: algebra_simps)
  finally have "8 * \<bar>F\<bar> \<le> 8 * (2 * q * (\<bar>e\<bar> + 2) + Q * (2 * \<bar>ks\<bar> + 2) + R)" by (rule mult_left_mono) simp
  then have "8 * \<bar>F\<bar> < 2 * Q * (q - 15)" using b(2) by (rule le_less_trans)
  moreover have "\<bar>F\<bar> = 2 * Q * \<bar>E\<bar>" using assms(2) by (simp add: E abs_mult)
  ultimately have "2 * Q * (8 * \<bar>E\<bar>) < 2 * Q * (q - 15)" by simp
  then have "8 * \<bar>E\<bar> < q - 15" using assms(2) by (simp only: mult_less_cancel_left_pos zero_less_mult_iff zero_less_numeral simp_thms)
  moreover have m: "0 \<le> m" "m < 4" "m = 0 \<or> m = 1" by (simp_all add: m_def)
  ultimately have "noise_ok q 4 m E" unfolding noise_ok_def by (elim disjE) (simp_all, linarith+)
  then have "decode q 4 r = m" using decode_correct [OF _ assms(1) m(1,2) _ R] by simp
  then show ?thesis by (simp add: m_def)
qed

definition gate_budget :: "'a::len ring_state \<Rightarrow> 'a mklwe_params \<Rightarrow> (nat \<Rightarrow> nat \<Rightarrow> int) \<Rightarrow> (nat \<Rightarrow> int) \<Rightarrow> int \<Rightarrow> bool" where
  "gate_budget s mp t \<nu> ks \<longleftrightarrow> (let q = uint (mp_qKS mp); Q = ring_mod s in
     \<exists>e. (\<forall>j<ring_len s. at_point s e j mod Q = \<nu> j mod Q)
       \<and> 8 * (2 * q * (\<bar>e 0\<bar> + 2) + Q * (2 * \<bar>ks\<bar> + 3 + (\<Sum>u<mp_k mp. \<Sum>i<ring_len s. \<bar>t u i\<bar>))) < 2 * Q * (q - 15))"

lemma gate_decrypts:
  fixes mp :: "'a::len mklwe_params"
  assumes R: "ready s" "3 < LENGTH('a)" and K: "switch_key mp sv svN genE ksk" and V: "mk_valid sv z"
    and S: "length sk = mp_k mp" "\<forall>u<mp_k mp. SwitchModulus (sk ! u) (mp_qKS mp) = Inr (sv ! u)"
    and p: "pt_ok 4 (mp_qKS mp)" "(int (mp_n mp) + 1) * uint (mp_qKS mp) \<le> 2 ^ LENGTH('a)"
    and e: "\<forall>j<ring_len s. at_point s e j mod ring_mod s = \<nu> j mod ring_mod s"
    and err: "\<bar>err\<bar> \<le> ring_mod s * (1 + (\<Sum>u<mp_k mp. \<Sum>i<ring_len s. \<bar>t u i\<bar>))"
    and P: "2 * ring_mod s * (mk_phase sv z + ks) mod (2 * ring_mod s * uint (mp_qKS mp))
      = (2 * uint (mp_qKS mp) * ((if m1 \<and> m2 then 0 else 2 * level s 4) - e 0) + err) mod (2 * ring_mod s * uint (mp_qKS mp))"
    and B: "gate_budget s mp t \<nu> ks"
  shows "mk_Decrypt mp sk z 4 = Inr (if m1 \<and> m2 then 0 else 1)"
proof -
  let ?q = "uint (mp_qKS mp)" and ?Q = "ring_mod s"
  obtain c L X where s: "s = (c, L, X)" by (cases s) auto
  have Q: "0 < ?Q" "0 < ring_len s" using R(1) ring_paramsD [of L X] by (auto simp: ready_def s ring_mod_def ring_len_def modulus_ok_def)
  have k: "barrett_modulus (mp_qKS mp)" "length sv = mp_k mp" "mk_key (mp_k mp) (mp_n mp) (mp_qKS mp) ((!) sv)"
    using K unfolding switch_key_def mk_ks_inputs_ok_def by blast+
  have q: "0 < ?q" using barrett_modulus_facts [OF k(1)] by blast
  obtain e' where e': "\<forall>j<ring_len s. at_point s e' j mod ?Q = \<nu> j mod ?Q"
      "8 * (2 * ?q * (\<bar>e' 0\<bar> + 2) + ?Q * (2 * \<bar>ks\<bar> + 3 + (\<Sum>u<mp_k mp. \<Sum>i<ring_len s. \<bar>t u i\<bar>))) < 2 * ?Q * (?q - 15)"
    using B unfolding gate_budget_def Let_def by blast
  have "at_point s e j mod ?Q = at_point s e' j mod ?Q" if "j < ring_len s" for j using e e'(1) that by (simp only:)
  then have "e 0 mod ?Q = e' 0 mod ?Q" by (rule values_unique [OF R(1) _ Q(2)])
  then have "((if m1 \<and> m2 then 0 else 2 * level s 4) - e 0) mod ?Q = ((if m1 \<and> m2 then 0 else 2 * level s 4) - e' 0) mod ?Q"
    by (rule mod_diff_cong [OF refl])
  then have "2 * ?q * ((if m1 \<and> m2 then 0 else 2 * level s 4) - e 0) mod (2 * ?q * ?Q)
      = 2 * ?q * ((if m1 \<and> m2 then 0 else 2 * level s 4) - e' 0) mod (2 * ?q * ?Q)" by (simp only: mult_mod_right [symmetric])
  from mod_add_cong [OF this refl, of err]
  have "2 * ?Q * (mk_phase sv z + ks) mod (2 * ?Q * ?q)
      = (2 * ?q * ((if m1 \<and> m2 then 0 else 2 * level s 4) - e' 0) + err) mod (2 * ?Q * ?q)"
    unfolding P by (simp only: ac_simps)
  moreover have "level s 4 = ?Q div 8 + 1" using uint_four(1) [OF R(2)] by (simp add: level_def)
  ultimately have "2 * ?Q * (mk_phase sv z + ks) mod (2 * ?Q * ?q)
      = (2 * ?q * ((if m1 \<and> m2 then 0 else 2 * (?Q div 8 + 1)) - e' 0) + err) mod (2 * ?Q * ?q)" by simp
  then have "decode ?q 4 (mk_phase sv z) = (if m1 \<and> m2 then 0 else 1)"
    by (rule output_decode [OF q Q(1) _ err]) (use e'(2) in \<open>simp add: algebra_simps\<close>)
  then show ?thesis using mk_Decrypt_value [OF V S(2) k(3) S(1) k(2,1) p] by simp
qed

section \<open>Key generation, evaluation and decryption\<close>


definition uni8_keys :: "32 uni_params" where
  "uni8_keys = uni8 \<lparr> up_CRS := [el8 1, el8 1] \<rparr>"

definition vec8 :: "32 word \<Rightarrow> 32 nvec" where
  "vec8 x = \<lparr> m_modulus = 17, m_data = [x, 0, 0, 0, 0, 0, 0, 0] \<rparr>"

lemma vec8_ok: "coef_ok ring8 (vec8 0)" "coef_ok ring8 (vec8 3)"
  by (simp_all add: coef_ok_def vec8_def nvec_ok_def modulus_ok_def residue_def)

text \<open>The polynomial one is its own inverse.\<close>

definition ntl8 :: "nat \<Rightarrow> 32 word list \<times> 32 word list" where "ntl8 u = ([1], [1])"

definition noise8 :: "32 key_noise" where
  "noise8 = \<lparr> kn_r = vec8 3, kn_e0 = (\<lambda>i. vec8 0), kn_e1 = (\<lambda>i. vec8 0) \<rparr>"

lemma keygen8_params: "keygen_params ring8 uni8_keys 2 3 1"
proof -
  have "rotation_params ring8 uni8_keys 2 3 1" using uni8_params by (simp add: rotation_params_def uni8_keys_def gadget_ok_def ring8_def)
  moreover have "up_Gpower uni8_keys = gpowers (up_Q uni8_keys) (ucast (up_baseG uni8_keys)) 3 1"
    by (simp add: uni8_keys_def uni8_def ex_uni_def)
  ultimately show ?thesis by (simp add: keygen_params_def rows_ok_def uni8_keys_def el8_ok all_less_two)
qed

lemma keygen8_secrets: "keygen_secrets ring8 uni8_keys gate8 1 1 (\<lambda>u i. True) sv8 sv8 svN8 ntl8"
proof -
  have "ntl_inverse 8 17 ([1], [1])"
    by (auto simp: ntl_inverse_def negacyclic_def coef_at_def less_Suc_eq numeral_nat lessThan_Suc)
  moreover have i: "mk_ks_inputs_ok gate8 sv8 svN8" by code_simp
  moreover have "SwitchModulus (sv8 ! 0) (mp_qKS gate8) = Inr (sv8 ! 0)" by code_simp
  moreover have "secret_vec uni8_keys [1] = vec8 1"
    by (simp add: secret_vec_def uni8_keys_def uni8_def ex_uni_def Get_invertible_NativeVector_def vec8_def upt_rec lift_entry_def)
  moreover have "SwitchModulus (vec8 1) (mp_qKS gate8) = Inr (svN8 ! 0)" by code_simp
  moreover have "modulus_ok (mp_qKS gate8)" "GetMSB (mp_qKS gate8) \<le> MAX_MODULUS_SIZE LENGTH(32)" by code_simp+
  ultimately show ?thesis by (simp add: keygen_secrets_def gate8_def ntl8_def) (simp add: sv8_def)
qed

lemma keygen8_noise: "keygen_noise ring8 gate8 3 1 (\<lambda>u i. vec8 0) (\<lambda>u b i. noise8) (\<lambda>u i j k. sv8 ! 0)"
  by (simp add: keygen_noise_def noise_ok_at_def noise8_def vec8_ok sv8_def gate8_def nvec_ok_def modulus_ok_def residue_def)


end
