(* ===== verification/NTRUGate.thy ===== *)
theory NTRUGate
  imports MKKeys
begin

text \<open>
  The NAND gate of the matrix NTRU scheme, \<^verbatim>\<open>BinFHEScheme::EvalBinGate\<close> on matrix NTRU ciphertexts, with the
  keys of \<^verbatim>\<open>MKKeyGen\<close>: the ternary blind rotation scales the ciphertext itself to the exponents of the ring, the
  output has the phase of an eighth of the modulus with a sign, and \<^verbatim>\<open>Decrypt\<close> reads that sign.
\<close>

section \<open>Exponents of a ternary rotation\<close>

definition scaled_entry :: "'a::len ring_state \<Rightarrow> 'a nvec list \<Rightarrow> nat \<Rightarrow> nat \<Rightarrow> nat" where
  "scaled_entry s ct u i = unat (m_data (ct ! u) ! i) * (2 * ring_len s) div unat (m_modulus (ct ! 0))"

definition ternary_exponent :: "'a::len ring_state \<Rightarrow> (nat \<Rightarrow> nat \<Rightarrow> int) \<Rightarrow> 'a nvec list \<Rightarrow> nat \<times> nat \<Rightarrow> nat" where
  "ternary_exponent s sg ct = (\<lambda>(u, i). if sg u i = 1 then scaled_entry s ct u i
     else if sg u i = - 1 then 2 * ring_len s - scaled_entry s ct u i else 0)"

text \<open>The first columns of the secret matrices, as integers.\<close>

definition ternary_key :: "nat \<Rightarrow> nat \<Rightarrow> (nat \<Rightarrow> nat \<Rightarrow> int) \<Rightarrow> 'a::len nvec list \<Rightarrow> bool" where
  "ternary_key k n sg f \<longleftrightarrow> length f = k \<and> 0 < n \<and> (\<forall>u<k. length (m_data (f ! u)) = n
     \<and> (\<forall>i<n. sg u i \<in> {- 1, 0, 1} \<and> uint (m_data (f ! u) ! i) mod mk_modulus f = sg u i mod mk_modulus f))"

definition ternary_weight :: "nat \<Rightarrow> nat \<Rightarrow> (nat \<Rightarrow> nat \<Rightarrow> int) \<Rightarrow> int" where
  "ternary_weight k n sg = (\<Sum>u<k. \<Sum>i<n. \<bar>sg u i\<bar>)"

lemma scaled_product:
  fixes q M a x c sg :: int
  assumes sg: "sg = - 1 \<or> sg = 0 \<or> sg = 1" and x: "x mod q = sg mod q" and c: "c = a * M div q"
  shows "q * (if sg = 1 then c else if sg = - 1 then M - c else 0) mod (q * M) = (M * (a * x) - sg * (a * M mod q)) mod (q * M)"
proof -
  obtain t where t: "x = sg + q * t" using x by (metis mod_eq_dvd_iff dvdE diff_add_cancel add.commute)
  have qc: "q * c = a * M - a * M mod q" by (simp add: c minus_mod_eq_mult_div)
  have "M * (a * x) - sg * (a * M mod q) = (sg * (a * M) - sg * (a * M mod q)) + q * M * (a * t)" by (simp add: t algebra_simps)
  then have r: "(M * (a * x) - sg * (a * M mod q)) mod (q * M) = (sg * (a * M) - sg * (a * M mod q)) mod (q * M)"
    by (simp only: mod_mult_self2)
  have "q * (M - c) = - (a * M) + a * M mod q + q * M * 1" using qc by (simp add: algebra_simps)
  then have "q * (M - c) mod (q * M) = (- (a * M) + a * M mod q) mod (q * M)" by (simp only: mod_mult_self2)
  moreover have "- (a * M) + a * M mod q = - 1 * (a * M) - - 1 * (a * M mod q)" by simp
  ultimately have neg: "q * (M - c) mod (q * M) = (- 1 * (a * M) - - 1 * (a * M mod q)) mod (q * M)" by (simp only:)
  have pos: "q * c mod (q * M) = (1 * (a * M) - 1 * (a * M mod q)) mod (q * M)" by (simp only: qc mult_1_left)
  consider "sg = - 1" | "sg = 0" | "sg = 1" using sg by blast
  then show ?thesis
  proof cases
    case 1
    with neg r show ?thesis by simp
  next
    case 3
    with pos r show ?thesis by (simp only: if_True refl)
  qed (use r in simp)
qed

lemma ternary_exponent_phase:
  fixes ct :: "'a::len mntru_ct"
  assumes V: "nt_valid f ct" and K: "ternary_key k n sg f" and S: "scalable s k n (nct_elements ct)"
  obtains err where "\<bar>err\<bar> \<le> mk_modulus f * ternary_weight k n sg"
    "mk_modulus f * int (sum_list (map (ternary_exponent s sg (nct_elements ct)) (List.product [0..<k] [0..<n])))
       mod (mk_modulus f * (2 * int (ring_len s)))
     = (2 * int (ring_len s) * nt_phase f ct + err) mod (mk_modulus f * (2 * int (ring_len s)))"
proof -
  let ?q = "mk_modulus f" and ?M = "2 * int (ring_len s)" and ?e = "ternary_exponent s sg (nct_elements ct)"
  note D = mk_validD [OF V [unfolded nt_valid_mk]]
  have k: "length f = k" "\<And>u. u < k \<Longrightarrow> length (m_data (f ! u)) = n"
      "\<And>u i. u < k \<Longrightarrow> i < n \<Longrightarrow> sg u i = - 1 \<or> sg u i = 0 \<or> sg u i = 1"
      "\<And>u i. u < k \<Longrightarrow> i < n \<Longrightarrow> uint (m_data (f ! u) ! i) mod ?q = sg u i mod ?q" using K by (auto simp: ternary_key_def)
  have q: "0 < ?q" using D(8) .
  have m: "int (unat (m_modulus (nct_elements ct ! 0))) = ?q"
    unfolding uint_nat [symmetric] using D(6) [of 0] V by (auto simp: nt_valid_def)
  define a where "a u i = uint (m_data (nct_elements ct ! u) ! i)" for u i
  define x where "x u i = uint (m_data (f ! u) ! i)" for u i
  define err where "err = - (\<Sum>u<k. \<Sum>i<n. sg u i * (a u i * ?M mod ?q))"
  have entry: "?q * int (?e (u, i)) mod (?q * ?M) = (?M * (a u i * x u i) - sg u i * (a u i * ?M mod ?q)) mod (?q * ?M)"
    if ui: "u < k" "i < n" for u i
  proof -
    have lt: "unat (m_data (nct_elements ct ! u) ! i) < unat (m_modulus (nct_elements ct ! 0))" using S ui by (simp add: scalable_def)
    let ?c = "scaled_entry s (nct_elements ct) u i"
    have c: "int ?c = a u i * ?M div ?q"
      unfolding scaled_entry_def a_def m [symmetric] uint_nat [of "m_data (nct_elements ct ! u) ! i"] by (simp add: zdiv_int)
    have "?c \<le> unat (m_modulus (nct_elements ct ! 0)) * (2 * ring_len s) div unat (m_modulus (nct_elements ct ! 0))"
      unfolding scaled_entry_def using lt by (intro div_le_mono mult_le_mono) simp_all
    then have "?c \<le> 2 * ring_len s" using lt by (simp only: nonzero_mult_div_cancel_left not_less_zero)
    then have "int (?e (u, i)) = (if sg u i = 1 then int ?c else if sg u i = - 1 then ?M - int ?c else 0)"
      by (simp add: ternary_exponent_def of_nat_diff)
    then show ?thesis using scaled_product [OF k(3) [OF ui] _ c, of "x u i"] k(4) [OF ui] by (simp add: x_def)
  qed
  have "?q * int (sum_list (map ?e (List.product [0..<k] [0..<n]))) = (\<Sum>u<k. \<Sum>i<n. ?q * int (?e (u, i)))"
    by (simp add: sum_list_product sum_distrib_left)
  also have "\<dots> mod (?q * ?M) = (\<Sum>u<k. \<Sum>i<n. ?M * (a u i * x u i) - sg u i * (a u i * ?M mod ?q)) mod (?q * ?M)"
    by (rule sum_mod_cong2) (rule entry)
  also have "(\<Sum>u<k. \<Sum>i<n. ?M * (a u i * x u i) - sg u i * (a u i * ?M mod ?q)) = ?M * nt_phase f ct + err"
  proof -
    have "inner (vals (nct_elements ct ! u)) (vals (f ! u)) = (\<Sum>i<n. a u i * x u i)" if "u < k" for u
    proof -
      have l: "length (vals (nct_elements ct ! u)) = n" "length (vals (f ! u)) = n"
        using D(7) [of u] k(1,2) that by simp_all
      show ?thesis unfolding inner_as_sum [OF l] using l by (intro sum.cong) (simp_all add: vals_nth a_def x_def)
    qed
    then show ?thesis by (simp add: nt_phase_def err_def k(1) sum_subtractf sum_distrib_left)
  qed
  finally have "?q * int (sum_list (map ?e (List.product [0..<k] [0..<n]))) mod (?q * ?M) = (?M * nt_phase f ct + err) mod (?q * ?M)" .
  moreover have "\<bar>err\<bar> \<le> ?q * ternary_weight k n sg"
  proof -
    have "\<bar>err\<bar> \<le> (\<Sum>u<k. \<Sum>i<n. \<bar>sg u i * (a u i * ?M mod ?q)\<bar>)"
      unfolding err_def abs_minus_cancel by (intro order_trans [OF sum_abs] sum_mono sum_abs)
    also have "\<dots> \<le> (\<Sum>u<k. \<Sum>i<n. ?q * \<bar>sg u i\<bar>)"
      using q by (intro sum_mono) (simp add: abs_mult mult.commute mult_left_mono less_imp_le)
    finally show ?thesis by (simp add: ternary_weight_def sum_distrib_left)
  qed
  ultimately show thesis using that by blast
qed

section \<open>Bootstrapping\<close>

definition ternary_noise ::
  "'a::len ring_state \<Rightarrow> nat \<Rightarrow> nat \<Rightarrow> nat \<Rightarrow> nat \<Rightarrow> (nat \<Rightarrow> nat \<Rightarrow> int) \<Rightarrow> hybrid \<Rightarrow> (nat \<Rightarrow> nat \<Rightarrow> nat \<Rightarrow> hybrid) \<Rightarrow> 'a nvec list
     \<Rightarrow> (nat \<Rightarrow> int) \<Rightarrow> bool" where
  "ternary_noise s g l k n sg Hs H ct \<nu> \<longleftrightarrow> (\<exists>\<eta>.
     (\<forall>t<k * n. noise_of s g l k (ternary_step_key s (scaled_entry s ct) Hs H (List.product [0..<k] [0..<n] ! t)) (\<eta> t))
     \<and> (\<forall>j. \<nu> j = rotated_phase s (ternary_exponent s sg ct) (List.product [0..<k] [0..<n]) (\<lambda>_. 0) \<eta> j))"

definition ntru_inputs ::
  "'a::len ring_state \<Rightarrow> 'a uni_params \<Rightarrow> nat \<Rightarrow> nat \<Rightarrow> nat \<Rightarrow> nat \<Rightarrow> 'a acckey \<Rightarrow> 'a poly list list \<Rightarrow> (nat \<Rightarrow> nat \<Rightarrow> int) \<Rightarrow> hybrid
     \<Rightarrow> (nat \<Rightarrow> nat \<Rightarrow> nat \<Rightarrow> hybrid) \<Rightarrow> bool" where
  "ntru_inputs s U g l k n ek Pkey sg Hs H \<longleftrightarrow> rotation_params s U g l k \<and> ternary_keys s g l k n ek Pkey sg Hs H
     \<and> (\<forall>j<ring_len s. hy_M Hs j * hy_S Hs 0 j mod ring_mod s = 1 mod ring_mod s)"

lemma test_vector_values:
  assumes "uint x = lv" "uint y = Q - lv" "j < N"
  shows "uint (test_vector N y x ! j) mod Q = test_poly N (- lv) j mod Q"
proof -
  have "(Q - lv) mod Q = - lv mod Q" using mod_add_self1 [of Q "- lv"] by simp
  then show ?thesis using assms by (simp add: test_vector_def test_poly_def)
qed

lemma BootstrapGateCore_MNTRU_phase:
  fixes U :: "'a::len uni_params"
  assumes I: "ntru_inputs s U g l k n ek Pkey sg Hs H" and C: "scalable s k n (nct_elements ct)"
    and p: "0 < uint (nct_p ct)" "2 * uint (nct_p ct) < 2 ^ LENGTH('a)"
  defines "E \<equiv> sum_list (map (ternary_exponent s sg (nct_elements ct)) (List.product [0..<k] [0..<n]))"
  shows "\<exists>acc \<nu>. BootstrapGateCore_MNTRU MKNTRU arb U (Some ek) Pkey ct (fst s) = Inr (fst s, acc) \<and> acc_ok s k acc
    \<and> ternary_noise s g l k n sg Hs H (nct_elements ct) \<nu>
    \<and> (\<forall>j<ring_len s. phase k (hy_S Hs) acc j mod ring_mod s
         = (at_point s (nega_shift (ring_len s) (E mod (2 * ring_len s)) (test_poly (ring_len s) (- level s (nct_p ct)))) j + \<nu> j)
           mod ring_mod s)"
proof -
  have P: "rotation_params s U g l k" "ternary_keys s g l k n ek Pkey sg Hs H"
      "\<And>j. j < ring_len s \<Longrightarrow> hy_M Hs j * hy_S Hs 0 j mod ring_mod s = 1 mod ring_mod s"
    using I by (simp_all add: ntru_inputs_def)
  obtain L where L: "ring_len s = 2 ^ L" "0 < L" "L \<le> 24" "2 < ring_mod s" "up_N U = 2 ^ L" "up_Q U = ciphertextModulus (snd (snd s))"
      "ready s" "gadget_ok s U g l" "up_k U = k"
    using rotation_params_ring [OF P(1)] by metis
  let ?N = "ring_len s" and ?q = "ring_mod s" and ?R = "test_poly (ring_len s) (- level s (nct_p ct))"
    and ?xs = "List.product [0..<k] [0..<n]" and ?e = "ternary_exponent s sg (nct_elements ct)"
  have N: "unat (up_N U) = ?N" using unat_power2 [of L] L(1,3,5) by simp
  have k: "0 < k" using C by (simp add: scalable_def)
  obtain x where x: "gate_levels (up_Q U) (nct_p ct) = Inr (x, up_Q U - x)" "uint x = level s (nct_p ct)" "uint (up_Q U - x) = ?q - level s (nct_p ct)"
    using gate_levels_value [OF L(6,4) p] .
  note B = level_bounds [OF L(4) p(1)]
  let ?v = "test_vector ?N (up_Q U - x) x"
  have v: "length ?v = ?N" "uint (?v ! i) = ?R i mod ?q" if "i < ?N" for i
  proof -
    have "uint (?v ! i) mod ?q = uint (?v ! i)" using x(2,3) B that by (simp add: test_vector_def)
    then show "uint (?v ! i) = ?R i mod ?q" using test_vector_values [OF x(2,3) that] by simp
  qed (simp add: test_vector_def)
  have lv: "length ?v = ?N" by (simp add: test_vector_def)
  obtain acc where acc: "initial_acc arb U ?v (fst s) = Inr (fst s, acc)" "acc_ok s k acc"
      "\<forall>j<?N. phase k (hy_S Hs) acc j mod ?q = at_point s ?R j * hy_S Hs 0 j mod ?q"
    using initial_acc_runs [OF L(7,8,9) k lv v(2), of arb "hy_S Hs"] by blast
  obtain acc' \<eta> where A: "EvalAcc arb U ek Pkey (nct_elements ct) acc (fst s) = Inr (fst s, acc')" "acc_ok s k acc'"
      "\<forall>t<k * n. noise_of s g l k (ternary_step_key s (scaled_entry s (nct_elements ct)) Hs H (?xs ! t)) (\<eta> t)"
      "\<forall>j<?N. phase k (hy_S Hs) acc' j mod ?q = rotated_phase s ?e ?xs (\<lambda>j. hy_M Hs j * phase k (hy_S Hs) acc j) \<eta> j mod ?q"
    using EvalAcc_rotates [OF P(1,2) acc(2) C, of arb] unfolding Let_def scaled_entry_def [symmetric] ternary_exponent_def by blast
  have "phase k (hy_S Hs) acc' j mod ?q = (at_point s (nega_shift ?N (E mod (2 * ?N)) ?R) j + rotated_phase s ?e ?xs (\<lambda>_. 0) \<eta> j) mod ?q"
    if j: "j < ?N" for j
  proof -
    let ?z = "point s j" and ?A = "at_point s ?R j"
    have "hy_M Hs j * phase k (hy_S Hs) acc j mod ?q = hy_M Hs j * (?A * hy_S Hs 0 j) mod ?q"
      using acc(3) j by (intro mod_mult_cong [OF refl]) blast
    also have "\<dots> = (hy_M Hs j * hy_S Hs 0 j) * ?A mod ?q" by (simp only: ac_simps)
    also have "\<dots> = 1 * ?A mod ?q" by (rule mod_mult_cong [OF P(3) [OF j] refl])
    finally have "?z ^ E * (hy_M Hs j * phase k (hy_S Hs) acc j) mod ?q = ?z ^ E * (1 * ?A) mod ?q" by (rule mod_mult_cong [OF refl])
    also have "\<dots> = ?z ^ (E mod (2 * ?N)) * ?A mod ?q"
      unfolding mult_1_left by (rule mod_mult_cong [OF power_mod_order [OF point_order(1) [OF L(7) j], symmetric] refl])
    also have "\<dots> = at_point s (nega_shift ?N (E mod (2 * ?N)) ?R) j mod ?q" by (rule at_point_shift [OF L(7) j, symmetric])
    finally show ?thesis
      using A(4) j unfolding rotated_phase_split [of s ?e ?xs "\<lambda>j. hy_M Hs j * phase k (hy_S Hs) acc j"] E_def [symmetric]
      by (metis mod_add_left_eq)
  qed
  moreover have "ternary_noise s g l k n sg Hs H (nct_elements ct) (rotated_phase s ?e ?xs (\<lambda>_. 0) \<eta>)"
    using A(3) unfolding ternary_noise_def by blast
  moreover have "BootstrapGateCore_MNTRU MKNTRU arb U (Some ek) Pkey ct (fst s) = Inr (fst s, acc')"
    using x(1) acc(1) A(1) N by (simp add: BootstrapGateCore_MNTRU_def mk_EvalAcc_def)
  ultimately show ?thesis using A(2) by blast
qed

section \<open>Modulus switching\<close>

lemma nt_ModSwitch_mk:
  assumes "mk_ModSwitch q (as_mk ct) = Inr z" "mct_b z = 0"
  shows "nt_ModSwitch q ct = Inr (MNTRUCiphertext (mct_a z))" "as_mk (MNTRUCiphertext (mct_a z)) = z"
  using assms
  by (auto simp: mk_ModSwitch_def nt_ModSwitch_def Let_def as_mk_def MKLWECiphertext_def MNTRUCiphertext_def split: if_splits)

lemma nt_ModSwitch_phase:
  fixes ct :: "'a::len mntru_ct" and t :: "nat \<Rightarrow> nat \<Rightarrow> int"
  assumes R: "round_ok q (nct_modulus ct)" and V: "nt_valid s ct" and n: "\<forall>u<length s. length (m_data (s ! u)) = n"
    and q: "modulus_ok q" and s': "length s' = length s" "mk_key (length s) n q ((!) s')"
    and t: "\<And>u i. u < length s \<Longrightarrow> i < n \<Longrightarrow> uint (m_data (s' ! u) ! i) mod uint q = t u i mod uint q"
  obtains z err where "nt_ModSwitch q ct = Inr z" "nt_valid s' z" "nct_p z = 4"
    "\<bar>err\<bar> \<le> mk_modulus s * (1 + (\<Sum>u<length s. \<Sum>i<n. \<bar>t u i\<bar>))"
    "2 * mk_modulus s * nt_phase s' z mod (2 * mk_modulus s * uint q)
       = (2 * uint q * (\<Sum>u<length s. \<Sum>i<n. uint (m_data (nct_elements ct ! u) ! i) * t u i) + err) mod (2 * mk_modulus s * uint q)"
proof -
  have V': "mk_valid s (as_mk ct)" and R': "round_ok q (mct_modulus (as_mk ct))" using V R by (simp_all add: nt_valid_mk)
  let ?S = "\<Sum>u<length s. \<Sum>i<n. uint (m_data (nct_elements ct ! u) ! i) * t u i" and ?m = "2 * mk_modulus s * uint q"
  obtain z err where z: "mk_ModSwitch q (as_mk ct) = Inr z" "mk_valid s' z" "mct_p z = 4" "\<bar>err\<bar> \<le> mk_modulus s * (1 + (\<Sum>u<length s. \<Sum>i<n. \<bar>t u i\<bar>))"
      "2 * mk_modulus s * mk_phase s' z mod ?m = (2 * uint q * (uint (mct_b (as_mk ct)) - ?S) + err) mod ?m"
    using mk_ModSwitch_phase [OF R' V' n q s' t] unfolding as_mk_simps .
  obtain w where "mk_ModSwitch q (as_mk ct) = Inr w" "length (mct_a w) = length s"
      "\<forall>u<length s. m_modulus (mct_a w ! u) = q \<and> vals (mct_a w ! u)
        = map (\<lambda>x. scale_round x (uint q) (mk_modulus s) mod uint q) (vals (mct_a (as_mk ct) ! u))"
      "uint (mct_b w) = scale_round (uint (mct_b (as_mk ct))) (uint q) (mk_modulus s) mod uint q"
    using mk_ModSwitch_value [OF R' V' n] .
  moreover have "scale_round 0 (uint q) (mk_modulus s) = 0" using mk_validD(8) [OF V'] by (simp add: scale_round_def)
  ultimately have b: "mct_b z = 0" using z(1) by (simp add: word_uint_eq_iff)
  note W = nt_ModSwitch_mk [OF z(1) b]
  define A B where "A = 2 * mk_modulus s * mk_phase s' z" and "B = 2 * uint q * (uint (mct_b (as_mk ct)) - ?S) + err"
  have AB: "A mod ?m = B mod ?m" using z(5) by (simp only: A_def B_def)
  have "- A mod ?m = - B mod ?m" by (rule euclidean_ring_cancel_class.mod_minus_cong [OF AB])
  moreover have "2 * mk_modulus s * nt_phase s' (MNTRUCiphertext (mct_a z)) = - A" by (simp only: nt_phase_mk W(2) A_def mult_minus_right)
  moreover have "- B = 2 * uint q * ?S + - err" by (simp add: B_def algebra_simps)
  ultimately have X: "2 * mk_modulus s * nt_phase s' (MNTRUCiphertext (mct_a z)) mod ?m = (2 * uint q * ?S + - err) mod ?m" by (simp only:)
  have B: "\<bar>- err\<bar> \<le> mk_modulus s * (1 + (\<Sum>u<length s. \<Sum>i<n. \<bar>t u i\<bar>))" using z(4) by simp
  have "nt_valid s' (MNTRUCiphertext (mct_a z))" "nct_p (MNTRUCiphertext (mct_a z)) = 4" using z(2) W(2) by (simp_all add: nt_valid_mk MNTRUCiphertext_def)
  from that [OF W(1) this B X] show thesis .
qed

section \<open>The gate\<close>

definition ntru_params :: "'a::len ring_state \<Rightarrow> 'a mntru_params \<Rightarrow> nat \<Rightarrow> nat \<Rightarrow> bool" where
  "ntru_params s mp k n \<longleftrightarrow> np_k mp = k \<and> np_n mp = n \<and> np_N mp = ring_len s \<and> modulus_ok (np_qKS mp) \<and> 3 < LENGTH('a)
     \<and> uint (np_q mp) * (2 * int (ring_len s)) < 2 ^ LENGTH('a) \<and> round_ok (np_qKS mp) (ciphertextModulus (snd (snd s)))"

text \<open>The inputs of the gate: encryptions of the two bits and of \<open>5 q / 8\<close>, with noises that keep the scaled phase in its sector.\<close>

definition ntru_nand_inputs ::
  "'a::len ring_state \<Rightarrow> 'a mntru_params \<Rightarrow> (nat \<Rightarrow> nat \<Rightarrow> int) \<Rightarrow> 'a nvec list \<Rightarrow> 'a mntru_ct \<Rightarrow> 'a mntru_ct \<Rightarrow> 'a mntru_ct \<Rightarrow> bool \<Rightarrow> bool
     \<Rightarrow> int \<Rightarrow> int \<Rightarrow> int \<Rightarrow> bool" where
  "ntru_nand_inputs s mp sg f ct1 ct2 c m1 m2 e1 e2 e3 \<longleftrightarrow> (let q = uint (np_q mp); N = int (ring_len s) in
     nt_valid f ct1 \<and> nt_valid f ct2 \<and> nt_valid f c \<and> ternary_key (np_k mp) (np_n mp) sg f \<and> mk_modulus f = q
     \<and> nt_phase f ct1 mod q = ((if m1 then q div 4 else 0) + e1) mod q
     \<and> nt_phase f ct2 mod q = ((if m2 then q div 4 else 0) + e2) mod q
     \<and> nt_phase f c mod q = (5 * q div 8 + e3) mod q
     \<and> N * (8 * \<bar>e1 + e2 - e3\<bar> + 12) + 4 * q * ternary_weight (np_k mp) (np_n mp) sg < q * N)"

lemma nt_copy_phase: "nt_valid f ct \<Longrightarrow> nt_valid f (nt_copy_ct ct)" "nt_phase f (nt_copy_ct ct) = nt_phase f ct"
  by (simp_all add: nt_copy_ct_def nt_valid_def nt_phase_def MNTRUCiphertext_def)

lemma nt_EvalSubEq_p: "nt_EvalSubEq x y = Inr z \<Longrightarrow> nct_p z = nct_p x"
  by (auto simp: nt_EvalSubEq_def Let_def bindR_def split: if_splits sum.splits)

lemma ntru_prep_phase:
  assumes I: "ntru_nand_inputs s mp sg f ct1 ct2 c m1 m2 e1 e2 e3"
  obtains y z where "nt_EvalAddEq (nt_copy_ct ct1) ct2 = Inr y" "nt_EvalSubEq (nt_copy_ct c) y = Inr z" "nt_valid f z" "nct_p z = 4"
    "nt_phase f z mod uint (np_q mp) = (5 * uint (np_q mp) div 8 - (if m1 then uint (np_q mp) div 4 else 0)
       - (if m2 then uint (np_q mp) div 4 else 0) - (e1 + e2 - e3)) mod uint (np_q mp)"
proof -
  let ?q = "uint (np_q mp)" and ?a = "\<lambda>m :: bool. if m then uint (np_q mp) div 4 else 0"
  have i: "nt_valid f ct1" "nt_valid f ct2" "nt_valid f c" "mk_modulus f = ?q" "nt_phase f ct1 mod ?q = (?a m1 + e1) mod ?q"
      "nt_phase f ct2 mod ?q = (?a m2 + e2) mod ?q" "nt_phase f c mod ?q = (5 * ?q div 8 + e3) mod ?q"
    using I unfolding ntru_nand_inputs_def Let_def by blast+
  obtain y where y: "nt_EvalAddEq (nt_copy_ct ct1) ct2 = Inr y" "nt_valid f y" "nt_phase f y mod ?q = (nt_phase f ct1 + nt_phase f ct2) mod ?q"
    using nt_EvalAddEq_phase [OF nt_copy_phase(1) [OF i(1)] i(2)] unfolding nt_copy_phase(2) i(4) by blast
  obtain z where z: "nt_EvalSubEq (nt_copy_ct c) y = Inr z" "nt_valid f z" "nt_phase f z mod ?q = (nt_phase f c - nt_phase f y) mod ?q"
    using nt_EvalSubEq_phase [OF nt_copy_phase(1) [OF i(3)] y(2)] unfolding nt_copy_phase(2) i(4) by blast
  have "nt_phase f y mod ?q = (?a m1 + e1 + (?a m2 + e2)) mod ?q" unfolding y(3) by (intro mod_add_cong i(5,6))
  then have "nt_phase f z mod ?q = (5 * ?q div 8 + e3 - (?a m1 + e1 + (?a m2 + e2))) mod ?q"
    unfolding z(3) by (intro mod_diff_cong i(7))
  also have "5 * ?q div 8 + e3 - (?a m1 + e1 + (?a m2 + e2)) = 5 * ?q div 8 - ?a m1 - ?a m2 - (e1 + e2 - e3)" by simp
  finally have ph: "nt_phase f z mod ?q = (5 * ?q div 8 - ?a m1 - ?a m2 - (e1 + e2 - e3)) mod ?q" .
  have "nct_p z = 4" using nt_EvalSubEq_p [OF z(1)] by (simp add: nt_copy_ct_def MNTRUCiphertext_def)
  from that [OF y(1) z(1,2) this ph] show thesis .
qed

lemma ntru_rotation:
  fixes mp :: "'a::len mntru_params"
  assumes P: "ntru_params s mp k n" and I: "ntru_nand_inputs s mp sg f ct1 ct2 c m1 m2 e1 e2 e3" and N: "0 < ring_len s"
  obtains y z where "nt_EvalAddEq (nt_copy_ct ct1) ct2 = Inr y" "nt_EvalSubEq (nt_copy_ct c) y = Inr z"
    "scalable s k n (nct_elements z)" "nct_p z = 4"
    "rotated_sign (ring_len s) (int (sum_list (map (ternary_exponent s sg (nct_elements z)) (List.product [0..<k] [0..<n])) mod (2 * ring_len s)))
      = (if m1 \<and> m2 then 1 else - 1)"
proof -
  let ?q = "uint (np_q mp)" and ?N = "int (ring_len s)"
  have p: "np_k mp = k" "np_n mp = n" "?q * (2 * ?N) < 2 ^ LENGTH('a)" using P by (simp_all add: ntru_params_def)
  have i: "ternary_key k n sg f" "mk_modulus f = ?q" "?N * (8 * \<bar>e1 + e2 - e3\<bar> + 12) + 4 * ?q * ternary_weight k n sg < ?q * ?N"
    using I unfolding ntru_nand_inputs_def Let_def p by blast+
  obtain y z where z: "nt_EvalAddEq (nt_copy_ct ct1) ct2 = Inr y" "nt_EvalSubEq (nt_copy_ct c) y = Inr z" "nt_valid f z" "nct_p z = 4"
      "nt_phase f z mod ?q = (5 * ?q div 8 - (if m1 then ?q div 4 else 0) - (if m2 then ?q div 4 else 0) - (e1 + e2 - e3)) mod ?q"
    using ntru_prep_phase [OF I] .
  note D = mk_validD [OF z(3) [unfolded nt_valid_mk], unfolded as_mk_simps]
  have k: "length f = k" "0 < n" "\<And>u. u < k \<Longrightarrow> length (m_data (f ! u)) = n" using i(1) by (simp_all add: ternary_key_def)
  have k0: "0 < k" using z(3) k(1) by (auto simp: nt_valid_def)
  have m: "int (unat (nct_modulus z)) = ?q" unfolding uint_nat [symmetric] using D(6) [of 0] k(1) k0 i(2) by simp
  have pos: "0 < ?q" using D(8) i(2) by simp
  have "int (unat (nct_modulus z) * (2 * ring_len s)) < int (2 ^ LENGTH('a))" using m p(3) by simp
  then have "unat (nct_modulus z) * (2 * ring_len s) < 2 ^ LENGTH('a)" by (simp only: of_nat_less_iff)
  moreover have "unat (m_data (nct_elements z ! u) ! j) < unat (nct_modulus z)" if "u < k" "j < n" for u j
  proof -
    have "residue (m_modulus (nct_elements z ! u)) (m_data (nct_elements z ! u) ! j)"
      using nvec_ok_nth [OF D(5) [of u], of j] D(7) [of u] that k by simp
    then have "uint (m_data (nct_elements z ! u) ! j) < uint (nct_modulus z)" using D(6) that k k0 by (simp add: residue_def)
    then show ?thesis by (simp only: uint_nat of_nat_less_iff)
  qed
  ultimately have sc: "scalable s k n (nct_elements z)" using D(1,7) k k0 pos m by (auto simp: scalable_def)
  obtain err where err: "\<bar>err\<bar> \<le> ?q * ternary_weight k n sg"
      "?q * int (sum_list (map (ternary_exponent s sg (nct_elements z)) (List.product [0..<k] [0..<n]))) mod (?q * (2 * ?N))
        = (2 * ?N * nt_phase f z + err) mod (?q * (2 * ?N))"
    using ternary_exponent_phase [OF z(3) i(1) sc] unfolding i(2) .
  define E where "E = sum_list (map (ternary_exponent s sg (nct_elements z)) (List.product [0..<k] [0..<n]))"
  let ?\<phi> = "int (E mod (2 * ring_len s))"
  have "2 * ?q * ?\<phi> mod (2 * ?q * (2 * ?N)) = 2 * (?q * ?\<phi> mod (?q * (2 * ?N)))" by (simp only: mult_mod_right mult.assoc)
  also have "?q * ?\<phi> mod (?q * (2 * ?N)) = ?q * int E mod (?q * (2 * ?N))"
    by (simp only: zmod_int of_nat_mult of_nat_numeral mult_mod_right [symmetric] mod_mod_trivial)
  also have "\<dots> = (2 * ?N * nt_phase f z + err) mod (?q * (2 * ?N))" using err(2) by (simp only: E_def)
  also have "2 * ((2 * ?N * nt_phase f z + err) mod (?q * (2 * ?N))) = 2 * (2 * ?N * nt_phase f z + err) mod (2 * (?q * (2 * ?N)))"
    by (rule mult_mod_right)
  also have "\<dots> = (2 * (2 * ?N) * nt_phase f z + 2 * err) mod (2 * ?q * (2 * ?N))" by (simp only: distrib_left mult.assoc)
  finally have ph: "2 * ?q * ?\<phi> mod (2 * ?q * (2 * ?N)) = (2 * (2 * ?N) * nt_phase f z + 2 * err) mod (2 * ?q * (2 * ?N))" .
  have ran: "0 \<le> ?\<phi>" "?\<phi> < 2 * ?N" using N by (simp_all add: zmod_int)
  have "2 * \<bar>2 * err\<bar> \<le> 4 * ?q * ternary_weight k n sg" using err(1) by simp
  then have "?N * (8 * \<bar>e1 + e2 - e3\<bar> + 12) + 2 * \<bar>2 * err\<bar> < ?q * ?N" using i(3) by linarith
  from nand_sector [OF pos N z(5) ran ph this] that [OF z(1,2) sc z(4)] show thesis by (simp only: E_def)
qed

text \<open>The secrets of the ring as integers, as for the multi-key scheme.\<close>

definition ntru_secrets :: "'a::len ring_state \<Rightarrow> 'a mntru_params \<Rightarrow> hybrid \<Rightarrow> (nat \<Rightarrow> nat \<Rightarrow> int) \<Rightarrow> 'a nvec list \<Rightarrow> bool" where
  "ntru_secrets s mp Hs t sN \<longleftrightarrow>
     (\<forall>u<np_k mp. \<forall>j<ring_len s. hy_S Hs u j mod ring_mod s = at_point s (t u) j mod ring_mod s)
     \<and> (\<forall>u<np_k mp. \<forall>i<ring_len s. uint (m_data (sN ! u) ! i) mod uint (np_qKS mp) = t u i mod uint (np_qKS mp))"

lemma extracted_nt:
  assumes "length vs = k" "0 < k" "\<forall>u<k. coef_ok s (vs ! u)"
  shows "nt_valid vs (MNTRUCiphertext vs)" "nct_elements (MNTRUCiphertext vs) = vs" "m_modulus (vs ! 0) = ciphertextModulus (snd (snd s))"
    "mk_modulus vs = ring_mod s" "\<forall>u<length vs. length (m_data (vs ! u)) = ring_len s"
proof -
  have c: "m_modulus (vs ! u) = ciphertextModulus (snd (snd s))" "nvec_ok (vs ! u)" "length (m_data (vs ! u)) = ring_len s" if "u < k" for u
    using assms(3) that by (simp_all add: coef_ok_def)
  show "m_modulus (vs ! 0) = ciphertextModulus (snd (snd s))" "mk_modulus vs = ring_mod s"
      "\<forall>u<length vs. length (m_data (vs ! u)) = ring_len s"
    using c assms(1,2) by (simp_all add: ring_mod_def)
  show "nt_valid vs (MNTRUCiphertext vs)" "nct_elements (MNTRUCiphertext vs) = vs"
    using c assms(1,2) by (auto simp: nt_valid_def MNTRUCiphertext_def same_shape_def)
qed

lemma EvalBinGate_MNTRU_phase:
  fixes mp :: "'a::len mntru_params"
  assumes B: "ntru_inputs s U g l k n ek Pkey sg Hs H" and P: "ntru_params s mp k n" and S: "ntru_secrets s mp Hs t sN"
    and K: "nt_ks_inputs_ok mp sk f' sN dggKS" "MNTRU.key_rows mp sk sN dggKS R"
    and I: "ntru_nand_inputs s mp sg f ct1 ct2 c m1 m2 e1 e2 e3"
    and E: "bt_BSkey EK = Some ek" "bt_Pkey EK = Pkey" "bt_KSkey2 EK = Some (ksk2 mp R)"
  shows "\<exists>z y w \<nu> e err. EvalBinGate_MNTRU MKNTRU arb mp U gate EK False ct1 ct2 c (fst s) = Inr (fst s, z) \<and> nt_valid f' z
    \<and> ternary_noise s g l k n sg Hs H w \<nu> \<and> (\<forall>j<ring_len s. at_point s e j mod ring_mod s = \<nu> j mod ring_mod s)
    \<and> \<bar>err\<bar> \<le> ring_mod s * (1 + (\<Sum>u<k. \<Sum>i<ring_len s. \<bar>t u i\<bar>))
    \<and> 2 * ring_mod s * (nt_phase f' z - nt_ks_noise mp dggKS y) mod (2 * ring_mod s * uint (np_qKS mp))
      = (2 * uint (np_qKS mp) * ((if m1 \<and> m2 then - level s 4 else level s 4) + e 0) + err) mod (2 * ring_mod s * uint (np_qKS mp))"
proof -
  let ?N = "ring_len s" and ?Q = "ring_mod s" and ?q = "uint (np_qKS mp)"
  have "rotation_params s U g l k" using B by (simp add: ntru_inputs_def)
  then obtain L where L: "?N = 2 ^ L" "0 < L" "ready s" using rotation_params_ring by metis
  have p: "np_k mp = k" "np_N mp = ?N" "3 < LENGTH('a)" "modulus_ok (np_qKS mp)" "round_ok (np_qKS mp) (ciphertextModulus (snd (snd s)))"
    using P unfolding ntru_params_def by blast+
  have S': "\<And>u j. u < k \<Longrightarrow> j < ?N \<Longrightarrow> hy_S Hs u j mod ?Q = at_point s (t u) j mod ?Q"
      "\<And>u i. u < k \<Longrightarrow> i < ?N \<Longrightarrow> uint (m_data (sN ! u) ! i) mod ?q = t u i mod ?q"
    using S by (simp_all add: ntru_secrets_def p(1))
  have N: "0 < ?N" using L(1) by simp
  obtain x w where g: "nt_EvalAddEq (nt_copy_ct ct1) ct2 = Inr x" "nt_EvalSubEq (nt_copy_ct c) x = Inr w"
      "scalable s k n (nct_elements w)" "nct_p w = 4"
      "rotated_sign ?N (int (sum_list (map (ternary_exponent s sg (nct_elements w)) (List.product [0..<k] [0..<n])) mod (2 * ?N)))
        = (if m1 \<and> m2 then 1 else - 1)"
    using ntru_rotation [OF P I N] .
  define E0 where "E0 = sum_list (map (ternary_exponent s sg (nct_elements w)) (List.product [0..<k] [0..<n])) mod (2 * ?N)"
  have k: "0 < k" using g(3) by (simp add: scalable_def)
  have four: "0 < uint (nct_p w)" "2 * uint (nct_p w) < 2 ^ LENGTH('a)" using uint_four [OF p(3)] g(4) by (simp_all del: uint_numeral)
  obtain acc \<nu> where A: "BootstrapGateCore_MNTRU MKNTRU arb U (Some ek) Pkey w (fst s) = Inr (fst s, acc)" "acc_ok s k acc"
      "ternary_noise s g l k n sg Hs H (nct_elements w) \<nu>"
      "\<forall>j<?N. phase k (hy_S Hs) acc j mod ?Q = (at_point s (nega_shift ?N E0 (test_poly ?N (- level s 4))) j + \<nu> j) mod ?Q"
    using BootstrapGateCore_MNTRU_phase [OF B g(3) four, of arb] unfolding g(4) E0_def by blast
  have \<phi>: "0 \<le> int E0" "int E0 < 2 * int ?N" using N by (simp_all add: E0_def zmod_int)
  have ph: "\<forall>j<?N. phase k (hy_S Hs) acc j mod ?Q = (at_point s (nega_shift ?N (nat (int E0)) (test_poly ?N (- level s 4))) j + \<nu> j) mod ?Q"
    using A(4) by simp
  obtain vs e where v: "extract_acc arb k acc (fst s) = Inr (fst s, vs)" "length vs = k" "\<forall>u<k. coef_ok s (vs ! u)"
      "\<forall>j<?N. at_point s e j mod ?Q = \<nu> j mod ?Q"
      "(\<Sum>u<k. \<Sum>i<?N. uint (m_data (vs ! u) ! i) * t u i) mod ?Q = (rotated_sign ?N (int E0) * - level s 4 + e 0) mod ?Q"
    using rotated_extracts [OF L(3,1,2) A(2) \<phi> S'(1) ph] .
  note X = extracted_nt [OF v(2) k v(3)]
  have sN: "length sN = length vs" "mk_key (length vs) ?N (np_qKS mp) ((!) sN)"
    using K(1) v(2) p(1,2) by (simp_all add: nt_ks_inputs_ok_def Let_def)
  have r: "round_ok (np_qKS mp) (nct_modulus (MNTRUCiphertext vs))" using p(5) X(2,3) by simp
  obtain y err where y: "nt_ModSwitch (np_qKS mp) (MNTRUCiphertext vs) = Inr y" "nt_valid sN y"
      "\<bar>err\<bar> \<le> ?Q * (1 + (\<Sum>u<k. \<Sum>i<?N. \<bar>t u i\<bar>))"
      "2 * ?Q * nt_phase sN y mod (2 * ?Q * ?q) = (2 * ?q * (\<Sum>u<k. \<Sum>i<?N. uint (m_data (vs ! u) ! i) * t u i) + err) mod (2 * ?Q * ?q)"
    using nt_ModSwitch_phase [OF r X(1,5) p(4) sN S'(2)] unfolding v(2) X(2,4) by blast
  obtain z where z: "nt_KeySwitch2 mp (ksk2 mp R) y = Inr z" "nt_valid f' z" "nt_phase f' z mod ?q = (nt_phase sN y + nt_ks_noise mp dggKS y) mod ?q"
    using nt_KeySwitch_rows_phase [OF K y(2)] by metis
  let ?c = "(if m1 \<and> m2 then - level s 4 else level s 4) + e 0"
  have "rotated_sign ?N (int E0) * - level s 4 + e 0 = ?c" using g(5) by (simp add: E0_def)
  then have c: "2 * ?q * (\<Sum>u<k. \<Sum>i<?N. uint (m_data (vs ! u) ! i) * t u i) mod (2 * ?q * ?Q) = 2 * ?q * ?c mod (2 * ?q * ?Q)"
    using v(5) by (simp only: mult_mod_right [symmetric])
  have "(nt_phase f' z - nt_ks_noise mp dggKS y) mod ?q = (nt_phase sN y + nt_ks_noise mp dggKS y - nt_ks_noise mp dggKS y) mod ?q"
    by (rule mod_diff_cong [OF z(3) refl])
  then have "2 * ?Q * (nt_phase f' z - nt_ks_noise mp dggKS y) mod (2 * ?Q * ?q) = 2 * ?Q * nt_phase sN y mod (2 * ?Q * ?q)"
    by (simp only: mult_mod_right [symmetric] add_diff_cancel_right')
  also have "\<dots> = (2 * ?q * ?c + err) mod (2 * ?Q * ?q)"
    unfolding y(4) using mod_add_cong [OF c refl, of err] by (simp only: ac_simps)
  finally have "2 * ?Q * (nt_phase f' z - nt_ks_noise mp dggKS y) mod (2 * ?Q * ?q) = (2 * ?q * ?c + err) mod (2 * ?Q * ?q)" .
  moreover have "EvalBinGate_MNTRU MKNTRU arb mp U gate EK False ct1 ct2 c (fst s) = Inr (fst s, z)"
    using g(1,2) A(1) v(1) y(1) z(1) E p(1) by (simp add: EvalBinGate_MNTRU_def opt_def)
  ultimately show ?thesis using z(2) A(3) v(4) y(3) by blast
qed

section \<open>Decryption of the output\<close>

lemma sign_offset:
  fixes q Q :: int
  assumes "0 < q" "0 < Q"
  shows "\<bar>2 * Q * (q div 4 - q div 8) - 2 * q * (Q div 8 + 1)\<bar> \<le> 2 * Q + 2 * q"
proof -
  have d: "8 * (Q div 8) = Q - Q mod 8" "8 * (q div 8) = q - q mod 8" "4 * (q div 4) = q - q mod 4" by (simp_all add: minus_mod_eq_mult_div)
  have "q * (8 * (Q div 8)) = q * (Q - Q mod 8)" "Q * (8 * (q div 8)) = Q * (q - q mod 8)" "Q * (4 * (q div 4)) = Q * (q - q mod 4)"
    by (simp_all only: d)
  then have *: "4 * (2 * Q * (q div 4 - q div 8) - 2 * q * (Q div 8 + 1))
      = Q * (q mod 8) - 2 * (Q * (q mod 4)) + q * (Q mod 8) - 8 * q"
    by (simp add: algebra_simps)
  have "q * (Q mod 8) \<le> q * 7" "0 \<le> q * (Q mod 8)" "Q * (q mod 4) \<le> Q * 3" "0 \<le> Q * (q mod 4)" "Q * (q mod 8) \<le> Q * 7" "0 \<le> Q * (q mod 8)"
    using assms by (auto intro!: mult_left_mono)
  moreover have "\<bar>x\<bar> \<le> 2 * Q + 2 * q" if "4 * x = a - 2 * b + c - 8 * q" "c \<le> q * 7" "0 \<le> c" "b \<le> Q * 3" "0 \<le> b" "a \<le> Q * 7" "0 \<le> a" for x a b c
    using that assms by linarith
  ultimately show ?thesis using * by blast
qed

definition ntru_budget :: "'a::len ring_state \<Rightarrow> 'a mntru_params \<Rightarrow> (nat \<Rightarrow> nat \<Rightarrow> int) \<Rightarrow> (nat \<Rightarrow> int) \<Rightarrow> int \<Rightarrow> bool" where
  "ntru_budget s mp t \<nu> ks \<longleftrightarrow> (let q = uint (np_qKS mp); Q = ring_mod s in
     \<exists>e. (\<forall>j<ring_len s. at_point s e j mod Q = \<nu> j mod Q)
       \<and> 8 * (2 * q * (\<bar>e 0\<bar> + 3) + Q * (2 * \<bar>ks\<bar> + 5 + (\<Sum>u<np_k mp. \<Sum>i<ring_len s. \<bar>t u i\<bar>))) < 2 * Q * (q - 15))"

lemma ntru_decrypts:
  fixes mp :: "'a::len mntru_params"
  assumes R: "ready s" "3 < LENGTH('a)" and K: "nt_key_ok sk (np_qKS mp) f' g'" and V: "nt_valid f' z" and p: "pt_ok 4 (np_qKS mp)"
    and e: "\<forall>j<ring_len s. at_point s e j mod ring_mod s = \<nu> j mod ring_mod s"
    and err: "\<bar>err\<bar> \<le> ring_mod s * (1 + (\<Sum>u<np_k mp. \<Sum>i<ring_len s. \<bar>t u i\<bar>))"
    and P: "2 * ring_mod s * (nt_phase f' z - ks) mod (2 * ring_mod s * uint (np_qKS mp))
      = (2 * uint (np_qKS mp) * ((if m1 \<and> m2 then - level s 4 else level s 4) + e 0) + err) mod (2 * ring_mod s * uint (np_qKS mp))"
    and B: "ntru_budget s mp t \<nu> ks"
  shows "nt_Decrypt sk z 4 = Inr (if m1 \<and> m2 then 0 else 1)"
proof -
  let ?q = "uint (np_qKS mp)" and ?Q = "ring_mod s" and ?T = "\<Sum>u<np_k mp. \<Sum>i<ring_len s. \<bar>t u i\<bar>" and ?lv = "ring_mod s div 8 + 1"
  let ?o = "uint (np_qKS mp) div 4 - uint (np_qKS mp) div 8"
  obtain c L X where s: "s = (c, L, X)" by (cases s) auto
  have Q: "0 < ?Q" "0 < ring_len s" using R(1) ring_paramsD [of L X] by (auto simp: ready_def s ring_mod_def ring_len_def modulus_ok_def)
  have q: "0 < ?q" using K barrett_modulus_facts by (auto simp: nt_key_ok_def Let_def)
  obtain e' where e': "\<forall>j<ring_len s. at_point s e' j mod ?Q = \<nu> j mod ?Q" "8 * (2 * ?q * (\<bar>e' 0\<bar> + 3) + ?Q * (2 * \<bar>ks\<bar> + 5 + ?T)) < 2 * ?Q * (?q - 15)"
    using B unfolding ntru_budget_def Let_def by blast
  have "at_point s e j mod ?Q = at_point s e' j mod ?Q" if "j < ring_len s" for j using e e'(1) that by (simp only:)
  then have "e 0 mod ?Q = e' 0 mod ?Q" by (rule values_unique [OF R(1) _ Q(2)])
  then have "((if m1 \<and> m2 then - level s 4 else level s 4) + e 0) mod ?Q = ((if m1 \<and> m2 then - level s 4 else level s 4) + e' 0) mod ?Q"
    by (rule mod_add_cong [OF refl])
  then have "2 * ?q * ((if m1 \<and> m2 then - level s 4 else level s 4) + e 0) mod (2 * ?q * ?Q)
      = 2 * ?q * ((if m1 \<and> m2 then - level s 4 else level s 4) + e' 0) mod (2 * ?q * ?Q)" by (simp only: mult_mod_right [symmetric])
  from mod_add_cong [OF this refl, of err]
  have "2 * ?Q * (nt_phase f' z - ks) mod (2 * ?Q * ?q) = (2 * ?q * ((if m1 \<and> m2 then - level s 4 else level s 4) + e' 0) + err) mod (2 * ?Q * ?q)"
    unfolding P by (simp only: ac_simps)
  then have "(2 * ?Q * (nt_phase f' z - ks) + 2 * ?Q * ?o) mod (2 * ?Q * ?q)
      = (2 * ?q * ((if m1 \<and> m2 then - level s 4 else level s 4) + e' 0) + err + 2 * ?Q * ?o) mod (2 * ?Q * ?q)"
    by (rule mod_add_cong [OF _ refl])
  moreover have "level s 4 = ?lv" using uint_four(1) [OF R(2)] by (simp add: level_def)
  moreover have "2 * ?Q * (nt_phase f' z - ks) + 2 * ?Q * ?o = 2 * ?Q * (nt_phase f' z + ?o + - ks)" by (simp add: algebra_simps)
  moreover have "2 * ?q * ((if m1 \<and> m2 then - ?lv else ?lv) + e' 0) + err + 2 * ?Q * ?o
      = 2 * ?q * ((if m1 \<and> m2 then 0 else 2 * ?lv) - - e' 0) + (err + (2 * ?Q * ?o - 2 * ?q * ?lv))" by (simp add: algebra_simps)
  ultimately have "2 * ?Q * (nt_phase f' z + ?o + - ks) mod (2 * ?Q * ?q)
      = (2 * ?q * ((if m1 \<and> m2 then 0 else 2 * ?lv) - - e' 0) + (err + (2 * ?Q * ?o - 2 * ?q * ?lv))) mod (2 * ?Q * ?q)" by (simp only:)
  moreover have "\<bar>err + (2 * ?Q * ?o - 2 * ?q * ?lv)\<bar> \<le> ?Q * (1 + ?T) + (2 * ?Q + 2 * ?q)"
    by (rule order_trans [OF abs_triangle_ineq add_mono [OF err sign_offset [OF q Q(1)]]])
  moreover have "8 * (2 * ?q * (\<bar>- e' 0\<bar> + 2) + ?Q * (2 * \<bar>- ks\<bar> + 2) + (?Q * (1 + ?T) + (2 * ?Q + 2 * ?q))) < 2 * ?Q * (?q - 15)"
    using e'(2) by (simp add: algebra_simps)
  ultimately have "decode ?q 4 (nt_phase f' z + ?o) = (if m1 \<and> m2 then 0 else 1)" by (rule output_decode [OF q Q(1)])
  then show ?thesis using nt_Decrypt_value [OF K V p] by simp
qed

section \<open>Key generation\<close>

text \<open>The entries of the first columns that the key generation compares with one and minus one.\<close>

definition ternary_columns :: "nat \<Rightarrow> nat \<Rightarrow> (nat \<Rightarrow> nat \<Rightarrow> int) \<Rightarrow> 'a::len nvec list \<Rightarrow> bool" where
  "ternary_columns k n sg sv \<longleftrightarrow> length sv = k \<and> 0 < k \<and> 0 < n \<and> 2 < uint (m_modulus (sv ! 0)) \<and> (\<forall>u<k. length (m_data (sv ! u)) = n
     \<and> (\<forall>i<n. sg u i \<in> {- 1, 0, 1}
          \<and> m_data (sv ! u) ! i = (if sg u i = 1 then 1 else if sg u i = - 1 then m_modulus (sv ! 0) - 1 else 0)))"

lemma ternary_columns_entry:
  fixes sv :: "'a::len nvec list"
  assumes "ternary_columns k n sg sv" "u < k" "i < n"
  shows "m_data (sv ! u) ! i = 1 \<longleftrightarrow> sg u i = 1" "m_data (sv ! u) ! i = m_modulus (sv ! 0) - 1 \<longleftrightarrow> sg u i = - 1"
proof -
  let ?m = "m_modulus (sv ! 0)"
  have c: "sg u i \<in> {- 1, 0, 1}" "m_data (sv ! u) ! i = (if sg u i = 1 then 1 else if sg u i = - 1 then ?m - 1 else 0)" "2 < uint ?m"
    using assms by (simp_all add: ternary_columns_def)
  have "uint (?m - 1) = uint ?m - 1" using c(3) by (simp add: uint_sub_lem [THEN iffD1])
  then have "?m - 1 \<noteq> 1" "?m - 1 \<noteq> 0" using c(3) by (auto simp: word_uint_eq_iff)
  then show "m_data (sv ! u) ! i = 1 \<longleftrightarrow> sg u i = 1" "m_data (sv ! u) ! i = ?m - 1 \<longleftrightarrow> sg u i = - 1" using c(1,2) by auto
qed

definition ternary_hybrid ::
  "'a::len ring_state \<Rightarrow> 'a uni_params \<Rightarrow> (nat \<Rightarrow> 32 word list \<times> 32 word list) \<Rightarrow> 'a poly list \<Rightarrow> (nat \<Rightarrow> nat \<Rightarrow> int) \<Rightarrow> (nat \<Rightarrow> nat \<Rightarrow> 'a nvec)
     \<Rightarrow> (nat \<Rightarrow> nat \<Rightarrow> nat \<Rightarrow> 'a key_noise) \<Rightarrow> nat \<Rightarrow> nat \<Rightarrow> nat \<Rightarrow> hybrid" where
  "ternary_hybrid s U ntl invs sg e rnd b u i =
     generated_key s (u = 0 \<and> i = 0) (sg u i = (if b = 0 then 1 else - 1)) (invs ! u) (up_CRS U) (rnd u b i) (ring_secret s ntl)
       (\<lambda>u i. nat_point s (e u i))"

lemma acc_keys_ternary_run:
  fixes U :: "'a::len uni_params"
  assumes A: "acc_setting s U g l k invs (ring_secret s ntl) Pkey (\<lambda>u i. nat_point s (e u i))" and R: "\<And>u b i. noise_ok_at s l (rnd u b i)"
    and B: "ternary_columns k n sg (GetF_col0 sk)"
  defines "Hs \<equiv> star_key s U ntl invs n e rnd" and "H \<equiv> ternary_hybrid s U ntl invs sg e rnd"
  shows "\<exists>ek. KeyGenAcc arb U invs sk (up_CRS U) rnd (fst s) = Inr (fst s, ek) \<and> ternary_keys s g l k n ek Pkey sg Hs H"
proof -
  let ?sv = "GetF_col0 sk"
  let ?neg = "m_modulus (?sv ! 0) - 1"
  let ?bit = "\<lambda>u b x i. acc_key_bit arb U invs (up_CRS U) ?sv rnd u b x i" and ?star = "acc_key_star arb U invs (up_CRS U) rnd n"
  have b: "length ?sv = k" "0 < k" "0 < n" "\<And>u. u < k \<Longrightarrow> length (m_data (?sv ! u)) = n" using B by (simp_all add: ternary_columns_def)
  let ?P = "\<lambda>u i y. (\<exists>e. fst y = Some e \<and> ek_keyed s g l k e u Pkey (H 0 u i)) \<and> (\<exists>e. snd y = Some e \<and> ek_keyed s g l k e u Pkey (H 1 u i))"
  let ?pair = "\<lambda>u i cache. bindR (?bit u 0 1 i cache) (\<lambda>(cache, k0). bindR (?bit u 1 ?neg i cache) (\<lambda>(cache, k1). Inr (cache, (k0, k1))))"
  have pair: "\<exists>y. ?pair u i (fst s) = Inr (fst s, y) \<and> ?P u i y" if ui: "u < k" "i < n" for u i
  proof -
    have l: "u < length ?sv" "i < length (m_data (?sv ! u))" using b ui by simp_all
    note E = ternary_columns_entry [OF B ui]
    obtain e0 where e0: "?bit u 0 1 i (fst s) = Inr (fst s, Some e0)" "ek_keyed s g l k e0 u Pkey (H 0 u i)"
      using acc_key_bit_keyed [where b = 0 and x = 1 and arb = arb and rnd = rnd, OF A ui(1) l R] unfolding E(1) H_def ternary_hybrid_def by auto
    obtain e1 where e1: "?bit u 1 ?neg i (fst s) = Inr (fst s, Some e1)" "ek_keyed s g l k e1 u Pkey (H 1 u i)"
      using acc_key_bit_keyed [where b = 1 and x = ?neg and arb = arb and rnd = rnd, OF A ui(1) l R] unfolding E(2) H_def ternary_hybrid_def by auto
    show ?thesis using e0 e1 by simp
  qed
  obtain es where star: "\<forall>u i. ?star u i (fst s) = Inr (fst s, if u = 0 \<and> i = 0 then Some es else None)" and es: "ek_keyed s g l k es 0 Pkey Hs"
    using acc_key_star_keyed [where rnd = rnd and n = n and arb = arb, OF A b(2) R] unfolding Hs_def star_key_def .
  define Q where "Q u ks \<longleftrightarrow> (\<exists>y0 y1. ks = [y0, y1] \<and> length y0 = Suc n \<and> length y1 = Suc n
      \<and> (\<forall>i<n. (\<exists>e. y0 ! i = Some e \<and> ek_keyed s g l k e u Pkey (H 0 u i)) \<and> (\<exists>e. y1 ! i = Some e \<and> ek_keyed s g l k e u Pkey (H 1 u i)))
      \<and> (u = 0 \<longrightarrow> y0 ! n = Some es))" for u ks
  let ?inner = "\<lambda>u i cache. bindR (?pair u i cache) (\<lambda>(cache, y). bindR (?star u i cache) (\<lambda>(cache, star). Inr (cache, (y, star))))"
  let ?row = "\<lambda>u cache. bindR (mapS (?inner u) [0..<n] cache) (\<lambda>(cache, ks). Inr (cache, [map (fst \<circ> fst) ks @ [star_of ks], map (snd \<circ> fst) ks @ [None]]))"
  have party: "\<exists>ks. ?row u (fst s) = Inr (fst s, ks) \<and> Q u ks" if u: "u < k" for u
  proof -
    obtain y where y: "mapS (?inner u) [0..<n] (fst s) = Inr (fst s, y)" "length y = n" "\<forall>i<n. ?P u i (fst (y ! i))" "u = 0 \<longrightarrow> star_of y = Some es"
      using party_acc_keys [where f = "?pair u" and g = "?star u" and c = "fst s" and z = "u = 0" and es = es and Q = "?P u",
          OF pair [OF u] star [rule_format] b(3)] by blast
    then have "Q u [map (fst \<circ> fst) y @ [star_of y], map (snd \<circ> fst) y @ [None]]" by (auto simp: Q_def nth_append)
    then show ?thesis using y(1) by simp
  qed
  have "\<exists>ek. mapS ?row [0..<k] (fst s) = Inr (fst s, ek) \<and> length ek = k \<and> (\<forall>u<k. Q u (ek ! u))"
    by (rule mapS_upt) (rule party)
  then obtain ek where ek: "mapS ?row [0..<k] (fst s) = Inr (fst s, ek)" "length ek = k" "\<forall>u<k. Q u (ek ! u)" by blast
  have "?inner u = (\<lambda>i cache. bindR (?bit u 0 1 i cache) (\<lambda>(cache, k0). bindR (?bit u 1 ?neg i cache) (\<lambda>(cache, k1).
      bindR (?star u i cache) (\<lambda>(cache, star). Inr (cache, ((k0, k1), star))))))" for u
    by (simp add: bindR_assoc case_prod_beta')
  then have "KeyGenAcc arb U invs sk (up_CRS U) rnd (fst s) = Inr (fst s, ek)"
    using ek(1) b(1,2) b(4) [OF b(2)] by (cases "?sv = []") (simp_all add: KeyGenAcc_def idx_def Let_def)
  moreover have "ternary_keys s g l k n ek Pkey sg Hs H"
    unfolding ternary_keys_def
  proof (intro conjI allI impI)
    show "\<exists>e. key_at ek 0 0 n = Inr (Some e) \<and> ek_keyed s g l k e 0 Pkey Hs"
      using ek(2,3) b(2) es by (fastforce simp: Q_def key_at_def idx2_def idx_def)
  next
    fix u i b :: nat assume ui: "u < k" "i < n" "b < 2"
    then have "b = 0 \<or> b = 1" by auto
    then show "\<exists>e. key_at ek u b i = Inr (Some e) \<and> ek_keyed s g l k e u Pkey (H b u i)"
      using ek(2,3) ui by (fastforce simp: Q_def key_at_def idx2_def idx_def)
    show "same_parties (H b u i) Hs" by (simp add: same_parties_def H_def Hs_def ternary_hybrid_def star_key_def generated_key_def Let_def)
    show "hy_M (H b u i) j = (if sg u i = (if b = 0 then 1 else - 1) then if u = 0 \<and> i = 0 then hy_M Hs j else 1 else 0)" for j
      by (simp add: H_def Hs_def ternary_hybrid_def star_key_def generated_key_def Let_def)
  qed
  ultimately show ?thesis by blast
qed

definition ntru_keygen ::
  "'a::len ring_state \<Rightarrow> 'a uni_params \<Rightarrow> 'a mntru_params \<Rightarrow> nat \<Rightarrow> nat \<Rightarrow> (nat \<Rightarrow> nat \<Rightarrow> int) \<Rightarrow> 'a mntru_sk \<Rightarrow> 'a nvec list \<Rightarrow> 'a nvec list list
     \<Rightarrow> 'a nvec list \<Rightarrow> (nat \<Rightarrow> 32 word list \<times> 32 word list) \<Rightarrow> (nat \<Rightarrow> 'a nvec) \<Rightarrow> bool" where
  "ntru_keygen s U mp k n sg sk f' g' sN ntl dggKS \<longleftrightarrow> ternary_columns k n sg (GetF_col0 sk) \<and> nt_key_ok sk (np_qKS mp) f' g'
     \<and> nt_ks_inputs_ok mp sk f' sN dggKS \<and> ring_mod s \<le> 2 ^ 31 \<and> (\<forall>u<k. ntl_inverse (ring_len s) (ring_mod s) (ntl u))
     \<and> modulus_ok (np_qKS mp) \<and> GetMSB (np_qKS mp) \<le> MAX_MODULUS_SIZE LENGTH('a)
     \<and> (\<forall>u<k. SwitchModulus (secret_vec U (fst (ntl u))) (np_qKS mp) = Inr (sN ! u))"

lemma MKKeyGen_keys:
  fixes U :: "'a::len uni_params"
  assumes P: "keygen_params s U g l k" and M: "ntru_params s mp k n" and K: "ntru_keygen s U mp k n sg sk f' g' sN ntl dggKS"
    and N: "\<forall>u<k. \<forall>i<l - 1. coef_ok s (e u i)" "\<forall>u b i. noise_ok_at s l (rnd u b i)"
  shows "\<exists>EK ek R invs. MKKeyGen MKNTRU arb mp U sk ntl dggKS e rnd (fst s) = Inr (fst s, EK)
    \<and> bt_BSkey EK = Some ek \<and> MNTRU.key_rows mp sk sN dggKS R \<and> bt_KSkey2 EK = Some (ksk2 mp R)
    \<and> (\<forall>u<k. valued s (invs ! u) (at_point s (coef_at (snd (ntl u)))))
    \<and> ntru_inputs s U g l k n ek (bt_Pkey EK) sg (star_key s U ntl invs n e rnd) (ternary_hybrid s U ntl invs sg e rnd)
    \<and> ntru_secrets s mp (star_key s U ntl invs n e rnd) (small_secret s ntl) sN"
proof -
  have p: "rotation_params s U g l k" "np_k mp = k" using P M by (simp_all add: keygen_params_def ntru_params_def)
  have c: "ternary_columns k n sg (GetF_col0 sk)" "nt_ks_inputs_ok mp sk f' sN dggKS" "ring_mod s \<le> 2 ^ 31"
      "\<forall>u<k. ntl_inverse (ring_len s) (ring_mod s) (ntl u)" "modulus_ok (np_qKS mp)" "GetMSB (np_qKS mp) \<le> MAX_MODULUS_SIZE LENGTH('a)"
      "\<forall>u<k. SwitchModulus (secret_vec U (fst (ntl u))) (np_qKS mp) = Inr (sN ! u)"
    using K by (simp_all add: ntru_keygen_def)
  have n: "\<And>u i. u < k \<Longrightarrow> i < l - 1 \<Longrightarrow> coef_ok s (e u i)" "\<And>u b i. noise_ok_at s l (rnd u b i)" using N by blast+
  have k: "0 < k" using c(1) by (simp add: ternary_columns_def)
  obtain ks Pkey where ks: "mapS (party_keys arb U ntl) [0..<k] (fst s) = Inr (fst s, ks)" "length ks = k"
      "\<forall>u<k. map fst ks ! u = secret_vec U (fst (ntl u))" "\<forall>u<k. valued s (map (snd \<circ> snd) ks ! u) (at_point s (coef_at (snd (ntl u))))"
      "public_keys arb U (map (fst \<circ> snd) ks) e (fst s) = Inr (fst s, Pkey)"
      "acc_setting s U g l k (map (snd \<circ> snd) ks) (ring_secret s ntl) Pkey (\<lambda>u i. nat_point s (e u i))"
    using keygen_setting [where arb = arb and ntl = ntl and e = e, OF P c(3,4) n(1)] by blast
  let ?vecs = "map fst ks" and ?sks = "map (fst \<circ> snd) ks" and ?invs = "map (snd \<circ> snd) ks"
  obtain R where R: "MNTRU.key_rows mp sk sN dggKS R" using key_rows_exist [OF c(2)] .
  have "\<forall>u<np_k mp. SwitchModulus (?vecs ! u) (np_qKS mp) = Inr (sN ! u)" "length ?vecs = np_k mp" using ks(2,3) c(7) p(2) by simp_all
  then have ksk: "nt_KeySwitchGen2 mp sk ?vecs dggKS = Inr (ksk2 mp R)" using KeySwitchGen_rows(2) [OF c(2) R] by blast
  let ?Hs = "star_key s U ntl ?invs n e rnd" and ?H = "ternary_hybrid s U ntl ?invs sg e rnd"
  have "\<exists>ek. KeyGenAcc arb U ?invs sk (up_CRS U) rnd (fst s) = Inr (fst s, ek) \<and> ternary_keys s g l k n ek Pkey sg ?Hs ?H"
    by (rule acc_keys_ternary_run [OF ks(6) n(2) c(1)])
  then obtain ek where ek: "KeyGenAcc arb U ?invs sk (up_CRS U) rnd (fst s) = Inr (fst s, ek)" "ternary_keys s g l k n ek Pkey sg ?Hs ?H" by blast
  let ?EK = "\<lparr> bt_BSkey = Some ek, bt_KSkey2 = Some (ksk2 mp R), bt_LKSkey = None, bt_Pkey = Pkey, bt_f = ?sks, bt_fvec = ?vecs,
      bt_F_col0 = GetF_col0 sk, bt_lwesk = [] \<rparr>"
  have "MKKeyGen MKNTRU arb mp U sk ntl dggKS e rnd (fst s) = Inr (fst s, ?EK)"
    using ks(1,5) ksk ek(1) p(2) by (simp add: MKKeyGen_def Let_def acc_KeyGen_def)
  moreover have "hy_M ?Hs j * hy_S ?Hs 0 j mod ring_mod s = 1 mod ring_mod s" if "j < ring_len s" for j
    using acc_setting_inverse [OF ks(6) k that] by (simp add: star_key_def generated_key_def Let_def del: nth_map)
  then have "ntru_inputs s U g l k n ek Pkey sg ?Hs ?H" using p(1) ek(2) by (simp add: ntru_inputs_def)
  moreover have "hy_S ?Hs = ring_secret s ntl" by (simp add: star_key_def generated_key_def Let_def)
  then have "ntru_secrets s mp ?Hs (small_secret s ntl) sN"
    using ring_secret_small [of s ntl] switched_secret [OF p(1) c(3,5,6)] c(4,7) by (simp add: ntru_secrets_def p(2))
  ultimately show ?thesis
    using ks(4) R by (intro exI [of _ ?EK] exI [of _ ek] exI [of _ R] exI [of _ ?invs]) simp
qed

section \<open>Key generation, evaluation and decryption\<close>


text \<open>An example: one party with the matrix one, in the ring of dimension eight, switching keys modulo 7681.\<close>

definition col8 :: "32 word \<Rightarrow> 32 word \<Rightarrow> 32 nvec" where
  "col8 q x = \<lparr> m_modulus = q, m_data = [x] \<rparr>"

definition ntru8 :: "32 mntru_params" where
  "ntru8 = \<lparr> np_k = 1, np_q = 61, np_Q = 17, np_qKS = 7681, np_n = 1, np_N = 8, np_baseKS = 32, np_keyDist = UNIFORM_TERNARY \<rparr>"

definition sk8 :: "32 mntru_sk" where
  "sk8 = MNTRUPrivateKey [[col8 7681 1]] [[col8 7681 1]]"

definition sN8 :: "32 nvec list" where
  "sN8 = [\<lparr> m_modulus = 7681, m_data = [1, 0, 0, 0, 0, 0, 0, 0] \<rparr>]"

definition nct8 :: "32 word \<Rightarrow> 32 mntru_ct" where
  "nct8 x = MNTRUCiphertext [col8 61 x]"

lemma ntru8_params: "ntru_params ring8 ntru8 1 1"
  by (simp add: ntru_params_def ntru8_def round_ok_def modulus_ok_def)

lemma ntru8_keygen: "ntru_keygen ring8 uni8_keys ntru8 1 1 (\<lambda>u i. 1) sk8 [col8 7681 1] [[col8 7681 1]] sN8 ntl8 (\<lambda>u. col8 7681 2)"
proof -
  have "ntl_inverse 8 17 ([1], [1])"
    by (auto simp: ntl_inverse_def negacyclic_def coef_at_def less_Suc_eq numeral_nat lessThan_Suc)
  moreover have "GetF_col0 sk8 = [col8 7681 1]" by code_simp
  then have "ternary_columns 1 1 (\<lambda>u i. 1) (GetF_col0 sk8)" by (simp add: ternary_columns_def col8_def)
  moreover have "nt_key_ok sk8 (np_qKS ntru8) [col8 7681 1] [[col8 7681 1]]" by code_simp
  moreover have "nt_ks_inputs_ok ntru8 sk8 [col8 7681 1] sN8 (\<lambda>u. col8 7681 2)"
  proof -
    have "digitCount (7681 :: 32 word) 32 = 3" "barrett_modulus (7681 :: 32 word)" "mats_ok 1 1 (key_F_inv sk8)" by code_simp+
    then show ?thesis
      by (simp add: nt_ks_inputs_ok_def ntru8_def mk_key_def sN8_def col8_def sk8_def MNTRUPrivateKey_def nvec_ok_def modulus_ok_def residue_def vals_def)
  qed
  moreover have "secret_vec uni8_keys [1] = vec8 1"
    by (simp add: secret_vec_def uni8_keys_def uni8_def ex_uni_def Get_invertible_NativeVector_def vec8_def upt_rec lift_entry_def)
  moreover have "SwitchModulus (vec8 1) (np_qKS ntru8) = Inr (sN8 ! 0)" by code_simp
  moreover have "modulus_ok (np_qKS ntru8)" "GetMSB (np_qKS ntru8) \<le> MAX_MODULUS_SIZE LENGTH(32)" by code_simp+
  ultimately show ?thesis by (simp add: ntru_keygen_def ntl8_def)
qed

lemma ntru8_inputs: "ntru_nand_inputs ring8 ntru8 (\<lambda>u i. 1) [col8 61 1] (nct8 16) (nct8 0) (nct8 38) True False 1 0 0"
  by (simp add: ntru_nand_inputs_def nct8_def col8_def ntru8_def MNTRUCiphertext_def nt_valid_def ternary_key_def nt_phase_def nvec_ok_def
      ternary_weight_def modulus_ok_def residue_def same_shape_def vals_def)


end
