(* ===== verification/Primality.thy ===== *)
theory Primality
  imports NbTheory
begin

text \<open>
  Primes and roots of unity, \<^verbatim>\<open>src/src/core/include/math/nbtheory-impl.h\<close> and the functions on plain
  integers of \<^verbatim>\<open>src/src/core/lib/math/nbtheory2.cpp\<close>.

  The functions draw random values from \<^verbatim>\<open>std::uniform_int_distribution\<close> on the global generator.  The
  argument \<open>draw\<close> stands for it: \<open>draw b g\<close> is the value drawn between zero and \<open>b\<close> in the state \<open>g\<close> of
  the generator, with the next state.  A run that does not return is \<open>None\<close>; a run that returns or throws
  is \<open>Some\<close> of a \<open>result\<close>, and \<open>bindO\<close> sequences both.
\<close>

unbundle bit_operations_syntax

section \<open>Runs that may not return\<close>

definition bindO :: "'a result option \<Rightarrow> ('a \<Rightarrow> 'b result option) \<Rightarrow> 'b result option" where
  "bindO r f = Option.bind r (\<lambda>x. case x of Inl e \<Rightarrow> Some (Inl e) | Inr y \<Rightarrow> f y)"

lemma bindO_simps [simp]:
  "bindO None f = None"
  "bindO (Some (Inl e)) f = Some (Inl e)"
  "bindO (Some (Inr x)) f = f x"
  by (simp_all add: bindO_def)

lemma bindO_eq_Inr:
  "bindO r f = Some (Inr y) \<longleftrightarrow> (\<exists>x. r = Some (Inr x) \<and> f x = Some (Inr y))"
  by (cases r rule: option.exhaust; cases "the r") auto

lemma bindO_mono [partial_function_mono]:
  assumes "mono_option B" "\<And>y. mono_option (\<lambda>f. C y f)"
  shows "mono_option (\<lambda>f. bindO (B f) (\<lambda>y. C y f))"
  unfolding bindO_def
proof (rule bind_mono [OF assms(1)])
  show "mono_option (\<lambda>f. case x of Inl e \<Rightarrow> Some (Inl e) | Inr y \<Rightarrow> C y f)" for x
    by (cases x) (simp_all add: assms(2) option.const_mono)
qed

text \<open>A property of the value of a run that neither throws nor diverges, for inductions over a run.\<close>

definition if_returns :: "('a \<Rightarrow> bool) \<Rightarrow> 'a result \<Rightarrow> bool" where
  "if_returns P z \<longleftrightarrow> (\<forall>x. z = Inr x \<longrightarrow> P x)"

lemma if_returns_simps [simp]:
  "if_returns P (Inl e)"
  "if_returns P (Inr x) = P x"
  by (simp_all add: if_returns_def)

type_synonym 'g distribution = "32 word \<Rightarrow> 'g \<Rightarrow> 32 word \<times> 'g"

section \<open>Random numbers\<close>

text \<open>
  One attempt of \<^verbatim>\<open>RNG\<close>: full chunks of 32 bits, then the highest chunk below the bound.  A modulus of
  zero makes \<^verbatim>\<open>GetMSB() - 1\<close> wrap around, and the shifts exceed the width of the word.
\<close>

primrec RNG_chunks :: "'g distribution \<Rightarrow> nat \<Rightarrow> nat \<Rightarrow> 'a::len word \<Rightarrow> 'g \<Rightarrow> 'a word \<times> 'g" where
  "RNG_chunks draw 0 shift result g = (result, g)"
| "RNG_chunks draw (Suc i) shift result g =
     (let (d, g) = draw 0xFFFFFFFF g
      in RNG_chunks draw i (shift + 32) (result + LShift (ucast d) shift) g)"

definition RNG_attempt :: "'g distribution \<Rightarrow> 'a::len word \<Rightarrow> 'g \<Rightarrow> 'a word \<times> 'g" where
  "RNG_attempt draw modulus g =
     (let chunksPerValue = (GetMSB modulus - 1) div 32;
          shiftChunk = chunksPerValue * 32;
          (result, g) = RNG_chunks draw chunksPerValue 0 0 g;
          (d, g) = draw (ucast (RShift modulus shiftChunk)) g
      in (result + LShift (ucast d) shiftChunk, g))"

partial_function (option) RNG :: "'g distribution \<Rightarrow> 'a::len word \<Rightarrow> 'g \<Rightarrow> ('a word \<times> 'g) result option" where
  "RNG draw modulus g =
     (if modulus = 0 then Some (Inl undefined_behaviour)
      else case RNG_attempt draw modulus g of (result, g') \<Rightarrow>
        if result < modulus then Some (Inr (result, g')) else RNG draw modulus g')"

declare RNG.simps [code]

section \<open>The Miller-Rabin test\<close>

fun Witness_loop :: "nat \<Rightarrow> 'a::len word \<Rightarrow> 'a word \<Rightarrow> bool" where
  "Witness_loop 0 md p = (md \<noteq> 1)"
| "Witness_loop (Suc s) md p =
     (let prevMod = (md \<noteq> 1 \<and> md \<noteq> p - 1);
          md = ModMulFastEq md md p
      in if md = 1 \<and> prevMod then True else Witness_loop s md p)"

definition WitnessFunction :: "'a::len word \<Rightarrow> 'a word \<Rightarrow> nat \<Rightarrow> 'a word \<Rightarrow> bool" where
  "WitnessFunction a d s p = Witness_loop s (ModExp a d p) p"

text \<open>The loop that halves \<open>d\<close>; its only caller passes a positive number.\<close>

function halve_loop :: "'a::len word \<Rightarrow> nat \<Rightarrow> 'a word \<times> nat" where
  "halve_loop d s = (if d \<noteq> 0 \<and> Mod d 2 = 0 then halve_loop (RShift d 1) (s + 1) else (d, s))"
  by pat_completeness auto
termination
proof (relation "measure (\<lambda>(d, s). unat d)", simp)
  fix d :: "'a word" and s :: nat
  assume "d \<noteq> 0 \<and> Mod d 2 = 0"
  then have "0 < unat d" by (simp add: unat_gt_0)
  then have "unat (RShift d 1) < unat d"
    unfolding RShift_def unat_drop_bit_eq by (simp only: drop_bit_eq_div) simp
  then show "((RShift d 1, s + 1), d, s) \<in> measure (\<lambda>(d, s). unat d)" by simp
qed

declare halve_loop.simps [simp del]

primrec MillerRabin_loop :: "'g distribution \<Rightarrow> nat \<Rightarrow> 'a::len word \<Rightarrow> nat \<Rightarrow> 'a word \<Rightarrow> 'g
    \<Rightarrow> (bool \<times> 'g) result option" where
  "MillerRabin_loop draw 0 d s p g = Some (Inr (True, g))"
| "MillerRabin_loop draw (Suc i) d s p g =
     bindO (RNG draw (p - 3) g) (\<lambda>(a, g).
       if WitnessFunction (ModAdd a 2 p) d s p then Some (Inr (False, g))
       else MillerRabin_loop draw i d s p g)"

definition MillerRabinPrimalityTest :: "'g distribution \<Rightarrow> 'a::len word \<Rightarrow> nat \<Rightarrow> 'g
    \<Rightarrow> (bool \<times> 'g) result option" where
  "MillerRabinPrimalityTest draw p niter g =
     (if p = 2 \<or> p = 3 \<or> p = 5 then Some (Inr (True, g))
      else if p < 2 \<or> Mod p 2 = 0 then Some (Inr (False, g))
      else case halve_loop (p - 1) 0 of (d, s) \<Rightarrow> MillerRabin_loop draw niter d s p g)"

text \<open>The default number of rounds of the declaration in \<^verbatim>\<open>nbtheory.h\<close>.\<close>

abbreviation is_prime :: "'g distribution \<Rightarrow> 'a::len word \<Rightarrow> 'g \<Rightarrow> (bool \<times> 'g) result option" where
  "is_prime draw p g \<equiv> MillerRabinPrimalityTest draw p 100 g"

section \<open>Factorization\<close>

function GreatestCommonDivisor :: "'a::len word \<Rightarrow> 'a word \<Rightarrow> 'a word" where
  "GreatestCommonDivisor m_a m_b =
     (if m_b \<noteq> 0 then GreatestCommonDivisor m_b (m_a mod m_b) else m_a)"
  by pat_completeness auto
termination
  by (relation "measure (\<lambda>(a, b). unat b)") (auto simp: word_mod_less_divisor unat_gt_0 word_less_nat_alt [symmetric] word_gt_0)

declare GreatestCommonDivisor.simps [simp del]

partial_function (option) PollardRho_loop :: "'a::len word \<Rightarrow> 'a word \<Rightarrow> 'a word \<Rightarrow> 'a word \<Rightarrow> 'a word
    \<Rightarrow> 'a word option" where
  "PollardRho_loop n c mu x xx =
     (let x = ModAdd_mu (ModMul_mu x x n mu) c n mu;
          xx = ModAdd_mu (ModMul_mu xx xx n mu) c n mu;
          xx = ModAdd_mu (ModMul_mu xx xx n mu) c n mu;
          divisor = GreatestCommonDivisor (if x > xx then x - xx else xx - x) n
      in if divisor = 1 then PollardRho_loop n c mu x xx else Some divisor)"

declare PollardRho_loop.simps [code]

definition PollardRhoFactorization :: "'g distribution \<Rightarrow> 'a::len word \<Rightarrow> 'g \<Rightarrow> ('a word \<times> 'g) result option" where
  "PollardRhoFactorization draw n g =
     (if Mod n 2 = 0 then Some (Inr (2, g))
      else bindO (RNG draw n g) (\<lambda>(c, g).
           bindO (RNG draw n g) (\<lambda>(x, g).
           bindO (Some (ComputeMu n)) (\<lambda>mu.
           map_option (\<lambda>divisor. Inr (divisor, g)) (PollardRho_loop n c mu x x)))))"

text \<open>The set of factors is kept in the order in which \<^verbatim>\<open>std::set\<close> iterates.\<close>

partial_function (option) PrimeFactorize :: "'g distribution \<Rightarrow> 'a::len word \<Rightarrow> 'a word list \<Rightarrow> 'g
    \<Rightarrow> ('a word list \<times> 'g) result option" where
  "PrimeFactorize draw n primeFactors g =
     (if n = 0 \<or> n = 1 then Some (Inr (primeFactors, g))
      else bindO (is_prime draw n g) (\<lambda>(b, g).
        if b then Some (Inr (insort_insert n primeFactors, g))
        else bindO (PollardRhoFactorization draw n g) (\<lambda>(divisor, g).
             if divisor = 0 then Some (Inl undefined_behaviour)
             else bindO (PrimeFactorize draw divisor primeFactors g) (\<lambda>(primeFactors, g).
               PrimeFactorize draw (n div divisor) primeFactors g))))"

declare PrimeFactorize.simps [code]

section \<open>Generators and roots of unity\<close>

text \<open>The number of factors before the first one whose cofactor power is one.\<close>

primrec gen_count :: "'a::len word \<Rightarrow> 'a word \<Rightarrow> 'a word \<Rightarrow> 'a word list \<Rightarrow> nat" where
  "gen_count gen e q [] = 0"
| "gen_count gen e q (f # fs) = (if ModExp gen (e div f) q = 1 then 0 else Suc (gen_count gen e q fs))"

partial_function (option) FindGenerator_loop :: "'g distribution \<Rightarrow> 'a::len word \<Rightarrow> 'a word list \<Rightarrow> 'g
    \<Rightarrow> ('a word \<times> 'g) result option" where
  "FindGenerator_loop draw q primeFactors g =
     bindO (RNG draw (q - 2) g) (\<lambda>(r, g).
       let gen = r + 1; cnt = gen_count gen (q - 1) q primeFactors
       in if cnt \<noteq> length primeFactors then FindGenerator_loop draw q primeFactors g
          else Some (Inr (gen, g)))"

declare FindGenerator_loop.simps [code]

definition FindGenerator :: "'g distribution \<Rightarrow> 'a::len word \<Rightarrow> 'g \<Rightarrow> ('a word \<times> 'g) result option" where
  "FindGenerator draw q g =
     bindO (PrimeFactorize draw (q - 1) [] g) (\<lambda>(primeFactors, g). FindGenerator_loop draw q primeFactors g)"

definition GetTotient :: "'g distribution \<Rightarrow> 64 word \<Rightarrow> 'g \<Rightarrow> (64 word \<times> 'g) result option" where
  "GetTotient draw n g =
     bindO (PrimeFactorize draw n [] g) (\<lambda>(factors, g).
       let (numerator, primeProd) =
             fold (\<lambda>r (numerator, primeProd). (MulFast numerator (SubFast r 1), MulFast primeProd r)) factors (1, 1)
       in if primeProd = 0 then Some (Inl undefined_behaviour)
          else Some (Inr (MulFast (n div primeProd) numerator, g)))"

partial_function (option) FindGeneratorCyclic_loop :: "'g distribution \<Rightarrow> 64 word \<Rightarrow> 64 word \<Rightarrow> 64 word list \<Rightarrow> 'g
    \<Rightarrow> (64 word \<times> 'g) result option" where
  "FindGeneratorCyclic_loop draw phi_q q primeFactors g =
     bindO (RNG draw phi_q g) (\<lambda>(r, g).
       let gen = r + 1;
           cnt = (if GreatestCommonDivisor gen q \<noteq> 1 then 0 else gen_count gen phi_q q primeFactors)
       in if cnt \<noteq> length primeFactors then FindGeneratorCyclic_loop draw phi_q q primeFactors g
          else Some (Inr (gen, g)))"

declare FindGeneratorCyclic_loop.simps [code]

definition FindGeneratorCyclic :: "'g distribution \<Rightarrow> 64 word \<Rightarrow> 'g \<Rightarrow> (64 word \<times> 'g) result option" where
  "FindGeneratorCyclic draw q g =
     bindO (GetTotient draw q g) (\<lambda>(phi_q, g).
     bindO (GetTotient draw q g) (\<lambda>(phi_q_m1, g).
     bindO (PrimeFactorize draw phi_q [] g) (\<lambda>(primeFactors, g).
       FindGeneratorCyclic_loop draw phi_q q primeFactors g)))"

definition IsGenerator :: "'g distribution \<Rightarrow> 64 word \<Rightarrow> 64 word \<Rightarrow> 'g \<Rightarrow> (bool \<times> 'g) result option" where
  "IsGenerator draw gen q g =
     bindO (GetTotient draw q g) (\<lambda>(qm1, g).
     bindO (PrimeFactorize draw qm1 [] g) (\<lambda>(primeFactors, g).
       Some (Inr (gen_count gen qm1 q primeFactors = length primeFactors, g))))"

definition GetTotientList :: "'a::len word \<Rightarrow> 'a word list" where
  "GetTotientList n = filter (\<lambda>i. GreatestCommonDivisor i n = 1) (map word_of_nat [1..<unat n])"

text \<open>The cycle over the powers of the root that selects the smallest one.\<close>

fun minRU_loop :: "'a::len word \<Rightarrow> 'a word \<Rightarrow> 'a word \<Rightarrow> 'a word list \<Rightarrow> 'a word \<Rightarrow> 'a word \<Rightarrow> 'a word \<Rightarrow> 'a word" where
  "minRU_loop result q mu [] x minRU curPowIdx = minRU"
| "minRU_loop result q mu (nextPowIdx # coprimes) x minRU curPowIdx =
     (let diffPow = nextPowIdx - curPowIdx;
          x = ((\<lambda>x. ModMulEq_mu x result q mu) ^^ unat diffPow) x;
          minRU = (if x < minRU \<and> x \<noteq> 1 then x else minRU)
      in minRU_loop result q mu coprimes x minRU nextPowIdx)"

partial_function (option) RootOfUnity :: "'g distribution \<Rightarrow> 32 word \<Rightarrow> 'a::len word \<Rightarrow> 'g
    \<Rightarrow> ('a word \<times> 'g) result option" where
  "RootOfUnity draw m q g =
     (let M = ucast m in
      if M = 0 then Some (Inl undefined_behaviour)
      else if Mod (q - 1) M \<noteq> 0 then Some (Inl math_error)
      else bindO (FindGenerator draw q g) (\<lambda>(gen, g).
        let result = ModExp gen ((q - 1) div M) q in
        bindO (if result = 1 then RootOfUnity draw m q g else Some (Inr (result, g))) (\<lambda>(result, g).
        bindO (Some (ComputeMu q)) (\<lambda>mu.
          let x = ModMulEq_mu 1 result q mu
          in Some (Inr (minRU_loop result q mu (GetTotientList M) x x 1, g))))))"

declare RootOfUnity.simps [code]

primrec RootsOfUnity :: "'g distribution \<Rightarrow> 32 word \<Rightarrow> 'a::len word list \<Rightarrow> 'g
    \<Rightarrow> ('a word list \<times> 'g) result option" where
  "RootsOfUnity draw m [] g = Some (Inr ([], g))"
| "RootsOfUnity draw m (q # moduli) g =
     bindO (RootOfUnity draw m q g) (\<lambda>(r, g).
     bindO (RootsOfUnity draw m moduli g) (\<lambda>(rs, g). Some (Inr (r # rs, g))))"

section \<open>Searches for primes\<close>

partial_function (option) FirstPrime_loop :: "'g distribution \<Rightarrow> 'a::len word \<Rightarrow> 'a word \<Rightarrow> 'g
    \<Rightarrow> ('a word \<times> 'g) result option" where
  "FirstPrime_loop draw mi qNew g =
     bindO (is_prime draw qNew g) (\<lambda>(b, g).
       if b then Some (Inr (qNew, g))
       else let qNew2 = qNew + mi
            in if qNew2 < qNew then Some (Inl math_error) else FirstPrime_loop draw mi qNew2 g)"

declare FirstPrime_loop.simps [code]

definition FirstPrime :: "'g distribution \<Rightarrow> nat \<Rightarrow> 64 word \<Rightarrow> 'g \<Rightarrow> ('a::len word \<times> 'g) result option" where
  "FirstPrime draw nBits m g =
     (if nBits > MAX_MODULUS_SIZE LENGTH('a) then Some (Inl math_error)
      else let mi = ucast m in
        if mi = 0 then Some (Inl undefined_behaviour)
        else let qNew = LShift 1 nBits;
                 r = Mod qNew mi;
                 qNew2 = qNew + 1;
                 qNew2 = (if r > 0 then qNew2 + (mi - r) else qNew2)
             in if qNew2 < qNew then Some (Inl math_error) else FirstPrime_loop draw mi qNew2 g)"

partial_function (option) NextPrime_loop :: "'g distribution \<Rightarrow> 'a::len word \<Rightarrow> 'a word \<Rightarrow> 'a word \<Rightarrow> 'g
    \<Rightarrow> ('a word \<times> 'g) result option" where
  "NextPrime_loop draw q M qNew g =
     bindO (is_prime draw qNew g) (\<lambda>(b, g).
       if b then Some (Inr (qNew, g))
       else let qNew = qNew + M
            in if qNew < q then Some (Inl math_error) else NextPrime_loop draw q M qNew g)"

declare NextPrime_loop.simps [code]

definition NextPrime :: "'g distribution \<Rightarrow> 'a::len word \<Rightarrow> 64 word \<Rightarrow> 'g \<Rightarrow> ('a word \<times> 'g) result option" where
  "NextPrime draw q m g = (let M = ucast m in NextPrime_loop draw q M (q + M) g)"

partial_function (option) PreviousPrime_loop :: "'g distribution \<Rightarrow> 'a::len word \<Rightarrow> 'a word \<Rightarrow> 'a word \<Rightarrow> 'g
    \<Rightarrow> ('a word \<times> 'g) result option" where
  "PreviousPrime_loop draw q M qNew g =
     bindO (is_prime draw qNew g) (\<lambda>(b, g).
       if b then Some (Inr (qNew, g))
       else let qNew = qNew - M
            in if qNew > q then Some (Inl config_error) else PreviousPrime_loop draw q M qNew g)"

declare PreviousPrime_loop.simps [code]

definition PreviousPrime :: "'g distribution \<Rightarrow> 'a::len word \<Rightarrow> 64 word \<Rightarrow> 'g \<Rightarrow> ('a word \<times> 'g) result option" where
  "PreviousPrime draw q m g = (let M = ucast m in PreviousPrime_loop draw q M (q - M) g)"

section \<open>Primes\<close>

definition prime_int :: "int \<Rightarrow> bool" where
  "prime_int p \<longleftrightarrow> 1 < p \<and> (\<forall>d\<in>{2..<p}. \<not> d dvd p)"

lemma prime_int_coprime: "prime_int p \<Longrightarrow> \<not> p dvd a \<Longrightarrow> coprime a p"
proof -
  assume p: "prime_int p" and a: "\<not> p dvd a"
  have d: "gcd a p dvd p" "gcd a p dvd a" "0 < gcd a p" "1 < p" using p by (auto simp: prime_int_def)
  then have "gcd a p \<le> p" by (simp add: zdvd_imp_le)
  moreover have "gcd a p \<noteq> p" using a d(2) by metis
  moreover have "gcd a p \<notin> {2..<p}" using p d(1) by (auto simp: prime_int_def)
  ultimately have "gcd a p = 1" using d(3) unfolding atLeastLessThan_iff by linarith
  then show ?thesis by (simp add: coprime_iff_gcd_eq_1)
qed

lemma prime_int_dvd_mult: "prime_int p \<Longrightarrow> p dvd a * b \<longleftrightarrow> p dvd a \<or> p dvd b"
  by (metis coprime_commute coprime_dvd_mult_right_iff dvd_mult dvd_mult2 prime_int_coprime)

lemma prime_int_dvd_power: "prime_int p \<Longrightarrow> p dvd a ^ k \<Longrightarrow> p dvd a"
  by (induction k) (auto simp: prime_int_dvd_mult prime_int_def dest: zdvd_imp_le)

lemma prime_int_dvd_binomial:
  assumes p: "prime_int (int n)" and k: "0 < k" "k < n"
  shows "int n dvd int (n choose k)"
proof -
  have "k * (n choose k) = n * ((n - 1) choose (k - 1))"
    using times_binomial_minus1_eq [OF k(1), of n] by simp
  then have "int n dvd int k * int (n choose k)" by (metis dvd_triv_left of_nat_mult)
  moreover have "\<not> int n dvd int k" using k by (auto dest!: zdvd_imp_le)
  ultimately show ?thesis by (simp add: prime_int_dvd_mult [OF p])
qed

lemma fermat_nat:
  assumes p: "prime_int (int n)"
  shows "int a ^ n mod int n = int a mod int n"
proof (induction a)
  case 0
  have "0 < n" using p by (simp add: prime_int_def)
  then show ?case by (simp add: power_0_left)
next
  case (Suc a)
  have n: "0 < n" using p by (simp add: prime_int_def)
  let ?f = "\<lambda>k. int (n choose k) * int a ^ k * 1 ^ (n - k)"
  have inner: "int n dvd sum ?f {1..<n}"
    by (intro dvd_sum dvd_mult2 prime_int_dvd_binomial [OF p]) auto
  have "{..n} = insert 0 (insert n {1..<n})" using n by auto
  then have "(int a + 1) ^ n = 1 + (int a ^ n + sum ?f {1..<n})"
    using n by (subst binomial_ring) simp
  then have "int (Suc a) ^ n = (1 + int a ^ n) + sum ?f {1..<n}"
    by (simp add: add.commute)
  also have "\<dots> mod int n = (1 + int a ^ n) mod int n"
    using inner by (metis (no_types) dvd_add_right_iff dvd_eq_mod_eq_0 mod_add_right_eq add_0_right)
  also have "\<dots> = (1 + int a) mod int n"
    using Suc by (metis mod_add_right_eq)
  finally show ?case by simp
qed

text \<open>Fermat's little theorem.\<close>

lemma fermat_int:
  assumes p: "prime_int p" and a: "0 \<le> a" "\<not> p dvd a"
  shows "a ^ nat (p - 1) mod p = 1"
proof -
  obtain n where n: "p = int n" using p by (metis nonneg_int_cases not_less prime_int_def order.strict_trans zero_less_one less_imp_le)
  obtain b where b: "a = int b" using a(1) by (metis nonneg_int_cases)
  have n1: "1 < n" using p by (simp add: n prime_int_def)
  have "p dvd a ^ n - a" using fermat_nat [of n b] p by (simp add: n b mod_eq_dvd_iff)
  also have "a ^ n - a = a * (a ^ (n - 1) - 1)" using n1 by (cases n) (simp_all add: algebra_simps)
  finally have "p dvd a ^ (n - 1) - 1" using a(2) by (simp add: prime_int_dvd_mult [OF p])
  then have "a ^ (n - 1) mod p = 1 mod p" by (simp add: mod_eq_dvd_iff)
  moreover have "nat (p - 1) = n - 1" using n1 by (simp add: n nat_diff_distrib)
  ultimately show ?thesis using n1 n by simp
qed

text \<open>The square roots of one modulo a prime.\<close>

lemma prime_int_square_one:
  assumes p: "prime_int p" and x: "0 \<le> x" "x < p" "x * x mod p = 1"
  shows "x = 1 \<or> x = p - 1"
proof -
  have p1: "1 < p" using p by (simp add: prime_int_def)
  then have "x * x mod p = 1 mod p" using x by simp
  then have "p dvd (x - 1) * (x + 1)" by (simp add: mod_eq_dvd_iff algebra_simps)
  then have "p dvd x - 1 \<or> p dvd x + 1" by (simp add: prime_int_dvd_mult [OF p])
  then show ?thesis
  proof
    assume d: "p dvd x - 1"
    have "x \<noteq> 0" using x p1 by auto
    then have "\<not> 0 < x - 1" using d x by (auto dest: zdvd_imp_le)
    then show ?thesis using \<open>x \<noteq> 0\<close> x by auto
  next
    assume "p dvd x + 1"
    then have "p \<le> x + 1" using x by (intro zdvd_imp_le) auto
    then show ?thesis using x by auto
  qed
qed

section \<open>The random numbers stay below the modulus\<close>

lemma RNG_less:
  assumes "RNG draw modulus g = Some (Inr (r, g'))"
  shows "r < modulus"
proof -
  have "if_returns (\<lambda>(r, g'). r < modulus) (Inr (r, g'))"
    by (rule RNG.raw_induct [OF _ assms, where P = "\<lambda>d m g z. if_returns (\<lambda>(r, g'). r < m) z"])
       (auto split: if_splits prod.splits)
  then show ?thesis by simp
qed

text \<open>
  \<open>fair_draws\<close>: after finitely many attempts the generator yields a value below the modulus, the property
  of a generator that the source relies on to leave the loop of \<^verbatim>\<open>RNG\<close>.
\<close>

definition fair_draws :: "'g distribution \<Rightarrow> 'a::len itself \<Rightarrow> bool" where
  "fair_draws draw _ \<longleftrightarrow> (\<forall>g (m :: 'a word). m \<noteq> 0 \<longrightarrow>
     (\<exists>k. fst (RNG_attempt draw m (((snd \<circ> RNG_attempt draw m) ^^ k) g)) < m))"

lemma RNG_returns:
  fixes m :: "'a::len word"
  assumes "fair_draws draw TYPE('a)" "m \<noteq> 0"
  obtains r g' where "RNG draw m g = Some (Inr (r, g'))"
proof -
  have "\<exists>r g'. RNG draw m g = Some (Inr (r, g'))"
    if "fst (RNG_attempt draw m (((snd \<circ> RNG_attempt draw m) ^^ k) g)) < m" for k
    using that
  proof (induction k arbitrary: g)
    case 0
    then show ?case using assms(2) by (subst RNG.simps) (auto split: prod.splits)
  next
    case (Suc k)
    obtain x g1 where x: "RNG_attempt draw m g = (x, g1)" by force
    then have "\<exists>r g'. RNG draw m g1 = Some (Inr (r, g'))"
      using Suc.prems by (intro Suc.IH) (simp only: funpow_Suc_right o_apply x snd_conv)
    then show ?case using assms(2) x by (subst RNG.simps) auto
  qed
  then show ?thesis using assms that unfolding fair_draws_def by blast
qed

section \<open>The test accepts every prime\<close>

text \<open>
  The loop squares: it reports a witness only for a square root of one other than \<open>1\<close> and \<open>p - 1\<close>, or
  when the last power is not one.
\<close>

lemma Witness_loop_prime:
  fixes p :: "'a::len word"
  assumes p: "prime_int (uint p)" and md: "uint md < uint p" "uint md ^ (2 ^ s) mod uint p = 1"
  shows "\<not> Witness_loop s md p"
  using md
proof (induction s arbitrary: md)
  case 0
  then have "uint md = 1" by simp
  then show ?case by (metis Witness_loop.simps(1) uint_1 word_uint_eq_iff)
next
  case (Suc s)
  have p1: "1 < uint p" using p by (simp add: prime_int_def)
  define md' where "md' = ModMulFastEq md md p"
  have v: "uint md' = uint md * uint md mod uint p"
    unfolding md'_def in_place_variants using p1 by (intro uint_ModMulFast) simp
  have "uint md' ^ 2 ^ s mod uint p = (uint md * uint md) ^ 2 ^ s mod uint p"
    unfolding v by (simp add: power_mod)
  also have "\<dots> = 1" using Suc.prems(2) by (simp add: power_mult [symmetric] power2_eq_square [symmetric])
  finally have "\<not> Witness_loop s md' p" using p1 v by (intro Suc.IH) simp
  moreover have "md = 1 \<or> md = p - 1" if "md' = 1"
  proof -
    have "uint md = 1 \<or> uint md = uint p - 1"
      using v that Suc.prems p1 by (intro prime_int_square_one [OF p]) simp_all
    moreover have "uint (p - 1) = uint p - 1" using p1 by (subst uint_sub_exact) simp_all
    ultimately show ?thesis by (metis uint_1 word_uint_eq_iff)
  qed
  ultimately show ?case by (auto simp: Let_def md'_def [symmetric])
qed

lemma even_unat_iff: "even (unat d) \<longleftrightarrow> d mod 2 = 0" for d :: "'a::len word"
proof -
  have "bit (unat d) 0 \<longleftrightarrow> bit d 0" by (simp only: bit_unsigned_iff) simp
  then show ?thesis unfolding bit_0 by (simp only: even_iff_mod_2_eq_zero [symmetric]) blast
qed

lemma halve_loop_power: "halve_loop d s = (d', s') \<Longrightarrow> d \<noteq> 0 \<Longrightarrow> s \<le> s' \<and> unat d = unat d' * 2 ^ (s' - s)"
proof (induction d s rule: halve_loop.induct)
  case (1 d s)
  show ?case
  proof (cases "Mod d 2 = 0")
    case True
    have e: "unat (RShift d 1) = unat d div 2" 
      unfolding RShift_def unat_drop_bit_eq by (simp only: drop_bit_eq_div) simp
    have "even (unat d)" using True by (simp add: Mod_def even_unat_iff)
    then have u: "unat d = 2 * unat (RShift d 1)" unfolding e by simp
    then have "RShift d 1 \<noteq> 0" using "1.prems"(2) by (metis mult_0_right unat_0 unat_eq_zero)
    moreover have "halve_loop (RShift d 1) (s + 1) = (d', s')"
      using 1 True by (simp add: halve_loop.simps [of d])
    ultimately have "s + 1 \<le> s' \<and> unat (RShift d 1) = unat d' * 2 ^ (s' - (s + 1))"
      using "1.IH" "1.prems" True by blast
    then show ?thesis using u by (simp add: Suc_diff_le [symmetric] flip: power_Suc)
  next
    case False
    then show ?thesis using 1 by (simp add: halve_loop.simps [of d])
  qed
qed

lemma WitnessFunction_prime:
  fixes p :: "'a::len word"
  assumes p: "prime_int (uint p)" and a: "0 < uint a" "uint a < uint p" and hl: "halve_loop (p - 1) 0 = (d, s)"
  shows "\<not> WitnessFunction a d s p"
proof -
  have p1: "1 < uint p" using p by (simp add: prime_int_def)
  have m1: "uint (p - 1) = uint p - 1" using p1 by (subst uint_sub_exact) simp_all
  then have n: "unat (p - 1) = nat (uint p - 1)" by (simp add: unat_eq_nat_uint)
  have "p - 1 \<noteq> 0" using m1 p1 by auto
  then have e: "nat (uint p - 1) = unat d * 2 ^ s" using halve_loop_power [OF hl] n by simp
  have v: "uint (ModExp a d p) = uint a ^ unat d mod uint p" by (rule uint_ModExp [OF p1])
  have "uint (ModExp a d p) ^ 2 ^ s mod uint p = uint a ^ nat (uint p - 1) mod uint p"
    unfolding v e by (simp add: power_mod power_mult)
  also have "\<dots> = 1" using a by (intro fermat_int [OF p]) (auto dest: zdvd_imp_le)
  finally show ?thesis
    unfolding WitnessFunction_def using p1 v by (intro Witness_loop_prime [OF p]) simp_all
qed

text \<open>Every base that the test draws is between \<open>2\<close> and \<open>p - 2\<close>.\<close>

lemma test_base:
  fixes p :: "'a::len word"
  assumes "5 < uint p" "a < p - 3"
  shows "0 < uint (ModAdd a 2 p)" "uint (ModAdd a 2 p) < uint p"
proof -
  have small: "uint (numeral k :: 'a word) = numeral k" if "numeral k < (5 :: int)" for k
  proof -
    have "numeral k < (2 :: int) ^ LENGTH('a)" using uint_lt_pow [of p] assms(1) that by linarith
    then show ?thesis by (simp add: take_bit_int_eq_self)
  qed
  have "uint (p - 3) = uint p - 3"
    using small [of "Num.Bit1 num.One"] assms(1) by (subst uint_sub_exact) simp_all
  then have a: "uint a < uint p - 3" using assms(2) by (simp add: word_less_def)
  moreover have "uint p < 2 ^ LENGTH('a)" by (rule uint_lt_pow)
  ultimately have "uint a + 2 < 2 ^ LENGTH('a)" by linarith
  then have s: "uint (a + 2) = uint a + 2"
    using small [of "Num.Bit0 num.One"] by (subst uint_add_exact) simp_all
  have e: "ModAdd a 2 p = a + 2"
    using a s assms(1) small [of "Num.Bit0 num.One"] by (simp add: ModAdd_def Let_def word_le_def)
  show "0 < uint (ModAdd a 2 p)" "uint (ModAdd a 2 p) < uint p"
    using a s uint_ge_0 [of a] unfolding e by linarith+
qed

lemma MillerRabin_loop_prime:
  fixes p :: "'a::len word"
  assumes p: "prime_int (uint p)" "5 < uint p" and hl: "halve_loop (p - 1) 0 = (d, s)"
    and run: "MillerRabin_loop draw i d s p g = Some (Inr (b, g'))"
  shows b
  using run
proof (induction i arbitrary: g)
  case (Suc i)
  then obtain a g1 where a: "RNG draw (p - 3) g = Some (Inr (a, g1))"
    and r: "(if WitnessFunction (ModAdd a 2 p) d s p then Some (Inr (False, g1))
       else MillerRabin_loop draw i d s p g1) = Some (Inr (b, g'))"
    by (auto simp: bindO_eq_Inr)
  have "\<not> WitnessFunction (ModAdd a 2 p) d s p"
    using test_base [OF p(2) RNG_less [OF a]] by (intro WitnessFunction_prime [OF p(1) _ _ hl])
  then show ?case using r Suc.IH by auto
qed simp

lemma MillerRabin_prime:
  fixes p :: "'a::len word"
  assumes p: "prime_int (uint p)" and run: "MillerRabinPrimalityTest draw p niter g = Some (Inr (b, g'))"
  shows b
proof (cases "p = 2 \<or> p = 3 \<or> p = 5")
  case False
  have p2: "2 \<le> uint p" using p by (simp add: prime_int_def)
  have "uint p \<noteq> numeral k" if "p \<noteq> numeral k" for k
    using that by (metis word_of_int_numeral word_of_int_uint)
  then have np: "uint p \<noteq> 2" "uint p \<noteq> 3" "uint p \<noteq> 5" using False by auto
  have ev: "\<not> 2 dvd uint p"
    using p np(1) p2 unfolding prime_int_def by (metis atLeastLessThan_iff order_le_less order_refl)
  then have "uint p \<noteq> 4" by auto
  then have p5: "5 < uint p" using np p2 by linarith
  have "\<not> p < 2"
  proof -
    have "uint (word_of_int 2 :: 'a word) \<le> 2" unfolding uint_word_of_int by (rule zmod_le_nonneg_dividend) simp
    then have "uint (2 :: 'a word) \<le> 2" by (simp only: word_of_int_numeral)
    then show ?thesis using p5 by (simp add: word_less_def)
  qed
  moreover have "Mod p 2 \<noteq> 0"
    unfolding Mod_def even_unat_iff [symmetric] using ev by (simp only: unat_eq_nat_uint even_nat_iff uint_ge_0) simp
  moreover obtain d s where ds: "halve_loop (p - 1) 0 = (d, s)" by force
  ultimately have "MillerRabin_loop draw niter d s p g = Some (Inr (b, g'))"
    using False run by (simp add: MillerRabinPrimalityTest_def)
  then show ?thesis by (rule MillerRabin_loop_prime [OF p p5 ds])
next
  case True
  then show ?thesis using run by (simp add: MillerRabinPrimalityTest_def)
qed

lemma MillerRabin_returns:
  fixes p :: "'a::len word"
  assumes "fair_draws draw TYPE('a)"
  obtains b g' where "MillerRabinPrimalityTest draw p niter g = Some (Inr (b, g'))"
proof -
  have loop: "\<exists>b g'. MillerRabin_loop draw i d s p g = Some (Inr (b, g'))" if "p \<noteq> 3" for i d s g
  proof (induction i arbitrary: g)
    case (Suc i)
    have "p - 3 \<noteq> 0" using that by simp
    then obtain a g1 where "RNG draw (p - 3) g = Some (Inr (a, g1))" by (rule RNG_returns [OF assms])
    then show ?case using Suc [of g1] by auto
  qed auto
  have "\<exists>b g'. MillerRabinPrimalityTest draw p niter g = Some (Inr (b, g'))"
    using loop [of niter "fst (halve_loop (p - 1) 0)" "snd (halve_loop (p - 1) 0)" g]
    by (auto simp: MillerRabinPrimalityTest_def case_prod_beta)
  then show ?thesis using that by blast
qed

section \<open>The searches end at the first prime\<close>

lemma mod_eq_next:
  fixes a b m :: int
  assumes "0 < m" "a < b" "b mod m = a mod m"
  shows "a + m \<le> b" "b mod m = (a + m) mod m"
proof -
  have "m dvd b - a" using assms(3) by (simp add: mod_eq_dvd_iff)
  then have "m \<le> b - a" using assms by (intro zdvd_imp_le) auto
  then show "a + m \<le> b" "b mod m = (a + m) mod m" using assms(3) by simp_all
qed

lemma FirstPrime_loop_finds:
  fixes q mi :: "'a::len word"
  assumes fair: "fair_draws draw TYPE('a)" and mi: "mi \<noteq> 0"
    and P: "prime_int P" "uint q \<le> P" "P < 2 ^ LENGTH('a)" "P mod uint mi = uint q mod uint mi"
  shows "\<exists>q' g0 g'. FirstPrime_loop draw mi q g = Some (Inr (q', g')) \<and> uint q \<le> uint q' \<and> uint q' \<le> P
    \<and> uint q' mod uint mi = uint q mod uint mi \<and> is_prime draw q' g0 = Some (Inr (True, g'))
    \<and> (\<forall>r. uint q \<le> r \<and> r < uint q' \<and> r mod uint mi = uint q mod uint mi \<longrightarrow> \<not> prime_int r)"
  using P
proof (induction "nat (P - uint q)" arbitrary: q g rule: less_induct)
  case less
  obtain b g1 where b: "is_prime draw q g = Some (Inr (b, g1))" by (rule MillerRabin_returns [OF fair])
  have m0: "0 < uint mi" using mi by (simp add: uint_pos_iff)
  show ?case
  proof (cases b)
    case True
    then have "FirstPrime_loop draw mi q g = Some (Inr (q, g1))" using b by (subst FirstPrime_loop.simps) simp
    then show ?thesis using b True less.prems by (intro exI [of _ q] exI [of _ g] exI [of _ g1]) auto
  next
    case False
    then have np: "\<not> prime_int (uint q)" using MillerRabin_prime [OF _ b] by auto
    then have "uint q < P" using less.prems by (metis order_le_less)
    note n = mod_eq_next [OF m0 this less.prems(4)]
    have s: "uint (q + mi) = uint q + uint mi" using n(1) less.prems(3) by (intro uint_add_exact) simp
    then have ov: "\<not> q + mi < q" using m0 by (simp add: word_less_def)
    have "\<exists>q' g0 g'. FirstPrime_loop draw mi (q + mi) g1 = Some (Inr (q', g')) \<and> uint (q + mi) \<le> uint q' \<and> uint q' \<le> P
      \<and> uint q' mod uint mi = uint (q + mi) mod uint mi \<and> is_prime draw q' g0 = Some (Inr (True, g'))
      \<and> (\<forall>r. uint (q + mi) \<le> r \<and> r < uint q' \<and> r mod uint mi = uint (q + mi) mod uint mi \<longrightarrow> \<not> prime_int r)"
      using s n m0 less.prems by (intro less.hyps) simp_all
    then obtain q' g0 g' where q': "FirstPrime_loop draw mi (q + mi) g1 = Some (Inr (q', g'))" "uint (q + mi) \<le> uint q'"
      "uint q' \<le> P" "uint q' mod uint mi = uint (q + mi) mod uint mi" "is_prime draw q' g0 = Some (Inr (True, g'))"
      "\<forall>r. uint (q + mi) \<le> r \<and> r < uint q' \<and> r mod uint mi = uint (q + mi) mod uint mi \<longrightarrow> \<not> prime_int r"
      by blast
    have "FirstPrime_loop draw mi q g = Some (Inr (q', g'))"
      using b False ov q'(1) by (subst FirstPrime_loop.simps) (simp add: Let_def)
    moreover have "\<not> prime_int r" if r: "uint q \<le> r" "r < uint q'" "r mod uint mi = uint q mod uint mi" for r
    proof (cases "r = uint q")
      case False
      then have "uint q + uint mi \<le> r" using mod_eq_next(1) [OF m0 _ r(3)] r(1) by simp
      then show ?thesis using q'(6) r s by simp
    qed (simp add: np)
    ultimately show ?thesis
      using q' s m0 by (intro exI [of _ q'] exI [of _ g0] exI [of _ g']) simp
  qed
qed

text \<open>The first candidate is the least number above the power of two that is one modulo \<open>m\<close>.\<close>

lemma first_candidate:
  fixes t m P :: int
  assumes m: "0 < m" and P: "t < P" "P mod m = 1 mod m"
  defines "c \<equiv> (if 0 < t mod m then t + 1 + (m - t mod m) else t + 1)"
  shows "c \<le> P" "P mod m = c mod m" "t < c" "c mod m = 1 mod m"
proof -
  define r where "r = t mod m"
  have r: "0 \<le> r" "r < m" "t = t div m * m + r" using m by (simp_all add: r_def)
  have c: "c = t div m * m + (if 0 < r then m else 0) + 1" using r by (auto simp: c_def r_def [symmetric])
  have "m dvd t div m * m + (if 0 < r then m else 0)" by simp
  then show cm: "c mod m = 1 mod m" unfolding c by (simp add: mod_eq_dvd_iff)
  then show "P mod m = c mod m" using P by simp
  show "t < c" using r m c by (auto split: if_splits)
  show "c \<le> P"
  proof (rule ccontr)
    assume "\<not> c \<le> P"
    then have "P + m \<le> c" using mod_eq_next(1) [OF m, of P c] cm P(2) by simp
    then show False using P(1) r c by (auto split: if_splits)
  qed
qed

lemma FirstPrime_search:
  fixes m :: "64 word"
  assumes fair: "fair_draws draw TYPE('a::len)"
    and n: "nBits \<le> MAX_MODULUS_SIZE LENGTH('a)" and m: "0 < uint m" "uint m < 2 ^ LENGTH('a)"
    and P: "prime_int P" "2 ^ nBits < P" "P < 2 ^ LENGTH('a)" "P mod uint m = 1 mod uint m"
  shows "\<exists>q g0 g'. FirstPrime draw nBits m g = Some (Inr (q :: 'a word, g')) \<and> 2 ^ nBits < uint q \<and> uint q \<le> P
    \<and> uint q mod uint m = 1 mod uint m \<and> is_prime draw q g0 = Some (Inr (True, g'))
    \<and> (\<forall>r. 2 ^ nBits < r \<and> r < uint q \<and> r mod uint m = 1 mod uint m \<longrightarrow> \<not> prime_int r)"
proof -
  define mi t where "mi = (ucast m :: 'a word)" and "t = (LShift 1 nBits :: 'a word)"
  have um: "uint mi = uint m" using m by (simp add: mi_def uint_ucast_small)
  then have mi: "mi \<noteq> 0" using m(1) by auto
  have "(2 :: int) ^ nBits < 2 ^ LENGTH('a)" using P by linarith
  then have nl: "nBits < LENGTH('a)" by simp
  have ut: "uint t = 2 ^ nBits" using nl by (simp add: t_def LShift_def push_bit_eq_mult uint_pow2_mod)
  define r c where "r = Mod t mi" and "c = (if r > 0 then t + 1 + (mi - r) else t + 1)"
  have ur: "uint r = 2 ^ nBits mod uint m" by (simp add: r_def Mod_def uint_mod_eq ut um)
  define C where "C = (if 0 < 2 ^ nBits mod uint m then 2 ^ nBits + 1 + (uint m - 2 ^ nBits mod uint m) else 2 ^ nBits + 1)"
  note C = first_candidate [OF m(1) P(2,4), folded C_def]
  have rm: "2 ^ nBits mod uint m < uint m" "0 \<le> 2 ^ nBits mod uint m" using m(1) by simp_all
  have t1: "uint (t + 1) = 2 ^ nBits + 1" using P ut by (subst uint_add_exact) auto
  have mr: "uint (mi - r) = uint m - 2 ^ nBits mod uint m"
    using rm ur um by (subst uint_sub_exact) auto
  have uc: "uint c = C"
  proof (cases "0 < (2 :: int) ^ nBits mod uint m")
    case True
    then have "uint (t + 1 + (mi - r)) = uint (t + 1) + uint (mi - r)"
      using C(1) P(3) by (intro uint_add_exact) (simp add: t1 mr C_def)
    then show ?thesis using True ur by (simp add: c_def C_def t1 mr word_less_def)
  next
    case False
    then show ?thesis using ur by (simp add: c_def C_def t1 word_less_def)
  qed
  have "\<not> c < t" using uc C(3) ut by (simp add: word_less_def)
  then have fp: "FirstPrime draw nBits m g = FirstPrime_loop draw mi c g"
    using n mi unfolding FirstPrime_def Let_def mi_def [symmetric] t_def [symmetric] r_def [symmetric] c_def [symmetric] by simp
  have "\<exists>q' g0 g'. FirstPrime_loop draw mi c g = Some (Inr (q', g')) \<and> uint c \<le> uint q' \<and> uint q' \<le> P
    \<and> uint q' mod uint mi = uint c mod uint mi \<and> is_prime draw q' g0 = Some (Inr (True, g'))
    \<and> (\<forall>r. uint c \<le> r \<and> r < uint q' \<and> r mod uint mi = uint c mod uint mi \<longrightarrow> \<not> prime_int r)"
    using C P uc um by (intro FirstPrime_loop_finds [OF fair mi P(1)]) simp_all
  then obtain q g0 g' where q: "FirstPrime_loop draw mi c g = Some (Inr (q, g'))" "C \<le> uint q" "uint q \<le> P"
    "uint q mod uint m = C mod uint m" "is_prime draw q g0 = Some (Inr (True, g'))"
    "\<forall>r. C \<le> r \<and> r < uint q \<and> r mod uint m = C mod uint m \<longrightarrow> \<not> prime_int r"
    unfolding uc um by blast
  have "\<not> prime_int r" if r: "2 ^ nBits < r" "r < uint q" "r mod uint m = 1 mod uint m" for r
    using q(6) r C(4) first_candidate(1) [OF m(1) r(1,3), folded C_def] by simp
  then show ?thesis
    using q C fp by (intro exI [of _ q] exI [of _ g0] exI [of _ g']) auto
qed

lemma PreviousPrime_loop_finds:
  fixes q mi :: "'a::len word"
  assumes fair: "fair_draws draw TYPE('a)" and mi: "mi \<noteq> 0"
    and P: "prime_int P" "P \<le> uint c" "c \<le> q" "uint c mod uint mi = P mod uint mi"
  shows "\<exists>q' g0 g'. PreviousPrime_loop draw q mi c g = Some (Inr (q', g')) \<and> uint q' \<le> uint c \<and> P \<le> uint q'
    \<and> uint q' mod uint mi = P mod uint mi \<and> is_prime draw q' g0 = Some (Inr (True, g'))
    \<and> (\<forall>r. uint q' < r \<and> r \<le> uint c \<and> r mod uint mi = P mod uint mi \<longrightarrow> \<not> prime_int r)"
  using P
proof (induction "nat (uint c - P)" arbitrary: c g rule: less_induct)
  case less
  obtain b g1 where b: "is_prime draw c g = Some (Inr (b, g1))" by (rule MillerRabin_returns [OF fair])
  have m0: "0 < uint mi" using mi by (simp add: uint_pos_iff)
  show ?case
  proof (cases b)
    case True
    then have "PreviousPrime_loop draw q mi c g = Some (Inr (c, g1))" using b by (subst PreviousPrime_loop.simps) simp
    then show ?thesis using b True less.prems by (intro exI [of _ c] exI [of _ g] exI [of _ g1]) auto
  next
    case False
    then have np: "\<not> prime_int (uint c)" using MillerRabin_prime [OF _ b] by auto
    then have "P < uint c" using less.prems by (metis order_le_less)
    note n = mod_eq_next [OF m0 this less.prems(4)]
    have P0: "0 < P" using less.prems(1) by (simp add: prime_int_def)
    then have s: "uint (c - mi) = uint c - uint mi" using n(1) by (intro uint_sub_exact) simp
    then have le: "c - mi \<le> q" using less.prems(3) m0 by (simp add: word_le_def)
    have md: "uint (c - mi) mod uint mi = P mod uint mi" using s less.prems(4) by simp
    have "\<exists>q' g0 g'. PreviousPrime_loop draw q mi (c - mi) g1 = Some (Inr (q', g')) \<and> uint q' \<le> uint (c - mi) \<and> P \<le> uint q'
      \<and> uint q' mod uint mi = P mod uint mi \<and> is_prime draw q' g0 = Some (Inr (True, g'))
      \<and> (\<forall>r. uint q' < r \<and> r \<le> uint (c - mi) \<and> r mod uint mi = P mod uint mi \<longrightarrow> \<not> prime_int r)"
      using s n m0 le md P0 less.prems by (intro less.hyps) simp_all
    then obtain q' g0 g' where q': "PreviousPrime_loop draw q mi (c - mi) g1 = Some (Inr (q', g'))" "uint q' \<le> uint (c - mi)"
      "P \<le> uint q'" "uint q' mod uint mi = P mod uint mi" "is_prime draw q' g0 = Some (Inr (True, g'))"
      "\<forall>r. uint q' < r \<and> r \<le> uint (c - mi) \<and> r mod uint mi = P mod uint mi \<longrightarrow> \<not> prime_int r"
      by blast
    have "PreviousPrime_loop draw q mi c g = Some (Inr (q', g'))"
      using b False le q'(1) by (subst PreviousPrime_loop.simps) (simp add: Let_def not_less)
    moreover have "\<not> prime_int r" if r: "uint q' < r" "r \<le> uint c" "r mod uint mi = P mod uint mi" for r
    proof (cases "r = uint c")
      case False
      then have "r + uint mi \<le> uint c" using mod_eq_next(1) [OF m0, of r "uint c"] r less.prems(4) by simp
      then show ?thesis using q'(6) r s by simp
    qed (simp add: np)
    ultimately show ?thesis
      using q' s m0 by (intro exI [of _ q'] exI [of _ g0] exI [of _ g']) simp
  qed
qed

end
