(* ===== verification/NbPoly.thy ===== *)
theory NbPoly
  imports Primality
begin

text \<open>
  Polynomials as coefficient vectors, \<^verbatim>\<open>src/src/core/include/math/nbtheory-impl.h\<close>, and the functions of
  \<^verbatim>\<open>src/src/core/lib/math/nbtheory2.cpp\<close> on cyclotomic polynomials, inverses and automorphism indices.

  Lengths and indices of type \<^verbatim>\<open>usint\<close> are natural numbers where the code stays in range; a length that
  would make an index wrap around is the value \<^const>\<open>undefined_behaviour\<close>.
\<close>

unbundle bit_operations_syntax

section \<open>Polynomials over native vectors\<close>

text \<open>The body of the division loop: the running dividend moves up by one place, less a multiple of the divisor.\<close>

definition PolyMod_step :: "'a::len word \<Rightarrow> 'a word \<Rightarrow> 'a word list \<Rightarrow> 'a word \<Rightarrow> nat \<Rightarrow> nat
    \<Rightarrow> 'a word list \<Rightarrow> 'a word list" where
  "PolyMod_step modulus mu divisor divConst dividendLength j running =
     (let divisorPtr = length divisor - 1;
          v = running ! (dividendLength - 2 - j);
          v = (if divisorPtr > j then ModSubEq_mu v (MulFast (divisor ! (divisorPtr - 1 - j)) divConst) modulus mu else v)
      in running[dividendLength - 1 - j := v])"

definition PolyMod :: "'a::len nvec \<Rightarrow> 'a nvec \<Rightarrow> 'a word \<Rightarrow> 'a nvec result" where
  "PolyMod dividend divisor modulus =
     bindR (ComputeMu modulus) (\<lambda>mu.
       let divisorLength = length (m_data divisor);
           dividendLength = length (m_data dividend)
       in if divisorLength = 0 \<or> dividendLength + 1 < divisorLength then Inl undefined_behaviour
          else let runs = dividendLength + 1 - divisorLength;
                   running = fold (\<lambda>i running.
                     let divConst = running ! (dividendLength - 1)
                     in fold (PolyMod_step modulus mu (m_data divisor) divConst dividendLength)
                          [0..<dividendLength - i - 1] running) [0..<runs] (m_data dividend)
               in Inr \<lparr> m_modulus = modulus, m_data = map (\<lambda>i. running ! (runs + i)) [0..<divisorLength - 1] \<rparr>)"

definition PolynomialMultiplication :: "'a::len nvec \<Rightarrow> 'a nvec \<Rightarrow> 'a nvec" where
  "PolynomialMultiplication a b =
     (let degreeA = length (m_data a);
          degreeB = length (m_data b);
          degreeResultant = (degreeA + degreeB + 2 ^ 32 - 1) mod 2 ^ 32
      in \<lparr> m_modulus = m_modulus a,
           m_data = fold (\<lambda>i. fold (\<lambda>j result. result[i + j :=
             ModAddEq (result ! (i + j)) (MulFast (m_data a ! i) (m_data b ! j)) (m_modulus a)]) [0..<degreeB])
             [0..<degreeA] (replicate degreeResultant 0) \<rparr>)"

definition SyntheticRemainder :: "'a::len nvec \<Rightarrow> 'a word \<Rightarrow> 'a word \<Rightarrow> 'a word result" where
  "SyntheticRemainder dividend a modulus =
     bindR (ComputeMu modulus) (\<lambda>mu.
       let d = m_data dividend
       in if d = [] then Inl undefined_behaviour
          else Inr (fold (\<lambda>i val. Mod_mu (AddFast (d ! i) (MulFast a val)) modulus mu)
                 (rev [0..<length d - 1]) (d ! (length d - 1))))"

definition SyntheticPolyRemainder :: "'a::len nvec \<Rightarrow> 'a nvec \<Rightarrow> 'a word \<Rightarrow> 'a nvec result" where
  "SyntheticPolyRemainder dividend aList modulus =
     bindR (mapR (\<lambda>a. SyntheticRemainder dividend a modulus) (m_data aList))
       (\<lambda>rs. Inr \<lparr> m_modulus = modulus, m_data = rs \<rparr>)"

definition PolynomialPower :: "'a::len nvec \<Rightarrow> nat \<Rightarrow> 'a nvec result" where
  "PolynomialPower input pw =
     (let n = length (m_data input);
          finalDegree = ((n + 2 ^ 32 - 1) mod 2 ^ 32 * pw) mod 2 ^ 32
      in bindR (foldR (\<lambda>i finalPoly.
           let k = (i * pw) mod 2 ^ 32
           in if k < length finalPoly then Inr (finalPoly[k := m_data input ! i]) else Inl undefined_behaviour)
           [0..<n] (replicate ((finalDegree + 1) mod 2 ^ 32) 0))
         (\<lambda>finalPoly. Inr \<lparr> m_modulus = m_modulus input, m_data = finalPoly \<rparr>))"

definition SyntheticPolynomialDivision :: "'a::len nvec \<Rightarrow> 'a word \<Rightarrow> 'a word \<Rightarrow> 'a nvec result" where
  "SyntheticPolynomialDivision dividend a modulus =
     bindR (ComputeMu modulus) (\<lambda>mu.
       let d = m_data dividend; n = length d - 1
       in if length d < 2 then Inl undefined_behaviour
          else Inr \<lparr> m_modulus = modulus,
            m_data = snd (fold (\<lambda>i (val, result).
                let val = Mod_mu (AddFast (MulFast val a) (d ! i)) modulus mu
                in (val, result[i - 1 := val]))
              (rev [1..<n]) (d ! n, (replicate n 0)[n - 1 := d ! n])) \<rparr>)"

section \<open>Cyclotomic polynomials\<close>

text \<open>Coefficients of type \<^verbatim>\<open>int\<close>; a value out of its range is undefined behaviour.\<close>

function IsPrime_loop :: "nat \<Rightarrow> nat \<Rightarrow> bool" where
  "IsPrime_loop i val = (if i < val then (if val mod i = 0 then False else IsPrime_loop (i + 2) val) else True)"
  by pat_completeness auto
termination by (relation "measure (\<lambda>(i, val). val - i)") auto

declare IsPrime_loop.simps [simp del]

definition IsPrime :: "nat \<Rightarrow> bool" where
  "IsPrime val = (if val mod 2 = 0 then False else IsPrime_loop 3 val)"

definition GetDivisibleNumbers :: "nat \<Rightarrow> nat list" where
  "GetDivisibleNumbers val = filter (\<lambda>i. val mod i = 0) [1..<val]"

definition PolyMult :: "int list \<Rightarrow> int list \<Rightarrow> int list result" where
  "PolyMult a b =
     foldR (\<lambda>i. foldR (\<lambda>j product.
         bindR (inS 32 (a ! i * b ! j)) (\<lambda>p.
         bindR (inS 32 (product ! (i + j) + p)) (\<lambda>v.
           Inr (product[i + j := v])))) [0..<length b]) [0..<length a] (replicate (length a + length b - 1) 0)"

definition PolyQuotient_step :: "int list \<Rightarrow> int \<Rightarrow> nat \<Rightarrow> nat \<Rightarrow> int list \<Rightarrow> int list result" where
  "PolyQuotient_step divisor divConst dividendLength j running =
     (let divisorPtr = length divisor - 1;
          v = running ! (dividendLength - 2 - j)
      in bindR (if divisorPtr > j
           then bindR (inS 32 (divisor ! (divisorPtr - 1 - j) * divConst)) (\<lambda>p. inS 32 (v - p))
           else Inr v)
         (\<lambda>v. Inr (running[dividendLength - 1 - j := v])))"

definition PolyQuotient :: "int list \<Rightarrow> int list \<Rightarrow> int list result" where
  "PolyQuotient dividend divisor =
     (let divisorLength = length divisor;
          dividendLength = length dividend
      in if divisorLength = 0 \<or> dividendLength + 1 < divisorLength then Inl undefined_behaviour
         else let runs = dividendLength + 1 - divisorLength
              in bindR (foldR (\<lambda>i (quotient, running).
                   bindR (foldR (PolyQuotient_step divisor (running ! (dividendLength - 1)) dividendLength)
                     [0..<dividendLength - i - 1] running) (\<lambda>running.
                   Inr (quotient[i + 1 := running ! (dividendLength - 1)], running)))
                   [0..<runs] (replicate (runs + 1) 0, dividend))
                 (\<lambda>(quotient, running). Inr (butlast (quotient[0 := 1]))))"

lemma foldR_cong [fundef_cong]:
  assumes "xs = ys" "s = t" "\<And>x u. x \<in> set ys \<Longrightarrow> f x u = g x u"
  shows "foldR f xs s = foldR g ys t"
proof -
  have "foldR f ys t = foldR g ys t" using assms(3)
    by (induction ys arbitrary: t) (auto simp: bindR_def split: sum.splits)
  then show ?thesis using assms by simp
qed

function GetCyclotomicPolynomialRecursive :: "nat \<Rightarrow> int list result" where
  "GetCyclotomicPolynomialRecursive m =
     (if m = 1 then Inr [- 1, 1]
      else if m = 2 then Inr [1, 1]
      else if IsPrime m then Inr (replicate m 1)
      else bindR (foldR (\<lambda>d product.
             bindR (GetCyclotomicPolynomialRecursive d) (\<lambda>P. PolyMult product P)) (GetDivisibleNumbers m) [1])
           (\<lambda>product. PolyQuotient ((replicate (m + 1) 0)[0 := - 1, m := 1]) product))"
  by pat_completeness auto
termination by (relation "measure id") (auto simp: GetDivisibleNumbers_def)

declare GetCyclotomicPolynomialRecursive.simps [simp del]

definition GetCyclotomicPolynomial :: "nat \<Rightarrow> 'a::len word \<Rightarrow> 'a nvec result" where
  "GetCyclotomicPolynomial m modulus =
     bindR (GetCyclotomicPolynomialRecursive m) (\<lambda>intCP.
       Inr \<lparr> m_modulus = modulus,
         m_data = map (\<lambda>val. if val > - 1 then word_of_int val else SubFast modulus (word_of_int (- val))) intCP \<rparr>)"

section \<open>Inverses and automorphism indices\<close>

text \<open>The extended Euclidean algorithm on \<^verbatim>\<open>usint\<close>, with wrap-around.\<close>

function ModInverse_usint_loop :: "32 word \<Rightarrow> 32 word \<Rightarrow> 32 word \<Rightarrow> 32 word \<Rightarrow> 32 word result" where
  "ModInverse_usint_loop a b x0 x1 =
     (if a > 1 then
        (if b = 0 then Inl undefined_behaviour
         else let q = a div b
              in ModInverse_usint_loop b (a mod b) (x1 - q * x0) x0)
      else Inr x1)"
  by pat_completeness auto
termination
  by (relation "measure (\<lambda>(a, b, x0, x1). unat b)")
     (auto simp: word_mod_less_divisor word_less_nat_alt [symmetric] word_gt_0)

declare ModInverse_usint_loop.simps [simp del]

definition ModInverse_usint :: "32 word \<Rightarrow> 32 word \<Rightarrow> 32 word result" where
  "ModInverse_usint a b = (if b = 1 then Inr 1 else ModInverse_usint_loop a b 0 1)"

text \<open>An argument of type \<^verbatim>\<open>int32_t\<close> is an integer of that range; \<^verbatim>\<open>std::abs\<close> of the smallest one is undefined.\<close>

definition FindAutomorphismIndex2n :: "'g distribution \<Rightarrow> int \<Rightarrow> 32 word \<Rightarrow> 'g \<Rightarrow> (32 word \<times> 'g) result option" where
  "FindAutomorphismIndex2n draw i m g =
     (if i = 0 then Some (Inr (1, g))
      else bindO (GetTotient draw (ucast m) g) (\<lambda>(tot, g).
        let n = (ucast tot :: 32 word)
        in bindO (Some (if i < 0
               then bindR (ModInverse (5 :: 64 word) (ucast m)) (\<lambda>f1.
                    bindR (ModInverse (ucast (m - 1) :: 64 word) (ucast m)) (\<lambda>f2. Inr (ucast f1 :: 32 word, ucast f2 :: 32 word)))
               else Inr (5, m - 1))) (\<lambda>(f1, f2).
           bindO (Some (inS 32 \<bar>i\<bar>)) (\<lambda>a.
             let i_unsigned = nat a; half = unat (n div 2)
             in if i_unsigned < half
                then (if m = 0 \<and> 1 < i_unsigned then Some (Inl undefined_behaviour)
                      else Some (Inr (((\<lambda>k. (k * f1) mod m) ^^ (i_unsigned - 1)) f1, g)))
                else (if m = 0 \<and> half < i_unsigned then Some (Inl undefined_behaviour)
                      else Some (Inr (((\<lambda>k. (k * f1) mod m) ^^ (i_unsigned - half)) f2, g)))))))"

definition FindAutomorphismIndexCyclic :: "'g distribution \<Rightarrow> int \<Rightarrow> 32 word \<Rightarrow> 32 word \<Rightarrow> 'g
    \<Rightarrow> (32 word \<times> 'g) result option" where
  "FindAutomorphismIndexCyclic draw i m gen g =
     (if i = 0 then Some (Inr (1, g))
      else bindO (GetTotient draw (ucast m) g) (\<lambda>(tot, g).
        let n = sint (ucast tot :: 32 word)
        in if n = 0 then Some (Inl undefined_behaviour)
           else bindO (Some (inS 32 (i sdiv n))) (\<lambda>_.
             let i_signed = i smod n
             in bindO (Some (if i_signed \<le> 0 then inS 32 (i_signed + n) else Inr i_signed)) (\<lambda>i_signed.
               let i_unsigned = unat (word_of_int i_signed :: 32 word)
               in if m = 0 \<and> 2 < i_unsigned then Some (Inl undefined_behaviour)
                  else Some (Inr (((\<lambda>k. (k * gen) mod m) ^^ (i_unsigned - 2)) gen, g))))))"

definition FindAutomorphismIndex2nComplex :: "int \<Rightarrow> 32 word \<Rightarrow> 32 word result" where
  "FindAutomorphismIndex2nComplex i m =
     (if i = 0 then Inr 1
      else if i = sint (m - 1) then Inr (word_of_int i)
      else bindR (if i < 0
             then bindR (ModInverse (5 :: 64 word) (ucast m)) (\<lambda>v. Inr (sint (ucast v :: 32 word)))
             else Inr 5) (\<lambda>g0.
           bindR (inS 32 \<bar>i\<bar>) (\<lambda>a.
           bindR (foldR (\<lambda>j k.
               bindR (inS 32 (k * g0)) (\<lambda>p.
                 if m = 0 then Inl undefined_behaviour
                 else Inr (sint (word_of_int p mod m)))) [1..<nat a] g0) (\<lambda>k.
             Inr (word_of_int k)))))"

section \<open>Inverses of machine integers\<close>

text \<open>Where the signed algorithm of the native integers succeeds, this one computes its result modulo the word size.\<close>

lemma ModInverse_usint_loop_eq:
  assumes "x1 = word_of_int X" "x0 = word_of_int Y"
  shows "(ModInverse_loop w (uint a) (uint b) X Y = Inr r \<longrightarrow> ModInverse_usint_loop a b x0 x1 = Inr (word_of_int r))"
  using assms
proof (induction a b x0 x1 arbitrary: X Y rule: ModInverse_usint_loop.induct)
  case (1 a b x0 x1)
  have gt: "a > 1 \<longleftrightarrow> 1 < uint a" by (simp add: word_less_def)
  show ?case
  proof (cases "1 < uint a \<and> b \<noteq> 0")
    case True
    then have b0: "0 < uint b" by (simp add: uint_pos_iff)
    have "a \<noteq> 0" using True by auto
    have sd: "uint a sdiv uint b = uint (a div b)" "uint a smod uint b = uint (a mod b)"
      using True b0 \<open>a \<noteq> 0\<close> by (simp_all add: signed_divide_int_def signed_modulo_int_def uint_div_eq uint_mod_eq
          minus_div_mult_eq_mod minus_mult_div_eq_mod)
    have w: "x1 - (a div b) * x0 = word_of_int (X - uint (a div b) * Y)"
      using "1.prems" by simp
    show ?thesis
    proof
      assume "ModInverse_loop w (uint a) (uint b) X Y = Inr r"
      then have "ModInverse_loop w (uint b) (uint (a mod b)) Y (X - uint (a div b) * Y) = Inr r"
        using True by (subst (asm) ModInverse_loop.simps) (auto simp: sd bindR_eq_Inr inS_def Let_def split: if_splits)
      then have "ModInverse_usint_loop b (a mod b) (x1 - (a div b) * x0) x0 = Inr (word_of_int r)"
        using 1 True gt w by blast
      then show "ModInverse_usint_loop a b x0 x1 = Inr (word_of_int r)"
        using True gt by (subst ModInverse_usint_loop.simps) (simp add: Let_def)
    qed
  next
    case False
    then show ?thesis using "1.prems" gt
      by (subst ModInverse_loop.simps, subst ModInverse_usint_loop.simps) auto
  qed
qed

lemma ModInverse_usint_loop_fails:
  assumes "gcd (uint a) (uint b) \<noteq> 1" "0 < uint a"
  shows "ModInverse_usint_loop a b x0 x1 = Inl undefined_behaviour"
  using assms
proof (induction a b x0 x1 rule: ModInverse_usint_loop.induct)
  case (1 a b x0 x1)
  have gt: "a > 1 \<longleftrightarrow> 1 < uint a" by (simp add: word_less_def)
  have "uint a \<noteq> 1" using "1.prems"(1) by auto
  then have a: "1 < uint a" using "1.prems"(2) by linarith
  show ?case
  proof (cases "b = 0")
    case True
    then show ?thesis using a gt by (subst ModInverse_usint_loop.simps) simp
  next
    case False
    have "gcd (uint b) (uint (a mod b)) = gcd (uint a) (uint b)" by (metis gcd.commute gcd_red_int uint_mod_eq)
    then have "ModInverse_usint_loop b (a mod b) (x1 - (a div b) * x0) x0 = Inl undefined_behaviour"
      using 1 False a gt by (simp add: uint_pos_iff)
    then show ?thesis using False a gt by (subst ModInverse_usint_loop.simps) (simp add: Let_def)
  qed
qed

section \<open>Synthetic division\<close>

text \<open>The value at \<open>A\<close> of the polynomial with the coefficients \<open>D i, ..., D n\<close>.\<close>

definition horner :: "(nat \<Rightarrow> int) \<Rightarrow> int \<Rightarrow> nat \<Rightarrow> nat \<Rightarrow> int" where
  "horner D A n i = (\<Sum>k = i..n. D k * A ^ (k - i))"

lemma horner_step: "i < n \<Longrightarrow> horner D A n i = D i + A * horner D A n (Suc i)"
proof -
  assume "i < n"
  then have "horner D A n i = D i + (\<Sum>k = Suc i..n. D k * A ^ (k - i))"
    by (simp add: horner_def sum.atLeast_Suc_atMost)
  also have "(\<Sum>k = Suc i..n. D k * A ^ (k - i)) = (\<Sum>k = Suc i..n. A * (D k * A ^ (k - Suc i)))"
  proof (rule sum.cong [OF refl])
    fix k assume "k \<in> {Suc i..n}"
    then have "k - i = Suc (k - Suc i)" by auto
    then show "D k * A ^ (k - i) = A * (D k * A ^ (k - Suc i))" by simp
  qed
  finally show ?thesis by (simp add: horner_def sum_distrib_left)
qed

lemma horner_step_mod: "i < n \<Longrightarrow> (D i + A * (horner D A n (Suc i) mod q)) mod q = horner D A n i mod q"
  by (metis horner_step mod_add_right_eq mod_mult_right_eq)

lemma horner_last: "horner D A n n = D n"
  by (simp add: horner_def)

text \<open>A step of both loops, for residues of a modulus whose square fits the word.\<close>

lemma synthetic_step:
  fixes q a v d mu :: "'a::len word"
  assumes q: "barrett_modulus q" "ComputeMu q = Inr mu" "uint q * uint q \<le> 2 ^ LENGTH('a)"
    and r: "uint a < uint q" "uint v < uint q" "uint d < uint q"
  shows "uint (Mod_mu (AddFast d (MulFast a v)) q mu) = (uint d + uint a * uint v) mod uint q"
    "Mod_mu (AddFast (MulFast v a) d) q mu = Mod_mu (AddFast d (MulFast a v)) q mu"
proof -
  have "0 < uint q" using r(1) uint_ge_0 [of a] by linarith
  then have "uint a * uint v \<le> (uint q - 1) * (uint q - 1)" using r by (intro mult_mono) auto
  also have "\<dots> = uint q * uint q - 2 * uint q + 1" by (simp add: algebra_simps)
  finally have b: "uint d + uint a * uint v < uint q * uint q" using r \<open>0 < uint q\<close> by linarith
  then have m: "uint (a * v) = uint a * uint v" using q(3) r uint_ge_0 [of d] by (intro uint_mul_exact) linarith
  have s: "uint (AddFast d (MulFast a v)) = uint d + uint a * uint v"
  proof -
    have "uint (a * v + d) = uint (a * v) + uint d" using b q(3) m by (intro uint_add_exact) linarith
    then show ?thesis unfolding AddFast_def MulFast_def m mult.commute [of v a] by linarith
  qed
  have "uint q < 2 ^ GetMSB q" by (simp add: GetMSB_le_iff [symmetric])
  then have "uint q * uint q \<le> 2 ^ GetMSB q * 2 ^ GetMSB q" by (intro mult_mono) auto
  also have "(2 :: int) ^ GetMSB q * 2 ^ GetMSB q \<le> 2 * (2 ^ GetMSB q * 2 ^ GetMSB q)" by simp
  also have "\<dots> = 2 ^ (2 * GetMSB q + 1)" by (simp add: power_add power_mult power2_eq_square mult.commute [of 2])
  finally have "uint (AddFast d (MulFast a v)) < 2 ^ (2 * GetMSB q + 1)" using b s by linarith
  then show "uint (Mod_mu (AddFast d (MulFast a v)) q mu) = (uint d + uint a * uint v) mod uint q"
    unfolding Mod_mu_def s [symmetric] by (rule uint_ModMu [OF q(1,2)])
  show "Mod_mu (AddFast (MulFast v a) d) q mu = Mod_mu (AddFast d (MulFast a v)) q mu"
    unfolding AddFast_def MulFast_def by (simp only: add.commute [of d] mult.commute [of a])
qed

lemma remainder_loop:
  fixes q a mu :: "'a::len word"
  assumes q: "barrett_modulus q" "ComputeMu q = Inr mu" "uint q * uint q \<le> 2 ^ LENGTH('a)"
    and a: "uint a < uint q" and d: "\<And>i. i \<le> n \<Longrightarrow> uint (d ! i) < uint q" and i: "i \<le> n"
  shows "uint (fold (\<lambda>i val. Mod_mu (AddFast (d ! i) (MulFast a val)) q mu) (rev [i..<n]) (d ! n))
    = horner (\<lambda>i. uint (d ! i)) (uint a) n i mod uint q"
  using i
proof (induction "n - i" arbitrary: i)
  case 0
  then show ?case using d [of n] by (simp add: horner_last)
next
  case (Suc k)
  let ?f = "\<lambda>i val. Mod_mu (AddFast (d ! i) (MulFast a val)) q mu"
  let ?v = "fold ?f (rev [Suc i..<n]) (d ! n)"
  have IH: "uint ?v = horner (\<lambda>i. uint (d ! i)) (uint a) n (Suc i) mod uint q" using Suc by (intro Suc.hyps) auto
  moreover have "0 < uint q" using a uint_ge_0 [of a] by linarith
  ultimately have "uint ?v < uint q" by simp
  then have "uint (?f i ?v) = (uint (d ! i) + uint a * uint ?v) mod uint q"
    using Suc.prems by (intro synthetic_step [OF q a]) (simp_all add: d)
  also have "\<dots> = horner (\<lambda>i. uint (d ! i)) (uint a) n i mod uint q"
    unfolding IH using Suc.hyps(2) by (intro horner_step_mod) simp
  finally show ?case using Suc.hyps(2) by (simp add: upt_conv_Cons)
qed

lemma division_loop:
  fixes q a mu :: "'a::len word"
  assumes q: "barrett_modulus q" "ComputeMu q = Inr mu" "uint q * uint q \<le> 2 ^ LENGTH('a)"
    and a: "uint a < uint q" and d: "\<And>i. i \<le> n \<Longrightarrow> uint (d ! i) < uint q" and i: "0 < i" "i \<le> n"
  shows "\<exists>val result. fold (\<lambda>i (val, result). let val = Mod_mu (AddFast (MulFast val a) (d ! i)) q mu in (val, result[i - 1 := val]))
      (rev [i..<n]) (d ! n, (replicate n 0)[n - 1 := d ! n]) = (val, result)
    \<and> uint val = horner (\<lambda>i. uint (d ! i)) (uint a) n i mod uint q \<and> length result = n
    \<and> (\<forall>j. i \<le> Suc j \<and> j < n \<longrightarrow> uint (result ! j) = horner (\<lambda>i. uint (d ! i)) (uint a) n (Suc j) mod uint q)"
  using i
proof (induction "n - i" arbitrary: i)
  case 0
  then have "i = n" by simp
  then show ?case using d [of n] 0 by (auto simp: horner_last nth_list_update le_Suc_eq)
next
  case (Suc k)
  let ?f = "\<lambda>i (val, result). let val = Mod_mu (AddFast (MulFast val a) (d ! i)) q mu in (val, result[i - 1 := val])"
  let ?h = "horner (\<lambda>i. uint (d ! i)) (uint a) n"
  have "k = n - Suc i" "0 < Suc i" "Suc i \<le> n" using Suc.hyps(2) by simp_all
  from Suc.hyps(1) [OF this] obtain val result where IH: "fold ?f (rev [Suc i..<n]) (d ! n, (replicate n 0)[n - 1 := d ! n]) = (val, result)"
      "uint val = ?h (Suc i) mod uint q" "length result = n"
      "\<forall>j. Suc i \<le> Suc j \<and> j < n \<longrightarrow> uint (result ! j) = ?h (Suc j) mod uint q"
    by blast
  define v where "v = Mod_mu (AddFast (d ! i) (MulFast a val)) q mu"
  have "0 < uint q" using a uint_ge_0 [of a] by linarith
  then have vq: "uint val < uint q" using IH(2) by simp
  then have e: "Mod_mu (AddFast (MulFast val a) (d ! i)) q mu = v"
    unfolding v_def using Suc.prems by (intro synthetic_step(2) [OF q a]) (simp_all add: d)
  have "uint v = (uint (d ! i) + uint a * uint val) mod uint q"
    unfolding v_def using Suc.prems vq by (intro synthetic_step [OF q a]) (simp_all add: d)
  also have "\<dots> = ?h i mod uint q"
    unfolding IH using Suc.hyps(2) by (intro horner_step_mod) simp
  finally have v: "uint v = ?h i mod uint q" .
  have "fold ?f (rev [i..<n]) (d ! n, (replicate n 0)[n - 1 := d ! n]) = (v, result[i - 1 := v])"
    using Suc.hyps(2) IH(1) e by (simp add: upt_conv_Cons)
  moreover have "\<forall>j. i \<le> Suc j \<and> j < n \<longrightarrow> uint (result[i - 1 := v] ! j) = ?h (Suc j) mod uint q"
  proof (intro allI impI)
    fix j assume j: "i \<le> Suc j \<and> j < n"
    show "uint (result[i - 1 := v] ! j) = ?h (Suc j) mod uint q"
    proof (cases "j = i - 1")
      case True
      then show ?thesis using v j IH(3) Suc.prems by simp
    next
      case False
      then have "Suc i \<le> Suc j" using j by linarith
      then show ?thesis using IH(4) j False by simp
    qed
  qed
  ultimately show ?case using v IH(3) by simp
qed

lemma synthetic_division:
  fixes a :: "'a::len word" and v :: "'a nvec"
  assumes q: "barrett_modulus q" "uint q * uint q \<le> 2 ^ LENGTH('a)" and a: "uint a < uint q"
    and v: "\<forall>x\<in>set (m_data v). uint x < uint q" "length (m_data v) = Suc n" "0 < n"
  defines "D \<equiv> \<lambda>i. uint (m_data v ! i)"
  shows "\<exists>quo r. SyntheticPolynomialDivision v a q = Inr quo \<and> SyntheticRemainder v a q = Inr r
    \<and> m_modulus quo = q \<and> length (m_data quo) = n \<and> uint r = (\<Sum>i\<le>n. D i * uint a ^ i) mod uint q
    \<and> (\<forall>i\<le>n. D i = ((if i = 0 then uint r else uint (m_data quo ! (i - 1)))
         - uint a * (if i < n then uint (m_data quo ! i) else 0)) mod uint q)"
proof -
  obtain mu where mu: "ComputeMu q = Inr mu" using ComputeMu_mu_of [OF q(1)] by blast
  have d: "uint (m_data v ! i) < uint q" if "i \<le> n" for i using v that by simp
  define r where "r = fold (\<lambda>i val. Mod_mu (AddFast (m_data v ! i) (MulFast a val)) q mu) (rev [0..<n]) (m_data v ! n)"
  have r: "uint r = horner D (uint a) n 0 mod uint q"
    unfolding r_def D_def by (rule remainder_loop [OF q(1) mu q(2) a d]) simp_all
  have R: "SyntheticRemainder v a q = Inr r" using v(2) mu by (auto simp: SyntheticRemainder_def Let_def r_def)
  obtain val result where f: "fold (\<lambda>i (val, result). let val = Mod_mu (AddFast (MulFast val a) (m_data v ! i)) q mu in (val, result[i - 1 := val]))
      (rev [1..<n]) (m_data v ! n, (replicate n 0)[n - 1 := m_data v ! n]) = (val, result)" "length result = n"
    "\<forall>j. 1 \<le> Suc j \<and> j < n \<longrightarrow> uint (result ! j) = horner D (uint a) n (Suc j) mod uint q"
    using division_loop [OF q(1) mu q(2) a d, of n 1] v(3) unfolding D_def by auto
  have Q: "SyntheticPolynomialDivision v a q = Inr \<lparr> m_modulus = q, m_data = result \<rparr>"
    using v(2,3) mu f(1) by (simp add: SyntheticPolynomialDivision_def Let_def)
  have "D i = ((if i = 0 then uint r else uint (result ! (i - 1))) - uint a * (if i < n then uint (result ! i) else 0)) mod uint q"
    if "i \<le> n" for i
  proof -
    have hd: "(if i = 0 then uint r else uint (result ! (i - 1))) = horner D (uint a) n i mod uint q"
      using that f(3) r by auto
    show ?thesis
    proof (cases "i < n")
      case True
      have "(horner D (uint a) n i mod uint q - uint a * (horner D (uint a) n (Suc i) mod uint q)) mod uint q
          = (horner D (uint a) n i - uint a * horner D (uint a) n (Suc i)) mod uint q"
        by (simp only: mod_diff_left_eq) (metis mod_diff_right_eq mod_mult_right_eq)
      also have "\<dots> = D i" using horner_step [OF True, of D] d that by (simp add: D_def)
      finally show ?thesis using True f(3) hd by simp
    next
      case False
      then show ?thesis using hd that d [of n] by (simp add: horner_last D_def)
    qed
  qed
  moreover have "horner D (uint a) n 0 = (\<Sum>i\<le>n. D i * uint a ^ i)" by (simp add: horner_def atMost_atLeast0)
  ultimately show ?thesis using Q R f(2) r by simp
qed

section \<open>Cyclotomic polynomials of powers of two\<close>

definition binom :: "nat \<Rightarrow> int \<Rightarrow> int list" where
  "binom n c = (replicate (Suc n) 0)[0 := c, n := 1]"

lemma binom_nth: "0 < n \<Longrightarrow> i \<le> n \<Longrightarrow> binom n c ! i = (if i = 0 then c else if i = n then 1 else 0)"
  by (auto simp: binom_def nth_list_update nth_replicate simp del: replicate_Suc)

lemma length_binom [simp]: "length (binom n c) = Suc n"
  by (simp add: binom_def del: replicate_Suc)

lemma dvd_power_two: "(i :: nat) dvd 2 ^ n \<longleftrightarrow> (\<exists>j\<le>n. i = 2 ^ j)"
proof (induction n arbitrary: i)
  case (Suc n)
  show ?case
  proof
    assume i: "i dvd 2 ^ Suc n"
    show "\<exists>j\<le>Suc n. i = 2 ^ j"
    proof (cases "even i")
      case True
      then obtain h where "i = 2 * h" by blast
      then have "h dvd 2 ^ n" using i by simp
      then obtain j where "j \<le> n" "h = 2 ^ j" using Suc by blast
      then show ?thesis using \<open>i = 2 * h\<close> by (intro exI [of _ "Suc j"]) simp
    next
      case False
      then have "coprime i (2 ^ Suc n)" by simp
      then have "i = 1" using i by (metis coprime_absorb_left nat_dvd_1_iff_1)
      then show ?thesis by (intro exI [of _ 0]) simp
    qed
  qed (auto simp del: power_Suc intro: le_imp_power_dvd)
qed simp

lemma GetDivisibleNumbers_power_two: "GetDivisibleNumbers (2 ^ Suc k) = map ((^) 2) [0..<Suc k]"
proof (rule sorted_distinct_set_unique)
  show "sorted (GetDivisibleNumbers (2 ^ Suc k))" "distinct (GetDivisibleNumbers (2 ^ Suc k))"
    by (simp_all add: GetDivisibleNumbers_def sorted_wrt_filter sorted_wrt_upt)
  show "sorted (map ((^) (2 :: nat)) [0..<Suc k])" by (simp add: sorted_iff_nth_mono del: upt_Suc)
  show "distinct (map ((^) (2 :: nat)) [0..<Suc k])" by (simp add: distinct_map inj_on_def del: upt_Suc)
  have "i \<in> set (GetDivisibleNumbers (2 ^ Suc k)) \<longleftrightarrow> (\<exists>j\<le>k. i = 2 ^ j)" for i
  proof -
    have "i \<in> set (GetDivisibleNumbers (2 ^ Suc k)) \<longleftrightarrow> (\<exists>j\<le>Suc k. i = 2 ^ j) \<and> 1 \<le> i \<and> i < 2 ^ Suc k"
      by (auto simp: GetDivisibleNumbers_def dvd_eq_mod_eq_0 [symmetric] dvd_power_two simp del: power_Suc)
    also have "\<dots> \<longleftrightarrow> (\<exists>j\<le>k. i = 2 ^ j)"
      by (auto simp: less_Suc_eq_le simp del: power_Suc intro: le_SucI)
    finally show ?thesis .
  qed
  then show "set (GetDivisibleNumbers (2 ^ Suc k)) = set (map ((^) 2) [0..<Suc k])"
    by (auto simp: less_Suc_eq_le image_iff simp del: power_Suc upt_Suc)
qed

text \<open>A row of the schoolbook product, and its effect for a zero coefficient.\<close>

lemma inS_small: "\<bar>x\<bar> < 2 ^ 31 \<Longrightarrow> inS 32 x = Inr x"
  by (auto simp: inS_def)

lemma PolyMult_row:
  assumes "\<And>j. j < J \<Longrightarrow> \<bar>c * b ! j\<bar> < 2 ^ 31 \<and> \<bar>p ! (i + j) + c * b ! j\<bar> < 2 ^ 31" "i + J \<le> length p"
  shows "foldR (\<lambda>j product. bindR (inS 32 (c * b ! j)) (\<lambda>p. bindR (inS 32 (product ! (i + j) + p)) (\<lambda>v.
      Inr (product[i + j := v])))) [0..<J] p
    = Inr (map (\<lambda>t. p ! t + (if i \<le> t \<and> t < i + J then c * b ! (t - i) else 0)) [0..<length p])"
  using assms
proof (induction J)
  case 0
  have "map (\<lambda>t. p ! t + (if i \<le> t \<and> t < i + 0 then c * b ! (t - i) else 0)) [0..<length p] = p"
    by (rule nth_equalityI) auto
  then show ?case by simp
next
  case (Suc J)
  let ?q = "map (\<lambda>t. p ! t + (if i \<le> t \<and> t < i + J then c * b ! (t - i) else 0)) [0..<length p]"
  have "?q ! (i + J) = p ! (i + J)" using Suc.prems(2) by simp
  moreover have "\<bar>c * b ! J\<bar> < 2 ^ 31" "\<bar>p ! (i + J) + c * b ! J\<bar> < 2 ^ 31" using Suc.prems(1) [of J] by simp_all
  moreover have "?q[i + J := p ! (i + J) + c * b ! J]
      = map (\<lambda>t. p ! t + (if i \<le> t \<and> t < i + Suc J then c * b ! (t - i) else 0)) [0..<length p]"
    using Suc.prems(2) by (intro nth_equalityI) (auto simp: nth_list_update)
  ultimately show ?case
    using Suc by (simp add: foldR_append inS_small del: upt_Suc add: upt_Suc_append)
qed

lemma PolyMult_zero_row:
  assumes "\<And>x. x \<in> set p \<Longrightarrow> \<bar>x\<bar> < 2 ^ 31" "i + J \<le> length p"
  shows "foldR (\<lambda>j product. bindR (inS 32 (0 * b ! j)) (\<lambda>p. bindR (inS 32 (product ! (i + j) + p)) (\<lambda>v.
      Inr (product[i + j := v])))) [0..<J] p = Inr p"
proof -
  have "map (\<lambda>t. p ! t + (if i \<le> t \<and> t < i + J then 0 * b ! (t - i) else 0)) [0..<length p] = p"
    by (rule nth_equalityI) auto
  then show ?thesis using assms by (subst PolyMult_row) auto
qed

lemma foldR_fixed: "(\<And>x. x \<in> set xs \<Longrightarrow> f x s = Inr s) \<Longrightarrow> foldR f xs s = Inr s"
  by (induction xs) simp_all

text \<open>\<open>(X ^ n - 1) * (X ^ n + 1) = X ^ (2 * n) - 1\<close>, without overflow.\<close>

lemma PolyMult_binom:
  assumes n: "0 < n"
  shows "PolyMult (binom n (- 1)) (binom n 1) = Inr (binom (2 * n) (- 1))"
proof -
  let ?a = "binom n (- 1)" and ?b = "binom n 1"
  let ?row = "\<lambda>i. foldR (\<lambda>j product. bindR (inS 32 (?a ! i * ?b ! j)) (\<lambda>p. bindR (inS 32 (product ! (i + j) + p)) (\<lambda>v.
      Inr (product[i + j := v])))) [0..<Suc n]"
  let ?p1 = "map (\<lambda>t. if t = 0 \<or> t = n then - 1 else 0) [0..<2 * n + 1] :: int list"
  have b1: "\<bar>?b ! j\<bar> \<le> 1" if "j < Suc n" for j using that n by (simp add: binom_nth)
  have "?row 0 (replicate (2 * n + 1) 0) = Inr (map (\<lambda>t. replicate (2 * n + 1) 0 ! t + (if 0 \<le> t \<and> t < 0 + Suc n then ?a ! 0 * ?b ! (t - 0) else 0))
      [0..<length (replicate (2 * n + 1) (0 :: int))])"
  proof (rule PolyMult_row)
    show "\<bar>?a ! 0 * ?b ! j\<bar> < 2 ^ 31 \<and> \<bar>replicate (2 * n + 1) 0 ! (0 + j) + ?a ! 0 * ?b ! j\<bar> < 2 ^ 31" if "j < Suc n" for j
      using b1 [OF that] that n by (simp add: binom_nth nth_replicate del: replicate_Suc)
  qed simp
  also have "map (\<lambda>t. replicate (2 * n + 1) 0 ! t + (if 0 \<le> t \<and> t < 0 + Suc n then ?a ! 0 * ?b ! (t - 0) else 0))
      [0..<length (replicate (2 * n + 1) (0 :: int))] = ?p1"
    using n by (intro nth_equalityI) (auto simp: binom_nth nth_replicate simp del: replicate_Suc upt_Suc)
  finally have r0: "?row 0 (replicate (2 * n + 1) 0) = Inr ?p1" .
  have rm: "foldR ?row [1..<n] ?p1 = Inr ?p1"
  proof (rule foldR_fixed)
    fix i assume "i \<in> set [1..<n]"
    then have i: "i + Suc n \<le> length ?p1" "?a ! i = 0" using n by (auto simp: binom_nth)
    have "\<bar>x\<bar> < 2 ^ 31" if "x \<in> set ?p1" for x using that by (auto simp del: upt_Suc)
    from PolyMult_zero_row [OF this i(1)] show "?row i ?p1 = Inr ?p1" unfolding i(2) .
  qed
  have "?row n ?p1 = Inr (map (\<lambda>t. ?p1 ! t + (if n \<le> t \<and> t < n + Suc n then ?a ! n * ?b ! (t - n) else 0)) [0..<length ?p1])"
  proof (rule PolyMult_row)
    show "\<bar>?a ! n * ?b ! j\<bar> < 2 ^ 31 \<and> \<bar>?p1 ! (n + j) + ?a ! n * ?b ! j\<bar> < 2 ^ 31" if "j < Suc n" for j
      using b1 [OF that] that n by (auto simp: binom_nth simp del: upt_Suc)
  qed simp
  also have "map (\<lambda>t. ?p1 ! t + (if n \<le> t \<and> t < n + Suc n then ?a ! n * ?b ! (t - n) else 0)) [0..<length ?p1] = binom (2 * n) (- 1)"
    using n by (intro nth_equalityI) (auto simp: binom_nth simp del: upt_Suc)
  finally have rn: "?row n ?p1 = Inr (binom (2 * n) (- 1))" .
  have u: "[0..<Suc n] = 0 # [1..<n] @ [n]" using n by (simp add: upt_conv_Cons)
  have "PolyMult ?a ?b = foldR ?row (0 # [1..<n] @ [n]) (replicate (2 * n + 1) 0)"
    unfolding PolyMult_def length_binom u [symmetric] by (simp add: mult_2)
  then show ?thesis using r0 rm rn by (simp add: foldR_append)
qed

text \<open>A run of the inner loop of the division moves the running dividend up by one place.\<close>

lemma PolyQuotient_shift:
  assumes dl: "length R = dl" "length dvs \<le> dl" "0 < length dvs" and J: "J < dl"
    and b: "\<And>k. dl + 1 - length dvs \<le> k \<Longrightarrow> k < dl \<Longrightarrow>
      \<bar>dvs ! (k + length dvs - dl - 1) * c\<bar> < 2 ^ 31 \<and> \<bar>R ! (k - 1) - dvs ! (k + length dvs - dl - 1) * c\<bar> < 2 ^ 31"
  shows "foldR (PolyQuotient_step dvs c dl) [0..<J] R = Inr (map (\<lambda>k. if dl - J \<le> k
      then R ! (k - 1) - (if dl + 1 - length dvs \<le> k then dvs ! (k + length dvs - dl - 1) * c else 0) else R ! k) [0..<dl])"
  using J
proof (induction J)
  case 0
  have "map (\<lambda>k. if dl - 0 \<le> k then R ! (k - 1) - (if dl + 1 - length dvs \<le> k then dvs ! (k + length dvs - dl - 1) * c else 0)
      else R ! k) [0..<dl] = R"
    using dl(1) by (intro nth_equalityI) auto
  then show ?case by simp
next
  case (Suc J)
  let ?f = "\<lambda>J. map (\<lambda>k. if dl - J \<le> k
      then R ! (k - 1) - (if dl + 1 - length dvs \<le> k then dvs ! (k + length dvs - dl - 1) * c else 0) else R ! k) [0..<dl]"
  let ?k = "dl - 1 - J"
  have k: "?k < dl" "0 < ?k" "dl - 2 - J = ?k - 1" using Suc.prems by auto
  have rd: "?f J ! (dl - 2 - J) = R ! (?k - 1)" using k Suc.prems by auto
  have "(length dvs - 1 > J) = (dl + 1 - length dvs \<le> ?k)" using dl Suc.prems by linarith
  moreover have "length dvs - 1 - 1 - J = ?k + length dvs - dl - 1" if "length dvs - 1 > J" using that dl Suc.prems by linarith
  ultimately have "PolyQuotient_step dvs c dl J (?f J) = Inr ((?f J)[?k := R ! (?k - 1)
      - (if dl + 1 - length dvs \<le> ?k then dvs ! (?k + length dvs - dl - 1) * c else 0)])"
    unfolding PolyQuotient_step_def Let_def rd using b [of ?k] k(1) by (auto simp: inS_small)
  also have "(?f J)[?k := R ! (?k - 1) - (if dl + 1 - length dvs \<le> ?k then dvs ! (?k + length dvs - dl - 1) * c else 0)] = ?f (Suc J)"
  proof (rule nth_equalityI)
    fix t assume "t < length ((?f J)[?k := R ! (?k - 1) - (if dl + 1 - length dvs \<le> ?k then dvs ! (?k + length dvs - dl - 1) * c else 0)])"
    then have t: "t < dl" by simp
    show "(?f J)[?k := R ! (?k - 1) - (if dl + 1 - length dvs \<le> ?k then dvs ! (?k + length dvs - dl - 1) * c else 0)] ! t = ?f (Suc J) ! t"
    proof (cases "t = ?k")
      case True
      then show ?thesis using k by simp
    next
      case False
      then have "(dl - J \<le> t) = (dl - Suc J \<le> t)" using Suc.prems by linarith
      then show ?thesis using False t by simp
    qed
  qed simp
  finally show ?case using Suc by (simp add: foldR_append)
qed

text \<open>\<open>(X ^ (2 * n) - 1) / (X ^ n - 1) = X ^ n + 1\<close>: after \<open>i\<close> rounds the running dividend is \<open>X ^ i * (X ^ n - 1)\<close>.\<close>

definition quo_state :: "nat \<Rightarrow> nat \<Rightarrow> int list \<times> int list \<Rightarrow> bool" where
  "quo_state n i s \<longleftrightarrow> fst s = (replicate (n + 2) 0)[n := if i = n then 1 else 0] \<and> length (snd s) = 2 * n + 1
     \<and> (\<forall>k. i \<le> k \<and> k \<le> 2 * n \<longrightarrow> snd s ! k = (if k = i then - 1 else if k = n + i then 1 else 0))"

definition quo_round :: "nat \<Rightarrow> nat \<Rightarrow> int list \<times> int list \<Rightarrow> (int list \<times> int list) result" where
  "quo_round n i = (\<lambda>(quotient, running).
     bindR (foldR (PolyQuotient_step (binom n (- 1)) (running ! (2 * n)) (2 * n + 1)) [0..<2 * n - i] running) (\<lambda>running.
     Inr (quotient[i + 1 := running ! (2 * n)], running)))"

lemma quo_round_shift:
  assumes n: "0 < n" "i \<le> n" and R: "length R = 2 * n + 1" "\<bar>R ! (2 * n)\<bar> \<le> 1" "\<And>k. n \<le> k \<Longrightarrow> k < 2 * n \<Longrightarrow> \<bar>R ! k\<bar> \<le> 1"
  shows "\<exists>R'. quo_round n i (Q, R) = Inr (Q[i + 1 := R' ! (2 * n)], R') \<and> length R' = 2 * n + 1
    \<and> (\<forall>k. i < k \<and> k \<le> 2 * n \<longrightarrow> R' ! k = R ! (k - 1) + (if k = n + 1 then R ! (2 * n) else 0))"
proof -
  let ?d = "binom n (- 1)" and ?c = "R ! (2 * n)"
  define R' where "R' = map (\<lambda>k. if 2 * n + 1 - (2 * n - i) \<le> k
      then R ! (k - 1) - (if 2 * n + 1 + 1 - length ?d \<le> k then ?d ! (k + length ?d - (2 * n + 1) - 1) * ?c else 0) else R ! k) [0..<2 * n + 1]"
  have d: "?d ! (k + length ?d - (2 * n + 1) - 1) = (if k = n + 1 then - 1 else 0)" if "n + 1 \<le> k" "k \<le> 2 * n" for k
    using that n by (auto simp: binom_nth)
  have "foldR (PolyQuotient_step ?d ?c (2 * n + 1)) [0..<2 * n - i] R = Inr R'"
    unfolding R'_def
  proof (rule PolyQuotient_shift)
    fix k assume k: "2 * n + 1 + 1 - length ?d \<le> k" "k < 2 * n + 1"
    then have kn: "n + 1 \<le> k" "k \<le> 2 * n" by simp_all
    have "n \<le> k - 1" "k - 1 < 2 * n" using kn by simp_all
    note R(3) [OF this]
    then show "\<bar>?d ! (k + length ?d - (2 * n + 1) - 1) * ?c\<bar> < 2 ^ 31
        \<and> \<bar>R ! (k - 1) - ?d ! (k + length ?d - (2 * n + 1) - 1) * ?c\<bar> < 2 ^ 31"
      unfolding d [OF kn] using R(2) by (cases "k = n + 1") auto
  qed (use n R in simp_all)
  then have "quo_round n i (Q, R) = Inr (Q[i + 1 := R' ! (2 * n)], R')" by (simp add: quo_round_def)
  moreover have "R' ! k = R ! (k - 1) + (if k = n + 1 then ?c else 0)" if "i < k" "k \<le> 2 * n" for k
  proof -
    have "R' ! k = R ! (k - 1) - (if 2 * n + 1 + 1 - length ?d \<le> k then ?d ! (k + length ?d - (2 * n + 1) - 1) * ?c else 0)"
      using that n by (simp add: R'_def del: upt_Suc)
    then show ?thesis using that d [of k] by (cases "n + 1 \<le> k") auto
  qed
  moreover have "length R' = 2 * n + 1" by (simp add: R'_def del: upt_Suc)
  ultimately show ?thesis by blast
qed

lemma quo_round_first:
  assumes n: "0 < n"
  shows "\<exists>s. quo_round n 0 (replicate (n + 2) 0, binom (2 * n) (- 1)) = Inr s \<and> quo_state n 1 s"
proof -
  let ?R = "binom (2 * n) (- 1)"
  obtain R' where R': "quo_round n 0 (replicate (n + 2) 0, ?R) = Inr ((replicate (n + 2) 0)[0 + 1 := R' ! (2 * n)], R')" "length R' = 2 * n + 1"
    "\<And>k. 0 < k \<Longrightarrow> k \<le> 2 * n \<Longrightarrow> R' ! k = ?R ! (k - 1) + (if k = n + 1 then ?R ! (2 * n) else 0)"
  proof -
    have "\<bar>?R ! k\<bar> \<le> 1" if "k \<le> 2 * n" for k using that n by (simp add: binom_nth)
    then show ?thesis using quo_round_shift [of n 0 ?R "replicate (n + 2) 0"] n that by (auto simp del: replicate_Suc)
  qed
  have r: "R' ! k = (if k = 1 then - 1 else if k = n + 1 then 1 else 0)" if "1 \<le> k" "k \<le> 2 * n" for k
    using R'(3) [of k] that n by (auto simp: binom_nth)
  have "(replicate (n + 2) 0)[0 + 1 := R' ! (2 * n)] = (replicate (n + 2) 0)[n := if 1 = n then 1 else (0 :: int)]"
    using r [of "2 * n"] n by (intro nth_equalityI) (auto simp: nth_list_update nth_replicate simp del: replicate_Suc)
  then show ?thesis using R'(1,2) r by (auto simp: quo_state_def)
qed

lemma quo_round_next:
  assumes n: "0 < i" "i < n" and s: "quo_state n i s"
  shows "\<exists>s'. quo_round n i s = Inr s' \<and> quo_state n (Suc i) s'"
proof -
  obtain Q R where QR: "s = (Q, R)" by force
  note S = s [unfolded quo_state_def QR fst_conv snd_conv]
  have c: "R ! (2 * n) = 0" using S n by auto
  have b: "\<bar>R ! k\<bar> \<le> 1" if "n \<le> k" "k < 2 * n" for k using S n that by auto
  have "0 < n" "i \<le> n" "length R = 2 * n + 1" "\<bar>R ! (2 * n)\<bar> \<le> 1" using n S c by auto
  from quo_round_shift [OF this b] obtain R' where R': "quo_round n i (Q, R) = Inr (Q[i + 1 := R' ! (2 * n)], R')" "length R' = 2 * n + 1"
    "\<forall>k. i < k \<and> k \<le> 2 * n \<longrightarrow> R' ! k = R ! (k - 1) + (if k = n + 1 then R ! (2 * n) else 0)"
    by blast
  have r: "R' ! k = (if k = Suc i then - 1 else if k = n + Suc i then 1 else 0)" if "Suc i \<le> k" "k \<le> 2 * n" for k
  proof -
    have "R' ! k = R ! (k - 1)" using R'(3) that c by simp
    moreover have "R ! (k - 1) = (if k - 1 = i then - 1 else if k - 1 = n + i then 1 else 0)"
    proof -
      have "i \<le> k - 1" "k - 1 \<le> 2 * n" using that by linarith+
      then show ?thesis using S by blast
    qed
    ultimately show ?thesis using that by auto
  qed
  have "Q[i + 1 := R' ! (2 * n)] = (replicate (n + 2) 0)[n := if Suc i = n then 1 else 0]"
    using r [of "2 * n"] S n by (intro nth_equalityI) (auto simp: nth_list_update nth_replicate simp del: replicate_Suc)
  then show ?thesis using R'(1,2) r by (auto simp: quo_state_def QR)
qed

lemma quo_rounds:
  assumes n: "0 < n"
  shows "\<exists>s. foldR (quo_round n) [0..<n] (replicate (n + 2) 0, binom (2 * n) (- 1)) = Inr s \<and> quo_state n n s"
proof -
  have "\<exists>s. foldR (quo_round n) [0..<Suc i] (replicate (n + 2) 0, binom (2 * n) (- 1)) = Inr s \<and> quo_state n (Suc i) s" if "i < n" for i
    using that
  proof (induction i)
    case 0
    then show ?case using quo_round_first [OF n] by auto
  next
    case (Suc i)
    then obtain s where s: "foldR (quo_round n) [0..<Suc i] (replicate (n + 2) 0, binom (2 * n) (- 1)) = Inr s" "quo_state n (Suc i) s"
      by auto
    obtain s' where "quo_round n (Suc i) s = Inr s'" "quo_state n (Suc (Suc i)) s'"
      using quo_round_next [OF _ Suc.prems s(2)] by auto
    moreover have "[0..<Suc (Suc i)] = [0..<Suc i] @ [Suc i]" by simp
    ultimately show ?case by (simp only: foldR_append s(1) bindR_simps foldR.simps) (metis bindR_simps(2))
  qed
  from this [of "n - 1"] n show ?thesis by simp
qed

lemma PolyQuotient_binom:
  assumes n: "0 < n"
  shows "PolyQuotient (binom (2 * n) (- 1)) (binom n (- 1)) = Inr (binom n 1)"
proof -
  obtain Q R where s: "foldR (quo_round n) [0..<n] (replicate (n + 2) 0, binom (2 * n) (- 1)) = Inr (Q, R)" "quo_state n n (Q, R)"
    using quo_rounds [OF n] by (metis surj_pair)
  note S = s(2) [unfolded quo_state_def fst_conv snd_conv]
  have b: "\<bar>R ! k\<bar> \<le> 1" if "n \<le> k" "k < 2 * n" for k using S n that by auto
  have "length R = 2 * n + 1" "\<bar>R ! (2 * n)\<bar> \<le> 1" using n S by auto
  from quo_round_shift [OF n order_refl this b] obtain R' where "quo_round n n (Q, R) = Inr (Q[n + 1 := R' ! (2 * n)], R')"
    by blast
  then have f: "foldR (quo_round n) [0..<n + 1] (replicate (n + 2) 0, binom (2 * n) (- 1)) = Inr (Q[n + 1 := R' ! (2 * n)], R')"
    using s(1) by (simp add: foldR_append)
  have "butlast ((Q[n + 1 := R' ! (2 * n)])[0 := 1]) = binom n 1"
    using S n by (intro nth_equalityI) (auto simp: nth_butlast binom_nth nth_list_update nth_replicate simp del: replicate_Suc)
  then show ?thesis
    using f unfolding PolyQuotient_def length_binom Let_def quo_round_def
    by (simp add: mult_2 del: upt_Suc)
qed

lemma cyclotomic_product:
  assumes "\<And>j. j < k \<Longrightarrow> GetCyclotomicPolynomialRecursive (2 ^ Suc j) = Inr (binom (2 ^ j) 1)"
  shows "foldR (\<lambda>d product. bindR (GetCyclotomicPolynomialRecursive d) (PolyMult product)) (map ((^) 2) [0..<Suc k]) [1]
    = Inr (binom (2 ^ k) (- 1))"
  using assms
proof (induction k)
  case 0
  have "PolyMult [1] [- 1, 1] = Inr (binom 1 (- 1))" by code_simp
  moreover have "GetCyclotomicPolynomialRecursive 1 = Inr [- 1, 1]"
    by (subst GetCyclotomicPolynomialRecursive.simps) simp
  ultimately show ?case by simp
next
  case (Suc k)
  have u: "map ((^) (2 :: nat)) [0..<Suc (Suc k)] = map ((^) 2) [0..<Suc k] @ [2 ^ Suc k]" by simp
  show ?case
    unfolding u foldR_append using Suc PolyMult_binom [of "2 ^ k"] by (simp del: power_Suc upt_Suc add: power_Suc [symmetric])
qed

lemma cyclotomic_power_two: "GetCyclotomicPolynomialRecursive (2 ^ Suc k) = Inr (binom (2 ^ k) 1)"
proof (induction k rule: less_induct)
  case (less k)
  show ?case
  proof (cases "k = 0")
    case True
    have "binom 1 1 = [1, 1]" by code_simp
    then show ?thesis using True by (simp add: GetCyclotomicPolynomialRecursive.simps [of 2])
  next
    case False
    then have m: "(2 :: nat) ^ Suc k \<noteq> 1" "(2 :: nat) ^ Suc k \<noteq> 2" "\<not> IsPrime (2 ^ Suc k)"
      by (auto simp: IsPrime_def)
    have b: "(replicate (2 ^ Suc k + 1) 0)[0 := - 1, 2 ^ Suc k := 1] = binom (2 * 2 ^ k) (- 1)"
      by (simp add: binom_def del: replicate_Suc)
    show ?thesis
      unfolding GetCyclotomicPolynomialRecursive.simps [of "2 ^ Suc k"] GetDivisibleNumbers_power_two b
      using m cyclotomic_product [OF less] PolyQuotient_binom [of "2 ^ k"] by simp
  qed
qed

text \<open>
  With a modulus of 60 bits the plain product wraps around: the value at \<open>- 1\<close> of the polynomial \<open>- X\<close> is not
  one.
\<close>

lemma SyntheticRemainder_wraps:
  defines "q \<equiv> 1152921504606830593 :: 64 word"
  shows "SyntheticRemainder \<lparr> m_modulus = q, m_data = [0, q - 1] \<rparr> (q - 1) q \<noteq> Inr 1
    \<and> (uint (q - 1) * uint (q - 1)) mod uint q = 1"
  unfolding q_def by code_simp

section \<open>Properties\<close>

text \<open>C16.  Synthetic division by \<open>X - a\<close>, for residues of a modulus whose square fits the word: the remainder
  is the value of the polynomial at \<open>a\<close>, and quotient and remainder satisfy \<open>D = (X - a) * Q + r\<close> in every
  coefficient.\<close>

theorem Synthetic_division_exact:
  fixes a :: "'a::len word" and v :: "'a nvec"
  assumes "barrett_modulus q" "uint q * uint q \<le> 2 ^ LENGTH('a)" "uint a < uint q"
    and "\<forall>x\<in>set (m_data v). uint x < uint q" "length (m_data v) = Suc n" "0 < n"
  shows "\<exists>quo r. SyntheticPolynomialDivision v a q = Inr quo \<and> SyntheticRemainder v a q = Inr r
    \<and> m_modulus quo = q \<and> length (m_data quo) = n
    \<and> uint r = (\<Sum>i\<le>n. uint (m_data v ! i) * uint a ^ i) mod uint q
    \<and> (\<forall>i\<le>n. uint (m_data v ! i) = ((if i = 0 then uint r else uint (m_data quo ! (i - 1)))
         - uint a * (if i < n then uint (m_data quo ! i) else 0)) mod uint q)"
  using assms by (rule synthetic_division)

definition cubic :: "32 nvec" where
  "cubic = \<lparr> m_modulus = 17, m_data = [5, 0, 16, 3] \<rparr>"

theorem Synthetic_division_exact_witness:
  "\<exists>quo r. SyntheticPolynomialDivision cubic 4 17 = Inr quo \<and> SyntheticRemainder cubic 4 17 = Inr r
    \<and> m_modulus quo = 17 \<and> length (m_data quo) = 3
    \<and> uint r = (\<Sum>i\<le>3. uint (m_data cubic ! i) * uint (4 :: 32 word) ^ i) mod uint (17 :: 32 word)
    \<and> (\<forall>i\<le>3. uint (m_data cubic ! i) = ((if i = 0 then uint r else uint (m_data quo ! (i - 1)))
         - uint (4 :: 32 word) * (if i < 3 then uint (m_data quo ! i) else 0)) mod uint (17 :: 32 word))"
proof (rule Synthetic_division_exact)
  show "barrett_modulus (17 :: 32 word)" by code_simp
qed (simp_all add: cubic_def)

text \<open>C15.  The cyclotomic polynomial of a power of two, the ring of the schemes: the recursion over the divisors,
  the product and the long division end without overflow of an \<^verbatim>\<open>int\<close> and give \<open>X ^ n + 1\<close> for the order
  \<open>2 * n\<close>, for every power of two of the type \<^verbatim>\<open>usint\<close>.\<close>

theorem GetCyclotomicPolynomial_power_two:
  assumes "k < 31"
  shows "GetCyclotomicPolynomial (2 ^ Suc k) (q :: 'a::len word)
    = Inr \<lparr> m_modulus = q, m_data = (replicate (2 ^ k + 1) 0)[0 := 1, 2 ^ k := 1] \<rparr>"
proof -
  have "map (\<lambda>val. if val > - 1 then word_of_int val else SubFast q (word_of_int (- val))) (binom (2 ^ k) 1)
      = (replicate (2 ^ k + 1) 0)[0 := 1, 2 ^ k := 1]"
    by (simp add: binom_def map_update del: replicate_Suc)
  then show ?thesis by (simp only: GetCyclotomicPolynomial_def cyclotomic_power_two bindR_simps)
qed

theorem GetCyclotomicPolynomial_power_two_witness:
  "GetCyclotomicPolynomial (2 ^ Suc 2) (17 :: 32 word)
    = Inr \<lparr> m_modulus = 17, m_data = (replicate (2 ^ 2 + 1) 0)[0 := 1, 2 ^ 2 := 1] \<rparr>"
  by (rule GetCyclotomicPolynomial_power_two) simp

text \<open>C21.  The inverse on \<^verbatim>\<open>usint\<close>: for a unit the loop returns the Bezout coefficient modulo the word size, so a
  negative one is not brought into the range of the modulus; the inverse of 3 modulo 7 comes out as
  4294967294 instead of 5.  A number with a common factor makes the loop divide by zero.\<close>

theorem ModInverse_usint_behaviour:
  assumes "1 < uint b" "0 < uint a"
  shows "(if gcd (uint a) (uint b) = 1
      then \<exists>x. ModInverse_usint a b = Inr (word_of_int x) \<and> \<bar>x\<bar> < uint b \<and> x * uint a mod uint b = 1
      else ModInverse_usint a b = Inl undefined_behaviour)
    \<and> ModInverse_usint 3 7 = Inr 4294967294"
proof -
  have b: "b \<noteq> 1" using assms by auto
  have "mi_inv (uint a) (uint b) (uint a) (uint b) 1 0" using assms by (simp add: mi_inv_def)
  moreover have "uint b < 2 ^ (34 - 1)" using uint_lt_pow [of b] by simp
  ultimately have sp: "if gcd (uint a) (uint b) = 1
      then \<exists>x'. ModInverse_loop 34 (uint a) (uint b) 1 0 = Inr x' \<and> uint b dvd x' * uint a - 1 \<and> \<bar>x'\<bar> < uint b
      else ModInverse_loop 34 (uint a) (uint b) 1 0 = Inl undefined_behaviour"
    by (rule ModInverse_loop_spec)
  have "ModInverse_usint 3 7 = Inr 4294967294" by code_simp
  moreover have "ModInverse_usint a b = Inl undefined_behaviour" if "gcd (uint a) (uint b) \<noteq> 1"
    using that b assms by (simp add: ModInverse_usint_def ModInverse_usint_loop_fails)
  moreover have "\<exists>x. ModInverse_usint a b = Inr (word_of_int x) \<and> \<bar>x\<bar> < uint b \<and> x * uint a mod uint b = 1"
    if g: "gcd (uint a) (uint b) = 1"
  proof -
    obtain x where x: "ModInverse_loop 34 (uint a) (uint b) 1 0 = Inr x" "uint b dvd x * uint a - 1" "\<bar>x\<bar> < uint b"
      using sp g by auto
    have "x * uint a mod uint b = 1 mod uint b" using x(2) by (simp add: mod_eq_dvd_iff)
    then show ?thesis
      using x b assms ModInverse_usint_loop_eq [of 1 1 0 0 34 a b x] by (auto simp: ModInverse_usint_def)
  qed
  ultimately show ?thesis by simp
qed

theorem ModInverse_usint_behaviour_witness:
  "(if gcd (uint (5 :: 32 word)) (uint (7 :: 32 word)) = 1
      then \<exists>x. ModInverse_usint 5 7 = Inr (word_of_int x) \<and> \<bar>x\<bar> < uint (7 :: 32 word)
        \<and> x * uint (5 :: 32 word) mod uint (7 :: 32 word) = 1
      else ModInverse_usint 5 7 = Inl undefined_behaviour)
    \<and> ModInverse_usint 3 7 = Inr 4294967294"
  by (rule ModInverse_usint_behaviour) simp_all

end
