(* ===== verification/UnityRoots.thy ===== *)
theory UnityRoots
  imports Primality
begin

text \<open>
  Correctness of \<^verbatim>\<open>GreatestCommonDivisor\<close>, \<^verbatim>\<open>PollardRhoFactorization\<close> and \<^verbatim>\<open>RootOfUnity\<close>: Pollard's loop always
  ends, and the root of unity for a power of two is the least root of \<open>X ^ (m / 2) + 1\<close>, whatever the
  random generator yields.
\<close>

section \<open>Greatest common divisor\<close>

lemma uint_GreatestCommonDivisor:
  "uint (GreatestCommonDivisor a b) = gcd (uint a) (uint b)" for a b :: "'a::len word"
proof (induction a b rule: GreatestCommonDivisor.induct)
  case (1 a b)
  then show ?case
    using GreatestCommonDivisor.simps [of a b] gcd_red_int [of "uint a" "uint b"]
    by (cases "b = 0") (simp_all add: uint_mod_eq)
qed

section \<open>Pollard's loop ends\<close>

text \<open>Iterating a function on a finite type, the slow and the fast pointer meet.\<close>

lemma floyd_meets:
  fixes f :: "'b::finite \<Rightarrow> 'b"
  obtains k where "0 < k" "(f ^^ k) x = (f ^^ (2 * k)) x"
proof -
  have "finite (range (\<lambda>i :: nat. (f ^^ i) x))" by (rule finite)
  then have "\<not> inj (\<lambda>i :: nat. (f ^^ i) x)" using finite_imageD infinite_UNIV_nat by blast
  then obtain i j where ij: "i < j" "(f ^^ i) x = (f ^^ j) x"
    unfolding inj_def by (auto elim!: linorder_neqE_nat)
  have cyc: "(f ^^ (n + (j - i))) x = (f ^^ n) x" if "i \<le> n" for n
  proof -
    have "(f ^^ (n + (j - i))) x = (f ^^ (n - i)) ((f ^^ j) x)"
      using that ij(1) by (simp flip: funpow_add [unfolded o_def, THEN fun_cong])
    also have "\<dots> = (f ^^ n) x"
      using that by (simp flip: ij(2) add: funpow_add [unfolded o_def, THEN fun_cong, symmetric])
    finally show ?thesis .
  qed
  have "(f ^^ (n + t * (j - i))) x = (f ^^ n) x" if "i \<le> n" for n t
  proof (induction t)
    case (Suc t)
    then show ?case using cyc [of "n + t * (j - i)"] that by (simp only: mult_Suc add.assoc add.commute [of "j - i"])
  qed simp
  moreover have "Suc i * 1 \<le> Suc i * (j - i)" using ij(1) by (intro mult_le_mono) simp_all
  ultimately have "(f ^^ (Suc i * (j - i))) x = (f ^^ (2 * (Suc i * (j - i)))) x"
    by (simp only: mult_2 mult_1_right Suc_le_eq less_imp_le)
  then show ?thesis using ij(1) by (intro that [of "Suc i * (j - i)"]) auto
qed

lemma PollardRho_loop_ends:
  fixes n :: "'a::len word"
  assumes "n \<noteq> 1"
  shows "\<exists>d. PollardRho_loop n c mu x x = Some d \<and> d \<noteq> 1 \<and> uint d dvd uint n"
proof -
  define f where "f = (\<lambda>x. ModAdd_mu (ModMul_mu x x n mu) c n mu)"
  define e where "e x y = GreatestCommonDivisor (if x > y then x - y else y - x) n" for x y
  have unf: "PollardRho_loop n c mu y yy = (let d = e (f y) (f (f yy)) in
      if d = 1 then PollardRho_loop n c mu (f y) (f (f yy)) else Some d)" for y yy
    by (subst PollardRho_loop.simps) (simp add: f_def e_def Let_def)
  obtain k where k: "0 < k" "(f ^^ k) x = (f ^^ (2 * k)) x" by (rule floyd_meets)
  have meet: "e y y \<noteq> 1" for y
  proof -
    have "uint (e y y) = uint n" unfolding e_def uint_GreatestCommonDivisor by simp
    then show ?thesis using assms by (metis word_uint_eq_iff)
  qed
  have "\<exists>d. PollardRho_loop n c mu ((f ^^ i) x) ((f ^^ (2 * i)) x) = Some d \<and> d \<noteq> 1 \<and> uint d dvd uint n"
    if "i < k" for i
    using that
  proof (induction "k - i" arbitrary: i)
    case (Suc j)
    let ?d = "e ((f ^^ Suc i) x) ((f ^^ (2 * Suc i)) x)"
    have u: "PollardRho_loop n c mu ((f ^^ i) x) ((f ^^ (2 * i)) x) =
        (if ?d = 1 then PollardRho_loop n c mu ((f ^^ Suc i) x) ((f ^^ (2 * Suc i)) x) else Some ?d)"
      by (subst unf) (simp add: Let_def)
    show ?case
    proof (cases "?d = 1")
      case True
      then have "Suc i \<noteq> k" using k(2) meet by metis
      then have "\<exists>d. PollardRho_loop n c mu ((f ^^ Suc i) x) ((f ^^ (2 * Suc i)) x) = Some d \<and> d \<noteq> 1 \<and> uint d dvd uint n"
        using Suc by (intro Suc.hyps(1)) auto
      then show ?thesis unfolding u using True by (simp only: refl if_True)
    next
      case False
      have "uint ?d dvd uint n" unfolding e_def uint_GreatestCommonDivisor by simp
      then show ?thesis using u False by simp
    qed
  qed simp
  from this [of 0] k(1) show ?thesis by simp
qed

section \<open>Roots of minus one\<close>

definition neg_root :: "int \<Rightarrow> nat \<Rightarrow> int \<Rightarrow> bool" where
  "neg_root q h y \<longleftrightarrow> 0 \<le> y \<and> y < q \<and> y ^ h mod q = q - 1"

lemma square_eq_cases:
  assumes q: "prime_int q" and e: "(y * y) mod q = (z * z) mod q"
  shows "y mod q = z mod q \<or> y mod q = (- z) mod q"
proof -
  have "q dvd (y - z) * (y + z)" using e by (simp add: mod_eq_dvd_iff algebra_simps)
  then have "q dvd y - z \<or> q dvd y + z" by (simp add: prime_int_dvd_mult [OF q])
  then show ?thesis by (auto simp: mod_eq_dvd_iff)
qed

lemma minus_one_mod: "1 < q \<Longrightarrow> x mod q = q - 1 \<longleftrightarrow> x mod q = (- 1) mod (q :: int)"
  by (simp add: zmod_minus1)

lemma power_of_root:
  assumes q: "prime_int q"
  shows "r ^ 2 ^ j mod q = (- 1) mod q \<Longrightarrow> y ^ 2 ^ Suc j mod q = 1 mod q \<Longrightarrow> \<exists>e < 2 ^ Suc j. y mod q = r ^ e mod q"
proof (induction j arbitrary: r y)
  case 0
  then have "y mod q = 1 mod q \<or> y mod q = (- 1) mod q"
    by (intro square_eq_cases [OF q]) (simp add: power2_eq_square)
  then show ?case
  proof
    assume "y mod q = 1 mod q"
    then show ?thesis by (intro exI [of _ 0]) simp
  next
    assume "y mod q = (- 1) mod q"
    then show ?thesis using 0 by (intro exI [of _ 1]) simp
  qed
next
  case (Suc j)
  have "(r * r) ^ 2 ^ j mod q = (- 1) mod q" "(y * y) ^ 2 ^ Suc j mod q = 1 mod q"
    using Suc.prems by (simp_all add: power_mult [symmetric] power2_eq_square [symmetric])
  from Suc.IH [OF this] obtain e where e: "e < 2 ^ Suc j" "(y * y) mod q = (r * r) ^ e mod q" by blast
  then have "(y * y) mod q = (r ^ e * r ^ e) mod q" by (simp add: power_mult_distrib)
  then consider "y mod q = r ^ e mod q" | "y mod q = (- (r ^ e)) mod q" using square_eq_cases [OF q] by blast
  then show ?case
  proof cases
    case 1
    then show ?thesis using e(1) by (intro exI [of _ e]) simp
  next
    case 2
    have "(- (r ^ e)) mod q = (r ^ e * (- 1)) mod q" by simp
    also have "\<dots> = (r ^ e * r ^ 2 ^ Suc j) mod q" using Suc.prems(1) by (metis mod_mult_right_eq)
    finally show ?thesis using 2 e(1) by (intro exI [of _ "e + 2 ^ Suc j"]) (simp add: power_add)
  qed
qed

lemma neg_root_power:
  assumes q: "prime_int q" "2 < q" and r: "neg_root q (2 ^ j) r" and y: "neg_root q (2 ^ j) y"
  obtains e where "e < 2 ^ Suc j" "odd e" "y = r ^ e mod q"
proof -
  have rm: "r ^ 2 ^ j mod q = (- 1) mod q" and ym: "y ^ 2 ^ j mod q = (- 1) mod q"
    using r y q(2) minus_one_mod [of q] by (auto simp: neg_root_def)
  have "y ^ 2 ^ Suc j = (y ^ 2 ^ j) ^ 2" by (simp add: power_mult [symmetric] mult.commute)
  also have "\<dots> mod q = 1 mod q" using ym by (metis power_mod power2_minus one_power2)
  finally obtain e where e: "e < 2 ^ Suc j" "y mod q = r ^ e mod q" using power_of_root [OF q(1) rm] by blast
  have "odd e"
  proof
    assume "even e"
    then obtain f where f: "e = 2 * f" by blast
    have "y ^ 2 ^ j mod q = (r ^ e) ^ 2 ^ j mod q" using e(2) by (metis power_mod)
    also have "(r ^ e) ^ 2 ^ j = ((r ^ 2 ^ j) ^ 2) ^ f" by (simp add: f power_mult [symmetric] mult_ac)
    also have "\<dots> mod q = 1 mod q" using rm by (metis power_mod power2_minus one_power2 power_one)
    finally show False using ym q(2) by (simp add: zmod_minus1)
  qed
  then show ?thesis using e y by (intro that [of e]) (simp_all add: neg_root_def)
qed

lemma neg_root_odd_power:
  assumes q: "2 < q" and r: "neg_root q h r" and e: "odd e"
  shows "neg_root q h (r ^ e mod q)"
proof -
  have "(r ^ e mod q) ^ h mod q = (r ^ h) ^ e mod q" by (simp add: power_mod power_mult [symmetric] mult.commute)
  also have "\<dots> = (- 1) ^ e mod q" using r q minus_one_mod [of q] by (metis neg_root_def power_mod less_trans one_less_numeral_iff semiring_norm(76))
  finally show ?thesis using q e by (simp add: neg_root_def zmod_minus1)
qed

section \<open>Factors and generators\<close>

lemma PrimeFactorize_keeps:
  assumes "PrimeFactorize draw n fs g = Some (Inr (fs', g'))"
  shows "set fs \<subseteq> set fs'"
proof -
  have "if_returns (\<lambda>(fs', g'). set fs \<subseteq> set fs') (Inr (fs', g'))"
  proof (rule PrimeFactorize.raw_induct [OF _ assms, where P = "\<lambda>d n fs g z. if_returns (\<lambda>(fs', g'). set fs \<subseteq> set fs') z"])
    fix F :: "'b distribution \<Rightarrow> 'a word \<Rightarrow> 'a word list \<Rightarrow> 'b \<Rightarrow> ('a word list \<times> 'b) result option" and draw n fs g z
    assume IH: "\<And>draw n fs g z. F draw n fs g = Some z \<Longrightarrow> if_returns (\<lambda>(fs', g'). set fs \<subseteq> set fs') z"
      and z: "(if n = 0 \<or> n = 1 then Some (Inr (fs, g))
        else bindO (is_prime draw n g) (\<lambda>(b, g). if b then Some (Inr (insort_insert n fs, g))
          else bindO (PollardRhoFactorization draw n g) (\<lambda>(divisor, g).
            if divisor = 0 then Some (Inl undefined_behaviour)
            else bindO (F draw divisor fs g) (\<lambda>(fs, g). F draw (n div divisor) fs g)))) = Some z"
    show "if_returns (\<lambda>(fs', g'). set fs \<subseteq> set fs') z"
      unfolding if_returns_def
    proof (intro allI impI)
      fix x assume "z = Inr x"
      then show "case x of (fs', g') \<Rightarrow> set fs \<subseteq> set fs'"
        using z by (auto simp: bindO_eq_Inr set_insort_insert split: if_splits dest!: IH subsetD)
    qed
  qed
  then show ?thesis by simp
qed

lemma uint_two: "2 \<le> LENGTH('a) \<Longrightarrow> uint (2 :: 'a::len word) = 2"
  using power_increasing [of 2 "LENGTH('a)" "2 :: int"] by (simp add: uint_numeral)

lemma PrimeFactorize_of_two:
  assumes "2 \<le> LENGTH('a)"
  shows "PrimeFactorize draw (2 :: 'a::len word) fs g = Some (Inr (insort_insert 2 fs, g))"
proof -
  have "uint (2 :: 'a word) = 2" by (rule uint_two [OF assms])
  then have "(2 :: 'a word) \<noteq> 0 \<and> (2 :: 'a word) \<noteq> 1"
    by (metis unsigned_0 unsigned_1 zero_neq_numeral one_eq_numeral_iff num.distinct(1))
  then show ?thesis by (subst PrimeFactorize.simps) (simp add: MillerRabinPrimalityTest_def)
qed

text \<open>An even number loses a factor of two at each call, without a draw.\<close>

lemma PrimeFactorize_even:
  fixes n :: "'a::len word"
  assumes n: "n \<noteq> 0" "Mod n 2 = 0" "n \<noteq> 2" "2 \<le> LENGTH('a)"
  shows "PrimeFactorize draw n fs g = PrimeFactorize draw (n div 2) (insort_insert 2 fs) g"
proof -
  have odd: "Mod 1 2 \<noteq> (0 :: 'a word)" "Mod 3 2 \<noteq> (0 :: 'a word)" "Mod 5 2 \<noteq> (0 :: 'a word)"
    unfolding Mod_def even_iff_mod_2_eq_zero [symmetric] by (rule odd_one odd_numeral)+
  then have "is_prime draw n g = Some (Inr (False, g))"
    using n by (auto simp: MillerRabinPrimalityTest_def)
  moreover have "n \<noteq> 1" using n odd by auto
  moreover have "uint (2 :: 'a word) = 2" by (rule uint_two [OF n(4)])
  then have "(2 :: 'a word) \<noteq> 0" by auto
  ultimately show ?thesis
    using n by (subst PrimeFactorize.simps) (simp add: PollardRhoFactorization_def PrimeFactorize_of_two)
qed

lemma PrimeFactorize_two:
  fixes n :: "'a::len word"
  assumes n: "n \<noteq> 0" "Mod n 2 = 0" "2 \<le> LENGTH('a)" and run: "PrimeFactorize draw n fs g = Some (Inr (fs', g'))"
  shows "2 \<in> set fs'"
proof (cases "n = 2")
  case True
  then show ?thesis using run n(3) by (auto simp: PrimeFactorize_of_two set_insort_insert)
next
  case False
  then have "PrimeFactorize draw (n div 2) (insort_insert 2 fs) g = Some (Inr (fs', g'))"
    using run n by (simp add: PrimeFactorize_even)
  then show ?thesis using PrimeFactorize_keeps by (fastforce simp: set_insort_insert)
qed

lemma gen_count_all: "gen_count gen e q fs = length fs \<Longrightarrow> f \<in> set fs \<Longrightarrow> ModExp gen (e div f) q \<noteq> 1"
  by (induction fs) (auto split: if_splits)

lemma FindGenerator_loop_result:
  assumes "FindGenerator_loop draw q fs g = Some (Inr (gen, g'))"
  shows "gen - 1 < q - 2 \<and> gen_count gen (q - 1) q fs = length fs"
proof -
  have "if_returns (\<lambda>(gen, g'). gen - 1 < q - 2 \<and> gen_count gen (q - 1) q fs = length fs) (Inr (gen, g'))"
  proof (rule FindGenerator_loop.raw_induct [OF _ assms,
      where P = "\<lambda>d q fs g z. if_returns (\<lambda>(gen, g'). gen - 1 < q - 2 \<and> gen_count gen (q - 1) q fs = length fs) z"])
    fix F :: "'b distribution \<Rightarrow> 'a word \<Rightarrow> 'a word list \<Rightarrow> 'b \<Rightarrow> ('a word \<times> 'b) result option" and draw q fs g z
    assume IH: "\<And>draw q fs g z. F draw q fs g = Some z
        \<Longrightarrow> if_returns (\<lambda>(gen, g'). gen - 1 < q - 2 \<and> gen_count gen (q - 1) q fs = length fs) z"
      and z: "bindO (RNG draw (q - 2) g) (\<lambda>(r, g). let gen = r + 1; cnt = gen_count gen (q - 1) q fs
          in if cnt \<noteq> length fs then F draw q fs g else Some (Inr (gen, g))) = Some z"
    show "if_returns (\<lambda>(gen, g'). gen - 1 < q - 2 \<and> gen_count gen (q - 1) q fs = length fs) z"
      unfolding if_returns_def
    proof (intro allI impI)
      fix x assume "z = Inr x"
      then show "case x of (gen, g') \<Rightarrow> gen - 1 < q - 2 \<and> gen_count gen (q - 1) q fs = length fs"
        using z by (auto simp: bindO_eq_Inr Let_def RNG_less split: if_splits dest: IH)
    qed
  qed
  then show ?thesis by simp
qed

lemma FindGenerator_half:
  fixes q :: "'a::len word"
  assumes q: "prime_int (uint q)" "2 < uint q" and run: "FindGenerator draw q g = Some (Inr (gen, g'))"
  shows "uint gen ^ nat ((uint q - 1) div 2) mod uint q = uint q - 1"
proof -
  have m1: "uint (q - 1) = uint q - 1" using q by (subst uint_sub_exact) simp_all
  have L: "2 \<le> LENGTH('a)"
  proof (rule ccontr)
    assume "\<not> 2 \<le> LENGTH('a)"
    then have "(2 :: int) ^ LENGTH('a) \<le> 2 ^ 1" by (intro power_increasing) auto
    then show False using q(2) uint_lt_pow [of q] by simp
  qed
  then have u2: "uint (2 :: 'a word) = 2" by (rule uint_two)
  have "\<not> 2 dvd uint q" using q by (auto simp: prime_int_def)
  then have ev: "even (uint q - 1)" by simp
  obtain fs g1 where fs: "PrimeFactorize draw (q - 1) [] g = Some (Inr (fs, g1))"
    "FindGenerator_loop draw q fs g1 = Some (Inr (gen, g'))"
    using run by (auto simp: FindGenerator_def bindO_eq_Inr)
  have "Mod (q - 1) 2 = 0"
    unfolding Mod_def word_uint_eq_iff uint_mod_eq m1 u2 using ev by simp
  moreover have "q - 1 \<noteq> 0" using m1 q by auto
  ultimately have "2 \<in> set fs" using PrimeFactorize_two [OF _ _ L fs(1)] by blast
  with FindGenerator_loop_result [OF fs(2)] have ne: "ModExp gen ((q - 1) div 2) q \<noteq> 1" and gl: "gen - 1 < q - 2"
    using gen_count_all by blast+
  define h where "h = nat ((uint q - 1) div 2)"
  define y where "y = uint gen ^ h mod uint q"
  have "unat ((q - 1) div 2) = h" unfolding h_def unat_eq_nat_uint uint_div_eq m1 u2 ..
  then have y: "uint (ModExp gen ((q - 1) div 2) q) = y" using q by (simp add: y_def uint_ModExp)
  have "y \<noteq> 1" using ne y by (metis unsigned_1 word_uint_eq_iff)
  have "uint (gen - 1) < uint q - 2" using gl u2 q by (simp add: word_less_def uint_sub_exact)
  then have "uint gen = uint (gen - 1) + 1"
    using uint_add_exact [of "gen - 1" 1] uint_lt_pow [of q] by simp
  then have g: "0 < uint gen" "uint gen < uint q"
    using \<open>uint (gen - 1) < uint q - 2\<close> uint_ge_0 [of "gen - 1"] by linarith+
  have "uint q - 1 = 2 * ((uint q - 1) div 2)" using ev by simp
  then have "nat (uint q - 1) = 2 * h" unfolding h_def by linarith
  then have "uint gen ^ nat (uint q - 1) = (uint gen ^ h) * (uint gen ^ h)" by (simp add: power_add mult_2)
  moreover have "uint gen ^ nat (uint q - 1) mod uint q = 1"
    using g by (intro fermat_int [OF q(1)]) (auto dest: zdvd_imp_le)
  ultimately have "y * y mod uint q = 1" by (simp add: y_def mod_mult_eq)
  moreover have "0 \<le> y" "y < uint q" using q by (simp_all add: y_def)
  ultimately have "y = 1 \<or> y = uint q - 1" by (intro prime_int_square_one [OF q(1)])
  then show ?thesis using \<open>y \<noteq> 1\<close> by (simp add: y_def h_def)
qed

section \<open>The least root\<close>

lemma set_GetTotientList:
  "set (GetTotientList n) = {i. 0 < uint i \<and> uint i < uint n \<and> gcd (uint i) (uint n) = 1}" for n :: "'a::len word"
proof -
  have "i \<in> word_of_nat ` {1..<unat n} \<longleftrightarrow> 0 < uint i \<and> uint i < uint n" for i :: "'a word"
  proof
    assume "i \<in> word_of_nat ` {1..<unat n}"
    then obtain k where k: "i = word_of_nat k" "1 \<le> k" "k < unat n" by auto
    then have "k < 2 ^ LENGTH('a)" using unsigned_less [of n, where 'a = nat] by linarith
    then have "unat i = k" using k(1) by (simp add: unat_of_nat)
    then show "0 < uint i \<and> uint i < uint n" using k(2,3) unfolding unat_eq_nat_uint by linarith
  next
    assume "0 < uint i \<and> uint i < uint n"
    then have "unat i \<in> {1..<unat n}" unfolding atLeastLessThan_iff unat_eq_nat_uint by linarith
    then show "i \<in> word_of_nat ` {1..<unat n}" by (metis imageI of_nat_unat ucast_id)
  qed
  then show ?thesis
    by (auto simp: GetTotientList_def word_uint_eq_iff uint_GreatestCommonDivisor)
qed

lemma sorted_GetTotientList: "sorted_wrt (<) (map unat (GetTotientList n))" for n :: "'a::len word"
proof -
  have "map unat (map word_of_nat [1..<unat n] :: 'a word list) = [1..<unat n]"
  proof -
    have "unat (word_of_nat k :: 'a word) = k" if "k \<in> set [1..<unat n]" for k
    proof -
      have "k < 2 ^ LENGTH('a)" using that less_trans [OF _ unsigned_less [of n, where 'a = nat]] by auto
      then show ?thesis by (simp add: unat_of_nat)
    qed
    then show ?thesis unfolding map_map by (intro map_idI) simp
  qed
  then have "sorted_wrt (\<lambda>a b. unat a < unat b) (map word_of_nat [1..<unat n] :: 'a word list)"
    by (metis sorted_wrt_map sorted_wrt_upt)
  then show ?thesis by (simp add: GetTotientList_def sorted_wrt_map sorted_wrt_filter)
qed

lemma power_loop:
  fixes x res q :: "'a::len word"
  assumes q: "barrett_modulus q" "ComputeMu q = Inr mu" and res: "uint res < uint q" "uint x = uint res ^ e mod uint q"
  shows "uint (((\<lambda>x. ModMulEq_mu x res q mu) ^^ k) x) = uint res ^ (e + k) mod uint q"
proof (induction k)
  case (Suc k)
  let ?y = "((\<lambda>x. ModMulEq_mu x res q mu) ^^ k) x"
  have "0 < uint q" using barrett_modulus_facts(1) [OF q(1)] by (simp add: uint_pos_iff)
  then have "uint ?y < uint q" by (simp add: Suc)
  then have "uint (ModMulEq_mu ?y res q mu) = (uint ?y * uint res) mod uint q"
    unfolding in_place_variants using res(1) by (intro uint_ModMul_mu [OF q] residue_lt_pow)
  also have "\<dots> = uint res ^ (e + Suc k) mod uint q" unfolding Suc by (simp only: mod_mult_left_eq add_Suc_right power_Suc2)
  finally show ?case by simp
qed (simp add: res(2))

text \<open>The loop keeps the smallest of the powers that it passes, one apart.\<close>

lemma minRU_loop_least:
  fixes x res q :: "'a::len word"
  assumes q: "barrett_modulus q" "ComputeMu q = Inr mu" and res: "uint res < uint q"
  shows "uint x = uint res ^ unat cur mod uint q \<Longrightarrow> sorted_wrt (<) (map unat cs) \<Longrightarrow> \<forall>c\<in>set cs. unat cur \<le> unat c \<Longrightarrow>
    (let R = minRU_loop res q mu cs x mn cur in
      (R = mn \<or> (\<exists>c\<in>set cs. uint R = uint res ^ unat c mod uint q)) \<and> uint R \<le> uint mn
      \<and> (\<forall>c\<in>set cs. uint res ^ unat c mod uint q = 1 \<or> uint R \<le> uint res ^ unat c mod uint q))"
proof (induction cs arbitrary: x mn cur)
  case (Cons c cs)
  define y where "y = ((\<lambda>x. ModMulEq_mu x res q mu) ^^ unat (c - cur)) x"
  define mn' where "mn' = (if y < mn \<and> y \<noteq> 1 then y else mn)"
  have le: "unat cur \<le> unat c" using Cons.prems by simp
  then have "unat (c - cur) = unat c - unat cur" by (simp add: unat_sub word_le_nat_alt)
  then have y: "uint y = uint res ^ unat c mod uint q"
    using power_loop [OF q res Cons.prems(1), of "unat (c - cur)"] le by (simp add: y_def)
  have "minRU_loop res q mu (c # cs) x mn cur = minRU_loop res q mu cs y mn' c"
    by (simp add: Let_def y_def mn'_def)
  moreover have "let R = minRU_loop res q mu cs y mn' c in
      (R = mn' \<or> (\<exists>c\<in>set cs. uint R = uint res ^ unat c mod uint q)) \<and> uint R \<le> uint mn'
      \<and> (\<forall>c\<in>set cs. uint res ^ unat c mod uint q = 1 \<or> uint R \<le> uint res ^ unat c mod uint q)"
    using Cons.prems by (intro Cons.IH [OF y]) (auto intro: less_imp_le)
  moreover have "mn' = mn \<or> mn' = y" "uint mn' \<le> uint mn" "uint y = 1 \<or> uint mn' \<le> uint y"
    by (auto simp: mn'_def word_less_def)
  ultimately show ?case using y by (auto simp: Let_def)
qed simp

lemma coprime_power2_odd: "gcd i (2 ^ Suc j) = 1 \<longleftrightarrow> odd (i :: int)"
  unfolding coprime_iff_gcd_eq_1 [symmetric] coprime_power_right_iff coprime_right_2_iff_odd by simp

lemma RootOfUnity_result:
  fixes q r :: "'a::len word" and m :: "32 word"
  assumes q: "prime_int (uint q)" "barrett_modulus q" and m: "uint m = 2 ^ Suc j" "(uint q - 1) mod uint m = 0"
    and run: "RootOfUnity draw m q g = Some (Inr (r, g'))"
  shows "neg_root (uint q) (2 ^ j) (uint r) \<and> (\<forall>y. neg_root (uint q) (2 ^ j) y \<longrightarrow> uint r \<le> y)"
proof -
  define M where "M = (ucast m :: 'a word)"
  have q1: "1 < uint q" using q by (simp add: prime_int_def)
  have mq: "uint m \<le> uint q - 1" using m(2) q1 by (intro zdvd_imp_le) (auto simp: dvd_eq_mod_eq_0)
  have "(2 :: int) \<le> 2 ^ Suc j" by simp
  then have q2: "2 < uint q" using mq m(1) by linarith
  have "uint m < 2 ^ LENGTH('a)" using mq uint_lt_pow [of q] by linarith
  then have uM: "uint M = 2 ^ Suc j" by (simp add: M_def uint_ucast_small m(1))
  then have M0: "M \<noteq> 0" by auto
  have m1: "uint (q - 1) = uint q - 1" using q1 by (subst uint_sub_exact) simp_all
  have dv: "Mod (q - 1) M = 0" unfolding Mod_def word_uint_eq_iff uint_mod_eq m1 uM using m by simp
  obtain gen g1 where gen: "FindGenerator draw q g = Some (Inr (gen, g1))"
    using run M0 dv by (subst (asm) RootOfUnity.simps) (auto simp: bindO_eq_Inr Let_def M_def [symmetric])
  define res where "res = ModExp gen ((q - 1) div M) q"
  define d where "d = (uint q - 1) div uint m"
  have "uint q - 1 = uint m * d" using m(2) by (metis d_def mult_div_mod_eq add_0_right)
  then have "uint q - 1 = 2 * (d * 2 ^ j)" by (simp add: m(1))
  then have half: "(uint q - 1) div 2 = d * 2 ^ j" by simp
  have d0: "0 \<le> d" using q1 m(1) by (simp add: d_def pos_imp_zdiv_nonneg_iff)
  have "unat ((q - 1) div M) = nat d" unfolding unat_eq_nat_uint uint_div_eq m1 uM d_def m(1) ..
  then have ur: "uint res = uint gen ^ nat d mod uint q" using uint_ModExp [OF q1, of gen "(q - 1) div M"] by (simp add: res_def)
  have "uint res ^ 2 ^ j mod uint q = uint gen ^ nat ((uint q - 1) div 2) mod uint q"
    unfolding ur half using d0 by (simp add: power_mod power_mult [symmetric] nat_mult_distrib nat_power_eq)
  then have nr: "neg_root (uint q) (2 ^ j) (uint res)"
    using FindGenerator_half [OF q(1) q2 gen] q1 by (simp add: neg_root_def ur)
  have n1: "\<not> neg_root (uint q) (2 ^ j) 1" using q2 by (simp add: neg_root_def)
  then have "res \<noteq> 1" using nr by auto
  obtain mu where mu: "ComputeMu q = Inr mu" using ComputeMu_mu_of [OF q(2)] by blast
  define x where "x = ModMulEq_mu 1 res q mu"
  have r: "r = minRU_loop res q mu (GetTotientList M) x x 1"
    using run M0 dv gen mu \<open>res \<noteq> 1\<close>
    by (subst (asm) RootOfUnity.simps) (simp add: Let_def M_def [symmetric] res_def [symmetric] x_def)
  have resq: "uint res < uint q" using nr by (simp add: neg_root_def)
  have x: "uint x = uint res ^ unat (1 :: 'a word) mod uint q"
    using power_loop [OF q(2) mu resq, of 1 0 1] q1 by (simp add: x_def)
  have cs: "c \<in> set (GetTotientList M) \<longleftrightarrow> uint c < 2 ^ Suc j \<and> odd (uint c)" for c
    using uint_ge_0 [of c] by (auto simp: set_GetTotientList uM coprime_power2_odd order_le_less)
  have least: "(r = x \<or> (\<exists>c\<in>set (GetTotientList M). uint r = uint res ^ unat c mod uint q))
      \<and> (\<forall>c\<in>set (GetTotientList M). uint res ^ unat c mod uint q = 1 \<or> uint r \<le> uint res ^ unat c mod uint q)"
    using minRU_loop_least [OF q(2) mu resq x sorted_GetTotientList [of M], of x]
    by (auto simp: Let_def r [symmetric] set_GetTotientList uint_pos_iff unat_gt_0 Suc_le_eq)
  have odd: "odd (unat c)" if "c \<in> set (GetTotientList M)" for c
    using that uint_ge_0 [of c] unfolding cs unat_eq_nat_uint by (simp only: even_nat_iff) simp
  have "neg_root (uint q) (2 ^ j) (uint r)"
    using least nr x resq neg_root_odd_power [OF q2 nr odd] by auto
  moreover have "uint r \<le> y" if y: "neg_root (uint q) (2 ^ j) y" for y
  proof -
    obtain e where e: "e < 2 ^ Suc j" "odd e" "y = uint res ^ e mod uint q" by (rule neg_root_power [OF q(1) q2 nr y])
    have "(2 :: nat) ^ Suc j < 2 ^ LENGTH('a)"
      using uint_lt_pow [of M] unfolding uM by (metis of_nat_less_iff of_nat_numeral of_nat_power)
    then have u: "unat (word_of_nat e :: 'a word) = e" using e(1) by (simp add: unat_of_nat)
    then have v: "uint (word_of_nat e :: 'a word) = int e" unfolding unat_eq_nat_uint using uint_ge_0 by (metis nat_0_le)
    have "int e < 2 ^ Suc j" using e(1) by (metis of_nat_less_iff of_nat_numeral of_nat_power)
    then have "(word_of_nat e :: 'a word) \<in> set (GetTotientList M)" using e(2) unfolding cs v by simp
    then have "y = 1 \<or> uint r \<le> y" using least e(3) u by metis
    then show ?thesis using y n1 by auto
  qed
  ultimately show ?thesis by blast
qed

text \<open>Pollard's factorization ends for every generator that leaves the loop of \<^verbatim>\<open>RNG\<close>.\<close>

lemma PollardRho_divides:
  fixes n :: "'a::len word"
  assumes fair: "fair_draws draw TYPE('a)" and n: "n \<noteq> 0" "n \<noteq> 1" and L: "2 \<le> LENGTH('a)"
  shows "\<exists>d g'. PollardRhoFactorization draw n g = Some (Inr (d, g')) \<and> d \<noteq> 1 \<and> uint d dvd uint n"
proof (cases "Mod n 2 = 0")
  case True
  have u2: "uint (2 :: 'a word) = 2" by (rule uint_two [OF L])
  have "uint n mod 2 = 0" using True by (metis Mod_def u2 uint_mod_eq unsigned_0)
  then show ?thesis using True u2 by (auto simp: PollardRhoFactorization_def dvd_eq_mod_eq_0)
next
  case False
  obtain c g1 where c: "RNG draw n g = Some (Inr (c, g1))" by (rule RNG_returns [OF fair n(1)])
  obtain x g2 where x: "RNG draw n g1 = Some (Inr (x, g2))" by (rule RNG_returns [OF fair n(1)])
  obtain mu where mu: "ComputeMu n = Inr mu" using n by (simp add: ComputeMu_def Let_def)
  obtain d where "PollardRho_loop n c mu x x = Some d" "d \<noteq> 1" "uint d dvd uint n"
    using PollardRho_loop_ends [OF n(2)] by blast
  then show ?thesis using False c x mu by (simp add: PollardRhoFactorization_def)
qed

section \<open>Properties\<close>

text \<open>A generator that always draws zero, and one that draws two, for the examples.\<close>

definition zero_draws :: "nat distribution" where
  "zero_draws b g = (0, Suc g)"

definition two_draws :: "nat distribution" where
  "two_draws b g = (2, Suc g)"

lemma zero_draws_fair: "fair_draws zero_draws TYPE('a::len)"
proof -
  have c: "fst (RNG_chunks zero_draws i sh 0 g) = (0 :: 'a word)" for i sh g
    by (induction i arbitrary: sh g) (simp_all add: zero_draws_def LShift_def)
  have "fst (RNG_attempt zero_draws m g) = 0" for m :: "'a word" and g
    using c [of "(GetMSB m - 1) div 32" 0 g]
    by (simp add: RNG_attempt_def Let_def case_prod_beta zero_draws_def LShift_def)
  then show ?thesis by (auto simp: fair_draws_def word_gt_0)
qed

text \<open>A run for the cyclotomic order 8 and the modulus 17.\<close>

lemma RootOfUnity_8_17: "RootOfUnity two_draws 8 (17 :: 32 word) 0 = Some (Inr (2, 1))"
proof -
  have "PrimeFactorize two_draws (16 :: 32 word) [] 0 = Some (Inr ([2], 0))"
    by (simp add: PrimeFactorize_even PrimeFactorize_of_two Mod_def insort_insert_key_def)
  moreover have "RNG_attempt two_draws (15 :: 32 word) 0 = (2, 1)" by code_simp
  then have "RNG two_draws (15 :: 32 word) 0 = Some (Inr (2, 1))" by (subst RNG.simps) simp
  moreover have "gen_count 3 16 (17 :: 32 word) [2] = 1" by code_simp
  ultimately have "FindGenerator two_draws (17 :: 32 word) 0 = Some (Inr (3, 1))"
    by (simp add: FindGenerator_def) (subst FindGenerator_loop.simps, simp)
  moreover have "ModExp 3 2 (17 :: 32 word) = 9" "ComputeMu (17 :: 32 word) = Inr 481"
    "minRU_loop 9 (17 :: 32 word) 481 (GetTotientList 8) (ModMulEq_mu 1 9 17 481) (ModMulEq_mu 1 9 17 481) 1 = 2"
    by code_simp+
  ultimately show ?thesis
    by (subst RootOfUnity.simps) (simp add: Mod_def)
qed

text \<open>C14.  The search for a prime modulus: with a generator that leaves the loop of \<^verbatim>\<open>RNG\<close>, \<^verbatim>\<open>FirstPrime\<close>
  returns whenever a prime of the form \<open>k * m + 1\<close> above \<open>2 ^ nBits\<close> fits the word.  The result has this
  form, passes the Miller-Rabin test, and no prime of this form above \<open>2 ^ nBits\<close> is smaller: the test
  never rejects a prime.\<close>

theorem FirstPrime_finds:
  fixes m :: "64 word"
  assumes "fair_draws draw TYPE('a::len)"
    and "nBits \<le> MAX_MODULUS_SIZE LENGTH('a)" "0 < uint m" "uint m < 2 ^ LENGTH('a)"
    and "prime_int P" "2 ^ nBits < P" "P < 2 ^ LENGTH('a)" "P mod uint m = 1 mod uint m"
  shows "\<exists>q g0 g'. FirstPrime draw nBits m g = Some (Inr (q :: 'a word, g')) \<and> 2 ^ nBits < uint q \<and> uint q \<le> P
    \<and> uint q mod uint m = 1 mod uint m \<and> MillerRabinPrimalityTest draw q 100 g0 = Some (Inr (True, g'))
    \<and> (\<forall>r. 2 ^ nBits < r \<and> r < uint q \<and> r mod uint m = 1 mod uint m \<longrightarrow> \<not> prime_int r)"
  using assms by (rule FirstPrime_search)

theorem FirstPrime_finds_witness:
  "\<exists>q g0 g'. FirstPrime zero_draws 3 4 0 = Some (Inr (q :: 32 word, g')) \<and> 2 ^ 3 < uint q \<and> uint q \<le> 13
    \<and> uint q mod uint (4 :: 64 word) = 1 mod uint (4 :: 64 word)
    \<and> MillerRabinPrimalityTest zero_draws q 100 g0 = Some (Inr (True, g'))
    \<and> (\<forall>r. 2 ^ 3 < r \<and> r < uint q \<and> r mod uint (4 :: 64 word) = 1 mod uint (4 :: 64 word) \<longrightarrow> \<not> prime_int r)"
proof (rule FirstPrime_finds [OF zero_draws_fair])
  show "3 \<le> MAX_MODULUS_SIZE LENGTH(32)" "0 < uint (4 :: 64 word)" "uint (4 :: 64 word) < 2 ^ LENGTH(32)"
    "prime_int 13" by code_simp+
qed simp_all



end
