(* ===== verification/LatticeParms.thy ===== *)
theory LatticeParms
  imports Prelude
begin

text \<open>
  The table of the Homomorphic Encryption Standard, \<^verbatim>\<open>src/src/core/include/lattice/stdlatticeparms.h\<close> and
  \<^verbatim>\<open>src/src/core/lib/lattice/stdlatticeparms.cpp\<close>: the largest modulus for a ring dimension and the smallest ring
  dimension for a modulus, at a level of security.

  A \<^verbatim>\<open>std::map\<close> is the list of its entries in the order of the keys.  The two arrays of maps have six
  columns, so that the level \<open>HEStd_NotSet\<close> reads beyond them.
\<close>

datatype DistributionType = HEStd_uniform | HEStd_error | HEStd_ternary

datatype SecurityLevel =
    HEStd_128_classic | HEStd_192_classic | HEStd_256_classic
  | HEStd_128_quantum | HEStd_192_quantum | HEStd_256_quantum | HEStd_NotSet

definition convertToSecurityLevel :: "string \<Rightarrow> SecurityLevel result" where
  "convertToSecurityLevel str =
     (if str = ''HEStd_128_classic'' then Inr HEStd_128_classic
      else if str = ''HEStd_192_classic'' then Inr HEStd_192_classic
      else if str = ''HEStd_256_classic'' then Inr HEStd_256_classic
      else if str = ''HEStd_128_quantum'' then Inr HEStd_128_quantum
      else if str = ''HEStd_192_quantum'' then Inr HEStd_192_quantum
      else if str = ''HEStd_256_quantum'' then Inr HEStd_256_quantum
      else if str = ''HEStd_NotSet'' then Inr HEStd_NotSet
      else Inl config_error)"

definition convertToSecurityLevel_num :: "nat \<Rightarrow> SecurityLevel result" where
  "convertToSecurityLevel_num num =
     (if num = 0 then Inr HEStd_128_classic
      else if num = 1 then Inr HEStd_192_classic
      else if num = 2 then Inr HEStd_256_classic
      else if num = 3 then Inr HEStd_128_quantum
      else if num = 4 then Inr HEStd_192_quantum
      else if num = 5 then Inr HEStd_256_quantum
      else Inl config_error)"

type_synonym std_parm = "DistributionType \<times> nat \<times> SecurityLevel \<times> nat"

definition StandardLatticeParmSets :: "std_parm list" where
  "StandardLatticeParmSets =
    [(HEStd_uniform, 1024, HEStd_128_classic, 29), (HEStd_uniform, 1024, HEStd_192_classic, 21),
     (HEStd_uniform, 1024, HEStd_256_classic, 16), (HEStd_uniform, 2048, HEStd_128_classic, 56),
     (HEStd_uniform, 2048, HEStd_192_classic, 39), (HEStd_uniform, 2048, HEStd_256_classic, 31),
     (HEStd_uniform, 4096, HEStd_128_classic, 111), (HEStd_uniform, 4096, HEStd_192_classic, 77),
     (HEStd_uniform, 4096, HEStd_256_classic, 60), (HEStd_uniform, 8192, HEStd_128_classic, 220),
     (HEStd_uniform, 8192, HEStd_192_classic, 154), (HEStd_uniform, 8192, HEStd_256_classic, 120),
     (HEStd_uniform, 16384, HEStd_128_classic, 440), (HEStd_uniform, 16384, HEStd_192_classic, 307),
     (HEStd_uniform, 16384, HEStd_256_classic, 239), (HEStd_uniform, 32768, HEStd_128_classic, 880),
     (HEStd_uniform, 32768, HEStd_192_classic, 612), (HEStd_uniform, 32768, HEStd_256_classic, 478),
     (HEStd_error, 1024, HEStd_128_classic, 29), (HEStd_error, 1024, HEStd_192_classic, 21),
     (HEStd_error, 1024, HEStd_256_classic, 16), (HEStd_error, 2048, HEStd_128_classic, 56),
     (HEStd_error, 2048, HEStd_192_classic, 39), (HEStd_error, 2048, HEStd_256_classic, 31),
     (HEStd_error, 4096, HEStd_128_classic, 111), (HEStd_error, 4096, HEStd_192_classic, 77),
     (HEStd_error, 4096, HEStd_256_classic, 60), (HEStd_error, 8192, HEStd_128_classic, 220),
     (HEStd_error, 8192, HEStd_192_classic, 154), (HEStd_error, 8192, HEStd_256_classic, 120),
     (HEStd_error, 16384, HEStd_128_classic, 440), (HEStd_error, 16384, HEStd_192_classic, 307),
     (HEStd_error, 16384, HEStd_256_classic, 239), (HEStd_error, 32768, HEStd_128_classic, 883),
     (HEStd_error, 32768, HEStd_192_classic, 613), (HEStd_error, 32768, HEStd_256_classic, 478),
     (HEStd_error, 65536, HEStd_128_classic, 1774), (HEStd_error, 65536, HEStd_192_classic, 1230),
     (HEStd_error, 65536, HEStd_256_classic, 958), (HEStd_ternary, 1024, HEStd_128_classic, 27),
     (HEStd_ternary, 1024, HEStd_192_classic, 19), (HEStd_ternary, 1024, HEStd_256_classic, 14),
     (HEStd_ternary, 2048, HEStd_128_classic, 54), (HEStd_ternary, 2048, HEStd_192_classic, 37),
     (HEStd_ternary, 2048, HEStd_256_classic, 29), (HEStd_ternary, 4096, HEStd_128_classic, 109),
     (HEStd_ternary, 4096, HEStd_192_classic, 75), (HEStd_ternary, 4096, HEStd_256_classic, 58),
     (HEStd_ternary, 8192, HEStd_128_classic, 218), (HEStd_ternary, 8192, HEStd_192_classic, 152),
     (HEStd_ternary, 8192, HEStd_256_classic, 118), (HEStd_ternary, 16384, HEStd_128_classic, 438),
     (HEStd_ternary, 16384, HEStd_192_classic, 305), (HEStd_ternary, 16384, HEStd_256_classic, 237),
     (HEStd_ternary, 32768, HEStd_128_classic, 881), (HEStd_ternary, 32768, HEStd_192_classic, 611),
     (HEStd_ternary, 32768, HEStd_256_classic, 476), (HEStd_ternary, 65536, HEStd_128_classic, 1772),
     (HEStd_ternary, 65536, HEStd_192_classic, 1228), (HEStd_ternary, 65536, HEStd_256_classic, 956),
     (HEStd_uniform, 1024, HEStd_128_quantum, 27), (HEStd_uniform, 1024, HEStd_192_quantum, 19),
     (HEStd_uniform, 1024, HEStd_256_quantum, 15), (HEStd_uniform, 2048, HEStd_128_quantum, 53),
     (HEStd_uniform, 2048, HEStd_192_quantum, 37), (HEStd_uniform, 2048, HEStd_256_quantum, 29),
     (HEStd_uniform, 4096, HEStd_128_quantum, 103), (HEStd_uniform, 4096, HEStd_192_quantum, 72),
     (HEStd_uniform, 4096, HEStd_256_quantum, 56), (HEStd_uniform, 8192, HEStd_128_quantum, 206),
     (HEStd_uniform, 8192, HEStd_192_quantum, 143), (HEStd_uniform, 8192, HEStd_256_quantum, 111),
     (HEStd_uniform, 16384, HEStd_128_quantum, 413), (HEStd_uniform, 16384, HEStd_192_quantum, 286),
     (HEStd_uniform, 16384, HEStd_256_quantum, 222), (HEStd_uniform, 32768, HEStd_128_quantum, 829),
     (HEStd_uniform, 32768, HEStd_192_quantum, 573), (HEStd_uniform, 32768, HEStd_256_quantum, 445),
     (HEStd_error, 1024, HEStd_128_quantum, 27), (HEStd_error, 1024, HEStd_192_quantum, 19),
     (HEStd_error, 1024, HEStd_256_quantum, 15), (HEStd_error, 2048, HEStd_128_quantum, 53),
     (HEStd_error, 2048, HEStd_192_quantum, 37), (HEStd_error, 2048, HEStd_256_quantum, 29),
     (HEStd_error, 4096, HEStd_128_quantum, 103), (HEStd_error, 4096, HEStd_192_quantum, 72),
     (HEStd_error, 4096, HEStd_256_quantum, 56), (HEStd_error, 8192, HEStd_128_quantum, 206),
     (HEStd_error, 8192, HEStd_192_quantum, 143), (HEStd_error, 8192, HEStd_256_quantum, 111),
     (HEStd_error, 16384, HEStd_128_quantum, 413), (HEStd_error, 16384, HEStd_192_quantum, 286),
     (HEStd_error, 16384, HEStd_256_quantum, 222), (HEStd_error, 32768, HEStd_128_quantum, 829),
     (HEStd_error, 32768, HEStd_192_quantum, 573), (HEStd_error, 32768, HEStd_256_quantum, 445),
     (HEStd_ternary, 1024, HEStd_128_quantum, 25), (HEStd_ternary, 1024, HEStd_192_quantum, 17),
     (HEStd_ternary, 1024, HEStd_256_quantum, 13), (HEStd_ternary, 2048, HEStd_128_quantum, 51),
     (HEStd_ternary, 2048, HEStd_192_quantum, 35), (HEStd_ternary, 2048, HEStd_256_quantum, 27),
     (HEStd_ternary, 4096, HEStd_128_quantum, 101), (HEStd_ternary, 4096, HEStd_192_quantum, 70),
     (HEStd_ternary, 4096, HEStd_256_quantum, 54), (HEStd_ternary, 8192, HEStd_128_quantum, 202),
     (HEStd_ternary, 8192, HEStd_192_quantum, 141), (HEStd_ternary, 8192, HEStd_256_quantum, 109),
     (HEStd_ternary, 16384, HEStd_128_quantum, 411), (HEStd_ternary, 16384, HEStd_192_quantum, 284),
     (HEStd_ternary, 16384, HEStd_256_quantum, 220), (HEStd_ternary, 32768, HEStd_128_quantum, 827),
     (HEStd_ternary, 32768, HEStd_192_quantum, 571), (HEStd_ternary, 32768, HEStd_256_quantum, 443)]"

fun map_insert :: "nat \<Rightarrow> 'v \<Rightarrow> (nat \<times> 'v) list \<Rightarrow> (nat \<times> 'v) list" where
  "map_insert k v [] = [(k, v)]"
| "map_insert k v ((k', v') # m) =
     (if k < k' then (k, v) # (k', v') # m else if k = k' then (k, v) # m else (k', v') # map_insert k v m)"

text \<open>\<^verbatim>\<open>initializeLookups\<close>: the entries are ring dimension and logarithm of the modulus.\<close>

definition byRing :: "DistributionType \<Rightarrow> SecurityLevel \<Rightarrow> (nat \<times> nat \<times> nat) list" where
  "byRing d l = fold (\<lambda>(distType, ringDim, minSecLev, maxLogQ) m.
     if distType = d \<and> minSecLev = l then map_insert ringDim (ringDim, maxLogQ) m else m) StandardLatticeParmSets []"

definition byLogQ :: "DistributionType \<Rightarrow> SecurityLevel \<Rightarrow> (nat \<times> nat \<times> nat) list" where
  "byLogQ d l = fold (\<lambda>(distType, ringDim, minSecLev, maxLogQ) m.
     if distType = d \<and> minSecLev = l then map_insert maxLogQ (ringDim, maxLogQ) m else m) StandardLatticeParmSets []"

definition FindMaxQ :: "DistributionType \<Rightarrow> SecurityLevel \<Rightarrow> nat \<Rightarrow> nat result" where
  "FindMaxQ distType minSecLev ringDim =
     (if minSecLev = HEStd_NotSet then Inl undefined_behaviour
      else case map_of (byRing distType minSecLev) ringDim of None \<Rightarrow> Inr 0 | Some (_, maxLogQ) \<Rightarrow> Inr maxLogQ)"

fun FindRingDim_loop :: "nat \<Rightarrow> (nat \<times> nat \<times> nat) list \<Rightarrow> nat \<Rightarrow> nat \<Rightarrow> nat" where
  "FindRingDim_loop curLogQ [] prev n = 2 * n"
| "FindRingDim_loop curLogQ ((_, ringDim, maxLogQ) # its) prev n =
     (if curLogQ \<le> maxLogQ \<and> curLogQ > prev then ringDim else FindRingDim_loop curLogQ its maxLogQ ringDim)"

definition FindRingDim :: "DistributionType \<Rightarrow> SecurityLevel \<Rightarrow> nat \<Rightarrow> nat result" where
  "FindRingDim distType minSecLev curLogQ =
     (if minSecLev = HEStd_NotSet then Inl undefined_behaviour
      else Inr (FindRingDim_loop curLogQ (byLogQ distType minSecLev) 0 0))"

section \<open>The table is consistent\<close>

definition parm_less :: "nat \<times> nat \<times> nat \<Rightarrow> nat \<times> nat \<times> nat \<Rightarrow> bool" where
  "parm_less x y \<longleftrightarrow> fst (snd x) < fst (snd y) \<and> snd (snd x) < snd (snd y)"

text \<open>In every column the dimension grows with the modulus, and both maps have the same entries.\<close>

lemma lookups_consistent:
  assumes "l \<noteq> HEStd_NotSet"
  shows "sorted_wrt parm_less (byLogQ d l) \<and> byRing d l = map (\<lambda>(_, n, q). (n, n, q)) (byLogQ d l)"
  using assms by (cases d; cases l) (simp_all add: byLogQ_def byRing_def StandardLatticeParmSets_def parm_less_def)

lemma FindRingDim_loop_first:
  assumes "sorted_wrt parm_less T" "prev < curLogQ"
  shows "(\<exists>k n q. (k, n, q) \<in> set T \<and> FindRingDim_loop curLogQ T prev p = n \<and> curLogQ \<le> q
      \<and> (\<forall>(k', n', q') \<in> set T. curLogQ \<le> q' \<longrightarrow> n \<le> n'))
    \<or> (\<forall>(k, n, q) \<in> set T. q < curLogQ) \<and> FindRingDim_loop curLogQ T prev p = 2 * (if T = [] then p else fst (snd (last T)))"
  using assms
proof (induction T arbitrary: prev p)
  case (Cons x T)
  obtain k n q where x: "x = (k, n, q)" by (cases x) auto
  have srt: "\<forall>y\<in>set T. parm_less x y" "sorted_wrt parm_less T" using Cons.prems(1) by simp_all
  show ?case
  proof (cases "curLogQ \<le> q")
    case True
    have "\<forall>(k', n', q') \<in> set (x # T). curLogQ \<le> q' \<longrightarrow> n \<le> n'"
      using srt(1) by (auto simp: x parm_less_def less_imp_le)
    then show ?thesis using True Cons.prems(2) by (intro disjI1 exI [of _ k] exI [of _ n] exI [of _ q]) (simp add: x)
  next
    case False
    then have "q < curLogQ" by simp
    from Cons.IH [OF srt(2) this, of n] show ?thesis
    proof
      assume "\<exists>k n' q'. (k, n', q') \<in> set T \<and> FindRingDim_loop curLogQ T q n = n' \<and> curLogQ \<le> q'
        \<and> (\<forall>(k', n'', q'') \<in> set T. curLogQ \<le> q'' \<longrightarrow> n' \<le> n'')"
      then show ?thesis using False by (intro disjI1) (auto simp: x)
    next
      assume "(\<forall>(k, n, q) \<in> set T. q < curLogQ) \<and> FindRingDim_loop curLogQ T q n = 2 * (if T = [] then n else fst (snd (last T)))"
      then show ?thesis using False by (intro disjI2) (auto simp: x)
    qed
  qed
qed simp

lemma FindRingDim_loop_zero: "FindRingDim_loop 0 T prev p = 2 * (if T = [] then p else fst (snd (last T)))"
  by (induction T arbitrary: prev p) auto

section \<open>Properties\<close>

text \<open>C18.  The search for a ring dimension: for a positive logarithm, \<^verbatim>\<open>FindRingDim\<close> returns the smallest dimension
  of the standard whose largest modulus, as \<^verbatim>\<open>FindMaxQ\<close> reports it, is large enough; when the modulus is
  beyond the table it returns twice the largest dimension.  The logarithm zero counts as beyond the table.\<close>

theorem FindRingDim_smallest:
  assumes "l \<noteq> HEStd_NotSet" "0 < curLogQ"
  shows "((\<exists>n q. FindRingDim d l curLogQ = Inr n \<and> FindMaxQ d l n = Inr q \<and> curLogQ \<le> q
      \<and> (\<forall>n' q'. FindMaxQ d l n' = Inr q' \<and> curLogQ \<le> q' \<longrightarrow> n \<le> n'))
    \<or> (\<forall>n' q'. FindMaxQ d l n' = Inr q' \<longrightarrow> q' < curLogQ)
      \<and> FindRingDim d l curLogQ = Inr (2 * fst (snd (last (byLogQ d l)))))
    \<and> FindRingDim d l 0 = Inr (2 * fst (snd (last (byLogQ d l))))"
proof -
  let ?T = "byLogQ d l"
  note T = lookups_consistent [OF assms(1), of d]
  have ne: "?T \<noteq> []" using assms(1) by (cases d; cases l) (simp_all add: byLogQ_def StandardLatticeParmSets_def)
  have dist: "distinct (map fst (map (\<lambda>(_, n, q). (n, n, q)) ?T))"
    using T by (auto simp: distinct_conv_nth sorted_wrt_iff_nth_less parm_less_def case_prod_beta) (metis nat_neq_iff order_less_irrefl)
  have mx: "FindMaxQ d l n = Inr (case map_of (map (\<lambda>(_, n, q). (n, n, q)) ?T) n of None \<Rightarrow> 0 | Some (_, q) \<Rightarrow> q)" for n
    using assms(1) T by (simp add: FindMaxQ_def split: option.splits prod.splits)
  have at: "FindMaxQ d l n = Inr q" if "(k, n, q) \<in> set ?T" for k n q
  proof -
    have "(n, n, q) \<in> set (map (\<lambda>(_, n, q). (n, n, q)) ?T)" using that by force
    then have "map_of (map (\<lambda>(_, n, q). (n, n, q)) ?T) n = Some (n, q)" by (rule map_of_is_SomeI [OF dist])
    then show ?thesis by (simp add: mx)
  qed
  have inv: "q = 0 \<or> (\<exists>k. (k, n, q) \<in> set ?T)" if "FindMaxQ d l n = Inr q" for n q
    using that unfolding mx by (auto split: option.splits dest!: map_of_SomeD)
  have fr: "FindRingDim d l curLogQ = Inr (FindRingDim_loop curLogQ ?T 0 0)" using assms(1) by (simp add: FindRingDim_def)
  have z: "FindRingDim d l 0 = Inr (2 * fst (snd (last (byLogQ d l))))"
    using assms(1) ne by (simp add: FindRingDim_def FindRingDim_loop_zero)
  from FindRingDim_loop_first [OF conjunct1 [OF T] assms(2), of 0] show ?thesis
  proof
    assume "\<exists>k n q. (k, n, q) \<in> set ?T \<and> FindRingDim_loop curLogQ ?T 0 0 = n \<and> curLogQ \<le> q
      \<and> (\<forall>(k', n', q') \<in> set ?T. curLogQ \<le> q' \<longrightarrow> n \<le> n')"
    then obtain k n q where n: "(k, n, q) \<in> set ?T" "FindRingDim_loop curLogQ ?T 0 0 = n" "curLogQ \<le> q"
      "\<forall>(k', n', q') \<in> set ?T. curLogQ \<le> q' \<longrightarrow> n \<le> n'" by blast
    have "n \<le> n'" if "FindMaxQ d l n' = Inr q'" "curLogQ \<le> q'" for n' q'
      using inv [OF that(1)] that(2) assms(2) n(4) by force
    then show ?thesis using fr n at z by blast
  next
    assume b: "(\<forall>(k, n, q) \<in> set ?T. q < curLogQ) \<and> FindRingDim_loop curLogQ ?T 0 0 = 2 * (if ?T = [] then 0 else fst (snd (last ?T)))"
    then have "q' < curLogQ" if "FindMaxQ d l n' = Inr q'" for n' q' using inv [OF that] assms(2) by force
    then show ?thesis using fr b ne z by simp
  qed
qed

theorem FindRingDim_smallest_witness:
  "((\<exists>n q. FindRingDim HEStd_ternary HEStd_128_classic 54 = Inr n \<and> FindMaxQ HEStd_ternary HEStd_128_classic n = Inr q \<and> 54 \<le> q
      \<and> (\<forall>n' q'. FindMaxQ HEStd_ternary HEStd_128_classic n' = Inr q' \<and> 54 \<le> q' \<longrightarrow> n \<le> n'))
    \<or> (\<forall>n' q'. FindMaxQ HEStd_ternary HEStd_128_classic n' = Inr q' \<longrightarrow> q' < 54)
      \<and> FindRingDim HEStd_ternary HEStd_128_classic 54 = Inr (2 * fst (snd (last (byLogQ HEStd_ternary HEStd_128_classic)))))
    \<and> FindRingDim HEStd_ternary HEStd_128_classic 0 = Inr (2 * fst (snd (last (byLogQ HEStd_ternary HEStd_128_classic))))"
  by (rule FindRingDim_smallest) simp_all

end
