(* ===== verification/FHEContext.thy ===== *)
theory FHEContext
  imports MKKeys UnityRoots LatticeParms
begin

text \<open>
  The context of the boolean schemes, \<^verbatim>\<open>src/src/binfhe/include/binfhecontext.h\<close> and
  \<^verbatim>\<open>src/src/binfhe/lib/binfhecontext.cpp\<close>: the parameter sets, the construction of the parameters with their
  prime modulus and ring, and the operations of the multi-party schemes and of LWE encryption that the
  context passes on.  \<^verbatim>\<open>ILNativeParams\<close> is \<^verbatim>\<open>src/src/core/include/lattice/ilparams.h\<close>, \<^verbatim>\<open>RingGSWCryptoParams\<close> is
  \<^verbatim>\<open>src/src/binfhe/include/rgsw-cryptoparameters.h\<close> and \<^verbatim>\<open>lib/rgsw-cryptoparameters.cpp\<close>.

  A pointer is an \<open>option\<close>.  The members \<^verbatim>\<open>m_LWEscheme\<close>, \<^verbatim>\<open>m_MNTRUscheme\<close> and \<^verbatim>\<open>m_MKLWEscheme\<close> point to classes
  without state and are no part of the record.  The digit counts that the code takes from floating point
  logarithms are the fields of \<open>log_counts\<close>; \<open>draw\<close> and its state are the random generator of the searches.
\<close>

section \<open>Ring parameters\<close>

definition ILNativeParams :: "'g distribution \<Rightarrow> 32 word \<Rightarrow> 'a::len word \<Rightarrow> 'g \<Rightarrow> ('a il_params \<times> 'g) result option" where
  "ILNativeParams draw order modulus g =
     bindO (RootOfUnity draw order modulus g) (\<lambda>(r, g).
     bindO (GetTotient draw (ucast order) g) (\<lambda>(t, g).
       Some (Inr (\<lparr> cyclotomicOrder = order, ringDimension = ucast t, ciphertextModulus = modulus, rootOfUnity = r,
         bigCiphertextModulus = 0, bigRootOfUnity = 0 \<rparr>, g))))"

record (overloaded) 'a log_counts =
  lc_digitsG :: "'a::len word \<Rightarrow> 32 word \<Rightarrow> 32 word"
  lc_digitsR :: "'a word \<Rightarrow> 32 word \<Rightarrow> nat"
  lc_sign :: "'a word \<Rightarrow> nat list"

record (overloaded) 'a rgsw_params =
  rg_N :: "32 word"
  rg_Q :: "'a::len word"
  rg_q :: "'a word"
  rg_baseG :: "32 word"
  rg_baseR :: "32 word"
  rg_digitsG :: "32 word"
  rg_digitsR :: "'a word list"
  rg_Gpower :: "'a word list"
  rg_Gpower_map :: "32 word \<rightharpoonup> 'a word list"
  rg_polyParams :: "'a il_params"
  rg_gateConst :: "'a word list"
  rg_monomials :: "'a poly list"
  rg_logGen :: "32 word list"
  rg_method :: BINFHE_METHOD
  rg_keyDist :: SecretKeyDist
  rg_numAutoKeys :: nat

text \<open>The powers of \<open>baseR\<close>, with the wrap-around of \<^verbatim>\<open>BasicInteger\<close>.\<close>

primrec rpowers :: "'a::len word \<Rightarrow> nat \<Rightarrow> 'a word \<Rightarrow> 'a word list" where
  "rpowers baseR 0 value = []"
| "rpowers baseR (Suc n) value = value # rpowers baseR n (value * baseR)"

definition rgsw_gpower_step :: "'a::len word \<Rightarrow> (32 word \<times> nat) \<Rightarrow> 'a rgsw_params \<Rightarrow> 'a rgsw_params" where
  "rgsw_gpower_step Q bn P =
     (case bn of (bs, n) \<Rightarrow>
        let tempvec = gpowers Q (ucast bs) n 1;
            P = (if rg_baseG P = bs then P \<lparr> rg_Gpower := tempvec \<rparr> else P)
        in P \<lparr> rg_Gpower_map := (rg_Gpower_map P)(bs \<mapsto> tempvec) \<rparr>)"

definition rgsw_PreCompute ::
  "'a::len arb_transform \<Rightarrow> 'a log_counts \<Rightarrow> bool \<Rightarrow> 'a rgsw_params \<Rightarrow> 'a ftt_cache \<Rightarrow> ('a ftt_cache \<times> 'a rgsw_params) result" where
  "rgsw_PreCompute arb lc signEval P cache =
     (let P = (if rg_method P = AP
               then P \<lparr> rg_digitsR := rpowers (ucast (rg_baseR P)) (lc_digitsR lc (rg_q P) (rg_baseR P)) 1 \<rparr> else P);
          P = (if signEval
               then fold (rgsw_gpower_step (rg_Q P)) (zip [2 ^ 14, 2 ^ 18, 2 ^ 27] (lc_sign lc (rg_Q P))) P
               else P \<lparr> rg_Gpower := rg_Gpower P @ gpowers (rg_Q P) (ucast (rg_baseG P)) (unat (rg_digitsG P)) 1 \<rparr>);
          P = P \<lparr> rg_gateConst := gateConst (rg_q P) \<rparr>
      in bindR (if rg_method P = GINX
                then monomials arb (rg_polyParams P) (rg_Q P) (unat (rg_N P)) cache else Inr (cache, []))
         (\<lambda>(cache, ms).
         bindR (if rg_method P = LMKCDEY then log_gen (rg_N P) else Inr (rg_logGen P)) (\<lambda>lg.
           Inr (cache, P \<lparr> rg_monomials := rg_monomials P @ ms, rg_logGen := lg \<rparr>))))"

definition RingGSWCryptoParams ::
  "'a::len arb_transform \<Rightarrow> 'a log_counts \<Rightarrow> 'g distribution \<Rightarrow> 32 word \<Rightarrow> 'a word \<Rightarrow> 'a word \<Rightarrow> 32 word \<Rightarrow> 32 word
     \<Rightarrow> BINFHE_METHOD \<Rightarrow> SecretKeyDist \<Rightarrow> bool \<Rightarrow> nat \<Rightarrow> 'a ftt_cache \<times> 'g \<Rightarrow> ('a rgsw_params \<times> 'a ftt_cache \<times> 'g) result option" where
  "RingGSWCryptoParams arb lc draw N Q q baseG baseR method keyDist signEval numAutoKeys st =
     bindO (ILNativeParams draw (2 * N) Q (snd st)) (\<lambda>(pp, g).
       if \<not> IsPowerOfTwo baseG then Some (Inl config_error)
       else if method = LMKCDEY \<and> numAutoKeys = 0 then Some (Inl config_error)
       else bindO (Some (rgsw_PreCompute arb lc signEval
              \<lparr> rg_N = N, rg_Q = Q, rg_q = q, rg_baseG = baseG, rg_baseR = baseR, rg_digitsG = lc_digitsG lc Q baseG,
                 rg_digitsR = [], rg_Gpower = [], rg_Gpower_map = Map.empty, rg_polyParams = pp, rg_gateConst = [],
                 rg_monomials = [], rg_logGen = [], rg_method = method, rg_keyDist = keyDist,
                 rg_numAutoKeys = numAutoKeys \<rparr> (fst st))) (\<lambda>(cache, P). Some (Inr (P, cache, g))))"

definition rgsw_Change_BaseG :: "'a::len log_counts \<Rightarrow> 32 word \<Rightarrow> 'a rgsw_params \<Rightarrow> 'a rgsw_params" where
  "rgsw_Change_BaseG lc BaseG P =
     (if rg_baseG P \<noteq> BaseG
      then P \<lparr> rg_baseG := BaseG,
               rg_Gpower := (case rg_Gpower_map P BaseG of None \<Rightarrow> [] | Some v \<Rightarrow> v),
               rg_Gpower_map := (case rg_Gpower_map P BaseG of None \<Rightarrow> (rg_Gpower_map P)(BaseG \<mapsto> []) | Some v \<Rightarrow> rg_Gpower_map P),
               rg_digitsG := lc_digitsG lc (rg_Q P) BaseG \<rparr>
      else P)"

section \<open>Parameter sets\<close>

datatype BINFHE_PARAMSET =
    TOY | MEDIUM | STD128_LMKCDEY | STD128_AP | STD128 | STD192 | STD256 | STD128Q | STD128Q_LMKCDEY
  | STD192Q | STD256Q | STD128_3 | STD128_3_LMKCDEY | STD128Q_3 | STD128Q_3_LMKCDEY | STD192Q_3 | STD256Q_3
  | STD128_4 | STD128_4_LMKCDEY | STD128Q_4 | STD128Q_4_LMKCDEY | STD192Q_4 | STD256Q_4 | SIGNED_MOD_TEST
  | P128T | P128G | P128T_2 | P128G_2 | STD128_LMKCDEY_New | P192T | P192G | STD128_MKNTRU
  | STD128_MKNTRU_2 | STD128_MKNTRU_3 | STD128_MKNTRU_4 | STD128_MKNTRU_LWE | STD128_MKNTRU_LWE_2
  | STD128_MKNTRU_LWE_3 | STD128_MKNTRU_LWE_4 | STD100_MKNTRU | STD100_MKNTRU_2 | STD100_MKNTRU_3
  | STD100_MKNTRU_4 | STD100_MKNTRU_LWE | STD100_MKNTRU_LWE_2 | STD100_MKNTRU_LWE_3 | STD100_MKNTRU_LWE_4

datatype BINFHE_OUTPUT = INVALID_OUTPUT | FRESH | BOOTSTRAPPED | LARGE_DIM | SMALL_DIM

record BinFHEContextParams =
  cp_numUser :: nat
  cp_numberBits :: nat
  cp_cyclOrder :: nat
  cp_latticeParam :: nat
  cp_mod :: nat
  cp_modKS :: nat
  cp_stdDev :: rat
  cp_baseKS :: nat
  cp_gadgetBase :: nat
  cp_baseRK :: nat
  cp_numAutoKeys :: nat
  cp_keyDist :: SecretKeyDist

abbreviation ctx_params :: "nat \<Rightarrow> nat \<Rightarrow> nat \<Rightarrow> nat \<Rightarrow> nat \<Rightarrow> nat \<Rightarrow> rat \<Rightarrow> nat \<Rightarrow> nat \<Rightarrow> nat \<Rightarrow> nat \<Rightarrow> SecretKeyDist
    \<Rightarrow> BinFHEContextParams" where
  "ctx_params u b c n q qKS s bKS bG bR a d \<equiv> \<lparr> cp_numUser = u, cp_numberBits = b, cp_cyclOrder = c, cp_latticeParam = n,
     cp_mod = q, cp_modKS = qKS, cp_stdDev = s, cp_baseKS = bKS, cp_gadgetBase = bG, cp_baseRK = bR, cp_numAutoKeys = a,
     cp_keyDist = d \<rparr>"

definition paramsMap :: "(BINFHE_PARAMSET \<times> BinFHEContextParams) list" where
  "paramsMap =
    [(TOY, ctx_params 1 27 1024 64 512 0 (19 / 10) 25 (2 ^ 9) 23 9 UNIFORM_TERNARY),
     (MEDIUM, ctx_params 1 28 2048 422 1024 (2 ^ 14) (19 / 10) (2 ^ 7) (2 ^ 10) 32 10 UNIFORM_TERNARY),
     (STD192, ctx_params 1 37 4096 805 1024 (2 ^ 15) (19 / 10) 32 (2 ^ 13) 32 10 UNIFORM_TERNARY),
     (STD256, ctx_params 1 29 4096 990 2048 (2 ^ 14) (19 / 10) (2 ^ 7) (2 ^ 8) 46 10 UNIFORM_TERNARY),
     (STD128Q, ctx_params 1 25 2048 534 1024 (2 ^ 14) (19 / 10) 32 (2 ^ 7) 32 10 UNIFORM_TERNARY),
     (STD128Q_LMKCDEY, ctx_params 1 27 2048 448 1024 (2 ^ 13) (19 / 10) 32 (2 ^ 9) 32 10 GAUSSIAN),
     (STD192Q, ctx_params 1 35 4096 875 1024 (2 ^ 15) (19 / 10) 32 (2 ^ 12) 32 10 UNIFORM_TERNARY),
     (STD256Q, ctx_params 1 27 4096 1225 1024 (2 ^ 16) (19 / 10) 16 (2 ^ 7) 32 10 UNIFORM_TERNARY),
     (STD128_3, ctx_params 1 27 2048 541 1024 (2 ^ 15) (19 / 10) 32 (2 ^ 7) 32 10 UNIFORM_TERNARY),
     (STD128_3_LMKCDEY, ctx_params 1 28 2048 485 1024 (2 ^ 15) (19 / 10) 32 (2 ^ 10) 32 10 GAUSSIAN),
     (STD128Q_3_LMKCDEY, ctx_params 1 27 2048 524 1024 (2 ^ 15) (19 / 10) 32 (2 ^ 9) 32 10 GAUSSIAN),
     (STD192Q_3, ctx_params 1 34 4096 922 2048 (2 ^ 16) (19 / 10) 16 (2 ^ 12) 32 10 UNIFORM_TERNARY),
     (STD256Q_3, ctx_params 1 27 4096 1400 4096 (2 ^ 16) (19 / 10) 21 (2 ^ 6) 32 10 UNIFORM_TERNARY),
     (STD128_4, ctx_params 1 27 2048 541 2048 (2 ^ 15) (19 / 10) 32 (2 ^ 7) 32 10 UNIFORM_TERNARY),
     (STD128_4_LMKCDEY, ctx_params 1 28 2048 522 2048 (2 ^ 15) (19 / 10) 32 (2 ^ 10) 32 10 GAUSSIAN),
     (STD128Q_4, ctx_params 1 50 4096 647 2048 (2 ^ 16) (19 / 10) 16 (2 ^ 25) 32 10 UNIFORM_TERNARY),
     (STD128Q_4_LMKCDEY, ctx_params 1 27 2048 524 2048 (2 ^ 15) (19 / 10) 32 (2 ^ 7) 32 10 GAUSSIAN),
     (STD192Q_4, ctx_params 1 34 4096 980 2048 (2 ^ 17) (19 / 10) 16 (2 ^ 12) 32 10 UNIFORM_TERNARY),
     (STD256Q_4, ctx_params 1 27 4096 1625 4096 (2 ^ 21) (19 / 10) 16 (2 ^ 6) 32 10 UNIFORM_TERNARY),
     (SIGNED_MOD_TEST, ctx_params 1 28 2048 512 1024 0 (19 / 10) 25 (2 ^ 7) 23 10 UNIFORM_TERNARY),
     (STD128_LMKCDEY, ctx_params 1 28 2048 446 1024 (2 ^ 13) (19 / 10) (2 ^ 5) (2 ^ 10) 32 10 GAUSSIAN),
     (STD128_LMKCDEY_New, ctx_params 1 28 2048 446 1024 (2 ^ 13) (19 / 10) (2 ^ 5) (2 ^ 7) 32 10 GAUSSIAN),
     (STD128_AP, ctx_params 1 27 2048 503 1024 (2 ^ 14) (19 / 10) (2 ^ 5) (2 ^ 9) 32 10 UNIFORM_TERNARY),
     (STD128, ctx_params 1 27 2048 503 1024 (2 ^ 14) (19 / 10) (2 ^ 5) (2 ^ 9) 32 10 UNIFORM_TERNARY),
     (P128T, ctx_params 1 21 2048 512 1024 (2 ^ 14) (1 / 2) 32 (2 ^ 7) 32 10 UNIFORM_TERNARY),
     (P128G, ctx_params 1 21 2048 446 1024 (2 ^ 14) (1 / 2) 32 (2 ^ 7) 32 10 GAUSSIAN),
     (P128T_2, ctx_params 1 21 2048 512 1024 (2 ^ 14) (1 / 2) 32 (2 ^ 6) 32 10 UNIFORM_TERNARY),
     (P128G_2, ctx_params 1 21 2048 446 1024 (2 ^ 14) (1 / 2) 32 (2 ^ 5) 32 10 GAUSSIAN),
     (P192T, ctx_params 1 26 4096 1024 1024 (2 ^ 17) (1 / 2) 28 (2 ^ 9) 32 10 UNIFORM_TERNARY),
     (P192G, ctx_params 1 26 4096 805 1024 (2 ^ 17) (1 / 2) 28 (2 ^ 9) 32 10 GAUSSIAN),
     (STD128_MKNTRU, ctx_params 2 27 4096 765 45181 45181 (1 / 2) 32 (2 ^ 7) 32 10 UNIFORM_TERNARY),
     (STD128_MKNTRU_2, ctx_params 4 27 4096 765 45181 45181 (1 / 2) 32 (2 ^ 7) 32 10 UNIFORM_TERNARY),
     (STD128_MKNTRU_3, ctx_params 8 27 4096 765 45181 45181 (1 / 2) 32 (2 ^ 6) 32 10 UNIFORM_TERNARY),
     (STD128_MKNTRU_4, ctx_params 16 27 4096 765 45181 45181 (1 / 2) 32 (2 ^ 5) 32 10 UNIFORM_TERNARY),
     (STD128_MKNTRU_LWE, ctx_params 2 27 4096 635 32749 32749 (19 / 10) 32 (2 ^ 9) 2 10 BINARY),
     (STD128_MKNTRU_LWE_2, ctx_params 4 27 4096 635 32749 32749 (19 / 10) 32 (2 ^ 9) 2 10 BINARY),
     (STD128_MKNTRU_LWE_3, ctx_params 8 27 4096 635 32749 32749 (19 / 10) 32 (2 ^ 9) 2 10 BINARY),
     (STD128_MKNTRU_LWE_4, ctx_params 16 27 4096 635 32749 32749 (19 / 10) 32 (2 ^ 7) 2 10 BINARY),
     (STD100_MKNTRU, ctx_params 2 27 4096 560 45181 45181 (3 / 4) 32 (2 ^ 9) 32 10 UNIFORM_TERNARY),
     (STD100_MKNTRU_2, ctx_params 4 27 4096 560 45181 45181 (3 / 4) 32 (2 ^ 9) 32 10 UNIFORM_TERNARY),
     (STD100_MKNTRU_3, ctx_params 8 27 4096 560 45181 45181 (3 / 4) 32 (2 ^ 9) 32 10 UNIFORM_TERNARY),
     (STD100_MKNTRU_4, ctx_params 16 27 4096 560 45181 45181 (3 / 4) 32 (2 ^ 9) 32 10 UNIFORM_TERNARY),
     (STD100_MKNTRU_LWE, ctx_params 2 27 4096 500 32749 32749 (19 / 10) 32 (2 ^ 9) 2 10 BINARY),
     (STD100_MKNTRU_LWE_2, ctx_params 4 27 4096 500 32749 32749 (19 / 10) 32 (2 ^ 9) 2 10 BINARY),
     (STD100_MKNTRU_LWE_3, ctx_params 8 27 4096 500 32749 32749 (19 / 10) 32 (2 ^ 9) 2 10 BINARY),
     (STD100_MKNTRU_LWE_4, ctx_params 16 27 4096 500 32749 32749 (19 / 10) 32 (2 ^ 9) 2 10 BINARY)]"

section \<open>The context\<close>

record (overloaded) 'a fhe_context =
  c_lwe :: "'a::len lwe_params option"
  c_rgsw :: "'a rgsw_params option"
  c_mntru :: "'a mntru_params option"
  c_mklwe :: "'a mklwe_params option"
  c_uni :: "'a uni_params option"
  c_method :: "BINFHE_METHOD option"
  c_timeOptimization :: bool
  c_MKBTKey :: "'a mk_btkey"
  c_MKBTKey_map :: "32 word \<rightharpoonup> 'a mk_btkey"
  c_ctNAND :: "'a mntru_ct option"

text \<open>\<^verbatim>\<open>m_MKBTKey = {0}\<close> and the default constructor.\<close>

definition no_btkey :: "'a::len mk_btkey" where
  "no_btkey = \<lparr> bt_BSkey = None, bt_KSkey2 = None, bt_LKSkey = None, bt_Pkey = [], bt_f = [], bt_fvec = [],
     bt_F_col0 = [], bt_lwesk = [] \<rparr>"

definition BinFHEContext :: "'a::len fhe_context" where
  "BinFHEContext = \<lparr> c_lwe = None, c_rgsw = None, c_mntru = None, c_mklwe = None, c_uni = None, c_method = None,
     c_timeOptimization = False, c_MKBTKey = no_btkey, c_MKBTKey_map = Map.empty, c_ctNAND = None \<rparr>"

text \<open>The constructor \<^verbatim>\<open>BinFHEScheme(method)\<close>, whose object is known by its method.\<close>

definition BinFHEScheme :: "BINFHE_METHOD \<Rightarrow> BINFHE_METHOD result" where
  "BinFHEScheme method = (if method = INVALID_METHOD then Inl config_error else Inr method)"

text \<open>A new \<^verbatim>\<open>BinFHECryptoParams\<close> replaces the parameters of all schemes, then the scheme is replaced.\<close>

definition set_params :: "'a::len lwe_params option \<Rightarrow> 'a rgsw_params option \<Rightarrow> 'a mntru_params option \<Rightarrow> 'a mklwe_params option
    \<Rightarrow> 'a uni_params option \<Rightarrow> BINFHE_METHOD \<Rightarrow> 'a fhe_context \<Rightarrow> 'a fhe_context result" where
  "set_params lwe rgsw mntru mklwe uni method ctx =
     bindR (BinFHEScheme method) (\<lambda>method. Inr (ctx \<lparr> c_lwe := lwe, c_rgsw := rgsw, c_mntru := mntru,
       c_mklwe := mklwe, c_uni := uni, c_method := Some method \<rparr>))"

text \<open>The prime modulus of a parameter set.\<close>

definition intermediate_prime :: "'g distribution \<Rightarrow> nat \<Rightarrow> 64 word \<Rightarrow> 'g \<Rightarrow> ('a::len word \<times> 'g) result option" where
  "intermediate_prime draw numberBits cyclOrder g =
     bindO (FirstPrime draw numberBits cyclOrder g) (\<lambda>(Q, g). PreviousPrime draw Q cyclOrder g)"

definition GenerateBinFHEContext_values ::
  "'a::len arb_transform \<Rightarrow> 'a log_counts \<Rightarrow> 'g distribution \<Rightarrow> nat \<Rightarrow> 32 word \<Rightarrow> 'a word \<Rightarrow> 'a word \<Rightarrow> nat \<Rightarrow> 32 word \<Rightarrow> 32 word
     \<Rightarrow> SecretKeyDist \<Rightarrow> BINFHE_METHOD \<Rightarrow> nat \<Rightarrow> 'a fhe_context \<Rightarrow> 'a ftt_cache \<times> 'g \<Rightarrow> ('a fhe_context \<times> 'a ftt_cache \<times> 'g) result option" where
  "GenerateBinFHEContext_values arb lc draw n N q Q baseKS baseG baseR keyDist method numAutoKeys ctx st =
     bindO (Some (LWECryptoParams n (unat N) q Q Q baseKS UNIFORM_TERNARY)) (\<lambda>lwe.
     bindO (RingGSWCryptoParams arb lc draw N Q q baseG baseR method keyDist True numAutoKeys st) (\<lambda>(rgsw, cache, g).
       bindO (Some (set_params (Some lwe) (Some rgsw) None None None method ctx)) (\<lambda>ctx. Some (Inr (ctx, cache, g)))))"

text \<open>The contexts for the evaluation of arbitrary functions and of the sign.\<close>

definition GenerateBinFHEContext_sign ::
  "'a::len arb_transform \<Rightarrow> 'a log_counts \<Rightarrow> 'g distribution \<Rightarrow> BINFHE_PARAMSET \<Rightarrow> bool \<Rightarrow> nat \<Rightarrow> int \<Rightarrow> BINFHE_METHOD \<Rightarrow> bool
     \<Rightarrow> 'a fhe_context \<Rightarrow> 'a ftt_cache \<times> 'g \<Rightarrow> ('a fhe_context \<times> 'a ftt_cache \<times> 'g) result option" where
  "GenerateBinFHEContext_sign arb lc draw pset arbFunc logQ N method timeOptimization ctx st =
     (if GINX \<noteq> method then Some (Inl not_implemented_error)
      else if pset \<noteq> STD128 \<and> pset \<noteq> TOY then Some (Inl not_implemented_error)
      else if logQ > 29 then Some (Inl not_implemented_error)
      else if logQ < 11 then Some (Inl not_implemented_error)
      else
        let logQprime = (if logQ > 11 then 54 else 27);
            baseG = (if logQ > 25 then 2 ^ 14 else if logQ > 16 then 2 ^ 18 else if logQ > 11 then 2 ^ 27 else 2 ^ 5) in
        bindO (Some (FindRingDim HEStd_ternary HEStd_128_classic logQprime)) (\<lambda>dim.
        let ringDim = (if N \<ge> int dim then word_of_int N else word_of_nat dim) :: 32 word in
        bindO (intermediate_prime draw logQprime (ucast (2 * ringDim)) (snd st)) (\<lambda>(Q, g).
        let q = (if arbFunc then ringDim else 2 * ringDim);
            n = (if pset = TOY then 32 else 1305) in
        bindO (Some (LWECryptoParams n (unat ringDim) (ucast q) Q (2 ^ 35) 32 UNIFORM_TERNARY)) (\<lambda>lwe.
        bindO (RingGSWCryptoParams arb lc draw ringDim Q (ucast q) baseG 23 method UNIFORM_TERNARY
            (logQ \<noteq> 11 \<and> timeOptimization) 10 (fst st, g)) (\<lambda>(rgsw, cache, g).
          bindO (Some (set_params (Some lwe) (Some rgsw) None None None method
            (ctx \<lparr> c_timeOptimization := timeOptimization \<rparr>))) (\<lambda>ctx. Some (Inr (ctx, cache, g))))))))"

text \<open>
  The contexts of the predefined sets.  The parameters of all three schemes are built, then those of the
  method are kept; \<open>crs\<close> is the Gaussian vector of the common reference string for a modulus.
\<close>

definition GenerateBinFHEContext ::
  "'a::len arb_transform \<Rightarrow> 'a log_counts \<Rightarrow> ('a word \<Rightarrow> 'a nvec) \<Rightarrow> 'g distribution \<Rightarrow> BINFHE_PARAMSET \<Rightarrow> BINFHE_METHOD
     \<Rightarrow> 'a fhe_context \<Rightarrow> 'a ftt_cache \<times> 'g \<Rightarrow> ('a fhe_context \<times> 'a ftt_cache \<times> 'g) result option" where
  "GenerateBinFHEContext arb lc crs draw pset method ctx st =
     (case map_of paramsMap pset of
        None \<Rightarrow> Some (Inl config_error)
      | Some params \<Rightarrow>
          bindO (intermediate_prime draw (cp_numberBits params) (word_of_nat (cp_cyclOrder params)) (snd st)) (\<lambda>(Q, g).
          let ringDim = cp_cyclOrder params div 2; q = word_of_nat (cp_mod params); qKS = word_of_nat (cp_modKS params);
              n = cp_latticeParam params; baseKS = cp_baseKS params; keyDist = cp_keyDist params; k = cp_numUser params in
          bindO (Some (LWECryptoParams n ringDim q Q (if cp_modKS params = 0 then Q else qKS) baseKS keyDist)) (\<lambda>lwe.
          bindO (Some (MNTRUCryptoParams k n ringDim q Q qKS baseKS keyDist)) (\<lambda>mntru.
          bindO (Some (MKLWECryptoParams k n ringDim q Q qKS baseKS keyDist)) (\<lambda>mklwe.
          if method \<in> {MKNTRU, MKNTRU_B, MKNTRU_LWE}
          then
            bindO (ILNativeParams draw (2 * word_of_nat ringDim) Q g) (\<lambda>(pp, g).
            bindO (Some (UniEncCryptoParams arb k (word_of_nat ringDim) Q q (word_of_nat (cp_gadgetBase params))
                (word_of_nat (cp_baseRK params)) method False (cp_numAutoKeys params) pp
                (lc_digitsG lc Q (word_of_nat (cp_gadgetBase params))) (lc_sign lc Q) (crs Q) (fst st))) (\<lambda>(cache, uni).
              bindO (Some (if method = MKNTRU_LWE then set_params None None None (Some mklwe) (Some uni) method ctx
                else set_params None None (Some mntru) None (Some uni) method ctx)) (\<lambda>ctx. Some (Inr (ctx, cache, g)))))
          else
            bindO (RingGSWCryptoParams arb lc draw (word_of_nat ringDim) Q q (word_of_nat (cp_gadgetBase params))
                (word_of_nat (cp_baseRK params)) method keyDist False (cp_numAutoKeys params) (fst st, g)) (\<lambda>(rgsw, cache, g).
              bindO (Some (set_params (Some lwe) (Some rgsw) None None None method ctx)) (\<lambda>ctx. Some (Inr (ctx, cache, g)))))))))"

definition GenerateBinFHEContext_params ::
  "'a::len arb_transform \<Rightarrow> 'a log_counts \<Rightarrow> 'g distribution \<Rightarrow> BinFHEContextParams \<Rightarrow> BINFHE_METHOD
     \<Rightarrow> 'a fhe_context \<Rightarrow> 'a ftt_cache \<times> 'g \<Rightarrow> ('a fhe_context \<times> 'a ftt_cache \<times> 'g) result option" where
  "GenerateBinFHEContext_params arb lc draw params method ctx st =
     bindO (intermediate_prime draw (cp_numberBits params) (word_of_nat (cp_cyclOrder params)) (snd st)) (\<lambda>(Q, g).
     let ringDim = cp_cyclOrder params div 2 in
     bindO (Some (LWECryptoParams (cp_latticeParam params) ringDim (word_of_nat (cp_mod params)) Q
         (if cp_modKS params = 0 then Q else word_of_nat (cp_modKS params)) (cp_baseKS params) (cp_keyDist params))) (\<lambda>lwe.
     bindO (RingGSWCryptoParams arb lc draw (word_of_nat ringDim) Q (word_of_nat (cp_mod params))
         (word_of_nat (cp_gadgetBase params)) (word_of_nat (cp_baseRK params)) method (cp_keyDist params) False
         (cp_numAutoKeys params) (fst st, g)) (\<lambda>(rgsw, cache, g).
       bindO (Some (set_params (Some lwe) (Some rgsw) None None None method ctx)) (\<lambda>ctx. Some (Inr (ctx, cache, g))))))"

section \<open>Keys, encryption and decryption\<close>

text \<open>The random generators are functions of the dimension and the modulus that the context passes to them.\<close>

definition ctx_KeyGen :: "'a::len fhe_context \<Rightarrow> (nat \<Rightarrow> 'a word \<Rightarrow> 'a nvec) \<Rightarrow> (nat \<Rightarrow> 'a word \<Rightarrow> 'a nvec) \<Rightarrow> 'a nvec result" where
  "ctx_KeyGen ctx ternary gaussian =
     bindR (opt (c_lwe ctx)) (\<lambda>params.
       Inr ((if p_keyDist params = GAUSSIAN then gaussian else ternary) (p_n params) (p_qKS params)))"

definition ctx_KeyGenN :: "'a::len fhe_context \<Rightarrow> (nat \<Rightarrow> 'a word \<Rightarrow> 'a nvec) \<Rightarrow> (nat \<Rightarrow> 'a word \<Rightarrow> 'a nvec) \<Rightarrow> 'a nvec result" where
  "ctx_KeyGenN ctx ternary gaussian =
     bindR (opt (c_lwe ctx)) (\<lambda>params.
       Inr ((if p_keyDist params = GAUSSIAN then gaussian else ternary) (p_N params) (p_Q params)))"

text \<open>The matrices and their inverses from NTL, for each distribution of the entries.\<close>

definition ctx_MNTRU_KeyGen ::
  "'a::len fhe_context \<Rightarrow> (SecretKeyDist \<Rightarrow> nat \<Rightarrow> 32 word list list) \<Rightarrow> (SecretKeyDist \<Rightarrow> nat \<Rightarrow> 32 word list list) \<Rightarrow> 'a mntru_sk result" where
  "ctx_MNTRU_KeyGen ctx ntl_mat ntl_inv =
     bindR (opt (c_mntru ctx)) (\<lambda>params.
       let d = (if np_keyDist params = GAUSSIAN then GAUSSIAN else UNIFORM_TERNARY)
       in Inr (nt_KeyGen (np_k params) (np_n params) (np_qKS params) (ntl_mat d) (ntl_inv d)))"

definition ctx_MKLWE_KeyGen :: "'a::len fhe_context \<Rightarrow> (nat \<Rightarrow> 'a word \<Rightarrow> nat \<Rightarrow> 'a nvec) \<Rightarrow> 'a nvec list result" where
  "ctx_MKLWE_KeyGen ctx bug =
     bindR (opt (c_mklwe ctx)) (\<lambda>params.
       if mp_keyDist params \<noteq> BINARY then Inl config_error
       else Inr (mk_KeyGenBinary (mp_k params) (bug (mp_n params) (mp_qKS params))))"

definition ctx_KeyGenPair ::
  "'a::len fhe_context \<Rightarrow> 'a nvec \<Rightarrow> 'a nvec \<Rightarrow> 'a nvec list \<Rightarrow> 'a nvec \<Rightarrow> ('a lwe_pk \<times> 'a nvec) result" where
  "ctx_KeyGenPair ctx ternary gaussian A e = bindR (opt (c_lwe ctx)) (\<lambda>params. KeyGenPair params ternary gaussian A e)"

definition ctx_PubKeyGen :: "'a::len fhe_context \<Rightarrow> 'a nvec \<Rightarrow> 'a nvec list \<Rightarrow> 'a nvec \<Rightarrow> 'a lwe_pk result" where
  "ctx_PubKeyGen ctx skN A e = bindR (opt (c_lwe ctx)) (\<lambda>params. PubKeyGen params skN A e)"

text \<open>A modulus of zero selects the modulus of the parameters.\<close>

definition ctx_Encrypt ::
  "'a::len fhe_context \<Rightarrow> 'a nvec \<Rightarrow> 64 word \<Rightarrow> 64 word \<Rightarrow> 'a word \<Rightarrow> 'a word \<Rightarrow> 'a nvec \<Rightarrow> 'a lwe_ct result" where
  "ctx_Encrypt ctx sk m p md e a =
     bindR (opt (c_lwe ctx)) (\<lambda>params. Encrypt sk m p (if md = 0 then p_q params else md) e a)"

definition ctx_Encrypt_MKLWE ::
  "'a::len fhe_context \<Rightarrow> 'a nvec list \<Rightarrow> 64 word \<Rightarrow> 64 word \<Rightarrow> 'a word \<Rightarrow> 'a word \<Rightarrow> (nat \<Rightarrow> 'a nvec) \<Rightarrow> 'a mklwe_ct result" where
  "ctx_Encrypt_MKLWE ctx sk m p md err dgg =
     bindR (opt (c_mklwe ctx)) (\<lambda>params. mk_Encrypt params sk m p (if md = 0 then mp_q params else md) err dgg)"

definition ctx_Encrypt_MNTRU ::
  "'a::len fhe_context \<Rightarrow> 'a mntru_sk \<Rightarrow> 64 word \<Rightarrow> 64 word \<Rightarrow> 'a word \<Rightarrow> (nat \<Rightarrow> 'a nvec) \<Rightarrow> 'a mntru_ct result" where
  "ctx_Encrypt_MNTRU ctx sk m p md dgg =
     bindR (opt (c_mntru ctx)) (\<lambda>params. nt_Encrypt sk m p (if md = 0 then np_q params else md) dgg)"

definition ctx_Decrypt :: "'a::len fhe_context \<Rightarrow> 'a nvec \<Rightarrow> 'a lwe_ct \<Rightarrow> 64 word \<Rightarrow> 64 word result" where
  "ctx_Decrypt ctx sk ct p = bindR (opt (c_lwe ctx)) (\<lambda>params. Decrypt sk ct p)"

definition ctx_Decrypt_MNTRU :: "'a::len fhe_context \<Rightarrow> 'a mntru_sk \<Rightarrow> 'a mntru_ct \<Rightarrow> 64 word \<Rightarrow> 64 word result" where
  "ctx_Decrypt_MNTRU ctx sk ct p = bindR (opt (c_mntru ctx)) (\<lambda>params. nt_Decrypt sk ct p)"

definition ctx_DecryptNAND_MNTRU :: "'a::len fhe_context \<Rightarrow> 'a mntru_sk \<Rightarrow> 'a mntru_ct \<Rightarrow> 64 word \<Rightarrow> 64 word result" where
  "ctx_DecryptNAND_MNTRU ctx sk ct p = bindR (opt (c_mntru ctx)) (\<lambda>params. nt_DecryptNAND sk ct p)"

definition ctx_Decrypt2_MNTRU :: "'a::len fhe_context \<Rightarrow> 'a mntru_sk \<Rightarrow> 'a mntru_ct \<Rightarrow> 64 word \<Rightarrow> 64 word result" where
  "ctx_Decrypt2_MNTRU ctx sk ct p = bindR (opt (c_mntru ctx)) (\<lambda>params. nt_Decrypt2 sk ct p)"

definition ctx_Decrypt_MKLWE :: "'a::len fhe_context \<Rightarrow> 'a nvec list \<Rightarrow> 'a mklwe_ct \<Rightarrow> 64 word \<Rightarrow> 64 word result" where
  "ctx_Decrypt_MKLWE ctx sk ct p = bindR (opt (c_mklwe ctx)) (\<lambda>params. mk_Decrypt params sk ct p)"

definition ctx_DecryptNAND_MKLWE :: "'a::len fhe_context \<Rightarrow> 'a nvec list \<Rightarrow> 'a mklwe_ct \<Rightarrow> 64 word \<Rightarrow> 64 word result" where
  "ctx_DecryptNAND_MKLWE ctx sk ct p = bindR (opt (c_mklwe ctx)) (\<lambda>params. mk_DecryptNAND params sk ct p)"

text \<open>The guard of \<^verbatim>\<open>SwitchCTtoqn\<close> throws only when both the length and the modulus are wrong.\<close>

definition ctx_SwitchCTtoqn :: "'a::len fhe_context \<Rightarrow> 'a lwe_ksk \<Rightarrow> 'a lwe_ct \<Rightarrow> 'a lwe_ct result" where
  "ctx_SwitchCTtoqn ctx ksk ct =
     bindR (opt (c_lwe ctx)) (\<lambda>params.
       if length (m_data (ct_a ct)) \<noteq> p_N params \<and> ct_modulus ct \<noteq> p_Q params then Inl config_error
       else Inr (SwitchCTtoqn params ksk ct))"

text \<open>Public key encryption; \<open>KSkey\<close> is the key switching key of the bootstrapping keys of the context.\<close>

definition ctx_Encrypt_pk ::
  "'a::len fhe_context \<Rightarrow> 'a lwe_ksk option \<Rightarrow> 'a lwe_pk \<Rightarrow> 64 word \<Rightarrow> BINFHE_OUTPUT \<Rightarrow> 64 word \<Rightarrow> 'a word
     \<Rightarrow> 'a word \<Rightarrow> 'a nvec \<Rightarrow> 'a nvec \<Rightarrow> 'a lwe_ct result" where
  "ctx_Encrypt_pk ctx KSkey pk m output p md e sp ep =
     bindR (opt (c_lwe ctx)) (\<lambda>params.
     bindR (EncryptN pk m p (if md = 0 then p_Q params else md) e sp ep) (\<lambda>ct.
       if output = SMALL_DIM then bindR (opt KSkey) (\<lambda>ksk. ctx_SwitchCTtoqn ctx ksk ct) else Inr ct))"

definition ctx_KeySwitchGen ::
  "'a::len fhe_context \<Rightarrow> 'a nvec \<Rightarrow> 'a nvec \<Rightarrow> (nat \<Rightarrow> nat \<Rightarrow> nat \<Rightarrow> 'a nvec) \<Rightarrow> (nat \<Rightarrow> nat \<Rightarrow> nat \<Rightarrow> 'a word) \<Rightarrow> 'a lwe_ksk result" where
  "ctx_KeySwitchGen ctx sk skN genA genE = bindR (opt (c_lwe ctx)) (\<lambda>params. KeySwitchGen params sk skN genA genE)"

definition ctx_KeySwitchGen_MNTRU ::
  "'a::len fhe_context \<Rightarrow> 'a mntru_sk \<Rightarrow> 'a nvec list \<Rightarrow> (nat \<Rightarrow> 'a nvec) \<Rightarrow> 'a nvec list list result" where
  "ctx_KeySwitchGen_MNTRU ctx sk skN dgg = bindR (opt (c_mntru ctx)) (\<lambda>params. nt_KeySwitchGen params sk skN dgg)"

definition ctx_EvalConstant :: "'a::len fhe_context \<Rightarrow> bool \<Rightarrow> 'a lwe_ct result" where
  "ctx_EvalConstant ctx value = bindR (opt (c_lwe ctx)) (\<lambda>params. Inr (NoiselessEmbedding params (if value then 1 else 0)))"

definition GetBeta :: "'a::len word" where
  "GetBeta = 128"

definition GetMaxPlaintextSpace :: "'a::len fhe_context \<Rightarrow> 'a word result" where
  "GetMaxPlaintextSpace ctx = bindR (opt (c_lwe ctx)) (\<lambda>params. DividedBy (p_q params) (LShift GetBeta 1))"

section \<open>Bootstrapping keys and gates of the multi-party schemes\<close>

text \<open>
  The common body of the two overloads of \<^verbatim>\<open>MKBTKeyGen\<close>: \<open>keygen b\<close> is the key generation with the draws for
  the base \<open>b\<close>, \<open>digitsG b\<close> the number of digits in that base.  Reading a missing key of the map inserts an
  empty one.
\<close>

definition MKBTKeyGen_with ::
  "(32 word \<Rightarrow> 32 word) \<Rightarrow> (32 word \<Rightarrow> 'a::len uni_params \<Rightarrow> 'a ftt_cache \<Rightarrow> ('a ftt_cache \<times> 'a mk_btkey) result)
     \<Rightarrow> 'a fhe_context \<Rightarrow> 'a ftt_cache \<Rightarrow> ('a ftt_cache \<times> 'a fhe_context) result" where
  "MKBTKeyGen_with digitsG keygen ctx cache =
     bindR (opt (c_uni ctx)) (\<lambda>U.
     let temp = up_baseG U in
     bindR (if c_timeOptimization ctx
            then bindR (foldR (\<lambda>b (cache, U, m).
                     let U = Change_BaseG b (digitsG b) U in
                     bindR (keygen b U cache) (\<lambda>(cache, K). Inr (cache, U, m(b \<mapsto> K))))
                   (sorted_list_of_set (dom (up_Gpower_map U))) (cache, U, c_MKBTKey_map ctx)) (\<lambda>(cache, U, m).
                 Inr (cache, Change_BaseG temp (digitsG temp) U, m))
            else Inr (cache, U, c_MKBTKey_map ctx)) (\<lambda>(cache, U, m).
     let ctx = ctx \<lparr> c_uni := Some U, c_MKBTKey_map := m \<rparr> in
     if m \<noteq> Map.empty
     then Inr (cache, ctx \<lparr> c_MKBTKey := (case m temp of None \<Rightarrow> no_btkey | Some K \<Rightarrow> K),
                            c_MKBTKey_map := (case m temp of None \<Rightarrow> m(temp \<mapsto> no_btkey) | Some K \<Rightarrow> m) \<rparr>)
     else bindR (keygen temp U cache) (\<lambda>(cache, K).
            Inr (cache, ctx \<lparr> c_MKBTKey := K, c_MKBTKey_map := m(temp \<mapsto> K) \<rparr>))))"

definition ctx_MKBTKeyGen_MNTRU ::
  "'a::len arb_transform \<Rightarrow> (32 word \<Rightarrow> 32 word) \<Rightarrow> 'a mntru_sk
     \<Rightarrow> (32 word \<Rightarrow> nat \<Rightarrow> 32 word list \<times> 32 word list) \<Rightarrow> (32 word \<Rightarrow> nat \<Rightarrow> 'a nvec) \<Rightarrow> (32 word \<Rightarrow> nat \<Rightarrow> nat \<Rightarrow> 'a nvec)
     \<Rightarrow> (32 word \<Rightarrow> nat \<Rightarrow> nat \<Rightarrow> nat \<Rightarrow> 'a key_noise) \<Rightarrow> 'a fhe_context \<Rightarrow> 'a ftt_cache \<Rightarrow> ('a ftt_cache \<times> 'a fhe_context) result" where
  "ctx_MKBTKeyGen_MNTRU arb digitsG sk ntl dggKS e rnd ctx cache =
     MKBTKeyGen_with digitsG (\<lambda>b U cache.
       bindR (opt (c_mntru ctx)) (\<lambda>mp. bindR (opt (c_method ctx)) (\<lambda>method.
         MKKeyGen method arb mp U sk (ntl b) (dggKS b) (e b) (rnd b) cache))) ctx cache"

definition ctx_MKBTKeyGen_MKLWE ::
  "'a::len arb_transform \<Rightarrow> (32 word \<Rightarrow> 32 word) \<Rightarrow> 'a nvec list
     \<Rightarrow> (32 word \<Rightarrow> nat \<Rightarrow> 32 word list \<times> 32 word list) \<Rightarrow> (32 word \<Rightarrow> nat \<Rightarrow> nat \<Rightarrow> nat \<Rightarrow> nat \<Rightarrow> 'a nvec)
     \<Rightarrow> (32 word \<Rightarrow> nat \<Rightarrow> nat \<Rightarrow> nat \<Rightarrow> nat \<Rightarrow> 'a word) \<Rightarrow> (32 word \<Rightarrow> nat \<Rightarrow> nat \<Rightarrow> 'a nvec)
     \<Rightarrow> (32 word \<Rightarrow> nat \<Rightarrow> nat \<Rightarrow> nat \<Rightarrow> 'a key_noise) \<Rightarrow> 'a fhe_context \<Rightarrow> 'a ftt_cache \<Rightarrow> ('a ftt_cache \<times> 'a fhe_context) result" where
  "ctx_MKBTKeyGen_MKLWE arb digitsG sk ntl genA genE e rnd ctx cache =
     MKBTKeyGen_with digitsG (\<lambda>b U cache.
       bindR (opt (c_mklwe ctx)) (\<lambda>mp. bindR (opt (c_method ctx)) (\<lambda>method.
         MKKeyGen_LWE method arb mp U sk (ntl b) (genA b) (genE b) (e b) (rnd b) cache))) ctx cache"

definition ctx_ctGateGen :: "'a::len mntru_sk \<Rightarrow> BINGATE \<Rightarrow> (nat \<Rightarrow> 'a nvec) \<Rightarrow> 'a fhe_context \<Rightarrow> 'a fhe_context result" where
  "ctx_ctGateGen sk gate dgg ctx =
     bindR (opt (c_method ctx)) (\<lambda>_. bindR (opt (c_mntru ctx)) (\<lambda>mp.
     bindR (ctGateGen mp sk gate dgg) (\<lambda>ct. Inr (ctx \<lparr> c_ctNAND := Some ct \<rparr>))))"

definition ctx_EvalBinGate_MNTRU ::
  "'a::len arb_transform \<Rightarrow> 'a fhe_context \<Rightarrow> BINGATE \<Rightarrow> bool \<Rightarrow> 'a mntru_ct \<Rightarrow> 'a mntru_ct \<Rightarrow> 'a ftt_cache
     \<Rightarrow> ('a ftt_cache \<times> 'a mntru_ct) result" where
  "ctx_EvalBinGate_MNTRU arb ctx gate aliased ct1 ct2 cache =
     bindR (opt (c_method ctx)) (\<lambda>method. bindR (opt (c_mntru ctx)) (\<lambda>mp. bindR (opt (c_uni ctx)) (\<lambda>U.
     bindR (if aliased then Inr (MNTRUCiphertext []) else opt (c_ctNAND ctx)) (\<lambda>ctNAND.
       EvalBinGate_MNTRU method arb mp U gate (c_MKBTKey ctx) aliased ct1 ct2 ctNAND cache))))"

definition ctx_EvalBinGate_MKLWE ::
  "'a::len arb_transform \<Rightarrow> 'a fhe_context \<Rightarrow> BINGATE \<Rightarrow> bool \<Rightarrow> 'a mklwe_ct \<Rightarrow> 'a mklwe_ct \<Rightarrow> 'a ftt_cache
     \<Rightarrow> ('a ftt_cache \<times> 'a mklwe_ct) result" where
  "ctx_EvalBinGate_MKLWE arb ctx gate aliased ct1 ct2 cache =
     bindR (opt (c_method ctx)) (\<lambda>method. bindR (opt (c_mklwe ctx)) (\<lambda>mp. bindR (opt (c_uni ctx)) (\<lambda>U.
       EvalBinGate_MKLWE method arb mp U gate (c_MKBTKey ctx) aliased ct1 ct2 cache)))"

section \<open>The ring parameters of a power of two\<close>

lemma ucast_power_two:
  assumes "k < LENGTH('a)" "k < LENGTH('b)"
  shows "ucast (2 ^ k :: 'a::len word) = (2 ^ k :: 'b::len word)"
proof (rule word_uint_eqI)
  have "(2 :: int) ^ k < 2 ^ LENGTH('b)" using assms(2) by (rule power_strict_increasing) simp
  then show "uint (ucast (2 ^ k :: 'a word) :: 'b word) = uint (2 ^ k :: 'b word)"
    by (simp add: unsigned_ucast_eq uint_power_two assms take_bit_eq_mod)
qed

lemma PrimeFactorize_power_two:
  assumes "Suc k < 64" "fs = [] \<or> fs = [2]"
  shows "PrimeFactorize draw (2 ^ Suc k :: 64 word) fs g = Some (Inr ([2], g))"
  using assms
proof (induction k arbitrary: fs)
  case 0
  then show ?case by (auto simp: PrimeFactorize_of_two insort_insert_key_def)
next
  case (Suc k)
  have u: "uint (2 ^ Suc (Suc k) :: 64 word) = 2 ^ Suc (Suc k)" "uint (2 ^ Suc k :: 64 word) = 2 ^ Suc k"
    using Suc.prems by (intro uint_power_two; simp)+
  have w2: "uint (2 :: 64 word) = 2" by simp
  have d: "(2 ^ Suc (Suc k) :: 64 word) div 2 = 2 ^ Suc k"
    by (rule word_uint_eqI) (simp only: uint_div_eq u, simp)
  have "(2 ^ Suc (Suc k) :: int) \<noteq> 0 \<and> (2 ^ Suc (Suc k) :: int) \<noteq> 2"
    using one_le_power [of "2 :: int" k] by (simp, presburger)
  then have "(2 ^ Suc (Suc k) :: 64 word) \<noteq> 0 \<and> (2 ^ Suc (Suc k) :: 64 word) \<noteq> 2"
    using u(1) by (metis unsigned_0 w2)
  moreover have "Mod (2 ^ Suc (Suc k) :: 64 word) 2 = 0"
    unfolding Mod_def even_iff_mod_2_eq_zero [symmetric] by simp
  ultimately have "PrimeFactorize draw (2 ^ Suc (Suc k) :: 64 word) fs g
      = PrimeFactorize draw (2 ^ Suc k) (insort_insert 2 fs) g"
    by (simp add: PrimeFactorize_even d del: power_Suc)
  moreover have "insort_insert 2 fs = [2]" using Suc.prems(2) by (auto simp: insort_insert_key_def)
  ultimately show ?case using Suc.IH [of "[2]"] Suc.prems(1) by (simp only:) simp
qed

lemma GetTotient_power_two:
  assumes "Suc k < 64"
  shows "GetTotient draw (2 ^ Suc k) g = Some (Inr (2 ^ k, g))"
proof -
  have u: "uint (2 ^ Suc k :: 64 word) = 2 ^ Suc k" "uint (2 ^ k :: 64 word) = 2 ^ k"
    using assms by (intro uint_power_two; simp)+
  have "(2 ^ Suc k :: 64 word) div 2 = 2 ^ k" by (rule word_uint_eqI) (simp only: uint_div_eq u, simp)
  moreover have "PrimeFactorize draw (2 ^ Suc k :: 64 word) [] g = Some (Inr ([2], g))"
    using assms by (intro PrimeFactorize_power_two) simp_all
  ultimately show ?thesis by (simp add: GetTotient_def MulFast_def SubFast_def del: power_Suc)
qed

lemma ILNativeParams_result:
  fixes q :: "'a::len word"
  assumes q: "prime_int (uint q)" "barrett_modulus q" and L: "0 < L" "L \<le> 24" "L < LENGTH('a)"
    and m: "(uint q - 1) mod 2 ^ Suc L = 0"
    and run: "ILNativeParams draw (2 ^ Suc L) q g = Some (Inr (P, g'))"
  shows "ring_params L P \<and> ciphertextModulus P = q \<and> (\<forall>y. neg_root (uint q) (2 ^ L) y \<longrightarrow> uint (rootOfUnity P) \<le> y)"
proof -
  have u: "uint (2 ^ Suc L :: 32 word) = 2 ^ Suc L" using L by (intro uint_power_two) simp
  have "(ucast (2 ^ Suc L :: 32 word) :: 64 word) = 2 ^ Suc L" using L by (intro ucast_power_two) simp_all
  then have t: "GetTotient draw (ucast (2 ^ Suc L :: 32 word)) g = Some (Inr (2 ^ L, g))" for g
    using L GetTotient_power_two [of L draw g] by (simp only:)
  have w: "(ucast (2 ^ L :: 64 word) :: 32 word) = 2 ^ L" using L by (intro ucast_power_two) simp_all
  from run obtain r where r: "RootOfUnity draw (2 ^ Suc L) q g = Some (Inr (r, g'))"
    "P = \<lparr> cyclotomicOrder = 2 ^ Suc L, ringDimension = 2 ^ L, ciphertextModulus = q, rootOfUnity = r,
         bigCiphertextModulus = 0, bigRootOfUnity = 0 \<rparr>"
    unfolding ILNativeParams_def bindO_eq_Inr case_prod_beta t by (auto simp: w simp del: power_Suc)
  have least: "neg_root (uint q) (2 ^ L) (uint r) \<and> (\<forall>y. neg_root (uint q) (2 ^ L) y \<longrightarrow> uint r \<le> y)"
    using q u _ r(1) by (rule RootOfUnity_result) (simp only: u m)
  have "2 ^ Suc L dvd uint q - 1" using m by (simp only: dvd_eq_mod_eq_0)
  then have "2 dvd uint q - 1" by (rule dvd_trans [rotated]) simp
  then have "odd (uint q)" by presburger
  moreover have "- 1 mod uint q = uint q - 1" using q(1) by (simp add: prime_int_def zmod_minus1)
  ultimately have "valid_root q L r" using least q(2) L by (simp add: valid_root_def residue_def neg_root_def word_less_def)
  then show ?thesis using least by (simp add: r(2) ring_params_def)
qed


section \<open>Properties\<close>

text \<open>C13.  The ring of a context: modulo a prime, a run of the constructor \<^verbatim>\<open>ILNativeParams\<close> with a power of two as
  cyclotomic order returns the parameters that every theorem on ring elements asks for, with half the order
  as dimension, the modulus, and the least root of \<open>X ^ n + 1\<close>: contexts with the same order and modulus
  agree on the ring whatever the random generator yields.\<close>

theorem ILNativeParams_ring:
  fixes q :: "'a::len word"
  assumes "prime_int (uint q)" "barrett_modulus q" "0 < L" "L \<le> 24" "L < LENGTH('a)" "(uint q - 1) mod 2 ^ Suc L = 0"
    and "ILNativeParams draw (2 ^ Suc L) q g = Some (Inr (P, g'))"
  shows "ring_params L P \<and> ciphertextModulus P = q \<and> (\<forall>y. neg_root (uint q) (2 ^ L) y \<longrightarrow> uint (rootOfUnity P) \<le> y)"
  using assms by (rule ILNativeParams_result)

definition example_ring :: "32 il_params" where
  "example_ring = \<lparr> cyclotomicOrder = 8, ringDimension = 4, ciphertextModulus = 17, rootOfUnity = 2,
     bigCiphertextModulus = 0, bigRootOfUnity = 0 \<rparr>"

theorem ILNativeParams_ring_witness:
  "ILNativeParams two_draws 8 (17 :: 32 word) 0 = Some (Inr (example_ring, 1)) \<and> ring_params 2 example_ring
    \<and> Collect (neg_root 17 4) \<subseteq> {2..}"
proof -
  have run: "ILNativeParams two_draws 8 (17 :: 32 word) 0 = Some (Inr (example_ring, 1))"
    using GetTotient_power_two [of 2 two_draws 1] by (simp add: ILNativeParams_def RootOfUnity_8_17 example_ring_def)
  have "prime_int (uint (17 :: 32 word))" "barrett_modulus (17 :: 32 word)" by code_simp+
  then have "ring_params 2 example_ring \<and> ciphertextModulus example_ring = 17
      \<and> (\<forall>y. neg_root (uint (17 :: 32 word)) (2 ^ 2) y \<longrightarrow> uint (rootOfUnity example_ring) \<le> y)"
    by (rule ILNativeParams_ring [where draw = two_draws and g = 0 and g' = 1]) (simp_all add: run)
  then show ?thesis using run by (auto simp: example_ring_def)
qed


text \<open>C19.  Bootstrapping keys are generated once: the first \<^verbatim>\<open>MKBTKeyGen\<close> of a context without time optimization
  stores the keys of \<^verbatim>\<open>MKKeyGen\<close> for the gadget base, and every later call, whatever secret key and draws it
  gets, keeps the first keys and draws nothing.\<close>

theorem MKBTKeyGen_keeps_first_keys:
  fixes ctx :: "'a::len fhe_context"
  assumes "c_uni ctx = Some U" "c_mklwe ctx = Some mp" "c_method ctx = Some method" "\<not> c_timeOptimization ctx"
    and "c_MKBTKey_map ctx = Map.empty"
    and "MKKeyGen_LWE method arb mp U sk (ntl (up_baseG U)) (genA (up_baseG U)) (genE (up_baseG U)) (e (up_baseG U))
      (rnd (up_baseG U)) cache = Inr (cache', K)"
  shows "\<exists>ctx'. ctx_MKBTKeyGen_MKLWE arb digitsG sk ntl genA genE e rnd ctx cache = Inr (cache', ctx')
    \<and> c_MKBTKey ctx' = K \<and> c_mklwe ctx' = Some mp \<and> c_uni ctx' = Some U
    \<and> ctx_MKBTKeyGen_MKLWE arb digitsG sk2 ntl2 genA2 genE2 e2 rnd2 ctx' cache2 = Inr (cache2, ctx')"
proof -
  define ctx' where "ctx' = ctx \<lparr> c_MKBTKey := K, c_MKBTKey_map := [up_baseG U \<mapsto> K] \<rparr>"
  have "ctx_MKBTKeyGen_MKLWE arb digitsG sk ntl genA genE e rnd ctx cache = Inr (cache', ctx')"
    using assms by (simp add: ctx_MKBTKeyGen_MKLWE_def MKBTKeyGen_with_def opt_def Let_def ctx'_def)
  moreover have "ctx_MKBTKeyGen_MKLWE arb digitsG sk2 ntl2 genA2 genE2 e2 rnd2 ctx' cache2 = Inr (cache2, ctx')"
    using assms by (simp add: ctx_MKBTKeyGen_MKLWE_def MKBTKeyGen_with_def opt_def Let_def ctx'_def)
  ultimately show ?thesis using assms by (auto simp: ctx'_def)
qed


definition ctx8 :: "32 fhe_context" where
  "ctx8 = BinFHEContext \<lparr> c_uni := Some uni8_keys, c_mklwe := Some gate8, c_method := Some MKNTRU_LWE \<rparr>"

theorem MKBTKeyGen_keeps_first_keys_witness:
  "\<exists>K ctx'. MKKeyGen_LWE MKNTRU_LWE (\<lambda>_ _. Inr) gate8 uni8_keys sv8 ntl8 (\<lambda>u i j k. sv8 ! 0) (\<lambda>u i j k. 2)
        (\<lambda>u i. vec8 0) (\<lambda>u b i. noise8) (fst ring8) = Inr (fst ring8, K)
    \<and> ctx_MKBTKeyGen_MKLWE (\<lambda>_ _. Inr) (\<lambda>_. 3) sv8 (\<lambda>_. ntl8) (\<lambda>_ u i j k. sv8 ! 0) (\<lambda>_ u i j k. 2) (\<lambda>_ u i. vec8 0)
        (\<lambda>_ u b i. noise8) ctx8 (fst ring8) = Inr (fst ring8, ctx')
    \<and> c_MKBTKey ctx' = K \<and> c_mklwe ctx' = Some gate8 \<and> c_uni ctx' = Some uni8_keys
    \<and> ctx_MKBTKeyGen_MKLWE (\<lambda>_ _. Inr) (\<lambda>_. 3) [] (\<lambda>_. ntl8) (\<lambda>_ u i j k. sv8 ! 0) (\<lambda>_ u i j k. 2) (\<lambda>_ u i. vec8 0)
        (\<lambda>_ u b i. noise8) ctx' (fst ring8) = Inr (fst ring8, ctx')"
proof -
  obtain K where K: "MKKeyGen_LWE MKNTRU_LWE (\<lambda>_ _. Inr) gate8 uni8_keys sv8 ntl8 (\<lambda>u i j k. sv8 ! 0) (\<lambda>u i j k. 2)
        (\<lambda>u i. vec8 0) (\<lambda>u b i. noise8) (fst ring8) = Inr (fst ring8, K)"
    using MKKeyGen_LWE_keys [OF keygen8_params _ keygen8_secrets keygen8_noise disjI2 [OF refl], where arb = "\<lambda>_ _. Inr"]
    by fastforce
  have c: "c_uni ctx8 = Some uni8_keys" "c_mklwe ctx8 = Some gate8" "c_method ctx8 = Some MKNTRU_LWE"
    "\<not> c_timeOptimization ctx8" "c_MKBTKey_map ctx8 = Map.empty"
    by (simp_all add: ctx8_def BinFHEContext_def)
  from MKBTKeyGen_keeps_first_keys [OF c, where ntl = "\<lambda>_. ntl8" and genA = "\<lambda>_ u i j k. sv8 ! 0" and genE = "\<lambda>_ u i j k. 2"
      and e = "\<lambda>_ u i. vec8 0" and rnd = "\<lambda>_ u b i. noise8", OF K] K
  show ?thesis by blast
qed

section \<open>The multi-key sets\<close>

text \<open>A run of the context generator with a multi-key LWE method stores the parameters of the set.\<close>

lemma GenerateBinFHEContext_mklwe:
  assumes "GenerateBinFHEContext arb lc crs draw pset MKNTRU_LWE ctx st = Some (Inr (ctx', st'))"
  obtains ps Q mp where "map_of paramsMap pset = Some ps" "c_mklwe ctx' = Some mp"
    "MKLWECryptoParams (cp_numUser ps) (cp_latticeParam ps) (cp_cyclOrder ps div 2) (word_of_nat (cp_mod ps)) Q
      (word_of_nat (cp_modKS ps)) (cp_baseKS ps) (cp_keyDist ps) = Inr mp"
  using assms
  by (auto simp: GenerateBinFHEContext_def bindO_eq_Inr set_params_def BinFHEScheme_def Let_def split: option.splits)

lemma binary_sets:
  assumes "map_of paramsMap pset = Some ps" "cp_keyDist ps = BINARY"
  shows "cp_mod ps = 32749 \<and> cp_modKS ps = 32749 \<and> 0 < cp_numUser ps \<and> cp_numUser ps \<le> 16 \<and> cp_latticeParam ps \<le> 635"
  using assms by (cases pset) (auto simp: paramsMap_def)

text \<open>What the random generators of a multi-key context return: vectors of the dimension and modulus asked for.\<close>

definition draws_ok :: "'a::len mklwe_params \<Rightarrow> (nat \<Rightarrow> 'a word \<Rightarrow> nat \<Rightarrow> 'a nvec) \<Rightarrow> (nat \<Rightarrow> 'a nvec) \<Rightarrow> bool" where
  "draws_ok mp bug dgg \<longleftrightarrow>
     (\<forall>u. nvec_ok (bug (mp_n mp) (mp_qKS mp) u) \<and> length (m_data (bug (mp_n mp) (mp_qKS mp) u)) = mp_n mp
        \<and> nvec_ok (dgg u) \<and> m_modulus (dgg u) = mp_q mp \<and> length (m_data (dgg u)) = mp_n mp)"



end
