(* ===== verification/Spec2Isabelle.thy ===== *)
theory Spec2Isabelle
  imports NTRUGate NbPoly FHEContext
begin

text \<open>
  A verification of the boolean multi-party homomorphic encryption of MKFHE, an extension of the OpenFHE
  library: the arithmetic of \<^verbatim>\<open>src/src/core\<close> that it uses and the schemes of \<^verbatim>\<open>src/src/binfhe\<close> that it adds.

  \<^bold>\<open>The program.\<close>  Native integers (\<^verbatim>\<open>ubintnat.h\<close>) carry the modular arithmetic; vectors of residues
  (\<^verbatim>\<open>mubintvecnat\<close>) are built from them, and ring elements (\<^verbatim>\<open>poly.h\<close>, \<^verbatim>\<open>poly-impl.h\<close>) are vectors with a
  format, changed by number theoretic transforms with cached tables (\<^verbatim>\<open>transformnat-impl.h\<close>).  Three
  encryption schemes encode a message in the phase of a ciphertext: LWE, multi-key LWE with one mask per
  party, and matrix NTRU (\<^verbatim>\<open>lwe-pke.cpp\<close>, \<^verbatim>\<open>mklwe-pke.cpp\<close>, \<^verbatim>\<open>mntru-pke.cpp\<close>).  A gate adds ciphertexts,
  and bootstraps: a blind rotation (\<^verbatim>\<open>mk-acc-xzw.cpp\<close>, \<^verbatim>\<open>mk-acc-xzw_B.cpp\<close>) multiplies a test polynomial by
  \<open>X\<close> to the phase under keys of all parties, the constant coefficient of the result is extracted, and a
  modulus switch and a key switch lead back to a ciphertext of the scheme (\<^verbatim>\<open>binfhe-base-scheme.cpp\<close>).

  \<^bold>\<open>The theories\<close>, in the order of their imports.

  \<^item> \<open>Prelude\<close>: exceptions and undefined behaviour as values of a sum type, sequencing with \<open>bindR\<close>,
    machine words with their double width, shared facts on quotients and remainders.
  \<^item> \<open>NativeInt\<close> (\<^verbatim>\<open>ubintnat.h\<close>, \<^verbatim>\<open>nbtheory.h\<close>): the members of \<^verbatim>\<open>NativeIntegerT\<close> at every word width; each
    lemma gives the integer value of an operation.  The locale \<open>modular_ops\<close> is the interface of modular
    arithmetic, with the fast, the checked and the Barrett variants as interpretations.
  \<^item> \<open>DoubleArith\<close>: \<^verbatim>\<open>RoundqQ\<close> and \<^verbatim>\<open>MultiplyAndRound\<close> in double precision, as rationals rounded to 53
    bits, and the ranges in which they round exactly.
  \<^item> \<open>NativeVec\<close> (\<^verbatim>\<open>mubintvecnat.cpp\<close>): vectors of residues, their invariant and the value of every
    operation, errors included.
  \<^item> \<open>SchemeLib\<close>: the loops that the encryption schemes share, and the locale \<open>linear_scheme\<close>, from which
    decryption and homomorphic addition follow for all three schemes.
  \<^item> \<open>LWE\<close>, \<open>MKLWE\<close>, \<open>MNTRU\<close>: the schemes with parameters, keys, ciphertexts, encryption, decryption,
    modulus switch and key switch, each an interpretation of \<open>linear_scheme\<close>.
  \<^item> \<open>NbTheory\<close>, \<open>NTT\<close>, \<open>FTT\<close>: bit reversal, the transforms as loops over an array with the butterfly as an
    argument (the locales \<open>ntt_forward\<close> and \<open>ntt_pair\<close>, interpreted for all variants), and the static table
    caches, whose reachable states are an inductive predicate.
  \<^item> \<open>Primality\<close>, \<open>UnityRoots\<close>, \<open>NbPoly\<close> (\<^verbatim>\<open>nbtheory-impl.h\<close>, \<^verbatim>\<open>nbtheory2.cpp\<close>): the Miller-Rabin test, factorization,
    generators, roots of unity and searches for primes; the root of unity is the least one, the search for a
    prime returns, Pollard's loop ends; cyclotomic polynomials, polynomial remainders and automorphism indices.
  \<^item> \<open>LatticeParms\<close> (\<^verbatim>\<open>stdlatticeparms.cpp\<close>): the table of standard parameters and its lookups.
  \<^item> \<open>Poly\<close>: ring elements; they implement the ring of polynomials modulo \<open>X ^ n + 1\<close> and the modulus.
  \<^item> \<open>SignedDigit\<close> (\<^verbatim>\<open>SignedDigitDecompose\<close> of the accumulators): digits within half the base that
    recompose a coefficient.
  \<^item> \<open>MKAcc\<close>: the parameters \<^verbatim>\<open>UniEncCryptoParams\<close>, the key generation, the hybrid product and the steps of
    the two blind rotations.  The locale \<open>eval_arith\<close> is the interface of arithmetic on evaluations.
  \<^item> \<open>MKPhase\<close>, \<open>MKRotate\<close>: the phase of a hybrid product, the form of generated keys, and the blind
    rotation as multiplication of the joint phase by \<open>X\<close> to the inner product.
  \<^item> \<open>MKGates\<close>: the multi-party part of \<^verbatim>\<open>BinFHEScheme\<close>.  \<open>MKBoot\<close>: rotation of the test polynomial,
    extraction and the bootstrapping core.  \<open>MKNand\<close>: the NAND gate.  \<open>MKKeys\<close>: the generated keys have the
    form that the gate needs, and the output of the gate decrypts to the NAND of the inputs.
    \<open>NTRUGate\<close>: the same from key generation to decryption for the gate of the matrix NTRU scheme.
  \<^item> \<open>FHEContext\<close> (\<^verbatim>\<open>binfhecontext.cpp\<close>, \<^verbatim>\<open>ilparams.h\<close>, \<^verbatim>\<open>rgsw-cryptoparameters.cpp\<close>): the table of parameter sets, the
    construction of a context with its prime and its ring, and the operations that the context passes on to
    the schemes.  The ring it builds has the form that \<open>Poly\<close> asks for; encryption and decryption are inverse
    on the multi-key sets of the table; bootstrapping keys are generated once; three sets are unusable.

  \<^bold>\<open>Correspondence.\<close>  A class is a record with the fields of the class, an enumeration a datatype, a member
  function a definition that takes its object first and returns the new one.  Names follow the source; a
  prefix \<open>mk_\<close> or \<open>nt_\<close> or a suffix tells overloads apart.  Words keep their width and wrap around as in
  C++.  Every exception is the error value of its class, and an access out of bounds, a null pointer, a
  division by zero or a signed overflow is the value \<^const>\<open>undefined_behaviour\<close>, so that a theorem that
  states the result of a run excludes them.  Loops are structural recursions, folds over index lists or
  functions with a termination proof; no definition takes fuel.  The rejection loops and searches of the number
  theory, whose end depends on the random draws, are partial functions into an option type: \<open>None\<close> is a run that
  does not return, and the draws come from a generator that is an argument (\<open>bindO\<close> sequences such runs).

  \<^bold>\<open>Arguments that stand for other code.\<close>  The vectors that random generators return; the matrices and
  polynomials that NTL draws and inverts, with the law of an inverse as hypothesis; the numbers of digits
  that come from floating point logarithms; the draws of the random search for a root of unity (the theories up
  to \<open>MKKeys\<close> take the ring parameters it yields as an argument, \<open>FHEContext\<close> computes them);
  the transforms for dimensions that are not half the cyclotomic order; whether two ciphertext pointers are
  equal.

  \<^bold>\<open>Noise.\<close>  The theorems on gates state the phase of a result exactly, as the encoded message plus named
  noise terms, and decryption under the condition that these terms are within the budget of the output.
  How large Gaussian noise is with which probability is not modelled.  The generated keys multiply the
  common reference string by a single value of the mask (a finding of the manifest), which the noise terms
  of the theorems contain as it is.

  \<^bold>\<open>Not modelled.\<close>  Probability distributions and security; serialization, output and debugging code,
  whose effects are input and output; the single-key accumulators (DM, CGGI, LMKCDEY and the NTRU variant)
  with the gates, functions and decompositions on them; multi-precision integers, RNS polynomials and
  the CKKS, BGV and BFV schemes of \<^verbatim>\<open>src/src/pke\<close>, none of which the multi-party schemes call.

  \<^bold>\<open>Plan.\<close>  Next are the single-key accumulators, whose parameters, digits and ring arithmetic are here already, and
  the gates and functions of \<^verbatim>\<open>BinFHEScheme\<close> on them.
\<close>

end
